(* ===== verification/Prelude.thy ===== *)
theory Prelude
  imports Main "HOL-Library.Word"
begin

text \<open>
  Shared vocabulary of the development: names for the C integer types, the result type of
  kernel functions that may call \<^verbatim>\<open>panic\<close>, C's 32-bit signed wrap-around, and the
  generic list facts the component theories use.
\<close>

section \<open>C integer types\<close>

type_synonym u8 = "8 word"
type_synonym u16 = "16 word"
type_synonym u32 = "32 word"
type_synonym u64 = "64 word"

text \<open>
  A C \<^verbatim>\<open>int\<close> is kept as an \<^typ>\<open>int\<close>; where an addition can leave the 32-bit range
  the compiled code (\<^verbatim>\<open>addw\<close> on RISC-V) keeps the low 32 bits, read as two's complement.
\<close>

definition s32 :: "int \<Rightarrow> int" where
  "s32 x = (x + 2 ^ 31) mod 2 ^ 32 - 2 ^ 31"

lemma s32_id: "- (2 ^ 31) \<le> x \<Longrightarrow> x < 2 ^ 31 \<Longrightarrow> s32 x = x"
  by (simp add: s32_def)

lemma s32_range: "- (2 ^ 31) \<le> s32 x \<and> s32 x < 2 ^ 31"
  unfolding s32_def
  using pos_mod_bound [of "2 ^ 32" "x + 2 ^ 31"] pos_mod_sign [of "2 ^ 32" "x + 2 ^ 31"]
  by simp

lemma unat_u8_less: "unat (b :: u8) < 256"
proof -
  have "unat b < 2 ^ LENGTH(8)" by (rule unsigned_less)
  then show ?thesis by simp
qed

section \<open>Functions that may panic or sleep\<close>

text \<open>
  A kernel function returns, panics, or goes to sleep in a place from which only another
  process can wake it; the models of the functions end there.
\<close>

datatype 'a res = Ok 'a | Panic string | Sleeps

fun bind_res :: "'a res \<Rightarrow> ('a \<Rightarrow> 'b res) \<Rightarrow> 'b res" where
  "bind_res (Ok x) f = f x"
| "bind_res (Panic m) f = Panic m"
| "bind_res Sleeps f = Sleeps"

lemma bind_res_Ok_iff: "bind_res r f = Ok y \<longleftrightarrow> (\<exists>x. r = Ok x \<and> f x = Ok y)"
  by (cases r) auto

lemma bind_res_assoc: "bind_res (bind_res r f) g = bind_res r (\<lambda>x. bind_res (f x) g)"
  by (cases r) auto

text \<open>A computation that may also run for ever, or out of the steps it was given: \<open>None\<close>.\<close>

fun bind_ro :: "'a res option \<Rightarrow> ('a \<Rightarrow> 'b res option) \<Rightarrow> 'b res option" where
  "bind_ro (Some (Ok x)) f = f x"
| "bind_ro (Some (Panic e)) f = Some (Panic e)"
| "bind_ro (Some Sleeps) f = Some Sleeps"
| "bind_ro None f = None"

lemma bind_ro_Ok_iff: "bind_ro r f = Some (Ok y) \<longleftrightarrow> (\<exists>x. r = Some (Ok x) \<and> f x = Some (Ok y))"
  by (cases "(r, f)" rule: bind_ro.cases) auto

lemma bind_ro_None_iff: "bind_ro r f = None \<longleftrightarrow> r = None \<or> (\<exists>x. r = Some (Ok x) \<and> f x = None)"
  by (cases "(r, f)" rule: bind_ro.cases) auto

fun is_ok :: "'a res \<Rightarrow> bool" where
  "is_ok (Ok _) = True"
| "is_ok (Panic _) = False"
| "is_ok Sleeps = False"

text \<open>
  Calls that transfer data in pieces: \<open>Done\<close> is the return value, \<open>Wait\<close> a sleep after the
  given number of pieces, from where the caller goes on when it is woken.
\<close>

datatype 'a step = Done int 'a | Wait nat 'a

text \<open>The user bytes at offsets \<open>i\<close> to \<open>j\<close> from an address.\<close>

definition user_bytes :: "(nat \<Rightarrow> u8 option) \<Rightarrow> nat \<Rightarrow> nat \<Rightarrow> nat \<Rightarrow> u8 list" where
  "user_bytes copyin addr i j = map (\<lambda>t. the (copyin (addr + t))) [i..<j]"

lemma user_bytes_map: "map (\<lambda>t. copyin (addr + i + t)) [0..<j] = map Some bs \<Longrightarrow> user_bytes copyin addr i (i + j) = bs"
proof -
  assume a: "map (\<lambda>t. copyin (addr + i + t)) [0..<j] = map Some bs"
  have "user_bytes copyin addr i (i + j) = map (\<lambda>t. the (copyin (addr + (i + t)))) [0..<j]"
    unfolding user_bytes_def by (rule nth_equalityI) simp_all
  also have "\<dots> = map the (map (\<lambda>t. copyin (addr + i + t)) [0..<j])" by (simp add: add.assoc)
  finally show ?thesis unfolding a by (simp add: comp_def)
qed

lemma user_bytes_none: "j \<le> i \<Longrightarrow> user_bytes copyin addr i j = []"
  by (simp add: user_bytes_def)

section \<open>Lists\<close>

lemma nth_list_update_if:
  "xs[i := v] ! j = (if i = j \<and> i < length xs then v else xs ! j)"
  by (cases "i < length xs") (auto simp: list_update_beyond)

lemma remove1_split:
  assumes "distinct (xs @ x # ys)"
  shows "remove1 x (xs @ x # ys) = xs @ ys"
  using assms by (simp add: remove1_append)

lemma take_Suc_snoc: "n < length xs \<Longrightarrow> take (Suc n) xs = take n xs @ [xs ! n]"
  by (rule take_Suc_conv_app_nth)

lemma find_mem: "find P xs = Some x \<Longrightarrow> x \<in> set xs \<and> P x"
  by (induction xs) (auto split: if_splits)

text \<open>A 32-bit unsigned counter that is not zero can be decremented.\<close>

lemma dec32: "0 < r \<Longrightarrow> r < 2 ^ 32 \<Longrightarrow> (r + 2 ^ 32 - 1) mod 2 ^ 32 = r - (1 :: nat)"
  by (cases r) simp_all

end
