(* ===== verification/Fifo_Interface.thy ===== *)
theory Fifo_Interface
  imports Prelude
begin

text \<open>
  The contract of a bounded first-in first-out buffer, as every ring buffer of the sources
  promises it to the code that fills and drains it: the journaling service's request
  buffers, the kernel's pipes and the UART transmit buffer. Clients use the laws of the
  locale; each component interprets it on its own definitions.
\<close>

text \<open>Taking \<open>n\<close> elements out, one \<open>deq\<close> after another.\<close>

fun deq_n :: "('q \<Rightarrow> 'a option \<times> 'q) \<Rightarrow> nat \<Rightarrow> 'q \<Rightarrow> 'a option list \<times> 'q" where
  "deq_n deq 0 q = ([], q)"
| "deq_n deq (Suc n) q =
     (let (x, q') = deq q; (xs, q'') = deq_n deq n q' in (x # xs, q''))"

locale bounded_fifo =
  fixes invar :: "'q \<Rightarrow> bool"
    and contents :: "'q \<Rightarrow> 'a list"
    and capacity :: nat
    and enq :: "'q \<Rightarrow> 'a \<Rightarrow> 'q"
    and deq :: "'q \<Rightarrow> 'a option \<times> 'q"
  assumes contents_bound: "invar q \<Longrightarrow> length (contents q) \<le> capacity"
    and enq_invar: "invar q \<Longrightarrow> length (contents q) < capacity \<Longrightarrow> invar (enq q x)"
    and enq_contents:
      "invar q \<Longrightarrow> length (contents q) < capacity \<Longrightarrow> contents (enq q x) = contents q @ [x]"
    and deq_invar: "invar q \<Longrightarrow> contents q \<noteq> [] \<Longrightarrow> invar (snd (deq q))"
    and deq_value: "invar q \<Longrightarrow> contents q \<noteq> [] \<Longrightarrow> fst (deq q) = Some (hd (contents q))"
    and deq_contents: "invar q \<Longrightarrow> contents q \<noteq> [] \<Longrightarrow> contents (snd (deq q)) = tl (contents q)"
begin

lemma fold_enq:
  assumes "invar q" and "length (contents q) + length xs \<le> capacity"
  shows "invar (foldl enq q xs) \<and> contents (foldl enq q xs) = contents q @ xs"
  using assms
proof (induction xs arbitrary: q)
  case Nil
  then show ?case by simp
next
  case (Cons x xs)
  then have "length (contents q) < capacity" by simp
  with Cons.prems(1) have q': "invar (enq q x)" "contents (enq q x) = contents q @ [x]"
    by (simp_all add: enq_invar enq_contents)
  from Cons.IH [OF q'(1)] q'(2) Cons.prems(2) show ?case by simp
qed

lemma deq_n_contents:
  assumes "invar q" and "n \<le> length (contents q)"
  shows "fst (deq_n deq n q) = map Some (take n (contents q)) \<and>
         invar (snd (deq_n deq n q)) \<and> contents (snd (deq_n deq n q)) = drop n (contents q)"
  using assms
proof (induction n arbitrary: q)
  case 0
  then show ?case by simp
next
  case (Suc n)
  then obtain x ys where c: "contents q = x # ys"
    by (cases "contents q") auto
  with Suc.prems(1) have q': "invar (snd (deq q))" "contents (snd (deq q)) = ys"
      "fst (deq q) = Some x"
    by (simp_all add: deq_invar deq_contents deq_value)
  from Suc.IH [OF q'(1)] Suc.prems(2) c q' show ?case
    by (auto simp: Let_def split: prod.split)
qed

text \<open>What goes in comes out, in the same order, after what was there before.\<close>

lemma fifo_order:
  assumes "invar q" and "length (contents q) + length xs \<le> capacity"
  shows "fst (deq_n deq (length (contents q) + length xs) (foldl enq q xs)) =
         map Some (contents q @ xs)"
  using fold_enq [OF assms] deq_n_contents [of "foldl enq q xs" "length (contents q) + length xs"]
  by simp

end

end
