(* ===== verification/Journal_Ring.thy ===== *)
theory Journal_Ring
  imports Fifo_Interface
begin

text \<open>
  The circular buffers of the metadata journaling service
  (\<^verbatim>\<open>Metadata journaling service/journal.c\<close>, \<^verbatim>\<open>circ_buff_t\<close>, \<^verbatim>\<open>enqueue\<close>,
  \<^verbatim>\<open>dequeue\<close>) and their refinement to bounded lists. The C functions do not check for a
  full or an empty buffer: the size counter moves past its bounds and the slot that is
  overwritten or read is whatever the indices name.
\<close>

section \<open>The buffer\<close>

abbreviation BUFFER_SIZE :: nat where
  "BUFFER_SIZE \<equiv> 8"

record 'w circ_buff_t =
  cb_buffer :: "'w option list"
  cb_head :: nat
  cb_tail :: nat
  cb_size :: int

text \<open>A global variable of the C program: every slot NULL, every counter 0.\<close>

definition circ_buff_zero :: "'w circ_buff_t" where
  "circ_buff_zero =
     \<lparr>cb_buffer = replicate BUFFER_SIZE None, cb_head = 0, cb_tail = 0, cb_size = 0\<rparr>"

definition enqueue :: "'w circ_buff_t \<Rightarrow> 'w \<Rightarrow> 'w circ_buff_t" where
  "enqueue currBuffer wr =
     (let nextHead = cb_head currBuffer + 1;
          nextHead = (if nextHead \<ge> BUFFER_SIZE then 0 else nextHead)
      in currBuffer
           \<lparr>cb_buffer := (cb_buffer currBuffer)[cb_head currBuffer := Some wr],
            cb_head := nextHead,
            cb_size := cb_size currBuffer + 1\<rparr>)"

definition dequeue :: "'w circ_buff_t \<Rightarrow> 'w option \<times> 'w circ_buff_t" where
  "dequeue currBuffer =
     (let nextTail = cb_tail currBuffer + 1;
          nextTail = (if nextTail \<ge> BUFFER_SIZE then 0 else nextTail);
          wr = cb_buffer currBuffer ! cb_tail currBuffer
      in (wr, currBuffer\<lparr>cb_tail := nextTail, cb_size := cb_size currBuffer - 1\<rparr>))"

section \<open>Refinement to a bounded list\<close>

definition ring_invar :: "'w circ_buff_t \<Rightarrow> bool" where
  "ring_invar b \<longleftrightarrow>
     length (cb_buffer b) = BUFFER_SIZE \<and> cb_tail b < BUFFER_SIZE \<and>
     0 \<le> cb_size b \<and> cb_size b \<le> int BUFFER_SIZE \<and>
     cb_head b = (cb_tail b + nat (cb_size b)) mod BUFFER_SIZE \<and>
     (\<forall>k < nat (cb_size b). cb_buffer b ! ((cb_tail b + k) mod BUFFER_SIZE) \<noteq> None)"

definition ring_list :: "'w circ_buff_t \<Rightarrow> 'w list" where
  "ring_list b =
     map (\<lambda>k. the (cb_buffer b ! ((cb_tail b + k) mod BUFFER_SIZE))) [0..<nat (cb_size b)]"

lemma length_ring_list [simp]: "length (ring_list b) = nat (cb_size b)"
  by (simp add: ring_list_def)

lemma ring_invar_zero [simp]: "ring_invar circ_buff_zero"
  by (simp add: ring_invar_def circ_buff_zero_def)

lemma ring_list_zero [simp]: "ring_list circ_buff_zero = []"
  by (simp add: ring_list_def circ_buff_zero_def)

lemma wrap_eq_mod: "n < BUFFER_SIZE \<Longrightarrow> (if n + 1 \<ge> BUFFER_SIZE then 0 else n + 1) = Suc n mod BUFFER_SIZE"
  by (auto simp: mod_Suc)

lemma slot_neq_head:
  assumes "(k::nat) < n" and "n < BUFFER_SIZE"
  shows "(t + k) mod BUFFER_SIZE \<noteq> (t + n) mod BUFFER_SIZE"
proof
  assume "(t + k) mod BUFFER_SIZE = (t + n) mod BUFFER_SIZE"
  then have "BUFFER_SIZE dvd (t + n) - (t + k)"
    using assms by (intro mod_eq_dvd_iff_nat [THEN iffD1]) auto
  then have "BUFFER_SIZE dvd n - k" by simp
  with assms show False by (auto dest: dvd_imp_le)
qed

lemma enqueue_ring:
  assumes inv: "ring_invar b" and room: "length (ring_list b) < BUFFER_SIZE"
  shows "ring_invar (enqueue b x) \<and> ring_list (enqueue b x) = ring_list b @ [x]"
proof -
  let ?n = "nat (cb_size b)"
  from room have n: "?n < BUFFER_SIZE" by simp
  from inv have size: "nat (cb_size b + 1) = Suc ?n" "0 \<le> cb_size b"
      and head: "cb_head b = (cb_tail b + ?n) mod BUFFER_SIZE" "cb_head b < BUFFER_SIZE"
      and len: "length (cb_buffer b) = BUFFER_SIZE"
    by (auto simp: ring_invar_def)
  have old: "(cb_buffer b)[cb_head b := Some x] ! ((cb_tail b + k) mod BUFFER_SIZE) =
             cb_buffer b ! ((cb_tail b + k) mod BUFFER_SIZE)" if "k < ?n" for k
    using slot_neq_head [OF that n, of "cb_tail b"] by (simp add: head(1))
  have new: "(cb_buffer b)[cb_head b := Some x] ! ((cb_tail b + ?n) mod BUFFER_SIZE) = Some x"
    using len by (simp add: head(1))
  have wrap: "(if cb_head b + 1 \<ge> BUFFER_SIZE then 0 else cb_head b + 1) =
              (cb_tail b + Suc ?n) mod BUFFER_SIZE"
    using wrap_eq_mod [OF head(2)] by (simp add: head(1) mod_Suc_eq)
  have "ring_list (enqueue b x) = ring_list b @ [x]"
    using size new by (auto simp: ring_list_def enqueue_def Let_def old)
  moreover have "cb_size b + 1 \<le> int BUFFER_SIZE"
    using n size by linarith
  then have "ring_invar (enqueue b x)"
    using inv size wrap new old
    by (auto simp: ring_invar_def enqueue_def Let_def less_Suc_eq)
  ultimately show ?thesis by simp
qed

lemma dequeue_ring:
  assumes inv: "ring_invar b" and ne: "ring_list b \<noteq> []"
  shows "fst (dequeue b) = Some (hd (ring_list b)) \<and> ring_invar (snd (dequeue b)) \<and>
         ring_list (snd (dequeue b)) = tl (ring_list b)"
proof -
  let ?t = "cb_tail b"
  from ne obtain n where n: "nat (cb_size b) = Suc n"
    by (cases "nat (cb_size b)") (auto simp: ring_list_def)
  then have size: "nat (cb_size b - 1) = n" "0 \<le> cb_size b - 1" by auto
  from inv have t: "?t < BUFFER_SIZE" by (simp add: ring_invar_def)
  have deq: "dequeue b = (cb_buffer b ! ?t,
      b\<lparr>cb_tail := Suc ?t mod BUFFER_SIZE, cb_size := cb_size b - 1\<rparr>)"
    unfolding dequeue_def Let_def wrap_eq_mod [OF t] ..
  have shift: "(Suc ?t mod BUFFER_SIZE + k) mod BUFFER_SIZE = (?t + Suc k) mod BUFFER_SIZE" for k
    by (simp add: mod_add_left_eq)
  have cons: "ring_list b = the (cb_buffer b ! ?t) #
      map (\<lambda>k. the (cb_buffer b ! ((?t + Suc k) mod BUFFER_SIZE))) [0..<n]"
    using t by (simp add: ring_list_def n map_upt_Suc del: upt_Suc)
  have some: "cb_buffer b ! ((?t + k) mod BUFFER_SIZE) \<noteq> None" if "k < Suc n" for k
    using inv that n by (simp add: ring_invar_def)
  have "fst (dequeue b) = Some (hd (ring_list b))"
    using some [of 0] t by (auto simp: deq cons)
  moreover have "ring_list (snd (dequeue b)) = tl (ring_list b)"
    unfolding cons deq by (simp add: ring_list_def size shift)
  moreover have "ring_invar (snd (dequeue b))"
    using inv size n some [of "Suc _"] by (auto simp: ring_invar_def deq shift)
  ultimately show ?thesis by simp
qed

interpretation jring: bounded_fifo ring_invar ring_list BUFFER_SIZE enqueue dequeue
proof
  show "length (ring_list q) \<le> BUFFER_SIZE" if "ring_invar q" for q :: "'a circ_buff_t"
    using that by (auto simp: ring_invar_def)
qed (simp_all add: enqueue_ring dequeue_ring del: length_ring_list)

end
