(* ===== verification/Journal.thy ===== *)
theory Journal
  imports Journal_Ring "HOL-Library.Sublist"
begin

text \<open>
  The metadata journaling service (\<^verbatim>\<open>Metadata journaling service/\<close>): the file system's
  \<^verbatim>\<open>main\<close> and \<^verbatim>\<open>request_write\<close>, the three pipeline threads of \<^verbatim>\<open>journal.c\<close>, the
  semaphores they synchronise on, and the block service of \<^verbatim>\<open>block_service.c\<close>. A thread
  is a program counter; one step of a thread is one semaphore operation, one buffer
  operation or one call into the block service, and the scheduler picks any thread that can
  move. Console output is left out.
\<close>

section \<open>State\<close>

record write_request =
  wr_bitmap :: string
  wr_inode :: string
  wr_data :: string
  wr_bitmap_idx :: int
  wr_inode_idx :: int
  wr_data_idx :: int

text \<open>
  A \<^verbatim>\<open>struct write_request *\<close> is an index into \<^verbatim>\<open>test_requests\<close>. What the block layer
  is told is recorded in \<open>jlog\<close>, newest first, each entry tagged with the request the
  calling thread was working on.
\<close>

type_synonym wr_ptr = nat

datatype block_op =
    WriteData string int | JournalTxb | JournalBitmap string int | JournalInode string int
  | JournalTxe | WriteBitmap string int | WriteInode string int | WriteComplete | TxeComplete

datatype main_pc =
    M_fill nat | M_waitSpace nat | M_waitMutex nat | M_enqueue nat | M_postMutex nat
  | M_postNotEmpty nat | M_done

datatype meta_pc =
    A_waitNotEmpty | A_waitMutex | A_dequeue | A_data wr_ptr | A_txb wr_ptr | A_bitmap wr_ptr
  | A_inode wr_ptr | A_postMutex wr_ptr | A_postSpace wr_ptr | A_waitSpace wr_ptr
  | A_waitMutex2 wr_ptr | A_enqueue wr_ptr | A_postNotEmpty | A_postMutex2 | A_null

datatype commit_pc =
    B_waitNotEmpty | B_waitMutex | B_dequeue | B_txe wr_ptr | B_postMutex wr_ptr
  | B_postSpace wr_ptr | B_waitSpace wr_ptr | B_waitMutex2 wr_ptr | B_enqueue wr_ptr
  | B_postMutex2 | B_postNotEmpty | B_null

datatype check_pc =
    C_waitNotEmpty | C_waitMutex | C_dequeue | C_bitmap wr_ptr | C_inode wr_ptr
  | C_postMutex wr_ptr | C_postSpace wr_ptr | C_complete wr_ptr | C_null

record jstate =
  requestBuffer :: "wr_ptr circ_buff_t"
  metaDataBuffer :: "wr_ptr circ_buff_t"
  commitCompletedBuffer :: "wr_ptr circ_buff_t"
  mutex :: nat
  requestBufferHasSpaceMutex :: nat
  requestBufferNotEmptyMutex :: nat
  metaDataBufferHasSpaceMutex :: nat
  metaDataBufferNotEmptyMutex :: nat
  commitCompletedBufferHasSpaceMutex :: nat
  commitCompletedBufferNotEmptyMutex :: nat
  hasPrintedBlock :: int
  test_requests :: "write_request list"
  pcM :: main_pc
  pc1 :: meta_pc
  pc2 :: commit_pc
  pc3 :: check_pc
  txeThreads :: "wr_ptr list"
  start :: int
  jlog :: "(wr_ptr \<times> block_op) list"

abbreviation NUM_TESTS :: nat where
  "NUM_TESTS \<equiv> 10"

definition wr_zero :: write_request where
  "wr_zero = \<lparr>wr_bitmap = [], wr_inode = [], wr_data = [],
              wr_bitmap_idx = 0, wr_inode_idx = 0, wr_data_idx = 0\<rparr>"

text \<open>The state when \<^verbatim>\<open>init_journal\<close> has returned to \<^verbatim>\<open>main\<close>.\<close>

definition init_journal :: jstate where
  "init_journal =
     \<lparr>requestBuffer = circ_buff_zero, metaDataBuffer = circ_buff_zero,
      commitCompletedBuffer = circ_buff_zero, mutex = 1,
      requestBufferHasSpaceMutex = 8, requestBufferNotEmptyMutex = 0,
      metaDataBufferHasSpaceMutex = 8, metaDataBufferNotEmptyMutex = 0,
      commitCompletedBufferHasSpaceMutex = 8, commitCompletedBufferNotEmptyMutex = 0,
      hasPrintedBlock = 0, test_requests = replicate NUM_TESTS wr_zero,
      pcM = M_fill 0, pc1 = A_waitNotEmpty, pc2 = B_waitNotEmpty, pc3 = C_waitNotEmpty,
      txeThreads = [], start = 1, jlog = []\<rparr>"

section \<open>The block service and the completion callbacks\<close>

text \<open>Every completion callback of \<^verbatim>\<open>journal.c\<close> has an empty body.\<close>

definition journal_txb_complete :: "jstate \<Rightarrow> jstate" where "journal_txb_complete s = s"
definition journal_bitmap_complete :: "jstate \<Rightarrow> jstate" where "journal_bitmap_complete s = s"
definition journal_inode_complete :: "jstate \<Rightarrow> jstate" where "journal_inode_complete s = s"
definition write_data_complete :: "jstate \<Rightarrow> jstate" where "write_data_complete s = s"
definition journal_txe_complete :: "jstate \<Rightarrow> jstate" where "journal_txe_complete s = s"
definition write_bitmap_complete :: "jstate \<Rightarrow> jstate" where "write_bitmap_complete s = s"
definition write_inode_complete :: "jstate \<Rightarrow> jstate" where "write_inode_complete s = s"

definition log_op :: "wr_ptr \<Rightarrow> block_op \<Rightarrow> jstate \<Rightarrow> jstate" where
  "log_op p e s = s\<lparr>jlog := (p, e) # jlog s\<rparr>"

definition issue_write_data :: "wr_ptr \<Rightarrow> string \<Rightarrow> int \<Rightarrow> jstate \<Rightarrow> jstate" where
  "issue_write_data p dat idx s = write_data_complete (log_op p (WriteData dat idx) s)"

definition issue_journal_txb :: "wr_ptr \<Rightarrow> jstate \<Rightarrow> jstate" where
  "issue_journal_txb p s = journal_txb_complete (log_op p JournalTxb s)"

definition issue_journal_bitmap :: "wr_ptr \<Rightarrow> string \<Rightarrow> int \<Rightarrow> jstate \<Rightarrow> jstate" where
  "issue_journal_bitmap p bitmap idx s =
     journal_bitmap_complete (log_op p (JournalBitmap bitmap idx) s)"

definition issue_journal_inode :: "wr_ptr \<Rightarrow> string \<Rightarrow> int \<Rightarrow> jstate \<Rightarrow> jstate" where
  "issue_journal_inode p inode idx s =
     journal_inode_complete (log_op p (JournalInode inode idx) s)"

text \<open>\<^verbatim>\<open>issue_journal_txe\<close> only starts a thread; that thread completes the write later.\<close>

definition issue_journal_txe :: "wr_ptr \<Rightarrow> jstate \<Rightarrow> jstate" where
  "issue_journal_txe p s =
     (let s = log_op p JournalTxe s in s\<lparr>txeThreads := txeThreads s @ [p]\<rparr>)"

definition issue_write_bitmap :: "wr_ptr \<Rightarrow> string \<Rightarrow> int \<Rightarrow> jstate \<Rightarrow> jstate" where
  "issue_write_bitmap p bitmap idx s =
     write_bitmap_complete (log_op p (WriteBitmap bitmap idx) s)"

definition issue_write_inode :: "wr_ptr \<Rightarrow> string \<Rightarrow> int \<Rightarrow> jstate \<Rightarrow> jstate" where
  "issue_write_inode p inode idx s =
     write_inode_complete (log_op p (WriteInode inode idx) s)"

definition write_complete :: "wr_ptr \<Rightarrow> jstate \<Rightarrow> jstate" where
  "write_complete p s = log_op p WriteComplete s"

text \<open>The thread \<^verbatim>\<open>issue_journal_txe\<close> started: it may sleep, then reports completion.\<close>

definition threadSleep :: "nat \<Rightarrow> jstate \<Rightarrow> jstate option" where
  "threadSleep k s =
     (if k < length (txeThreads s) then
        let p = txeThreads s ! k;
            s = s\<lparr>txeThreads := take k (txeThreads s) @ drop (Suc k) (txeThreads s)\<rparr>;
            s = (if start s = 1 then s\<lparr>start := 0\<rparr> else s)
        in Some (journal_txe_complete (log_op p TxeComplete s))
      else None)"

section \<open>The threads\<close>

definition fill_request :: "nat \<Rightarrow> write_request" where
  "fill_request i =
     \<lparr>wr_bitmap = ''x'', wr_inode = ''y'', wr_data = ''z'',
      wr_bitmap_idx = 100 + int i, wr_inode_idx = 200 + int i, wr_data_idx = 300 + int i\<rparr>"

text \<open>\<^verbatim>\<open>main\<close> fills a request and calls \<^verbatim>\<open>request_write\<close> (the five steps after \<open>M_fill\<close>).\<close>

fun request_write :: "main_pc \<Rightarrow> jstate \<Rightarrow> jstate option" where
  "request_write (M_waitSpace i) s =
     (if requestBufferHasSpaceMutex s > 0
      then Some (s\<lparr>requestBufferHasSpaceMutex := requestBufferHasSpaceMutex s - 1,
                   pcM := M_waitMutex i\<rparr>)
      else None)"
| "request_write (M_waitMutex i) s =
     (if mutex s > 0 then Some (s\<lparr>mutex := mutex s - 1, pcM := M_enqueue i\<rparr>) else None)"
| "request_write (M_enqueue i) s =
     Some (s\<lparr>requestBuffer := enqueue (requestBuffer s) i, pcM := M_postMutex i\<rparr>)"
| "request_write (M_postMutex i) s = Some (s\<lparr>mutex := mutex s + 1, pcM := M_postNotEmpty i\<rparr>)"
| "request_write (M_postNotEmpty i) s =
     Some (s\<lparr>requestBufferNotEmptyMutex := requestBufferNotEmptyMutex s + 1,
             pcM := M_fill (i + 1)\<rparr>)"
| "request_write _ s = None"

text \<open>
  At \<open>M_done\<close> the source is in \<^verbatim>\<open>sleep(5)\<close>, which gives the other threads time; \<^verbatim>\<open>return 0\<close> after it ends the process.
  There is no clock here: the threads run on until they are done, and a process that ends earlier has made a
  prefix of such a run.
\<close>

fun main_step :: "main_pc \<Rightarrow> jstate \<Rightarrow> jstate option" where
  "main_step (M_fill i) s =
     (if i < NUM_TESTS
      then Some (s\<lparr>test_requests := (test_requests s)[i := fill_request i], pcM := M_waitSpace i\<rparr>)
      else Some (s\<lparr>pcM := M_done\<rparr>))"
| "main_step M_done s = None"
| "main_step pc s = request_write pc s"

fun metaDataWrite :: "meta_pc \<Rightarrow> jstate \<Rightarrow> jstate option" where
  "metaDataWrite A_waitNotEmpty s =
     (if requestBufferNotEmptyMutex s > 0
      then Some (s\<lparr>requestBufferNotEmptyMutex := requestBufferNotEmptyMutex s - 1,
                   pc1 := A_waitMutex\<rparr>)
      else None)"
| "metaDataWrite A_waitMutex s =
     (if mutex s > 0 then Some (s\<lparr>mutex := mutex s - 1, pc1 := A_dequeue\<rparr>) else None)"
| "metaDataWrite A_dequeue s =
     (let (wr, b) = dequeue (requestBuffer s)
      in Some (s\<lparr>requestBuffer := b,
                 pc1 := (case wr of None \<Rightarrow> A_null | Some p \<Rightarrow> A_data p)\<rparr>))"
| "metaDataWrite (A_data p) s =
     (let wr = test_requests s ! p
      in Some ((issue_write_data p (wr_data wr) (wr_data_idx wr) s)\<lparr>pc1 := A_txb p\<rparr>))"
| "metaDataWrite (A_txb p) s = Some ((issue_journal_txb p s)\<lparr>pc1 := A_bitmap p\<rparr>)"
| "metaDataWrite (A_bitmap p) s =
     (let wr = test_requests s ! p
      in Some ((issue_journal_bitmap p (wr_bitmap wr) (wr_bitmap_idx wr) s)\<lparr>pc1 := A_inode p\<rparr>))"
| "metaDataWrite (A_inode p) s =
     (let wr = test_requests s ! p
      in Some ((issue_journal_inode p (wr_inode wr) (wr_inode_idx wr) s)\<lparr>pc1 := A_postMutex p\<rparr>))"
| "metaDataWrite (A_postMutex p) s = Some (s\<lparr>mutex := mutex s + 1, pc1 := A_postSpace p\<rparr>)"
| "metaDataWrite (A_postSpace p) s =
     Some (s\<lparr>requestBufferHasSpaceMutex := requestBufferHasSpaceMutex s + 1,
             pc1 := A_waitSpace p\<rparr>)"
| "metaDataWrite (A_waitSpace p) s =
     (if metaDataBufferHasSpaceMutex s > 0
      then Some (s\<lparr>metaDataBufferHasSpaceMutex := metaDataBufferHasSpaceMutex s - 1,
                   pc1 := A_waitMutex2 p\<rparr>)
      else None)"
| "metaDataWrite (A_waitMutex2 p) s =
     (if mutex s > 0 then Some (s\<lparr>mutex := mutex s - 1, pc1 := A_enqueue p\<rparr>) else None)"
| "metaDataWrite (A_enqueue p) s =
     Some (s\<lparr>metaDataBuffer := enqueue (metaDataBuffer s) p, pc1 := A_postNotEmpty\<rparr>)"
| "metaDataWrite A_postNotEmpty s =
     Some (s\<lparr>metaDataBufferNotEmptyMutex := metaDataBufferNotEmptyMutex s + 1,
             pc1 := A_postMutex2\<rparr>)"
| "metaDataWrite A_postMutex2 s = Some (s\<lparr>mutex := mutex s + 1, pc1 := A_waitNotEmpty\<rparr>)"
| "metaDataWrite A_null s = None"

fun journalCommit :: "commit_pc \<Rightarrow> jstate \<Rightarrow> jstate option" where
  "journalCommit B_waitNotEmpty s =
     (if metaDataBufferNotEmptyMutex s > 0
      then Some (s\<lparr>metaDataBufferNotEmptyMutex := metaDataBufferNotEmptyMutex s - 1,
                   pc2 := B_waitMutex\<rparr>)
      else None)"
| "journalCommit B_waitMutex s =
     (if mutex s > 0 then Some (s\<lparr>mutex := mutex s - 1, pc2 := B_dequeue\<rparr>) else None)"
| "journalCommit B_dequeue s =
     (let (wr, b) = dequeue (metaDataBuffer s)
      in Some (s\<lparr>metaDataBuffer := b,
                 pc2 := (case wr of None \<Rightarrow> B_null | Some p \<Rightarrow> B_txe p)\<rparr>))"
| "journalCommit (B_txe p) s =
     (let s = (if hasPrintedBlock s = 0 then s\<lparr>hasPrintedBlock := hasPrintedBlock s + 1\<rparr> else s)
      in Some ((issue_journal_txe p s)\<lparr>pc2 := B_postMutex p\<rparr>))"
| "journalCommit (B_postMutex p) s = Some (s\<lparr>mutex := mutex s + 1, pc2 := B_postSpace p\<rparr>)"
| "journalCommit (B_postSpace p) s =
     Some (s\<lparr>metaDataBufferHasSpaceMutex := metaDataBufferHasSpaceMutex s + 1,
             pc2 := B_waitSpace p\<rparr>)"
| "journalCommit (B_waitSpace p) s =
     (if commitCompletedBufferHasSpaceMutex s > 0
      then Some (s\<lparr>commitCompletedBufferHasSpaceMutex := commitCompletedBufferHasSpaceMutex s - 1,
                   pc2 := B_waitMutex2 p\<rparr>)
      else None)"
| "journalCommit (B_waitMutex2 p) s =
     (if mutex s > 0 then Some (s\<lparr>mutex := mutex s - 1, pc2 := B_enqueue p\<rparr>) else None)"
| "journalCommit (B_enqueue p) s =
     Some (s\<lparr>commitCompletedBuffer := enqueue (commitCompletedBuffer s) p, pc2 := B_postMutex2\<rparr>)"
| "journalCommit B_postMutex2 s = Some (s\<lparr>mutex := mutex s + 1, pc2 := B_postNotEmpty\<rparr>)"
| "journalCommit B_postNotEmpty s =
     Some (s\<lparr>commitCompletedBufferNotEmptyMutex := commitCompletedBufferNotEmptyMutex s + 1,
             pc2 := B_waitNotEmpty\<rparr>)"
| "journalCommit B_null s = None"

fun journalCommitComplete :: "check_pc \<Rightarrow> jstate \<Rightarrow> jstate option" where
  "journalCommitComplete C_waitNotEmpty s =
     (if commitCompletedBufferNotEmptyMutex s > 0
      then Some (s\<lparr>commitCompletedBufferNotEmptyMutex := commitCompletedBufferNotEmptyMutex s - 1,
                   pc3 := C_waitMutex\<rparr>)
      else None)"
| "journalCommitComplete C_waitMutex s =
     (if mutex s > 0 then Some (s\<lparr>mutex := mutex s - 1, pc3 := C_dequeue\<rparr>) else None)"
| "journalCommitComplete C_dequeue s =
     (let (wr, b) = dequeue (commitCompletedBuffer s)
      in Some (s\<lparr>commitCompletedBuffer := b,
                 pc3 := (case wr of None \<Rightarrow> C_null | Some p \<Rightarrow> C_bitmap p)\<rparr>))"
| "journalCommitComplete (C_bitmap p) s =
     (let wr = test_requests s ! p
      in Some ((issue_write_bitmap p (wr_bitmap wr) (wr_bitmap_idx wr) s)\<lparr>pc3 := C_inode p\<rparr>))"
| "journalCommitComplete (C_inode p) s =
     (let wr = test_requests s ! p
      in Some ((issue_write_inode p (wr_inode wr) (wr_inode_idx wr) s)\<lparr>pc3 := C_postMutex p\<rparr>))"
| "journalCommitComplete (C_postMutex p) s = Some (s\<lparr>mutex := mutex s + 1, pc3 := C_postSpace p\<rparr>)"
| "journalCommitComplete (C_postSpace p) s =
     Some (s\<lparr>commitCompletedBufferHasSpaceMutex := commitCompletedBufferHasSpaceMutex s + 1,
             pc3 := C_complete p\<rparr>)"
| "journalCommitComplete (C_complete p) s = Some ((write_complete p s)\<lparr>pc3 := C_waitNotEmpty\<rparr>)"
| "journalCommitComplete C_null s = None"

section \<open>Interleaving\<close>

datatype thread = Main | T1 | T2 | T3 | Txe nat

fun jstep :: "thread \<Rightarrow> jstate \<Rightarrow> jstate option" where
  "jstep Main s = main_step (pcM s) s"
| "jstep T1 s = metaDataWrite (pc1 s) s"
| "jstep T2 s = journalCommit (pc2 s) s"
| "jstep T3 s = journalCommitComplete (pc3 s) s"
| "jstep (Txe k) s = threadSleep k s"

fun jrun :: "thread list \<Rightarrow> jstate \<Rightarrow> jstate option" where
  "jrun [] s = Some s"
| "jrun (t # ts) s = (case jstep t s of None \<Rightarrow> None | Some s' \<Rightarrow> jrun ts s')"

inductive reachable :: "jstate \<Rightarrow> bool" where
  init: "reachable init_journal"
| step: "reachable s \<Longrightarrow> jstep t s = Some s' \<Longrightarrow> reachable s'"

lemma jrun_reachable: "reachable s \<Longrightarrow> jrun ts s = Some s' \<Longrightarrow> reachable s'"
  by (induction ts arbitrary: s) (auto split: option.splits intro: reachable.step)

end
