(* ===== verification/Journal_Safety.thy ===== *)
theory Journal_Safety
  imports Journal
begin

text \<open>
  Safety of the journaling pipeline: the semaphores count what the buffers hold, the
  buffers never overflow or underflow, requests move through the pipeline in order, and
  each request is issued to the block layer in the order the journaling protocol asks for.
\<close>

named_theorems jdefs

lemmas [jdefs] = log_op_def issue_write_data_def issue_journal_txb_def issue_journal_bitmap_def
  issue_journal_inode_def issue_journal_txe_def issue_write_bitmap_def issue_write_inode_def
  write_complete_def journal_txb_complete_def journal_bitmap_complete_def
  journal_inode_complete_def write_data_complete_def journal_txe_complete_def
  write_bitmap_complete_def write_inode_complete_def Let_def

section \<open>What a program counter stands for\<close>

text \<open>Holding the mutex; the request a thread carries between its two buffers.\<close>

fun critM :: "main_pc \<Rightarrow> nat" where
  "critM (M_enqueue _) = 1" | "critM (M_postMutex _) = 1" | "critM _ = 0"

fun crit1 :: "meta_pc \<Rightarrow> nat" where
  "crit1 A_dequeue = 1" | "crit1 (A_data _) = 1" | "crit1 (A_txb _) = 1"
| "crit1 (A_bitmap _) = 1" | "crit1 (A_inode _) = 1" | "crit1 (A_postMutex _) = 1"
| "crit1 (A_enqueue _) = 1" | "crit1 A_postNotEmpty = 1" | "crit1 A_postMutex2 = 1"
| "crit1 _ = 0"

fun crit2 :: "commit_pc \<Rightarrow> nat" where
  "crit2 B_dequeue = 1" | "crit2 (B_txe _) = 1" | "crit2 (B_postMutex _) = 1"
| "crit2 (B_enqueue _) = 1" | "crit2 B_postMutex2 = 1" | "crit2 _ = 0"

fun crit3 :: "check_pc \<Rightarrow> nat" where
  "crit3 C_dequeue = 1" | "crit3 (C_bitmap _) = 1" | "crit3 (C_inode _) = 1"
| "crit3 (C_postMutex _) = 1" | "crit3 _ = 0"

text \<open>
  A slot reserved by the producer of a buffer and not yet filled, an element filled in and
  not yet announced, one announced and not yet taken out, a slot emptied and not yet
  given back.
\<close>

fun resM :: "main_pc \<Rightarrow> nat" where
  "resM (M_waitMutex _) = 1" | "resM (M_enqueue _) = 1" | "resM _ = 0"
fun pubM :: "main_pc \<Rightarrow> nat" where
  "pubM (M_postMutex _) = 1" | "pubM (M_postNotEmpty _) = 1" | "pubM _ = 0"

fun tak1 :: "meta_pc \<Rightarrow> nat" where
  "tak1 A_waitMutex = 1" | "tak1 A_dequeue = 1" | "tak1 _ = 0"
fun giv1 :: "meta_pc \<Rightarrow> nat" where
  "giv1 (A_data _) = 1" | "giv1 (A_txb _) = 1" | "giv1 (A_bitmap _) = 1" | "giv1 (A_inode _) = 1"
| "giv1 (A_postMutex _) = 1" | "giv1 (A_postSpace _) = 1" | "giv1 _ = 0"
fun res1 :: "meta_pc \<Rightarrow> nat" where
  "res1 (A_waitMutex2 _) = 1" | "res1 (A_enqueue _) = 1" | "res1 _ = 0"
fun pub1 :: "meta_pc \<Rightarrow> nat" where
  "pub1 A_postNotEmpty = 1" | "pub1 _ = 0"

fun tak2 :: "commit_pc \<Rightarrow> nat" where
  "tak2 B_waitMutex = 1" | "tak2 B_dequeue = 1" | "tak2 _ = 0"
fun giv2 :: "commit_pc \<Rightarrow> nat" where
  "giv2 (B_txe _) = 1" | "giv2 (B_postMutex _) = 1" | "giv2 (B_postSpace _) = 1" | "giv2 _ = 0"
fun res2 :: "commit_pc \<Rightarrow> nat" where
  "res2 (B_waitMutex2 _) = 1" | "res2 (B_enqueue _) = 1" | "res2 _ = 0"
fun pub2 :: "commit_pc \<Rightarrow> nat" where
  "pub2 B_postMutex2 = 1" | "pub2 B_postNotEmpty = 1" | "pub2 _ = 0"

fun tak3 :: "check_pc \<Rightarrow> nat" where
  "tak3 C_waitMutex = 1" | "tak3 C_dequeue = 1" | "tak3 _ = 0"
fun giv3 :: "check_pc \<Rightarrow> nat" where
  "giv3 (C_bitmap _) = 1" | "giv3 (C_inode _) = 1" | "giv3 (C_postMutex _) = 1"
| "giv3 (C_postSpace _) = 1" | "giv3 _ = 0"

section \<open>The counting invariant\<close>

definition sem_inv :: "jstate \<Rightarrow> bool" where
  "sem_inv s \<longleftrightarrow>
     mutex s + critM (pcM s) + crit1 (pc1 s) + crit2 (pc2 s) + crit3 (pc3 s) = 1 \<and>
     requestBufferNotEmptyMutex s + pubM (pcM s) + tak1 (pc1 s) = length (ring_list (requestBuffer s)) \<and>
     requestBufferHasSpaceMutex s + length (ring_list (requestBuffer s)) + resM (pcM s) + giv1 (pc1 s) = 8 \<and>
     metaDataBufferNotEmptyMutex s + pub1 (pc1 s) + tak2 (pc2 s) = length (ring_list (metaDataBuffer s)) \<and>
     metaDataBufferHasSpaceMutex s + length (ring_list (metaDataBuffer s)) + res1 (pc1 s) + giv2 (pc2 s) = 8 \<and>
     commitCompletedBufferNotEmptyMutex s + pub2 (pc2 s) + tak3 (pc3 s) =
       length (ring_list (commitCompletedBuffer s)) \<and>
     commitCompletedBufferHasSpaceMutex s + length (ring_list (commitCompletedBuffer s)) +
       res2 (pc2 s) + giv3 (pc3 s) = 8 \<and>
     pc1 s \<noteq> A_null \<and> pc2 s \<noteq> B_null \<and> pc3 s \<noteq> C_null"

definition rings_inv :: "jstate \<Rightarrow> bool" where
  "rings_inv s \<longleftrightarrow> ring_invar (requestBuffer s) \<and> ring_invar (metaDataBuffer s) \<and>
     ring_invar (commitCompletedBuffer s)"

text \<open>Enqueueing and dequeueing where the counts allow it, as the threads see them.\<close>

lemma enqueue_ok:
  assumes "ring_invar b" and "length (ring_list b) < 8"
  shows "ring_invar (enqueue b x)" "ring_list (enqueue b x) = ring_list b @ [x]"
  using jring.enq_invar [OF assms] jring.enq_contents [OF assms] by auto

lemma dequeue_ok:
  assumes "ring_invar b" and "0 < length (ring_list b)"
  obtains b' where "dequeue b = (Some (hd (ring_list b)), b')" and "ring_invar b'"
    and "ring_list b' = tl (ring_list b)"
proof -
  from assms(2) have ne: "ring_list b \<noteq> []" by (metis length_greater_0_conv)
  show thesis
    using that [of "snd (dequeue b)"] jring.deq_value [OF assms(1) ne]
      jring.deq_invar [OF assms(1) ne] jring.deq_contents [OF assms(1) ne]
    by (metis prod.collapse)
qed

lemma init_sem_inv: "sem_inv init_journal \<and> rings_inv init_journal"
  by (simp add: sem_inv_def rings_inv_def init_journal_def)

declare length_ring_list [simp del]

text \<open>The sizes at the moments a buffer is touched.\<close>

lemma sem_inv_sizes:
  assumes "sem_inv s"
  shows "pcM s = M_enqueue i \<Longrightarrow> length (ring_list (requestBuffer s)) < 8"
    and "pc1 s = A_enqueue p \<Longrightarrow> length (ring_list (metaDataBuffer s)) < 8"
    and "pc2 s = B_enqueue p \<Longrightarrow> length (ring_list (commitCompletedBuffer s)) < 8"
    and "pc1 s = A_dequeue \<Longrightarrow> 0 < length (ring_list (requestBuffer s))"
    and "pc2 s = B_dequeue \<Longrightarrow> 0 < length (ring_list (metaDataBuffer s))"
    and "pc3 s = C_dequeue \<Longrightarrow> 0 < length (ring_list (commitCompletedBuffer s))"
  using assms by (auto simp: sem_inv_def)

lemma main_sem_inv:
  assumes "jstep Main s = Some s'" "sem_inv s" "rings_inv s"
  shows "sem_inv s' \<and> rings_inv s'"
  using assms sem_inv_sizes(1) [OF assms(2)]
  by (cases "pcM s"; clarsimp simp: sem_inv_def rings_inv_def enqueue_ok split: if_splits; linarith?)

lemma T1_sem_inv:
  assumes "jstep T1 s = Some s'" "sem_inv s" "rings_inv s"
  shows "sem_inv s' \<and> rings_inv s'"
proof (cases "pc1 s = A_dequeue")
  case True
  with assms sem_inv_sizes(4) have "ring_invar (requestBuffer s)"
      "0 < length (ring_list (requestBuffer s))"
    by (simp_all only: rings_inv_def)
  then show ?thesis
    by (rule dequeue_ok) (use assms True in \<open>auto simp: sem_inv_def rings_inv_def\<close>)
next
  case False
  with assms sem_inv_sizes(2) [OF assms(2)] show ?thesis
    by (cases "pc1 s"; clarsimp simp: sem_inv_def rings_inv_def enqueue_ok jdefs split: if_splits; linarith?)
qed

lemma T2_sem_inv:
  assumes "jstep T2 s = Some s'" "sem_inv s" "rings_inv s"
  shows "sem_inv s' \<and> rings_inv s'"
proof (cases "pc2 s = B_dequeue")
  case True
  with assms sem_inv_sizes(5) have "ring_invar (metaDataBuffer s)"
      "0 < length (ring_list (metaDataBuffer s))"
    by (simp_all only: rings_inv_def)
  then show ?thesis
    by (rule dequeue_ok) (use assms True in \<open>auto simp: sem_inv_def rings_inv_def\<close>)
next
  case False
  with assms sem_inv_sizes(3) [OF assms(2)] show ?thesis
    by (cases "pc2 s"; clarsimp simp: sem_inv_def rings_inv_def enqueue_ok jdefs split: if_splits; linarith?)
qed

lemma T3_sem_inv:
  assumes "jstep T3 s = Some s'" "sem_inv s" "rings_inv s"
  shows "sem_inv s' \<and> rings_inv s'"
proof (cases "pc3 s = C_dequeue")
  case True
  with assms sem_inv_sizes(6) have "ring_invar (commitCompletedBuffer s)"
      "0 < length (ring_list (commitCompletedBuffer s))"
    by (simp_all only: rings_inv_def)
  then show ?thesis
    by (rule dequeue_ok) (use assms True in \<open>auto simp: sem_inv_def rings_inv_def\<close>)
next
  case False
  with assms show ?thesis
    by (cases "pc3 s"; clarsimp simp: sem_inv_def rings_inv_def jdefs split: if_splits; linarith?)
qed

lemma step_sem_inv:
  assumes "jstep t s = Some s'" "sem_inv s" "rings_inv s"
  shows "sem_inv s' \<and> rings_inv s'"
proof (cases t)
  case (Txe k)
  with assms show ?thesis
    by (auto simp: threadSleep_def sem_inv_def rings_inv_def jdefs split: if_splits)
qed (use assms main_sem_inv T1_sem_inv T2_sem_inv T3_sem_inv in blast)+

lemma reachable_sem_inv: "reachable s \<Longrightarrow> sem_inv s \<and> rings_inv s"
  by (induction rule: reachable.induct) (use init_sem_inv step_sem_inv in blast)+

section \<open>The pipeline invariant\<close>

fun carry1 :: "meta_pc \<Rightarrow> wr_ptr list" where
  "carry1 (A_data p) = [p]" | "carry1 (A_txb p) = [p]" | "carry1 (A_bitmap p) = [p]"
| "carry1 (A_inode p) = [p]" | "carry1 (A_postMutex p) = [p]" | "carry1 (A_postSpace p) = [p]"
| "carry1 (A_waitSpace p) = [p]" | "carry1 (A_waitMutex2 p) = [p]" | "carry1 (A_enqueue p) = [p]"
| "carry1 _ = []"

fun carry2 :: "commit_pc \<Rightarrow> wr_ptr list" where
  "carry2 (B_txe p) = [p]" | "carry2 (B_postMutex p) = [p]" | "carry2 (B_postSpace p) = [p]"
| "carry2 (B_waitSpace p) = [p]" | "carry2 (B_waitMutex2 p) = [p]" | "carry2 (B_enqueue p) = [p]"
| "carry2 _ = []"

fun carry3 :: "check_pc \<Rightarrow> wr_ptr list" where
  "carry3 (C_bitmap p) = [p]" | "carry3 (C_inode p) = [p]" | "carry3 (C_postMutex p) = [p]"
| "carry3 (C_postSpace p) = [p]" | "carry3 (C_complete p) = [p]" | "carry3 _ = []"

text \<open>How many requests \<^verbatim>\<open>main\<close> has filled in, and how many it has enqueued.\<close>

fun filled :: "main_pc \<Rightarrow> nat" where
  "filled (M_fill i) = i" | "filled (M_waitSpace i) = Suc i" | "filled (M_waitMutex i) = Suc i"
| "filled (M_enqueue i) = Suc i" | "filled (M_postMutex i) = Suc i"
| "filled (M_postNotEmpty i) = Suc i" | "filled M_done = NUM_TESTS"

fun requested :: "main_pc \<Rightarrow> nat" where
  "requested (M_fill i) = i" | "requested (M_waitSpace i) = i" | "requested (M_waitMutex i) = i"
| "requested (M_enqueue i) = i" | "requested (M_postMutex i) = Suc i"
| "requested (M_postNotEmpty i) = Suc i" | "requested M_done = NUM_TESTS"

definition completed :: "jstate \<Rightarrow> nat" where
  "completed s = length (filter (\<lambda>x. snd x = WriteComplete) (jlog s))"

definition pipeline :: "jstate \<Rightarrow> wr_ptr list" where
  "pipeline s = carry3 (pc3 s) @ ring_list (commitCompletedBuffer s) @ carry2 (pc2 s) @
     ring_list (metaDataBuffer s) @ carry1 (pc1 s) @ ring_list (requestBuffer s)"

definition pipe_inv :: "jstate \<Rightarrow> bool" where
  "pipe_inv s \<longleftrightarrow>
     [0..<completed s] @ pipeline s = [0..<requested (pcM s)] \<and>
     filled (pcM s) \<le> NUM_TESTS \<and> length (test_requests s) = NUM_TESTS \<and>
     (\<forall>p < filled (pcM s). test_requests s ! p = fill_request p)"

lemma init_pipe_inv: "pipe_inv init_journal"
  by (simp add: pipe_inv_def pipeline_def completed_def init_journal_def)

lemma upt_hd_is_start: "[0..<n] @ p # xs = [0..<m] \<Longrightarrow> p = n"
proof -
  assume eq: "[0..<n] @ p # xs = [0..<m]"
  then have "length ([0..<n] @ p # xs) = m" by (simp only: length_upt)
  then have "n < m" by simp
  moreover have "([0..<n] @ p # xs) ! n = p" by (simp add: nth_append)
  ultimately show "p = n" by (simp add: eq)
qed

lemma upt_hd_step: "[0..<n] @ p # xs = [0..<m] \<Longrightarrow> [0..<n] @ n # xs = [0..<m]"
  using upt_hd_is_start by blast

lemma dequeue_pipe:
  assumes "ring_invar b" and "0 < length (ring_list b)"
  obtains p b' where "dequeue b = (Some p, b')" and "ring_list b = p # ring_list b'"
proof -
  from assms obtain b' where b': "dequeue b = (Some (hd (ring_list b)), b')"
      "ring_list b' = tl (ring_list b)"
    by (rule dequeue_ok)
  from assms(2) have "ring_list b = hd (ring_list b) # ring_list b'"
    unfolding b'(2) by (intro hd_Cons_tl [symmetric]) auto
  with b'(1) that show thesis by blast
qed

lemma main_pipe_inv:
  assumes "jstep Main s = Some s'" "sem_inv s" "rings_inv s" "pipe_inv s"
  shows "pipe_inv s'"
proof (cases "\<exists>i. pcM s = M_fill i")
  case True
  then obtain i where pc: "pcM s = M_fill i" ..
  show ?thesis
  proof (cases "i < NUM_TESTS")
    case True
    with assms(1) pc have s': "s' = s\<lparr>test_requests := (test_requests s)[i := fill_request i],
        pcM := M_waitSpace i\<rparr>" by simp
    from assms(4) pc True show ?thesis
      unfolding s' pipe_inv_def pipeline_def completed_def by (auto simp: less_Suc_eq)
  next
    case False
    with assms(1) pc have "s' = s\<lparr>pcM := M_done\<rparr>" by simp
    with assms(4) pc False show ?thesis
      by (auto simp: pipe_inv_def pipeline_def completed_def)
  qed
next
  case False
  with assms sem_inv_sizes(1) [OF assms(2)] show ?thesis
    by (cases "pcM s"; clarsimp simp: pipe_inv_def pipeline_def completed_def rings_inv_def enqueue_ok split: if_splits; linarith?)
qed

lemma T1_pipe_inv:
  assumes "jstep T1 s = Some s'" "sem_inv s" "rings_inv s" "pipe_inv s"
  shows "pipe_inv s'"
proof (cases "pc1 s = A_dequeue")
  case True
  with assms sem_inv_sizes(4) have "ring_invar (requestBuffer s)"
      "0 < length (ring_list (requestBuffer s))"
    by (simp_all only: rings_inv_def)
  then show ?thesis
    by (rule dequeue_pipe) (use assms True in \<open>auto simp: pipe_inv_def pipeline_def completed_def\<close>)
next
  case False
  with assms sem_inv_sizes(2) [OF assms(2)] show ?thesis
    by (cases "pc1 s"; clarsimp simp: pipe_inv_def pipeline_def completed_def rings_inv_def enqueue_ok jdefs split: if_splits; linarith?)
qed

lemma T2_pipe_inv:
  assumes "jstep T2 s = Some s'" "sem_inv s" "rings_inv s" "pipe_inv s"
  shows "pipe_inv s'"
proof (cases "pc2 s = B_dequeue")
  case True
  with assms sem_inv_sizes(5) have "ring_invar (metaDataBuffer s)"
      "0 < length (ring_list (metaDataBuffer s))"
    by (simp_all only: rings_inv_def)
  then show ?thesis
    by (rule dequeue_pipe) (use assms True in \<open>auto simp: pipe_inv_def pipeline_def completed_def\<close>)
next
  case False
  with assms sem_inv_sizes(3) [OF assms(2)] show ?thesis
    by (cases "pc2 s"; clarsimp simp: pipe_inv_def pipeline_def completed_def rings_inv_def enqueue_ok jdefs split: if_splits; linarith?)
qed

lemma T3_pipe_inv:
  assumes "jstep T3 s = Some s'" "sem_inv s" "rings_inv s" "pipe_inv s"
  shows "pipe_inv s'"
proof (cases "pc3 s = C_dequeue")
  case True
  with assms sem_inv_sizes(6) have "ring_invar (commitCompletedBuffer s)"
      "0 < length (ring_list (commitCompletedBuffer s))"
    by (simp_all only: rings_inv_def)
  then show ?thesis
    by (rule dequeue_pipe) (use assms True in \<open>auto simp: pipe_inv_def pipeline_def completed_def\<close>)
next
  case False
  with assms show ?thesis
    by (cases "pc3 s")
      (auto simp: pipe_inv_def pipeline_def completed_def jdefs split: if_splits
        intro: upt_hd_step)
qed

lemma step_pipe_inv:
  assumes "jstep t s = Some s'" "sem_inv s" "rings_inv s" "pipe_inv s"
  shows "pipe_inv s'"
proof (cases t)
  case (Txe k)
  with assms show ?thesis
    by (auto simp: threadSleep_def pipe_inv_def pipeline_def completed_def jdefs split: if_splits)
qed (use assms main_pipe_inv T1_pipe_inv T2_pipe_inv T3_pipe_inv in blast)+

lemma reachable_pipe_inv: "reachable s \<Longrightarrow> pipe_inv s"
proof (induction rule: reachable.induct)
  case (step s t s')
  then show ?case using step_pipe_inv reachable_sem_inv by blast
qed (rule init_pipe_inv)

end
