(* ===== verification/Journal_Order.thy ===== *)
theory Journal_Order
  imports Journal_Safety
begin

text \<open>
  The order in which the pipeline hands the blocks of one request to the block layer: data
  and journal blocks before the commit block, the commit block before the checkpoint, the
  completion call last; each block exactly once and with the request's own contents.
\<close>

definition ops_of :: "wr_ptr \<Rightarrow> (wr_ptr \<times> block_op) list \<Rightarrow> block_op list" where
  "ops_of p l = rev (map snd (filter (\<lambda>x. fst x = p \<and> snd x \<noteq> TxeComplete) l))"

definition req_ops :: "nat \<Rightarrow> block_op list" where
  "req_ops p =
     [WriteData ''z'' (300 + int p), JournalTxb, JournalBitmap ''x'' (100 + int p),
      JournalInode ''y'' (200 + int p), JournalTxe, WriteBitmap ''x'' (100 + int p),
      WriteInode ''y'' (200 + int p), WriteComplete]"

lemma ops_of_Nil [simp]: "ops_of p [] = []"
  by (simp add: ops_of_def)

lemma ops_of_Cons [simp]:
  "ops_of p ((q, e) # l) = (if q = p \<and> e \<noteq> TxeComplete then ops_of p l @ [e] else ops_of p l)"
  by (simp add: ops_of_def)

text \<open>How far the request a thread carries has come.\<close>

fun off1 :: "meta_pc \<Rightarrow> nat" where
  "off1 (A_data _) = 0" | "off1 (A_txb _) = 1" | "off1 (A_bitmap _) = 2" | "off1 (A_inode _) = 3"
| "off1 _ = 4"

fun off2 :: "commit_pc \<Rightarrow> nat" where
  "off2 (B_txe _) = 4" | "off2 _ = 5"

fun off3 :: "check_pc \<Rightarrow> nat" where
  "off3 (C_bitmap _) = 5" | "off3 (C_inode _) = 6" | "off3 _ = 7"

definition staged :: "(wr_ptr \<times> block_op) list \<Rightarrow> nat \<Rightarrow> nat \<Rightarrow> bool" where
  "staged l k p \<longleftrightarrow> ops_of p l = take k (req_ops p)"

definition ops_inv :: "jstate \<Rightarrow> bool" where
  "ops_inv s \<longleftrightarrow>
     (\<forall>p < completed s. staged (jlog s) 8 p) \<and>
     (\<forall>p \<in> set (carry3 (pc3 s)). staged (jlog s) (off3 (pc3 s)) p) \<and>
     (\<forall>p \<in> set (ring_list (commitCompletedBuffer s)). staged (jlog s) 5 p) \<and>
     (\<forall>p \<in> set (carry2 (pc2 s)). staged (jlog s) (off2 (pc2 s)) p) \<and>
     (\<forall>p \<in> set (ring_list (metaDataBuffer s)). staged (jlog s) 4 p) \<and>
     (\<forall>p \<in> set (carry1 (pc1 s)). staged (jlog s) (off1 (pc1 s)) p) \<and>
     (\<forall>p \<in> set (ring_list (requestBuffer s)). staged (jlog s) 0 p) \<and>
     (\<forall>p \<ge> requested (pcM s). staged (jlog s) 0 p)"

lemma init_ops_inv: "ops_inv init_journal"
  by (simp add: ops_inv_def staged_def completed_def init_journal_def)

lemma staged_other: "q \<noteq> p \<or> e = TxeComplete \<Longrightarrow> staged ((p, e) # l) k q = staged l k q"
  by (auto simp: staged_def)

lemma all_less_Suc: "(\<forall>q < Suc n. P q) = ((\<forall>q < n. P q) \<and> P n)"
  by (auto simp: less_Suc_eq)

lemma staged_others:
  "p \<notin> A \<Longrightarrow> (\<forall>q \<in> A. staged ((p, e) # l) k q) = (\<forall>q \<in> A. staged l k q)"
  "p < r \<Longrightarrow> (\<forall>q \<ge> r. staged ((p, e) # l) k q) = (\<forall>q \<ge> r. staged l k q)"
  "c \<le> p \<Longrightarrow> (\<forall>q < c. staged ((p, e) # l) k q) = (\<forall>q < c. staged l k q)"
  by (metis staged_other, metis staged_other leD, metis staged_other leD)

lemma staged_next:
  assumes "staged l k p" and "k < length (req_ops p)" and "req_ops p ! k = e" and "e \<noteq> TxeComplete"
  shows "staged ((p, e) # l) (Suc k) p"
  using assms by (simp add: staged_def take_Suc_conv_app_nth)

lemma length_req_ops [simp]: "length (req_ops p) = 8"
  by (simp add: req_ops_def)

lemma pipe_distinct:
  assumes "pipe_inv s"
  shows "distinct (pipeline s)" and "p \<in> set (pipeline s) \<longleftrightarrow> completed s \<le> p \<and> p < requested (pcM s)"
proof -
  from assms have eq: "[0..<completed s] @ pipeline s = [0..<requested (pcM s)]"
    by (simp add: pipe_inv_def)
  then have "distinct ([0..<completed s] @ pipeline s)" by (simp only: distinct_upt)
  then have d: "distinct (pipeline s)" "set [0..<completed s] \<inter> set (pipeline s) = {}"
    unfolding distinct_append by blast+
  then show "distinct (pipeline s)" by simp
  from eq have "set [0..<completed s] \<union> set (pipeline s) = set [0..<requested (pcM s)]"
    by (metis set_append)
  then have "p < completed s \<or> p \<in> set (pipeline s) \<longleftrightarrow> p < requested (pcM s)"
    by (auto simp only: set_upt atLeast0LessThan lessThan_iff Un_iff set_eq_iff)
  moreover from d(2) have "\<not> (p < completed s \<and> p \<in> set (pipeline s))"
    by (auto simp only: set_upt atLeast0LessThan lessThan_iff Int_iff set_eq_iff empty_iff)
  ultimately show "p \<in> set (pipeline s) \<longleftrightarrow> completed s \<le> p \<and> p < requested (pcM s)"
    by auto
qed

lemma requested_le_filled: "requested pc \<le> filled pc"
  by (cases pc) auto

lemma carried_request:
  assumes "pipe_inv s" and "p \<in> set (pipeline s)"
  shows "test_requests s ! p = fill_request p" and "p < requested (pcM s)" and "completed s \<le> p"
proof -
  from pipe_distinct(2) [OF assms(1)] assms(2) show "p < requested (pcM s)" "completed s \<le> p"
    by blast+
  with requested_le_filled [of "pcM s"] have "p < filled (pcM s)" by simp
  with assms(1) show "test_requests s ! p = fill_request p"
    by (auto simp: pipe_inv_def)
qed

text \<open>
  A step that issues the next block of the request a thread carries: the stages of all
  other requests stay.
\<close>

lemma log_carry1:
  assumes "pipe_inv s" "ops_inv s" and c: "carry1 (pc1 s) = [p]" "carry1 pc' = [p]"
    and e: "req_ops p ! off1 (pc1 s) = e" "e \<noteq> TxeComplete" "e \<noteq> WriteComplete"
    and off: "off1 (pc1 s) < 8" "off1 pc' = Suc (off1 (pc1 s))"
  shows "ops_inv (s\<lparr>jlog := (p, e) # jlog s, pc1 := pc'\<rparr>)"
proof -
  have d: "distinct (pipeline s)" "p < requested (pcM s)" "completed s \<le> p"
    using pipe_distinct(1) [OF assms(1)] carried_request [OF assms(1), of p] c
    by (auto simp: pipeline_def)
  from assms(2) c have "staged (jlog s) (off1 (pc1 s)) p" by (simp add: ops_inv_def)
  then have "staged ((p, e) # jlog s) (off1 pc') p"
    unfolding off(2) using off(1) e by (intro staged_next) simp_all
  with assms(2) d c e show ?thesis
    by (simp add: ops_inv_def completed_def pipeline_def staged_others)
qed

lemma log_carry2:
  assumes "pipe_inv s" "ops_inv s" and c: "carry2 (pc2 s) = [p]" "carry2 pc' = [p]"
    and e: "req_ops p ! off2 (pc2 s) = e" "e \<noteq> TxeComplete" "e \<noteq> WriteComplete"
    and off: "off2 (pc2 s) < 8" "off2 pc' = Suc (off2 (pc2 s))"
  shows "ops_inv (s\<lparr>hasPrintedBlock := b, jlog := (p, e) # jlog s, txeThreads := ts, pc2 := pc'\<rparr>)"
proof -
  have d: "distinct (pipeline s)" "p < requested (pcM s)" "completed s \<le> p"
    using pipe_distinct(1) [OF assms(1)] carried_request [OF assms(1), of p] c
    by (auto simp: pipeline_def)
  from assms(2) c have "staged (jlog s) (off2 (pc2 s)) p" by (simp add: ops_inv_def)
  then have "staged ((p, e) # jlog s) (off2 pc') p"
    unfolding off(2) using off(1) e by (intro staged_next) simp_all
  with assms(2) d c e show ?thesis
    by (simp add: ops_inv_def completed_def pipeline_def staged_others)
qed

lemma log_carry3:
  assumes "pipe_inv s" "ops_inv s" and c: "carry3 (pc3 s) = [p]" "carry3 pc' = [p]"
    and e: "req_ops p ! off3 (pc3 s) = e" "e \<noteq> TxeComplete" "e \<noteq> WriteComplete"
    and off: "off3 (pc3 s) < 8" "off3 pc' = Suc (off3 (pc3 s))"
  shows "ops_inv (s\<lparr>jlog := (p, e) # jlog s, pc3 := pc'\<rparr>)"
proof -
  have d: "distinct (pipeline s)" "p < requested (pcM s)" "completed s \<le> p"
    using pipe_distinct(1) [OF assms(1)] carried_request [OF assms(1), of p] c
    by (auto simp: pipeline_def)
  from assms(2) c have "staged (jlog s) (off3 (pc3 s)) p" by (simp add: ops_inv_def)
  then have "staged ((p, e) # jlog s) (off3 pc') p"
    unfolding off(2) using off(1) e by (intro staged_next) simp_all
  with assms(2) d c e show ?thesis
    by (simp add: ops_inv_def completed_def pipeline_def staged_others)
qed

lemma log_complete:
  assumes "pipe_inv s" "ops_inv s" and c: "pc3 s = C_complete p"
  shows "ops_inv (s\<lparr>jlog := (p, WriteComplete) # jlog s, pc3 := C_waitNotEmpty\<rparr>)"
proof -
  have d: "distinct (pipeline s)" "p < requested (pcM s)" "completed s \<le> p"
    using pipe_distinct(1) [OF assms(1)] carried_request [OF assms(1), of p] c
    by (auto simp: pipeline_def)
  have p: "p = completed s"
    using assms(1) c by (auto simp: pipe_inv_def pipeline_def dest: upt_hd_is_start)
  from assms(2) c have "staged (jlog s) 7 p" by (simp add: ops_inv_def)
  then have "staged ((p, WriteComplete) # jlog s) (Suc 7) p"
    by (intro staged_next) (simp_all add: req_ops_def)
  with assms(2) d c p show ?thesis
    by (simp add: ops_inv_def completed_def pipeline_def staged_others all_less_Suc)
qed

section \<open>Every step keeps the order\<close>

lemma main_ops_inv:
  assumes "jstep Main s = Some s'" "sem_inv s" "rings_inv s" "pipe_inv s" "ops_inv s"
  shows "ops_inv s'"
  using assms(1,3,4,5) sem_inv_sizes(1) [OF assms(2)]
  by (cases "pcM s"; clarsimp simp: ops_inv_def completed_def rings_inv_def enqueue_ok pipe_inv_def split: if_splits)

lemma T1_ops_inv:
  assumes "jstep T1 s = Some s'" "sem_inv s" "rings_inv s" "pipe_inv s" "ops_inv s"
  shows "ops_inv s'"
proof (cases "pc1 s = A_dequeue")
  case True
  with assms sem_inv_sizes(4) have "ring_invar (requestBuffer s)"
      "0 < length (ring_list (requestBuffer s))"
    by (simp_all only: rings_inv_def)
  then show ?thesis
    by (rule dequeue_pipe) (use assms True in \<open>auto simp: ops_inv_def completed_def\<close>)
next
  case False
  have r: "p \<in> set (carry1 (pc1 s)) \<Longrightarrow> test_requests s ! p = fill_request p" for p
    using carried_request [OF assms(4), of p] by (auto simp: pipeline_def)
  show ?thesis
  proof (cases "\<exists>p. pc1 s \<in> {A_data p, A_txb p, A_bitmap p, A_inode p}")
    case True
    with assms(1) r show ?thesis
      by (auto simp: jdefs fill_request_def intro!: log_carry1 [OF assms(4,5)])
        (simp_all add: req_ops_def)
  next
    case silent: False
    with False assms(1,3,5) sem_inv_sizes(2) [OF assms(2)] show ?thesis
      by (cases "pc1 s"; clarsimp simp: ops_inv_def completed_def rings_inv_def enqueue_ok split: if_splits)
  qed
qed

lemma T2_ops_inv:
  assumes "jstep T2 s = Some s'" "sem_inv s" "rings_inv s" "pipe_inv s" "ops_inv s"
  shows "ops_inv s'"
proof (cases "pc2 s = B_dequeue")
  case True
  with assms sem_inv_sizes(5) have "ring_invar (metaDataBuffer s)"
      "0 < length (ring_list (metaDataBuffer s))"
    by (simp_all only: rings_inv_def)
  then show ?thesis
    by (rule dequeue_pipe) (use assms True in \<open>auto simp: ops_inv_def completed_def\<close>)
next
  case False
  show ?thesis
  proof (cases "\<exists>p. pc2 s = B_txe p")
    case True
    then obtain p where pc: "pc2 s = B_txe p" ..
    have "ops_inv (s\<lparr>hasPrintedBlock := b, jlog := (p, JournalTxe) # jlog s,
        txeThreads := ts, pc2 := B_postMutex p\<rparr>)" for b ts
      by (rule log_carry2 [OF assms(4,5)]) (simp_all add: pc req_ops_def)
    from this [where b = "hasPrintedBlock s"] this [where b = 1] assms(1) pc show ?thesis
      by (auto simp: jdefs split: if_splits)
  next
    case silent: False
    with False assms(1,3,5) sem_inv_sizes(3) [OF assms(2)] show ?thesis
      by (cases "pc2 s"; clarsimp simp: ops_inv_def completed_def rings_inv_def enqueue_ok split: if_splits)
  qed
qed

lemma T3_ops_inv:
  assumes "jstep T3 s = Some s'" "sem_inv s" "rings_inv s" "pipe_inv s" "ops_inv s"
  shows "ops_inv s'"
proof (cases "pc3 s = C_dequeue")
  case True
  with assms sem_inv_sizes(6) have "ring_invar (commitCompletedBuffer s)"
      "0 < length (ring_list (commitCompletedBuffer s))"
    by (simp_all only: rings_inv_def)
  then show ?thesis
    by (rule dequeue_pipe) (use assms True in \<open>auto simp: ops_inv_def completed_def\<close>)
next
  case False
  have r: "p \<in> set (carry3 (pc3 s)) \<Longrightarrow> test_requests s ! p = fill_request p" for p
    using carried_request [OF assms(4), of p] by (auto simp: pipeline_def)
  show ?thesis
  proof (cases "\<exists>p. pc3 s \<in> {C_bitmap p, C_inode p, C_complete p}")
    case True
    with assms(1) r show ?thesis
      by (auto simp: jdefs fill_request_def intro!: log_carry3 [OF assms(4,5)] log_complete [OF assms(4,5)])
        (simp_all add: req_ops_def)
  next
    case silent: False
    with False assms(1,3,5) show ?thesis
      by (cases "pc3 s"; clarsimp simp: ops_inv_def completed_def split: if_splits)
  qed
qed

lemma Txe_ops_inv:
  assumes "jstep (Txe k) s = Some s'" "ops_inv s"
  shows "ops_inv s'"
proof -
  have "staged ((p, TxeComplete) # l) k q = staged l k q" for p l k q
    by (simp add: staged_other)
  with assms show ?thesis
    by (auto simp: threadSleep_def ops_inv_def completed_def jdefs split: if_splits)
qed

lemma reachable_ops_inv: "reachable s \<Longrightarrow> ops_inv s"
proof (induction rule: reachable.induct)
  case init
  show ?case by (rule init_ops_inv)
next
  case (step s t s')
  then show ?case
    using reachable_sem_inv reachable_pipe_inv
    by (cases t) (blast intro: main_ops_inv T1_ops_inv T2_ops_inv T3_ops_inv Txe_ops_inv)+
qed

end
