(* ===== verification/Journal_Liveness.thy ===== *)
theory Journal_Liveness
  imports Journal_Order
begin

text \<open>
  The pipeline never deadlocks and every run of it is finite: whatever the scheduler
  does, the service comes to rest, and when no thread can move every request has been
  written through to its completion call.
\<close>

section \<open>Progress\<close>

definition quiet :: "jstate \<Rightarrow> bool" where
  "quiet s \<longleftrightarrow> pcM s = M_done \<and> pc1 s = A_waitNotEmpty \<and> pc2 s = B_waitNotEmpty \<and>
     pc3 s = C_waitNotEmpty"

text \<open>A thread inside the critical section can always take its next step.\<close>

lemma crit_moves:
  assumes "critM (pcM s) = 1 \<or> crit1 (pc1 s) = 1 \<or> crit2 (pc2 s) = 1 \<or> crit3 (pc3 s) = 1"
  shows "\<exists>t s'. jstep t s = Some s'"
proof -
  from assms consider "critM (pcM s) = 1" | "crit1 (pc1 s) = 1" | "crit2 (pc2 s) = 1" | "crit3 (pc3 s) = 1"
    by blast
  then show ?thesis
  proof cases
    case 1
    then have "\<exists>s'. jstep Main s = Some s'" by (cases "pcM s") auto
    then show ?thesis by blast
  next
    case 2
    then have "\<exists>s'. jstep T1 s = Some s'" by (cases "pc1 s") (auto simp: Let_def split: prod.splits)
    then show ?thesis by blast
  next
    case 3
    then have "\<exists>s'. jstep T2 s = Some s'" by (cases "pc2 s") (auto simp: Let_def split: prod.splits)
    then show ?thesis by blast
  next
    case 4
    then have "\<exists>s'. jstep T3 s = Some s'" by (cases "pc3 s") (auto simp: Let_def split: prod.splits)
    then show ?thesis by blast
  qed
qed

text \<open>With the mutex free, a thread that cannot move waits for one of its two buffers.\<close>

lemma stuck_threads:
  assumes m: "mutex s > 0"
  shows "jstep Main s = None \<Longrightarrow> pcM s = M_done \<or>
           (\<exists>i. pcM s = M_waitSpace i \<and> requestBufferHasSpaceMutex s = 0)"
    and "jstep T1 s = None \<Longrightarrow> pc1 s = A_null \<or>
           (pc1 s = A_waitNotEmpty \<and> requestBufferNotEmptyMutex s = 0) \<or>
           (\<exists>p. pc1 s = A_waitSpace p \<and> metaDataBufferHasSpaceMutex s = 0)"
    and "jstep T2 s = None \<Longrightarrow> pc2 s = B_null \<or>
           (pc2 s = B_waitNotEmpty \<and> metaDataBufferNotEmptyMutex s = 0) \<or>
           (\<exists>p. pc2 s = B_waitSpace p \<and> commitCompletedBufferHasSpaceMutex s = 0)"
    and "jstep T3 s = None \<Longrightarrow> pc3 s = C_null \<or>
           (pc3 s = C_waitNotEmpty \<and> commitCompletedBufferNotEmptyMutex s = 0)"
  subgoal using m by (cases "pcM s") (auto split: if_splits)
  subgoal using m by (cases "pc1 s") (auto simp: Let_def split: if_splits prod.splits)
  subgoal using m by (cases "pc2 s") (auto simp: Let_def split: if_splits prod.splits)
  subgoal using m by (cases "pc3 s") (auto simp: Let_def split: if_splits prod.splits)
  done

lemma progress:
  assumes "sem_inv s" "pipe_inv s" and stuck: "\<And>t. jstep t s = None"
  shows "quiet s \<and> completed s = NUM_TESTS"
proof -
  have m: "mutex s > 0"
  proof (rule ccontr)
    assume "\<not> mutex s > 0"
    then have "critM (pcM s) + crit1 (pc1 s) + crit2 (pc2 s) + crit3 (pc3 s) = 1"
      using assms(1) by (simp add: sem_inv_def)
    then have "\<exists>t s'. jstep t s = Some s'" by (intro crit_moves) auto
    with stuck show False by simp
  qed
  note st = stuck_threads [OF m]
  have 3: "pc3 s = C_waitNotEmpty" "commitCompletedBufferNotEmptyMutex s = 0"
    using st(4) [OF stuck] assms(1) by (auto simp: sem_inv_def)
  then have 2: "pc2 s = B_waitNotEmpty" "metaDataBufferNotEmptyMutex s = 0"
    using st(3) [OF stuck] assms(1) by (auto simp: sem_inv_def)
  then have 1: "pc1 s = A_waitNotEmpty" "requestBufferNotEmptyMutex s = 0"
    using st(2) [OF stuck] assms(1) by (auto simp: sem_inv_def)
  then have M: "pcM s = M_done"
    using st(1) [OF stuck] assms(1) by (auto simp: sem_inv_def)
  have "pipeline s = []"
    using assms(1) 1 2 3 M by (simp add: sem_inv_def pipeline_def)
  then have "[0..<completed s] = [0..<NUM_TESTS]"
    using assms(2) M by (simp add: pipe_inv_def)
  then have "length [0..<completed s] = length [0..<NUM_TESTS]" by (simp only:)
  then have "completed s = NUM_TESTS" by (simp only: length_upt)
  with 1 2 3 M show ?thesis by (simp add: quiet_def)
qed

section \<open>Every run is finite\<close>

text \<open>The position of a thread in its loop body, and how many steps it has taken.\<close>

fun posM :: "main_pc \<Rightarrow> nat" where
  "posM (M_fill i) = 6 * i" | "posM (M_waitSpace i) = 6 * i + 1" | "posM (M_waitMutex i) = 6 * i + 2"
| "posM (M_enqueue i) = 6 * i + 3" | "posM (M_postMutex i) = 6 * i + 4"
| "posM (M_postNotEmpty i) = 6 * i + 5" | "posM M_done = 61"

fun pos1 :: "meta_pc \<Rightarrow> int" where
  "pos1 A_waitNotEmpty = 0" | "pos1 A_waitMutex = 1" | "pos1 A_dequeue = 2" | "pos1 (A_data _) = 3"
| "pos1 (A_txb _) = 4" | "pos1 (A_bitmap _) = 5" | "pos1 (A_inode _) = 6" | "pos1 (A_postMutex _) = 7"
| "pos1 (A_postSpace _) = 8" | "pos1 (A_waitSpace _) = 9" | "pos1 (A_waitMutex2 _) = 10"
| "pos1 (A_enqueue _) = 11" | "pos1 A_postNotEmpty = -2" | "pos1 A_postMutex2 = -1" | "pos1 A_null = 0"

fun pos2 :: "commit_pc \<Rightarrow> int" where
  "pos2 B_waitNotEmpty = 0" | "pos2 B_waitMutex = 1" | "pos2 B_dequeue = 2" | "pos2 (B_txe _) = 3"
| "pos2 (B_postMutex _) = 4" | "pos2 (B_postSpace _) = 5" | "pos2 (B_waitSpace _) = 6"
| "pos2 (B_waitMutex2 _) = 7" | "pos2 (B_enqueue _) = 8" | "pos2 B_postMutex2 = -2"
| "pos2 B_postNotEmpty = -1" | "pos2 B_null = 0"

fun pos3 :: "check_pc \<Rightarrow> int" where
  "pos3 C_waitNotEmpty = 0" | "pos3 C_waitMutex = 1" | "pos3 C_dequeue = 2" | "pos3 (C_bitmap _) = 3"
| "pos3 (C_inode _) = 4" | "pos3 (C_postMutex _) = 5" | "pos3 (C_postSpace _) = 6"
| "pos3 (C_complete _) = 7" | "pos3 C_null = 0"

definition past3 :: "jstate \<Rightarrow> int" where
  "past3 s = int (completed s)"

definition past2 :: "jstate \<Rightarrow> int" where
  "past2 s = past3 s + int (length (carry3 (pc3 s))) + int (length (ring_list (commitCompletedBuffer s)))"

definition past1 :: "jstate \<Rightarrow> int" where
  "past1 s = past2 s + int (length (carry2 (pc2 s))) + int (length (ring_list (metaDataBuffer s)))"

definition txe_done :: "jstate \<Rightarrow> nat" where
  "txe_done s = length (filter (\<lambda>x. snd x = TxeComplete) (jlog s))"

definition work :: "jstate \<Rightarrow> int" where
  "work s = int (posM (pcM s)) + (14 * past1 s + pos1 (pc1 s)) + (11 * past2 s + pos2 (pc2 s)) +
     (8 * past3 s + pos3 (pc3 s)) + int (txe_done s)"

text \<open>Commit blocks started: by requests past thread 2 and the one it carries.\<close>

fun txe_started :: "commit_pc \<Rightarrow> int" where
  "txe_started (B_txe _) = 0" | "txe_started pc = int (length (carry2 pc))"

definition txe_inv :: "jstate \<Rightarrow> bool" where
  "txe_inv s \<longleftrightarrow> int (txe_done s) + int (length (txeThreads s)) = past2 s + txe_started (pc2 s)"

lemmas work_defs = work_def txe_inv_def past1_def past2_def past3_def txe_done_def completed_def

lemma init_work: "work init_journal = 0 \<and> txe_inv init_journal"
  by (simp add: work_defs init_journal_def)

lemma main_work:
  assumes "jstep Main s = Some s'" "pipe_inv s" "txe_inv s"
  shows "work s' = work s + 1 \<and> txe_inv s'"
  using assms by (cases "pcM s"; clarsimp simp: work_defs pipe_inv_def split: if_splits)

lemma T1_work:
  assumes "jstep T1 s = Some s'" "sem_inv s" "rings_inv s" "txe_inv s"
  shows "work s' = work s + 1 \<and> txe_inv s'"
proof (cases "pc1 s = A_dequeue")
  case True
  with assms sem_inv_sizes(4) have "ring_invar (requestBuffer s)"
      "0 < length (ring_list (requestBuffer s))"
    by (simp_all only: rings_inv_def)
  then show ?thesis
    by (rule dequeue_pipe) (use assms True in \<open>auto simp: work_defs\<close>)
next
  case False
  with assms(1,3,4) sem_inv_sizes(2) [OF assms(2)] show ?thesis
    by (cases "pc1 s"; clarsimp simp: work_defs rings_inv_def enqueue_ok jdefs split: if_splits)
qed

lemma T2_work:
  assumes "jstep T2 s = Some s'" "sem_inv s" "rings_inv s" "txe_inv s"
  shows "work s' = work s + 1 \<and> txe_inv s'"
proof (cases "pc2 s = B_dequeue")
  case True
  with assms sem_inv_sizes(5) have "ring_invar (metaDataBuffer s)"
      "0 < length (ring_list (metaDataBuffer s))"
    by (simp_all only: rings_inv_def)
  then show ?thesis
    by (rule dequeue_pipe) (use assms True in \<open>auto simp: work_defs\<close>)
next
  case False
  with assms(1,3,4) sem_inv_sizes(3) [OF assms(2)] show ?thesis
    by (cases "pc2 s"; clarsimp simp: work_defs rings_inv_def enqueue_ok jdefs split: if_splits)
qed

lemma T3_work:
  assumes "jstep T3 s = Some s'" "sem_inv s" "rings_inv s" "txe_inv s"
  shows "work s' = work s + 1 \<and> txe_inv s'"
proof (cases "pc3 s = C_dequeue")
  case True
  with assms sem_inv_sizes(6) have "ring_invar (commitCompletedBuffer s)"
      "0 < length (ring_list (commitCompletedBuffer s))"
    by (simp_all only: rings_inv_def)
  then show ?thesis
    by (rule dequeue_pipe) (use assms True in \<open>auto simp: work_defs\<close>)
next
  case False
  with assms(1,4) show ?thesis
    by (cases "pc3 s"; clarsimp simp: work_defs jdefs split: if_splits)
qed

lemma Txe_work:
  assumes "jstep (Txe k) s = Some s'" "txe_inv s"
  shows "work s' = work s + 1 \<and> txe_inv s'"
  using assms by (auto simp: threadSleep_def work_defs jdefs split: if_splits)

lemma step_work:
  assumes "jstep t s = Some s'" "sem_inv s" "rings_inv s" "pipe_inv s" "txe_inv s"
  shows "work s' = work s + 1 \<and> txe_inv s'"
  using assms main_work T1_work T2_work T3_work Txe_work by (cases t) blast+

lemma run_work:
  assumes "reachable s" "txe_inv s" "jrun ts s = Some s'"
  shows "work s' = work s + int (length ts) \<and> txe_inv s' \<and> reachable s'"
  using assms
proof (induction ts arbitrary: s)
  case Nil
  then show ?case by simp
next
  case (Cons t ts)
  then obtain u where u: "jstep t s = Some u" "jrun ts u = Some s'"
    by (auto split: option.splits)
  have "work u = work s + 1 \<and> txe_inv u"
    using step_work [OF u(1)] reachable_sem_inv [OF Cons.prems(1)]
      reachable_pipe_inv [OF Cons.prems(1)] Cons.prems(2) by blast
  moreover have "reachable u" using Cons.prems(1) u(1) by (rule reachable.step)
  ultimately show ?case using Cons.IH [of u] u(2) by simp
qed

text \<open>The longest run: ten rounds of each loop, the last tests of the loop heads included.\<close>

lemma work_bound:
  assumes "sem_inv s" "pipe_inv s" "txe_inv s"
  shows "work s \<le> 460"
proof -
  have len: "completed s + length (pipeline s) = requested (pcM s)"
  proof -
    from assms(2) have "length ([0..<completed s] @ pipeline s) = length [0..<requested (pcM s)]"
      by (simp only: pipe_inv_def)
    then show ?thesis by simp
  qed
  have req: "requested (pcM s) \<le> 10" "posM (pcM s) \<le> 65"
    using assms(2) requested_le_filled [of "pcM s"]
    by (auto simp: pipe_inv_def) (cases "pcM s"; auto)
  have p1: "past1 s \<le> 10" and p2: "past2 s \<le> 10" and p3: "past3 s \<le> 10"
    using len req(1) by (auto simp: past1_def past2_def past3_def pipeline_def)
  have "pos1 (pc1 s) \<le> 11" by (cases "pc1 s") auto
  moreover have "pos2 (pc2 s) \<le> 8" by (cases "pc2 s") auto
  moreover have "pos3 (pc3 s) \<le> 7" by (cases "pc3 s") auto
  moreover have "txe_started (pc2 s) \<le> 1" by (cases "pc2 s") auto
  ultimately show ?thesis
    using assms(3) p1 p2 p3 req(2) by (simp add: work_def txe_inv_def)
qed

section \<open>Properties of the journaling service\<close>

text \<open>A schedule that runs request 0 through all four threads up to its checkpoint.\<close>

definition first_request :: "thread list" where
  "first_request = replicate 6 Main @ replicate 14 T1 @ replicate 11 T2 @ replicate 5 T3"

lemma first_request_run:
  "case jrun first_request init_journal of None \<Rightarrow> False
   | Some s \<Rightarrow> jlog s = rev (map (Pair 0) (take 7 (req_ops 0))) \<and> txeThreads s = [0] \<and>
       pc3 s = C_postMutex 0"
  by code_simp

text \<open>One request after the other, each with its commit thread, and the end of \<^verbatim>\<open>main\<close>.\<close>

definition all_requests :: "thread list" where
  "all_requests = concat (replicate NUM_TESTS
     (replicate 6 Main @ replicate 14 T1 @ replicate 11 T2 @ replicate 8 T3 @ [Txe 0])) @ [Main]"

lemma all_requests_run:
  "case jrun all_requests init_journal of None \<Rightarrow> False
   | Some s \<Rightarrow> quiet s \<and> txeThreads s = [] \<and> requestBufferNotEmptyMutex s = 0 \<and>
       metaDataBufferNotEmptyMutex s = 0 \<and> commitCompletedBufferNotEmptyMutex s = 0"
  by code_simp

text \<open>
  C1: In every reachable state of the service, for every interleaving, the blocks of a
  request have been issued in the order data, TxB, journalled bitmap, journalled inode, TxE,
  checkpointed bitmap, checkpointed inode, completion call: what the block layer has been
  told about request p is a prefix of that sequence, with the contents of request p.
\<close>

theorem journal_issue_order:
  assumes "reachable s"
  shows "prefix (ops_of p (jlog s)) (req_ops p)"
proof -
  have inv: "ops_inv s" and pinv: "pipe_inv s"
    using assms by (simp_all add: reachable_ops_inv reachable_pipe_inv)
  have "\<exists>k. staged (jlog s) k p"
  proof (cases "p \<in> set (pipeline s)")
    case True
    with inv show ?thesis by (auto simp: ops_inv_def pipeline_def)
  next
    case False
    with pipe_distinct(2) [OF pinv, of p] have "p < completed s \<or> requested (pcM s) \<le> p"
      by auto
    with inv show ?thesis by (auto simp: ops_inv_def)
  qed
  then show ?thesis by (auto simp: staged_def take_is_prefix)
qed

theorem journal_issue_order_witness:
  "\<exists>s. reachable s \<and> length (ops_of 0 (jlog s)) = 7 \<and> prefix (ops_of 0 (jlog s)) (req_ops 0)"
proof -
  obtain s where s: "jrun first_request init_journal = Some s"
      "jlog s = rev (map (Pair 0) (take 7 (req_ops 0)))"
    using first_request_run by (auto split: option.splits)
  have r: "reachable s" using jrun_reachable [OF reachable.init s(1)] .
  moreover have "length (ops_of 0 (jlog s)) = 7"
    by (simp add: s(2) ops_of_def req_ops_def)
  ultimately show ?thesis using journal_issue_order [OF r, of 0] by blast
qed

text \<open>
  No interleaving overflows or underflows a buffer: in every reachable state each of
  the three ring buffers holds between 0 and 8 requests, no thread has taken a NULL
  pointer out of a buffer, and at most one thread is between its wait for the mutex and
  the matching post.
\<close>

theorem journal_buffers_safe:
  assumes "reachable s"
  shows "(\<forall>b \<in> {requestBuffer s, metaDataBuffer s, commitCompletedBuffer s}.
            0 \<le> cb_size b \<and> cb_size b \<le> 8) \<and>
         pc1 s \<noteq> A_null \<and> pc2 s \<noteq> B_null \<and> pc3 s \<noteq> C_null \<and>
         critM (pcM s) + crit1 (pc1 s) + crit2 (pc2 s) + crit3 (pc3 s) \<le> 1"
  using reachable_sem_inv [OF assms] by (simp add: sem_inv_def rings_inv_def ring_invar_def)

theorem journal_buffers_safe_witness:
  "reachable init_journal \<and> cb_size (requestBuffer init_journal) \<le> 8"
  using reachable.init journal_buffers_safe [OF reachable.init] by simp

text \<open>
  C9: The service cannot deadlock before its work is done: in a reachable state in which no
  thread can take a step, the file system has issued all ten requests and every one of
  them has been written through to its completion call.
\<close>

theorem journal_no_deadlock:
  assumes "reachable s" and "\<And>t. jstep t s = None"
  shows "pcM s = M_done \<and> (\<forall>p < NUM_TESTS. ops_of p (jlog s) = req_ops p)"
proof -
  have q: "quiet s \<and> completed s = NUM_TESTS"
    using progress reachable_sem_inv [OF assms(1)] reachable_pipe_inv [OF assms(1)] assms(2) by blast
  have "staged (jlog s) 8 p" if "p < NUM_TESTS" for p
    using reachable_ops_inv [OF assms(1)] q that by (simp add: ops_inv_def)
  with q show ?thesis by (simp add: quiet_def staged_def)
qed

theorem journal_no_deadlock_witness:
  "\<exists>s. reachable s \<and> (\<forall>t. jstep t s = None) \<and> ops_of 9 (jlog s) = req_ops 9"
proof -
  obtain s where s: "jrun all_requests init_journal = Some s" "quiet s" "txeThreads s = []"
      "requestBufferNotEmptyMutex s = 0" "metaDataBufferNotEmptyMutex s = 0"
      "commitCompletedBufferNotEmptyMutex s = 0"
    using all_requests_run by (auto split: option.splits)
  have r: "reachable s" using jrun_reachable [OF reachable.init s(1)] .
  have stuck: "jstep t s = None" for t
    using s by (cases t) (simp_all add: quiet_def threadSleep_def)
  from r stuck journal_no_deadlock [OF r stuck] show ?thesis by auto
qed

text \<open>
  C24: Whatever the scheduler does, the service comes to rest: no run from the initial state
  takes more than 460 steps.
\<close>

theorem journal_runs_finite:
  assumes "jrun ts init_journal = Some s"
  shows "length ts \<le> 460"
proof -
  have w: "work s = int (length ts) \<and> txe_inv s \<and> reachable s"
    using run_work [OF reachable.init _ assms] init_work by simp
  then have "work s \<le> 460"
    using work_bound reachable_sem_inv reachable_pipe_inv by blast
  with w show ?thesis by simp
qed

theorem journal_runs_finite_witness:
  "jrun first_request init_journal \<noteq> None \<and> length first_request \<le> 460"
proof -
  obtain s where s: "jrun first_request init_journal = Some s"
    using first_request_run by (auto split: option.splits)
  from s journal_runs_finite [OF s] show ?thesis by simp
qed

text \<open>
  C26: The commit block is not waited for: there is a reachable state in which both metadata
  blocks of request 0 have been checkpointed while the block service has not yet completed
  the write of its TxE block, since every completion callback is empty.
\<close>

theorem checkpoint_before_commit_completes:
  "\<exists>s. reachable s \<and> {(0, WriteBitmap ''x'' 100), (0, WriteInode ''y'' 200)} \<subseteq> set (jlog s) \<and>
       (0, TxeComplete) \<notin> set (jlog s) \<and> 0 \<in> set (txeThreads s)"
proof -
  obtain s where s: "jrun first_request init_journal = Some s"
      "jlog s = rev (map (Pair 0) (take 7 (req_ops 0)))" "txeThreads s = [0]"
    using first_request_run by (auto split: option.splits)
  from jrun_reachable [OF reachable.init s(1)] s(2,3) show ?thesis
    by (intro exI [of _ s]) (auto simp: req_ops_def)
qed

end
