(* ===== verification/Spinlock.thy ===== *)
theory Spinlock
  imports Prelude
begin

text \<open>
  Spin locks and the interrupt discipline of the kernel (\<^verbatim>\<open>kernel/spinlock.c\<close>):
  \<^verbatim>\<open>push_off\<close>/\<^verbatim>\<open>pop_off\<close> nest, \<^verbatim>\<open>acquire\<close> and \<^verbatim>\<open>release\<close> panic when the calling
  hart already holds, or does not hold, the lock. A hart is its entry of \<^verbatim>\<open>cpus[]\<close> plus the
  interrupt-enable bit of \<^verbatim>\<open>sstatus\<close>; harts are numbered.
\<close>

section \<open>Definitions\<close>

record spinlock =
  lk_locked :: bool
  lk_cpu :: "nat option"

record hart =
  noff :: int
  intena :: bool
  intr :: bool

definition initlock :: spinlock where
  "initlock = \<lparr>lk_locked = False, lk_cpu = None\<rparr>"

definition holding :: "nat \<Rightarrow> spinlock \<Rightarrow> bool" where
  "holding me lk \<longleftrightarrow> lk_locked lk \<and> lk_cpu lk = Some me"

definition push_off :: "hart \<Rightarrow> hart" where
  "push_off c =
     (let old = intr c;
          c = c\<lparr>intr := False\<rparr>;
          c = (if noff c = 0 then c\<lparr>intena := old\<rparr> else c)
      in c\<lparr>noff := noff c + 1\<rparr>)"

definition pop_off :: "hart \<Rightarrow> hart res" where
  "pop_off c =
     (if intr c then Panic ''pop_off - interruptible''
      else if noff c < 1 then Panic ''pop_off''
      else let c = c\<lparr>noff := noff c - 1\<rparr>
           in Ok (if noff c = 0 \<and> intena c then c\<lparr>intr := True\<rparr> else c))"

text \<open>
  One attempt of \<^verbatim>\<open>acquire\<close>: the atomic swap either finds the lock free and takes it, or
  the hart goes on spinning (\<open>None\<close>) with interrupts off.
\<close>

definition acquire_try :: "nat \<Rightarrow> spinlock \<Rightarrow> hart \<Rightarrow> ((spinlock \<times> hart) option) res" where
  "acquire_try me lk c =
     (let c = push_off c
      in if holding me lk then Panic ''acquire''
         else if lk_locked lk then Ok None
         else Ok (Some (\<lparr>lk_locked = True, lk_cpu = Some me\<rparr>, c)))"

definition release :: "nat \<Rightarrow> spinlock \<Rightarrow> hart \<Rightarrow> (spinlock \<times> hart) res" where
  "release me lk c =
     (if \<not> holding me lk then Panic ''release''
      else bind_res (pop_off c) (\<lambda>c. Ok (\<lparr>lk_locked = False, lk_cpu = None\<rparr>, c)))"

text \<open>
  On a machine with one hart nobody else can free a lock, so spinning on a taken lock
  never ends; the single-hart components treat it as a failure like a panic.
\<close>

definition acquire :: "nat \<Rightarrow> spinlock \<Rightarrow> hart \<Rightarrow> (spinlock \<times> hart) res" where
  "acquire me lk c =
     bind_res (acquire_try me lk c)
       (\<lambda>r. case r of None \<Rightarrow> Panic ''spinning forever'' | Some x \<Rightarrow> Ok x)"

section \<open>The interrupt discipline\<close>

text \<open>While a hart is inside \<^verbatim>\<open>push_off\<close> sections its interrupts are off.\<close>

definition hart_ok :: "hart \<Rightarrow> bool" where
  "hart_ok c \<longleftrightarrow> 0 \<le> noff c \<and> (0 < noff c \<longrightarrow> \<not> intr c)"

lemma push_off_ok: "hart_ok c \<Longrightarrow> hart_ok (push_off c)"
  by (simp add: hart_ok_def push_off_def Let_def)

lemma pop_off_ok: "hart_ok c \<Longrightarrow> pop_off c = Ok c' \<Longrightarrow> hart_ok c'"
  by (auto simp: hart_ok_def pop_off_def Let_def split: if_splits)

lemma push_off_fields [simp]:
  "noff (push_off c) = noff c + 1" "\<not> intr (push_off c)"
  "intena (push_off c) = (if noff c = 0 then intr c else intena c)"
  by (simp_all add: push_off_def Let_def)

lemma push_pop_off:
  "hart_ok c \<Longrightarrow> pop_off (push_off c) = Ok (c\<lparr>intena := intena (push_off c)\<rparr>)"
  by (cases c) (auto simp: hart_ok_def push_off_def pop_off_def Let_def)

lemma acquire_free:
  "\<not> lk_locked lk \<Longrightarrow> acquire me lk c = Ok (\<lparr>lk_locked = True, lk_cpu = Some me\<rparr>, push_off c)"
  by (simp add: acquire_def acquire_try_def holding_def Let_def)

lemma release_held:
  assumes "noff c \<ge> 1" and "\<not> intr c"
  shows "\<exists>c'. release me \<lparr>lk_locked = True, lk_cpu = Some me\<rparr> c = Ok (initlock, c') \<and>
              noff c' = noff c - 1 \<and> intena c' = intena c \<and>
              intr c' = (noff c = 1 \<and> intena c)"
  using assms by (auto simp: release_def holding_def pop_off_def initlock_def Let_def)

section \<open>Lock brackets\<close>

text \<open>The one hart of the single-hart components, the lock it holds, and a \<^verbatim>\<open>pop_off\<close> that succeeds.\<close>

abbreviation (input) me :: nat where "me \<equiv> 0"

definition held :: spinlock where "held = \<lparr>lk_locked = True, lk_cpu = Some me\<rparr>"

definition pop :: "hart \<Rightarrow> hart" where
  "pop h = (let h = h\<lparr>noff := noff h - 1\<rparr> in if noff h = 0 \<and> intena h then h\<lparr>intr := True\<rparr> else h)"

lemma pop_fields [simp]:
  "noff (pop h) = noff h - 1" "intena (pop h) = intena h"
  "intr (pop h) = (if noff h = 1 \<and> intena h then True else intr h)"
  by (auto simp: pop_def Let_def)

lemma pop_push_fields:
  assumes "hart_ok h"
  shows "noff (pop (push_off h)) = noff h" "intr (pop (push_off h)) = intr h" "hart_ok (pop (push_off h))"
  using assms by (auto simp: hart_ok_def)

lemma acquire_held:
  "\<not> lk_locked lk \<Longrightarrow> acquire me lk h = Ok (held, push_off h)"
  by (simp add: acquire_free held_def)

lemma release_held_eq:
  "1 \<le> noff h \<Longrightarrow> \<not> intr h \<Longrightarrow> release me held h = Ok (initlock, pop h)"
  by (simp add: release_def holding_def held_def pop_off_def pop_def initlock_def Let_def)

lemma initlock_free [simp]: "\<not> lk_locked initlock"
  by (simp add: initlock_def)

lemma holding_held [simp]: "holding me held"
  by (simp add: held_def holding_def)

end
