(* ===== verification/Proc_Table.thy ===== *)
theory Proc_Table
  imports Spinlock
begin

text \<open>
  The data of the multilevel feedback queue kernel's \<^verbatim>\<open>proc.h\<close> and \<^verbatim>\<open>proc.c\<close>: the
  process table, the queue table, the scheduler's counters and its log. A
  \<^verbatim>\<open>struct proc *\<close> is the index of its entry in \<^verbatim>\<open>proc[]\<close>.
\<close>

datatype procstate = UNUSED | USED | SLEEPING | RUNNABLE | RUNNING | ZOMBIE

text \<open>A wait channel is an address; the ones the code uses, and any other.\<close>

datatype chan = NoChan | ChProc nat | ChTicks | ChAddr nat

text \<open>
  Where a process resumes in the kernel when the scheduler switches to it: at
  \<^verbatim>\<open>forkret\<close>, behind the \<^verbatim>\<open>sched()\<close> of \<^verbatim>\<open>yield\<close> or behind that of \<^verbatim>\<open>sleep\<close> (which then
  takes the lock it was given again), with the \<^verbatim>\<open>intena\<close> that \<^verbatim>\<open>sched\<close> saved. This is the part of the saved context
  (\<^verbatim>\<open>p->context\<close>, the kernel stack) the scheduler depends on; \<open>Nowhere\<close> for a process that
  has never been set up or will not be resumed.
\<close>

datatype lockname = PidLock | WaitLock | TicksLock | OtherLock nat

datatype resume_point = Nowhere | Forkret | Yielded bool | Slept lockname bool

record proc =
  p_lock :: spinlock
  p_state :: procstate
  p_chan :: chan
  p_killed :: int
  p_xstate :: int
  p_pid :: int
  p_parent :: "nat option"
  p_kstack :: nat
  p_sz :: nat
  p_pagetable :: "nat option"
  p_trapframe :: "nat option"
  p_resume :: resume_point
  p_ofile :: "nat option list"
  p_cwd :: "nat option"
  p_name :: string
  p_nice :: int
  p_quanta :: int
  p_queue :: int

record qentry =
  qe_queue :: nat
  qe_prev :: nat
  qe_next :: nat

abbreviation (input) NPROC :: nat where "NPROC \<equiv> 64"
abbreviation (input) NUM_QUEUES :: nat where "NUM_QUEUES \<equiv> 3"
abbreviation (input) NOFILE :: nat where "NOFILE \<equiv> 16"
abbreviation (input) LOG_SIZE :: nat where "LOG_SIZE \<equiv> 100"

definition EMPTY :: nat where "EMPTY = 2 ^ 64 - 1"

abbreviation (input) HEAD_Q0 :: nat where "HEAD_Q0 \<equiv> 64"
abbreviation (input) TAIL_Q0 :: nat where "TAIL_Q0 \<equiv> 65"
abbreviation (input) HEAD_Q1 :: nat where "HEAD_Q1 \<equiv> 66"
abbreviation (input) TAIL_Q1 :: nat where "TAIL_Q1 \<equiv> 67"
abbreviation (input) HEAD_Q2 :: nat where "HEAD_Q2 \<equiv> 68"
abbreviation (input) TAIL_Q2 :: nat where "TAIL_Q2 \<equiv> 69"

record logentry =
  le_pid :: int
  le_time :: int

text \<open>
  The kernel state the scheduler works on. \<open>klocks\<close> are the spin locks outside the process
  table that the code around it takes; \<open>c_proc\<close> is \<^verbatim>\<open>mycpu()->proc\<close>; \<open>hart\<close> the rest
  of the hart's entry of \<^verbatim>\<open>cpus[]\<close>.
\<close>

record kernel =
  procs :: "proc list"
  qtable :: "qentry list"
  initproc :: "nat option"
  nextpid :: int
  klocks :: "lockname \<Rightarrow> spinlock"
  isQueueSetup :: int
  timeSincePriorityBoost :: int
  schedlog :: "logentry list"
  time :: int
  is_logging :: int
  num_logged :: int
  c_proc :: "nat option"
  hart :: hart

section \<open>Field updates\<close>

definition upd_proc :: "nat \<Rightarrow> (proc \<Rightarrow> proc) \<Rightarrow> kernel \<Rightarrow> kernel" where
  "upd_proc i f k = k\<lparr>procs := (procs k)[i := f (procs k ! i)]\<rparr>"

definition set_q_queue :: "nat \<Rightarrow> nat \<Rightarrow> qentry list \<Rightarrow> qentry list" where
  "set_q_queue i v qt = qt[i := (qt ! i)\<lparr>qe_queue := v\<rparr>]"

definition set_q_next :: "nat \<Rightarrow> nat \<Rightarrow> qentry list \<Rightarrow> qentry list" where
  "set_q_next i v qt = qt[i := (qt ! i)\<lparr>qe_next := v\<rparr>]"

definition set_q_prev :: "nat \<Rightarrow> nat \<Rightarrow> qentry list \<Rightarrow> qentry list" where
  "set_q_prev i v qt = qt[i := (qt ! i)\<lparr>qe_prev := v\<rparr>]"

definition q_next :: "qentry list \<Rightarrow> nat \<Rightarrow> nat" where "q_next qt i = qe_next (qt ! i)"
definition q_prev :: "qentry list \<Rightarrow> nat \<Rightarrow> nat" where "q_prev qt i = qe_prev (qt ! i)"
definition q_queue :: "qentry list \<Rightarrow> nat \<Rightarrow> nat" where "q_queue qt i = qe_queue (qt ! i)"

definition q_valid :: "qentry list \<Rightarrow> nat \<Rightarrow> bool" where "q_valid qt i \<longleftrightarrow> i < length qt"

lemmas q_defs = q_next_def q_prev_def q_queue_def q_valid_def
  set_q_queue_def set_q_next_def set_q_prev_def

lemma length_set_q [simp]:
  "length (set_q_queue i v qt) = length qt" "length (set_q_next i v qt) = length qt"
  "length (set_q_prev i v qt) = length qt"
  by (simp_all add: q_defs)

lemma q_set_other [simp]:
  "q_next (set_q_queue i v qt) = q_next qt" "q_prev (set_q_queue i v qt) = q_prev qt"
  "q_queue (set_q_next i v qt) = q_queue qt" "q_queue (set_q_prev i v qt) = q_queue qt"
  "q_next (set_q_prev i v qt) = q_next qt" "q_prev (set_q_next i v qt) = q_prev qt"
  by (simp_all add: q_defs fun_eq_iff nth_list_update_if)

lemma q_set_same:
  "i < length qt \<Longrightarrow> q_queue (set_q_queue i v qt) = (q_queue qt)(i := v)"
  "i < length qt \<Longrightarrow> q_next (set_q_next i v qt) = (q_next qt)(i := v)"
  "i < length qt \<Longrightarrow> q_prev (set_q_prev i v qt) = (q_prev qt)(i := v)"
  by (simp_all add: q_defs fun_eq_iff nth_list_update_if)

lemma upd_proc_other [simp]:
  "qtable (upd_proc i f k) = qtable k" "initproc (upd_proc i f k) = initproc k"
  "nextpid (upd_proc i f k) = nextpid k" "klocks (upd_proc i f k) = klocks k"
  "hart (upd_proc i f k) = hart k" "num_logged (upd_proc i f k) = num_logged k"
  "schedlog (upd_proc i f k) = schedlog k" "is_logging (upd_proc i f k) = is_logging k"
  "c_proc (upd_proc i f k) = c_proc k" "isQueueSetup (upd_proc i f k) = isQueueSetup k"
  "timeSincePriorityBoost (upd_proc i f k) = timeSincePriorityBoost k"
  "length (procs (upd_proc i f k)) = length (procs k)"
  by (simp_all add: upd_proc_def)

lemma upd_proc_nth:
  "procs (upd_proc i f k) ! j = (if i = j \<and> i < length (procs k) then f (procs k ! i) else procs k ! j)"
  by (simp add: upd_proc_def nth_list_update_if)

lemma upd_lock_fields [simp]:
  "p_state (procs (upd_proc i (\<lambda>p. p\<lparr>p_lock := l\<rparr>) k) ! j) = p_state (procs k ! j)"
  "p_chan (procs (upd_proc i (\<lambda>p. p\<lparr>p_lock := l\<rparr>) k) ! j) = p_chan (procs k ! j)"
  "p_pid (procs (upd_proc i (\<lambda>p. p\<lparr>p_lock := l\<rparr>) k) ! j) = p_pid (procs k ! j)"
  "p_killed (procs (upd_proc i (\<lambda>p. p\<lparr>p_lock := l\<rparr>) k) ! j) = p_killed (procs k ! j)"
  "p_resume (procs (upd_proc i (\<lambda>p. p\<lparr>p_lock := l\<rparr>) k) ! j) = p_resume (procs k ! j)"
  by (auto simp: upd_proc_nth)

end
