(* ===== verification/Dll.thy ===== *)
theory Dll
  imports Prelude
begin

text \<open>
  Doubly linked lists threaded through an array by \<^verbatim>\<open>prev\<close>/\<^verbatim>\<open>next\<close> indices, with
  sentinel nodes at both ends. Two parts of the kernel keep such lists: the ready queues of
  the multilevel feedback scheduler (\<^verbatim>\<open>qtable\<close> in \<^verbatim>\<open>proc.c\<close>) and the buffer cache
  (\<^verbatim>\<open>bcache\<close> in \<^verbatim>\<open>bio.c\<close>, where one node is both sentinels). The segment predicate
  below follows the next pointers from one sentinel to the other and asks that each prev
  pointer mirrors the next pointer before it.
\<close>

fun dll :: "(nat \<Rightarrow> nat) \<Rightarrow> (nat \<Rightarrow> nat) \<Rightarrow> nat \<Rightarrow> nat list \<Rightarrow> nat \<Rightarrow> bool" where
  "dll nxt prv a [] b \<longleftrightarrow> nxt a = b \<and> prv b = a"
| "dll nxt prv a (x # xs) b \<longleftrightarrow> nxt a = x \<and> prv x = a \<and> dll nxt prv x xs b"

lemma dll_append: "dll nxt prv a (xs @ y # ys) b \<longleftrightarrow> dll nxt prv a xs y \<and> dll nxt prv y ys b"
  by (induction xs arbitrary: a) auto

lemma dll_nxt_upd [simp]:
  "c \<noteq> a \<Longrightarrow> c \<notin> set xs \<Longrightarrow> dll (nxt(c := v)) prv a xs b = dll nxt prv a xs b"
  by (induction xs arbitrary: a) auto

lemma dll_prv_upd [simp]:
  "c \<noteq> b \<Longrightarrow> c \<notin> set xs \<Longrightarrow> dll nxt (prv(c := v)) a xs b = dll nxt prv a xs b"
  by (induction xs arbitrary: a) auto

lemma dll_first: "dll nxt prv a xs b \<Longrightarrow> nxt a = hd (xs @ [b])"
  by (cases xs) auto

lemma dll_last: "dll nxt prv a xs b \<Longrightarrow> prv b = last (a # xs)"
  by (induction xs arbitrary: a) auto

lemma dll_empty_iff: "dll nxt prv a xs b \<Longrightarrow> b \<notin> set xs \<Longrightarrow> nxt a = b \<longleftrightarrow> xs = []"
  by (cases xs) auto

lemma dll_unique:
  "dll nxt prv a xs b \<Longrightarrow> dll nxt prv a ys b \<Longrightarrow> b \<notin> set xs \<Longrightarrow> b \<notin> set ys \<Longrightarrow> xs = ys"
proof (induction xs arbitrary: a ys)
  case Nil
  then show ?case by (cases ys) auto
next
  case (Cons x xs)
  then show ?case by (cases ys) auto
qed

text \<open>Appending a node in front of the end sentinel.\<close>

lemma dll_snoc:
  assumes "dll nxt prv a xs b" and "distinct (a # xs)" and "x \<notin> insert a (insert b (set xs))"
    and "b \<notin> set xs"
  shows "dll (nxt(x := b, prv b := x)) (prv(x := prv b, b := x)) a (xs @ [x]) b"
proof (cases xs rule: rev_cases)
  case Nil
  with assms show ?thesis by auto
next
  case (snoc ys y)
  then have d: "dll nxt prv a ys y" "nxt y = b" "prv b = y"
    using assms(1) by (auto simp: dll_append)
  with assms snoc show ?thesis by (auto simp: dll_append)
qed

text \<open>Inserting a node behind the start sentinel.\<close>

lemma dll_push:
  assumes "dll nxt prv a xs b" and "distinct xs" and "x \<notin> insert a (insert b (set xs))"
    and "a \<notin> set xs" and "b \<notin> set xs"
  shows "dll (nxt(x := nxt a, a := x)) (prv(x := a, nxt a := x)) a (x # xs) b"
  using assms by (cases xs) auto

text \<open>Taking a node out.\<close>

lemma dll_remove:
  assumes "dll nxt prv a (xs @ x # ys) b" and "distinct (xs @ x # ys)"
    and "a \<notin> set (xs @ x # ys)" and "b \<notin> set (xs @ x # ys)"
  shows "dll (nxt(prv x := nxt x)) (prv(nxt x := prv x)) a (xs @ ys) b"
proof -
  have l: "dll nxt prv a xs x" and r: "dll nxt prv x ys b"
    using assms(1) by (auto simp: dll_append)
  have px: "prv x = last (a # xs)" and nx: "nxt x = hd (ys @ [b])"
    using dll_last [OF l] dll_first [OF r] by auto
  show ?thesis
  proof (cases xs rule: rev_cases)
    case Nil
    with r px nx assms show ?thesis by (cases ys) auto
  next
    case (snoc zs z)
    with l px have z: "dll nxt prv a zs z" "prv x = z" by (auto simp: dll_append)
    have "dll (nxt(z := nxt x)) (prv(nxt x := z)) z ys b"
      using r nx snoc assms by (cases ys) auto
    moreover have "dll (nxt(z := nxt x)) (prv(nxt x := z)) a zs z"
      using z snoc assms nx by (cases ys) auto
    ultimately show ?thesis using snoc z by (simp add: dll_append)
  qed
qed

section \<open>The array interface\<close>

text \<open>
  What list code needs of the array its nodes live in: reading and writing the two link
  fields of a node, for indices the array has.
\<close>

locale link_store =
  fixes valid :: "'h \<Rightarrow> nat \<Rightarrow> bool"
    and nxt :: "'h \<Rightarrow> nat \<Rightarrow> nat"
    and prv :: "'h \<Rightarrow> nat \<Rightarrow> nat"
    and set_nxt :: "nat \<Rightarrow> nat \<Rightarrow> 'h \<Rightarrow> 'h"
    and set_prv :: "nat \<Rightarrow> nat \<Rightarrow> 'h \<Rightarrow> 'h"
  assumes nxt_set_nxt [simp]: "valid h i \<Longrightarrow> nxt (set_nxt i v h) = (nxt h)(i := v)"
    and prv_set_nxt [simp]: "prv (set_nxt i v h) = prv h"
    and prv_set_prv [simp]: "valid h i \<Longrightarrow> prv (set_prv i v h) = (prv h)(i := v)"
    and nxt_set_prv [simp]: "nxt (set_prv i v h) = nxt h"
    and valid_set_nxt [simp]: "valid (set_nxt i v h) = valid h"
    and valid_set_prv [simp]: "valid (set_prv i v h) = valid h"
begin

lemma append_node:
  assumes l: "dll (nxt h) (prv h) a xs b" and "distinct (a # xs)"
    and "x \<notin> insert a (insert b (set xs))" and "b \<notin> set xs"
    and v: "valid h x" "valid h a" "valid h b" "\<forall>y \<in> set xs. valid h y"
    and h': "h' = set_prv b x (set_nxt (prv h b) x (set_nxt x b (set_prv x (prv h b) h)))"
  shows "dll (nxt h') (prv h') a (xs @ [x]) b"
proof -
  have "prv h b \<in> insert a (set xs)"
    using dll_last [OF l] by (auto split: if_splits)
  then have "valid h (prv h b)" using v by auto
  with v have "nxt h' = (nxt h)(x := b, prv h b := x)" "prv h' = (prv h)(x := prv h b, b := x)"
    by (simp_all add: h')
  with dll_snoc [OF assms(1-4)] show ?thesis by simp
qed

lemma neighbours_valid:
  assumes l: "dll (nxt h) (prv h) a (xs @ x # ys) b"
    and v: "valid h a" "valid h b" "\<forall>y \<in> set (xs @ x # ys). valid h y"
  shows "valid h (prv h x)" "valid h (nxt h x)"
proof -
  have s: "dll (nxt h) (prv h) a xs x" "dll (nxt h) (prv h) x ys b"
    using l by (simp_all add: dll_append)
  have "prv h x \<in> insert a (set xs)" using dll_last [OF s(1)] by auto
  moreover have "nxt h x \<in> insert b (set ys)" using dll_first [OF s(2)] by (cases ys) auto
  ultimately show "valid h (prv h x)" "valid h (nxt h x)" using v by auto
qed

lemma remove_node:
  assumes l: "dll (nxt h) (prv h) a (xs @ x # ys) b" and d: "distinct (xs @ x # ys)"
    and ab: "a \<notin> set (xs @ x # ys)" "b \<notin> set (xs @ x # ys)"
    and v: "valid h a" "valid h b" "\<forall>y \<in> set (xs @ x # ys). valid h y"
    and h': "h' = set_prv (nxt h x) (prv h x) (set_nxt (prv h x) (nxt h x) h)"
  shows "dll (nxt h') (prv h') a (xs @ ys) b"
  using dll_remove [OF l d ab] neighbours_valid [OF l v] by (simp add: h')

lemma remove_node_rev:
  assumes l: "dll (nxt h) (prv h) a (xs @ x # ys) b" and d: "distinct (xs @ x # ys)"
    and ab: "a \<notin> set (xs @ x # ys)" "b \<notin> set (xs @ x # ys)"
    and v: "valid h a" "valid h b" "\<forall>y \<in> set (xs @ x # ys). valid h y"
    and h': "h' = set_nxt (prv h x) (nxt h x) (set_prv (nxt h x) (prv h x) h)"
  shows "dll (nxt h') (prv h') a (xs @ ys) b"
  using dll_remove [OF l d ab] neighbours_valid [OF l v] by (simp add: h')

lemma push_node:
  assumes l: "dll (nxt h) (prv h) a xs b" and "distinct xs"
    and "x \<notin> insert a (insert b (set xs))" and "a \<notin> set xs" and "b \<notin> set xs"
    and v: "valid h x" "valid h a" "valid h b" "\<forall>y \<in> set xs. valid h y"
    and h': "h' = set_nxt a x (set_prv (nxt h a) x (set_prv x a (set_nxt x (nxt h a) h)))"
  shows "dll (nxt h') (prv h') a (x # xs) b"
proof -
  have "nxt h a \<in> insert b (set xs)" using dll_first [OF l] by (cases xs) auto
  then have "valid h (nxt h a)" using v by auto
  with v have "nxt h' = (nxt h)(x := nxt h a, a := x)" "prv h' = (prv h)(x := a, nxt h a := x)"
    by (simp_all add: h')
  with dll_push [OF assms(1-5)] show ?thesis by simp
qed

end

end
