(* ===== verification/Mlfq.thy ===== *)
theory Mlfq
  imports Proc_Table Dll
begin

text \<open>
  The ready queues of the multilevel feedback queue scheduler (\<^verbatim>\<open>kernel/proc.c\<close> of the
  MLFQ kernel): \<^verbatim>\<open>setupQueue\<close>, \<^verbatim>\<open>enqueue\<close>, \<^verbatim>\<open>removeFromQueue\<close> and the part of
  \<^verbatim>\<open>dequeue\<close> that chooses the process to run. The three queues are doubly linked lists
  through \<^verbatim>\<open>qtable\<close>, refined here to three lists of process indices.
\<close>

section \<open>Operations\<close>

fun clear_queues :: "nat \<Rightarrow> qentry list \<Rightarrow> qentry list" where
  "clear_queues 0 qt = qt"
| "clear_queues (Suc n) qt = set_q_queue n EMPTY (clear_queues n qt)"

definition setupQueue :: "kernel \<Rightarrow> kernel" where
  "setupQueue k =
     (let qt = clear_queues NPROC (qtable k);
          qt = set_q_queue HEAD_Q0 0 qt; qt = set_q_next HEAD_Q0 65 qt;
          qt = set_q_queue TAIL_Q0 0 qt; qt = set_q_prev TAIL_Q0 64 qt;
          qt = set_q_queue HEAD_Q1 1 qt; qt = set_q_next HEAD_Q1 67 qt;
          qt = set_q_queue TAIL_Q1 1 qt; qt = set_q_prev TAIL_Q1 66 qt;
          qt = set_q_queue HEAD_Q2 2 qt; qt = set_q_next HEAD_Q2 69 qt;
          qt = set_q_queue TAIL_Q2 2 qt; qt = set_q_prev TAIL_Q2 68 qt
      in k\<lparr>qtable := qt\<rparr>)"

text \<open>The first half of \<^verbatim>\<open>enqueue\<close>: which queue, and what becomes of the quanta.\<close>

definition choose_queue :: "proc \<Rightarrow> int \<times> int" where
  "choose_queue p =
     (let (queueToInsertTo, quanta) =
            (if p_nice p > 10 then (0, if p_queue p > 0 then 0 else p_quanta p)
             else if p_nice p \<le> 10 \<and> p_nice p > -10 then (1, if p_queue p > 1 then 0 else p_quanta p)
             else (2, p_quanta p));
          (queueToInsertTo, quanta) =
            (if quanta > 15 \<and> queueToInsertTo = 0 then (queueToInsertTo + 1, 0)
             else if quanta > 10 \<and> queueToInsertTo = 1 then (queueToInsertTo + 1, 0)
             else if quanta > 1 \<and> queueToInsertTo = 2 then (queueToInsertTo, 0)
             else (queueToInsertTo, quanta));
          queueToInsertTo = (if queueToInsertTo > 2 then 2 else queueToInsertTo)
      in (queueToInsertTo, quanta))"

text \<open>The second half links the entry in front of the tail of the chosen queue.\<close>

definition link_before :: "nat \<Rightarrow> nat \<Rightarrow> nat \<Rightarrow> qentry list \<Rightarrow> qentry list" where
  "link_before q tail pindex qt =
     (let qt = set_q_queue pindex q qt;
          oldTail = q_prev qt tail;
          qt = set_q_prev pindex oldTail qt;
          qt = set_q_next pindex tail qt;
          qt = set_q_next oldTail pindex qt
      in set_q_prev tail pindex qt)"

definition enqueue :: "nat \<Rightarrow> kernel \<Rightarrow> kernel" where
  "enqueue pindex k =
     (let (queueToInsertTo, quanta) = choose_queue (procs k ! pindex);
          k = upd_proc pindex (\<lambda>p. p\<lparr>p_quanta := quanta\<rparr>) k
      in if queueToInsertTo = 0 then
           let k = upd_proc pindex (\<lambda>p. p\<lparr>p_queue := 0\<rparr>) k
           in k\<lparr>qtable := link_before 0 TAIL_Q0 pindex (qtable k)\<rparr>
         else if queueToInsertTo = 1 then
           let k = upd_proc pindex (\<lambda>p. p\<lparr>p_queue := 1\<rparr>) k
           in k\<lparr>qtable := link_before 1 TAIL_Q1 pindex (qtable k)\<rparr>
         else
           let k = upd_proc pindex (\<lambda>p. p\<lparr>p_queue := 2\<rparr>) k
           in k\<lparr>qtable := link_before 2 TAIL_Q2 pindex (qtable k)\<rparr>)"

definition removeFromQueue :: "nat \<Rightarrow> kernel \<Rightarrow> kernel" where
  "removeFromQueue pindex k =
     (let qt = set_q_queue pindex EMPTY (qtable k);
          oldPrev = q_prev qt pindex;
          oldNext = q_next qt pindex;
          qt = set_q_next oldPrev oldNext qt
      in k\<lparr>qtable := set_q_prev oldNext oldPrev qt\<rparr>)"

text \<open>The choice at the head of \<^verbatim>\<open>dequeue\<close>: the first process of the first queue that has one.\<close>

definition dequeue_choose :: "kernel \<Rightarrow> nat option" where
  "dequeue_choose k =
     (let qt = qtable k
      in if q_next qt HEAD_Q0 \<noteq> TAIL_Q0 then Some (q_next qt HEAD_Q0)
         else if q_next qt HEAD_Q1 \<noteq> TAIL_Q1 then Some (q_next qt HEAD_Q1)
         else if q_next qt HEAD_Q2 \<noteq> TAIL_Q2 then Some (q_next qt HEAD_Q2)
         else None)"

section \<open>The three queues\<close>

text \<open>
  \<open>queues_are qt Q\<close>: queue \<open>q\<close> of the table holds exactly the processes \<open>Q q\<close>, in this
  order, linked both ways between its sentinels, and the level stored in a process's entry
  says which queue it is in.
\<close>

definition queues_are :: "qentry list \<Rightarrow> (nat \<Rightarrow> nat list) \<Rightarrow> bool" where
  "queues_are qt Q \<longleftrightarrow>
     length qt = NPROC + 2 * NUM_QUEUES \<and>
     (\<forall>q < 3. dll (q_next qt) (q_prev qt) (64 + 2 * q) (Q q) (65 + 2 * q)) \<and>
     (\<forall>q < 3. distinct (Q q) \<and> set (Q q) \<subseteq> {..<NPROC}) \<and>
     (\<forall>q < 3. \<forall>q' < 3. q \<noteq> q' \<longrightarrow> set (Q q) \<inter> set (Q q') = {}) \<and>
     (\<forall>i < NPROC. \<forall>q < 3. q_queue qt i = q \<longleftrightarrow> i \<in> set (Q q))"

interpretation qstore: link_store q_valid q_next q_prev set_q_next set_q_prev
  by unfold_locales (auto simp: q_set_same q_valid_def fun_eq_iff)

lemma queues_areD:
  assumes "queues_are qt Q"
  shows "length qt = 70"
    and "q < 3 \<Longrightarrow> dll (q_next qt) (q_prev qt) (64 + 2 * q) (Q q) (65 + 2 * q)"
    and "q < 3 \<Longrightarrow> distinct (Q q)"
    and "q < 3 \<Longrightarrow> i \<in> set (Q q) \<Longrightarrow> i < NPROC"
    and "q < 3 \<Longrightarrow> q' < 3 \<Longrightarrow> q \<noteq> q' \<Longrightarrow> i \<in> set (Q q) \<Longrightarrow> i \<notin> set (Q q')"
    and "i < NPROC \<Longrightarrow> q < 3 \<Longrightarrow> q_queue qt i = q \<longleftrightarrow> i \<in> set (Q q)"
  using assms unfolding queues_are_def by fastforce+

lemma queues_areI:
  assumes "length qt = 70"
    and "\<And>q. q < 3 \<Longrightarrow> dll (q_next qt) (q_prev qt) (64 + 2 * q) (Q q) (65 + 2 * q)"
    and "\<And>q. q < 3 \<Longrightarrow> distinct (Q q)"
    and "\<And>q i. q < 3 \<Longrightarrow> i \<in> set (Q q) \<Longrightarrow> i < NPROC"
    and "\<And>q q' i. q < 3 \<Longrightarrow> q' < 3 \<Longrightarrow> q \<noteq> q' \<Longrightarrow> i \<in> set (Q q) \<Longrightarrow> i \<notin> set (Q q')"
    and "\<And>i q. i < NPROC \<Longrightarrow> q < 3 \<Longrightarrow> q_queue qt i = q \<longleftrightarrow> i \<in> set (Q q)"
  shows "queues_are qt Q"
  using assms unfolding queues_are_def by (auto simp: disjoint_iff)

subsection \<open>Setting up\<close>

lemma clear_queues_links [simp]:
  "q_next (clear_queues n qt) = q_next qt" "q_prev (clear_queues n qt) = q_prev qt"
  "length (clear_queues n qt) = length qt"
  by (induction n) simp_all

lemma clear_queues_queue:
  "n \<le> length qt \<Longrightarrow> q_queue (clear_queues n qt) = (\<lambda>i. if i < n then EMPTY else q_queue qt i)"
  by (induction n) (auto simp: q_set_same)

lemma less_3_cases: "(q::nat) < 3 \<Longrightarrow> q = 0 \<or> q = 1 \<or> q = 2"
  by auto

lemma setupQueue_queues:
  assumes "length (qtable k) = 70"
  shows "queues_are (qtable (setupQueue k)) (\<lambda>_. [])"
proof (rule queues_areI)
  have len: "length (clear_queues NPROC (qtable k)) = 70" using assms by simp
  fix q :: nat assume q: "q < 3"
  show "dll (q_next (qtable (setupQueue k))) (q_prev (qtable (setupQueue k))) (64 + 2 * q) [] (65 + 2 * q)"
    using less_3_cases [OF q] len by (auto simp: setupQueue_def Let_def q_set_same)
  fix i :: nat assume "i < NPROC"
  with q len show "q_queue (qtable (setupQueue k)) i = q \<longleftrightarrow> i \<in> set []"
    by (simp add: setupQueue_def Let_def q_set_same clear_queues_queue EMPTY_def)
qed (use assms in \<open>simp_all add: setupQueue_def Let_def\<close>)

lemma setupQueue_rest [simp]:
  "procs (setupQueue k) = procs k" "length (qtable (setupQueue k)) = length (qtable k)"
  by (simp_all add: setupQueue_def Let_def)

subsection \<open>Appending to a queue\<close>

lemma link_before_length [simp]: "length (link_before q t i qt) = length qt"
  by (simp add: link_before_def Let_def)

lemma tail_prev:
  assumes "queues_are qt Q" and "q < 3"
  shows "q_prev qt (65 + 2 * q) \<in> insert (64 + 2 * q) (set (Q q))"
  using dll_last [OF queues_areD(2) [OF assms]] by auto

lemma link_before_links:
  assumes "queues_are qt Q" and "q < 3" and "i < NPROC"
  shows "q_next (link_before q (65 + 2 * q) i qt) = (q_next qt)(i := 65 + 2 * q, q_prev qt (65 + 2 * q) := i)"
    and "q_prev (link_before q (65 + 2 * q) i qt) = (q_prev qt)(i := q_prev qt (65 + 2 * q), 65 + 2 * q := i)"
    and "q_queue (link_before q (65 + 2 * q) i qt) = (q_queue qt)(i := q)"
proof -
  have "length qt = 70" using queues_areD(1) [OF assms(1)] .
  moreover have "q_prev qt (65 + 2 * q) < 70"
    using tail_prev [OF assms(1,2)] queues_areD(4) [OF assms(1,2)] assms(2) by fastforce
  ultimately show "q_next (link_before q (65 + 2 * q) i qt) = (q_next qt)(i := 65 + 2 * q, q_prev qt (65 + 2 * q) := i)"
    and "q_prev (link_before q (65 + 2 * q) i qt) = (q_prev qt)(i := q_prev qt (65 + 2 * q), 65 + 2 * q := i)"
    and "q_queue (link_before q (65 + 2 * q) i qt) = (q_queue qt)(i := q)"
    using assms(2,3) by (simp_all add: link_before_def Let_def q_set_same)
qed

lemma link_before_queues:
  assumes qs: "queues_are qt Q" and q: "q < 3" and i: "i < NPROC"
    and free: "\<And>q. q < 3 \<Longrightarrow> i \<notin> set (Q q)"
  shows "queues_are (link_before q (65 + 2 * q) i qt) (Q(q := Q q @ [i]))"
proof (rule queues_areI)
  note D = queues_areD [OF qs]
  note L = link_before_links [OF qs q i]
  fix r :: nat assume r: "r < 3"
  show "dll (q_next (link_before q (65 + 2 * q) i qt)) (q_prev (link_before q (65 + 2 * q) i qt))
      (64 + 2 * r) ((Q(q := Q q @ [i])) r) (65 + 2 * r)"
  proof (cases "r = q")
    case True
    have "distinct ((64 + 2 * q) # Q q)" "65 + 2 * q \<notin> set (Q q)"
      using D(3,4) q by fastforce+
    moreover have "i \<notin> insert (64 + 2 * q) (insert (65 + 2 * q) (set (Q q)))"
      using free [OF q] i by auto
    moreover have "\<forall>y \<in> set (Q q). q_valid (set_q_queue i q qt) y"
      "q_valid (set_q_queue i q qt) i" "q_valid (set_q_queue i q qt) (64 + 2 * q)"
      "q_valid (set_q_queue i q qt) (65 + 2 * q)"
      using D(1) D(4) [OF q] i q by (fastforce simp: q_valid_def)+
    ultimately show ?thesis
      using qstore.append_node [of "set_q_queue i q qt" "64 + 2 * q" "Q q" "65 + 2 * q" i] D(2) [OF q] True
      by (simp add: link_before_def Let_def)
  next
    case False
    have "i \<noteq> 64 + 2 * r" "i \<notin> set (Q r)" "i \<noteq> 65 + 2 * r" "65 + 2 * q \<noteq> 65 + 2 * r"
      "65 + 2 * q \<notin> set (Q r)"
      using i free [OF r] False D(4) [OF r] by fastforce+
    moreover have "q_prev qt (65 + 2 * q) \<noteq> 64 + 2 * r" "q_prev qt (65 + 2 * q) \<notin> set (Q r)"
      using tail_prev [OF qs q] D(4) [OF q] D(4) [OF r] D(5) [OF q r] False by fastforce+
    ultimately show ?thesis using D(2) [OF r] False by (simp add: L)
  qed
  show "distinct ((Q(q := Q q @ [i])) r)"
    using D(3) [OF r] free [OF q] by auto
  fix j r' assume j: "j \<in> set ((Q(q := Q q @ [i])) r)"
  then show "j < NPROC" using D(4) [OF r] i by (auto split: if_splits)
  assume "r' < 3" "r \<noteq> r'"
  with j show "j \<notin> set ((Q(q := Q q @ [i])) r')"
    using D(5) [OF r] free r by (auto split: if_splits)
next
  fix j r :: nat assume "j < NPROC" "r < 3"
  then show "q_queue (link_before q (65 + 2 * q) i qt) j = r \<longleftrightarrow> j \<in> set ((Q(q := Q q @ [i])) r)"
    using queues_areD(6) [OF qs] free link_before_links(3) [OF qs q i] by auto
qed (use queues_areD(1) [OF qs] in simp)

subsection \<open>Taking a process out\<close>

lemma removeFromQueue_links:
  assumes qs: "queues_are (qtable k) Q" and q: "q < 3" and i: "i \<in> set (Q q)"
  shows "q_next (qtable (removeFromQueue i k)) =
           (q_next (qtable k))(q_prev (qtable k) i := q_next (qtable k) i)"
    and "q_prev (qtable (removeFromQueue i k)) =
           (q_prev (qtable k))(q_next (qtable k) i := q_prev (qtable k) i)"
    and "q_queue (qtable (removeFromQueue i k)) = (q_queue (qtable k))(i := EMPTY)"
    and "q_prev (qtable k) i \<in> insert (64 + 2 * q) (set (Q q))"
    and "q_next (qtable k) i \<in> insert (65 + 2 * q) (set (Q q))"
proof -
  note D = queues_areD [OF qs]
  from i obtain xs ys where Q: "Q q = xs @ i # ys" by (meson split_list)
  then have s: "dll (q_next (qtable k)) (q_prev (qtable k)) (64 + 2 * q) xs i"
      "dll (q_next (qtable k)) (q_prev (qtable k)) i ys (65 + 2 * q)"
    using D(2) [OF q] by (simp_all add: dll_append)
  show p: "q_prev (qtable k) i \<in> insert (64 + 2 * q) (set (Q q))"
    using dll_last [OF s(1)] Q by auto
  show n: "q_next (qtable k) i \<in> insert (65 + 2 * q) (set (Q q))"
    using dll_first [OF s(2)] Q by (cases ys) auto
  have "q_prev (qtable k) i < 70" "q_next (qtable k) i < 70" "i < 70"
    using p n D(4) [OF q] q i by fastforce+
  with D(1) show "q_next (qtable (removeFromQueue i k)) =
        (q_next (qtable k))(q_prev (qtable k) i := q_next (qtable k) i)"
    and "q_prev (qtable (removeFromQueue i k)) =
           (q_prev (qtable k))(q_next (qtable k) i := q_prev (qtable k) i)"
    and "q_queue (qtable (removeFromQueue i k)) = (q_queue (qtable k))(i := EMPTY)"
    by (simp_all add: removeFromQueue_def Let_def q_set_same)
qed

lemma removeFromQueue_queues:
  assumes qs: "queues_are (qtable k) Q" and q: "q < 3" and i: "i \<in> set (Q q)"
  shows "queues_are (qtable (removeFromQueue i k)) (Q(q := remove1 i (Q q)))"
proof (rule queues_areI)
  note D = queues_areD [OF qs]
  note L = removeFromQueue_links [OF qs q i]
  have rset: "set (remove1 i (Q q)) = set (Q q) - {i}" using D(3) [OF q] by simp
  fix r :: nat assume r: "r < 3"
  show "dll (q_next (qtable (removeFromQueue i k))) (q_prev (qtable (removeFromQueue i k)))
      (64 + 2 * r) ((Q(q := remove1 i (Q q))) r) (65 + 2 * r)"
  proof (cases "r = q")
    case True
    from i obtain xs ys where Q: "Q q = xs @ i # ys" by (meson split_list)
    have d: "distinct (xs @ i # ys)" using D(3) [OF q] Q by simp
    moreover have "64 + 2 * q \<notin> set (xs @ i # ys)" "65 + 2 * q \<notin> set (xs @ i # ys)"
      using D(4) [OF q] Q by fastforce+
    moreover have "\<forall>y \<in> set (xs @ i # ys). q_valid (set_q_queue i EMPTY (qtable k)) y"
      "q_valid (set_q_queue i EMPTY (qtable k)) (64 + 2 * q)"
      "q_valid (set_q_queue i EMPTY (qtable k)) (65 + 2 * q)"
      using D(1) D(4) [OF q] Q q by (fastforce simp: q_valid_def)+
    ultimately show ?thesis
      using qstore.remove_node [of "set_q_queue i EMPTY (qtable k)" "64 + 2 * q" xs i ys "65 + 2 * q"]
        D(2) [OF q] True by (simp add: removeFromQueue_def Let_def Q remove1_split [OF d])
  next
    case False
    have "q_prev (qtable k) i \<noteq> 64 + 2 * r" "q_prev (qtable k) i \<notin> set (Q r)"
      "q_next (qtable k) i \<noteq> 65 + 2 * r" "q_next (qtable k) i \<notin> set (Q r)"
      using L(4,5) D(4) [OF q] D(4) [OF r] D(5) [OF q r] False by fastforce+
    with D(2) [OF r] False show ?thesis by (simp add: L)
  qed
  show "distinct ((Q(q := remove1 i (Q q))) r)" using D(3) [OF r] by auto
  fix j r' assume j: "j \<in> set ((Q(q := remove1 i (Q q))) r)"
  then show "j < NPROC" using D(4) [OF r] rset by (auto split: if_splits)
  assume "r' < 3" "r \<noteq> r'"
  with j show "j \<notin> set ((Q(q := remove1 i (Q q))) r')"
    using D(5) [OF r] r rset by (auto split: if_splits)
next
  fix j r :: nat assume j: "j < NPROC" and r: "r < 3"
  have "set (remove1 i (Q q)) = set (Q q) - {i}" using queues_areD(3) [OF qs q] by simp
  with j r show "q_queue (qtable (removeFromQueue i k)) j = r \<longleftrightarrow> j \<in> set ((Q(q := remove1 i (Q q))) r)"
    using queues_areD(6) [OF qs] queues_areD(5) [OF qs q r] i removeFromQueue_links(3) [OF qs q i]
    by (auto simp: EMPTY_def)
qed (use queues_areD(1) [OF qs] in \<open>simp add: removeFromQueue_def Let_def\<close>)

lemma removeFromQueue_rest [simp]:
  "procs (removeFromQueue i k) = procs k" "hart (removeFromQueue i k) = hart k"
  "klocks (removeFromQueue i k) = klocks k" "isQueueSetup (removeFromQueue i k) = isQueueSetup k"
  by (simp_all add: removeFromQueue_def Let_def)

section \<open>Enqueueing a process\<close>

definition level_of :: "proc \<Rightarrow> nat" where
  "level_of p = nat (fst (choose_queue p))"

lemma choose_queue_range: "0 \<le> fst (choose_queue p) \<and> fst (choose_queue p) \<le> 2"
  by (auto simp: choose_queue_def Let_def)

lemma level_of_less_3: "level_of p < 3"
  using choose_queue_range [of p] unfolding level_of_def by linarith

lemma enqueue_eq:
  assumes "i < length (procs k)"
  shows "enqueue i k =
    k\<lparr>procs := (procs k)[i := (procs k ! i)\<lparr>p_quanta := snd (choose_queue (procs k ! i)),
                                          p_queue := fst (choose_queue (procs k ! i))\<rparr>],
      qtable := link_before (level_of (procs k ! i)) (65 + 2 * level_of (procs k ! i)) i (qtable k)\<rparr>"
proof -
  have "fst (choose_queue (procs k ! i)) \<in> {0, 1, 2}"
    using choose_queue_range [of "procs k ! i"] by auto
  then show ?thesis
    using assms
    by (auto simp: enqueue_def level_of_def upd_proc_def Let_def split: prod.splits)
qed

lemma enqueue_queues:
  assumes "queues_are (qtable k) Q" and "i < NPROC" and "length (procs k) = NPROC"
    and "\<And>q. q < 3 \<Longrightarrow> i \<notin> set (Q q)"
  shows "queues_are (qtable (enqueue i k))
           (Q(level_of (procs k ! i) := Q (level_of (procs k ! i)) @ [i]))"
  using link_before_queues [OF assms(1) level_of_less_3 assms(2) assms(4)] assms(2,3)
  by (simp add: enqueue_eq)

lemma enqueue_rest [simp]:
  "i < length (procs k) \<Longrightarrow> c_proc (enqueue i k) = c_proc k"
  "i < length (procs k) \<Longrightarrow> hart (enqueue i k) = hart k"
  "i < length (procs k) \<Longrightarrow> length (procs (enqueue i k)) = length (procs k)"
  "i < length (procs k) \<Longrightarrow> length (qtable (enqueue i k)) = length (qtable k)"
  by (simp_all add: enqueue_eq)

lemma enqueue_proc:
  "i < length (procs k) \<Longrightarrow> procs (enqueue i k) ! j =
     (if i = j then (procs k ! i)\<lparr>p_quanta := snd (choose_queue (procs k ! i)),
                                 p_queue := fst (choose_queue (procs k ! i))\<rparr>
      else procs k ! j)"
  by (simp add: enqueue_eq)

section \<open>Choosing the next process\<close>

lemma dequeue_choose_queues:
  assumes "queues_are (qtable k) Q"
  shows "dequeue_choose k =
    (if Q 0 \<noteq> [] then Some (hd (Q 0)) else if Q 1 \<noteq> [] then Some (hd (Q 1))
     else if Q 2 \<noteq> [] then Some (hd (Q 2)) else None)"
proof -
  have "q_next (qtable k) (64 + 2 * q) = hd (Q q @ [65 + 2 * q])"
    "q_next (qtable k) (64 + 2 * q) = 65 + 2 * q \<longleftrightarrow> Q q = []" if "q < 3" for q
    using dll_first [OF queues_areD(2) [OF assms that]]
      dll_empty_iff [OF queues_areD(2) [OF assms that]] queues_areD(4) [OF assms that] by fastforce+
  from this [of 0] this [of 1] this [of 2] show ?thesis
    by (auto simp: dequeue_choose_def Let_def)
qed

lemma dequeue_choose_head:
  assumes "queues_are (qtable k) Q" and "dequeue_choose k = Some i"
  shows "\<exists>q < 3. Q q \<noteq> [] \<and> i = hd (Q q)"
proof -
  have "(Q 0 \<noteq> [] \<and> i = hd (Q 0)) \<or> (Q 1 \<noteq> [] \<and> i = hd (Q 1)) \<or> (Q 2 \<noteq> [] \<and> i = hd (Q 2))"
    using assms(2) unfolding dequeue_choose_queues [OF assms(1)] by (simp split: if_splits)
  moreover have "0 < (3::nat)" "1 < (3::nat)" "2 < (3::nat)" by simp_all
  ultimately show ?thesis by blast
qed

end
