(* ===== verification/Sched.thy ===== *)
theory Sched
  imports Mlfq
begin

text \<open>
  Scheduling in the multilevel feedback queue kernel (\<^verbatim>\<open>kernel/proc.c\<close>): \<^verbatim>\<open>scheduler\<close>,
  \<^verbatim>\<open>dequeue\<close>, \<^verbatim>\<open>sched\<close>, \<^verbatim>\<open>yield\<close>, \<^verbatim>\<open>sleep\<close>, \<^verbatim>\<open>wakeup\<close>, \<^verbatim>\<open>kill\<close>, \<^verbatim>\<open>setkilled\<close>,
  \<^verbatim>\<open>killed\<close>, \<^verbatim>\<open>sys_nice\<close> and \<^verbatim>\<open>sys_startlog\<close>, run by one hart. A function that calls
  \<^verbatim>\<open>swtch\<close> is cut in two there: what runs before the switch, and what runs when control
  comes back. \<^verbatim>\<open>myproc()\<close> reads \<open>c_proc\<close>; its \<^verbatim>\<open>push_off\<close>/\<^verbatim>\<open>pop_off\<close> pair only touches the
  \<^verbatim>\<open>intena\<close> field of a hart that is in no critical section, where it is dead.
\<close>

section \<open>Locks\<close>

definition acquire_p :: "nat \<Rightarrow> kernel \<Rightarrow> kernel res" where
  "acquire_p i k =
     bind_res (acquire me (p_lock (procs k ! i)) (hart k))
       (\<lambda>(lk, h). Ok (upd_proc i (\<lambda>p. p\<lparr>p_lock := lk\<rparr>) (k\<lparr>hart := h\<rparr>)))"

definition release_p :: "nat \<Rightarrow> kernel \<Rightarrow> kernel res" where
  "release_p i k =
     bind_res (release me (p_lock (procs k ! i)) (hart k))
       (\<lambda>(lk, h). Ok (upd_proc i (\<lambda>p. p\<lparr>p_lock := lk\<rparr>) (k\<lparr>hart := h\<rparr>)))"

definition acquire_lk :: "lockname \<Rightarrow> kernel \<Rightarrow> kernel res" where
  "acquire_lk l k =
     bind_res (acquire me (klocks k l) (hart k))
       (\<lambda>(lk, h). Ok (k\<lparr>klocks := (klocks k)(l := lk), hart := h\<rparr>))"

definition release_lk :: "lockname \<Rightarrow> kernel \<Rightarrow> kernel res" where
  "release_lk l k =
     bind_res (release me (klocks k l) (hart k))
       (\<lambda>(lk, h). Ok (k\<lparr>klocks := (klocks k)(l := lk), hart := h\<rparr>))"

section \<open>The scheduler loop\<close>

text \<open>\<^verbatim>\<open>if(isQueueSetup == 0){ setupQueue(); isQueueSetup = 1; }\<close>, written out at every call.\<close>

definition ensure_setup :: "kernel \<Rightarrow> kernel" where
  "ensure_setup k = (if isQueueSetup k = 0 then (setupQueue k)\<lparr>isQueueSetup := 1\<rparr> else k)"

fun enqueue_runnable :: "nat list \<Rightarrow> kernel \<Rightarrow> kernel" where
  "enqueue_runnable [] k = k"
| "enqueue_runnable (i # is) k =
     enqueue_runnable is (if p_state (procs k ! i) = RUNNABLE then enqueue i k else k)"

definition priority_boost :: "kernel \<Rightarrow> kernel" where
  "priority_boost k =
     (if timeSincePriorityBoost k > 60 then
        (enqueue_runnable [0..<NPROC] (setupQueue k))\<lparr>timeSincePriorityBoost := 0\<rparr>
      else k)"

text \<open>\<^verbatim>\<open>dequeue\<close> up to its \<^verbatim>\<open>swtch\<close>; \<open>None\<close> when every queue is empty.\<close>

definition dequeue :: "kernel \<Rightarrow> (nat option \<times> kernel) res" where
  "dequeue k =
     (case dequeue_choose k of
        None \<Rightarrow> Ok (None, k)
      | Some i \<Rightarrow>
          let k = removeFromQueue i k;
              k = k\<lparr>c_proc := None, hart := (hart k)\<lparr>intr := True\<rparr>\<rparr>
          in bind_res (acquire_p i k) (\<lambda>k.
             let k = upd_proc i (\<lambda>p. p\<lparr>p_state := RUNNING\<rparr>) k
             in Ok (Some i, k\<lparr>c_proc := Some i\<rparr>)))"

text \<open>\<^verbatim>\<open>dequeue\<close> from the return of its \<^verbatim>\<open>swtch\<close>: the scheduling log, then the lock.\<close>

definition log_switch :: "nat \<Rightarrow> kernel \<Rightarrow> kernel" where
  "log_switch i k =
     (if is_logging k \<noteq> 0 \<and>
         (num_logged k = 0 \<or> le_pid (schedlog k ! nat (num_logged k - 1)) \<noteq> p_pid (procs k ! i)) \<and>
         num_logged k < int LOG_SIZE
      then k\<lparr>schedlog := (schedlog k)[nat (num_logged k) :=
               \<lparr>le_pid = p_pid (procs k ! i), le_time = time k\<rparr>],
             num_logged := num_logged k + 1\<rparr>
      else k)"

definition dequeue_return :: "nat \<Rightarrow> kernel \<Rightarrow> kernel res" where
  "dequeue_return i k =
     (let k = log_switch i k; k = k\<lparr>c_proc := None\<rparr> in release_p i k)"

text \<open>What the process does first when the scheduler has switched to it.\<close>

definition resume :: "nat \<Rightarrow> kernel \<Rightarrow> kernel res" where
  "resume i k =
     (case p_resume (procs k ! i) of
        Nowhere \<Rightarrow> Panic ''switch to a context that was never set up''
      | Forkret \<Rightarrow> release_p i k
      | Yielded ie \<Rightarrow> release_p i (k\<lparr>hart := (hart k)\<lparr>intena := ie\<rparr>\<rparr>)
      | Slept lk ie \<Rightarrow>
          let k = k\<lparr>hart := (hart k)\<lparr>intena := ie\<rparr>\<rparr>;
              k = upd_proc i (\<lambda>p. p\<lparr>p_chan := NoChan\<rparr>) k
          in bind_res (release_p i k) (acquire_lk lk))"

text \<open>One turn of \<^verbatim>\<open>for(;;)\<close> in \<^verbatim>\<open>scheduler\<close>, up to the point where the process runs.\<close>

definition scheduler :: "kernel \<Rightarrow> kernel res" where
  "scheduler k =
     bind_res (dequeue (priority_boost k))
       (\<lambda>(r, k). case r of None \<Rightarrow> Ok k | Some i \<Rightarrow> resume i k)"

section \<open>Giving up the CPU\<close>

text \<open>\<^verbatim>\<open>sched\<close> up to its \<^verbatim>\<open>swtch\<close>; \<open>r\<close> is the place after it, with the saved \<^verbatim>\<open>intena\<close>.\<close>

definition sched :: "(bool \<Rightarrow> resume_point) \<Rightarrow> kernel \<Rightarrow> kernel res" where
  "sched r k =
     (case c_proc k of
        None \<Rightarrow> Panic ''null process''
      | Some i \<Rightarrow>
          if \<not> holding me (p_lock (procs k ! i)) then Panic ''sched p->lock''
          else if noff (hart k) \<noteq> 1 then Panic ''sched locks''
          else if p_state (procs k ! i) = RUNNING then Panic ''sched running''
          else if intr (hart k) then Panic ''sched interruptible''
          else Ok (upd_proc i (\<lambda>p. p\<lparr>p_resume := r (intena (hart k))\<rparr>) k))"

definition yield :: "kernel \<Rightarrow> kernel res" where
  "yield k =
     (case c_proc k of
        None \<Rightarrow> Panic ''null process''
      | Some i \<Rightarrow>
          bind_res (acquire_p i k) (\<lambda>k.
          let k = upd_proc i (\<lambda>p. p\<lparr>p_state := RUNNABLE\<rparr>) k;
              k = ensure_setup k;
              k = upd_proc i (\<lambda>p. p\<lparr>p_quanta := s32 (p_quanta p + 1)\<rparr>) k;
              k = k\<lparr>timeSincePriorityBoost := s32 (timeSincePriorityBoost k + 1)\<rparr>;
              k = enqueue i k
          in sched Yielded k))"

definition sleep :: "chan \<Rightarrow> lockname \<Rightarrow> kernel \<Rightarrow> kernel res" where
  "sleep ch lk k =
     (case c_proc k of
        None \<Rightarrow> Panic ''null process''
      | Some i \<Rightarrow>
          bind_res (acquire_p i k) (\<lambda>k.
          bind_res (release_lk lk k) (\<lambda>k.
          let k = upd_proc i (\<lambda>p. p\<lparr>p_chan := ch\<rparr>) k;
              k = upd_proc i (\<lambda>p. p\<lparr>p_state := SLEEPING\<rparr>) k
          in sched (Slept lk) k)))"

section \<open>Waking and killing\<close>

definition make_runnable :: "nat \<Rightarrow> kernel \<Rightarrow> kernel" where
  "make_runnable i k = enqueue i (ensure_setup (upd_proc i (\<lambda>p. p\<lparr>p_state := RUNNABLE\<rparr>) k))"

fun wakeup_procs :: "chan \<Rightarrow> nat list \<Rightarrow> kernel \<Rightarrow> kernel res" where
  "wakeup_procs ch [] k = Ok k"
| "wakeup_procs ch (i # is) k =
     (if Some i \<noteq> c_proc k then
        bind_res (acquire_p i k) (\<lambda>k.
        let k = (if p_state (procs k ! i) = SLEEPING \<and> p_chan (procs k ! i) = ch
                 then make_runnable i k else k)
        in bind_res (release_p i k) (wakeup_procs ch is))
      else wakeup_procs ch is k)"

definition wakeup :: "chan \<Rightarrow> kernel \<Rightarrow> kernel res" where
  "wakeup ch k = wakeup_procs ch [0..<NPROC] k"

fun kill_procs :: "int \<Rightarrow> nat list \<Rightarrow> kernel \<Rightarrow> (int \<times> kernel) res" where
  "kill_procs pid [] k = Ok (-1, k)"
| "kill_procs pid (i # is) k =
     bind_res (acquire_p i k) (\<lambda>k.
       if p_pid (procs k ! i) = pid then
         let k = upd_proc i (\<lambda>p. p\<lparr>p_killed := 1\<rparr>) k;
             k = (if p_state (procs k ! i) = SLEEPING then make_runnable i k else k)
         in bind_res (release_p i k) (\<lambda>k. Ok (0, k))
       else bind_res (release_p i k) (kill_procs pid is))"

definition kill :: "int \<Rightarrow> kernel \<Rightarrow> (int \<times> kernel) res" where
  "kill pid k = kill_procs pid [0..<NPROC] k"

definition setkilled :: "nat \<Rightarrow> kernel \<Rightarrow> kernel res" where
  "setkilled i k =
     bind_res (acquire_p i k) (\<lambda>k. release_p i (upd_proc i (\<lambda>p. p\<lparr>p_killed := 1\<rparr>) k))"

definition killed :: "nat \<Rightarrow> kernel \<Rightarrow> (int \<times> kernel) res" where
  "killed i k =
     bind_res (acquire_p i k) (\<lambda>k.
     let r = p_killed (procs k ! i) in bind_res (release_p i k) (\<lambda>k. Ok (r, k)))"

section \<open>System calls of the scheduler\<close>

definition sys_startlog :: "kernel \<Rightarrow> int \<times> kernel" where
  "sys_startlog k = (if is_logging k \<noteq> 0 then (-1, k) else (0, k\<lparr>is_logging := 1\<rparr>))"

definition sys_nice :: "int \<Rightarrow> kernel \<Rightarrow> (int \<times> kernel) res" where
  "sys_nice inc k =
     (case c_proc k of
        None \<Rightarrow> Panic ''null process''
      | Some i \<Rightarrow>
          let k = upd_proc i (\<lambda>p. p\<lparr>p_nice := s32 (p_nice p + inc)\<rparr>) k;
              k = (if p_nice (procs k ! i) > 19 then upd_proc i (\<lambda>p. p\<lparr>p_nice := 19\<rparr>) k else k);
              k = (if p_nice (procs k ! i) < -20 then upd_proc i (\<lambda>p. p\<lparr>p_nice := -20\<rparr>) k else k);
              nice = p_nice (procs k ! i);
              tempQueue = (if nice > 10 then 0
                           else if nice < -10 \<and> nice \<le> 10 then 1
                           else if nice \<le> -10 then 2 else -1);
              k = (if tempQueue \<noteq> p_queue (procs k ! i) then enqueue i (removeFromQueue i k) else k)
          in Ok (p_nice (procs k ! i), k))"

end
