(* ===== verification/Sched_Inv.thy ===== *)
theory Sched_Inv
  imports Sched
begin

text \<open>
  The scheduler's invariant: a process is on exactly one ready queue, once, when and only
  when it is RUNNABLE; the running process is the one the hart points at; between kernel
  operations no process lock is held. Every operation but \<^verbatim>\<open>sys_nice\<close> keeps it and none
  of them panics.
\<close>

section \<open>The invariant\<close>

definition sched_ok :: "kernel \<Rightarrow> bool" where
  "sched_ok k \<longleftrightarrow> length (procs k) = NPROC \<and> isQueueSetup k \<noteq> 0 \<and>
     (\<exists>Q. queues_are (qtable k) Q \<and>
          (\<forall>i < NPROC. p_state (procs k ! i) = RUNNABLE \<longleftrightarrow> (\<exists>q < 3. i \<in> set (Q q))))"

definition kinv :: "kernel \<Rightarrow> bool" where
  "kinv k \<longleftrightarrow> sched_ok k \<and> hart_ok (hart k) \<and>
     (\<forall>i < NPROC. \<not> lk_locked (p_lock (procs k ! i))) \<and>
     (\<forall>i < NPROC. p_state (procs k ! i) = RUNNING \<longleftrightarrow> c_proc k = Some i) \<and>
     (\<forall>i. c_proc k = Some i \<longrightarrow> i < NPROC)"

lemma kinvD:
  assumes "kinv k"
  shows "sched_ok k" "length (procs k) = NPROC" "isQueueSetup k \<noteq> 0" "hart_ok (hart k)"
    and "i < NPROC \<Longrightarrow> \<not> lk_locked (p_lock (procs k ! i))"
    and "i < NPROC \<Longrightarrow> p_state (procs k ! i) = RUNNING \<longleftrightarrow> c_proc k = Some i"
    and "c_proc k = Some i \<Longrightarrow> i < NPROC"
  using assms by (auto simp: kinv_def sched_ok_def)

section \<open>Lock brackets\<close>

lemma acquire_p_free:
  "\<not> lk_locked (p_lock (procs k ! i)) \<Longrightarrow>
     acquire_p i k = Ok (upd_proc i (\<lambda>p. p\<lparr>p_lock := held\<rparr>) (k\<lparr>hart := push_off (hart k)\<rparr>))"
  by (simp add: acquire_p_def acquire_held)

lemma release_p_held:
  "p_lock (procs k ! i) = held \<Longrightarrow> 1 \<le> noff (hart k) \<Longrightarrow> \<not> intr (hart k) \<Longrightarrow>
     release_p i k = Ok (upd_proc i (\<lambda>p. p\<lparr>p_lock := initlock\<rparr>) (k\<lparr>hart := pop (hart k)\<rparr>))"
  by (simp add: release_p_def release_held_eq)

section \<open>Queueing a process\<close>

lemma ensure_setup_id: "isQueueSetup k \<noteq> 0 \<Longrightarrow> ensure_setup k = k"
  by (simp add: ensure_setup_def)

text \<open>The invariant only looks at the states of the processes and at the queue table.\<close>

lemma sched_ok_cong:
  assumes "sched_ok k" and "length (procs k') = length (procs k)" and "qtable k' = qtable k"
    and "isQueueSetup k' = isQueueSetup k"
    and "\<And>i. i < NPROC \<Longrightarrow> p_state (procs k' ! i) = RUNNABLE \<longleftrightarrow> p_state (procs k ! i) = RUNNABLE"
  shows "sched_ok k'"
  using assms by (simp add: sched_ok_def)

lemma sched_ok_enqueue:
  assumes k: "sched_ok k" and i: "i < NPROC" "p_state (procs k ! i) \<noteq> RUNNABLE"
    and k': "length (procs k') = NPROC" "qtable k' = qtable k" "isQueueSetup k' = isQueueSetup k"
      "p_state (procs k' ! i) = RUNNABLE"
      "\<And>j. j < NPROC \<Longrightarrow> j \<noteq> i \<Longrightarrow> p_state (procs k' ! j) = p_state (procs k ! j)"
  shows "sched_ok (enqueue i k')"
proof -
  from k obtain Q where Q: "queues_are (qtable k) Q"
      "\<forall>i < NPROC. p_state (procs k ! i) = RUNNABLE \<longleftrightarrow> (\<exists>q < 3. i \<in> set (Q q))"
    by (auto simp: sched_ok_def)
  let ?l = "level_of (procs k' ! i)"
  let ?Q = "Q(?l := Q ?l @ [i])"
  have "queues_are (qtable (enqueue i k')) ?Q"
    using enqueue_queues [of k' Q i] Q i k' by auto
  moreover have "\<forall>j < NPROC. p_state (procs (enqueue i k') ! j) = RUNNABLE \<longleftrightarrow> (\<exists>q < 3. j \<in> set (?Q q))"
  proof (intro allI impI)
    fix j :: nat assume j: "j < NPROC"
    show "p_state (procs (enqueue i k') ! j) = RUNNABLE \<longleftrightarrow> (\<exists>q < 3. j \<in> set (?Q q))"
    proof (cases "j = i")
      case True
      then show ?thesis
        using i k' level_of_less_3 by (auto simp: enqueue_proc)
    next
      case False
      then have "j \<in> set (?Q q) \<longleftrightarrow> j \<in> set (Q q)" for q by simp
      then show ?thesis using False j i k' Q(2) by (simp add: enqueue_proc del: fun_upd_apply)
    qed
  qed
  moreover have "length (procs (enqueue i k')) = NPROC" "isQueueSetup (enqueue i k') \<noteq> 0"
    using k k' i by (auto simp: sched_ok_def enqueue_eq)
  ultimately show ?thesis unfolding sched_ok_def by blast
qed

lemma make_runnable_eq:
  assumes "isQueueSetup k \<noteq> 0"
  shows "make_runnable i k = enqueue i (upd_proc i (\<lambda>p. p\<lparr>p_state := RUNNABLE\<rparr>) k)"
  using assms by (simp add: make_runnable_def ensure_setup_id)

lemma make_runnable_ok:
  assumes "sched_ok k" and "i < NPROC" and "p_state (procs k ! i) \<noteq> RUNNABLE"
  shows "sched_ok (make_runnable i k)"
proof -
  have len: "length (procs k) = NPROC" "isQueueSetup k \<noteq> 0" using assms(1) by (auto simp: sched_ok_def)
  show ?thesis
    unfolding make_runnable_eq [OF len(2)]
    by (rule sched_ok_enqueue [OF assms]) (use assms len in \<open>auto simp: upd_proc_nth\<close>)
qed

lemma make_runnable_frame:
  assumes "isQueueSetup k \<noteq> 0" and "i < length (procs k)"
  shows "hart (make_runnable i k) = hart k" "c_proc (make_runnable i k) = c_proc k"
    "klocks (make_runnable i k) = klocks k"
    "length (procs (make_runnable i k)) = length (procs k)"
    "isQueueSetup (make_runnable i k) = isQueueSetup k"
    "p_state (procs (make_runnable i k) ! j) = (if i = j then RUNNABLE else p_state (procs k ! j))"
    "p_lock (procs (make_runnable i k) ! j) = p_lock (procs k ! j)"
    "p_pid (procs (make_runnable i k) ! j) = p_pid (procs k ! j)"
    "p_killed (procs (make_runnable i k) ! j) = p_killed (procs k ! j)"
    "p_chan (procs (make_runnable i k) ! j) = p_chan (procs k ! j)"
    "p_resume (procs (make_runnable i k) ! j) = p_resume (procs k ! j)"
  using assms by (simp_all add: make_runnable_eq enqueue_eq upd_proc_def nth_list_update)

section \<open>Waking up\<close>

text \<open>The body of the loop in \<^verbatim>\<open>wakeup\<close>, for a process that is not the caller.\<close>

definition wake_one :: "chan \<Rightarrow> nat \<Rightarrow> kernel \<Rightarrow> kernel" where
  "wake_one ch i k =
     (if p_state (procs k ! i) = SLEEPING \<and> p_chan (procs k ! i) = ch then make_runnable i k else k)"

lemma kinv_bracket:
  assumes k: "kinv k" and i: "i < NPROC"
    and k1: "k1 = upd_proc i (\<lambda>p. p\<lparr>p_lock := held\<rparr>) (k\<lparr>hart := push_off (hart k)\<rparr>)"
    and k2: "sched_ok k2" "hart k2 = hart k1" "c_proc k2 = c_proc k1"
      "\<And>j. p_lock (procs k2 ! j) = p_lock (procs k1 ! j)"
      "\<And>j. j < NPROC \<Longrightarrow> (p_state (procs k2 ! j) = RUNNING) = (p_state (procs k1 ! j) = RUNNING)"
  shows "\<exists>k'. release_p i k2 = Ok k' \<and> kinv k' \<and>
    k' = upd_proc i (\<lambda>p. p\<lparr>p_lock := initlock\<rparr>) (k2\<lparr>hart := pop (push_off (hart k))\<rparr>)"
proof -
  note D = kinvD [OF k]
  have h: "1 \<le> noff (hart k2)" "\<not> intr (hart k2)"
    using D(4) by (simp_all add: k2 k1 hart_ok_def)
  have "p_lock (procs k2 ! i) = held"
    using i D(2) by (simp add: k2 k1 upd_proc_nth)
  then have r: "release_p i k2 =
      Ok (upd_proc i (\<lambda>p. p\<lparr>p_lock := initlock\<rparr>) (k2\<lparr>hart := pop (push_off (hart k))\<rparr>))"
    using release_p_held [OF _ h] by (simp add: k2 k1)
  have len: "length (procs k2) = NPROC" using k2(1) by (simp add: sched_ok_def)
  have "kinv (upd_proc i (\<lambda>p. p\<lparr>p_lock := initlock\<rparr>) (k2\<lparr>hart := pop (push_off (hart k))\<rparr>))"
    unfolding kinv_def
  proof (intro conjI allI impI)
    show "sched_ok (upd_proc i (\<lambda>p. p\<lparr>p_lock := initlock\<rparr>) (k2\<lparr>hart := pop (push_off (hart k))\<rparr>))"
      by (rule sched_ok_cong [OF k2(1)]) (auto simp: upd_proc_nth)
  qed (use D k2 k1 len i pop_push_fields(3) [OF D(4)] in \<open>auto simp: upd_proc_nth\<close>)
  with r show ?thesis by blast
qed

lemma sched_ok_lock:
  assumes "sched_ok k"
  shows "sched_ok (upd_proc i (\<lambda>p. p\<lparr>p_lock := l\<rparr>) (k\<lparr>hart := h\<rparr>))"
  by (rule sched_ok_cong [OF assms]) (auto simp: upd_proc_nth)

lemma wake_one_step:
  assumes k: "kinv k" and i: "i < NPROC" and c: "Some i \<noteq> c_proc k"
  shows "\<exists>k'. wakeup_procs ch (i # is) k = wakeup_procs ch is k' \<and> kinv k' \<and> c_proc k' = c_proc k \<and>
    noff (hart k') = noff (hart k) \<and> klocks k' = klocks k \<and>
    (\<forall>j. p_state (procs k' ! j) =
       (if j = i \<and> p_state (procs k ! i) = SLEEPING \<and> p_chan (procs k ! i) = ch then RUNNABLE
        else p_state (procs k ! j)) \<and> p_chan (procs k' ! j) = p_chan (procs k ! j) \<and>
       p_resume (procs k' ! j) = p_resume (procs k ! j))"
proof -
  note D = kinvD [OF k]
  define k1 where "k1 = upd_proc i (\<lambda>p. p\<lparr>p_lock := held\<rparr>) (k\<lparr>hart := push_off (hart k)\<rparr>)"
  have a: "acquire_p i k = Ok k1" using D(5) [OF i] by (simp add: acquire_p_free k1_def)
  have s1: "sched_ok k1" unfolding k1_def by (rule sched_ok_lock [OF D(1)])
  have len: "i < length (procs k1)" "isQueueSetup k1 \<noteq> 0" using D(2,3) i by (simp_all add: k1_def)
  note F = make_runnable_frame [OF len(2,1)]
  define k2 where "k2 = wake_one ch i k1"
  have s2: "sched_ok k2"
    using make_runnable_ok [OF s1 i] s1 by (simp add: k2_def wake_one_def)
  obtain k' where k': "release_p i k2 = Ok k'" "kinv k'"
      "k' = upd_proc i (\<lambda>p. p\<lparr>p_lock := initlock\<rparr>) (k2\<lparr>hart := pop (push_off (hart k))\<rparr>)"
    using kinv_bracket [OF k i k1_def s2] by (auto simp: k2_def wake_one_def F)
  have "wakeup_procs ch (i # is) k = wakeup_procs ch is k'"
    using c k'(1) by (simp add: a k2_def wake_one_def Let_def)
  moreover have "noff (hart k') = noff (hart k)"
    using pop_push_fields(1) [OF D(4)] by (simp add: k'(3))
  moreover have "c_proc k' = c_proc k" "klocks k' = klocks k"
    by (simp_all add: k'(3) k2_def wake_one_def F) (simp_all add: k1_def)
  moreover have "p_state (procs k' ! j) =
       (if j = i \<and> p_state (procs k ! i) = SLEEPING \<and> p_chan (procs k ! i) = ch then RUNNABLE
        else p_state (procs k ! j)) \<and> p_chan (procs k' ! j) = p_chan (procs k ! j) \<and>
       p_resume (procs k' ! j) = p_resume (procs k ! j)" for j
  proof -
    have "p_state (procs k1 ! j) = p_state (procs k ! j)" "p_chan (procs k1 ! j) = p_chan (procs k ! j)"
      "p_resume (procs k1 ! j) = p_resume (procs k ! j)" for j
      by (simp_all add: k1_def upd_proc_nth)
    then have "p_state (procs k2 ! j) =
        (if j = i \<and> p_state (procs k ! i) = SLEEPING \<and> p_chan (procs k ! i) = ch then RUNNABLE
         else p_state (procs k ! j))" "p_chan (procs k2 ! j) = p_chan (procs k ! j)"
      "p_resume (procs k2 ! j) = p_resume (procs k ! j)"
      using F(6) [of j] F(10) [of j] F(11) [of j] by (auto simp: k2_def wake_one_def)
    then show ?thesis by (simp add: k'(3))
  qed
  ultimately show ?thesis using k'(2) by blast
qed

lemma wakeup_procs_ok:
  assumes "kinv k" and "set is \<subseteq> {..<NPROC}" and "distinct is"
  shows "\<exists>k'. wakeup_procs ch is k = Ok k' \<and> kinv k' \<and> c_proc k' = c_proc k \<and>
    noff (hart k') = noff (hart k) \<and> klocks k' = klocks k \<and>
    (\<forall>j. p_state (procs k' ! j) =
       (if j \<in> set is \<and> Some j \<noteq> c_proc k \<and> p_state (procs k ! j) = SLEEPING \<and>
           p_chan (procs k ! j) = ch then RUNNABLE
        else p_state (procs k ! j)) \<and> p_chan (procs k' ! j) = p_chan (procs k ! j) \<and>
       p_resume (procs k' ! j) = p_resume (procs k ! j))"
  using assms
proof (induction "is" arbitrary: k)
  case Nil
  then show ?case by simp
next
  case (Cons i "is")
  then have i: "i < NPROC" "set is \<subseteq> {..<NPROC}" "distinct is" "i \<notin> set is" by auto
  show ?case
  proof (cases "Some i = c_proc k")
    case True
    then show ?thesis using Cons.IH [OF Cons.prems(1) i(2,3)] by auto
  next
    case False
    obtain k1 where k1: "wakeup_procs ch (i # is) k = wakeup_procs ch is k1" "kinv k1"
        "c_proc k1 = c_proc k" "noff (hart k1) = noff (hart k)" "klocks k1 = klocks k"
        "\<And>j. p_state (procs k1 ! j) =
         (if j = i \<and> p_state (procs k ! i) = SLEEPING \<and> p_chan (procs k ! i) = ch then RUNNABLE
          else p_state (procs k ! j))" "\<And>j. p_chan (procs k1 ! j) = p_chan (procs k ! j)"
        "\<And>j. p_resume (procs k1 ! j) = p_resume (procs k ! j)"
      using wake_one_step [OF Cons.prems(1) i(1) False] by blast
    from Cons.IH [OF k1(2) i(2,3)] obtain k' where k': "wakeup_procs ch is k1 = Ok k'" "kinv k'"
        "c_proc k' = c_proc k" "noff (hart k') = noff (hart k)" "klocks k' = klocks k"
        "\<And>j. p_state (procs k' ! j) =
         (if j \<in> set is \<and> Some j \<noteq> c_proc k1 \<and> p_state (procs k1 ! j) = SLEEPING \<and>
             p_chan (procs k1 ! j) = ch then RUNNABLE else p_state (procs k1 ! j))"
        "\<And>j. p_chan (procs k' ! j) = p_chan (procs k1 ! j)"
        "\<And>j. p_resume (procs k' ! j) = p_resume (procs k1 ! j)"
      using k1 by auto
    have "p_state (procs k' ! j) =
       (if j \<in> set (i # is) \<and> Some j \<noteq> c_proc k \<and> p_state (procs k ! j) = SLEEPING \<and>
           p_chan (procs k ! j) = ch then RUNNABLE
        else p_state (procs k ! j))" for j
      using k1(3,6,7) k'(6) False i(4) by auto
    with k1 k' show ?thesis by auto
  qed
qed

section \<open>Killing\<close>

lemma kill_procs_ok:
  assumes "kinv k" and "set is \<subseteq> {..<NPROC}"
  shows "\<exists>r k'. kill_procs pid is k = Ok (r, k') \<and> kinv k' \<and> c_proc k' = c_proc k \<and>
    noff (hart k') = noff (hart k) \<and> klocks k' = klocks k \<and>
    (\<forall>j. p_pid (procs k' ! j) = p_pid (procs k ! j) \<and> p_resume (procs k' ! j) = p_resume (procs k ! j) \<and>
      (p_state (procs k' ! j) \<in> {RUNNABLE, SLEEPING} \<longleftrightarrow> p_state (procs k ! j) \<in> {RUNNABLE, SLEEPING})) \<and>
    (if \<exists>i \<in> set is. p_pid (procs k ! i) = pid
     then r = 0 \<and> (\<exists>i \<in> set is. p_pid (procs k ! i) = pid \<and> p_killed (procs k' ! i) = 1 \<and>
            p_state (procs k' ! i) \<noteq> SLEEPING)
     else r = -1 \<and> (\<forall>j. p_killed (procs k' ! j) = p_killed (procs k ! j) \<and>
            p_state (procs k' ! j) = p_state (procs k ! j)))"
  using assms
proof (induction "is" arbitrary: k)
  case Nil
  then show ?case by simp
next
  case (Cons i "is")
  then have i: "i < NPROC" "set is \<subseteq> {..<NPROC}" by auto
  note D = kinvD [OF Cons.prems(1)]
  define k1 where "k1 = upd_proc i (\<lambda>p. p\<lparr>p_lock := held\<rparr>) (k\<lparr>hart := push_off (hart k)\<rparr>)"
  have a: "acquire_p i k = Ok k1" using D(5) [OF i(1)] by (simp add: acquire_p_free k1_def)
  have s1: "sched_ok k1" unfolding k1_def by (rule sched_ok_lock [OF D(1)])
  have pid1: "p_pid (procs k1 ! j) = p_pid (procs k ! j)" for j by (simp add: k1_def)
  show ?case
  proof (cases "p_pid (procs k ! i) = pid")
    case True
    define k0 where "k0 = upd_proc i (\<lambda>p. p\<lparr>p_killed := 1\<rparr>) k1"
    have s0: "sched_ok k0"
      by (rule sched_ok_cong [OF s1]) (auto simp: k0_def upd_proc_nth)
    have len: "i < length (procs k0)" "isQueueSetup k0 \<noteq> 0" using D(2,3) i by (simp_all add: k0_def k1_def)
    note F = make_runnable_frame [OF len(2,1)]
    define k2 where "k2 = (if p_state (procs k0 ! i) = SLEEPING then make_runnable i k0 else k0)"
    have s2: "sched_ok k2" using make_runnable_ok [OF s0 i(1)] s0 by (simp add: k2_def)
    have f0: "p_resume (procs k0 ! j) = p_resume (procs k1 ! j)" "klocks k0 = klocks k1"
      "p_state (procs k0 ! j) = p_state (procs k1 ! j)" "p_lock (procs k0 ! j) = p_lock (procs k1 ! j)"
      "hart k0 = hart k1" "c_proc k0 = c_proc k1" "p_pid (procs k0 ! j) = p_pid (procs k1 ! j)"
      "p_killed (procs k0 ! i) = 1" for j
      using len(1) by (auto simp: k0_def upd_proc_nth)
    have f2: "p_lock (procs k2 ! j) = p_lock (procs k1 ! j)" "hart k2 = hart k1" "c_proc k2 = c_proc k1"
      "(p_state (procs k2 ! j) = RUNNING) = (p_state (procs k1 ! j) = RUNNING)"
      "p_pid (procs k2 ! j) = p_pid (procs k1 ! j)" "p_killed (procs k2 ! i) = 1"
      "p_state (procs k2 ! i) \<noteq> SLEEPING" "p_resume (procs k2 ! j) = p_resume (procs k ! j)"
      "klocks k2 = klocks k"
      "(p_state (procs k2 ! j) \<in> {RUNNABLE, SLEEPING}) = (p_state (procs k ! j) \<in> {RUNNABLE, SLEEPING})" for j
      using F(6) [of j] by (auto simp: k2_def F f0) (auto simp: k1_def)
    obtain k' where k': "release_p i k2 = Ok k'" "kinv k'"
        "k' = upd_proc i (\<lambda>p. p\<lparr>p_lock := initlock\<rparr>) (k2\<lparr>hart := pop (push_off (hart k))\<rparr>)"
      using kinv_bracket [OF Cons.prems(1) i(1) k1_def s2] f2 by auto
    have "kill_procs pid (i # is) k = Ok (0, k')"
      using True k'(1) by (simp add: a pid1 Let_def k0_def [symmetric] k2_def [symmetric])
    moreover have "c_proc k' = c_proc k" by (simp add: k'(3) f2) (simp add: k1_def)
    moreover have "noff (hart k') = noff (hart k)" using pop_push_fields(1) [OF D(4)] by (simp add: k'(3))
    ultimately show ?thesis using True k' f2 pid1 by auto
  next
    case False
    obtain k' where k': "release_p i k1 = Ok k'" "kinv k'"
        "k' = upd_proc i (\<lambda>p. p\<lparr>p_lock := initlock\<rparr>) (k1\<lparr>hart := pop (push_off (hart k))\<rparr>)"
      using kinv_bracket [OF Cons.prems(1) i(1) k1_def s1] by auto
    have same: "p_pid (procs k' ! j) = p_pid (procs k ! j)" "p_killed (procs k' ! j) = p_killed (procs k ! j)"
      "p_state (procs k' ! j) = p_state (procs k ! j)" "c_proc k' = c_proc k" "klocks k' = klocks k"
      "p_resume (procs k' ! j) = p_resume (procs k ! j)" "noff (hart k') = noff (hart k)" for j
      using pop_push_fields(1) [OF D(4)] by (simp_all add: k'(3)) (simp_all add: k1_def)
    have eq: "kill_procs pid (i # is) k = kill_procs pid is k'"
      using False k'(1) by (simp add: a pid1)
    have ex: "(\<exists>j \<in> set (i # is). p_pid (procs k ! j) = pid \<and> P j) =
        (\<exists>j \<in> set is. p_pid (procs k ! j) = pid \<and> P j)" for P
      using False by auto
    have ex': "(\<exists>j \<in> set (i # is). p_pid (procs k ! j) = pid) = (\<exists>j \<in> set is. p_pid (procs k ! j) = pid)"
      using False by auto
    show ?thesis
      using Cons.IH [OF k'(2) i(2)] unfolding eq same ex ex' .
  qed
qed

section \<open>The priority boost\<close>

lemma enqueue_runnable_queues:
  assumes "queues_are (qtable k) Q" and "length (procs k) = NPROC" and "set is \<subseteq> {..<NPROC}"
    and "distinct is" and "\<And>q i. q < 3 \<Longrightarrow> i \<in> set is \<Longrightarrow> i \<notin> set (Q q)"
  shows "\<exists>Q'. queues_are (qtable (enqueue_runnable is k)) Q' \<and>
    (\<forall>i. (\<exists>q < 3. i \<in> set (Q' q)) \<longleftrightarrow>
       (\<exists>q < 3. i \<in> set (Q q)) \<or> (i \<in> set is \<and> p_state (procs k ! i) = RUNNABLE))"
  using assms
proof (induction "is" arbitrary: k Q)
  case Nil
  then show ?case by auto
next
  case (Cons i "is")
  then have i: "i < NPROC" "set is \<subseteq> {..<NPROC}" "distinct is" "i \<notin> set is" by auto
  show ?case
  proof (cases "p_state (procs k ! i) = RUNNABLE")
    case True
    let ?k = "enqueue i k"
    let ?l = "level_of (procs k ! i)"
    let ?Q = "Q(?l := Q ?l @ [i])"
    have Q: "queues_are (qtable ?k) ?Q"
      by (rule enqueue_queues) (use Cons.prems i in auto)
    have mem: "(\<exists>q < 3. j \<in> set (?Q q)) \<longleftrightarrow> (\<exists>q < 3. j \<in> set (Q q)) \<or> j = i" for j
    proof -
      have "j \<in> set (?Q q) \<longleftrightarrow> j \<in> set (Q q) \<or> (q = ?l \<and> j = i)" for q by auto
      then show ?thesis using level_of_less_3 [of "procs k ! i"] by blast
    qed
    have "\<exists>Q'. queues_are (qtable (enqueue_runnable is ?k)) Q' \<and>
      (\<forall>j. (\<exists>q < 3. j \<in> set (Q' q)) \<longleftrightarrow>
         (\<exists>q < 3. j \<in> set (?Q q)) \<or> (j \<in> set is \<and> p_state (procs ?k ! j) = RUNNABLE))"
    proof (rule Cons.IH [OF Q _ i(2,3)])
      show "length (procs ?k) = NPROC" using Cons.prems(2) i(1) by simp
      show "j \<notin> set (?Q q)" if "q < 3" "j \<in> set is" for q j
        using Cons.prems(5) [OF that(1)] that i(4) mem by auto
    qed
    moreover have "p_state (procs ?k ! j) = p_state (procs k ! j)" for j
      using Cons.prems(2) i(1) by (simp add: enqueue_proc)
    ultimately obtain Q' where Q': "queues_are (qtable (enqueue_runnable is ?k)) Q'"
      "\<And>j. (\<exists>q < 3. j \<in> set (Q' q)) \<longleftrightarrow>
         (\<exists>q < 3. j \<in> set (?Q q)) \<or> (j \<in> set is \<and> p_state (procs k ! j) = RUNNABLE)"
      by auto
    show ?thesis
      by (rule exI [of _ Q']) (use Q' True mem in auto)
  next
    case False
    then have mem: "j \<in> set (i # is) \<and> p_state (procs k ! j) = RUNNABLE \<longleftrightarrow>
        j \<in> set is \<and> p_state (procs k ! j) = RUNNABLE" for j by auto
    have "enqueue_runnable (i # is) k = enqueue_runnable is k" using False by simp
    with Cons.IH [OF Cons.prems(1,2) i(2,3)] Cons.prems(5) mem show ?thesis by simp
  qed
qed

lemma enqueue_runnable_frame:
  assumes "set is \<subseteq> {..<length (procs k)}"
  shows "hart (enqueue_runnable is k) = hart k" "c_proc (enqueue_runnable is k) = c_proc k"
    "klocks (enqueue_runnable is k) = klocks k" "isQueueSetup (enqueue_runnable is k) = isQueueSetup k"
    "length (procs (enqueue_runnable is k)) = length (procs k)"
    "p_state (procs (enqueue_runnable is k) ! j) = p_state (procs k ! j)"
    "p_lock (procs (enqueue_runnable is k) ! j) = p_lock (procs k ! j)"
    "p_resume (procs (enqueue_runnable is k) ! j) = p_resume (procs k ! j)"
  using assms
  by (induction "is" arbitrary: k) (auto simp: enqueue_eq nth_list_update)

lemma priority_boost_frame:
  assumes "length (procs k) = NPROC"
  shows "hart (priority_boost k) = hart k" "c_proc (priority_boost k) = c_proc k"
    "klocks (priority_boost k) = klocks k" "isQueueSetup (priority_boost k) = isQueueSetup k"
    "length (procs (priority_boost k)) = length (procs k)"
    "p_state (procs (priority_boost k) ! j) = p_state (procs k ! j)"
    "p_lock (procs (priority_boost k) ! j) = p_lock (procs k ! j)"
    "p_resume (procs (priority_boost k) ! j) = p_resume (procs k ! j)"
proof -
  have "set [0..<NPROC] \<subseteq> {..<length (procs (setupQueue k))}" using assms by auto
  note F = enqueue_runnable_frame [OF this]
  show "hart (priority_boost k) = hart k" "c_proc (priority_boost k) = c_proc k"
    "klocks (priority_boost k) = klocks k" "isQueueSetup (priority_boost k) = isQueueSetup k"
    "length (procs (priority_boost k)) = length (procs k)"
    "p_state (procs (priority_boost k) ! j) = p_state (procs k ! j)"
    "p_lock (procs (priority_boost k) ! j) = p_lock (procs k ! j)"
    "p_resume (procs (priority_boost k) ! j) = p_resume (procs k ! j)"
    by (simp_all add: priority_boost_def F) (simp_all add: setupQueue_def Let_def)
qed

lemma priority_boost_ok:
  assumes "sched_ok k"
  shows "sched_ok (priority_boost k)"
proof (cases "timeSincePriorityBoost k > 60")
  case True
  have len: "length (procs k) = NPROC" "length (qtable k) = 70"
    using assms queues_areD(1) by (auto simp: sched_ok_def)
  have "\<exists>Q'. queues_are (qtable (enqueue_runnable [0..<NPROC] (setupQueue k))) Q' \<and>
    (\<forall>i. (\<exists>q < 3. i \<in> set (Q' q)) \<longleftrightarrow>
       (\<exists>q < (3::nat). i \<in> set []) \<or> (i \<in> set [0..<NPROC] \<and> p_state (procs (setupQueue k) ! i) = RUNNABLE))"
    by (rule enqueue_runnable_queues [OF setupQueue_queues [OF len(2)]]) (use len in auto)
  then have "\<exists>Q'. queues_are (qtable (priority_boost k)) Q' \<and>
    (\<forall>i < NPROC. p_state (procs (priority_boost k) ! i) = RUNNABLE \<longleftrightarrow> (\<exists>q < 3. i \<in> set (Q' q)))"
    using True by (simp add: priority_boost_frame(6) [OF len(1)]) (auto simp: priority_boost_def)
  then show ?thesis
    using assms by (simp add: sched_ok_def priority_boost_frame [OF len(1)])
next
  case False
  with assms show ?thesis by (simp add: priority_boost_def)
qed

lemma priority_boost_kinv: "kinv k \<Longrightarrow> kinv (priority_boost k)"
  using priority_boost_ok priority_boost_frame [OF kinvD(2)] by (simp add: kinv_def)

end
