(* ===== verification/Sched_Steps.thy ===== *)
theory Sched_Steps
  imports Sched_Inv
begin

text \<open>
  The kernel as a machine: control is either in the scheduler loop or with a running
  process, which may hold one of the kernel's other spin locks. Each event is one whole
  operation of \<^verbatim>\<open>proc.c\<close>; the scheduler's half of a context switch belongs to the event
  that gives up the CPU.
\<close>

section \<open>Control states\<close>

definition resumable :: "kernel \<Rightarrow> bool" where
  "resumable k \<longleftrightarrow>
     (\<forall>i < NPROC. p_state (procs k ! i) \<in> {RUNNABLE, SLEEPING} \<longrightarrow> p_resume (procs k ! i) \<noteq> Nowhere)"

definition no_locks :: "kernel \<Rightarrow> bool" where
  "no_locks k \<longleftrightarrow> (\<forall>l. \<not> lk_locked (klocks k l))"

definition at_scheduler :: "kernel \<Rightarrow> bool" where
  "at_scheduler k \<longleftrightarrow> kinv k \<and> resumable k \<and> c_proc k = None \<and> noff (hart k) = 0 \<and> no_locks k"

definition running :: "kernel \<Rightarrow> bool" where
  "running k \<longleftrightarrow> kinv k \<and> resumable k \<and> c_proc k \<noteq> None \<and> noff (hart k) = 0 \<and> no_locks k"

definition running_with :: "lockname \<Rightarrow> kernel \<Rightarrow> bool" where
  "running_with l k \<longleftrightarrow> kinv k \<and> resumable k \<and> c_proc k \<noteq> None \<and> noff (hart k) = 1 \<and>
     klocks k l = held \<and> (\<forall>l'. l' \<noteq> l \<longrightarrow> \<not> lk_locked (klocks k l'))"

section \<open>Giving up the CPU\<close>

lemma log_switch_frame [simp]:
  "procs (log_switch i k) = procs k" "qtable (log_switch i k) = qtable k" "hart (log_switch i k) = hart k"
  "klocks (log_switch i k) = klocks k" "isQueueSetup (log_switch i k) = isQueueSetup k"
  by (simp_all add: log_switch_def)

text \<open>
  From the moment the process lock is taken to the scheduler's release of it: the process
  \<open>i\<close> leaves RUNNING, the queues agree with the new states, and control is back in the
  scheduler loop.
\<close>

lemma switch_out:
  assumes k: "sched_ok k" and i: "i < NPROC" "c_proc k = Some i" "p_lock (procs k ! i) = held"
    and h: "noff (hart k) = 1" "\<not> intr (hart k)" and st: "p_state (procs k ! i) \<noteq> RUNNING"
    and others: "\<And>j. j < NPROC \<Longrightarrow> j \<noteq> i \<Longrightarrow> p_state (procs k ! j) \<noteq> RUNNING"
      "\<And>j. j < NPROC \<Longrightarrow> j \<noteq> i \<Longrightarrow> \<not> lk_locked (p_lock (procs k ! j))"
  shows "\<exists>k'. bind_res (sched r k) (dequeue_return i) = Ok k' \<and> kinv k' \<and> c_proc k' = None \<and>
    noff (hart k') = 0 \<and> klocks k' = klocks k \<and> qtable k' = qtable k \<and>
    (\<forall>j. p_state (procs k' ! j) = p_state (procs k ! j) \<and> p_chan (procs k' ! j) = p_chan (procs k ! j)) \<and>
    (\<forall>j. p_resume (procs k' ! j) = (if j = i then r (intena (hart k)) else p_resume (procs k ! j)))"
proof -
  have len: "length (procs k) = NPROC" using k by (simp add: sched_ok_def)
  define k1 where "k1 = upd_proc i (\<lambda>p. p\<lparr>p_resume := r (intena (hart k))\<rparr>) k"
  define k2 where "k2 = (log_switch i k1)\<lparr>c_proc := None\<rparr>"
  define k3 where "k3 = upd_proc i (\<lambda>p. p\<lparr>p_lock := initlock\<rparr>) (k2\<lparr>hart := pop (hart k)\<rparr>)"
  have s: "sched r k = Ok k1"
    using i h st by (simp add: sched_def k1_def)
  have f1: "p_state (procs k1 ! j) = p_state (procs k ! j)" "p_lock (procs k1 ! j) = p_lock (procs k ! j)"
    "p_chan (procs k1 ! j) = p_chan (procs k ! j)"
    "p_resume (procs k1 ! j) = (if j = i then r (intena (hart k)) else p_resume (procs k ! j))"
    "hart k1 = hart k" "klocks k1 = klocks k" for j
    using i(1) len by (auto simp: k1_def upd_proc_nth)
  have "release_p i k2 = Ok k3"
    using release_p_held [of k2 i] i h by (simp add: k2_def k3_def f1)
  then have eq: "bind_res (sched r k) (dequeue_return i) = Ok k3"
    by (simp add: s dequeue_return_def Let_def k2_def)
  have f3: "p_state (procs k3 ! j) = p_state (procs k ! j)" "p_chan (procs k3 ! j) = p_chan (procs k ! j)"
    "p_resume (procs k3 ! j) = (if j = i then r (intena (hart k)) else p_resume (procs k ! j))"
    "hart k3 = pop (hart k)" "klocks k3 = klocks k" "c_proc k3 = None" for j
    by (simp_all add: k3_def k2_def f1)
  have sk: "sched_ok k3"
    by (rule sched_ok_cong [OF k]) (simp_all add: f3, simp_all add: k3_def k2_def k1_def)
  have lk: "\<not> lk_locked (p_lock (procs k3 ! j))" if "j < NPROC" for j
    using that others(2) [OF that] len i by (auto simp: k3_def k2_def upd_proc_nth f1) (simp_all add: k1_def)
  have "kinv k3"
    using sk lk h st others(1) by (auto simp: kinv_def f3 hart_ok_def)
  moreover have "qtable k3 = qtable k" by (simp add: k3_def k2_def k1_def)
  ultimately show ?thesis using eq f3 h by auto
qed

text \<open>The level a process that yields is put back on.\<close>

definition next_level :: "proc \<Rightarrow> nat" where
  "next_level p = level_of (p\<lparr>p_quanta := s32 (p_quanta p + 1)\<rparr>)"

lemma yield_ok:
  assumes "running k" and "c_proc k = Some i"
  shows "\<exists>k'. bind_res (yield k) (dequeue_return i) = Ok k' \<and> at_scheduler k' \<and>
    p_state (procs k' ! i) = RUNNABLE \<and>
    qtable k' = link_before (next_level (procs k ! i)) (65 + 2 * next_level (procs k ! i)) i (qtable k)"
proof -
  have k: "kinv k" "noff (hart k) = 0" "no_locks k" "resumable k" using assms by (auto simp: running_def)
  note D = kinvD [OF k(1)]
  have i: "i < NPROC" "p_state (procs k ! i) = RUNNING" using D(6,7) assms(2) by auto
  define k1 where "k1 = upd_proc i (\<lambda>p. p\<lparr>p_lock := held\<rparr>) (k\<lparr>hart := push_off (hart k)\<rparr>)"
  define k2 where "k2 = (upd_proc i (\<lambda>p. p\<lparr>p_quanta := s32 (p_quanta p + 1)\<rparr>)
      (upd_proc i (\<lambda>p. p\<lparr>p_state := RUNNABLE\<rparr>) k1))
      \<lparr>timeSincePriorityBoost := s32 (timeSincePriorityBoost k + 1)\<rparr>"
  have a: "acquire_p i k = Ok k1" using D(5) [OF i(1)] by (simp add: acquire_p_free k1_def)
  have y: "yield k = sched Yielded (enqueue i k2)"
    using assms(2) D(3) by (simp add: yield_def a Let_def ensure_setup_def k2_def) (simp add: k1_def)
  have len: "i < length (procs k2)" "length (procs k2) = NPROC" using D(2) i by (simp_all add: k2_def k1_def)
  have f2: "p_state (procs k2 ! j) = (if j = i then RUNNABLE else p_state (procs k ! j))"
    "p_lock (procs k2 ! j) = (if j = i then held else p_lock (procs k ! j))"
    "p_resume (procs k2 ! j) = p_resume (procs k ! j)"
    "hart k2 = push_off (hart k)" "klocks k2 = klocks k" "c_proc k2 = Some i" "qtable k2 = qtable k"
    "isQueueSetup k2 = isQueueSetup k" for j
    using D(2) i assms(2) by (auto simp: k2_def k1_def upd_proc_nth)
  have s3: "sched_ok (enqueue i k2)"
    by (rule sched_ok_enqueue [OF D(1) i(1)]) (use i len f2 in auto)
  have f3: "p_state (procs (enqueue i k2) ! j) = p_state (procs k2 ! j)"
    "p_lock (procs (enqueue i k2) ! j) = p_lock (procs k2 ! j)"
    "p_resume (procs (enqueue i k2) ! j) = p_resume (procs k2 ! j)"
    "klocks (enqueue i k2) = klocks k2" for j
    using len by (simp_all add: enqueue_eq nth_list_update)
  obtain k' where k': "bind_res (sched Yielded (enqueue i k2)) (dequeue_return i) = Ok k'" "kinv k'"
      "c_proc k' = None" "noff (hart k') = 0" "klocks k' = klocks (enqueue i k2)"
      "qtable k' = qtable (enqueue i k2)"
      "\<And>j. p_state (procs k' ! j) = p_state (procs (enqueue i k2) ! j)"
      "\<And>j. p_resume (procs k' ! j) = (if j = i then Yielded (intena (hart (enqueue i k2)))
         else p_resume (procs (enqueue i k2) ! j))"
    using switch_out [OF s3 i(1), of Yielded] len k(2) D(5,6) assms(2) by (auto simp: f3 f2)
  have "resumable k'"
    using k(4) by (auto simp: resumable_def k'(7,8) f3 f2)
  moreover have "no_locks k'" using k(3) by (simp add: no_locks_def k'(5) f3 f2)
  moreover have "level_of (procs k2 ! i) = next_level (procs k ! i)"
    using i(1) D(2) by (simp add: k2_def k1_def upd_proc_nth next_level_def level_of_def choose_queue_def)
  then have "qtable k' = link_before (next_level (procs k ! i)) (65 + 2 * next_level (procs k ! i)) i (qtable k)"
    using len k'(6) by (simp add: enqueue_eq f2)
  ultimately show ?thesis using k' by (auto simp: y at_scheduler_def f3 f2)
qed

lemma release_lk_held:
  "klocks k l = held \<Longrightarrow> 1 \<le> noff (hart k) \<Longrightarrow> \<not> intr (hart k) \<Longrightarrow>
     release_lk l k = Ok (k\<lparr>klocks := (klocks k)(l := initlock), hart := pop (hart k)\<rparr>)"
  by (simp add: release_lk_def release_held_eq)

lemma acquire_lk_free:
  "\<not> lk_locked (klocks k l) \<Longrightarrow>
     acquire_lk l k = Ok (k\<lparr>klocks := (klocks k)(l := held), hart := push_off (hart k)\<rparr>)"
  by (simp add: acquire_lk_def acquire_held)

lemma sleep_ok:
  assumes "running_with l k" and "c_proc k = Some i"
  shows "\<exists>k'. bind_res (sleep ch l k) (dequeue_return i) = Ok k' \<and> at_scheduler k' \<and>
    p_state (procs k' ! i) = SLEEPING \<and> p_chan (procs k' ! i) = ch"
proof -
  have k: "kinv k" "noff (hart k) = 1" "resumable k" "klocks k l = held"
      "\<And>l'. l' \<noteq> l \<Longrightarrow> \<not> lk_locked (klocks k l')"
    using assms by (auto simp: running_with_def)
  note D = kinvD [OF k(1)]
  have i: "i < NPROC" "p_state (procs k ! i) = RUNNING" using D(6,7) assms(2) by auto
  define k1 where "k1 = upd_proc i (\<lambda>p. p\<lparr>p_lock := held\<rparr>) (k\<lparr>hart := push_off (hart k)\<rparr>)"
  define k2 where "k2 = k1\<lparr>klocks := (klocks k)(l := initlock), hart := pop (push_off (hart k))\<rparr>"
  define k3 where "k3 = upd_proc i (\<lambda>p. p\<lparr>p_state := SLEEPING\<rparr>) (upd_proc i (\<lambda>p. p\<lparr>p_chan := ch\<rparr>) k2)"
  have a: "acquire_p i k = Ok k1" using D(5) [OF i(1)] by (simp add: acquire_p_free k1_def)
  have "release_lk l k1 = Ok k2"
    using release_lk_held [of k1 l] k(2,4) by (simp add: k1_def k2_def)
  then have y: "sleep ch l k = sched (Slept l) k3"
    using assms(2) by (simp add: sleep_def a Let_def k3_def)
  have f3: "p_state (procs k3 ! j) = (if j = i then SLEEPING else p_state (procs k ! j))"
    "p_lock (procs k3 ! j) = (if j = i then held else p_lock (procs k ! j))"
    "p_chan (procs k3 ! j) = (if j = i then ch else p_chan (procs k ! j))"
    "p_resume (procs k3 ! j) = p_resume (procs k ! j)"
    "hart k3 = pop (push_off (hart k))" "klocks k3 = (klocks k)(l := initlock)"
    "c_proc k3 = Some i" "qtable k3 = qtable k" "isQueueSetup k3 = isQueueSetup k"
    "length (procs k3) = NPROC" for j
    using D(2) i assms(2) by (auto simp: k3_def k2_def k1_def upd_proc_nth)
  have s3: "sched_ok k3"
    by (rule sched_ok_cong [OF D(1)]) (use D(2) i in \<open>auto simp: f3\<close>)
  have h3: "noff (hart k3) = 1" "\<not> intr (hart k3)" using k(2) by (simp_all add: f3)
  obtain k' where k': "bind_res (sched (Slept l) k3) (dequeue_return i) = Ok k'" "kinv k'"
      "c_proc k' = None" "noff (hart k') = 0" "klocks k' = klocks k3"
      "\<And>j. p_state (procs k' ! j) = p_state (procs k3 ! j)"
      "\<And>j. p_chan (procs k' ! j) = p_chan (procs k3 ! j)"
      "\<And>j. p_resume (procs k' ! j) = (if j = i then Slept l (intena (hart k3)) else p_resume (procs k3 ! j))"
    using switch_out [OF s3 i(1) _ _ h3, of "Slept l"] D(5,6) assms(2) by (auto simp: f3)
  have "resumable k'" using k(3) by (auto simp: resumable_def k'(6,8) f3)
  moreover have "no_locks k'" using k(5) by (auto simp: no_locks_def k'(5) f3)
  ultimately show ?thesis using k' by (auto simp: y at_scheduler_def f3)
qed

section \<open>Taking the CPU\<close>

lemma sched_ok_remove:
  assumes k: "sched_ok k" and i: "dequeue_choose k = Some i"
    and k': "length (procs k') = NPROC" "isQueueSetup k' = isQueueSetup k"
      "qtable k' = qtable (removeFromQueue i k)" "p_state (procs k' ! i) \<noteq> RUNNABLE"
      "\<And>j. j \<noteq> i \<Longrightarrow> p_state (procs k' ! j) = p_state (procs k ! j)"
  shows "sched_ok k' \<and> i < NPROC \<and> p_state (procs k ! i) = RUNNABLE"
proof -
  from k obtain Q where Q: "queues_are (qtable k) Q"
      "\<forall>i < NPROC. p_state (procs k ! i) = RUNNABLE \<longleftrightarrow> (\<exists>q < 3. i \<in> set (Q q))"
    by (auto simp: sched_ok_def)
  obtain q where q: "q < 3" "i \<in> set (Q q)"
  proof -
    have "\<exists>q < 3. Q q \<noteq> [] \<and> i = hd (Q q)"
      by (rule dequeue_choose_head [OF Q(1) i])
    then show ?thesis using that hd_in_set by blast
  qed
  have i: "i < NPROC" using queues_areD(4) [OF Q(1) q] .
  let ?Q = "Q(q := remove1 i (Q q))"
  have QS: "queues_are (qtable k') ?Q"
    using removeFromQueue_queues [OF Q(1) q] k'(3) by simp
  have d: "set (remove1 i (Q q)) = set (Q q) - {i}" using queues_areD(3) [OF Q(1) q(1)] by simp
  have gone: "i \<notin> set (?Q r)" if "r < 3" for r
    using d queues_areD(5) [OF Q(1) q(1) that _ q(2)] by auto
  have stay: "j \<in> set (?Q r) \<longleftrightarrow> j \<in> set (Q r)" if "j \<noteq> i" for j r using that d by auto
  have "p_state (procs k' ! j) = RUNNABLE \<longleftrightarrow> (\<exists>q < 3. j \<in> set (?Q q))" if "j < NPROC" for j
  proof (cases "j = i")
    case True
    then show ?thesis using k'(4) gone by blast
  next
    case False
    then show ?thesis using k'(5) Q(2) that stay by metis
  qed
  then have "sched_ok k'"
    using QS k k'(1,2) unfolding sched_ok_def by metis
  moreover have "p_state (procs k ! i) = RUNNABLE" using Q(2) i q by blast
  ultimately show ?thesis using i by blast
qed

lemma dequeue_runs:
  assumes k: "kinv k" "c_proc k = None" "noff (hart k) = 0" and i: "dequeue_choose k = Some i"
  shows "\<exists>k'. dequeue k = Ok (Some i, k') \<and> i < NPROC \<and> p_state (procs k ! i) = RUNNABLE \<and>
    sched_ok k' \<and> c_proc k' = Some i \<and> hart k' = push_off ((hart k)\<lparr>intr := True\<rparr>) \<and>
    klocks k' = klocks k \<and>
    (\<forall>j. p_state (procs k' ! j) = (if j = i then RUNNING else p_state (procs k ! j)) \<and>
         p_lock (procs k' ! j) = (if j = i then held else p_lock (procs k ! j)) \<and>
         p_resume (procs k' ! j) = p_resume (procs k ! j))"
proof -
  note D = kinvD [OF k(1)]
  obtain Q where Q: "queues_are (qtable k) Q"
      "\<forall>i < NPROC. p_state (procs k ! i) = RUNNABLE \<longleftrightarrow> (\<exists>q < 3. i \<in> set (Q q))"
    using D(1) by (auto simp: sched_ok_def)
  have "\<exists>q < 3. Q q \<noteq> [] \<and> i = hd (Q q)"
    by (rule dequeue_choose_head [OF Q(1) i])
  then have iN: "i < NPROC" using queues_areD(4) [OF Q(1)] hd_in_set by blast
  define k1 where "k1 = (removeFromQueue i k)\<lparr>c_proc := None, hart := (hart k)\<lparr>intr := True\<rparr>\<rparr>"
  define k2 where "k2 = upd_proc i (\<lambda>p. p\<lparr>p_lock := held\<rparr>) (k1\<lparr>hart := push_off (hart k1)\<rparr>)"
  define k3 where "k3 = (upd_proc i (\<lambda>p. p\<lparr>p_state := RUNNING\<rparr>) k2)\<lparr>c_proc := Some i\<rparr>"
  have p1: "procs k1 = procs k" "klocks k1 = klocks k" "isQueueSetup k1 = isQueueSetup k"
    by (simp_all add: k1_def removeFromQueue_def Let_def)
  have a: "acquire_p i k1 = Ok k2"
    using D(5) [OF iN] by (simp add: acquire_p_free p1 k2_def)
  have eq: "dequeue k = Ok (Some i, k3)"
    using i a by (simp add: dequeue_def Let_def k3_def) (simp add: k1_def)
  have f3: "p_state (procs k3 ! j) = (if j = i then RUNNING else p_state (procs k ! j))"
    "p_lock (procs k3 ! j) = (if j = i then held else p_lock (procs k ! j))"
    "p_resume (procs k3 ! j) = p_resume (procs k ! j)" "length (procs k3) = NPROC"
    "qtable k3 = qtable (removeFromQueue i k)" "isQueueSetup k3 = isQueueSetup k"
    "hart k3 = push_off ((hart k)\<lparr>intr := True\<rparr>)" "klocks k3 = klocks k" "c_proc k3 = Some i" for j
    using D(2) iN by (auto simp: k3_def k2_def upd_proc_nth p1) (simp_all add: k1_def)
  have "sched_ok k3 \<and> i < NPROC \<and> p_state (procs k ! i) = RUNNABLE"
    by (rule sched_ok_remove [OF D(1) i]) (use f3 in auto)
  with eq f3 show ?thesis by auto
qed

lemma release_p_running:
  assumes k: "sched_ok k" and c: "c_proc k = Some i" "i < NPROC" "p_lock (procs k ! i) = held"
    and h: "noff (hart k) = 1" "\<not> intr (hart k)"
    and st: "\<And>j. j < NPROC \<Longrightarrow> p_state (procs k ! j) = RUNNING \<longleftrightarrow> j = i"
    and lk: "\<And>j. j < NPROC \<Longrightarrow> j \<noteq> i \<Longrightarrow> \<not> lk_locked (p_lock (procs k ! j))"
    and res: "resumable k"
  shows "\<exists>k'. release_p i k = Ok k' \<and> kinv k' \<and> resumable k' \<and> c_proc k' = Some i \<and>
    noff (hart k') = 0 \<and> klocks k' = klocks k \<and> (\<forall>j. p_state (procs k' ! j) = p_state (procs k ! j))"
proof -
  define k' where "k' = upd_proc i (\<lambda>p. p\<lparr>p_lock := initlock\<rparr>) (k\<lparr>hart := pop (hart k)\<rparr>)"
  have len: "length (procs k) = NPROC" using k by (simp add: sched_ok_def)
  have eq: "release_p i k = Ok k'" using release_p_held c h by (simp add: k'_def)
  have f: "p_state (procs k' ! j) = p_state (procs k ! j)" "p_resume (procs k' ! j) = p_resume (procs k ! j)"
    "p_lock (procs k' ! j) = (if j = i then initlock else p_lock (procs k ! j))"
    "c_proc k' = Some i" "hart k' = pop (hart k)" "klocks k' = klocks k" for j
    using c len by (auto simp: k'_def upd_proc_nth)
  have "sched_ok k'" by (rule sched_ok_cong [OF k]) (auto simp: f(1), auto simp: k'_def)
  then have "kinv k'" using st lk c h by (auto simp: kinv_def f hart_ok_def)
  moreover have "resumable k'" using res by (simp add: resumable_def f)
  ultimately show ?thesis using eq f h by auto
qed

lemma scheduler_ok:
  assumes "at_scheduler k"
  shows "\<exists>k'. scheduler k = Ok k' \<and>
    (case dequeue_choose (priority_boost k) of
       None \<Rightarrow> at_scheduler k'
     | Some i \<Rightarrow> c_proc k' = Some i \<and> p_state (procs k ! i) = RUNNABLE \<and> p_state (procs k' ! i) = RUNNING \<and>
         (running k' \<or> (\<exists>l. running_with l k')))"
proof -
  define b where "b = priority_boost k"
  have A: "kinv k" "resumable k" "c_proc k = None" "noff (hart k) = 0" "no_locks k"
    using assms by (auto simp: at_scheduler_def)
  note F = priority_boost_frame [OF kinvD(2) [OF A(1)], folded b_def]
  have b: "kinv b" "resumable b" "c_proc b = None" "noff (hart b) = 0" "no_locks b"
    using A priority_boost_kinv by (simp_all add: resumable_def no_locks_def F) (simp add: b_def)
  show ?thesis
  proof (cases "dequeue_choose b")
    case None
    then show ?thesis
      using b by (simp add: scheduler_def b_def [symmetric] dequeue_def at_scheduler_def)
  next
    case (Some i)
    from dequeue_runs [OF b(1,3,4) Some] obtain d where d: "dequeue b = Ok (Some i, d)" "i < NPROC"
        "p_state (procs b ! i) = RUNNABLE" "sched_ok d" "c_proc d = Some i"
        "hart d = push_off ((hart b)\<lparr>intr := True\<rparr>)" "klocks d = klocks b"
        "\<And>j. p_state (procs d ! j) = (if j = i then RUNNING else p_state (procs b ! j))"
        "\<And>j. p_lock (procs d ! j) = (if j = i then held else p_lock (procs b ! j))"
        "\<And>j. p_resume (procs d ! j) = p_resume (procs b ! j)"
      by blast
    have r: "resumable d" using b(2) d(3) by (auto simp: resumable_def d)
    note D = kinvD [OF b(1)]
    have len: "length (procs d) = NPROC" using d(4) by (simp add: sched_ok_def)
    have rel: "\<exists>k'. release_p i e = Ok k' \<and> kinv k' \<and> resumable k' \<and> c_proc k' = Some i \<and>
        noff (hart k') = 0 \<and> klocks k' = klocks b \<and> (\<forall>j. p_state (procs k' ! j) = p_state (procs d ! j))"
      if e: "length (procs e) = NPROC" "qtable e = qtable d" "isQueueSetup e = isQueueSetup d" "c_proc e = c_proc d"
        "klocks e = klocks d" "noff (hart e) = noff (hart d)" "intr (hart e) = intr (hart d)"
        "\<And>j. p_state (procs e ! j) = p_state (procs d ! j)" "\<And>j. p_lock (procs e ! j) = p_lock (procs d ! j)"
        "\<And>j. p_resume (procs e ! j) = p_resume (procs d ! j)" for e
    proof -
      have "sched_ok e" by (rule sched_ok_cong [OF d(4)]) (use e len in auto)
      moreover have "resumable e" using r by (simp add: resumable_def e)
      ultimately show ?thesis
        using release_p_running [of e i] D(5,6) b(3,4) d(2,5) by (auto simp: e d(6-9))
    qed
    have s: "scheduler k = resume i d" by (simp add: scheduler_def b_def [symmetric] d(1))
    have st: "p_state (procs k ! i) = RUNNABLE" using d(3) F(6) by simp
    have "\<exists>k'. resume i d = Ok k' \<and> c_proc k' = Some i \<and> p_state (procs k' ! i) = RUNNING \<and>
        (running k' \<or> (\<exists>l. running_with l k'))"
    proof (cases "p_resume (procs d ! i)")
      case Nowhere
      with b(2) d(2,3) have False by (auto simp: resumable_def d)
      then show ?thesis ..
    next
      case Forkret
      with rel [of d] len d(8) b(5) show ?thesis by (auto simp: resume_def running_def no_locks_def)
    next
      case (Yielded ie)
      with rel [of "d\<lparr>hart := (hart d)\<lparr>intena := ie\<rparr>\<rparr>"] len d(8) b(5)
      show ?thesis by (auto simp: resume_def running_def no_locks_def)
    next
      case (Slept l ie)
      define e where "e = upd_proc i (\<lambda>p. p\<lparr>p_chan := NoChan\<rparr>) (d\<lparr>hart := (hart d)\<lparr>intena := ie\<rparr>\<rparr>)"
      have "\<exists>k'. release_p i e = Ok k' \<and> kinv k' \<and> resumable k' \<and> c_proc k' = Some i \<and>
        noff (hart k') = 0 \<and> klocks k' = klocks b \<and> (\<forall>j. p_state (procs k' ! j) = p_state (procs d ! j))"
        by (rule rel) (use len in \<open>auto simp: e_def upd_proc_nth\<close>)
      then obtain f where f: "release_p i e = Ok f" "kinv f" "resumable f" "c_proc f = Some i"
        "noff (hart f) = 0" "klocks f = klocks b" "\<And>j. p_state (procs f ! j) = p_state (procs d ! j)" by blast
      define k' where "k' = f\<lparr>klocks := (klocks f)(l := held), hart := push_off (hart f)\<rparr>"
      have "resume i d = Ok k'"
        using Slept f(1,6) b(5)
        by (simp add: resume_def Let_def e_def [symmetric] acquire_lk_free no_locks_def k'_def)
      moreover have "sched_ok k'" by (rule sched_ok_cong [OF kinvD(1) [OF f(2)]]) (auto simp: k'_def)
      then have "kinv k'" using f(2) by (auto simp: kinv_def k'_def hart_ok_def)
      then have "running_with l k'"
        using f b(5) by (simp add: running_with_def k'_def resumable_def no_locks_def)
      ultimately show ?thesis using f d(8) by (auto simp: k'_def)
    qed
    with s st Some show ?thesis by (simp add: b_def)
  qed
qed

end
