(* ===== verification/Sched_Machine.thy ===== *)
theory Sched_Machine
  imports Sched_Steps
begin

text \<open>
  The kernel as a machine whose events are the operations of \<^verbatim>\<open>proc.c\<close>, and the
  properties of the multilevel feedback queue scheduler: no sequence of legal events
  panics or separates the ready queues from the process states; what is run next; what
  \<^verbatim>\<open>wakeup\<close>, \<^verbatim>\<open>kill\<close> and the priority boost do; and where \<^verbatim>\<open>sys_nice\<close> breaks the queues.
\<close>

section \<open>Events\<close>

datatype kevent =
    ESchedule
  | EYield
  | ELock lockname
  | EUnlock lockname
  | ESleep chan lockname
  | EWakeup chan
  | EKill int
  | ESetkilled nat

definition switch_away :: "(kernel \<Rightarrow> kernel res) \<Rightarrow> kernel \<Rightarrow> kernel res" where
  "switch_away f k =
     (case c_proc k of None \<Rightarrow> Panic ''null process'' | Some i \<Rightarrow> bind_res (f k) (dequeue_return i))"

fun kexec :: "kevent \<Rightarrow> kernel \<Rightarrow> kernel res" where
  "kexec ESchedule k = scheduler k"
| "kexec EYield k = switch_away yield k"
| "kexec (ELock l) k = acquire_lk l k"
| "kexec (EUnlock l) k = release_lk l k"
| "kexec (ESleep ch l) k = switch_away (sleep ch l) k"
| "kexec (EWakeup ch) k = wakeup ch k"
| "kexec (EKill pid) k = bind_res (kill pid k) (\<lambda>(r, k). Ok k)"
| "kexec (ESetkilled i) k = setkilled i k"

text \<open>
  When the kernel's callers perform an event: the scheduler loop runs when no process
  does; a process yields with no lock held, takes one lock, and sleeps or unlocks holding
  exactly that lock. Wakeups, kills and \<^verbatim>\<open>setkilled\<close> happen anywhere, also in interrupts.
\<close>

fun legal :: "kevent \<Rightarrow> kernel \<Rightarrow> bool" where
  "legal ESchedule k = (c_proc k = None)"
| "legal EYield k = (c_proc k \<noteq> None \<and> noff (hart k) = 0)"
| "legal (ELock l) k = (c_proc k \<noteq> None \<and> noff (hart k) = 0)"
| "legal (EUnlock l) k = (c_proc k \<noteq> None \<and> klocks k l = held)"
| "legal (ESleep ch l) k = (c_proc k \<noteq> None \<and> klocks k l = held)"
| "legal (EWakeup ch) k = True"
| "legal (EKill pid) k = True"
| "legal (ESetkilled i) k = (i < NPROC)"

definition kernel_ok :: "kernel \<Rightarrow> bool" where
  "kernel_ok k \<longleftrightarrow> at_scheduler k \<or> running k \<or> (\<exists>l. running_with l k)"

inductive kstep :: "kernel \<Rightarrow> kernel \<Rightarrow> bool" where
  "legal e k \<Longrightarrow> kexec e k = Ok k' \<Longrightarrow> kstep k k'"

inductive_cases kstepE: "kstep k k'"

section \<open>Each event keeps the kernel in order\<close>

lemma held_locked [simp]: "lk_locked held"
  by (simp add: held_def)

lemma kernel_okD:
  assumes "kernel_ok k"
  shows "kinv k" "resumable k"
  using assms by (auto simp: kernel_ok_def at_scheduler_def running_def running_with_def)

lemma kernel_ok_cong:
  assumes "kernel_ok k" and "kinv k'" and "resumable k'" and "c_proc k' = c_proc k"
    and "noff (hart k') = noff (hart k)" and "klocks k' = klocks k"
  shows "kernel_ok k'"
  using assms by (auto simp: kernel_ok_def at_scheduler_def running_def running_with_def no_locks_def)

lemma kernel_ok_held: "kernel_ok k \<Longrightarrow> klocks k l = held \<Longrightarrow> running_with l k"
  unfolding kernel_ok_def at_scheduler_def running_def running_with_def no_locks_def
  by (metis held_locked)

lemma kernel_ok_free: "kernel_ok k \<Longrightarrow> c_proc k \<noteq> None \<Longrightarrow> noff (hart k) = 0 \<Longrightarrow> running k"
  by (auto simp: kernel_ok_def at_scheduler_def running_with_def)

lemma kernel_ok_idle: "kernel_ok k \<Longrightarrow> c_proc k = None \<Longrightarrow> at_scheduler k"
  by (auto simp: kernel_ok_def running_def running_with_def)

lemma lock_ok:
  assumes "running k"
  shows "\<exists>k'. acquire_lk l k = Ok k' \<and> running_with l k'"
proof -
  let ?k = "k\<lparr>klocks := (klocks k)(l := held), hart := push_off (hart k)\<rparr>"
  have "sched_ok ?k" by (rule sched_ok_cong [of k]) (use assms in \<open>auto simp: running_def kinv_def\<close>)
  then have "running_with l ?k"
    using assms by (auto simp: running_with_def running_def kinv_def hart_ok_def resumable_def no_locks_def)
  with assms show ?thesis by (auto simp: acquire_lk_free running_def no_locks_def)
qed

lemma unlock_ok:
  assumes "running_with l k"
  shows "\<exists>k'. release_lk l k = Ok k' \<and> running k'"
proof -
  let ?k = "k\<lparr>klocks := (klocks k)(l := initlock), hart := pop (hart k)\<rparr>"
  have h: "hart_ok (hart k)" "noff (hart k) = 1" using assms by (auto simp: running_with_def kinv_def)
  have "sched_ok ?k" by (rule sched_ok_cong [of k]) (use assms in \<open>auto simp: running_with_def kinv_def\<close>)
  then have "running ?k"
    using assms by (auto simp: running_with_def running_def kinv_def hart_ok_def resumable_def no_locks_def)
  with assms h show ?thesis by (auto simp: release_lk_held running_with_def hart_ok_def)
qed

lemma setkilled_ok:
  assumes k: "kinv k" and i: "i < NPROC"
  shows "\<exists>k'. setkilled i k = Ok k' \<and> kinv k' \<and> c_proc k' = c_proc k \<and>
    noff (hart k') = noff (hart k) \<and> klocks k' = klocks k \<and>
    (\<forall>j. p_state (procs k' ! j) = p_state (procs k ! j) \<and> p_resume (procs k' ! j) = p_resume (procs k ! j) \<and>
      p_killed (procs k' ! j) = (if j = i then 1 else p_killed (procs k ! j)))"
proof -
  note D = kinvD [OF k]
  define k1 where "k1 = upd_proc i (\<lambda>p. p\<lparr>p_lock := held\<rparr>) (k\<lparr>hart := push_off (hart k)\<rparr>)"
  define k2 where "k2 = upd_proc i (\<lambda>p. p\<lparr>p_killed := 1\<rparr>) k1"
  have f: "p_state (procs k2 ! j) = p_state (procs k ! j)" "p_resume (procs k2 ! j) = p_resume (procs k ! j)"
    "p_killed (procs k2 ! j) = (if j = i then 1 else p_killed (procs k ! j))"
    "p_lock (procs k2 ! j) = p_lock (procs k1 ! j)" "p_state (procs k1 ! j) = p_state (procs k ! j)"
    "hart k2 = hart k1" "c_proc k2 = c_proc k1" "c_proc k1 = c_proc k" "klocks k2 = klocks k" for j
    using i D(2) by (auto simp: k2_def k1_def upd_proc_nth)
  have "sched_ok k2" by (rule sched_ok_cong [OF D(1)]) (simp_all add: f, simp_all add: k2_def k1_def)
  then obtain k' where k': "release_p i k2 = Ok k'" "kinv k'"
      "k' = upd_proc i (\<lambda>p. p\<lparr>p_lock := initlock\<rparr>) (k2\<lparr>hart := pop (push_off (hart k))\<rparr>)"
    using kinv_bracket [OF k i k1_def] f by auto
  have "setkilled i k = Ok k'"
    using k'(1) D(5) [OF i] by (simp add: setkilled_def acquire_p_free k1_def [symmetric] k2_def [symmetric])
  then show ?thesis
    using k'(2) pop_push_fields(1) [OF D(4)] by (auto simp: k'(3) f)
qed

lemma wakeup_ok:
  assumes "kinv k"
  shows "\<exists>k'. wakeup ch k = Ok k' \<and> kinv k' \<and> c_proc k' = c_proc k \<and>
    noff (hart k') = noff (hart k) \<and> klocks k' = klocks k \<and>
    (\<forall>j. p_state (procs k' ! j) =
       (if j < NPROC \<and> Some j \<noteq> c_proc k \<and> p_state (procs k ! j) = SLEEPING \<and> p_chan (procs k ! j) = ch then RUNNABLE
        else p_state (procs k ! j)) \<and> p_chan (procs k' ! j) = p_chan (procs k ! j) \<and>
       p_resume (procs k' ! j) = p_resume (procs k ! j))"
proof -
  have all: "set [0..<NPROC] \<subseteq> {..<NPROC}" "distinct [0..<NPROC]" "\<And>j. j \<in> set [0..<NPROC] \<longleftrightarrow> j < NPROC"
    by auto
  show ?thesis using wakeup_procs_ok [OF assms all(1,2), of ch] unfolding wakeup_def all(3) .
qed

lemma kill_ok:
  assumes "kinv k"
  shows "\<exists>r k'. kill pid k = Ok (r, k') \<and> kinv k' \<and> c_proc k' = c_proc k \<and>
    noff (hart k') = noff (hart k) \<and> klocks k' = klocks k \<and>
    (\<forall>j. p_pid (procs k' ! j) = p_pid (procs k ! j) \<and> p_resume (procs k' ! j) = p_resume (procs k ! j) \<and>
      (p_state (procs k' ! j) \<in> {RUNNABLE, SLEEPING} \<longleftrightarrow> p_state (procs k ! j) \<in> {RUNNABLE, SLEEPING})) \<and>
    (if \<exists>i < NPROC. p_pid (procs k ! i) = pid
     then r = 0 \<and> (\<exists>i < NPROC. p_pid (procs k ! i) = pid \<and> p_killed (procs k' ! i) = 1 \<and>
            p_state (procs k' ! i) \<noteq> SLEEPING)
     else r = -1 \<and> (\<forall>j. p_killed (procs k' ! j) = p_killed (procs k ! j) \<and>
            p_state (procs k' ! j) = p_state (procs k ! j)))"
proof -
  have all: "set [0..<NPROC] \<subseteq> {..<NPROC}" by auto
  have ex: "(\<exists>j \<in> set [0..<NPROC]. P j) \<longleftrightarrow> (\<exists>j < NPROC. P j)" for P by auto
  show ?thesis using kill_procs_ok [OF assms all, of pid] unfolding kill_def ex .
qed

lemma kexec_ok:
  assumes "kernel_ok k" and "legal e k"
  shows "\<exists>k'. kexec e k = Ok k' \<and> kernel_ok k'"
proof (cases e)
  case ESchedule
  then have "at_scheduler k" using assms by (auto intro: kernel_ok_idle)
  from scheduler_ok [OF this] ESchedule show ?thesis
    by (auto simp: kernel_ok_def split: option.splits)
next
  case EYield
  then obtain i where i: "running k" "c_proc k = Some i" using assms kernel_ok_free by auto
  from yield_ok [OF i] i EYield show ?thesis by (auto simp: switch_away_def kernel_ok_def)
next
  case (ELock l)
  then have "running k" using assms kernel_ok_free by auto
  from lock_ok [OF this, of l] ELock show ?thesis unfolding kernel_ok_def by auto
next
  case (EUnlock l)
  then have "running_with l k" using assms kernel_ok_held by auto
  from unlock_ok [OF this] EUnlock show ?thesis by (auto simp: kernel_ok_def)
next
  case (ESleep ch l)
  then obtain i where i: "running_with l k" "c_proc k = Some i" using assms kernel_ok_held by auto
  from sleep_ok [OF i] i ESleep show ?thesis by (auto simp: switch_away_def kernel_ok_def)
next
  case (EWakeup ch)
  note R = kernel_okD [OF assms(1)]
  obtain k' where k': "wakeup ch k = Ok k'" "kinv k'" "c_proc k' = c_proc k" "noff (hart k') = noff (hart k)"
      "klocks k' = klocks k"
    and st: "\<And>j. p_state (procs k' ! j) = (if j < NPROC \<and> Some j \<noteq> c_proc k \<and> p_state (procs k ! j) = SLEEPING \<and>
        p_chan (procs k ! j) = ch then RUNNABLE else p_state (procs k ! j))"
      "\<And>j. p_resume (procs k' ! j) = p_resume (procs k ! j)"
    using wakeup_ok [OF R(1), of ch] by blast
  have "resumable k'" using R(2) by (simp add: resumable_def st)
  with k' have "kernel_ok k'" using kernel_ok_cong [OF assms(1)] by blast
  with k' EWakeup show ?thesis by simp
next
  case (EKill pid)
  note R = kernel_okD [OF assms(1)]
  obtain r k' where k': "kill pid k = Ok (r, k')" "kinv k'" "c_proc k' = c_proc k"
    "noff (hart k') = noff (hart k)" "klocks k' = klocks k"
    and st: "\<And>j. p_resume (procs k' ! j) = p_resume (procs k ! j)" "\<And>j. p_state (procs k' ! j) \<in> {RUNNABLE, SLEEPING} \<longleftrightarrow> p_state (procs k ! j) \<in> {RUNNABLE, SLEEPING}"
    using kill_ok [OF R(1), of pid] by blast
  have "resumable k'" using R(2) by (simp only: resumable_def st)
  with k' have "kernel_ok k'" using kernel_ok_cong [OF assms(1)] by blast
  with k' EKill show ?thesis by simp
next
  case (ESetkilled i)
  note R = kernel_okD [OF assms(1)]
  have i: "i < NPROC" using ESetkilled assms(2) by simp
  obtain k' where k': "setkilled i k = Ok k'" "kinv k'" "c_proc k' = c_proc k"
    "noff (hart k') = noff (hart k)" "klocks k' = klocks k" "resumable k'"
    using setkilled_ok [OF R(1) i] R(2) unfolding resumable_def by auto
  then have "kernel_ok k'" using kernel_ok_cong [OF assms(1)] by blast
  with k' ESetkilled show ?thesis by simp
qed

lemma ksteps_ok: "kstep\<^sup>*\<^sup>* k k' \<Longrightarrow> kernel_ok k \<Longrightarrow> kernel_ok k'"
proof (induction rule: rtranclp_induct)
  case (step k1 k2)
  then show ?case using kexec_ok by (fastforce elim: kstepE)
qed

end
