(* ===== verification/Sched_Props.thy ===== *)
theory Sched_Props
  imports Sched_Machine
begin

text \<open>
  Properties of the multilevel feedback queue scheduler, with the states of a freshly
  booted kernel they are applied to.
\<close>

section \<open>A kernel after boot\<close>

text \<open>
  The zero-initialised process and kernel, the kernel with the first process at the start
  of user mode on the CPU, and the one in which that process waits for the CPU.
\<close>

definition zero_proc :: proc where
  "zero_proc = \<lparr>p_lock = initlock, p_state = UNUSED, p_chan = NoChan, p_killed = 0, p_xstate = 0,
     p_pid = 0, p_parent = None, p_kstack = 0, p_sz = 0, p_pagetable = None, p_trapframe = None,
     p_resume = Nowhere, p_ofile = replicate NOFILE None, p_cwd = None, p_name = [], p_nice = 0,
     p_quanta = 0, p_queue = 0\<rparr>"

definition zero_kernel :: kernel where
  "zero_kernel = \<lparr>procs = replicate NPROC zero_proc,
     qtable = replicate (NPROC + 2 * NUM_QUEUES) \<lparr>qe_queue = 0, qe_prev = 0, qe_next = 0\<rparr>,
     initproc = None, nextpid = 1, klocks = (\<lambda>_. initlock), isQueueSetup = 0,
     timeSincePriorityBoost = 0, schedlog = replicate LOG_SIZE \<lparr>le_pid = 0, le_time = 0\<rparr>, time = 0,
     is_logging = 0, num_logged = 0, c_proc = None, hart = \<lparr>noff = 0, intena = False, intr = True\<rparr>\<rparr>"

definition first_running :: kernel where
  "first_running = (setupQueue (upd_proc 0 (\<lambda>p. p\<lparr>p_pid := 1, p_state := RUNNING\<rparr>) zero_kernel))
     \<lparr>isQueueSetup := 1, nextpid := 2, c_proc := Some 0\<rparr>"

definition first_waiting :: kernel where
  "first_waiting = make_runnable 0
     ((upd_proc 0 (\<lambda>p. p\<lparr>p_pid := 1, p_state := USED, p_resume := Forkret\<rparr>) zero_kernel)\<lparr>nextpid := 2\<rparr>)"

lemma setupQueue_frame [simp]:
  "procs (setupQueue k) = procs k" "klocks (setupQueue k) = klocks k" "hart (setupQueue k) = hart k"
  "c_proc (setupQueue k) = c_proc k"
  by (simp_all add: setupQueue_def Let_def)

lemma zero_kernel_fields [simp]:
  "procs zero_kernel = replicate NPROC zero_proc" "isQueueSetup zero_kernel = 0" "c_proc zero_kernel = None"
  "length (qtable zero_kernel) = 70" "klocks zero_kernel = (\<lambda>_. initlock)"
  "hart zero_kernel = \<lparr>noff = 0, intena = False, intr = True\<rparr>" "timeSincePriorityBoost zero_kernel = 0"
  by (simp_all add: zero_kernel_def)

lemma first_running_queues: "queues_are (qtable first_running) (\<lambda>q. [])"
  using setupQueue_queues [of "upd_proc 0 (\<lambda>p. p\<lparr>p_pid := 1, p_state := RUNNING\<rparr>) zero_kernel"]
  by (simp add: first_running_def zero_kernel_def)

lemma first_running_proc:
  "procs first_running = (replicate NPROC zero_proc)[0 := zero_proc\<lparr>p_pid := 1, p_state := RUNNING\<rparr>]"
  by (simp add: first_running_def zero_kernel_def upd_proc_def)

lemma first_running_running: "running first_running"
proof -
  have st: "p_state (procs first_running ! i) = (if i = 0 then RUNNING else UNUSED)"
    "\<not> lk_locked (p_lock (procs first_running ! i))" if "i < NPROC" for i
    using that by (auto simp: first_running_proc nth_list_update zero_proc_def)
  have "sched_ok first_running"
    unfolding sched_ok_def
    using first_running_queues st by (auto simp: first_running_proc intro!: exI [of _ "\<lambda>q. []"])
      (simp add: first_running_def)
  then show ?thesis
    using st unfolding running_def kinv_def resumable_def no_locks_def
    by (auto simp: first_running_def zero_kernel_def hart_ok_def)
qed

lemma first_waiting_queues: "queues_are (qtable first_waiting) ((\<lambda>q. [])(1 := [0]))"
proof -
  let ?k = "upd_proc 0 (\<lambda>p. p\<lparr>p_state := RUNNABLE\<rparr>)
     ((upd_proc 0 (\<lambda>p. p\<lparr>p_pid := 1, p_state := USED, p_resume := Forkret\<rparr>) zero_kernel)\<lparr>nextpid := 2\<rparr>)"
  let ?k1 = "(setupQueue ?k)\<lparr>isQueueSetup := 1\<rparr>"
  have "queues_are (qtable ?k1) (\<lambda>q. [])"
    using setupQueue_queues [of ?k] by (simp add: zero_kernel_def)
  moreover have "level_of (procs ?k1 ! 0) = 1"
    by (simp add: level_of_def choose_queue_def upd_proc_def zero_kernel_def zero_proc_def)
  ultimately have "queues_are (qtable (enqueue 0 ?k1)) ((\<lambda>q. [])(1 := [0]))"
    using enqueue_queues [of ?k1 "\<lambda>q. []" 0] by (simp add: zero_kernel_def)
  then show ?thesis
    by (simp add: first_waiting_def make_runnable_def ensure_setup_def zero_kernel_def)
qed

lemma first_waiting_at_scheduler: "at_scheduler first_waiting"
proof -
  have len: "length (procs zero_kernel) = NPROC" by (simp add: zero_kernel_def)
  have st: "p_state (procs first_waiting ! i) = (if i = 0 then RUNNABLE else UNUSED)"
    "p_resume (procs first_waiting ! i) = (if i = 0 then Forkret else Nowhere)"
    "\<not> lk_locked (p_lock (procs first_waiting ! i))" if "i < NPROC" for i
    using that by (auto simp: first_waiting_def make_runnable_def ensure_setup_def enqueue_proc upd_proc_nth zero_proc_def)
  have fr: "length (procs first_waiting) = NPROC" "isQueueSetup first_waiting \<noteq> 0" "c_proc first_waiting = None"
    "hart first_waiting = \<lparr>noff = 0, intena = False, intr = True\<rparr>" "klocks first_waiting = (\<lambda>_. initlock)"
    by (simp_all add: first_waiting_def make_runnable_def ensure_setup_def enqueue_eq len)
  have "\<exists>Q. queues_are (qtable first_waiting) Q \<and>
      (\<forall>i < NPROC. p_state (procs first_waiting ! i) = RUNNABLE \<longleftrightarrow> (\<exists>q < 3. i \<in> set (Q q)))"
    using first_waiting_queues st by (intro exI [of _ "(\<lambda>q. [])(1 := [0])"]) auto
  then have "sched_ok first_waiting" using fr by (simp add: sched_ok_def)
  then show ?thesis
    using st fr unfolding at_scheduler_def kinv_def resumable_def no_locks_def hart_ok_def
    by (auto split: if_splits)
qed

section \<open>Safety of the scheduler\<close>

text \<open>
  C3: No sequence of kernel events from a well-formed kernel (schedule, yield, lock, unlock,
  sleep, wakeup, kill, set killed) panics or spins forever, and after it the ready queues
  are well-formed doubly linked lists that hold a process, exactly once, when and only when
  it is RUNNABLE; RUNNING is exactly the process the hart points at.
\<close>

theorem mlfq_machine_safe:
  assumes "kernel_ok k" and "kstep\<^sup>*\<^sup>* k k'"
  shows "(\<forall>e. legal e k' \<longrightarrow> is_ok (kexec e k')) \<and>
    (\<exists>Q. queues_are (qtable k') Q \<and>
      (\<forall>i < NPROC. p_state (procs k' ! i) = RUNNABLE \<longleftrightarrow> (\<exists>q < 3. i \<in> set (Q q)))) \<and>
    (\<forall>i < NPROC. p_state (procs k' ! i) = RUNNING \<longleftrightarrow> c_proc k' = Some i)"
proof (intro conjI)
  have k: "kernel_ok k'" using ksteps_ok assms by blast
  show "\<forall>e. legal e k' \<longrightarrow> is_ok (kexec e k')" using kexec_ok [OF k] by force
  show "\<exists>Q. queues_are (qtable k') Q \<and>
      (\<forall>i < NPROC. p_state (procs k' ! i) = RUNNABLE \<longleftrightarrow> (\<exists>q < 3. i \<in> set (Q q)))"
    "\<forall>i < NPROC. p_state (procs k' ! i) = RUNNING \<longleftrightarrow> c_proc k' = Some i"
    using kernel_okD(1) [OF k] by (auto simp: kinv_def sched_ok_def)
qed

lemma first_waiting_ok: "kernel_ok first_waiting"
  using first_waiting_at_scheduler by (simp add: kernel_ok_def)

theorem mlfq_machine_safe_witness:
  "\<exists>k'. kstep first_waiting k' \<and> is_ok (kexec (EKill 1) k')"
proof -
  have "legal ESchedule first_waiting"
    using first_waiting_at_scheduler by (simp add: at_scheduler_def)
  then obtain k' where "kstep first_waiting k'"
    using kexec_ok [OF first_waiting_ok] kstep.intros by blast
  moreover from this have "is_ok (kexec (EKill 1) k')"
    using mlfq_machine_safe [OF first_waiting_ok, of k'] by (metis legal.simps(7) r_into_rtranclp)
  ultimately show ?thesis by blast
qed

text \<open>
  C19: A turn of the scheduler loop runs the process that is first in the highest priority
  queue that is not empty (after the priority boost, when one is due), and nothing when all
  queues are empty.
\<close>

theorem scheduler_runs_highest:
  assumes "at_scheduler k" and "queues_are (qtable (priority_boost k)) Q"
  shows "\<exists>k'. scheduler k = Ok k' \<and>
    c_proc k' = (if Q 0 \<noteq> [] then Some (hd (Q 0)) else if Q 1 \<noteq> [] then Some (hd (Q 1))
                 else if Q 2 \<noteq> [] then Some (hd (Q 2)) else None)"
proof -
  obtain k' where k': "scheduler k = Ok k'" "case dequeue_choose (priority_boost k) of
       None \<Rightarrow> at_scheduler k' | Some i \<Rightarrow> c_proc k' = Some i"
    using scheduler_ok [OF assms(1)] by (force split: option.splits)
  then have "c_proc k' = dequeue_choose (priority_boost k)"
    by (cases "dequeue_choose (priority_boost k)") (auto simp: at_scheduler_def)
  then show ?thesis using k'(1) dequeue_choose_queues [OF assms(2)] by simp
qed

theorem scheduler_runs_highest_witness:
  "\<exists>k'. scheduler first_waiting = Ok k' \<and> c_proc k' = Some 0"
proof -
  have "priority_boost first_waiting = first_waiting"
    by (simp add: priority_boost_def first_waiting_def make_runnable_def ensure_setup_def enqueue_eq
        zero_kernel_def upd_proc_def setupQueue_def Let_def)
  then show ?thesis
    using scheduler_runs_highest [OF first_waiting_at_scheduler, of "(\<lambda>q. [])(1 := [0])"]
      first_waiting_queues by simp
qed

text \<open>
  C20: A process that yields goes to the back of its queue: the level comes from its nice
  value and its quanta, every other queue and the order of the processes ahead of it are
  untouched, and the CPU is back with the scheduler.
\<close>

theorem yield_goes_to_back:
  assumes "running k" and "c_proc k = Some i" and "queues_are (qtable k) Q"
  shows "\<exists>k'. switch_away yield k = Ok k' \<and> at_scheduler k' \<and> p_state (procs k' ! i) = RUNNABLE \<and>
    queues_are (qtable k')
      (Q(next_level (procs k ! i) := Q (next_level (procs k ! i)) @ [i]))"
proof -
  have k: "kinv k" using assms(1) by (simp add: running_def)
  note D = kinvD [OF k]
  have i: "i < NPROC" "p_state (procs k ! i) = RUNNING" using D(6,7) assms(2) by auto
  have free: "i \<notin> set (Q q)" if "q < 3" for q
  proof
    assume q: "i \<in> set (Q q)"
    obtain Q' where Q': "queues_are (qtable k) Q'"
      "\<forall>i < NPROC. p_state (procs k ! i) = RUNNABLE \<longleftrightarrow> (\<exists>q < 3. i \<in> set (Q' q))"
      using D(1) by (auto simp: sched_ok_def)
    have "q_queue (qtable k) i = q" using queues_areD(6) [OF assms(3) i(1) that] q by blast
    then have "i \<in> set (Q' q)" using queues_areD(6) [OF Q'(1) i(1) that] by blast
    then show False using Q'(2) i that by auto
  qed
  have "next_level (procs k ! i) < 3" by (simp add: next_level_def level_of_less_3)
  from link_before_queues [OF assms(3) this i(1) free] yield_ok [OF assms(1,2)] show ?thesis
    by (auto simp: switch_away_def assms(2))
qed

theorem yield_goes_to_back_witness:
  "\<exists>k'. switch_away yield first_running = Ok k' \<and> queues_are (qtable k') ((\<lambda>q. [])(1 := [0]))"
proof -
  have c: "c_proc first_running = Some 0" by (simp add: first_running_def)
  have "next_level (procs first_running ! 0) = 1"
    by (simp add: first_running_proc zero_proc_def next_level_def level_of_def choose_queue_def s32_def)
  then show ?thesis
    using yield_goes_to_back [OF first_running_running c first_running_queues] by auto
qed

text \<open>
  \<^verbatim>\<open>wakeup(chan)\<close> makes RUNNABLE exactly the processes that sleep on the channel, leaves
  every other process's state and all wait channels alone, never fails, and keeps the kernel
  well-formed; so every process it wakes is on a ready queue.
\<close>

theorem wakeup_exact:
  assumes "kernel_ok k"
  shows "\<exists>k'. wakeup ch k = Ok k' \<and> kernel_ok k' \<and>
    (\<forall>i < NPROC. p_state (procs k' ! i) =
       (if p_state (procs k ! i) = SLEEPING \<and> p_chan (procs k ! i) = ch then RUNNABLE
        else p_state (procs k ! i)) \<and> p_chan (procs k' ! i) = p_chan (procs k ! i))"
proof -
  note D = kinvD [OF kernel_okD(1) [OF assms]]
  have "kernel_ok k'" if "wakeup ch k = Ok k'" for k'
    using kexec_ok [OF assms, of "EWakeup ch"] that by simp
  moreover have "Some i \<noteq> c_proc k" if "i < NPROC" "p_state (procs k ! i) = SLEEPING" for i
    using D(6) [OF that(1)] that(2) by auto
  ultimately show ?thesis
    using wakeup_ok [OF kernel_okD(1) [OF assms], of ch] by fastforce
qed

definition first_sleeping :: kernel where
  "first_sleeping = upd_proc 1
     (\<lambda>p. p\<lparr>p_state := SLEEPING, p_chan := ChTicks, p_resume := Slept TicksLock True\<rparr>) first_running"

lemma first_sleeping_ok: "kernel_ok first_sleeping"
proof -
  have R: "running first_running" by (rule first_running_running)
  have len: "length (procs first_running) = NPROC" by (simp add: first_running_proc)
  have st: "procs first_running ! 1 = zero_proc" by (simp add: first_running_proc)
  have "sched_ok first_sleeping"
    by (rule sched_ok_cong [of first_running])
      (use R st len in \<open>auto simp: first_sleeping_def running_def kinv_def upd_proc_nth zero_proc_def\<close>)
  then have "running first_sleeping"
    using R st len
    by (auto simp: first_sleeping_def running_def kinv_def resumable_def no_locks_def upd_proc_nth zero_proc_def
        first_running_def)
  then show ?thesis by (simp add: kernel_ok_def)
qed

theorem wakeup_exact_witness:
  "\<exists>k'. wakeup ChTicks first_sleeping = Ok k' \<and> p_state (procs k' ! 1) = RUNNABLE \<and>
    p_state (procs k' ! 0) = RUNNING"
proof -
  have "p_state (procs first_sleeping ! 1) = SLEEPING" "p_chan (procs first_sleeping ! 1) = ChTicks"
    "p_state (procs first_sleeping ! 0) = RUNNING"
    by (simp_all add: first_sleeping_def upd_proc_nth first_running_proc)
  moreover have "0 < NPROC" "1 < NPROC" by simp_all
  ultimately show ?thesis using wakeup_exact [OF first_sleeping_ok, of ChTicks] by fastforce
qed

text \<open>
  \<^verbatim>\<open>kill(pid)\<close> returns 0 when some slot of the process table has that pid, marks one such
  process killed and takes it out of SLEEPING; otherwise it returns -1 and changes no
  process. It never fails and keeps the kernel well-formed.
\<close>

theorem kill_result:
  assumes "kernel_ok k"
  shows "\<exists>r k'. kill pid k = Ok (r, k') \<and> kernel_ok k' \<and>
    (if \<exists>i < NPROC. p_pid (procs k ! i) = pid
     then r = 0 \<and> (\<exists>i < NPROC. p_pid (procs k ! i) = pid \<and> p_killed (procs k' ! i) = 1 \<and>
            p_state (procs k' ! i) \<noteq> SLEEPING)
     else r = -1 \<and> (\<forall>j. p_killed (procs k' ! j) = p_killed (procs k ! j) \<and>
            p_state (procs k' ! j) = p_state (procs k ! j)))"
proof -
  have "kernel_ok k'" if "kill pid k = Ok (r, k')" for r k'
    using kexec_ok [OF assms, of "EKill pid"] that by simp
  then show ?thesis using kill_ok [OF kernel_okD(1) [OF assms], of pid] by blast
qed

theorem kill_result_witness:
  "\<exists>k'. kill 1 first_sleeping = Ok (0, k')"
proof -
  have "p_pid (procs first_sleeping ! 0) = 1" by (simp add: first_sleeping_def upd_proc_nth first_running_proc)
  then have "\<exists>i < NPROC. p_pid (procs first_sleeping ! i) = 1" by (intro exI [of _ 0]) simp
  then show ?thesis using kill_result [OF first_sleeping_ok, of 1] by auto
qed

section \<open>Priorities\<close>

text \<open>The queue a nice value stands for.\<close>

definition home_level :: "proc \<Rightarrow> nat" where
  "home_level p = (if p_nice p > 10 then 0 else if p_nice p > -10 then 1 else 2)"

text \<open>
  A process is queued at the level of its nice value, or one below when it has used up
  the quanta of that level (more than 15 in queue 0, more than 10 in queue 1) since it was
  last at or above it; a change of level resets its quanta.
\<close>

theorem choose_queue_levels:
  "choose_queue p =
     (let home = home_level p;
          spent = (if p_queue p > int home then 0 else p_quanta p);
          allotment = [15, 10, 1] ! home
      in if home = 2 then (2, if p_quanta p > 1 then 0 else p_quanta p)
         else if spent > allotment then (int home + 1, 0)
         else (int home, spent))"
  by (auto simp: choose_queue_def home_level_def Let_def)

text \<open>
  A demotion lasts for one round only: a process put below the level of its nice value
  returns to that level the next time it is queued, whatever quanta it used in between.
\<close>

theorem demotion_one_round:
  assumes "home_level p < level_of p"
  shows "choose_queue (p\<lparr>p_queue := fst (choose_queue p), p_quanta := n\<rparr>) = (int (home_level p), 0)"
  using assms by (auto simp: choose_queue_def home_level_def level_of_def Let_def split: if_splits)

theorem demotion_one_round_witness:
  "level_of (zero_proc\<lparr>p_quanta := 11\<rparr>) = 2 \<and>
   choose_queue (zero_proc\<lparr>p_queue := 2, p_quanta := 11\<rparr>) = (1, 0)"
  using demotion_one_round [of "zero_proc\<lparr>p_quanta := 11\<rparr>" 11]
  by (simp add: home_level_def level_of_def choose_queue_def zero_proc_def)

lemma enqueue_runnable_level:
  assumes "set is \<subseteq> {..<length (procs k)}" and "distinct is" and "\<forall>i \<in> set is. i < length (qtable k)"
    and "length (qtable k) = 70" and "j \<in> set is" and "p_state (procs k ! j) = RUNNABLE"
  shows "p_queue (procs (enqueue_runnable is k) ! j) = fst (choose_queue (procs k ! j))"
  using assms
proof (induction "is" arbitrary: k)
  case (Cons i "is")
  let ?k = "if p_state (procs k ! i) = RUNNABLE then enqueue i k else k"
  have i: "i < length (procs k)" using Cons.prems(1) by simp
  have len: "length (procs ?k) = length (procs k)" "length (qtable ?k) = length (qtable k)" using i by auto
  have keep: "procs (enqueue_runnable is m) ! i = procs m ! i" if "set is \<subseteq> {..<length (procs m)}" for m
    using that Cons.prems(2)
    by (induction "is" arbitrary: m) (auto simp: enqueue_eq nth_list_update)
  show ?case
  proof (cases "j = i")
    case True
    have "procs (enqueue_runnable is ?k) ! i = procs ?k ! i"
      by (rule keep) (use Cons.prems(1) len in auto)
    then show ?thesis using True Cons.prems(6) i by (simp add: enqueue_proc)
  next
    case False
    then have "procs ?k ! j = procs k ! j" using i by (simp add: enqueue_proc)
    then show ?thesis
      using Cons.IH [of ?k] Cons.prems False len by auto
  qed
qed simp

text \<open>
  When a priority boost is due, every RUNNABLE process is put on the queue of its nice
  value or the one below, whatever queue it was on; the boost counter is reset and no
  process changes state.
\<close>

theorem priority_boost_levels:
  assumes "kinv k" and "timeSincePriorityBoost k > 60" and "i < NPROC" and "p_state (procs k ! i) = RUNNABLE"
  shows "kinv (priority_boost k) \<and> timeSincePriorityBoost (priority_boost k) = 0 \<and>
    p_state (procs (priority_boost k) ! i) = RUNNABLE \<and>
    p_queue (procs (priority_boost k) ! i) = fst (choose_queue (procs k ! i))"
proof -
  note D = kinvD [OF assms(1)]
  have "length (qtable (setupQueue k)) = 70"
    using D(1) setupQueue_queues queues_areD(1) unfolding sched_ok_def by blast
  then have "p_queue (procs (enqueue_runnable [0..<NPROC] (setupQueue k)) ! i) = fst (choose_queue (procs k ! i))"
    using enqueue_runnable_level [of "[0..<NPROC]" "setupQueue k" i] D(2) assms
    by (simp add: atLeast0LessThan)
  then show ?thesis
    using assms priority_boost_kinv [OF assms(1)] priority_boost_frame(6) [OF D(2)]
    by (simp add: priority_boost_def)
qed

theorem priority_boost_levels_witness:
  "kinv (first_waiting\<lparr>timeSincePriorityBoost := 61\<rparr>) \<and>
   p_queue (procs (priority_boost (first_waiting\<lparr>timeSincePriorityBoost := 61\<rparr>)) ! 0) = 1"
proof -
  let ?k = "first_waiting\<lparr>timeSincePriorityBoost := 61\<rparr>"
  have "kinv first_waiting" using first_waiting_at_scheduler by (simp add: at_scheduler_def)
  then have k: "kinv ?k" by (simp add: kinv_def sched_ok_def)
  have "p_state (procs ?k ! 0) = RUNNABLE" "fst (choose_queue (procs ?k ! 0)) = 1"
    by (simp_all add: first_waiting_def make_runnable_def ensure_setup_def enqueue_eq upd_proc_def
        zero_proc_def choose_queue_def)
  with priority_boost_levels [OF k, of 0] k show ?thesis by simp
qed

section \<open>Changing the nice value\<close>

definition new_nice :: "int \<Rightarrow> proc \<Rightarrow> int" where
  "new_nice inc p = max (-20) (min 19 (s32 (p_nice p + inc)))"

definition nice_target :: "int \<Rightarrow> int" where
  "nice_target nice = (if nice > 10 then 0 else if nice < -10 then 1 else if nice = -10 then 2 else -1)"

lemma upd_proc_twice:
  "i < length (procs k) \<Longrightarrow> upd_proc i f (upd_proc i g k) = upd_proc i (\<lambda>p. f (g p)) k"
  by (simp add: upd_proc_def)

lemma sys_nice_eq:
  assumes "c_proc k = Some i" and "i < length (procs k)"
  shows "sys_nice inc k =
    (let n = new_nice inc (procs k ! i); k1 = upd_proc i (\<lambda>p. p\<lparr>p_nice := n\<rparr>) k
     in Ok (n, if nice_target n \<noteq> p_queue (procs k ! i) then enqueue i (removeFromQueue i k1) else k1))"
proof -
  define s where "s = s32 (p_nice (procs k ! i) + inc)"
  define n where "n = new_nice inc (procs k ! i)"
  define k1 where "k1 = upd_proc i (\<lambda>p. p\<lparr>p_nice := n\<rparr>) k"
  define a where "a = upd_proc i (\<lambda>p. p\<lparr>p_nice := s32 (p_nice p + inc)\<rparr>) k"
  define b where "b = (if p_nice (procs a ! i) > 19 then upd_proc i (\<lambda>p. p\<lparr>p_nice := 19\<rparr>) a else a)"
  have a: "a = upd_proc i (\<lambda>p. p\<lparr>p_nice := s\<rparr>) k"
    by (simp add: a_def s_def upd_proc_def)
  have b: "b = upd_proc i (\<lambda>p. p\<lparr>p_nice := min 19 s\<rparr>) k"
    using assms by (simp add: b_def a upd_proc_nth upd_proc_twice min_def)
  have c: "(if p_nice (procs b ! i) < -20 then upd_proc i (\<lambda>p. p\<lparr>p_nice := -20\<rparr>) b else b) = k1"
    using assms by (simp add: b upd_proc_nth upd_proc_twice k1_def n_def new_nice_def s_def max_def)
  have f: "p_nice (procs k1 ! i) = n" "p_queue (procs k1 ! i) = p_queue (procs k ! i)"
    using assms by (simp_all add: k1_def upd_proc_nth)
  have t: "(if n > 10 then 0 else if n < -10 \<and> n \<le> 10 then 1 else if n \<le> -10 then 2 else -1) = nice_target n"
    by (simp add: nice_target_def)
  have e: "p_nice (procs (enqueue i (removeFromQueue i k1)) ! i) = n"
    using assms f by (simp add: enqueue_proc k1_def)
  show ?thesis
    unfolding sys_nice_def assms(1) option.case Let_def
      a_def [symmetric] b_def [symmetric] c f t n_def [symmetric] k1_def [symmetric]
    using e f by simp
qed

text \<open>
  \<^verbatim>\<open>nice(inc)\<close> always leaves the caller's nice value between -20 and 19 and returns it;
  without 32-bit overflow it is the sum clamped to that range.
\<close>

theorem sys_nice_clamps:
  assumes "c_proc k = Some i" and "i < length (procs k)"
  shows "\<exists>r k'. sys_nice inc k = Ok (r, k') \<and> r = p_nice (procs k' ! i) \<and> -20 \<le> r \<and> r \<le> 19 \<and>
    (-2147483648 \<le> p_nice (procs k ! i) + inc \<and> p_nice (procs k ! i) + inc < 2147483648 \<longrightarrow>
     r = max (-20) (min 19 (p_nice (procs k ! i) + inc)))"
proof -
  have "s32 x = x" if "-2147483648 \<le> x" "x < 2147483648" for x using s32_id [of x] that by simp
  then show ?thesis
    unfolding sys_nice_eq [OF assms] Let_def using assms(2)
    by (simp add: enqueue_proc upd_proc_nth new_nice_def)
qed

theorem sys_nice_clamps_witness:
  "\<exists>k'. sys_nice 25 first_running = Ok (19, k')"
proof -
  have "c_proc first_running = Some 0" by (simp add: first_running_def)
  moreover have "p_nice (procs first_running ! 0) = 0" by (simp add: first_running_proc zero_proc_def)
  ultimately show ?thesis
    using sys_nice_clamps [of first_running 0 25] by (auto simp: first_running_proc)
qed

lemma link_before_queue:
  "i < length qt \<Longrightarrow> q_queue (link_before q t i qt) i = q"
  by (simp add: link_before_def Let_def q_set_same)

text \<open>
  C25: \<^verbatim>\<open>nice\<close> breaks the ready queues whenever it leaves the caller's nice value above
  -10 and at most 10: the caller, which is RUNNING and on no queue, is linked into
  one, so the invariant of the scheduler is lost.
\<close>

theorem sys_nice_breaks_queues:
  assumes "running k" and "c_proc k = Some i" and "0 \<le> p_queue (procs k ! i)"
    and "-10 < new_nice inc (procs k ! i)" and "new_nice inc (procs k ! i) \<le> 10"
  shows "\<exists>r k'. sys_nice inc k = Ok (r, k') \<and> \<not> kinv k' \<and> p_state (procs k' ! i) = RUNNING \<and>
    q_queue (qtable k') i < 3"
proof -
  have k: "kinv k" using assms(1) by (simp add: running_def)
  note D = kinvD [OF k]
  have i: "i < NPROC" "p_state (procs k ! i) = RUNNING" using D(6,7) assms(2) by auto
  have il: "i < length (procs k)" using D(2) i by simp
  define k1 where "k1 = removeFromQueue i (upd_proc i (\<lambda>p. p\<lparr>p_nice := new_nice inc (procs k ! i)\<rparr>) k)"
  have "nice_target (new_nice inc (procs k ! i)) \<noteq> p_queue (procs k ! i)"
    using assms(3-5) by (simp add: nice_target_def)
  then have eq: "sys_nice inc k = Ok (new_nice inc (procs k ! i), enqueue i k1)"
    by (simp add: sys_nice_eq [OF assms(2) il] Let_def k1_def)
  have l1: "i < length (procs k1)" "length (procs k1) = NPROC" using il D(2) by (simp_all add: k1_def)
  have st: "p_state (procs (enqueue i k1) ! i) = RUNNING"
    using l1 i il by (simp add: enqueue_proc) (simp add: k1_def upd_proc_nth)
  have "i < length (qtable k)" using D(1) i queues_areD(1) by (fastforce simp: sched_ok_def)
  then have q: "q_queue (qtable (enqueue i k1)) i < 3"
    using l1 level_of_less_3 by (simp add: enqueue_eq link_before_queue k1_def removeFromQueue_def Let_def)
  have "\<not> sched_ok (enqueue i k1)"
  proof
    assume "sched_ok (enqueue i k1)"
    then obtain Q where Q: "queues_are (qtable (enqueue i k1)) Q"
        "\<forall>j < NPROC. p_state (procs (enqueue i k1) ! j) = RUNNABLE \<longleftrightarrow> (\<exists>q < 3. j \<in> set (Q q))"
      by (auto simp: sched_ok_def)
    have "i \<in> set (Q (q_queue (qtable (enqueue i k1)) i))" using queues_areD(6) [OF Q(1) i(1) q] by blast
    then show False using Q(2) i(1) q st by auto
  qed
  then show ?thesis using eq st q by (auto simp: kinv_def)
qed

theorem sys_nice_breaks_queues_witness:
  "running first_running \<and> (\<exists>r k'. sys_nice 1 first_running = Ok (r, k') \<and> \<not> kinv k')"
proof -
  have "procs first_running ! 0 = zero_proc\<lparr>p_pid := 1, p_state := RUNNING\<rparr>"
    by (simp add: first_running_proc)
  moreover have "c_proc first_running = Some 0" by (simp add: first_running_def)
  ultimately show ?thesis
    using sys_nice_breaks_queues [OF first_running_running, of 0 1] first_running_running
    by (auto simp: zero_proc_def new_nice_def s32_def)
qed

section \<open>The scheduling log\<close>

definition log_list :: "kernel \<Rightarrow> logentry list" where
  "log_list k = take (nat (num_logged k)) (schedlog k)"

definition log_ok :: "kernel \<Rightarrow> bool" where
  "log_ok k \<longleftrightarrow> length (schedlog k) = LOG_SIZE \<and> 0 \<le> num_logged k \<and> num_logged k \<le> int LOG_SIZE"

text \<open>
  The scheduling log never overflows: recording a switch appends an entry with the
  process's pid and the current tick when logging is on, the last entry is another process's
  and the log is not full, and otherwise leaves the log as it is.
\<close>

theorem log_switch_appends:
  assumes "log_ok k"
  shows "log_ok (log_switch i k) \<and>
    log_list (log_switch i k) =
      (if is_logging k \<noteq> 0 \<and> (log_list k = [] \<or> le_pid (last (log_list k)) \<noteq> p_pid (procs k ! i)) \<and>
          length (log_list k) < LOG_SIZE
       then log_list k @ [\<lparr>le_pid = p_pid (procs k ! i), le_time = time k\<rparr>] else log_list k)"
proof -
  define n where "n = nat (num_logged k)"
  have n: "num_logged k = int n" "length (schedlog k) = LOG_SIZE" "n \<le> LOG_SIZE"
    using assms by (auto simp: log_ok_def n_def)
  have l: "log_list k = take n (schedlog k)" "length (log_list k) = n" using n by (simp_all add: log_list_def)
  have last: "last (log_list k) = schedlog k ! nat (int n - 1)" if "n \<noteq> 0"
  proof -
    have "last (log_list k) = log_list k ! (n - 1)" using that l(2) last_conv_nth [of "log_list k"] by fastforce
    then show ?thesis using that l(1) n by (simp add: nat_diff_distrib)
  qed
  have e: "log_list k = [] \<longleftrightarrow> n = 0" using l(2) by (metis length_0_conv)
  have "take (Suc n) ((schedlog k)[n := x]) = take n (schedlog k) @ [x]" if "n < LOG_SIZE" for x
    using that n(2) by (simp add: take_Suc_conv_app_nth)
  then show ?thesis
    using n l(2) last e
    by (auto simp: log_switch_def log_ok_def l(1)) (auto simp: log_list_def nat_add_distrib)
qed

theorem log_switch_appends_witness:
  "log_ok first_running \<and>
   log_list (log_switch 0 (first_running\<lparr>is_logging := 1\<rparr>)) = [\<lparr>le_pid = 1, le_time = 0\<rparr>]"
proof -
  have f: "schedlog first_running = replicate LOG_SIZE \<lparr>le_pid = 0, le_time = 0\<rparr>"
    "num_logged first_running = 0" "time first_running = 0" "p_pid (procs first_running ! 0) = 1"
    by (simp_all add: first_running_proc)
      (simp_all add: first_running_def setupQueue_def Let_def upd_proc_def zero_kernel_def)
  then have "log_ok first_running" "log_ok (first_running\<lparr>is_logging := 1\<rparr>)" by (simp_all add: log_ok_def)
  then show ?thesis
    using log_switch_appends [of "first_running\<lparr>is_logging := 1\<rparr>" 0] f by (simp add: log_list_def)
qed

end
