(* ===== verification/Sleeplock.thy ===== *)
theory Sleeplock
  imports Prelude
begin

text \<open>
  Sleep locks (\<^verbatim>\<open>kernel/sleeplock.c\<close>). Every routine runs inside the lock's own spin lock, so
  it is one atomic step; \<^verbatim>\<open>acquiresleep\<close> sleeps while another process has the lock.
  \<open>pid\<close> is \<^verbatim>\<open>myproc()->pid\<close>.
\<close>

record sleeplock =
  sl_locked :: bool
  sl_pid :: int

definition initsleeplock :: sleeplock where
  "initsleeplock = \<lparr>sl_locked = False, sl_pid = 0\<rparr>"

definition acquiresleep :: "int \<Rightarrow> sleeplock \<Rightarrow> sleeplock res" where
  "acquiresleep pid lk =
     (if sl_locked lk then Sleeps else Ok (lk\<lparr>sl_locked := True, sl_pid := pid\<rparr>))"

definition releasesleep :: "sleeplock \<Rightarrow> sleeplock" where
  "releasesleep lk = lk\<lparr>sl_locked := False, sl_pid := 0\<rparr>"

definition holdingsleep :: "int \<Rightarrow> sleeplock \<Rightarrow> bool" where
  "holdingsleep pid lk \<longleftrightarrow> sl_locked lk \<and> sl_pid lk = pid"

lemma holding_acquired: "acquiresleep pid lk = Ok lk' \<Longrightarrow> holdingsleep pid lk'"
  by (auto simp: acquiresleep_def holdingsleep_def split: if_splits)

lemma acquire_excludes: "holdingsleep pid lk \<Longrightarrow> acquiresleep pid' lk = Sleeps"
  by (simp add: acquiresleep_def holdingsleep_def)

lemma released_free: "\<not> holdingsleep pid (releasesleep lk) \<and> acquiresleep pid (releasesleep lk) \<noteq> Sleeps"
  by (simp add: acquiresleep_def holdingsleep_def releasesleep_def)

end
