(* ===== verification/Cache_Interface.thy ===== *)
theory Cache_Interface
  imports Prelude
begin

text \<open>
  What the logging layer and the file system rely on when they use the buffer cache: a
  block that has been read is locked and stays in place, its contents are what the cache
  shows for the block, only \<^verbatim>\<open>bwrite\<close> reaches the disk, and a buffer is recycled only when
  nobody refers to it and its contents are on disk. \<open>view\<close> is the contents of a block as
  the kernel sees it, through the cache; \<open>trace\<close> the sequence of disk writes; \<open>busy\<close> the
  blocks some process has locked.
\<close>

locale buffer_cache =
  fixes invar :: "'s \<Rightarrow> bool"
    and capacity :: nat
    and block_ok :: "'d \<Rightarrow> bool"
    and holds :: "'s \<Rightarrow> 'h \<Rightarrow> nat \<Rightarrow> bool"
    and busy :: "'s \<Rightarrow> nat set"
    and refs :: "'s \<Rightarrow> nat \<Rightarrow> nat"
    and view :: "'s \<Rightarrow> nat \<Rightarrow> 'd"
    and disk :: "'s \<Rightarrow> nat \<Rightarrow> 'd"
    and trace :: "'s \<Rightarrow> (nat \<times> 'd) list"
    and data :: "'s \<Rightarrow> 'h \<Rightarrow> 'd"
    and set_data :: "'h \<Rightarrow> 'd \<Rightarrow> 's \<Rightarrow> 's"
    and bread :: "nat \<Rightarrow> 's \<Rightarrow> ('h \<times> 's) res"
    and bwrite :: "'h \<Rightarrow> 's \<Rightarrow> 's res"
    and brelse :: "'h \<Rightarrow> 's \<Rightarrow> 's res"
    and bpin :: "'h \<Rightarrow> 's \<Rightarrow> 's"
    and bunpin :: "'h \<Rightarrow> 's \<Rightarrow> 's"
  assumes holds_busy: "invar s \<Longrightarrow> holds s h b \<Longrightarrow> b \<in> busy s"
    and holds_inj: "invar s \<Longrightarrow> holds s h b \<Longrightarrow> holds s h' b' \<Longrightarrow> h = h' \<longleftrightarrow> b = b'"
    and holds_refs: "invar s \<Longrightarrow> holds s h b \<Longrightarrow> 0 < refs s b"
    and unreferenced: "invar s \<Longrightarrow> refs s b = 0 \<Longrightarrow> view s b = disk s b"
    and view_ok: "invar s \<Longrightarrow> block_ok (view s b)"
    and data_view: "invar s \<Longrightarrow> holds s h b \<Longrightarrow> data s h = view s b"
    and bread_ok: "invar s \<Longrightarrow> b \<notin> busy s \<Longrightarrow> 0 < refs s b \<or> card {b. 0 < refs s b} < capacity \<Longrightarrow>
      refs s b < 2 ^ 32 - 1 \<Longrightarrow>
      \<exists>h s'. bread b s = Ok (h, s') \<and> invar s' \<and> holds s' h b \<and> busy s' = insert b (busy s) \<and>
        (\<forall>h' b'. holds s h' b' \<longrightarrow> holds s' h' b') \<and> view s' = view s \<and> disk s' = disk s \<and>
        trace s' = trace s \<and> refs s' = (refs s)(b := refs s b + 1)"
    and set_data_ok: "invar s \<Longrightarrow> holds s h b \<Longrightarrow> block_ok d \<Longrightarrow>
      invar (set_data h d s) \<and> holds (set_data h d s) = holds s \<and> busy (set_data h d s) = busy s \<and>
      view (set_data h d s) = (view s)(b := d) \<and> disk (set_data h d s) = disk s \<and>
      trace (set_data h d s) = trace s \<and> refs (set_data h d s) = refs s"
    and bwrite_ok: "invar s \<Longrightarrow> holds s h b \<Longrightarrow>
      \<exists>s'. bwrite h s = Ok s' \<and> invar s' \<and> holds s' = holds s \<and> busy s' = busy s \<and> view s' = view s \<and>
        disk s' = (disk s)(b := view s b) \<and> trace s' = trace s @ [(b, view s b)] \<and> refs s' = refs s"
    and brelse_ok: "invar s \<Longrightarrow> holds s h b \<Longrightarrow> 1 < refs s b \<or> view s b = disk s b \<Longrightarrow>
      \<exists>s'. brelse h s = Ok s' \<and> invar s' \<and> (\<forall>h' b'. h' \<noteq> h \<longrightarrow> holds s' h' b' = holds s h' b') \<and>
        busy s' = busy s - {b} \<and> view s' = view s \<and> disk s' = disk s \<and> trace s' = trace s \<and>
        refs s' = (refs s)(b := refs s b - 1)"
    and bpin_ok: "invar s \<Longrightarrow> holds s h b \<Longrightarrow> refs s b < 2 ^ 32 - 1 \<Longrightarrow>
      invar (bpin h s) \<and> holds (bpin h s) = holds s \<and> busy (bpin h s) = busy s \<and>
      view (bpin h s) = view s \<and> disk (bpin h s) = disk s \<and> trace (bpin h s) = trace s \<and>
      refs (bpin h s) = (refs s)(b := refs s b + 1)"
    and bunpin_ok: "invar s \<Longrightarrow> holds s h b \<Longrightarrow> 1 < refs s b \<Longrightarrow>
      invar (bunpin h s) \<and> holds (bunpin h s) = holds s \<and> busy (bunpin h s) = busy s \<and>
      view (bunpin h s) = view s \<and> disk (bunpin h s) = disk s \<and> trace (bunpin h s) = trace s \<and>
      refs (bunpin h s) = (refs s)(b := refs s b - 1)"
begin

text \<open>Reading a block and letting it go.\<close>

lemma peek:
  assumes "invar s" and "b \<notin> busy s" and "0 < refs s b \<or> card {b. 0 < refs s b} < capacity"
    and "refs s b < 2 ^ 32 - 1"
  shows "\<exists>h s1 s'. bread b s = Ok (h, s1) \<and> data s1 h = view s b \<and> brelse h s1 = Ok s' \<and> invar s' \<and>
    busy s' = busy s \<and> view s' = view s \<and> disk s' = disk s \<and> trace s' = trace s \<and> refs s' = refs s"
proof -
  obtain h s1 where s1: "bread b s = Ok (h, s1)" "invar s1" "holds s1 h b" "busy s1 = insert b (busy s)"
      "view s1 = view s" "disk s1 = disk s" "trace s1 = trace s" "refs s1 = (refs s)(b := refs s b + 1)"
    using bread_ok [OF assms(1-4)] by blast
  have "1 < refs s1 b \<or> view s1 b = disk s1 b" using unreferenced [OF assms(1), of b] s1 by auto
  from brelse_ok [OF s1(2,3) this] obtain s' where s': "brelse h s1 = Ok s'" "invar s'"
      "busy s' = busy s1 - {b}" "view s' = view s1" "disk s' = disk s1" "trace s' = trace s1"
      "refs s' = (refs s1)(b := refs s1 b - 1)" by blast
  have "busy s' = busy s" "refs s' = refs s" using s' s1 assms(2) by auto
  with s1 s' data_view [OF s1(2,3)] show ?thesis by auto
qed

text \<open>Changing a block and writing it through to the disk.\<close>

lemma write_through:
  assumes "invar s" and "b \<notin> busy s" and "0 < refs s b \<or> card {b. 0 < refs s b} < capacity"
    and "refs s b < 2 ^ 32 - 1" and f: "\<And>d. block_ok d \<Longrightarrow> block_ok (f d)"
  shows "\<exists>h s1 s2 s'. bread b s = Ok (h, s1) \<and> bwrite h (set_data h (f (data s1 h)) s1) = Ok s2 \<and>
    brelse h s2 = Ok s' \<and> invar s' \<and> busy s' = busy s \<and> refs s' = refs s \<and>
    view s' = (view s)(b := f (view s b)) \<and> disk s' = (disk s)(b := f (view s b)) \<and>
    trace s' = trace s @ [(b, f (view s b))]"
proof -
  obtain h s1 where s1: "bread b s = Ok (h, s1)" "invar s1" "holds s1 h b" "busy s1 = insert b (busy s)"
      "view s1 = view s" "disk s1 = disk s" "trace s1 = trace s" "refs s1 = (refs s)(b := refs s b + 1)"
    using bread_ok [OF assms(1-4)] by blast
  have d: "data s1 h = view s b" using data_view [OF s1(2,3)] s1 by simp
  define t where "t = set_data h (f (data s1 h)) s1"
  have t: "invar t" "holds t h b" "busy t = busy s1" "view t = (view s)(b := f (view s b))"
      "disk t = disk s1" "trace t = trace s1" "refs t = refs s1"
    using set_data_ok [OF s1(2,3) f, of "view s b"] view_ok [OF assms(1)] s1 d by (simp_all add: t_def)
  obtain s2 where s2: "bwrite h t = Ok s2" "invar s2" "holds s2 = holds t" "busy s2 = busy t"
      "view s2 = view t" "disk s2 = (disk t)(b := view t b)" "trace s2 = trace t @ [(b, view t b)]"
      "refs s2 = refs t"
    using bwrite_ok [OF t(1,2)] by blast
  have h2: "holds s2 h b" "view s2 b = disk s2 b" using t s2 by auto
  from brelse_ok [OF s2(2) h2(1) disjI2, OF h2(2)] obtain s' where s': "brelse h s2 = Ok s'" "invar s'"
      "busy s' = busy s2 - {b}" "view s' = view s2" "disk s' = disk s2" "trace s' = trace s2"
      "refs s' = (refs s2)(b := refs s2 b - 1)" by blast
  have "busy s' = busy s" "refs s' = refs s" using s' s2 t s1 assms(2) by auto
  with s1 s2 s' t show ?thesis by (auto simp: t_def)
qed

text \<open>
  Copying block \<open>a\<close> over block \<open>b\<close>, on disk too. \<open>p\<close> says whether a pin of \<open>b\<close> is given
  up before the release.
\<close>

lemma copy_block:
  assumes inv: "invar s" and ab: "a \<noteq> b" "a \<notin> busy s" "b \<notin> busy s"
    and ra: "0 < refs s a \<or> card {b. 0 < refs s b} < capacity" "refs s a < 2 ^ 32 - 1"
    and rb: "0 < refs s b \<or> card {c. 0 < refs s c \<or> c = a} < capacity" "refs s b < 2 ^ 32 - 1"
    and p: "p \<Longrightarrow> 0 < refs s b"
  shows "\<exists>ha hb s1 s2 s3 s4 s'. bread a s = Ok (ha, s1) \<and> bread b s1 = Ok (hb, s2) \<and>
    bwrite hb (set_data hb (data s2 ha) s2) = Ok s3 \<and>
    brelse ha (if p then bunpin hb s3 else s3) = Ok s4 \<and> brelse hb s4 = Ok s' \<and>
    invar s' \<and> busy s' = busy s \<and>
    refs s' = (if p then (refs s)(b := refs s b - 1) else refs s) \<and> view s' = (view s)(b := view s a) \<and>
    disk s' = (disk s)(b := view s a) \<and> trace s' = trace s @ [(b, view s a)]"
proof -
  obtain ha s1 where s1: "bread a s = Ok (ha, s1)" "invar s1" "holds s1 ha a" "busy s1 = insert a (busy s)"
      "view s1 = view s" "disk s1 = disk s" "trace s1 = trace s" "refs s1 = (refs s)(a := refs s a + 1)"
    using bread_ok [OF inv ab(2) ra] by blast
  have "{c. 0 < refs s1 c} = {c. 0 < refs s c \<or> c = a}" by (auto simp: s1)
  then have b1: "b \<notin> busy s1" "0 < refs s1 b \<or> card {c. 0 < refs s1 c} < capacity" "refs s1 b < 2 ^ 32 - 1"
    using ab rb s1 by auto
  from bread_ok [OF s1(2) b1] obtain hb s2 where s2: "bread b s1 = Ok (hb, s2)" "invar s2"
      "holds s2 hb b" "busy s2 = insert b (busy s1)" "\<forall>h' b'. holds s1 h' b' \<longrightarrow> holds s2 h' b'"
      "view s2 = view s1" "disk s2 = disk s1" "trace s2 = trace s1" "refs s2 = (refs s1)(b := refs s1 b + 1)"
    by blast
  have ha: "holds s2 ha a" "ha \<noteq> hb" using s2 s1(3) holds_inj [OF s2(2), of ha a hb b] ab by auto
  have d: "data s2 ha = view s a" using data_view [OF s2(2) ha(1)] s1 s2 by simp
  define t where "t = set_data hb (data s2 ha) s2"
  have "block_ok (view s a)" using view_ok [OF inv] .
  then have t: "invar t" "holds t = holds s2" "busy t = busy s2" "view t = (view s)(b := view s a)"
      "disk t = disk s2" "trace t = trace s2" "refs t = refs s2"
    using set_data_ok [OF s2(2,3)] s1 s2 d by (simp_all add: t_def)
  have "holds t hb b" using t s2 by simp
  from bwrite_ok [OF t(1) this] obtain s3 where s3: "bwrite hb t = Ok s3" "invar s3" "holds s3 = holds t"
      "busy s3 = busy t" "view s3 = view t" "disk s3 = (disk t)(b := view t b)"
      "trace s3 = trace t @ [(b, view t b)]" "refs s3 = refs t"
    by blast
  define u where "u = (if p then bunpin hb s3 else s3)"
  have h3: "holds s3 hb b" "p \<Longrightarrow> 1 < refs s3 b" using s3 t s2 s1 p ab by auto
  have u: "invar u" "holds u = holds s3" "busy u = busy s3" "view u = view s3" "disk u = disk s3"
      "trace u = trace s3" "refs u = (if p then (refs s3)(b := refs s3 b - 1) else refs s3)"
    using bunpin_ok [OF s3(2) h3(1)] h3(2) s3(2) by (auto simp: u_def)
  have "refs u a = refs s a + 1" "view u a = view s a" "disk u a = disk s a"
    using ab(1) by (simp_all add: u s3 t s2 s1)
  then have hu: "holds u ha a" "1 < refs u a \<or> view u a = disk u a"
    using unreferenced [OF inv, of a] ha(1) by (auto simp: u(2) s3(3) t(2))
  from brelse_ok [OF u(1) hu] obtain s4 where s4: "brelse ha u = Ok s4" "invar s4"
      "\<forall>h' b'. h' \<noteq> ha \<longrightarrow> holds s4 h' b' = holds u h' b'" "busy s4 = busy u - {a}" "view s4 = view u"
      "disk s4 = disk u" "trace s4 = trace u" "refs s4 = (refs u)(a := refs u a - 1)" by blast
  have h4: "holds s4 hb b" using s4(3) u s3 t s2 ha by auto
  have v4: "view s4 b = disk s4 b" using s4 u s3 t by simp
  from brelse_ok [OF s4(2) h4 disjI2, OF v4] obtain s' where s': "brelse hb s4 = Ok s'" "invar s'"
      "busy s' = busy s4 - {b}" "view s' = view s4" "disk s' = disk s4" "trace s' = trace s4"
      "refs s' = (refs s4)(b := refs s4 b - 1)" by blast
  have f: "busy s' = busy s" using s' s4 u s3 t s2 s1 ab by auto
  have r: "refs s' = (if p then (refs s)(b := refs s b - 1) else refs s)"
    using s'(7) s4(8) u(7) s3(8) t(7) s2(9) s1(8) ab(1) p by (auto simp: fun_eq_iff)
  have "view s' = (view s)(b := view s a)" "disk s' = (disk s)(b := view s a)"
    "trace s' = trace s @ [(b, view s a)]"
    by (simp_all add: s'(4-6) s4(5-7) u(4-6) s3(5-7) t(4-6) s2(6-8) s1(5-7))
  with s1(1) s2(1) s3(1) [unfolded t_def] s4(1) [unfolded u_def] s'(1,2) f r show ?thesis by blast
qed

text \<open>The same copy with the destination read first.\<close>

lemma copy_block_into:
  assumes inv: "invar s" and ab: "a \<noteq> b" "a \<notin> busy s" "b \<notin> busy s"
    and rb: "0 < refs s b \<or> card {b. 0 < refs s b} < capacity" "refs s b < 2 ^ 32 - 1"
    and ra: "0 < refs s a" "refs s a < 2 ^ 32 - 1"
  shows "\<exists>ha hb s1 s2 s3 s4 s'. bread b s = Ok (hb, s1) \<and> bread a s1 = Ok (ha, s2) \<and>
    bwrite hb (set_data hb (data s2 ha) s2) = Ok s3 \<and> brelse ha s3 = Ok s4 \<and> brelse hb s4 = Ok s' \<and>
    invar s' \<and> busy s' = busy s \<and> refs s' = refs s \<and> view s' = (view s)(b := view s a) \<and>
    disk s' = (disk s)(b := view s a) \<and> trace s' = trace s @ [(b, view s a)]"
proof -
  obtain hb s1 where s1: "bread b s = Ok (hb, s1)" "invar s1" "holds s1 hb b" "busy s1 = insert b (busy s)"
      "view s1 = view s" "disk s1 = disk s" "trace s1 = trace s" "refs s1 = (refs s)(b := refs s b + 1)"
    using bread_ok [OF inv ab(3) rb] by blast
  have a1: "a \<notin> busy s1" "0 < refs s1 a \<or> card {c. 0 < refs s1 c} < capacity" "refs s1 a < 2 ^ 32 - 1"
    using ab ra s1 by auto
  from bread_ok [OF s1(2) a1] obtain ha s2 where s2: "bread a s1 = Ok (ha, s2)" "invar s2"
      "holds s2 ha a" "busy s2 = insert a (busy s1)" "\<forall>h' b'. holds s1 h' b' \<longrightarrow> holds s2 h' b'"
      "view s2 = view s1" "disk s2 = disk s1" "trace s2 = trace s1" "refs s2 = (refs s1)(a := refs s1 a + 1)"
    by blast
  have hb: "holds s2 hb b" "ha \<noteq> hb" using s2 s1(3) holds_inj [OF s2(2), of ha a hb b] ab by auto
  have d: "data s2 ha = view s a" using data_view [OF s2(2,3)] s1 s2 by simp
  define t where "t = set_data hb (data s2 ha) s2"
  have t: "invar t" "holds t = holds s2" "busy t = busy s2" "view t = (view s)(b := view s a)"
      "disk t = disk s2" "trace t = trace s2" "refs t = refs s2"
    using set_data_ok [OF s2(2) hb(1)] view_ok [OF inv] s1 s2 d by (simp_all add: t_def)
  have "holds t hb b" using t hb by simp
  from bwrite_ok [OF t(1) this] obtain s3 where s3: "bwrite hb t = Ok s3" "invar s3" "holds s3 = holds t"
      "busy s3 = busy t" "view s3 = view t" "disk s3 = (disk t)(b := view t b)"
      "trace s3 = trace t @ [(b, view t b)]" "refs s3 = refs t"
    by blast
  have h3: "holds s3 ha a" "1 < refs s3 a \<or> view s3 a = disk s3 a"
    using s3(3,8) t(2,7) s2(3,9) s1(8) ra ab by auto
  from brelse_ok [OF s3(2) h3] obtain s4 where s4: "brelse ha s3 = Ok s4" "invar s4"
      "\<forall>h' b'. h' \<noteq> ha \<longrightarrow> holds s4 h' b' = holds s3 h' b'" "busy s4 = busy s3 - {a}" "view s4 = view s3"
      "disk s4 = disk s3" "trace s4 = trace s3" "refs s4 = (refs s3)(a := refs s3 a - 1)" by blast
  have h4: "holds s4 hb b" using s4(3) s3 t hb by auto
  have v4: "view s4 b = disk s4 b" using s4 s3 t by simp
  from brelse_ok [OF s4(2) h4 disjI2, OF v4] obtain s' where s': "brelse hb s4 = Ok s'" "invar s'"
      "busy s' = busy s4 - {b}" "view s' = view s4" "disk s' = disk s4" "trace s' = trace s4"
      "refs s' = (refs s4)(b := refs s4 b - 1)" by blast
  have f: "busy s' = busy s" using s' s4 s3 t s2 s1 ab by auto
  have r: "refs s' = refs s"
    using s'(7) s4(8) s3(8) t(7) s2(9) s1(8) ab(1) by (auto simp: fun_eq_iff)
  have "view s' = (view s)(b := view s a)" "disk s' = (disk s)(b := view s a)"
    "trace s' = trace s @ [(b, view s a)]"
    by (simp_all add: s'(4-6) s4(5-7) s3(5-7) t(4-6) s2(6-8) s1(5-7))
  with s1(1) s2(1) s3(1) [unfolded t_def] s4(1) s'(1,2) f r show ?thesis by blast
qed

end

end
