(* ===== verification/Bio.thy ===== *)
theory Bio
  imports Sleeplock Dll Cache_Interface
begin

text \<open>
  The buffer cache (\<^verbatim>\<open>kernel/bio.c\<close>): thirty buffers and the list head, linked from most to
  least recently used. A buffer is its index in \<^verbatim>\<open>bcache.buf\<close>; index \<^verbatim>\<open>NBUF\<close> is
  \<^verbatim>\<open>bcache.head\<close>. The list operations run under \<^verbatim>\<open>bcache.lock\<close> and are atomic. The disk
  is a map from block numbers to blocks; \<^verbatim>\<open>virtio_disk_rw\<close> has returned when the transfer is
  done, and every write is recorded in \<open>dtrace\<close>, oldest first.
\<close>

section \<open>Data\<close>

abbreviation (input) NBUF :: nat where "NBUF \<equiv> 30"
abbreviation (input) HEAD :: nat where "HEAD \<equiv> 30"
abbreviation (input) BSIZE :: nat where "BSIZE \<equiv> 1024"
abbreviation (input) ROOTDEV :: nat where "ROOTDEV \<equiv> 1"

type_synonym block = "u8 list"

record buf =
  b_valid :: bool
  b_dev :: nat
  b_blockno :: nat
  b_lock :: sleeplock
  b_refcnt :: nat
  b_prev :: nat
  b_next :: nat
  b_data :: block

record bio =
  bufs :: "buf list"
  bdisk :: "nat \<Rightarrow> block"
  dtrace :: "(nat \<times> block) list"

definition upd_buf :: "nat \<Rightarrow> (buf \<Rightarrow> buf) \<Rightarrow> bio \<Rightarrow> bio" where
  "upd_buf i f s = s\<lparr>bufs := (bufs s)[i := f (bufs s ! i)]\<rparr>"

definition set_next :: "nat \<Rightarrow> nat \<Rightarrow> bio \<Rightarrow> bio" where
  "set_next i v s = upd_buf i (\<lambda>b. b\<lparr>b_next := v\<rparr>) s"

definition set_prev :: "nat \<Rightarrow> nat \<Rightarrow> bio \<Rightarrow> bio" where
  "set_prev i v s = upd_buf i (\<lambda>b. b\<lparr>b_prev := v\<rparr>) s"

definition nxt :: "bio \<Rightarrow> nat \<Rightarrow> nat" where "nxt s i = b_next (bufs s ! i)"
definition prv :: "bio \<Rightarrow> nat \<Rightarrow> nat" where "prv s i = b_prev (bufs s ! i)"
definition in_range :: "bio \<Rightarrow> nat \<Rightarrow> bool" where "in_range s i \<longleftrightarrow> i < length (bufs s)"

section \<open>Operations\<close>

text \<open>The last four assignments of \<^verbatim>\<open>brelse\<close>: link \<^verbatim>\<open>b\<close> in behind the head.\<close>

definition push_head :: "nat \<Rightarrow> bio \<Rightarrow> bio" where
  "push_head b s =
     (let s = set_next b (nxt s HEAD) s;
          s = set_prev b HEAD s;
          s = set_prev (nxt s HEAD) b s
      in set_next HEAD b s)"

fun binit_loop :: "nat list \<Rightarrow> bio \<Rightarrow> bio" where
  "binit_loop [] s = s"
| "binit_loop (b # bs) s =
     binit_loop bs
       (let s = set_next b (nxt s HEAD) s;
            s = set_prev b HEAD s;
            s = upd_buf b (\<lambda>x. x\<lparr>b_lock := initsleeplock\<rparr>) s;
            s = set_prev (nxt s HEAD) b s
        in set_next HEAD b s)"

definition binit :: "bio \<Rightarrow> bio" where
  "binit s = binit_loop [0..<NBUF] (set_next HEAD HEAD (set_prev HEAD HEAD s))"

text \<open>
  The loops over the list: follow one of the links from a buffer to the head and stop at
  the first buffer with the property. The list never has more than \<^verbatim>\<open>NBUF\<close> buffers, which
  bounds the loop.
\<close>

fun scan :: "nat \<Rightarrow> (buf \<Rightarrow> nat) \<Rightarrow> (buf \<Rightarrow> bool) \<Rightarrow> nat \<Rightarrow> buf list \<Rightarrow> nat option" where
  "scan 0 step P b bs = None"
| "scan (Suc fuel) step P b bs =
     (if b = HEAD then None
      else if P (bs ! b) then Some b
      else scan fuel step P (step (bs ! b)) bs)"

definition acquire_buf :: "int \<Rightarrow> nat \<Rightarrow> bio \<Rightarrow> (nat \<times> bio) res" where
  "acquire_buf pid b s =
     bind_res (acquiresleep pid (b_lock (bufs s ! b)))
       (\<lambda>lk. Ok (b, upd_buf b (\<lambda>x. x\<lparr>b_lock := lk\<rparr>) s))"

definition bget :: "int \<Rightarrow> nat \<Rightarrow> nat \<Rightarrow> bio \<Rightarrow> (nat \<times> bio) res" where
  "bget pid dev blockno s =
     (case scan (NBUF + 1) b_next (\<lambda>b. b_dev b = dev \<and> b_blockno b = blockno)
             (b_next (bufs s ! HEAD)) (bufs s) of
        Some b \<Rightarrow>
          acquire_buf pid b (upd_buf b (\<lambda>x. x\<lparr>b_refcnt := (b_refcnt x + 1) mod 2 ^ 32\<rparr>) s)
      | None \<Rightarrow>
          (case scan (NBUF + 1) b_prev (\<lambda>b. b_refcnt b = 0) (b_prev (bufs s ! HEAD)) (bufs s) of
             Some b \<Rightarrow>
               acquire_buf pid b (upd_buf b (\<lambda>x. x\<lparr>b_dev := dev, b_blockno := blockno,
                                                  b_valid := False, b_refcnt := 1\<rparr>) s)
           | None \<Rightarrow> Panic ''bget: no buffers''))"

definition virtio_disk_rw :: "nat \<Rightarrow> bool \<Rightarrow> bio \<Rightarrow> bio" where
  "virtio_disk_rw b write s =
     (let x = bufs s ! b
      in if write then s\<lparr>bdisk := (bdisk s)(b_blockno x := b_data x),
                         dtrace := dtrace s @ [(b_blockno x, b_data x)]\<rparr>
         else upd_buf b (\<lambda>x. x\<lparr>b_data := bdisk s (b_blockno x)\<rparr>) s)"

definition bread :: "int \<Rightarrow> nat \<Rightarrow> nat \<Rightarrow> bio \<Rightarrow> (nat \<times> bio) res" where
  "bread pid dev blockno s =
     bind_res (bget pid dev blockno s) (\<lambda>(b, s).
       if \<not> b_valid (bufs s ! b)
       then Ok (b, upd_buf b (\<lambda>x. x\<lparr>b_valid := True\<rparr>) (virtio_disk_rw b False s))
       else Ok (b, s))"

definition bwrite :: "int \<Rightarrow> nat \<Rightarrow> bio \<Rightarrow> bio res" where
  "bwrite pid b s =
     (if \<not> holdingsleep pid (b_lock (bufs s ! b)) then Panic ''bwrite''
      else Ok (virtio_disk_rw b True s))"

definition brelse :: "int \<Rightarrow> nat \<Rightarrow> bio \<Rightarrow> bio res" where
  "brelse pid b s =
     (if \<not> holdingsleep pid (b_lock (bufs s ! b)) then Panic ''brelse''
      else
        let s = upd_buf b (\<lambda>x. x\<lparr>b_lock := releasesleep (b_lock x)\<rparr>) s;
            s = upd_buf b (\<lambda>x. x\<lparr>b_refcnt := (b_refcnt x + 2 ^ 32 - 1) mod 2 ^ 32\<rparr>) s
        in if b_refcnt (bufs s ! b) = 0 then
             let s = set_prev (nxt s b) (prv s b) s;
                 s = set_next (prv s b) (nxt s b) s
             in Ok (push_head b s)
           else Ok s)"

definition bpin :: "nat \<Rightarrow> bio \<Rightarrow> bio" where
  "bpin b s = upd_buf b (\<lambda>x. x\<lparr>b_refcnt := (b_refcnt x + 1) mod 2 ^ 32\<rparr>) s"

definition bunpin :: "nat \<Rightarrow> bio \<Rightarrow> bio" where
  "bunpin b s = upd_buf b (\<lambda>x. x\<lparr>b_refcnt := (b_refcnt x + 2 ^ 32 - 1) mod 2 ^ 32\<rparr>) s"

definition set_data :: "nat \<Rightarrow> block \<Rightarrow> bio \<Rightarrow> bio" where
  "set_data b d s = upd_buf b (\<lambda>x. x\<lparr>b_data := d\<rparr>) s"

definition data :: "bio \<Rightarrow> nat \<Rightarrow> block" where
  "data s b = b_data (bufs s ! b)"

section \<open>The LRU list\<close>

lemma upd_buf_nth:
  "bufs (upd_buf i f s) ! j = (if i = j \<and> i < length (bufs s) then f (bufs s ! i) else bufs s ! j)"
  by (simp add: upd_buf_def nth_list_update_if)

lemma upd_buf_rest [simp]:
  "length (bufs (upd_buf i f s)) = length (bufs s)" "bdisk (upd_buf i f s) = bdisk s"
  "dtrace (upd_buf i f s) = dtrace s"
  by (simp_all add: upd_buf_def)

interpretation lru: link_store in_range nxt prv set_next set_prev
  by unfold_locales
    (auto simp: in_range_def nxt_def prv_def set_next_def set_prev_def upd_buf_nth fun_eq_iff)

definition lru_is :: "bio \<Rightarrow> nat list \<Rightarrow> bool" where
  "lru_is s L \<longleftrightarrow> length (bufs s) = NBUF + 1 \<and> dll (nxt s) (prv s) HEAD L HEAD \<and>
     distinct L \<and> set L = {..<NBUF}"

lemma lru_isD:
  assumes "lru_is s L"
  shows "length (bufs s) = 31" "dll (nxt s) (prv s) 30 L 30" "distinct L" "30 \<notin> set L"
    "in_range s 30" "\<forall>y \<in> set L. in_range s y" "length L = 30"
proof -
  show "length L = 30" using assms distinct_card [of L] by (simp add: lru_is_def)
qed (use assms in \<open>auto simp: lru_is_def in_range_def\<close>)

lemma dll_rev: "dll n p a xs b \<Longrightarrow> dll p n b (rev xs) a"
  by (induction xs arbitrary: a) (auto simp: dll_append)

lemma scan_dll:
  assumes "dll (\<lambda>i. step (bs ! i)) p a L HEAD" and "HEAD \<notin> set L" and "length L < fuel"
  shows "scan fuel step P (step (bs ! a)) bs = find (\<lambda>i. P (bs ! i)) L"
  using assms
proof (induction L arbitrary: a fuel)
  case Nil
  then show ?case by (cases fuel) auto
next
  case (Cons x L)
  then show ?case by (cases fuel) auto
qed

lemma scan_lru:
  assumes "lru_is s L"
  shows "scan (NBUF + 1) b_next P (b_next (bufs s ! HEAD)) (bufs s) = find (\<lambda>i. P (bufs s ! i)) L"
    and "scan (NBUF + 1) b_prev P (b_prev (bufs s ! HEAD)) (bufs s) = find (\<lambda>i. P (bufs s ! i)) (rev L)"
proof -
  note D = lru_isD [OF assms]
  have n: "nxt s = (\<lambda>i. b_next (bufs s ! i))" "prv s = (\<lambda>i. b_prev (bufs s ! i))"
    by (simp_all add: nxt_def prv_def fun_eq_iff)
  show "scan (NBUF + 1) b_next P (b_next (bufs s ! HEAD)) (bufs s) = find (\<lambda>i. P (bufs s ! i)) L"
    using scan_dll [of b_next "bufs s"] D n by simp
  show "scan (NBUF + 1) b_prev P (b_prev (bufs s ! HEAD)) (bufs s) = find (\<lambda>i. P (bufs s ! i)) (rev L)"
    using scan_dll [of b_prev "bufs s", OF dll_rev [OF D(2), unfolded n]] D by simp
qed

lemma lru_cong:
  assumes "lru_is s L" and "length (bufs s') = length (bufs s)"
    and "\<And>i. b_next (bufs s' ! i) = b_next (bufs s ! i)" "\<And>i. b_prev (bufs s' ! i) = b_prev (bufs s ! i)"
  shows "lru_is s' L"
proof -
  have "nxt s' = nxt s" "prv s' = prv s" using assms by (simp_all add: nxt_def prv_def fun_eq_iff)
  with assms show ?thesis by (simp add: lru_is_def)
qed

lemma set_links_fields [simp]:
  "b_valid (bufs (set_next i v s) ! j) = b_valid (bufs s ! j)" "b_valid (bufs (set_prev i v s) ! j) = b_valid (bufs s ! j)"
  "b_dev (bufs (set_next i v s) ! j) = b_dev (bufs s ! j)" "b_dev (bufs (set_prev i v s) ! j) = b_dev (bufs s ! j)"
  "b_blockno (bufs (set_next i v s) ! j) = b_blockno (bufs s ! j)" "b_blockno (bufs (set_prev i v s) ! j) = b_blockno (bufs s ! j)"
  "b_lock (bufs (set_next i v s) ! j) = b_lock (bufs s ! j)" "b_lock (bufs (set_prev i v s) ! j) = b_lock (bufs s ! j)"
  "b_refcnt (bufs (set_next i v s) ! j) = b_refcnt (bufs s ! j)" "b_refcnt (bufs (set_prev i v s) ! j) = b_refcnt (bufs s ! j)"
  "b_data (bufs (set_next i v s) ! j) = b_data (bufs s ! j)" "b_data (bufs (set_prev i v s) ! j) = b_data (bufs s ! j)"
  "length (bufs (set_next i v s)) = length (bufs s)" "length (bufs (set_prev i v s)) = length (bufs s)"
  "bdisk (set_next i v s) = bdisk s" "bdisk (set_prev i v s) = bdisk s"
  "dtrace (set_next i v s) = dtrace s" "dtrace (set_prev i v s) = dtrace s"
  by (simp_all add: set_next_def set_prev_def upd_buf_nth)

text \<open>The part of a buffer the list operations leave alone.\<close>

definition same_buf :: "buf \<Rightarrow> buf \<Rightarrow> bool" where
  "same_buf x y \<longleftrightarrow> b_valid x = b_valid y \<and> b_dev x = b_dev y \<and> b_blockno x = b_blockno y \<and>
     b_lock x = b_lock y \<and> b_refcnt x = b_refcnt y \<and> b_data x = b_data y"

definition move_front :: "nat \<Rightarrow> bio \<Rightarrow> bio" where
  "move_front b s =
     (let s = set_prev (nxt s b) (prv s b) s; s = set_next (prv s b) (nxt s b) s in push_head b s)"

lemma move_front_lru:
  assumes "lru_is s L" and "b < NBUF"
  shows "lru_is (move_front b s) (b # remove1 b L)"
proof -
  note D = lru_isD [OF assms(1)]
  have "b \<in> set L" using assms by (simp add: lru_is_def)
  then obtain xs ys where L: "L = xs @ b # ys" by (meson split_list)
  have r: "remove1 b L = xs @ ys" using D(3) remove1_split L by metis
  have v: "in_range s b" "b \<noteq> 30" using D(1) assms(2) by (auto simp: in_range_def)
  define s1 where "s1 = set_prev (nxt s b) (prv s b) s"
  define s2 where "s2 = set_next (prv s1 b) (nxt s1 b) s1"
  have nb: "in_range s (nxt s b)" "in_range s (prv s b)"
    using lru.neighbours_valid [of s 30 xs b ys 30] D L by auto
  have nself: "nxt s b \<noteq> b"
  proof -
    have "dll (nxt s) (prv s) b ys 30" using D(2) L by (simp add: dll_append)
    then have "nxt s b = hd (ys @ [30])" by (rule dll_first)
    then show ?thesis using D(3) L v by (cases ys) auto
  qed
  have p1: "prv s1 b = prv s b" "nxt s1 b = nxt s b" using nb nself by (simp_all add: s1_def)
  have s2: "s2 = set_next (prv s b) (nxt s b) (set_prev (nxt s b) (prv s b) s)"
    by (simp only: s2_def p1) (simp only: s1_def)
  have d2: "dll (nxt s2) (prv s2) 30 (xs @ ys) 30"
    by (rule lru.remove_node_rev [of s 30 xs b ys 30, OF _ _ _ _ _ _ _ s2]) (use D L in auto)
  have r2: "in_range s2 = in_range s" by (simp add: s2_def s1_def)
  have "dll (nxt (push_head b s2)) (prv (push_head b s2)) 30 (b # xs @ ys) 30"
  proof (rule lru.push_node [OF d2])
    show "push_head b s2 = set_next 30 b (set_prev (nxt s2 30) b (set_prev b 30 (set_next b (nxt s2 30) s2)))"
      using v r2 by (simp add: push_head_def Let_def)
  qed (use D L v r2 in auto)
  moreover have "length (bufs (push_head b s2)) = 31"
    using D(1) by (simp add: push_head_def Let_def s2_def s1_def)
  moreover have "move_front b s = push_head b s2" by (simp add: move_front_def Let_def s1_def s2_def)
  ultimately show ?thesis
    using D(3) L assms r by (auto simp: lru_is_def)
qed

lemma move_front_same:
  "same_buf (bufs (move_front b s) ! i) (bufs s ! i)" "bdisk (move_front b s) = bdisk s"
  "dtrace (move_front b s) = dtrace s" "length (bufs (move_front b s)) = length (bufs s)"
  by (simp_all add: move_front_def push_head_def same_buf_def Let_def)

section \<open>The invariant of the cache\<close>

text \<open>
  Every block of the root device has at most one buffer; a buffer in use belongs to the
  root device; a locked buffer is in use and valid; a valid buffer that is not in use has
  the contents of its block on disk.
\<close>

definition buf_ok :: "(nat \<Rightarrow> block) \<Rightarrow> buf \<Rightarrow> bool" where
  "buf_ok d x \<longleftrightarrow> b_refcnt x < 2 ^ 32 \<and> (0 < b_refcnt x \<longrightarrow> b_dev x = ROOTDEV) \<and>
     (sl_locked (b_lock x) \<longrightarrow> 0 < b_refcnt x \<and> b_valid x) \<and> (b_valid x \<longrightarrow> length (b_data x) = BSIZE) \<and>
     (b_valid x \<and> b_refcnt x = 0 \<and> b_dev x = ROOTDEV \<longrightarrow> b_data x = d (b_blockno x))"

definition bio_ok :: "bio \<Rightarrow> bool" where
  "bio_ok s \<longleftrightarrow> (\<exists>L. lru_is s L) \<and> (\<forall>b. length (bdisk s b) = BSIZE) \<and>
     (\<forall>i < NBUF. buf_ok (bdisk s) (bufs s ! i)) \<and>
     (\<forall>i < NBUF. \<forall>j < NBUF. b_dev (bufs s ! i) = ROOTDEV \<and> b_dev (bufs s ! j) = ROOTDEV \<and>
        b_blockno (bufs s ! i) = b_blockno (bufs s ! j) \<longrightarrow> i = j)"

definition is_buf :: "bio \<Rightarrow> nat \<Rightarrow> nat \<Rightarrow> bool" where
  "is_buf s b i \<longleftrightarrow> b_dev (bufs s ! i) = ROOTDEV \<and> b_blockno (bufs s ! i) = b"

definition buf_of :: "bio \<Rightarrow> nat \<Rightarrow> nat option" where
  "buf_of s b = find (is_buf s b) [0..<NBUF]"

definition refs :: "bio \<Rightarrow> nat \<Rightarrow> nat" where
  "refs s b = (case buf_of s b of None \<Rightarrow> 0 | Some i \<Rightarrow> b_refcnt (bufs s ! i))"

definition view :: "bio \<Rightarrow> nat \<Rightarrow> block" where
  "view s b = (case buf_of s b of None \<Rightarrow> bdisk s b
     | Some i \<Rightarrow> if b_valid (bufs s ! i) then b_data (bufs s ! i) else bdisk s b)"

definition busy :: "bio \<Rightarrow> nat set" where
  "busy s = {b. \<exists>i < NBUF. is_buf s b i \<and> sl_locked (b_lock (bufs s ! i))}"

definition holds :: "int \<Rightarrow> bio \<Rightarrow> nat \<Rightarrow> nat \<Rightarrow> bool" where
  "holds pid s i b \<longleftrightarrow> i < NBUF \<and> is_buf s b i \<and> holdingsleep pid (b_lock (bufs s ! i))"

lemma bio_okD:
  assumes "bio_ok s"
  shows "length (bufs s) = 31" "\<exists>L. lru_is s L" "length (bdisk s b) = BSIZE"
    "i < NBUF \<Longrightarrow> buf_ok (bdisk s) (bufs s ! i)"
    "i < NBUF \<Longrightarrow> j < NBUF \<Longrightarrow> is_buf s b i \<Longrightarrow> is_buf s b j \<Longrightarrow> i = j"
  using assms by (auto simp: bio_ok_def is_buf_def lru_is_def)

lemma buf_of_Some:
  assumes "bio_ok s"
  shows "buf_of s b = Some i \<longleftrightarrow> i < NBUF \<and> is_buf s b i"
proof -
  have "find P [0..<n] = Some i \<longleftrightarrow> i < n \<and> P i \<and> (\<forall>j < i. \<not> P j)" for P n
    by (auto simp: find_Some_iff)
  then show ?thesis
    unfolding buf_of_def using bio_okD(5) [OF assms] by (metis less_trans nat_neq_iff)
qed

lemma buf_of_None: "buf_of s b = None \<longleftrightarrow> (\<forall>i < NBUF. \<not> is_buf s b i)"
  by (auto simp: buf_of_def find_None_iff)

lemma find_lru:
  assumes "bio_ok s" and "lru_is s L"
  shows "find (\<lambda>i. b_dev (bufs s ! i) = ROOTDEV \<and> b_blockno (bufs s ! i) = b) L = buf_of s b"
proof -
  have L: "set L = {..<30}" using assms(2) by (simp add: lru_is_def)
  have e: "(\<lambda>i. b_dev (bufs s ! i) = ROOTDEV \<and> b_blockno (bufs s ! i) = b) = is_buf s b"
    by (simp add: is_buf_def fun_eq_iff)
  show ?thesis
  proof (cases "buf_of s b")
    case None
    then have "find (is_buf s b) L = None" using L by (auto simp: buf_of_None find_None_iff)
    then show ?thesis using None unfolding e by simp
  next
    case (Some i)
    then have i: "i < 30" "is_buf s b i" using buf_of_Some [OF assms(1)] by auto
    obtain j where j: "find (is_buf s b) L = Some j"
      using i L by (cases "find (is_buf s b) L") (auto simp: find_None_iff)
    then have "j \<in> set L" "is_buf s b j" by (auto simp: find_Some_iff)
    then have "j = i" using i L bio_okD(5) [OF assms(1)] by auto
    with j Some show ?thesis unfolding e by simp
  qed
qed

section \<open>Giving a buffer to a block\<close>

text \<open>
  Every operation on one buffer amounts to this assignment, to the buffer the block already
  has or, when it has none, to a buffer nobody uses.
\<close>

definition assign :: "nat \<Rightarrow> nat \<Rightarrow> nat \<Rightarrow> sleeplock \<Rightarrow> block \<Rightarrow> bio \<Rightarrow> bio" where
  "assign i b r lk d s = upd_buf i (\<lambda>x. x\<lparr>b_dev := ROOTDEV, b_blockno := b, b_valid := True,
     b_refcnt := r, b_lock := lk, b_data := d\<rparr>) s"

definition may_assign :: "nat \<Rightarrow> nat \<Rightarrow> bio \<Rightarrow> bool" where
  "may_assign i b s \<longleftrightarrow> i < NBUF \<and> (is_buf s b i \<or> (\<forall>j < NBUF. \<not> is_buf s b j) \<and> b_refcnt (bufs s ! i) = 0)"

lemma assign_rest [simp]:
  "bdisk (assign i b r lk d s) = bdisk s" "dtrace (assign i b r lk d s) = dtrace s"
  "length (bufs (assign i b r lk d s)) = length (bufs s)"
  by (simp_all add: assign_def)

lemma assign_nth:
  "i < length (bufs s) \<Longrightarrow> bufs (assign i b r lk d s) ! j =
     (if j = i then (bufs s ! i)\<lparr>b_dev := ROOTDEV, b_blockno := b, b_valid := True,
        b_refcnt := r, b_lock := lk, b_data := d\<rparr> else bufs s ! j)"
  by (auto simp: assign_def upd_buf_nth)

lemma assign_ok:
  assumes s: "bio_ok s" and m: "may_assign i b s" and r: "r < 2 ^ 32" "length d = BSIZE"
    and l: "sl_locked lk \<Longrightarrow> 0 < r" and z: "r = 0 \<Longrightarrow> d = bdisk s b"
  shows "bio_ok (assign i b r lk d s)"
proof -
  note D = bio_okD [OF s]
  let ?s = "assign i b r lk d s"
  have i: "i < 30" "i < length (bufs s)" using m D(1) by (auto simp: may_assign_def)
  note N = assign_nth [OF i(2)]
  obtain L where "lru_is s L" using D(2) by blast
  then have "lru_is ?s L" by (rule lru_cong) (auto simp: N)
  moreover have "buf_ok (bdisk s) (bufs ?s ! j)" if "j < 30" for j
    using D(4) [OF that] r l z by (auto simp: N buf_ok_def)
  moreover have "j = k" if "j < 30" "k < 30" "b_dev (bufs ?s ! j) = 1" "b_dev (bufs ?s ! k) = 1"
      "b_blockno (bufs ?s ! j) = b_blockno (bufs ?s ! k)" for j k
  proof -
    have free: "x = i" if "x < 30" "b_dev (bufs s ! x) = 1" "b_blockno (bufs s ! x) = b" for x
      using m D(5) [of x i b] i(1) that by (auto simp: may_assign_def is_buf_def)
    consider "j = i" "k = i" | "j = i" "k \<noteq> i" | "j \<noteq> i" "k = i" | "j \<noteq> i" "k \<noteq> i" by blast
    then show ?thesis
    proof cases
      case 2
      then show ?thesis using that free [of k] by (simp add: N)
    next
      case 3
      then show ?thesis using that free [of j] by (simp add: N)
    next
      case 4
      then show ?thesis using that D(5) [of j k "b_blockno (bufs s ! j)"] by (simp add: N is_buf_def)
    qed simp
  qed
  ultimately show ?thesis unfolding bio_ok_def using D(3) by (metis assign_rest(1))
qed

lemma assign_buf_of:
  assumes s: "bio_ok s" and m: "may_assign i b s" and ok: "bio_ok (assign i b r lk d s)"
  shows "buf_of (assign i b r lk d s) b' =
    (if b' = b then Some i else if buf_of s b' = Some i then None else buf_of s b')"
proof -
  note D = bio_okD [OF s]
  let ?s = "assign i b r lk d s"
  have i: "i < 30" "i < length (bufs s)" using m D(1) by (auto simp: may_assign_def)
  have e: "is_buf ?s b' j = (if j = i then b' = b else is_buf s b' j)" for b' j
    by (auto simp: is_buf_def assign_nth [OF i(2)])
  have S: "buf_of ?s b' = Some j \<longleftrightarrow> j < 30 \<and> is_buf ?s b' j" for j b' using buf_of_Some [OF ok] .
  have S0: "buf_of s b' = Some j \<longleftrightarrow> j < 30 \<and> is_buf s b' j" for j b' using buf_of_Some [OF s] .
  consider "b' = b" | "b' \<noteq> b" "buf_of s b' = Some i" | "b' \<noteq> b" "buf_of s b' \<noteq> Some i" by blast
  then show ?thesis
  proof cases
    case 1
    then show ?thesis using S [of b i] i e by auto
  next
    case 2
    then have "is_buf s b' j \<Longrightarrow> j < 30 \<Longrightarrow> j = i" for j using S0 [of b' i] D(5) [of j i b'] by auto
    then have "buf_of ?s b' = None" using 2 by (auto simp: buf_of_None e)
    then show ?thesis using 2 by simp
  next
    case 3
    show ?thesis
    proof (cases "buf_of s b'")
      case None
      then have "buf_of ?s b' = None" using 3 by (auto simp: buf_of_None e)
      then show ?thesis using 3 None by simp
    next
      case (Some j)
      then have "buf_of ?s b' = Some j" using 3 S0 [of b' j] by (auto simp: S e)
      then show ?thesis using 3 Some by simp
    qed
  qed
qed

lemma unused_view:
  assumes "bio_ok s" and "i < NBUF" and "is_buf s b i" and "b_refcnt (bufs s ! i) = 0"
  shows "view s b = bdisk s b" "refs s b = 0" "b \<notin> busy s"
proof -
  have S: "buf_of s b = Some i" using buf_of_Some [OF assms(1)] assms by simp
  have B: "buf_ok (bdisk s) (bufs s ! i)" using bio_okD(4) [OF assms(1,2)] .
  show "view s b = bdisk s b" using S B assms(3,4) by (auto simp: view_def buf_ok_def is_buf_def)
  show "refs s b = 0" using S assms(4) by (simp add: refs_def)
  show "b \<notin> busy s"
    using B assms bio_okD(5) [OF assms(1)] by (auto simp: busy_def buf_ok_def)
qed

lemma assign_effect:
  assumes s: "bio_ok s" and m: "may_assign i b s" and ok: "bio_ok (assign i b r lk d s)"
  shows "refs (assign i b r lk d s) = (refs s)(b := r)"
    and "view (assign i b r lk d s) = (view s)(b := d)"
    and "busy (assign i b r lk d s) = (if sl_locked lk then insert b (busy s) else busy s - {b})"
    and "holds pid (assign i b r lk d s) h b' =
      (if h = i then b' = b \<and> holdingsleep pid lk else holds pid s h b')"
proof -
  note D = bio_okD [OF s]
  let ?s = "assign i b r lk d s"
  have i: "i < 30" "i < length (bufs s)" using m D(1) by (auto simp: may_assign_def)
  note N = assign_nth [OF i(2)] and B = assign_buf_of [OF s m ok]
  have e: "is_buf ?s b' j = (if j = i then b' = b else is_buf s b' j)" for b' j
    by (auto simp: is_buf_def N)
  have evict: "b_refcnt (bufs s ! i) = 0 \<and> is_buf s b' i" if "buf_of s b' = Some i" "b' \<noteq> b" for b'
    using that m buf_of_Some [OF s] by (auto simp: may_assign_def is_buf_def)
  have "refs ?s b' = ((refs s)(b := r)) b'" "view ?s b' = ((view s)(b := d)) b'" for b'
  proof -
    consider "b' = b" | "b' \<noteq> b" "buf_of s b' = Some i" | "b' \<noteq> b" "buf_of s b' \<noteq> Some i" by blast
    then have "refs ?s b' = ((refs s)(b := r)) b' \<and> view ?s b' = ((view s)(b := d)) b'"
    proof cases
      case 1
      then show ?thesis by (simp add: refs_def view_def B N)
    next
      case 2
      have u: "view s b' = bdisk s b'" "refs s b' = 0"
        using unused_view [OF s i(1)] evict [OF 2(2,1)] by simp_all
      have "buf_of ?s b' = None" using 2 B by simp
      then have "refs ?s b' = 0" "view ?s b' = bdisk s b'" by (simp_all add: refs_def view_def)
      then show ?thesis using u 2 by simp
    next
      case 3
      then show ?thesis by (auto simp: refs_def view_def B N split: option.splits)
    qed
    then show "refs ?s b' = ((refs s)(b := r)) b'" "view ?s b' = ((view s)(b := d)) b'" by auto
  qed
  then show "refs ?s = (refs s)(b := r)" "view ?s = (view s)(b := d)" by auto
  have one: "j = i" if "j < 30" "is_buf s b j" for j
    using that m D(5) [of j i b] i by (auto simp: may_assign_def)
  have free: "\<not> sl_locked (b_lock (bufs s ! i))" if "is_buf s b' i" "b' \<noteq> b" for b'
    using that m D(4) [OF i(1)] by (auto simp: may_assign_def is_buf_def buf_ok_def)
  show "busy ?s = (if sl_locked lk then insert b (busy s) else busy s - {b})"
  proof (rule set_eqI)
    fix b'
    have "b' \<in> busy ?s \<longleftrightarrow> (b' = b \<and> sl_locked lk) \<or> (b' \<noteq> b \<and> b' \<in> busy s)"
    proof (cases "b' = b")
      case True
      have "b \<in> busy ?s \<longleftrightarrow> (\<exists>j < 30. (if j = i then True else is_buf s b j) \<and> sl_locked (b_lock (bufs ?s ! j)))"
        by (simp add: busy_def e)
      also have "\<dots> \<longleftrightarrow> sl_locked lk" using one i by (auto simp: N)
      finally show ?thesis using True by simp
    next
      case False
      have "b' \<in> busy ?s \<longleftrightarrow> (\<exists>j < 30. j \<noteq> i \<and> is_buf s b' j \<and> sl_locked (b_lock (bufs s ! j)))"
        using False by (auto simp: busy_def e N)
      also have "\<dots> \<longleftrightarrow> b' \<in> busy s" unfolding busy_def using free [OF _ False] by blast
      finally show ?thesis using False by simp
    qed
    then show "b' \<in> busy ?s \<longleftrightarrow> b' \<in> (if sl_locked lk then insert b (busy s) else busy s - {b})" by auto
  qed
  show "holds pid ?s h b' = (if h = i then b' = b \<and> holdingsleep pid lk else holds pid s h b')"
    using i by (auto simp: holds_def e N)
qed

section \<open>The operations keep the contract\<close>

definition locked_by :: "int \<Rightarrow> sleeplock" where
  "locked_by pid = \<lparr>sl_locked = True, sl_pid = pid\<rparr>"

lemma locked_by_simps [simp]: "sl_locked (locked_by pid)" "holdingsleep pid (locked_by pid)"
  by (simp_all add: locked_by_def holdingsleep_def)

lemma acquiresleep_free: "\<not> sl_locked lk \<Longrightarrow> acquiresleep pid lk = Ok (locked_by pid)"
  by (cases lk) (simp add: acquiresleep_def locked_by_def)

lemma releasesleep_eq: "releasesleep lk = initsleeplock"
  by (cases lk) (simp add: releasesleep_def initsleeplock_def)

lemma initsleeplock_free [simp]: "\<not> sl_locked initsleeplock" "\<not> holdingsleep pid initsleeplock"
  by (simp_all add: initsleeplock_def holdingsleep_def)

lemma holdsD:
  assumes "bio_ok s" and "holds pid s i b"
  shows "i < NBUF" "i < length (bufs s)" "is_buf s b i" "buf_of s b = Some i" "may_assign i b s"
    "b_lock (bufs s ! i) = locked_by pid" "b_valid (bufs s ! i)" "0 < refs s b" "refs s b < 2 ^ 32"
    "b_refcnt (bufs s ! i) = refs s b" "view s b = b_data (bufs s ! i)" "length (view s b) = BSIZE"
proof -
  have i: "i < 30" "is_buf s b i" "sl_locked (b_lock (bufs s ! i))" "sl_pid (b_lock (bufs s ! i)) = pid"
    using assms(2) by (auto simp: holds_def holdingsleep_def)
  have B: "buf_ok (bdisk s) (bufs s ! i)" using bio_okD(4) [OF assms(1) i(1)] .
  show "buf_of s b = Some i" using buf_of_Some [OF assms(1)] i by simp
  then show "b_refcnt (bufs s ! i) = refs s b" "view s b = b_data (bufs s ! i)"
    "0 < refs s b" "refs s b < 2 ^ 32" "length (view s b) = BSIZE" "b_valid (bufs s ! i)"
    using B i by (auto simp: refs_def view_def buf_ok_def)
  show "b_lock (bufs s ! i) = locked_by pid" using i by (simp add: locked_by_def)
  show "may_assign i b s" using i by (simp add: may_assign_def)
qed (use assms bio_okD(1) [OF assms(1)] in \<open>auto simp: holds_def\<close>)

lemma upd_buf_assign:
  assumes "f (bufs s ! i) = (bufs s ! i)\<lparr>b_dev := ROOTDEV, b_blockno := b, b_valid := True,
     b_refcnt := r, b_lock := lk, b_data := d\<rparr>"
  shows "upd_buf i f s = assign i b r lk d s"
  using assms by (simp add: upd_buf_def assign_def)

lemma view_length: "bio_ok s \<Longrightarrow> length (view s b) = BSIZE"
  using bio_okD(3) [of s b] bio_okD(4) [of s] buf_of_Some [of s b]
  by (auto simp: view_def buf_ok_def split: option.splits)

lemma free_buffer:
  assumes s: "bio_ok s" and c: "card {b. 0 < refs s b} < NBUF"
  shows "\<exists>i < NBUF. b_refcnt (bufs s ! i) = 0"
proof (rule ccontr)
  assume "\<not> ?thesis"
  then have u: "0 < b_refcnt (bufs s ! i)" if "i < 30" for i using that by auto
  then have dev: "is_buf s (b_blockno (bufs s ! i)) i" if "i < 30" for i
    using bio_okD(4) [OF s that] that by (auto simp: buf_ok_def is_buf_def)
  have inj: "inj_on (\<lambda>i. b_blockno (bufs s ! i)) {..<30}"
    using dev bio_okD(5) [OF s] by (intro inj_onI) (metis lessThan_iff)
  have sub: "(\<lambda>i. b_blockno (bufs s ! i)) ` {..<30} \<subseteq> {b. 0 < refs s b}"
    using u dev buf_of_Some [OF s] by (auto simp: refs_def split: option.splits)
  have "finite {b. 0 < refs s b}"
  proof (rule finite_subset)
    show "{b. 0 < refs s b} \<subseteq> (\<lambda>i. b_blockno (bufs s ! i)) ` {..<30}"
      using buf_of_Some [OF s] by (auto simp: refs_def is_buf_def split: option.splits)
  qed simp
  then have "card {..<30::nat} \<le> card {b. 0 < refs s b}"
    using card_mono [OF _ sub] card_image [OF inj] by simp
  then show False using c by simp
qed

lemma refs_finite:
  assumes "bio_ok s"
  shows "finite {b. 0 < refs s b}"
proof (rule finite_subset)
  show "{b. 0 < refs s b} \<subseteq> (\<lambda>i. b_blockno (bufs s ! i)) ` {..<30}"
    using buf_of_Some [OF assms] by (auto simp: refs_def is_buf_def split: option.splits)
qed simp

lemma bread_assign:
  assumes s: "bio_ok s" and nb: "b \<notin> busy s" and c: "0 < refs s b \<or> card {b. 0 < refs s b} < NBUF"
    and r: "refs s b < 2 ^ 32 - 1"
  shows "\<exists>i. may_assign i b s \<and>
    bread pid ROOTDEV b s = Ok (i, assign i b (refs s b + 1) (locked_by pid) (view s b) s)"
proof -
  note D = bio_okD [OF s]
  obtain L where L: "lru_is s L" using D(2) by blast
  note S = scan_lru [OF L] and F = find_lru [OF s L]
  have len: "i < length (bufs s)" if "i < 30" for i using that D(1) by simp
  show ?thesis
  proof (cases "buf_of s b")
    case (Some i)
    then have i: "i < 30" "is_buf s b i" using buf_of_Some [OF s] by auto
    then have ul: "\<not> sl_locked (b_lock (bufs s ! i))" using nb by (auto simp: busy_def)
    have rf: "b_refcnt (bufs s ! i) = refs s b" using Some by (simp add: refs_def)
    define x where "x = (bufs s ! i)\<lparr>b_refcnt := refs s b + 1, b_lock := locked_by pid\<rparr>"
    have "bget pid 1 b s = Ok (i, upd_buf i (\<lambda>_. x) s)"
      unfolding bget_def S F Some using ul rf r len [OF i(1)]
      by (simp add: acquire_buf_def acquiresleep_free upd_buf_def x_def)
    then have "bread pid 1 b s = Ok (i, upd_buf i (\<lambda>_. x\<lparr>b_valid := True, b_data := view s b\<rparr>) s)"
      using len [OF i(1)] Some i(2)
      by (cases "bufs s ! i") (auto simp: bread_def upd_buf_def virtio_disk_rw_def x_def view_def is_buf_def)
    also have "upd_buf i (\<lambda>_. x\<lparr>b_valid := True, b_data := view s b\<rparr>) s =
        assign i b (refs s b + 1) (locked_by pid) (view s b) s"
      by (rule upd_buf_assign) (use i(2) in \<open>simp add: x_def is_buf_def\<close>)
    finally show ?thesis using i by (auto simp: may_assign_def)
  next
    case None
    then have r0: "refs s b = 0" "view s b = bdisk s b" by (simp_all add: refs_def view_def)
    obtain j where j: "j < 30" "b_refcnt (bufs s ! j) = 0" using free_buffer [OF s] c r0 by auto
    have "set L = {..<30}" using L by (simp add: lru_is_def)
    then have "find (\<lambda>i. b_refcnt (bufs s ! i) = 0) (rev L) \<noteq> None" using j by (auto simp: find_None_iff)
    then obtain i where i: "find (\<lambda>i. b_refcnt (bufs s ! i) = 0) (rev L) = Some i" by blast
    have i': "i < 30" "b_refcnt (bufs s ! i) = 0" using find_mem [OF i] \<open>set L = {..<30}\<close> by auto
    note i = i i'
    have ul: "\<not> sl_locked (b_lock (bufs s ! i))" using D(4) [OF i(2)] i(3) by (auto simp: buf_ok_def)
    define x where "x = (bufs s ! i)\<lparr>b_dev := 1, b_blockno := b, b_valid := False, b_refcnt := 1, b_lock := locked_by pid\<rparr>"
    have "bget pid 1 b s = Ok (i, upd_buf i (\<lambda>_. x) s)"
      unfolding bget_def S F None i(1) using ul len [OF i(2)]
      by (simp add: acquire_buf_def acquiresleep_free upd_buf_def x_def)
    then have "bread pid 1 b s = Ok (i, upd_buf i (\<lambda>_. x\<lparr>b_valid := True, b_data := view s b\<rparr>) s)"
      using len [OF i(2)] r0 by (cases "bufs s ! i") (simp add: bread_def upd_buf_def virtio_disk_rw_def x_def)
    also have "upd_buf i (\<lambda>_. x\<lparr>b_valid := True, b_data := view s b\<rparr>) s =
        assign i b (refs s b + 1) (locked_by pid) (view s b) s"
      by (rule upd_buf_assign) (simp add: x_def r0)
    finally show ?thesis using i(2,3) None by (auto simp: may_assign_def buf_of_None)
  qed
qed

lemma assign_keep:
  assumes "bio_ok s" and "holds pid s i b"
  shows "s = assign i b (refs s b) (locked_by pid) (view s b) s"
proof -
  note H = holdsD [OF assms]
  have "bufs s ! i = (bufs s ! i)\<lparr>b_dev := 1, b_blockno := b, b_valid := True,
      b_refcnt := refs s b, b_lock := locked_by pid, b_data := view s b\<rparr>"
    using H(3,6,7,10,11) by (cases "bufs s ! i") (simp add: is_buf_def)
  then show ?thesis
    using H(2) by (simp add: assign_def upd_buf_def)
qed

lemma upd_held:
  assumes "bio_ok s" and "holds pid s i b"
    and "\<And>x. b_dev (f x) = b_dev x \<and> b_blockno (f x) = b_blockno x \<and> b_valid (f x) = b_valid x"
    and "b_prev (f (bufs s ! i)) = b_prev (bufs s ! i)" "b_next (f (bufs s ! i)) = b_next (bufs s ! i)"
  shows "upd_buf i f s = assign i b (b_refcnt (f (bufs s ! i))) (b_lock (f (bufs s ! i))) (b_data (f (bufs s ! i))) s"
  by (rule upd_buf_assign)
    (use assms(3) [of "bufs s ! i"] assms(4,5) holdsD(3,7) [OF assms(1,2)] in
      \<open>simp add: is_buf_def buf.equality\<close>)

lemma bwrite_effect:
  assumes s: "bio_ok s" and h: "holds pid s i b"
  shows "\<exists>s'. bwrite pid i s = Ok s' \<and> bio_ok s' \<and> holds pid s' = holds pid s \<and> busy s' = busy s \<and>
    view s' = view s \<and> bdisk s' = (bdisk s)(b := view s b) \<and> dtrace s' = dtrace s @ [(b, view s b)] \<and>
    refs s' = refs s"
proof -
  note H = holdsD [OF s h] and D = bio_okD [OF s]
  define s' where "s' = s\<lparr>bdisk := (bdisk s)(b := view s b), dtrace := dtrace s @ [(b, view s b)]\<rparr>"
  have f: "bufs s' = bufs s" by (simp add: s'_def)
  have "bwrite pid i s = Ok s'"
    using H(3,6,11) by (simp add: bwrite_def virtio_disk_rw_def s'_def is_buf_def Let_def)
  moreover have q0: "is_buf s' = is_buf s" by (simp add: fun_eq_iff is_buf_def f)
  moreover have q: "buf_of s' = buf_of s" by (intro ext) (simp only: buf_of_def q0)
  moreover have db: "bdisk s' = (bdisk s)(b := view s b)" by (simp add: s'_def)
  moreover have "view s' x = view s x" for x
  proof (cases "x = b")
    case True
    then show ?thesis using H(4,7,11) by (simp add: view_def q f)
  next
    case False
    then show ?thesis by (simp add: view_def q f db split: option.split)
  qed
  then have "view s' = view s" by blast
  moreover have "bio_ok s'"
  proof -
    obtain L where "lru_is s L" using D(2) by blast
    then have "lru_is s' L" by (rule lru_cong) (simp_all add: f)
    moreover have "buf_ok (bdisk s') (bufs s ! j)" if "j < 30" for j
      using D(4) [OF that] D(5) [OF that H(1)] H(3,8,10) that
      by (auto simp: buf_ok_def s'_def is_buf_def)
    moreover have "length (bdisk s' c) = 1024" for c using D(3) H(12) by (simp add: s'_def)
    ultimately show ?thesis
      unfolding bio_ok_def f using D(5) unfolding is_buf_def by blast
  qed
  moreover have "holds pid s' = holds pid s" by (intro ext) (simp add: holds_def q0 f)
  moreover have "busy s' = busy s" by (simp add: busy_def q0 f)
  moreover have "refs s' = refs s" by (intro ext) (simp add: refs_def q f split: option.split)
  moreover have "dtrace s' = dtrace s @ [(b, view s b)]" by (simp add: s'_def)
  ultimately show ?thesis by blast
qed

lemma same_bufs_same:
  assumes "\<And>i. same_buf (bufs s' ! i) (bufs s ! i)" and "bdisk s' = bdisk s"
  shows "is_buf s' = is_buf s" "refs s' = refs s" "view s' = view s" "busy s' = busy s" "holds pid s' = holds pid s"
proof -
  have f: "b_dev (bufs s' ! i) = b_dev (bufs s ! i)" "b_blockno (bufs s' ! i) = b_blockno (bufs s ! i)"
    "b_valid (bufs s' ! i) = b_valid (bufs s ! i)" "b_lock (bufs s' ! i) = b_lock (bufs s ! i)"
    "b_refcnt (bufs s' ! i) = b_refcnt (bufs s ! i)" "b_data (bufs s' ! i) = b_data (bufs s ! i)" for i
    using assms(1) [of i] by (simp_all add: same_buf_def)
  show q: "is_buf s' = is_buf s" by (simp add: fun_eq_iff is_buf_def f)
  then have bo: "buf_of s' = buf_of s" by (intro ext) (simp only: buf_of_def)
  show "refs s' = refs s" by (intro ext) (simp add: refs_def bo f split: option.split)
  show "view s' = view s" by (intro ext) (simp add: view_def bo f assms(2) split: option.split)
  show "busy s' = busy s" by (simp add: busy_def q f)
  show "holds pid s' = holds pid s" by (intro ext) (simp add: holds_def q f)
qed

lemma move_front_ok:
  assumes "bio_ok s" and "b < NBUF"
  shows "bio_ok (move_front b s)"
proof -
  let ?s = "move_front b s"
  note D = bio_okD [OF assms(1)]
  obtain L where "lru_is s L" using D(2) by blast
  then have "\<exists>L. lru_is ?s L" using move_front_lru assms(2) by blast
  moreover have "buf_ok (bdisk ?s) (bufs ?s ! j)" if "j < 30" for j
    using D(4) [OF that] move_front_same(1) [of b s j] by (simp add: buf_ok_def same_buf_def move_front_same)
  moreover have "b_dev (bufs ?s ! j) = b_dev (bufs s ! j)" "b_blockno (bufs ?s ! j) = b_blockno (bufs s ! j)" for j
    using move_front_same(1) [of b s j] by (simp_all add: same_buf_def)
  ultimately show ?thesis
    using assms(1) unfolding bio_ok_def by (simp add: move_front_same(2))
qed

lemma brelse_effect:
  assumes s: "bio_ok s" and h: "holds pid s i b" and c: "1 < refs s b \<or> view s b = bdisk s b"
  shows "\<exists>s'. brelse pid i s = Ok s' \<and> bio_ok s' \<and> (\<forall>h' b'. h' \<noteq> i \<longrightarrow> holds pid s' h' b' = holds pid s h' b') \<and>
    busy s' = busy s - {b} \<and> view s' = view s \<and> bdisk s' = bdisk s \<and> dtrace s' = dtrace s \<and>
    refs s' = (refs s)(b := refs s b - 1)"
proof -
  note H = holdsD [OF s h]
  let ?a = "assign i b (refs s b - 1) initsleeplock (view s b) s"
  have ok: "bio_ok ?a" by (rule assign_ok [OF s H(5)]) (use H c in auto)
  note E = assign_effect [OF s H(5) ok]
  have dec: "(refs s b + 2 ^ 32 - 1) mod 2 ^ 32 = refs s b - 1"
    using dec32 H(8,9) by simp
  let ?u = "upd_buf i (\<lambda>x. x\<lparr>b_refcnt := (b_refcnt x + 2 ^ 32 - 1) mod 2 ^ 32\<rparr>)
     (upd_buf i (\<lambda>x. x\<lparr>b_lock := releasesleep (b_lock x)\<rparr>) s)"
  have u: "?u = ?a"
  proof -
    have "?u = upd_buf i (\<lambda>x. x\<lparr>b_lock := initsleeplock, b_refcnt := refs s b - 1\<rparr>) s"
      using H(2,10) dec by (simp add: upd_buf_def releasesleep_eq)
    also have "\<dots> = ?a"
      using upd_held [OF s h, of "\<lambda>x. x\<lparr>b_lock := initsleeplock, b_refcnt := refs s b - 1\<rparr>"] H(11) by simp
    finally show ?thesis .
  qed
  have cnt: "b_refcnt (bufs ?a ! i) = refs s b - 1" using H(2) by (simp add: assign_nth)
  have eq: "brelse pid i s = Ok (if refs s b - 1 = 0 then move_front i ?a else ?a)"
    using H(6) unfolding brelse_def Let_def u cnt by (simp add: move_front_def Let_def)
  define s' where "s' = (if refs s b - 1 = 0 then move_front i ?a else ?a)"
  have q: "refs (move_front i ?a) = refs ?a" "view (move_front i ?a) = view ?a"
    "busy (move_front i ?a) = busy ?a" "holds pid (move_front i ?a) = holds pid ?a"
    by (rule same_bufs_same; simp add: move_front_same)+
  have or: "s' = move_front i ?a \<or> s' = ?a" unfolding s'_def by presburger
  have "bio_ok s'" using or move_front_ok [OF ok H(1)] ok by metis
  moreover have k: "refs s' = refs ?a" "view s' = view ?a" "busy s' = busy ?a" "holds pid s' = holds pid ?a"
    using or q by metis+
  moreover have "bdisk s' = bdisk s" "dtrace s' = dtrace s"
    using or move_front_same(2,3) assign_rest(1,2) by metis+
  moreover have "\<forall>h' b'. h' \<noteq> i \<longrightarrow> holds pid s' h' b' = holds pid s h' b'" unfolding k E(4) by auto
  moreover have "view s' = view s" "refs s' = (refs s)(b := refs s b - 1)" "busy s' = busy s - {b}"
    unfolding k E by simp_all
  ultimately show ?thesis using eq [folded s'_def] by blast
qed

lemma held_block: "holds pid s h b \<Longrightarrow> holds pid s h b' \<longleftrightarrow> b' = b"
  by (auto simp: holds_def is_buf_def)

lemma bread_effect:
  assumes s: "bio_ok s" and "b \<notin> busy s" and "0 < refs s b \<or> card {b. 0 < refs s b} < NBUF"
    and r: "refs s b < 2 ^ 32 - 1"
  shows "\<exists>h s'. bread pid ROOTDEV b s = Ok (h, s') \<and> bio_ok s' \<and> holds pid s' h b \<and>
    busy s' = insert b (busy s) \<and> (\<forall>h' b'. holds pid s h' b' \<longrightarrow> holds pid s' h' b') \<and> view s' = view s \<and>
    bdisk s' = bdisk s \<and> dtrace s' = dtrace s \<and> refs s' = (refs s)(b := refs s b + 1)"
proof -
  obtain i where m: "may_assign i b s" and
    e: "bread pid ROOTDEV b s = Ok (i, assign i b (refs s b + 1) (locked_by pid) (view s b) s)"
    using bread_assign [OF assms] by blast
  let ?a = "assign i b (refs s b + 1) (locked_by pid) (view s b) s"
  have ok: "bio_ok ?a" by (rule assign_ok [OF s m]) (use r view_length [OF s] in auto)
  note E = assign_effect [OF s m ok]
  have other: "h' \<noteq> i" if h: "holds pid s h' b'" for h' b'
  proof
    assume "h' = i"
    with holdsD(1,3,8,10) [OF s h] m have "is_buf s b i" by (auto simp: may_assign_def)
    with holdsD(3,6) [OF s h] \<open>h' = i\<close> holdsD(1) [OF s h] assms(2) show False by (auto simp: busy_def)
  qed
  have "\<forall>h' b'. holds pid s h' b' \<longrightarrow> holds pid ?a h' b'" using other unfolding E(4) by auto
  moreover have "view ?a = view s" unfolding E(2) by simp
  moreover have "busy ?a = insert b (busy s)" "refs ?a = (refs s)(b := refs s b + 1)" "holds pid ?a i b"
    unfolding E by simp_all
  ultimately show ?thesis using e ok assign_rest(1,2) by blast
qed

lemma recount_effect:
  assumes s: "bio_ok s" and h: "holds pid s i b" and r: "0 < r" "r < 2 ^ 32"
    and u: "s' = upd_buf i (\<lambda>x. x\<lparr>b_refcnt := r\<rparr>) s"
  shows "bio_ok s' \<and> holds pid s' = holds pid s \<and> busy s' = busy s \<and> view s' = view s \<and>
    bdisk s' = bdisk s \<and> dtrace s' = dtrace s \<and> refs s' = (refs s)(b := r)"
proof -
  note H = holdsD [OF s h]
  have a: "s' = assign i b r (locked_by pid) (view s b) s"
    using upd_held [OF s h, of "\<lambda>x. x\<lparr>b_refcnt := r\<rparr>"] H by (simp add: u)
  have ok: "bio_ok s'" unfolding a by (rule assign_ok [OF s H(5)]) (use H r in auto)
  note E = assign_effect [OF s H(5) ok [unfolded a], folded a]
  have "b \<in> busy s" using H(1,3,6) by (auto simp: busy_def)
  then have "busy s' = busy s" unfolding E by auto
  moreover have "holds pid s' = holds pid s" unfolding E(4) fun_eq_iff using held_block [OF h] by auto
  moreover have "view s' = view s" "refs s' = (refs s)(b := r)" unfolding E by auto
  ultimately show ?thesis using ok by (simp add: a)
qed

interpretation cache: buffer_cache bio_ok NBUF "\<lambda>d. length d = BSIZE" "holds pid" busy refs view bdisk dtrace
    data set_data "bread pid ROOTDEV" "bwrite pid" "brelse pid" bpin bunpin
  for pid
proof (unfold_locales, goal_cases)
  case (1 s h b)
  then show ?case using holdsD(1,3,6) [OF 1] by (auto simp: busy_def)
next
  case (2 s h b h' b')
  then show ?case
    using holdsD(1,3) [OF 2(1,2)] holdsD(1,3) [OF 2(1,3)] bio_okD(5) [OF 2(1)] by (auto simp: is_buf_def)
next
  case (3 s h b)
  then show ?case by (rule holdsD(8))
next
  case (4 s b)
  show ?case
  proof (cases "buf_of s b")
    case None
    then show ?thesis by (simp add: view_def)
  next
    case (Some i)
    then have "i < NBUF" "is_buf s b i" "b_refcnt (bufs s ! i) = 0"
      using 4 buf_of_Some [OF 4(1), of b i] by (simp_all add: refs_def)
    then show ?thesis by (rule unused_view(1) [OF 4(1)])
  qed
next
  case (5 s b)
  then show ?case by (rule view_length)
next
  case (6 s h b)
  then show ?case using holdsD(11) [OF 6] by (simp add: data_def)
next
  case (7 s b)
  then show ?case by (rule bread_effect)
next
  case (8 s h b d)
  note H = holdsD [OF 8(1,2)]
  let ?a = "assign h b (refs s b) (locked_by pid) d s"
  have u: "set_data h d s = ?a"
    using upd_held [OF 8(1,2), of "\<lambda>x. x\<lparr>b_data := d\<rparr>"] H by (simp add: set_data_def)
  have ok: "bio_ok ?a" by (rule assign_ok [OF 8(1) H(5)]) (use H 8(3) in auto)
  note E = assign_effect [OF 8(1) H(5) ok]
  have "b \<in> busy s" using H(1,3,6) by (auto simp: busy_def)
  moreover have "holds pid ?a = holds pid s"
    unfolding E(4) fun_eq_iff using held_block [OF 8(2)] by auto
  ultimately show ?case using ok by (simp add: u E insert_absorb fun_eq_iff)
next
  case (9 s h b)
  then show ?case by (rule bwrite_effect)
next
  case (10 s h b)
  then show ?case by (rule brelse_effect)
next
  case (11 s h b)
  note H = holdsD [OF 11(1,2)]
  show ?case
    by (rule recount_effect [OF 11(1,2)]) (use 11(3) H in \<open>simp_all add: bpin_def upd_buf_def\<close>)
next
  case (12 s h b)
  note H = holdsD [OF 12(1,2)]
  show ?case
    by (rule recount_effect [OF 12(1,2)])
      (use 12(3) H dec32 [OF H(8,9)] in \<open>simp_all add: bunpin_def upd_buf_def\<close>)
qed

section \<open>Boot\<close>

definition unused :: "buf \<Rightarrow> bool" where
  "unused x \<longleftrightarrow> \<not> b_valid x \<and> b_dev x = 0 \<and> b_refcnt x = 0"

lemma binit_step:
  assumes d: "dll (nxt s) (prv s) 30 xs 30" "distinct xs" "b \<notin> set xs" "set xs \<subseteq> {..<30}" "b < 30"
    and l: "length (bufs s) = 31"
    and s': "s' = (let s = set_next b (nxt s HEAD) s; s = set_prev b HEAD s;
                      s = upd_buf b (\<lambda>x. x\<lparr>b_lock := initsleeplock\<rparr>) s; s = set_prev (nxt s HEAD) b s
                  in set_next HEAD b s)"
  shows "dll (nxt s') (prv s') 30 (b # xs) 30"
    and "length (bufs s') = 31" "bdisk s' = bdisk s" "dtrace s' = dtrace s"
    and "\<forall>i. unused (bufs s ! i) \<longrightarrow> unused (bufs s' ! i)"
    and "\<forall>i. b_lock (bufs s' ! i) = (if i = b then initsleeplock else b_lock (bufs s ! i))"
proof -
  define t where "t = set_next 30 b (set_prev (nxt s 30) b (set_prev b 30 (set_next b (nxt s 30) s)))"
  have t: "dll (nxt t) (prv t) 30 (b # xs) 30"
    by (rule lru.push_node [OF d(1) d(2) _ _ _ _ _ _ _ t_def]) (use d l in \<open>auto simp: in_range_def\<close>)
  have r: "in_range s b" "in_range s 30" using d(5) l by (auto simp: in_range_def)
  have lk: "nxt (upd_buf b (\<lambda>x. x\<lparr>b_lock := initsleeplock\<rparr>) u) = nxt u"
    "prv (upd_buf b (\<lambda>x. x\<lparr>b_lock := initsleeplock\<rparr>) u) = prv u"
    "in_range (upd_buf b (\<lambda>x. x\<lparr>b_lock := initsleeplock\<rparr>) u) = in_range u" for u
    by (auto simp: nxt_def prv_def in_range_def upd_buf_nth fun_eq_iff)
  have hd: "nxt s 30 \<in> insert 30 (set xs)" using dll_first [OF d(1)] by (cases xs) auto
  then have "in_range s (nxt s 30)" using d(4) l by (auto simp: in_range_def)
  then have "nxt s' = nxt t" "prv s' = prv t"
    using r d(5) by (simp_all add: s' t_def Let_def lk)
  with t show "dll (nxt s') (prv s') 30 (b # xs) 30" by simp
  show "length (bufs s') = 31" "bdisk s' = bdisk s" "dtrace s' = dtrace s"
    using l by (simp_all add: s' Let_def)
  show "\<forall>i. unused (bufs s ! i) \<longrightarrow> unused (bufs s' ! i)"
    by (simp add: s' Let_def unused_def upd_buf_nth)
  show "\<forall>i. b_lock (bufs s' ! i) = (if i = b then initsleeplock else b_lock (bufs s ! i))"
    using d(5) l by (simp add: s' Let_def upd_buf_nth)
qed

lemma binit_loop_ok:
  assumes "dll (nxt s) (prv s) 30 (rev [0..<n]) 30" and "n \<le> 30" and "length (bufs s) = 31"
    and "\<forall>i < 30. unused (bufs s ! i)" and "\<forall>i < n. b_lock (bufs s ! i) = initsleeplock"
  shows "\<exists>s'. binit_loop [n..<30] s = s' \<and> dll (nxt s') (prv s') 30 (rev [0..<30]) 30 \<and>
    length (bufs s') = 31 \<and> bdisk s' = bdisk s \<and> dtrace s' = dtrace s \<and>
    (\<forall>i < 30. unused (bufs s' ! i) \<and> b_lock (bufs s' ! i) = initsleeplock)"
  using assms
proof (induction "30 - n" arbitrary: n s)
  case 0
  then show ?case by auto
next
  case (Suc k)
  then have n: "n < 30" "[n..<30] = n # [Suc n..<30]" by (auto simp: upt_conv_Cons)
  define t where "t = (let s = set_next n (nxt s HEAD) s; s = set_prev n HEAD s;
                      s = upd_buf n (\<lambda>x. x\<lparr>b_lock := initsleeplock\<rparr>) s; s = set_prev (nxt s HEAD) n s
                  in set_next HEAD n s)"
  note B = binit_step [OF Suc.prems(1) _ _ _ n(1) Suc.prems(3) t_def, simplified]
  have nb: "set [0..<n] \<subseteq> {..<30}" using Suc.prems(2) by auto
  have "\<exists>s'. binit_loop [Suc n..<30] t = s' \<and> dll (nxt s') (prv s') 30 (rev [0..<30]) 30 \<and>
    length (bufs s') = 31 \<and> bdisk s' = bdisk t \<and> dtrace s' = dtrace t \<and>
    (\<forall>i < 30. unused (bufs s' ! i) \<and> b_lock (bufs s' ! i) = initsleeplock)"
    by (rule Suc.hyps(1)) (use Suc B nb n in \<open>auto simp: less_Suc_eq\<close>)
  then show ?case using B nb n by (auto simp: t_def)
qed

lemma binit_ok:
  assumes "length (bufs s) = 31" and "\<forall>i < 30. unused (bufs s ! i)" and "\<forall>b. length (bdisk s b) = BSIZE"
  shows "bio_ok (binit s)" "bdisk (binit s) = bdisk s" "dtrace (binit s) = dtrace s"
    "refs (binit s) b = 0" "view (binit s) = bdisk s" "busy (binit s) = {}"
proof -
  let ?t = "set_next 30 30 (set_prev 30 30 s)"
  have r: "in_range s 30" using assms(1) by (simp add: in_range_def)
  then have "dll (nxt ?t) (prv ?t) 30 (rev [0..<0]) 30" by simp
  moreover have "\<forall>i < 30. unused (bufs ?t ! i)" using assms(2) by (simp add: unused_def)
  ultimately obtain s' where s': "binit_loop [0..<30] ?t = s'" "dll (nxt s') (prv s') 30 (rev [0..<30]) 30"
      "length (bufs s') = 31" "bdisk s' = bdisk ?t" "dtrace s' = dtrace ?t"
      "\<forall>i < 30. unused (bufs s' ! i) \<and> b_lock (bufs s' ! i) = initsleeplock"
    using binit_loop_ok [of ?t 0] assms(1) by auto
  have e: "binit s = s'" using s'(1) by (simp add: binit_def)
  have "lru_is s' (rev [0..<30])" using s'(2,3) by (auto simp: lru_is_def)
  moreover have "buf_ok (bdisk s') (bufs s' ! i)" if "i < 30" for i
    using s'(6) that by (simp add: buf_ok_def unused_def)
  moreover have no: "\<not> is_buf s' b i" if "i < 30" for i b using s'(6) that by (simp add: is_buf_def unused_def)
  ultimately show "bio_ok (binit s)"
    unfolding e bio_ok_def using assms(3) s'(4,6) by (auto simp: unused_def)
  show "bdisk (binit s) = bdisk s" "dtrace (binit s) = dtrace s" using s'(4,5) by (simp_all add: e)
  have "buf_of s' b = None" for b using no by (simp add: buf_of_None)
  then show "refs (binit s) b = 0" "view (binit s) = bdisk s"
    using s'(4) by (simp_all add: e refs_def view_def fun_eq_iff)
  show "busy (binit s) = {}" using no by (auto simp: e busy_def)
qed

end
