(* ===== verification/Bytes.thy ===== *)
theory Bytes
  imports Prelude
begin

text \<open>
  Little-endian integers inside byte arrays, as the kernel reads and writes the fields of
  structures it lays over a disk block (\<^verbatim>\<open>struct logheader\<close>, \<^verbatim>\<open>struct dinode\<close>,
  \<^verbatim>\<open>struct dirent\<close>, indirect blocks). A field of \<open>n\<close> bytes is a natural number; a value
  that is stored is reduced to its low \<open>n\<close> bytes.
\<close>

fun le_nat :: "u8 list \<Rightarrow> nat" where
  "le_nat [] = 0"
| "le_nat (b # bs) = unat b + 256 * le_nat bs"

fun nat_le :: "nat \<Rightarrow> nat \<Rightarrow> u8 list" where
  "nat_le 0 v = []"
| "nat_le (Suc n) v = word_of_nat v # nat_le n (v div 256)"

definition get_le :: "nat \<Rightarrow> nat \<Rightarrow> u8 list \<Rightarrow> nat" where
  "get_le n i bs = le_nat (take n (drop i bs))"

definition put_le :: "nat \<Rightarrow> nat \<Rightarrow> nat \<Rightarrow> u8 list \<Rightarrow> u8 list" where
  "put_le n i v bs = take i bs @ nat_le n v @ drop (i + n) bs"

lemma length_nat_le [simp]: "length (nat_le n v) = n"
  by (induction n arbitrary: v) simp_all

lemma le_nat_nat_le: "le_nat (nat_le n v) = v mod 256 ^ n"
proof (induction n arbitrary: v)
  case (Suc n)
  have "unat (word_of_nat v :: u8) = v mod 256" by (simp add: unat_of_nat)
  with Suc show ?case by (simp add: mod_mult2_eq)
qed simp

lemma nat_le_le_nat: "nat_le (length bs) (le_nat bs) = bs"
proof (induction bs)
  case (Cons b bs)
  have "unat b < 256" by (rule unat_u8_less)
  then have "(unat b + 256 * le_nat bs) div 256 = le_nat bs" by simp
  moreover have "(word_of_nat (unat b + 256 * le_nat bs) :: u8) = b"
  proof -
    have "unat (word_of_nat (unat b + 256 * le_nat bs) :: u8) = unat b"
      using \<open>unat b < 256\<close> by (simp only: unat_of_nat) simp
    then show ?thesis by (simp only: word_unat_eq_iff)
  qed
  ultimately show ?case using Cons by simp
qed simp

lemma le_nat_bound: "le_nat bs < 256 ^ length bs"
proof (induction bs)
  case (Cons b bs)
  have "unat b < 256" by (rule unat_u8_less)
  with Cons show ?case by simp
qed simp

lemma length_put_le [simp]: "i + n \<le> length bs \<Longrightarrow> length (put_le n i v bs) = length bs"
  by (simp add: put_le_def)

lemma get_put_same: "i + n \<le> length bs \<Longrightarrow> get_le n i (put_le n i v bs) = v mod 256 ^ n"
  by (simp add: get_le_def put_le_def le_nat_nat_le)

lemma get_put_other:
  assumes "i + n \<le> length bs" and "j + m \<le> i \<or> i + n \<le> j"
  shows "get_le m j (put_le n i v bs) = get_le m j bs"
proof -
  have "take m (drop j (put_le n i v bs)) = take m (drop j bs)"
    by (rule nth_equalityI) (use assms in \<open>auto simp: put_le_def nth_append\<close>)
  then show ?thesis by (simp add: get_le_def)
qed

lemma get_le_bound: "get_le n i bs < 256 ^ n"
proof -
  have "get_le n i bs < 256 ^ length (take n (drop i bs))" by (simp only: get_le_def le_nat_bound)
  also have "\<dots> \<le> 256 ^ n" by (rule power_increasing) simp_all
  finally show ?thesis .
qed

lemma put_get_id: "i + n \<le> length bs \<Longrightarrow> put_le n i (get_le n i bs) bs = bs"
proof -
  assume a: "i + n \<le> length bs"
  then have "nat_le n (le_nat (take n (drop i bs))) = take n (drop i bs)"
    using nat_le_le_nat [of "take n (drop i bs)"] by simp
  with a show ?thesis
    by (simp add: put_le_def get_le_def) (metis add.commute append_take_drop_id drop_drop)
qed

text \<open>A signed 32-bit field.\<close>

definition get_int :: "nat \<Rightarrow> u8 list \<Rightarrow> int" where
  "get_int i bs = s32 (int (get_le 4 i bs))"

definition put_int :: "nat \<Rightarrow> int \<Rightarrow> u8 list \<Rightarrow> u8 list" where
  "put_int i x bs = put_le 4 i (nat (x mod 2 ^ 32)) bs"

lemma length_put_int [simp]: "i + 4 \<le> length bs \<Longrightarrow> length (put_int i x bs) = length bs"
  by (simp add: put_int_def)

lemma get_put_int: "i + 4 \<le> length bs \<Longrightarrow> get_int i (put_int i x bs) = s32 x"
proof -
  assume a: "i + 4 \<le> length bs"
  have "int (nat (x mod 2 ^ 32) mod 256 ^ 4) = x mod 2 ^ 32"
  proof -
    have "nat (x mod 2 ^ 32) < 2 ^ 32" by (simp add: nat_less_iff)
    then show ?thesis by simp
  qed
  then have "get_int i (put_int i x bs) = s32 (x mod 2 ^ 32)"
    using a by (simp add: get_int_def put_int_def get_put_same)
  also have "\<dots> = s32 x" by (simp add: s32_def mod_add_left_eq)
  finally show ?thesis .
qed

lemma get_put_int_other:
  "i + 4 \<le> length bs \<Longrightarrow> j + 4 \<le> i \<or> i + 4 \<le> j \<Longrightarrow> get_int j (put_int i x bs) = get_int j bs"
  by (simp add: get_int_def put_int_def get_put_other)

end
