(* ===== verification/Log.thy ===== *)
theory Log
  imports Bio Bytes
begin

text \<open>
  The write-ahead log of the file system (\<^verbatim>\<open>kernel/log.c\<close>), on the buffer cache of
  \<^verbatim>\<open>Bio\<close>. \<^verbatim>\<open>struct logheader\<close> lies over a disk block: the count in its first four
  bytes, then thirty block numbers. Sections under \<^verbatim>\<open>log.lock\<close> are atomic. \<open>pid\<close> is the
  calling process.
\<close>

section \<open>Data\<close>

abbreviation (input) LOGSIZE :: nat where "LOGSIZE \<equiv> 30"
abbreviation (input) MAXOPBLOCKS :: nat where "MAXOPBLOCKS \<equiv> 10"

record fs =
  fbio :: bio
  lg_start :: nat
  lg_size :: int
  outstanding :: int
  committing :: bool
  lg_dev :: nat
  lh_n :: int
  lh_block :: "nat list"

section \<open>Operations\<close>

fun install_loop :: "int \<Rightarrow> bool \<Rightarrow> nat list \<Rightarrow> fs \<Rightarrow> fs res" where
  "install_loop pid recovering [] s = Ok s"
| "install_loop pid recovering (tail # ts) s =
     bind_res (bread pid (lg_dev s) (lg_start s + tail + 1) (fbio s)) (\<lambda>(lbuf, b).
     bind_res (bread pid (lg_dev s) (lh_block s ! tail) b) (\<lambda>(dbuf, b).
     bind_res (bwrite pid dbuf (set_data dbuf (data b lbuf) b)) (\<lambda>b.
     bind_res (brelse pid lbuf (if \<not> recovering then bunpin dbuf b else b)) (\<lambda>b.
     bind_res (brelse pid dbuf b) (\<lambda>b.
     install_loop pid recovering ts (s\<lparr>fbio := b\<rparr>))))))"

definition install_trans :: "int \<Rightarrow> bool \<Rightarrow> fs \<Rightarrow> fs res" where
  "install_trans pid recovering s = install_loop pid recovering [0..<nat (lh_n s)] s"

text \<open>
  \<^verbatim>\<open>read_head\<close> copies as many block numbers as the header says; for more than the array
  has room for, the loop of the source runs over the end of \<^verbatim>\<open>log.lh.block\<close>, which C leaves undefined. The
  model stops there with an error of its own; no property speaks of what happens after it.
\<close>

definition read_head :: "int \<Rightarrow> fs \<Rightarrow> fs res" where
  "read_head pid s =
     bind_res (bread pid (lg_dev s) (lg_start s) (fbio s)) (\<lambda>(buf, b).
     let n = get_int 0 (data b buf);
         blocks = map (\<lambda>i. get_le 4 (4 + 4 * i) (data b buf)) [0..<nat n]
     in if n > int LOGSIZE then Panic ''log.lh.block: index out of bounds''
        else bind_res (brelse pid buf b) (\<lambda>b.
          Ok (s\<lparr>fbio := b, lh_n := n, lh_block := blocks @ drop (nat n) (lh_block s)\<rparr>)))"

fun put_blocks :: "nat list \<Rightarrow> nat list \<Rightarrow> block \<Rightarrow> block" where
  "put_blocks [] bl d = d"
| "put_blocks (i # is) bl d = put_blocks is bl (put_le 4 (4 + 4 * i) (bl ! i) d)"

definition write_head :: "int \<Rightarrow> fs \<Rightarrow> fs res" where
  "write_head pid s =
     bind_res (bread pid (lg_dev s) (lg_start s) (fbio s)) (\<lambda>(buf, b).
     let hb = put_blocks [0..<nat (lh_n s)] (lh_block s) (put_int 0 (lh_n s) (data b buf))
     in bind_res (bwrite pid buf (set_data buf hb b)) (\<lambda>b.
        bind_res (brelse pid buf b) (\<lambda>b. Ok (s\<lparr>fbio := b\<rparr>))))"

definition recover_from_log :: "int \<Rightarrow> fs \<Rightarrow> fs res" where
  "recover_from_log pid s =
     bind_res (read_head pid s) (\<lambda>s.
     bind_res (install_trans pid True s) (\<lambda>s.
     write_head pid (s\<lparr>lh_n := 0\<rparr>)))"

definition initlog :: "int \<Rightarrow> nat \<Rightarrow> nat \<Rightarrow> nat \<Rightarrow> fs \<Rightarrow> fs res" where
  "initlog pid dev logstart nlog s =
     (if 4 + 4 * LOGSIZE \<ge> BSIZE then Panic ''initlog: too big logheader''
      else recover_from_log pid (s\<lparr>lg_start := logstart, lg_size := int nlog, lg_dev := dev\<rparr>))"

definition begin_op :: "fs \<Rightarrow> fs res" where
  "begin_op s =
     (if committing s then Sleeps
      else if lh_n s + (outstanding s + 1) * int MAXOPBLOCKS > int LOGSIZE then Sleeps
      else Ok (s\<lparr>outstanding := outstanding s + 1\<rparr>))"

fun write_log_loop :: "int \<Rightarrow> nat list \<Rightarrow> fs \<Rightarrow> fs res" where
  "write_log_loop pid [] s = Ok s"
| "write_log_loop pid (tail # ts) s =
     bind_res (bread pid (lg_dev s) (lg_start s + tail + 1) (fbio s)) (\<lambda>(to, b).
     bind_res (bread pid (lg_dev s) (lh_block s ! tail) b) (\<lambda>(from, b).
     bind_res (bwrite pid to (set_data to (data b from) b)) (\<lambda>b.
     bind_res (brelse pid from b) (\<lambda>b.
     bind_res (brelse pid to b) (\<lambda>b.
     write_log_loop pid ts (s\<lparr>fbio := b\<rparr>))))))"

definition write_log :: "int \<Rightarrow> fs \<Rightarrow> fs res" where
  "write_log pid s = write_log_loop pid [0..<nat (lh_n s)] s"

definition commit :: "int \<Rightarrow> fs \<Rightarrow> fs res" where
  "commit pid s =
     (if lh_n s > 0 then
        bind_res (write_log pid s) (\<lambda>s.
        bind_res (write_head pid s) (\<lambda>s.
        bind_res (install_trans pid False s) (\<lambda>s.
        write_head pid (s\<lparr>lh_n := 0\<rparr>))))
      else Ok s)"

definition end_op :: "int \<Rightarrow> fs \<Rightarrow> fs res" where
  "end_op pid s =
     (let s = s\<lparr>outstanding := outstanding s - 1\<rparr>
      in if committing s then Panic ''log.committing''
         else if outstanding s = 0 then
           bind_res (commit pid (s\<lparr>committing := True\<rparr>)) (\<lambda>s. Ok (s\<lparr>committing := False\<rparr>))
         else Ok s)"

definition log_index :: "nat \<Rightarrow> fs \<Rightarrow> nat" where
  "log_index blockno s =
     length (takeWhile (\<lambda>x. x \<noteq> blockno) (take (nat (lh_n s)) (lh_block s)))"

definition log_write :: "nat \<Rightarrow> fs \<Rightarrow> fs res" where
  "log_write b s =
     (if lh_n s \<ge> int LOGSIZE \<or> lh_n s \<ge> lg_size s - 1 then Panic ''too big a transaction''
      else if outstanding s < 1 then Panic ''log_write outside of trans''
      else
        let blockno = b_blockno (bufs (fbio s) ! b);
            i = log_index blockno s;
            s = s\<lparr>lh_block := (lh_block s)[i := blockno]\<rparr>
        in Ok (if int i = lh_n s then s\<lparr>fbio := bpin b (fbio s), lh_n := lh_n s + 1\<rparr> else s))"

section \<open>The header block\<close>

definition header :: "int \<Rightarrow> nat list \<Rightarrow> block \<Rightarrow> block" where
  "header n bl d = put_blocks [0..<nat n] bl (put_int 0 n d)"

definition hdr_n :: "block \<Rightarrow> int" where "hdr_n d = get_int 0 d"

definition hdr_blocks :: "block \<Rightarrow> nat list" where
  "hdr_blocks d = map (\<lambda>i. get_le 4 (4 + 4 * i) d) [0..<nat (hdr_n d)]"

lemma put_blocks_length:
  "length d = BSIZE \<Longrightarrow> \<forall>i \<in> set is. i < LOGSIZE \<Longrightarrow> length (put_blocks is bl d) = BSIZE"
  by (induction "is" arbitrary: d) simp_all

lemma put_blocks_other:
  assumes "length d = BSIZE" and "\<forall>i \<in> set is. i < LOGSIZE" and "j + m \<le> 4 \<or> (\<forall>i \<in> set is. 8 + 4 * i \<le> j \<or> j + m \<le> 4 + 4 * i)"
  shows "get_le m j (put_blocks is bl d) = get_le m j d"
  using assms
proof (induction "is" arbitrary: d)
  case (Cons i "is")
  then have "get_le m j (put_blocks is bl (put_le 4 (4 + 4 * i) (bl ! i) d)) =
      get_le m j (put_le 4 (4 + 4 * i) (bl ! i) d)"
    by (intro Cons.IH) auto
  also have "\<dots> = get_le m j d" by (rule get_put_other) (use Cons.prems in auto)
  finally show ?case by simp
qed simp

lemma put_blocks_get:
  assumes "length d = BSIZE" and "\<forall>i \<in> set is. i < LOGSIZE" and "distinct is" and "i \<in> set is"
    and "bl ! i < 2 ^ 32"
  shows "get_le 4 (4 + 4 * i) (put_blocks is bl d) = bl ! i"
  using assms
proof (induction "is" arbitrary: d)
  case (Cons j "is")
  let ?d = "put_le 4 (4 + 4 * j) (bl ! j) d"
  have d: "length ?d = BSIZE" using Cons.prems by simp
  show ?case
  proof (cases "i = j")
    case True
    have "get_le 4 (4 + 4 * i) (put_blocks is bl ?d) = get_le 4 (4 + 4 * i) ?d"
    proof (rule put_blocks_other [OF d])
      have "8 + 4 * k \<le> 4 + 4 * i \<or> 4 + 4 * i + 4 \<le> 4 + 4 * k" if "k \<in> set is" for k
      proof -
        have "k \<noteq> i" using Cons.prems(3) True that by auto
        then show ?thesis by linarith
      qed
      then show "4 + 4 * i + 4 \<le> 4 \<or> (\<forall>k \<in> set is. 8 + 4 * k \<le> 4 + 4 * i \<or> 4 + 4 * i + 4 \<le> 4 + 4 * k)"
        by blast
    qed (use Cons.prems in auto)
    also have "\<dots> = bl ! i" using get_put_same [of "4 + 4 * i" 4 d] Cons.prems True by simp
    finally show ?thesis by simp
  next
    case False
    then show ?thesis using Cons.IH [OF d] Cons.prems by simp
  qed
qed simp

lemma header_decode:
  assumes "length d = BSIZE" and "0 \<le> n" "n \<le> int LOGSIZE" and "\<forall>i < nat n. bl ! i < 2 ^ 32"
  shows "hdr_n (header n bl d) = n" "hdr_blocks (header n bl d) = map (\<lambda>i. bl ! i) [0..<nat n]"
    "length (header n bl d) = BSIZE"
proof -
  let ?d = "put_int 0 n d"
  have d: "length ?d = BSIZE" using assms(1) by simp
  have i: "\<forall>i \<in> set [0..<nat n]. i < LOGSIZE" using assms(3) by auto
  show "length (header n bl d) = BSIZE" using put_blocks_length [OF d i] by (simp add: header_def)
  have "get_le 4 0 (put_blocks [0..<nat n] bl ?d) = get_le 4 0 ?d"
    by (rule put_blocks_other [OF d i]) simp
  then have "get_int 0 (header n bl d) = get_int 0 ?d" by (simp add: get_int_def header_def)
  also have "\<dots> = n" using get_put_int [of 0 d n] s32_id [of n] assms by simp
  finally show n: "hdr_n (header n bl d) = n" by (simp add: hdr_n_def)
  have "get_le 4 (4 + 4 * i) (put_blocks [0..<nat n] bl ?d) = bl ! i" if "i < nat n" for i
    by (rule put_blocks_get [OF d i]) (use assms(4) that in auto)
  then show "hdr_blocks (header n bl d) = map (\<lambda>i. bl ! i) [0..<nat n]"
    unfolding hdr_blocks_def n by (simp add: header_def)
qed

end
