(* ===== verification/Log_Crash.thy ===== *)
theory Log_Crash
  imports Log
begin

text \<open>
  Crash safety of the log. The disk is written one block at a time, and each block write is
  atomic; a crash keeps the writes of a prefix of the write trace. Recovery boots with an
  empty cache (\<^verbatim>\<open>binit\<close>) and runs \<^verbatim>\<open>recover_from_log\<close>. Whatever the prefix, the home
  blocks after recovery are those before the transaction or those after it.
\<close>

section \<open>Sequences of disk writes\<close>

fun apply_writes :: "(nat \<times> 'd) list \<Rightarrow> (nat \<Rightarrow> 'd) \<Rightarrow> nat \<Rightarrow> 'd" where
  "apply_writes [] f = f"
| "apply_writes ((b, d) # ws) f = apply_writes ws (f(b := d))"

lemma apply_writes_append: "apply_writes (ws @ vs) f = apply_writes vs (apply_writes ws f)"
  by (induction ws arbitrary: f) auto

lemma apply_writes_other: "b \<notin> fst ` set ws \<Longrightarrow> apply_writes ws f b = f b"
  by (induction ws arbitrary: f) auto

lemma apply_writes_in:
  "distinct (map fst ws) \<Longrightarrow> (b, d) \<in> set ws \<Longrightarrow> apply_writes ws f b = d"
  by (induction ws arbitrary: f) (auto simp: apply_writes_other image_iff)

section \<open>The steps of the log\<close>

definition quiet_cache :: "bio \<Rightarrow> bool" where
  "quiet_cache b \<longleftrightarrow> bio_ok b \<and> busy b = {} \<and> card {c. 0 < refs b c} < NBUF \<and> (\<forall>c. refs b c < 2 ^ 32 - 1)"

lemma quiet_fewer_refs:
  assumes "quiet_cache b" and "bio_ok b'" "busy b' = {}" "\<And>c. refs b' c \<le> refs b c"
  shows "quiet_cache b'"
proof -
  have "{c. 0 < refs b' c} \<subseteq> {c. 0 < refs b c}" using assms(4) by (auto intro: less_le_trans)
  then have "card {c. 0 < refs b' c} \<le> card {c. 0 < refs b c}"
    using refs_finite assms(1) by (intro card_mono) (auto simp: quiet_cache_def)
  moreover have "refs b' c < 2 ^ 32 - 1" for c
    using assms(1) assms(4) [of c] unfolding quiet_cache_def by (meson le_less_trans)
  ultimately show ?thesis using assms by (simp add: quiet_cache_def)
qed

definition log_writes :: "fs \<Rightarrow> nat list \<Rightarrow> (nat \<times> block) list" where
  "log_writes s ts = map (\<lambda>t. (lg_start s + t + 1, view (fbio s) (lh_block s ! t))) ts"

definition home_writes :: "fs \<Rightarrow> nat list \<Rightarrow> (nat \<times> block) list" where
  "home_writes s ts = map (\<lambda>t. (lh_block s ! t, view (fbio s) (lg_start s + t + 1))) ts"

lemma write_log_loop_ok:
  assumes "quiet_cache (fbio s)" and "lg_dev s = ROOTDEV"
    and "\<forall>t \<in> set ts. 0 < refs (fbio s) (lh_block s ! t)"
    and "\<forall>t \<in> set ts. \<forall>u \<in> set ts. lh_block s ! t \<noteq> lg_start s + u + 1"
  shows "\<exists>b'. write_log_loop pid ts s = Ok (s\<lparr>fbio := b'\<rparr>) \<and> quiet_cache b' \<and> refs b' = refs (fbio s) \<and>
    view b' = apply_writes (log_writes s ts) (view (fbio s)) \<and>
    bdisk b' = apply_writes (log_writes s ts) (bdisk (fbio s)) \<and>
    dtrace b' = dtrace (fbio s) @ log_writes s ts"
  using assms
proof (induction ts arbitrary: s)
  case Nil
  then show ?case by (intro exI [of _ "fbio s"]) (simp add: log_writes_def)
next
  case (Cons t ts)
  let ?a = "lh_block s ! t" and ?b = "lg_start s + t + 1" and ?B = "fbio s"
  have q: "bio_ok ?B" "busy ?B = {}" "card {c. 0 < refs ?B c} < NBUF" "\<And>c. refs ?B c < 2 ^ 32 - 1"
    using Cons.prems(1) by (auto simp: quiet_cache_def)
  obtain ha hb s1 s2 s3 s4 s' where c: "bread pid ROOTDEV ?b ?B = Ok (hb, s1)" "bread pid ROOTDEV ?a s1 = Ok (ha, s2)"
      "bwrite pid hb (set_data hb (data s2 ha) s2) = Ok s3" "brelse pid ha s3 = Ok s4" "brelse pid hb s4 = Ok s'"
      "bio_ok s'" "busy s' = busy ?B" "refs s' = refs ?B" "view s' = (view ?B)(?b := view ?B ?a)"
      "bdisk s' = (bdisk ?B)(?b := view ?B ?a)" "dtrace s' = dtrace ?B @ [(?b, view ?B ?a)]"
    using cache.copy_block_into [OF q(1), of ?a ?b pid] q Cons.prems(3,4) by auto
  have "quiet_cache s'" using quiet_fewer_refs [OF Cons.prems(1) c(6)] c(7,8) q(2) by simp
  then obtain b' where b': "write_log_loop pid ts (s\<lparr>fbio := s'\<rparr>) = Ok (s\<lparr>fbio := b'\<rparr>)" "quiet_cache b'"
      "refs b' = refs s'" "view b' = apply_writes (log_writes (s\<lparr>fbio := s'\<rparr>) ts) (view s')"
      "bdisk b' = apply_writes (log_writes (s\<lparr>fbio := s'\<rparr>) ts) (bdisk s')"
      "dtrace b' = dtrace s' @ log_writes (s\<lparr>fbio := s'\<rparr>) ts"
    using Cons.IH [of "s\<lparr>fbio := s'\<rparr>"] Cons.prems c(8) by auto
  have w: "log_writes (s\<lparr>fbio := s'\<rparr>) ts = log_writes s ts"
    using Cons.prems(4) c(9) by (auto simp: log_writes_def)
  have "write_log_loop pid (t # ts) s = Ok (s\<lparr>fbio := b'\<rparr>)"
    using c(1-5) b'(1) Cons.prems(2) by simp
  then show ?case
    using b' c by (intro exI [of _ b']) (simp add: w, simp add: log_writes_def)
qed

lemma install_loop_ok:
  assumes "quiet_cache (fbio s)" and "lg_dev s = ROOTDEV" and "distinct (map (\<lambda>t. lh_block s ! t) ts)"
    and "\<forall>t \<in> set ts. \<forall>u \<in> set ts. lh_block s ! t \<noteq> lg_start s + u + 1"
    and "if rec then \<forall>c. refs (fbio s) c = 0 else \<forall>t \<in> set ts. 0 < refs (fbio s) (lh_block s ! t)"
  shows "\<exists>b'. install_loop pid rec ts s = Ok (s\<lparr>fbio := b'\<rparr>) \<and> quiet_cache b' \<and>
    (\<forall>c. refs b' c = (if \<not> rec \<and> c \<in> (\<lambda>t. lh_block s ! t) ` set ts then refs (fbio s) c - 1 else refs (fbio s) c)) \<and>
    view b' = apply_writes (home_writes s ts) (view (fbio s)) \<and>
    bdisk b' = apply_writes (home_writes s ts) (bdisk (fbio s)) \<and>
    dtrace b' = dtrace (fbio s) @ home_writes s ts"
  using assms
proof (induction ts arbitrary: s)
  case Nil
  then show ?case by (intro exI [of _ "fbio s"]) (simp add: home_writes_def)
next
  case (Cons t ts)
  let ?b = "lh_block s ! t" and ?a = "lg_start s + t + 1" and ?B = "fbio s"
  have q: "bio_ok ?B" "busy ?B = {}" "card {c. 0 < refs ?B c} < NBUF" "\<And>c. refs ?B c < 2 ^ 32 - 1"
    using Cons.prems(1) by (auto simp: quiet_cache_def)
  have rb: "0 < refs ?B ?b \<or> card {c. 0 < refs ?B c \<or> c = ?a} < NBUF"
    using Cons.prems(5) by (cases rec) auto
  have ne: "?a \<noteq> ?b" using Cons.prems(4) by force
  obtain ha hb s1 s2 s3 s4 s' where c: "bread pid ROOTDEV ?a ?B = Ok (ha, s1)" "bread pid ROOTDEV ?b s1 = Ok (hb, s2)"
      "bwrite pid hb (set_data hb (data s2 ha) s2) = Ok s3"
      "brelse pid ha (if \<not> rec then bunpin hb s3 else s3) = Ok s4" "brelse pid hb s4 = Ok s'"
      "bio_ok s'" "busy s' = busy ?B" "refs s' = (if \<not> rec then (refs ?B)(?b := refs ?B ?b - 1) else refs ?B)"
      "view s' = (view ?B)(?b := view ?B ?a)"
      "bdisk s' = (bdisk ?B)(?b := view ?B ?a)" "dtrace s' = dtrace ?B @ [(?b, view ?B ?a)]"
    using cache.copy_block [OF q(1) ne, where pid = pid and p = "\<not> rec"] q rb Cons.prems(5) by (auto split: if_splits)
  have q': "quiet_cache s'" using quiet_fewer_refs [OF Cons.prems(1) c(6)] c(7,8) q(2) by simp
  have "lh_block s ! u \<noteq> ?b" if "u \<in> set ts" for u
  proof -
    have "lh_block s ! u \<in> set (map (\<lambda>t. lh_block s ! t) ts)" using that by simp
    then show ?thesis using Cons.prems(3) by auto
  qed
  then have r': "if rec then \<forall>c. refs s' c = 0 else \<forall>t \<in> set ts. 0 < refs s' (lh_block s ! t)"
    using Cons.prems(5) c(8) by (auto split: if_splits)
  obtain b' where b': "install_loop pid rec ts (s\<lparr>fbio := s'\<rparr>) = Ok (s\<lparr>fbio := b'\<rparr>)" "quiet_cache b'"
      "\<And>c. refs b' c = (if \<not> rec \<and> c \<in> (\<lambda>t. lh_block s ! t) ` set ts then refs s' c - 1 else refs s' c)"
      "view b' = apply_writes (home_writes (s\<lparr>fbio := s'\<rparr>) ts) (view s')"
      "bdisk b' = apply_writes (home_writes (s\<lparr>fbio := s'\<rparr>) ts) (bdisk s')"
      "dtrace b' = dtrace s' @ home_writes (s\<lparr>fbio := s'\<rparr>) ts"
    using Cons.IH [of "s\<lparr>fbio := s'\<rparr>"] Cons.prems q' r' by (cases rec) auto
  have w: "home_writes (s\<lparr>fbio := s'\<rparr>) ts = home_writes s ts"
    using Cons.prems(4) c(9) by (auto simp: home_writes_def)
  have "install_loop pid rec (t # ts) s = Ok (s\<lparr>fbio := b'\<rparr>)"
    using c(1-5) b'(1) Cons.prems(2) by simp
  moreover have "refs b' x = (if \<not> rec \<and> x \<in> (\<lambda>t. lh_block s ! t) ` set (t # ts) then refs ?B x - 1 else refs ?B x)" for x
    using b'(3) [of x] c(8) Cons.prems(3) by auto
  ultimately show ?case
    using b' c by (intro exI [of _ b']) (simp add: w, simp add: home_writes_def)
qed

lemma write_head_ok:
  assumes "quiet_cache (fbio s)" and "lg_dev s = ROOTDEV" and "lh_n s \<le> int LOGSIZE"
  shows "\<exists>b'. write_head pid s = Ok (s\<lparr>fbio := b'\<rparr>) \<and> quiet_cache b' \<and> refs b' = refs (fbio s) \<and>
    (let h = header (lh_n s) (lh_block s) (view (fbio s) (lg_start s))
     in view b' = (view (fbio s))(lg_start s := h) \<and> bdisk b' = (bdisk (fbio s))(lg_start s := h) \<and>
        dtrace b' = dtrace (fbio s) @ [(lg_start s, h)])"
proof -
  let ?B = "fbio s" and ?b = "lg_start s" and ?f = "header (lh_n s) (lh_block s)"
  have q: "bio_ok ?B" "busy ?B = {}" "card {c. 0 < refs ?B c} < NBUF" "\<And>c. refs ?B c < 2 ^ 32 - 1"
    using assms(1) by (auto simp: quiet_cache_def)
  have f: "length (?f d) = BSIZE" if "length d = BSIZE" for d
    using put_blocks_length [of "put_int 0 (lh_n s) d" "[0..<nat (lh_n s)]"] that assms(3)
    by (simp add: header_def) fastforce
  obtain h s1 s2 s' where c: "bread pid ROOTDEV ?b ?B = Ok (h, s1)"
      "bwrite pid h (set_data h (?f (data s1 h)) s1) = Ok s2" "brelse pid h s2 = Ok s'" "bio_ok s'"
      "busy s' = busy ?B" "refs s' = refs ?B" "view s' = (view ?B)(?b := ?f (view ?B ?b))"
      "bdisk s' = (bdisk ?B)(?b := ?f (view ?B ?b))" "dtrace s' = dtrace ?B @ [(?b, ?f (view ?B ?b))]"
    using cache.write_through [OF q(1), of ?b ?f pid] q f by auto
  have "quiet_cache s'" using quiet_fewer_refs [OF assms(1) c(4)] c(5,6) q(2) by simp
  moreover have "write_head pid s = Ok (s\<lparr>fbio := s'\<rparr>)"
    using c(1-3) assms(2) by (simp add: write_head_def Let_def header_def)
  ultimately show ?thesis using c by (intro exI [of _ s']) (simp add: Let_def)
qed

section \<open>Commit\<close>

definition logged :: "fs \<Rightarrow> nat list" where
  "logged s = take (nat (lh_n s)) (lh_block s)"

text \<open>
  A transaction ready to commit: no buffer is locked and one is free; between 1 and 30
  blocks below \<open>2^32\<close> are logged, each once, pinned, and none of them in the log itself,
  whose blocks nobody refers to.
\<close>

definition log_ready :: "fs \<Rightarrow> bool" where
  "log_ready s \<longleftrightarrow> quiet_cache (fbio s) \<and> lg_dev s = ROOTDEV \<and> 0 < lh_n s \<and> lh_n s \<le> int LOGSIZE \<and>
     length (lh_block s) = LOGSIZE \<and> distinct (logged s) \<and>
     (\<forall>b \<in> set (logged s). b < 2 ^ 32 \<and> (b < lg_start s \<or> lg_start s + nat (lh_n s) < b) \<and>
        0 < refs (fbio s) b) \<and>
     (\<forall>i \<le> nat (lh_n s). refs (fbio s) (lg_start s + i) = 0)"

definition commit_header :: "fs \<Rightarrow> block" where
  "commit_header s = header (lh_n s) (lh_block s) (bdisk (fbio s) (lg_start s))"

definition new_home :: "fs \<Rightarrow> nat list \<Rightarrow> (nat \<times> block) list" where
  "new_home s ts = map (\<lambda>t. (lh_block s ! t, view (fbio s) (lh_block s ! t))) ts"

definition commit_writes :: "fs \<Rightarrow> (nat \<times> block) list" where
  "commit_writes s =
     log_writes s [0..<nat (lh_n s)] @ [(lg_start s, commit_header s)] @
     new_home s [0..<nat (lh_n s)] @ [(lg_start s, header 0 (lh_block s) (commit_header s))]"

lemma log_readyD:
  assumes "log_ready s"
  shows "quiet_cache (fbio s)" "lg_dev s = ROOTDEV" "0 < lh_n s" "lh_n s \<le> int LOGSIZE"
    "length (lh_block s) = LOGSIZE" "map (\<lambda>t. lh_block s ! t) [0..<nat (lh_n s)] = logged s" "distinct (logged s)"
    "t < nat (lh_n s) \<Longrightarrow> lh_block s ! t < 2 ^ 32" "t < nat (lh_n s) \<Longrightarrow> 0 < refs (fbio s) (lh_block s ! t)"
    "t < nat (lh_n s) \<Longrightarrow> lh_block s ! t < lg_start s \<or> lg_start s + nat (lh_n s) < lh_block s ! t"
    "i \<le> nat (lh_n s) \<Longrightarrow> view (fbio s) (lg_start s + i) = bdisk (fbio s) (lg_start s + i)"
    "bio_ok (fbio s)"
proof -
  note A = assms [unfolded log_ready_def]
  show "map (\<lambda>t. lh_block s ! t) [0..<nat (lh_n s)] = logged s"
    by (rule nth_equalityI) (use A in \<open>auto simp: logged_def\<close>)
  have "lh_block s ! t \<in> set (logged s)" if "t < nat (lh_n s)" for t
    using that A by (auto simp: logged_def in_set_conv_nth intro!: exI [of _ t])
  with A show "t < nat (lh_n s) \<Longrightarrow> lh_block s ! t < 2 ^ 32" "t < nat (lh_n s) \<Longrightarrow> 0 < refs (fbio s) (lh_block s ! t)"
    "t < nat (lh_n s) \<Longrightarrow> lh_block s ! t < lg_start s \<or> lg_start s + nat (lh_n s) < lh_block s ! t"
    by blast+
  show ok: "bio_ok (fbio s)" using A by (simp add: quiet_cache_def)
  show "view (fbio s) (lg_start s + i) = bdisk (fbio s) (lg_start s + i)" if "i \<le> nat (lh_n s)"
    using cache.unreferenced [OF ok] A that by blast
qed (use assms in \<open>auto simp: log_ready_def\<close>)

lemma commit_ok:
  assumes r: "log_ready s"
  shows "\<exists>b'. commit pid s = Ok (s\<lparr>lh_n := 0, fbio := b'\<rparr>) \<and> quiet_cache b' \<and>
    dtrace b' = dtrace (fbio s) @ commit_writes s \<and>
    bdisk b' = apply_writes (commit_writes s) (bdisk (fbio s)) \<and>
    (\<forall>b. b < lg_start s \<or> lg_start s + nat (lh_n s) < b \<longrightarrow> view b' b = view (fbio s) b)"
proof -
  note D = log_readyD [OF r]
  let ?ts = "[0..<nat (lh_n s)]" and ?st = "lg_start s"
  have sep: "\<forall>t \<in> set ?ts. \<forall>u \<in> set ?ts. lh_block s ! t \<noteq> ?st + u + 1"
  proof (intro ballI)
    fix t u assume "t \<in> set ?ts" "u \<in> set ?ts"
    then show "lh_block s ! t \<noteq> ?st + u + 1" using D(10) [of t] by auto
  qed
  have pinned: "\<forall>t \<in> set ?ts. 0 < refs (fbio s) (lh_block s ! t)" using D(9) by auto
  obtain b1 where b1: "write_log_loop pid ?ts s = Ok (s\<lparr>fbio := b1\<rparr>)" "quiet_cache b1" "refs b1 = refs (fbio s)"
      "view b1 = apply_writes (log_writes s ?ts) (view (fbio s))"
      "bdisk b1 = apply_writes (log_writes s ?ts) (bdisk (fbio s))" "dtrace b1 = dtrace (fbio s) @ log_writes s ?ts"
    using write_log_loop_ok [OF D(1,2) pinned sep] by blast
  have lw: "fst ` set (log_writes s ?ts) \<subseteq> {?st + 1..?st + nat (lh_n s)}" by (auto simp: log_writes_def)
  have vstart: "view b1 ?st = bdisk (fbio s) ?st"
    using D(11) [of 0] lw by (subst b1(4), subst apply_writes_other) auto
  obtain b2 where b2: "write_head pid (s\<lparr>fbio := b1\<rparr>) = Ok (s\<lparr>fbio := b2\<rparr>)" "quiet_cache b2" "refs b2 = refs b1"
      "view b2 = (view b1)(?st := commit_header s)" "bdisk b2 = (bdisk b1)(?st := commit_header s)"
      "dtrace b2 = dtrace b1 @ [(?st, commit_header s)]"
    using write_head_ok [of "s\<lparr>fbio := b1\<rparr>" pid] b1(2) D(2,4) by (auto simp: Let_def vstart commit_header_def)
  have dist: "distinct (map (\<lambda>t. lh_block s ! t) ?ts)" using D(6,7) by simp
  obtain b3 where b3: "install_loop pid False ?ts (s\<lparr>fbio := b2\<rparr>) = Ok (s\<lparr>fbio := b3\<rparr>)" "quiet_cache b3"
      "view b3 = apply_writes (home_writes (s\<lparr>fbio := b2\<rparr>) ?ts) (view b2)"
      "bdisk b3 = apply_writes (home_writes (s\<lparr>fbio := b2\<rparr>) ?ts) (bdisk b2)"
      "dtrace b3 = dtrace b2 @ home_writes (s\<lparr>fbio := b2\<rparr>) ?ts"
    using install_loop_ok [of "s\<lparr>fbio := b2\<rparr>" ?ts False pid] b2 b1(3) D(2) dist sep pinned by auto
  have inj: "distinct (map fst (log_writes s ?ts))" by (simp add: log_writes_def distinct_map inj_on_def o_def)
  have logv: "view b2 (?st + t + 1) = view (fbio s) (lh_block s ! t)" if "t < nat (lh_n s)" for t
    using apply_writes_in [OF inj] that by (simp add: b2(4) b1(4)) (auto simp: log_writes_def)
  have hw: "home_writes (s\<lparr>fbio := b2\<rparr>) ?ts = new_home s ?ts"
    using logv by (auto simp: home_writes_def new_home_def)
  have nh: "fst ` set (new_home s ?ts) = set (logged s)"
    unfolding D(6) [symmetric] by (force simp: new_home_def)
  have st: "?st \<notin> set (logged s)" using r by (auto simp: log_ready_def)
  have v3: "view b3 ?st = commit_header s"
    unfolding b3(3) hw using apply_writes_other [of ?st "new_home s ?ts"] nh st b2(4) by simp
  obtain b4 where b4: "write_head pid (s\<lparr>fbio := b3, lh_n := 0\<rparr>) = Ok (s\<lparr>lh_n := 0, fbio := b4\<rparr>)" "quiet_cache b4"
      "view b4 = (view b3)(?st := header 0 (lh_block s) (commit_header s))"
      "bdisk b4 = (bdisk b3)(?st := header 0 (lh_block s) (commit_header s))"
      "dtrace b4 = dtrace b3 @ [(?st, header 0 (lh_block s) (commit_header s))]"
    using write_head_ok [of "s\<lparr>fbio := b3, lh_n := 0\<rparr>" pid] b3(2) D(2) by (auto simp: Let_def v3)
  have "commit pid s = Ok (s\<lparr>lh_n := 0, fbio := b4\<rparr>)"
    using D(3) b1(1) b2(1) b3(1) b4(1) by (simp add: commit_def write_log_def install_trans_def)
  moreover have "dtrace b4 = dtrace (fbio s) @ commit_writes s"
    by (simp add: b4 b3 b2 b1 hw commit_writes_def)
  moreover have "bdisk b4 = apply_writes (commit_writes s) (bdisk (fbio s))"
    by (simp add: b4 b3 b2 b1 hw commit_writes_def apply_writes_append)
  moreover have "view b4 b = view (fbio s) b" if b: "b < ?st \<or> ?st + nat (lh_n s) < b" for b
  proof -
    have "b \<notin> fst ` set (log_writes s ?ts)" using b lw by auto
    then have b12: "b \<noteq> ?st" "view b1 b = view (fbio s) b"
      using b apply_writes_other by (auto simp: b1(4))
    have "view b3 b = view (fbio s) b"
    proof (cases "b \<in> set (logged s)")
      case True
      then obtain t where "t < nat (lh_n s)" "b = lh_block s ! t" unfolding D(6) [symmetric] by auto
      then show ?thesis
        unfolding b3(3) hw using dist
        by (intro apply_writes_in) (auto simp: new_home_def o_def)
    next
      case False
      then show ?thesis unfolding b3(3) hw using apply_writes_other [of b "new_home s ?ts"] nh b12 b2(4) by simp
    qed
    then show ?thesis using b12 b4(3) by simp
  qed
  ultimately show ?thesis using b4(2) by blast
qed

section \<open>Recovery\<close>

definition zero_buf :: buf where
  "zero_buf = \<lparr>b_valid = False, b_dev = 0, b_blockno = 0, b_lock = initsleeplock, b_refcnt = 0,
     b_prev = 0, b_next = 0, b_data = replicate BSIZE 0\<rparr>"

text \<open>The kernel's state when it has booted from a disk and \<^verbatim>\<open>binit\<close> has run.\<close>

definition booted :: "(nat \<Rightarrow> block) \<Rightarrow> fs" where
  "booted d = \<lparr>fbio = binit \<lparr>bufs = replicate (NBUF + 1) zero_buf, bdisk = d, dtrace = []\<rparr>,
     lg_start = 0, lg_size = 0, outstanding = 0, committing = False, lg_dev = 0, lh_n = 0,
     lh_block = replicate LOGSIZE 0\<rparr>"

definition recover :: "int \<Rightarrow> nat \<Rightarrow> nat \<Rightarrow> (nat \<Rightarrow> block) \<Rightarrow> fs res" where
  "recover pid start nlog d = initlog pid ROOTDEV start nlog (booted d)"

text \<open>A disk whose log header is one that \<^verbatim>\<open>write_head\<close> may have written.\<close>

definition log_disk :: "nat \<Rightarrow> (nat \<Rightarrow> block) \<Rightarrow> bool" where
  "log_disk start d \<longleftrightarrow> (\<forall>b. length (d b) = BSIZE) \<and> 0 \<le> hdr_n (d start) \<and> hdr_n (d start) \<le> int LOGSIZE \<and>
     distinct (hdr_blocks (d start)) \<and>
     (\<forall>b \<in> set (hdr_blocks (d start)). b < start \<or> start + nat (hdr_n (d start)) < b)"

definition recover_writes :: "nat \<Rightarrow> (nat \<Rightarrow> block) \<Rightarrow> (nat \<times> block) list" where
  "recover_writes start d =
     map (\<lambda>t. (hdr_blocks (d start) ! t, d (start + t + 1))) [0..<nat (hdr_n (d start))]"

lemma booted_quiet:
  assumes "\<forall>b. length (d b) = BSIZE"
  shows "quiet_cache (fbio (booted d))" "bdisk (fbio (booted d)) = d" "view (fbio (booted d)) = d"
    "refs (fbio (booted d)) b = 0" "dtrace (fbio (booted d)) = []"
proof -
  let ?z = "\<lparr>bufs = replicate (NBUF + 1) zero_buf, bdisk = d, dtrace = []\<rparr>"
  have u: "length (bufs ?z) = 31" "\<forall>i < 30. unused (bufs ?z ! i)" "\<forall>b. length (bdisk ?z b) = BSIZE"
    using assms by (auto simp: unused_def zero_buf_def nth_Cons')
  note B = binit_ok [OF u]
  show "quiet_cache (fbio (booted d))" using B by (simp add: booted_def quiet_cache_def)
  show "bdisk (fbio (booted d)) = d" "view (fbio (booted d)) = d"
    "refs (fbio (booted d)) b = 0" "dtrace (fbio (booted d)) = []"
    using B by (simp_all add: booted_def)
qed

lemma length_hdr_blocks [simp]: "length (hdr_blocks d) = nat (hdr_n d)"
  by (simp add: hdr_blocks_def)

lemma recover_writes_fst: "map fst (recover_writes start d) = hdr_blocks (d start)"
    "fst ` set (recover_writes start d) = set (hdr_blocks (d start))"
proof -
  show m: "map fst (recover_writes start d) = hdr_blocks (d start)"
    by (rule nth_equalityI) (auto simp: recover_writes_def)
  show "fst ` set (recover_writes start d) = set (hdr_blocks (d start))"
    using m by (metis set_map)
qed

lemma recover_ok:
  assumes "log_disk start d"
  shows "\<exists>s' h. recover pid start nlog d = Ok s' \<and> hdr_n h = 0 \<and> length h = BSIZE \<and>
    dtrace (fbio s') = recover_writes start d @ [(start, h)] \<and>
    bdisk (fbio s') = apply_writes (recover_writes start d @ [(start, h)]) d"
proof -
  let ?n = "hdr_n (d start)" and ?bl = "hdr_blocks (d start)"
  have L: "\<forall>b. length (d b) = BSIZE" "0 \<le> ?n" "?n \<le> int LOGSIZE" "distinct ?bl"
    "\<And>b. b \<in> set ?bl \<Longrightarrow> b < start \<or> start + nat ?n < b"
    using assms by (auto simp: log_disk_def)
  note Q = booted_quiet [OF L(1)]
  define s0 where "s0 = (booted d)\<lparr>lg_start := start, lg_size := int nlog, lg_dev := ROOTDEV\<rparr>"
  have q0: "bio_ok (fbio s0)" "busy (fbio s0) = {}" "card {c. 0 < refs (fbio s0) c} < NBUF"
    "\<And>c. refs (fbio s0) c = 0" "view (fbio s0) = d" "bdisk (fbio s0) = d" "dtrace (fbio s0) = []"
    using Q by (auto simp: s0_def quiet_cache_def)
  obtain h s1 b1 where p: "bread pid ROOTDEV start (fbio s0) = Ok (h, s1)" "data s1 h = d start"
      "brelse pid h s1 = Ok b1" "bio_ok b1" "busy b1 = {}" "view b1 = d" "bdisk b1 = d" "dtrace b1 = []"
      "refs b1 = refs (fbio s0)"
    using cache.peek [OF q0(1), of start pid] q0 by auto
  define s2 where "s2 = s0\<lparr>fbio := b1, lh_n := ?n, lh_block := ?bl @ drop (nat ?n) (replicate LOGSIZE 0)\<rparr>"
  have rd: "read_head pid s0 = Ok s2"
    using p(1-3) L(3) by (simp add: read_head_def Let_def s2_def hdr_n_def hdr_blocks_def)
      (simp add: s0_def booted_def)
  have q2: "quiet_cache b1" using p q0 by (simp add: quiet_cache_def)
  have nth: "lh_block s2 ! t = ?bl ! t" if "t < nat ?n" for t using that by (simp add: s2_def nth_append)
  let ?ts = "[0..<nat ?n]"
  have sep: "\<forall>t \<in> set ?ts. \<forall>u \<in> set ?ts. lh_block s2 ! t \<noteq> lg_start s2 + u + 1"
  proof (intro ballI)
    fix t u assume "t \<in> set ?ts" "u \<in> set ?ts"
    then show "lh_block s2 ! t \<noteq> lg_start s2 + u + 1"
      using L(5) [of "?bl ! t"] nth [of t] by (auto simp: s2_def s0_def)
  qed
  have "map (\<lambda>t. lh_block s2 ! t) ?ts = ?bl" by (rule nth_equalityI) (auto simp: nth)
  then have dist: "distinct (map (\<lambda>t. lh_block s2 ! t) ?ts)" using L(4) by simp
  have hw: "home_writes s2 ?ts = recover_writes start d"
    by (auto simp: home_writes_def recover_writes_def nth) (simp_all add: s2_def s0_def p(6))
  obtain b3 where b3: "install_loop pid True ?ts s2 = Ok (s2\<lparr>fbio := b3\<rparr>)" "quiet_cache b3"
      "view b3 = apply_writes (recover_writes start d) d"
      "bdisk b3 = apply_writes (recover_writes start d) d" "dtrace b3 = recover_writes start d"
    using install_loop_ok [of s2 ?ts True pid] q2 dist sep p q0(4) hw by (auto simp: s2_def s0_def)
  obtain b4 where b4: "write_head pid (s2\<lparr>fbio := b3, lh_n := 0\<rparr>) = Ok (s2\<lparr>lh_n := 0, fbio := b4\<rparr>)"
      "bdisk b4 = (bdisk b3)(start := header 0 (lh_block s2) (view b3 start))"
      "dtrace b4 = dtrace b3 @ [(start, header 0 (lh_block s2) (view b3 start))]"
    using write_head_ok [of "s2\<lparr>fbio := b3, lh_n := 0\<rparr>" pid] b3(2) by (auto simp: Let_def s2_def s0_def)
  have "start \<notin> fst ` set (recover_writes start d)" using L(5) [of start] by (auto simp: recover_writes_fst)
  then have v: "view b3 start = d start" using b3(3) apply_writes_other by metis
  have H: "hdr_n (header 0 (lh_block s2) (d start)) = 0" "length (header 0 (lh_block s2) (d start)) = BSIZE"
    using header_decode [of "d start" 0 "lh_block s2"] L(1) by auto
  have n2: "lh_n s2 = ?n" by (simp add: s2_def)
  have r0: "recover pid start nlog d = recover_from_log pid s0" by (simp add: recover_def initlog_def s0_def)
  have "recover pid start nlog d = Ok (s2\<lparr>lh_n := 0, fbio := b4\<rparr>)"
    unfolding r0 recover_from_log_def rd bind_res.simps install_trans_def n2 b3(1) using b4(1) by simp
  then show ?thesis
    using b4 b3 v H by (intro exI [of _ "s2\<lparr>lh_n := 0, fbio := b4\<rparr>"] exI [of _ "header 0 (lh_block s2) (d start)"])
      (simp add: apply_writes_append)
qed

lemma apply_writes_all:
  "(\<And>b d. (b, d) \<in> set ws \<Longrightarrow> P d) \<Longrightarrow> (\<And>b. P (f b)) \<Longrightarrow> P (apply_writes ws f b)"
proof (induction ws arbitrary: f)
  case (Cons w ws)
  obtain c v where w: "w = (c, v)" by (cases w)
  have "P (apply_writes ws (f(c := v)) b)"
    by (rule Cons.IH) (use Cons.prems w in \<open>auto simp: fun_upd_def\<close>)
  then show ?case by (simp add: w)
qed simp

text \<open>
  The home blocks recovery leaves behind, and that recovery can itself be interrupted at any
  point and started again.
\<close>

definition home_of :: "nat \<Rightarrow> (nat \<Rightarrow> block) \<Rightarrow> nat \<Rightarrow> block" where
  "home_of start d = apply_writes (recover_writes start d) d"

lemma recover_home:
  assumes "log_disk start d"
  shows "\<exists>s'. recover pid start nlog d = Ok s' \<and> hdr_n (bdisk (fbio s') start) = 0 \<and>
    (\<forall>b. b \<noteq> start \<longrightarrow> bdisk (fbio s') b = home_of start d b)"
  using recover_ok [OF assms, of pid nlog] by (auto simp: apply_writes_append home_of_def)

lemma log_disk_clear:
  assumes "\<And>b. length (d b) = BSIZE" and "hdr_n (d start) = 0"
  shows "log_disk start d" "home_of start d = d"
  using assms by (simp_all add: log_disk_def hdr_blocks_def home_of_def recover_writes_def)

text \<open>Replaying some of the home writes changes neither the log nor what recovery makes of it.\<close>

lemma replay_home:
  assumes ld: "log_disk start d" and sub: "set ws \<subseteq> set (recover_writes start d)" and dist: "distinct (map fst ws)"
  shows "log_disk start (apply_writes ws d)" "home_of start (apply_writes ws d) = home_of start d"
proof -
  let ?d = "apply_writes ws d" and ?n = "nat (hdr_n (d start))" and ?bl = "hdr_blocks (d start)"
  have L: "\<forall>b. length (d b) = BSIZE" "distinct ?bl" "\<And>b. b \<in> set ?bl \<Longrightarrow> b < start \<or> start + ?n < b"
    using ld by (auto simp: log_disk_def)
  have f: "fst ` set ws \<subseteq> set ?bl" using sub recover_writes_fst(2) by (metis image_mono)
  have same: "?d (start + t) = d (start + t)" if "t \<le> ?n" for t
    by (rule apply_writes_other) (use f L(3) [of "start + t"] that in auto)
  have s0: "?d start = d start" using same [of 0] by simp
  have len: "length (?d b) = BSIZE" for b
    by (rule apply_writes_all [where P = "\<lambda>x. length x = BSIZE"])
      (use sub L(1) in \<open>auto simp: recover_writes_def\<close>)
  then show "log_disk start ?d" using ld by (simp add: log_disk_def s0)
  have w: "recover_writes start ?d = recover_writes start d"
    using same [of "Suc t" for t] by (auto simp: recover_writes_def s0)
  have "home_of start ?d b = home_of start d b" for b
  proof (cases "b \<in> set ?bl")
    case True
    then obtain v where v: "(b, v) \<in> set (recover_writes start d)"
      using recover_writes_fst(2) [of start d] by (metis (no_types, lifting) imageE prod.collapse)
    have "distinct (map fst (recover_writes start d))" using L(2) recover_writes_fst(1) by simp
    then show ?thesis unfolding home_of_def w using v by (simp add: apply_writes_in)
  next
    case False
    then show ?thesis
      unfolding home_of_def w using f recover_writes_fst(2) apply_writes_other by (metis subsetD)
  qed
  then show "home_of start ?d = home_of start d" by blast
qed

section \<open>Crash atomicity\<close>

definition outside :: "fs \<Rightarrow> nat \<Rightarrow> bool" where
  "outside s b \<longleftrightarrow> b < lg_start s \<or> lg_start s + nat (lh_n s) < b"

definition old_home :: "fs \<Rightarrow> nat \<Rightarrow> block" where
  "old_home s = bdisk (fbio s)"

definition committed_home :: "fs \<Rightarrow> nat \<Rightarrow> block" where
  "committed_home s b = (if b \<in> set (logged s) then view (fbio s) b else bdisk (fbio s) b)"

lemma commit_prefix:
  assumes r: "log_ready s" and h: "hdr_n (bdisk (fbio s) (lg_start s)) = 0"
    and d_def: "d = apply_writes (take k (commit_writes s)) (bdisk (fbio s))"
  shows "log_disk (lg_start s) d \<and>
    (\<forall>b. outside s b \<longrightarrow> home_of (lg_start s) d b = (if k \<le> nat (lh_n s) then old_home s b else committed_home s b))"
proof -
  note D = log_readyD [OF r]
  let ?n = "nat (lh_n s)" and ?st = "lg_start s" and ?D = "bdisk (fbio s)"
  let ?ts = "[0..<?n]"
  have lenD: "length (?D b) = BSIZE" for b using bio_okD(3) [OF D(12)] .
  have lenV: "length (view (fbio s) b) = BSIZE" for b using view_length [OF D(12)] .
  have H1: "hdr_n (commit_header s) = lh_n s" "hdr_blocks (commit_header s) = logged s" "length (commit_header s) = BSIZE"
    using header_decode [of "?D ?st" "lh_n s" "lh_block s"] lenD D(3,4,6,8) by (auto simp: commit_header_def)
  have H0: "hdr_n (header 0 (lh_block s) (commit_header s)) = 0" "length (header 0 (lh_block s) (commit_header s)) = BSIZE"
    using header_decode [of "commit_header s" 0 "lh_block s"] H1(3) by auto
  have lw: "fst ` set (log_writes s ts) \<subseteq> {?st + 1..?st + ?n}" if "set ts \<subseteq> set ?ts" for ts
    using that by (auto simp: log_writes_def)
  have all: "length x = BSIZE" if "(b, x) \<in> set (commit_writes s)" for b x
    using that lenV H1(3) H0(2) by (auto simp: commit_writes_def log_writes_def new_home_def)
  have lend: "length (d b) = BSIZE" for b
    unfolding d_def by (rule apply_writes_all [where P = "\<lambda>x. length x = BSIZE"])
      (use all lenD in \<open>auto dest: in_set_takeD\<close>)
  define d1 where "d1 = apply_writes (log_writes s ?ts @ [(?st, commit_header s)]) ?D"
  have inj: "distinct (map fst (log_writes s ?ts))" by (simp add: log_writes_def distinct_map inj_on_def o_def)
  have d1_log: "d1 (?st + t + 1) = view (fbio s) (lh_block s ! t)" if "t < ?n" for t
    using apply_writes_in [OF inj] that by (simp add: d1_def apply_writes_append) (auto simp: log_writes_def)
  have d1_out: "d1 b = ?D b" if "outside s b" for b
    using that lw [of ?ts] apply_writes_other [of b "log_writes s ?ts" ?D]
    by (fastforce simp: d1_def apply_writes_append outside_def)
  have d1_st: "d1 ?st = commit_header s" by (simp add: d1_def apply_writes_append)
  have len1: "length (d1 b) = BSIZE" for b
    unfolding d1_def by (rule apply_writes_all [where P = "\<lambda>x. length x = BSIZE"])
      (use all lenD in \<open>auto simp: commit_writes_def\<close>)
  have ld1: "log_disk ?st d1"
    using r len1 H1 D(3,4,7) by (auto simp: log_disk_def d1_st log_ready_def)
  have rw: "recover_writes ?st d1 = new_home s ?ts"
    using d1_log D(6) by (auto simp: recover_writes_def d1_st H1 new_home_def) (metis D(6) nth_map_upt add_0 diff_zero)+
  have nh: "map fst (new_home s ?ts) = logged s" using D(6) by (simp add: new_home_def o_def)
  have home1: "home_of ?st d1 b = committed_home s b" if "outside s b" for b
  proof (cases "b \<in> set (logged s)")
    case True
    then have "(b, view (fbio s) b) \<in> set (new_home s ?ts)" unfolding D(6) [symmetric] by (auto simp: new_home_def)
    then show ?thesis
      using True D(7) nh by (simp add: home_of_def rw apply_writes_in committed_home_def)
  next
    case False
    then have "b \<notin> fst ` set (new_home s ?ts)" using nh by (metis set_map)
    then show ?thesis using False d1_out [OF that] by (simp add: home_of_def rw apply_writes_other committed_home_def)
  qed
  consider (log) "k \<le> ?n" | (home) j where "j \<le> ?n" "k = ?n + 1 + j" | (all) "2 * ?n + 2 \<le> k"
  proof -
    have "k \<le> m \<or> (\<exists>j \<le> m. k = m + 1 + j) \<or> 2 * m + 2 \<le> k" for m by presburger
    then show ?thesis using that by blast
  qed
  then show ?thesis
  proof cases
    case log
    then have t: "take k (commit_writes s) = log_writes s [0..<k]"
      by (simp add: commit_writes_def log_writes_def take_map)
    have sub: "set [0..<k] \<subseteq> set ?ts" using log by auto
    have "d ?st = ?D ?st"
      unfolding d_def t by (rule apply_writes_other) (use lw [OF sub] in auto)
    then have c: "log_disk ?st d" "home_of ?st d = d" using log_disk_clear [OF lend] h by auto
    have "d b = ?D b" if "outside s b" for b
      unfolding d_def t by (rule apply_writes_other) (use lw [OF sub] that in \<open>auto simp: outside_def\<close>)
    then show ?thesis using c log by (simp add: old_home_def)
  next
    case home
    have t: "take k (commit_writes s) = (log_writes s ?ts @ [(?st, commit_header s)]) @ take j (new_home s ?ts)"
      using home by (simp add: commit_writes_def log_writes_def new_home_def take_Cons')
    have e: "d = apply_writes (take j (new_home s ?ts)) d1"
      unfolding d_def t d1_def by (simp only: apply_writes_append)
    have "distinct (map fst (take j (new_home s ?ts)))" using nh D(7) by (metis distinct_take take_map)
    then have "log_disk ?st d" "home_of ?st d = home_of ?st d1"
      unfolding e using replay_home [OF ld1, of "take j (new_home s ?ts)"] rw by (auto dest: in_set_takeD)
    then show ?thesis using home1 home by simp
  next
    case all
    have "length (commit_writes s) = 2 * ?n + 2" by (simp add: commit_writes_def log_writes_def new_home_def)
    then have t: "take k (commit_writes s) = commit_writes s" using all by simp
    have e: "d = (apply_writes (new_home s ?ts) d1)(?st := header 0 (lh_block s) (commit_header s))"
      unfolding d_def t d1_def by (simp add: commit_writes_def apply_writes_append)
    then have "hdr_n (d ?st) = 0" using H0(1) by simp
    then have c: "log_disk ?st d" "home_of ?st d = d" by (rule log_disk_clear [OF lend])+
    have "d b = committed_home s b" if "outside s b" for b
      using home1 [OF that] that rw by (auto simp: e home_of_def outside_def)
    then show ?thesis using c all by simp
  qed
qed

text \<open>
  A transaction on a zeroed disk with its log at block 2: one process reads block 100,
  fills it, logs it and releases it.
\<close>

definition zero_disk :: "nat \<Rightarrow> block" where
  "zero_disk b = replicate BSIZE 0"

definition one_write :: "fs res" where
  "one_write =
     bind_res (bread 1 ROOTDEV 100 (fbio (booted zero_disk))) (\<lambda>(h, b).
     bind_res (log_write h ((booted zero_disk)\<lparr>fbio := set_data h (replicate BSIZE 7) b,
       lg_start := 2, lg_size := 30, lg_dev := ROOTDEV, outstanding := 1\<rparr>)) (\<lambda>s.
     bind_res (brelse 1 h (fbio s)) (\<lambda>b. Ok (s\<lparr>fbio := b\<rparr>))))"

lemma zero_disk_hdr [simp]: "hdr_n (zero_disk b) = 0"
  by (simp add: hdr_n_def get_int_def get_le_def zero_disk_def s32_def numeral_eq_Suc)

lemma one_write_ready:
  "\<exists>s. one_write = Ok s \<and> log_ready s \<and> lg_start s = 2 \<and> hdr_n (bdisk (fbio s) (lg_start s)) = 0 \<and>
     lh_n s = 1 \<and> view (fbio s) 100 = replicate BSIZE 7 \<and> bdisk (fbio s) 100 = replicate BSIZE 0 \<and>
     logged s = [100]"
proof -
  have z: "\<forall>b. length (zero_disk b) = BSIZE" by (simp add: zero_disk_def)
  note Q = booted_quiet [OF z]
  let ?B = "fbio (booted zero_disk)"
  have q: "bio_ok ?B" "busy ?B = {}" "card {c. 0 < refs ?B c} < NBUF" using Q(1) by (auto simp: quiet_cache_def)
  have r0: "refs ?B = (\<lambda>_. 0)" using Q(4) by blast
  obtain h b where b: "bread 1 ROOTDEV 100 ?B = Ok (h, b)" "bio_ok b" "holds 1 b h 100" "busy b = {100}"
      "view b = zero_disk" "bdisk b = zero_disk" "refs b = (\<lambda>_. 0)(100 := 1)"
    using cache.bread_ok [OF q(1), of 100 1] q Q(2,3) unfolding r0 by auto
  define c where "c = set_data h (replicate BSIZE 7) b"
  have c: "bio_ok c" "holds 1 c = holds 1 b" "busy c = {100}" "view c = zero_disk(100 := replicate BSIZE 7)"
      "bdisk c = zero_disk" "refs c = refs b"
    using cache.set_data_ok [OF b(2,3), of "replicate BSIZE 7"] b by (auto simp: c_def)
  define t where "t = (booted zero_disk)\<lparr>fbio := c, lg_start := 2, lg_size := 30, lg_dev := ROOTDEV, outstanding := 1\<rparr>"
  have hc: "holds 1 c h 100" using c b by simp
  have no: "b_blockno (bufs c ! h) = 100" using holdsD(3) [OF c(1) hc] by (simp add: is_buf_def)
  have t: "lh_n t = 0" "lh_block t = replicate 30 0" by (simp_all add: t_def booted_def)
  define p where "p = bpin h c"
  have p: "bio_ok p" "holds 1 p = holds 1 c" "busy p = {100}" "view p = view c" "bdisk p = zero_disk"
      "refs p = (\<lambda>_. 0)(100 := 2)"
    using cache.bpin_ok [OF c(1) hc] c b by (auto simp: p_def)
  define u where "u = t\<lparr>lh_block := (replicate 30 0)[0 := 100], fbio := p, lh_n := 1\<rparr>"
  have u: "log_write h t = Ok u"
    using no t by (simp add: log_write_def log_index_def Let_def u_def p_def) (simp add: t_def)
  have hp: "holds 1 p h 100" using p hc by simp
  have pc: "1 < refs p 100 \<or> view p 100 = bdisk p 100" using p by simp
  obtain v where v: "brelse 1 h p = Ok v" "bio_ok v" "busy v = {}" "view v = view c" "bdisk v = zero_disk"
      "refs v = (\<lambda>_. 0)(100 := 1)"
    using cache.brelse_ok [OF p(1) hp pc] p by auto
  define s where "s = u\<lparr>fbio := v\<rparr>"
  have e: "one_write = Ok s"
    unfolding one_write_def b(1) bind_res.simps prod.case c_def [symmetric] t_def [symmetric] u
    using v(1) by (simp add: s_def u_def)
  have f: "lh_n s = 1" "lh_block s = (replicate 30 0)[0 := 100]" "lg_start s = 2" "lg_dev s = 1" "fbio s = v"
    by (simp_all add: s_def u_def t_def)
  have lg: "logged s = [100]" by (simp add: logged_def f numeral_eq_Suc)
  have card: "card {c. 0 < refs v c} < 30"
  proof -
    have "{c. 0 < refs v c} = {100}" by (auto simp: v)
    then show ?thesis by simp
  qed
  then have "log_ready s" using v lg by (auto simp: log_ready_def quiet_cache_def f)
  then show ?thesis using e lg v c f by (auto simp: zero_disk_def zero_disk_hdr [unfolded zero_disk_def])
qed

text \<open>
  C7: A commit is atomic with respect to crashes: it succeeds, and if the machine stops
  after any number k of its disk writes, booting and recovering from the log succeeds and
  leaves every block outside the log as it was before the transaction (when the header block
  had not been written) or with all of the transaction's blocks (from then on).
\<close>

theorem commit_crash_atomic:
  assumes "log_ready s" and "hdr_n (bdisk (fbio s) (lg_start s)) = 0"
  shows "\<exists>s' ws. commit pid s = Ok s' \<and> dtrace (fbio s') = dtrace (fbio s) @ ws \<and>
    bdisk (fbio s') = apply_writes ws (bdisk (fbio s)) \<and>
    (\<forall>k. \<exists>r. recover pid' (lg_start s) nlog (apply_writes (take k ws) (bdisk (fbio s))) = Ok r \<and>
      (\<forall>b. outside s b \<longrightarrow>
        bdisk (fbio r) b = (if k \<le> nat (lh_n s) then old_home s b else committed_home s b)))"
proof -
  obtain b' where b': "commit pid s = Ok (s\<lparr>lh_n := 0, fbio := b'\<rparr>)"
      "dtrace b' = dtrace (fbio s) @ commit_writes s" "bdisk b' = apply_writes (commit_writes s) (bdisk (fbio s))"
    using commit_ok [OF assms(1)] by blast
  have "\<exists>r. recover pid' (lg_start s) nlog (apply_writes (take k (commit_writes s)) (bdisk (fbio s))) = Ok r \<and>
      (\<forall>b. outside s b \<longrightarrow>
        bdisk (fbio r) b = (if k \<le> nat (lh_n s) then old_home s b else committed_home s b))" for k
  proof -
    let ?d = "apply_writes (take k (commit_writes s)) (bdisk (fbio s))"
    have P: "log_disk (lg_start s) ?d" "\<And>b. outside s b \<Longrightarrow> home_of (lg_start s) ?d b =
        (if k \<le> nat (lh_n s) then old_home s b else committed_home s b)"
      using commit_prefix [OF assms refl, of k] by blast+
    have "b \<noteq> lg_start s" if "outside s b" for b using that by (auto simp: outside_def)
    with recover_home [OF P(1), of pid' nlog] P(2) show ?thesis by metis
  qed
  with b' show ?thesis by auto
qed

theorem commit_crash_atomic_witness:
  "\<exists>s s' ws r. one_write = Ok s \<and> commit 1 s = Ok s' \<and> dtrace (fbio s') = dtrace (fbio s) @ ws \<and>
     recover 1 2 30 (apply_writes (take 2 ws) (bdisk (fbio s))) = Ok r \<and>
     bdisk (fbio r) 100 = replicate BSIZE 7"
proof -
  obtain s where s: "one_write = Ok s" "log_ready s" "lg_start s = 2" "hdr_n (bdisk (fbio s) (lg_start s)) = 0"
      "lh_n s = 1" "view (fbio s) 100 = replicate BSIZE 7" "logged s = [100]"
    using one_write_ready by blast
  obtain s' ws where w: "commit 1 s = Ok s'" "dtrace (fbio s') = dtrace (fbio s) @ ws"
      "\<forall>k. \<exists>r. recover 1 (lg_start s) 30 (apply_writes (take k ws) (bdisk (fbio s))) = Ok r \<and>
        (\<forall>b. outside s b \<longrightarrow>
          bdisk (fbio r) b = (if k \<le> nat (lh_n s) then old_home s b else committed_home s b))"
    using commit_crash_atomic [OF s(2,4), of 1 1 30] by blast
  have o: "outside s 100" "committed_home s 100 = replicate BSIZE 7"
    using s by (auto simp: outside_def committed_home_def)
  obtain r where "recover 1 2 30 (apply_writes (take 2 ws) (bdisk (fbio s))) = Ok r"
      "bdisk (fbio r) 100 = replicate BSIZE 7"
    using w(3) [rule_format, of 2] o s(3,5) by auto
  with s(1) w(1,2) show ?thesis by blast
qed

text \<open>
  C21: Recovery can be interrupted: if the machine stops again after any number k of the
  writes of a recovery, the next recovery leaves the same home blocks.
\<close>

theorem recovery_restartable:
  assumes "log_disk start d"
  shows "\<exists>r. recover pid start nlog d = Ok r \<and>
    (\<forall>k. \<exists>r'. recover pid' start nlog' (apply_writes (take k (dtrace (fbio r))) d) = Ok r' \<and>
      (\<forall>b. b \<noteq> start \<longrightarrow> bdisk (fbio r') b = bdisk (fbio r) b))"
proof -
  obtain r h where r: "recover pid start nlog d = Ok r" "hdr_n h = 0" "length h = BSIZE"
      "dtrace (fbio r) = recover_writes start d @ [(start, h)]"
      "bdisk (fbio r) = apply_writes (recover_writes start d @ [(start, h)]) d"
    using recover_ok [OF assms] by blast
  let ?w = "recover_writes start d"
  have "\<exists>r'. recover pid' start nlog' (apply_writes (take k (dtrace (fbio r))) d) = Ok r' \<and>
      (\<forall>b. b \<noteq> start \<longrightarrow> bdisk (fbio r') b = bdisk (fbio r) b)" for k
  proof (cases "k \<le> length ?w")
    case True
    let ?d = "apply_writes (take k ?w) d"
    have "distinct (map fst (take k ?w))"
      using assms recover_writes_fst(1) [of start d] by (metis distinct_take log_disk_def take_map)
    then have "log_disk start ?d" "home_of start ?d = home_of start d"
      using replay_home [OF assms, of "take k ?w"] by (auto dest: in_set_takeD)
    then show ?thesis
      using recover_home [of start ?d pid' nlog'] True r(4,5) by (auto simp: home_of_def apply_writes_append)
  next
    case False
    then have e: "apply_writes (take k (dtrace (fbio r))) d = bdisk (fbio r)" by (simp add: r)
    have "hdr_n (bdisk (fbio r) start) = 0" using r(2) by (simp add: r(5) apply_writes_append)
    moreover have "length (bdisk (fbio r) b) = BSIZE" for b
      unfolding r(5) by (rule apply_writes_all [where P = "\<lambda>x. length x = BSIZE"])
        (use assms r(3) in \<open>auto simp: log_disk_def recover_writes_def\<close>)
    ultimately show ?thesis
      unfolding e using recover_home log_disk_clear by metis
  qed
  with r(1) show ?thesis by blast
qed

theorem recovery_restartable_witness:
  "\<exists>r. recover 1 2 30 zero_disk = Ok r \<and>
    (\<exists>r'. recover 1 2 30 (apply_writes (take 1 (dtrace (fbio r))) zero_disk) = Ok r' \<and>
       bdisk (fbio r') 100 = bdisk (fbio r) 100)"
proof -
  have "log_disk 2 zero_disk" by (rule log_disk_clear(1)) (simp_all add: zero_disk_def zero_disk_hdr [unfolded zero_disk_def])
  from recovery_restartable [OF this, of 1 30 1 30] show ?thesis by fastforce
qed

section \<open>Room in the log\<close>

text \<open>Logging a list of buffers, one after the other.\<close>

fun log_all :: "nat list \<Rightarrow> fs \<Rightarrow> fs res" where
  "log_all [] s = Ok s"
| "log_all (b # bs) s = bind_res (log_write b s) (log_all bs)"

abbreviation (input) blockno_of :: "fs \<Rightarrow> nat \<Rightarrow> nat" where
  "blockno_of s b \<equiv> b_blockno (bufs (fbio s) ! b)"

lemma log_write_new:
  assumes "1 \<le> outstanding s" "lh_n s = int k" "k < LOGSIZE" "int k < lg_size s - 1" "length (lh_block s) = LOGSIZE"
    and "blockno_of s b \<notin> set (take k (lh_block s))"
  shows "log_write b s = Ok (s\<lparr>lh_block := (lh_block s)[k := blockno_of s b], fbio := bpin b (fbio s), lh_n := lh_n s + 1\<rparr>)"
proof -
  have "takeWhile (\<lambda>x. x \<noteq> blockno_of s b) (take k (lh_block s)) = take k (lh_block s)"
    using assms(6) by (auto simp: takeWhile_eq_all_conv)
  then have "log_index (blockno_of s b) s = length (take k (lh_block s))" using assms(2) unfolding log_index_def by (metis nat_int)
  then have "log_index (blockno_of s b) s = k" using assms(3,5) by simp
  then show ?thesis using assms by (simp add: log_write_def Let_def)
qed

lemma bpin_blockno [simp]: "b_blockno (bufs (bpin b c) ! x) = b_blockno (bufs c ! x)"
  by (cases "x = b"; cases "b < length (bufs c)") (simp_all add: bpin_def upd_buf_def list_update_beyond)

lemma log_all_new:
  assumes "1 \<le> outstanding s" "lh_n s = int k" "k + length bs \<le> LOGSIZE" "int (k + length bs) < lg_size s" "length (lh_block s) = LOGSIZE"
    and "distinct (take k (lh_block s) @ map (blockno_of s) bs)"
  shows "\<exists>s'. log_all bs s = Ok s' \<and> lh_n s' = int (k + length bs) \<and> lg_size s' = lg_size s \<and> outstanding s' = outstanding s \<and>
    take (k + length bs) (lh_block s') = take k (lh_block s) @ map (blockno_of s) bs"
  using assms
proof (induction bs arbitrary: k s)
  case (Cons b bs)
  let ?s = "s\<lparr>lh_block := (lh_block s)[k := blockno_of s b], fbio := bpin b (fbio s), lh_n := lh_n s + 1\<rparr>"
  have w: "log_write b s = Ok ?s" by (rule log_write_new) (use Cons.prems in auto)
  have t: "take (Suc k) (lh_block ?s) = take k (lh_block s) @ [blockno_of s b]" using Cons.prems(3,5) by (simp add: take_Suc_conv_app_nth)
  have "\<exists>s'. log_all bs ?s = Ok s' \<and> lh_n s' = int (Suc k + length bs) \<and> lg_size s' = lg_size ?s \<and> outstanding s' = outstanding ?s \<and>
    take (Suc k + length bs) (lh_block s') = take (Suc k) (lh_block ?s) @ map (blockno_of ?s) bs"
    by (rule Cons.IH) (use Cons.prems t in auto)
  then show ?case using w t by auto
qed simp

text \<open>
  C27: From an idle log, \<^verbatim>\<open>begin_op\<close> admits three system calls and lets a fourth one wait: it reserves
  \<^verbatim>\<open>MAXOPBLOCKS\<close> blocks for each and counts on \<^verbatim>\<open>LOGSIZE\<close> of them. When the three log their thirty blocks, all of
  them different, a log of more than \<^verbatim>\<open>LOGSIZE\<close> blocks has room for them. With the log
  \<^verbatim>\<open>mkfs\<close> makes, \<^verbatim>\<open>LOGSIZE\<close> blocks of which one is the header, the last of these writes, which its
  call was admitted for, panics.
\<close>

theorem log_size_off_by_one:
  assumes "\<not> committing s" "outstanding s = 0" "lh_n s = 0" "length (lh_block s) = LOGSIZE"
    and "length bs = 3 * MAXOPBLOCKS" "distinct (map (\<lambda>b. b_blockno (bufs (fbio s) ! b)) bs)"
  shows "\<exists>s1 s2 s3. begin_op s = Ok s1 \<and> begin_op s1 = Ok s2 \<and> begin_op s2 = Ok s3 \<and> begin_op s3 = Sleeps \<and>
    (int LOGSIZE < lg_size s \<longrightarrow> (\<exists>s4. log_all bs s3 = Ok s4 \<and> take LOGSIZE (lh_block s4) = map (\<lambda>b. b_blockno (bufs (fbio s) ! b)) bs)) \<and>
    (lg_size s = int LOGSIZE \<longrightarrow> (\<exists>s4. log_all (butlast bs) s3 = Ok s4 \<and> log_write (last bs) s4 = Panic ''too big a transaction''))"
proof -
  let ?s = "\<lambda>n. s\<lparr>outstanding := n\<rparr>"
  have o: "?s 0 = s" using assms(2) by simp
  have b: "begin_op (?s 0) = Ok (?s 1)" "begin_op (?s 1) = Ok (?s 2)" "begin_op (?s 2) = Ok (?s 3)" "begin_op (?s 3) = Sleeps"
    using assms(1,3) by (simp_all add: begin_op_def)
  have a: "\<exists>s4. log_all bs (?s 3) = Ok s4 \<and> take LOGSIZE (lh_block s4) = map (blockno_of s) bs" if "int LOGSIZE < lg_size s"
    using log_all_new [of "?s 3" 0 bs] assms(3-6) that by auto
  have p: "\<exists>s4. log_all (butlast bs) (?s 3) = Ok s4 \<and> log_write (last bs) s4 = Panic ''too big a transaction''" if l: "lg_size s = int LOGSIZE"
  proof -
    have "distinct (map (blockno_of s) (butlast bs))" using distinct_butlast [OF assms(6)] by (simp add: map_butlast)
    then have "\<exists>s4. log_all (butlast bs) (?s 3) = Ok s4 \<and> lh_n s4 = 29 \<and> lg_size s4 = lg_size s"
      using log_all_new [of "?s 3" 0 "butlast bs"] assms(3-5) l by auto
    then show ?thesis using l by (auto simp: log_write_def)
  qed
  show ?thesis using b a p unfolding o by blast
qed

text \<open>An idle log of the size \<^verbatim>\<open>mkfs\<close> gives it, and a cache that holds thirty blocks.\<close>

definition full_cache :: fs where
  "full_cache = (let s = booted zero_disk in s\<lparr>lg_start := 2, lg_size := int LOGSIZE, lg_dev := ROOTDEV,
     fbio := (fbio s)\<lparr>bufs := map (\<lambda>i. (bufs (fbio s) ! i)\<lparr>b_blockno := 100 + i\<rparr>) [0..<NBUF + 1]\<rparr>\<rparr>)"

theorem log_size_off_by_one_witness:
  "\<exists>s3 s4. bind_res (begin_op full_cache) (\<lambda>s. bind_res (begin_op s) begin_op) = Ok s3 \<and> log_all [0..<29] s3 = Ok s4 \<and>
     log_write 29 s4 = Panic ''too big a transaction''"
proof -
  have h: "\<not> committing full_cache" "outstanding full_cache = 0" "lh_n full_cache = 0" "length (lh_block full_cache) = LOGSIZE" "lg_size full_cache = int LOGSIZE"
    by (simp_all add: full_cache_def booted_def Let_def)
  have l: "length [0..<30] = 3 * MAXOPBLOCKS" by simp
  have "map (\<lambda>b. b_blockno (bufs (fbio full_cache) ! b)) [0..<30] = map (\<lambda>i. 100 + i) [0..<30]"
    by (rule map_cong) (simp_all add: full_cache_def Let_def)
  then have d: "distinct (map (\<lambda>b. b_blockno (bufs (fbio full_cache) ! b)) [0..<30])" by (simp add: distinct_map inj_on_def)
  have b: "butlast [0..<30] = [0..<29]" "last [0..<30] = 29" by (simp_all add: upt_rec)
  from log_size_off_by_one [OF h(1-4) l d] h(5) show ?thesis unfolding b by auto
qed

end
