(* ===== verification/Word_Ring.thy ===== *)
theory Word_Ring
  imports Fifo_Interface
begin

text \<open>
  Ring buffers indexed by free-running unsigned counters, as the kernel's pipes, the UART's
  transmit buffer and the console's input buffer use them: the counters are never reduced,
  they wrap at the width of the word, and a counter modulo the size of the buffer is the
  slot. The size divides the range of the counter, so the wrap is harmless.
\<close>

definition ring_bytes :: "'v list \<Rightarrow> 'a::len word \<Rightarrow> 'a word \<Rightarrow> 'v list" where
  "ring_bytes buf r w = map (\<lambda>i. buf ! (unat (r + word_of_nat i) mod length buf)) [0..<unat (w - r)]"

definition ring_size_ok :: "'v list \<Rightarrow> 'a::len itself \<Rightarrow> bool" where
  "ring_size_ok buf t \<longleftrightarrow> 0 < length buf \<and> length buf dvd 2 ^ LENGTH('a) \<and> length buf < 2 ^ LENGTH('a)"

lemma length_ring_bytes [simp]: "length (ring_bytes buf r w) = unat (w - r)"
  by (simp add: ring_bytes_def)

lemma ring_bytes_empty: "ring_bytes buf r w = [] \<longleftrightarrow> r = w"
  by (auto simp: ring_bytes_def unat_eq_0)

lemma slot_eq:
  fixes r :: "'a::len word"
  assumes "n dvd 2 ^ LENGTH('a)"
  shows "unat (r + word_of_nat i) mod n = (unat r + i) mod n"
proof -
  have "unat (r + word_of_nat i) = (unat r + unat (word_of_nat i :: 'a word)) mod 2 ^ LENGTH('a)"
    by (simp add: unat_word_ariths)
  also have "\<dots> = (unat r + i) mod 2 ^ LENGTH('a)"
    by (simp add: unat_of_nat mod_add_right_eq)
  finally show ?thesis using assms by (simp add: mod_mod_cancel)
qed

lemma slots_differ: "i < d \<Longrightarrow> d < n \<Longrightarrow> (a + i) mod n \<noteq> (a + d) mod (n :: nat)"
proof
  assume "i < d" "d < n" "(a + i) mod n = (a + d) mod n"
  then have "n dvd (a + d) - (a + i)" by (metis mod_eq_dvd_iff_nat add_le_cancel_left less_imp_le_nat)
  then have "n dvd d - i" by simp
  moreover have "0 < d - i" "d - i < n" using \<open>i < d\<close> \<open>d < n\<close> by auto
  ultimately show False by (meson dvd_imp_le not_less)
qed

lemma count_Suc:
  fixes r w :: "'a::len word"
  assumes "unat (w - r) < n" "n < 2 ^ LENGTH('a)"
  shows "unat (w + 1 - r) = Suc (unat (w - r))"
proof -
  have e: "w + 1 - r = (w - r) + 1" by simp
  have "Suc (unat (w - r)) < 2 ^ LENGTH('a)" using assms by simp
  then show ?thesis unfolding e by (simp add: unat_word_ariths)
qed

lemma ring_bytes_put:
  fixes r w :: "'a::len word"
  assumes ok: "ring_size_ok buf TYPE('a)" and room: "unat (w - r) < length buf"
  shows "ring_bytes (buf[unat w mod length buf := v]) r (w + 1) = ring_bytes buf r w @ [v]"
proof -
  let ?n = "length buf" and ?d = "unat (w - r)"
  have dv: "?n dvd 2 ^ LENGTH('a)" and lt: "?n < 2 ^ LENGTH('a)" and pos: "0 < ?n"
    using ok by (auto simp: ring_size_ok_def)
  have c: "unat (w + 1 - r) = Suc ?d" by (rule count_Suc [OF room lt])
  have w: "unat w mod ?n = (unat r + ?d) mod ?n"
  proof -
    have "w = r + word_of_nat ?d" by simp
    then show ?thesis using slot_eq [OF dv, of r ?d] by simp
  qed
  have other: "buf[unat w mod ?n := v] ! (unat (r + word_of_nat i) mod ?n) = buf ! (unat (r + word_of_nat i) mod ?n)"
    if "i < ?d" for i
    using slots_differ [OF that room, of "unat r"] by (simp add: slot_eq [OF dv] w)
  have same: "buf[unat w mod ?n := v] ! (unat (r + word_of_nat ?d) mod ?n) = v"
    using slot_eq [OF dv, of r ?d] w pos by simp
  show ?thesis
    unfolding ring_bytes_def c using other same by simp
qed

lemma ring_bytes_get:
  fixes r w :: "'a::len word"
  assumes "r \<noteq> w"
  shows "ring_bytes buf r w = buf ! (unat r mod length buf) # ring_bytes buf (r + 1) w"
proof -
  have nz: "w - r \<noteq> 0" using assms by simp
  have e: "w - (r + 1) = (w - r) - 1" by simp
  have "unat (w - (r + 1)) = unat (w - r) - 1" unfolding e by (rule unat_minus_one [OF nz])
  moreover have "unat (w - r) \<noteq> 0" using nz by (simp add: unat_eq_0)
  ultimately have d: "unat (w - r) = Suc (unat (w - (r + 1)))" by simp
  have "r + word_of_nat (Suc i) = (r + 1) + word_of_nat i" for i by simp
  then show ?thesis unfolding ring_bytes_def d map_upt_Suc by (simp add: add.assoc)
qed

lemma count_pred:
  fixes r w :: "'a::len word"
  assumes "r \<noteq> w"
  shows "unat (w - (r + 1)) = unat (w - r) - 1"
  using assms ring_bytes_get [of r w "[undefined]"] length_ring_bytes [of "[undefined]" r w]
  by (metis diff_Suc_1 length_Cons length_ring_bytes)

text \<open>Taking back the last byte that was put in.\<close>

lemma ring_bytes_unput:
  fixes r w :: "'a::len word"
  assumes "r \<noteq> w"
  shows "ring_bytes buf r (w - 1) = butlast (ring_bytes buf r w)"
proof -
  have nz: "w - r \<noteq> 0" using assms by simp
  have e: "w - 1 - r = (w - r) - 1" by simp
  have "unat (w - 1 - r) = unat (w - r) - 1" unfolding e by (rule unat_minus_one [OF nz])
  then show ?thesis by (simp add: ring_bytes_def butlast_conv_take take_map)
qed

text \<open>A ring split at a position between the read and the write counter.\<close>

lemma count_split:
  fixes r w e :: "'a::len word"
  assumes "unat (w - r) + unat (e - w) < 2 ^ LENGTH('a)"
  shows "unat (e - r) = unat (w - r) + unat (e - w)"
proof -
  have "e - r = (w - r) + (e - w)" by simp
  then have "unat (e - r) = (unat (w - r) + unat (e - w)) mod 2 ^ LENGTH('a)"
    by (simp only: unat_word_ariths)
  with assms show ?thesis by simp
qed

lemma ring_bytes_split:
  fixes r w e :: "'a::len word"
  assumes "unat (w - r) + unat (e - w) < 2 ^ LENGTH('a)"
  shows "ring_bytes buf r e = ring_bytes buf r w @ ring_bytes buf w e"
proof (rule nth_equalityI)
  fix i assume i: "i < length (ring_bytes buf r e)"
  then have *: "i < unat (w - r) + unat (e - w)" by (simp add: count_split [OF assms])
  show "ring_bytes buf r e ! i = (ring_bytes buf r w @ ring_bytes buf w e) ! i"
  proof (cases "i < unat (w - r)")
    case True
    then show ?thesis using i by (simp add: ring_bytes_def nth_append)
  next
    case False
    have "r + (word_of_nat i :: 'a word) = w + word_of_nat (i - unat (w - r))"
      using False by (simp add: of_nat_diff)
    then show ?thesis using False i * by (simp add: ring_bytes_def nth_append add.commute)
  qed
qed (simp add: count_split [OF assms])

end
