(* ===== verification/Pipe.thy ===== *)
theory Pipe
  imports Word_Ring
begin

text \<open>
  Pipes (\<^verbatim>\<open>kernel/pipe.c\<close>). Everything between the acquisition of \<^verbatim>\<open>pi->lock\<close> and a
  \<^verbatim>\<open>sleep\<close> or the return is atomic: \<open>Done\<close> is the return value, \<open>Wait\<close> a sleep with the
  number of bytes transferred so far, from where the caller goes on when it is woken. User
  memory is a parameter: \<open>copyin a\<close> is the byte at user address \<open>a\<close>, if there is one,
  and \<open>copyout a\<close> tells whether that address can be written. \<open>kld\<close> is \<^verbatim>\<open>killed(pr)\<close>.
\<close>

abbreviation (input) PIPESIZE :: nat where "PIPESIZE \<equiv> 512"

record pipe =
  pdata :: "u8 list"
  nread :: u32
  nwrite :: u32
  readopen :: bool
  writeopen :: bool

definition new_pipe :: "u8 list \<Rightarrow> pipe" where
  "new_pipe junk = \<lparr>pdata = junk, nread = 0, nwrite = 0, readopen = True, writeopen = True\<rparr>"

text \<open>\<^verbatim>\<open>pipeclose\<close> returns whether the page of the pipe is freed.\<close>

definition pipeclose :: "bool \<Rightarrow> pipe \<Rightarrow> bool \<times> pipe" where
  "pipeclose writable pi =
     (let pi = (if writable then pi\<lparr>writeopen := False\<rparr> else pi\<lparr>readopen := False\<rparr>)
      in (\<not> readopen pi \<and> \<not> writeopen pi, pi))"

definition pipe_put :: "pipe \<Rightarrow> u8 \<Rightarrow> pipe" where
  "pipe_put pi ch =
     pi\<lparr>pdata := (pdata pi)[unat (nwrite pi) mod PIPESIZE := ch], nwrite := nwrite pi + 1\<rparr>"

definition pipe_get :: "pipe \<Rightarrow> u8 option \<times> pipe" where
  "pipe_get pi = (Some (pdata pi ! (unat (nread pi) mod PIPESIZE)), pi\<lparr>nread := nread pi + 1\<rparr>)"

text \<open>
  The loop of \<^verbatim>\<open>pipewrite\<close> with \<open>k\<close> bytes to go, up to the next sleep. \<open>kld\<close> is the answer of \<^verbatim>\<open>killed(pr)\<close>. The loop
  holds \<^verbatim>\<open>pi->lock\<close>, so interrupts are off, and on the one hart of the model nobody can set the
  flag between two bytes; it may have changed after a sleep.
\<close>

fun pipewrite_loop :: "(nat \<Rightarrow> u8 option) \<Rightarrow> bool \<Rightarrow> nat \<Rightarrow> nat \<Rightarrow> nat \<Rightarrow> pipe \<Rightarrow> pipe step" where
  "pipewrite_loop copyin kld addr i 0 pi = Done (int i) pi"
| "pipewrite_loop copyin kld addr i (Suc k) pi =
     (if \<not> readopen pi \<or> kld then Done (-1) pi
      else if nwrite pi = nread pi + word_of_nat PIPESIZE then Wait i pi
      else case copyin (addr + i) of
          None \<Rightarrow> Done (int i) pi
        | Some ch \<Rightarrow> pipewrite_loop copyin kld addr (i + 1) k (pipe_put pi ch))"

definition pipewrite :: "(nat \<Rightarrow> u8 option) \<Rightarrow> bool \<Rightarrow> nat \<Rightarrow> nat \<Rightarrow> int \<Rightarrow> pipe \<Rightarrow> pipe step" where
  "pipewrite copyin kld addr i n pi = pipewrite_loop copyin kld addr i (nat (n - int i)) pi"

text \<open>The copy loop of \<^verbatim>\<open>piperead\<close>; the bytes it stored at \<^verbatim>\<open>addr\<close> on are collected in \<open>out\<close>.\<close>

fun piperead_loop :: "(nat \<Rightarrow> bool) \<Rightarrow> nat \<Rightarrow> nat \<Rightarrow> nat \<Rightarrow> u8 list \<Rightarrow> pipe \<Rightarrow> u8 list \<times> pipe" where
  "piperead_loop copyout addr i 0 out pi = (out, pi)"
| "piperead_loop copyout addr i (Suc k) out pi =
     (if nread pi = nwrite pi then (out, pi)
      else
        let (ch, pi) = pipe_get pi
        in if \<not> copyout (addr + i) then (out, pi)
           else piperead_loop copyout addr (i + 1) k (out @ [the ch]) pi)"

definition piperead :: "(nat \<Rightarrow> bool) \<Rightarrow> bool \<Rightarrow> nat \<Rightarrow> int \<Rightarrow> pipe \<Rightarrow> (u8 list \<times> pipe) step" where
  "piperead copyout kld addr n pi =
     (if nread pi = nwrite pi \<and> writeopen pi then
        (if kld then Done (-1) ([], pi) else Wait 0 ([], pi))
      else
        let (out, pi) = piperead_loop copyout addr 0 (nat n) [] pi
        in Done (int (length out)) (out, pi))"

section \<open>A pipe is a bounded queue of bytes\<close>

definition pipe_ok :: "pipe \<Rightarrow> bool" where
  "pipe_ok pi \<longleftrightarrow> length (pdata pi) = PIPESIZE \<and> unat (nwrite pi - nread pi) \<le> PIPESIZE"

definition pipe_bytes :: "pipe \<Rightarrow> u8 list" where
  "pipe_bytes pi = ring_bytes (pdata pi) (nread pi) (nwrite pi)"

lemma pipe_ring_size: "length d = 512 \<Longrightarrow> ring_size_ok d TYPE(32)"
  by (simp add: ring_size_ok_def)

lemma pipe_put_bytes:
  assumes "pipe_ok pi" and "length (pipe_bytes pi) < PIPESIZE"
  shows "pipe_ok (pipe_put pi ch)" "pipe_bytes (pipe_put pi ch) = pipe_bytes pi @ [ch]"
proof -
  have l: "length (pdata pi) = 512" "unat (nwrite pi - nread pi) < 512"
    using assms by (auto simp: pipe_ok_def pipe_bytes_def)
  have "unat (nwrite pi + 1 - nread pi) = Suc (unat (nwrite pi - nread pi))"
    by (rule count_Suc [OF l(2)]) simp
  then show "pipe_ok (pipe_put pi ch)" using l by (simp add: pipe_ok_def pipe_put_def)
  show "pipe_bytes (pipe_put pi ch) = pipe_bytes pi @ [ch]"
    using ring_bytes_put [OF pipe_ring_size [OF l(1)], of "nwrite pi" "nread pi" ch] l
    by (simp add: pipe_bytes_def pipe_put_def)
qed

lemma pipe_get_bytes:
  assumes "pipe_ok pi" and "pipe_bytes pi \<noteq> []"
  shows "pipe_ok (snd (pipe_get pi))" "fst (pipe_get pi) = Some (hd (pipe_bytes pi))"
    "pipe_bytes (snd (pipe_get pi)) = tl (pipe_bytes pi)"
proof -
  have ne: "nread pi \<noteq> nwrite pi" using assms(2) by (simp add: pipe_bytes_def ring_bytes_empty)
  have l: "length (pdata pi) = 512" using assms(1) by (simp add: pipe_ok_def)
  show "pipe_ok (snd (pipe_get pi))"
    using assms(1) count_pred [OF ne] by (auto simp: pipe_ok_def pipe_get_def)
  show "fst (pipe_get pi) = Some (hd (pipe_bytes pi))" "pipe_bytes (snd (pipe_get pi)) = tl (pipe_bytes pi)"
    using ring_bytes_get [OF ne, of "pdata pi"] l by (simp_all add: pipe_bytes_def pipe_get_def)
qed

interpretation pipe_fifo: bounded_fifo pipe_ok pipe_bytes PIPESIZE pipe_put pipe_get
  by unfold_locales (simp_all add: pipe_put_bytes pipe_get_bytes, simp add: pipe_ok_def pipe_bytes_def)

lemma pipe_full: "pipe_ok pi \<Longrightarrow> nwrite pi = nread pi + word_of_nat PIPESIZE \<longleftrightarrow> length (pipe_bytes pi) = PIPESIZE"
proof -
  assume "pipe_ok pi"
  have "nwrite pi = nread pi + word_of_nat PIPESIZE \<longleftrightarrow> nwrite pi - nread pi = word_of_nat PIPESIZE"
    by (simp add: algebra_simps)
  also have "\<dots> \<longleftrightarrow> unat (nwrite pi - nread pi) = 512" by (simp add: word_unat_eq_iff unat_of_nat)
  finally show ?thesis by (simp add: pipe_bytes_def)
qed

lemma pipe_put_flags [simp]: "readopen (pipe_put pi ch) = readopen pi" "writeopen (pipe_put pi ch) = writeopen pi"
  by (simp_all add: pipe_put_def)

lemma pipe_get_flags [simp]:
  "readopen (snd (pipe_get pi)) = readopen pi" "writeopen (snd (pipe_get pi)) = writeopen pi"
  by (simp_all add: pipe_get_def)

text \<open>
  One run of the write loop appends the user's bytes from position \<open>i\<close> on to the pipe, as
  many as it reports, and stops with the last byte, a fault, a full pipe or a closed end.
\<close>

lemma pipewrite_loop_ok:
  assumes "pipe_ok pi" and "\<not> kld" and "readopen pi"
  shows "\<exists>j pi' bs. j \<le> k \<and> pipe_ok pi' \<and> readopen pi' \<and> writeopen pi' = writeopen pi \<and>
    pipe_bytes pi' = pipe_bytes pi @ bs \<and> length bs = j \<and> map (\<lambda>t. copyin (addr + i + t)) [0..<j] = map Some bs \<and>
    (pipewrite_loop copyin kld addr i k pi = Done (int (i + j)) pi' \<and> (j = k \<or> copyin (addr + i + j) = None) \<or>
     pipewrite_loop copyin kld addr i k pi = Wait (i + j) pi' \<and> length (pipe_bytes pi') = PIPESIZE \<and> j < k)"
  using assms
proof (induction k arbitrary: i pi)
  case 0
  then show ?case by (intro exI [of _ 0] exI [of _ pi] exI [of _ "[]"]) simp
next
  case (Suc k)
  show ?case
  proof (cases "nwrite pi = nread pi + word_of_nat PIPESIZE")
    case True
    then have "length (pipe_bytes pi) = 512" using pipe_full Suc.prems by blast
    with True Suc.prems show ?thesis by (intro exI [of _ 0] exI [of _ pi] exI [of _ "[]"]) simp
  next
    case room: False
    show ?thesis
    proof (cases "copyin (addr + i)")
      case None
      with room Suc.prems show ?thesis by (intro exI [of _ 0] exI [of _ pi] exI [of _ "[]"]) simp
    next
      case (Some ch)
      have "length (pipe_bytes pi) < 512"
        using pipe_full [OF Suc.prems(1)] room pipe_fifo.contents_bound [OF Suc.prems(1)] by simp
      note P = pipe_put_bytes [OF Suc.prems(1) this, of ch]
      obtain j pi' bs where j: "j \<le> k" "pipe_ok pi'" "readopen pi'" "writeopen pi' = writeopen pi"
          "pipe_bytes pi' = pipe_bytes (pipe_put pi ch) @ bs" "length bs = j"
          "map (\<lambda>t. copyin (addr + (i + 1) + t)) [0..<j] = map Some bs"
          "pipewrite_loop copyin kld addr (i + 1) k (pipe_put pi ch) = Done (int (i + 1 + j)) pi' \<and>
             (j = k \<or> copyin (addr + (i + 1) + j) = None) \<or>
           pipewrite_loop copyin kld addr (i + 1) k (pipe_put pi ch) = Wait (i + 1 + j) pi' \<and>
             length (pipe_bytes pi') = PIPESIZE \<and> j < k"
        using Suc.IH [OF P(1) Suc.prems(2), of "i + 1"] Suc.prems(3) by auto
      have "map (\<lambda>t. copyin (addr + i + t)) [0..<Suc j] = map Some (ch # bs)"
        unfolding map_upt_Suc using j(7) Some by simp
      then show ?thesis
        using j P(2) Some room Suc.prems
        by (intro exI [of _ "Suc j"] exI [of _ pi'] exI [of _ "ch # bs"]) auto
    qed
  qed
qed

lemma piperead_loop_ok:
  assumes "pipe_ok pi"
  shows "\<exists>bs lost. piperead_loop copyout addr i k out pi = (out @ bs, snd (piperead_loop copyout addr i k out pi)) \<and>
    pipe_ok (snd (piperead_loop copyout addr i k out pi)) \<and>
    pipe_bytes pi = bs @ lost @ pipe_bytes (snd (piperead_loop copyout addr i k out pi)) \<and>
    length bs \<le> k \<and> (lost = [] \<and> (length bs = k \<or> bs = pipe_bytes pi) \<or>
      length lost = 1 \<and> length bs < k \<and> \<not> copyout (addr + i + length bs))"
  using assms
proof (induction k arbitrary: i out pi)
  case 0
  then show ?case by simp
next
  case (Suc k)
  show ?case
  proof (cases "nread pi = nwrite pi")
    case True
    then have "pipe_bytes pi = []" by (simp add: pipe_bytes_def ring_bytes_empty)
    with True Suc.prems show ?thesis by simp
  next
    case ne: False
    then have "pipe_bytes pi \<noteq> []" by (simp add: pipe_bytes_def ring_bytes_empty)
    note G = pipe_get_bytes [OF Suc.prems this]
    obtain b where b: "pipe_get pi = (Some b, snd (pipe_get pi))" "pipe_bytes pi = b # pipe_bytes (snd (pipe_get pi))"
      using G(2,3) \<open>pipe_bytes pi \<noteq> []\<close> by (metis hd_Cons_tl prod.collapse)
    show ?thesis
    proof (cases "copyout (addr + i)")
      case False
      have "piperead_loop copyout addr i (Suc k) out pi = (out, snd (pipe_get pi))"
        using ne False b(1) by (simp add: case_prod_unfold Let_def)
      then show ?thesis
        using False G(1) b(2) by (intro exI [of _ "[]"] exI [of _ "[b]"]) simp
    next
      case True
      have e: "piperead_loop copyout addr i (Suc k) out pi =
          piperead_loop copyout addr (i + 1) k (out @ [b]) (snd (pipe_get pi))"
        using ne True b(1) by (simp add: pipe_get_def)
      obtain bs lost where *: "piperead_loop copyout addr (i + 1) k (out @ [b]) (snd (pipe_get pi)) =
            ((out @ [b]) @ bs, snd (piperead_loop copyout addr (i + 1) k (out @ [b]) (snd (pipe_get pi))))"
          "pipe_ok (snd (piperead_loop copyout addr (i + 1) k (out @ [b]) (snd (pipe_get pi))))"
          "pipe_bytes (snd (pipe_get pi)) = bs @ lost @
            pipe_bytes (snd (piperead_loop copyout addr (i + 1) k (out @ [b]) (snd (pipe_get pi))))"
          "length bs \<le> k" "lost = [] \<and> (length bs = k \<or> bs = pipe_bytes (snd (pipe_get pi))) \<or>
            length lost = 1 \<and> length bs < k \<and> \<not> copyout (addr + (i + 1) + length bs)"
        using Suc.IH [OF G(1), of "i + 1" "out @ [b]"] by blast
      show ?thesis
        unfolding e using * b(2) by (intro exI [of _ "b # bs"] exI [of _ lost]) auto
    qed
  qed
qed

section \<open>The byte stream\<close>

text \<open>
  Calls on one pipe, in any order and by any process, and what they transfer: \<open>acc\<close> are the
  bytes taken over from writers, \<open>del\<close> the bytes handed to readers. A writer that was put to
  sleep comes back with the position it had reached.
\<close>

datatype pcall =
    WriteCall "nat \<Rightarrow> u8 option" bool nat nat int
  | ReadCall "nat \<Rightarrow> bool" bool nat int
  | CloseCall bool

fun pipe_call :: "pcall \<Rightarrow> pipe \<times> u8 list \<times> u8 list \<Rightarrow> pipe \<times> u8 list \<times> u8 list" where
  "pipe_call (WriteCall copyin kld addr i n) (pi, acc, del) =
     (case pipewrite copyin kld addr i n pi of
        Done r pi' \<Rightarrow> (pi', acc @ user_bytes copyin addr i (nat r), del)
      | Wait j pi' \<Rightarrow> (pi', acc @ user_bytes copyin addr i j, del))"
| "pipe_call (ReadCall copyout kld addr n) (pi, acc, del) =
     (case piperead copyout kld addr n pi of
        Done r (out, pi') \<Rightarrow> (pi', acc, del @ out)
      | Wait j (out, pi') \<Rightarrow> (pi', acc, del @ out))"
| "pipe_call (CloseCall writable) (pi, acc, del) = (snd (pipeclose writable pi), acc, del)"

fun readable_call :: "pcall \<Rightarrow> bool" where
  "readable_call (ReadCall copyout kld addr n) \<longleftrightarrow> (\<forall>a < nat n. copyout (addr + a))"
| "readable_call c \<longleftrightarrow> True"

definition stream_ok :: "pipe \<times> u8 list \<times> u8 list \<Rightarrow> bool" where
  "stream_ok = (\<lambda>(pi, acc, del). pipe_ok pi \<and> acc = del @ pipe_bytes pi)"

lemma write_call_stream:
  assumes "stream_ok (pi, acc, del)"
  shows "stream_ok (pipe_call (WriteCall copyin kld addr i n) (pi, acc, del))"
proof (cases "kld \<or> \<not> readopen pi")
  case True
  then have "pipewrite copyin kld addr i n pi = Done (-1) pi \<or> pipewrite copyin kld addr i n pi = Done (int i) pi"
    by (cases "nat (n - int i)") (auto simp: pipewrite_def)
  then show ?thesis using assms by (auto simp: stream_ok_def user_bytes_none)
next
  case False
  obtain j pi' bs where j: "pipe_ok pi'" "pipe_bytes pi' = pipe_bytes pi @ bs"
      "map (\<lambda>t. copyin (addr + i + t)) [0..<j] = map Some bs"
      "pipewrite copyin kld addr i n pi = Done (int (i + j)) pi' \<or> pipewrite copyin kld addr i n pi = Wait (i + j) pi'"
    using pipewrite_loop_ok [of pi kld "nat (n - int i)" copyin addr i] assms False
    unfolding pipewrite_def stream_ok_def by auto
  show ?thesis using j(4)
  proof
    assume "pipewrite copyin kld addr i n pi = Done (int (i + j)) pi'"
    then show ?thesis using assms j(1,2) user_bytes_map [OF j(3)] by (simp add: stream_ok_def nat_int_add)
  next
    assume "pipewrite copyin kld addr i n pi = Wait (i + j) pi'"
    then show ?thesis using assms j(1,2) user_bytes_map [OF j(3)] by (simp add: stream_ok_def)
  qed
qed

lemma piperead_cases:
  assumes "pipe_ok pi"
  obtains (wait) r where "piperead copyout kld addr n pi = r" "r = Done (-1) ([], pi) \<or> r = Wait 0 ([], pi)"
      "pipe_bytes pi = []" "writeopen pi"
  | (read) bs lost pi' where "piperead copyout kld addr n pi = Done (int (length bs)) (bs, pi')"
      "pipe_ok pi'" "pipe_bytes pi = bs @ lost @ pipe_bytes pi'" "length bs \<le> nat n"
      "lost = [] \<and> (length bs = nat n \<or> bs = pipe_bytes pi) \<or>
       length lost = 1 \<and> length bs < nat n \<and> \<not> copyout (addr + length bs)"
proof (cases "nread pi = nwrite pi \<and> writeopen pi")
  case True
  then have "pipe_bytes pi = []" by (simp add: pipe_bytes_def ring_bytes_empty)
  with True show thesis by (intro wait [OF refl]) (auto simp: piperead_def)
next
  case False
  let ?r = "piperead_loop copyout addr 0 (nat n) [] pi"
  obtain bs lost where r: "?r = ([] @ bs, snd ?r)" "pipe_ok (snd ?r)" "pipe_bytes pi = bs @ lost @ pipe_bytes (snd ?r)"
      "length bs \<le> nat n" "lost = [] \<and> (length bs = nat n \<or> bs = pipe_bytes pi) \<or>
       length lost = 1 \<and> length bs < nat n \<and> \<not> copyout (addr + 0 + length bs)"
    using piperead_loop_ok [OF assms, of copyout addr 0 "nat n" "[]"] by blast
  have "piperead copyout kld addr n pi = Done (int (length bs)) (bs, snd ?r)"
    using False by (subst piperead_def, subst r(1)) auto
  then show thesis using r(2-5) by (intro read) auto
qed

lemma read_call_stream:
  assumes "stream_ok (pi, acc, del)" and "readable_call (ReadCall copyout kld addr n)"
  shows "stream_ok (pipe_call (ReadCall copyout kld addr n) (pi, acc, del))"
proof -
  have "pipe_ok pi" using assms(1) by (simp add: stream_ok_def)
  then show ?thesis
  proof (cases rule: piperead_cases [of pi copyout kld addr n])
    case (wait r)
    then show ?thesis using assms(1) by auto
  next
    case (read bs lost pi')
    then have "lost = []" using assms(2) by auto
    with read assms(1) show ?thesis by (simp add: stream_ok_def)
  qed
qed

lemma close_call_stream: "stream_ok (pi, acc, del) \<Longrightarrow> stream_ok (pipe_call (CloseCall w) (pi, acc, del))"
  by (simp add: stream_ok_def pipeclose_def pipe_ok_def pipe_bytes_def Let_def)

lemma pipe_call_stream: "stream_ok s \<Longrightarrow> readable_call c \<Longrightarrow> stream_ok (pipe_call c s)"
  by (cases c; cases s) (simp_all add: write_call_stream read_call_stream close_call_stream
      del: pipe_call.simps readable_call.simps)

lemma fold_pipe_stream: "stream_ok s \<Longrightarrow> list_all readable_call cs \<Longrightarrow> stream_ok (fold pipe_call cs s)"
  by (induction cs arbitrary: s) (auto simp: pipe_call_stream)

lemma stream_ok_new: "length junk = PIPESIZE \<Longrightarrow> stream_ok (new_pipe junk, [], [])"
  by (simp add: stream_ok_def pipe_ok_def pipe_bytes_def new_pipe_def ring_bytes_empty)

text \<open>
  C14: A pipe is a byte stream. For every sequence of read, write and close calls whose readers
  have writable buffers, the bytes taken over from the writers are, in order, the bytes handed
  to the readers followed by the at most 512 bytes in the pipe: nothing is lost, duplicated or
  reordered, also when the 32-bit counters wrap around.
\<close>

theorem pipe_stream:
  assumes "length junk = PIPESIZE" and "list_all readable_call cs"
    and "fold pipe_call cs (new_pipe junk, [], []) = (pi, accepted, delivered)"
  shows "accepted = delivered @ pipe_bytes pi \<and> length (pipe_bytes pi) \<le> PIPESIZE"
proof -
  have "stream_ok (pi, accepted, delivered)"
    using fold_pipe_stream [OF stream_ok_new [OF assms(1)] assms(2)] assms(3) by simp
  then show ?thesis using pipe_fifo.contents_bound by (auto simp: stream_ok_def)
qed

theorem pipe_stream_witness:
  "let (pi, accepted, delivered) = fold pipe_call
        [WriteCall (\<lambda>a. Some (word_of_nat a)) False 100 0 3, ReadCall (\<lambda>a. True) False 0 2, CloseCall True]
        (new_pipe (replicate 512 0), [], [])
   in delivered = [100, 101] \<and> accepted = delivered @ pipe_bytes pi \<and> length (pipe_bytes pi) \<le> PIPESIZE"
proof -
  let ?cs = "[WriteCall (\<lambda>a. Some (word_of_nat a)) False 100 0 3, ReadCall (\<lambda>a. True) False 0 2, CloseCall True]"
  let ?s = "fold pipe_call ?cs (new_pipe (replicate 512 0), [], [])"
  have d: "snd (snd ?s) = [100, 101]"
    by code_simp
  have "accepted = delivered @ pipe_bytes pi \<and> length (pipe_bytes pi) \<le> PIPESIZE"
    if "?s = (pi, accepted, delivered)" for pi accepted delivered
    by (rule pipe_stream [OF _ _ that]) simp_all
  with d show ?thesis by (auto simp only: Let_def split: prod.splits) simp_all
qed

text \<open>How many bytes a read of at most \<open>m\<close> gets to user memory: up to the first address that cannot be written.\<close>

definition writable_bytes :: "(nat \<Rightarrow> bool) \<Rightarrow> nat \<Rightarrow> nat \<Rightarrow> nat" where
  "writable_bytes copyout addr m = length (takeWhile copyout [addr..<addr + m])"

lemma writable_bytes_simps [simp]:
  "writable_bytes copyout addr 0 = 0"
  "writable_bytes copyout addr (Suc m) = (if copyout addr then Suc (writable_bytes copyout (Suc addr) m) else 0)"
  by (simp_all add: writable_bytes_def upt_conv_Cons del: upt_Suc)

lemma piperead_loop_exact:
  assumes "pipe_ok pi"
  shows "\<exists>pi'. (let q = pipe_bytes pi; m = min k (length q); c = writable_bytes copyout (addr + i) m in
    piperead_loop copyout addr i k out pi = (out @ take c q, pi') \<and> pipe_ok pi' \<and> pipe_bytes pi' = drop (if c < m then Suc c else c) q)"
  using assms
proof (induction k arbitrary: i out pi)
  case (Suc k)
  show ?case
  proof (cases "nread pi = nwrite pi")
    case True
    then have "pipe_bytes pi = []" by (simp add: pipe_bytes_def ring_bytes_empty)
    then show ?thesis using True Suc.prems by simp
  next
    case False
    then have ne: "pipe_bytes pi \<noteq> []" by (simp add: pipe_bytes_def ring_bytes_empty)
    note G = pipe_get_bytes [OF Suc.prems ne]
    obtain b where b: "pipe_get pi = (Some b, snd (pipe_get pi))" "pipe_bytes pi = b # pipe_bytes (snd (pipe_get pi))"
      using G(2,3) ne by (metis hd_Cons_tl prod.collapse)
    show ?thesis
    proof (cases "copyout (addr + i)")
      case c: True
      have "piperead_loop copyout addr i (Suc k) out pi = piperead_loop copyout addr (i + 1) k (out @ [b]) (snd (pipe_get pi))"
        using False c b(1) by (cases "pipe_get pi") simp
      then show ?thesis using Suc.IH [OF G(1), of "i + 1" "out @ [b]"] c unfolding b(2) by (auto simp: Let_def)
    next
      case c: False
      have "piperead_loop copyout addr i (Suc k) out pi = (out, snd (pipe_get pi))" using False c b(1) by (simp split: prod.splits)
      then show ?thesis using G(1) c unfolding b(2) by simp
    qed
  qed
qed simp

text \<open>
  C28: What a read does in every case. On an empty pipe that is still open for writing it waits, or returns -1
  when the process was killed. Otherwise it takes as many bytes from the front of the pipe as were asked for and
  there are, in order, and returns their number, if user memory can be written. If not, it returns the
  bytes before the first address that cannot be written, and the byte meant for that address has
  left the pipe too: it is neither returned nor kept.
\<close>

theorem piperead_result:
  assumes "pipe_ok pi"
  shows "if pipe_bytes pi = [] \<and> writeopen pi then
      piperead copyout kld addr n pi = (if kld then Done (-1) ([], pi) else Wait 0 ([], pi))
    else
      (let q = pipe_bytes pi; m = min (nat n) (length q); c = writable_bytes copyout addr m
       in \<exists>pi'. piperead copyout kld addr n pi = Done (int c) (take c q, pi') \<and> pipe_ok pi' \<and>
            pipe_bytes pi' = drop (if c < m then c + 1 else c) q)"
proof -
  let ?q = "pipe_bytes pi" let ?m = "min (nat n) (length ?q)" let ?c = "writable_bytes copyout addr ?m"
  have e: "?q = [] \<longleftrightarrow> nread pi = nwrite pi" by (simp add: pipe_bytes_def ring_bytes_empty)
  have "?c \<le> ?m" using length_takeWhile_le [of copyout "[addr..<addr + ?m]"] by (simp add: writable_bytes_def)
  then have l: "length (take ?c ?q) = ?c" by simp
  obtain pi' where "piperead_loop copyout addr 0 (nat n) [] pi = (take ?c ?q, pi')" "pipe_ok pi'" "pipe_bytes pi' = drop (if ?c < ?m then Suc ?c else ?c) ?q"
    using piperead_loop_exact [OF assms, of "nat n" copyout addr 0 "[]"] by (auto simp: Let_def)
  then show ?thesis using e l by (auto simp: piperead_def Let_def)
qed

text \<open>Two bytes, a buffer of two bytes of which only the first can be written: one byte arrives, none is left.\<close>

theorem piperead_result_witness:
  "\<exists>pi pi'. pipe_bytes pi = [7, 8] \<and> piperead (\<lambda>a. a < 10) False 9 2 pi = Done 1 ([7], pi') \<and> pipe_bytes pi' = []"
proof -
  let ?p = "pipe_put (pipe_put (new_pipe (replicate 512 0)) 7) 8"
  have ok: "pipe_ok (new_pipe (replicate 512 0))" and e: "pipe_bytes (new_pipe (replicate 512 0)) = []"
    using stream_ok_new [of "replicate 512 0"] by (simp_all add: stream_ok_def)
  have 1: "pipe_ok (pipe_put (new_pipe (replicate 512 0)) 7)" "pipe_bytes (pipe_put (new_pipe (replicate 512 0)) 7) = [7]"
    using pipe_put_bytes [OF ok, of 7] e by simp_all
  have p: "pipe_ok ?p" "pipe_bytes ?p = [7, 8]" using pipe_put_bytes [OF 1(1), of 8] 1(2) by simp_all
  have w: "writable_bytes (\<lambda>a. a < 10) 9 2 = 1" by (simp add: numeral_2_eq_2)
  from piperead_result [OF p(1), of "\<lambda>a. a < 10" False 9 2] p(2) w
  have "\<exists>pi'. piperead (\<lambda>a. a < 10) False 9 2 ?p = Done 1 ([7], pi') \<and> pipe_bytes pi' = []" by (auto simp: Let_def)
  then show ?thesis using p(2) by blast
qed

end
