(* ===== verification/Uart.thy ===== *)
theory Uart
  imports Word_Ring
begin

text \<open>
  The driver of the 16550 serial port (\<^verbatim>\<open>kernel/uart.c\<close>) and \<^verbatim>\<open>consputc\<close> of
  \<^verbatim>\<open>kernel/console.c\<close>. The device is part of the state: its configuration registers with
  the divisor latch that bit 7 of \<^verbatim>\<open>LCR\<close> selects, the bytes handed to the transmit holding
  register in order (\<open>thr\<close>), the received bytes that wait to be read (\<open>rx\<close>), and \<open>idle k\<close>,
  whether the transmitter is idle at the \<open>k\<close>-th read of \<^verbatim>\<open>LSR\<close>. The driver's own state is the
  ring \<open>uart_tx_buf\<close> with its 64-bit counters. Code under \<^verbatim>\<open>uart_tx_lock\<close> is atomic.
\<close>

abbreviation (input) UART_TX_BUF_SIZE :: nat where "UART_TX_BUF_SIZE \<equiv> 32"

record uart =
  uart_tx_buf :: "u8 list"
  uart_tx_w :: u64
  uart_tx_r :: u64
  panicked :: bool
  thr :: "u8 list"
  rx :: "u8 list"
  idle :: "nat \<Rightarrow> bool"
  lsr_reads :: nat
  dll :: u8
  dlm :: u8
  ier :: u8
  fcr :: u8
  lcr :: u8

definition LSR :: "uart \<Rightarrow> u8 \<times> uart" where
  "LSR u = ((if rx u = [] then 0 else 1) + (if idle u (lsr_reads u) then 32 else 0),
            u\<lparr>lsr_reads := lsr_reads u + 1\<rparr>)"

definition WriteReg :: "nat \<Rightarrow> u8 \<Rightarrow> uart \<Rightarrow> uart" where
  "WriteReg reg v u =
     (if reg = 0 then (if bit (lcr u) 7 then u\<lparr>dll := v\<rparr> else u\<lparr>thr := thr u @ [v]\<rparr>)
      else if reg = 1 then (if bit (lcr u) 7 then u\<lparr>dlm := v\<rparr> else u\<lparr>ier := v\<rparr>)
      else if reg = 2 then u\<lparr>fcr := v\<rparr>
      else if reg = 3 then u\<lparr>lcr := v\<rparr> else u)"

definition uartinit :: "uart \<Rightarrow> uart" where
  "uartinit u =
     (let u = WriteReg 1 0 u;
          u = WriteReg 3 (push_bit 7 1) u;
          u = WriteReg 0 3 u;
          u = WriteReg 1 0 u;
          u = WriteReg 3 (push_bit 0 3) u;
          u = WriteReg 2 (or (push_bit 0 1) (push_bit 1 3)) u
      in WriteReg 1 (or (push_bit 1 1) (push_bit 0 1)) u)"

text \<open>\<^verbatim>\<open>uartstart\<close> ends because each round takes one byte out of the ring.\<close>

function uartstart :: "uart \<Rightarrow> uart" where
  "uartstart u =
     (if uart_tx_w u = uart_tx_r u then u
      else
        let (s, u) = LSR u
        in if and s (push_bit 5 1) = 0 then u
           else
             let c = uart_tx_buf u ! (unat (uart_tx_r u) mod UART_TX_BUF_SIZE);
                 u = u\<lparr>uart_tx_r := uart_tx_r u + 1\<rparr>
             in uartstart (WriteReg 0 c u))"
  by pat_completeness auto

lemma WriteReg_0_ring [simp]:
  "uart_tx_w (WriteReg 0 c u) = uart_tx_w u" "uart_tx_r (WriteReg 0 c u) = uart_tx_r u"
  "uart_tx_buf (WriteReg 0 c u) = uart_tx_buf u" "lcr (WriteReg 0 c u) = lcr u"
  "idle (WriteReg 0 c u) = idle u" "lsr_reads (WriteReg 0 c u) = lsr_reads u" "rx (WriteReg 0 c u) = rx u"
  "panicked (WriteReg 0 c u) = panicked u"
  by (simp_all add: WriteReg_def)

termination uartstart
  by (relation "measure (\<lambda>u. unat (uart_tx_w u - uart_tx_r u))")
    (auto simp: LSR_def count_pred unat_gt_0 dest: not_sym)

declare uartstart.simps [simp del]

text \<open>\<^verbatim>\<open>uartputc\<close> sleeps (\<open>Sleeps\<close>) while the ring is full, and spins for ever after a panic.\<close>

definition uartputc :: "u8 \<Rightarrow> uart \<Rightarrow> uart res" where
  "uartputc c u =
     (if panicked u \<or> uart_tx_w u = uart_tx_r u + word_of_nat UART_TX_BUF_SIZE then Sleeps
      else
        let u = u\<lparr>uart_tx_buf := (uart_tx_buf u)[unat (uart_tx_w u) mod UART_TX_BUF_SIZE := c],
                  uart_tx_w := uart_tx_w u + 1\<rparr>
        in Ok (uartstart u))"

text \<open>The polling loop; \<open>None\<close> is a loop that does not end.\<close>

partial_function (option) wait_idle :: "uart \<Rightarrow> uart option" where
  "wait_idle u =
     (let (s, u) = LSR u in if and s (push_bit 5 1) = 0 then wait_idle u else Some u)"

definition uartputc_sync :: "u8 \<Rightarrow> uart \<Rightarrow> uart option" where
  "uartputc_sync c u =
     (if panicked u then None
      else case wait_idle u of None \<Rightarrow> None | Some u \<Rightarrow> Some (WriteReg 0 c u))"

definition uartgetc :: "uart \<Rightarrow> int \<times> uart" where
  "uartgetc u =
     (let (s, u) = LSR u
      in if and s 1 \<noteq> 0 then (uint (hd (rx u)), u\<lparr>rx := tl (rx u)\<rparr>) else (-1, u))"

text \<open>\<^verbatim>\<open>BACKSPACE\<close> is a value outside the range of characters.\<close>

abbreviation (input) BACKSPACE :: int where "BACKSPACE \<equiv> 0x100"

definition consputc :: "int \<Rightarrow> uart \<Rightarrow> uart option" where
  "consputc c u =
     (if c = BACKSPACE then
        Option.bind (uartputc_sync 8 u) (\<lambda>u. Option.bind (uartputc_sync 32 u) (uartputc_sync 8))
      else uartputc_sync (word_of_int c) u)"

section \<open>The transmit ring\<close>

definition tx_bytes :: "uart \<Rightarrow> u8 list" where
  "tx_bytes u = ring_bytes (uart_tx_buf u) (uart_tx_r u) (uart_tx_w u)"

definition uart_ok :: "uart \<Rightarrow> bool" where
  "uart_ok u \<longleftrightarrow> length (uart_tx_buf u) = UART_TX_BUF_SIZE \<and>
     unat (uart_tx_w u - uart_tx_r u) \<le> UART_TX_BUF_SIZE \<and> \<not> bit (lcr u) 7"

definition tx_put :: "uart \<Rightarrow> u8 \<Rightarrow> uart" where
  "tx_put u c = u\<lparr>uart_tx_buf := (uart_tx_buf u)[unat (uart_tx_w u) mod UART_TX_BUF_SIZE := c],
                  uart_tx_w := uart_tx_w u + 1\<rparr>"

definition tx_get :: "uart \<Rightarrow> u8 option \<times> uart" where
  "tx_get u = (Some (uart_tx_buf u ! (unat (uart_tx_r u) mod UART_TX_BUF_SIZE)), u\<lparr>uart_tx_r := uart_tx_r u + 1\<rparr>)"

lemma tx_ring_size: "length d = 32 \<Longrightarrow> ring_size_ok d TYPE(64)"
  by (simp add: ring_size_ok_def)

lemma tx_put_bytes:
  assumes "uart_ok u" and "length (tx_bytes u) < UART_TX_BUF_SIZE"
  shows "uart_ok (tx_put u c)" "tx_bytes (tx_put u c) = tx_bytes u @ [c]"
proof -
  have l: "length (uart_tx_buf u) = 32" "unat (uart_tx_w u - uart_tx_r u) < 32"
    using assms by (auto simp: uart_ok_def tx_bytes_def)
  have "unat (uart_tx_w u + 1 - uart_tx_r u) = Suc (unat (uart_tx_w u - uart_tx_r u))"
    by (rule count_Suc [OF l(2)]) simp
  then show "uart_ok (tx_put u c)" using l assms(1) by (simp add: uart_ok_def tx_put_def)
  show "tx_bytes (tx_put u c) = tx_bytes u @ [c]"
    using ring_bytes_put [OF tx_ring_size [OF l(1)], of "uart_tx_w u" "uart_tx_r u" c] l
    by (simp add: tx_bytes_def tx_put_def)
qed

lemma tx_get_bytes:
  assumes "uart_ok u" and "tx_bytes u \<noteq> []"
  shows "uart_ok (snd (tx_get u))" "fst (tx_get u) = Some (hd (tx_bytes u))"
    "tx_bytes (snd (tx_get u)) = tl (tx_bytes u)"
proof -
  have ne: "uart_tx_r u \<noteq> uart_tx_w u" using assms(2) by (simp add: tx_bytes_def ring_bytes_empty)
  have l: "length (uart_tx_buf u) = 32" using assms(1) by (simp add: uart_ok_def)
  show "uart_ok (snd (tx_get u))"
    using assms(1) count_pred [OF ne] by (auto simp: uart_ok_def tx_get_def)
  show "fst (tx_get u) = Some (hd (tx_bytes u))" "tx_bytes (snd (tx_get u)) = tl (tx_bytes u)"
    using ring_bytes_get [OF ne, of "uart_tx_buf u"] l by (simp_all add: tx_bytes_def tx_get_def)
qed

interpretation tx_fifo: bounded_fifo uart_ok tx_bytes UART_TX_BUF_SIZE tx_put tx_get
  by unfold_locales (simp_all add: tx_put_bytes tx_get_bytes, simp add: uart_ok_def tx_bytes_def)

lemma LSR_ring [simp]:
  "uart_tx_w (snd (LSR u)) = uart_tx_w u" "uart_tx_r (snd (LSR u)) = uart_tx_r u"
  "uart_tx_buf (snd (LSR u)) = uart_tx_buf u" "thr (snd (LSR u)) = thr u" "lcr (snd (LSR u)) = lcr u"
  "idle (snd (LSR u)) = idle u" "lsr_reads (snd (LSR u)) = Suc (lsr_reads u)" "rx (snd (LSR u)) = rx u"
  "panicked (snd (LSR u)) = panicked u"
  by (simp_all add: LSR_def)

lemma LSR_idle: "and (fst (LSR u)) (push_bit 5 1) = 0 \<longleftrightarrow> \<not> idle u (lsr_reads u)"
  by (simp add: LSR_def)

lemma LSR_ready: "and (fst (LSR u)) 1 = 0 \<longleftrightarrow> rx u = []"
  by (simp add: LSR_def)

lemma uartstart_unfold:
  "uartstart u =
     (if uart_tx_w u = uart_tx_r u then u
      else if \<not> idle u (lsr_reads u) then snd (LSR u)
      else uartstart (WriteReg 0 (the (fst (tx_get u))) (snd (tx_get (snd (LSR u))))))"
  by (subst uartstart.simps) (simp add: LSR_idle [symmetric] case_prod_unfold Let_def tx_get_def)

lemma tx_get_LSR: "snd (tx_get (snd (LSR u))) = (snd (tx_get u))\<lparr>lsr_reads := Suc (lsr_reads u)\<rparr>"
  by (simp add: tx_get_def LSR_def)

lemma uart_fields_lsr [simp]:
  "tx_bytes (u\<lparr>lsr_reads := n\<rparr>) = tx_bytes u" "uart_ok (u\<lparr>lsr_reads := n\<rparr>) = uart_ok u"
  "tx_bytes (u\<lparr>thr := t\<rparr>) = tx_bytes u" "uart_ok (u\<lparr>thr := t\<rparr>) = uart_ok u"
  "tx_bytes (u\<lparr>rx := x\<rparr>) = tx_bytes u" "uart_ok (u\<lparr>rx := x\<rparr>) = uart_ok u"
  by (simp_all add: tx_bytes_def uart_ok_def)

lemma WriteReg_thr: "uart_ok u \<Longrightarrow> WriteReg 0 c u = u\<lparr>thr := thr u @ [c]\<rparr>"
  by (simp add: WriteReg_def uart_ok_def)

lemma LSR_snd: "snd (LSR u) = u\<lparr>lsr_reads := Suc (lsr_reads u)\<rparr>"
  by (simp add: LSR_def)

text \<open>
  \<^verbatim>\<open>uartstart\<close> moves bytes from the front of the ring to the device until the ring is empty
  or the transmitter is busy.
\<close>

lemma uartstart_ok:
  assumes "uart_ok u"
  shows "uart_ok (uartstart u) \<and> panicked (uartstart u) = panicked u \<and> rx (uartstart u) = rx u \<and>
    idle (uartstart u) = idle u \<and>
    (\<exists>bs. thr (uartstart u) = thr u @ bs \<and> tx_bytes u = bs @ tx_bytes (uartstart u)) \<and>
    (tx_bytes (uartstart u) = [] \<or> lsr_reads u < lsr_reads (uartstart u) \<and> \<not> idle u (lsr_reads (uartstart u) - 1))"
  using assms
proof (induction "length (tx_bytes u)" arbitrary: u rule: less_induct)
  case less
  show ?case
  proof (cases "tx_bytes u = []")
    case True
    then have "uart_tx_w u = uart_tx_r u" by (simp add: tx_bytes_def ring_bytes_empty)
    then have "uartstart u = u" by (simp add: uartstart_unfold)
    with True less.prems show ?thesis by simp
  next
    case ne: False
    then have w: "uart_tx_w u \<noteq> uart_tx_r u" by (auto simp: tx_bytes_def ring_bytes_empty)
    note G = tx_get_bytes [OF less.prems ne]
    show ?thesis
    proof (cases "idle u (lsr_reads u)")
      case False
      then have "uartstart u = u\<lparr>lsr_reads := Suc (lsr_reads u)\<rparr>"
        using w by (simp add: uartstart_unfold [of u] LSR_snd)
      with False less.prems show ?thesis by simp
    next
      case True
      define u' where "u' = (snd (tx_get u))\<lparr>lsr_reads := Suc (lsr_reads u), thr := thr u @ [hd (tx_bytes u)]\<rparr>"
      have "thr (snd (tx_get u)) = thr u" by (simp add: tx_get_def)
      then have e: "uartstart u = uartstart u'"
        using True w G(1,2) by (subst uartstart_unfold) (simp add: u'_def tx_get_LSR WriteReg_thr)
      have u': "uart_ok u'" "tx_bytes u' = tl (tx_bytes u)" "panicked u' = panicked u" "rx u' = rx u" "idle u' = idle u"
          "thr u' = thr u @ [hd (tx_bytes u)]" "lsr_reads u' = Suc (lsr_reads u)"
        using G(1,3) by (simp_all add: u'_def) (simp_all add: tx_get_def)
      then have l: "length (tx_bytes u') < length (tx_bytes u)" using ne by simp
      have "tx_bytes u = hd (tx_bytes u) # tl (tx_bytes u)" using ne by simp
      then show ?thesis
        unfolding e using less.hyps [OF l u'(1)] u'(2-7)
        by (metis Suc_lessD append.assoc append_Cons append_Nil)
    qed
  qed
qed

lemma uartputc_tx_put:
  "uartputc c u = (if panicked u \<or> uart_tx_w u = uart_tx_r u + word_of_nat UART_TX_BUF_SIZE then Sleeps
     else Ok (uartstart (tx_put u c)))"
  by (simp add: uartputc_def tx_put_def)

lemma tx_full: "uart_tx_w u = uart_tx_r u + word_of_nat UART_TX_BUF_SIZE \<longleftrightarrow> length (tx_bytes u) = UART_TX_BUF_SIZE"
proof -
  have "uart_tx_w u = uart_tx_r u + word_of_nat UART_TX_BUF_SIZE \<longleftrightarrow> uart_tx_w u - uart_tx_r u = word_of_nat UART_TX_BUF_SIZE"
    by (simp add: algebra_simps)
  also have "\<dots> \<longleftrightarrow> unat (uart_tx_w u - uart_tx_r u) = 32" by (simp add: word_unat_eq_iff unat_of_nat)
  finally show ?thesis by (simp add: tx_bytes_def)
qed

lemma uartputc_ok:
  assumes "uart_ok u"
  shows "uartputc c u = Sleeps \<and> (panicked u \<or> length (tx_bytes u) = UART_TX_BUF_SIZE) \<or>
    (\<exists>u'. uartputc c u = Ok u' \<and> uart_ok u' \<and> thr u' @ tx_bytes u' = thr u @ tx_bytes u @ [c] \<and>
       panicked u' = panicked u \<and> rx u' = rx u \<and> idle u' = idle u)"
proof (cases "panicked u \<or> length (tx_bytes u) = UART_TX_BUF_SIZE")
  case True
  then show ?thesis unfolding uartputc_tx_put tx_full by auto
next
  case False
  with tx_fifo.contents_bound [OF assms] have "length (tx_bytes u) < UART_TX_BUF_SIZE" by simp
  note P = tx_put_bytes [OF assms this, of c]
  have "thr (tx_put u c) = thr u" "panicked (tx_put u c) = panicked u" "rx (tx_put u c) = rx u" "idle (tx_put u c) = idle u"
    by (simp_all add: tx_put_def)
  with uartstart_ok [OF P(1)] P(2) False show ?thesis unfolding uartputc_tx_put tx_full by auto
qed

section \<open>Polling output\<close>

text \<open>The transmitter always becomes idle again.\<close>

definition live :: "uart \<Rightarrow> bool" where
  "live u \<longleftrightarrow> (\<forall>k. \<exists>j \<ge> k. idle u j)"

lemma wait_idle_unfold:
  "wait_idle u = (if idle u (lsr_reads u) then Some (snd (LSR u)) else wait_idle (snd (LSR u)))"
  unfolding wait_idle.simps [of u] case_prod_unfold Let_def LSR_idle by simp

lemma wait_idle_first:
  assumes "idle u (lsr_reads u + k)" and "\<forall>i < k. \<not> idle u (lsr_reads u + i)"
  shows "wait_idle u = Some (u\<lparr>lsr_reads := Suc (lsr_reads u + k)\<rparr>)"
  using assms
proof (induction k arbitrary: u)
  case 0
  then show ?case by (simp add: wait_idle_unfold [of u] LSR_snd)
next
  case (Suc k)
  have "\<not> idle u (lsr_reads u)" using Suc.prems(2) by (metis add.right_neutral zero_less_Suc)
  moreover have "wait_idle (snd (LSR u)) = Some ((snd (LSR u))\<lparr>lsr_reads := Suc (lsr_reads (snd (LSR u)) + k)\<rparr>)"
  proof (rule Suc.IH)
    show "\<forall>i<k. \<not> idle (snd (LSR u)) (lsr_reads (snd (LSR u)) + i)"
      using Suc.prems(2) by (auto dest: spec [of _ "Suc _"])
  qed (use Suc.prems(1) in simp)
  ultimately show ?case by (simp add: wait_idle_unfold [of u] LSR_snd)
qed

lemma wait_idle_live:
  assumes "live u"
  shows "\<exists>n. wait_idle u = Some (u\<lparr>lsr_reads := n\<rparr>)"
proof -
  obtain j where j: "lsr_reads u \<le> j" "idle u j" using assms by (auto simp: live_def)
  define k where "k = (LEAST k. idle u (lsr_reads u + k))"
  have "idle u (lsr_reads u + (j - lsr_reads u))" using j by simp
  then have "idle u (lsr_reads u + k)" unfolding k_def by (rule LeastI)
  moreover have "\<forall>i < k. \<not> idle u (lsr_reads u + i)" using not_less_Least k_def by blast
  ultimately show ?thesis using wait_idle_first by blast
qed

lemma uartputc_sync_ok:
  assumes "live u" and "\<not> panicked u" and "uart_ok u"
  shows "\<exists>n. uartputc_sync c u = Some (u\<lparr>lsr_reads := n, thr := thr u @ [c]\<rparr>)"
proof -
  obtain n where "wait_idle u = Some (u\<lparr>lsr_reads := n\<rparr>)" using wait_idle_live [OF assms(1)] by blast
  then show ?thesis using assms(2,3) by (auto simp: uartputc_sync_def WriteReg_thr)
qed

definition echo :: "int \<Rightarrow> u8 list" where
  "echo c = (if c = BACKSPACE then [8, 32, 8] else [word_of_int c])"

definition uart_ready :: "uart \<Rightarrow> bool" where
  "uart_ready u \<longleftrightarrow> uart_ok u \<and> live u \<and> \<not> panicked u"

lemma uart_ready_upd [simp]:
  "uart_ready (u\<lparr>lsr_reads := n\<rparr>) = uart_ready u" "uart_ready (u\<lparr>thr := t\<rparr>) = uart_ready u"
  "uart_ready (u\<lparr>rx := x\<rparr>) = uart_ready u"
  by (simp_all add: uart_ready_def live_def)

lemma uartputc_sync_ready:
  "uart_ready u \<Longrightarrow> \<exists>n. uartputc_sync c u = Some (u\<lparr>lsr_reads := n, thr := thr u @ [c]\<rparr>)"
  by (simp add: uart_ready_def uartputc_sync_ok)

lemma consputc_ok:
  assumes "uart_ready u"
  shows "\<exists>n. consputc c u = Some (u\<lparr>lsr_reads := n, thr := thr u @ echo c\<rparr>)"
proof (cases "c = BACKSPACE")
  case True
  obtain n where 1: "uartputc_sync 8 u = Some (u\<lparr>lsr_reads := n, thr := thr u @ [8]\<rparr>)"
    using uartputc_sync_ready [OF assms] by blast
  obtain m where 2: "uartputc_sync 32 (u\<lparr>lsr_reads := n, thr := thr u @ [8]\<rparr>) =
      Some (u\<lparr>lsr_reads := m, thr := thr u @ [8, 32]\<rparr>)"
    using uartputc_sync_ready [of "u\<lparr>lsr_reads := n, thr := thr u @ [8]\<rparr>" 32] assms by auto
  obtain k where 3: "uartputc_sync 8 (u\<lparr>lsr_reads := m, thr := thr u @ [8, 32]\<rparr>) =
      Some (u\<lparr>lsr_reads := k, thr := thr u @ [8, 32, 8]\<rparr>)"
    using uartputc_sync_ready [of "u\<lparr>lsr_reads := m, thr := thr u @ [8, 32]\<rparr>" 8] assms by auto
  show ?thesis using True 1 2 3 by (auto simp: consputc_def echo_def)
next
  case False
  then show ?thesis using uartputc_sync_ready [OF assms] by (auto simp: consputc_def echo_def)
qed

end
