(* ===== verification/Printf.thy ===== *)
theory Printf
  imports Uart Proc_Table
begin

text \<open>
  Formatted output: \<^verbatim>\<open>kernel/printf.c\<close>, \<^verbatim>\<open>user/printf.c\<close> and \<^verbatim>\<open>procdump\<close> of
  \<^verbatim>\<open>kernel/proc.c\<close>. The functions compute the characters they put out, in order; the kernel
  sends each through \<^verbatim>\<open>consputc\<close>, the user library through \<^verbatim>\<open>write(fd, &c, 1)\<close>. \<open>None\<close> is a
  write behind the 16-byte digit buffer or an argument that is missing or of the wrong kind. Formats
  and the strings for %s are C strings: the lists hold the bytes before the terminating NUL, and no NUL.
\<close>

datatype va_value = Num u64 | Str "string option"

abbreviation (input) kdigits :: string where "kdigits \<equiv> ''0123456789abcdef''"
abbreviation (input) udigits :: string where "udigits \<equiv> ''0123456789ABCDEF''"

definition va_int :: "u64 \<Rightarrow> int" where
  "va_int w = sint (ucast w :: u32)"

text \<open>The do-while loop with \<open>room\<close> bytes left in \<^verbatim>\<open>buf\<close>.\<close>

fun put_digits :: "string \<Rightarrow> nat \<Rightarrow> nat \<Rightarrow> nat \<Rightarrow> string \<Rightarrow> string option" where
  "put_digits digits base 0 x buf = None"
| "put_digits digits base (Suc room) x buf =
     (let buf = buf @ [digits ! (x mod base)]
      in if x div base \<noteq> 0 then put_digits digits base room (x div base) buf else Some buf)"

definition printint :: "string \<Rightarrow> int \<Rightarrow> nat \<Rightarrow> bool \<Rightarrow> string option" where
  "printint digits xx base sign =
     (let neg = (sign \<and> xx < 0);
          x = (if neg then word_of_int (- xx) else word_of_int xx :: u32)
      in case put_digits digits base 16 (unat x) [] of
           None \<Rightarrow> None
         | Some buf \<Rightarrow>
             if neg then (if length buf < 16 then Some (rev (buf @ ''-'')) else None)
             else Some (rev buf))"

fun ptr_digits :: "string \<Rightarrow> nat \<Rightarrow> u64 \<Rightarrow> string" where
  "ptr_digits digits 0 x = []"
| "ptr_digits digits (Suc k) x = digits ! unat (drop_bit 60 x) # ptr_digits digits k (push_bit 4 x)"

definition printptr :: "string \<Rightarrow> u64 \<Rightarrow> string" where
  "printptr digits x = ''0x'' @ ptr_digits digits 16 x"

definition null_str :: "string option \<Rightarrow> string" where
  "null_str s = (case s of None \<Rightarrow> ''(null)'' | Some s \<Rightarrow> s)"

definition emit :: "string \<Rightarrow> string option \<Rightarrow> string option" where
  "emit s r = map_option (\<lambda>t. s @ t) r"

section \<open>The kernel's printf\<close>

text \<open>The \<^verbatim>\<open>switch\<close> on the conversion character: what is printed, and the arguments left.\<close>

definition kconv :: "char \<Rightarrow> va_value list \<Rightarrow> (string \<times> va_value list) option" where
  "kconv c ap =
     (if c = CHR ''d'' then
        (case ap of Num w # ap \<Rightarrow> map_option (\<lambda>s. (s, ap)) (printint kdigits (va_int w) 10 True) | _ \<Rightarrow> None)
      else if c = CHR ''x'' then
        (case ap of Num w # ap \<Rightarrow> map_option (\<lambda>s. (s, ap)) (printint kdigits (va_int w) 16 True) | _ \<Rightarrow> None)
      else if c = CHR ''p'' then
        (case ap of Num w # ap \<Rightarrow> Some (printptr kdigits w, ap) | _ \<Rightarrow> None)
      else if c = CHR ''s'' then
        (case ap of Str s # ap \<Rightarrow> Some (null_str s, ap) | _ \<Rightarrow> None)
      else if c = CHR ''%'' then Some (''%'', ap)
      else Some ([CHR ''%'', c], ap))"

fun printf_loop :: "string \<Rightarrow> va_value list \<Rightarrow> string option" where
  "printf_loop [] ap = Some []"
| "printf_loop [c] ap = Some (if c = CHR ''%'' then [] else [c])"
| "printf_loop (c # d # fmt) ap =
     (if c \<noteq> CHR ''%'' then emit [c] (printf_loop (d # fmt) ap)
      else case kconv d ap of None \<Rightarrow> None | Some (s, ap) \<Rightarrow> emit s (printf_loop fmt ap))"

fun consputs :: "string \<Rightarrow> uart \<Rightarrow> uart option" where
  "consputs [] u = Some u"
| "consputs (c # cs) u = (case consputc (int (of_char c)) u of None \<Rightarrow> None | Some u \<Rightarrow> consputs cs u)"

text \<open>A null format panics; \<^verbatim>\<open>pr.lock\<close> makes the output of one call contiguous.\<close>

definition printf :: "string \<Rightarrow> va_value list \<Rightarrow> uart \<Rightarrow> uart option" where
  "printf fmt ap u = (case printf_loop fmt ap of None \<Rightarrow> None | Some s \<Rightarrow> consputs s u)"

text \<open>The state in which \<^verbatim>\<open>panic\<close> spins for ever.\<close>

definition panic :: "string \<Rightarrow> uart \<Rightarrow> uart option" where
  "panic s u =
     Option.bind (printf ''panic: '' [] u) (\<lambda>u.
     Option.bind (printf s [] u) (\<lambda>u.
     Option.bind (printf [CHR 0x0A] [] u) (\<lambda>u. Some (u\<lparr>panicked := True\<rparr>))))"

section \<open>The process listing\<close>

definition state_name :: "procstate \<Rightarrow> string" where
  "state_name s = (case s of
      UNUSED \<Rightarrow> ''unused'' | USED \<Rightarrow> ''used'' | SLEEPING \<Rightarrow> ''sleep '' | RUNNABLE \<Rightarrow> ''runble''
    | RUNNING \<Rightarrow> ''run   '' | ZOMBIE \<Rightarrow> ''zombie'')"

fun procdump_loop :: "proc list \<Rightarrow> uart \<Rightarrow> uart option" where
  "procdump_loop [] u = Some u"
| "procdump_loop (p # ps) u =
     (if p_state p = UNUSED then procdump_loop ps u
      else
        Option.bind (printf ''%d %s %s'' [Num (word_of_int (p_pid p)), Str (Some (state_name (p_state p))),
                                          Str (Some (p_name p))] u) (\<lambda>u.
        Option.bind (printf [CHR 0x0A] [] u) (procdump_loop ps)))"

definition procdump :: "proc list \<Rightarrow> uart \<Rightarrow> uart option" where
  "procdump ps u = Option.bind (printf [CHR 0x0A] [] u) (procdump_loop ps)"

section \<open>The user library's printf\<close>

definition uconv :: "char \<Rightarrow> va_value list \<Rightarrow> (string \<times> va_value list) option" where
  "uconv c ap =
     (if c = CHR ''d'' then
        (case ap of Num w # ap \<Rightarrow> map_option (\<lambda>s. (s, ap)) (printint udigits (va_int w) 10 True) | _ \<Rightarrow> None)
      else if c = CHR ''l'' then
        (case ap of Num w # ap \<Rightarrow> map_option (\<lambda>s. (s, ap)) (printint udigits (va_int w) 10 False) | _ \<Rightarrow> None)
      else if c = CHR ''x'' then
        (case ap of Num w # ap \<Rightarrow> map_option (\<lambda>s. (s, ap)) (printint udigits (va_int w) 16 False) | _ \<Rightarrow> None)
      else if c = CHR ''p'' then
        (case ap of Num w # ap \<Rightarrow> Some (printptr udigits w, ap) | _ \<Rightarrow> None)
      else if c = CHR ''s'' then
        (case ap of Str s # ap \<Rightarrow> Some (null_str s, ap) | _ \<Rightarrow> None)
      else if c = CHR ''c'' then
        (case ap of Num w # ap \<Rightarrow> Some ([char_of (unat (ucast w :: u8))], ap) | _ \<Rightarrow> None)
      else if c = CHR ''%'' then Some ([c], ap)
      else Some ([CHR ''%'', c], ap))"

fun vprintf_loop :: "bool \<Rightarrow> string \<Rightarrow> va_value list \<Rightarrow> string option" where
  "vprintf_loop state [] ap = Some []"
| "vprintf_loop False (c # fmt) ap =
     (if c = CHR ''%'' then vprintf_loop True fmt ap else emit [c] (vprintf_loop False fmt ap))"
| "vprintf_loop True (c # fmt) ap =
     (case uconv c ap of None \<Rightarrow> None | Some (s, ap) \<Rightarrow> emit s (vprintf_loop False fmt ap))"

definition vprintf :: "string \<Rightarrow> va_value list \<Rightarrow> string option" where
  "vprintf fmt ap = vprintf_loop False fmt ap"

section \<open>Numbers and their digits\<close>

definition num_value :: "(char \<Rightarrow> nat) \<Rightarrow> nat \<Rightarrow> string \<Rightarrow> nat" where
  "num_value f base s = foldl (\<lambda>n c. n * base + f c) 0 s"

definition digit_of :: "string \<Rightarrow> char \<Rightarrow> nat" where
  "digit_of digits c = length (takeWhile (\<lambda>d. d \<noteq> c) digits)"

lemma num_value_snoc [simp]: "num_value f base (s @ [c]) = num_value f base s * base + f c"
  by (simp add: num_value_def)

lemma put_digits_value:
  assumes "2 \<le> base" and "\<forall>i < base. f (digits ! i) = i" and "x < base ^ room" and "0 < room"
  shows "\<exists>ds. put_digits digits base room x buf = Some (buf @ ds) \<and> ds \<noteq> [] \<and> length ds \<le> room \<and>
    set ds \<subseteq> (\<lambda>i. digits ! i) ` {..<base} \<and> num_value f base (rev ds) = x"
  using assms(3,4)
proof (induction room arbitrary: x buf)
  case 0
  then show ?case by simp
next
  case (Suc room)
  let ?d = "digits ! (x mod base)"
  have d: "f ?d = x mod base" "?d \<in> (\<lambda>i. digits ! i) ` {..<base}" using assms(1,2) by auto
  show ?case
  proof (cases "x div base = 0")
    case True
    then have "x mod base = x" using assms(1) by (simp add: div_eq_0_iff)
    with d True show ?thesis by (intro exI [of _ "[?d]"]) (simp add: num_value_def)
  next
    case False
    have "x div base < base ^ room" using Suc.prems(1) by (simp add: less_mult_imp_div_less mult.commute)
    moreover have "0 < room" using False \<open>x div base < base ^ room\<close> by (cases room) auto
    ultimately obtain ds where ds: "put_digits digits base room (x div base) (buf @ [?d]) = Some ((buf @ [?d]) @ ds)"
        "length ds \<le> room" "set ds \<subseteq> (\<lambda>i. digits ! i) ` {..<base}" "num_value f base (rev ds) = x div base"
      using Suc.IH by blast
    have "x div base * base + x mod base = x" by simp
    with ds d False show ?thesis by (intro exI [of _ "?d # ds"]) simp
  qed
qed

lemma put_digits_more:
  "put_digits digits base room x buf = Some r \<Longrightarrow> put_digits digits base (room + k) x buf = Some r"
  by (induction digits base room x buf rule: put_digits.induct) (auto simp: Let_def split: if_splits)

definition parse_int :: "(char \<Rightarrow> nat) \<Rightarrow> nat \<Rightarrow> string \<Rightarrow> int" where
  "parse_int f base s = (case s of
      [] \<Rightarrow> 0
    | c # t \<Rightarrow> if c = CHR ''-'' then - int (num_value f base t) else int (num_value f base s))"

lemma unat_u32_of_int: "0 \<le> x \<Longrightarrow> x < 2 ^ 32 \<Longrightarrow> unat (word_of_int x :: u32) = nat x"
  by (simp add: unat_eq_nat_uint uint_word_of_int)

text \<open>
  The digits of a number in a base of at least 4 fit the buffer with room for the sign, and
  read back as the number.
\<close>

lemma printint_signed:
  assumes "4 < base" and "\<forall>i < base. f (digits ! i) = i" and "CHR ''-'' \<notin> (\<lambda>i. digits ! i) ` {..<base}"
    and xx: "- (2 ^ 31) \<le> xx" "xx < 2 ^ 31"
  shows "\<exists>s. printint digits xx base True = Some s \<and> parse_int f base s = xx"
proof -
  let ?x = "nat \<bar>xx\<bar>"
  have u: "unat (if xx < 0 then word_of_int (- xx) else word_of_int xx :: u32) = ?x"
    using xx unat_u32_of_int [of "- xx"] unat_u32_of_int [of xx] by (cases "xx < 0") simp_all
  have "?x < 5 ^ 15" using xx by simp
  also have "(5::nat) ^ 15 \<le> base ^ 15" using assms(1) by (intro power_mono) auto
  finally have x15: "?x < base ^ 15" .
  obtain ds where ds: "put_digits digits base 15 ?x [] = Some ds" "ds \<noteq> []" "length ds \<le> 15"
      "set ds \<subseteq> (\<lambda>i. digits ! i) ` {..<base}" "num_value f base (rev ds) = ?x"
    using put_digits_value [OF _ assms(2) x15, of "[]"] assms(1) by auto
  have p16: "put_digits digits base 16 ?x [] = Some ds"
    using ds(1) put_digits_more [of digits base 15 ?x "[]" ds 1] by simp
  obtain c t where ct: "rev ds = c # t" using ds(2) by (cases "rev ds") auto
  then have "c \<noteq> CHR ''-''" using ds(4) assms(3) by (metis list.set_intros(1) set_rev subsetD)
  show ?thesis
  proof (cases "xx < 0")
    case True
    then show ?thesis using p16 u ds(3,5) by (simp add: printint_def Let_def parse_int_def)
  next
    case False
    then show ?thesis using p16 u ds(5) ct \<open>c \<noteq> CHR ''-''\<close> by (simp add: printint_def Let_def parse_int_def)
  qed
qed

lemma dec_digits: "\<forall>i < 10. digit_of kdigits (kdigits ! i) = i"
  by (simp add: digit_of_def numeral_eq_Suc All_less_Suc)

lemma hex_digits: "\<forall>i < 16. digit_of kdigits (kdigits ! i) = i"
  by (simp add: digit_of_def numeral_eq_Suc All_less_Suc)

lemma sign_no_digit:
  assumes "base \<le> 16"
  shows "CHR ''-'' \<notin> (\<lambda>i. kdigits ! i) ` {..<base}"
proof
  assume "CHR ''-'' \<in> (\<lambda>i. kdigits ! i) ` {..<base}"
  then obtain i where i: "i < base" "CHR ''-'' = kdigits ! i" by (rule imageE) simp
  have "kdigits ! i \<in> set kdigits" by (rule nth_mem) (use i(1) assms in simp)
  then show False unfolding i(2) [symmetric] by simp
qed

lemma printint_nonneg:
  assumes "0 \<le> xx" "xx < 2 ^ 31"
  shows "\<exists>t. printint kdigits xx 10 True = Some t \<and> set t \<subseteq> (\<lambda>i. kdigits ! i) ` {..<10} \<and>
    num_value (digit_of kdigits) 10 t = nat xx"
proof -
  have "nat xx < 10 ^ 16" using assms by simp
  then obtain ds where ds: "put_digits kdigits 10 16 (nat xx) [] = Some ds"
      "set ds \<subseteq> (\<lambda>i. kdigits ! i) ` {..<10}" "num_value (digit_of kdigits) 10 (rev ds) = nat xx"
    using put_digits_value [OF _ dec_digits, of "nat xx" 16 "[]"] by auto
  have "unat (word_of_int xx :: u32) = nat xx" using assms by (simp add: unat_u32_of_int)
  then have "printint kdigits xx 10 True = Some (rev ds)" using assms ds(1) by (simp add: printint_def Let_def)
  then show ?thesis using ds(2,3) by auto
qed

lemma va_int_range: "- (2 ^ 31) \<le> va_int w \<and> va_int w < 2 ^ 31"
  unfolding va_int_def using sint_ge [of "ucast w :: u32"] sint_lt [of "ucast w :: u32"] by simp

lemmas printint_dec = printint_signed [OF _ dec_digits sign_no_digit]
lemmas printint_hex = printint_signed [OF _ hex_digits sign_no_digit]

text \<open>In base 10 the two digit tables are the same.\<close>

lemma put_digits_dec: "put_digits udigits 10 room x buf = put_digits kdigits 10 room x buf"
proof -
  have *: "\<forall>i < 10. udigits ! i = kdigits ! i" by (simp add: numeral_eq_Suc All_less_Suc)
  have "udigits ! (x mod 10) = kdigits ! (x mod 10)" for x :: nat using * by simp
  then show ?thesis
    by (induction kdigits "10 :: nat" room x buf rule: put_digits.induct) (simp_all add: Let_def)
qed

lemma printint_udigits: "printint udigits xx 10 sign = printint kdigits xx 10 sign"
  by (simp only: printint_def put_digits_dec)

section \<open>The formatting loops\<close>

text \<open>The arguments that a format asks for, in order.\<close>

definition take_arg :: "char \<Rightarrow> va_value list \<Rightarrow> va_value list option" where
  "take_arg c ap =
     (if c \<in> {CHR ''d'', CHR ''x'', CHR ''p''} then (case ap of Num w # ap \<Rightarrow> Some ap | _ \<Rightarrow> None)
      else if c = CHR ''s'' then (case ap of Str s # ap \<Rightarrow> Some ap | _ \<Rightarrow> None)
      else Some ap)"

fun args_match :: "string \<Rightarrow> va_value list \<Rightarrow> bool" where
  "args_match [] ap = True"
| "args_match [c] ap = True"
| "args_match (c # d # fmt) ap =
     (if c \<noteq> CHR ''%'' then args_match (d # fmt) ap
      else case take_arg d ap of None \<Rightarrow> False | Some ap \<Rightarrow> args_match fmt ap)"

lemma emit_Some [simp]: "emit s r = Some t \<longleftrightarrow> (\<exists>t'. r = Some t' \<and> t = s @ t')"
  by (auto simp: emit_def)

lemma emit_None [simp]: "emit s r = None \<longleftrightarrow> r = None"
  by (simp add: emit_def)

lemma printint_va:
  "\<exists>s. printint kdigits (va_int w) 10 True = Some s" "\<exists>s. printint kdigits (va_int w) 16 True = Some s"
  using printint_dec [of "va_int w"] printint_hex [of "va_int w"] va_int_range [of w] by auto

lemma take_arg_kconv: "take_arg c ap = Some ap' \<Longrightarrow> \<exists>s. kconv c ap = Some (s, ap')"
  using printint_va by (auto simp: take_arg_def kconv_def split: if_splits list.splits va_value.splits)

lemma printf_loop_total: "args_match fmt ap \<Longrightarrow> printf_loop fmt ap \<noteq> None"
  by (induction fmt ap rule: args_match.induct)
    (auto split: if_splits option.splits dest!: take_arg_kconv)

text \<open>Formats that mean the same to both libraries.\<close>

fun common_format :: "string \<Rightarrow> bool" where
  "common_format [] = True"
| "common_format [c] = True"
| "common_format (c # d # fmt) =
     (if c \<noteq> CHR ''%'' then common_format (d # fmt)
      else d \<notin> {CHR ''x'', CHR ''p'', CHR ''l'', CHR ''c''} \<and> common_format fmt)"

lemma uconv_kconv: "c \<notin> {CHR ''x'', CHR ''p'', CHR ''l'', CHR ''c''} \<Longrightarrow> uconv c ap = kconv c ap"
  by (simp add: uconv_def kconv_def printint_udigits split: list.split va_value.split)

lemma vprintf_loop_kernel: "common_format fmt \<Longrightarrow> vprintf_loop False fmt ap = printf_loop fmt ap"
  by (induction fmt ap rule: printf_loop.induct)
    (auto simp: emit_def uconv_kconv split: option.split if_splits)

section \<open>Output through the console\<close>

lemma consputs_ok:
  assumes "uart_ready u"
  shows "\<exists>n. consputs s u = Some (u\<lparr>lsr_reads := n, thr := thr u @ map (\<lambda>c. of_nat (of_char c)) s\<rparr>)"
  using assms
proof (induction s arbitrary: u)
  case Nil
  then show ?case by (auto intro: exI [of _ "lsr_reads u"])
next
  case (Cons c s)
  have "of_char c < (256 :: nat)" by simp
  then have "int (of_char c) \<noteq> 0x100" by linarith
  then obtain n where n: "consputc (int (of_char c)) u = Some (u\<lparr>lsr_reads := n, thr := thr u @ [of_nat (of_char c)]\<rparr>)"
    using consputc_ok [OF Cons.prems, of "int (of_char c)"] by (auto simp: echo_def)
  have "uart_ready (u\<lparr>lsr_reads := n, thr := thr u @ [of_nat (of_char c)]\<rparr>)" using Cons.prems by simp
  from Cons.IH [OF this] n show ?case by auto
qed

definition prints :: "(uart \<Rightarrow> uart option) \<Rightarrow> bool" where
  "prints f \<longleftrightarrow> (\<forall>u. uart_ready u \<longrightarrow> (\<exists>n t. f u = Some (u\<lparr>lsr_reads := n, thr := thr u @ t\<rparr>)))"

lemma prints_printf: "args_match fmt ap \<Longrightarrow> prints (printf fmt ap)"
  using printf_loop_total [of fmt ap] consputs_ok by (fastforce simp: prints_def printf_def)

lemma prints_bind: "prints f \<Longrightarrow> prints g \<Longrightarrow> prints (\<lambda>u. Option.bind (f u) g)"
proof (unfold prints_def, intro allI impI)
  fix u assume f: "\<forall>u. uart_ready u \<longrightarrow> (\<exists>n t. f u = Some (u\<lparr>lsr_reads := n, thr := thr u @ t\<rparr>))"
    and g: "\<forall>u. uart_ready u \<longrightarrow> (\<exists>n t. g u = Some (u\<lparr>lsr_reads := n, thr := thr u @ t\<rparr>))"
    and u: "uart_ready u"
  obtain n t where 1: "f u = Some (u\<lparr>lsr_reads := n, thr := thr u @ t\<rparr>)" using f u by blast
  obtain m s where "g (u\<lparr>lsr_reads := n, thr := thr u @ t\<rparr>) =
      Some (u\<lparr>lsr_reads := n, thr := thr u @ t, lsr_reads := m, thr := (thr u @ t) @ s\<rparr>)"
    using g [rule_format, of "u\<lparr>lsr_reads := n, thr := thr u @ t\<rparr>"] u by auto
  with 1 show "\<exists>n t. Option.bind (f u) g = Some (u\<lparr>lsr_reads := n, thr := thr u @ t\<rparr>)" by auto
qed

lemma prints_procdump_loop: "prints (procdump_loop ps)"
proof (induction ps)
  case Nil
  have "\<exists>n t. u = u\<lparr>lsr_reads := n, thr := thr u @ t\<rparr>" for u :: uart
    by (rule exI [of _ "lsr_reads u"], rule exI [of _ "[]"]) simp
  then show ?case by (simp add: prints_def)
next
  case (Cons p ps)
  have row: "prints (printf ''%d %s %s'' [Num (word_of_int (p_pid p)), Str (Some (state_name (p_state p))), Str (Some (p_name p))])"
    by (rule prints_printf) (simp add: take_arg_def)
  have nl: "prints (printf [CHR 0x0A] [])" by (rule prints_printf) simp
  show ?case
    using Cons prints_bind [OF row prints_bind [OF nl Cons]] by (cases "p_state p = UNUSED") simp_all
qed

lemma prints_procdump: "prints (procdump ps)"
  unfolding procdump_def by (rule prints_bind [OF prints_printf prints_procdump_loop]) simp

text \<open>
  For every argument, the kernel's conversions %d and %x stay inside the 16-byte digit
  buffer and print text that reads back, in base 10 and 16, as the signed 32-bit value of the
  argument.
\<close>

theorem printint_reads_back:
  "(\<exists>s. kconv CHR ''d'' (Num w # ap) = Some (s, ap) \<and> parse_int (digit_of kdigits) 10 s = va_int w) \<and>
   (\<exists>s. kconv CHR ''x'' (Num w # ap) = Some (s, ap) \<and> parse_int (digit_of kdigits) 16 s = va_int w)"
  using printint_dec [of "va_int w"] printint_hex [of "va_int w"] va_int_range [of w]
  by (auto simp: kconv_def)

section \<open>What a format means\<close>

text \<open>
  \<open>numeral_in base n s\<close>: \<open>s\<close> is the numeral of \<open>n\<close> in the base, without leading zeros; \<open>int_in\<close> the
  same with a minus sign for negative numbers. \<open>hex_word\<close>: the sixteen hexadecimal digits of a 64-bit word.
\<close>

definition numeral_in :: "nat \<Rightarrow> nat \<Rightarrow> string \<Rightarrow> bool" where
  "numeral_in base n s \<longleftrightarrow> s \<noteq> [] \<and> set s \<subseteq> set (take base ''0123456789abcdef'') \<and>
     num_value (digit_of ''0123456789abcdef'') base s = n \<and> (hd s = CHR ''0'' \<longrightarrow> s = ''0'')"

definition int_in :: "nat \<Rightarrow> int \<Rightarrow> string \<Rightarrow> bool" where
  "int_in base i s \<longleftrightarrow> (if i < 0 then \<exists>t. s = CHR ''-'' # t \<and> numeral_in base (nat (- i)) t else numeral_in base (nat i) s)"

definition hex_word :: "u64 \<Rightarrow> string \<Rightarrow> bool" where
  "hex_word w s \<longleftrightarrow> length s = 16 \<and> set s \<subseteq> set ''0123456789abcdef'' \<and> num_value (digit_of ''0123456789abcdef'') 16 s = unat w"

text \<open>
  The text that a format and its arguments stand for, conversion by conversion: %d and %x read an argument
  as a signed 32-bit number, %p as an address; a null string prints as \<^verbatim>\<open>(null)\<close>, %% as a percent
  sign, an unknown conversion as itself, and a percent sign at the end not at all.
\<close>

inductive formats :: "string \<Rightarrow> va_value list \<Rightarrow> string \<Rightarrow> bool" where
  fmt_end: "formats [] ap []"
| fmt_cut: "formats ''%'' ap []"
| fmt_char: "c \<noteq> CHR ''%'' \<Longrightarrow> formats fmt ap s \<Longrightarrow> formats (c # fmt) ap (c # s)"
| fmt_d: "int_in 10 (sint (ucast w :: u32)) t \<Longrightarrow> formats fmt ap s \<Longrightarrow> formats (CHR ''%'' # CHR ''d'' # fmt) (Num w # ap) (t @ s)"
| fmt_x: "int_in 16 (sint (ucast w :: u32)) t \<Longrightarrow> formats fmt ap s \<Longrightarrow> formats (CHR ''%'' # CHR ''x'' # fmt) (Num w # ap) (t @ s)"
| fmt_p: "hex_word w t \<Longrightarrow> formats fmt ap s \<Longrightarrow> formats (CHR ''%'' # CHR ''p'' # fmt) (Num w # ap) (''0x'' @ t @ s)"
| fmt_s: "formats fmt ap s \<Longrightarrow> formats (CHR ''%'' # CHR ''s'' # fmt) (Str (Some t) # ap) (t @ s)"
| fmt_null: "formats fmt ap s \<Longrightarrow> formats (CHR ''%'' # CHR ''s'' # fmt) (Str None # ap) (''(null)'' @ s)"
| fmt_percent: "formats fmt ap s \<Longrightarrow> formats (CHR ''%'' # CHR ''%'' # fmt) ap (CHR ''%'' # s)"
| fmt_other: "c \<notin> set ''dxps%'' \<Longrightarrow> formats fmt ap s \<Longrightarrow> formats (CHR ''%'' # c # fmt) ap (CHR ''%'' # c # s)"

lemma put_digits_lead:
  assumes "put_digits digits base room x buf = Some r" "0 < base"
  shows "\<exists>ds y. r = buf @ ds \<and> ds \<noteq> [] \<and> y < base \<and> last ds = digits ! y \<and> (x \<noteq> 0 \<longrightarrow> y \<noteq> 0)"
  using assms(1)
proof (induction room arbitrary: x buf)
  case (Suc room)
  let ?d = "digits ! (x mod base)"
  show ?case
  proof (cases "x div base = 0")
    case True
    then have "x < base" using assms(2) by (simp add: div_eq_0_iff)
    then show ?thesis using True Suc.prems by (intro exI [of _ "[?d]"] exI [of _ x]) (auto simp: Let_def)
  next
    case False
    then have "put_digits digits base room (x div base) (buf @ [?d]) = Some r" using Suc.prems by (simp add: Let_def)
    from Suc.IH [OF this] obtain ds y where "r = (buf @ [?d]) @ ds" "ds \<noteq> []" "y < base" "last ds = digits ! y" "y \<noteq> 0" using False by blast
    then show ?thesis by (intro exI [of _ "?d # ds"] exI [of _ y]) simp
  qed
qed simp

lemma kdigit_zero: "i < 16 \<Longrightarrow> kdigits ! i = CHR ''0'' \<Longrightarrow> i = 0"
  using hex_digits [rule_format, of i] by (simp add: digit_of_def)

lemma kdigits_take: "base \<le> 16 \<Longrightarrow> (\<lambda>i. kdigits ! i) ` {..<base} \<subseteq> set (take base kdigits)"
  by (auto simp: in_set_conv_nth intro!: exI)

lemma put_digits_numeral:
  assumes b: "2 \<le> base" "base \<le> 16" and x: "x < base ^ room" "0 < room"
  shows "\<exists>ds. put_digits kdigits base room x [] = Some ds \<and> length ds \<le> room \<and> numeral_in base x (rev ds)"
proof -
  have f: "\<forall>i < base. digit_of kdigits (kdigits ! i) = i" using hex_digits b(2) by (meson order_less_le_trans)
  obtain ds where ds: "put_digits kdigits base room x [] = Some ds" "ds \<noteq> []" "length ds \<le> room"
      "set ds \<subseteq> (\<lambda>i. kdigits ! i) ` {..<base}" "num_value (digit_of kdigits) base (rev ds) = x"
    using put_digits_value [OF b(1) f x, of "[]"] by auto
  have "rev ds = ''0''" if h: "hd (rev ds) = CHR ''0''"
  proof -
    obtain y where y: "y < base" "last ds = kdigits ! y" "x \<noteq> 0 \<longrightarrow> y \<noteq> 0" using put_digits_lead [OF ds(1)] b(1) by auto
    have "y = 0" using kdigit_zero [of y] y(1,2) b(2) h ds(2) by (simp add: hd_rev)
    then have "x = 0" using y(3) by blast
    then show ?thesis using ds(1) x(2) by (cases room) (auto simp: Let_def)
  qed
  then have "numeral_in base x (rev ds)"
    unfolding numeral_in_def using ds(2,4,5) kdigits_take [OF b(2)] by auto
  then show ?thesis using ds(1,3) by blast
qed

lemma printint_int_in:
  assumes b: "4 < base" "base \<le> 16" and xx: "- (2 ^ 31) \<le> xx" "xx < 2 ^ 31"
  shows "\<exists>s. printint kdigits xx base True = Some s \<and> int_in base xx s"
proof -
  let ?x = "nat \<bar>xx\<bar>"
  have u: "unat (if xx < 0 then word_of_int (- xx) else word_of_int xx :: u32) = ?x"
    using xx unat_u32_of_int [of "- xx"] unat_u32_of_int [of xx] by (cases "xx < 0") simp_all
  have "?x < 5 ^ 15" using xx by simp
  also have "(5::nat) ^ 15 \<le> base ^ 15" using b(1) by (intro power_mono) auto
  finally have x15: "?x < base ^ 15" .
  obtain ds where ds: "put_digits kdigits base 15 ?x [] = Some ds" "length ds \<le> 15" "numeral_in base ?x (rev ds)"
    using put_digits_numeral [OF _ b(2) x15] b(1) by auto
  have "put_digits kdigits base 16 ?x [] = Some ds" using put_digits_more [OF ds(1), of 1] by simp
  then show ?thesis using u ds(2,3) by (cases "xx < 0") (simp_all add: printint_def Let_def int_in_def)
qed

lemma num_value_Cons: "num_value f base (c # s) = f c * base ^ length s + num_value f base s"
proof (induction s rule: rev_induct)
  case Nil
  show ?case by (simp add: num_value_def)
next
  case (snoc d s)
  have "num_value f base (c # s @ [d]) = num_value f base (c # s) * base + f d" by (simp add: num_value_def)
  then show ?case using snoc by (simp add: algebra_simps)
qed

lemma ptr_digits_hex:
  assumes "k \<le> 16"
  shows "length (ptr_digits kdigits k x) = k \<and> set (ptr_digits kdigits k x) \<subseteq> set kdigits \<and>
    num_value (digit_of kdigits) 16 (ptr_digits kdigits k x) = unat x div 2 ^ (64 - 4 * k)"
  using assms
proof (induction k arbitrary: x)
  case 0
  have "unat x < 2 ^ 64" using unsigned_less [of x] by simp
  then show ?case by (simp add: num_value_def)
next
  case (Suc k)
  define u where "u = unat x"
  have u: "u < 2 ^ 64" using unsigned_less [of x] by (simp add: u_def)
  define t q where "t = u div 2 ^ 60" and "q = u mod 2 ^ 60"
  have uq: "u = t * 2 ^ 60 + q" "q < 2 ^ 60" by (simp_all add: t_def q_def)
  have t: "t < 16" using u by (simp add: t_def less_mult_imp_div_less)
  have d: "unat (drop_bit 60 x) = t" using unat_drop_bit_eq [of 60 x] drop_bit_eq_div [of 60 "unat x"] unfolding u_def t_def by metis
  have "unat (push_bit 4 x) = (16 * u) mod 2 ^ 64" by (simp add: u_def push_bit_eq_mult unat_word_ariths mult.commute)
  also have "16 * u = 16 * q + 2 ^ 64 * t" unfolding uq(1) by (simp add: algebra_simps)
  also have "(16 * q + 2 ^ 64 * t) mod 2 ^ 64 = 16 * q" using uq(2) by simp
  finally have p: "unat (push_bit 4 x) = 16 * q" .
  define e where "e = 60 - 4 * k"
  have e: "64 - 4 * k = 4 + e" "64 - 4 * Suc k = e" "60 = e + 4 * k" using Suc.prems by (simp_all add: e_def)
  have "16 * q div 2 ^ (64 - 4 * k) = q div 2 ^ e" unfolding e(1) power_add by simp
  moreover have "u div 2 ^ e = t * 16 ^ k + q div 2 ^ e"
  proof -
    have "u = q + (t * 16 ^ k) * 2 ^ e" unfolding uq(1) e(3) power_add power_mult by simp
    then show ?thesis by simp
  qed
  moreover have "digit_of kdigits (kdigits ! t) = t" "kdigits ! t \<in> set kdigits" using hex_digits t nth_mem [of t kdigits] by simp_all
  ultimately show ?case using Suc.IH [of "push_bit 4 x"] Suc.prems p d e(2) by (simp add: num_value_Cons u_def [symmetric])
qed

lemma kconv_formats:
  assumes "kconv d ap = Some (t, ap')" "formats fmt ap' s"
  shows "formats (CHR ''%'' # d # fmt) ap (t @ s)"
proof -
  have num: "int_in 10 (va_int w) x" if "printint kdigits (va_int w) 10 True = Some x" for w x
    using printint_int_in [of 10 "va_int w"] va_int_range [of w] that by auto
  have hex: "int_in 16 (va_int w) x" if "printint kdigits (va_int w) 16 True = Some x" for w x
    using printint_int_in [of 16 "va_int w"] va_int_range [of w] that by auto
  have ptr: "hex_word w (ptr_digits kdigits 16 w)" for w using ptr_digits_hex [of 16 w] by (simp add: hex_word_def)
  consider "d = CHR ''d''" | "d = CHR ''x''" | "d = CHR ''p''" | "d = CHR ''s''" | "d = CHR ''%''" | "d \<notin> set ''dxps%''" by auto
  then show ?thesis
  proof cases
    case 1
    then obtain w where "ap = Num w # ap'" "printint kdigits (va_int w) 10 True = Some t"
      using assms(1) by (auto simp: kconv_def split: list.splits va_value.splits)
    then show ?thesis using fmt_d [OF num [unfolded va_int_def] assms(2)] 1 by (simp add: va_int_def)
  next
    case 2
    then obtain w where "ap = Num w # ap'" "printint kdigits (va_int w) 16 True = Some t"
      using assms(1) by (auto simp: kconv_def split: list.splits va_value.splits)
    then show ?thesis using fmt_x [OF hex [unfolded va_int_def] assms(2)] 2 by (simp add: va_int_def)
  next
    case 3
    then obtain w where "ap = Num w # ap'" "t = ''0x'' @ ptr_digits kdigits 16 w"
      using assms(1) by (auto simp: kconv_def printptr_def split: list.splits va_value.splits)
    then show ?thesis using fmt_p [OF ptr assms(2), of w] 3 by simp
  next
    case 4
    then obtain x where "ap = Str x # ap'" "t = null_str x"
      using assms(1) by (auto simp: kconv_def split: list.splits va_value.splits)
    then show ?thesis using fmt_s [OF assms(2)] fmt_null [OF assms(2)] 4 by (cases x) (simp_all add: null_str_def)
  next
    case 5
    then show ?thesis using assms fmt_percent [OF assms(2)] by (auto simp: kconv_def)
  next
    case 6
    then have "t = [CHR ''%'', d]" "ap' = ap" using assms(1) by (auto simp: kconv_def)
    then show ?thesis using fmt_other [OF 6 assms(2)] by simp
  qed
qed

lemma printf_loop_formats: "printf_loop fmt ap = Some s \<Longrightarrow> formats fmt ap s"
proof (induction fmt ap arbitrary: s rule: printf_loop.induct)
  case (2 c ap)
  then show ?case using fmt_cut fmt_char [OF _ fmt_end] by (auto split: if_splits)
next
  case (3 c d fmt ap)
  show ?case
  proof (cases "c = CHR ''%''")
    case True
    then obtain t ap' s' where "kconv d ap = Some (t, ap')" "printf_loop fmt ap' = Some s'" "s = t @ s'"
      using "3.prems" by (auto split: option.splits)
    then show ?thesis using kconv_formats "3.IH"(2) [of "(t, ap')" t ap' s'] True by simp
  next
    case False
    then show ?thesis using "3.prems" "3.IH"(1) fmt_char by auto
  qed
qed (auto intro: fmt_end)

text \<open>A format and its arguments stand for one text only.\<close>

abbreviation (input) hexval :: "char \<Rightarrow> nat" where "hexval \<equiv> digit_of kdigits"

lemma hexval_less: "base \<le> 16 \<Longrightarrow> c \<in> set (take base kdigits) \<Longrightarrow> hexval c < base"
  using hex_digits by (auto simp: in_set_conv_nth)

lemma hexval_inj: "c \<in> set kdigits \<Longrightarrow> d \<in> set kdigits \<Longrightarrow> hexval c = hexval d \<Longrightarrow> c = d"
  unfolding in_set_conv_nth using hex_digits by auto

lemma hexval_pos: "c \<in> set kdigits \<Longrightarrow> c \<noteq> CHR ''0'' \<Longrightarrow> 0 < hexval c"
  by (simp add: digit_of_def)

lemma lead_pos:
  assumes "s \<noteq> []" "hd s \<noteq> CHR ''0''" "set s \<subseteq> set kdigits" "0 < base"
  shows "0 < num_value hexval base s"
  using assms hexval_pos by (cases s) (auto simp: num_value_Cons)

lemma snoc_value:
  assumes b: "0 < base" "base \<le> 16" and "num_value hexval base (s @ [c]) = num_value hexval base (t @ [d])"
    and "c \<in> set (take base kdigits)" "d \<in> set (take base kdigits)"
  shows "c = d \<and> num_value hexval base s = num_value hexval base t"
proof -
  note l = hexval_less [OF b(2) assms(4)] hexval_less [OF b(2) assms(5)]
  have e: "num_value hexval base s * base + hexval c = num_value hexval base t * base + hexval d" using assms(3) by simp
  then have "(num_value hexval base s * base + hexval c) mod base = (num_value hexval base t * base + hexval d) mod base" by simp
  then have "hexval c = hexval d" using l by simp
  then show ?thesis using e b(1) hexval_inj [OF in_set_takeD [OF assms(4)] in_set_takeD [OF assms(5)]] by simp
qed

lemma value_unique:
  assumes b: "0 < base" "base \<le> 16"
  shows "set s \<subseteq> set (take base kdigits) \<Longrightarrow> set t \<subseteq> set (take base kdigits) \<Longrightarrow> num_value hexval base s = num_value hexval base t \<Longrightarrow>
    length s = length t \<or> (s = [] \<or> hd s \<noteq> CHR ''0'') \<and> (t = [] \<or> hd t \<noteq> CHR ''0'') \<Longrightarrow> s = t"
proof (induction s arbitrary: t rule: rev_induct)
  case Nil
  have "set t \<subseteq> set kdigits" using Nil.prems(2) set_take_subset by fast
  then show ?case using Nil.prems(3,4) lead_pos [of t base] b(1) by (auto simp: num_value_def)
next
  case (snoc c s)
  have "set (s @ [c]) \<subseteq> set kdigits" using snoc.prems(1) set_take_subset by fast
  then have "t \<noteq> []" using snoc.prems(3,4) lead_pos [of "s @ [c]" base] b(1) by (auto simp: num_value_def)
  then obtain t' d where t: "t = t' @ [d]" by (cases t rule: rev_exhaust) auto
  have e: "c = d" "num_value hexval base s = num_value hexval base t'"
    using snoc_value [OF b snoc.prems(3) [unfolded t]] snoc.prems(1,2) t by auto
  have "s = t'" by (rule snoc.IH) (use snoc.prems t e(2) in \<open>auto simp: hd_append split: if_splits\<close>)
  then show ?case using t e(1) by simp
qed

lemma numeral_unique:
  assumes b: "0 < base" "base \<le> 16" and n: "numeral_in base n s" "numeral_in base n t"
  shows "s = t"
proof -
  have z: "num_value hexval base ''0'' = 0" by (simp add: num_value_def digit_of_def)
  have pos: "0 < n" if "numeral_in base n x" "x \<noteq> ''0''" for x
    using that lead_pos [of x base] b(1) set_take_subset [of base kdigits] unfolding numeral_in_def by blast
  show ?thesis
  proof (cases "s = ''0'' \<or> t = ''0''")
    case True
    then have "n = 0" using n z by (auto simp: numeral_in_def)
    then show ?thesis using pos [OF n(1)] pos [OF n(2)] by auto
  next
    case False
    then show ?thesis using value_unique [OF b, of s t] n by (auto simp: numeral_in_def)
  qed
qed

lemma int_unique: "0 < base \<Longrightarrow> base \<le> 16 \<Longrightarrow> int_in base i s \<Longrightarrow> int_in base i t \<Longrightarrow> s = t"
  using numeral_unique by (auto simp: int_in_def split: if_splits)

lemma hex_unique: "hex_word w s \<Longrightarrow> hex_word w t \<Longrightarrow> s = t"
  using value_unique [of 16 s t] by (simp add: hex_word_def)

inductive_cases formats_NilE: "formats [] ap s"
inductive_cases formats_ConsE: "formats (c # fmt) ap s"

lemma formats_unique: "formats fmt ap s \<Longrightarrow> formats fmt ap t \<Longrightarrow> t = s"
proof (induction arbitrary: t rule: formats.induct)
  case (fmt_d w x fmt ap s)
  obtain x' s' where "t = x' @ s'" "int_in 10 (sint (ucast w :: u32)) x'" "formats fmt ap s'"
    using fmt_d.prems by (rule formats_ConsE) simp_all
  then show ?case using int_unique [of 10, OF _ _ fmt_d.hyps(1), of x'] fmt_d.IH [of s'] by simp
next
  case (fmt_x w x fmt ap s)
  obtain x' s' where "t = x' @ s'" "int_in 16 (sint (ucast w :: u32)) x'" "formats fmt ap s'"
    using fmt_x.prems by (rule formats_ConsE) simp_all
  then show ?case using int_unique [of 16, OF _ _ fmt_x.hyps(1), of x'] fmt_x.IH [of s'] by simp
next
  case (fmt_p w x fmt ap s)
  obtain x' s' where "t = ''0x'' @ x' @ s'" "hex_word w x'" "formats fmt ap s'"
    using fmt_p.prems by (rule formats_ConsE) simp_all
  then show ?case using hex_unique [OF fmt_p.hyps(1), of x'] fmt_p.IH [of s'] by simp
next
  case (fmt_end ap)
  then show ?case by (rule formats_NilE)
next
  case (fmt_cut ap)
  then show ?case by (rule formats_ConsE) (simp_all)
next
  case (fmt_char c fmt ap s)
  from fmt_char.prems obtain s' where "t = c # s'" "formats fmt ap s'" by (rule formats_ConsE) (use fmt_char.hyps(1) in simp_all)
  then show ?case using fmt_char.IH [of s'] by simp
next
  case (fmt_s fmt ap s x)
  from fmt_s.prems obtain s' where "t = x @ s'" "formats fmt ap s'" by (rule formats_ConsE) simp_all
  then show ?case using fmt_s.IH [of s'] by simp
next
  case (fmt_null fmt ap s)
  from fmt_null.prems obtain s' where "t = ''(null)'' @ s'" "formats fmt ap s'" by (rule formats_ConsE) simp_all
  then show ?case using fmt_null.IH [of s'] by simp
next
  case (fmt_percent fmt ap s)
  from fmt_percent.prems obtain s' where "t = CHR ''%'' # s'" "formats fmt ap s'" by (rule formats_ConsE) simp_all
  then show ?case using fmt_percent.IH [of s'] by simp
next
  case (fmt_other c fmt ap s)
  from fmt_other.prems obtain s' where "t = CHR ''%'' # c # s'" "formats fmt ap s'"
    by (rule formats_ConsE) (use fmt_other.hyps(1) in simp_all)
  then show ?case using fmt_other.IH [of s'] by simp
qed

text \<open>
  C29: When the arguments fit the format and the transmitter becomes idle again and again, printf returns, and
  has sent the one text that the format and the arguments stand for, and nothing else, to the UART: the characters of
  the format in order, and for each conversion its argument in the way \<open>formats\<close> says, numbers as decimal or
  hexadecimal numerals of their value with a sign and without leading zeros.
\<close>

theorem printf_prints:
  assumes "args_match fmt ap" and "uart_ready u"
  shows "\<exists>s n. (\<forall>t. formats fmt ap t \<longleftrightarrow> t = s) \<and>
    printf fmt ap u = Some (u\<lparr>lsr_reads := n, thr := thr u @ map (\<lambda>c. of_nat (of_char c)) s\<rparr>)"
proof -
  obtain s where s: "printf_loop fmt ap = Some s" using printf_loop_total [OF assms(1)] by auto
  obtain n where "consputs s u = Some (u\<lparr>lsr_reads := n, thr := thr u @ map (\<lambda>c. of_nat (of_char c)) s\<rparr>)" using consputs_ok [OF assms(2)] by blast
  then show ?thesis using s printf_loop_formats [OF s] formats_unique by (intro exI [of _ s] exI [of _ n]) (auto simp: printf_def)
qed

definition idle_uart :: uart where
  "idle_uart = \<lparr>uart_tx_buf = replicate 32 0, uart_tx_w = 0, uart_tx_r = 0, panicked = False, thr = [], rx = [],
     idle = (\<lambda>k. True), lsr_reads = 0, dll = 0, dlm = 0, ier = 0, fcr = 0, lcr = 0\<rparr>"

lemma idle_uart_ready [simp]: "uart_ready idle_uart"
  by (auto simp: uart_ready_def uart_ok_def live_def idle_uart_def)

theorem printf_prints_witness:
  "\<exists>n. printf ''%d%%'' [Num 42] idle_uart = Some (idle_uart\<lparr>lsr_reads := n, thr := [52, 50, 37]\<rparr>)"
proof -
  have e: "printf_loop ''%d%%'' [Num 42] = Some ''42%''" by code_simp
  have "args_match ''%d%%'' [Num 42]" by code_simp
  from printf_prints [OF this idle_uart_ready] printf_loop_formats [OF e]
  obtain n where "printf ''%d%%'' [Num 42] idle_uart =
      Some (idle_uart\<lparr>lsr_reads := n, thr := thr idle_uart @ map (\<lambda>c. of_nat (of_char c)) ''42%''\<rparr>)" by auto
  then show ?thesis by (auto simp: idle_uart_def)
qed

text \<open>
  The user library's printf and the kernel's format every text alike that uses no
  conversion on which they are meant to differ (%x, %p, %l and %c).
\<close>

theorem vprintf_agrees:
  assumes "common_format fmt"
  shows "vprintf fmt ap = printf_loop fmt ap"
  unfolding vprintf_def by (rule vprintf_loop_kernel [OF assms])

theorem vprintf_agrees_witness:
  "common_format ''%d %s%'' \<and> vprintf ''%d %s%'' [Num 7, Str None] = printf_loop ''%d %s%'' [Num 7, Str None]"
  using vprintf_agrees [of "''%d %s%''"] by simp

end
