(* ===== verification/Console.thy ===== *)
theory Console
  imports Printf
begin

text \<open>
  The console (\<^verbatim>\<open>kernel/console.c\<close>): line editing of typed characters in the interrupt
  handler, line-at-a-time reads, writes through the UART's transmit ring, and \<^verbatim>\<open>uartintr\<close>
  of \<^verbatim>\<open>kernel/uart.c\<close>, which feeds the handler. The input buffer has three free-running
  32-bit counters: \<open>cr\<close> (read), \<open>cw\<close> (end of the finished lines) and \<open>ce\<close> (edit).
  User memory is a parameter as for pipes; \<open>ps\<close> is the process table that control-P prints.
\<close>

abbreviation (input) INPUT_BUF_SIZE :: nat where "INPUT_BUF_SIZE \<equiv> 128"

record cons =
  cbuf :: "u8 list"
  cr :: u32
  cw :: u32
  ce :: u32

abbreviation (input) newline :: u8 where "newline \<equiv> 10"
abbreviation (input) ctrl_d :: u8 where "ctrl_d \<equiv> 4"

fun consolewrite_loop :: "(nat \<Rightarrow> u8 option) \<Rightarrow> nat \<Rightarrow> nat \<Rightarrow> nat \<Rightarrow> uart \<Rightarrow> uart step" where
  "consolewrite_loop copyin src i 0 u = Done (int i) u"
| "consolewrite_loop copyin src i (Suc k) u =
     (case copyin (src + i) of
        None \<Rightarrow> Done (int i) u
      | Some c \<Rightarrow>
          (case uartputc c u of
             Ok u' \<Rightarrow> consolewrite_loop copyin src (i + 1) k u'
           | _ \<Rightarrow> Wait i u))"

definition consolewrite :: "(nat \<Rightarrow> u8 option) \<Rightarrow> nat \<Rightarrow> nat \<Rightarrow> int \<Rightarrow> uart \<Rightarrow> uart step" where
  "consolewrite copyin src i n u = consolewrite_loop copyin src i (nat (n - int i)) u"

text \<open>
  The loop of \<^verbatim>\<open>consoleread\<close>, with \<open>i\<close> bytes copied and \<open>k\<close> to go: \<^verbatim>\<open>n\<close> is \<open>k\<close> and
  \<^verbatim>\<open>target\<close> is \<open>i + k\<close>, so that \<^verbatim>\<open>n < target\<close> is \<open>0 < i\<close>.
\<close>

fun consoleread_loop ::
  "(nat \<Rightarrow> bool) \<Rightarrow> bool \<Rightarrow> nat \<Rightarrow> nat \<Rightarrow> nat \<Rightarrow> u8 list \<Rightarrow> cons \<Rightarrow> (u8 list \<times> cons) step" where
  "consoleread_loop copyout kld dst i 0 out s = Done (int i) (out, s)"
| "consoleread_loop copyout kld dst i (Suc k) out s =
     (if cr s = cw s then (if kld then Done (-1) (out, s) else Wait i (out, s))
      else
        let c = cbuf s ! (unat (cr s) mod INPUT_BUF_SIZE);
            s = s\<lparr>cr := cr s + 1\<rparr>
        in if c = ctrl_d then
             (if 0 < i then Done (int i) (out, s\<lparr>cr := cr s - 1\<rparr>) else Done (int i) (out, s))
           else if \<not> copyout (dst + i) then Done (int i) (out, s)
           else if c = newline then Done (int (i + 1)) (out @ [c], s)
           else consoleread_loop copyout kld dst (i + 1) k (out @ [c]) s)"

definition consoleread :: "(nat \<Rightarrow> bool) \<Rightarrow> bool \<Rightarrow> nat \<Rightarrow> nat \<Rightarrow> int \<Rightarrow> cons \<Rightarrow> (u8 list \<times> cons) step" where
  "consoleread copyout kld dst i n s = consoleread_loop copyout kld dst i (nat (n - int i)) [] s"

text \<open>The kill-line loop: it ends because each round takes back one character.\<close>

function kill_line :: "cons \<Rightarrow> uart \<Rightarrow> (cons \<times> uart) option" where
  "kill_line s u =
     (if ce s \<noteq> cw s \<and> cbuf s ! (unat (ce s - 1) mod INPUT_BUF_SIZE) \<noteq> newline then
        (case consputc BACKSPACE u of
           None \<Rightarrow> None
         | Some u \<Rightarrow> kill_line (s\<lparr>ce := ce s - 1\<rparr>) u)
      else Some (s, u))"
  by pat_completeness auto

termination kill_line
proof (relation "measure (\<lambda>(s, u). unat (ce s - cw s))")
  fix s :: cons and u x2 :: uart
  assume "ce s \<noteq> cw s \<and> cbuf s ! (unat (ce s - 1) mod INPUT_BUF_SIZE) \<noteq> newline"
  then have "ce s - cw s \<noteq> 0" by simp
  then have "unat (ce s - cw s - 1) < unat (ce s - cw s)" by (simp add: unat_minus_one unat_gt_0)
  moreover have e: "ce s - 1 - cw s = ce s - cw s - 1" by simp
  ultimately show "((s\<lparr>ce := ce s - 1\<rparr>, x2), (s, u)) \<in> measure (\<lambda>(s, u). unat (ce s - cw s))" by (simp add: e)
qed simp

declare kill_line.simps [simp del]

definition consoleintr ::
  "proc list \<Rightarrow> int \<Rightarrow> cons \<Rightarrow> uart \<Rightarrow> (cons \<times> uart) option" where
  "consoleintr ps c s u =
     (if c = 0x10 then (case procdump ps u of None \<Rightarrow> None | Some u \<Rightarrow> Some (s, u))
      else if c = 0x15 then kill_line s u
      else if c = 0x08 \<or> c = 0x7f then
        (if ce s \<noteq> cw s then
           (let s = s\<lparr>ce := ce s - 1\<rparr>
            in case consputc BACKSPACE u of None \<Rightarrow> None | Some u \<Rightarrow> Some (s, u))
         else Some (s, u))
      else if c \<noteq> 0 \<and> unat (ce s - cr s) < INPUT_BUF_SIZE then
        (let c = (if c = 13 then 10 else c)
         in case consputc c u of
              None \<Rightarrow> None
            | Some u \<Rightarrow>
                let s = s\<lparr>cbuf := (cbuf s)[unat (ce s) mod INPUT_BUF_SIZE := word_of_int c], ce := ce s + 1\<rparr>;
                    s = (if c = 10 \<or> c = 4 \<or> ce s - cr s = word_of_nat INPUT_BUF_SIZE then s\<lparr>cw := ce s\<rparr> else s)
                in Some (s, u))
      else Some (s, u))"

text \<open>
  \<^verbatim>\<open>uartintr\<close>: the received characters, then the transmit ring. Each round of the loop
  takes one character out of \<open>rx\<close> (\<open>n\<close> of them wait); echoing adds none.
\<close>

fun uartintr_loop :: "proc list \<Rightarrow> nat \<Rightarrow> cons \<Rightarrow> uart \<Rightarrow> (cons \<times> uart) option" where
  "uartintr_loop ps n s u =
     (let (c, u) = uartgetc u
      in if c = -1 then Some (s, u)
         else case consoleintr ps c s u of
           None \<Rightarrow> None
         | Some (s, u) \<Rightarrow> (case n of 0 \<Rightarrow> None | Suc n \<Rightarrow> uartintr_loop ps n s u))"

declare uartintr_loop.simps [simp del]

definition uartintr :: "proc list \<Rightarrow> cons \<Rightarrow> uart \<Rightarrow> (cons \<times> uart) option" where
  "uartintr ps s u =
     (case uartintr_loop ps (length (rx u)) s u of
        None \<Rightarrow> None
      | Some (s, u) \<Rightarrow> Some (s, uartstart u))"

definition consoleinit :: "cons \<Rightarrow> uart \<Rightarrow> cons \<times> uart" where
  "consoleinit s u = (s, uartinit u)"

section \<open>The line editor the console implements\<close>

text \<open>
  The abstract state is the input that readers may have (\<open>fst\<close>) and the line being edited
  (\<open>snd\<close>).
\<close>

type_synonym editor = "u8 list \<times> u8 list"

definition edit_key :: "int \<Rightarrow> editor \<Rightarrow> editor \<times> u8 list" where
  "edit_key c = (\<lambda>(ready, line).
     if c = 0x10 then ((ready, line), [])
     else if c = 0x15 then ((ready, []), concat (map (\<lambda>_. [8, 32, 8]) line))
     else if c = 0x08 \<or> c = 0x7f then
       ((ready, butlast line), if line = [] then [] else [8, 32, 8])
     else if c = 0 \<or> INPUT_BUF_SIZE \<le> length ready + length line then ((ready, line), [])
     else
       let b = (if c = 13 then newline else word_of_int c)
       in (if b = newline \<or> b = ctrl_d \<or> length ready + length line + 1 = INPUT_BUF_SIZE
           then (ready @ line @ [b], []) else (ready, line @ [b]), [b]))"

fun edit_read :: "(nat \<Rightarrow> bool) \<Rightarrow> bool \<Rightarrow> nat \<Rightarrow> nat \<Rightarrow> nat \<Rightarrow> u8 list \<Rightarrow> u8 list \<Rightarrow> (u8 list \<times> u8 list) step" where
  "edit_read copyout kld dst i 0 out ready = Done (int i) (out, ready)"
| "edit_read copyout kld dst i (Suc k) out [] = (if kld then Done (-1) (out, []) else Wait i (out, []))"
| "edit_read copyout kld dst i (Suc k) out (c # ready) =
     (if c = ctrl_d then Done (int i) (out, if 0 < i then c # ready else ready)
      else if \<not> copyout (dst + i) then Done (int i) (out, ready)
      else if c = newline then Done (int (i + 1)) (out @ [c], ready)
      else edit_read copyout kld dst (i + 1) k (out @ [c]) ready)"

definition ready_bytes :: "cons \<Rightarrow> u8 list" where
  "ready_bytes s = ring_bytes (cbuf s) (cr s) (cw s)"

definition line_bytes :: "cons \<Rightarrow> u8 list" where
  "line_bytes s = ring_bytes (cbuf s) (cw s) (ce s)"

definition editor_of :: "cons \<Rightarrow> editor" where
  "editor_of s = (ready_bytes s, line_bytes s)"

definition cons_ok :: "cons \<Rightarrow> bool" where
  "cons_ok s \<longleftrightarrow> length (cbuf s) = INPUT_BUF_SIZE \<and>
     length (ready_bytes s) + length (line_bytes s) \<le> INPUT_BUF_SIZE \<and> newline \<notin> set (line_bytes s)"

lemma cons_ring_size: "length d = 128 \<Longrightarrow> ring_size_ok d TYPE(32)"
  by (simp add: ring_size_ok_def)

lemma cons_no_wrap: "cons_ok s \<Longrightarrow> unat (cw s - cr s) + unat (ce s - cw s) < 2 ^ LENGTH(32)"
  by (simp add: cons_ok_def ready_bytes_def line_bytes_def)

lemma cons_counts: "cons_ok s \<Longrightarrow> unat (ce s - cr s) = length (ready_bytes s) + length (line_bytes s)"
  by (simp add: count_split [OF cons_no_wrap] ready_bytes_def line_bytes_def)

lemma line_empty: "line_bytes s = [] \<longleftrightarrow> ce s = cw s"
  by (auto simp: line_bytes_def ring_bytes_empty)

lemma ready_empty: "ready_bytes s = [] \<longleftrightarrow> cr s = cw s"
  by (auto simp: ready_bytes_def ring_bytes_empty)

lemma whole_buffer: "cons_ok s \<Longrightarrow> ring_bytes (cbuf s) (cr s) (ce s) = ready_bytes s @ line_bytes s"
  by (simp add: ring_bytes_split [OF cons_no_wrap] ready_bytes_def line_bytes_def)

text \<open>Storing a character, and making the line readable.\<close>

definition store :: "u8 \<Rightarrow> cons \<Rightarrow> cons" where
  "store b s = s\<lparr>cbuf := (cbuf s)[unat (ce s) mod INPUT_BUF_SIZE := b], ce := ce s + 1\<rparr>"

lemma store_bytes:
  assumes "cons_ok s" and "length (ready_bytes s) + length (line_bytes s) < INPUT_BUF_SIZE"
  shows "ready_bytes (store b s) = ready_bytes s" "line_bytes (store b s) = line_bytes s @ [b]"
proof -
  let ?s = "store b s"
  have l: "length (cbuf s) = 128" using assms(1) by (simp add: cons_ok_def)
  have c: "unat (ce s - cr s) < 128" using cons_counts [OF assms(1)] assms(2) by simp
  have line: "line_bytes ?s = line_bytes s @ [b]"
    using ring_bytes_put [OF cons_ring_size [OF l], of "ce s" "cw s" b] assms(2) l
    by (simp add: line_bytes_def store_def)
  have all: "ring_bytes (cbuf ?s) (cr ?s) (ce ?s) = ready_bytes s @ line_bytes s @ [b]"
    using ring_bytes_put [OF cons_ring_size [OF l], of "ce s" "cr s" b] c l whole_buffer [OF assms(1)]
    by (simp add: store_def)
  have "length (ready_bytes ?s) = length (ready_bytes s)" by (simp add: ready_bytes_def store_def)
  moreover have "unat (ce s + 1 - cw s) = Suc (unat (ce s - cw s))"
    by (rule count_Suc [of _ _ 128]) (use assms(2) in \<open>simp_all add: line_bytes_def\<close>)
  ultimately have "unat (cw ?s - cr ?s) + unat (ce ?s - cw ?s) < 2 ^ LENGTH(32)"
    using assms(2) by (simp add: ready_bytes_def line_bytes_def store_def)
  from ring_bytes_split [OF this, of "cbuf ?s"] all line
  show "ready_bytes ?s = ready_bytes s" by (simp add: ready_bytes_def [symmetric] line_bytes_def [symmetric])
  show "line_bytes ?s = line_bytes s @ [b]" by (rule line)
qed

lemma commit_line:
  assumes "cons_ok s"
  shows "ready_bytes (s\<lparr>cw := ce s\<rparr>) = ready_bytes s @ line_bytes s" "line_bytes (s\<lparr>cw := ce s\<rparr>) = []"
  using whole_buffer [OF assms] by (simp_all add: ready_bytes_def line_bytes_def ring_bytes_empty)

lemma erase_bytes:
  assumes "line_bytes s \<noteq> []"
  shows "ready_bytes (s\<lparr>ce := ce s - 1\<rparr>) = ready_bytes s" "line_bytes (s\<lparr>ce := ce s - 1\<rparr>) = butlast (line_bytes s)"
  using assms ring_bytes_unput [of "cw s" "ce s" "cbuf s"] line_empty [of s]
  by (simp_all add: ready_bytes_def line_bytes_def)

lemma erase_ok: "cons_ok s \<Longrightarrow> line_bytes s \<noteq> [] \<Longrightarrow> cons_ok (s\<lparr>ce := ce s - 1\<rparr>)"
  by (auto simp: cons_ok_def erase_bytes dest: in_set_butlastD)

lemma last_line:
  assumes "cons_ok s" and "line_bytes s \<noteq> []"
  shows "cbuf s ! (unat (ce s - 1) mod INPUT_BUF_SIZE) = last (line_bytes s)"
proof -
  have "unat (ce s - cw s) \<noteq> 0" using assms(2) line_empty [of s] by (simp add: unat_eq_0)
  then have "cw s + word_of_nat (unat (ce s - cw s) - 1) = ce s - 1" by (simp add: of_nat_diff)
  then show ?thesis
    using assms \<open>unat (ce s - cw s) \<noteq> 0\<close>
    by (simp add: line_bytes_def ring_bytes_def cons_ok_def last_map last_upt)
qed

lemma kill_line_ok:
  assumes "cons_ok s" and "uart_ready u"
  shows "\<exists>n s'. kill_line s u = Some (s', u\<lparr>lsr_reads := n, thr := thr u @ concat (map (\<lambda>_. [8, 32, 8]) (line_bytes s))\<rparr>) \<and>
    cons_ok s' \<and> editor_of s' = (ready_bytes s, [])"
  using assms
proof (induction "length (line_bytes s)" arbitrary: s u)
  case 0
  then show ?case
    by (subst kill_line.simps) (auto simp: line_empty [symmetric] editor_of_def intro!: exI [of _ "lsr_reads u"])
next
  case (Suc k)
  then have ne: "line_bytes s \<noteq> []" by auto
  then have "last (line_bytes s) \<noteq> newline" using Suc.prems(1) by (metis cons_ok_def last_in_set)
  then have go: "ce s \<noteq> cw s \<and> cbuf s ! (unat (ce s - 1) mod INPUT_BUF_SIZE) \<noteq> newline"
    using ne last_line [OF Suc.prems(1) ne] line_empty by simp
  obtain m where m: "consputc BACKSPACE u = Some (u\<lparr>lsr_reads := m, thr := thr u @ [8, 32, 8]\<rparr>)"
    using consputc_ok [OF Suc.prems(2), of BACKSPACE] by (auto simp: echo_def)
  let ?s = "s\<lparr>ce := ce s - 1\<rparr>" and ?u = "u\<lparr>lsr_reads := m, thr := thr u @ [8, 32, 8]\<rparr>"
  have bl: "line_bytes ?s = butlast (line_bytes s)" "ready_bytes ?s = ready_bytes s"
    using erase_bytes [OF ne] by simp_all
  have "k = length (line_bytes ?s)" using Suc.hyps(2) bl(1) by simp
  then obtain n s' where n: "kill_line ?s ?u = Some (s', ?u\<lparr>lsr_reads := n, thr := thr ?u @ concat (map (\<lambda>_. [8, 32, 8]) (line_bytes ?s))\<rparr>)"
      "cons_ok s'" "editor_of s' = (ready_bytes s, [])"
    using Suc.hyps(1) [of ?s ?u] erase_ok [OF Suc.prems(1) ne] Suc.prems(2) bl(2) by auto
  have l: "length (line_bytes s) = Suc k" by (rule Suc.hyps(2) [symmetric])
  then have cc: "concat (map (\<lambda>_. [8, 32, 8]) (line_bytes s)) = [8, 32, 8 :: u8] @ concat (map (\<lambda>_. [8, 32, 8]) (butlast (line_bytes s)))"
    by (simp add: map_replicate_const)
  have "kill_line s u = kill_line ?s ?u" using go m by (subst kill_line.simps) simp
  then show ?case using n by (auto simp: bl(1) cc)
qed

lemma keep_line: "cons_ok s \<Longrightarrow> length (ready_bytes s) + length (line_bytes s) < INPUT_BUF_SIZE \<Longrightarrow>
    b \<noteq> newline \<Longrightarrow> cons_ok (store b s)"
  using store_bytes [of s b] by (simp add: cons_ok_def store_def)

lemma finish_line:
  fixes b :: u8
  assumes "cons_ok s" and "length (ready_bytes s) + length (line_bytes s) < INPUT_BUF_SIZE"
  defines "s' \<equiv> (store b s)\<lparr>cw := ce (store b s)\<rparr>"
  shows "cons_ok s'" "editor_of s' = (ready_bytes s @ line_bytes s @ [b], [])"
proof -
  note st = store_bytes [OF assms(1,2), of b]
  have "unat (cw (store b s) - cr (store b s)) + unat (ce (store b s) - cw (store b s)) < 2 ^ LENGTH(32)"
    using arg_cong [OF st(1), of length] arg_cong [OF st(2), of length] assms(2)
    by (simp add: ready_bytes_def line_bytes_def)
  from ring_bytes_split [OF this, of "cbuf (store b s)"]
  have "ready_bytes s' = ready_bytes s @ line_bytes s @ [b]"
    using st by (simp add: s'_def ready_bytes_def line_bytes_def)
  moreover have "line_bytes s' = []" by (simp add: s'_def line_bytes_def ring_bytes_empty)
  moreover have "length (cbuf s') = 128" using assms(1) by (simp add: s'_def store_def cons_ok_def)
  ultimately show "cons_ok s'" "editor_of s' = (ready_bytes s @ line_bytes s @ [b], [])"
    using assms(2) by (simp_all add: cons_ok_def editor_of_def)
qed

lemma consoleintr_default:
  assumes "cons_ok s" "uart_ready u" "0 \<le> c" "c < 256" "c \<notin> {0x10, 0x15, 0x08, 0x7f}"
  shows "\<exists>s' n. consoleintr ps c s u =
      Some (s', u\<lparr>lsr_reads := n, thr := thr u @ snd (edit_key c (editor_of s))\<rparr>) \<and>
    cons_ok s' \<and> editor_of s' = fst (edit_key c (editor_of s))"
proof (cases "c \<noteq> 0 \<and> length (ready_bytes s) + length (line_bytes s) < INPUT_BUF_SIZE")
  case False
  then have "consoleintr ps c s u = Some (s, u)"
    using assms by (auto simp: consoleintr_def cons_counts)
  moreover have "edit_key c (editor_of s) = (editor_of s, [])" using False assms by (auto simp: edit_key_def editor_of_def)
  ultimately show ?thesis using assms(1) by (auto intro: exI [of _ "lsr_reads u"])
next
  case True
  let ?c = "if c = 13 then 10 else c" and ?b = "if c = 13 then newline else word_of_int c"
  have b: "word_of_int ?c = ?b" by simp
  have ec: "echo ?c = [?b]" using assms(4) by (simp add: echo_def)
  obtain n where n: "consputc ?c u = Some (u\<lparr>lsr_reads := n, thr := thr u @ [?b]\<rparr>)"
    using consputc_ok [OF assms(2), of ?c] ec by auto
  have cmp: "?c = 10 \<longleftrightarrow> ?b = newline" "?c = 4 \<longleftrightarrow> ?b = ctrl_d"
    using assms(3,4) by (auto simp: word_uint_eq_iff uint_word_of_int)
  note st = store_bytes [OF assms(1), of ?b]
  let ?fin = "?b = newline \<or> ?b = ctrl_d \<or> length (ready_bytes s) + length (line_bytes s) + 1 = INPUT_BUF_SIZE"
  have "unat (ce s + 1 - cr s) = Suc (unat (ce s - cr s))"
    by (rule count_Suc [of _ _ 128]) (use True assms(1) in \<open>simp_all add: cons_counts\<close>)
  then have full: "ce (store b s) - cr (store b s) = 128 \<longleftrightarrow> length (ready_bytes s) + length (line_bytes s) = 127" for b
    using assms(1) by (simp add: store_def word_unat_eq_iff cons_counts)
  have run: "consoleintr ps c s u = Some (if ?fin then (store ?b s)\<lparr>cw := ce (store ?b s)\<rparr> else store ?b s,
      u\<lparr>lsr_reads := n, thr := thr u @ [?b]\<rparr>)"
    using True assms(1,5) n by (auto simp: consoleintr_def cons_counts Let_def b cmp full store_def [symmetric])
  show ?thesis
  proof (cases ?fin)
    case fin: True
    then show ?thesis
      using run finish_line [OF assms(1), of ?b] True assms(5) by (auto simp: edit_key_def editor_of_def Let_def)
  next
    case False
    then show ?thesis
      using run keep_line [OF assms(1), of ?b] st True assms(5) by (auto simp: edit_key_def editor_of_def Let_def)
  qed
qed

definition typed_echo :: "int \<Rightarrow> editor \<Rightarrow> u8 list \<Rightarrow> u8 list" where
  "typed_echo c ed dump = (if c = 0x10 then dump else snd (edit_key c ed))"

lemma consoleintr_refines:
  assumes "cons_ok s" "uart_ready u" "0 \<le> c" "c < 256"
  shows "\<exists>s' n dump. consoleintr ps c s u =
      Some (s', u\<lparr>lsr_reads := n, thr := thr u @ typed_echo c (editor_of s) dump\<rparr>) \<and>
    cons_ok s' \<and> editor_of s' = fst (edit_key c (editor_of s))"
proof -
  consider (P) "c = 0x10" | (U) "c = 0x15" | (H) "c = 0x08 \<or> c = 0x7f" | (other) "c \<notin> {0x10, 0x15, 0x08, 0x7f}" by blast
  then show ?thesis
  proof cases
    case P
    obtain n t where "procdump ps u = Some (u\<lparr>lsr_reads := n, thr := thr u @ t\<rparr>)"
      using prints_procdump [of ps] assms(2) by (auto simp: prints_def)
    with P assms(1) show ?thesis by (auto simp: consoleintr_def typed_echo_def edit_key_def editor_of_def)
  next
    case U
    then show ?thesis using kill_line_ok [OF assms(1,2)]
      by (auto simp: consoleintr_def typed_echo_def edit_key_def editor_of_def)
  next
    case H
    obtain n where n: "consputc BACKSPACE u = Some (u\<lparr>lsr_reads := n, thr := thr u @ [8, 32, 8]\<rparr>)"
      using consputc_ok [OF assms(2), of BACKSPACE] by (auto simp: echo_def)
    have same: "u = u\<lparr>lsr_reads := lsr_reads u, thr := thr u\<rparr>" by simp
    show ?thesis
    proof (cases "line_bytes s = []")
      case True
      then have "consoleintr ps c s u = Some (s, u)" "edit_key c (editor_of s) = (editor_of s, [])"
        using H line_empty [of s] by (auto simp: consoleintr_def edit_key_def editor_of_def)
      then show ?thesis using H assms(1) by (auto simp: typed_echo_def intro: exI [of _ "lsr_reads u"])
    next
      case False
      then show ?thesis
        using H n erase_ok [OF assms(1) False] erase_bytes [OF False] line_empty [of s]
        by (auto simp: consoleintr_def typed_echo_def edit_key_def editor_of_def Let_def)
    qed
  next
    case other
    then show ?thesis using consoleintr_default [OF assms other] by (auto simp: typed_echo_def)
  qed
qed

section \<open>Reading lines\<close>

lemma consume:
  assumes "cons_ok s" and "ready_bytes s \<noteq> []"
  shows "ready_bytes s = cbuf s ! (unat (cr s) mod INPUT_BUF_SIZE) # ready_bytes (s\<lparr>cr := cr s + 1\<rparr>)"
    "line_bytes (s\<lparr>cr := cr s + 1\<rparr>) = line_bytes s" "cons_ok (s\<lparr>cr := cr s + 1\<rparr>)"
proof -
  have ne: "cr s \<noteq> cw s" using assms(2) ready_empty by blast
  show r: "ready_bytes s = cbuf s ! (unat (cr s) mod INPUT_BUF_SIZE) # ready_bytes (s\<lparr>cr := cr s + 1\<rparr>)"
    using ring_bytes_get [OF ne, of "cbuf s"] assms(1) by (simp add: ready_bytes_def cons_ok_def)
  show l: "line_bytes (s\<lparr>cr := cr s + 1\<rparr>) = line_bytes s" by (simp add: line_bytes_def)
  show "cons_ok (s\<lparr>cr := cr s + 1\<rparr>)"
    using assms(1) arg_cong [OF r, of length] l unfolding cons_ok_def by simp
qed

definition view_read :: "u8 list \<times> cons \<Rightarrow> u8 list \<times> u8 list" where
  "view_read = (\<lambda>(out, s). (out, ready_bytes s))"

fun step_state :: "'a step \<Rightarrow> 'a" where
  "step_state (Done r x) = x"
| "step_state (Wait i x) = x"

lemma consoleread_loop_refines:
  fixes copyout :: "nat \<Rightarrow> bool" and kld :: bool and dst i k :: nat and out :: "u8 list"
  assumes "cons_ok s"
  defines "r \<equiv> consoleread_loop copyout kld dst i k out s"
  shows "map_step view_read r = edit_read copyout kld dst i k out (ready_bytes s) \<and>
    cons_ok (snd (step_state r)) \<and> line_bytes (snd (step_state r)) = line_bytes s"
  using assms(1) unfolding r_def
proof (induction k arbitrary: i out s)
  case 0
  then show ?case by (simp add: view_read_def)
next
  case (Suc k)
  show ?case
  proof (cases "ready_bytes s = []")
    case True
    then have "cr s = cw s" using ready_empty by blast
    with True Suc.prems show ?thesis by (simp add: view_read_def)
  next
    case ne: False
    then have "cr s \<noteq> cw s" using ready_empty by blast
    let ?c = "cbuf s ! (unat (cr s) mod INPUT_BUF_SIZE)" and ?s = "s\<lparr>cr := cr s + 1\<rparr>"
    note C = consume [OF Suc.prems ne]
    have undo: "?s\<lparr>cr := cr ?s - 1\<rparr> = s" by simp
    show ?thesis
      using \<open>cr s \<noteq> cw s\<close> C(2,3) Suc.prems undo Suc.IH [OF C(3), of "i + 1" "out @ [?c]"]
      by (auto simp: view_read_def Let_def C(1))
  qed
qed

section \<open>Interleavings of typing and reading\<close>

datatype cons_event = Key u8 | ReadLine "nat \<Rightarrow> bool" bool nat nat int

fun cons_run :: "proc list \<Rightarrow> cons_event list \<Rightarrow> cons \<Rightarrow> uart \<Rightarrow> (u8 list step list \<times> cons \<times> uart) option" where
  "cons_run ps [] s u = Some ([], s, u)"
| "cons_run ps (Key b # es) s u =
     (case consoleintr ps (uint b) s u of None \<Rightarrow> None | Some (s, u) \<Rightarrow> cons_run ps es s u)"
| "cons_run ps (ReadLine copyout kld dst i n # es) s u =
     (let r = consoleread copyout kld dst i n s
      in case cons_run ps es (snd (step_state r)) u of
           None \<Rightarrow> None
         | Some (rs, s, u) \<Rightarrow> Some (map_step fst r # rs, s, u))"

fun edit_run :: "cons_event list \<Rightarrow> editor \<Rightarrow> u8 list step list \<times> editor" where
  "edit_run [] ed = ([], ed)"
| "edit_run (Key b # es) ed = edit_run es (fst (edit_key (uint b) ed))"
| "edit_run (ReadLine copyout kld dst i n # es) ed =
     (let r = edit_read copyout kld dst i (nat (n - int i)) [] (fst ed);
          (rs, ed) = edit_run es (snd (step_state r), snd ed)
      in (map_step fst r # rs, ed))"

lemma consoleread_refines:
  assumes "cons_ok s"
  shows "map_step fst (consoleread copyout kld dst i n s) =
      map_step fst (edit_read copyout kld dst i (nat (n - int i)) [] (ready_bytes s))"
    and "cons_ok (snd (step_state (consoleread copyout kld dst i n s)))"
    and "editor_of (snd (step_state (consoleread copyout kld dst i n s))) =
      (snd (step_state (edit_read copyout kld dst i (nat (n - int i)) [] (ready_bytes s))), line_bytes s)"
proof -
  let ?r = "consoleread copyout kld dst i n s"
  have r: "map_step view_read ?r = edit_read copyout kld dst i (nat (n - int i)) [] (ready_bytes s)"
      "cons_ok (snd (step_state ?r))" "line_bytes (snd (step_state ?r)) = line_bytes s"
    using consoleread_loop_refines [OF assms] by (simp_all add: consoleread_def)
  show "map_step fst ?r = map_step fst (edit_read copyout kld dst i (nat (n - int i)) [] (ready_bytes s))"
    unfolding r(1) [symmetric] by (cases ?r) (simp_all add: view_read_def case_prod_unfold)
  show "cons_ok (snd (step_state ?r))" by (rule r(2))
  show "editor_of (snd (step_state ?r)) =
      (snd (step_state (edit_read copyout kld dst i (nat (n - int i)) [] (ready_bytes s))), line_bytes s)"
    unfolding r(1) [symmetric] editor_of_def r(3)
    by (cases ?r) (simp_all add: view_read_def case_prod_unfold)
qed

lemma u8_uint_range: "0 \<le> uint (b :: u8) \<and> uint b < 256"
  using unsigned_greater_eq [of b] unsigned_less [of b] by simp

lemma cons_run_refines:
  assumes "cons_ok s" and "uart_ready u"
  shows "\<exists>s' u'. cons_run ps es s u = Some (fst (edit_run es (editor_of s)), s', u') \<and> cons_ok s' \<and>
    uart_ready u' \<and> editor_of s' = snd (edit_run es (editor_of s))"
  using assms
proof (induction es arbitrary: s u)
  case Nil
  then show ?case by simp
next
  case (Cons e es)
  show ?case
  proof (cases e)
    case (Key b)
    obtain s' n dump where "consoleintr ps (uint b) s u =
        Some (s', u\<lparr>lsr_reads := n, thr := thr u @ typed_echo (uint b) (editor_of s) dump\<rparr>)"
        "cons_ok s'" "editor_of s' = fst (edit_key (uint b) (editor_of s))"
      using consoleintr_refines [OF Cons.prems, of "uint b" ps] u8_uint_range [of b] by blast
    then show ?thesis using Key Cons.prems(2) Cons.IH [of s'] by auto
  next
    case (ReadLine copyout kld dst i n)
    note R = consoleread_refines [OF Cons.prems(1), of copyout kld dst i n]
    from Cons.IH [OF R(2) Cons.prems(2)] show ?thesis
      unfolding R(3) ReadLine using R(1) by (auto simp: Let_def editor_of_def split: prod.split)
  qed
qed

text \<open>
  C15: The console refines the line editor: for every sequence of typed characters and read
  calls, from any consistent buffer, the handler always returns, and every read gives exactly
  what the editor on lists gives, with backspace, kill-line, end-of-file and a full buffer as
  the editor defines them.
\<close>

theorem console_refines_editor:
  assumes "cons_ok s" and "uart_ready u"
  shows "\<exists>s' u'. cons_run ps es s u = Some (fst (edit_run es (editor_of s)), s', u') \<and>
    editor_of s' = snd (edit_run es (editor_of s)) \<and> cons_ok s' \<and> uart_ready u'"
  using cons_run_refines [OF assms] by blast

definition cons_zero :: cons where
  "cons_zero = \<lparr>cbuf = replicate 128 0, cr = 0, cw = 0, ce = 0\<rparr>"

lemma cons_zero_ok [simp]: "cons_ok cons_zero" "editor_of cons_zero = ([], [])"
  by (simp_all add: cons_ok_def cons_zero_def ready_bytes_def line_bytes_def ring_bytes_def editor_of_def)

theorem console_refines_editor_witness:
  "\<exists>s' u'. cons_run [] [Key 97, Key 98, Key 8, Key 99, Key 13, ReadLine (\<lambda>a. True) False 0 0 100] cons_zero idle_uart =
      Some ([Done 3 [97, 99, 10]], s', u')"
proof -
  have "fst (edit_run [Key 97, Key 98, Key 8, Key 99, Key 13, ReadLine (\<lambda>a. True) False 0 0 100] ([], [])) =
      [Done 3 [97, 99, 10]]" by code_simp
  then show ?thesis
    using console_refines_editor [of cons_zero idle_uart "[]"
        "[Key 97, Key 98, Key 8, Key 99, Key 13, ReadLine (\<lambda>a. True) False 0 0 100]"] by auto
qed

section \<open>The interrupt handler and console writes\<close>

definition type_all :: "u8 list \<Rightarrow> editor \<Rightarrow> editor" where
  "type_all bs ed = fold (\<lambda>b ed. fst (edit_key (uint b) ed)) bs ed"

lemma uartgetc_empty: "rx u = [] \<Longrightarrow> uartgetc u = (-1, u\<lparr>lsr_reads := Suc (lsr_reads u)\<rparr>)"
  using LSR_ready [of u] by (simp add: uartgetc_def case_prod_unfold Let_def LSR_snd)

lemma uartgetc_byte:
  "rx u = b # bs \<Longrightarrow> uartgetc u = (uint b, u\<lparr>lsr_reads := Suc (lsr_reads u), rx := bs\<rparr>)"
  using LSR_ready [of u] by (simp add: uartgetc_def case_prod_unfold Let_def LSR_snd)

lemma uartintr_loop_ok:
  assumes "cons_ok s" and "uart_ready u"
  shows "\<exists>s' u'. uartintr_loop ps (length (rx u)) s u = Some (s', u') \<and> cons_ok s' \<and> uart_ready u' \<and>
    rx u' = [] \<and> tx_bytes u' = tx_bytes u \<and> editor_of s' = type_all (rx u) (editor_of s)"
  using assms
proof (induction "rx u" arbitrary: s u)
  case Nil
  then show ?case
    by (subst uartintr_loop.simps) (auto simp: uartgetc_empty type_all_def)
next
  case (Cons b bs)
  let ?u = "u\<lparr>lsr_reads := Suc (lsr_reads u), rx := bs\<rparr>"
  have g: "uartgetc u = (uint b, ?u)" using Cons.hyps(2) by (simp add: uartgetc_byte)
  have "uart_ready ?u" using Cons.prems by simp
  then obtain s1 n dump where k: "consoleintr ps (uint b) s ?u =
      Some (s1, ?u\<lparr>lsr_reads := n, thr := thr ?u @ typed_echo (uint b) (editor_of s) dump\<rparr>)"
      "cons_ok s1" "editor_of s1 = fst (edit_key (uint b) (editor_of s))"
    using consoleintr_refines [OF Cons.prems(1), of ?u "uint b" ps] u8_uint_range [of b] by blast
  define u1 where "u1 = ?u\<lparr>lsr_reads := n, thr := thr ?u @ typed_echo (uint b) (editor_of s) dump\<rparr>"
  have u1: "rx u1 = bs" "uart_ready u1" "tx_bytes u1 = tx_bytes u" using Cons.prems(2) by (simp_all add: u1_def)
  from Cons.hyps(1) [OF u1(1) [symmetric] k(2) u1(2)] obtain s' u' where
    *: "uartintr_loop ps (length bs) s1 u1 = Some (s', u')" "cons_ok s'" "uart_ready u'" "rx u' = []"
      "tx_bytes u' = tx_bytes u" "editor_of s' = type_all bs (editor_of s1)"
    using u1 by auto
  have "uint b \<noteq> -1" using u8_uint_range [of b] by linarith
  then have "uartintr_loop ps (length (rx u)) s u = uartintr_loop ps (length bs) s1 u1"
    using Cons.hyps(2) [symmetric] g k(1) by (subst uartintr_loop.simps) (simp add: u1_def)
  then show ?case using * Cons.hyps(2) [symmetric] k(3) by (auto simp: type_all_def)
qed

text \<open>
  The UART interrupt handler returns; it has fed every waiting input byte to the line
  editor in order, and has sent the bytes of the transmit ring in order until the ring is
  empty or the transmitter is busy.
\<close>

theorem uartintr_drains:
  assumes "cons_ok s" and "uart_ready u"
  shows "\<exists>s' u' echoed sent. uartintr ps s u = Some (s', u') \<and> rx u' = [] \<and>
    editor_of s' = type_all (rx u) (editor_of s) \<and> cons_ok s' \<and> uart_ok u' \<and>
    thr u' = echoed @ sent \<and> tx_bytes u = sent @ tx_bytes u' \<and>
    (tx_bytes u' = [] \<or> \<not> idle u' (lsr_reads u' - 1))"
proof -
  obtain s' u1 where 1: "uartintr_loop ps (length (rx u)) s u = Some (s', u1)" "cons_ok s'" "uart_ready u1"
      "rx u1 = []" "tx_bytes u1 = tx_bytes u" "editor_of s' = type_all (rx u) (editor_of s)"
    using uartintr_loop_ok [OF assms] by blast
  have ok: "uart_ok u1" using 1(3) by (simp add: uart_ready_def)
  show ?thesis using 1 uartstart_ok [OF ok] by (auto simp: uartintr_def)
qed

theorem uartintr_drains_witness:
  "\<exists>s' u'. uartintr [] cons_zero (idle_uart\<lparr>rx := [104, 105, 13]\<rparr>) = Some (s', u') \<and> editor_of s' = ([104, 105, 10], [])"
proof -
  have "type_all [104, 105, 13] ([], []) = ([104, 105, 10], [])" by code_simp
  then show ?thesis using uartintr_drains [of cons_zero "idle_uart\<lparr>rx := [104, 105, 13]\<rparr>" "[]"] by auto
qed

lemma consolewrite_loop_ok:
  assumes "uart_ok u"
  shows "\<exists>j u'. i \<le> j \<and> j \<le> i + k \<and> uart_ok u' \<and>
    thr u' @ tx_bytes u' = thr u @ tx_bytes u @ user_bytes copyin src i j \<and>
    (consolewrite_loop copyin src i k u = Done (int j) u' \<and> (j = i + k \<or> copyin (src + j) = None) \<or>
     consolewrite_loop copyin src i k u = Wait j u' \<and> j < i + k \<and>
       (panicked u' \<or> length (tx_bytes u') = UART_TX_BUF_SIZE))"
  using assms
proof (induction k arbitrary: i u)
  case 0
  then show ?case by (intro exI [of _ i] exI [of _ u]) (simp add: user_bytes_none)
next
  case (Suc k)
  show ?case
  proof (cases "copyin (src + i)")
    case None
    then show ?thesis using Suc.prems by (intro exI [of _ i] exI [of _ u]) (simp add: user_bytes_none)
  next
    case (Some c)
    consider "uartputc c u = Sleeps" "panicked u \<or> length (tx_bytes u) = UART_TX_BUF_SIZE"
      | u1 where "uartputc c u = Ok u1" "uart_ok u1" "thr u1 @ tx_bytes u1 = thr u @ tx_bytes u @ [c]"
      using uartputc_ok [OF Suc.prems, of c] by blast
    then show ?thesis
    proof cases
      case 1
      then show ?thesis using Some Suc.prems by (intro exI [of _ i] exI [of _ u]) (simp add: user_bytes_none)
    next
      case 2
      have "i < j \<Longrightarrow> user_bytes copyin src i j = c # user_bytes copyin src (i + 1) j" for j
        using Some by (simp add: user_bytes_def upt_conv_Cons)
      moreover obtain j u' where j: "i + 1 \<le> j" "j \<le> i + 1 + k" "uart_ok u'"
          "thr u' @ tx_bytes u' = thr u1 @ tx_bytes u1 @ user_bytes copyin src (i + 1) j"
          "consolewrite_loop copyin src (i + 1) k u1 = Done (int j) u' \<and> (j = i + 1 + k \<or> copyin (src + j) = None) \<or>
           consolewrite_loop copyin src (i + 1) k u1 = Wait j u' \<and> j < i + 1 + k \<and>
             (panicked u' \<or> length (tx_bytes u') = UART_TX_BUF_SIZE)"
        using Suc.IH [OF 2(2), of "i + 1"] by blast
      moreover have "thr u1 @ tx_bytes u1 @ r = thr u @ tx_bytes u @ c # r" for r
        using arg_cong [OF 2(3), of "\<lambda>l. l @ r"] by simp
      ultimately show ?thesis using 2(1) Some by (intro exI [of _ j] exI [of _ u']) simp
    qed
  qed
qed

text \<open>
  A write to the console passes on the user's bytes in order, each once, from where it had
  got to, and stops at the last byte, at an address it cannot read, or with a full transmit
  ring, from where it is resumed.
\<close>

theorem consolewrite_stream:
  assumes "uart_ok u" and "int i \<le> n"
  shows "\<exists>j u'. int j \<le> n \<and> thr u' @ tx_bytes u' = thr u @ tx_bytes u @ user_bytes copyin src i j \<and>
    (consolewrite copyin src i n u = Done (int j) u' \<and> (int j = n \<or> copyin (src + j) = None) \<or>
     consolewrite copyin src i n u = Wait j u' \<and> int j < n \<and>
       (panicked u' \<or> length (tx_bytes u') = UART_TX_BUF_SIZE))"
proof -
  let ?k = "nat (n - int i)"
  obtain j u' where j: "j \<le> i + ?k" "thr u' @ tx_bytes u' = thr u @ tx_bytes u @ user_bytes copyin src i j"
      "consolewrite copyin src i n u = Done (int j) u' \<and> (j = i + ?k \<or> copyin (src + j) = None) \<or>
       consolewrite copyin src i n u = Wait j u' \<and> j < i + ?k \<and>
         (panicked u' \<or> length (tx_bytes u') = UART_TX_BUF_SIZE)"
    using consolewrite_loop_ok [OF assms(1), of i ?k copyin src] unfolding consolewrite_def by blast
  have "int j \<le> n" "j = i + ?k \<longleftrightarrow> int j = n" "j < i + ?k \<longleftrightarrow> int j < n" using j(1) assms(2) by auto
  with j(2,3) show ?thesis by (intro exI [of _ j] exI [of _ u']) auto
qed

theorem consolewrite_stream_witness:
  "\<exists>j u'. thr u' @ tx_bytes u' = user_bytes (\<lambda>a. Some (word_of_nat a)) 65 0 j \<and>
    (consolewrite (\<lambda>a. Some (word_of_nat a)) 65 0 2 idle_uart = Done (int j) u' \<or>
     consolewrite (\<lambda>a. Some (word_of_nat a)) 65 0 2 idle_uart = Wait j u')"
proof -
  have "uart_ok idle_uart" "thr idle_uart @ tx_bytes idle_uart = []"
    by (simp_all add: uart_ok_def idle_uart_def tx_bytes_def ring_bytes_empty)
  with consolewrite_stream [of idle_uart 0 2 "\<lambda>a. Some (word_of_nat a)" 65] show ?thesis by auto
qed

end
