(* ===== verification/Cmem.thy ===== *)
theory Cmem
  imports Prelude
begin

text \<open>
  The kernel's memory and string routines (\<^verbatim>\<open>kernel/string.c\<close>). Memory is a map from
  addresses to bytes; a pointer is its address. A loop that runs until it meets a NUL byte
  is a partial function, whose result is \<open>None\<close> when it runs forever. \<^verbatim>\<open>char\<close> is unsigned,
  as on RISC-V. The routines return their first argument, which is left out.
\<close>

type_synonym mem = "nat \<Rightarrow> u8"

section \<open>Blocks of memory\<close>

fun memset_loop :: "nat \<Rightarrow> u8 \<Rightarrow> nat \<Rightarrow> nat \<Rightarrow> mem \<Rightarrow> mem" where
  "memset_loop cdst c i 0 m = m"
| "memset_loop cdst c i (Suc k) m =
     memset_loop cdst c (i + 1) k (m(nat (int cdst + s32 (int i)) := c))"

definition memset :: "nat \<Rightarrow> int \<Rightarrow> nat \<Rightarrow> mem \<Rightarrow> mem" where
  "memset dst c n m = memset_loop dst (word_of_int c) 0 n m"

fun memcmp :: "nat \<Rightarrow> nat \<Rightarrow> nat \<Rightarrow> mem \<Rightarrow> int" where
  "memcmp s1 s2 0 m = 0"
| "memcmp s1 s2 (Suc n) m =
     (if m s1 \<noteq> m s2 then uint (m s1) - uint (m s2) else memcmp (s1 + 1) (s2 + 1) n m)"

fun copy_bwd :: "nat \<Rightarrow> nat \<Rightarrow> nat \<Rightarrow> mem \<Rightarrow> mem" where
  "copy_bwd d s 0 m = m"
| "copy_bwd d s (Suc n) m = copy_bwd (d - 1) (s - 1) n (m(d - 1 := m (s - 1)))"

fun copy_fwd :: "nat \<Rightarrow> nat \<Rightarrow> nat \<Rightarrow> mem \<Rightarrow> mem" where
  "copy_fwd d s 0 m = m"
| "copy_fwd d s (Suc n) m = copy_fwd (d + 1) (s + 1) n (m(d := m s))"

definition memmove :: "nat \<Rightarrow> nat \<Rightarrow> nat \<Rightarrow> mem \<Rightarrow> mem" where
  "memmove dst src n m =
     (if n = 0 then m
      else if src < dst \<and> src + n > dst then copy_bwd (dst + n) (src + n) n m
      else copy_fwd dst src n m)"

definition memcpy :: "nat \<Rightarrow> nat \<Rightarrow> nat \<Rightarrow> mem \<Rightarrow> mem" where
  "memcpy dst src n m = memmove dst src n m"

section \<open>Strings\<close>

fun strncmp :: "nat \<Rightarrow> nat \<Rightarrow> nat \<Rightarrow> mem \<Rightarrow> int" where
  "strncmp p q 0 m = 0"
| "strncmp p q (Suc n) m =
     (if m p \<noteq> 0 \<and> m p = m q then strncmp (p + 1) (q + 1) n m
      else uint (m p) - uint (m q))"

text \<open>The two loops of \<^verbatim>\<open>strncpy\<close>, counting down the positive values of \<^verbatim>\<open>n\<close>.\<close>

fun pad_zero :: "nat \<Rightarrow> nat \<Rightarrow> mem \<Rightarrow> mem" where
  "pad_zero s 0 m = m"
| "pad_zero s (Suc n) m = pad_zero (s + 1) n (m(s := 0))"

fun strncpy_loop :: "nat \<Rightarrow> nat \<Rightarrow> nat \<Rightarrow> mem \<Rightarrow> mem" where
  "strncpy_loop s t 0 m = m"
| "strncpy_loop s t (Suc n) m =
     (if m t \<noteq> 0 then strncpy_loop (s + 1) (t + 1) n (m(s := m t))
      else pad_zero (s + 1) n (m(s := m t)))"

definition strncpy :: "nat \<Rightarrow> nat \<Rightarrow> int \<Rightarrow> mem \<Rightarrow> mem" where
  "strncpy s t n m = strncpy_loop s t (nat n) m"

text \<open>
  The loop of \<^verbatim>\<open>safestrcpy\<close>; the result is \<^verbatim>\<open>s\<close> at its end. It has been advanced past
  a NUL that was copied.
\<close>

fun safestrcpy_loop :: "nat \<Rightarrow> nat \<Rightarrow> nat \<Rightarrow> mem \<Rightarrow> nat \<times> mem" where
  "safestrcpy_loop s t 0 m = (s, m)"
| "safestrcpy_loop s t (Suc n) m =
     (if m t \<noteq> 0 then safestrcpy_loop (s + 1) (t + 1) n (m(s := m t)) else (s + 1, m(s := m t)))"

definition safestrcpy :: "nat \<Rightarrow> nat \<Rightarrow> int \<Rightarrow> mem \<Rightarrow> mem" where
  "safestrcpy s t n m =
     (if n \<le> 0 then m
      else let (s, m) = safestrcpy_loop s t (nat (n - 1)) m in m(s := 0))"

partial_function (option) strlen_from :: "nat \<Rightarrow> nat \<Rightarrow> mem \<Rightarrow> nat option" where
  [code]: "strlen_from s n m = (if m (s + n) \<noteq> 0 then strlen_from s (n + 1) m else Some n)"

definition strlen :: "nat \<Rightarrow> mem \<Rightarrow> nat option" where
  "strlen s m = strlen_from s 0 m"

section \<open>Blocks: what the routines do\<close>

text \<open>The bytes of a block, and a block replaced by given bytes.\<close>

definition bytes :: "mem \<Rightarrow> nat \<Rightarrow> nat \<Rightarrow> u8 list" where
  "bytes m a n = map (\<lambda>i. m (a + i)) [0..<n]"

definition store :: "nat \<Rightarrow> u8 list \<Rightarrow> mem \<Rightarrow> mem" where
  "store a bs m = (\<lambda>x. if a \<le> x \<and> x < a + length bs then bs ! (x - a) else m x)"

lemma length_bytes [simp]: "length (bytes m a n) = n"
  by (simp add: bytes_def)

lemma nth_bytes [simp]: "i < n \<Longrightarrow> bytes m a n ! i = m (a + i)"
  by (simp add: bytes_def)

lemma store_Nil [simp]: "store a [] m = m"
  by (auto simp: store_def fun_eq_iff)

lemma store_Cons: "store a (b # bs) m = store (a + 1) bs (m(a := b))"
proof
  fix x
  have "x < a \<or> x = a \<or> (\<exists>y. x = a + 1 + y)" by presburger
  then consider "x < a" | "x = a" | y where "x = a + 1 + y" by blast
  then show "store a (b # bs) m x = store (a + 1) bs (m(a := b)) x"
    by cases (auto simp: store_def)
qed

lemma bytes_Suc: "bytes m a (Suc n) = m a # bytes m (a + 1) n"
  by (rule nth_equalityI) (auto simp: nth_Cons split: nat.splits)

lemma bytes_store [simp]: "bytes (store a bs m) a (length bs) = bs"
  by (rule nth_equalityI) (auto simp: store_def)

lemma copy_fwd_eq:
  "d \<le> s \<or> s + n \<le> d \<Longrightarrow> copy_fwd d s n m = store d (bytes m s n) m"
proof (induction n arbitrary: d s m)
  case 0
  then show ?case by (simp add: bytes_def)
next
  case (Suc n)
  then have "copy_fwd (d + 1) (s + 1) n (m(d := m s)) =
      store (d + 1) (bytes (m(d := m s)) (s + 1) n) (m(d := m s))"
    by (intro Suc.IH) auto
  moreover have "bytes (m(d := m s)) (s + 1) n = bytes m (s + 1) n"
    using Suc.prems by (auto intro!: nth_equalityI)
  ultimately show ?case by (simp add: bytes_Suc store_Cons)
qed

lemma bytes_snoc: "bytes m a (Suc n) = bytes m a n @ [m (a + n)]"
  by (simp add: bytes_def)

lemma store_snoc: "store a (bs @ [b]) m = store a bs (m(a + length bs := b))"
  by (auto simp: store_def fun_eq_iff nth_append)

lemma copy_bwd_eq:
  "s \<le> d \<Longrightarrow> copy_bwd (d + n) (s + n) n m = store d (bytes m s n) m"
proof (induction n arbitrary: m)
  case 0
  then show ?case by (simp add: bytes_def)
next
  case (Suc n)
  then have "copy_bwd (d + n) (s + n) n (m(d + n := m (s + n))) =
      store d (bytes (m(d + n := m (s + n))) s n) (m(d + n := m (s + n)))"
    by simp
  moreover have "bytes (m(d + n := m (s + n))) s n = bytes m s n"
    using Suc.prems by (auto intro!: nth_equalityI)
  ultimately show ?case using store_snoc [of d "bytes m s n"] by (simp add: bytes_snoc)
qed

lemma memset_loop_eq:
  "i + k \<le> 2 ^ 31 \<Longrightarrow> memset_loop d c i k m = store (d + i) (replicate k c) m"
proof (induction k arbitrary: i m)
  case (Suc k)
  have "nat (int d + s32 (int i)) = d + i" using Suc.prems s32_id [of "int i"] by simp
  then show ?case using Suc.IH [of "i + 1"] Suc.prems by (simp add: store_Cons)
qed simp

lemma memset_eq: "n \<le> 2 ^ 31 \<Longrightarrow> memset d c n m = store d (replicate n (word_of_int c)) m"
  by (simp add: memset_def memset_loop_eq)

lemma memmove_eq: "memmove dst src n m = store dst (bytes m src n) m"
  by (auto simp: memmove_def copy_fwd_eq copy_bwd_eq bytes_def)

lemma memcmp_eq_0: "memcmp a b n m = 0 \<longleftrightarrow> bytes m a n = bytes m b n"
  by (induction n arbitrary: a b) (auto simp: bytes_def [of _ _ 0] bytes_Suc word_uint_eq_iff)

section \<open>Strings: what the routines do\<close>

text \<open>The bytes of a C string: everything before the first NUL, when there is one.\<close>

definition cstr :: "mem \<Rightarrow> nat \<Rightarrow> u8 list \<Rightarrow> bool" where
  "cstr m a xs \<longleftrightarrow> bytes m a (length xs) = xs \<and> 0 \<notin> set xs \<and> m (a + length xs) = 0"

lemma cstr_Nil: "cstr m a [] \<longleftrightarrow> m a = 0"
  by (simp add: cstr_def bytes_def)

lemma cstr_Cons: "cstr m a (x # xs) \<longleftrightarrow> m a = x \<and> x \<noteq> 0 \<and> cstr m (a + 1) xs"
  by (auto simp: cstr_def bytes_Suc)

lemma cstr_nth: "cstr m a xs \<Longrightarrow> i < length xs \<Longrightarrow> m (a + i) = xs ! i \<and> xs ! i \<noteq> 0"
  using nth_bytes [of i "length xs" m a] by (auto simp: cstr_def) (metis nth_mem)

lemma cstr_unique: "cstr m a xs \<Longrightarrow> cstr m a ys \<Longrightarrow> xs = ys"
proof (induction xs arbitrary: a ys)
  case Nil
  then show ?case by (cases ys) (auto simp: cstr_Nil cstr_Cons)
next
  case (Cons x xs)
  then show ?case by (cases ys) (auto simp: cstr_Nil cstr_Cons)
qed

lemma strlen_cstr: "cstr m s xs \<Longrightarrow> strlen s m = Some (length xs)"
proof -
  assume c: "cstr m s xs"
  have "k \<le> length xs \<Longrightarrow> strlen_from s (length xs - k) m = Some (length xs)" for k
  proof (induction k)
    case 0
    then show ?case using c by (subst strlen_from.simps) (simp add: cstr_def)
  next
    case (Suc k)
    then have "m (s + (length xs - Suc k)) \<noteq> 0" using cstr_nth [OF c, of "length xs - Suc k"] by auto
    moreover have "length xs - Suc k + 1 = length xs - k" using Suc.prems by simp
    ultimately show ?case using Suc by (subst strlen_from.simps) simp
  qed
  from this [of "length xs"] show ?thesis by (simp add: strlen_def)
qed

lemma strncmp_eq_0:
  "cstr m p xs \<Longrightarrow> cstr m q ys \<Longrightarrow> strncmp p q n m = 0 \<longleftrightarrow> take n xs = take n ys"
proof (induction n arbitrary: p q xs ys)
  case (Suc n)
  show ?case
  proof (cases xs)
    case Nil
    with Suc.prems show ?thesis by (cases ys) (auto simp: cstr_Nil cstr_Cons word_uint_eq_iff)
  next
    case x: (Cons x xs')
    show ?thesis
    proof (cases ys)
      case Nil
      with x Suc.prems show ?thesis by (auto simp: cstr_Nil cstr_Cons word_uint_eq_iff)
    next
      case (Cons y ys')
      with x Suc show ?thesis by (auto simp: cstr_Cons word_uint_eq_iff)
    qed
  qed
qed simp

lemma pad_zero_eq: "pad_zero s n m = store s (replicate n 0) m"
  by (induction n arbitrary: s m) (simp_all add: store_Cons)

lemma cstr_upd: "cstr m a xs \<Longrightarrow> x < a \<or> a + length xs < x \<Longrightarrow> cstr (m(x := v)) a xs"
  by (induction xs arbitrary: a) (auto simp: cstr_Nil cstr_Cons)

lemma strncpy_loop_eq:
  "cstr m t xs \<Longrightarrow> t + length xs < s \<or> s + n \<le> t \<Longrightarrow>
     strncpy_loop s t n m = store s (take n (xs @ replicate n 0)) m"
proof (induction n arbitrary: s t xs m)
  case (Suc n)
  show ?case
  proof (cases xs)
    case Nil
    with Suc.prems show ?thesis by (simp add: cstr_Nil pad_zero_eq store_Cons)
  next
    case (Cons x xs')
    have "cstr (m(s := x)) (t + 1) xs'"
      by (rule cstr_upd) (use Suc.prems Cons in \<open>auto simp: cstr_Cons\<close>)
    then have "strncpy_loop (s + 1) (t + 1) n (m(s := x)) = store (s + 1) (take n (xs' @ replicate n 0)) (m(s := x))"
      by (rule Suc.IH) (use Suc.prems Cons in auto)
    moreover have "take n (xs' @ replicate n 0) = take n (xs' @ replicate (Suc n) (0::u8))"
      by (auto intro!: nth_equalityI simp: nth_append nth_Cons split: nat.splits)
    ultimately show ?thesis using Suc.prems Cons by (simp add: cstr_Cons store_Cons)
  qed
qed simp

lemma safestrcpy_loop_eq:
  "cstr m t xs \<Longrightarrow> t + length xs < s \<or> s + n \<le> t \<Longrightarrow>
     safestrcpy_loop s t n m =
       (if length xs < n then (s + length xs + 1, store s (xs @ [0]) m)
        else (s + n, store s (take n xs) m))"
proof (induction n arbitrary: s t xs m)
  case (Suc n)
  show ?case
  proof (cases xs)
    case Nil
    with Suc.prems show ?thesis by (simp add: cstr_Nil store_Cons)
  next
    case (Cons x xs')
    have "cstr (m(s := x)) (t + 1) xs'"
      by (rule cstr_upd) (use Suc.prems Cons in \<open>auto simp: cstr_Cons\<close>)
    then have "safestrcpy_loop (s + 1) (t + 1) n (m(s := x)) =
       (if length xs' < n then (s + 1 + length xs' + 1, store (s + 1) (xs' @ [0]) (m(s := x)))
        else (s + 1 + n, store (s + 1) (take n xs') (m(s := x))))"
      by (rule Suc.IH) (use Suc.prems Cons in auto)
    then show ?thesis using Suc.prems Cons by (simp add: cstr_Cons store_Cons)
  qed
qed simp

text \<open>
  What \<^verbatim>\<open>safestrcpy\<close> leaves in its destination: the first \<^verbatim>\<open>n-1\<close> bytes of the source
  string, NUL-terminated, and nothing written beyond \<^verbatim>\<open>n\<close> bytes.
\<close>

lemma safestrcpy_cstr:
  assumes "cstr m t xs" and "0 < n" and "t + length xs < s \<or> s + nat n \<le> t"
  shows "cstr (safestrcpy s t n m) s (take (nat n - 1) xs) \<and>
    (\<forall>x. x < s \<or> s + nat n \<le> x \<longrightarrow> safestrcpy s t n m x = m x)"
proof -
  define k where "k = nat n - 1"
  have k: "nat (n - 1) = k" "nat n = Suc k" using assms(2) by (simp_all add: k_def nat_diff_distrib)
  have nz: "0 \<notin> set xs" using assms(1) by (simp add: cstr_def)
  have loop: "safestrcpy_loop s t k m =
      (if length xs < k then (s + length xs + 1, store s (xs @ [0]) m) else (s + k, store s (take k xs) m))"
    by (rule safestrcpy_loop_eq) (use assms k in auto)
  show ?thesis
  proof (cases "length xs < k")
    case True
    then have eq: "safestrcpy s t n m = (store s (xs @ [0]) m)(s + length xs + 1 := 0)"
      using assms(2) loop k by (simp add: safestrcpy_def)
    have "bytes (safestrcpy s t n m) s (length xs) = xs"
      unfolding eq by (rule nth_equalityI) (auto simp: store_def nth_append)
    then show ?thesis
      using True nz k by (auto simp: cstr_def eq) (auto simp: store_def nth_append)
  next
    case False
    then have eq: "safestrcpy s t n m = (store s (take k xs) m)(s + k := 0)"
      using assms(2) loop k by (simp add: safestrcpy_def)
    have "bytes (safestrcpy s t n m) s k = take k xs"
      unfolding eq using False by (auto intro!: nth_equalityI simp: store_def)
    moreover have "0 \<notin> set (take k xs)" using nz set_take_subset by fastforce
    ultimately show ?thesis
      using False k by (auto simp: cstr_def eq min_def) (auto simp: store_def)
  qed
qed

text \<open>
  memmove copies correctly whatever the overlap of the two blocks: afterwards the
  destination holds the bytes the source held before, and no other byte has changed.
\<close>

theorem memmove_overlap:
  "bytes (memmove dst src n m) dst n = bytes m src n \<and>
   (\<forall>a. a < dst \<or> dst + n \<le> a \<longrightarrow> memmove dst src n m a = m a)"
proof -
  have "bytes (store dst (bytes m src n) m) dst n = bytes m src n"
    using bytes_store [of dst "bytes m src n" m] by simp
  then show ?thesis by (auto simp: memmove_eq store_def)
qed

theorem memmove_overlap_witness:
  "bytes (memmove 1 0 3 (\<lambda>a. word_of_nat a)) 1 3 = [0, 1, 2] \<and> memmove 1 0 3 (\<lambda>a. word_of_nat a) 4 = 4"
  using memmove_overlap [of 1 0 3 "\<lambda>a. word_of_nat a"] by (simp add: bytes_def numeral_eq_Suc)

text \<open>
  safestrcpy leaves a NUL-terminated string in its destination, the first n-1 bytes of the
  source at most, and writes to no byte behind the n bytes it was given.
\<close>

theorem safestrcpy_terminates:
  assumes "cstr m t xs" and "0 < n" and "t + length xs < s \<or> s + nat n \<le> t"
  shows "cstr (safestrcpy s t n m) s (take (nat n - 1) xs) \<and>
    (\<forall>x. x < s \<or> s + nat n \<le> x \<longrightarrow> safestrcpy s t n m x = m x)"
  by (rule safestrcpy_cstr [OF assms])

theorem safestrcpy_terminates_witness:
  "cstr (safestrcpy 50 10 3 (store 10 [65, 66, 67] (\<lambda>a. 0))) 50 [65, 66]"
proof -
  have c: "cstr (store 10 [65, 66, 67] (\<lambda>a. 0)) 10 [65, 66, 67]" by code_simp
  show ?thesis using safestrcpy_terminates [OF c, of 3 50] by simp
qed

end
