(* ===== verification/Page_Interface.thy ===== *)
theory Page_Interface
  imports Cmem
begin

text \<open>
  What the kernel expects of its page allocator, stated over any representation: \<open>inv s ps\<close>
  says that \<open>ps\<close> are the free pages of \<open>s\<close> in the order in which they will be handed out,
  and \<open>contents s\<close> is memory. A client owns the pages it was given and may write to them.
\<close>

definition in_page :: "nat \<Rightarrow> nat \<Rightarrow> bool" where
  "in_page p a \<longleftrightarrow> p \<le> a \<and> a < p + 4096"

datatype page_op = Alloc | Free nat | Write nat u8

text \<open>
  A client step: \<open>own\<close> are the pages the client holds. Operations on pages it does not hold
  are not part of the contract and end the run with \<open>Sleeps\<close>.
\<close>

fun client_step ::
  "('s \<Rightarrow> nat \<times> 's) \<Rightarrow> (nat \<Rightarrow> 's \<Rightarrow> 's res) \<Rightarrow> (nat \<Rightarrow> u8 \<Rightarrow> 's \<Rightarrow> 's) \<Rightarrow>
   page_op \<Rightarrow> 's \<times> nat list \<Rightarrow> ('s \<times> nat list) res" where
  "client_step alloc free wr Alloc (s, own) = (let (p, s) = alloc s in Ok (s, if p = 0 then own else p # own))"
| "client_step alloc free wr (Free p) (s, own) =
     (if p \<in> set own then bind_res (free p s) (\<lambda>s. Ok (s, remove1 p own)) else Sleeps)"
| "client_step alloc free wr (Write a v) (s, own) =
     (if \<exists>p \<in> set own. in_page p a then Ok (wr a v s, own) else Sleeps)"

fun client_run ::
  "('s \<Rightarrow> nat \<times> 's) \<Rightarrow> (nat \<Rightarrow> 's \<Rightarrow> 's res) \<Rightarrow> (nat \<Rightarrow> u8 \<Rightarrow> 's \<Rightarrow> 's) \<Rightarrow>
   page_op list \<Rightarrow> 's \<times> nat list \<Rightarrow> ('s \<times> nat list) res" where
  "client_run alloc free wr [] st = Ok st"
| "client_run alloc free wr (op # ops) st = bind_res (client_step alloc free wr op st) (client_run alloc free wr ops)"

locale page_allocator =
  fixes inv :: "'s \<Rightarrow> nat list \<Rightarrow> bool"
    and valid :: "nat \<Rightarrow> bool"
    and contents :: "'s \<Rightarrow> mem"
    and alloc :: "'s \<Rightarrow> nat \<times> 's"
    and free :: "nat \<Rightarrow> 's \<Rightarrow> 's res"
    and wr :: "nat \<Rightarrow> u8 \<Rightarrow> 's \<Rightarrow> 's"
  assumes inv_pages: "inv s ps \<Longrightarrow> distinct ps \<and> (\<forall>p \<in> set ps. valid p)"
    and valid_pages: "valid p \<Longrightarrow> valid q \<Longrightarrow> in_page p a \<Longrightarrow> in_page q a \<Longrightarrow> p = q"
    and valid_nonzero: "valid p \<Longrightarrow> p \<noteq> 0"
    and alloc_none: "inv s [] \<Longrightarrow> alloc s = (0, s)"
    and alloc_some: "inv s (p # ps) \<Longrightarrow> \<exists>s'. alloc s = (p, s') \<and> inv s' ps \<and>
          (\<forall>a. \<not> in_page p a \<longrightarrow> contents s' a = contents s a)"
    and free_page: "inv s ps \<Longrightarrow> valid p \<Longrightarrow> p \<notin> set ps \<Longrightarrow> \<exists>s'. free p s = Ok s' \<and> inv s' (p # ps) \<and>
          (\<forall>a. \<not> in_page p a \<longrightarrow> contents s' a = contents s a)"
    and write_page: "inv s ps \<Longrightarrow> valid p \<Longrightarrow> p \<notin> set ps \<Longrightarrow> in_page p a \<Longrightarrow> inv (wr a v s) ps"
    and write_contents: "contents (wr a v s) = (contents s)(a := v)"
begin

definition client_ok :: "nat \<Rightarrow> 's \<times> nat list \<Rightarrow> bool" where
  "client_ok n = (\<lambda>(s, own). \<exists>ps. inv s ps \<and> distinct (own @ ps) \<and> (\<forall>p \<in> set own. valid p) \<and>
     length own + length ps = n)"

lemma alloc_ok:
  assumes "client_ok n (s, own)"
  shows "\<exists>s' own'. client_step alloc free wr Alloc (s, own) = Ok (s', own') \<and> client_ok n (s', own')"
proof -
  obtain ps where ps: "inv s ps" "distinct (own @ ps)" "\<forall>p \<in> set own. valid p" "length own + length ps = n"
    using assms by (auto simp: client_ok_def)
  show ?thesis
  proof (cases ps)
    case Nil
    then show ?thesis using ps alloc_none [of s] by (auto simp: client_ok_def)
  next
    case (Cons p qs)
    then obtain s' where s': "alloc s = (p, s')" "inv s' qs" using ps(1) alloc_some [of s p qs] by auto
    moreover have "valid p" "p \<noteq> 0" using inv_pages [OF ps(1)] Cons valid_nonzero by auto
    ultimately show ?thesis using ps Cons by (auto simp: client_ok_def intro!: exI [of _ qs])
  qed
qed

lemma free_ok:
  assumes "client_ok n (s, own)" and "p \<in> set own"
  shows "\<exists>s' own'. client_step alloc free wr (Free p) (s, own) = Ok (s', own') \<and> client_ok n (s', own')"
proof -
  obtain ps where ps: "inv s ps" "distinct (own @ ps)" "\<forall>p \<in> set own. valid p" "length own + length ps = n"
    using assms by (auto simp: client_ok_def)
  moreover have "p \<notin> set ps" using ps(2) assms(2) by auto
  ultimately obtain s' where s': "free p s = Ok s'" "inv s' (p # ps)"
    using free_page [of s ps p] assms(2) by auto
  have "0 < length own" using assms(2) by (cases own) auto
  then have "length (remove1 p own) + length (p # ps) = n" "distinct (remove1 p own @ p # ps)"
      "\<forall>q \<in> set (remove1 p own). valid q"
    using ps assms(2) notin_set_remove1 by (auto simp: length_remove1 dest: notin_set_remove1)
  then show ?thesis using s' assms(2) by (auto simp: client_ok_def intro!: exI [of _ "p # ps"])
qed

lemma write_ok:
  assumes "client_ok n (s, own)" and "\<exists>p \<in> set own. in_page p a"
  shows "\<exists>s' own'. client_step alloc free wr (Write a v) (s, own) = Ok (s', own') \<and> client_ok n (s', own')"
proof -
  obtain ps where ps: "inv s ps" "distinct (own @ ps)" "\<forall>p \<in> set own. valid p" "length own + length ps = n"
    using assms by (auto simp: client_ok_def)
  from assms(2) obtain p where p: "p \<in> set own" "in_page p a" by blast
  moreover have "p \<notin> set ps" using ps(2) p by auto
  ultimately have "inv (wr a v s) ps" using write_page [OF ps(1)] ps(3) by blast
  then show ?thesis using ps assms(2) by (auto simp: client_ok_def)
qed

lemma client_step_ok:
  "client_ok n st \<Longrightarrow> client_step alloc free wr op st \<noteq> Sleeps \<Longrightarrow> \<exists>st'. client_step alloc free wr op st = Ok st' \<and> client_ok n st'"
  using alloc_ok [of n "fst st" "snd st"] free_ok [of n "fst st" "snd st"] write_ok [of n "fst st" "snd st"]
  by (cases op; cases st) (auto split: if_splits simp del: client_step.simps(1))

lemma client_run_ok:
  "client_ok n st \<Longrightarrow> client_run alloc free wr ops st \<noteq> Sleeps \<Longrightarrow>
     \<exists>st'. client_run alloc free wr ops st = Ok st' \<and> client_ok n st'"
proof (induction ops arbitrary: st)
  case (Cons op ops)
  then have "client_step alloc free wr op st \<noteq> Sleeps" by auto
  then obtain st1 where "client_step alloc free wr op st = Ok st1" "client_ok n st1"
    using client_step_ok [OF Cons.prems(1)] by blast
  then show ?case using Cons by auto
qed simp

text \<open>An operation leaves the contents of every page alone that the client holds before and after it.\<close>

lemma client_step_contents:
  assumes "client_ok n (s, own)" and "client_step alloc free wr op (s, own) = Ok (s', own')"
    and "q \<in> set own" and "q \<in> set own'" and "in_page q a" and "\<forall>v. op \<noteq> Write a v"
  shows "contents s' a = contents s a"
proof -
  obtain ps where ps: "inv s ps" "distinct (own @ ps)" "\<forall>p \<in> set own. valid p"
    using assms(1) by (auto simp: client_ok_def)
  show ?thesis
  proof (cases op)
    case Alloc
    show ?thesis
    proof (cases ps)
      case Nil
      then show ?thesis using Alloc assms(2) ps(1) alloc_none [of s] by auto
    next
      case (Cons p qs)
      then have "\<not> in_page p a"
        using valid_pages [of p q a] inv_pages [OF ps(1)] ps(2,3) assms(3,5) by auto
      then show ?thesis using alloc_some [of s p qs] ps(1) Cons Alloc assms(2) by auto
    qed
  next
    case (Free p)
    then have p: "p \<in> set own" "p \<notin> set ps" "valid p" using assms(2) ps by (auto split: if_splits)
    then obtain s1 where s1: "free p s = Ok s1" "\<forall>a. \<not> in_page p a \<longrightarrow> contents s1 a = contents s a"
      using free_page [OF ps(1)] by blast
    have "q \<noteq> p" using assms(2,4) Free s1(1) p(1) ps(2) by (auto simp: set_remove1_eq)
    then have "\<not> in_page p a" using valid_pages [of p q a] p(3) ps(3) assms(3,5) by auto
    then show ?thesis using s1 Free assms(2) p(1) by auto
  next
    case (Write b v)
    then show ?thesis using assms(2,6) by (auto split: if_splits simp: write_contents)
  qed
qed

end

end
