(* ===== verification/Kalloc.thy ===== *)
theory Kalloc
  imports Page_Interface Bytes
begin

text \<open>
  The physical page allocator (\<^verbatim>\<open>kernel/kalloc.c\<close>): the free list runs through the first
  eight bytes of the free pages themselves. \<open>kend\<close> is the symbol \<^verbatim>\<open>end\<close> that the linker
  script defines, the first address behind the kernel. Code under \<^verbatim>\<open>kmem.lock\<close> is atomic.
\<close>

abbreviation (input) PGSIZE :: nat where "PGSIZE \<equiv> 4096"
abbreviation (input) PHYSTOP :: nat where "PHYSTOP \<equiv> 0x88000000"

text \<open>\<^verbatim>\<open>PGROUNDUP\<close> and \<^verbatim>\<open>PGROUNDDOWN\<close> clear the low twelve bits.\<close>

definition PGROUNDDOWN :: "nat \<Rightarrow> nat" where
  "PGROUNDDOWN a = a - a mod PGSIZE"

definition PGROUNDUP :: "nat \<Rightarrow> nat" where
  "PGROUNDUP sz = (sz + PGSIZE - 1) - (sz + PGSIZE - 1) mod PGSIZE"

record kmem =
  kmemory :: mem
  freelist :: nat

definition run_next :: "nat \<Rightarrow> mem \<Rightarrow> nat" where
  "run_next r m = le_nat (bytes m r 8)"

definition set_run_next :: "nat \<Rightarrow> nat \<Rightarrow> mem \<Rightarrow> mem" where
  "set_run_next r v m = store r (nat_le 8 v) m"

definition kfree :: "nat \<Rightarrow> nat \<Rightarrow> kmem \<Rightarrow> kmem res" where
  "kfree kend pa s =
     (if pa mod PGSIZE \<noteq> 0 \<or> pa < kend \<or> PHYSTOP \<le> pa then Panic ''kfree''
      else
        let s = s\<lparr>kmemory := memset pa 1 PGSIZE (kmemory s)\<rparr>;
            s = s\<lparr>kmemory := set_run_next pa (freelist s) (kmemory s)\<rparr>
        in Ok (s\<lparr>freelist := pa\<rparr>))"

definition kalloc :: "kmem \<Rightarrow> nat \<times> kmem" where
  "kalloc s =
     (let r = freelist s
      in if r \<noteq> 0 then
           let s = s\<lparr>freelist := run_next r (kmemory s)\<rparr>
           in (r, s\<lparr>kmemory := memset r 5 PGSIZE (kmemory s)\<rparr>)
         else (r, s))"

function freerange_loop :: "nat \<Rightarrow> nat \<Rightarrow> nat \<Rightarrow> kmem \<Rightarrow> kmem res" where
  "freerange_loop kend pa_end p s =
     (if p + PGSIZE \<le> pa_end then bind_res (kfree kend p s) (freerange_loop kend pa_end (p + PGSIZE))
      else Ok s)"
  by pat_completeness auto

termination freerange_loop
  by (relation "measure (\<lambda>(kend, pa_end, p, s). pa_end - p)") auto

declare freerange_loop.simps [simp del]

definition freerange :: "nat \<Rightarrow> nat \<Rightarrow> nat \<Rightarrow> kmem \<Rightarrow> kmem res" where
  "freerange kend pa_start pa_end s = freerange_loop kend pa_end (PGROUNDUP pa_start) s"

definition kinit :: "nat \<Rightarrow> kmem \<Rightarrow> kmem res" where
  "kinit kend s = freerange kend kend PHYSTOP s"

text \<open>The owner of a page writes to it.\<close>

definition poke :: "nat \<Rightarrow> u8 \<Rightarrow> kmem \<Rightarrow> kmem" where
  "poke a v s = s\<lparr>kmemory := (kmemory s)(a := v)\<rparr>"

section \<open>The free list\<close>

fun chain :: "mem \<Rightarrow> nat \<Rightarrow> nat list \<Rightarrow> bool" where
  "chain m r [] \<longleftrightarrow> r = 0"
| "chain m r (p # ps) \<longleftrightarrow> r = p \<and> chain m (run_next p m) ps"

definition phys_page :: "nat \<Rightarrow> nat \<Rightarrow> bool" where
  "phys_page kend p \<longleftrightarrow> p \<noteq> 0 \<and> p mod PGSIZE = 0 \<and> kend \<le> p \<and> p < PHYSTOP"

definition kmem_inv :: "nat \<Rightarrow> kmem \<Rightarrow> nat list \<Rightarrow> bool" where
  "kmem_inv kend s ps \<longleftrightarrow> chain (kmemory s) (freelist s) ps \<and> distinct ps \<and> (\<forall>p \<in> set ps. phys_page kend p)"

lemma phys_pages_disjoint:
  assumes "phys_page kend p" "phys_page kend q" "in_page p a" "in_page q a"
  shows "p = q"
proof -
  obtain i j where ij: "p = 4096 * i" "q = 4096 * j"
    using assms(1,2) by (auto simp: phys_page_def mod_eq_0_iff_dvd dvd_def)
  then have "a div 4096 = i" "a div 4096 = j" using assms(3,4) by (auto simp: in_page_def)
  then show ?thesis using ij by simp
qed

lemma run_next_cong: "(\<And>a. in_page p a \<Longrightarrow> m a = m' a) \<Longrightarrow> run_next p m = run_next p m'"
  unfolding run_next_def bytes_def by (rule arg_cong [of _ _ le_nat]) (auto simp: in_page_def)

lemma chain_cong:
  "(\<And>p a. p \<in> set ps \<Longrightarrow> in_page p a \<Longrightarrow> m a = m' a) \<Longrightarrow> chain m r ps = chain m' r ps"
proof (induction ps arbitrary: r)
  case (Cons p ps)
  have "run_next p m = run_next p m'" by (rule run_next_cong) (use Cons.prems in auto)
  then show ?case using Cons by auto
qed simp

lemma memset_outside: "\<not> in_page p a \<Longrightarrow> memset p c PGSIZE m a = m a"
  by (auto simp: memset_eq store_def in_page_def)

lemma set_run_next_outside: "\<not> in_page p a \<Longrightarrow> set_run_next p v m a = m a"
  by (auto simp: set_run_next_def store_def in_page_def)

lemma run_next_set: "v < 2 ^ 64 \<Longrightarrow> run_next p (set_run_next p v m) = v"
proof -
  assume v: "v < 2 ^ 64"
  have "bytes (store p (nat_le 8 v) m) p 8 = nat_le 8 v" using bytes_store [of p "nat_le 8 v" m] by simp
  then show ?thesis using v by (simp add: run_next_def set_run_next_def le_nat_nat_le)
qed

lemma freelist_bound: "kmem_inv kend s ps \<Longrightarrow> freelist s < 2 ^ 64"
  by (cases ps) (auto simp: kmem_inv_def phys_page_def)

lemma kalloc_page:
  assumes "kmem_inv kend s (p # ps)"
  shows "\<exists>s'. kalloc s = (p, s') \<and> kmem_inv kend s' ps \<and> (\<forall>a. \<not> in_page p a \<longrightarrow> kmemory s' a = kmemory s a)"
proof -
  have p: "freelist s = p" "p \<noteq> 0" "chain (kmemory s) (run_next p (kmemory s)) ps" "phys_page kend p"
    using assms by (auto simp: kmem_inv_def phys_page_def)
  let ?m = "memset p 5 PGSIZE (kmemory s)"
  have "chain ?m r ps = chain (kmemory s) r ps" for r
  proof (rule chain_cong)
    fix q a assume "q \<in> set ps" "in_page q a"
    then have "\<not> in_page p a" using phys_pages_disjoint [OF p(4), of q a] assms by (auto simp: kmem_inv_def)
    then show "?m a = kmemory s a" by (rule memset_outside)
  qed
  then show ?thesis
    using p assms by (auto simp: kalloc_def kmem_inv_def Let_def memset_outside)
qed

lemma kfree_page:
  assumes "kmem_inv kend s ps" and "phys_page kend p" and "p \<notin> set ps"
  shows "\<exists>s'. kfree kend p s = Ok s' \<and> kmem_inv kend s' (p # ps) \<and>
    (\<forall>a. \<not> in_page p a \<longrightarrow> kmemory s' a = kmemory s a)"
proof -
  let ?m = "set_run_next p (freelist s) (memset p 1 PGSIZE (kmemory s))"
  have out: "?m a = kmemory s a" if "\<not> in_page p a" for a
    using that by (simp add: memset_outside set_run_next_outside)
  have "chain ?m r ps = chain (kmemory s) r ps" for r
  proof (rule chain_cong)
    fix q a assume "q \<in> set ps" "in_page q a"
    then have "\<not> in_page p a"
      using phys_pages_disjoint [OF assms(2), of q a] assms(1,3) by (auto simp: kmem_inv_def)
    then show "?m a = kmemory s a" by (rule out)
  qed
  moreover have "run_next p ?m = freelist s" by (rule run_next_set [OF freelist_bound [OF assms(1)]])
  ultimately have "kmem_inv kend (s\<lparr>kmemory := ?m, freelist := p\<rparr>) (p # ps)"
    using assms by (auto simp: kmem_inv_def)
  moreover have "kfree kend p s = Ok (s\<lparr>kmemory := ?m, freelist := p\<rparr>)"
    using assms(2) by (auto simp: kfree_def phys_page_def Let_def)
  ultimately show ?thesis using out by auto
qed

lemma poke_page:
  assumes "kmem_inv kend s ps" and "phys_page kend p" and "p \<notin> set ps" and "in_page p a"
  shows "kmem_inv kend (poke a v s) ps"
proof -
  have "chain ((kmemory s)(a := v)) r ps = chain (kmemory s) r ps" for r
  proof (rule chain_cong)
    fix q b assume "q \<in> set ps" "in_page q b"
    then have "b \<noteq> a"
      using phys_pages_disjoint [OF assms(2), of q a] assms(1,3,4) by (auto simp: kmem_inv_def)
    then show "((kmemory s)(a := v)) b = kmemory s b" by simp
  qed
  then show ?thesis using assms(1) by (simp add: kmem_inv_def poke_def)
qed

lemma poke_contents: "kmemory (poke a v s) = (kmemory s)(a := v)"
  by (simp add: poke_def)

lemma phys_page_nonzero: "phys_page kend p \<Longrightarrow> 0 < p"
  by (simp add: phys_page_def)

interpretation pages: page_allocator "kmem_inv kend" "phys_page kend" kmemory kalloc "kfree kend" poke for kend
proof unfold_locales
  fix s ps assume "kmem_inv kend s ps"
  then show "distinct ps \<and> (\<forall>p\<in>set ps. phys_page kend p)" by (simp add: kmem_inv_def)
next
  fix s assume "kmem_inv kend s []"
  then show "kalloc s = (0, s)" by (simp add: kmem_inv_def kalloc_def)
qed (auto simp: kalloc_page kfree_page poke_page poke_contents phys_page_nonzero intro: phys_pages_disjoint)

section \<open>Start-up, and the promise to the kernel\<close>

lemma aligned_gap: "p mod PGSIZE = 0 \<Longrightarrow> q mod PGSIZE = 0 \<Longrightarrow> p < q \<Longrightarrow> p + PGSIZE \<le> q"
  by (auto simp: mod_eq_0_iff_dvd dvd_def)

lemma freerange_loop_ok:
  assumes "kmem_inv kend s ps" "\<forall>q \<in> set ps. q < p" "p mod PGSIZE = 0" "kend \<le> p" "p \<noteq> 0" "pa_end \<le> PHYSTOP"
  shows "\<exists>s' qs. freerange_loop kend pa_end p s = Ok s' \<and> kmem_inv kend s' (qs @ ps) \<and>
    set qs = {q. p \<le> q \<and> q mod PGSIZE = 0 \<and> q + PGSIZE \<le> pa_end} \<and> length qs = (pa_end - p) div PGSIZE"
  using assms
proof (induction "pa_end - p" arbitrary: p s ps rule: less_induct)
  case less
  have gap: "q = p \<or> p + PGSIZE \<le> q" if "p \<le> q" "PGSIZE dvd q" for q
    using that less.prems(3) aligned_gap [of p q] by (metis mod_eq_0_iff_dvd order_le_less)
  show ?case
  proof (cases "p + PGSIZE \<le> pa_end")
    case False
    then have "{q. p \<le> q \<and> q mod PGSIZE = 0 \<and> q + PGSIZE \<le> pa_end} = {}" by auto
    then show ?thesis using False less.prems(1)
      by (intro exI [of _ s] exI [of _ "[]"]) (auto simp: freerange_loop.simps)
  next
    case True
    have pp: "phys_page kend p" using less.prems True by (auto simp: phys_page_def)
    have "p \<notin> set ps" using less.prems(2) by auto
    then obtain s1 where s1: "kfree kend p s = Ok s1" "kmem_inv kend s1 (p # ps)"
      using kfree_page [OF less.prems(1) pp] by blast
    have "pa_end - (p + PGSIZE) < pa_end - p" "\<forall>q \<in> set (p # ps). q < p + PGSIZE" "(p + PGSIZE) mod PGSIZE = 0"
        "kend \<le> p + PGSIZE" "p + PGSIZE \<noteq> 0"
      using True less.prems by auto
    from less.hyps [OF this(1) s1(2) this(2-5) less.prems(6)] obtain s' qs where
      *: "freerange_loop kend pa_end (p + PGSIZE) s1 = Ok s'" "kmem_inv kend s' (qs @ p # ps)"
        "set qs = {q. p + PGSIZE \<le> q \<and> q mod PGSIZE = 0 \<and> q + PGSIZE \<le> pa_end}"
        "length qs = (pa_end - (p + PGSIZE)) div PGSIZE" by blast
    have "set (qs @ [p]) = {q. p \<le> q \<and> q mod PGSIZE = 0 \<and> q + PGSIZE \<le> pa_end}"
      unfolding set_append *(3) using gap True less.prems(3) by auto
    moreover have "length (qs @ [p]) = (pa_end - p) div PGSIZE"
      using *(4) True div_add_self2 [of PGSIZE "pa_end - (p + PGSIZE)"] by simp
    moreover have "freerange_loop kend pa_end p s = Ok s'"
      using True s1(1) *(1) by (subst freerange_loop.simps) simp
    ultimately show ?thesis using *(2) by (intro exI [of _ s'] exI [of _ "qs @ [p]"]) simp
  qed
qed

lemma PGROUNDUP_props:
  "PGROUNDUP a mod PGSIZE = 0" "a \<le> PGROUNDUP a" "PGROUNDUP a < a + PGSIZE"
  by (simp_all add: PGROUNDUP_def minus_mod_eq_mult_div)

text \<open>
  At start-up the allocator does not panic, and its free list holds every whole page
  between the end of the kernel and the top of memory, each exactly once.
\<close>

theorem kinit_frees_all:
  assumes "0 < kend" and "freelist s = 0"
  shows "\<exists>s' ps. kinit kend s = Ok s' \<and> kmem_inv kend s' ps \<and>
    set ps = {p. p mod PGSIZE = 0 \<and> kend \<le> p \<and> p + PGSIZE \<le> PHYSTOP}"
proof -
  have "kmem_inv kend s []" using assms(2) by (simp add: kmem_inv_def)
  moreover have "PGROUNDUP kend \<noteq> 0" using assms(1) PGROUNDUP_props(2) [of kend] by linarith
  ultimately obtain s' qs where *: "kinit kend s = Ok s'" "kmem_inv kend s' (qs @ [])"
      "set qs = {q. q mod PGSIZE = 0 \<and> PGROUNDUP kend \<le> q \<and> q + PGSIZE \<le> PHYSTOP}"
    using freerange_loop_ok [of kend s "[]" "PGROUNDUP kend" PHYSTOP] PGROUNDUP_props [of kend]
    unfolding kinit_def freerange_def by (auto simp: conj_commute conj_left_commute)
  have "PGROUNDUP kend \<le> q \<longleftrightarrow> kend \<le> q" if "q mod PGSIZE = 0" for q
    using that PGROUNDUP_props [of kend] aligned_gap [of q "PGROUNDUP kend"] by linarith
  then have "set qs = {p. p mod PGSIZE = 0 \<and> kend \<le> p \<and> p + PGSIZE \<le> PHYSTOP}" unfolding *(3) by (intro Collect_cong conj_cong) auto
  with *(1,2) show ?thesis by auto
qed

theorem kinit_frees_all_witness:
  "\<exists>s' ps. kinit 0x87fff000 \<lparr>kmemory = (\<lambda>a. 0), freelist = 0\<rparr> = Ok s' \<and> kmem_inv 0x87fff000 s' ps \<and> 0x87fff000 \<in> set ps"
proof -
  let ?s = "\<lparr>kmemory = (\<lambda>a. 0), freelist = 0\<rparr>"
  obtain s' ps where *: "kinit 0x87fff000 ?s = Ok s'" "kmem_inv 0x87fff000 s' ps"
      "set ps = {p. p mod PGSIZE = 0 \<and> 0x87fff000 \<le> p \<and> p + PGSIZE \<le> PHYSTOP}"
    using kinit_frees_all [of "0x87fff000" ?s] by auto
  have "0x87fff000 \<in> set ps" unfolding *(3) by simp
  with *(1,2) show ?thesis by blast
qed

text \<open>
  C11: Whatever sequence of allocations, frees and writes its users perform on pages they hold,
  kalloc and kfree never panic, the pages in use are distinct physical pages, none of them is
  on the free list, and no page is ever lost.
\<close>

theorem kalloc_exclusive:
  assumes "kmem_inv kend s ps" and "client_run kalloc (kfree kend) poke ops (s, []) \<noteq> Sleeps"
  shows "\<exists>s' own free. client_run kalloc (kfree kend) poke ops (s, []) = Ok (s', own) \<and>
    kmem_inv kend s' free \<and> distinct (own @ free) \<and> (\<forall>p \<in> set own. phys_page kend p) \<and>
    length own + length free = length ps"
proof -
  have "pages.client_ok kend (length ps) (s, [])"
    using assms(1) by (auto simp: pages.client_ok_def kmem_inv_def intro!: exI [of _ ps])
  from pages.client_run_ok [OF this assms(2)] show ?thesis
    by (fastforce simp: pages.client_ok_def)
qed

theorem kalloc_exclusive_witness:
  "\<exists>s' own free. client_run kalloc (kfree 4096) poke [Alloc, Write 8192 7, Alloc, Free 8192]
      (\<lparr>kmemory = (\<lambda>a. 0), freelist = 8192\<rparr>, []) = Ok (s', own) \<and> length own + length (free :: nat list) = 1"
proof -
  let ?s = "\<lparr>kmemory = (\<lambda>a. 0), freelist = 8192\<rparr>"
  have n: "run_next 8192 (\<lambda>a. 0) = 0" by code_simp
  have inv: "kmem_inv 4096 ?s [8192]" using n by (simp add: kmem_inv_def phys_page_def)
  have "client_run kalloc (kfree 4096) poke [Alloc, Write 8192 7, Alloc, Free 8192] (?s, []) \<noteq> Sleeps"
    using n by (simp add: kalloc_def kfree_def poke_def in_page_def)
  from kalloc_exclusive [OF inv this] show ?thesis by (simp only: list.size add_0_left One_nat_def) blast
qed

text \<open>
  An allocation or a free leaves every byte of the pages that are held before and after it
  unchanged: only the page that changes hands is overwritten.
\<close>

theorem kalloc_frame:
  assumes "kmem_inv kend s free" "distinct (own @ free)" "\<forall>p \<in> set own. phys_page kend p"
    and "client_step kalloc (kfree kend) poke op (s, own) = Ok (s', own')"
    and "q \<in> set own" "q \<in> set own'" "in_page q a" "\<forall>v. op \<noteq> Write a v"
  shows "kmemory s' a = kmemory s a"
proof -
  have "pages.client_ok kend (length own + length free) (s, own)"
    using assms(1-3) by (auto simp: pages.client_ok_def)
  from pages.client_step_contents [OF this assms(4-8)] show ?thesis .
qed

theorem kalloc_frame_witness:
  "kmemory (snd (kalloc \<lparr>kmemory = (\<lambda>a. 9), freelist = 0\<rparr>)) 12288 = 9"
  using kalloc_frame [of 4096 "\<lparr>kmemory = (\<lambda>a. 9), freelist = 0\<rparr>" "[]" "[12288]" Alloc
      "snd (kalloc \<lparr>kmemory = (\<lambda>a. 9), freelist = 0\<rparr>)" "[12288]" 12288 12288]
  by (simp add: kmem_inv_def phys_page_def in_page_def kalloc_def)

end
