(* ===== verification/Vm.thy ===== *)
theory Vm
  imports Kalloc
begin

text \<open>
  Virtual memory (\<^verbatim>\<open>kernel/vm.c\<close>, \<^verbatim>\<open>proc_mapstacks\<close> of \<^verbatim>\<open>kernel/proc.c\<close>): three-level page tables
  that live in pages of the allocator, the mapping and unmapping of pages, the growth, copying
  and release of a user address space, and the copies between kernel and user memory. A page
  table is the address of its root page, a \<^verbatim>\<open>uint64\<close> a natural number below \<open>2 ^ 64\<close> with the
  wrap-around of its additions written out. \<open>kend\<close> is the linker symbol \<^verbatim>\<open>end\<close> of the page
  allocator; \<^verbatim>\<open>etext\<close> and \<^verbatim>\<open>trampoline\<close> are linker symbols too. The functions run on the kernel's
  direct mapping, where addresses are physical addresses.
\<close>

unbundle bit_operations_syntax

lemma bind_res_cong [fundef_cong]:
  "r = r' \<Longrightarrow> (\<And>x. r' = Ok x \<Longrightarrow> f x = g x) \<Longrightarrow> bind_res r f = bind_res r' g"
  by (cases r') auto

section \<open>Page table entries\<close>

definition add64 :: "nat \<Rightarrow> nat \<Rightarrow> nat" where
  "add64 a b = (a + b) mod 2 ^ 64"

definition pgroundup64 :: "nat \<Rightarrow> nat" where
  "pgroundup64 sz = PGROUNDUP sz mod 2 ^ 64"

abbreviation (input) MAXVA :: nat where "MAXVA \<equiv> 2 ^ 38"
abbreviation (input) PTE_V :: nat where "PTE_V \<equiv> 1"
abbreviation (input) PTE_R :: nat where "PTE_R \<equiv> 2"
abbreviation (input) PTE_W :: nat where "PTE_W \<equiv> 4"
abbreviation (input) PTE_X :: nat where "PTE_X \<equiv> 8"
abbreviation (input) PTE_U :: nat where "PTE_U \<equiv> 16"

definition PX :: "nat \<Rightarrow> nat \<Rightarrow> nat" where
  "PX level va = va div 2 ^ (12 + 9 * level) mod 512"

definition PA2PTE :: "nat \<Rightarrow> nat" where
  "PA2PTE pa = pa div 2 ^ 12 * 2 ^ 10"

definition PTE2PA :: "nat \<Rightarrow> nat" where
  "PTE2PA pte = pte div 2 ^ 10 * 2 ^ 12 mod 2 ^ 64"

definition PTE_FLAGS :: "nat \<Rightarrow> nat" where
  "PTE_FLAGS pte = pte mod 0x400"

definition rd64 :: "mem \<Rightarrow> nat \<Rightarrow> nat" where
  "rd64 m a = le_nat (bytes m a 8)"

definition wr64 :: "nat \<Rightarrow> nat \<Rightarrow> kmem \<Rightarrow> kmem" where
  "wr64 a v s = s\<lparr>kmemory := store a (nat_le 8 v) (kmemory s)\<rparr>"

definition zero_page :: "nat \<Rightarrow> kmem \<Rightarrow> kmem" where
  "zero_page p s = s\<lparr>kmemory := memset p 0 PGSIZE (kmemory s)\<rparr>"

section \<open>Walking and mapping\<close>

text \<open>The loop of \<^verbatim>\<open>walk\<close>, from a level down to zero.\<close>

fun walk_loop :: "nat \<Rightarrow> nat \<Rightarrow> nat \<Rightarrow> bool \<Rightarrow> kmem \<Rightarrow> nat \<times> kmem" where
  "walk_loop 0 pagetable va alloc s = (pagetable + 8 * PX 0 va, s)"
| "walk_loop (Suc l) pagetable va alloc s =
     (let pte = pagetable + 8 * PX (Suc l) va
      in if bit (rd64 (kmemory s) pte) 0 then walk_loop l (PTE2PA (rd64 (kmemory s) pte)) va alloc s
         else if \<not> alloc then (0, s)
         else let (page, s) = kalloc s
              in if page = 0 then (0, s)
                 else walk_loop l page va alloc (wr64 pte (PA2PTE page OR PTE_V) (zero_page page s)))"

definition walk :: "nat \<Rightarrow> nat \<Rightarrow> bool \<Rightarrow> kmem \<Rightarrow> (nat \<times> kmem) res" where
  "walk pagetable va alloc s =
     (if MAXVA \<le> va then Panic ''walk'' else Ok (walk_loop 2 pagetable va alloc s))"

lemma walk_Ok: "walk pt va alloc s = Ok r \<Longrightarrow> va < MAXVA"
  by (simp add: walk_def split: if_splits)

definition walkaddr :: "nat \<Rightarrow> nat \<Rightarrow> kmem \<Rightarrow> nat res" where
  "walkaddr pagetable va s =
     (if MAXVA \<le> va then Ok 0
      else bind_res (walk pagetable va False s) (\<lambda>(pte, s).
        if pte = 0 then Ok 0
        else if \<not> bit (rd64 (kmemory s) pte) 0 then Ok 0
        else if \<not> bit (rd64 (kmemory s) pte) 4 then Ok 0
        else Ok (PTE2PA (rd64 (kmemory s) pte))))"

function mappages_loop :: "nat \<Rightarrow> nat \<Rightarrow> nat \<Rightarrow> nat \<Rightarrow> nat \<Rightarrow> kmem \<Rightarrow> (int \<times> kmem) res" where
  "mappages_loop pagetable a lst pa perm s =
     bind_res (walk pagetable a True s) (\<lambda>(pte, s).
       if pte = 0 then Ok (-1, s)
       else if bit (rd64 (kmemory s) pte) 0 then Panic ''mappages: remap''
       else let s = wr64 pte (PA2PTE pa OR perm OR PTE_V) s
            in if a = lst then Ok (0, s)
               else mappages_loop pagetable (add64 a PGSIZE) lst (add64 pa PGSIZE) perm s)"
  by pat_completeness auto

termination mappages_loop
  by (relation "measure (\<lambda>(pagetable, a, lst, pa, perm, s). MAXVA - a)")
    (auto dest!: walk_Ok simp: add64_def)

declare mappages_loop.simps [simp del]

definition mappages :: "nat \<Rightarrow> nat \<Rightarrow> nat \<Rightarrow> nat \<Rightarrow> nat \<Rightarrow> kmem \<Rightarrow> (int \<times> kmem) res" where
  "mappages pagetable va sz pa perm s =
     (if sz = 0 then Panic ''mappages: size''
      else mappages_loop pagetable (PGROUNDDOWN va) (PGROUNDDOWN ((va + sz - 1) mod 2 ^ 64)) pa perm s)"

lemma mappages_Ok: "mappages pt va sz pa perm s = Ok r \<Longrightarrow> va < MAXVA"
proof -
  assume "mappages pt va sz pa perm s = Ok r"
  then have "PGROUNDDOWN va < MAXVA"
    by (subst (asm) mappages_def, subst (asm) mappages_loop.simps)
      (auto simp: bind_res_Ok_iff split: if_splits dest: walk_Ok)
  then have "4096 * (va div 4096) < 4096 * 2 ^ 26"
    by (simp add: PGROUNDDOWN_def minus_mod_eq_mult_div)
  then have "va div 4096 < 2 ^ 26" by simp
  then show ?thesis using div_less_iff_less_mult [of 4096 va "2 ^ 26"] by simp
qed

definition kvmmap :: "nat \<Rightarrow> nat \<Rightarrow> nat \<Rightarrow> nat \<Rightarrow> nat \<Rightarrow> kmem \<Rightarrow> kmem res" where
  "kvmmap kpgtbl va pa sz perm s =
     bind_res (mappages kpgtbl va sz pa perm s) (\<lambda>(r, s). if r \<noteq> 0 then Panic ''kvmmap'' else Ok s)"

section \<open>The kernel's own page table\<close>

abbreviation (input) UART0 :: nat where "UART0 \<equiv> 0x10000000"
abbreviation (input) VIRTIO0 :: nat where "VIRTIO0 \<equiv> 0x10001000"
abbreviation (input) PLIC :: nat where "PLIC \<equiv> 0x0c000000"
abbreviation (input) KERNBASE :: nat where "KERNBASE \<equiv> 0x80000000"
abbreviation (input) TRAMPOLINE :: nat where "TRAMPOLINE \<equiv> MAXVA - PGSIZE"
abbreviation (input) NPROC :: nat where "NPROC \<equiv> 64"

definition KSTACK :: "nat \<Rightarrow> nat" where
  "KSTACK p = TRAMPOLINE - (p + 1) * 2 * PGSIZE"

text \<open>The loop of \<^verbatim>\<open>proc_mapstacks\<close> over the last \<open>k\<close> processes.\<close>

fun mapstacks_loop :: "nat \<Rightarrow> nat \<Rightarrow> kmem \<Rightarrow> kmem res" where
  "mapstacks_loop 0 kpgtbl s = Ok s"
| "mapstacks_loop (Suc k) kpgtbl s =
     (let (pa, s) = kalloc s
      in if pa = 0 then Panic ''kalloc''
         else bind_res (kvmmap kpgtbl (KSTACK (NPROC - Suc k)) pa PGSIZE (PTE_R OR PTE_W) s)
                (mapstacks_loop k kpgtbl))"

definition proc_mapstacks :: "nat \<Rightarrow> kmem \<Rightarrow> kmem res" where
  "proc_mapstacks kpgtbl s = mapstacks_loop NPROC kpgtbl s"

definition kvmmake :: "nat \<Rightarrow> nat \<Rightarrow> kmem \<Rightarrow> (nat \<times> kmem) res" where
  "kvmmake etext trampoline s =
     (let (kpgtbl, s) = kalloc s; s = zero_page kpgtbl s
      in bind_res (kvmmap kpgtbl UART0 UART0 PGSIZE (PTE_R OR PTE_W) s) (\<lambda>s.
         bind_res (kvmmap kpgtbl VIRTIO0 VIRTIO0 PGSIZE (PTE_R OR PTE_W) s) (\<lambda>s.
         bind_res (kvmmap kpgtbl PLIC PLIC 0x400000 (PTE_R OR PTE_W) s) (\<lambda>s.
         bind_res (kvmmap kpgtbl KERNBASE KERNBASE (etext - KERNBASE) (PTE_R OR PTE_X) s) (\<lambda>s.
         bind_res (kvmmap kpgtbl etext etext (PHYSTOP - etext) (PTE_R OR PTE_W) s) (\<lambda>s.
         bind_res (kvmmap kpgtbl TRAMPOLINE trampoline PGSIZE (PTE_R OR PTE_X) s) (\<lambda>s.
         bind_res (proc_mapstacks kpgtbl s) (\<lambda>s. Ok (kpgtbl, s)))))))))"

section \<open>User address spaces\<close>

function uvmunmap_loop :: "nat \<Rightarrow> nat \<Rightarrow> nat \<Rightarrow> nat \<Rightarrow> bool \<Rightarrow> kmem \<Rightarrow> kmem res" where
  "uvmunmap_loop kend pagetable a lim do_free s =
     (if a < lim then
        bind_res (walk pagetable a False s) (\<lambda>(pte, s).
          if pte = 0 then Panic ''uvmunmap: walk''
          else if \<not> bit (rd64 (kmemory s) pte) 0 then Panic ''uvmunmap: not mapped''
          else if PTE_FLAGS (rd64 (kmemory s) pte) = PTE_V then Panic ''uvmunmap: not a leaf''
          else bind_res (if do_free then kfree kend (PTE2PA (rd64 (kmemory s) pte)) s else Ok s) (\<lambda>s.
            uvmunmap_loop kend pagetable (add64 a PGSIZE) lim do_free (wr64 pte 0 s)))
      else Ok s)"
  by pat_completeness auto

termination uvmunmap_loop
  by (relation "measure (\<lambda>(kend, pagetable, a, lim, do_free, s). MAXVA - a)")
    (auto dest!: walk_Ok simp: add64_def)

declare uvmunmap_loop.simps [simp del]

definition uvmunmap :: "nat \<Rightarrow> nat \<Rightarrow> nat \<Rightarrow> nat \<Rightarrow> bool \<Rightarrow> kmem \<Rightarrow> kmem res" where
  "uvmunmap kend pagetable va npages do_free s =
     (if va mod PGSIZE \<noteq> 0 then Panic ''uvmunmap: not aligned''
      else uvmunmap_loop kend pagetable va ((va + npages * PGSIZE) mod 2 ^ 64) do_free s)"

definition uvmcreate :: "kmem \<Rightarrow> nat \<times> kmem" where
  "uvmcreate s = (let (pagetable, s) = kalloc s in if pagetable = 0 then (0, s) else (pagetable, zero_page pagetable s))"

definition uvmfirst :: "nat \<Rightarrow> nat \<Rightarrow> nat \<Rightarrow> kmem \<Rightarrow> kmem res" where
  "uvmfirst pagetable src sz s =
     (if PGSIZE \<le> sz then Panic ''uvmfirst: more than a page''
      else let (mem, s) = kalloc s; s = zero_page mem s
           in bind_res (mappages pagetable 0 PGSIZE mem (PTE_W OR PTE_R OR PTE_X OR PTE_U) s) (\<lambda>(_, s).
                Ok (s\<lparr>kmemory := memmove mem src sz (kmemory s)\<rparr>)))"

text \<open>\<^verbatim>\<open>npages\<close> is an \<^verbatim>\<open>int\<close>, converted to \<^verbatim>\<open>uint64\<close> in the call of \<^verbatim>\<open>uvmunmap\<close>.\<close>

definition uvmdealloc :: "nat \<Rightarrow> nat \<Rightarrow> nat \<Rightarrow> nat \<Rightarrow> kmem \<Rightarrow> (nat \<times> kmem) res" where
  "uvmdealloc kend pagetable oldsz newsz s =
     (if oldsz \<le> newsz then Ok (oldsz, s)
      else if pgroundup64 newsz < pgroundup64 oldsz then
        let npages = s32 (int ((pgroundup64 oldsz - pgroundup64 newsz) div PGSIZE))
        in bind_res (uvmunmap kend pagetable (pgroundup64 newsz) (nat (npages mod 2 ^ 64)) True s) (\<lambda>s. Ok (newsz, s))
      else Ok (newsz, s))"

function uvmalloc_loop :: "nat \<Rightarrow> nat \<Rightarrow> nat \<Rightarrow> nat \<Rightarrow> nat \<Rightarrow> nat \<Rightarrow> kmem \<Rightarrow> (nat \<times> kmem) res" where
  "uvmalloc_loop kend pagetable a oldsz newsz xperm s =
     (if a < newsz then
        let (mem, s) = kalloc s
        in if mem = 0 then bind_res (uvmdealloc kend pagetable a oldsz s) (\<lambda>(_, s). Ok (0, s))
           else bind_res (mappages pagetable a PGSIZE mem (PTE_R OR PTE_U OR xperm) (zero_page mem s)) (\<lambda>(r, s).
             if r \<noteq> 0 then bind_res (kfree kend mem s) (\<lambda>s.
               bind_res (uvmdealloc kend pagetable a oldsz s) (\<lambda>(_, s). Ok (0, s)))
             else uvmalloc_loop kend pagetable (add64 a PGSIZE) oldsz newsz xperm s)
      else Ok (newsz, s))"
  by pat_completeness auto

termination uvmalloc_loop
  by (relation "measure (\<lambda>(kend, pagetable, a, oldsz, newsz, xperm, s). MAXVA - a)")
    (auto dest!: mappages_Ok simp: add64_def)

declare uvmalloc_loop.simps [simp del]

definition uvmalloc :: "nat \<Rightarrow> nat \<Rightarrow> nat \<Rightarrow> nat \<Rightarrow> nat \<Rightarrow> kmem \<Rightarrow> (nat \<times> kmem) res" where
  "uvmalloc kend pagetable oldsz newsz xperm s =
     (if newsz < oldsz then Ok (oldsz, s)
      else uvmalloc_loop kend pagetable (pgroundup64 oldsz) (pgroundup64 oldsz) newsz xperm s)"

text \<open>
  \<^verbatim>\<open>freewalk\<close> calls itself on whatever an entry points to, so it need not return on an
  arbitrary memory; \<open>None\<close> stands for that. \<open>freewalk_from\<close> is its body from entry \<open>i\<close> on.
\<close>

partial_function (option) freewalk_from :: "nat \<Rightarrow> nat \<Rightarrow> nat \<Rightarrow> kmem \<Rightarrow> kmem res option" where
  [code]: "freewalk_from kend pagetable i s =
     (if i < 512 then
        let pte = rd64 (kmemory s) (pagetable + 8 * i)
        in if bit pte 0 \<and> pte AND (PTE_R OR PTE_W OR PTE_X) = 0 then
             Option.bind (freewalk_from kend (PTE2PA pte) 0 s) (\<lambda>r.
               case r of
                 Ok s \<Rightarrow> freewalk_from kend pagetable (i + 1) (wr64 (pagetable + 8 * i) 0 s)
               | Panic e \<Rightarrow> Some (Panic e)
               | Sleeps \<Rightarrow> Some Sleeps)
           else if bit pte 0 then Some (Panic ''freewalk: leaf'')
           else freewalk_from kend pagetable (i + 1) s
      else Some (kfree kend pagetable s))"

definition freewalk :: "nat \<Rightarrow> nat \<Rightarrow> kmem \<Rightarrow> kmem res option" where
  "freewalk kend pagetable s = freewalk_from kend pagetable 0 s"

definition uvmfree :: "nat \<Rightarrow> nat \<Rightarrow> nat \<Rightarrow> kmem \<Rightarrow> kmem res option" where
  "uvmfree kend pagetable sz s =
     (case (if sz > 0 then uvmunmap kend pagetable 0 (pgroundup64 sz div PGSIZE) True s else Ok s) of
        Ok s \<Rightarrow> freewalk kend pagetable s
      | Panic e \<Rightarrow> Some (Panic e)
      | Sleeps \<Rightarrow> Some Sleeps)"

text \<open>\<^verbatim>\<open>uvmcopy_err\<close> is the code behind the label \<^verbatim>\<open>err\<close>.\<close>

definition uvmcopy_err :: "nat \<Rightarrow> nat \<Rightarrow> nat \<Rightarrow> kmem \<Rightarrow> (int \<times> kmem) res" where
  "uvmcopy_err kend new i s = bind_res (uvmunmap kend new 0 (i div PGSIZE) True s) (\<lambda>s. Ok (-1, s))"

function uvmcopy_loop :: "nat \<Rightarrow> nat \<Rightarrow> nat \<Rightarrow> nat \<Rightarrow> nat \<Rightarrow> kmem \<Rightarrow> (int \<times> kmem) res" where
  "uvmcopy_loop kend old new i sz s =
     (if i < sz then
        bind_res (walk old i False s) (\<lambda>(pte, s).
          if pte = 0 then Panic ''uvmcopy: pte should exist''
          else if \<not> bit (rd64 (kmemory s) pte) 0 then Panic ''uvmcopy: page not present''
          else
            let pa = PTE2PA (rd64 (kmemory s) pte);
                flags = PTE_FLAGS (rd64 (kmemory s) pte);
                (mem, s) = kalloc s
            in if mem = 0 then uvmcopy_err kend new i s
               else
                 let s = s\<lparr>kmemory := memmove mem pa PGSIZE (kmemory s)\<rparr>
                 in bind_res (mappages new i PGSIZE mem flags s) (\<lambda>(r, s).
                      if r \<noteq> 0 then bind_res (kfree kend mem s) (uvmcopy_err kend new i)
                      else uvmcopy_loop kend old new (add64 i PGSIZE) sz s))
      else Ok (0, s))"
  by pat_completeness auto

termination uvmcopy_loop
  by (relation "measure (\<lambda>(kend, old, new, i, sz, s). MAXVA - i)")
    (auto dest!: walk_Ok simp: add64_def)

declare uvmcopy_loop.simps [simp del]

definition uvmcopy :: "nat \<Rightarrow> nat \<Rightarrow> nat \<Rightarrow> nat \<Rightarrow> kmem \<Rightarrow> (int \<times> kmem) res" where
  "uvmcopy kend old new sz s = uvmcopy_loop kend old new 0 sz s"

definition uvmclear :: "nat \<Rightarrow> nat \<Rightarrow> kmem \<Rightarrow> kmem res" where
  "uvmclear pagetable va s =
     bind_res (walk pagetable va False s) (\<lambda>(pte, s).
       if pte = 0 then Panic ''uvmclear'' else Ok (wr64 pte (unset_bit 4 (rd64 (kmemory s) pte)) s))"

section \<open>Copies between kernel and user memory\<close>

function copyout :: "nat \<Rightarrow> nat \<Rightarrow> nat \<Rightarrow> nat \<Rightarrow> kmem \<Rightarrow> (int \<times> kmem) res" where
  "copyout pagetable dstva src len s =
     (if len > 0 then
        let va0 = PGROUNDDOWN dstva
        in bind_res (walkaddr pagetable va0 s) (\<lambda>pa0.
             if pa0 = 0 then Ok (-1, s)
             else
               let n = min (PGSIZE - (dstva - va0)) len;
                   s = s\<lparr>kmemory := memmove (pa0 + (dstva - va0)) src n (kmemory s)\<rparr>
               in copyout pagetable (add64 va0 PGSIZE) (add64 src n) (len - n) s)
      else Ok (0, s))"
  by pat_completeness auto

lemma page_offset: "dst - PGROUNDDOWN dst = dst mod PGSIZE" "dst mod PGSIZE < PGSIZE"
  by (simp_all add: PGROUNDDOWN_def)

termination copyout
  by (relation "measure (\<lambda>(pagetable, dstva, src, len, s). len)") (auto simp: page_offset)

declare copyout.simps [simp del]

function copyin :: "nat \<Rightarrow> nat \<Rightarrow> nat \<Rightarrow> nat \<Rightarrow> kmem \<Rightarrow> (int \<times> kmem) res" where
  "copyin pagetable dst srcva len s =
     (if len > 0 then
        let va0 = PGROUNDDOWN srcva
        in bind_res (walkaddr pagetable va0 s) (\<lambda>pa0.
             if pa0 = 0 then Ok (-1, s)
             else
               let n = min (PGSIZE - (srcva - va0)) len;
                   s = s\<lparr>kmemory := memmove dst (pa0 + (srcva - va0)) n (kmemory s)\<rparr>
               in copyin pagetable (add64 dst n) (add64 va0 PGSIZE) (len - n) s)
      else Ok (0, s))"
  by pat_completeness auto

termination copyin
  by (relation "measure (\<lambda>(pagetable, dst, srcva, len, s). len)") (auto simp: page_offset)

declare copyin.simps [simp del]

text \<open>
  The inner loop of \<^verbatim>\<open>copyinstr\<close> over \<open>n\<close> bytes of one page: whether it met a NUL byte, and
  the values of \<^verbatim>\<open>dst\<close> and \<^verbatim>\<open>max\<close> behind it.
\<close>

fun copyinstr_page :: "nat \<Rightarrow> nat \<Rightarrow> nat \<Rightarrow> nat \<Rightarrow> mem \<Rightarrow> bool \<times> nat \<times> nat \<times> mem" where
  "copyinstr_page 0 p dst mx m = (False, dst, mx, m)"
| "copyinstr_page (Suc n) p dst mx m =
     (if m p = 0 then (True, dst, mx, m(dst := 0))
      else copyinstr_page n (p + 1) (add64 dst 1) (mx - 1) (m(dst := m p)))"

lemma copyinstr_page_max:
  "copyinstr_page n p dst mx m = (False, dst', mx', m') \<Longrightarrow> mx' = mx - n"
  by (induction n p dst mx m rule: copyinstr_page.induct) (auto split: if_splits)

function copyinstr :: "nat \<Rightarrow> nat \<Rightarrow> nat \<Rightarrow> nat \<Rightarrow> kmem \<Rightarrow> (int \<times> kmem) res" where
  "copyinstr pagetable dst srcva mx s =
     (if mx > 0 then
        let va0 = PGROUNDDOWN srcva
        in bind_res (walkaddr pagetable va0 s) (\<lambda>pa0.
             if pa0 = 0 then Ok (-1, s)
             else
               let n = min (PGSIZE - (srcva - va0)) mx;
                   (got_null, dst, mx, m) = copyinstr_page n (pa0 + (srcva - va0)) dst mx (kmemory s);
                   s = s\<lparr>kmemory := m\<rparr>
               in if got_null then Ok (0, s) else copyinstr pagetable dst (add64 va0 PGSIZE) mx s)
      else Ok (-1, s))"
  by pat_completeness auto

termination copyinstr
proof (relation "measure (\<lambda>(pagetable, dst, srcva, mx, s). mx)")
qed (auto simp: page_offset dest!: copyinstr_page_max [OF sym])

declare copyinstr.simps [simp del]

end
