(* ===== verification/Vm_Tree.thy ===== *)
theory Vm_Tree
  imports Vm
begin

text \<open>
  Page tables as trees. \<open>tables l m pt\<close> are the pages of the table of level \<open>l\<close> with root \<open>pt\<close>,
  \<open>slot l m pt va\<close> is the address of the entry for \<open>va\<close> when the tables on its path exist, and
  \<open>leaf\<close> the valid entry there. \<open>tree_ok\<close> says that the tables form a tree of pages. A change
  of memory inside one subtree leaves the rest of the tree alone; with that, what \<^verbatim>\<open>walk\<close>
  allocates changes no mapping.
\<close>

section \<open>Changes of memory, by page\<close>

definition same_on :: "nat set \<Rightarrow> mem \<Rightarrow> mem \<Rightarrow> bool" where
  "same_on P m m' \<longleftrightarrow> (\<forall>q \<in> P. \<forall>a. in_page q a \<longrightarrow> m' a = m a)"

definition frame :: "nat set \<Rightarrow> mem \<Rightarrow> mem \<Rightarrow> bool" where
  "frame P m m' \<longleftrightarrow> (\<forall>a. (\<forall>q \<in> P. \<not> in_page q a) \<longrightarrow> m' a = m a)"

lemma frame_refl [simp]: "frame P m m"
  by (simp add: frame_def)

lemma frame_trans: "frame P m m1 \<Longrightarrow> frame Q m1 m2 \<Longrightarrow> frame (P \<union> Q) m m2"
  by (simp add: frame_def)

lemma frame_mono: "frame P m m' \<Longrightarrow> P \<subseteq> Q \<Longrightarrow> frame Q m m'"
  by (auto simp: frame_def)

lemma frame_same:
  assumes "frame P m m'" "\<forall>q \<in> P \<union> R. phys_page kend q" "R \<inter> P = {}"
  shows "same_on R m m'"
  unfolding same_on_def
proof (intro ballI allI impI)
  fix q a assume q: "q \<in> R" "in_page q a"
  have "\<not> in_page r a" if "r \<in> P" for r
    using phys_pages_disjoint [of kend r q a] assms(2,3) that q by auto
  then show "m' a = m a" using assms(1) by (simp add: frame_def)
qed

lemma same_on_subset: "same_on P m m' \<Longrightarrow> Q \<subseteq> P \<Longrightarrow> same_on Q m m'"
  by (auto simp: same_on_def)

lemma same_on_trans: "same_on P m m1 \<Longrightarrow> same_on P m1 m2 \<Longrightarrow> same_on P m m2"
  by (simp add: same_on_def)

lemma kmem_inv_same:
  assumes "kmem_inv kend s ps" "same_on (set ps) (kmemory s) m'"
  shows "kmem_inv kend (s\<lparr>kmemory := m'\<rparr>) ps"
proof -
  have "chain m' r ps = chain (kmemory s) r ps" for r
    by (rule chain_cong) (use assms(2) in \<open>auto simp: same_on_def\<close>)
  then show ?thesis using assms(1) by (simp add: kmem_inv_def)
qed

lemma rd64_cong: "(\<And>i. i < 8 \<Longrightarrow> m' (a + i) = m (a + i)) \<Longrightarrow> rd64 m' a = rd64 m a"
  unfolding rd64_def by (rule arg_cong [of _ _ le_nat]) (auto intro: nth_equalityI)

lemma rd64_store: "v < 2 ^ 64 \<Longrightarrow> rd64 (store a (nat_le 8 v) m) a = v"
  using bytes_store [of a "nat_le 8 v" m] by (simp add: rd64_def le_nat_nat_le)

lemma rd64_store_other: "a + 8 \<le> b \<or> b + 8 \<le> a \<Longrightarrow> rd64 (store b (nat_le 8 v) m) a = rd64 m a"
  by (rule rd64_cong) (auto simp: store_def)

lemma rd64_bound: "rd64 m a < 2 ^ 64"
  using le_nat_bound [of "bytes m a 8"] by (simp add: rd64_def)

lemma in_page_entry: "i < 512 \<Longrightarrow> j < 8 \<Longrightarrow> in_page p (p + 8 * i + j)"
  by (simp add: in_page_def)

lemma rd64_same: "same_on P m m' \<Longrightarrow> p \<in> P \<Longrightarrow> i < 512 \<Longrightarrow> rd64 m' (p + 8 * i) = rd64 m (p + 8 * i)"
  by (rule rd64_cong) (auto simp: same_on_def in_page_entry)

lemma frame_store_entry: "i < 512 \<Longrightarrow> frame {p} m (store (p + 8 * i) (nat_le 8 v) m)"
  by (auto simp: frame_def store_def in_page_def)

section \<open>Entries\<close>

lemma PX_less [simp]: "PX l va < 512"
  by (simp add: PX_def)

lemma entry_bits:
  assumes "f < (1024 :: nat)"
  shows "(1024 * k OR f) div 1024 = k" "(1024 * k OR f) mod 1024 = f"
proof -
  have p: "(1024 * k OR f) = push_bit 10 k OR f" by (simp add: push_bit_eq_mult mult.commute)
  have f: "drop_bit 10 f = 0" "take_bit 10 f = f"
    using assms by (simp_all add: drop_bit_eq_div take_bit_eq_mod)
  have "drop_bit 10 (push_bit 10 k OR f) = k" unfolding drop_bit_or f by (simp add: push_bit_eq_mult drop_bit_eq_div)
  then show "(1024 * k OR f) div 1024 = k" unfolding p by (simp add: drop_bit_eq_div)
  have "take_bit 10 (push_bit 10 k OR f) = f" unfolding take_bit_or f by (simp add: take_bit_push_bit)
  then show "(1024 * k OR f) mod 1024 = f" unfolding p by (simp add: take_bit_eq_mod)
qed

lemma flags_less: "a < 1024 \<Longrightarrow> b < 1024 \<Longrightarrow> a OR b < (1024 :: nat)"
  using OR_upper [of "int a" 10 "int b"] by (simp flip: of_nat_or_eq)

text \<open>What the entry made for a page and its flags says.\<close>

lemma entry_round_trip:
  assumes "pa mod 4096 = 0" "pa < 2 ^ 56" "perm < 1024"
  shows "PTE2PA (PA2PTE pa OR perm) = pa" "PTE_FLAGS (PA2PTE pa OR perm) = perm"
    "bit (PA2PTE pa OR perm) 0 \<longleftrightarrow> bit perm 0" "PA2PTE pa OR perm < 2 ^ 64"
proof -
  obtain k where k: "pa = 4096 * k" using assms(1) by (auto simp: mod_eq_0_iff_dvd dvd_def)
  have p: "PA2PTE pa = 1024 * k" by (simp add: PA2PTE_def k)
  note e = entry_bits [OF assms(3), of k]
  show "PTE2PA (PA2PTE pa OR perm) = pa" unfolding PTE2PA_def p using assms(2) e(1) k by simp
  show "PTE_FLAGS (PA2PTE pa OR perm) = perm" using e(2) by (simp add: PTE_FLAGS_def p)
  show "bit (PA2PTE pa OR perm) 0 \<longleftrightarrow> bit perm 0" unfolding p by (simp only: bit_0 even_or_iff) simp
  have "(1024 * k OR perm) = 1024 * k + perm"
    using e div_mult_mod_eq [of "1024 * k OR perm" 1024] by (simp add: mult.commute)
  then show "PA2PTE pa OR perm < 2 ^ 64" unfolding p using assms(2,3) k by simp
qed

lemma phys_page_bounds: "phys_page kend p \<Longrightarrow> p mod 4096 = 0 \<and> p < 2 ^ 56 \<and> p \<noteq> 0"
  by (simp add: phys_page_def)

section \<open>The tree\<close>

definition child :: "mem \<Rightarrow> nat \<Rightarrow> nat \<Rightarrow> nat option" where
  "child m pt i = (let e = rd64 m (pt + 8 * i) in if bit e 0 then Some (PTE2PA e) else None)"

fun tables :: "nat \<Rightarrow> mem \<Rightarrow> nat \<Rightarrow> nat set" where
  "tables 0 m pt = {pt}"
| "tables (Suc l) m pt = insert pt {q. \<exists>i c. i < 512 \<and> child m pt i = Some c \<and> q \<in> tables l m c}"

fun tree_ok :: "nat \<Rightarrow> nat \<Rightarrow> mem \<Rightarrow> nat \<Rightarrow> bool" where
  "tree_ok kend 0 m pt \<longleftrightarrow> phys_page kend pt"
| "tree_ok kend (Suc l) m pt \<longleftrightarrow> phys_page kend pt \<and>
     (\<forall>i c. i < 512 \<longrightarrow> child m pt i = Some c \<longrightarrow>
        tree_ok kend l m c \<and> pt \<notin> tables l m c \<and> PTE_FLAGS (rd64 m (pt + 8 * i)) = 1) \<and>
     (\<forall>i j c d. i < 512 \<longrightarrow> j < 512 \<longrightarrow> i \<noteq> j \<longrightarrow> child m pt i = Some c \<longrightarrow> child m pt j = Some d \<longrightarrow>
        tables l m c \<inter> tables l m d = {})"

fun slot :: "nat \<Rightarrow> mem \<Rightarrow> nat \<Rightarrow> nat \<Rightarrow> nat option" where
  "slot 0 m pt va = Some (pt + 8 * PX 0 va)"
| "slot (Suc l) m pt va = (case child m pt (PX (Suc l) va) of None \<Rightarrow> None | Some c \<Rightarrow> slot l m c va)"

definition leafl :: "nat \<Rightarrow> mem \<Rightarrow> nat \<Rightarrow> nat \<Rightarrow> nat option" where
  "leafl l m pt va = (case slot l m pt va of None \<Rightarrow> None
     | Some p \<Rightarrow> if bit (rd64 m p) 0 then Some (rd64 m p) else None)"

lemma root_in_tables [simp]: "pt \<in> tables l m pt"
  by (cases l) simp_all

lemma leafl_Suc: "leafl (Suc l) m pt va = (case child m pt (PX (Suc l) va) of None \<Rightarrow> None | Some c \<Rightarrow> leafl l m c va)"
  by (simp add: leafl_def split: option.split)

lemma tree_ok_phys: "tree_ok kend l m pt \<Longrightarrow> q \<in> tables l m pt \<Longrightarrow> phys_page kend q"
  by (induction l arbitrary: pt) auto

lemma tree_ok_root: "tree_ok kend l m pt \<Longrightarrow> phys_page kend pt"
  by (cases l) simp_all

lemma child_same: "same_on P m m' \<Longrightarrow> pt \<in> P \<Longrightarrow> i < 512 \<Longrightarrow> child m' pt i = child m pt i"
  by (simp add: child_def rd64_same)

lemma child_tables: "i < 512 \<Longrightarrow> child m pt i = Some c \<Longrightarrow> tables l m c \<subseteq> tables (Suc l) m pt"
  by auto

lemma same_child: "same_on (tables (Suc l) m pt) m m' \<Longrightarrow> i < 512 \<Longrightarrow> child m pt i = Some c \<Longrightarrow> same_on (tables l m c) m m'"
  by (erule same_on_subset) auto

lemma tables_same: "same_on (tables l m pt) m m' \<Longrightarrow> tables l m' pt = tables l m pt"
proof (induction l arbitrary: pt)
  case (Suc l)
  have "child m' pt i = child m pt i" if "i < 512" for i
    using child_same [OF Suc.prems _ that] by simp
  then show ?case using Suc.IH same_child [OF Suc.prems] by (simp cong: conj_cong)
qed simp

lemma tree_ok_same: "same_on (tables l m pt) m m' \<Longrightarrow> tree_ok kend l m' pt = tree_ok kend l m pt"
proof (induction l arbitrary: pt)
  case (Suc l)
  have c: "child m' pt i = child m pt i" "rd64 m' (pt + 8 * i) = rd64 m (pt + 8 * i)" if "i < 512" for i
    using child_same [OF Suc.prems _ that] rd64_same [OF Suc.prems _ that] by simp_all
  have t: "tables l m' d = tables l m d" "tree_ok kend l m' d = tree_ok kend l m d"
    if "i < 512" "child m pt i = Some d" for i d
    using tables_same Suc.IH same_child [OF Suc.prems that] by simp_all
  show ?case unfolding tree_ok.simps using c t by (intro conj_cong refl) (metis, metis)
qed simp

lemma slot_same: "same_on (tables l m pt) m m' \<Longrightarrow> slot l m' pt va = slot l m pt va"
proof (induction l arbitrary: pt)
  case (Suc l)
  have "child m' pt (PX (Suc l) va) = child m pt (PX (Suc l) va)"
    using child_same [OF Suc.prems, of pt] by simp
  then show ?case using Suc.IH same_child [OF Suc.prems, of "PX (Suc l) va"] by (simp split: option.split)
qed simp

lemma slot_in_tables:
  "slot l m pt va = Some p \<Longrightarrow> \<exists>q \<in> tables l m pt. p = q + 8 * PX 0 va"
proof (induction l arbitrary: pt)
  case (Suc l)
  then obtain c where c: "child m pt (PX (Suc l) va) = Some c" "slot l m c va = Some p"
    by (auto split: option.splits)
  obtain q where q: "q \<in> tables l m c" "p = q + 8 * PX 0 va" using Suc.IH [OF c(2)] by auto
  then have "q \<in> tables (Suc l) m pt" using c(1) by (auto intro: PX_less)
  with q(2) show ?case by blast
qed simp

lemma leafl_same: "same_on (tables l m pt) m m' \<Longrightarrow> leafl l m' pt va = leafl l m pt va"
proof -
  assume a: "same_on (tables l m pt) m m'"
  have "rd64 m' p = rd64 m p" if "slot l m pt va = Some p" for p
    using slot_in_tables [OF that] rd64_same [OF a] by auto
  then show ?thesis using slot_same [OF a] by (simp add: leafl_def split: option.split)
qed

section \<open>A change inside one subtree\<close>

text \<open>The subtree below entry \<open>i\<close> is changed, and may use the new pages \<open>N\<close>.\<close>

definition subtree_upd :: "nat \<Rightarrow> nat \<Rightarrow> mem \<Rightarrow> nat \<Rightarrow> nat \<Rightarrow> nat \<Rightarrow> nat set \<Rightarrow> mem \<Rightarrow> bool" where
  "subtree_upd kend l m pt i c N m' \<longleftrightarrow>
     tree_ok kend (Suc l) m pt \<and> i < 512 \<and> child m pt i = Some c \<and> frame (tables l m c \<union> N) m m' \<and>
     (\<forall>q \<in> N. phys_page kend q) \<and> N \<inter> tables (Suc l) m pt = {}"

lemma subtree_updI:
  "tree_ok kend (Suc l) m pt \<Longrightarrow> i < 512 \<Longrightarrow> child m pt i = Some c \<Longrightarrow> frame (tables l m c \<union> N) m m' \<Longrightarrow>
   \<forall>q \<in> N. phys_page kend q \<Longrightarrow> N \<inter> tables (Suc l) m pt = {} \<Longrightarrow> subtree_upd kend l m pt i c N m'"
  by (simp add: subtree_upd_def)

lemma subtree_child:
  assumes "subtree_upd kend l m pt i c N m'" "j < 512"
  shows "child m' pt j = child m pt j" "rd64 m' (pt + 8 * j) = rd64 m (pt + 8 * j)"
proof -
  note a = assms(1) [unfolded subtree_upd_def]
  have "same_on {pt} m m'"
    by (rule frame_same [of "tables l m c \<union> N" _ _ _ kend]) (use a tree_ok_phys [of kend l m c] in auto)
  then show "child m' pt j = child m pt j" "rd64 m' (pt + 8 * j) = rd64 m (pt + 8 * j)"
    using child_same rd64_same assms(2) by simp_all
qed

lemma subtree_sibling:
  assumes "subtree_upd kend l m pt i c N m'" "j < 512" "j \<noteq> i" "child m pt j = Some d"
  shows "same_on (tables l m d) m m'"
proof (rule frame_same [of "tables l m c \<union> N" _ _ _ kend])
  note a = assms(1) [unfolded subtree_upd_def]
  show "frame (tables l m c \<union> N) m m'" using a by simp
  show "\<forall>q \<in> tables l m c \<union> N \<union> tables l m d. phys_page kend q"
    using a assms(2,4) tree_ok_phys [of kend l m c] tree_ok_phys [of kend l m d] by auto
  note child_tables [OF assms(2,4), of l]
  moreover have "tables l m d \<inter> tables l m c = {}" using a assms(2-4) by fastforce
  ultimately show "tables l m d \<inter> (tables l m c \<union> N) = {}" using a by blast
qed

text \<open>What the other children keep, and what all of them have when the changed one grows by \<open>N\<close>.\<close>

lemma subtree_kids:
  assumes u: "subtree_upd kend l m pt i c N m'" and t: "tables l m' c = tables l m c \<union> N"
    and j: "j < 512" "child m pt j = Some d"
  shows "tables l m' d = (if j = i then tables l m d \<union> N else tables l m d)"
    and "tree_ok kend l m' c \<Longrightarrow> tree_ok kend l m' d"
proof -
  note a = u [unfolded subtree_upd_def]
  have d: "d = c" if "j = i" using that a j(2) by simp
  note sib = subtree_sibling [OF u j(1) _ j(2)]
  show "tables l m' d = (if j = i then tables l m d \<union> N else tables l m d)"
    using tables_same [OF sib] t d by (cases "j = i") simp_all
  have okd: "tree_ok kend l m d" using a j by simp
  show "tree_ok kend l m' d" if "tree_ok kend l m' c"
    using tree_ok_same [OF sib, of kend] okd that d by (cases "j = i") simp_all
qed

lemma subtree_tables:
  assumes u: "subtree_upd kend l m pt i c N m'" and t: "tables l m' c = tables l m c \<union> N"
  shows "tables (Suc l) m' pt = tables (Suc l) m pt \<union> N"
proof -
  have "{q. \<exists>i c. i < 512 \<and> child m' pt i = Some c \<and> q \<in> tables l m' c} =
      {q. \<exists>i c. i < 512 \<and> child m pt i = Some c \<and> q \<in> tables l m' c}"
    using subtree_child(1) [OF u] by (simp cong: conj_cong)
  also have "\<dots> = {q. \<exists>i c. i < 512 \<and> child m pt i = Some c \<and> q \<in> tables l m c} \<union> N"
    using subtree_kids(1) [OF u t] u by (auto simp: subtree_upd_def split: if_splits)
  finally show ?thesis by simp
qed

lemma subtree_ok:
  assumes u: "subtree_upd kend l m pt i c N m'" and t: "tables l m' c = tables l m c \<union> N"
    and c: "tree_ok kend l m' c"
  shows "tree_ok kend (Suc l) m' pt"
proof -
  note a = u [unfolded subtree_upd_def]
  have ok: "tree_ok kend (Suc l) m pt" using a by simp
  note ch = subtree_child [OF u]
  have N: "pt \<notin> N" "j < 512 \<Longrightarrow> child m pt j = Some d \<Longrightarrow> N \<inter> tables l m d = {}" for j d
    using a child_tables [of j m pt d l] by auto
  have kids: "tree_ok kend l m' d \<and> pt \<notin> tables l m' d \<and> PTE_FLAGS (rd64 m' (pt + 8 * j)) = 1"
    if "j < 512" "child m' pt j = Some d" for j d
    using that ch subtree_kids [OF u t, of j d] c N(1) ok by auto
  have "tables l m' c1 \<inter> tables l m' c2 = {}"
    if "j1 < 512" "j2 < 512" "j1 \<noteq> j2" "child m' pt j1 = Some c1" "child m' pt j2 = Some c2" for j1 j2 c1 c2
  proof -
    have old: "child m pt j1 = Some c1" "child m pt j2 = Some c2" using that ch by simp_all
    then have "tables l m c1 \<inter> tables l m c2 = {}" using ok that(1-3) unfolding tree_ok.simps by blast
    then show ?thesis using subtree_kids(1) [OF u t that(1) old(1)] subtree_kids(1) [OF u t that(2) old(2)] that(3)
        N(2) [OF that(1) old(1)] N(2) [OF that(2) old(2)] by (auto split: if_splits)
  qed
  with kids show ?thesis using ok unfolding tree_ok.simps by blast
qed

lemma subtree_slot:
  assumes u: "subtree_upd kend l m pt i c N m'"
  shows "slot (Suc l) m' pt va = (if PX (Suc l) va = i then slot l m' c va else slot (Suc l) m pt va)"
    and "leafl (Suc l) m' pt va = (if PX (Suc l) va = i then leafl l m' c va else leafl (Suc l) m pt va)"
proof -
  let ?j = "PX (Suc l) va"
  have c: "child m' pt ?j = child m pt ?j" "child m pt i = Some c"
    using subtree_child [OF u] u by (simp_all add: subtree_upd_def)
  have s: "slot l m' d va = slot l m d va" "leafl l m' d va = leafl l m d va"
    if "?j \<noteq> i" "child m pt ?j = Some d" for d
    using slot_same leafl_same subtree_sibling [OF u PX_less that] by blast+
  show "slot (Suc l) m' pt va = (if ?j = i then slot l m' c va else slot (Suc l) m pt va)"
    using c s(1) by (auto split: option.split)
  show "leafl (Suc l) m' pt va = (if ?j = i then leafl l m' c va else leafl (Suc l) m pt va)"
    using c s(2) by (auto simp: leafl_Suc split: option.split)
qed

section \<open>Grafting a fresh table\<close>

definition zeroed :: "nat \<Rightarrow> mem \<Rightarrow> bool" where
  "zeroed p m \<longleftrightarrow> (\<forall>a. in_page p a \<longrightarrow> m a = 0)"

lemma rd64_zeroed: "zeroed p m \<Longrightarrow> i < 512 \<Longrightarrow> rd64 m (p + 8 * i) = 0"
proof -
  assume a: "zeroed p m" "i < 512"
  have "bytes m (p + 8 * i) 8 = replicate 8 0"
    by (rule nth_equalityI) (use a in \<open>simp_all add: zeroed_def in_page_entry\<close>)
  moreover have "le_nat (replicate n 0) = 0" for n by (induction n) simp_all
  ultimately show ?thesis by (simp only: rd64_def)
qed

lemma zeroed_tree:
  assumes "zeroed p m"
  shows "tables l m p = {p}" "tree_ok kend l m p \<longleftrightarrow> phys_page kend p" "leafl l m p va = None"
proof -
  have c: "child m p i = None" if "i < 512" for i using rd64_zeroed [OF assms that] by (simp add: child_def)
  show "tables l m p = {p}" by (cases l) (use c in auto)
  show "tree_ok kend l m p \<longleftrightarrow> phys_page kend p" by (cases l) (use c in auto)
  show "leafl l m p va = None"
    by (cases l) (use c rd64_zeroed [OF assms] in \<open>auto simp: leafl_def\<close>)
qed

lemma zeroed_memset: "zeroed p (memset p 0 4096 m)"
  by (auto simp: zeroed_def memset_eq store_def in_page_def)

lemma frame_memset: "frame {p} m (memset p c 4096 m)"
  by (simp add: frame_def memset_outside)

lemma zeroed_same: "zeroed p m \<Longrightarrow> same_on P m m' \<Longrightarrow> p \<in> P \<Longrightarrow> zeroed p m'"
  by (simp add: zeroed_def same_on_def)

lemma entry_apart: "i \<noteq> j \<Longrightarrow> p + 8 * i + 8 \<le> p + 8 * j \<or> p + 8 * j + 8 \<le> p + 8 * (i :: nat)"
  by linarith

text \<open>A fresh table \<open>p\<close> hangs below the free entry \<open>i\<close> of \<open>pt\<close>.\<close>

definition grafted :: "nat \<Rightarrow> nat \<Rightarrow> mem \<Rightarrow> nat \<Rightarrow> nat \<Rightarrow> nat \<Rightarrow> mem \<Rightarrow> bool" where
  "grafted kend l m pt i p m' \<longleftrightarrow>
     tree_ok kend (Suc l) m pt \<and> i < 512 \<and> child m pt i = None \<and> phys_page kend p \<and> p \<notin> tables (Suc l) m pt \<and>
     frame {pt, p} m m' \<and> zeroed p m' \<and> child m' pt i = Some p \<and> PTE_FLAGS (rd64 m' (pt + 8 * i)) = 1 \<and>
     (\<forall>j < 512. j \<noteq> i \<longrightarrow> rd64 m' (pt + 8 * j) = rd64 m (pt + 8 * j))"

lemma graftedI:
  assumes ok: "tree_ok kend (Suc l) m pt" and i: "i < 512" "child m pt i = None"
    and p: "phys_page kend p" "p \<notin> tables (Suc l) m pt" "frame {p} m m0" "zeroed p m0"
  shows "grafted kend l m pt i p (store (pt + 8 * i) (nat_le 8 (PA2PTE p OR 1)) m0)" (is "grafted _ _ _ _ _ _ ?m'")
proof -
  have phys: "phys_page kend pt" "p \<noteq> pt" using ok p(2) by auto
  note e = entry_round_trip [of p 1] phys_page_bounds [OF p(1)]
  have f: "frame {pt} m0 ?m'" by (rule frame_store_entry [OF i(1)])
  have "frame {pt, p} m ?m'" using frame_trans [OF p(3) f] by (simp add: insert_commute)
  moreover have ri: "rd64 ?m' (pt + 8 * i) = PA2PTE p OR 1" by (rule rd64_store) (use e in simp)
  moreover have "rd64 ?m' (pt + 8 * j) = rd64 m (pt + 8 * j)" if "j < 512" "j \<noteq> i" for j
  proof -
    have "rd64 ?m' (pt + 8 * j) = rd64 m0 (pt + 8 * j)" by (rule rd64_store_other) (rule entry_apart [OF that(2)])
    moreover have "same_on {pt} m m0" by (rule frame_same [OF p(3), of _ kend]) (use phys p(1) in auto)
    ultimately show ?thesis using rd64_same [of "{pt}" m m0 pt j] that(1) by simp
  qed
  moreover have "child ?m' pt i = Some p" using ri e by (simp add: child_def bit_0 even_or_iff)
  moreover have "zeroed p ?m'"
    by (rule zeroed_same [OF p(4), of "{p}"]) (use frame_same [OF f, of "{p}" kend] phys p(1) in auto)
  ultimately show ?thesis using assms e by (simp add: grafted_def)
qed

lemma graft_kids:
  assumes g: "grafted kend l m pt i p m'" and j: "j < 512" "child m pt j = Some d"
  shows "child m' pt j = Some d" "j \<noteq> i" "tables l m' d = tables l m d" "tree_ok kend l m' d"
    "leafl l m' d va = leafl l m d va" "p \<notin> tables l m d"
proof -
  note a = g [unfolded grafted_def]
  show "j \<noteq> i" using a j(2) by auto
  then show "child m' pt j = Some d" using a j by (simp add: child_def)
  show np: "p \<notin> tables l m d" using a j by auto
  have "same_on (tables l m d) m m'"
  proof (rule frame_same [of "{pt, p}" _ _ _ kend])
    show "frame {pt, p} m m'" using a by simp
    show "\<forall>q \<in> {pt, p} \<union> tables l m d. phys_page kend q"
      using a j tree_ok_phys [of kend l m d] tree_ok_root [of kend "Suc l" m pt] by auto
    show "tables l m d \<inter> {pt, p} = {}" using a j np by auto
  qed
  then show "tables l m' d = tables l m d" "tree_ok kend l m' d" "leafl l m' d va = leafl l m d va"
    using tables_same tree_ok_same leafl_same a j by simp_all
qed

lemma graft_kid_cases:
  assumes "grafted kend l m pt i p m'" "j < 512" "child m' pt j = Some d"
  shows "(j = i \<and> d = p) \<or> (j \<noteq> i \<and> child m pt j = Some d)"
  using assms by (cases "j = i") (auto simp: grafted_def child_def)

lemma graft_ok:
  assumes g: "grafted kend l m pt i p m'"
  shows "tree_ok kend (Suc l) m' pt"
proof -
  note a = g [unfolded grafted_def]
  have ok: "tree_ok kend (Suc l) m pt" and "p \<noteq> pt" using a by auto
  have z: "tables l m' p = {p}" "tree_ok kend l m' p" using zeroed_tree [of p m'] a by simp_all
  have kids: "tree_ok kend l m' d \<and> pt \<notin> tables l m' d \<and> PTE_FLAGS (rd64 m' (pt + 8 * j)) = 1"
    if j: "j < 512" "child m' pt j = Some d" for j d
  proof (cases "j = i")
    case True
    then show ?thesis using graft_kid_cases [OF g j] z a \<open>p \<noteq> pt\<close> by auto
  next
    case False
    then have "child m pt j = Some d" using graft_kid_cases [OF g j] by simp
    then show ?thesis using graft_kids [OF g j(1)] a j(1) False by simp
  qed
  have "tables l m' c1 \<inter> tables l m' c2 = {}"
    if "j1 < 512" "j2 < 512" "j1 \<noteq> j2" "child m' pt j1 = Some c1" "child m' pt j2 = Some c2" for j1 j2 c1 c2
  proof -
    have "tables l m c1 \<inter> tables l m c2 = {}" if "child m pt j1 = Some c1" "child m pt j2 = Some c2"
      using ok \<open>j1 < 512\<close> \<open>j2 < 512\<close> \<open>j1 \<noteq> j2\<close> that unfolding tree_ok.simps by blast
    then show ?thesis
      using graft_kid_cases [OF g that(1,4)] graft_kid_cases [OF g that(2,5)] that(1-3) z(1) graft_kids(3,6) [OF g] by auto
  qed
  with kids show ?thesis using tree_ok_root [OF ok] unfolding tree_ok.simps by blast
qed

lemma graft_tables:
  assumes g: "grafted kend l m pt i p m'"
  shows "tables (Suc l) m' pt = insert p (tables (Suc l) m pt)"
proof -
  note a = g [unfolded grafted_def]
  have z: "tables l m' p = {p}" using zeroed_tree [of p m'] a by simp
  have "{q. \<exists>j c. j < 512 \<and> child m' pt j = Some c \<and> q \<in> tables l m' c} =
      insert p {q. \<exists>j c. j < 512 \<and> child m pt j = Some c \<and> q \<in> tables l m c}" (is "?L = insert p ?R")
  proof
    show "?L \<subseteq> insert p ?R" using graft_kid_cases [OF g] graft_kids(3) [OF g] z by fastforce
    have "?R \<subseteq> ?L" using graft_kids(1,3) [OF g] by blast
    moreover have "p \<in> ?L" using a by auto
    ultimately show "insert p ?R \<subseteq> ?L" by blast
  qed
  then show ?thesis by (simp add: insert_commute)
qed

lemma graft_leafl:
  assumes g: "grafted kend l m pt i p m'"
  shows "leafl (Suc l) m' pt va = leafl (Suc l) m pt va"
proof (cases "child m pt (PX (Suc l) va)")
  case None
  then have "child m' pt (PX (Suc l) va) = None \<or> child m' pt (PX (Suc l) va) = Some p"
    using graft_kid_cases [OF g PX_less, of "Suc l" va] by (cases "child m' pt (PX (Suc l) va)") auto
  then show ?thesis using None g zeroed_tree(3) [of p m'] by (auto simp: leafl_Suc grafted_def)
next
  case (Some d)
  then show ?thesis using graft_kids [OF g PX_less Some] by (simp add: leafl_Suc)
qed

section \<open>Writing one entry\<close>

definition same_path :: "nat \<Rightarrow> nat \<Rightarrow> nat \<Rightarrow> bool" where
  "same_path l va vb \<longleftrightarrow> (\<forall>k \<le> l. PX k va = PX k vb)"

lemma same_path_Suc: "same_path (Suc l) va vb \<longleftrightarrow> PX (Suc l) va = PX (Suc l) vb \<and> same_path l va vb"
  by (auto simp: same_path_def le_Suc_eq)

lemma slot_write:
  assumes "tree_ok kend l m pt" "slot l m pt va = Some p" "v < 2 ^ 64"
  shows "tables l (store p (nat_le 8 v) m) pt = tables l m pt"
    "tree_ok kend l (store p (nat_le 8 v) m) pt" "frame (tables l m pt) m (store p (nat_le 8 v) m)"
    "slot l (store p (nat_le 8 v) m) pt vb = slot l m pt vb"
    "leafl l (store p (nat_le 8 v) m) pt vb =
       (if same_path l va vb then if bit v 0 then Some v else None else leafl l m pt vb)"
  using assms
proof (induction l arbitrary: pt vb)
  case 0
  define m' where "m' = store p (nat_le 8 v) m"
  { case 1 then show ?case by simp }
  { case 2 then show ?case by simp }
  { case 3
    then have "p = pt + 8 * PX 0 va" by simp
    then show ?case using frame_store_entry [OF PX_less] by simp }
  { case 4 then show ?case by simp }
  { case 5
    then have p: "p = pt + 8 * PX 0 va" by simp
    have "rd64 (store p (nat_le 8 v) m) (pt + 8 * PX 0 vb) =
        (if PX 0 va = PX 0 vb then v else rd64 m (pt + 8 * PX 0 vb))"
      using rd64_store [OF assms(3)] rd64_store_other [OF entry_apart, of "PX 0 vb" "PX 0 va"] by (auto simp: p)
    then show ?case by (simp add: leafl_def same_path_def) }
next
  case (Suc l)
  define m' where "m' = store p (nat_le 8 v) m"
  have *: "tables (Suc l) m' pt = tables (Suc l) m pt \<and> tree_ok kend (Suc l) m' pt \<and>
      frame (tables (Suc l) m pt) m m' \<and> slot (Suc l) m' pt vb = slot (Suc l) m pt vb \<and>
      leafl (Suc l) m' pt vb = (if same_path (Suc l) va vb then if bit v 0 then Some v else None else leafl (Suc l) m pt vb)"
    if ok: "tree_ok kend (Suc l) m pt" and slot: "slot (Suc l) m pt va = Some p" for pt vb
  proof -
    let ?i = "PX (Suc l) va"
    obtain c where c: "child m pt ?i = Some c" "slot l m c va = Some p"
      using slot by (auto split: option.splits)
    have okc: "tree_ok kend l m c" using ok c(1) PX_less unfolding tree_ok.simps by blast
    note IH = Suc.IH [OF okc c(2) assms(3), folded m'_def]
    have fr: "frame (tables l m c \<union> {}) m m'" using IH(3) by simp
    have sub: "subtree_upd kend l m pt ?i c {} m'" by (rule subtree_updI [OF ok PX_less c(1) fr]) simp_all
    have "tables l m' c = tables l m c \<union> {}" using IH(1) by simp
    then have t: "tables (Suc l) m' pt = tables (Suc l) m pt" "tree_ok kend (Suc l) m' pt"
      using subtree_tables [OF sub] subtree_ok [OF sub] IH(2) by simp_all
    from child_tables [OF PX_less c(1), of l] have "frame (tables (Suc l) m pt) m m'" using frame_mono [OF IH(3)] by blast
    moreover have "slot (Suc l) m' pt vb = slot (Suc l) m pt vb"
      unfolding subtree_slot(1) [OF sub, of vb] using IH(4) [of vb] c(1) by auto
    moreover have "leafl (Suc l) m' pt vb =
        (if same_path (Suc l) va vb then if bit v 0 then Some v else None else leafl (Suc l) m pt vb)"
    proof (cases "PX (Suc l) vb = ?i")
      case True
      then have "leafl (Suc l) m' pt vb = leafl l m' c vb" "leafl (Suc l) m pt vb = leafl l m c vb"
        using subtree_slot(2) [OF sub, of vb] c(1) by (simp_all add: leafl_Suc)
      then show ?thesis using IH(5) [of vb] True by (simp add: same_path_Suc)
    next
      case False
      then have "leafl (Suc l) m' pt vb = leafl (Suc l) m pt vb" using subtree_slot(2) [OF sub, of vb] by simp
      then show ?thesis using False by (auto simp: same_path_Suc)
    qed
    ultimately show ?thesis using t by blast
  qed
  { case 1 then show ?case using * m'_def by blast }
  { case 2 then show ?case using * m'_def by blast }
  { case 3 then show ?case using * m'_def by blast }
  { case 4 then show ?case using * m'_def by blast }
  { case 5 then show ?case using * m'_def by blast }
qed

section \<open>Walking\<close>

declare tables.simps(2) [simp del] tree_ok.simps(2) [simp del]

lemma walk_loop_lookup:
  "walk_loop l pt va False s = ((case slot l (kmemory s) pt va of None \<Rightarrow> 0 | Some p \<Rightarrow> p), s)"
  by (induction l arbitrary: pt) (simp_all add: child_def Let_def)

text \<open>
  With \<open>alloc\<close>, tables are taken from the front of the free list and hung into the tree; no
  mapping changes, and the entry for \<open>va\<close> exists when the pages sufficed.
\<close>

definition walked :: "nat \<Rightarrow> nat \<Rightarrow> nat \<Rightarrow> nat \<Rightarrow> nat list \<Rightarrow> kmem \<Rightarrow> nat \<Rightarrow> nat list \<Rightarrow> nat list \<Rightarrow> kmem \<Rightarrow> bool" where
  "walked kend l pt va free s p used free' s' \<longleftrightarrow>
     free = used @ free' \<and> kmem_inv kend s' free' \<and> tree_ok kend l (kmemory s') pt \<and>
     tables l (kmemory s') pt = tables l (kmemory s) pt \<union> set used \<and>
     frame (tables l (kmemory s) pt \<union> set used) (kmemory s) (kmemory s') \<and>
     (\<forall>vb. leafl l (kmemory s') pt vb = leafl l (kmemory s) pt vb) \<and>
     (if p = 0 then free' = [] else slot l (kmemory s') pt va = Some p)"

lemma free_pages: "kmem_inv kend s free \<Longrightarrow> distinct free \<and> (\<forall>p \<in> set free. phys_page kend p)"
  by (simp add: kmem_inv_def)

lemma walked_child:
  assumes "tree_ok kend (Suc l) (kmemory s) pt" "child (kmemory s) pt (PX (Suc l) va) = Some c"
    and "kmem_inv kend s free" "tables (Suc l) (kmemory s) pt \<inter> set free = {}"
    and w: "walked kend l c va free s p used free' s'"
  shows "walked kend (Suc l) pt va free s p used free' s'"
proof -
  note a = w [unfolded walked_def]
  have u: "subtree_upd kend l (kmemory s) pt (PX (Suc l) va) c (set used) (kmemory s')"
    by (rule subtree_updI [OF assms(1) PX_less assms(2)]) (use a free_pages [OF assms(3)] assms(4) in auto)
  have t: "tables l (kmemory s') c = tables l (kmemory s) c \<union> set used" "tree_ok kend l (kmemory s') c"
    using a by simp_all
  have "leafl (Suc l) (kmemory s') pt vb = leafl (Suc l) (kmemory s) pt vb" for vb
    using subtree_slot(2) [OF u, of vb] a assms(2) by (auto simp: leafl_Suc)
  moreover have "frame (tables (Suc l) (kmemory s) pt \<union> set used) (kmemory s) (kmemory s')"
    by (rule frame_mono [of "tables l (kmemory s) c \<union> set used"])
      (use a child_tables [OF PX_less assms(2), of l] in auto)
  ultimately show ?thesis
    using a subtree_tables [OF u t(1)] subtree_ok [OF u t] subtree_slot(1) [OF u, of va]
    by (simp only: walked_def) auto
qed

lemma walked_graft:
  assumes g: "grafted kend l (kmemory s) pt (PX (Suc l) va) q (kmemory s1)" and inv: "kmem_inv kend s1 free"
    and free: "tables (Suc l) (kmemory s) pt \<inter> set (q # free) = {}" "distinct (q # free)"
    and w: "walked kend l q va free s1 p used free' s'"
  shows "walked kend (Suc l) pt va (q # free) s p (q # used) free' s'"
proof -
  note t = graft_tables [OF g]
  have "walked kend (Suc l) pt va free s1 p used free' s'"
  proof (rule walked_child [OF graft_ok [OF g] _ inv _ w])
    show "child (kmemory s1) pt (PX (Suc l) va) = Some q" using g by (simp add: grafted_def)
    show "tables (Suc l) (kmemory s1) pt \<inter> set free = {}" using free unfolding t by auto
  qed
  note a = this [unfolded walked_def t]
  have f: "frame {pt, q} (kmemory s) (kmemory s1)" using g by (simp add: grafted_def)
  have "frame ({pt, q} \<union> (insert q (tables (Suc l) (kmemory s) pt) \<union> set used)) (kmemory s) (kmemory s')"
    by (rule frame_trans [OF f]) (use a in simp)
  then have "frame (tables (Suc l) (kmemory s) pt \<union> set (q # used)) (kmemory s) (kmemory s')"
    by (rule frame_mono) auto
  then show ?thesis using a graft_leafl [OF g] by (simp only: walked_def) auto
qed

lemma kmem_inv_update:
  assumes "kmem_inv kend s free" "frame P (kmemory s) m'" "\<forall>q \<in> P. phys_page kend q" "P \<inter> set free = {}"
  shows "kmem_inv kend (s\<lparr>kmemory := m'\<rparr>) free"
  by (rule kmem_inv_same [OF assms(1)], rule frame_same [OF assms(2), of _ kend])
    (use assms free_pages [OF assms(1)] in auto)

theorem walk_loop_alloc:
  assumes "tree_ok kend l (kmemory s) pt" "kmem_inv kend s free" "tables l (kmemory s) pt \<inter> set free = {}"
  shows "\<exists>used free'. walked kend l pt va free s (fst (walk_loop l pt va True s)) used free' (snd (walk_loop l pt va True s))"
  using assms
proof (induction l arbitrary: pt s free)
  case 0
  then show ?case
    using phys_page_bounds [of kend pt] by (intro exI [of _ "[]"] exI [of _ free]) (simp add: walked_def)
next
  case (Suc l)
  let ?i = "PX (Suc l) va"
  show ?case
  proof (cases "child (kmemory s) pt ?i")
    case (Some c)
    then have e: "walk_loop (Suc l) pt va True s = walk_loop l c va True s" by (auto simp: child_def Let_def split: if_splits)
    have "tree_ok kend l (kmemory s) c" "tables l (kmemory s) c \<inter> set free = {}"
      using Suc.prems Some PX_less child_tables [OF PX_less Some, of l] unfolding tree_ok.simps by blast+
    then obtain used free' where
      "walked kend l c va free s (fst (walk_loop l c va True s)) used free' (snd (walk_loop l c va True s))"
      using Suc.IH Suc.prems(2) by blast
    from walked_child [OF Suc.prems(1) Some Suc.prems(2,3) this] show ?thesis unfolding e by blast
  next
    case None
    then have v: "\<not> bit (rd64 (kmemory s) (pt + 8 * ?i)) 0" by (auto simp: child_def Let_def split: if_splits)
    show ?thesis
    proof (cases free)
      case Nil
      then have "walk_loop (Suc l) pt va True s = (0, s)"
        using v pages.alloc_none [of kend s] Suc.prems(2) by simp
      then show ?thesis using Suc.prems Nil by (simp add: walked_def)
    next
      case (Cons q qs)
      obtain s0 where s0: "kalloc s = (q, s0)" "kmem_inv kend s0 qs" "frame {q} (kmemory s) (kmemory s0)"
        using kalloc_page [of kend s q qs] Suc.prems(2) Cons by (auto simp: frame_def)
      have q: "phys_page kend q" "q \<notin> set qs" "q \<notin> tables (Suc l) (kmemory s) pt"
        using free_pages [OF Suc.prems(2)] Suc.prems(3) Cons by auto
      define s1 where "s1 = wr64 (pt + 8 * ?i) (PA2PTE q OR 1) (zero_page q s0)"
      have m1: "kmemory s1 = store (pt + 8 * ?i) (nat_le 8 (PA2PTE q OR 1)) (memset q 0 4096 (kmemory s0))"
        by (simp add: s1_def wr64_def zero_page_def)
      have "frame {q} (kmemory s) (memset q 0 4096 (kmemory s0))"
        using frame_trans [OF s0(3) frame_memset, of q 0] by simp
      then have g: "grafted kend l (kmemory s) pt ?i q (kmemory s1)"
        unfolding m1 by (rule graftedI [OF Suc.prems(1) PX_less None q(1,3) _ zeroed_memset])
      have "frame {pt, q} (kmemory s0) (kmemory s1)"
        unfolding m1 using frame_trans [OF frame_memset [of q] frame_store_entry [OF PX_less, of pt]] by simp
      moreover have "pt \<notin> set qs" using root_in_tables [of pt "Suc l" "kmemory s"] Suc.prems(3) unfolding Cons set_simps by blast
      ultimately have inv: "kmem_inv kend s1 qs"
        using kmem_inv_update [OF s0(2), of "{pt, q}" "kmemory s1"] q tree_ok_root [OF Suc.prems(1)]
        by (auto simp: s1_def wr64_def zero_page_def)
      have z: "tree_ok kend l (kmemory s1) q" "tables l (kmemory s1) q \<inter> set qs = {}"
        using zeroed_tree [of q "kmemory s1"] g q by (simp_all add: grafted_def)
      obtain used free' where
        w: "walked kend l q va qs s1 (fst (walk_loop l q va True s1)) used free' (snd (walk_loop l q va True s1))"
        using Suc.IH [OF z(1) inv z(2)] by blast
      have "walk_loop (Suc l) pt va True s = walk_loop l q va True s1"
        using v s0(1) phys_page_bounds [OF q(1)] by (simp add: s1_def Let_def)
      moreover have "distinct (q # qs)" "tables (Suc l) (kmemory s) pt \<inter> set (q # qs) = {}"
        using free_pages [OF Suc.prems(2)] Suc.prems(3) Cons by simp_all
      ultimately show ?thesis using walked_graft [OF g inv _ _ w] Cons by metis
    qed
  qed
qed

end
