(* ===== verification/Vm_Map.thy ===== *)
theory Vm_Map
  imports Vm_Tree
begin

text \<open>
  A page table as a partial map from page numbers to entries, and the operations of
  \<^verbatim>\<open>kernel/vm.c\<close> that change it: \<^verbatim>\<open>mappages\<close> extends the map, \<^verbatim>\<open>uvmunmap\<close> restricts it, and neither
  touches memory outside the tables, the pages it takes from the free list and the pages it
  gives back.
\<close>

section \<open>The map\<close>

definition vmap :: "mem \<Rightarrow> nat \<Rightarrow> nat \<Rightarrow> nat option" where
  "vmap m pt n = leafl 2 m pt (4096 * n)"

definition vm_inv :: "nat \<Rightarrow> kmem \<Rightarrow> nat \<Rightarrow> nat list \<Rightarrow> bool" where
  "vm_inv kend s pt free \<longleftrightarrow> kmem_inv kend s free \<and> tree_ok kend 2 (kmemory s) pt \<and>
     tables 2 (kmemory s) pt \<inter> set free = {}"

text \<open>The tables may have grown by pages from the front of the free list; nothing else changed.\<close>

definition evolves :: "nat \<Rightarrow> nat \<Rightarrow> kmem \<Rightarrow> nat list \<Rightarrow> kmem \<Rightarrow> nat list \<Rightarrow> bool" where
  "evolves kend pt s free s' free' \<longleftrightarrow> vm_inv kend s' pt free' \<and>
     (\<exists>used. free = used @ free' \<and> tables 2 (kmemory s') pt = tables 2 (kmemory s) pt \<union> set used) \<and>
     frame (tables 2 (kmemory s') pt) (kmemory s) (kmemory s')"

lemma evolves_refl: "vm_inv kend s pt free \<Longrightarrow> evolves kend pt s free s free"
  by (simp add: evolves_def)

lemma evolves_trans:
  assumes "evolves kend pt s free s1 free1" "evolves kend pt s1 free1 s2 free2"
  shows "evolves kend pt s free s2 free2"
proof -
  obtain u1 u2 where u: "free = u1 @ free1" "free1 = u2 @ free2"
    "tables 2 (kmemory s1) pt = tables 2 (kmemory s) pt \<union> set u1"
    "tables 2 (kmemory s2) pt = tables 2 (kmemory s1) pt \<union> set u2"
    using assms by (auto simp: evolves_def)
  have "frame (tables 2 (kmemory s1) pt \<union> tables 2 (kmemory s2) pt) (kmemory s) (kmemory s2)"
    using assms frame_trans unfolding evolves_def by blast
  then have "frame (tables 2 (kmemory s2) pt) (kmemory s) (kmemory s2)" by (rule frame_mono) (use u(4) in auto)
  moreover have "free = (u1 @ u2) @ free2 \<and> tables 2 (kmemory s2) pt = tables 2 (kmemory s) pt \<union> set (u1 @ u2)"
    using u by auto
  ultimately show ?thesis using assms(2) unfolding evolves_def by blast
qed

lemma digits: "(x :: nat) < 2 ^ 27 \<Longrightarrow> x = x mod 512 + 512 * (x div 512 mod 512) + 262144 * (x div 262144 mod 512)"
proof -
  assume x: "x < 2 ^ 27"
  have "x = x mod 512 + 512 * (x div 512)" by simp
  moreover have "x div 512 = x div 512 mod 512 + 512 * (x div 512 div 512)" by simp
  moreover have "x div 512 div 512 = x div 262144" by (simp add: div_mult2_eq [symmetric])
  moreover have "x div 262144 mod 512 = x div 262144"
    using x by (intro mod_less) (simp add: div_less_iff_less_mult)
  ultimately show ?thesis by linarith
qed

lemma same_path_page:
  assumes "va < MAXVA" "vb < 2 ^ 39"
  shows "same_path 2 va vb \<longleftrightarrow> va div 4096 = vb div 4096"
proof -
  have px: "PX 0 a = (a div 4096) mod 512" "PX 1 a = (a div 4096) div 512 mod 512"
      "PX 2 a = (a div 4096) div 262144 mod 512" for a
    by (simp_all add: PX_def div_mult2_eq [symmetric])
  have b: "va div 4096 < 2 ^ 27" "vb div 4096 < 2 ^ 27"
    using assms by (simp_all add: div_less_iff_less_mult)
  have "same_path 2 va vb \<longleftrightarrow> PX 0 va = PX 0 vb \<and> PX 1 va = PX 1 vb \<and> PX 2 va = PX 2 vb"
    by (auto simp: same_path_def numeral_2_eq_2 le_Suc_eq)
  then show ?thesis using digits [OF b(1)] digits [OF b(2)] px by metis
qed

lemma slot_page:
  assumes "va div 4096 = vb div 4096"
  shows "slot l m pt va = slot l m pt vb" "leafl l m pt va = leafl l m pt vb"
proof -
  have "PX k a = a div 4096 div 2 ^ (9 * k) mod 512" for k a
    by (simp add: PX_def div_mult2_eq [symmetric] power_add)
  then have "PX k va = PX k vb" for k using assms by simp
  then have "slot l m pt va = slot l m pt vb" for m pt
    by (induction l arbitrary: pt) (simp_all split: option.split)
  then show "slot l m pt va = slot l m pt vb" "leafl l m pt va = leafl l m pt vb" by (simp_all add: leafl_def)
qed

lemma leaf_vmap: "leafl 2 m pt va = vmap m pt (va div 4096)"
  unfolding vmap_def by (rule slot_page) simp

section \<open>One page\<close>

lemma walk_alloc:
  assumes "vm_inv kend s pt free" "va < MAXVA"
  shows "\<exists>p s' free'. walk pt va True s = Ok (p, s') \<and> evolves kend pt s free s' free' \<and>
    vmap (kmemory s') pt = vmap (kmemory s) pt \<and>
    (if p = 0 then free' = [] else slot 2 (kmemory s') pt va = Some p)"
proof -
  obtain p s' where w: "walk_loop 2 pt va True s = (p, s')" by fastforce
  from walk_loop_alloc [of kend 2 s pt free va] obtain used free' where
    "walked kend 2 pt va free s p used free' s'" using assms(1) w by (auto simp: vm_inv_def)
  note a = this [unfolded walked_def]
  have "distinct free" using assms(1) by (simp add: vm_inv_def kmem_inv_def)
  then have "evolves kend pt s free s' free'" using a assms(1) unfolding evolves_def vm_inv_def by auto
  moreover have "vmap (kmemory s') pt = vmap (kmemory s) pt" using a by (simp add: vmap_def fun_eq_iff)
  ultimately show ?thesis using a w assms(2)
    by (intro exI [of _ p] exI [of _ s'] exI [of _ free']) (simp add: walk_def)
qed

lemma write_entry:
  assumes inv: "vm_inv kend s pt free" and p: "slot 2 (kmemory s) pt va = Some p" and v: "v < 2 ^ 64"
    and va: "va < MAXVA"
  shows "evolves kend pt s free (wr64 p v s) free"
    and "n < 2 ^ 27 \<Longrightarrow> vmap (kmemory (wr64 p v s)) pt n =
      (if n = va div 4096 then if bit v 0 then Some v else None else vmap (kmemory s) pt n)"
proof -
  have ok: "tree_ok kend 2 (kmemory s) pt" using inv by (simp add: vm_inv_def)
  note w = slot_write [OF ok p v]
  have "kmem_inv kend (wr64 p v s) free"
    unfolding wr64_def by (rule kmem_inv_update [OF _ w(3)])
      (use inv tree_ok_phys [OF ok] in \<open>auto simp: vm_inv_def\<close>)
  then show "evolves kend pt s free (wr64 p v s) free"
    using inv w(1,2,3) by (simp add: evolves_def vm_inv_def wr64_def)
  show "vmap (kmemory (wr64 p v s)) pt n =
      (if n = va div 4096 then if bit v 0 then Some v else None else vmap (kmemory s) pt n)" if "n < 2 ^ 27"
  proof -
    have "same_path 2 va (4096 * n) \<longleftrightarrow> n = va div 4096"
      using same_path_page [OF va, of "4096 * n"] that by auto
    then show ?thesis using w(5) [of "4096 * n"] by (simp add: vmap_def wr64_def)
  qed
qed

section \<open>Mapping a range\<close>

definition map_range :: "nat \<Rightarrow> nat \<Rightarrow> nat \<Rightarrow> nat \<Rightarrow> (nat \<Rightarrow> nat option) \<Rightarrow> nat \<Rightarrow> nat option" where
  "map_range x k pa perm M n =
     (if x \<le> n \<and> n < x + k then Some (PA2PTE (pa + 4096 * (n - x)) OR perm OR 1) else M n)"

lemma map_range_0 [simp]: "map_range x 0 pa perm M = M"
  by (auto simp: map_range_def fun_eq_iff)

lemma map_range_Suc:
  "map_range x (Suc k) pa perm M n =
     map_range (Suc x) k (pa + 4096) perm (\<lambda>n. if n = x then Some (PA2PTE pa OR perm OR 1) else M n) n"
proof -
  have "n < x \<or> n = x \<or> (\<exists>j. n = Suc x + j)" by presburger
  then consider "n < x" | "n = x" | j where "n = Suc x + j" by blast
  then show ?thesis by cases (auto simp: map_range_def algebra_simps)
qed

lemma mapped_entry:
  assumes "pa mod 4096 = 0" "pa < 2 ^ 56" "perm < 1024"
  shows "PA2PTE pa OR perm OR 1 < 2 ^ 64" "bit (PA2PTE pa OR perm OR 1) 0" "PTE2PA (PA2PTE pa OR perm OR 1) = pa"
    "PTE_FLAGS (PA2PTE pa OR perm OR 1) = perm OR 1"
  using entry_round_trip [OF assms(1,2) flags_less [OF assms(3), of 1]] by (simp_all add: bit_0 even_or_iff)

lemma slot_unmapped:
  "slot 2 m pt va = Some p \<Longrightarrow> bit (rd64 m p) 0 \<longleftrightarrow> vmap m pt (va div 4096) \<noteq> None"
  by (simp add: leaf_vmap [symmetric] leafl_def)

lemma map_one:
  assumes inv: "vm_inv kend s pt free" and x: "x < 2 ^ 26" and pa: "pa mod 4096 = 0" "pa < 2 ^ 56" "perm < 1024"
    and none: "vmap (kmemory s) pt x = None"
  obtains s1 free1 where "walk pt (4096 * x) True s = Ok (0, s1)" "evolves kend pt s free s1 []"
      "vmap (kmemory s1) pt = vmap (kmemory s) pt"
  | p s1 s2 free1 where "walk pt (4096 * x) True s = Ok (p, s1)" "p \<noteq> 0" "\<not> bit (rd64 (kmemory s1) p) 0"
      "s2 = wr64 p (PA2PTE pa OR perm OR 1) s1" "evolves kend pt s free s2 free1"
      "\<forall>i < 2 ^ 27. vmap (kmemory s2) pt i = (if i = x then Some (PA2PTE pa OR perm OR 1) else vmap (kmemory s) pt i)"
proof -
  have va: "4096 * x < MAXVA" using x by simp
  obtain p s1 free1 where w: "walk pt (4096 * x) True s = Ok (p, s1)" "evolves kend pt s free s1 free1"
      "vmap (kmemory s1) pt = vmap (kmemory s) pt" "if p = 0 then free1 = [] else slot 2 (kmemory s1) pt (4096 * x) = Some p"
    using walk_alloc [OF inv va] by blast
  show thesis
  proof (cases "p = 0")
    case True
    then show ?thesis using w that(1) by simp
  next
    case False
    then have sl: "slot 2 (kmemory s1) pt (4096 * x) = Some p" using w(4) by simp
    have inv1: "vm_inv kend s1 pt free1" using w(2) by (simp add: evolves_def)
    note e = mapped_entry [OF pa]
    note wr = write_entry [OF inv1 sl e(1) va]
    show ?thesis
      by (rule that(2) [OF w(1) False _ refl evolves_trans [OF w(2) wr(1)]])
        (use slot_unmapped [OF sl] none w(3) wr(2) e(2) in simp_all)
  qed
qed

lemma mappages_loop_maps:
  assumes "vm_inv kend s pt free" "x + n < 2 ^ 26" "pa mod 4096 = 0" "pa + 4096 * n < 2 ^ 56" "perm < 1024"
    and "\<forall>i. x \<le> i \<and> i \<le> x + n \<longrightarrow> vmap (kmemory s) pt i = None"
  shows "\<exists>r s' k free'. mappages_loop pt (4096 * x) (4096 * (x + n)) pa perm s = Ok (r, s') \<and>
    evolves kend pt s free s' free' \<and> (\<forall>i < 2 ^ 27. vmap (kmemory s') pt i = map_range x k pa perm (vmap (kmemory s) pt) i) \<and>
    (r = 0 \<and> k = Suc n \<or> r = -1 \<and> k \<le> n \<and> free' = [])"
  using assms
proof (induction n arbitrary: x pa s free rule: less_induct)
  case (less n)
  show ?case
  proof (rule map_one [OF less.prems(1) _ less.prems(3) _ less.prems(5), of x])
    fix s1 assume "walk pt (4096 * x) True s = Ok (0, s1)" "evolves kend pt s free s1 []"
      "vmap (kmemory s1) pt = vmap (kmemory s) pt"
    then show ?case
      by (intro exI [of _ "- 1"] exI [of _ s1] exI [of _ 0] exI [of _ "[]"]) (simp add: mappages_loop.simps)
  next
    fix p s1 s2 free1 assume *: "walk pt (4096 * x) True s = Ok (p, s1)" "p \<noteq> 0" "\<not> bit (rd64 (kmemory s1) p) 0"
      "s2 = wr64 p (PA2PTE pa OR perm OR 1) s1" "evolves kend pt s free s2 free1"
      "\<forall>i < 2 ^ 27. vmap (kmemory s2) pt i = (if i = x then Some (PA2PTE pa OR perm OR 1) else vmap (kmemory s) pt i)"
    have inv2: "vm_inv kend s2 pt free1" using *(5) by (simp add: evolves_def)
    show ?case
    proof (cases n)
      case 0
      then have "mappages_loop pt (4096 * x) (4096 * (x + n)) pa perm s = Ok (0, s2)"
        using *(1-4) by (subst mappages_loop.simps) (simp add: Let_def)
      then show ?thesis using *(5,6) 0
        by (intro exI [of _ 0] exI [of _ s2] exI [of _ 1] exI [of _ free1]) (simp add: map_range_Suc)
    next
      case (Suc j)
      have "\<exists>r s' k free'. mappages_loop pt (4096 * Suc x) (4096 * (Suc x + j)) (pa + 4096) perm s2 = Ok (r, s') \<and>
          evolves kend pt s2 free1 s' free' \<and>
          (\<forall>i < 2 ^ 27. vmap (kmemory s') pt i = map_range (Suc x) k (pa + 4096) perm (vmap (kmemory s2) pt) i) \<and>
          (r = 0 \<and> k = Suc j \<or> r = -1 \<and> k \<le> j \<and> free' = [])"
        by (rule less.IH [OF _ inv2]) (use less.prems *(6) Suc in auto)
      then obtain r s' k free' where l: "mappages_loop pt (4096 * Suc x) (4096 * (Suc x + j)) (pa + 4096) perm s2 = Ok (r, s')"
          "evolves kend pt s2 free1 s' free'"
          "\<forall>i < 2 ^ 27. vmap (kmemory s') pt i = map_range (Suc x) k (pa + 4096) perm (vmap (kmemory s2) pt) i"
          "r = 0 \<and> k = Suc j \<or> r = -1 \<and> k \<le> j \<and> free' = []" by blast
      have "add64 (4096 * x) 4096 = 4096 * Suc x" "add64 pa 4096 = pa + 4096"
        using less.prems(2,4) Suc by (simp_all add: add64_def)
      then have "mappages_loop pt (4096 * x) (4096 * (x + n)) pa perm s = Ok (r, s')"
        using *(1-4) l(1) Suc by (subst mappages_loop.simps) (simp add: Let_def)
      moreover have "\<forall>i < 2 ^ 27. vmap (kmemory s') pt i = map_range x (Suc k) pa perm (vmap (kmemory s) pt) i"
        using l(3) *(6) by (simp add: map_range_Suc) (simp add: map_range_def)
      ultimately show ?thesis using evolves_trans [OF *(5) l(2)] l(4) Suc
        by (intro exI [of _ r] exI [of _ s'] exI [of _ "Suc k"] exI [of _ free']) auto
    qed
  qed (use less.prems in auto)
qed

lemma PGROUNDDOWN_page: "PGROUNDDOWN a = 4096 * (a div 4096)"
  by (simp add: PGROUNDDOWN_def minus_mod_eq_mult_div)

lemma mappages_page:
  assumes "vm_inv kend s pt free" "x < 2 ^ 26" "pa mod 4096 = 0" "pa < 2 ^ 56" "perm < 1024" "vmap (kmemory s) pt x = None"
  shows "\<exists>r s' free'. mappages pt (4096 * x) PGSIZE pa perm s = Ok (r, s') \<and> evolves kend pt s free s' free' \<and>
    (\<forall>i < 2 ^ 27. vmap (kmemory s') pt i =
       (if r = 0 \<and> i = x then Some (PA2PTE pa OR perm OR 1) else vmap (kmemory s) pt i)) \<and>
    (r = 0 \<or> r = -1 \<and> free' = [])"
proof -
  have "(4096 * x + 4096 - 1) mod 2 ^ 64 = 4096 * x + 4095" using assms(2) by simp
  then have e: "mappages pt (4096 * x) PGSIZE pa perm s = mappages_loop pt (4096 * x) (4096 * (x + 0)) pa perm s"
    by (simp add: mappages_def PGROUNDDOWN_page)
  obtain r s' k free' where l: "mappages_loop pt (4096 * x) (4096 * (x + 0)) pa perm s = Ok (r, s')"
      "evolves kend pt s free s' free'"
      "\<forall>i < 2 ^ 27. vmap (kmemory s') pt i = map_range x k pa perm (vmap (kmemory s) pt) i"
      "r = 0 \<and> k = Suc 0 \<or> r = -1 \<and> k \<le> 0 \<and> free' = []"
    using mappages_loop_maps [of kend s pt free x 0 pa perm] assms by (metis add_0_right le_antisym mult_0_right)
  then show ?thesis unfolding e
    by (intro exI [of _ r] exI [of _ s'] exI [of _ free']) (auto simp: map_range_def)
qed

section \<open>Unmapping a range\<close>

text \<open>The pages of the mappings in \<open>A\<close> belong to the address space alone.\<close>

definition page_at :: "mem \<Rightarrow> nat \<Rightarrow> nat \<Rightarrow> nat" where
  "page_at m pt n = PTE2PA (the (vmap m pt n))"

definition owns :: "nat \<Rightarrow> kmem \<Rightarrow> nat \<Rightarrow> nat list \<Rightarrow> nat set \<Rightarrow> bool" where
  "owns kend s pt free A \<longleftrightarrow>
     (\<forall>n \<in> A. \<exists>e. vmap (kmemory s) pt n = Some e \<and> PTE_FLAGS e \<noteq> 1 \<and> phys_page kend (PTE2PA e)) \<and>
     inj_on (page_at (kmemory s) pt) A \<and>
     page_at (kmemory s) pt ` A \<inter> (tables 2 (kmemory s) pt \<union> set free) = {}"

lemma owns_subset: "owns kend s pt free A \<Longrightarrow> B \<subseteq> A \<Longrightarrow> owns kend s pt free B"
  unfolding owns_def by (blast intro: inj_on_subset)

text \<open>Unmapping the first page of a range and giving it back.\<close>

lemma walk_mapped:
  assumes "tree_ok kend 2 (kmemory s) pt" "vmap (kmemory s) pt x = Some e" "x < 2 ^ 26"
  obtains p where "walk pt (4096 * x) False s = Ok (p, s)" "p \<noteq> 0" "slot 2 (kmemory s) pt (4096 * x) = Some p"
    "rd64 (kmemory s) p = e" "bit e 0"
proof -
  obtain p where p: "slot 2 (kmemory s) pt (4096 * x) = Some p" "rd64 (kmemory s) p = e" "bit e 0"
    using assms(2) by (auto simp: vmap_def leafl_def split: option.splits if_splits)
  moreover have "p \<noteq> 0" using slot_in_tables [OF p(1)] tree_ok_phys [OF assms(1)] by (auto simp: phys_page_def)
  ultimately show ?thesis using that assms(3) by (simp add: walk_def walk_loop_lookup)
qed

text \<open>Mappings and tables survive changes outside the tables.\<close>

lemma vm_same:
  assumes "tree_ok kend 2 m pt" "frame P m m'" "\<forall>q \<in> P. phys_page kend q" "P \<inter> tables 2 m pt = {}"
  shows "tree_ok kend 2 m' pt" "tables 2 m' pt = tables 2 m pt" "slot 2 m' pt va = slot 2 m pt va" "vmap m' pt = vmap m pt"
proof -
  have s: "same_on (tables 2 m pt) m m'"
    by (rule frame_same [OF assms(2), of _ kend]) (use assms tree_ok_phys [OF assms(1)] in auto)
  show "tree_ok kend 2 m' pt" "tables 2 m' pt = tables 2 m pt" "slot 2 m' pt va = slot 2 m pt va" "vmap m' pt = vmap m pt"
    using tree_ok_same [OF s] tables_same [OF s] slot_same [OF s] leafl_same [OF s] assms(1) by (simp_all add: vmap_def fun_eq_iff)
qed

lemma free_page_inv:
  assumes "vm_inv kend s pt free" "phys_page kend q" "q \<notin> tables 2 (kmemory s) pt" "q \<notin> set free"
  obtains s' where "kfree kend q s = Ok s'" "vm_inv kend s' pt (q # free)" "frame {q} (kmemory s) (kmemory s')"
proof -
  obtain s' where s': "kfree kend q s = Ok s'" "kmem_inv kend s' (q # free)" "frame {q} (kmemory s) (kmemory s')"
    using kfree_page [of kend s free q] assms by (auto simp: vm_inv_def frame_def)
  moreover have "vm_inv kend s' pt (q # free)"
    using vm_same [of kend "kmemory s" pt "{q}" "kmemory s'"] s' assms by (auto simp: vm_inv_def)
  ultimately show ?thesis using that by blast
qed

lemma unmap_one:
  assumes inv: "vm_inv kend s pt free" and own: "owns kend s pt free A" and x: "x \<in> A" "x < 2 ^ 26"
  obtains p s1 s2 where "walk pt (4096 * x) False s = Ok (p, s)" "p \<noteq> 0" "bit (rd64 (kmemory s) p) 0"
    "PTE_FLAGS (rd64 (kmemory s) p) \<noteq> 1" "PTE2PA (rd64 (kmemory s) p) = page_at (kmemory s) pt x"
    "kfree kend (page_at (kmemory s) pt x) s = Ok s1" "s2 = wr64 p 0 s1"
    "vm_inv kend s2 pt (page_at (kmemory s) pt x # free)" "tables 2 (kmemory s2) pt = tables 2 (kmemory s) pt"
    "frame (insert (page_at (kmemory s) pt x) (tables 2 (kmemory s) pt)) (kmemory s) (kmemory s2)"
    "\<forall>i < 2 ^ 27. vmap (kmemory s2) pt i = (if i = x then None else vmap (kmemory s) pt i)"
proof -
  let ?q = "page_at (kmemory s) pt x"
  have ok: "tree_ok kend 2 (kmemory s) pt" using inv by (simp add: vm_inv_def)
  obtain e where e: "vmap (kmemory s) pt x = Some e" "PTE_FLAGS e \<noteq> 1" "phys_page kend ?q"
    using own x(1) by (fastforce simp: owns_def page_at_def)
  have q: "?q \<notin> tables 2 (kmemory s) pt" "?q \<notin> set free" using own x(1) by (auto simp: owns_def)
  obtain p where p: "walk pt (4096 * x) False s = Ok (p, s)" "p \<noteq> 0" "slot 2 (kmemory s) pt (4096 * x) = Some p"
    "rd64 (kmemory s) p = e" "bit e 0" by (rule walk_mapped [OF ok e(1) x(2)])
  obtain s1 where s1: "kfree kend ?q s = Ok s1" "vm_inv kend s1 pt (?q # free)" "frame {?q} (kmemory s) (kmemory s1)"
    by (rule free_page_inv [OF inv e(3) q])
  have same: "tables 2 (kmemory s1) pt = tables 2 (kmemory s) pt" "slot 2 (kmemory s1) pt (4096 * x) = Some p"
      "vmap (kmemory s1) pt = vmap (kmemory s) pt"
    using vm_same [OF ok s1(3)] e(3) q(1) p(3) by auto
  have "4096 * x < MAXVA" using x(2) by simp
  note w = write_entry [OF s1(2) same(2) _ this, of 0]
  note ev = w(1) [unfolded evolves_def, simplified]
  show thesis
  proof (rule that [OF p(1,2) _ _ _ s1(1) refl])
    show "tables 2 (kmemory (wr64 p 0 s1)) pt = tables 2 (kmemory s) pt" using ev same(1) by auto
    have "frame ({?q} \<union> tables 2 (kmemory s) pt) (kmemory s) (kmemory (wr64 p 0 s1))"
      by (rule frame_trans [OF s1(3)]) (use ev same(1) in auto)
    then show "frame (insert ?q (tables 2 (kmemory s) pt)) (kmemory s) (kmemory (wr64 p 0 s1))" by simp
  qed (use p e ev w(2) same(3) in \<open>auto simp: page_at_def\<close>)
qed

lemma owns_rest:
  assumes "owns kend s pt free A" "x \<in> A" "A \<subseteq> {..<2 ^ 27}"
    and "tables 2 (kmemory s2) pt = tables 2 (kmemory s) pt"
    and v: "\<forall>i < 2 ^ 27. vmap (kmemory s2) pt i = (if i = x then None else vmap (kmemory s) pt i)"
  shows "owns kend s2 pt (page_at (kmemory s) pt x # free) (A - {x})"
proof -
  have p: "page_at (kmemory s2) pt i = page_at (kmemory s) pt i" if "i \<in> A - {x}" for i
    using v assms(3) that by (auto simp: page_at_def)
  have "inj_on (page_at (kmemory s2) pt) (A - {x})"
    using p assms(1) by (auto simp: owns_def inj_on_def)
  moreover have "page_at (kmemory s2) pt ` (A - {x}) = page_at (kmemory s) pt ` (A - {x})" using p by (rule image_cong [OF refl])
  moreover have "page_at (kmemory s) pt x \<notin> page_at (kmemory s) pt ` (A - {x})"
    using assms(1,2) by (auto simp: owns_def inj_on_def)
  moreover have "\<forall>n \<in> A - {x}. vmap (kmemory s2) pt n = vmap (kmemory s) pt n" using v subsetD [OF assms(3)] by simp
  ultimately show ?thesis using assms(1,4) unfolding owns_def by auto
qed

lemma uvmunmap_loop_frees:
  assumes "vm_inv kend s pt free" "owns kend s pt free {x..<x + n}" "x + n \<le> 2 ^ 26"
  shows "\<exists>s'. uvmunmap_loop kend pt (4096 * x) (4096 * (x + n)) True s = Ok s' \<and>
    vm_inv kend s' pt (rev (map (page_at (kmemory s) pt) [x..<x + n]) @ free) \<and>
    tables 2 (kmemory s') pt = tables 2 (kmemory s) pt \<and>
    frame (page_at (kmemory s) pt ` {x..<x + n} \<union> tables 2 (kmemory s) pt) (kmemory s) (kmemory s') \<and>
    (\<forall>i < 2 ^ 27. vmap (kmemory s') pt i = (if x \<le> i \<and> i < x + n then None else vmap (kmemory s) pt i))"
  using assms
proof (induction n arbitrary: x s free)
  case 0
  then show ?case by (auto simp: uvmunmap_loop.simps)
next
  case (Suc n)
  let ?pg = "page_at (kmemory s) pt"
  have x: "x \<in> {x..<x + Suc n}" "x < 2 ^ 26" using Suc.prems(3) by simp_all
  obtain p s1 s2 where *: "walk pt (4096 * x) False s = Ok (p, s)" "p \<noteq> 0" "bit (rd64 (kmemory s) p) 0"
    "PTE_FLAGS (rd64 (kmemory s) p) \<noteq> 1" "PTE2PA (rd64 (kmemory s) p) = ?pg x"
    "kfree kend (?pg x) s = Ok s1" "s2 = wr64 p 0 s1"
    "vm_inv kend s2 pt (?pg x # free)" "tables 2 (kmemory s2) pt = tables 2 (kmemory s) pt"
    "frame (insert (?pg x) (tables 2 (kmemory s) pt)) (kmemory s) (kmemory s2)"
    "\<forall>i < 2 ^ 27. vmap (kmemory s2) pt i = (if i = x then None else vmap (kmemory s) pt i)"
    by (rule unmap_one [OF Suc.prems(1,2) x])
  have "{x..<x + Suc n} - {x} = {Suc x..<Suc x + n}" by auto
  moreover have "{x..<x + Suc n} \<subseteq> {..<2 ^ 27}" using Suc.prems(3) by auto
  ultimately have own: "owns kend s2 pt (?pg x # free) {Suc x..<Suc x + n}"
    using owns_rest [OF Suc.prems(2) x(1) _ *(9,11)] by simp
  have pg: "page_at (kmemory s2) pt i = ?pg i" if "Suc x \<le> i" "i < Suc x + n" for i
    using *(11) that Suc.prems(3) by (simp add: page_at_def)
  obtain s' where l: "uvmunmap_loop kend pt (4096 * Suc x) (4096 * (Suc x + n)) True s2 = Ok s'"
    "vm_inv kend s' pt (rev (map (page_at (kmemory s2) pt) [Suc x..<Suc x + n]) @ ?pg x # free)"
    "tables 2 (kmemory s') pt = tables 2 (kmemory s2) pt"
    "frame (page_at (kmemory s2) pt ` {Suc x..<Suc x + n} \<union> tables 2 (kmemory s2) pt) (kmemory s2) (kmemory s')"
    "\<forall>i < 2 ^ 27. vmap (kmemory s') pt i = (if Suc x \<le> i \<and> i < Suc x + n then None else vmap (kmemory s2) pt i)"
    using Suc.IH [OF *(8) own] Suc.prems(3) by auto
  have "add64 (4096 * x) 4096 = 4096 * Suc x" using Suc.prems(3) by (simp add: add64_def)
  then have "uvmunmap_loop kend pt (4096 * x) (4096 * (x + Suc n)) True s = Ok s'"
    using *(1-7) l(1) by (subst uvmunmap_loop.simps) simp
  moreover have "rev (map (page_at (kmemory s2) pt) [Suc x..<Suc x + n]) @ ?pg x # free = rev (map ?pg [x..<x + Suc n]) @ free"
    using pg by (simp add: upt_conv_Cons del: upt_Suc)
  then have "vm_inv kend s' pt (rev (map ?pg [x..<x + Suc n]) @ free)" using l(2) by (simp only:)
  moreover have "frame (?pg ` {x..<x + Suc n} \<union> tables 2 (kmemory s) pt) (kmemory s) (kmemory s')"
    by (rule frame_mono [OF frame_trans [OF *(10) l(4)]]) (use pg *(9) in auto)
  moreover have "\<forall>i < 2 ^ 27. vmap (kmemory s') pt i = (if x \<le> i \<and> i < x + Suc n then None else vmap (kmemory s) pt i)"
    using l(5) *(11) by auto
  ultimately show ?case using l(3) *(9) by (intro exI [of _ s'] conjI) (simp_all only:)
qed

end
