(* ===== verification/Vm_User.thy ===== *)
theory Vm_User
  imports Vm_Map
begin

text \<open>
  The growth and release of a user address space (\<^verbatim>\<open>uvmalloc\<close>, \<^verbatim>\<open>uvmdealloc\<close>, \<^verbatim>\<open>uvmunmap\<close>,
  \<^verbatim>\<open>freewalk\<close>, \<^verbatim>\<open>uvmfree\<close> of \<^verbatim>\<open>kernel/vm.c\<close>): new pages are zeroed and belong to the address
  space alone, a failure undoes the growth, and no page is lost or freed twice.
\<close>

section \<open>Sizes\<close>

lemma pgroundup64_page: "x \<le> 2 ^ 26 \<Longrightarrow> pgroundup64 (4096 * x) = 4096 * x"
proof -
  assume "x \<le> 2 ^ 26"
  moreover have "(4096 * x + 4096 - 1) mod 4096 = 4095"
    using mod_mult_self4 [of 4096 x 4095] by simp
  ultimately show ?thesis by (simp add: pgroundup64_def PGROUNDUP_def)
qed

lemma uvmunmap_pages:
  assumes "x + n \<le> 2 ^ 26"
  shows "uvmunmap kend pt (4096 * x) n fr s = uvmunmap_loop kend pt (4096 * x) (4096 * (x + n)) fr s"
proof -
  have "4096 * x + n * 4096 < 2 ^ 64" using assms by simp
  then have "(4096 * x + n * 4096) mod 2 ^ 64 = 4096 * (x + n)" by (simp only: mod_less) simp
  then show ?thesis by (simp only: uvmunmap_def) simp
qed

text \<open>The page count that \<^verbatim>\<open>uvmdealloc\<close> computes as an \<^verbatim>\<open>int\<close> is the right one.\<close>

lemma unmap_count:
  assumes "x \<le> y" "y \<le> 2 ^ 26"
  shows "uvmunmap kend pt (4096 * x) (nat (s32 (int ((4096 * y - 4096 * x) div 4096)) mod 2 ^ 64)) True s =
    uvmunmap_loop kend pt (4096 * x) (4096 * y) True s"
proof -
  have "(4096 * y - 4096 * x) div 4096 = y - x" by (simp flip: diff_mult_distrib2)
  moreover have "nat (s32 (int (y - x)) mod 2 ^ 64) = y - x"
    using assms by (subst s32_id) (simp_all add: mod_pos_pos_trivial)
  ultimately show ?thesis using assms uvmunmap_pages [of x "y - x" kend pt True s] by simp
qed

lemma uvmdealloc_pages:
  assumes "x \<le> y" "y \<le> 2 ^ 26"
  shows "uvmdealloc kend pt (4096 * y) (4096 * x) s =
    bind_res (uvmunmap_loop kend pt (4096 * x) (4096 * y) True s) (\<lambda>s. Ok (4096 * x, s))"
proof (cases "x = y")
  case True
  then show ?thesis by (simp add: uvmdealloc_def uvmunmap_loop.simps)
next
  case False
  then show ?thesis using assms unmap_count [OF assms, of kend pt s] unfolding uvmdealloc_def
    by (simp only: pgroundup64_page Let_def) (simp add: pgroundup64_page)
qed

section \<open>Growing\<close>

text \<open>
  The state \<open>s\<close> with free pages \<open>free\<close> in the middle of \<^verbatim>\<open>uvmalloc\<close> or \<^verbatim>\<open>uvmcopy\<close>, which started
  with \<open>s0\<close> and \<open>free0\<close>: the pages from \<open>x\<close> up to \<open>y\<close> have been added, page \<open>i\<close> with permission
  \<open>perm i\<close> and contents \<open>cont i\<close>.
\<close>

definition filled :: "(nat \<Rightarrow> u8) \<Rightarrow> nat \<Rightarrow> mem \<Rightarrow> bool" where
  "filled c p m \<longleftrightarrow> (\<forall>j < 4096. m (p + j) = c j)"

lemma filled_same: "filled c p m \<Longrightarrow> same_on P m m' \<Longrightarrow> p \<in> P \<Longrightarrow> filled c p m'"
  by (simp add: filled_def same_on_def in_page_def)

lemma zeroed_filled: "zeroed p m \<longleftrightarrow> filled (\<lambda>_. 0) p m"
  unfolding zeroed_def filled_def in_page_def by (auto simp: le_iff_add)

definition grown ::
  "nat \<Rightarrow> nat \<Rightarrow> (nat \<Rightarrow> nat) \<Rightarrow> (nat \<Rightarrow> nat \<Rightarrow> u8) \<Rightarrow> nat \<Rightarrow> kmem \<Rightarrow> nat list \<Rightarrow> nat \<Rightarrow> kmem \<Rightarrow> nat list \<Rightarrow> bool" where
  "grown kend pt perm cont x s0 free0 y s free \<longleftrightarrow>
     vm_inv kend s pt free \<and> owns kend s pt free {x..<y} \<and>
     tables 2 (kmemory s) pt \<union> set free \<union> page_at (kmemory s) pt ` {x..<y} = tables 2 (kmemory s0) pt \<union> set free0 \<and>
     tables 2 (kmemory s0) pt \<subseteq> tables 2 (kmemory s) pt \<and>
     frame (tables 2 (kmemory s0) pt \<union> set free0) (kmemory s0) (kmemory s) \<and>
     (\<forall>i < 2 ^ 27. vmap (kmemory s) pt i =
        (if x \<le> i \<and> i < y then Some (PA2PTE (page_at (kmemory s) pt i) OR perm i OR 1) else vmap (kmemory s0) pt i)) \<and>
     (\<forall>i. x \<le> i \<and> i < y \<longrightarrow> filled (cont i) (page_at (kmemory s) pt i) (kmemory s) \<and> vmap (kmemory s0) pt i = None)"

lemma grown_start: "vm_inv kend s pt free \<Longrightarrow> grown kend pt perm cont x s free x s free"
  by (auto simp: grown_def owns_def)

lemma owns_empty [simp]: "owns kend s pt free {}"
  by (simp add: owns_def)

text \<open>Undoing the growth.\<close>

lemma grown_undo:
  assumes g: "grown kend pt perm cont x s0 free0 y s free" and xy: "x \<le> y" "y \<le> 2 ^ 26"
  shows "\<exists>s' free'. uvmunmap_loop kend pt (4096 * x) (4096 * y) True s = Ok s' \<and>
    grown kend pt perm cont x s0 free0 x s' free'"
proof -
  note a = g [unfolded grown_def]
  have y: "x + (y - x) = y" using xy by simp
  obtain s' where s': "uvmunmap_loop kend pt (4096 * x) (4096 * y) True s = Ok s'"
    "vm_inv kend s' pt (rev (map (page_at (kmemory s) pt) [x..<y]) @ free)"
    "tables 2 (kmemory s') pt = tables 2 (kmemory s) pt"
    "frame (page_at (kmemory s) pt ` {x..<y} \<union> tables 2 (kmemory s) pt) (kmemory s) (kmemory s')"
    "\<forall>i < 2 ^ 27. vmap (kmemory s') pt i = (if x \<le> i \<and> i < y then None else vmap (kmemory s) pt i)"
    using uvmunmap_loop_frees [of kend s pt free x "y - x"] a xy unfolding y by auto
  let ?free = "rev (map (page_at (kmemory s) pt) [x..<y]) @ free"
  have "frame (tables 2 (kmemory s0) pt \<union> set free0) (kmemory s) (kmemory s')"
    by (rule frame_mono [OF s'(4)]) (use a in blast)
  then have "frame (tables 2 (kmemory s0) pt \<union> set free0) (kmemory s0) (kmemory s')"
    using a frame_trans by fastforce
  moreover have "tables 2 (kmemory s') pt \<union> set ?free = tables 2 (kmemory s0) pt \<union> set free0"
    using a s'(3) by auto
  ultimately have "grown kend pt perm cont x s0 free0 x s' ?free" using s' a by (auto simp: grown_def)
  then show ?thesis using s'(1) by blast
qed

text \<open>A page is taken from the free list and given contents.\<close>

lemma take_page:
  assumes "vm_inv kend s pt (q # free)"
  obtains s1 where "kalloc s = (q, s1)" "q \<noteq> 0" "kmem_inv kend s1 free" "frame {q} (kmemory s) (kmemory s1)"
    "phys_page kend q" "q \<notin> tables 2 (kmemory s) pt" "q \<notin> set free"
proof -
  have inv: "kmem_inv kend s (q # free)" and dis: "tables 2 (kmemory s) pt \<inter> set (q # free) = {}"
    using assms by (simp_all add: vm_inv_def)
  obtain s1 where s1: "kalloc s = (q, s1)" "kmem_inv kend s1 free" "frame {q} (kmemory s) (kmemory s1)"
    using kalloc_page [OF inv] by (auto simp: frame_def)
  have q: "phys_page kend q" "q \<notin> set free" "q \<notin> tables 2 (kmemory s) pt" using free_pages [OF inv] dis by auto
  then show ?thesis using that [OF s1(1) _ s1(2,3)] phys_page_bounds [OF q(1)] by simp
qed

lemma fill_page:
  assumes inv: "vm_inv kend s pt (q # free)" and s1: "kmem_inv kend s1 free" "frame {q} (kmemory s) (kmemory s1)"
    and s2: "s2 = s1\<lparr>kmemory := m2\<rparr>" "frame {q} (kmemory s1) m2"
  shows "vm_inv kend s2 pt free" "frame {q} (kmemory s) (kmemory s2)"
    "tables 2 (kmemory s2) pt = tables 2 (kmemory s) pt" "vmap (kmemory s2) pt = vmap (kmemory s) pt"
proof -
  have q: "phys_page kend q" "q \<notin> set free" "q \<notin> tables 2 (kmemory s) pt" and ok: "tree_ok kend 2 (kmemory s) pt"
    and dis: "tables 2 (kmemory s) pt \<inter> set free = {}" using inv by (auto simp: vm_inv_def kmem_inv_def)
  show f: "frame {q} (kmemory s) (kmemory s2)" using frame_trans [OF s1(2) s2(2)] by (simp add: s2(1))
  have k: "kmem_inv kend s2 free" using kmem_inv_update [OF s1(1) s2(2)] q by (simp add: s2(1))
  note v = vm_same [OF ok f]
  show "tables 2 (kmemory s2) pt = tables 2 (kmemory s) pt" "vmap (kmemory s2) pt = vmap (kmemory s) pt"
    using v q by auto
  then show "vm_inv kend s2 pt free" using v k q dis by (auto simp: vm_inv_def)
qed

lemma grown_pages:
  assumes g: "grown kend pt perm cont x s0 free0 y s free" and y: "y \<le> 2 ^ 26" and i: "x \<le> i" "i < y"
  shows "phys_page kend (page_at (kmemory s) pt i)" "page_at (kmemory s) pt i \<notin> tables 2 (kmemory s) pt \<union> set free"
    "vmap (kmemory s) pt i = Some (PA2PTE (page_at (kmemory s) pt i) OR perm i OR 1)"
    "\<exists>e. vmap (kmemory s) pt i = Some e \<and> PTE_FLAGS e \<noteq> 1 \<and> phys_page kend (PTE2PA e)"
proof -
  note a = g [unfolded grown_def owns_def]
  have i': "i \<in> {x..<y}" using i by simp
  then show ex: "\<exists>e. vmap (kmemory s) pt i = Some e \<and> PTE_FLAGS e \<noteq> 1 \<and> phys_page kend (PTE2PA e)" using a by blast
  then show "phys_page kend (page_at (kmemory s) pt i)" by (auto simp: page_at_def)
  show "page_at (kmemory s) pt i \<notin> tables 2 (kmemory s) pt \<union> set free" using a i' by blast
  show "vmap (kmemory s) pt i = Some (PA2PTE (page_at (kmemory s) pt i) OR perm i OR 1)" using a i y by simp
qed

lemma grown_keep:
  assumes g: "grown kend pt perm cont x s0 free0 y s free" and y: "y \<le> 2 ^ 26"
    and f: "frame P (kmemory s) m'" "\<forall>q \<in> P. phys_page kend q" "P \<subseteq> tables 2 (kmemory s) pt \<union> set free"
    and v: "\<forall>i < 2 ^ 27. i \<noteq> y \<longrightarrow> vmap m' pt i = vmap (kmemory s) pt i" and i: "x \<le> i" "i < y"
  shows "page_at m' pt i = page_at (kmemory s) pt i" "filled (cont i) (page_at (kmemory s) pt i) m'" "vmap m' pt i = vmap (kmemory s) pt i"
proof -
  note pg = grown_pages [OF g y i]
  show vi: "vmap m' pt i = vmap (kmemory s) pt i" using v i y by simp
  then show "page_at m' pt i = page_at (kmemory s) pt i" by (simp add: page_at_def)
  have "same_on {page_at (kmemory s) pt i} (kmemory s) m'"
    by (rule frame_same [OF f(1), of _ kend]) (use f pg(1,2) in auto)
  moreover have "filled (cont i) (page_at (kmemory s) pt i) (kmemory s)" using g i by (simp add: grown_def)
  ultimately show "filled (cont i) (page_at (kmemory s) pt i) m'" using filled_same by blast
qed

text \<open>A change of the tables and the free list that keeps the pages added so far.\<close>

lemma grown_same:
  assumes g: "grown kend pt perm cont x s0 free0 y s free" and y: "y \<le> 2 ^ 26"
    and f: "frame P (kmemory s) (kmemory s')" "\<forall>q \<in> P. phys_page kend q" "P \<subseteq> tables 2 (kmemory s) pt \<union> set free"
    and v: "\<forall>i < 2 ^ 27. vmap (kmemory s') pt i = vmap (kmemory s) pt i"
    and inv: "vm_inv kend s' pt free'" and t: "tables 2 (kmemory s) pt \<subseteq> tables 2 (kmemory s') pt"
    and tot: "tables 2 (kmemory s') pt \<union> set free' = tables 2 (kmemory s) pt \<union> set free"
  shows "grown kend pt perm cont x s0 free0 y s' free'"
proof -
  have v': "\<forall>i < 2 ^ 27. i \<noteq> y \<longrightarrow> vmap (kmemory s') pt i = vmap (kmemory s) pt i" using v by simp
  note k = grown_keep [OF g y f v'] and pg = grown_pages [OF g y] and a = g [unfolded grown_def]
  have img: "page_at (kmemory s') pt ` {x..<y} = page_at (kmemory s) pt ` {x..<y}" by (rule image_cong) (use k in auto)
  have inj: "inj_on (page_at (kmemory s') pt) {x..<y} = inj_on (page_at (kmemory s) pt) {x..<y}"
    by (rule inj_on_cong) (use k in auto)
  have "\<exists>e. vmap (kmemory s') pt n = Some e \<and> PTE_FLAGS e \<noteq> 1 \<and> phys_page kend (PTE2PA e)" if "n \<in> {x..<y}" for n
    using that k(3) [of n] pg(4) [of n] by simp
  moreover have "inj_on (page_at (kmemory s) pt) {x..<y}"
      "page_at (kmemory s) pt ` {x..<y} \<inter> (tables 2 (kmemory s) pt \<union> set free) = {}"
    using a by (simp_all add: owns_def)
  ultimately have "owns kend s' pt free' {x..<y}" unfolding owns_def inj img tot by blast
  moreover have "frame (tables 2 (kmemory s0) pt \<union> set free0) (kmemory s) (kmemory s')"
    by (rule frame_mono [OF f(1)]) (use f(3) a in blast)
  then have "frame (tables 2 (kmemory s0) pt \<union> set free0) (kmemory s0) (kmemory s')" using a frame_trans by fastforce
  moreover have "tables 2 (kmemory s') pt \<union> set free' \<union> page_at (kmemory s') pt ` {x..<y} = tables 2 (kmemory s0) pt \<union> set free0"
    unfolding img tot using a by simp
  moreover have "\<forall>i < 2 ^ 27. vmap (kmemory s') pt i =
      (if x \<le> i \<and> i < y then Some (PA2PTE (page_at (kmemory s') pt i) OR perm i OR 1) else vmap (kmemory s0) pt i)"
    using v a k(1) by simp
  moreover have "\<forall>i. x \<le> i \<and> i < y \<longrightarrow> filled (cont i) (page_at (kmemory s') pt i) (kmemory s') \<and> vmap (kmemory s0) pt i = None"
    using k(1,2) a by simp
  moreover have "tables 2 (kmemory s0) pt \<subseteq> tables 2 (kmemory s') pt" using t a by blast
  ultimately show ?thesis using inv unfolding grown_def by blast
qed

text \<open>The page \<open>q\<close> becomes page \<open>y\<close> of the address space.\<close>

lemma grown_add:
  assumes g: "grown kend pt perm cont x s0 free0 y s (q # free)" and y: "x \<le> y" "y < 2 ^ 26" "vmap (kmemory s0) pt y = None"
    and f: "frame P (kmemory s) (kmemory s')" "\<forall>p \<in> P. phys_page kend p" "P \<subseteq> tables 2 (kmemory s) pt \<union> set (q # free)"
    and v: "\<forall>i < 2 ^ 27. vmap (kmemory s') pt i =
      (if i = y then Some (PA2PTE q OR perm y OR 1) else vmap (kmemory s) pt i)"
    and inv: "vm_inv kend s' pt free'" and t: "tables 2 (kmemory s) pt \<subseteq> tables 2 (kmemory s') pt"
    and tot: "tables 2 (kmemory s') pt \<union> set free' = tables 2 (kmemory s) pt \<union> set free"
    and q: "phys_page kend q" "q \<notin> tables 2 (kmemory s) pt" "q \<notin> set free" "filled (cont y) q (kmemory s')"
    and perm: "perm y < 1024" "perm y OR 1 \<noteq> 1"
  shows "grown kend pt perm cont x s0 free0 (Suc y) s' free'"
proof -
  have v': "\<forall>i < 2 ^ 27. i \<noteq> y \<longrightarrow> vmap (kmemory s') pt i = vmap (kmemory s) pt i" using v by simp
  have y': "y \<le> 2 ^ 26" using y by simp
  note k = grown_keep [OF g y' f v'] and pg = grown_pages [OF g y'] and a = g [unfolded grown_def]
  have un: "\<forall>i. x \<le> i \<and> i < y \<longrightarrow> vmap (kmemory s0) pt i = None" using a by simp
  have q': "q mod 4096 = 0" "q < 2 ^ 56" using phys_page_bounds [OF q(1)] by simp_all
  note e = mapped_entry [OF q' perm(1)]
  have vy: "vmap (kmemory s') pt y = Some (PA2PTE q OR perm y OR 1)" "page_at (kmemory s') pt y = q"
    using v y(2) e(3) by (simp_all add: page_at_def)
  have img: "page_at (kmemory s') pt ` {x..<Suc y} = insert q (page_at (kmemory s) pt ` {x..<y})"
    using vy(2) k(1) y(1) by (simp add: atLeastLessThanSuc)
  have dis: "page_at (kmemory s) pt ` {x..<y} \<inter> (tables 2 (kmemory s) pt \<union> set (q # free)) = {}"
    using a by (simp add: owns_def)
  have "inj_on (page_at (kmemory s') pt) {x..<y} = inj_on (page_at (kmemory s) pt) {x..<y}"
    by (rule inj_on_cong) (use k in auto)
  then have inj: "inj_on (page_at (kmemory s') pt) {x..<Suc y}"
    using a vy(2) k(1) y(1) dis by (simp add: owns_def atLeastLessThanSuc)
  have ent: "\<exists>e. vmap (kmemory s') pt n = Some e \<and> PTE_FLAGS e \<noteq> 1 \<and> phys_page kend (PTE2PA e)" if "n \<in> {x..<Suc y}" for n
  proof (cases "n = y")
    case True
    then show ?thesis using vy e(3,4) perm(2) q(1) by simp
  next
    case False
    then show ?thesis using that k(3) [of n] pg(4) [of n] by simp
  qed
  have "insert q (page_at (kmemory s) pt ` {x..<y}) \<inter> (tables 2 (kmemory s) pt \<union> set free) = {}" using dis q by auto
  then have "owns kend s' pt free' {x..<Suc y}" unfolding owns_def img tot using inj ent by blast
  moreover have "frame (tables 2 (kmemory s0) pt \<union> set free0) (kmemory s) (kmemory s')"
    by (rule frame_mono [OF f(1)]) (use f(3) a in blast)
  then have "frame (tables 2 (kmemory s0) pt \<union> set free0) (kmemory s0) (kmemory s')" using a frame_trans by fastforce
  moreover have "tables 2 (kmemory s) pt \<union> set (q # free) \<union> page_at (kmemory s) pt ` {x..<y} = tables 2 (kmemory s0) pt \<union> set free0"
    using a by simp
  then have "tables 2 (kmemory s') pt \<union> set free' \<union> page_at (kmemory s') pt ` {x..<Suc y} = tables 2 (kmemory s0) pt \<union> set free0"
    unfolding img tot by simp
  moreover have "\<forall>i < 2 ^ 27. vmap (kmemory s') pt i =
      (if x \<le> i \<and> i < Suc y then Some (PA2PTE (page_at (kmemory s') pt i) OR perm i OR 1) else vmap (kmemory s0) pt i)"
    using v a k(1) vy(2) y(1) by (auto simp: less_Suc_eq)
  moreover have "\<forall>i. x \<le> i \<and> i < Suc y \<longrightarrow> filled (cont i) (page_at (kmemory s') pt i) (kmemory s') \<and> vmap (kmemory s0) pt i = None"
    using k(1,2) un vy(2) q(4) y(3) by (auto simp: less_Suc_eq)
  moreover have "tables 2 (kmemory s0) pt \<subseteq> tables 2 (kmemory s') pt" using t a by blast
  ultimately show ?thesis using inv unfolding grown_def by blast
qed

lemma grown_step:
  assumes g: "grown kend pt perm cont x s0 free0 y s (q # free)" and y: "x \<le> y" "y < 2 ^ 26" "vmap (kmemory s0) pt y = None"
    and perm: "perm y < 1024" "perm y OR 1 \<noteq> 1" and q: "phys_page kend q" "q \<notin> tables 2 (kmemory s) pt" "q \<notin> set free"
    and s1: "kmem_inv kend s1 free" "frame {q} (kmemory s) (kmemory s1)"
    and sp: "sp = s1\<lparr>kmemory := mp\<rparr>" "frame {q} (kmemory s1) mp" "filled (cont y) q mp"
  shows "\<exists>r s2. mappages pt (4096 * y) PGSIZE q (perm y) sp = Ok (r, s2) \<and>
    (if r = 0 then \<exists>free'. grown kend pt perm cont x s0 free0 (Suc y) s2 free'
     else r = -1 \<and> (\<exists>s3 free'. kfree kend q s2 = Ok s3 \<and> grown kend pt perm cont x s0 free0 y s3 free'))"
proof -
  note a = g [unfolded grown_def]
  have inv: "vm_inv kend s pt (q # free)" using a by simp
  note t = fill_page [OF inv s1 sp(1,2)]
  have "vmap (kmemory s) pt y = None" using a y by simp
  then obtain r s2 free2 where m: "mappages pt (4096 * y) PGSIZE q (perm y) sp = Ok (r, s2)"
    "evolves kend pt sp free s2 free2" "r = 0 \<or> r = -1"
    "\<forall>i < 2 ^ 27. vmap (kmemory s2) pt i = (if r = 0 \<and> i = y then Some (PA2PTE q OR perm y OR 1) else vmap (kmemory s) pt i)"
    using mappages_page [OF t(1) y(2) _ _ perm(1), of q] phys_page_bounds [OF q(1)] t(4) by auto
  obtain used where u: "free = used @ free2" "tables 2 (kmemory s2) pt = tables 2 (kmemory s) pt \<union> set used"
    using m(2) t(3) by (auto simp: evolves_def)
  have inv2: "vm_inv kend s2 pt free2" and f2: "frame (tables 2 (kmemory s2) pt) (kmemory sp) (kmemory s2)"
    using m(2) by (simp_all add: evolves_def)
  let ?P = "{q} \<union> tables 2 (kmemory s2) pt"
  have fr: "frame ?P (kmemory s) (kmemory s2)" by (rule frame_trans [OF t(2) f2])
  have ph: "\<forall>p \<in> ?P. phys_page kend p" using q(1) inv2 tree_ok_phys by (auto simp: vm_inv_def)
  have sub: "?P \<subseteq> tables 2 (kmemory s) pt \<union> set (q # free)" using u by auto
  have tot: "tables 2 (kmemory s2) pt \<union> set free2 = tables 2 (kmemory s) pt \<union> set free" using u by auto
  have q2: "q \<notin> tables 2 (kmemory s2) pt" "q \<notin> set free2" using q(2,3) u by auto
  have "same_on {q} (kmemory sp) (kmemory s2)"
    by (rule frame_same [OF f2, of _ kend]) (use ph q2 in auto)
  then have z: "filled (cont y) q (kmemory s2)" using sp filled_same by simp
  show ?thesis
  proof (cases "r = 0")
    case True
    have "grown kend pt perm cont x s0 free0 (Suc y) s2 free2"
      by (rule grown_add [OF g y fr ph sub _ inv2 _ tot q z perm]) (use m(4) True u in auto)
    then show ?thesis using m(1) True by auto
  next
    case False
    obtain s3 where s3: "kfree kend q s2 = Ok s3" "vm_inv kend s3 pt (q # free2)" "frame {q} (kmemory s2) (kmemory s3)"
      by (rule free_page_inv [OF inv2 q(1) q2])
    have ok2: "tree_ok kend 2 (kmemory s2) pt" using inv2 by (simp add: vm_inv_def)
    have v3: "tables 2 (kmemory s3) pt = tables 2 (kmemory s2) pt" "vmap (kmemory s3) pt = vmap (kmemory s2) pt"
      using vm_same [OF ok2 s3(3)] q(1) q2(1) by auto
    have fr3: "frame ?P (kmemory s) (kmemory s3)" by (rule frame_mono [OF frame_trans [OF fr s3(3)]]) auto
    have "grown kend pt perm cont x s0 free0 y s3 (q # free2)"
      by (rule grown_same [OF g _ fr3 ph sub _ s3(2)]) (use m(4) False u v3 y in auto)
    then show ?thesis using m(1,3) s3(1) False by auto
  qed
qed

lemma uvmalloc_loop_grows:
  fixes perm xperm :: nat
  assumes "grown kend pt (\<lambda>_. perm) (\<lambda>_ _. 0) x s0 free0 y s free" "x \<le> y" "y \<le> Y" "Y \<le> 2 ^ 26"
    and "\<forall>i. x \<le> i \<and> i < Y \<longrightarrow> vmap (kmemory s0) pt i = None"
    and perm: "perm = PTE_R OR PTE_U OR xperm" "perm < 1024" "perm OR 1 \<noteq> 1"
    and newsz: "\<And>i. 4096 * i < newsz \<longleftrightarrow> i < Y"
  shows "\<exists>r s' free'. uvmalloc_loop kend pt (4096 * y) (4096 * x) newsz xperm s = Ok (r, s') \<and>
    (r = newsz \<and> grown kend pt (\<lambda>_. perm) (\<lambda>_ _. 0) x s0 free0 Y s' free' \<or>
     r = 0 \<and> grown kend pt (\<lambda>_. perm) (\<lambda>_ _. 0) x s0 free0 x s' free')"
  using assms(1-5)
proof (induction "Y - y" arbitrary: y s free)
  case 0
  then have "y = Y" by simp
  then show ?case using 0 newsz by (subst uvmalloc_loop.simps) auto
next
  case (Suc d)
  let ?g = "grown kend pt (\<lambda>_. perm) (\<lambda>_ _. 0) x s0 free0"
  have y: "y < Y" "y < 2 ^ 26" "vmap (kmemory s0) pt y = None" using Suc by auto
  then have lt: "4096 * y < newsz" using newsz by simp
  have undo: "\<exists>s' free'. uvmdealloc kend pt (4096 * y) (4096 * x) s1 = Ok (4096 * x, s') \<and> ?g x s' free'" if "?g y s1 free1" for s1 free1
    using grown_undo [OF that] uvmdealloc_pages [of x y] Suc.prems(2) y(2) by auto
  show ?case
  proof (cases free)
    case Nil
    then have "kalloc s = (0, s)" using Suc.prems(1) pages.alloc_none [of kend s] by (simp add: grown_def vm_inv_def)
    moreover obtain s' free' where "uvmdealloc kend pt (4096 * y) (4096 * x) s = Ok (4096 * x, s')" "?g x s' free'"
      using undo [OF Suc.prems(1)] by blast
    ultimately show ?thesis using lt by (subst uvmalloc_loop.simps) auto
  next
    case (Cons q qs)
    have "vm_inv kend s pt (q # qs)" using Suc.prems(1) Cons by (simp add: grown_def)
    then obtain s1 where t: "kalloc s = (q, s1)" "q \<noteq> 0" "kmem_inv kend s1 qs" "frame {q} (kmemory s) (kmemory s1)"
      "phys_page kend q" "q \<notin> tables 2 (kmemory s) pt" "q \<notin> set qs" by (rule take_page)
    have "filled (\<lambda>_. 0) q (memset q 0 4096 (kmemory s1))" using zeroed_memset by (simp add: zeroed_filled)
    then obtain r s2 where st: "mappages pt (4096 * y) PGSIZE q perm (zero_page q s1) = Ok (r, s2)"
      "if r = 0 then \<exists>free'. ?g (Suc y) s2 free' else r = -1 \<and> (\<exists>s3 free'. kfree kend q s2 = Ok s3 \<and> ?g y s3 free')"
      using grown_step [OF Suc.prems(1) [unfolded Cons] Suc.prems(2) y(2,3) perm(2,3) t(5-7,3,4) zero_page_def frame_memset] by blast
    note step = t(1,2) st(1) [unfolded perm(1)]
    show ?thesis
    proof (cases "r = 0")
      case True
      then obtain free2 where g: "?g (Suc y) s2 free2" using st(2) by auto
      have "add64 (4096 * y) 4096 = 4096 * Suc y" using y(2) by (simp add: add64_def)
      then have "uvmalloc_loop kend pt (4096 * y) (4096 * x) newsz xperm s =
          uvmalloc_loop kend pt (4096 * Suc y) (4096 * x) newsz xperm s2"
        using lt step True by (subst uvmalloc_loop.simps) simp
      then show ?thesis using Suc.hyps(1) [OF _ g] Suc.hyps(2) Suc.prems y(1) by simp
    next
      case False
      then obtain s3 free3 where s3: "kfree kend q s2 = Ok s3" "?g y s3 free3" using st(2) by auto
      obtain s' free' where "uvmdealloc kend pt (4096 * y) (4096 * x) s3 = Ok (4096 * x, s')" "?g x s' free'"
        using undo [OF s3(2)] by blast
      then show ?thesis using lt step s3(1) False by (subst uvmalloc_loop.simps) auto
    qed
  qed
qed

definition npages :: "nat \<Rightarrow> nat" where
  "npages sz = (sz + 4095) div 4096"

lemma npages_iff: "4096 * i < sz \<longleftrightarrow> i < npages sz"
  by (auto simp: npages_def)

lemma PGROUNDUP_npages: "PGROUNDUP sz = 4096 * npages sz"
  by (simp add: PGROUNDUP_def npages_def minus_mod_eq_mult_div)

lemma npages_bound: "sz \<le> MAXVA \<Longrightarrow> npages sz \<le> 2 ^ 26"
  by (simp add: npages_def div_le_mono [of "sz + 4095" "MAXVA + 4095" 4096, simplified])

lemma npages_mono: "a \<le> b \<Longrightarrow> npages a \<le> npages b"
  by (simp add: npages_def div_le_mono)

lemma perm_flags: "xperm < 1024 \<Longrightarrow> PTE_R OR PTE_U OR xperm < 1024" "(PTE_R OR PTE_U OR xperm) OR 1 \<noteq> 1"
proof -
  show "PTE_R OR PTE_U OR xperm < 1024" if "xperm < 1024" using that flags_less by simp
  have "bit ((PTE_R OR PTE_U OR xperm) OR 1) 1" by (simp only: bit_or_iff) (simp add: bit_iff_odd)
  moreover have "\<not> bit (1 :: nat) 1" by (simp add: bit_1_iff)
  ultimately show "(PTE_R OR PTE_U OR xperm) OR 1 \<noteq> 1" by metis
qed

text \<open>The result of \<^verbatim>\<open>uvmalloc\<close>: all pages, or none.\<close>

lemma uvmalloc_result:
  assumes "vm_inv kend s pt free" "oldsz \<le> newsz" "newsz \<le> MAXVA" "xperm < 1024"
    and "\<forall>i. npages oldsz \<le> i \<and> i < npages newsz \<longrightarrow> vmap (kmemory s) pt i = None"
  shows "\<exists>r s' free'. uvmalloc kend pt oldsz newsz xperm s = Ok (r, s') \<and>
    (r = newsz \<and> grown kend pt (\<lambda>_. PTE_R OR PTE_U OR xperm) (\<lambda>_ _. 0) (npages oldsz) s free (npages newsz) s' free' \<or>
     r = 0 \<and> grown kend pt (\<lambda>_. PTE_R OR PTE_U OR xperm) (\<lambda>_ _. 0) (npages oldsz) s free (npages oldsz) s' free')"
proof -
  have b: "npages newsz \<le> 2 ^ 26" "npages oldsz \<le> npages newsz"
    using npages_bound [OF assms(3)] npages_mono [OF assms(2)] by simp_all
  have up: "pgroundup64 oldsz = 4096 * npages oldsz" unfolding pgroundup64_def PGROUNDUP_npages using b by simp
  show ?thesis
    using uvmalloc_loop_grows [OF grown_start [OF assms(1)] order_refl b(2,1) assms(5) refl perm_flags(1) [OF assms(4)] perm_flags(2) npages_iff]
      assms(2) by (simp add: uvmalloc_def up)
qed

end
