(* ===== verification/Vm_Copy.thy ===== *)
theory Vm_Copy
  imports Vm_User
begin

text \<open>
  Copies between kernel and user memory (\<^verbatim>\<open>walkaddr\<close>, \<^verbatim>\<open>copyin\<close>, \<^verbatim>\<open>copyout\<close>, \<^verbatim>\<open>copyinstr\<close> of
  \<^verbatim>\<open>kernel/vm.c\<close>) against the user's view of memory: \<open>uaddr m pt va\<close> is the physical address of
  the byte at \<open>va\<close>, when a user program may access it. The copies go page by page; what they
  copy is the bytes of that view, up to the first address that is not mapped.
\<close>

section \<open>The user's view of memory\<close>

definition uaddr :: "mem \<Rightarrow> nat \<Rightarrow> nat \<Rightarrow> nat option" where
  "uaddr m pt va = (if va < MAXVA then
     (case vmap m pt (va div 4096) of None \<Rightarrow> None
      | Some e \<Rightarrow> if bit e 4 \<and> PTE2PA e \<noteq> 0 then Some (PTE2PA e + va mod 4096) else None) else None)"

text \<open>How many bytes from \<open>va\<close> on are accessible, and the bytes there.\<close>

definition readable :: "mem \<Rightarrow> nat \<Rightarrow> nat \<Rightarrow> nat \<Rightarrow> nat" where
  "readable m pt va len = length (takeWhile (\<lambda>i. uaddr m pt (va + i) \<noteq> None) [0..<len])"

definition ubytes :: "mem \<Rightarrow> nat \<Rightarrow> nat \<Rightarrow> nat \<Rightarrow> u8 list" where
  "ubytes m pt va k = map (\<lambda>i. m (the (uaddr m pt (va + i)))) [0..<k]"

definition upages :: "mem \<Rightarrow> nat \<Rightarrow> nat set" where
  "upages m pt = {PTE2PA e |n e. n < 2 ^ 26 \<and> vmap m pt n = Some e \<and> bit e 4}"

lemma walkaddr_eq:
  assumes "tree_ok kend 2 (kmemory s) pt"
  shows "walkaddr pt (PGROUNDDOWN va) s = Ok (case uaddr (kmemory s) pt va of None \<Rightarrow> 0 | Some a \<Rightarrow> a - va mod 4096)"
proof -
  define x where "x = va div 4096"
  have pg: "PGROUNDDOWN va = 4096 * x" "va < MAXVA \<longleftrightarrow> x < 2 ^ 26"
    by (simp_all add: x_def PGROUNDDOWN_page div_less_iff_less_mult)
  show ?thesis
  proof (cases "x < 2 ^ 26")
    case False
    then show ?thesis using pg by (simp add: walkaddr_def uaddr_def)
  next
    case x: True
    show ?thesis
    proof (cases "vmap (kmemory s) pt x")
      case None
      then have "case slot 2 (kmemory s) pt (4096 * x) of None \<Rightarrow> True | Some p \<Rightarrow> \<not> bit (rd64 (kmemory s) p) 0"
        by (auto simp: vmap_def leafl_def split: option.splits if_splits)
      then show ?thesis using None x pg
        by (auto simp: walkaddr_def uaddr_def walk_def walk_loop_lookup x_def [symmetric] split: option.splits)
    next
      case (Some e)
      then obtain p where "walk pt (4096 * x) False s = Ok (p, s)" "p \<noteq> 0" "rd64 (kmemory s) p = e" "bit e 0"
        using walk_mapped [OF assms Some x] by metis
      then show ?thesis using Some x pg by (simp add: walkaddr_def uaddr_def x_def [symmetric])
    qed
  qed
qed

lemma uaddr_page:
  assumes "uaddr m pt va = Some a" "va mod 4096 + i < 4096"
  shows "uaddr m pt (va + i) = Some (a + i)" "a - va mod 4096 + va mod 4096 = a" "a - va mod 4096 \<noteq> 0"
    "a - va mod 4096 \<in> upages m pt" "a - va mod 4096 < 2 ^ 64" "(a - va mod 4096) mod 4096 = 0"
proof -
  define x o' where "x = va div 4096" and "o' = va mod 4096"
  have va: "va = 4096 * x + o'" "o' + i < 4096" using assms(2) by (simp_all add: x_def o'_def)
  then have eq: "va + i = (o' + i) + 4096 * x" by simp
  have d: "(va + i) div 4096 = x" "(va + i) mod 4096 = o' + i" unfolding eq mod_mult_self2 using va(2) by simp_all
  have "a < MAXVA \<longleftrightarrow> a div 4096 < 2 ^ 26" for a :: nat by (simp add: div_less_iff_less_mult)
  then have lt: "va + i < MAXVA \<longleftrightarrow> va < MAXVA" using d(1) x_def by metis
  obtain e where e: "vmap m pt x = Some e" "bit e 4" "PTE2PA e \<noteq> 0" "a = PTE2PA e + o'" "va < MAXVA"
    using assms(1) by (auto simp: uaddr_def x_def o'_def split: if_splits option.splits)
  show "uaddr m pt (va + i) = Some (a + i)" using e d lt by (simp add: uaddr_def)
  show "a - va mod 4096 + va mod 4096 = a" "a - va mod 4096 \<noteq> 0" using e(3,4) by (simp_all add: o'_def [symmetric])
  have "x < 2 ^ 26" using e(5) va by simp
  then show "a - va mod 4096 \<in> upages m pt" using e by (auto simp: upages_def o'_def [symmetric])
  have "PTE2PA e < 2 ^ 64" "PTE2PA e mod 4096 = 0"
    by (simp_all add: PTE2PA_def mod_mod_cancel)
  then show "a - va mod 4096 < 2 ^ 64" "(a - va mod 4096) mod 4096 = 0" using e(4) by (simp_all add: o'_def [symmetric])
qed

lemma readable_le: "readable m pt va len \<le> len"
  unfolding readable_def using length_takeWhile_le [of _ "[0..<len]"] by simp

lemma readable_add:
  assumes "\<forall>i < n. uaddr m pt (va + i) \<noteq> None" "n \<le> len"
  shows "readable m pt va len = n + readable m pt (va + n) (len - n)"
proof -
  have "[0..<len] = [0..<n] @ map (\<lambda>i. n + i) [0..<len - n]"
    using assms(2) by (simp add: map_add_upt upt_add_eq_append [symmetric] add.commute [of n])
      (metis add.commute map_add_upt le_add_diff_inverse upt_add_eq_append zero_le)
  then show ?thesis using assms(1)
    by (simp add: readable_def takeWhile_append takeWhile_map comp_def add.assoc)
qed

lemma readable_all: "readable m pt va len = len \<longleftrightarrow> (\<forall>i < len. uaddr m pt (va + i) \<noteq> None)"
proof -
  have "readable m pt va len = len \<longleftrightarrow> takeWhile (\<lambda>i. uaddr m pt (va + i) \<noteq> None) [0..<len] = [0..<len]"
    unfolding readable_def by (metis length_upt diff_zero takeWhile_eq_take take_all_iff order_refl)
  then show ?thesis unfolding takeWhile_eq_all_conv by auto
qed

lemma readable_nth: "i < readable m pt va len \<Longrightarrow> uaddr m pt (va + i) \<noteq> None"
proof -
  let ?P = "\<lambda>i. uaddr m pt (va + i) \<noteq> None"
  assume i: "i < readable m pt va len"
  then have "i < length (takeWhile ?P [0..<len])" "i < len" using readable_le [of m pt va len] by (simp_all add: readable_def)
  then have "takeWhile ?P [0..<len] ! i = i" by (simp add: takeWhile_nth)
  then show ?thesis using set_takeWhileD [OF nth_mem [OF \<open>i < length (takeWhile ?P [0..<len])\<close>]] by simp
qed

lemma readable_zero: "uaddr m pt va = None \<Longrightarrow> readable m pt va len = 0"
  by (cases len) (simp_all add: readable_def upt_conv_Cons del: upt_Suc)

text \<open>The part of a transfer that lies in the first page.\<close>

definition chunk :: "nat \<Rightarrow> nat \<Rightarrow> nat" where
  "chunk va len = min (4096 - va mod 4096) len"

lemma chunk_props:
  assumes "0 < len"
  shows "0 < chunk va len" "chunk va len \<le> len" "i < chunk va len \<Longrightarrow> va mod 4096 + i < 4096"
    "chunk va len \<noteq> len \<Longrightarrow> 4096 * (va div 4096) + 4096 = va + chunk va len" "chunk va len \<le> 4096"
proof -
  have m: "va mod 4096 < 4096" by simp
  then show "0 < chunk va len" "chunk va len \<le> len" "i < chunk va len \<Longrightarrow> va mod 4096 + i < 4096" "chunk va len \<le> 4096"
    using assms by (auto simp: chunk_def)
  show "4096 * (va div 4096) + 4096 = va + chunk va len" if "chunk va len \<noteq> len"
    using that m mult_div_mod_eq [of 4096 va] unfolding chunk_def by linarith
qed

lemma store_append: "store a (xs @ ys) m = store (a + length xs) ys (store a xs m)"
  by (induction xs arbitrary: a m) (simp_all add: store_Cons)

text \<open>Writing elsewhere does not change the user's view.\<close>

definition apart :: "nat set \<Rightarrow> nat \<Rightarrow> nat \<Rightarrow> bool" where
  "apart P a len \<longleftrightarrow> (\<forall>q \<in> P. \<forall>b. a \<le> b \<and> b < a + len \<longrightarrow> \<not> in_page q b)"

lemma apart_same: "apart P a len \<Longrightarrow> length bs \<le> len \<Longrightarrow> same_on P m (store a bs m)"
  by (fastforce simp: apart_def same_on_def store_def)

lemma view_same:
  assumes "same_on (tables 2 m pt) m m'"
  shows "uaddr m' pt = uaddr m pt" "upages m' pt = upages m pt" "readable m' pt = readable m pt"
proof -
  have v: "vmap m' pt = vmap m pt" using leafl_same [OF assms] by (simp add: vmap_def fun_eq_iff)
  then show u: "uaddr m' pt = uaddr m pt" "upages m' pt = upages m pt" by (simp_all add: uaddr_def upages_def fun_eq_iff)
  show "readable m' pt = readable m pt" unfolding readable_def [abs_def] u ..
qed

lemma ubytes_same:
  assumes "same_on (tables 2 m pt \<union> upages m pt) m m'" "k \<le> readable m pt va len"
  shows "ubytes m' pt va k = ubytes m pt va k"
proof -
  have u: "uaddr m' pt = uaddr m pt" by (rule view_same) (rule same_on_subset [OF assms(1)], simp)
  have "m' (the (uaddr m pt (va + i))) = m (the (uaddr m pt (va + i)))" if "i < k" for i
  proof -
    have "uaddr m pt (va + i) \<noteq> None" using readable_nth [OF less_le_trans [OF that assms(2)]] .
    then obtain a where a: "uaddr m pt (va + i) = Some a" by auto
    let ?q = "a - (va + i) mod 4096"
    have q: "?q \<in> upages m pt" "?q + (va + i) mod 4096 = a" using uaddr_page [OF a, of 0] by simp_all
    then have "in_page ?q a" by (simp add: in_page_def)
    then show ?thesis using assms(1) q(1) a by (auto simp: same_on_def)
  qed
  then show ?thesis by (simp add: ubytes_def u)
qed

section \<open>Copying in\<close>

lemma copyin_chunk:
  assumes "uaddr m pt va = Some a" "0 < len"
  shows "bytes m a (chunk va len) = ubytes m pt va (chunk va len)"
    "readable m pt va len = chunk va len + readable m pt (va + chunk va len) (len - chunk va len)"
proof -
  have u: "uaddr m pt (va + i) = Some (a + i)" if "i < chunk va len" for i
    using uaddr_page(1) [OF assms(1)] chunk_props(3) [OF assms(2) that] by simp
  then show "bytes m a (chunk va len) = ubytes m pt va (chunk va len)" by (simp add: bytes_def ubytes_def)
  show "readable m pt va len = chunk va len + readable m pt (va + chunk va len) (len - chunk va len)"
    by (rule readable_add) (use u chunk_props(2) [OF assms(2)] in auto)
qed

lemma ubytes_add: "ubytes m pt va (n + k) = ubytes m pt va n @ ubytes m pt (va + n) k"
  by (rule nth_equalityI) (auto simp: ubytes_def nth_append)

lemma copyin_view:
  assumes "tree_ok kend 2 (kmemory s) pt" "dst + len < 2 ^ 64"
    and "apart (tables 2 (kmemory s) pt \<union> upages (kmemory s) pt) dst len"
  shows "copyin pt dst va len s =
    (let k = readable (kmemory s) pt va len
     in Ok (if k = len then 0 else -1, s\<lparr>kmemory := store dst (ubytes (kmemory s) pt va k) (kmemory s)\<rparr>))"
  using assms
proof (induction len arbitrary: dst va s rule: less_induct)
  case (less len)
  let ?m = "kmemory s"
  show ?case
  proof (cases "len = 0 \<or> uaddr ?m pt va = None")
    case True
    then show ?thesis
      using walkaddr_eq [OF less.prems(1), of va] readable_zero [of ?m pt va len] readable_le [of ?m pt va 0]
      by (subst copyin.simps) (auto simp: ubytes_def)
  next
    case False
    then have len: "0 < len" by simp
    obtain a where a: "uaddr ?m pt va = Some a" using False by auto
    define n where "n = chunk va len"
    note n = chunk_props [where va = va, OF len, folded n_def] and c = copyin_chunk [OF a len, folded n_def]
    define s1 where "s1 = s\<lparr>kmemory := store dst (ubytes ?m pt va n) ?m\<rparr>"
    have ln: "length (ubytes ?m pt va n) = n" by (simp add: ubytes_def)
    have so: "same_on (tables 2 ?m pt \<union> upages ?m pt) ?m (kmemory s1)"
      unfolding s1_def using apart_same [OF less.prems(3), of "ubytes ?m pt va n"] ln n(2) by simp
    then have st: "same_on (tables 2 ?m pt) ?m (kmemory s1)" by (rule same_on_subset) simp
    have same: "tables 2 (kmemory s1) pt = tables 2 ?m pt" "tree_ok kend 2 (kmemory s1) pt"
        "upages (kmemory s1) pt = upages ?m pt" "readable (kmemory s1) pt = readable ?m pt"
        "ubytes (kmemory s1) pt vb (readable ?m pt vb l) = ubytes ?m pt vb (readable ?m pt vb l)" for vb l
      using tables_same [OF st] tree_ok_same [OF st] view_same [OF st] ubytes_same [OF so order_refl] less.prems(1) by auto
    have step: "copyin pt dst va len s = copyin pt (add64 dst n) (add64 (PGROUNDDOWN va) PGSIZE) (len - n) s1"
      using len walkaddr_eq [OF less.prems(1), of va] a uaddr_page [OF a, of 0] c(1)
      by (subst copyin.simps) (simp add: page_offset memmove_eq s1_def n_def chunk_def Let_def)
    have d: "add64 dst n = dst + n" using less.prems(2) n(2) by (simp add: add64_def)
    have ap: "apart (tables 2 ?m pt \<union> upages ?m pt) (dst + n) (len - n)"
      using less.prems(3) n(2) by (auto simp: apart_def)
    show ?thesis
    proof (cases "n = len")
      case True
      then show ?thesis using step c(2) by (subst (asm) copyin.simps) (simp add: s1_def readable_def)
    next
      case False
      have "va < MAXVA" using a by (auto simp: uaddr_def split: if_splits)
      then have "add64 (PGROUNDDOWN va) PGSIZE = va + n" using n(4) [OF False] n(5) by (simp add: add64_def PGROUNDDOWN_page)
      then have "copyin pt dst va len s = copyin pt (dst + n) (va + n) (len - n) s1" using step d by simp
      also have "\<dots> = (let k = readable (kmemory s1) pt (va + n) (len - n)
          in Ok (if k = len - n then 0 else -1, s1\<lparr>kmemory := store (dst + n) (ubytes (kmemory s1) pt (va + n) k) (kmemory s1)\<rparr>))"
        by (rule less.IH) (use n(1,2) len less.prems(2) same ap in auto)
      also have "\<dots> = (let k = readable ?m pt va len
          in Ok (if k = len then 0 else -1, s\<lparr>kmemory := store dst (ubytes ?m pt va k) ?m\<rparr>))"
        using n(2) unfolding same(4,5) c(2) Let_def ubytes_add store_append ln by (auto simp: s1_def)
      finally show ?thesis .
    qed
  qed
qed

section \<open>Copying out\<close>

fun put_all :: "(nat \<Rightarrow> nat) \<Rightarrow> u8 list \<Rightarrow> mem \<Rightarrow> mem" where
  "put_all f [] m = m"
| "put_all f (b # bs) m = put_all (\<lambda>i. f (Suc i)) bs (m(f 0 := b))"

lemma put_all_append: "put_all f (xs @ ys) m = put_all (\<lambda>i. f (length xs + i)) ys (put_all f xs m)"
  by (induction xs arbitrary: f m) simp_all

lemma put_all_store: "(\<And>i. i < length bs \<Longrightarrow> f i = a + i) \<Longrightarrow> put_all f bs m = store a bs m"
proof (induction bs arbitrary: f a m)
  case (Cons b bs)
  have "put_all (\<lambda>i. f (Suc i)) bs (m(f 0 := b)) = store (a + 1) bs (m(f 0 := b))" by (rule Cons.IH) (use Cons.prems in force)
  then show ?case using Cons.prems [of 0] by (simp add: store_Cons)
qed simp

lemma put_all_other: "(\<And>i. i < length bs \<Longrightarrow> f i \<noteq> x) \<Longrightarrow> put_all f bs m x = m x"
proof (induction bs arbitrary: f m)
  case (Cons b bs)
  have "put_all (\<lambda>i. f (Suc i)) bs (m(f 0 := b)) x = (m(f 0 := b)) x" by (rule Cons.IH) (use Cons.prems in force)
  then show ?case using Cons.prems [of 0] by simp
qed simp

lemma put_all_nth:
  "inj_on f {..<length bs} \<Longrightarrow> i < length bs \<Longrightarrow> put_all f bs m (f i) = bs ! i"
proof (induction bs arbitrary: f m i)
  case (Cons b bs)
  show ?case
  proof (cases i)
    case 0
    have "f (Suc j) \<noteq> f 0" if "j < length bs" for j using Cons.prems(1) that by (auto simp: inj_on_def)
    then show ?thesis using 0 put_all_other [of bs "\<lambda>i. f (Suc i)" "f 0"] by simp
  next
    case (Suc j)
    have "inj_on (\<lambda>i. f (Suc i)) {..<length bs}" using Cons.prems(1) by (auto simp: inj_on_def)
    then show ?thesis using Cons.IH [of "\<lambda>i. f (Suc i)" j] Cons.prems(2) Suc by simp
  qed
qed simp

definition user_apart :: "nat \<Rightarrow> mem \<Rightarrow> nat \<Rightarrow> bool" where
  "user_apart kend m pt \<longleftrightarrow> (\<forall>q \<in> upages m pt. phys_page kend q) \<and> upages m pt \<inter> tables 2 m pt = {}"

lemma copyout_view:
  assumes "tree_ok kend 2 (kmemory s) pt" "src + len < 2 ^ 64" "user_apart kend (kmemory s) pt"
    and "apart (upages (kmemory s) pt) src len"
  shows "copyout pt va src len s =
    (let k = readable (kmemory s) pt va len
     in Ok (if k = len then 0 else -1,
       s\<lparr>kmemory := put_all (\<lambda>i. the (uaddr (kmemory s) pt (va + i))) (bytes (kmemory s) src k) (kmemory s)\<rparr>))"
  using assms
proof (induction len arbitrary: src va s rule: less_induct)
  case (less len)
  let ?m = "kmemory s"
  show ?case
  proof (cases "len = 0 \<or> uaddr ?m pt va = None")
    case True
    then show ?thesis
      using walkaddr_eq [OF less.prems(1), of va] readable_zero [of ?m pt va len] readable_le [of ?m pt va 0]
      by (subst copyout.simps) (auto simp: bytes_def)
  next
    case False
    then have len: "0 < len" by simp
    obtain a where a: "uaddr ?m pt va = Some a" using False by auto
    define n where "n = chunk va len"
    note n = chunk_props [where va = va, OF len, folded n_def] and c = copyin_chunk(2) [OF a len, folded n_def]
    define s1 where "s1 = s\<lparr>kmemory := store a (bytes ?m src n) ?m\<rparr>"
    let ?q = "a - va mod 4096"
    have q: "?q \<in> upages ?m pt" "?q + va mod 4096 = a" using uaddr_page [OF a, of 0] by simp_all
    have inq: "in_page ?q (a + i)" if "i < n" for i using q(2) n(3) [OF that] by (simp add: in_page_def)
    have fr: "frame {?q} ?m (kmemory s1)"
      unfolding frame_def s1_def using inq by (auto simp: store_def) (metis le_add_diff_inverse nat_add_left_cancel_less)
    have st: "same_on (tables 2 ?m pt) ?m (kmemory s1)"
      by (rule frame_same [OF fr, of _ kend]) (use less.prems(1,3) q(1) tree_ok_phys in \<open>auto simp: user_apart_def\<close>)
    have same: "tables 2 (kmemory s1) pt = tables 2 ?m pt" "tree_ok kend 2 (kmemory s1) pt"
        "upages (kmemory s1) pt = upages ?m pt" "readable (kmemory s1) pt = readable ?m pt" "uaddr (kmemory s1) pt = uaddr ?m pt"
      using tables_same [OF st] tree_ok_same [OF st] view_same [OF st] less.prems(1) by auto
    have src: "bytes (kmemory s1) (src + n) k = bytes ?m (src + n) k" if "k \<le> len - n" for k
    proof (rule nth_equalityI)
      fix i assume "i < length (bytes (kmemory s1) (src + n) k)"
      then have i: "i < k" by simp
      then have "\<not> in_page ?q (src + n + i)" using less.prems(4) q(1) that by (simp add: apart_def)
      then show "bytes (kmemory s1) (src + n) k ! i = bytes ?m (src + n) k ! i" using fr i by (simp add: frame_def)
    qed simp
    have step: "copyout pt va src len s = copyout pt (add64 (PGROUNDDOWN va) PGSIZE) (add64 src n) (len - n) s1"
      using len walkaddr_eq [OF less.prems(1), of va] a uaddr_page [OF a, of 0]
      by (subst copyout.simps) (simp add: page_offset memmove_eq s1_def n_def chunk_def Let_def)
    have d: "add64 src n = src + n" using less.prems(2) n(2) by (simp add: add64_def)
    have u: "the (uaddr ?m pt (va + i)) = a + i" if "i < n" for i using uaddr_page(1) [OF a] n(3) [OF that] by simp
    have put: "put_all (\<lambda>i. the (uaddr ?m pt (va + i))) (bytes ?m src n) ?m = kmemory s1"
      using put_all_store [of "bytes ?m src n" "\<lambda>i. the (uaddr ?m pt (va + i))" a] u by (simp add: s1_def)
    show ?thesis
    proof (cases "n = len")
      case True
      then have "readable ?m pt va len = len" using c by (simp add: readable_def)
      then show ?thesis using step True put by (subst (asm) copyout.simps) (simp add: s1_def)
    next
      case False
      have "va < MAXVA" using a by (auto simp: uaddr_def split: if_splits)
      then have "add64 (PGROUNDDOWN va) PGSIZE = va + n" using n(4) [OF False] n(5) by (simp add: add64_def PGROUNDDOWN_page)
      then have "copyout pt va src len s = copyout pt (va + n) (src + n) (len - n) s1" using step d by simp
      also have "\<dots> = (let k = readable (kmemory s1) pt (va + n) (len - n)
          in Ok (if k = len - n then 0 else -1, s1\<lparr>kmemory :=
            put_all (\<lambda>i. the (uaddr (kmemory s1) pt (va + n + i))) (bytes (kmemory s1) (src + n) k) (kmemory s1)\<rparr>))"
        by (rule less.IH) (use n(1,2) len less.prems same in \<open>auto simp: user_apart_def apart_def\<close>)
      also have "\<dots> = (let k = readable ?m pt va len
          in Ok (if k = len then 0 else -1, s\<lparr>kmemory :=
            put_all (\<lambda>i. the (uaddr ?m pt (va + i))) (bytes ?m src k) ?m\<rparr>))"
      proof -
        let ?k = "readable ?m pt (va + n) (len - n)"
        have "bytes ?m src (n + ?k) = bytes ?m src n @ bytes ?m (src + n) ?k"
          by (rule nth_equalityI) (auto simp: nth_append)
        then have "put_all (\<lambda>i. the (uaddr ?m pt (va + i))) (bytes ?m src (n + ?k)) ?m =
            put_all (\<lambda>i. the (uaddr ?m pt (va + n + i))) (bytes (kmemory s1) (src + n) ?k) (kmemory s1)"
          using put src [OF readable_le] by (simp add: put_all_append add.assoc)
        then show ?thesis using n(2) unfolding same(4,5) c Let_def by (auto simp: s1_def)
      qed
      finally show ?thesis .
    qed
  qed
qed

section \<open>There and back\<close>

text \<open>No two pages of the address space that the user can access share memory.\<close>

definition user_inj :: "mem \<Rightarrow> nat \<Rightarrow> bool" where
  "user_inj m pt \<longleftrightarrow> (\<forall>n n' e e'. n < 2 ^ 26 \<longrightarrow> n' < 2 ^ 26 \<longrightarrow> vmap m pt n = Some e \<longrightarrow> vmap m pt n' = Some e' \<longrightarrow>
     bit e 4 \<longrightarrow> bit e' 4 \<longrightarrow> PTE2PA e = PTE2PA e' \<longrightarrow> n = n')"

lemma uaddr_inj:
  assumes "user_inj m pt" "uaddr m pt va = Some a" "uaddr m pt vb = Some a"
  shows "va = vb"
proof -
  obtain e where e: "vmap m pt (va div 4096) = Some e" "bit e 4" "a = PTE2PA e + va mod 4096" "va < MAXVA"
    using assms(2) by (auto simp: uaddr_def split: if_splits option.splits)
  obtain e' where e': "vmap m pt (vb div 4096) = Some e'" "bit e' 4" "a = PTE2PA e' + vb mod 4096" "vb < MAXVA"
    using assms(3) by (auto simp: uaddr_def split: if_splits option.splits)
  have "PTE2PA x mod 4096 = 0" for x by (simp add: PTE2PA_def mod_mod_cancel)
  then have "a mod 4096 = va mod 4096" "a mod 4096 = vb mod 4096"
    using e(3) e'(3) by (metis add_0 mod_add_left_eq mod_mod_trivial)+
  then have o: "va mod 4096 = vb mod 4096" by simp
  then have "PTE2PA e = PTE2PA e'" using e(3) e'(3) by simp
  moreover have "va div 4096 < 2 ^ 26" "vb div 4096 < 2 ^ 26" using e(4) e'(4) by (simp_all add: div_less_iff_less_mult)
  ultimately have "va div 4096 = vb div 4096" using assms(1) e e' unfolding user_inj_def by blast
  with o show ?thesis by (metis mult_div_mod_eq)
qed

text \<open>What the user sees of the bytes that were copied out; nothing else has changed.\<close>

lemma copyout_effect:
  assumes "tree_ok kend 2 m pt" "user_apart kend m pt" "user_inj m pt" "length bs = readable m pt va len"
    and m1: "m1 = put_all (\<lambda>i. the (uaddr m pt (va + i))) bs m"
  shows "\<forall>i < length bs. uaddr m pt (va + i) \<noteq> Some x \<Longrightarrow> m1 x = m x" "same_on (tables 2 m pt) m m1"
    "ubytes m1 pt va (length bs) = bs"
proof -
  let ?f = "\<lambda>i. the (uaddr m pt (va + i))"
  have f: "uaddr m pt (va + i) = Some (?f i)" if "i < length bs" for i using readable_nth [of i m pt va len] that assms(4) by auto
  show other: "m1 x = m x" if "\<forall>i < length bs. uaddr m pt (va + i) \<noteq> Some x" for x
    unfolding m1 using put_all_other [of bs ?f x m] that f by auto
  have "m1 x = m x" if "q \<in> tables 2 m pt" "in_page q x" for q x
  proof (rule other, intro allI impI notI)
    fix i assume i: "i < length bs" "uaddr m pt (va + i) = Some x"
    let ?p = "x - (va + i) mod 4096"
    have "?p \<in> upages m pt" "?p + (va + i) mod 4096 = x" using uaddr_page [OF i(2), of 0] by simp_all
    moreover from this(2) have "in_page ?p x" by (simp add: in_page_def)
    ultimately have "q = ?p" "?p \<notin> tables 2 m pt"
      using phys_pages_disjoint [of kend q ?p x] tree_ok_phys [OF assms(1)] that assms(2) by (auto simp: user_apart_def)
    then show False using that by simp
  qed
  then show st: "same_on (tables 2 m pt) m m1" by (simp add: same_on_def)
  have "inj_on ?f {..<length bs}"
  proof (rule inj_onI)
    fix i j assume ij: "i \<in> {..<length bs}" "j \<in> {..<length bs}" "?f i = ?f j"
    have "uaddr m pt (va + i) = Some (?f i)" using f ij(1) by (simp only: lessThan_iff)
    moreover have "uaddr m pt (va + j) = Some (?f i)" unfolding ij(3) using f ij(2) by (simp only: lessThan_iff)
    ultimately have "va + i = va + j" by (rule uaddr_inj [OF assms(3)])
    then show "i = j" by simp
  qed
  then show "ubytes m1 pt va (length bs) = bs"
    using put_all_nth [of ?f bs] view_same(1) [OF st] by (intro nth_equalityI) (auto simp: ubytes_def m1)
qed

section \<open>Strings\<close>

lemma copyinstr_page_eq:
  assumes "dst + n < 2 ^ 64" "p + n \<le> dst \<or> dst + n \<le> p" "n \<le> mx"
  shows "copyinstr_page n p dst mx m =
    (let bs = bytes m p n; zs = takeWhile (\<lambda>b. b \<noteq> 0) bs in
     if 0 \<in> set bs then (True, dst + length zs, mx - length zs, store dst (zs @ [0]) m)
     else (False, dst + n, mx - n, store dst bs m))"
  using assms
proof (induction n arbitrary: p dst mx m)
  case 0
  then show ?case by (simp add: bytes_def)
next
  case (Suc n)
  show ?case
  proof (cases "m p = 0")
    case True
    then show ?thesis by (simp add: bytes_Suc store_Cons)
  next
    case False
    have d: "add64 dst 1 = dst + 1" using Suc.prems(1) by (simp add: add64_def)
    have b: "bytes (m(dst := m p)) (p + 1) n = bytes m (p + 1) n"
      using Suc.prems(2) by (intro nth_equalityI) auto
    have "copyinstr_page (Suc n) p dst mx m = copyinstr_page n (p + 1) (dst + 1) (mx - 1) (m(dst := m p))"
      using False d by simp
    also have "\<dots> = (let bs = bytes (m(dst := m p)) (p + 1) n; zs = takeWhile (\<lambda>b. b \<noteq> 0) bs in
       if 0 \<in> set bs then (True, dst + 1 + length zs, mx - 1 - length zs, store (dst + 1) (zs @ [0]) (m(dst := m p)))
       else (False, dst + 1 + n, mx - 1 - n, store (dst + 1) bs (m(dst := m p))))"
      by (rule Suc.IH) (use Suc.prems in auto)
    finally show ?thesis unfolding b using False by (simp add: bytes_Suc store_Cons Let_def)
  qed
qed

definition str_result :: "u8 list \<Rightarrow> nat \<Rightarrow> kmem \<Rightarrow> int \<times> kmem" where
  "str_result bs dst s =
     (if 0 \<in> set bs then (0, s\<lparr>kmemory := store dst (takeWhile (\<lambda>b. b \<noteq> 0) bs @ [0]) (kmemory s)\<rparr>)
      else (-1, s\<lparr>kmemory := store dst bs (kmemory s)\<rparr>))"

lemma str_result_append:
  assumes "0 \<notin> set bs"
  shows "str_result ys (dst + length bs) (s\<lparr>kmemory := store dst bs (kmemory s)\<rparr>) = str_result (bs @ ys) dst s"
proof -
  have "takeWhile (\<lambda>b. b \<noteq> 0) (bs @ ys) = bs @ takeWhile (\<lambda>b. b \<noteq> 0) ys"
    by (rule takeWhile_append2) (use assms in auto)
  then show ?thesis using assms by (auto simp: str_result_def store_append)
qed

text \<open>A destination apart from the user's pages does not overlap the bytes of one page.\<close>

lemma chunk_apart:
  assumes "uaddr m pt va = Some a" "0 < mx" "apart (tables 2 m pt \<union> upages m pt) dst mx"
  shows "a + chunk va mx \<le> dst \<or> dst + chunk va mx \<le> a"
proof (rule ccontr)
  note n = chunk_props [where va = va, OF assms(2)]
  let ?q = "a - va mod 4096"
  have q: "?q \<in> upages m pt" "?q + va mod 4096 = a" using uaddr_page [OF assms(1), of 0] by simp_all
  assume "\<not> ?thesis"
  then obtain j where j: "j < chunk va mx" "dst \<le> a + j" "a + j < dst + chunk va mx"
    by (cases "dst \<le> a") (force intro: that [of 0], force intro: that [of "dst - a"])
  have "in_page ?q (a + j)" using q(2) n(3) [OF j(1)] by (simp add: in_page_def)
  moreover have "a + j < dst + mx" using j(3) n(2) by simp
  ultimately show False using assms(3) q(1) j(2) by (auto simp: apart_def)
qed


end
