(* ===== verification/Vm_Free.thy ===== *)
theory Vm_Free
  imports Vm_User
begin

text \<open>
  Giving a page table back (\<^verbatim>\<open>freewalk\<close> and \<^verbatim>\<open>uvmfree\<close> of \<^verbatim>\<open>kernel/vm.c\<close>): on a tree without
  leaves the recursion ends, and every table page goes back to the free list exactly once.
\<close>

section \<open>Tables without mappings\<close>

fun leafless :: "nat \<Rightarrow> mem \<Rightarrow> nat \<Rightarrow> bool" where
  "leafless 0 m pt \<longleftrightarrow> (\<forall>i < 512. child m pt i = None)"
| "leafless (Suc l) m pt \<longleftrightarrow> (\<forall>i c. i < 512 \<longrightarrow> child m pt i = Some c \<longrightarrow> leafless l m c)"

lemma leafless_same: "same_on (tables l m pt) m m' \<Longrightarrow> leafless l m' pt = leafless l m pt"
proof (induction l arbitrary: pt)
  case 0
  then show ?case using child_same by auto
next
  case (Suc l)
  have c: "child m' pt i = child m pt i" if "i < 512" for i using child_same [OF Suc.prems _ that] by simp
  have "leafless l m' d = leafless l m d" if "i < 512" "child m pt i = Some d" for i d
    by (rule Suc.IH) (rule same_child [OF Suc.prems that])
  with c show ?case by (auto simp del: tables.simps)
qed

text \<open>What is left to free when the entries below \<open>i\<close> are done.\<close>

definition rest :: "nat \<Rightarrow> mem \<Rightarrow> nat \<Rightarrow> nat \<Rightarrow> nat set" where
  "rest l m pt i = insert pt {q. \<exists>j c. i \<le> j \<and> j < 512 \<and> child m pt j = Some c \<and> q \<in> tables l m c}"

definition rest_ok :: "nat \<Rightarrow> nat \<Rightarrow> mem \<Rightarrow> nat \<Rightarrow> nat \<Rightarrow> bool" where
  "rest_ok kend l m pt i \<longleftrightarrow> phys_page kend pt \<and>
     (\<forall>j c. i \<le> j \<longrightarrow> j < 512 \<longrightarrow> child m pt j = Some c \<longrightarrow>
        tree_ok kend l m c \<and> leafless l m c \<and> pt \<notin> tables l m c \<and> PTE_FLAGS (rd64 m (pt + 8 * j)) = 1) \<and>
     (\<forall>j k c d. i \<le> j \<longrightarrow> j < 512 \<longrightarrow> i \<le> k \<longrightarrow> k < 512 \<longrightarrow> j \<noteq> k \<longrightarrow>
        child m pt j = Some c \<longrightarrow> child m pt k = Some d \<longrightarrow> tables l m c \<inter> tables l m d = {})"

lemma rest_start: "rest l m pt 0 = tables (Suc l) m pt"
  by (simp add: rest_def tables.simps)

lemma rest_ok_start: "tree_ok kend (Suc l) m pt \<Longrightarrow> leafless (Suc l) m pt \<Longrightarrow> rest_ok kend l m pt 0"
  unfolding rest_ok_def tree_ok.simps leafless.simps by blast

lemma rest_Suc:
  assumes "i < 512"
  shows "rest l m pt i = rest l m pt (Suc i) \<union> (case child m pt i of None \<Rightarrow> {} | Some c \<Rightarrow> tables l m c)"
proof -
  have "i \<le> j \<longleftrightarrow> j = i \<or> Suc i \<le> j" for j by auto
  then show ?thesis unfolding rest_def using assms by (cases "child m pt i") auto
qed

lemma rest_okD:
  "rest_ok kend l m pt i \<Longrightarrow> i \<le> j \<Longrightarrow> j < 512 \<Longrightarrow> child m pt j = Some c \<Longrightarrow>
     tree_ok kend l m c \<and> leafless l m c \<and> pt \<notin> tables l m c \<and> PTE_FLAGS (rd64 m (pt + 8 * j)) = 1"
  by (simp add: rest_ok_def)

lemma rest_ok_disjoint:
  "rest_ok kend l m pt i \<Longrightarrow> i \<le> j \<Longrightarrow> j < 512 \<Longrightarrow> i \<le> k \<Longrightarrow> k < 512 \<Longrightarrow> j \<noteq> k \<Longrightarrow>
     child m pt j = Some c \<Longrightarrow> child m pt k = Some d \<Longrightarrow> tables l m c \<inter> tables l m d = {}"
  unfolding rest_ok_def by blast

lemma rest_ok_Suc: "rest_ok kend l m pt i \<Longrightarrow> rest_ok kend l m pt (Suc i)"
proof -
  assume a: "rest_ok kend l m pt i"
  have "i \<le> j" if "Suc i \<le> j" for j using that by simp
  note d = rest_okD [OF a this] and e = rest_ok_disjoint [OF a this _ this]
  show ?thesis unfolding rest_ok_def
  proof (intro conjI allI impI)
    show "phys_page kend pt" using a by (simp add: rest_ok_def)
  qed (use d e in \<open>blast+\<close>)
qed

lemma table_entry: "PTE_FLAGS e = 1 \<Longrightarrow> e AND (PTE_R OR PTE_W OR PTE_X) = 0"
proof -
  assume a: "PTE_FLAGS e = 1"
  have "e AND take_bit 10 k = take_bit 10 e AND k" for k by (rule bit_eqI) (auto simp: bit_and_iff bit_take_bit_iff)
  from this [of 14] have "e AND take_bit 10 14 = take_bit 10 e AND 14" .
  moreover have "take_bit 10 (14 :: nat) = 14" "take_bit 10 e = 1"
    using a by (simp_all add: take_bit_eq_mod PTE_FLAGS_def)
  ultimately have "e AND 14 = 0" by simp
  then show ?thesis by simp
qed

section \<open>Freeing a table\<close>

lemma freewalk_skip:
  "i < 512 \<Longrightarrow> child (kmemory s) pt i = None \<Longrightarrow> freewalk_from kend pt i s = freewalk_from kend pt (Suc i) s"
  by (subst freewalk_from.simps) (auto simp: child_def Let_def split: if_splits)

lemma freewalk_end: "512 \<le> i \<Longrightarrow> freewalk_from kend pt i s = Some (kfree kend pt s)"
  by (subst freewalk_from.simps) simp

lemma freewalk_descend:
  assumes "i < 512" "child (kmemory s) pt i = Some c" "PTE_FLAGS (rd64 (kmemory s) (pt + 8 * i)) = 1"
    and "freewalk_from kend c 0 s = Some (Ok s1)"
  shows "freewalk_from kend pt i s = freewalk_from kend pt (Suc i) (wr64 (pt + 8 * i) 0 s1)"
proof -
  have "bit (rd64 (kmemory s) (pt + 8 * i)) 0" "PTE2PA (rd64 (kmemory s) (pt + 8 * i)) = c"
    using assms(2) by (auto simp: child_def Let_def split: if_splits)
  then show ?thesis using assms(1,4) table_entry [OF assms(3)] by (subst freewalk_from.simps) (simp add: Let_def)
qed

text \<open>The tables above \<open>i\<close> when the one at \<open>i\<close> has been freed and its entry cleared.\<close>

lemma rest_step:
  assumes ok: "rest_ok kend l m pt i" and i: "i < 512" "child m pt i = Some c"
    and f: "frame (tables l m c) m m1" and m2: "m2 = store (pt + 8 * i) (nat_le 8 0) m1"
  shows "rest_ok kend l m2 pt (Suc i)" "rest l m2 pt (Suc i) \<union> tables l m c = rest l m pt i"
    "rest l m2 pt (Suc i) \<inter> tables l m c = {}" "frame (insert pt (tables l m c)) m m2"
proof -
  have c: "tree_ok kend l m c" "pt \<notin> tables l m c" and pt: "phys_page kend pt"
    using rest_okD [OF ok order_refl i] ok by (simp_all add: rest_ok_def)
  have f2: "frame {pt} m1 m2" unfolding m2 by (rule frame_store_entry [OF i(1)])
  show fr: "frame (insert pt (tables l m c)) m m2" using frame_trans [OF f f2] by simp
  have "same_on {pt} m m1" by (rule frame_same [OF f, of _ kend]) (use c pt tree_ok_phys [OF c(1)] in auto)
  then have rd: "rd64 m2 (pt + 8 * j) = rd64 m (pt + 8 * j)" if "j < 512" "j \<noteq> i" for j
    unfolding m2 using rd64_store_other [OF entry_apart, of j i pt 0 m1] rd64_same [of "{pt}" m m1 pt j] that by simp
  then have ch: "child m2 pt j = child m pt j" if "j < 512" "j \<noteq> i" for j using that by (simp add: child_def)
  have dis: "tables l m d \<inter> tables l m c = {}" "tree_ok kend l m d" "leafless l m d" "pt \<notin> tables l m d"
    if "Suc i \<le> j" "j < 512" "child m pt j = Some d" for j d
    using rest_ok_disjoint [OF ok _ that(2) order_refl i(1) _ that(3) i(2)] rest_okD [OF ok _ that(2,3)] that(1) by simp_all
  have same: "same_on (tables l m d) m m2" if "Suc i \<le> j" "j < 512" "child m pt j = Some d" for j d
    by (rule frame_same [OF fr, of _ kend])
      (use dis [OF that] pt tree_ok_phys [OF c(1)] tree_ok_phys [OF dis(2) [OF that]] in auto)
  have td: "tables l m2 d = tables l m d" "tree_ok kend l m2 d" "leafless l m2 d"
    if "Suc i \<le> j" "j < 512" "child m pt j = Some d" for j d
    using tables_same [OF same [OF that]] tree_ok_same [OF same [OF that]] leafless_same [OF same [OF that]] dis [OF that] by simp_all
  have r2: "rest l m2 pt (Suc i) = rest l m pt (Suc i)" unfolding rest_def using ch td(1) by (auto simp: Suc_le_eq)
  show "rest l m2 pt (Suc i) \<inter> tables l m c = {}"
    unfolding r2 unfolding rest_def using c(2) dis(1) by fastforce
  show "rest l m2 pt (Suc i) \<union> tables l m c = rest l m pt i"
    unfolding r2 rest_Suc [OF i(1)] using i(2) by simp
  show "rest_ok kend l m2 pt (Suc i)"
    unfolding rest_ok_def
  proof (intro conjI allI impI)
    show "phys_page kend pt" by (rule pt)
  next
    fix j d assume j: "Suc i \<le> j" "j < 512" "child m2 pt j = Some d"
    then have o: "child m pt j = Some d" using ch by simp
    show "tree_ok kend l m2 d" "leafless l m2 d" using td [OF j(1,2) o] by simp_all
    show "pt \<notin> tables l m2 d" using td(1) [OF j(1,2) o] dis(4) [OF j(1,2) o] by simp
    show "PTE_FLAGS (rd64 m2 (pt + 8 * j)) = 1" using rest_okD [OF ok _ j(2) o] j(1,2) rd by simp
  next
    fix j k d e assume j: "Suc i \<le> j" "j < 512" "Suc i \<le> k" "k < 512" "j \<noteq> k" "child m2 pt j = Some d" "child m2 pt k = Some e"
    then have o: "child m pt j = Some d" "child m pt k = Some e" using ch by simp_all
    then have "tables l m d \<inter> tables l m e = {}" using rest_ok_disjoint [OF ok _ j(2) _ j(4,5)] j(1,3) by simp
    then show "tables l m2 d \<inter> tables l m2 e = {}" using td(1) [OF j(1,2) o(1)] td(1) [OF j(3,4) o(2)] by simp
  qed
qed

definition freed :: "nat \<Rightarrow> kmem \<Rightarrow> nat list \<Rightarrow> nat set \<Rightarrow> kmem res option \<Rightarrow> bool" where
  "freed kend s free P r \<longleftrightarrow> (\<exists>s' ps. r = Some (Ok s') \<and> kmem_inv kend s' (ps @ free) \<and> set ps = P \<and>
     frame P (kmemory s) (kmemory s'))"

lemma freed_root:
  assumes "kmem_inv kend s free" "phys_page kend pt" "pt \<notin> set free"
  shows "freed kend s free {pt} (Some (kfree kend pt s))"
proof -
  obtain s' where "kfree kend pt s = Ok s'" "kmem_inv kend s' ([pt] @ free)" "frame {pt} (kmemory s) (kmemory s')"
    using kfree_page [OF assms] by (auto simp: frame_def)
  moreover have "set [pt] = {pt}" by simp
  ultimately show ?thesis unfolding freed_def by blast
qed

lemma freewalk_entries:
  assumes IH: "\<And>c s free. tree_ok kend l (kmemory s) c \<Longrightarrow> leafless l (kmemory s) c \<Longrightarrow> kmem_inv kend s free \<Longrightarrow>
      tables l (kmemory s) c \<inter> set free = {} \<Longrightarrow> freed kend s free (tables l (kmemory s) c) (freewalk_from kend c 0 s)"
  shows "i \<le> 512 \<Longrightarrow> rest_ok kend l (kmemory s) pt i \<Longrightarrow> kmem_inv kend s free \<Longrightarrow> rest l (kmemory s) pt i \<inter> set free = {} \<Longrightarrow>
    freed kend s free (rest l (kmemory s) pt i) (freewalk_from kend pt i s)"
proof (induction "512 - i" arbitrary: i s free)
  case 0
  then have "i = 512" by simp
  then have "rest l (kmemory s) pt i = {pt}" by (auto simp: rest_def)
  then show ?case
    using freed_root [OF 0(4), of pt] 0(3,5) \<open>i = 512\<close> freewalk_end [of i] by (simp add: rest_ok_def)
next
  case (Suc d)
  then have i: "i < 512" "d = 512 - Suc i" "Suc i \<le> 512" by auto
  show ?case
  proof (cases "child (kmemory s) pt i")
    case None
    have "rest l (kmemory s) pt i = rest l (kmemory s) pt (Suc i)"
      unfolding rest_Suc [OF i(1)] using None by simp
    moreover have "rest_ok kend l (kmemory s) pt (Suc i)" by (rule rest_ok_Suc [OF Suc.prems(2)])
    ultimately show ?thesis using Suc.hyps(1) [OF i(2,3)] Suc.prems freewalk_skip [OF i(1) None] by simp
  next
    case (Some c)
    have ok: "tree_ok kend l (kmemory s) c" "leafless l (kmemory s) c" "PTE_FLAGS (rd64 (kmemory s) (pt + 8 * i)) = 1"
      using rest_okD [OF Suc.prems(2) order_refl i(1) Some] by simp_all
    have "tables l (kmemory s) c \<subseteq> rest l (kmemory s) pt i" using Some i(1) by (auto simp: rest_def)
    then obtain s1 ps1 where s1: "freewalk_from kend c 0 s = Some (Ok s1)" "kmem_inv kend s1 (ps1 @ free)"
        "set ps1 = tables l (kmemory s) c" "frame (tables l (kmemory s) c) (kmemory s) (kmemory s1)"
      using IH [OF ok(1,2) Suc.prems(3)] Suc.prems(4) unfolding freed_def by blast
    define s2 where "s2 = wr64 (pt + 8 * i) 0 s1"
    have m2: "kmemory s2 = store (pt + 8 * i) (nat_le 8 0) (kmemory s1)" by (simp add: s2_def wr64_def)
    note st = rest_step [OF Suc.prems(2) i(1) Some s1(4) m2]
    have pt: "pt \<in> rest l (kmemory s2) pt (Suc i)" by (simp add: rest_def)
    have dis: "rest l (kmemory s2) pt (Suc i) \<inter> set (ps1 @ free) = {}"
      using st(2,3) s1(3) Suc.prems(4) by auto
    have "kmem_inv kend s2 (ps1 @ free)"
      using kmem_inv_update [OF s1(2) frame_store_entry [OF i(1)], of pt 0] pt dis Suc.prems(2)
      by (auto simp: s2_def wr64_def rest_ok_def)
    then obtain s' ps where s': "freewalk_from kend pt (Suc i) s2 = Some (Ok s')" "kmem_inv kend s' (ps @ ps1 @ free)"
        "set ps = rest l (kmemory s2) pt (Suc i)" "frame (rest l (kmemory s2) pt (Suc i)) (kmemory s2) (kmemory s')"
      using Suc.hyps(1) [OF i(2,3) st(1) _ dis] unfolding freed_def by auto
    have "set (ps @ ps1) = rest l (kmemory s) pt i" using s'(3) s1(3) st(2) by auto
    moreover have "frame (rest l (kmemory s) pt i) (kmemory s) (kmemory s')"
      by (rule frame_mono [OF frame_trans [OF st(4) s'(4)]]) (use st(2) pt in auto)
    ultimately show ?thesis
      using s'(1,2) freewalk_descend [OF i(1) Some ok(3) s1(1)]
      unfolding freed_def s2_def [symmetric] by (intro exI [of _ s'] exI [of _ "ps @ ps1"]) simp
  qed
qed

lemma freewalk_tables:
  "tree_ok kend l (kmemory s) pt \<Longrightarrow> leafless l (kmemory s) pt \<Longrightarrow> kmem_inv kend s free \<Longrightarrow>
   tables l (kmemory s) pt \<inter> set free = {} \<Longrightarrow> freed kend s free (tables l (kmemory s) pt) (freewalk_from kend pt 0 s)"
proof (induction l arbitrary: pt s free)
  case 0
  have "freewalk_from kend pt (512 - k) s = Some (kfree kend pt s)" if "k \<le> 512" for k
    using that
  proof (induction k)
    case (Suc k)
    then have "Suc (512 - Suc k) = 512 - k" by simp
    then show ?case using freewalk_skip [of "512 - Suc k" s pt kend] 0(2) Suc by simp
  qed (simp add: freewalk_end)
  from this [of 512] show ?case
    using freed_root [OF 0(3), of pt] 0(1,4) by simp
next
  case (Suc l)
  have "freed kend s free (rest l (kmemory s) pt 0) (freewalk_from kend pt 0 s)"
    by (rule freewalk_entries [OF Suc.IH]) (use Suc.prems rest_ok_start in \<open>auto simp: rest_start\<close>)
  then show ?case by (simp add: rest_start)
qed

section \<open>Freeing an address space\<close>

lemma PX_digits:
  assumes "i < 512" "j < 512" "k < 512"
  shows "PX 0 (4096 * (i + 512 * j + 262144 * k)) = i" "PX 1 (4096 * (i + 512 * j + 262144 * k)) = j"
    "PX 2 (4096 * (i + 512 * j + 262144 * k)) = k"
proof -
  let ?x = "i + 512 * j + 262144 * k"
  have px: "PX l (4096 * x) = x div 2 ^ (9 * l) mod 512" for l x
    by (simp add: PX_def power_add div_mult2_eq)
  have b: "?x div 512 = j + 512 * k" using assms(1) by simp
  have c: "(j + 512 * k) div 512 = k" using assms(2) by simp
  have d: "?x div 2 ^ (9 * 2) = ?x div 512 div 512" unfolding div_mult2_eq [symmetric] by simp
  have "?x = i + 512 * (j + 512 * k)" by simp
  then have "?x mod 512 = i" using assms(1) by (simp only: mod_mult_self2) simp
  then show "PX 0 (4096 * ?x) = i" unfolding px by simp
  have "?x div 2 ^ (9 * 1) = j + 512 * k" using b by simp
  then show "PX 1 (4096 * ?x) = j" unfolding px using assms(2) by simp
  show "PX 2 (4096 * ?x) = k" unfolding px d b c using assms(3) by simp
qed

lemma leafless_vmap:
  assumes "\<forall>n < 2 ^ 27. vmap m pt n = None"
  shows "leafless 2 m pt"
proof -
  have "child m c1 i = None"
    if i: "i < 512" and j: "j < 512" "child m c2 j = Some c1" and k: "k < 512" "child m pt k = Some c2" for i j k c1 c2
  proof -
    let ?n = "i + 512 * j + 262144 * k"
    have "slot 2 m pt (4096 * ?n) = Some (c1 + 8 * i)"
      using PX_digits [OF i j(1) k(1)] j(2) k(2) by (simp add: numeral_2_eq_2)
    moreover have "vmap m pt ?n = None" using assms i j(1) k(1) by simp
    ultimately show ?thesis by (auto simp: vmap_def leafl_def child_def split: if_splits)
  qed
  then show ?thesis unfolding numeral_2_eq_2 leafless.simps by blast
qed

end
