(* ===== verification/Proc_Mem.thy ===== *)
theory Proc_Mem
  imports Vm_Free
begin

text \<open>
  The page table of a process (\<^verbatim>\<open>proc_pagetable\<close> and \<^verbatim>\<open>proc_freepagetable\<close> of \<^verbatim>\<open>kernel/proc.c\<close>):
  user pages from address zero up to the size of the process, the page of its trap frame and
  the trampoline at the top. \<open>aspace\<close> is that layout; every operation on it keeps it, gives
  back what it does not need, and touches only pages of its own and free pages.
\<close>

section \<open>Model\<close>

abbreviation (input) TRAPFRAME :: nat where "TRAPFRAME \<equiv> TRAMPOLINE - PGSIZE"

definition proc_pagetable :: "nat \<Rightarrow> nat \<Rightarrow> nat \<Rightarrow> kmem \<Rightarrow> (nat \<times> kmem) res option" where
  "proc_pagetable kend trampoline trapframe s =
     (let (pagetable, s) = uvmcreate s
      in if pagetable = 0 then Some (Ok (0, s))
         else bind_ro (Some (mappages pagetable TRAMPOLINE PGSIZE trampoline (PTE_R OR PTE_X) s)) (\<lambda>(r, s).
           if r < 0 then bind_ro (uvmfree kend pagetable 0 s) (\<lambda>s. Some (Ok (0, s)))
           else bind_ro (Some (mappages pagetable TRAPFRAME PGSIZE trapframe (PTE_R OR PTE_W) s)) (\<lambda>(r, s).
             if r < 0 then
               bind_ro (Some (uvmunmap kend pagetable TRAMPOLINE 1 False s)) (\<lambda>s.
               bind_ro (uvmfree kend pagetable 0 s) (\<lambda>s. Some (Ok (0, s))))
             else Some (Ok (pagetable, s)))))"

definition proc_freepagetable :: "nat \<Rightarrow> nat \<Rightarrow> nat \<Rightarrow> kmem \<Rightarrow> kmem res option" where
  "proc_freepagetable kend pagetable sz s =
     bind_ro (Some (uvmunmap kend pagetable TRAMPOLINE 1 False s)) (\<lambda>s.
     bind_ro (Some (uvmunmap kend pagetable TRAPFRAME 1 False s)) (\<lambda>s.
       uvmfree kend pagetable sz s))"

section \<open>Address spaces\<close>

definition aspace :: "nat \<Rightarrow> nat \<Rightarrow> mem \<Rightarrow> nat \<Rightarrow> nat \<Rightarrow> nat \<Rightarrow> bool" where
  "aspace kend trampoline m pt sz tf \<longleftrightarrow> tree_ok kend 2 m pt \<and> sz \<le> TRAPFRAME \<and>
     (\<forall>n < npages sz. \<exists>e. vmap m pt n = Some e \<and> PTE_FLAGS e \<noteq> 1 \<and> phys_page kend (PTE2PA e)) \<and>
     inj_on (page_at m pt) {..<npages sz} \<and> page_at m pt ` {..<npages sz} \<inter> tables 2 m pt = {} \<and>
     vmap m pt (2 ^ 26 - 1) = Some (PA2PTE trampoline OR (PTE_R OR PTE_X) OR 1) \<and>
     vmap m pt (2 ^ 26 - 2) = Some (PA2PTE tf OR (PTE_R OR PTE_W) OR 1) \<and>
     (\<forall>n < 2 ^ 27. npages sz \<le> n \<and> n \<noteq> 2 ^ 26 - 1 \<and> n \<noteq> 2 ^ 26 - 2 \<longrightarrow> vmap m pt n = None)"

text \<open>The pages of an address space: its tables and its user pages.\<close>

definition footprint :: "mem \<Rightarrow> nat \<Rightarrow> nat \<Rightarrow> nat set" where
  "footprint m pt sz = tables 2 m pt \<union> page_at m pt ` {..<npages sz}"

lemma npages_aspace: "sz \<le> TRAPFRAME \<Longrightarrow> npages sz \<le> 2 ^ 26 - 2"
  using div_le_mono [of "sz + 4095" "TRAPFRAME + 4095" 4096] by (simp add: npages_def)

lemma footprint_phys: "aspace kend t m pt sz tf \<Longrightarrow> q \<in> footprint m pt sz \<Longrightarrow> phys_page kend q"
  by (fastforce simp: aspace_def footprint_def page_at_def dest: tree_ok_phys)

lemma aspace_owns:
  assumes "aspace kend t (kmemory s) pt sz tf" "footprint (kmemory s) pt sz \<inter> set free = {}"
  shows "owns kend s pt free {0..<npages sz}"
  using assms unfolding aspace_def footprint_def owns_def atLeast0LessThan by auto

lemma aspace_inv:
  assumes "aspace kend t (kmemory s) pt sz tf" "footprint (kmemory s) pt sz \<inter> set free = {}" "kmem_inv kend s free"
  shows "vm_inv kend s pt free"
  using assms unfolding aspace_def footprint_def vm_inv_def by auto

lemma aspace_same:
  assumes "same_on (tables 2 m pt) m m'"
  shows "aspace kend t m' pt sz tf = aspace kend t m pt sz tf" "footprint m' pt sz = footprint m pt sz"
proof -
  have v: "vmap m' pt = vmap m pt" using leafl_same [OF assms] by (simp add: vmap_def fun_eq_iff)
  then have p: "page_at m' pt = page_at m pt" by (simp add: page_at_def fun_eq_iff)
  show "aspace kend t m' pt sz tf = aspace kend t m pt sz tf"
    unfolding aspace_def v p tables_same [OF assms] tree_ok_same [OF assms] ..
  show "footprint m' pt sz = footprint m pt sz" unfolding footprint_def p tables_same [OF assms] ..
qed

section \<open>Unmapping without freeing\<close>

lemma uvmunmap_keep:
  assumes inv: "vm_inv kend s pt free" and x: "x < 2 ^ 26" and e: "vmap (kmemory s) pt x = Some e" "PTE_FLAGS e \<noteq> 1"
  obtains s' where "uvmunmap kend pt (4096 * x) 1 False s = Ok s'" "vm_inv kend s' pt free"
    "tables 2 (kmemory s') pt = tables 2 (kmemory s) pt" "frame (tables 2 (kmemory s) pt) (kmemory s) (kmemory s')"
    "\<forall>i < 2 ^ 27. vmap (kmemory s') pt i = (if i = x then None else vmap (kmemory s) pt i)"
proof -
  have ok: "tree_ok kend 2 (kmemory s) pt" using inv by (simp add: vm_inv_def)
  obtain p where p: "walk pt (4096 * x) False s = Ok (p, s)" "p \<noteq> 0" "slot 2 (kmemory s) pt (4096 * x) = Some p"
    "rd64 (kmemory s) p = e" "bit e 0" by (rule walk_mapped [OF ok e(1) x])
  have va: "4096 * x < MAXVA" using x by simp
  note w = write_entry [OF inv p(3) _ va, of 0]
  note ev = w(1) [unfolded evolves_def, simplified]
  have "add64 (4096 * x) 4096 = 4096 * (x + 1)" using x by (simp add: add64_def)
  moreover have "uvmunmap kend pt (4096 * x) 1 False s = uvmunmap_loop kend pt (4096 * x) (4096 * (x + 1)) False s"
    using x by (intro uvmunmap_pages) simp
  ultimately have "uvmunmap kend pt (4096 * x) 1 False s = Ok (wr64 p 0 s)"
    using p e(2) by (simp add: uvmunmap_loop.simps)
  then show ?thesis by (rule that) (use ev w(2) in auto)
qed

section \<open>Freeing\<close>

lemma freed_trans:
  assumes "kmem_inv kend s1 (ps1 @ free)" "set ps1 = P1" "frame (P1 \<union> Q) (kmemory s) (kmemory s1)" "Q \<subseteq> P2"
    and "freed kend s1 (ps1 @ free) P2 r"
  shows "freed kend s free (P2 \<union> P1) r"
proof -
  obtain s' ps where s': "r = Some (Ok s')" "kmem_inv kend s' (ps @ ps1 @ free)" "set ps = P2" "frame P2 (kmemory s1) (kmemory s')"
    using assms(5) by (auto simp: freed_def)
  have "frame (P2 \<union> P1) (kmemory s) (kmemory s')"
    by (rule frame_mono [OF frame_trans [OF assms(3) s'(4)]]) (use assms(4) in auto)
  then show ?thesis unfolding freed_def using s' assms(2) by (intro exI [of _ s'] exI [of _ "ps @ ps1"]) auto
qed

lemma freewalk_unmapped:
  assumes inv: "vm_inv kend s pt free" and v: "\<forall>n < 2 ^ 27. vmap (kmemory s) pt n = None"
  shows "freed kend s free (tables 2 (kmemory s) pt) (freewalk kend pt s)"
  unfolding freewalk_def by (rule freewalk_tables [OF _ leafless_vmap [OF v]]) (use inv in \<open>auto simp: vm_inv_def\<close>)

lemma uvmfree_space:
  assumes inv: "vm_inv kend s pt free" and own: "owns kend s pt free {0..<npages sz}" and sz: "sz \<le> MAXVA"
    and v: "\<forall>n < 2 ^ 27. npages sz \<le> n \<longrightarrow> vmap (kmemory s) pt n = None"
  shows "freed kend s free (tables 2 (kmemory s) pt \<union> page_at (kmemory s) pt ` {..<npages sz}) (uvmfree kend pt sz s)"
proof (cases "sz = 0")
  case True
  then have "npages sz = 0" by (simp add: npages_def)
  then show ?thesis using freewalk_unmapped [OF inv] v True by (simp add: uvmfree_def)
next
  case False
  let ?n = "npages sz" and ?pg = "page_at (kmemory s) pt"
  have n: "?n \<le> 2 ^ 26" by (rule npages_bound [OF sz])
  have "pgroundup64 sz div 4096 = ?n" unfolding pgroundup64_def PGROUNDUP_npages using n by simp
  moreover have "uvmunmap kend pt (4096 * 0) ?n True s = uvmunmap_loop kend pt (4096 * 0) (4096 * (0 + ?n)) True s"
    by (rule uvmunmap_pages) (use n in simp)
  moreover obtain s1 where s1: "uvmunmap_loop kend pt (4096 * 0) (4096 * (0 + ?n)) True s = Ok s1"
    "vm_inv kend s1 pt (rev (map ?pg [0..<0 + ?n]) @ free)" "tables 2 (kmemory s1) pt = tables 2 (kmemory s) pt"
    "frame (?pg ` {0..<0 + ?n} \<union> tables 2 (kmemory s) pt) (kmemory s) (kmemory s1)"
    "\<forall>i < 2 ^ 27. vmap (kmemory s1) pt i = (if 0 \<le> i \<and> i < 0 + ?n then None else vmap (kmemory s) pt i)"
    using uvmunmap_loop_frees [of kend s pt free 0 ?n] inv own n by (simp only: add_0_left) blast
  ultimately have e: "uvmfree kend pt sz s = freewalk kend pt s1" using False by (simp add: uvmfree_def)
  have "freed kend s1 (rev (map ?pg [0..<?n]) @ free) (tables 2 (kmemory s1) pt) (freewalk kend pt s1)"
    by (rule freewalk_unmapped) (use s1(2,5) v in auto)
  then have "freed kend s free (tables 2 (kmemory s) pt \<union> ?pg ` {..<?n}) (freewalk kend pt s1)"
    by (intro freed_trans [where Q = "tables 2 (kmemory s) pt"]) (use s1 in \<open>auto simp: vm_inv_def atLeast0LessThan\<close>)
  then show ?thesis unfolding e .
qed

lemma freed_mono_frame:
  assumes "freed kend s1 free P r" "frame P (kmemory s) (kmemory s1)"
  shows "freed kend s free P r"
  using assms frame_trans unfolding freed_def by fastforce

lemma page_numbers: "TRAMPOLINE = 4096 * (2 ^ 26 - 1)" "TRAPFRAME = 4096 * (2 ^ 26 - 2)"
  by simp_all

lemma entry_flags_ne:
  assumes "pa mod 4096 = 0" "pa < 2 ^ 56"
  shows "PTE_FLAGS (PA2PTE pa OR (PTE_R OR PTE_X) OR 1) \<noteq> 1" "PTE_FLAGS (PA2PTE pa OR (PTE_R OR PTE_W) OR 1) \<noteq> 1"
  using mapped_entry(4) [OF assms, of "PTE_R OR PTE_X"] mapped_entry(4) [OF assms, of "PTE_R OR PTE_W"] by simp_all

lemma proc_freepagetable_frees:
  assumes sp: "aspace kend t (kmemory s) pt sz tf" and free: "kmem_inv kend s free" "footprint (kmemory s) pt sz \<inter> set free = {}"
    and t: "t mod 4096 = 0" "t < 2 ^ 56" "phys_page kend tf"
  shows "freed kend s free (footprint (kmemory s) pt sz) (proc_freepagetable kend pt sz s)"
proof -
  note a = sp [unfolded aspace_def]
  have n: "npages sz \<le> 2 ^ 26 - 2" using a by (intro npages_aspace) simp
  note inv = aspace_inv [OF sp free(2,1)]
  have tf: "tf mod 4096 = 0" "tf < 2 ^ 56" using phys_page_bounds [OF t(3)] by simp_all
  obtain s1 where s1: "uvmunmap kend pt (4096 * (2 ^ 26 - 1)) 1 False s = Ok s1" "vm_inv kend s1 pt free"
    "tables 2 (kmemory s1) pt = tables 2 (kmemory s) pt" "frame (tables 2 (kmemory s) pt) (kmemory s) (kmemory s1)"
    "\<forall>i < 2 ^ 27. vmap (kmemory s1) pt i = (if i = 2 ^ 26 - 1 then None else vmap (kmemory s) pt i)"
    using uvmunmap_keep [OF inv, of "2 ^ 26 - 1"] a entry_flags_ne(1) [OF t(1,2)] by auto
  obtain s2 where s2: "uvmunmap kend pt (4096 * (2 ^ 26 - 2)) 1 False s1 = Ok s2" "vm_inv kend s2 pt free"
    "tables 2 (kmemory s2) pt = tables 2 (kmemory s1) pt" "frame (tables 2 (kmemory s1) pt) (kmemory s1) (kmemory s2)"
    "\<forall>i < 2 ^ 27. vmap (kmemory s2) pt i = (if i = 2 ^ 26 - 2 then None else vmap (kmemory s1) pt i)"
    using uvmunmap_keep [OF s1(2), of "2 ^ 26 - 2"] s1(5) a entry_flags_ne(2) [OF tf] by auto
  have v: "vmap (kmemory s2) pt i = vmap (kmemory s) pt i" if "i < npages sz" for i
    using that n s1(5) s2(5) by simp
  then have pg: "page_at (kmemory s2) pt i = page_at (kmemory s) pt i" if "i < npages sz" for i
    using that by (simp add: page_at_def)
  have img: "page_at (kmemory s2) pt ` {..<npages sz} = page_at (kmemory s) pt ` {..<npages sz}"
    by (rule image_cong) (use pg in auto)
  have "inj_on (page_at (kmemory s2) pt) {..<npages sz} = inj_on (page_at (kmemory s) pt) {..<npages sz}"
    by (rule inj_on_cong) (use pg in auto)
  then have own: "owns kend s2 pt free {0..<npages sz}"
    unfolding owns_def atLeast0LessThan img using a v s1(3) s2(3) free(2) by (auto simp: footprint_def)
  have "freed kend s2 free (tables 2 (kmemory s2) pt \<union> page_at (kmemory s2) pt ` {..<npages sz}) (uvmfree kend pt sz s2)"
    by (rule uvmfree_space [OF s2(2) own]) (use a s1(5) s2(5) in auto)
  then have "freed kend s2 free (footprint (kmemory s) pt sz) (uvmfree kend pt sz s2)"
    unfolding footprint_def img s2(3) s1(3) .
  moreover have "frame (footprint (kmemory s) pt sz) (kmemory s) (kmemory s2)"
    by (rule frame_mono [OF frame_trans [OF s1(4) s2(4)]]) (use s1(3) in \<open>auto simp: footprint_def\<close>)
  ultimately have "freed kend s free (footprint (kmemory s) pt sz) (uvmfree kend pt sz s2)" by (rule freed_mono_frame)
  then show ?thesis unfolding proc_freepagetable_def page_numbers using s1(1) s2(1) by simp
qed

section \<open>Making\<close>

lemma uvmcreate_makes:
  assumes inv: "kmem_inv kend s (q # free)"
  obtains s' where "uvmcreate s = (q, s')" "q \<noteq> 0" "vm_inv kend s' q free" "tables 2 (kmemory s') q = {q}"
    "\<forall>n. vmap (kmemory s') q n = None" "frame {q} (kmemory s) (kmemory s')"
proof -
  obtain s1 where s1: "kalloc s = (q, s1)" "kmem_inv kend s1 free" "frame {q} (kmemory s) (kmemory s1)"
    using kalloc_page [OF inv] by (auto simp: frame_def)
  have q: "phys_page kend q" "q \<notin> set free" using free_pages [OF inv] by auto
  let ?s = "zero_page q s1"
  have f0: "frame {q} (kmemory s1) (kmemory ?s)" by (simp add: zero_page_def frame_memset)
  have k: "kmem_inv kend ?s free" using kmem_inv_update [OF s1(2) f0] q by (simp add: zero_page_def)
  have z: "zeroed q (kmemory ?s)" by (simp add: zero_page_def zeroed_memset)
  note zt = zeroed_tree [OF z]
  show thesis
  proof (rule that)
    show "uvmcreate s = (q, ?s)" using s1(1) phys_page_bounds [OF q(1)] by (simp add: uvmcreate_def)
    show "frame {q} (kmemory s) (kmemory ?s)" using frame_trans [OF s1(3) f0] by simp
  qed (use k q zt phys_page_bounds [OF q(1)] in \<open>auto simp: vm_inv_def vmap_def\<close>)
qed

text \<open>A failed mapping: the tables made so far are freed again.\<close>

lemma unmapped_freed:
  assumes inv: "vm_inv kend s pt free" and v: "\<forall>n < 2 ^ 27. vmap (kmemory s) pt n = None"
    and fr: "frame F m0 (kmemory s)" and tot: "tables 2 (kmemory s) pt \<union> set free = F"
  shows "\<exists>s' free'. uvmfree kend pt 0 s = Some (Ok s') \<and> kmem_inv kend s' free' \<and> set free' = F \<and> frame F m0 (kmemory s')"
proof -
  have "freed kend s free (tables 2 (kmemory s) pt) (uvmfree kend pt 0 s)"
    using freewalk_unmapped [OF inv v] by (simp add: uvmfree_def)
  then obtain s' ps where s': "uvmfree kend pt 0 s = Some (Ok s')" "kmem_inv kend s' (ps @ free)" "set ps = tables 2 (kmemory s) pt"
      "frame (tables 2 (kmemory s) pt) (kmemory s) (kmemory s')" by (auto simp: freed_def)
  have "frame F m0 (kmemory s')" by (rule frame_mono [OF frame_trans [OF fr s'(4)]]) (use tot in auto)
  then show ?thesis using s' tot by (intro exI [of _ s'] exI [of _ "ps @ free"]) auto
qed

lemma evolves_total:
  assumes "evolves kend pt s free s' free'"
  shows "tables 2 (kmemory s') pt \<union> set free' = tables 2 (kmemory s) pt \<union> set free"
    "frame (tables 2 (kmemory s) pt \<union> set free) (kmemory s) (kmemory s')" "vm_inv kend s' pt free'"
    "tables 2 (kmemory s) pt \<subseteq> tables 2 (kmemory s') pt"
proof -
  obtain used where "free = used @ free'" "tables 2 (kmemory s') pt = tables 2 (kmemory s) pt \<union> set used"
    using assms by (auto simp: evolves_def)
  then show tot: "tables 2 (kmemory s') pt \<union> set free' = tables 2 (kmemory s) pt \<union> set free"
    and "tables 2 (kmemory s) pt \<subseteq> tables 2 (kmemory s') pt" by auto
  have f: "frame (tables 2 (kmemory s') pt) (kmemory s) (kmemory s')" using assms by (simp add: evolves_def)
  show "frame (tables 2 (kmemory s) pt \<union> set free) (kmemory s) (kmemory s')" by (rule frame_mono [OF f]) (use tot in blast)
  show "vm_inv kend s' pt free'" using assms by (simp add: evolves_def)
qed

lemma proc_pagetable_makes:
  assumes inv: "kmem_inv kend s free" and t: "t mod 4096 = 0" "t < 2 ^ 56" and tf: "phys_page kend tf"
  shows "\<exists>pt s' free'. proc_pagetable kend t tf s = Some (Ok (pt, s')) \<and> kmem_inv kend s' free' \<and>
    frame (set free) (kmemory s) (kmemory s') \<and>
    (pt = 0 \<and> set free' = set free \<or>
     pt \<noteq> 0 \<and> aspace kend t (kmemory s') pt 0 tf \<and> footprint (kmemory s') pt 0 \<inter> set free' = {} \<and>
       footprint (kmemory s') pt 0 \<union> set free' = set free)"
proof (cases free)
  case Nil
  then have "uvmcreate s = (0, s)" using inv pages.alloc_none [of kend s] by (simp add: uvmcreate_def)
  then show ?thesis using inv Nil by (simp add: proc_pagetable_def)
next
  case (Cons q qs)
  obtain s1 where s1: "uvmcreate s = (q, s1)" "q \<noteq> 0" "vm_inv kend s1 q qs" "tables 2 (kmemory s1) q = {q}"
    "\<forall>n. vmap (kmemory s1) q n = None" "frame {q} (kmemory s) (kmemory s1)"
    using uvmcreate_makes [of kend s q qs] inv Cons by auto
  have F1: "frame (set free) (kmemory s) (kmemory s1)" "tables 2 (kmemory s1) q \<union> set qs = set free"
    using s1(4) Cons frame_mono [OF s1(6)] by auto
  obtain r s2 free2 where m: "mappages q (4096 * (2 ^ 26 - 1)) PGSIZE t (PTE_R OR PTE_X) s1 = Ok (r, s2)"
      "evolves kend q s1 qs s2 free2"
      "\<forall>i < 2 ^ 27. vmap (kmemory s2) q i = (if r = 0 \<and> i = 2 ^ 26 - 1 then Some (PA2PTE t OR (PTE_R OR PTE_X) OR 1) else None)"
      "r = 0 \<or> r = -1"
    using mappages_page [OF s1(3) _ t, of "2 ^ 26 - 1" "PTE_R OR PTE_X"] s1(5) by auto
  note e2 = evolves_total [OF m(2)]
  have F2: "frame (set free) (kmemory s) (kmemory s2)" "tables 2 (kmemory s2) q \<union> set free2 = set free"
    using e2(1,2) F1 frame_trans by fastforce+
  show ?thesis
  proof (cases "r = 0")
    case False
    then obtain s' free' where "uvmfree kend q 0 s2 = Some (Ok s')" "kmem_inv kend s' free'" "set free' = set free"
        "frame (set free) (kmemory s) (kmemory s')" using unmapped_freed [OF e2(3) _ F2] m(3) by auto
    then show ?thesis using s1(1,2) m(1,4) False unfolding proc_pagetable_def page_numbers by auto
  next
    case True
    have tfb: "tf mod 4096 = 0" "tf < 2 ^ 56" using phys_page_bounds [OF tf] by simp_all
    obtain r' s3 free3 where m3: "mappages q (4096 * (2 ^ 26 - 2)) PGSIZE tf (PTE_R OR PTE_W) s2 = Ok (r', s3)"
        "evolves kend q s2 free2 s3 free3"
        "\<forall>i < 2 ^ 27. vmap (kmemory s3) q i =
          (if r' = 0 \<and> i = 2 ^ 26 - 2 then Some (PA2PTE tf OR (PTE_R OR PTE_W) OR 1) else vmap (kmemory s2) q i)"
        "r' = 0 \<or> r' = -1"
      using mappages_page [OF e2(3) _ tfb, of "2 ^ 26 - 2" "PTE_R OR PTE_W"] m(3) by auto
    note e3 = evolves_total [OF m3(2)]
    have F3: "frame (set free) (kmemory s) (kmemory s3)" "tables 2 (kmemory s3) q \<union> set free3 = set free"
      using e3(1,2) F2 frame_trans by fastforce+
    show ?thesis
    proof (cases "r' = 0")
      case r': True
      have "npages 0 = 0" by (simp add: npages_def)
      then have "aspace kend t (kmemory s3) q 0 tf" using e3(3) m3(3) m(3) True r' by (simp add: aspace_def vm_inv_def)
      moreover have "footprint (kmemory s3) q 0 = tables 2 (kmemory s3) q" using \<open>npages 0 = 0\<close> by (simp add: footprint_def)
      moreover have "proc_pagetable kend t tf s = Some (Ok (q, s3))"
        using s1(1,2) m(1) m3(1) True r' unfolding proc_pagetable_def page_numbers by simp
      ultimately show ?thesis using F3 e3(3) s1(2)
        by (intro exI [of _ q] exI [of _ s3] exI [of _ free3]) (auto simp: vm_inv_def)
    next
      case False
      have v3: "vmap (kmemory s3) q (2 ^ 26 - 1) = Some (PA2PTE t OR (PTE_R OR PTE_X) OR 1)" using m3(3) m(3) True by simp
      obtain s4 where s4: "uvmunmap kend q (4096 * (2 ^ 26 - 1)) 1 False s3 = Ok s4" "vm_inv kend s4 q free3"
        "tables 2 (kmemory s4) q = tables 2 (kmemory s3) q" "frame (tables 2 (kmemory s3) q) (kmemory s3) (kmemory s4)"
        "\<forall>i < 2 ^ 27. vmap (kmemory s4) q i = (if i = 2 ^ 26 - 1 then None else vmap (kmemory s3) q i)"
        using uvmunmap_keep [OF e3(3) _ v3 entry_flags_ne(1) [OF t]] by auto
      have F4: "frame (set free) (kmemory s) (kmemory s4)" "tables 2 (kmemory s4) q \<union> set free3 = set free"
        using frame_mono [OF frame_trans [OF F3(1) s4(4)], of "set free"] F3(2) s4(3) by auto
      have v4: "\<forall>n < 2 ^ 27. vmap (kmemory s4) q n = None" using s4(5) m3(3) m(3) False by simp
      obtain s' free' where "uvmfree kend q 0 s4 = Some (Ok s')" "kmem_inv kend s' free'" "set free' = set free"
          "frame (set free) (kmemory s) (kmemory s')"
        using unmapped_freed [OF s4(2) v4 F4] by auto
      then show ?thesis using s1(1,2) m(1) m3(1,4) s4(1) True False unfolding proc_pagetable_def page_numbers by auto
    qed
  qed
qed

end
