(* ===== verification/Vm_Props.thy ===== *)
theory Vm_Props
  imports Vm_Copy Proc_Mem
begin

text \<open>
  What the virtual memory system promises: mapping, growth of an address space, copies between
  kernel and user memory, and the whole life of an address space.
\<close>

section \<open>A concrete address space\<close>

text \<open>The root table is at 8192, with two further tables, and one user page at 20480 is mapped at address 0.\<close>

definition ex_mem :: mem where
  "ex_mem = store 8192 (nat_le 8 3073) (store 12288 (nat_le 8 4097) (store 16384 (nat_le 8 5143)
     (store 20480 [104, 105, 0] (\<lambda>a. 0))))"

definition ex_state :: kmem where
  "ex_state = \<lparr>kmemory = ex_mem, freelist = 0\<rparr>"

lemma ex_zero: "a + 8 \<le> 8192 \<or> (8200 \<le> a \<and> a + 8 \<le> 12288) \<or> (12296 \<le> a \<and> a + 8 \<le> 16384) \<or> (16392 \<le> a \<and> a + 8 \<le> 20480)
  \<Longrightarrow> rd64 ex_mem a = 0"
proof -
  assume a: "a + 8 \<le> 8192 \<or> (8200 \<le> a \<and> a + 8 \<le> 12288) \<or> (12296 \<le> a \<and> a + 8 \<le> 16384) \<or> (16392 \<le> a \<and> a + 8 \<le> 20480)"
  have "rd64 ex_mem a = rd64 (\<lambda>a. 0) a" by (rule rd64_cong) (use a in \<open>auto simp: ex_mem_def store_def\<close>)
  also have "\<dots> = 0" by (simp add: rd64_def bytes_def numeral_eq_Suc)
  finally show ?thesis .
qed

lemma ex_entries:
  "i < 512 \<Longrightarrow> rd64 ex_mem (8192 + 8 * i) = (if i = 0 then 3073 else 0)"
  "i < 512 \<Longrightarrow> rd64 ex_mem (12288 + 8 * i) = (if i = 0 then 4097 else 0)"
  "i < 512 \<Longrightarrow> rd64 ex_mem (16384 + 8 * i) = (if i = 0 then 5143 else 0)"
  using ex_zero [of "8192 + 8 * i"] ex_zero [of "12288 + 8 * i"] ex_zero [of "16384 + 8 * i"]
  by (cases "i = 0"; simp add: ex_mem_def rd64_store rd64_store_other)+

lemma ex_child:
  "i < 512 \<Longrightarrow> child ex_mem 8192 i = Some c \<longleftrightarrow> i = 0 \<and> c = 12288"
  "i < 512 \<Longrightarrow> child ex_mem 12288 i = Some c \<longleftrightarrow> i = 0 \<and> c = 16384"
  by (auto simp: child_def ex_entries PTE2PA_def bit_0)

lemma ex_tables1: "tables (Suc 0) ex_mem 12288 = {12288, 16384}"
  by (auto simp: tables.simps(2) ex_child cong: conj_cong)

lemma ex_tables: "tables 2 ex_mem 8192 = {8192, 12288, 16384}"
  unfolding numeral_2_eq_2 by (auto simp: tables.simps(2) [of "Suc 0"] ex_child ex_tables1 cong: conj_cong)

lemma ex_tree: "tree_ok 4096 2 ex_mem 8192"
proof -
  have "tree_ok 4096 (Suc 0) ex_mem 12288"
    unfolding tree_ok.simps(2) [of _ 0] using ex_entries(2) [of 0] by (simp add: ex_child phys_page_def PTE_FLAGS_def)
  then show ?thesis unfolding numeral_2_eq_2 tree_ok.simps(2) [of _ "Suc 0"] using ex_entries(1) [of 0]
    by (simp add: ex_child ex_tables1 phys_page_def PTE_FLAGS_def)
qed

lemma ex_vmap: "n < 2 ^ 27 \<Longrightarrow> vmap ex_mem 8192 n = (if n = 0 then Some 5143 else None)"
proof -
  assume n: "n < 2 ^ 27"
  have px: "PX k (4096 * n) = n div 2 ^ (9 * k) mod 512" for k by (simp add: PX_def power_add div_mult2_eq)
  have z: "n = 0 \<longleftrightarrow> PX 0 (4096 * n) = 0 \<and> PX 1 (4096 * n) = 0 \<and> PX 2 (4096 * n) = 0"
    using digits [OF n] unfolding px by (auto simp: power_mult)
  have c: "child ex_mem 8192 i = (if i = 0 then Some 12288 else None)" "child ex_mem 12288 i = (if i = 0 then Some 16384 else None)"
    if "i < 512" for i using ex_child [OF that] by (cases "child ex_mem 8192 i"; cases "child ex_mem 12288 i"; auto)+
  have "slot 2 ex_mem 8192 (4096 * n) =
      (if PX 2 (4096 * n) = 0 \<and> PX 1 (4096 * n) = 0 then Some (16384 + 8 * PX 0 (4096 * n)) else None)"
    unfolding numeral_2_eq_2 slot.simps by (simp add: c numeral_2_eq_2)
  then show ?thesis unfolding vmap_def leafl_def using z ex_entries(3) [OF PX_less, of 0 "4096 * n"]
    by (simp add: bit_0 split: if_splits)
qed

lemma ex_user: "upages ex_mem 8192 = {20480}" "user_apart 4096 ex_mem 8192" "user_inj ex_mem 8192"
proof -
  have b: "bit (5143 :: nat) 4" "PTE2PA 5143 = 20480" by (simp_all add: bit_iff_odd PTE2PA_def)
  show u: "upages ex_mem 8192 = {20480}"
  proof
    show "upages ex_mem 8192 \<subseteq> {20480}" using ex_vmap b(2) by (auto simp: upages_def split: if_splits)
    have "vmap ex_mem 8192 0 = Some 5143" using ex_vmap [of 0] by simp
    then show "{20480} \<subseteq> upages ex_mem 8192" unfolding upages_def using b by force
  qed
  show "user_apart 4096 ex_mem 8192" unfolding user_apart_def u ex_tables by (simp add: phys_page_def)
  show "user_inj ex_mem 8192" unfolding user_inj_def using ex_vmap by (auto split: if_splits)
qed

lemma ex_uaddr: "va < 4096 \<Longrightarrow> uaddr ex_mem 8192 va = Some (20480 + va)"
  using ex_vmap [of 0] by (simp add: uaddr_def bit_iff_odd PTE2PA_def)

lemma ex_readable: "len \<le> 4096 \<Longrightarrow> readable ex_mem 8192 0 len = len"
  unfolding readable_all using ex_uaddr by auto

lemma ex_inv: "kmem_inv 4096 ex_state []" "vm_inv 4096 ex_state 8192 []"
  using ex_tree by (simp_all add: ex_state_def kmem_inv_def vm_inv_def)

section \<open>Mapping and growing\<close>

text \<open>
  mappages maps the pages of its range to consecutive physical pages and changes no other
  mapping; when the allocator runs out of pages for tables it returns -1 with a prefix of the
  range mapped. Memory outside the tables does not change.
\<close>

theorem mappages_maps:
  assumes "vm_inv kend s pt free" "0 < sz" "va + sz \<le> MAXVA" "pa mod PGSIZE = 0" "pa + sz \<le> 2 ^ 55" "perm < 1024"
    and "\<forall>i. va div PGSIZE \<le> i \<and> i \<le> (va + sz - 1) div PGSIZE \<longrightarrow> vmap (kmemory s) pt i = None"
  shows "\<exists>r s' k free'. mappages pt va sz pa perm s = Ok (r, s') \<and> evolves kend pt s free s' free' \<and>
    (\<forall>i < 2 ^ 27. vmap (kmemory s') pt i = map_range (va div PGSIZE) k pa perm (vmap (kmemory s) pt) i) \<and>
    (let n = (va + sz - 1) div PGSIZE - va div PGSIZE + 1 in r = 0 \<and> k = n \<or> r = -1 \<and> k < n \<and> free' = [])"
proof -
  define x n where "x = va div PGSIZE" and "n = (va + sz - 1) div PGSIZE - va div PGSIZE"
  have le: "va div PGSIZE \<le> (va + sz - 1) div PGSIZE" by (rule div_le_mono) (use assms(2) in simp)
  then have xn: "x + n = (va + sz - 1) div PGSIZE" by (simp add: x_def n_def)
  have "(va + sz - 1) div PGSIZE < 2 ^ 26" using assms(2,3) by (simp add: div_less_iff_less_mult)
  then have b: "x + n < 2 ^ 26" by (simp only: xn)
  have "4096 * n \<le> 4096 * ((va + sz - 1) div PGSIZE)" by (simp add: n_def)
  also have "\<dots> \<le> va + sz - 1" by simp
  finally have pa: "pa + 4096 * n < 2 ^ 56" using assms(3,5) by simp
  have e: "mappages pt va sz pa perm s = mappages_loop pt (4096 * x) (4096 * (x + n)) pa perm s"
    using assms(2,3) unfolding xn by (simp add: mappages_def PGROUNDDOWN_page x_def)
  have un: "\<forall>i. x \<le> i \<and> i \<le> x + n \<longrightarrow> vmap (kmemory s) pt i = None" using assms(7) xn by (simp add: x_def)
  obtain r s' k free' where l: "mappages_loop pt (4096 * x) (4096 * (x + n)) pa perm s = Ok (r, s')"
      "evolves kend pt s free s' free'"
      "\<forall>i < 2 ^ 27. vmap (kmemory s') pt i = map_range x k pa perm (vmap (kmemory s) pt) i"
      "r = 0 \<and> k = Suc n \<or> r = -1 \<and> k \<le> n \<and> free' = []"
    using mappages_loop_maps [OF assms(1) b assms(4) pa assms(6) un] by blast
  have "let n = (va + sz - 1) div PGSIZE - va div PGSIZE + 1 in r = 0 \<and> k = n \<or> r = -1 \<and> k < n \<and> free' = []"
    unfolding Let_def using l(4) n_def by auto
  then show ?thesis unfolding e using l(1-3) x_def by blast
qed

theorem mappages_maps_witness:
  "\<exists>r s'. mappages 8192 4096 4096 24576 22 ex_state = Ok (r, s') \<and>
    (r = 0 \<and> vmap (kmemory s') 8192 1 = Some (PA2PTE 24576 OR 22 OR 1) \<or> r = -1)"
proof -
  have "vmap (kmemory ex_state) 8192 1 = None" using ex_vmap [of 1] by (simp add: ex_state_def)
  then have "\<forall>i. 4096 div PGSIZE \<le> i \<and> i \<le> (4096 + 4096 - 1) div PGSIZE \<longrightarrow> vmap (kmemory ex_state) 8192 i = None"
    by (auto simp: le_Suc_eq)
  from mappages_maps [OF ex_inv(2) _ _ _ _ _ this, of 24576 22] obtain r s' k where
    *: "mappages 8192 4096 4096 24576 22 ex_state = Ok (r, s')" "r = 0 \<and> k = 1 \<or> r = -1"
      "\<forall>i < 2 ^ 27. vmap (kmemory s') 8192 i = map_range 1 k 24576 22 (vmap (kmemory ex_state) 8192) i"
    by auto
  then show ?thesis by (auto simp: map_range_def)
qed

text \<open>
  C13: uvmalloc either adds all the pages it was asked for, zeroed, mapped with the given
  permission and owned by the address space alone, and returns the new size; or it returns 0
  and every mapping is as before, with all data pages back on the free list. In both cases no
  page is lost and no byte outside the tables and the free pages changes.
\<close>

theorem uvmalloc_grows:
  assumes "vm_inv kend s pt free" "oldsz \<le> newsz" "newsz \<le> MAXVA" "xperm < 1024"
    and "\<forall>i. npages oldsz \<le> i \<and> i < npages newsz \<longrightarrow> vmap (kmemory s) pt i = None"
  shows "\<exists>r s' free'. uvmalloc kend pt oldsz newsz xperm s = Ok (r, s') \<and>
    (r = newsz \<and> grown kend pt (\<lambda>_. PTE_R OR PTE_U OR xperm) (\<lambda>_ _. 0) (npages oldsz) s free (npages newsz) s' free' \<or>
     r = 0 \<and> grown kend pt (\<lambda>_. PTE_R OR PTE_U OR xperm) (\<lambda>_ _. 0) (npages oldsz) s free (npages oldsz) s' free')"
  by (rule uvmalloc_result [OF assms])

theorem uvmalloc_grows_witness:
  "\<exists>r s'. uvmalloc 4096 8192 4096 8192 4 ex_state = Ok (r, s') \<and> (r = 8192 \<or> r = 0)"
proof -
  have "vmap (kmemory ex_state) 8192 1 = None" using ex_vmap [of 1] by (simp add: ex_state_def)
  moreover have "i = 1" if "npages 4096 \<le> i" "i < npages 8192" for i using that by (simp add: npages_def)
  ultimately have "\<forall>i. npages 4096 \<le> i \<and> i < npages 8192 \<longrightarrow> vmap (kmemory ex_state) 8192 i = None" by blast
  from uvmalloc_grows [OF ex_inv(2) _ _ _ this, of 4] show ?thesis by auto
qed

section \<open>Copies\<close>

text \<open>
  C30: What copyout writes to user memory is what copyin reads back from there. Both go as far
  as the addresses are mapped for the user: they return 0 when the whole range is, and -1
  otherwise. No other byte of memory changes.
\<close>

theorem copy_round_trip:
  assumes "tree_ok kend 2 (kmemory s) pt" "user_apart kend (kmemory s) pt" "user_inj (kmemory s) pt"
    and "src + len < 2 ^ 64" "dst + len < 2 ^ 64" "apart (upages (kmemory s) pt) src len"
    and "apart (tables 2 (kmemory s) pt \<union> upages (kmemory s) pt) dst len"
  shows "let k = readable (kmemory s) pt va len; r = (if k = len then 0 else -1) in
    \<exists>s1 s2. copyout pt va src len s = Ok (r, s1) \<and> copyin pt dst va len s1 = Ok (r, s2) \<and>
      bytes (kmemory s2) dst k = bytes (kmemory s) src k \<and>
      (\<forall>x. (\<forall>i < k. uaddr (kmemory s) pt (va + i) \<noteq> Some x) \<and> (x < dst \<or> dst + len \<le> x) \<longrightarrow> kmemory s2 x = kmemory s x)"
proof -
  let ?m = "kmemory s" and ?k = "readable (kmemory s) pt va len"
  define s1 where "s1 = s\<lparr>kmemory := put_all (\<lambda>i. the (uaddr ?m pt (va + i))) (bytes ?m src ?k) ?m\<rparr>"
  have out: "copyout pt va src len s = Ok (if ?k = len then 0 else -1, s1)"
    using copyout_view [OF assms(1,4,2,6), of va] by (simp add: s1_def Let_def)
  have "kmemory s1 = put_all (\<lambda>i. the (uaddr ?m pt (va + i))) (bytes ?m src ?k) ?m" by (simp add: s1_def)
  note e = copyout_effect [OF assms(1-3) length_bytes this, unfolded length_bytes]
  have same: "tables 2 (kmemory s1) pt = tables 2 ?m pt" "tree_ok kend 2 (kmemory s1) pt"
      "upages (kmemory s1) pt = upages ?m pt" "readable (kmemory s1) pt = readable ?m pt" "uaddr (kmemory s1) pt = uaddr ?m pt"
    using tables_same [OF e(2)] tree_ok_same [OF e(2)] view_same [OF e(2)] assms(1) by auto
  define s2 where "s2 = s1\<lparr>kmemory := store dst (bytes ?m src ?k) (kmemory s1)\<rparr>"
  have ap: "apart (tables 2 (kmemory s1) pt \<union> upages (kmemory s1) pt) dst len" using assms(7) same by simp
  have inn: "copyin pt dst va len s1 = Ok (if ?k = len then 0 else -1, s2)"
    using copyin_view [OF same(2) assms(5) ap, of va] same(4) e(3) by (simp add: s2_def Let_def)
  have "bytes (kmemory s2) dst ?k = bytes ?m src ?k"
    using bytes_store [of dst "bytes ?m src ?k" "kmemory s1"] by (simp add: s2_def)
  moreover have "kmemory s2 x = ?m x" if "\<forall>i < ?k. uaddr ?m pt (va + i) \<noteq> Some x" "x < dst \<or> dst + len \<le> x" for x
    using e(1) [OF that(1)] that(2) readable_le [of ?m pt va len] by (auto simp: s2_def store_def)
  ultimately show ?thesis using out inn unfolding Let_def by blast
qed

theorem copy_round_trip_witness:
  "\<exists>s1 s2. copyout 8192 0 100 3 ex_state = Ok (0, s1) \<and> copyin 8192 200 0 3 s1 = Ok (0, s2) \<and>
    bytes (kmemory s2) 200 3 = bytes (kmemory ex_state) 100 3"
proof -
  have "apart (upages ex_mem 8192) 100 3" "apart (tables 2 ex_mem 8192 \<union> upages ex_mem 8192) 200 3"
    by (auto simp: apart_def ex_user(1) ex_tables in_page_def)
  then show ?thesis
    using copy_round_trip [of 4096 ex_state 8192 100 3 200 0] ex_tree ex_user ex_readable [of 3]
    by (auto simp: ex_state_def Let_def)
qed

text \<open>
  copyinstr copies the bytes of user memory up to and including the first NUL byte and
  returns 0; when there is none within the mapped addresses and the given limit it returns -1.
\<close>

theorem copyinstr_reads:
  assumes "tree_ok kend 2 (kmemory s) pt" "dst + mx < 2 ^ 64"
    and "apart (tables 2 (kmemory s) pt \<union> upages (kmemory s) pt) dst mx"
  shows "copyinstr pt dst va mx s =
    Ok (str_result (ubytes (kmemory s) pt va (readable (kmemory s) pt va mx)) dst s)"
  using assms
proof (induction mx arbitrary: dst va s rule: less_induct)
  case (less mx)
  let ?m = "kmemory s"
  show ?case
  proof (cases "mx = 0 \<or> uaddr ?m pt va = None")
    case True
    then show ?thesis
      using walkaddr_eq [OF less.prems(1), of va] readable_zero [of ?m pt va mx] readable_le [of ?m pt va 0]
      by (subst copyinstr.simps) (auto simp: ubytes_def str_result_def)
  next
    case False
    then have mx: "0 < mx" by simp
    obtain a where a: "uaddr ?m pt va = Some a" using False by auto
    define n where "n = chunk va mx"
    note n = chunk_props [where va = va, OF mx, folded n_def] and c = copyin_chunk [OF a mx, folded n_def]
    let ?bs = "bytes ?m a n" and ?k = "readable ?m pt (va + n) (mx - n)"
    have page: "copyinstr_page n a dst mx ?m = (let bs = ?bs; zs = takeWhile (\<lambda>b. b \<noteq> 0) bs in
       if 0 \<in> set bs then (True, dst + length zs, mx - length zs, store dst (zs @ [0]) ?m)
       else (False, dst + n, mx - n, store dst bs ?m))"
      by (rule copyinstr_page_eq) (use less.prems(2) n(2) chunk_apart [OF a mx less.prems(3), folded n_def] in auto)
    have all: "ubytes ?m pt va (readable ?m pt va mx) = ?bs @ ubytes ?m pt (va + n) ?k"
      unfolding c(2) ubytes_add c(1) ..
    define s1 where "s1 = s\<lparr>kmemory := store dst ?bs ?m\<rparr>"
    have step: "copyinstr pt dst va mx s =
        (if 0 \<in> set ?bs then Ok (0, s\<lparr>kmemory := store dst (takeWhile (\<lambda>b. b \<noteq> 0) ?bs @ [0]) ?m\<rparr>)
         else copyinstr pt (dst + n) (add64 (PGROUNDDOWN va) PGSIZE) (mx - n) s1)"
      using mx walkaddr_eq [OF less.prems(1), of va] a uaddr_page [OF a, of 0] page
      by (subst copyinstr.simps) (simp add: page_offset s1_def n_def [unfolded chunk_def, symmetric] Let_def)
    show ?thesis
    proof (cases "0 \<in> set ?bs")
      case True
      then show ?thesis unfolding all step by (simp add: str_result_def takeWhile_append1 [of 0])
    next
      case nz: False
      have so: "same_on (tables 2 ?m pt \<union> upages ?m pt) ?m (kmemory s1)"
        unfolding s1_def using apart_same [OF less.prems(3), of ?bs] n(2) by simp
      then have st: "same_on (tables 2 ?m pt) ?m (kmemory s1)" by (rule same_on_subset) simp
      have same: "tables 2 (kmemory s1) pt = tables 2 ?m pt" "tree_ok kend 2 (kmemory s1) pt"
          "upages (kmemory s1) pt = upages ?m pt" "readable (kmemory s1) pt = readable ?m pt"
        using tables_same [OF st] tree_ok_same [OF st] view_same [OF st] less.prems(1) by auto
      have va: "n < mx \<Longrightarrow> add64 (PGROUNDDOWN va) PGSIZE = va + n"
        using a n(4,5) by (auto simp: add64_def PGROUNDDOWN_page uaddr_def split: if_splits)
      have "copyinstr pt (dst + n) vb (mx - n) s1 =
          Ok (str_result (ubytes (kmemory s1) pt vb (readable (kmemory s1) pt vb (mx - n))) (dst + n) s1)" for vb
        by (rule less.IH) (use n(1,2) mx less.prems same in \<open>auto simp: apart_def\<close>)
      also have "ubytes (kmemory s1) pt vb (readable (kmemory s1) pt vb (mx - n)) = ubytes ?m pt vb (readable ?m pt vb (mx - n))" for vb
        unfolding same(4) by (rule ubytes_same [OF so order_refl])
      finally have rest: "copyinstr pt (dst + n) vb (mx - n) s1 =
          Ok (str_result (ubytes ?m pt vb (readable ?m pt vb (mx - n))) (dst + n) s1)" for vb .
      have "copyinstr pt dst va mx s = Ok (str_result (ubytes ?m pt (va + n) ?k) (dst + n) s1)"
        using step nz rest va n(2) by (cases "n = mx") (auto simp: readable_def ubytes_def)
      then show ?thesis unfolding all using str_result_append [OF nz, of "ubytes ?m pt (va + n) ?k" dst s] by (simp add: s1_def)
    qed
  qed
qed


theorem copyinstr_reads_witness:
  "\<exists>s. copyinstr 8192 100 0 4 ex_state = Ok (0, s) \<and> bytes (kmemory s) 100 3 = [104, 105, 0]"
proof -
  have b: "ubytes ex_mem 8192 0 4 = [104, 105, 0, 0]"
  proof -
    have "[0..<4] = [0, 1, 2, 3 :: nat]" by (simp add: upt_rec)
    then have "ubytes ex_mem 8192 0 4 = map (\<lambda>i. ex_mem (20480 + i)) [0, 1, 2, 3]" by (simp add: ubytes_def ex_uaddr)
    then show ?thesis by (simp add: ex_mem_def store_def)
  qed
  have "apart (tables 2 ex_mem 8192 \<union> upages ex_mem 8192) 100 4"
    by (auto simp: apart_def ex_user(1) ex_tables in_page_def)
  then have "copyinstr 8192 100 0 4 ex_state = Ok (str_result [104, 105, 0, 0] 100 ex_state)"
    using copyinstr_reads [of 4096 ex_state 8192 100 4 0] ex_tree ex_readable [of 4] b by (simp add: ex_state_def)
  moreover have "bytes (store 100 [104, 105, 0] ex_mem) 100 3 = [104, 105, 0]"
    using bytes_store [of 100 "[104, 105, 0]" ex_mem] by (simp add: numeral_3_eq_3)
  ultimately show ?thesis by (simp add: str_result_def ex_state_def)
qed

end
