(* ===== verification/Proc_Space.thy ===== *)
theory Proc_Space
  imports Proc_Mem
begin

text \<open>
  Growing, shrinking and copying the address space of a process. Each operation keeps the
  layout \<open>aspace\<close>, and moves pages only between the address space and the free list.
\<close>

section \<open>Growing\<close>

text \<open>
  \<open>moved\<close>: a new state of one address space and the free list; nothing else is touched, and the
  user pages that stay keep their contents.
\<close>

definition moved :: "nat \<Rightarrow> nat \<Rightarrow> nat \<Rightarrow> nat \<Rightarrow> kmem \<Rightarrow> nat \<Rightarrow> nat list \<Rightarrow> kmem \<Rightarrow> nat \<Rightarrow> nat list \<Rightarrow> bool" where
  "moved kend t pt tf s sz free s' sz' free' \<longleftrightarrow>
     kmem_inv kend s' free' \<and> aspace kend t (kmemory s') pt sz' tf \<and> footprint (kmemory s') pt sz' \<inter> set free' = {} \<and>
     footprint (kmemory s') pt sz' \<union> set free' = footprint (kmemory s) pt sz \<union> set free \<and>
     frame (footprint (kmemory s) pt sz \<union> set free) (kmemory s) (kmemory s') \<and>
     (\<forall>n. n < npages sz \<and> n < npages sz' \<longrightarrow>
        vmap (kmemory s') pt n = vmap (kmemory s) pt n \<and> same_on {page_at (kmemory s) pt n} (kmemory s) (kmemory s'))"

lemma npages_top: "sz \<le> TRAPFRAME \<Longrightarrow> n < npages sz \<Longrightarrow> n < 2 ^ 26 - 2"
  using npages_aspace by fastforce

lemma aspace_grown:
  assumes sp: "aspace kend t (kmemory s) pt sz tf" and dis: "footprint (kmemory s) pt sz \<inter> set free = {}"
    and inv: "kmem_inv kend s free"
    and g: "grown kend pt perm cont (npages sz) s free (npages sz') s' free'" and sz': "sz \<le> sz'" "sz' \<le> TRAPFRAME"
  shows "moved kend t pt tf s sz free s' sz' free'"
proof -
  let ?x = "npages sz" and ?y = "npages sz'" and ?p = "page_at (kmemory s) pt" and ?p' = "page_at (kmemory s') pt"
  let ?T = "tables 2 (kmemory s) pt" and ?T' = "tables 2 (kmemory s') pt"
  note a = sp [unfolded aspace_def] and b = g [unfolded grown_def owns_def]
  have xy: "?x \<le> ?y" "?y \<le> 2 ^ 26 - 2" using npages_mono [OF sz'(1)] npages_aspace [OF sz'(2)] by simp_all
  have v: "vmap (kmemory s') pt n = vmap (kmemory s) pt n" if "n < 2 ^ 27" "n < ?x \<or> ?y \<le> n" for n
    using b that by auto
  have old: "?p' n = ?p n" if "n < ?x" for n using v [of n] that xy by (simp add: page_at_def)
  have split: "{..<?y} = {..<?x} \<union> {?x..<?y}" using xy(1) by auto
  have img: "?p' ` {..<?y} = ?p ` {..<?x} \<union> ?p' ` {?x..<?y}" unfolding split image_Un using old by auto
  have dp: "?p ` {..<?x} \<inter> (?T \<union> set free) = {}" using a dis by (auto simp: footprint_def)
  have tot: "?T' \<union> set free' \<union> ?p' ` {?x..<?y} = ?T \<union> set free" using b by simp
  have new: "?p' ` {?x..<?y} \<inter> (?T' \<union> set free') = {}" using b by simp
  have ent: "\<exists>e. vmap (kmemory s') pt n = Some e \<and> PTE_FLAGS e \<noteq> 1 \<and> phys_page kend (PTE2PA e)" if "n < ?y" for n
  proof (cases "n < ?x")
    case True
    then show ?thesis using a v [of n] xy by simp
  next
    case False
    then have "n \<in> {?x..<?y}" using that by simp
    then show ?thesis using b by blast
  qed
  have inj: "inj_on ?p' {..<?y}" unfolding split inj_on_Un
  proof (intro conjI)
    show "inj_on ?p' {..<?x}" using a old by (simp add: inj_on_def)
    show "inj_on ?p' {?x..<?y}" using b by simp
    have "?p' ` {..<?x} = ?p ` {..<?x}" using old by auto
    moreover have "?p' ` {?x..<?y} \<subseteq> ?T \<union> set free" using tot by blast
    ultimately show "?p' ` ({..<?x} - {?x..<?y}) \<inter> ?p' ` ({?x..<?y} - {..<?x}) = {}" using dp by blast
  qed
  have d1: "?p' ` {..<?y} \<inter> (?T' \<union> set free') = {}" unfolding img using dp tot new by blast
  have "aspace kend t (kmemory s') pt sz' tf"
    unfolding aspace_def using b ent inj d1 sz'(2) v a xy by (auto simp: vm_inv_def)
  moreover have "?T' \<inter> set free' = {}" "kmem_inv kend s' free'" using b by (simp_all add: vm_inv_def)
  moreover have "footprint (kmemory s') pt sz' \<union> set free' = footprint (kmemory s) pt sz \<union> set free"
    unfolding footprint_def img using tot by blast
  moreover have "footprint (kmemory s') pt sz' \<inter> set free' = {}"
    unfolding footprint_def using d1 \<open>?T' \<inter> set free' = {}\<close> by blast
  moreover have "frame (footprint (kmemory s) pt sz \<union> set free) (kmemory s) (kmemory s')"
    by (rule frame_mono [of "?T \<union> set free"]) (use b in \<open>auto simp: footprint_def\<close>)
  moreover have "same_on {?p n} (kmemory s) (kmemory s')" if "n < ?x" for n
  proof (rule frame_same [of "?T \<union> set free" _ _ _ kend])
    show "frame (?T \<union> set free) (kmemory s) (kmemory s')" using b by simp
    have "phys_page kend (?p n)" using footprint_phys [OF sp, of "?p n"] that by (simp add: footprint_def)
    then show "\<forall>q \<in> ?T \<union> set free \<union> {?p n}. phys_page kend q"
      using a tree_ok_phys free_pages [OF inv] by auto
  qed (use dp that in blast)
  ultimately show ?thesis using v xy unfolding moved_def by auto
qed

lemma uvmalloc_space:
  assumes sp: "aspace kend t (kmemory s) pt sz tf" and dis: "footprint (kmemory s) pt sz \<inter> set free = {}"
    and inv: "kmem_inv kend s free" and sz': "sz \<le> newsz" "newsz \<le> TRAPFRAME" "xperm < 1024"
  shows "\<exists>r s' free'. uvmalloc kend pt sz newsz xperm s = Ok (r, s') \<and>
    (r = newsz \<and> moved kend t pt tf s sz free s' newsz free' \<or> r = 0 \<and> moved kend t pt tf s sz free s' sz free')"
proof -
  note a = sp [unfolded aspace_def]
  have "newsz \<le> MAXVA" using sz'(2) by simp
  moreover have "\<forall>i. npages sz \<le> i \<and> i < npages newsz \<longrightarrow> vmap (kmemory s) pt i = None"
    using a npages_top [OF sz'(2)] by fastforce
  ultimately obtain r s' free' where u: "uvmalloc kend pt sz newsz xperm s = Ok (r, s')"
      "r = newsz \<and> grown kend pt (\<lambda>_. PTE_R OR PTE_U OR xperm) (\<lambda>_ _. 0) (npages sz) s free (npages newsz) s' free' \<or>
       r = 0 \<and> grown kend pt (\<lambda>_. PTE_R OR PTE_U OR xperm) (\<lambda>_ _. 0) (npages sz) s free (npages sz) s' free'"
    using uvmalloc_result [OF aspace_inv [OF sp dis inv] sz'(1) _ sz'(3)] by blast
  have "sz \<le> TRAPFRAME" using sz' by simp
  then show ?thesis
    using u aspace_grown [OF sp dis inv _ sz'(1,2)] aspace_grown [OF sp dis inv _ order_refl] by blast
qed

section \<open>Shrinking\<close>

lemma uvmdealloc_npages:
  assumes "newsz \<le> oldsz" "oldsz \<le> MAXVA"
  shows "uvmdealloc kend pt oldsz newsz s =
    bind_res (uvmunmap_loop kend pt (4096 * npages newsz) (4096 * npages oldsz) True s) (\<lambda>s. Ok (newsz, s))"
proof -
  have n: "npages newsz \<le> npages oldsz" "npages oldsz \<le> 2 ^ 26" using npages_mono [OF assms(1)] npages_bound [OF assms(2)] by simp_all
  have up: "pgroundup64 newsz = 4096 * npages newsz" "pgroundup64 oldsz = 4096 * npages oldsz"
    unfolding pgroundup64_def PGROUNDUP_npages using n by simp_all
  show ?thesis
  proof (cases "npages newsz < npages oldsz")
    case True
    then have "newsz < oldsz" using npages_mono [of oldsz newsz] by fastforce
    then show ?thesis using unmap_count [OF n, of kend pt s] True unfolding uvmdealloc_def up by (simp add: Let_def)
  next
    case False
    then have "npages newsz = npages oldsz" using n by simp
    then show ?thesis unfolding uvmdealloc_def up using assms(1) by (simp add: uvmunmap_loop.simps)
  qed
qed

lemma uvmdealloc_space:
  assumes sp: "aspace kend t (kmemory s) pt sz tf" and dis: "footprint (kmemory s) pt sz \<inter> set free = {}"
    and inv: "kmem_inv kend s free" and sz': "newsz \<le> sz"
  shows "\<exists>s' free'. uvmdealloc kend pt sz newsz s = Ok (newsz, s') \<and> moved kend t pt tf s sz free s' newsz free'"
proof -
  let ?x = "npages newsz" and ?y = "npages sz" and ?p = "page_at (kmemory s) pt" and ?T = "tables 2 (kmemory s) pt"
  note a = sp [unfolded aspace_def]
  have szb: "sz \<le> MAXVA" using a by simp
  have xy: "?x \<le> ?y" "?y \<le> 2 ^ 26" using npages_mono [OF sz'] npages_bound [OF szb] by simp_all
  have y: "?x + (?y - ?x) = ?y" using xy by simp
  note own = aspace_owns [OF sp dis]
  have "owns kend s pt free {?x..<?y}" by (rule owns_subset [OF own]) auto
  then obtain s' where s': "uvmunmap_loop kend pt (4096 * ?x) (4096 * ?y) True s = Ok s'"
    "vm_inv kend s' pt (rev (map ?p [?x..<?y]) @ free)" "tables 2 (kmemory s') pt = ?T"
    "frame (?p ` {?x..<?y} \<union> ?T) (kmemory s) (kmemory s')"
    "\<forall>i < 2 ^ 27. vmap (kmemory s') pt i = (if ?x \<le> i \<and> i < ?y then None else vmap (kmemory s) pt i)"
    using uvmunmap_loop_frees [of kend s pt free ?x "?y - ?x"] aspace_inv [OF sp dis inv] xy unfolding y by auto
  let ?free = "rev (map ?p [?x..<?y]) @ free"
  have v: "vmap (kmemory s') pt n = vmap (kmemory s) pt n" if "n < ?x" for n using s'(5) that xy by simp
  then have p: "page_at (kmemory s') pt n = ?p n" if "n < ?x" for n using that by (simp add: page_at_def)
  have img: "page_at (kmemory s') pt ` {..<?x} = ?p ` {..<?x}" by (rule image_cong) (use p in auto)
  have inj: "inj_on ?p {..<?y}" using a by simp
  have "inj_on (page_at (kmemory s') pt) {..<?x}"
    using inj_on_subset [OF inj, of "{..<?x}"] p xy(1) by (auto simp: inj_on_def)
  moreover have top: "?x \<le> 2 ^ 26 - 2" "?y \<le> 2 ^ 26 - 2" using npages_aspace a xy(1) by (auto intro: order_trans)
  moreover have "?p ` {..<?x} \<subseteq> ?p ` {..<?y}" using xy(1) by auto
  then have dT: "?p ` {..<?x} \<inter> ?T = {}" using a by blast
  ultimately have "aspace kend t (kmemory s') pt newsz tf"
    unfolding aspace_def img s'(3) using a v s'(2,5) sz' xy by (auto simp: vm_inv_def)
  moreover have split: "?p ` {..<?y} = ?p ` {..<?x} \<union> ?p ` {?x..<?y}" using xy(1) by (auto simp flip: image_Un intro: arg_cong [of _ _ "(`) ?p"])
  have "?p ` ({..<?x} \<inter> {?x..<?y}) = ?p ` {..<?x} \<inter> ?p ` {?x..<?y}"
    by (rule inj_on_image_Int [OF inj]) (use xy(1) in auto)
  then have parts: "?p ` {..<?x} \<inter> ?p ` {?x..<?y} = {}" by (auto simp: disjoint_iff)
  then have "footprint (kmemory s') pt newsz \<inter> set ?free = {}"
    using a dis s'(2,3) xy(1) unfolding footprint_def img split by (auto simp: vm_inv_def)
  moreover have "footprint (kmemory s') pt newsz \<union> set ?free = footprint (kmemory s) pt sz \<union> set free"
    unfolding footprint_def img split s'(3) by auto
  moreover have "frame (footprint (kmemory s) pt sz \<union> set free) (kmemory s) (kmemory s')"
    by (rule frame_mono [OF s'(4)]) (use split in \<open>auto simp: footprint_def\<close>)
  moreover have "same_on {?p n} (kmemory s) (kmemory s')" if "n < ?x" for n
  proof (rule frame_same [OF s'(4), of _ kend])
    show "\<forall>q \<in> ?p ` {?x..<?y} \<union> ?T \<union> {?p n}. phys_page kend q"
      using footprint_phys [OF sp] that split by (auto simp: footprint_def)
    show "{?p n} \<inter> (?p ` {?x..<?y} \<union> ?T) = {}" using parts dT that by blast
  qed
  ultimately have "moved kend t pt tf s sz free s' newsz ?free" using s'(2) v unfolding moved_def by (simp only: vm_inv_def) blast
  then show ?thesis using s'(1) uvmdealloc_npages [OF sz' szb, of kend pt s] by auto
qed

section \<open>Copying\<close>

lemma odd_or_1: "bit (f :: nat) 0 \<Longrightarrow> f OR 1 = f"
  by (rule bit_eqI) (auto simp: bit_or_iff bit_Suc_0_iff)

text \<open>What the child is to get for page \<open>i\<close> of the parent.\<close>

definition perm_of :: "mem \<Rightarrow> nat \<Rightarrow> nat \<Rightarrow> nat" where
  "perm_of m pt i = PTE_FLAGS (the (vmap m pt i))"

definition content_of :: "mem \<Rightarrow> nat \<Rightarrow> nat \<Rightarrow> nat \<Rightarrow> u8" where
  "content_of m pt i j = m (page_at m pt i + j)"

text \<open>The parent's page \<open>y\<close> is as it was at the start, whatever has been done to the child.\<close>

lemma parent_page:
  assumes sp: "aspace kend t (kmemory s0) old sz tf" and y: "y < npages sz"
    and g: "grown kend new perm cont x s0 free0 z s free"
    and dis: "footprint (kmemory s0) old sz \<inter> (tables 2 (kmemory s0) new \<union> set free0) = {}"
    and ph: "\<forall>q \<in> tables 2 (kmemory s0) new \<union> set free0. phys_page kend q"
  obtains p where "walk old (4096 * y) False s = Ok (p, s)" "p \<noteq> 0" "bit (rd64 (kmemory s) p) 0"
    "PTE2PA (rd64 (kmemory s) p) = page_at (kmemory s0) old y" "PTE_FLAGS (rd64 (kmemory s) p) = perm_of (kmemory s0) old y"
    "filled (content_of (kmemory s0) old y) (page_at (kmemory s0) old y) (kmemory s)"
    "perm_of (kmemory s0) old y < 1024" "perm_of (kmemory s0) old y OR 1 \<noteq> 1"
proof -
  note a = sp [unfolded aspace_def]
  have so: "same_on (footprint (kmemory s0) old sz) (kmemory s0) (kmemory s)"
    by (rule frame_same [of "tables 2 (kmemory s0) new \<union> set free0" _ _ _ kend])
      (use g ph dis footprint_phys [OF sp] in \<open>auto simp: grown_def\<close>)
  then have st: "same_on (tables 2 (kmemory s0) old) (kmemory s0) (kmemory s)" by (rule same_on_subset) (simp add: footprint_def)
  have v: "vmap (kmemory s) old y = vmap (kmemory s0) old y" using leafl_same [OF st] by (simp add: vmap_def)
  obtain e where e: "vmap (kmemory s0) old y = Some e" "PTE_FLAGS e \<noteq> 1" using a y by blast
  have ok: "tree_ok kend 2 (kmemory s) old" using tree_ok_same [OF st] a by simp
  have y26: "y < 2 ^ 26" using npages_top [of sz y] a y by simp
  obtain p where p: "walk old (4096 * y) False s = Ok (p, s)" "p \<noteq> 0" "rd64 (kmemory s) p = e" "bit e 0"
    using walk_mapped [OF ok, of y e] v e(1) y26 by auto
  have f: "perm_of (kmemory s0) old y = PTE_FLAGS e" "page_at (kmemory s0) old y = PTE2PA e" using e(1) by (simp_all add: perm_of_def page_at_def)
  have "bit (PTE_FLAGS e) 0" using p(4) by (simp add: PTE_FLAGS_def bit_0 dvd_mod_iff)
  then have "PTE_FLAGS e OR 1 \<noteq> 1" using odd_or_1 e(2) by simp
  moreover have "page_at (kmemory s0) old y \<in> footprint (kmemory s0) old sz" using y by (simp add: footprint_def)
  then have "filled (content_of (kmemory s0) old y) (page_at (kmemory s0) old y) (kmemory s)"
    using so by (auto simp: filled_def content_of_def same_on_def in_page_def)
  ultimately show ?thesis using that p f by (simp add: PTE_FLAGS_def)
qed

lemma frame_memmove: "frame {q} m (memmove q src 4096 m)"
  by (auto simp: frame_def memmove_eq store_def in_page_def)

lemma filled_memmove:
  assumes "filled c src m"
  shows "filled c q (memmove q src 4096 m)"
  using assms by (simp add: filled_def memmove_eq store_def)

lemma uvmcopy_loop_copies:
  assumes sp: "aspace kend t (kmemory s0) old sz tf"
    and dis: "footprint (kmemory s0) old sz \<inter> (tables 2 (kmemory s0) new \<union> set free0) = {}"
    and ph: "\<forall>q \<in> tables 2 (kmemory s0) new \<union> set free0. phys_page kend q"
    and un: "\<forall>i < npages sz. vmap (kmemory s0) new i = None"
    and "grown kend new (perm_of (kmemory s0) old) (content_of (kmemory s0) old) 0 s0 free0 y s free" "y \<le> npages sz"
  shows "\<exists>r s' free'. uvmcopy_loop kend old new (4096 * y) sz s = Ok (r, s') \<and>
    (r = 0 \<and> grown kend new (perm_of (kmemory s0) old) (content_of (kmemory s0) old) 0 s0 free0 (npages sz) s' free' \<or>
     r = -1 \<and> grown kend new (perm_of (kmemory s0) old) (content_of (kmemory s0) old) 0 s0 free0 0 s' free')"
  using assms(5,6)
proof (induction "npages sz - y" arbitrary: y s free)
  case 0
  then have "y = npages sz" by simp
  then show ?case using 0 npages_iff [of y sz] by (subst uvmcopy_loop.simps) auto
next
  case (Suc d)
  let ?g = "grown kend new (perm_of (kmemory s0) old) (content_of (kmemory s0) old) 0 s0 free0"
  have y: "y < npages sz" using Suc by simp
  then have lt: "4096 * y < sz" using npages_iff by simp
  have y26: "y < 2 ^ 26" using npages_top [OF _ y] sp by (simp add: aspace_def)
  have undo: "\<exists>s' free'. uvmcopy_err kend new (4096 * y) s1 = Ok (-1, s') \<and> ?g 0 s' free'" if "?g y s1 free1" for s1 free1
    using grown_undo [OF that] uvmunmap_pages [of 0 y kend new True s1] y26 by (auto simp: uvmcopy_err_def)
  obtain p where p: "walk old (4096 * y) False s = Ok (p, s)" "p \<noteq> 0" "bit (rd64 (kmemory s) p) 0"
    "PTE2PA (rd64 (kmemory s) p) = page_at (kmemory s0) old y" "PTE_FLAGS (rd64 (kmemory s) p) = perm_of (kmemory s0) old y"
    "filled (content_of (kmemory s0) old y) (page_at (kmemory s0) old y) (kmemory s)"
    "perm_of (kmemory s0) old y < 1024" "perm_of (kmemory s0) old y OR 1 \<noteq> 1"
    by (rule parent_page [OF sp y Suc.prems(1) dis ph])
  show ?case
  proof (cases free)
    case Nil
    then have "kalloc s = (0, s)" using Suc.prems(1) pages.alloc_none [of kend s] by (simp add: grown_def vm_inv_def)
    moreover obtain s' free' where "uvmcopy_err kend new (4096 * y) s = Ok (-1, s')" "?g 0 s' free'"
      using undo [OF Suc.prems(1)] by blast
    ultimately show ?thesis using lt p(1-3) by (subst uvmcopy_loop.simps) (auto simp: Let_def)
  next
    case (Cons q qs)
    have "vm_inv kend s new (q # qs)" using Suc.prems(1) Cons by (simp add: grown_def)
    then obtain s1 where t: "kalloc s = (q, s1)" "q \<noteq> 0" "kmem_inv kend s1 qs" "frame {q} (kmemory s) (kmemory s1)"
      "phys_page kend q" "q \<notin> tables 2 (kmemory s) new" "q \<notin> set qs" by (rule take_page)
    have pg: "page_at (kmemory s0) old y \<in> footprint (kmemory s0) old sz" using y by (simp add: footprint_def)
    have "q \<in> tables 2 (kmemory s0) new \<union> set free0" using Suc.prems(1) Cons by (auto simp: grown_def)
    then have "same_on {page_at (kmemory s0) old y} (kmemory s) (kmemory s1)"
      by (intro frame_same [OF t(4), of _ kend]) (use pg dis t(5) footprint_phys [OF sp] in auto)
    then have "filled (content_of (kmemory s0) old y) (page_at (kmemory s0) old y) (kmemory s1)" using filled_same p(6) by blast
    note fl = filled_memmove [OF this, of q]
    let ?sp = "s1\<lparr>kmemory := memmove q (page_at (kmemory s0) old y) 4096 (kmemory s1)\<rparr>"
    have v: "vmap (kmemory s0) new y = None" using un y by simp
    obtain r s2 where st: "mappages new (4096 * y) PGSIZE q (perm_of (kmemory s0) old y) ?sp = Ok (r, s2)"
      "if r = 0 then \<exists>free'. ?g (Suc y) s2 free' else r = -1 \<and> (\<exists>s3 free'. kfree kend q s2 = Ok s3 \<and> ?g y s3 free')"
      using grown_step [OF Suc.prems(1) [unfolded Cons] le0 y26 v p(7,8) t(5-7,3,4) refl frame_memmove fl] by (elim exE conjE)
    show ?thesis
    proof (cases "r = 0")
      case True
      then obtain free2 where g: "?g (Suc y) s2 free2" using st(2) by auto
      have "add64 (4096 * y) 4096 = 4096 * Suc y" using y26 by (simp add: add64_def)
      then have "uvmcopy_loop kend old new (4096 * y) sz s = uvmcopy_loop kend old new (4096 * Suc y) sz s2"
        using lt p(1-5) t(1,2) st(1) True by (subst uvmcopy_loop.simps) (simp add: Let_def)
      then show ?thesis using Suc.hyps(1) [OF _ g] Suc.hyps(2) y by simp
    next
      case False
      then obtain s3 free3 where s3: "kfree kend q s2 = Ok s3" "?g y s3 free3" using st(2) by auto
      obtain s' free' where "uvmcopy_err kend new (4096 * y) s3 = Ok (-1, s')" "?g 0 s' free'"
        using undo [OF s3(2)] by blast
      then show ?thesis using lt p(1-5) t(1,2) st(1) s3(1) False by (subst uvmcopy_loop.simps) (auto simp: Let_def)
    qed
  qed
qed

text \<open>The child shows the parent's pages: the same permissions and the same bytes, in pages of its own.\<close>

definition copy_of :: "mem \<Rightarrow> nat \<Rightarrow> mem \<Rightarrow> nat \<Rightarrow> nat \<Rightarrow> bool" where
  "copy_of m old m' new n \<longleftrightarrow> (\<forall>i < n. perm_of m' new i = perm_of m old i \<and> (\<forall>j < PGSIZE. content_of m' new i j = content_of m old i j))"

lemma grown_copy:
  assumes g: "grown kend new (perm_of m old) (content_of m old) 0 s0 free0 n s free" and n: "n \<le> 2 ^ 26"
    and odd: "\<forall>i < n. perm_of m old i < 1024 \<and> bit (perm_of m old i) 0"
  shows "copy_of m old (kmemory s) new n"
  unfolding copy_of_def
proof (intro allI impI conjI)
  fix i assume i: "i < n"
  note pg = grown_pages [OF g n le0 i]
  have q: "page_at (kmemory s) new i mod 4096 = 0" "page_at (kmemory s) new i < 2 ^ 56" using phys_page_bounds [OF pg(1)] by simp_all
  have "PTE_FLAGS (PA2PTE (page_at (kmemory s) new i) OR perm_of m old i OR 1) = perm_of m old i OR 1"
    using mapped_entry(4) [OF q] odd i by blast
  then show "perm_of (kmemory s) new i = perm_of m old i" using pg(3) odd_or_1 odd i by (simp add: perm_of_def [of "kmemory s"])
  fix j assume "j < PGSIZE"
  moreover have "filled (content_of m old i) (page_at (kmemory s) new i) (kmemory s)" using g i by (simp add: grown_def)
  ultimately show "content_of (kmemory s) new i j = content_of m old i j" by (simp add: filled_def content_of_def)
qed

lemma aspace_perm:
  assumes "aspace kend t m pt sz tf" "i < npages sz"
  shows "perm_of m pt i < 1024" "bit (perm_of m pt i) 0"
proof -
  obtain e where e: "vmap m pt i = Some e" using assms by (auto simp: aspace_def)
  then have "bit e 0" by (auto simp: vmap_def leafl_def split: option.splits if_splits)
  then show "perm_of m pt i < 1024" "bit (perm_of m pt i) 0" using e by (simp_all add: perm_of_def PTE_FLAGS_def bit_0 dvd_mod_iff)
qed

lemma uvmcopy_space:
  assumes old: "aspace kend t (kmemory s) old sz tf" and new: "aspace kend t (kmemory s) new 0 tf2"
    and dis: "footprint (kmemory s) new 0 \<inter> set free = {}" "footprint (kmemory s) old sz \<inter> (footprint (kmemory s) new 0 \<union> set free) = {}"
    and inv: "kmem_inv kend s free"
  shows "\<exists>r s' free'. uvmcopy kend old new sz s = Ok (r, s') \<and>
    (r = 0 \<and> moved kend t new tf2 s 0 free s' sz free' \<and> copy_of (kmemory s) old (kmemory s') new (npages sz) \<or>
     r = -1 \<and> moved kend t new tf2 s 0 free s' 0 free')"
proof -
  have z: "npages 0 = 0" by (simp add: npages_def)
  have fp: "footprint (kmemory s) new 0 = tables 2 (kmemory s) new" by (simp add: footprint_def z)
  have vi: "vm_inv kend s new free" by (rule aspace_inv [OF new dis(1) inv])
  have szb: "sz \<le> TRAPFRAME" "npages sz \<le> 2 ^ 26" using old npages_bound [of sz] by (simp_all add: aspace_def)
  have ph: "\<forall>q \<in> tables 2 (kmemory s) new \<union> set free. phys_page kend q"
    using vi tree_ok_phys free_pages [OF inv] by (auto simp: vm_inv_def)
  have un: "\<forall>i < npages sz. vmap (kmemory s) new i = None"
    using new npages_top [OF szb(1)] z unfolding aspace_def by fastforce
  obtain r s' free' where u: "uvmcopy_loop kend old new 0 sz s = Ok (r, s')"
    "r = 0 \<and> grown kend new (perm_of (kmemory s) old) (content_of (kmemory s) old) 0 s free (npages sz) s' free' \<or>
     r = -1 \<and> grown kend new (perm_of (kmemory s) old) (content_of (kmemory s) old) 0 s free 0 s' free'"
    using uvmcopy_loop_copies [OF old dis(2) [unfolded fp] ph un grown_start [OF vi] le0] by auto
  have "moved kend t new tf2 s 0 free s' sz free'"
    if "grown kend new (perm_of (kmemory s) old) (content_of (kmemory s) old) 0 s free (npages sz) s' free'"
    using aspace_grown [OF new dis(1) inv _ le0 szb(1)] that by (simp add: z)
  moreover have "moved kend t new tf2 s 0 free s' 0 free'"
    if "grown kend new (perm_of (kmemory s) old) (content_of (kmemory s) old) 0 s free 0 s' free'"
    using aspace_grown [OF new dis(1) inv _ order_refl] that by (simp add: z)
  ultimately show ?thesis
    using u grown_copy [OF _ szb(2)] aspace_perm [OF old] unfolding uvmcopy_def by blast
qed

end
