(* ===== verification/Txn_Interface.thy ===== *)
theory Txn_Interface
  imports Prelude
begin

text \<open>
  What the file system relies on inside a transaction: a block is locked with \<open>getb\<close>, its
  contents may be changed, \<open>logw\<close> makes the change part of the transaction, and \<open>putb\<close>
  gives the block back. \<open>view\<close> is the contents of a block as the transaction sees it,
  \<open>logged\<close> the blocks of the transaction, \<open>busy\<close> the blocks in use at the moment, and
  \<open>clean\<close> says that a block has no changes that are not on disk. A block with changes must
  not be given back before it has been logged. \<open>rest\<close> is the state of the client, which the store leaves alone.
\<close>

locale txn_store =
  fixes inv :: "'s \<Rightarrow> bool"
    and block_ok :: "'d \<Rightarrow> bool"
    and held :: "'s \<Rightarrow> 'h \<Rightarrow> nat \<Rightarrow> bool"
    and busy :: "'s \<Rightarrow> nat set"
    and logged :: "'s \<Rightarrow> nat set"
    and view :: "'s \<Rightarrow> nat \<Rightarrow> 'd"
    and clean :: "'s \<Rightarrow> nat \<Rightarrow> bool"
    and buffers :: nat
    and room :: "'s \<Rightarrow> nat"
    and rest :: "'s \<Rightarrow> 'r"
    and data :: "'s \<Rightarrow> 'h \<Rightarrow> 'd"
    and set_data :: "'h \<Rightarrow> 'd \<Rightarrow> 's \<Rightarrow> 's"
    and getb :: "nat \<Rightarrow> 's \<Rightarrow> ('h \<times> 's) res"
    and logw :: "'h \<Rightarrow> 's \<Rightarrow> 's res"
    and putb :: "'h \<Rightarrow> 's \<Rightarrow> 's res"
  assumes finite_used: "inv s \<Longrightarrow> finite (logged s \<union> busy s)"
    and view_ok: "inv s \<Longrightarrow> block_ok (view s b)"
    and data_view: "inv s \<Longrightarrow> held s h b \<Longrightarrow> data s h = view s b"
    and idle_clean: "inv s \<Longrightarrow> b \<notin> busy s \<Longrightarrow> b \<notin> logged s \<Longrightarrow> clean s b"
    and getb_ok: "inv s \<Longrightarrow> b \<notin> busy s \<Longrightarrow> b \<in> logged s \<or> card (logged s \<union> busy s) < buffers \<Longrightarrow>
      \<exists>h s'. getb b s = Ok (h, s') \<and> inv s' \<and> held s' h b \<and> busy s' = insert b (busy s) \<and>
        logged s' = logged s \<and> view s' = view s \<and> clean s' = clean s \<and> room s' = room s \<and> rest s' = rest s \<and>
        (\<forall>h' b'. held s h' b' \<longrightarrow> held s' h' b')"
    and set_data_ok: "inv s \<Longrightarrow> held s h b \<Longrightarrow> block_ok d \<Longrightarrow>
      inv (set_data h d s) \<and> held (set_data h d s) = held s \<and> busy (set_data h d s) = busy s \<and>
      logged (set_data h d s) = logged s \<and> view (set_data h d s) = (view s)(b := d) \<and>
      (\<forall>b'. b' \<noteq> b \<longrightarrow> clean (set_data h d s) b' = clean s b') \<and> room (set_data h d s) = room s \<and>
      rest (set_data h d s) = rest s"
    and logw_ok: "inv s \<Longrightarrow> held s h b \<Longrightarrow> 0 < room s \<Longrightarrow>
      \<exists>s'. logw h s = Ok s' \<and> inv s' \<and> held s' = held s \<and> busy s' = busy s \<and>
        logged s' = insert b (logged s) \<and> view s' = view s \<and> clean s' = clean s \<and>
        room s' = (if b \<in> logged s then room s else room s - 1) \<and> rest s' = rest s"
    and putb_ok: "inv s \<Longrightarrow> held s h b \<Longrightarrow> b \<in> logged s \<or> clean s b \<Longrightarrow>
      \<exists>s'. putb h s = Ok s' \<and> inv s' \<and> busy s' = busy s - {b} \<and> logged s' = logged s \<and>
        view s' = view s \<and> clean s' = clean s \<and> room s' = room s \<and> rest s' = rest s \<and>
        (\<forall>h' b'. h' \<noteq> h \<longrightarrow> held s' h' b' = held s h' b')"
    and held_inj: "inv s \<Longrightarrow> held s h b \<Longrightarrow> held s h' b' \<Longrightarrow> h = h' \<longleftrightarrow> b = b'"
    and held_busy: "inv s \<Longrightarrow> held s h b \<Longrightarrow> b \<in> busy s"
begin

text \<open>
  The two idioms of the file system: look at a block, and change a block. Handles held
  before stay valid, so both may be used while other blocks are locked.
\<close>

lemma look:
  assumes "inv s" "b \<notin> busy s" "b \<in> logged s \<or> card (logged s \<union> busy s) < buffers"
  shows "\<exists>h s1 s'. getb b s = Ok (h, s1) \<and> data s1 h = view s b \<and> putb h s1 = Ok s' \<and> inv s' \<and>
    busy s' = busy s \<and> logged s' = logged s \<and> view s' = view s \<and> clean s' = clean s \<and> room s' = room s \<and> rest s' = rest s \<and>
    (\<forall>h' b'. held s h' b' \<longrightarrow> held s' h' b')"
proof -
  obtain h s1 where 1: "getb b s = Ok (h, s1)" "inv s1" "held s1 h b" "busy s1 = insert b (busy s)"
      "logged s1 = logged s" "view s1 = view s" "clean s1 = clean s" "room s1 = room s" "rest s1 = rest s"
      "\<forall>h' b'. held s h' b' \<longrightarrow> held s1 h' b'"
    using getb_ok [OF assms] by blast
  have "b \<in> logged s1 \<or> clean s1 b" using idle_clean [OF assms(1,2)] 1 by auto
  then obtain s' where 2: "putb h s1 = Ok s'" "inv s'" "busy s' = busy s1 - {b}" "logged s' = logged s1"
      "view s' = view s1" "clean s' = clean s1" "room s' = room s1" "rest s' = rest s1"
      "\<forall>h' b'. h' \<noteq> h \<longrightarrow> held s' h' b' = held s1 h' b'"
    using putb_ok [OF 1(2,3)] by blast
  have other: "held s' h' b'" if "held s h' b'" for h' b'
  proof -
    have "b' \<noteq> b" using held_busy [OF assms(1) that] assms(2) by blast
    then have "h' \<noteq> h" using 1(10) that held_inj [OF 1(2,3), of h' b'] by blast
    then show ?thesis using 1(10) 2(9) that by blast
  qed
  show ?thesis using 1 2 data_view [OF 1(2,3)] assms(2) other by (intro exI [of _ h] exI [of _ s1] exI [of _ s']) auto
qed

lemma change:
  assumes "inv s" "b \<notin> busy s" "b \<in> logged s \<or> card (logged s \<union> busy s) < buffers" "0 < room s"
    and d: "block_ok (f (view s b))"
  shows "\<exists>h s1 s2 s'. getb b s = Ok (h, s1) \<and> data s1 h = view s b \<and>
    logw h (set_data h (f (view s b)) s1) = Ok s2 \<and> putb h s2 = Ok s' \<and> inv s' \<and>
    busy s' = busy s \<and> logged s' = insert b (logged s) \<and> view s' = (view s)(b := f (view s b)) \<and>
    room s' = (if b \<in> logged s then room s else room s - 1) \<and> rest s' = rest s \<and>
    (\<forall>b'. b' \<noteq> b \<longrightarrow> clean s' b' = clean s b') \<and> (\<forall>h' b'. held s h' b' \<longrightarrow> held s' h' b')"
proof -
  obtain h s1 where 1: "getb b s = Ok (h, s1)" "inv s1" "held s1 h b" "busy s1 = insert b (busy s)"
      "logged s1 = logged s" "view s1 = view s" "clean s1 = clean s" "room s1 = room s" "rest s1 = rest s"
      "\<forall>h' b'. held s h' b' \<longrightarrow> held s1 h' b'"
    using getb_ok [OF assms(1-3)] by blast
  define t where "t = set_data h (f (view s b)) s1"
  have t: "inv t" "held t = held s1" "busy t = busy s1" "logged t = logged s1" "view t = (view s)(b := f (view s b))"
      "\<forall>b'. b' \<noteq> b \<longrightarrow> clean t b' = clean s1 b'" "room t = room s1" "rest t = rest s1"
    using set_data_ok [OF 1(2,3) d] 1(6) by (auto simp: t_def)
  have ht: "held t h b" "0 < room t" using t 1 assms(4) by auto
  obtain s2 where 2: "logw h t = Ok s2" "inv s2" "held s2 = held t" "busy s2 = busy t"
      "logged s2 = insert b (logged t)" "view s2 = view t" "clean s2 = clean t"
      "room s2 = (if b \<in> logged t then room t else room t - 1)" "rest s2 = rest t"
    using logw_ok [OF t(1) ht] by blast
  have "held s2 h b" "b \<in> logged s2 \<or> clean s2 b" using 2 ht by auto
  then obtain s' where 3: "putb h s2 = Ok s'" "inv s'" "busy s' = busy s2 - {b}" "logged s' = logged s2"
      "view s' = view s2" "clean s' = clean s2" "room s' = room s2" "rest s' = rest s2"
      "\<forall>h' b'. h' \<noteq> h \<longrightarrow> held s' h' b' = held s2 h' b'"
    using putb_ok [OF 2(2)] by blast
  have other: "held s' h' b'" if "held s h' b'" for h' b'
  proof -
    have "b' \<noteq> b" using held_busy [OF assms(1) that] assms(2) by blast
    then have "h' \<noteq> h" using 1(10) that held_inj [OF 1(2,3), of h' b'] by blast
    then show ?thesis using 1(10) 2(3) t(2) 3(9) that by auto
  qed
  have "busy s' = busy s" using 3 2 t 1 assms(2) by auto
  moreover have "logged s' = insert b (logged s)" "view s' = (view s)(b := f (view s b))"
      "room s' = (if b \<in> logged s then room s else room s - 1)" "\<forall>b'. b' \<noteq> b \<longrightarrow> clean s' b' = clean s b'"
      "rest s' = rest s"
    using 3 2 t 1 by auto
  ultimately show ?thesis
    using 1(1) 2(1) [unfolded t_def] 3(1,2) data_view [OF 1(2,3)] 1(6) other
    by (intro exI [of _ h] exI [of _ s1] exI [of _ s2] exI [of _ s']) auto
qed

end

end
