(* ===== verification/Fs.thy ===== *)
theory Fs
  imports Log Txn_Interface
begin

text \<open>
  The file system layers of \<^verbatim>\<open>kernel/fs.c\<close>, on top of the log and the buffer cache: the block
  allocator, inodes and their contents. \<open>pid\<close> is the calling process; an inode pointer is the
  index of its entry in \<^verbatim>\<open>itable.inode\<close>. The functions keep the order of the calls of
  \<^verbatim>\<open>bread\<close>, \<^verbatim>\<open>log_write\<close> and \<^verbatim>\<open>brelse\<close> of the source. Sections under \<^verbatim>\<open>itable.lock\<close> are
  atomic, and no other process runs while one waits for the disk. Console messages are left out.
\<close>

section \<open>Data\<close>

abbreviation (input) BPB :: nat where "BPB \<equiv> 8192"
abbreviation (input) IPB :: nat where "IPB \<equiv> 16"
abbreviation (input) NINODE :: nat where "NINODE \<equiv> 50"
abbreviation (input) NDIRECT :: nat where "NDIRECT \<equiv> 12"
abbreviation (input) NINDIRECT :: nat where "NINDIRECT \<equiv> 256"
abbreviation (input) MAXFILE :: nat where "MAXFILE \<equiv> 268"
abbreviation (input) FSMAGIC :: nat where "FSMAGIC \<equiv> 0x10203040"
abbreviation (input) ROOTINO :: nat where "ROOTINO \<equiv> 1"
abbreviation (input) T_DIR :: int where "T_DIR \<equiv> 1"
abbreviation (input) T_FILE :: int where "T_FILE \<equiv> 2"
abbreviation (input) T_DEVICE :: int where "T_DEVICE \<equiv> 3"

record superblock =
  sb_magic :: nat
  sb_size :: nat
  sb_nblocks :: nat
  sb_ninodes :: nat
  sb_nlog :: nat
  sb_logstart :: nat
  sb_inodestart :: nat
  sb_bmapstart :: nat

record dinode =
  d_type :: int
  d_major :: int
  d_minor :: int
  d_nlink :: int
  d_size :: nat
  d_addrs :: "nat list"

record inode =
  i_dev :: nat
  i_inum :: nat
  i_ref :: int
  i_lock :: sleeplock
  i_valid :: bool
  i_type :: int
  i_major :: int
  i_minor :: int
  i_nlink :: int
  i_size :: nat
  i_addrs :: "nat list"

record fsys =
  flog :: fs
  sb :: superblock
  itable :: "inode list"

definition IBLOCK :: "nat \<Rightarrow> fsys \<Rightarrow> nat" where
  "IBLOCK i s = i div IPB + sb_inodestart (sb s)"

definition BBLOCK :: "nat \<Rightarrow> fsys \<Rightarrow> nat" where
  "BBLOCK b s = b div BPB + sb_bmapstart (sb s)"

definition upd_inode :: "nat \<Rightarrow> (inode \<Rightarrow> inode) \<Rightarrow> fsys \<Rightarrow> fsys" where
  "upd_inode ip f s = s\<lparr>itable := (itable s)[ip := f (itable s ! ip)]\<rparr>"

text \<open>The calls into the lower layers, on this state.\<close>

definition f_bread :: "int \<Rightarrow> nat \<Rightarrow> nat \<Rightarrow> fsys \<Rightarrow> (nat \<times> fsys) res" where
  "f_bread pid dev b s =
     bind_res (bread pid dev b (fbio (flog s))) (\<lambda>(h, c). Ok (h, s\<lparr>flog := (flog s)\<lparr>fbio := c\<rparr>\<rparr>))"

definition f_brelse :: "int \<Rightarrow> nat \<Rightarrow> fsys \<Rightarrow> fsys res" where
  "f_brelse pid h s =
     bind_res (brelse pid h (fbio (flog s))) (\<lambda>c. Ok (s\<lparr>flog := (flog s)\<lparr>fbio := c\<rparr>\<rparr>))"

definition f_log_write :: "nat \<Rightarrow> fsys \<Rightarrow> fsys res" where
  "f_log_write h s = bind_res (log_write h (flog s)) (\<lambda>l. Ok (s\<lparr>flog := l\<rparr>))"

definition f_data :: "fsys \<Rightarrow> nat \<Rightarrow> block" where
  "f_data s h = data (fbio (flog s)) h"

definition f_set_data :: "nat \<Rightarrow> block \<Rightarrow> fsys \<Rightarrow> fsys" where
  "f_set_data h d s = s\<lparr>flog := (flog s)\<lparr>fbio := set_data h d (fbio (flog s))\<rparr>\<rparr>"

section \<open>The superblock\<close>

definition get_superblock :: "block \<Rightarrow> superblock" where
  "get_superblock d = \<lparr>sb_magic = get_le 4 0 d, sb_size = get_le 4 4 d, sb_nblocks = get_le 4 8 d,
     sb_ninodes = get_le 4 12 d, sb_nlog = get_le 4 16 d, sb_logstart = get_le 4 20 d,
     sb_inodestart = get_le 4 24 d, sb_bmapstart = get_le 4 28 d\<rparr>"

definition readsb :: "int \<Rightarrow> nat \<Rightarrow> fsys \<Rightarrow> fsys res" where
  "readsb pid dev s =
     bind_res (f_bread pid dev 1 s) (\<lambda>(bp, s).
     f_brelse pid bp (s\<lparr>sb := get_superblock (f_data s bp)\<rparr>))"

definition fsinit :: "int \<Rightarrow> nat \<Rightarrow> fsys \<Rightarrow> fsys res" where
  "fsinit pid dev s =
     bind_res (readsb pid dev s) (\<lambda>s.
     if sb_magic (sb s) \<noteq> FSMAGIC then Panic ''invalid file system''
     else bind_res (initlog pid dev (sb_logstart (sb s)) (sb_nlog (sb s)) (flog s)) (\<lambda>l. Ok (s\<lparr>flog := l\<rparr>)))"

section \<open>The block allocator\<close>

definition zero_block :: block where
  "zero_block = replicate BSIZE 0"

definition bzero :: "int \<Rightarrow> nat \<Rightarrow> nat \<Rightarrow> fsys \<Rightarrow> fsys res" where
  "bzero pid dev bno s =
     bind_res (f_bread pid dev bno s) (\<lambda>(bp, s).
     bind_res (f_log_write bp (f_set_data bp zero_block s)) (f_brelse pid bp))"

definition bit_mask :: "nat \<Rightarrow> u8" where
  "bit_mask bi = push_bit (bi mod 8) 1"

text \<open>The inner loop, over the \<open>k\<close> bits from \<open>bi\<close> on.\<close>

fun find_free :: "block \<Rightarrow> nat \<Rightarrow> nat \<Rightarrow> nat \<Rightarrow> nat \<Rightarrow> nat option" where
  "find_free d sz b bi 0 = None"
| "find_free d sz b bi (Suc k) =
     (if \<not> b + bi < sz then None
      else if and (d ! (bi div 8)) (bit_mask bi) = 0 then Some bi
      else find_free d sz b (bi + 1) k)"

text \<open>The outer loop, over the bitmap blocks: \<open>bs\<close> are the values of \<^verbatim>\<open>b\<close> still to come.\<close>

fun balloc_loop :: "int \<Rightarrow> nat \<Rightarrow> nat list \<Rightarrow> fsys \<Rightarrow> (nat \<times> fsys) res" where
  "balloc_loop pid dev [] s = Ok (0, s)"
| "balloc_loop pid dev (b # bs) s =
     bind_res (f_bread pid dev (BBLOCK b s) s) (\<lambda>(bp, s).
     case find_free (f_data s bp) (sb_size (sb s)) b 0 BPB of
       Some bi \<Rightarrow>
         (let d = f_data s bp
          in bind_res (f_log_write bp (f_set_data bp (d[bi div 8 := or (d ! (bi div 8)) (bit_mask bi)]) s)) (\<lambda>s.
             bind_res (f_brelse pid bp s) (\<lambda>s.
             bind_res (bzero pid dev (b + bi) s) (\<lambda>s. Ok (b + bi, s)))))
     | None \<Rightarrow> bind_res (f_brelse pid bp s) (balloc_loop pid dev bs))"

definition balloc :: "int \<Rightarrow> nat \<Rightarrow> fsys \<Rightarrow> (nat \<times> fsys) res" where
  "balloc pid dev s =
     balloc_loop pid dev (map (\<lambda>k. k * BPB) [0..<(sb_size (sb s) + BPB - 1) div BPB]) s"

definition bfree :: "int \<Rightarrow> nat \<Rightarrow> nat \<Rightarrow> fsys \<Rightarrow> fsys res" where
  "bfree pid dev b s =
     bind_res (f_bread pid dev (BBLOCK b s) s) (\<lambda>(bp, s).
     let bi = b mod BPB;
         d = f_data s bp
     in if and (d ! (bi div 8)) (bit_mask bi) = 0 then Panic ''freeing free block''
        else
          bind_res (f_log_write bp
            (f_set_data bp (d[bi div 8 := and (d ! (bi div 8)) (not (bit_mask bi))]) s)) (f_brelse pid bp))"

section \<open>Inodes on disk\<close>

definition s16 :: "int \<Rightarrow> int" where
  "s16 x = (x + 2 ^ 15) mod 2 ^ 16 - 2 ^ 15"

definition get_short :: "nat \<Rightarrow> block \<Rightarrow> int" where
  "get_short i d = s16 (int (get_le 2 i d))"

definition put_short :: "nat \<Rightarrow> int \<Rightarrow> block \<Rightarrow> block" where
  "put_short i x d = put_le 2 i (nat (x mod 2 ^ 16)) d"

text \<open>The inode at byte \<open>i\<close> of a block: \<^verbatim>\<open>struct dinode\<close> is 64 bytes long.\<close>

definition get_dinode :: "nat \<Rightarrow> block \<Rightarrow> dinode" where
  "get_dinode i d = \<lparr>d_type = get_short i d, d_major = get_short (i + 2) d, d_minor = get_short (i + 4) d,
     d_nlink = get_short (i + 6) d, d_size = get_le 4 (i + 8) d,
     d_addrs = map (\<lambda>k. get_le 4 (i + 12 + 4 * k) d) [0..<NDIRECT + 1]\<rparr>"

fun put_addrs :: "nat list \<Rightarrow> nat \<Rightarrow> nat list \<Rightarrow> block \<Rightarrow> block" where
  "put_addrs [] i as d = d"
| "put_addrs (k # ks) i as d = put_addrs ks i as (put_le 4 (i + 12 + 4 * k) (as ! k) d)"

definition put_inode :: "nat \<Rightarrow> inode \<Rightarrow> block \<Rightarrow> block" where
  "put_inode i ip d =
     (let d = put_short i (i_type ip) d;
          d = put_short (i + 2) (i_major ip) d;
          d = put_short (i + 4) (i_minor ip) d;
          d = put_short (i + 6) (i_nlink ip) d;
          d = put_le 4 (i + 8) (i_size ip) d
      in put_addrs [0..<NDIRECT + 1] i (i_addrs ip) d)"

definition iupdate :: "int \<Rightarrow> nat \<Rightarrow> fsys \<Rightarrow> fsys res" where
  "iupdate pid ip s =
     (let i = itable s ! ip
      in bind_res (f_bread pid (i_dev i) (IBLOCK (i_inum i) s) s) (\<lambda>(bp, s).
         bind_res (f_log_write bp (f_set_data bp (put_inode (64 * (i_inum i mod IPB)) i (f_data s bp)) s))
           (f_brelse pid bp)))"

section \<open>The inode table\<close>

definition iinit :: "fsys \<Rightarrow> fsys" where
  "iinit s = s\<lparr>itable := map (\<lambda>i. i\<lparr>i_lock := initsleeplock\<rparr>) (itable s)\<rparr>"

text \<open>The loop of \<^verbatim>\<open>iget\<close>: the entry that has the inode, or the first free one.\<close>

fun iget_scan :: "nat \<Rightarrow> nat \<Rightarrow> nat \<Rightarrow> nat option \<Rightarrow> inode list \<Rightarrow> nat option \<times> nat option" where
  "iget_scan dev inum k emp [] = (None, emp)"
| "iget_scan dev inum k emp (i # is) =
     (if 0 < i_ref i \<and> i_dev i = dev \<and> i_inum i = inum then (Some k, emp)
      else iget_scan dev inum (k + 1) (if emp = None \<and> i_ref i = 0 then Some k else emp) is)"

definition iget :: "nat \<Rightarrow> nat \<Rightarrow> fsys \<Rightarrow> (nat \<times> fsys) res" where
  "iget dev inum s =
     (case iget_scan dev inum 0 None (itable s) of
        (Some ip, _) \<Rightarrow> Ok (ip, upd_inode ip (\<lambda>i. i\<lparr>i_ref := i_ref i + 1\<rparr>) s)
      | (None, None) \<Rightarrow> Panic ''iget: no inodes''
      | (None, Some ip) \<Rightarrow>
          Ok (ip, upd_inode ip (\<lambda>i. i\<lparr>i_dev := dev, i_inum := inum, i_ref := 1, i_valid := False\<rparr>) s))"

definition idup :: "nat \<Rightarrow> fsys \<Rightarrow> nat \<times> fsys" where
  "idup ip s = (ip, upd_inode ip (\<lambda>i. i\<lparr>i_ref := i_ref i + 1\<rparr>) s)"

fun ialloc_loop :: "int \<Rightarrow> nat \<Rightarrow> int \<Rightarrow> nat list \<Rightarrow> fsys \<Rightarrow> (nat option \<times> fsys) res" where
  "ialloc_loop pid dev ty [] s = Ok (None, s)"
| "ialloc_loop pid dev ty (inum # is) s =
     bind_res (f_bread pid dev (IBLOCK inum s) s) (\<lambda>(bp, s).
     let d = f_data s bp;
         i = 64 * (inum mod IPB)
     in if get_short i d = 0 then
          bind_res (f_log_write bp (f_set_data bp
            (put_short i ty (take i d @ replicate 64 0 @ drop (i + 64) d)) s)) (\<lambda>s.
          bind_res (f_brelse pid bp s) (\<lambda>s.
          bind_res (iget dev inum s) (\<lambda>(ip, s). Ok (Some ip, s))))
        else bind_res (f_brelse pid bp s) (ialloc_loop pid dev ty is))"

definition ialloc :: "int \<Rightarrow> nat \<Rightarrow> int \<Rightarrow> fsys \<Rightarrow> (nat option \<times> fsys) res" where
  "ialloc pid dev ty s = ialloc_loop pid dev ty [1..<sb_ninodes (sb s)] s"

definition load_inode :: "dinode \<Rightarrow> inode \<Rightarrow> inode" where
  "load_inode di i = i\<lparr>i_type := d_type di, i_major := d_major di, i_minor := d_minor di,
     i_nlink := d_nlink di, i_size := d_size di, i_addrs := d_addrs di\<rparr>"

definition ilock :: "int \<Rightarrow> nat \<Rightarrow> fsys \<Rightarrow> fsys res" where
  "ilock pid ip s =
     (if i_ref (itable s ! ip) < 1 then Panic ''ilock''
      else
        bind_res (acquiresleep pid (i_lock (itable s ! ip))) (\<lambda>lk.
        let s = upd_inode ip (\<lambda>i. i\<lparr>i_lock := lk\<rparr>) s;
            i = itable s ! ip
        in if \<not> i_valid i then
             bind_res (f_bread pid (i_dev i) (IBLOCK (i_inum i) s) s) (\<lambda>(bp, s).
             let s = upd_inode ip (load_inode (get_dinode (64 * (i_inum i mod IPB)) (f_data s bp))) s
             in bind_res (f_brelse pid bp s) (\<lambda>s.
                let s = upd_inode ip (\<lambda>i. i\<lparr>i_valid := True\<rparr>) s
                in if i_type (itable s ! ip) = 0 then Panic ''ilock: no type'' else Ok s))
           else Ok s))"

definition iunlock :: "int \<Rightarrow> nat \<Rightarrow> fsys \<Rightarrow> fsys res" where
  "iunlock pid ip s =
     (if \<not> holdingsleep pid (i_lock (itable s ! ip)) \<or> i_ref (itable s ! ip) < 1 then Panic ''iunlock''
      else Ok (upd_inode ip (\<lambda>i. i\<lparr>i_lock := releasesleep (i_lock i)\<rparr>) s))"

section \<open>Inode contents\<close>

definition set_addr :: "nat \<Rightarrow> nat \<Rightarrow> nat \<Rightarrow> fsys \<Rightarrow> fsys" where
  "set_addr ip k a s = upd_inode ip (\<lambda>i. i\<lparr>i_addrs := (i_addrs i)[k := a]\<rparr>) s"

text \<open>The address in \<^verbatim>\<open>ip->addrs[k]\<close>, allocated if there is none.\<close>

definition bmap_direct :: "int \<Rightarrow> nat \<Rightarrow> nat \<Rightarrow> fsys \<Rightarrow> (nat \<times> fsys) res" where
  "bmap_direct pid ip k s =
     (let addr = i_addrs (itable s ! ip) ! k
      in if addr = 0 then
           bind_res (balloc pid (i_dev (itable s ! ip)) s) (\<lambda>(addr, s).
           if addr = 0 then Ok (0, s) else Ok (addr, set_addr ip k addr s))
         else Ok (addr, s))"

text \<open>The same for entry \<open>bn\<close> of the indirect block in buffer \<open>bp\<close>.\<close>

definition bmap_indirect :: "int \<Rightarrow> nat \<Rightarrow> nat \<Rightarrow> nat \<Rightarrow> fsys \<Rightarrow> (nat \<times> fsys) res" where
  "bmap_indirect pid dev bp bn s =
     (let addr = get_le 4 (4 * bn) (f_data s bp)
      in if addr = 0 then
           bind_res (balloc pid dev s) (\<lambda>(addr, s).
           if addr \<noteq> 0 then
             bind_res (f_log_write bp (f_set_data bp (put_le 4 (4 * bn) addr (f_data s bp)) s)) (\<lambda>s. Ok (addr, s))
           else Ok (addr, s))
         else Ok (addr, s))"

definition bmap :: "int \<Rightarrow> nat \<Rightarrow> nat \<Rightarrow> fsys \<Rightarrow> (nat \<times> fsys) res" where
  "bmap pid ip bn s =
     (if bn < NDIRECT then bmap_direct pid ip bn s
      else if bn - NDIRECT < NINDIRECT then
        bind_res (bmap_direct pid ip NDIRECT s) (\<lambda>(addr, s).
        if addr = 0 then Ok (0, s)
        else
          bind_res (f_bread pid (i_dev (itable s ! ip)) addr s) (\<lambda>(bp, s).
          bind_res (bmap_indirect pid (i_dev (itable s ! ip)) bp (bn - NDIRECT) s) (\<lambda>(addr, s).
          bind_res (f_brelse pid bp s) (\<lambda>s. Ok (addr, s)))))
      else Panic ''bmap: out of range'')"

fun trunc_direct :: "int \<Rightarrow> nat \<Rightarrow> nat list \<Rightarrow> fsys \<Rightarrow> fsys res" where
  "trunc_direct pid ip [] s = Ok s"
| "trunc_direct pid ip (k # ks) s =
     (let a = i_addrs (itable s ! ip) ! k
      in if a \<noteq> 0 then
           bind_res (bfree pid (i_dev (itable s ! ip)) a s) (\<lambda>s. trunc_direct pid ip ks (set_addr ip k 0 s))
         else trunc_direct pid ip ks s)"

fun free_all :: "int \<Rightarrow> nat \<Rightarrow> nat list \<Rightarrow> fsys \<Rightarrow> fsys res" where
  "free_all pid dev [] s = Ok s"
| "free_all pid dev (a # as) s =
     (if a \<noteq> 0 then bind_res (bfree pid dev a s) (free_all pid dev as) else free_all pid dev as s)"

definition itrunc :: "int \<Rightarrow> nat \<Rightarrow> fsys \<Rightarrow> fsys res" where
  "itrunc pid ip s =
     bind_res (trunc_direct pid ip [0..<NDIRECT] s) (\<lambda>s.
     let dev = i_dev (itable s ! ip);
         a = i_addrs (itable s ! ip) ! NDIRECT
     in bind_res
          (if a \<noteq> 0 then
             bind_res (f_bread pid dev a s) (\<lambda>(bp, s).
             bind_res (free_all pid dev (map (\<lambda>j. get_le 4 (4 * j) (f_data s bp)) [0..<NINDIRECT]) s) (\<lambda>s.
             bind_res (f_brelse pid bp s) (\<lambda>s.
             bind_res (bfree pid dev a s) (\<lambda>s. Ok (set_addr ip NDIRECT 0 s)))))
           else Ok s) (\<lambda>s.
        iupdate pid ip (upd_inode ip (\<lambda>i. i\<lparr>i_size := 0\<rparr>) s)))"

definition iput :: "int \<Rightarrow> nat \<Rightarrow> fsys \<Rightarrow> fsys res" where
  "iput pid ip s =
     (let i = itable s ! ip
      in bind_res
           (if i_ref i = 1 \<and> i_valid i \<and> i_nlink i = 0 then
              bind_res (acquiresleep pid (i_lock i)) (\<lambda>lk.
              bind_res (itrunc pid ip (upd_inode ip (\<lambda>i. i\<lparr>i_lock := lk\<rparr>) s)) (\<lambda>s.
              bind_res (iupdate pid ip (upd_inode ip (\<lambda>i. i\<lparr>i_type := 0\<rparr>) s)) (\<lambda>s.
              Ok (upd_inode ip (\<lambda>i. i\<lparr>i_valid := False, i_lock := releasesleep (i_lock i)\<rparr>) s))))
            else Ok s) (\<lambda>s.
         Ok (upd_inode ip (\<lambda>i. i\<lparr>i_ref := i_ref i - 1\<rparr>) s)))"

definition iunlockput :: "int \<Rightarrow> nat \<Rightarrow> fsys \<Rightarrow> fsys res" where
  "iunlockput pid ip s = bind_res (iunlock pid ip s) (iput pid ip)"

record stat =
  st_dev :: int
  st_ino :: nat
  st_type :: int
  st_nlink :: int
  st_size :: nat

definition stati :: "nat \<Rightarrow> fsys \<Rightarrow> stat" where
  "stati ip s = (let i = itable s ! ip in
     \<lparr>st_dev = int (i_dev i), st_ino = i_inum i, st_type = i_type i, st_nlink = i_nlink i, st_size = i_size i\<rparr>)"

text \<open>
  \<^verbatim>\<open>readi\<close> and \<^verbatim>\<open>writei\<close>. User and kernel memory are parameters: \<open>cout a m\<close> says whether \<open>m\<close>
  bytes can be stored at \<open>a\<close>, and \<open>cin a m\<close> are the \<open>m\<close> bytes at \<open>a\<close> if they can be read.
  The bytes that were stored are collected in \<open>out\<close>. \<^verbatim>\<open>uint\<close> sums wrap at 32 bits.
\<close>

function readi_loop ::
  "int \<Rightarrow> (nat \<Rightarrow> nat \<Rightarrow> bool) \<Rightarrow> nat \<Rightarrow> nat \<Rightarrow> nat \<Rightarrow> nat \<Rightarrow> nat \<Rightarrow> u8 list \<Rightarrow> fsys \<Rightarrow> ((int \<times> u8 list) \<times> fsys) res" where
  "readi_loop pid cout ip dst off n tot out s =
     (if \<not> tot < n then Ok ((int tot, out), s)
      else
        bind_res (bmap pid ip (off div BSIZE) s) (\<lambda>(addr, s).
        if addr = 0 then Ok ((int tot, out), s)
        else
          bind_res (f_bread pid (i_dev (itable s ! ip)) addr s) (\<lambda>(bp, s).
          let m = min (n - tot) (BSIZE - off mod BSIZE);
              bs = take m (drop (off mod BSIZE) (f_data s bp))
          in if \<not> cout dst m then bind_res (f_brelse pid bp s) (\<lambda>s. Ok ((-1, out), s))
             else bind_res (f_brelse pid bp s)
                    (readi_loop pid cout ip (dst + m) (off + m) n (tot + m) (out @ bs)))))"
  by pat_completeness auto

termination readi_loop
  by (relation "measure (\<lambda>(pid, cout, ip, dst, off, n, tot, out, s). n - tot)") auto

declare readi_loop.simps [simp del]

definition readi ::
  "int \<Rightarrow> (nat \<Rightarrow> nat \<Rightarrow> bool) \<Rightarrow> nat \<Rightarrow> nat \<Rightarrow> nat \<Rightarrow> nat \<Rightarrow> fsys \<Rightarrow> ((int \<times> u8 list) \<times> fsys) res" where
  "readi pid cout ip dst off n s =
     (let size = i_size (itable s ! ip)
      in if off > size \<or> (off + n) mod 2 ^ 32 < off then Ok ((0, []), s)
         else readi_loop pid cout ip dst off (if off + n > size then size - off else n) 0 [] s)"

function writei_loop ::
  "int \<Rightarrow> (nat \<Rightarrow> nat \<Rightarrow> u8 list option) \<Rightarrow> nat \<Rightarrow> nat \<Rightarrow> nat \<Rightarrow> nat \<Rightarrow> nat \<Rightarrow> fsys \<Rightarrow> ((nat \<times> nat) \<times> fsys) res" where
  "writei_loop pid cin ip src off n tot s =
     (if \<not> tot < n then Ok ((tot, off), s)
      else
        bind_res (bmap pid ip (off div BSIZE) s) (\<lambda>(addr, s).
        if addr = 0 then Ok ((tot, off), s)
        else
          bind_res (f_bread pid (i_dev (itable s ! ip)) addr s) (\<lambda>(bp, s).
          let m = min (n - tot) (BSIZE - off mod BSIZE)
          in case cin src m of
               None \<Rightarrow> bind_res (f_brelse pid bp s) (\<lambda>s. Ok ((tot, off), s))
             | Some bs \<Rightarrow>
                 (let d = f_data s bp;
                      d = take (off mod BSIZE) d @ bs @ drop (off mod BSIZE + m) d
                  in bind_res (f_log_write bp (f_set_data bp d s)) (\<lambda>s.
                     bind_res (f_brelse pid bp s)
                       (writei_loop pid cin ip (src + m) (off + m) n (tot + m)))))))"
  by pat_completeness auto

termination writei_loop
  by (relation "measure (\<lambda>(pid, cin, ip, src, off, n, tot, s). n - tot)") auto

declare writei_loop.simps [simp del]

definition writei ::
  "int \<Rightarrow> (nat \<Rightarrow> nat \<Rightarrow> u8 list option) \<Rightarrow> nat \<Rightarrow> nat \<Rightarrow> nat \<Rightarrow> nat \<Rightarrow> fsys \<Rightarrow> (int \<times> fsys) res" where
  "writei pid cin ip src off n s =
     (if off > i_size (itable s ! ip) \<or> (off + n) mod 2 ^ 32 < off then Ok (-1, s)
      else if (off + n) mod 2 ^ 32 > MAXFILE * BSIZE then Ok (-1, s)
      else
        bind_res (writei_loop pid cin ip src off n 0 s) (\<lambda>((tot, off), s).
        bind_res (iupdate pid ip
          (if off > i_size (itable s ! ip) then upd_inode ip (\<lambda>i. i\<lparr>i_size := off\<rparr>) s else s)) (\<lambda>s.
        Ok (int tot, s))))"

end
