(* ===== verification/Fs_Dir.thy ===== *)
theory Fs_Dir
  imports Fs
begin

text \<open>
  Directories and path names of \<^verbatim>\<open>kernel/fs.c\<close>. A name or a path is the list of its bytes
  before the NUL (a name has at most \<^verbatim>\<open>DIRSIZ\<close> bytes). \<open>cwd\<close> is \<^verbatim>\<open>myproc()->cwd\<close>. Loops over
  the entries of a directory run over the list of their offsets.
\<close>

abbreviation (input) DIRSIZ :: nat where "DIRSIZ \<equiv> 14"
abbreviation (input) slash :: u8 where "slash \<equiv> 47"

section \<open>Directory entries\<close>

text \<open>\<^verbatim>\<open>strncmp\<close> on lists: behind the end of a list is its NUL.\<close>

fun lstrncmp :: "u8 list \<Rightarrow> u8 list \<Rightarrow> nat \<Rightarrow> int" where
  "lstrncmp p q 0 = 0"
| "lstrncmp p q (Suc n) =
     (let a = (case p of [] \<Rightarrow> 0 | x # _ \<Rightarrow> x);
          b = (case q of [] \<Rightarrow> 0 | y # _ \<Rightarrow> y)
      in if a \<noteq> 0 \<and> a = b then lstrncmp (tl p) (tl q) n else uint a - uint b)"

definition namecmp :: "u8 list \<Rightarrow> u8 list \<Rightarrow> int" where
  "namecmp s t = lstrncmp s t DIRSIZ"

definition de_inum :: "u8 list \<Rightarrow> nat" where
  "de_inum de = get_le 2 0 de"

definition de_name :: "u8 list \<Rightarrow> u8 list" where
  "de_name de = take DIRSIZ (drop 2 de)"

definition make_dirent :: "u8 list \<Rightarrow> nat \<Rightarrow> u8 list" where
  "make_dirent name inum = nat_le 2 inum @ take DIRSIZ (name @ replicate DIRSIZ 0)"

definition dir_offs :: "nat \<Rightarrow> nat list" where
  "dir_offs sz = map (\<lambda>k. 16 * k) [0..<(sz + 15) div 16]"

definition readi_kernel :: "int \<Rightarrow> nat \<Rightarrow> nat \<Rightarrow> nat \<Rightarrow> fsys \<Rightarrow> ((int \<times> u8 list) \<times> fsys) res" where
  "readi_kernel pid ip off n s = readi pid (\<lambda>a m. True) ip 0 off n s"

definition writei_kernel :: "int \<Rightarrow> nat \<Rightarrow> u8 list \<Rightarrow> nat \<Rightarrow> fsys \<Rightarrow> (int \<times> fsys) res" where
  "writei_kernel pid ip bs off s =
     writei pid (\<lambda>a m. Some (take m (drop a bs))) ip 0 off (length bs) s"

fun dirlookup_loop :: "int \<Rightarrow> nat \<Rightarrow> u8 list \<Rightarrow> nat list \<Rightarrow> fsys \<Rightarrow> ((nat \<times> nat) option \<times> fsys) res" where
  "dirlookup_loop pid dp name [] s = Ok (None, s)"
| "dirlookup_loop pid dp name (off # offs) s =
     bind_res (readi_kernel pid dp off 16 s) (\<lambda>((r, de), s).
     if r \<noteq> 16 then Panic ''dirlookup read''
     else if de_inum de = 0 then dirlookup_loop pid dp name offs s
     else if namecmp name (de_name de) = 0 then
       bind_res (iget (i_dev (itable s ! dp)) (de_inum de) s) (\<lambda>(ip, s). Ok (Some (ip, off), s))
     else dirlookup_loop pid dp name offs s)"

text \<open>The result is the inode with the offset of its entry (\<^verbatim>\<open>*poff\<close>).\<close>

definition dirlookup :: "int \<Rightarrow> nat \<Rightarrow> u8 list \<Rightarrow> fsys \<Rightarrow> ((nat \<times> nat) option \<times> fsys) res" where
  "dirlookup pid dp name s =
     (if i_type (itable s ! dp) \<noteq> T_DIR then Panic ''dirlookup not DIR''
      else dirlookup_loop pid dp name (dir_offs (i_size (itable s ! dp))) s)"

fun free_slot :: "int \<Rightarrow> nat \<Rightarrow> nat list \<Rightarrow> nat \<Rightarrow> fsys \<Rightarrow> (nat \<times> fsys) res" where
  "free_slot pid dp [] fin s = Ok (fin, s)"
| "free_slot pid dp (off # offs) fin s =
     bind_res (readi_kernel pid dp off 16 s) (\<lambda>((r, de), s).
     if r \<noteq> 16 then Panic ''dirlink read''
     else if de_inum de = 0 then Ok (off, s)
     else free_slot pid dp offs fin s)"

definition dirlink :: "int \<Rightarrow> nat \<Rightarrow> u8 list \<Rightarrow> nat \<Rightarrow> fsys \<Rightarrow> (int \<times> fsys) res" where
  "dirlink pid dp name inum s =
     bind_res (dirlookup pid dp name s) (\<lambda>(r, s).
     case r of
       Some (ip, _) \<Rightarrow> bind_res (iput pid ip s) (\<lambda>s. Ok (-1, s))
     | None \<Rightarrow>
         (let sz = i_size (itable s ! dp)
          in bind_res (free_slot pid dp (dir_offs sz) (16 * ((sz + 15) div 16)) s) (\<lambda>(off, s).
             bind_res (writei_kernel pid dp (make_dirent name inum) off s) (\<lambda>(w, s).
             Ok (if w \<noteq> 16 then -1 else 0, s)))))"

section \<open>Paths\<close>

definition skipelem :: "u8 list \<Rightarrow> (u8 list \<times> u8 list) option" where
  "skipelem path =
     (let path = dropWhile (\<lambda>c. c = slash) path
      in if path = [] then None
         else
           let el = takeWhile (\<lambda>c. c \<noteq> slash) path;
               path = dropWhile (\<lambda>c. c \<noteq> slash) path
           in Some (dropWhile (\<lambda>c. c = slash) path, if length el \<ge> DIRSIZ then take DIRSIZ el else el))"

lemma skipelem_shorter: "skipelem path = Some (path', name) \<Longrightarrow> length path' < length path"
proof -
  assume a: "skipelem path = Some (path', name)"
  define p where "p = dropWhile (\<lambda>c. c = slash) path"
  have p: "p \<noteq> []" "path' = dropWhile (\<lambda>c. c = slash) (dropWhile (\<lambda>c. c \<noteq> slash) p)"
    using a by (auto simp: skipelem_def p_def Let_def split: if_splits)
  then have "hd p \<noteq> slash" using hd_dropWhile [of "\<lambda>c. c = slash" path] by (auto simp: p_def)
  then obtain c q where q: "p = c # q" "c \<noteq> slash" using p(1) by (cases p) auto
  have "length path' \<le> length q"
    using q p(2) length_dropWhile_le [of "\<lambda>c. c = slash"] length_dropWhile_le [of "\<lambda>c. c \<noteq> slash" q]
    by (auto intro: order_trans)
  moreover have "length p \<le> length path" by (simp add: p_def length_dropWhile_le)
  ultimately show ?thesis using q(1) by simp
qed

text \<open>The loop of \<^verbatim>\<open>namex\<close>: the inode found and the last name.\<close>

function namex_loop ::
  "int \<Rightarrow> bool \<Rightarrow> u8 list \<Rightarrow> u8 list \<Rightarrow> nat \<Rightarrow> fsys \<Rightarrow> ((nat \<times> u8 list) option \<times> fsys) res" where
  "namex_loop pid parent path name ip s =
     (case skipelem path of
        None \<Rightarrow>
          (if parent then bind_res (iput pid ip s) (\<lambda>s. Ok (None, s)) else Ok (Some (ip, name), s))
      | Some (path, name) \<Rightarrow>
          bind_res (ilock pid ip s) (\<lambda>s.
          if i_type (itable s ! ip) \<noteq> T_DIR then bind_res (iunlockput pid ip s) (\<lambda>s. Ok (None, s))
          else if parent \<and> path = [] then bind_res (iunlock pid ip s) (\<lambda>s. Ok (Some (ip, name), s))
          else
            bind_res (dirlookup pid ip name s) (\<lambda>(r, s).
            case r of
              None \<Rightarrow> bind_res (iunlockput pid ip s) (\<lambda>s. Ok (None, s))
            | Some (next, _) \<Rightarrow>
                bind_res (iunlockput pid ip s) (namex_loop pid parent path name next))))"
  by pat_completeness auto

termination namex_loop
  by (relation "measure (\<lambda>(pid, parent, path, name, ip, s). length path)") (auto dest: skipelem_shorter)

declare namex_loop.simps [simp del]

definition namex :: "int \<Rightarrow> nat \<Rightarrow> u8 list \<Rightarrow> bool \<Rightarrow> fsys \<Rightarrow> ((nat \<times> u8 list) option \<times> fsys) res" where
  "namex pid cwd path parent s =
     bind_res (if path \<noteq> [] \<and> hd path = slash then iget ROOTDEV ROOTINO s else Ok (idup cwd s)) (\<lambda>(ip, s).
     namex_loop pid parent path [] ip s)"

definition namei :: "int \<Rightarrow> nat \<Rightarrow> u8 list \<Rightarrow> fsys \<Rightarrow> (nat option \<times> fsys) res" where
  "namei pid cwd path s =
     bind_res (namex pid cwd path False s) (\<lambda>(r, s). Ok (map_option fst r, s))"

definition nameiparent :: "int \<Rightarrow> nat \<Rightarrow> u8 list \<Rightarrow> fsys \<Rightarrow> ((nat \<times> u8 list) option \<times> fsys) res" where
  "nameiparent pid cwd path s = namex pid cwd path True s"

end
