(* ===== verification/File.thy ===== *)
theory File
  imports Fs_Dir Pipe Console
begin

text \<open>
  Open files (\<^verbatim>\<open>kernel/file.c\<close> and \<^verbatim>\<open>pipealloc\<close> of \<^verbatim>\<open>kernel/pipe.c\<close>): reference-counted entries of
  the file table that stand for a pipe, an inode or a device. Code under \<^verbatim>\<open>ftable.lock\<close> is
  atomic. A pipe is named by the page that holds it. The only device in \<^verbatim>\<open>devsw\<close> is the
  console. \<open>cin\<close> and \<open>cout\<close> are the user's memory, \<open>kld\<close> is \<^verbatim>\<open>killed(myproc())\<close>.
\<close>

abbreviation (input) NFILE :: nat where "NFILE \<equiv> 100"
abbreviation (input) NDEV :: int where "NDEV \<equiv> 10"
abbreviation (input) CONSOLE :: int where "CONSOLE \<equiv> 1"

datatype fdtype = FD_NONE | FD_PIPE | FD_INODE | FD_DEVICE

record file_entry =
  f_type :: fdtype
  f_ref :: int
  f_readable :: bool
  f_writable :: bool
  f_pipe :: nat
  f_ip :: nat
  f_off :: nat
  f_major :: int

text \<open>
  The state these calls share: the file table, the pipes by page, the pages given back, the
  console with its UART, and the file system; \<open>ofile\<close> and \<open>kcwd\<close> belong to the calling process.
\<close>

record kio =
  ftable :: "file_entry list"
  pipes :: "nat \<Rightarrow> pipe"
  freed :: "nat list"
  kcons :: cons
  kuart :: uart
  kfs :: fsys
  ofile :: "nat option list"
  kcwd :: nat

definition upd_file :: "nat \<Rightarrow> (file_entry \<Rightarrow> file_entry) \<Rightarrow> kio \<Rightarrow> kio" where
  "upd_file f g k = k\<lparr>ftable := (ftable k)[f := g (ftable k ! f)]\<rparr>"

definition in_fs :: "(fsys \<Rightarrow> fsys res) \<Rightarrow> kio \<Rightarrow> kio res" where
  "in_fs op k = bind_res (op (kfs k)) (\<lambda>s. Ok (k\<lparr>kfs := s\<rparr>))"

definition f_begin_op :: "fsys \<Rightarrow> fsys res" where
  "f_begin_op s = bind_res (begin_op (flog s)) (\<lambda>l. Ok (s\<lparr>flog := l\<rparr>))"

definition f_end_op :: "int \<Rightarrow> fsys \<Rightarrow> fsys res" where
  "f_end_op pid s = bind_res (end_op pid (flog s)) (\<lambda>l. Ok (s\<lparr>flog := l\<rparr>))"

fun first_free :: "nat \<Rightarrow> file_entry list \<Rightarrow> nat option" where
  "first_free k [] = None"
| "first_free k (f # fs) = (if f_ref f = 0 then Some k else first_free (k + 1) fs)"

definition filealloc :: "kio \<Rightarrow> nat option \<times> kio" where
  "filealloc k =
     (case first_free 0 (ftable k) of
        None \<Rightarrow> (None, k)
      | Some f \<Rightarrow> (Some f, upd_file f (\<lambda>x. x\<lparr>f_ref := 1\<rparr>) k))"

definition filedup :: "nat \<Rightarrow> kio \<Rightarrow> kio res" where
  "filedup f k =
     (if f_ref (ftable k ! f) < 1 then Panic ''filedup''
      else Ok (upd_file f (\<lambda>x. x\<lparr>f_ref := f_ref x + 1\<rparr>) k))"

definition close_pipe :: "nat \<Rightarrow> bool \<Rightarrow> kio \<Rightarrow> kio" where
  "close_pipe p w k =
     (let (gone, pi) = pipeclose w (pipes k p);
          k = k\<lparr>pipes := (pipes k)(p := pi)\<rparr>
      in if gone then k\<lparr>freed := p # freed k\<rparr> else k)"

definition fileclose :: "int \<Rightarrow> nat \<Rightarrow> kio \<Rightarrow> kio res" where
  "fileclose pid f k =
     (if f_ref (ftable k ! f) < 1 then Panic ''fileclose''
      else
        let k = upd_file f (\<lambda>x. x\<lparr>f_ref := f_ref x - 1\<rparr>) k
        in if 0 < f_ref (ftable k ! f) then Ok k
           else
             let ff = ftable k ! f;
                 k = upd_file f (\<lambda>x. x\<lparr>f_ref := 0, f_type := FD_NONE\<rparr>) k
             in case f_type ff of
                  FD_PIPE \<Rightarrow> Ok (close_pipe (f_pipe ff) (f_writable ff) k)
                | FD_NONE \<Rightarrow> Ok k
                | _ \<Rightarrow>
                    bind_res (in_fs f_begin_op k) (\<lambda>k.
                    bind_res (in_fs (iput pid (f_ip ff)) k)
                      (in_fs (f_end_op pid))))"

definition pipealloc :: "int \<Rightarrow> nat \<Rightarrow> kio \<Rightarrow> ((nat \<times> nat) option \<times> kio) res" where
  "pipealloc pid page k =
     (case filealloc k of
        (None, k) \<Rightarrow> Ok (None, k)
      | (Some f0, k) \<Rightarrow>
          (case filealloc k of
             (None, k) \<Rightarrow> bind_res (fileclose pid f0 k) (\<lambda>k. Ok (None, k))
           | (Some f1, k) \<Rightarrow>
               if page = 0 then
                 bind_res (fileclose pid f0 k) (\<lambda>k.
                 bind_res (fileclose pid f1 k) (\<lambda>k. Ok (None, k)))
               else
                 let k = k\<lparr>pipes := (pipes k)(page := new_pipe (pdata (pipes k page)))\<rparr>;
                     k = upd_file f0 (\<lambda>x. x\<lparr>f_type := FD_PIPE, f_readable := True, f_writable := False, f_pipe := page\<rparr>) k;
                     k = upd_file f1 (\<lambda>x. x\<lparr>f_type := FD_PIPE, f_readable := False, f_writable := True, f_pipe := page\<rparr>) k
                 in Ok (Some (f0, f1), k)))"

text \<open>The \<open>struct stat\<close> that was stored at the user's address, if any.\<close>

definition filestat :: "int \<Rightarrow> (nat \<Rightarrow> nat \<Rightarrow> bool) \<Rightarrow> nat \<Rightarrow> nat \<Rightarrow> kio \<Rightarrow> ((int \<times> stat option) \<times> kio) res" where
  "filestat pid cout f addr k =
     (if f_type (ftable k ! f) = FD_INODE \<or> f_type (ftable k ! f) = FD_DEVICE then
        let ip = f_ip (ftable k ! f)
        in bind_res (in_fs (ilock pid ip) k) (\<lambda>k.
           let st = stati ip (kfs k)
           in bind_res (in_fs (iunlock pid ip) k) (\<lambda>k.
              Ok (if \<not> cout addr 24 then (-1, None) else (0, Some st), k)))
      else Ok ((-1, None), k))"

definition in_fsr :: "(fsys \<Rightarrow> ('a \<times> fsys) res) \<Rightarrow> kio \<Rightarrow> ('a \<times> kio) res" where
  "in_fsr op k = bind_res (op (kfs k)) (\<lambda>(x, s). Ok (x, k\<lparr>kfs := s\<rparr>))"

text \<open>Both move the offset by what was transferred.\<close>

definition advance :: "nat \<Rightarrow> int \<Rightarrow> kio \<Rightarrow> kio" where
  "advance f r k = (if 0 < r then upd_file f (\<lambda>x. x\<lparr>f_off := (f_off x + nat r) mod 2 ^ 32\<rparr>) k else k)"

definition fileread ::
  "int \<Rightarrow> (nat \<Rightarrow> nat \<Rightarrow> bool) \<Rightarrow> bool \<Rightarrow> nat \<Rightarrow> nat \<Rightarrow> int \<Rightarrow> kio \<Rightarrow> (u8 list \<times> kio) step res" where
  "fileread pid cout kld f addr n k =
     (let x = ftable k ! f
      in if \<not> f_readable x then Ok (Done (-1) ([], k))
         else case f_type x of
           FD_PIPE \<Rightarrow>
             Ok (map_step (\<lambda>(out, pi). (out, k\<lparr>pipes := (pipes k)(f_pipe x := pi)\<rparr>))
                  (piperead (\<lambda>a. cout a 1) kld addr n (pipes k (f_pipe x))))
         | FD_DEVICE \<Rightarrow>
             if f_major x < 0 \<or> NDEV \<le> f_major x \<or> f_major x \<noteq> CONSOLE then Ok (Done (-1) ([], k))
             else Ok (map_step (\<lambda>(out, c). (out, k\<lparr>kcons := c\<rparr>))
                    (consoleread (\<lambda>a. cout a 1) kld addr 0 n (kcons k)))
         | FD_INODE \<Rightarrow>
             bind_res (in_fs (ilock pid (f_ip x)) k) (\<lambda>k.
             bind_res (in_fsr (readi pid cout (f_ip x) addr (f_off x) (nat (n mod 2 ^ 32))) k) (\<lambda>((r, out), k).
             bind_res (in_fs (iunlock pid (f_ip x)) (advance f r k)) (\<lambda>k. Ok (Done r (out, k)))))
         | FD_NONE \<Rightarrow> Panic ''fileread'')"

abbreviation (input) chunk_max :: int where "chunk_max \<equiv> 3 * 1024"

text \<open>
  The loop over the pieces of a write to an inode: \<open>i\<close> bytes are done. Each piece is at most
  \<^verbatim>\<open>((MAXOPBLOCKS-1-1-2) / 2) * BSIZE\<close>, that is 3072 bytes.
\<close>

function filewrite_loop ::
  "int \<Rightarrow> (nat \<Rightarrow> nat \<Rightarrow> u8 list option) \<Rightarrow> nat \<Rightarrow> nat \<Rightarrow> int \<Rightarrow> int \<Rightarrow> kio \<Rightarrow> (int \<times> kio) res" where
  "filewrite_loop pid cin f addr n i k =
     (if \<not> i < n then Ok (i, k)
      else
        let n1 = (if n - i > chunk_max then chunk_max else n - i)
        in bind_res (in_fs f_begin_op k) (\<lambda>k.
           bind_res (in_fs (ilock pid (f_ip (ftable k ! f))) k) (\<lambda>k.
           bind_res (in_fsr (writei pid cin (f_ip (ftable k ! f)) (addr + nat i) (f_off (ftable k ! f)) (nat n1)) k) (\<lambda>(r, k).
           bind_res (in_fs (iunlock pid (f_ip (ftable k ! f))) (advance f r k)) (\<lambda>k.
           bind_res (in_fs (f_end_op pid) k) (\<lambda>k.
           if r \<noteq> n1 then Ok (i, k) else filewrite_loop pid cin f addr n (i + r) k))))))"
  by pat_completeness auto

termination filewrite_loop
  by (relation "measure (\<lambda>(pid, cin, f, addr, n, i, k). nat (n - i))") auto

declare filewrite_loop.simps [simp del]

definition copyin_byte :: "(nat \<Rightarrow> nat \<Rightarrow> u8 list option) \<Rightarrow> nat \<Rightarrow> u8 option" where
  "copyin_byte cin a = (case cin a 1 of Some [b] \<Rightarrow> Some b | _ \<Rightarrow> None)"

text \<open>A write that was put to sleep goes on with \<open>i0\<close> bytes done.\<close>

definition filewrite ::
  "int \<Rightarrow> (nat \<Rightarrow> nat \<Rightarrow> u8 list option) \<Rightarrow> bool \<Rightarrow> nat \<Rightarrow> nat \<Rightarrow> nat \<Rightarrow> int \<Rightarrow> kio \<Rightarrow> kio step res" where
  "filewrite pid cin kld f addr i0 n k =
     (let x = ftable k ! f
      in if \<not> f_writable x then Ok (Done (-1) k)
         else case f_type x of
           FD_PIPE \<Rightarrow>
             Ok (map_step (\<lambda>pi. k\<lparr>pipes := (pipes k)(f_pipe x := pi)\<rparr>)
                  (pipewrite (copyin_byte cin) kld addr i0 n (pipes k (f_pipe x))))
         | FD_DEVICE \<Rightarrow>
             if f_major x < 0 \<or> NDEV \<le> f_major x \<or> f_major x \<noteq> CONSOLE then Ok (Done (-1) k)
             else Ok (map_step (\<lambda>u. k\<lparr>kuart := u\<rparr>) (consolewrite (copyin_byte cin) addr i0 n (kuart k)))
         | FD_INODE \<Rightarrow>
             bind_res (filewrite_loop pid cin f addr n 0 k) (\<lambda>(i, k). Ok (Done (if i = n then n else -1) k))
         | FD_NONE \<Rightarrow> Panic ''filewrite'')"

end
