(* ===== verification/Process.thy ===== *)
theory Process
  imports Proc_Space Sched_Machine File
begin

text \<open>
  The life of a process (\<^verbatim>\<open>kernel/proc.c\<close>): \<^verbatim>\<open>procinit\<close>, \<^verbatim>\<open>allocproc\<close>, \<^verbatim>\<open>freeproc\<close>, \<^verbatim>\<open>userinit\<close>,
  \<^verbatim>\<open>growproc\<close>, \<^verbatim>\<open>fork\<close>, \<^verbatim>\<open>exit\<close> and \<^verbatim>\<open>wait\<close>, over the whole state of the kernel: the process table,
  physical memory and the open files. Addresses fixed by the linker are arguments: \<open>kend\<close> is the
  end of the kernel image, \<open>tramp\<close> the trampoline page, \<open>ic\<close> the array \<^verbatim>\<open>initcode\<close>, \<open>xaddr i\<close> the
  address of \<^verbatim>\<open>proc[i].xstate\<close>. The result \<open>None\<close> stands for a run that does not return.
\<close>

section \<open>State\<close>

record ksys =
  kern :: kernel
  kmm :: kmem
  kfiles :: kio
  ticks :: nat

definition kproc :: "ksys \<Rightarrow> nat \<Rightarrow> proc" where
  "kproc s i = procs (kern s) ! i"

definition upd_kproc :: "nat \<Rightarrow> (proc \<Rightarrow> proc) \<Rightarrow> ksys \<Rightarrow> ksys" where
  "upd_kproc i f s = s\<lparr>kern := upd_proc i f (kern s)\<rparr>"

definition on_kern :: "(kernel \<Rightarrow> kernel res) \<Rightarrow> ksys \<Rightarrow> ksys res" where
  "on_kern f s = bind_res (f (kern s)) (\<lambda>k. Ok (s\<lparr>kern := k\<rparr>))"

definition set_mem :: "ksys \<Rightarrow> kmem \<Rightarrow> ksys" where
  "set_mem s m = s\<lparr>kmm := m\<rparr>"

text \<open>A null pointer is \<open>None\<close> in the process table and 0 in memory.\<close>

definition ptr :: "nat \<Rightarrow> nat option" where
  "ptr a = (if a = 0 then None else Some a)"

definition adr :: "nat option \<Rightarrow> nat" where
  "adr p = (case p of None \<Rightarrow> 0 | Some a \<Rightarrow> a)"

text \<open>The fields of \<^verbatim>\<open>struct trapframe\<close> that the kernel uses, by their offsets.\<close>

abbreviation (input) TF_EPC :: nat where "TF_EPC \<equiv> 24"
abbreviation (input) TF_SP :: nat where "TF_SP \<equiv> 48"
abbreviation (input) TF_A0 :: nat where "TF_A0 \<equiv> 112"
abbreviation (input) TF_A1 :: nat where "TF_A1 \<equiv> 120"
abbreviation (input) TF_A7 :: nat where "TF_A7 \<equiv> 168"
abbreviation (input) TF_SIZE :: nat where "TF_SIZE \<equiv> 288"

definition tf_read :: "nat \<Rightarrow> nat \<Rightarrow> ksys \<Rightarrow> nat" where
  "tf_read i off s = rd64 (kmemory (kmm s)) (adr (p_trapframe (kproc s i)) + off)"

definition tf_write :: "nat \<Rightarrow> nat \<Rightarrow> nat \<Rightarrow> ksys \<Rightarrow> ksys" where
  "tf_write i off v s = set_mem s (wr64 (adr (p_trapframe (kproc s i)) + off) v (kmm s))"

section \<open>Allocating and freeing a process\<close>

definition procinit :: "kernel \<Rightarrow> kernel" where
  "procinit k =
     k\<lparr>klocks := (klocks k)(PidLock := initlock, WaitLock := initlock),
       procs := map (\<lambda>i. (procs k ! i)\<lparr>p_lock := initlock, p_state := UNUSED, p_kstack := KSTACK i\<rparr>) [0..<NPROC]\<rparr>"

definition allocpid :: "kernel \<Rightarrow> (int \<times> kernel) res" where
  "allocpid k =
     bind_res (acquire_lk PidLock k) (\<lambda>k.
     let pid = nextpid k; k = k\<lparr>nextpid := s32 (nextpid k + 1)\<rparr>
     in bind_res (release_lk PidLock k) (\<lambda>k. Ok (pid, k)))"

text \<open>The search of \<^verbatim>\<open>allocproc\<close>; the entry it finds stays locked.\<close>

fun find_unused :: "nat list \<Rightarrow> kernel \<Rightarrow> (nat option \<times> kernel) res" where
  "find_unused [] k = Ok (None, k)"
| "find_unused (i # is) k =
     bind_res (acquire_p i k) (\<lambda>k.
       if p_state (procs k ! i) = UNUSED then Ok (Some i, k)
       else bind_res (release_p i k) (find_unused is))"

definition freeproc :: "nat \<Rightarrow> nat \<Rightarrow> ksys \<Rightarrow> ksys res option" where
  "freeproc kend i s =
     bind_ro (case p_trapframe (kproc s i) of
                None \<Rightarrow> Some (Ok s)
              | Some tf \<Rightarrow> Some (bind_res (kfree kend tf (kmm s)) (\<lambda>m. Ok (set_mem s m)))) (\<lambda>s.
     let s = upd_kproc i (\<lambda>p. p\<lparr>p_trapframe := None\<rparr>) s
     in bind_ro (case p_pagetable (kproc s i) of
                   None \<Rightarrow> Some (Ok s)
                 | Some pt \<Rightarrow> bind_ro (proc_freepagetable kend pt (p_sz (kproc s i)) (kmm s)) (\<lambda>m. Some (Ok (set_mem s m)))) (\<lambda>s.
        Some (Ok (upd_kproc i (\<lambda>p. p\<lparr>p_pagetable := None, p_sz := 0, p_pid := 0, p_parent := None, p_name := [],
          p_chan := NoChan, p_killed := 0, p_xstate := 0, p_state := UNUSED, p_nice := 0\<rparr>) s))))"

text \<open>Giving up a process that is not complete yet, on the failure paths of \<^verbatim>\<open>allocproc\<close> and \<^verbatim>\<open>fork\<close>.\<close>

definition drop_proc :: "nat \<Rightarrow> nat \<Rightarrow> 'a \<Rightarrow> ksys \<Rightarrow> ('a \<times> ksys) res option" where
  "drop_proc kend i r s =
     bind_ro (freeproc kend i s) (\<lambda>s. Some (bind_res (on_kern (release_p i) s) (\<lambda>s. Ok (r, s))))"

text \<open>\<^verbatim>\<open>allocproc\<close> for the entry that was found: the trap frame, the page table and the context.\<close>

definition alloc_memory :: "nat \<Rightarrow> nat \<Rightarrow> nat \<Rightarrow> ksys \<Rightarrow> (nat option \<times> ksys) res option" where
  "alloc_memory kend tramp i s =
     (let (tf, m) = kalloc (kmm s);
          s = upd_kproc i (\<lambda>p. p\<lparr>p_trapframe := ptr tf\<rparr>) (set_mem s m)
      in if tf = 0 then drop_proc kend i None s
         else
           bind_ro (proc_pagetable kend tramp tf (kmm s)) (\<lambda>(pt, m).
           let s = upd_kproc i (\<lambda>p. p\<lparr>p_pagetable := ptr pt\<rparr>) (set_mem s m)
           in if pt = 0 then drop_proc kend i None s
              else Some (Ok (Some i, upd_kproc i (\<lambda>p. p\<lparr>p_resume := Forkret\<rparr>) s))))"

definition allocproc :: "nat \<Rightarrow> nat \<Rightarrow> ksys \<Rightarrow> (nat option \<times> ksys) res option" where
  "allocproc kend tramp s =
     bind_ro (Some (find_unused [0..<NPROC] (kern s))) (\<lambda>(r, k).
     let s = s\<lparr>kern := k\<rparr>
     in case r of
          None \<Rightarrow> Some (Ok (None, s))
        | Some i \<Rightarrow>
            bind_ro (Some (allocpid (kern s))) (\<lambda>(pid, k).
            alloc_memory kend tramp i (upd_kproc i (\<lambda>p. p\<lparr>p_pid := pid, p_state := USED\<rparr>) (s\<lparr>kern := k\<rparr>))))"

section \<open>The first process\<close>

definition initcode :: "u8 list" where
  "initcode = [
     0x17, 0x05, 0x00, 0x00, 0x13, 0x05, 0x45, 0x02,
     0x97, 0x05, 0x00, 0x00, 0x93, 0x85, 0x35, 0x02,
     0x93, 0x08, 0x70, 0x00, 0x73, 0x00, 0x00, 0x00,
     0x93, 0x08, 0x20, 0x00, 0x73, 0x00, 0x00, 0x00,
     0xef, 0xf0, 0x9f, 0xff, 0x2f, 0x69, 0x6e, 0x69,
     0x74, 0x00, 0x00, 0x24, 0x00, 0x00, 0x00, 0x00,
     0x00, 0x00, 0x00, 0x00]"

definition userinit :: "nat \<Rightarrow> nat \<Rightarrow> nat \<Rightarrow> ksys \<Rightarrow> ksys res option" where
  "userinit kend tramp ic s =
     bind_ro (allocproc kend tramp s) (\<lambda>(r, s).
     case r of
       None \<Rightarrow> Some (Panic ''null process'')
     | Some i \<Rightarrow>
         let s = s\<lparr>kern := (kern s)\<lparr>initproc := Some i\<rparr>\<rparr>
         in bind_ro (Some (uvmfirst (adr (p_pagetable (kproc s i))) ic (length initcode) (kmm s))) (\<lambda>m.
            let s = upd_kproc i (\<lambda>p. p\<lparr>p_sz := PGSIZE\<rparr>) (set_mem s m);
                s = tf_write i TF_EPC 0 s;
                s = tf_write i TF_SP PGSIZE s;
                s = upd_kproc i (\<lambda>p. p\<lparr>p_name := ''initcode''\<rparr>) s
            in bind_ro (Some (namei (p_pid (kproc s i)) 0 [slash] (kfs (kfiles s)))) (\<lambda>(ip, fs).
               let s = upd_kproc i (\<lambda>p. p\<lparr>p_cwd := ip\<rparr>) (s\<lparr>kfiles := (kfiles s)\<lparr>kfs := fs\<rparr>\<rparr>);
                   s = s\<lparr>kern := make_runnable i (kern s)\<rparr>
               in Some (on_kern (release_p i) s))))"

section \<open>Growing\<close>

definition growproc :: "nat \<Rightarrow> int \<Rightarrow> ksys \<Rightarrow> (int \<times> ksys) res" where
  "growproc kend n s =
     (case c_proc (kern s) of
        None \<Rightarrow> Panic ''null process''
      | Some i \<Rightarrow>
          let pt = adr (p_pagetable (kproc s i)); sz = p_sz (kproc s i);
              newsz = nat ((int sz + n) mod 2 ^ 64)
          in if n > 0 then
               bind_res (uvmalloc kend pt sz newsz PTE_W (kmm s)) (\<lambda>(sz, m).
               let s = set_mem s m
               in if sz = 0 then Ok (-1, s) else Ok (0, upd_kproc i (\<lambda>p. p\<lparr>p_sz := sz\<rparr>) s))
             else if n < 0 then
               bind_res (uvmdealloc kend pt sz newsz (kmm s)) (\<lambda>(sz, m).
               Ok (0, upd_kproc i (\<lambda>p. p\<lparr>p_sz := sz\<rparr>) (set_mem s m)))
             else Ok (0, upd_kproc i (\<lambda>p. p\<lparr>p_sz := sz\<rparr>) s))"

section \<open>Fork\<close>

fun dup_ofiles :: "nat \<Rightarrow> nat \<Rightarrow> nat list \<Rightarrow> ksys \<Rightarrow> ksys res" where
  "dup_ofiles p np [] s = Ok s"
| "dup_ofiles p np (fd # fds) s =
     (case p_ofile (kproc s p) ! fd of
        None \<Rightarrow> dup_ofiles p np fds s
      | Some f \<Rightarrow>
          bind_res (filedup f (kfiles s)) (\<lambda>io.
          dup_ofiles p np fds (upd_kproc np (\<lambda>q. q\<lparr>p_ofile := (p_ofile q)[fd := Some f]\<rparr>) (s\<lparr>kfiles := io\<rparr>))))"

text \<open>What \<^verbatim>\<open>fork\<close> copies behind the memory: registers, open files, directory and name.\<close>

definition copy_process :: "nat \<Rightarrow> nat \<Rightarrow> ksys \<Rightarrow> ksys res" where
  "copy_process p np s =
     (let s = upd_kproc np (\<lambda>q. q\<lparr>p_sz := p_sz (kproc s p)\<rparr>) s;
          s = set_mem s ((kmm s)\<lparr>kmemory := memmove (adr (p_trapframe (kproc s np))) (adr (p_trapframe (kproc s p))) TF_SIZE (kmemory (kmm s))\<rparr>);
          s = tf_write np TF_A0 0 s
      in bind_res (dup_ofiles p np [0..<NOFILE] s) (\<lambda>s.
         case p_cwd (kproc s p) of
           None \<Rightarrow> Panic ''null inode''
         | Some ip \<Rightarrow>
             let (ip, fs) = idup ip (kfs (kfiles s));
                 s = upd_kproc np (\<lambda>q. q\<lparr>p_cwd := Some ip\<rparr>) (s\<lparr>kfiles := (kfiles s)\<lparr>kfs := fs\<rparr>\<rparr>)
             in Ok (upd_kproc np (\<lambda>q. q\<lparr>p_name := take 15 (p_name (kproc s p))\<rparr>) s)))"

definition start_child :: "nat \<Rightarrow> nat \<Rightarrow> kernel \<Rightarrow> kernel res" where
  "start_child p np k =
     bind_res (release_p np k) (\<lambda>k.
     bind_res (acquire_lk WaitLock k) (\<lambda>k.
     bind_res (release_lk WaitLock (upd_proc np (\<lambda>q. q\<lparr>p_parent := Some p\<rparr>) k)) (\<lambda>k.
     bind_res (acquire_p np k) (\<lambda>k. release_p np (make_runnable np k)))))"

definition fork :: "nat \<Rightarrow> nat \<Rightarrow> ksys \<Rightarrow> (int \<times> ksys) res option" where
  "fork kend tramp s =
     (case c_proc (kern s) of
        None \<Rightarrow> Some (Panic ''null process'')
      | Some p \<Rightarrow>
          bind_ro (allocproc kend tramp s) (\<lambda>(r, s).
          case r of
            None \<Rightarrow> Some (Ok (-1, s))
          | Some np \<Rightarrow>
              bind_ro (Some (uvmcopy kend (adr (p_pagetable (kproc s p))) (adr (p_pagetable (kproc s np))) (p_sz (kproc s p)) (kmm s))) (\<lambda>(r, m).
              let s = set_mem s m
              in if r < 0 then drop_proc kend np (-1) s
                 else
                   bind_ro (Some (copy_process p np s)) (\<lambda>s.
                   let pid = p_pid (kproc s np)
                   in Some (bind_res (on_kern (start_child p np) s) (\<lambda>s. Ok (pid, s)))))))"

section \<open>Exit\<close>

text \<open>\<^verbatim>\<open>fileclose\<close>; the page of a pipe that is closed at both ends goes back to the allocator.\<close>

fun kfree_all :: "nat \<Rightarrow> nat list \<Rightarrow> kmem \<Rightarrow> kmem res" where
  "kfree_all kend [] m = Ok m"
| "kfree_all kend (p # ps) m = bind_res (kfree kend p m) (kfree_all kend ps)"

definition close_file :: "nat \<Rightarrow> int \<Rightarrow> nat \<Rightarrow> ksys \<Rightarrow> ksys res" where
  "close_file kend pid f s =
     bind_res (fileclose pid f ((kfiles s)\<lparr>File.freed := []\<rparr>)) (\<lambda>io.
     bind_res (kfree_all kend (File.freed io) (kmm s)) (\<lambda>m.
       Ok (s\<lparr>kfiles := io\<lparr>File.freed := []\<rparr>, kmm := m\<rparr>)))"

fun close_ofiles :: "nat \<Rightarrow> nat \<Rightarrow> nat list \<Rightarrow> ksys \<Rightarrow> ksys res" where
  "close_ofiles kend p [] s = Ok s"
| "close_ofiles kend p (fd # fds) s =
     (case p_ofile (kproc s p) ! fd of
        None \<Rightarrow> close_ofiles kend p fds s
      | Some f \<Rightarrow>
          bind_res (close_file kend (p_pid (kproc s p)) f s) (\<lambda>s.
          close_ofiles kend p fds (upd_kproc p (\<lambda>q. q\<lparr>p_ofile := (p_ofile q)[fd := None]\<rparr>) s)))"

definition leave_cwd :: "nat \<Rightarrow> ksys \<Rightarrow> ksys res" where
  "leave_cwd p s =
     (let pid = p_pid (kproc s p)
      in case p_cwd (kproc s p) of
           None \<Rightarrow> Panic ''null inode''
         | Some ip \<Rightarrow>
             bind_res (f_begin_op (kfs (kfiles s))) (\<lambda>fs.
             bind_res (iput pid ip fs) (\<lambda>fs.
             bind_res (f_end_op pid fs) (\<lambda>fs.
               Ok (upd_kproc p (\<lambda>q. q\<lparr>p_cwd := None\<rparr>) (s\<lparr>kfiles := (kfiles s)\<lparr>kfs := fs\<rparr>\<rparr>))))))"

definition chan_of :: "nat option \<Rightarrow> chan" where
  "chan_of p = (case p of None \<Rightarrow> NoChan | Some i \<Rightarrow> ChProc i)"

fun reparent_procs :: "nat \<Rightarrow> nat list \<Rightarrow> kernel \<Rightarrow> kernel res" where
  "reparent_procs p [] k = Ok k"
| "reparent_procs p (j # js) k =
     (if p_parent (procs k ! j) = Some p then
        bind_res (wakeup (chan_of (initproc k)) (upd_proc j (\<lambda>q. q\<lparr>p_parent := initproc k\<rparr>) k)) (reparent_procs p js)
      else reparent_procs p js k)"

definition reparent :: "nat \<Rightarrow> kernel \<Rightarrow> kernel res" where
  "reparent p k = reparent_procs p [0..<NPROC] k"

text \<open>The part of \<^verbatim>\<open>exit\<close> behind the files, up to the \<^verbatim>\<open>swtch\<close> of \<^verbatim>\<open>sched\<close> that never returns.\<close>

definition become_zombie :: "nat \<Rightarrow> int \<Rightarrow> kernel \<Rightarrow> kernel res" where
  "become_zombie p status k =
     bind_res (acquire_lk WaitLock k) (\<lambda>k.
     bind_res (reparent p k) (\<lambda>k.
     bind_res (wakeup (chan_of (p_parent (procs k ! p))) k) (\<lambda>k.
     bind_res (acquire_p p k) (\<lambda>k.
     let k = upd_proc p (\<lambda>q. q\<lparr>p_xstate := status, p_state := ZOMBIE\<rparr>) k
     in bind_res (release_lk WaitLock k) (sched (\<lambda>_. Nowhere))))))"

definition exit :: "nat \<Rightarrow> int \<Rightarrow> ksys \<Rightarrow> ksys res" where
  "exit kend status s =
     (case c_proc (kern s) of
        None \<Rightarrow> Panic ''null process''
      | Some p \<Rightarrow>
          if initproc (kern s) = Some p then Panic ''init exiting''
          else
            bind_res (close_ofiles kend p [0..<NOFILE] s) (\<lambda>s.
            bind_res (leave_cwd p s) (on_kern (become_zombie p status))))"

section \<open>Wait\<close>

text \<open>
  The scan of \<^verbatim>\<open>wait\<close>. It returns the value of \<^verbatim>\<open>wait\<close> when it returns from there, and whether the
  process has children. \<^verbatim>\<open>pp->xstate\<close> is read through its address.
\<close>

definition put_xstate :: "(nat \<Rightarrow> nat) \<Rightarrow> nat \<Rightarrow> nat \<Rightarrow> nat \<Rightarrow> ksys \<Rightarrow> (int \<times> kmem) res" where
  "put_xstate xaddr p addr j s =
     (let x = nat (p_xstate (kproc s j) mod 2 ^ 32);
          m = (kmm s)\<lparr>kmemory := Cmem.store (xaddr j) (nat_le 4 x) (kmemory (kmm s))\<rparr>
      in if addr = 0 then Ok (0, kmm s) else copyout (adr (p_pagetable (kproc s p))) addr (xaddr j) 4 m)"

definition leave_wait :: "nat \<Rightarrow> int \<Rightarrow> ksys \<Rightarrow> ((int option \<times> bool) \<times> ksys) res" where
  "leave_wait j r s =
     bind_res (on_kern (release_p j) s) (\<lambda>s.
     bind_res (on_kern (release_lk WaitLock) s) (\<lambda>s. Ok ((Some r, True), s)))"

text \<open>A zombie child \<open>j\<close> was found.\<close>

definition reap :: "nat \<Rightarrow> (nat \<Rightarrow> nat) \<Rightarrow> nat \<Rightarrow> nat \<Rightarrow> nat \<Rightarrow> ksys \<Rightarrow> ((int option \<times> bool) \<times> ksys) res option" where
  "reap kend xaddr addr p j s =
     (let pid = p_pid (kproc s j)
      in bind_ro (Some (put_xstate xaddr p addr j s)) (\<lambda>(r, m).
         let s = set_mem s m
         in if r < 0 then Some (leave_wait j (-1) s)
            else bind_ro (freeproc kend j s) (\<lambda>s. Some (leave_wait j pid s))))"

fun wait_scan :: "nat \<Rightarrow> (nat \<Rightarrow> nat) \<Rightarrow> nat \<Rightarrow> nat \<Rightarrow> nat list \<Rightarrow> bool \<Rightarrow> ksys \<Rightarrow> ((int option \<times> bool) \<times> ksys) res option" where
  "wait_scan kend xaddr addr p [] havekids s = Some (Ok ((None, havekids), s))"
| "wait_scan kend xaddr addr p (j # js) havekids s =
     (if p_parent (kproc s j) = Some p then
        bind_ro (Some (on_kern (acquire_p j) s)) (\<lambda>s.
        if p_state (kproc s j) = ZOMBIE then reap kend xaddr addr p j s
        else bind_ro (Some (on_kern (release_p j) s)) (wait_scan kend xaddr addr p js True))
      else wait_scan kend xaddr addr p js havekids s)"

text \<open>
  One turn of \<^verbatim>\<open>for(;;)\<close> in \<^verbatim>\<open>wait\<close>, with \<^verbatim>\<open>wait_lock\<close> held: \<open>Some r\<close> when \<^verbatim>\<open>wait\<close> returns \<open>r\<close>,
  \<open>None\<close> when the process went to sleep; it then resumes with the next turn.
\<close>

definition wait_turn :: "nat \<Rightarrow> (nat \<Rightarrow> nat) \<Rightarrow> nat \<Rightarrow> ksys \<Rightarrow> (int option \<times> ksys) res option" where
  "wait_turn kend xaddr addr s =
     (case c_proc (kern s) of
        None \<Rightarrow> Some (Panic ''null process'')
      | Some p \<Rightarrow>
          bind_ro (wait_scan kend xaddr addr p [0..<NPROC] False s) (\<lambda>((ret, havekids), s).
          case ret of
            Some r \<Rightarrow> Some (Ok (Some r, s))
          | None \<Rightarrow>
              bind_ro (Some (if havekids then killed p (kern s) else Ok (1, kern s))) (\<lambda>(kl, k).
              let s = s\<lparr>kern := k\<rparr>
              in if \<not> havekids \<or> kl \<noteq> 0
                 then Some (bind_res (on_kern (release_lk WaitLock) s) (\<lambda>s. Ok (Some (-1), s)))
                 else Some (bind_res (on_kern (sleep (ChProc p) WaitLock) s) (\<lambda>s. Ok (None, s))))))"

definition wait :: "nat \<Rightarrow> (nat \<Rightarrow> nat) \<Rightarrow> nat \<Rightarrow> ksys \<Rightarrow> (int option \<times> ksys) res option" where
  "wait kend xaddr addr s = bind_ro (Some (on_kern (acquire_lk WaitLock) s)) (wait_turn kend xaddr addr)"

end
