(* ===== verification/Proc_Locks.thy ===== *)
theory Proc_Locks
  imports Process
begin

text \<open>
  Locks around the operations on processes. \<open>locks L P k\<close>: the hart holds exactly the locks \<open>L\<close> and
  the locks of the processes \<open>P\<close>. Taking and releasing a lock changes nothing else (\<open>samek\<close>).
\<close>

section \<open>Held locks\<close>

definition locks :: "lockname set \<Rightarrow> nat set \<Rightarrow> kernel \<Rightarrow> bool" where
  "locks L P k \<longleftrightarrow> length (procs k) = NPROC \<and> hart_ok (hart k) \<and> finite L \<and> P \<subseteq> {..<NPROC} \<and>
     noff (hart k) = int (card L + card P) \<and>
     (\<forall>l. if l \<in> L then klocks k l = held else \<not> lk_locked (klocks k l)) \<and>
     (\<forall>i < NPROC. if i \<in> P then p_lock (procs k ! i) = held else \<not> lk_locked (p_lock (procs k ! i)))"

definition unlock :: "proc \<Rightarrow> proc" where
  "unlock p = p\<lparr>p_lock := initlock\<rparr>"

text \<open>Equal up to locks and the interrupt state.\<close>

definition samek :: "kernel \<Rightarrow> kernel \<Rightarrow> bool" where
  "samek k k' \<longleftrightarrow> map unlock (procs k') = map unlock (procs k) \<and>
     k\<lparr>procs := procs k', klocks := klocks k', hart := hart k'\<rparr> = k'"

lemma samek_refl [simp]: "samek k k"
  by (simp add: samek_def)

lemma samek_trans: "samek k k1 \<Longrightarrow> samek k1 k2 \<Longrightarrow> samek k k2"
  by (cases k; cases k1; cases k2) (simp add: samek_def)

lemma samek_fields:
  assumes "samek k k'"
  shows "qtable k' = qtable k" "initproc k' = initproc k" "nextpid k' = nextpid k" "isQueueSetup k' = isQueueSetup k"
    "c_proc k' = c_proc k" "length (procs k') = length (procs k)"
  using assms by (cases k; cases k'; auto simp: samek_def dest: map_eq_imp_length_eq)+

lemma samek_proc:
  assumes "samek k k'" "j < length (procs k)"
  shows "unlock (procs k' ! j) = unlock (procs k ! j)"
proof -
  have "map unlock (procs k') ! j = map unlock (procs k) ! j" "j < length (procs k')"
    using assms samek_fields(6) [OF assms(1)] by (simp_all add: samek_def)
  then show ?thesis using assms(2) by simp
qed

lemma unlock_fields:
  assumes "unlock p = unlock q"
  shows "p_state p = p_state q" "p_chan p = p_chan q" "p_pid p = p_pid q" "p_parent p = p_parent q" "p_sz p = p_sz q"
    "p_pagetable p = p_pagetable q" "p_trapframe p = p_trapframe q" "p_resume p = p_resume q" "p_ofile p = p_ofile q"
    "p_cwd p = p_cwd q" "p_name p = p_name q" "p_xstate p = p_xstate q" "p_killed p = p_killed q" "p_kstack p = p_kstack q"
proof -
  show "p_state p = p_state q" using assms by (cases p; cases q; simp add: unlock_def)
  show "p_chan p = p_chan q" "p_pid p = p_pid q" "p_parent p = p_parent q" "p_sz p = p_sz q"
    "p_pagetable p = p_pagetable q" "p_trapframe p = p_trapframe q" "p_resume p = p_resume q" "p_ofile p = p_ofile q"
    "p_cwd p = p_cwd q" "p_name p = p_name q" "p_xstate p = p_xstate q" "p_killed p = p_killed q" "p_kstack p = p_kstack q"
    using assms by (cases p; cases q; simp add: unlock_def)+
qed

lemmas samek_state = samek_proc [THEN unlock_fields(1)]

lemma samek_sched_ok:
  assumes "samek k k'" "sched_ok k"
  shows "sched_ok k'"
proof (rule sched_ok_cong [OF assms(2)])
  have "length (procs k) = NPROC" using assms(2) by (simp add: sched_ok_def)
  then show "i < NPROC \<Longrightarrow> p_state (procs k' ! i) = RUNNABLE \<longleftrightarrow> p_state (procs k ! i) = RUNNABLE" for i
    using samek_state [OF assms(1)] by simp
qed (use samek_fields [OF assms(1)] in simp_all)

section \<open>Taking and releasing\<close>

lemma samek_lock: "samek k (upd_proc i (\<lambda>p. p\<lparr>p_lock := l\<rparr>) (k\<lparr>hart := h\<rparr>))"
  by (cases "i < length (procs k)")
    (simp_all add: samek_def upd_proc_def map_update unlock_def list_update_same_conv list_update_beyond)

lemma samek_klocks: "samek k (k\<lparr>klocks := ls, hart := h\<rparr>)"
  by (simp add: samek_def)

lemma locks_acquire_p:
  assumes "locks L P k" "i < NPROC" "i \<notin> P"
  obtains k' where "acquire_p i k = Ok k'" "locks L (insert i P) k'" "samek k k'"
proof -
  let ?k = "upd_proc i (\<lambda>p. p\<lparr>p_lock := held\<rparr>) (k\<lparr>hart := push_off (hart k)\<rparr>)"
  note a = assms(1) [unfolded locks_def]
  have "\<not> lk_locked (p_lock (procs k ! i))" using a assms(2,3) by simp
  then have "acquire_p i k = Ok ?k" by (rule acquire_p_free)
  moreover have "finite P" using a finite_subset by auto
  then have "card (insert i P) = Suc (card P)" using assms(3) by simp
  then have "locks L (insert i P) ?k" using a assms(2) push_off_ok [of "hart k"] unfolding locks_def by (auto simp: upd_proc_nth)
  ultimately show ?thesis using that samek_lock by blast
qed

lemma locks_release_p:
  assumes "locks L P k" "i \<in> P"
  obtains k' where "release_p i k = Ok k'" "locks L (P - {i}) k'" "samek k k'"
proof -
  let ?k = "upd_proc i (\<lambda>p. p\<lparr>p_lock := initlock\<rparr>) (k\<lparr>hart := pop (hart k)\<rparr>)"
  note a = assms(1) [unfolded locks_def]
  have f: "finite P" "i < NPROC" using a assms(2) finite_subset by auto
  then have c: "card P = Suc (card (P - {i}))" using assms(2) card_Suc_Diff1 by metis
  then have n: "1 \<le> noff (hart k)" using a by simp
  then have "\<not> intr (hart k)" using a by (simp add: hart_ok_def)
  then have "release_p i k = Ok ?k" using a n assms(2) f(2) by (intro release_p_held) auto
  moreover have "locks L (P - {i}) ?k"
    using a c n f unfolding locks_def by (auto simp: upd_proc_nth hart_ok_def)
  ultimately show ?thesis using that samek_lock by blast
qed

lemma locks_acquire_lk:
  assumes "locks L P k" "l \<notin> L"
  obtains k' where "acquire_lk l k = Ok k'" "locks (insert l L) P k'" "samek k k'"
proof -
  let ?k = "k\<lparr>klocks := (klocks k)(l := held), hart := push_off (hart k)\<rparr>"
  note a = assms(1) [unfolded locks_def]
  have "acquire_lk l k = Ok ?k" by (rule acquire_lk_free) (use a assms(2) in metis)
  moreover have "locks (insert l L) P ?k" using a assms(2) push_off_ok [of "hart k"] unfolding locks_def by auto
  ultimately show ?thesis using that samek_klocks by blast
qed

lemma locks_release_lk:
  assumes "locks L P k" "l \<in> L"
  obtains k' where "release_lk l k = Ok k'" "locks (L - {l}) P k'" "samek k k'"
proof -
  let ?k = "k\<lparr>klocks := (klocks k)(l := initlock), hart := pop (hart k)\<rparr>"
  note a = assms(1) [unfolded locks_def]
  have c: "card L = Suc (card (L - {l}))" using a assms(2) card_Suc_Diff1 by metis
  then have n: "1 \<le> noff (hart k)" using a by simp
  then have "\<not> intr (hart k)" using a by (simp add: hart_ok_def)
  then have "release_lk l k = Ok ?k" using a n assms(2) by (intro release_lk_held) auto
  moreover have "locks (L - {l}) P ?k" using a c n unfolding locks_def by (auto simp: hart_ok_def)
  ultimately show ?thesis using that samek_klocks by blast
qed

text \<open>Updates that leave the locks alone.\<close>

lemma locks_cong:
  assumes "locks L P k" "klocks k' = klocks k" "hart k' = hart k" "length (procs k') = length (procs k)"
    and "\<And>j. j < NPROC \<Longrightarrow> p_lock (procs k' ! j) = p_lock (procs k ! j)"
  shows "locks L P k'"
  using assms by (simp add: locks_def)

lemma locks_upd:
  assumes "locks L P k" "\<And>p. p_lock (f p) = p_lock p"
  shows "locks L P (upd_proc i f k)"
  by (rule locks_cong [OF assms(1)]) (auto simp: upd_proc_nth assms(2))

lemma running_locks:
  "running k \<Longrightarrow> locks {} {} k" "running_with l k \<Longrightarrow> locks {l} {} k"
  by (auto simp: running_def running_with_def locks_def kinv_def sched_ok_def no_locks_def)

end
