(* ===== verification/Proc_Own.thy ===== *)
theory Proc_Own
  imports Proc_Locks
begin

text \<open>
  Who owns which page. The image of a process is its trap frame, page table and size; its pages
  are the trap frame, the tables and the user pages. The pages of two processes are disjoint,
  and so are they from the free list and from the pages \<open>K\<close> in use elsewhere (pipes).
\<close>

section \<open>Images\<close>

type_synonym image = "nat option \<times> nat option \<times> nat"

definition image :: "proc \<Rightarrow> image" where
  "image p = (p_trapframe p, p_pagetable p, p_sz p)"

fun pages_of :: "mem \<Rightarrow> image \<Rightarrow> nat set" where
  "pages_of m (tf, pt, sz) = set_option tf \<union> (case pt of None \<Rightarrow> {} | Some pt \<Rightarrow> footprint m pt sz)"

fun image_ok :: "nat \<Rightarrow> nat \<Rightarrow> mem \<Rightarrow> image \<Rightarrow> bool" where
  "image_ok kend t m (None, None, sz) = (sz = 0)"
| "image_ok kend t m (None, Some pt, sz) = False"
| "image_ok kend t m (Some tf, None, sz) = (phys_page kend tf \<and> sz = 0)"
| "image_ok kend t m (Some tf, Some pt, sz) =
     (phys_page kend tf \<and> pt \<noteq> 0 \<and> aspace kend t m pt sz tf \<and> tf \<notin> footprint m pt sz)"

definition owned :: "nat \<Rightarrow> nat \<Rightarrow> nat set \<Rightarrow> (nat \<Rightarrow> image) \<Rightarrow> kmem \<Rightarrow> nat list \<Rightarrow> bool" where
  "owned kend t K im s free \<longleftrightarrow> kmem_inv kend s free \<and>
     (\<forall>i < NPROC. image_ok kend t (kmemory s) (im i)) \<and>
     (\<forall>i < NPROC. \<forall>j < NPROC. i \<noteq> j \<longrightarrow> pages_of (kmemory s) (im i) \<inter> pages_of (kmemory s) (im j) = {}) \<and>
     (\<forall>i < NPROC. pages_of (kmemory s) (im i) \<inter> (set free \<union> K) = {}) \<and>
     set free \<inter> K = {} \<and> (\<forall>q \<in> K. phys_page kend q)"

definition all_pages :: "nat set \<Rightarrow> (nat \<Rightarrow> image) \<Rightarrow> kmem \<Rightarrow> nat list \<Rightarrow> nat set" where
  "all_pages K im s free = (\<Union>i < NPROC. pages_of (kmemory s) (im i)) \<union> set free \<union> K"

lemma image_phys:
  assumes "image_ok kend t m x" "q \<in> pages_of m x"
  shows "phys_page kend q"
  using assms by (cases "(kend, t, m, x)" rule: image_ok.cases) (auto dest: footprint_phys)

lemma image_same:
  assumes "same_on (pages_of m x) m m'"
  shows "pages_of m' x = pages_of m x" "image_ok kend t m' x = image_ok kend t m x"
proof -
  obtain tf pt sz where x: "x = (tf, pt, sz)" by (cases x)
  have "pages_of m' x = pages_of m x \<and> image_ok kend t m' x = image_ok kend t m x"
  proof (cases pt)
    case (Some p)
    then have "same_on (tables 2 m p) m m'" by (intro same_on_subset [OF assms]) (auto simp: x footprint_def)
    note s = aspace_same [OF this]
    then show ?thesis using Some x by (cases tf) simp_all
  qed (cases tf; simp add: x)
  then show "pages_of m' x = pages_of m x" "image_ok kend t m' x = image_ok kend t m x" by auto
qed

section \<open>Changing one image\<close>

text \<open>A change of the image of one process, that takes pages from the free list and gives pages back.\<close>

definition reimage :: "nat \<Rightarrow> nat \<Rightarrow> kmem \<Rightarrow> image \<Rightarrow> nat list \<Rightarrow> kmem \<Rightarrow> image \<Rightarrow> nat list \<Rightarrow> bool" where
  "reimage kend t s x free s' x' free' \<longleftrightarrow> kmem_inv kend s' free' \<and> image_ok kend t (kmemory s') x' \<and>
     pages_of (kmemory s') x' \<inter> set free' = {} \<and>
     pages_of (kmemory s') x' \<union> set free' = pages_of (kmemory s) x \<union> set free \<and>
     frame (pages_of (kmemory s) x \<union> set free) (kmemory s) (kmemory s')"

lemma reimage_trans:
  assumes "reimage kend t s x free s1 x1 free1" "reimage kend t s1 x1 free1 s2 x2 free2"
  shows "reimage kend t s x free s2 x2 free2"
proof -
  have "frame (pages_of (kmemory s) x \<union> set free) (kmemory s) (kmemory s2)"
    using frame_trans [of "pages_of (kmemory s) x \<union> set free" "kmemory s" "kmemory s1"] assms by (fastforce simp: reimage_def)
  then show ?thesis using assms by (simp add: reimage_def)
qed

lemma other_same:
  assumes own: "owned kend t K im s free" and i: "i < NPROC"
    and f: "frame (pages_of (kmemory s) (im i) \<union> set free) (kmemory s) m'"
  shows "j < NPROC \<Longrightarrow> j \<noteq> i \<Longrightarrow> same_on (pages_of (kmemory s) (im j)) (kmemory s) m'" "same_on K (kmemory s) m'"
proof -
  have inv: "kmem_inv kend s free" and K: "\<forall>q \<in> K. phys_page kend q" "set free \<inter> K = {}"
    and ok: "\<And>j. j < NPROC \<Longrightarrow> image_ok kend t (kmemory s) (im j)"
    and dK: "\<And>j. j < NPROC \<Longrightarrow> pages_of (kmemory s) (im j) \<inter> (set free \<union> K) = {}"
    and dj: "\<And>j. j < NPROC \<Longrightarrow> j \<noteq> i \<Longrightarrow> pages_of (kmemory s) (im j) \<inter> pages_of (kmemory s) (im i) = {}"
    using own i by (auto simp: owned_def)
  have ph: "\<forall>q \<in> pages_of (kmemory s) (im j) \<union> set free \<union> K. phys_page kend q" if "j < NPROC" for j
    using image_phys [OF ok [OF that]] free_pages [OF inv] K(1) by blast
  show "same_on K (kmemory s) m'" by (rule frame_same [OF f, of _ kend]) (use K dK [OF i] ph [OF i] in blast)+
  assume "j < NPROC" "j \<noteq> i"
  then show "same_on (pages_of (kmemory s) (im j)) (kmemory s) m'"
    by (intro frame_same [OF f, of _ kend]) (use dK [of j] dj [of j] ph [OF i] ph [of j] in blast)+
qed

lemma owned_reimage:
  assumes own: "owned kend t K im s free" and i: "i < NPROC" and r: "reimage kend t s (im i) free s' x free'"
  shows "owned kend t K (im(i := x)) s' free'" "all_pages K (im(i := x)) s' free' = all_pages K im s free"
proof -
  let ?im = "im(i := x)" and ?m = "kmemory s" and ?m' = "kmemory s'"
  note a = own [unfolded owned_def] and b = r [unfolded reimage_def]
  have f: "frame (pages_of ?m (im i) \<union> set free) ?m ?m'" using b by simp
  note so = other_same(1) [OF own i f]
  have same: "pages_of ?m' (?im j) = pages_of ?m (im j)" "image_ok kend t ?m' (?im j)" if "j < NPROC" "j \<noteq> i" for j
    using image_same [OF so [OF that]] that a by auto
  have new: "pages_of ?m' x \<union> set free' = pages_of ?m (im i) \<union> set free" "pages_of ?m' x \<inter> set free' = {}" using b by simp_all
  have img: "image_ok kend t ?m' (?im j)" if "j < NPROC" for j using same(2) [OF that] b by (cases "j = i") auto
  have dK: "pages_of ?m (im j) \<inter> (set free \<union> K) = {}" if "j < NPROC" for j using a that by simp
  have dd: "pages_of ?m (im j) \<inter> pages_of ?m (im l) = {}" if "j < NPROC" "l < NPROC" "j \<noteq> l" for j l using a that by simp
  have out: "pages_of ?m (im j) \<inter> (pages_of ?m' x \<union> set free') = {}" if "j < NPROC" "j \<noteq> i" for j
    unfolding new(1) using dK [OF that(1)] dd [OF that(1) i that(2)] by blast
  have K: "K \<inter> (pages_of ?m' x \<union> set free') = {}" unfolding new(1) using a dK [OF i] by blast
  have d1: "pages_of ?m' (?im j) \<inter> (set free' \<union> K) = {}" if "j < NPROC" for j
    using that same(1) [of j] out [of j] dK [of j] K new(2) by (cases "j = i") auto
  have d2: "pages_of ?m' (?im j) \<inter> pages_of ?m' (?im l) = {}" if "j < NPROC" "l < NPROC" "j \<noteq> l" for j l
    using that same(1) [of j] same(1) [of l] out [of j] out [of l] dd by (cases "j = i"; cases "l = i") auto
  have "kmem_inv kend s' free'" "\<forall>q \<in> K. phys_page kend q" "set free' \<inter> K = {}" using a b K by auto
  then show "owned kend t K ?im s' free'" unfolding owned_def using img d1 d2 by simp
  have split: "(\<Union>j < NPROC. F j) = F i \<union> (\<Union>j \<in> {..<NPROC} - {i}. F j)" for F :: "nat \<Rightarrow> nat set" using i by auto
  have "(\<Union>j \<in> {..<NPROC} - {i}. pages_of ?m' (?im j)) = (\<Union>j \<in> {..<NPROC} - {i}. pages_of ?m (im j))"
    by (rule SUP_cong) (use same(1) in auto)
  then show "all_pages K ?im s' free' = all_pages K im s free"
    unfolding all_pages_def split using new(1) by auto
qed

section \<open>The operations on one image\<close>

lemma moved_reimage:
  assumes "moved kend t pt tf s sz free s' sz' free'" "phys_page kend tf" "pt \<noteq> 0" "tf \<notin> footprint (kmemory s) pt sz \<union> set free"
  shows "reimage kend t s (Some tf, Some pt, sz) free s' (Some tf, Some pt, sz') free'"
proof -
  note a = assms(1) [unfolded moved_def]
  have "tf \<notin> footprint (kmemory s') pt sz' \<union> set free'" using a assms(4) by blast
  moreover have "frame (insert tf (footprint (kmemory s) pt sz) \<union> set free) (kmemory s) (kmemory s')"
    by (rule frame_mono [of "footprint (kmemory s) pt sz \<union> set free"]) (use a in auto)
  ultimately show ?thesis using a assms(2,3) by (auto simp: reimage_def)
qed

text \<open>Writes to the pages of a process that keep its page table.\<close>

lemma write_reimage:
  assumes "image_ok kend t (kmemory s) x" "kmem_inv kend s free" "pages_of (kmemory s) x \<inter> set free = {}"
    and f: "frame P (kmemory s) m'" "P \<subseteq> pages_of (kmemory s) x" and T: "same_on (pages_of (kmemory s) x - P) (kmemory s) m' \<Longrightarrow>
      pages_of m' x = pages_of (kmemory s) x \<and> image_ok kend t m' x"
  shows "reimage kend t s x free (s\<lparr>kmemory := m'\<rparr>) x free"
proof -
  have ph: "\<forall>q \<in> pages_of (kmemory s) x \<union> set free. phys_page kend q" using assms(1,2) image_phys free_pages by blast
  have "same_on (set free) (kmemory s) m'" by (rule frame_same [OF f(1), of _ kend]) (use ph f(2) assms(3) in blast)+
  then have "kmem_inv kend (s\<lparr>kmemory := m'\<rparr>) free" using kmem_inv_same [OF assms(2), of m'] by simp
  moreover have "same_on (pages_of (kmemory s) x - P) (kmemory s) m'"
    by (rule frame_same [OF f(1), of _ kend]) (use ph f(2) in blast)+
  moreover have "frame (pages_of (kmemory s) x \<union> set free) (kmemory s) m'" by (rule frame_mono [OF f(1)]) (use f(2) in blast)
  ultimately show ?thesis using T assms(3) by (simp add: reimage_def)
qed

lemma kmem_freelist: "kmemory s' = m' \<Longrightarrow> freelist s' = freelist s \<Longrightarrow> (s :: kmem)\<lparr>kmemory := m'\<rparr> = s'"
  by simp

lemma tf_reimage:
  assumes ok: "image_ok kend t (kmemory s) (Some tf, pt, sz)" and inv: "kmem_inv kend s free" "pages_of (kmemory s) (Some tf, pt, sz) \<inter> set free = {}"
    and f: "frame {tf} (kmemory s) m'"
  shows "reimage kend t s (Some tf, pt, sz) free (s\<lparr>kmemory := m'\<rparr>) (Some tf, pt, sz) free"
proof (rule write_reimage [OF ok inv f])
  assume so: "same_on (pages_of (kmemory s) (Some tf, pt, sz) - {tf}) (kmemory s) m'"
  show "pages_of m' (Some tf, pt, sz) = pages_of (kmemory s) (Some tf, pt, sz) \<and> image_ok kend t m' (Some tf, pt, sz)"
  proof (cases pt)
    case (Some p)
    then have "same_on (tables 2 (kmemory s) p) (kmemory s) m'"
      by (intro same_on_subset [OF so]) (use ok in \<open>auto simp: footprint_def\<close>)
    from aspace_same [OF this] show ?thesis using ok Some by simp
  qed (use ok in simp)
qed simp

lemma alloc_reimage:
  assumes "kmem_inv kend s (q # free)"
  obtains s' where "kalloc s = (q, s')" "q \<noteq> 0" "reimage kend t s (None, None, 0) (q # free) s' (Some q, None, 0) free"
proof -
  obtain s' where s': "kalloc s = (q, s')" "kmem_inv kend s' free" "frame {q} (kmemory s) (kmemory s')"
    using kalloc_page [OF assms] by (auto simp: frame_def)
  have q: "phys_page kend q" "q \<notin> set free" "q \<noteq> 0" using assms by (auto simp: kmem_inv_def phys_page_def)
  have "frame (set (q # free)) (kmemory s) (kmemory s')" by (rule frame_mono [OF s'(3)]) simp
  then show ?thesis using that s' q by (simp add: reimage_def)
qed

lemma pagetable_reimage:
  assumes inv: "kmem_inv kend s free" and t: "t mod 4096 = 0" "t < 2 ^ 56" and tf: "phys_page kend tf" "tf \<notin> set free"
  obtains pt s' free' where "proc_pagetable kend t tf s = Some (Ok (pt, s'))"
    "reimage kend t s (Some tf, None, 0) free s' (Some tf, ptr pt, 0) free'"
proof -
  obtain pt s' free' where p: "proc_pagetable kend t tf s = Some (Ok (pt, s'))" "kmem_inv kend s' free'"
      "frame (set free) (kmemory s) (kmemory s')"
      "pt = 0 \<and> set free' = set free \<or>
       pt \<noteq> 0 \<and> aspace kend t (kmemory s') pt 0 tf \<and> footprint (kmemory s') pt 0 \<inter> set free' = {} \<and>
         footprint (kmemory s') pt 0 \<union> set free' = set free"
    using proc_pagetable_makes [OF inv t tf(1)] by blast
  have "frame (insert tf (set free)) (kmemory s) (kmemory s')" by (rule frame_mono [OF p(3)]) auto
  then have "reimage kend t s (Some tf, None, 0) free s' (Some tf, ptr pt, 0) free'"
    using p(2,4) tf by (auto simp: reimage_def ptr_def)
  then show ?thesis using that p(1) by blast
qed

text \<open>Freeing the pages of a process, the trap frame first.\<close>

lemma free_reimage:
  assumes ok: "image_ok kend t (kmemory s) (Some tf, pt, sz)" and inv: "kmem_inv kend s free"
    and dis: "pages_of (kmemory s) (Some tf, pt, sz) \<inter> set free = {}" and t: "t mod 4096 = 0" "t < 2 ^ 56"
  obtains s1 s' free' where "kfree kend tf s = Ok s1"
    "case pt of None \<Rightarrow> s' = s1 | Some p \<Rightarrow> proc_freepagetable kend p sz s1 = Some (Ok s')"
    "reimage kend t s (Some tf, pt, sz) free s' (None, None, 0) free'"
proof -
  have tf: "phys_page kend tf" "tf \<notin> set free" using ok dis by (cases pt; simp)+
  then obtain s1 where s1: "kfree kend tf s = Ok s1" "kmem_inv kend s1 (tf # free)" "frame {tf} (kmemory s) (kmemory s1)"
    using kfree_page [OF inv, of tf] by (auto simp: frame_def)
  show ?thesis
  proof (cases pt)
    case None
    have "frame (insert tf (set free)) (kmemory s) (kmemory s1)" by (rule frame_mono [OF s1(3)]) simp
    then have "reimage kend t s (Some tf, pt, sz) free s1 (None, None, 0) (tf # free)" using None s1 tf by (simp add: reimage_def)
    then show ?thesis using that [OF s1(1)] None by simp
  next
    case (Some p)
    have sp: "aspace kend t (kmemory s) p sz tf" "tf \<notin> footprint (kmemory s) p sz" using ok Some by simp_all
    have "same_on (footprint (kmemory s) p sz) (kmemory s) (kmemory s1)"
      by (rule frame_same [OF s1(3), of _ kend]) (use sp tf footprint_phys [OF sp(1)] in auto)
    then have "same_on (tables 2 (kmemory s) p) (kmemory s) (kmemory s1)" by (rule same_on_subset) (simp add: footprint_def)
    note same = aspace_same [OF this]
    have sp1: "aspace kend t (kmemory s1) p sz tf" and d1: "footprint (kmemory s1) p sz \<inter> set (tf # free) = {}"
      using sp same dis Some by auto
    obtain s' ps where s': "proc_freepagetable kend p sz s1 = Some (Ok s')" "kmem_inv kend s' (ps @ tf # free)"
        "set ps = footprint (kmemory s) p sz" "frame (footprint (kmemory s) p sz) (kmemory s1) (kmemory s')"
      using proc_freepagetable_frees [OF sp1 s1(2) d1 t tf(1)] same(2) by (auto simp: Vm_Free.freed_def)
    have "frame (pages_of (kmemory s) (Some tf, pt, sz) \<union> set free) (kmemory s) (kmemory s')"
      by (rule frame_mono [OF frame_trans [OF s1(3) s'(4)]]) (auto simp: Some)
    then have "reimage kend t s (Some tf, pt, sz) free s' (None, None, 0) (ps @ tf # free)"
      using s' Some by (auto simp: reimage_def)
    then show ?thesis using that [OF s1(1)] Some s'(1) by simp
  qed
qed

end
