(* ===== verification/Proc_Alloc.thy ===== *)
theory Proc_Alloc
  imports Proc_Own
begin

text \<open>
  \<^verbatim>\<open>allocproc\<close> and \<^verbatim>\<open>freeproc\<close>: they always return, an entry is taken with its trap frame and
  page table or not at all, and every page goes to the process or back to the free list.
\<close>

section \<open>Changes of a few processes\<close>

definition samex :: "nat set \<Rightarrow> kernel \<Rightarrow> kernel \<Rightarrow> bool" where
  "samex X k k' \<longleftrightarrow> qtable k' = qtable k \<and> initproc k' = initproc k \<and> isQueueSetup k' = isQueueSetup k \<and>
     c_proc k' = c_proc k \<and> length (procs k') = length (procs k) \<and>
     (\<forall>j < length (procs k). j \<notin> X \<longrightarrow> unlock (procs k' ! j) = unlock (procs k ! j))"

lemma samex_refl [simp]: "samex X k k"
  by (simp add: samex_def)

lemma samex_trans: "samex X k k1 \<Longrightarrow> samex Y k1 k2 \<Longrightarrow> samex (X \<union> Y) k k2"
  by (simp add: samex_def)

lemma samex_mono: "samex X k k' \<Longrightarrow> X \<subseteq> Y \<Longrightarrow> samex Y k k'"
  by (auto simp: samex_def)

lemma samek_samex: "samek k k' \<Longrightarrow> samex X k k'"
  using samek_fields [of k k'] samek_proc [of k k'] by (simp add: samex_def)

lemma upd_samex: "samex {i} k (upd_proc i f k)"
  by (simp add: samex_def upd_proc_nth)

lemma nextpid_samex: "samex X k (k\<lparr>nextpid := v\<rparr>)"
  by (simp add: samex_def)

section \<open>Ownership as a property of the state\<close>

abbreviation (input) images :: "ksys \<Rightarrow> nat \<Rightarrow> image" where
  "images s \<equiv> \<lambda>i. image (kproc s i)"

definition own :: "nat \<Rightarrow> nat \<Rightarrow> nat set \<Rightarrow> ksys \<Rightarrow> nat list \<Rightarrow> bool" where
  "own kend t K s free \<longleftrightarrow> owned kend t K (images s) (kmm s) free \<and> length (procs (kern s)) = NPROC"

definition pages :: "nat set \<Rightarrow> ksys \<Rightarrow> nat list \<Rightarrow> nat set" where
  "pages K s free = all_pages K (images s) (kmm s) free"

definition proc_pages :: "ksys \<Rightarrow> nat \<Rightarrow> nat set" where
  "proc_pages s i = pages_of (kmemory (kmm s)) (image (kproc s i))"

text \<open>What has to be shown of a step that works on the image of process \<open>i\<close>.\<close>

definition step_of :: "nat \<Rightarrow> nat \<Rightarrow> nat \<Rightarrow> ksys \<Rightarrow> nat list \<Rightarrow> ksys \<Rightarrow> nat list \<Rightarrow> bool" where
  "step_of kend t i s free s' free' \<longleftrightarrow>
     reimage kend t (kmm s) (image (kproc s i)) free (kmm s') (image (kproc s' i)) free' \<and>
     (\<forall>j < NPROC. j \<noteq> i \<longrightarrow> image (kproc s' j) = image (kproc s j)) \<and> length (procs (kern s')) = length (procs (kern s))"

lemma owned_cong:
  assumes "\<And>j. j < NPROC \<Longrightarrow> im j = im' j"
  shows "owned kend t K im s free = owned kend t K im' s free" "all_pages K im s free = all_pages K im' s free"
  using assms by (simp_all add: owned_def all_pages_def)

lemma own_step:
  assumes o: "own kend t K s free" and i: "i < NPROC" and st: "step_of kend t i s free s' free'"
  shows "own kend t K s' free'" "pages K s' free' = pages K s free"
    "\<And>j. j < NPROC \<Longrightarrow> j \<noteq> i \<Longrightarrow> same_on (proc_pages s j) (kmemory (kmm s)) (kmemory (kmm s')) \<and> proc_pages s' j = proc_pages s j"
    "same_on K (kmemory (kmm s)) (kmemory (kmm s'))"
proof -
  note a = st [unfolded step_of_def]
  have r: "reimage kend t (kmm s) (images s i) free (kmm s') (image (kproc s' i)) free'" using a by simp
  have o': "owned kend t K (images s) (kmm s) free" "length (procs (kern s)) = NPROC" using o by (simp_all add: own_def)
  have im: "((images s)(i := image (kproc s' i))) j = images s' j" if "j < NPROC" for j using a that by simp
  note n = owned_reimage [OF o'(1) i r]
  show "own kend t K s' free'" "pages K s' free' = pages K s free"
    using n owned_cong [OF im] a o'(2) by (simp_all add: own_def pages_def)
  have f: "frame (pages_of (kmemory (kmm s)) (images s i) \<union> set free) (kmemory (kmm s)) (kmemory (kmm s'))"
    using r by (simp add: reimage_def)
  show "same_on K (kmemory (kmm s)) (kmemory (kmm s'))" by (rule other_same(2) [OF o'(1) i f])
  fix j assume j: "j < NPROC" "j \<noteq> i"
  have so: "same_on (proc_pages s j) (kmemory (kmm s)) (kmemory (kmm s'))"
    unfolding proc_pages_def by (rule other_same(1) [OF o'(1) i f j])
  then show "same_on (proc_pages s j) (kmemory (kmm s)) (kmemory (kmm s')) \<and> proc_pages s' j = proc_pages s j"
    using image_same(1) [of "kmemory (kmm s)" "image (kproc s j)"] a j by (simp add: proc_pages_def)
qed

lemma step_trans:
  assumes "step_of kend t i s free s1 free1" "step_of kend t i s1 free1 s2 free2"
  shows "step_of kend t i s free s2 free2"
  using assms reimage_trans unfolding step_of_def by (metis (no_types, lifting))

lemma own_facts:
  assumes "own kend t K s free" "i < NPROC"
  shows "image_ok kend t (kmemory (kmm s)) (image (kproc s i))" "kmem_inv kend (kmm s) free"
    "proc_pages s i \<inter> set free = {}" "length (procs (kern s)) = NPROC"
  using assms by (auto simp: own_def owned_def proc_pages_def)

lemma step_refl:
  assumes "own kend t K s free" "i < NPROC" "kmm s' = kmm s" "\<And>j. j < NPROC \<Longrightarrow> image (kproc s' j) = image (kproc s j)"
    "length (procs (kern s')) = length (procs (kern s))"
  shows "step_of kend t i s free s' free"
  using own_facts [OF assms(1,2)] assms(2-5) by (simp add: step_of_def reimage_def proc_pages_def)

text \<open>The state after a change of memory and of one entry.\<close>

lemma kproc_upd [simp]:
  "kproc (upd_kproc i f s) j = (if i = j \<and> i < length (procs (kern s)) then f (kproc s i) else kproc s j)"
  by (simp add: kproc_def upd_kproc_def upd_proc_nth)

lemma kproc_set [simp]: "kproc (set_mem s m) = kproc s" "kproc (s\<lparr>kfiles := io\<rparr>) = kproc s" "kproc (s\<lparr>ticks := n\<rparr>) = kproc s"
  by (simp_all add: kproc_def set_mem_def fun_eq_iff)

lemma set_simps [simp]:
  "kmm (set_mem s m) = m" "kern (set_mem s m) = kern s" "kfiles (set_mem s m) = kfiles s" "ticks (set_mem s m) = ticks s"
  "kmm (upd_kproc i f s) = kmm s" "kern (upd_kproc i f s) = upd_proc i f (kern s)" "kfiles (upd_kproc i f s) = kfiles s"
  "ticks (upd_kproc i f s) = ticks s"
  by (simp_all add: set_mem_def upd_kproc_def)

lemma set_mem_upd: "set_mem (upd_kproc i f s) m = upd_kproc i f (set_mem s m)" "set_mem s (kmm s) = s" "set_mem (set_mem s m) m' = set_mem s m'"
  by (simp_all add: set_mem_def upd_kproc_def)

lemma samek_kproc:
  assumes "samek (kern s) k" "j < length (procs (kern s))"
  shows "unlock (kproc (s\<lparr>kern := k\<rparr>) j) = unlock (kproc s j)"
  using samek_proc [OF assms] by (simp add: kproc_def)

lemma image_unlock: "unlock p = unlock q \<Longrightarrow> image p = image q"
  using unlock_fields [of p q] by (simp add: image_def)

lemma step_samek:
  assumes "own kend t K s free" "i < NPROC" "samek (kern s) k"
  shows "step_of kend t i s free (s\<lparr>kern := k\<rparr>) free"
  by (rule step_refl [OF assms(1,2)])
    (use image_unlock [OF samek_kproc [OF assms(3)]] own_facts(4) [OF assms(1,2)] samek_fields(6) [OF assms(3)] in simp_all)

section \<open>Freeing\<close>

definition cleared :: "proc \<Rightarrow> proc" where
  "cleared p = p\<lparr>p_trapframe := None, p_pagetable := None, p_sz := 0, p_pid := 0, p_parent := None, p_name := [],
     p_chan := NoChan, p_killed := 0, p_xstate := 0, p_state := UNUSED, p_nice := 0\<rparr>"

lemma cleared_simps [simp]: "image (cleared p) = (None, None, 0)" "p_lock (cleared p) = p_lock p" "p_state (cleared p) = UNUSED"
  by (simp_all add: cleared_def image_def)

lemma freeproc_frees:
  assumes o: "own kend t K s free" and i: "i < NPROC" and t: "t mod 4096 = 0" "t < 2 ^ 56"
  obtains s' free' where "freeproc kend i s = Some (Ok s')" "step_of kend t i s free s' free'"
    "kern s' = upd_proc i cleared (kern s)" "kfiles s' = kfiles s" "ticks s' = ticks s"
proof -
  note f = own_facts [OF o i]
  obtain tf pt sz where x: "image (kproc s i) = (tf, pt, sz)" by (cases "image (kproc s i)")
  have px: "p_trapframe (kproc s i) = tf" "p_pagetable (kproc s i) = pt" "p_sz (kproc s i) = sz" using x by (simp_all add: image_def)
  define fin where "fin m = (upd_kproc i (\<lambda>p. p\<lparr>p_pagetable := None, p_sz := 0, p_pid := 0, p_parent := None, p_name := [],
          p_chan := NoChan, p_killed := 0, p_xstate := 0, p_state := UNUSED, p_nice := 0\<rparr>)
        (set_mem (upd_kproc i (\<lambda>p. p\<lparr>p_trapframe := None\<rparr>) s) m))" for m
  have k: "kern (fin m) = upd_proc i cleared (kern s)" for m
    using i f(4) by (simp add: fin_def upd_proc_def cleared_def)
  have rest: "kmm (fin m) = m" "kfiles (fin m) = kfiles s" "ticks (fin m) = ticks s" for m by (simp_all add: fin_def)
  have im: "image (kproc (fin m) j) = (if j = i then (None, None, 0) else image (kproc s j))" for m j
    using k [of m] i f(4) by (simp add: kproc_def upd_proc_nth)
  have len: "length (procs (kern (fin m))) = length (procs (kern s))" for m unfolding k by simp
  show ?thesis
  proof (cases tf)
    case None
    then have pt: "pt = None" "sz = 0" using f(1) x by (cases pt; simp)+
    have "freeproc kend i s = Some (Ok (fin (kmm s)))"
      using None pt px i f(4) by (simp add: freeproc_def fin_def Let_def set_mem_upd)
    moreover have "step_of kend t i s free (fin (kmm s)) free"
      by (rule step_refl [OF o i]) (use im x None pt rest len in auto)
    ultimately show ?thesis using that k rest by blast
  next
    case (Some a)
    have d: "pages_of (kmemory (kmm s)) (Some a, pt, sz) \<inter> set free = {}" using f(3) x Some by (simp add: proc_pages_def)
    obtain s1 s' free' where r: "kfree kend a (kmm s) = Ok s1"
        "case pt of None \<Rightarrow> s' = s1 | Some p \<Rightarrow> proc_freepagetable kend p sz s1 = Some (Ok s')"
        "reimage kend t (kmm s) (Some a, pt, sz) free s' (None, None, 0) free'"
      by (rule free_reimage [OF _ f(2) d t]) (use f(1) x Some in simp_all)
    have "freeproc kend i s = Some (Ok (fin s'))"
      using Some px r(1,2) i f(4) by (cases pt) (simp_all add: freeproc_def fin_def Let_def set_mem_upd)
    moreover have "step_of kend t i s free (fin s') free'"
      unfolding step_of_def using r(3) x Some im rest len by simp
    ultimately show ?thesis using that k rest by blast
  qed
qed

lemma drop_proc_frees:
  assumes o: "own kend t K s free" and i: "i < NPROC" and t: "t mod 4096 = 0" "t < 2 ^ 56" and l: "locks L P (kern s)" "i \<in> P"
  obtains s' free' where "drop_proc kend i r s = Some (Ok (r, s'))" "step_of kend t i s free s' free'" "locks L (P - {i}) (kern s')"
    "samek (upd_proc i cleared (kern s)) (kern s')" "kfiles s' = kfiles s" "ticks s' = ticks s"
proof -
  obtain s1 free1 where s1: "freeproc kend i s = Some (Ok s1)" "step_of kend t i s free s1 free1"
      "kern s1 = upd_proc i cleared (kern s)" "kfiles s1 = kfiles s" "ticks s1 = ticks s"
    by (rule freeproc_frees [OF o i t])
  have "locks L P (kern s1)" unfolding s1(3) by (rule locks_upd [OF l(1)]) simp
  then obtain k where k: "release_p i (kern s1) = Ok k" "locks L (P - {i}) k" "samek (kern s1) k"
    by (rule locks_release_p [OF _ l(2)])
  have o1: "own kend t K s1 free1" by (rule own_step(1) [OF o i s1(2)])
  have "step_of kend t i s free (s1\<lparr>kern := k\<rparr>) free1" by (rule step_trans [OF s1(2) step_samek [OF o1 i k(3)]])
  then show ?thesis
    using that [of "s1\<lparr>kern := k\<rparr>" free1] s1 k by (simp add: drop_proc_def on_kern_def)
qed

section \<open>Allocating\<close>

lemma find_unused_ok:
  assumes "locks L P k" "set is \<subseteq> {..<NPROC} - P"
  shows "\<exists>r k'. find_unused is k = Ok (r, k') \<and> samek k k' \<and>
    (case r of None \<Rightarrow> (\<forall>i \<in> set is. p_state (procs k ! i) \<noteq> UNUSED) \<and> locks L P k'
     | Some i \<Rightarrow> i \<in> set is \<and> p_state (procs k ! i) = UNUSED \<and> locks L (insert i P) k')"
  using assms
proof (induction "is" arbitrary: k)
  case (Cons i "is")
  have i: "i < NPROC" "i \<notin> P" using Cons.prems(2) by auto
  have len: "length (procs k) = NPROC" using Cons.prems(1) by (simp add: locks_def)
  obtain k1 where k1: "acquire_p i k = Ok k1" "locks L (insert i P) k1" "samek k k1"
    by (rule locks_acquire_p [OF Cons.prems(1) i])
  have st: "p_state (procs k1 ! j) = p_state (procs k ! j)" if "j < NPROC" for j using samek_state [OF k1(3)] that len by simp
  show ?case
  proof (cases "p_state (procs k ! i) = UNUSED")
    case True
    then show ?thesis using k1 st [OF i(1)] by (auto intro!: exI [of _ "Some i"])
  next
    case False
    obtain k2 where k2: "release_p i k1 = Ok k2" "locks L (insert i P - {i}) k2" "samek k1 k2"
      by (rule locks_release_p [OF k1(2) insertI1])
    have s2: "samek k k2" by (rule samek_trans [OF k1(3) k2(3)])
    have l2: "locks L P k2" using k2(2) i(2) by simp
    have st2: "p_state (procs k2 ! j) = p_state (procs k ! j)" if "j < NPROC" for j using samek_state [OF s2] that len by simp
    obtain r k' where r: "find_unused is k2 = Ok (r, k')" "samek k2 k'"
        "case r of None \<Rightarrow> (\<forall>i \<in> set is. p_state (procs k2 ! i) \<noteq> UNUSED) \<and> locks L P k'
         | Some i \<Rightarrow> i \<in> set is \<and> p_state (procs k2 ! i) = UNUSED \<and> locks L (insert i P) k'"
      using Cons.IH [OF l2] Cons.prems(2) by auto
    have "find_unused (i # is) k = Ok (r, k')" using k1(1) k2(1) r(1) False st [OF i(1)] by simp
    moreover have "\<forall>j \<in> set is. j < NPROC" using Cons.prems(2) by auto
    ultimately show ?thesis
      using samek_trans [OF s2 r(2)] r(3) st2 False by (cases r) auto
  qed
qed simp

lemma allocpid_ok:
  assumes "locks L P k" "PidLock \<notin> L"
  obtains k' where "allocpid k = Ok (nextpid k, k')" "locks L P k'" "samex {} k k'" "nextpid k' = s32 (nextpid k + 1)"
proof -
  obtain k1 where k1: "acquire_lk PidLock k = Ok k1" "locks (insert PidLock L) P k1" "samek k k1"
    by (rule locks_acquire_lk [OF assms])
  let ?k2 = "k1\<lparr>nextpid := s32 (nextpid k1 + 1)\<rparr>"
  have "locks (insert PidLock L) P ?k2" by (rule locks_cong [OF k1(2)]) simp_all
  then obtain k' where k': "release_lk PidLock ?k2 = Ok k'" "locks (insert PidLock L - {PidLock}) P k'" "samek ?k2 k'"
    by (rule locks_release_lk [OF _ insertI1])
  have n: "nextpid k1 = nextpid k" using samek_fields [OF k1(3)] by simp
  have "allocpid k = Ok (nextpid k, k')" using k1(1) k'(1) n by (simp add: allocpid_def Let_def)
  moreover have "samex ({} \<union> {} \<union> {}) k k'"
    by (rule samex_trans [OF samex_trans [OF samek_samex [OF k1(3)] nextpid_samex] samek_samex [OF k'(3)]])
  moreover have "nextpid k' = s32 (nextpid k + 1)" using samek_fields(3) [OF k'(3)] n by simp
  ultimately show ?thesis using that k'(2) assms(2) by simp
qed

lemma step_make:
  assumes "reimage kend t (kmm s) (image (kproc s i)) free (kmm s') x free'"
    "\<And>j. j < NPROC \<Longrightarrow> image (kproc s' j) = (if j = i then x else image (kproc s j))" "i < NPROC"
    "length (procs (kern s')) = length (procs (kern s))"
  shows "step_of kend t i s free s' free'"
  using assms by (simp add: step_of_def)

lemma samex_kproc:
  assumes "samex X (kern s) k" "j < length (procs (kern s))" "j \<notin> X"
  shows "unlock (kproc (s\<lparr>kern := k\<rparr>) j) = unlock (kproc s j)"
  using assms by (simp add: samex_def kproc_def)

text \<open>The new entry, up to its lock.\<close>

definition fresh :: "proc \<Rightarrow> int \<Rightarrow> nat \<Rightarrow> nat \<Rightarrow> proc" where
  "fresh p pid tf pt = p\<lparr>p_pid := pid, p_state := USED, p_trapframe := Some tf, p_pagetable := Some pt, p_resume := Forkret\<rparr>"

lemma alloc_pages:
  assumes o: "own kend t K s free" and i: "i < NPROC" "image (kproc s i) = (None, None, 0)"
    and t: "t mod 4096 = 0" "t < 2 ^ 56" and l: "locks L {i} (kern s)"
  obtains (fail) s' free' where
    "alloc_memory kend t i s = Some (Ok (None, s'))"
    "step_of kend t i s free s' free'" "locks L {} (kern s')" "samex {i} (kern s) (kern s')" "kfiles s' = kfiles s"
    "ticks s' = ticks s" "p_state (kproc s' i) = UNUSED" "image (kproc s' i) = (None, None, 0)" "p_ofile (kproc s' i) = p_ofile (kproc s i)"
  | (ok) s' free' tf pt where
    "alloc_memory kend t i s = Some (Ok (Some i, s'))"
    "step_of kend t i s free s' free'" "kfiles s' = kfiles s" "ticks s' = ticks s"
    "kern s' = upd_proc i (\<lambda>p. p\<lparr>p_trapframe := Some tf, p_pagetable := Some pt, p_resume := Forkret\<rparr>) (kern s)" "pt \<noteq> 0"
proof -
  note f = own_facts [OF o i(1)]
  have len: "length (procs (kern s)) = NPROC" by (rule f(4))
  have dropped: thesis if st: "step_of kend t i s free s1 free1" "kern s1 = upd_proc i g (kern s)" "kfiles s1 = kfiles s" "ticks s1 = ticks s"
      and g: "\<And>p. p_lock (g p) = p_lock p" and go: "\<And>p. p_ofile (g p) = p_ofile p"
      and e: "alloc_memory kend t i s = drop_proc kend i None s1"
    for s1 free1 g
  proof -
    have o1: "own kend t K s1 free1" by (rule own_step(1) [OF o i(1) st(1)])
    have l1: "locks L {i} (kern s1)" unfolding st(2) by (rule locks_upd [OF l g])
    obtain s' free' where s': "drop_proc kend i (None :: nat option) s1 = Some (Ok (None, s'))" "step_of kend t i s1 free1 s' free'"
        "locks L ({i} - {i}) (kern s')" "samek (upd_proc i cleared (kern s1)) (kern s')" "kfiles s' = kfiles s1" "ticks s' = ticks s1"
      by (rule drop_proc_frees [OF o1 i(1) t l1 singletonI])
    have sx: "samex ({i} \<union> {i} \<union> {}) (kern s) (kern s')"
      unfolding st(2) [symmetric] by (rule samex_trans [OF samex_trans [OF upd_samex [of i "kern s" g, folded st(2)] upd_samex] samek_samex [OF s'(4)]])
    have u: "unlock (kproc s' i) = unlock (cleared (kproc s1 i))"
      using samek_proc [OF s'(4), of i] i(1) len st(2) by (simp add: kproc_def upd_proc_nth)
    have fs: "p_ofile (kproc s' i) = p_ofile (kproc s i)"
      using unlock_fields(9) [OF u] go st(2) i(1) len by (simp add: cleared_def kproc_def upd_proc_nth)
    show thesis
      by (rule fail [OF e [unfolded s'(1)] step_trans [OF st(1) s'(2)]])
        (use s' sx st unlock_fields(1) [OF u] image_unlock [OF u] fs in simp_all)
  qed
  show thesis
  proof (cases free)
    case Nil
    then have a: "kalloc (kmm s) = (0, kmm s)" using f(2) pages.alloc_none [of kend "kmm s"] by simp
    let ?s1 = "upd_kproc i (\<lambda>p. p\<lparr>p_trapframe := None\<rparr>) s"
    have "step_of kend t i s free ?s1 free" by (rule step_refl [OF o i(1)]) (use i(2) in \<open>auto simp: image_def\<close>)
    then show thesis by (rule dropped [of ?s1 free "\<lambda>p. p\<lparr>p_trapframe := None\<rparr>"]) (simp_all add: alloc_memory_def a ptr_def set_mem_upd Let_def)
  next
    case (Cons q qs)
    obtain m1 where m1: "kalloc (kmm s) = (q, m1)" "q \<noteq> 0" "reimage kend t (kmm s) (None, None, 0) (q # qs) m1 (Some q, None, 0) qs"
      by (rule alloc_reimage [of kend "kmm s" q qs]) (use f(2) Cons in simp)
    let ?s1 = "upd_kproc i (\<lambda>p. p\<lparr>p_trapframe := Some q\<rparr>) (set_mem s m1)"
    have st1: "step_of kend t i s free ?s1 qs"
      by (rule step_make [where x = "(Some q, None, 0)"]) (use m1(3) i Cons len in \<open>auto simp: image_def\<close>)
    have o1: "own kend t K ?s1 qs" by (rule own_step(1) [OF o i(1) st1])
    note f1 = own_facts [OF o1 i(1)]
    have im1: "image (kproc ?s1 i) = (Some q, None, 0)" using i len by (simp add: image_def)
    have q: "phys_page kend q" "q \<notin> set qs" using f1(1,3) im1 by (simp_all add: proc_pages_def)
    obtain pt m2 free2 where m2: "proc_pagetable kend t q m1 = Some (Ok (pt, m2))"
        "reimage kend t m1 (Some q, None, 0) qs m2 (Some q, ptr pt, 0) free2"
      by (rule pagetable_reimage [OF _ t q]) (use f1(2) in simp)
    let ?s2 = "upd_kproc i (\<lambda>p. p\<lparr>p_trapframe := Some q, p_pagetable := ptr pt\<rparr>) (set_mem s m2)"
    have st2: "step_of kend t i s free ?s2 free2"
    proof (rule step_trans [OF st1])
      show "step_of kend t i ?s1 qs ?s2 free2"
        by (rule step_make [where x = "(Some q, ptr pt, 0)"]) (use m2(2) i im1 len in \<open>auto simp: image_def\<close>)
    qed
    have e: "upd_kproc i (\<lambda>p. p\<lparr>p_pagetable := ptr pt\<rparr>) (set_mem ?s1 m2) = ?s2"
      using i(1) len by (simp add: upd_kproc_def set_mem_def upd_proc_def)
    show thesis
    proof (cases "pt = 0")
      case True
      show thesis
        by (rule dropped [OF st2, of "\<lambda>p. p\<lparr>p_trapframe := Some q, p_pagetable := ptr pt\<rparr>"])
          (use m1 m2 e True in \<open>simp_all add: alloc_memory_def ptr_def Let_def\<close>)
    next
      case False
      let ?s3 = "upd_kproc i (\<lambda>p. p\<lparr>p_resume := Forkret\<rparr>) ?s2"
      have o2: "own kend t K ?s2 free2" by (rule own_step(1) [OF o i(1) st2])
      have "step_of kend t i s free ?s3 free2"
        by (rule step_trans [OF st2 step_refl [OF o2 i(1)]]) (auto simp: image_def)
      then show thesis
        by (rule ok [where s' = ?s3 and free' = free2 and tf = q and pt = pt, rotated]) (use m1 m2 e False i len in \<open>simp_all add: alloc_memory_def ptr_def Let_def upd_proc_def\<close>)
    qed
  qed
qed

lemma allocproc_ok:
  assumes o: "own kend t K s free" and t: "t mod 4096 = 0" "t < 2 ^ 56" and l: "locks L {} (kern s)" "PidLock \<notin> L"
    and un: "\<forall>i < NPROC. p_state (kproc s i) = UNUSED \<longrightarrow> image (kproc s i) = (None, None, 0)"
  obtains (fail) s' free' i where "allocproc kend t s = Some (Ok (None, s'))" "i < NPROC" "step_of kend t i s free s' free'"
      "locks L {} (kern s')" "samex {i} (kern s) (kern s')" "kfiles s' = kfiles s" "ticks s' = ticks s"
      "p_state (kproc s' i) = p_state (kproc s i)" "image (kproc s' i) = image (kproc s i)"
      "unlock (kproc s' i) = unlock (kproc s i) \<and> kmm s' = kmm s \<or> p_state (kproc s i) = UNUSED" "p_ofile (kproc s' i) = p_ofile (kproc s i)"
  | (ok) s' free' i tf pt where "allocproc kend t s = Some (Ok (Some i, s'))" "i < NPROC" "step_of kend t i s free s' free'"
      "locks L {i} (kern s')" "samex {i} (kern s) (kern s')" "kfiles s' = kfiles s" "ticks s' = ticks s"
      "p_state (kproc s i) = UNUSED" "unlock (kproc s' i) = unlock (fresh (kproc s i) (nextpid (kern s)) tf pt)" "pt \<noteq> 0"
proof -
  have len: "length (procs (kern s)) = NPROC" using o by (simp add: own_def)
  obtain r k1 where k1: "find_unused [0..<NPROC] (kern s) = Ok (r, k1)" "samek (kern s) k1"
      "case r of None \<Rightarrow> (\<forall>i \<in> set [0..<NPROC]. p_state (procs (kern s) ! i) \<noteq> UNUSED) \<and> locks L {} k1
       | Some i \<Rightarrow> i \<in> set [0..<NPROC] \<and> p_state (procs (kern s) ! i) = UNUSED \<and> locks L (insert i {}) k1"
    using find_unused_ok [OF l(1), of "[0..<NPROC]"] by (auto simp: atLeast0LessThan)
  show thesis
  proof (cases r)
    case None
    have u: "unlock (kproc (s\<lparr>kern := k1\<rparr>) 0) = unlock (kproc s 0)" using samek_kproc [OF k1(2)] len by simp
    show thesis
    proof (rule fail [of "s\<lparr>kern := k1\<rparr>" 0 free])
      show "allocproc kend t s = Some (Ok (None, s\<lparr>kern := k1\<rparr>))" using k1(1) None by (simp add: allocproc_def)
      show "step_of kend t 0 s free (s\<lparr>kern := k1\<rparr>) free" by (rule step_samek [OF o _ k1(2)]) simp
    qed (use u k1(3) None unlock_fields(1,9) [OF u] image_unlock [OF u] samek_samex [OF k1(2)] in simp_all)
  next
    case (Some i)
    then have i: "i < NPROC" "p_state (kproc s i) = UNUSED" "locks L {i} k1" using k1(3) by (simp_all add: kproc_def)
    obtain k2 where k2: "allocpid k1 = Ok (nextpid k1, k2)" "locks L {i} k2" "samex {} k1 k2" by (rule allocpid_ok [OF i(3) l(2)])
    have n: "nextpid k1 = nextpid (kern s)" using samek_fields [OF k1(2)] by simp
    have s12: "samex {} (kern s) k2" using samex_trans [OF samek_samex [OF k1(2), of "{}"] k2(3)] by simp
    let ?g = "\<lambda>p. p\<lparr>p_pid := nextpid (kern s), p_state := USED\<rparr>"
    let ?s2 = "upd_kproc i ?g (s\<lparr>kern := k2\<rparr>)"
    have len2: "length (procs k2) = NPROC" using s12 len by (simp add: samex_def)
    have u: "unlock (kproc (s\<lparr>kern := k2\<rparr>) j) = unlock (kproc s j)" if "j < NPROC" for j using samex_kproc [OF s12, of j] that len by simp
    have im: "image (kproc ?s2 j) = image (kproc s j)" if "j < NPROC" for j
      using image_unlock [OF u [OF that]] that len2 by (auto simp: image_def)
    have st: "step_of kend t i s free ?s2 free" by (rule step_refl [OF o i(1)]) (use im len len2 in simp_all)
    have o2: "own kend t K ?s2 free" by (rule own_step(1) [OF o i(1) st])
    have l2: "locks L {i} (kern ?s2)" using locks_upd [OF k2(2), of ?g i] by simp
    have im2: "image (kproc ?s2 i) = (None, None, 0)" using im [OF i(1)] un i by simp
    have x: "samex {i} (kern s) (kern ?s2)" using samex_trans [OF s12 upd_samex [of i k2 ?g]] by simp
    have run: "allocproc kend t s = alloc_memory kend t i ?s2"
      using k1(1) k2(1) Some n by (simp add: allocproc_def Let_def)
    show thesis
    proof (cases rule: alloc_pages [OF o2 i(1) im2 t l2])
      case (1 s' free')
      show thesis
        by (rule fail [of s' i free', OF run [unfolded 1(1)] i(1) step_trans [OF st 1(2)] 1(3)])
          (use samex_trans [OF x 1(4)] 1 i im2 un unlock_fields(9) [OF u [OF i(1)]] len2 in simp_all)
    next
      case (2 s' free' tf pt)
      have x2: "samex {i} (kern s) (kern s')" using samex_trans [OF x upd_samex [of i]] unfolding 2(5) by simp
      have "kproc s' i = (kproc ?s2 i)\<lparr>p_trapframe := Some tf, p_pagetable := Some pt, p_resume := Forkret\<rparr>"
        using 2(5) i(1) len2 by (simp add: kproc_def upd_proc_nth)
      then have "unlock (kproc s' i) = unlock (fresh (kproc s i) (nextpid (kern s)) tf pt)"
        using u [OF i(1)] i(1) len2 by (cases "kproc s i"; cases "kproc (s\<lparr>kern := k2\<rparr>) i") (simp add: unlock_def fresh_def)
      moreover have "locks L {i} (kern s')" unfolding 2(5) by (rule locks_upd [OF l2]) simp
      ultimately show thesis
        by (intro ok [of i s' free' tf pt, OF run [unfolded 2(1)] i(1) step_trans [OF st 2(2)]]) (use 2 x2 i in simp_all)
    qed
  qed
qed

end
