(* ===== verification/Proc_Fork.thy ===== *)
theory Proc_Fork
  imports Proc_Alloc
begin

text \<open>
  \<^verbatim>\<open>growproc\<close> and \<^verbatim>\<open>fork\<close> over the whole state: they always return, keep every process in its own
  pages and lose none, and the child of \<^verbatim>\<open>fork\<close> is a copy of its parent.
\<close>

section \<open>The invariant between system calls\<close>

definition sys_mem :: "nat \<Rightarrow> nat \<Rightarrow> nat set \<Rightarrow> ksys \<Rightarrow> nat list \<Rightarrow> bool" where
  "sys_mem kend t K s free \<longleftrightarrow> own kend t K s free \<and>
     (\<forall>i < NPROC. if p_state (kproc s i) = UNUSED then image (kproc s i) = (None, None, 0)
                  else p_pagetable (kproc s i) \<noteq> None)"

lemma sys_memD:
  assumes "sys_mem kend t K s free"
  shows "own kend t K s free" "length (procs (kern s)) = NPROC"
    "i < NPROC \<Longrightarrow> p_state (kproc s i) = UNUSED \<Longrightarrow> image (kproc s i) = (None, None, 0)"
    "i < NPROC \<Longrightarrow> p_state (kproc s i) \<noteq> UNUSED \<Longrightarrow> \<exists>tf pt. image (kproc s i) = (Some tf, Some pt, p_sz (kproc s i)) \<and>
       pt \<noteq> 0 \<and> phys_page kend tf \<and> aspace kend t (kmemory (kmm s)) pt (p_sz (kproc s i)) tf \<and>
       tf \<notin> footprint (kmemory (kmm s)) pt (p_sz (kproc s i))"
proof -
  show o: "own kend t K s free" using assms by (simp add: sys_mem_def)
  then show "length (procs (kern s)) = NPROC" by (simp add: own_def)
  show "i < NPROC \<Longrightarrow> p_state (kproc s i) = UNUSED \<Longrightarrow> image (kproc s i) = (None, None, 0)" using assms by (simp add: sys_mem_def)
  assume i: "i < NPROC" "p_state (kproc s i) \<noteq> UNUSED"
  have "p_pagetable (kproc s i) \<noteq> None" using assms i by (simp add: sys_mem_def)
  then obtain pt where pt: "p_pagetable (kproc s i) = Some pt" by blast
  have ok: "image_ok kend t (kmemory (kmm s)) (p_trapframe (kproc s i), Some pt, p_sz (kproc s i))"
    using own_facts(1) [OF o i(1)] pt by (simp add: image_def)
  then obtain tf where "p_trapframe (kproc s i) = Some tf" by (cases "p_trapframe (kproc s i)") auto
  then show "\<exists>tf pt. image (kproc s i) = (Some tf, Some pt, p_sz (kproc s i)) \<and>
       pt \<noteq> 0 \<and> phys_page kend tf \<and> aspace kend t (kmemory (kmm s)) pt (p_sz (kproc s i)) tf \<and>
       tf \<notin> footprint (kmemory (kmm s)) pt (p_sz (kproc s i))" using ok pt by (simp add: image_def)
qed

lemma own_disjoint:
  assumes "own kend t K s free" "i < NPROC" "j < NPROC" "i \<noteq> j"
  shows "proc_pages s i \<inter> proc_pages s j = {}"
  using assms by (simp add: own_def owned_def proc_pages_def)

lemma running_iff:
  "running k \<longleftrightarrow> sched_ok k \<and> locks {} {} k \<and> resumable k \<and> c_proc k \<noteq> None \<and>
     (\<forall>i < NPROC. p_state (procs k ! i) = RUNNING \<longleftrightarrow> c_proc k = Some i) \<and> (\<forall>i. c_proc k = Some i \<longrightarrow> i < NPROC)"
  by (auto simp: running_def kinv_def locks_def no_locks_def sched_ok_def)

section \<open>Growing\<close>

text \<open>Physical memory bounds the size of every process, so sizes stay far below the trap frame.\<close>

lemma phys_count:
  assumes "finite A" "\<forall>q \<in> A. phys_page kend q"
  shows "card A \<le> 557056"
proof -
  have "A \<subseteq> (\<lambda>n. 4096 * n) ` {..<557056}"
  proof
    fix q assume "q \<in> A"
    then have "q mod 4096 = 0" "q < 2281701376" using assms(2) by (auto simp: phys_page_def)
    then have "q = 4096 * (q div 4096)" "q div 4096 < 557056" by (auto simp: div_less_iff_less_mult)
    then show "q \<in> (\<lambda>n. 4096 * n) ` {..<557056}" by blast
  qed
  then have "card A \<le> card ((\<lambda>n. 4096 * n) ` {..<557056 :: nat})" by (rule card_mono [rotated]) simp
  also have "\<dots> \<le> card {..<557056 :: nat}" by (rule card_image_le) simp
  finally show ?thesis by simp
qed

lemma aspace_small:
  assumes "aspace kend t m pt sz tf"
  shows "npages sz \<le> 557056" "sz \<le> 2281701376"
proof -
  have "\<forall>q \<in> page_at m pt ` {..<npages sz}. phys_page kend q" using footprint_phys [OF assms] by (simp add: footprint_def)
  then have "card (page_at m pt ` {..<npages sz}) \<le> 557056" by (intro phys_count) simp_all
  then show n: "npages sz \<le> 557056" using assms by (simp add: aspace_def card_image)
  have "sz \<le> 4096 * npages sz" using npages_iff [of "npages sz" sz] by simp
  then show "sz \<le> 2281701376" using n by simp
qed

lemma moved_step:
  assumes o: "own kend t K s free" and i: "i < NPROC" and im: "image (kproc s i) = (Some tf, Some pt, sz)"
    and mv: "moved kend t pt tf (kmm s) sz free (kmm s') sz' free'"
    and im': "\<And>j. j < NPROC \<Longrightarrow> image (kproc s' j) = (if j = i then (Some tf, Some pt, sz') else image (kproc s j))"
    and len: "length (procs (kern s')) = length (procs (kern s))"
  shows "step_of kend t i s free s' free'"
proof (rule step_make [where x = "(Some tf, Some pt, sz')"])
  note f = own_facts [OF o i]
  show "reimage kend t (kmm s) (image (kproc s i)) free (kmm s') (Some tf, Some pt, sz') free'"
    unfolding im by (rule moved_reimage [OF mv]) (use f(1,3) im in \<open>auto simp: proc_pages_def\<close>)
qed (use im' len i in simp_all)

lemma aspace_of:
  assumes "own kend t K s free" "i < NPROC" "image (kproc s i) = (Some tf, Some pt, sz)"
  shows "aspace kend t (kmemory (kmm s)) pt sz tf" "footprint (kmemory (kmm s)) pt sz \<inter> set free = {}" "kmem_inv kend (kmm s) free"
  using own_facts [OF assms(1,2)] assms(3) by (auto simp: proc_pages_def)

lemma moved_refl:
  assumes "aspace kend t (kmemory s) pt sz tf" "footprint (kmemory s) pt sz \<inter> set free = {}" "kmem_inv kend s free"
  shows "moved kend t pt tf s sz free s sz free"
  using assms by (simp add: moved_def same_on_def)

lemma growproc_result:
  assumes o: "own kend t K s free" and c: "c_proc (kern s) = Some i" "i < NPROC" and im: "image (kproc s i) = (Some tf, Some pt, sz)"
    and n: "- (2 ^ 31) \<le> n" "n < 2 ^ 31"
  shows "\<exists>r m z free'. growproc kend n s = Ok (r, upd_kproc i (\<lambda>p. p\<lparr>p_sz := z\<rparr>) (set_mem s m)) \<and>
    moved kend t pt tf (kmm s) sz free m z free' \<and>
    (r = 0 \<and> int z = int sz + n \<or> r = 0 \<and> int sz + n < 0 \<and> z = sz \<or> r = -1 \<and> 0 < n \<and> z = sz)"
proof -
  note a = aspace_of [OF o c(2) im]
  have len: "length (procs (kern s)) = NPROC" using o by (simp add: own_def)
  have px: "p_pagetable (kproc s i) = Some pt" "p_sz (kproc s i) = sz" using im by (simp_all add: image_def)
  have keep: "upd_kproc i (\<lambda>p. p\<lparr>p_sz := sz\<rparr>) (set_mem s m) = set_mem s m" for m
  proof -
    have "(procs (kern s) ! i)\<lparr>p_sz := sz\<rparr> = procs (kern s) ! i" using px(2) by (simp add: kproc_def)
    then show ?thesis by (cases s) (simp add: upd_kproc_def upd_proc_def set_mem_def)
  qed
  have small: "sz \<le> 2281701376" by (rule aspace_small(2) [OF a(1)])
  consider "0 < n" | "n < 0" "int sz + n < 0" | "n < 0" "0 \<le> int sz + n" | "n = 0" by linarith
  then show ?thesis
  proof cases
    case 1
    define z where "z = sz + nat n"
    have z: "nat ((int sz + n) mod 2 ^ 64) = z" "sz \<le> z" "z \<le> TRAPFRAME" "int z = int sz + n" "z \<noteq> 0"
      using 1 n small by (simp_all add: z_def nat_add_distrib)
    obtain r m free' where u: "uvmalloc kend pt sz z PTE_W (kmm s) = Ok (r, m)"
        "r = z \<and> moved kend t pt tf (kmm s) sz free m z free' \<or> r = 0 \<and> moved kend t pt tf (kmm s) sz free m sz free'"
      using uvmalloc_space [OF a z(2,3), of PTE_W] by auto
    then show ?thesis
    proof (elim disjE conjE)
      assume "r = z" "moved kend t pt tf (kmm s) sz free m z free'"
      moreover from this have "growproc kend n s = Ok (0, upd_kproc i (\<lambda>p. p\<lparr>p_sz := z\<rparr>) (set_mem s m))"
        using 1 c(1) px u(1) z(1,5) by (simp add: growproc_def adr_def Let_def)
      ultimately show ?thesis using z(4) by blast
    next
      assume "r = 0" "moved kend t pt tf (kmm s) sz free m sz free'"
      moreover from this have "growproc kend n s = Ok (-1, upd_kproc i (\<lambda>p. p\<lparr>p_sz := sz\<rparr>) (set_mem s m))"
        using 1 c(1) px u(1) z(1) by (simp add: growproc_def adr_def Let_def keep)
      ultimately show ?thesis using 1 by blast
    qed
  next
    case 2
    have "(int sz + n) mod 2 ^ 64 = (int sz + n + 2 ^ 64) mod 2 ^ 64" by simp
    also have "\<dots> = int sz + n + 2 ^ 64" by (rule mod_pos_pos_trivial) (use 2 n small in simp_all)
    finally have "(int sz + n) mod 2 ^ 64 = int sz + n + 2 ^ 64" .
    then have "sz \<le> nat ((int sz + n) mod 2 ^ 64)" using n small by (simp add: le_nat_iff)
    then have "growproc kend n s = Ok (0, upd_kproc i (\<lambda>p. p\<lparr>p_sz := sz\<rparr>) (set_mem s (kmm s)))"
      using 2(1) c(1) px by (simp add: growproc_def adr_def Let_def uvmdealloc_def)
    then show ?thesis using 2 moved_refl [OF a] by blast
  next
    case 3
    define z where "z = nat (int sz + n)"
    have z: "nat ((int sz + n) mod 2 ^ 64) = z" "z \<le> sz" "int z = int sz + n" using 3 small by (simp_all add: z_def)
    obtain m free' where u: "uvmdealloc kend pt sz z (kmm s) = Ok (z, m)" "moved kend t pt tf (kmm s) sz free m z free'"
      using uvmdealloc_space [OF a z(2)] by blast
    have "growproc kend n s = Ok (0, upd_kproc i (\<lambda>p. p\<lparr>p_sz := z\<rparr>) (set_mem s m))"
      using 3(1) c(1) px u(1) z(1) by (simp add: growproc_def adr_def Let_def)
    then show ?thesis using z(3) u(2) by blast
  next
    case 4
    have "growproc kend n s = Ok (0, upd_kproc i (\<lambda>p. p\<lparr>p_sz := sz\<rparr>) (set_mem s (kmm s)))"
      using 4 c(1) px by (simp add: growproc_def adr_def Let_def set_mem_upd)
    then show ?thesis using 4 moved_refl [OF a] by force
  qed
qed

section \<open>The child of a fork\<close>

text \<open>The descriptors of the parent, over those that the entry of the child held before.\<close>

definition inherit :: "nat option list \<Rightarrow> nat list \<Rightarrow> nat option list \<Rightarrow> nat option list" where
  "inherit ps fds qs = fold (\<lambda>fd qs. case ps ! fd of None \<Rightarrow> qs | Some f \<Rightarrow> qs[fd := Some f]) fds qs"

lemma inherit_all:
  assumes "length ps = n" "qs = replicate n None"
  shows "inherit ps [0..<n] qs = ps"
proof -
  have "inherit ps [0..<k] qs = take k ps @ replicate (n - k) None" if "k \<le> n" for k
    using that
  proof (induction k)
    case 0
    show ?case by (simp add: inherit_def assms)
  next
    case (Suc k)
    have "replicate (n - k) None = None # replicate (n - Suc k) (None :: nat option)" using Suc.prems by (metis Suc_diff_Suc Suc_le_lessD replicate_Suc)
    then show ?case using Suc assms(1)
      by (cases "ps ! k") (auto simp: inherit_def take_Suc_conv_app_nth list_update_append)
  qed
  from this [of n] show ?thesis using assms(1) by simp
qed

lemma dup_ofiles_ok:
  assumes "p \<noteq> np" "np < length (procs (kern s))"
    and "\<forall>fd \<in> set fds. \<forall>f. p_ofile (kproc s p) ! fd = Some f \<longrightarrow> f < length (ftable (kfiles s)) \<and> 1 \<le> f_ref (ftable (kfiles s) ! f)"
  shows "\<exists>io. dup_ofiles p np fds s =
      Ok (upd_kproc np (\<lambda>q. q\<lparr>p_ofile := inherit (p_ofile (kproc s p)) fds (p_ofile q)\<rparr>) (s\<lparr>kfiles := io\<rparr>)) \<and>
    kfs io = kfs (kfiles s) \<and> length (ftable io) = length (ftable (kfiles s)) \<and>
    (\<forall>f < length (ftable io). f_ref (ftable io ! f) =
       f_ref (ftable (kfiles s) ! f) + int (length (filter (\<lambda>fd. p_ofile (kproc s p) ! fd = Some f) fds)) \<and>
       f_type (ftable io ! f) = f_type (ftable (kfiles s) ! f))"
  using assms(2,3)
proof (induction fds arbitrary: s)
  case Nil
  have "upd_kproc np (\<lambda>q. q\<lparr>p_ofile := p_ofile q\<rparr>) s = s" by (cases s) (simp add: upd_kproc_def upd_proc_def)
  then show ?case by (intro exI [of _ "kfiles s"]) (simp add: inherit_def)
next
  case (Cons fd fds)
  show ?case
  proof (cases "p_ofile (kproc s p) ! fd")
    case None
    then show ?thesis using Cons.IH [OF Cons.prems(1)] Cons.prems(2) by (simp add: inherit_def)
  next
    case (Some f)
    then have f: "f < length (ftable (kfiles s))" "1 \<le> f_ref (ftable (kfiles s) ! f)" using Cons.prems(2) by simp_all
    define io1 where "io1 = upd_file f (\<lambda>x. x\<lparr>f_ref := f_ref x + 1\<rparr>) (kfiles s)"
    define s1 where "s1 = upd_kproc np (\<lambda>q. q\<lparr>p_ofile := (p_ofile q)[fd := Some f]\<rparr>) (s\<lparr>kfiles := io1\<rparr>)"
    have io1: "kfs io1 = kfs (kfiles s)" "length (ftable io1) = length (ftable (kfiles s))"
        "f_ref (ftable io1 ! g) = f_ref (ftable (kfiles s) ! g) + (if g = f then 1 else 0)"
        "f_type (ftable io1 ! g) = f_type (ftable (kfiles s) ! g)" for g
      using f(1) by (auto simp: io1_def upd_file_def nth_list_update_if)
    have s1: "kproc s1 p = kproc s p" "kfiles s1 = io1" "length (procs (kern s1)) = length (procs (kern s))"
      using assms(1) by (simp_all add: s1_def)
    have step: "dup_ofiles p np (fd # fds) s = dup_ofiles p np fds s1"
      using Some f(2) by (simp add: filedup_def io1_def s1_def)
    obtain io where io: "dup_ofiles p np fds s1 =
        Ok (upd_kproc np (\<lambda>q. q\<lparr>p_ofile := inherit (p_ofile (kproc s1 p)) fds (p_ofile q)\<rparr>) (s1\<lparr>kfiles := io\<rparr>))"
      "kfs io = kfs (kfiles s1)" "length (ftable io) = length (ftable (kfiles s1))"
      "\<forall>g < length (ftable io). f_ref (ftable io ! g) =
         f_ref (ftable (kfiles s1) ! g) + int (length (filter (\<lambda>fd. p_ofile (kproc s1 p) ! fd = Some g) fds)) \<and>
         f_type (ftable io ! g) = f_type (ftable (kfiles s1) ! g)"
      using Cons.IH [of s1] Cons.prems s1 io1 by force
    have "upd_kproc np (\<lambda>q. q\<lparr>p_ofile := inherit (p_ofile (kproc s p)) fds (p_ofile q)\<rparr>) (s1\<lparr>kfiles := io\<rparr>) =
        upd_kproc np (\<lambda>q. q\<lparr>p_ofile := inherit (p_ofile (kproc s p)) (fd # fds) (p_ofile q)\<rparr>) (s\<lparr>kfiles := io\<rparr>)"
      using Some Cons.prems(1) by (simp add: s1_def upd_kproc_def upd_proc_def inherit_def)
    then show ?thesis using step io s1 io1 Some by (intro exI [of _ io]) auto
  qed
qed

text \<open>Of the open files, \<^verbatim>\<open>fork\<close> changes only the numbers of references.\<close>

definition same_files :: "kio \<Rightarrow> kio \<Rightarrow> bool" where
  "same_files io io' \<longleftrightarrow> pipes io' = pipes io \<and> map (\<lambda>f. f\<lparr>f_ref := 0\<rparr>) (ftable io') = map (\<lambda>f. f\<lparr>f_ref := 0\<rparr>) (ftable io)"

lemma same_files_refl [simp]: "same_files io io"
  by (simp add: same_files_def)

lemma filedup_same: "filedup f io = Ok io' \<Longrightarrow> same_files io io'"
  by (auto simp: filedup_def same_files_def upd_file_def map_update nth_list_update_if intro!: nth_equalityI split: if_splits)

lemma dup_ofiles_same: "dup_ofiles p np fds s = Ok s' \<Longrightarrow> same_files (kfiles s) (kfiles s')"
proof (induction fds arbitrary: s)
  case (Cons fd fds)
  then show ?case by (auto simp: bind_res_Ok_iff upd_kproc_def same_files_def split: option.splits dest!: filedup_same)
qed simp

lemma copy_process_same:
  assumes "copy_process p np s = Ok s'"
  shows "same_files (kfiles s) (kfiles s')"
proof -
  define s1 where "s1 = (let s = upd_kproc np (\<lambda>q. q\<lparr>p_sz := p_sz (kproc s p)\<rparr>) s in
    tf_write np TF_A0 0 (set_mem s ((kmm s)\<lparr>kmemory := memmove (adr (p_trapframe (kproc s np))) (adr (p_trapframe (kproc s p))) TF_SIZE (kmemory (kmm s))\<rparr>)))"
  have k: "kfiles s1 = kfiles s" by (simp add: s1_def tf_write_def Let_def)
  obtain s2 where s2: "dup_ofiles p np [0..<NOFILE] s1 = Ok s2" "pipes (kfiles s') = pipes (kfiles s2)" "ftable (kfiles s') = ftable (kfiles s2)"
  proof -
    obtain s2 where s2: "dup_ofiles p np [0..<NOFILE] s1 = Ok s2" "(case p_cwd (kproc s2 p) of None \<Rightarrow> Panic ''null inode'' | Some ip \<Rightarrow>
        let (ip, fs) = idup ip (kfs (kfiles s2)); s = upd_kproc np (\<lambda>q. q\<lparr>p_cwd := Some ip\<rparr>) (s2\<lparr>kfiles := (kfiles s2)\<lparr>kfs := fs\<rparr>\<rparr>)
        in Ok (upd_kproc np (\<lambda>q. q\<lparr>p_name := take 15 (p_name (kproc s p))\<rparr>) s)) = Ok s'"
      using assms unfolding copy_process_def s1_def Let_def bind_res_Ok_iff by blast
    then show thesis by (intro that [of s2]) (auto simp: idup_def split: option.splits)
  qed
  show ?thesis using dup_ofiles_same [OF s2(1)] s2(2,3) k by (simp add: same_files_def)
qed

lemma frame_within:
  assumes "\<And>a. a < q \<or> q + 4096 \<le> a \<Longrightarrow> m' a = m a"
  shows "frame {q} m m'"
  using assms by (auto simp: frame_def in_page_def)

text \<open>The registers of the child: those of the parent, with 0 as the result of \<^verbatim>\<open>fork\<close>.\<close>

definition child_regs :: "mem \<Rightarrow> nat \<Rightarrow> nat \<Rightarrow> mem" where
  "child_regs m tfp tfn = Cmem.store (tfn + TF_A0) (nat_le 8 0) (memmove tfn tfp TF_SIZE m)"

lemma child_regs_frame: "frame {tfn} m (child_regs m tfp tfn)"
  by (rule frame_within) (auto simp: child_regs_def memmove_eq Cmem.store_def)

lemma child_regs_read:
  assumes "k < 36"
  shows "rd64 (child_regs m tfp tfn) (tfn + 8 * k) = (if k = 14 then 0 else rd64 m (tfp + 8 * k))"
proof (cases "k = 14")
  case True
  then show ?thesis using rd64_store [of 0 "tfn + 112"] by (simp add: child_regs_def)
next
  case False
  then have "rd64 (child_regs m tfp tfn) (tfn + 8 * k) = rd64 (memmove tfn tfp 288 m) (tfn + 8 * k)"
    unfolding child_regs_def by (intro rd64_store_other) auto
  also have "\<dots> = rd64 m (tfp + 8 * k)"
  proof -
    have "bytes (Cmem.store tfn (bytes m tfp 288) m) (tfn + 8 * k) 8 = bytes m (tfp + 8 * k) 8"
      using assms by (intro nth_equalityI) (auto simp: Cmem.store_def add.assoc)
    then show ?thesis by (simp add: rd64_def memmove_eq)
  qed
  finally show ?thesis using False by simp
qed

lemma copy_process_ok:
  assumes o: "own kend t K (upd_kproc np (\<lambda>q. q\<lparr>p_sz := p_sz (kproc s p)\<rparr>) s) free"
    and p: "p < NPROC" "np < NPROC" "p \<noteq> np"
    and tf: "p_trapframe (kproc s p) = Some tfp" "p_trapframe (kproc s np) = Some tfn" and cwd: "p_cwd (kproc s p) = Some ip"
    and fo: "\<forall>fd < NOFILE. \<forall>f. p_ofile (kproc s p) ! fd = Some f \<longrightarrow> f < length (ftable (kfiles s)) \<and> 1 \<le> f_ref (ftable (kfiles s) ! f)"
  shows "\<exists>s'. copy_process p np s = Ok s' \<and>
    step_of kend t np (upd_kproc np (\<lambda>q. q\<lparr>p_sz := p_sz (kproc s p)\<rparr>) s) free s' free \<and> ticks s' = ticks s \<and>
    kern s' = upd_proc np (\<lambda>q. q\<lparr>p_sz := p_sz (kproc s p), p_ofile := inherit (p_ofile (kproc s p)) [0..<NOFILE] (p_ofile q),
      p_cwd := Some ip, p_name := take 15 (p_name (kproc s p))\<rparr>) (kern s) \<and>
    kmm s' = (kmm s)\<lparr>kmemory := child_regs (kmemory (kmm s)) tfp tfn\<rparr> \<and>
    kfs (kfiles s') = snd (idup ip (kfs (kfiles s))) \<and>
    (\<forall>f < length (ftable (kfiles s)). f_ref (ftable (kfiles s') ! f) =
       f_ref (ftable (kfiles s) ! f) + int (length (filter (\<lambda>fd. p_ofile (kproc s p) ! fd = Some f) [0..<NOFILE])))"
proof -
  let ?m = "kmemory (kmm s)"
  define s1 where "s1 = upd_kproc np (\<lambda>q. q\<lparr>p_sz := p_sz (kproc s p)\<rparr>) s"
  have len: "length (procs (kern s)) = NPROC" using o by (simp add: own_def)
  have k1: "kproc s1 p = kproc s p" "p_trapframe (kproc s1 np) = Some tfn" "kfiles s1 = kfiles s" "ticks s1 = ticks s" "kmm s1 = kmm s"
    using p len tf by (simp_all add: s1_def)
  define s2 where "s2 = set_mem s1 ((kmm s)\<lparr>kmemory := child_regs ?m tfp tfn\<rparr>)"
  have s2: "tf_write np TF_A0 0 (set_mem s1 ((kmm s1)\<lparr>kmemory := memmove (adr (p_trapframe (kproc s1 np))) (adr (p_trapframe (kproc s1 p))) TF_SIZE (kmemory (kmm s1))\<rparr>)) = s2"
    using k1 tf(1) by (simp add: s2_def tf_write_def wr64_def child_regs_def adr_def set_mem_upd)
  have "\<forall>fd \<in> set [0..<NOFILE]. \<forall>f. p_ofile (kproc s2 p) ! fd = Some f \<longrightarrow> f < length (ftable (kfiles s2)) \<and> 1 \<le> f_ref (ftable (kfiles s2) ! f)"
    using fo k1(1,3) by (simp add: s2_def)
  then obtain io where io: "dup_ofiles p np [0..<NOFILE] s2 =
      Ok (upd_kproc np (\<lambda>q. q\<lparr>p_ofile := inherit (p_ofile (kproc s2 p)) [0..<NOFILE] (p_ofile q)\<rparr>) (s2\<lparr>kfiles := io\<rparr>))"
    "kfs io = kfs (kfiles s2)" "length (ftable io) = length (ftable (kfiles s2))"
    "\<forall>f < length (ftable io). f_ref (ftable io ! f) =
       f_ref (ftable (kfiles s2) ! f) + int (length (filter (\<lambda>fd. p_ofile (kproc s2 p) ! fd = Some f) [0..<NOFILE]))"
    using dup_ofiles_ok [OF p(3), of s2 "[0..<NOFILE]"] p(2) len by (auto simp: s2_def s1_def)
  define s3 where "s3 = upd_kproc np (\<lambda>q. q\<lparr>p_ofile := inherit (p_ofile (kproc s p)) [0..<NOFILE] (p_ofile q)\<rparr>) (s2\<lparr>kfiles := io\<rparr>)"
  have k3: "kproc s3 p = kproc s p" "kfs (kfiles s3) = kfs (kfiles s)" using p k1 io(2) by (simp_all add: s3_def s2_def)
  define s4 where "s4 = upd_kproc np (\<lambda>q. q\<lparr>p_name := take 15 (p_name (kproc s p))\<rparr>)
    (upd_kproc np (\<lambda>q. q\<lparr>p_cwd := Some ip\<rparr>) (s3\<lparr>kfiles := (kfiles s3)\<lparr>kfs := snd (idup ip (kfs (kfiles s)))\<rparr>\<rparr>))"
  have run: "copy_process p np s = Ok s4"
    unfolding copy_process_def Let_def s1_def [symmetric] s2 io(1)
    using k1 k3 cwd p by (simp add: s3_def [symmetric] s2_def idup_def s4_def Let_def) (simp add: s3_def s2_def k1)
  have kern4: "kern s4 = upd_proc np (\<lambda>q. q\<lparr>p_sz := p_sz (kproc s p), p_ofile := inherit (p_ofile (kproc s p)) [0..<NOFILE] (p_ofile q),
      p_cwd := Some ip, p_name := take 15 (p_name (kproc s p))\<rparr>) (kern s)"
    using p(2) len by (simp add: s4_def s3_def s2_def s1_def upd_proc_def)
  have mem4: "kmm s4 = (kmm s1)\<lparr>kmemory := child_regs (kmemory (kmm s1)) tfp tfn\<rparr>" "ticks s4 = ticks s"
    using k1 by (simp_all add: s4_def s3_def s2_def)
  have im: "image (kproc s4 j) = image (kproc s1 j)" if "j < NPROC" for j
    using kern4 p(2) len by (simp add: kproc_def upd_proc_nth s1_def image_def)
  obtain pt sz where x: "image (kproc s1 np) = (Some tfn, pt, sz)" using k1(2) by (simp add: image_def)
  note f = own_facts [OF o [folded s1_def] p(2)]
  have "reimage kend t (kmm s1) (Some tfn, pt, sz) free (kmm s4) (Some tfn, pt, sz) free"
    unfolding mem4(1) by (rule tf_reimage [OF _ f(2) _ child_regs_frame]) (use f(1,3) x in \<open>simp_all add: proc_pages_def\<close>)
  then have "step_of kend t np s1 free s4 free"
    by (intro step_make) (use x im p(2) kern4 len in \<open>auto simp: s1_def\<close>)
  moreover have "f_ref (ftable (kfiles s4) ! f) = f_ref (ftable (kfiles s) ! f) +
      int (length (filter (\<lambda>fd. p_ofile (kproc s p) ! fd = Some f) [0..<NOFILE]))" if "f < length (ftable (kfiles s))" for f
    using io(3,4) that k1 by (simp add: s4_def s3_def s2_def)
  moreover have "kfs (kfiles s4) = snd (idup ip (kfs (kfiles s)))" by (simp add: s4_def)
  ultimately show ?thesis using run kern4 mem4 k1(5) unfolding s1_def by auto
qed

section \<open>Starting the child\<close>

lemma make_runnable_procs:
  assumes "isQueueSetup k \<noteq> 0" "i < length (procs k)"
  shows "j \<noteq> i \<Longrightarrow> procs (make_runnable i k) ! j = procs k ! j"
    "\<exists>q x. procs (make_runnable i k) ! i = (procs k ! i)\<lparr>p_state := RUNNABLE, p_quanta := x, p_queue := q\<rparr>"
    "initproc (make_runnable i k) = initproc k" "nextpid (make_runnable i k) = nextpid k"
proof -
  have e: "make_runnable i k = enqueue i (upd_proc i (\<lambda>p. p\<lparr>p_state := RUNNABLE\<rparr>) k)" by (rule make_runnable_eq [OF assms(1)])
  show "j \<noteq> i \<Longrightarrow> procs (make_runnable i k) ! j = procs k ! j" "initproc (make_runnable i k) = initproc k"
    "nextpid (make_runnable i k) = nextpid k" unfolding e using assms(2) by (simp_all add: enqueue_eq upd_proc_def)
  show "\<exists>q x. procs (make_runnable i k) ! i = (procs k ! i)\<lparr>p_state := RUNNABLE, p_quanta := x, p_queue := q\<rparr>"
    unfolding e using assms(2) by (simp add: enqueue_eq upd_proc_def) blast
qed

lemma samex_sched_ok:
  assumes "samex X k k'" "sched_ok k" "\<And>j. j \<in> X \<Longrightarrow> j < NPROC \<Longrightarrow> p_state (procs k' ! j) = RUNNABLE \<longleftrightarrow> p_state (procs k ! j) = RUNNABLE"
  shows "sched_ok k'"
proof (rule sched_ok_cong [OF assms(2)])
  have len: "length (procs k) = NPROC" using assms(2) by (simp add: sched_ok_def)
  show "p_state (procs k' ! j) = RUNNABLE \<longleftrightarrow> p_state (procs k ! j) = RUNNABLE" if "j < NPROC" for j
  proof (cases "j \<in> X")
    case False
    then have "unlock (procs k' ! j) = unlock (procs k ! j)" using assms(1) that len by (simp add: samex_def)
    then show ?thesis using unlock_fields(1) by metis
  qed (use assms(3) that in simp)
qed (use assms(1) in \<open>simp_all add: samex_def\<close>)

lemma start_child_ok:
  assumes l: "locks {} {np} k" and np: "np < NPROC" and so: "sched_ok k" "p_state (procs k ! np) \<noteq> RUNNABLE"
  obtains k' q x where "start_child p np k = Ok k'" "locks {} {} k'" "sched_ok k'" "c_proc k' = c_proc k" "initproc k' = initproc k"
    "\<forall>j < NPROC. j \<noteq> np \<longrightarrow> unlock (procs k' ! j) = unlock (procs k ! j)"
    "unlock (procs k' ! np) = unlock ((procs k ! np)\<lparr>p_parent := Some p, p_state := RUNNABLE, p_quanta := x, p_queue := q\<rparr>)"
proof -
  have len: "length (procs k) = NPROC" using l by (simp add: locks_def)
  obtain k1 where k1: "release_p np k = Ok k1" "locks {} ({np} - {np}) k1" "samek k k1" by (rule locks_release_p [OF l singletonI])
  obtain k2 where k2: "acquire_lk WaitLock k1 = Ok k2" "locks {WaitLock} {} k2" "samek k1 k2"
    by (rule locks_acquire_lk [of "{}" "{}" k1 WaitLock]) (use k1(2) in simp_all)
  let ?k3 = "upd_proc np (\<lambda>q. q\<lparr>p_parent := Some p\<rparr>) k2"
  have "locks {WaitLock} {} ?k3" by (rule locks_upd [OF k2(2)]) simp
  then obtain k4 where k4: "release_lk WaitLock ?k3 = Ok k4" "locks ({WaitLock} - {WaitLock}) {} k4" "samek ?k3 k4"
    by (rule locks_release_lk [OF _ singletonI])
  obtain k5 where k5: "acquire_p np k4 = Ok k5" "locks {} (insert np {}) k5" "samek k4 k5"
    by (rule locks_acquire_p [of "{}" "{}" k4 np]) (use k4(2) np in simp_all)
  have s2: "samek k k2" by (rule samek_trans [OF k1(3) k2(3)])
  have s35: "samek ?k3 k5" by (rule samek_trans [OF k4(3) k5(3)])
  have len2: "length (procs k2) = NPROC" using samek_fields(6) [OF s2] len by simp
  have len5: "length (procs k5) = NPROC" using k5(2) by (simp add: locks_def)
  have x: "samex {np} k k5"
    using samex_trans [OF samex_trans [OF samek_samex [OF s2, of "{}"] upd_samex [of np]] samek_samex [OF s35, of "{}"]] by simp
  have u5: "unlock (procs k5 ! np) = unlock ((procs k ! np)\<lparr>p_parent := Some p\<rparr>)"
  proof -
    have "unlock (procs k5 ! np) = unlock ((procs k2 ! np)\<lparr>p_parent := Some p\<rparr>)"
      using samek_proc [OF s35, of np] np len2 by (simp add: upd_proc_nth)
    also have "\<dots> = unlock ((procs k ! np)\<lparr>p_parent := Some p\<rparr>)"
      using samek_proc [OF s2, of np] np len by (cases "procs k ! np"; cases "procs k2 ! np") (simp add: unlock_def)
    finally show ?thesis .
  qed
  have st5: "p_state (procs k5 ! np) = p_state (procs k ! np)" using unlock_fields(1) [OF u5] by simp
  have so5: "sched_ok k5" by (rule samex_sched_ok [OF x so(1)]) (use st5 in auto)
  have q5: "isQueueSetup k5 \<noteq> 0" using so5 by (simp add: sched_ok_def)
  note mp = make_runnable_procs [OF q5, of np] and mf = make_runnable_frame [OF q5, of np]
  let ?k6 = "make_runnable np k5"
  have so6: "sched_ok ?k6" by (rule make_runnable_ok [OF so5 np]) (use st5 so(2) in simp)
  have "locks {} {np} ?k6" by (rule locks_cong [OF k5(2)]) (use mf np len5 in simp_all)
  then obtain k7 where k7: "release_p np ?k6 = Ok k7" "locks {} ({np} - {np}) k7" "samek ?k6 k7" by (rule locks_release_p [OF _ singletonI])
  have run: "start_child p np k = Ok k7" using k1(1) k2(1) k4(1) k5(1) k7(1) by (simp add: start_child_def)
  have len6: "length (procs ?k6) = NPROC" using mf(4) np len5 by simp
  have other: "unlock (procs k7 ! j) = unlock (procs k ! j)" if "j < NPROC" "j \<noteq> np" for j
  proof -
    have "unlock (procs k7 ! j) = unlock (procs ?k6 ! j)" using samek_proc [OF k7(3), of j] that len6 by simp
    also have "\<dots> = unlock (procs k5 ! j)" using mp(1) [of j] that np len5 by simp
    also have "\<dots> = unlock (procs k ! j)" using x that len by (simp add: samex_def)
    finally show ?thesis .
  qed
  obtain q y where qy: "procs ?k6 ! np = (procs k5 ! np)\<lparr>p_state := RUNNABLE, p_quanta := y, p_queue := q\<rparr>" using mp(2) np len5 by auto
  have "unlock (procs k7 ! np) = unlock (procs ?k6 ! np)" using samek_proc [OF k7(3), of np] np len6 by simp
  also have "\<dots> = unlock ((procs k ! np)\<lparr>p_parent := Some p, p_state := RUNNABLE, p_quanta := y, p_queue := q\<rparr>)"
    using u5 unfolding qy by (cases "procs k ! np"; cases "procs k5 ! np") (simp add: unlock_def)
  finally have child: "unlock (procs k7 ! np) = unlock ((procs k ! np)\<lparr>p_parent := Some p, p_state := RUNNABLE, p_quanta := y, p_queue := q\<rparr>)" .
  show ?thesis
  proof (rule that [OF run _ _ _ _ _ child])
    show "locks {} {} k7" using k7(2) by simp
    show "sched_ok k7" by (rule samek_sched_ok [OF k7(3) so6])
    show "c_proc k7 = c_proc k" "initproc k7 = initproc k"
      using samek_fields [OF k7(3)] mf(2) mp(3) x np len5 by (simp_all add: samex_def)
    show "\<forall>j < NPROC. j \<noteq> np \<longrightarrow> unlock (procs k7 ! j) = unlock (procs k ! j)" using other by blast
  qed
qed

section \<open>Fork\<close>

text \<open>What a system call needs of the calling process: its files are open and its directory is set.\<close>

definition files_open :: "ksys \<Rightarrow> nat \<Rightarrow> bool" where
  "files_open s p \<longleftrightarrow> p_cwd (kproc s p) \<noteq> None \<and> length (p_ofile (kproc s p)) = NOFILE \<and>
     (\<forall>fd < NOFILE. \<forall>f. p_ofile (kproc s p) ! fd = Some f \<longrightarrow> f < length (ftable (kfiles s)) \<and> 1 \<le> f_ref (ftable (kfiles s) ! f))"

lemma files_open_unlock:
  "unlock (kproc s' p) = unlock (kproc s p) \<Longrightarrow> kfiles s' = kfiles s \<Longrightarrow> files_open s' p = files_open s p"
  using unlock_fields [of "kproc s' p" "kproc s p"] by (simp add: files_open_def)

lemma state_keeps_mem:
  assumes "sys_mem kend t K s free" "own kend t K s' free'"
    and "\<And>j. j < NPROC \<Longrightarrow> j \<noteq> i \<Longrightarrow> unlock (kproc s' j) = unlock (kproc s j)"
    and "if p_state (kproc s' i) = UNUSED then image (kproc s' i) = (None, None, 0) else p_pagetable (kproc s' i) \<noteq> None"
  shows "sys_mem kend t K s' free'"
  unfolding sys_mem_def
proof (intro conjI allI impI assms(2))
  fix j assume j: "j < NPROC"
  show "if p_state (kproc s' j) = UNUSED then image (kproc s' j) = (None, None, 0) else p_pagetable (kproc s' j) \<noteq> None"
  proof (cases "j = i")
    case False
    from unlock_fields [OF assms(3) [OF j this]] image_unlock [OF assms(3) [OF j this]] assms(1) j show ?thesis
      by (simp add: sys_mem_def)
  qed (use assms(4) in simp)
qed

lemma running_keep:
  assumes r: "running k" and so: "sched_ok k'" "locks {} {} k'" and c: "c_proc k' = c_proc k"
    and u: "\<And>j. j < NPROC \<Longrightarrow> j \<noteq> i \<Longrightarrow> unlock (procs k' ! j) = unlock (procs k ! j)"
    and i: "i < NPROC" "c_proc k \<noteq> Some i" "p_state (procs k' ! i) \<noteq> RUNNING"
      "p_state (procs k' ! i) \<in> {RUNNABLE, SLEEPING} \<longrightarrow> p_resume (procs k' ! i) \<noteq> Nowhere"
  shows "running k'"
proof -
  note a = r [unfolded running_iff]
  have st: "p_state (procs k' ! j) = p_state (procs k ! j)" "p_resume (procs k' ! j) = p_resume (procs k ! j)" if "j < NPROC" "j \<noteq> i" for j
    using unlock_fields [OF u [OF that]] by simp_all
  have "p_state (procs k' ! j) = RUNNING \<longleftrightarrow> c_proc k' = Some j" if "j < NPROC" for j
    using a st(1) [OF that] that i c by (cases "j = i") auto
  moreover have "resumable k'" unfolding resumable_def
  proof (intro allI impI)
    fix j assume "j < NPROC" "p_state (procs k' ! j) \<in> {RUNNABLE, SLEEPING}"
    then show "p_resume (procs k' ! j) \<noteq> Nowhere" using a st [of j] i(4) by (cases "j = i") (auto simp: resumable_def)
  qed
  ultimately show ?thesis unfolding running_iff using so c a by simp
qed

text \<open>What holds of every process when one entry has been changed.\<close>

definition others_same :: "nat \<Rightarrow> ksys \<Rightarrow> ksys \<Rightarrow> bool" where
  "others_same i s s' \<longleftrightarrow> (\<forall>j < NPROC. j \<noteq> i \<longrightarrow> unlock (kproc s' j) = unlock (kproc s j) \<and>
     proc_pages s' j = proc_pages s j \<and> same_on (proc_pages s j) (kmemory (kmm s)) (kmemory (kmm s')))"

lemma others_same_intro:
  assumes "own kend t K s free" "i < NPROC" "step_of kend t i s free s' free'"
    "\<And>j. j < NPROC \<Longrightarrow> j \<noteq> i \<Longrightarrow> unlock (kproc s' j) = unlock (kproc s j)"
  shows "others_same i s s'"
  unfolding others_same_def using own_step(3) [OF assms(1-3)] assms(4) by blast

lemma samex_unlock: "samex {i} (kern s) (kern s') \<Longrightarrow> j < length (procs (kern s)) \<Longrightarrow> j \<noteq> i \<Longrightarrow> unlock (kproc s' j) = unlock (kproc s j)"
  by (simp add: samex_def kproc_def)

lemma running_same:
  assumes r: "running k" and l: "locks {} {} k'" and x: "samex {i} k k'" and i: "p_state (procs k' ! i) = p_state (procs k ! i)"
    and u: "unlock (procs k' ! i) = unlock (procs k ! i) \<or> p_state (procs k ! i) = UNUSED"
  shows "running k'"
proof -
  note a = r [unfolded running_iff]
  have len: "length (procs k) = NPROC" using a by (simp add: sched_ok_def)
  have st: "p_state (procs k' ! j) = p_state (procs k ! j)" if "j < NPROC" for j
  proof (cases "j = i")
    case False
    then have "unlock (procs k' ! j) = unlock (procs k ! j)" using x that len by (simp add: samex_def)
    then show ?thesis using unlock_fields(1) by blast
  qed (use i in simp)
  have "sched_ok k'" by (rule samex_sched_ok [OF x]) (use a i in auto)
  moreover have "resumable k'" unfolding resumable_def
  proof (intro allI impI)
    fix j assume j: "j < NPROC" "p_state (procs k' ! j) \<in> {RUNNABLE, SLEEPING}"
    have "unlock (procs k' ! j) = unlock (procs k ! j)" using x u i j len by (cases "j = i") (auto simp: samex_def)
    from unlock_fields(1,8) [OF this] show "p_resume (procs k' ! j) \<noteq> Nowhere" using a j by (auto simp: resumable_def)
  qed
  moreover have "c_proc k' = c_proc k" using x by (simp add: samex_def)
  ultimately show ?thesis unfolding running_iff using l a st by simp
qed

text \<open>Copies are not disturbed by writes to other pages.\<close>

lemma page_view_same:
  assumes "same_on (footprint m pt sz) m m'" "i < npages sz"
  shows "perm_of m' pt i = perm_of m pt i" "j < PGSIZE \<Longrightarrow> content_of m' pt i j = content_of m pt i j"
proof -
  have "same_on (tables 2 m pt) m m'" by (rule same_on_subset [OF assms(1)]) (simp add: footprint_def)
  then have v: "vmap m' pt i = vmap m pt i" using leafl_same by (simp add: vmap_def)
  then have p: "page_at m' pt i = page_at m pt i" by (simp add: page_at_def)
  show "perm_of m' pt i = perm_of m pt i" using v by (simp add: perm_of_def)
  have "page_at m pt i \<in> footprint m pt sz" using assms(2) by (simp add: footprint_def)
  then show "j < PGSIZE \<Longrightarrow> content_of m' pt i j = content_of m pt i j"
    using assms(1) unfolding content_of_def p same_on_def in_page_def by simp
qed

lemma copy_of_same:
  assumes "copy_of m1 old m2 new (npages sz)" "same_on (footprint m1 old sz) m1 m" "same_on (footprint m2 new sz) m2 m'"
  shows "copy_of m old m' new (npages sz)"
  using assms(1) page_view_same [OF assms(2)] page_view_same [OF assms(3)] by (simp add: copy_of_def)

lemma same_on_sym: "same_on P m m' = same_on P m' m"
  by (auto simp: same_on_def)

lemma rd64_within: "same_on P m m' \<Longrightarrow> q \<in> P \<Longrightarrow> off + 8 \<le> 4096 \<Longrightarrow> rd64 m' (q + off) = rd64 m (q + off)"
  by (rule rd64_cong) (auto simp: same_on_def in_page_def)

lemma fork_result:
  assumes sm: "sys_mem kend t K s free" and r: "running (kern s)" and c: "c_proc (kern s) = Some p" and fo: "files_open s p"
    and t: "t mod 4096 = 0" "t < 2 ^ 56"
  obtains (fail) s' free' i where "fork kend t s = Some (Ok (-1, s'))" "sys_mem kend t K s' free'" "pages K s' free' = pages K s free"
      "running (kern s')" "i < NPROC" "p_state (kproc s' i) = p_state (kproc s i)"
      "unlock (kproc s' i) = unlock (kproc s i) \<and> kmm s' = kmm s \<or> p_state (kproc s i) = UNUSED" "others_same i s s'"
      "samex {i} (kern s) (kern s')" "kfiles s' = kfiles s" "ticks s' = ticks s" "p_ofile (kproc s' i) = p_ofile (kproc s i)"
  | (ok) s' free' np where "fork kend t s = Some (Ok (nextpid (kern s), s'))" "sys_mem kend t K s' free'"
      "pages K s' free' = pages K s free" "running (kern s')" "c_proc (kern s') = Some p" "np < NPROC" "p_state (kproc s np) = UNUSED"
      "np \<noteq> p" "others_same np s s'" "p_state (kproc s' np) = RUNNABLE" "p_parent (kproc s' np) = Some p" "p_pid (kproc s' np) = nextpid (kern s)"
      "p_sz (kproc s' np) = p_sz (kproc s p)" "p_name (kproc s' np) = take 15 (p_name (kproc s p))" "p_cwd (kproc s' np) = p_cwd (kproc s p)"
      "p_ofile (kproc s' np) = inherit (p_ofile (kproc s p)) [0..<NOFILE] (p_ofile (kproc s np))"
      "copy_of (kmemory (kmm s)) (adr (p_pagetable (kproc s p))) (kmemory (kmm s')) (adr (p_pagetable (kproc s' np))) (npages (p_sz (kproc s p)))"
      "\<forall>n < 36. tf_read np (8 * n) s' = (if n = 14 then 0 else tf_read p (8 * n) s)"
      "kfs (kfiles s') = snd (idup (the (p_cwd (kproc s p))) (kfs (kfiles s)))"
      "\<forall>f < length (ftable (kfiles s)). f_ref (ftable (kfiles s') ! f) =
         f_ref (ftable (kfiles s) ! f) + int (length (filter (\<lambda>fd. p_ofile (kproc s p) ! fd = Some f) [0..<NOFILE]))"
      "ticks s' = ticks s" "initproc (kern s') = initproc (kern s)" "same_files (kfiles s) (kfiles s')"
proof -
  note rr = r [unfolded running_iff]
  note o = sys_memD(1) [OF sm] and len = sys_memD(2) [OF sm]
  have p: "p < NPROC" "p_state (kproc s p) = RUNNING" using rr c by (auto simp: kproc_def)
  have un: "\<forall>i < NPROC. p_state (kproc s i) = UNUSED \<longrightarrow> image (kproc s i) = (None, None, 0)" using sys_memD(3) [OF sm] by blast
  have l: "locks {} {} (kern s)" using rr by simp
  obtain tfp ptp where imp: "image (kproc s p) = (Some tfp, Some ptp, p_sz (kproc s p))" using sys_memD(4) [OF sm p(1)] p(2) by auto
  have failed: thesis if "fork kend t s = Some (Ok (-1, s'))" "i < NPROC" "step_of kend t i s free s' free'" "locks {} {} (kern s')"
      "samex {i} (kern s) (kern s')" "kfiles s' = kfiles s" "ticks s' = ticks s" "p_state (kproc s' i) = p_state (kproc s i)"
      "image (kproc s' i) = image (kproc s i)" "unlock (kproc s' i) = unlock (kproc s i) \<and> kmm s' = kmm s \<or> p_state (kproc s i) = UNUSED" "p_ofile (kproc s' i) = p_ofile (kproc s i)" for s' i free'
  proof (rule fail [OF that(1) _ _ _ that(2,8,10) _ that(5-7,11)])
    have u: "unlock (kproc s' j) = unlock (kproc s j)" if "j < NPROC" "j \<noteq> i" for j using samex_unlock [OF \<open>samex {i} _ _\<close>] that len by simp
    have o': "own kend t K s' free'" using own_step [OF o that(2,3)] by blast
    show "pages K s' free' = pages K s free" using own_step [OF o that(2,3)] by blast
    show "sys_mem kend t K s' free'"
      by (rule state_keeps_mem [OF sm o' u]) (use sm that(2,8,9) in \<open>auto simp: sys_mem_def image_def split: if_splits\<close>)
    show "running (kern s')" by (rule running_same [OF r that(4,5)]) (use that(8,10) in \<open>auto simp: kproc_def\<close>)
    show "others_same i s s'" by (rule others_same_intro [OF o that(2,3) u])
  qed
  have pl: "PidLock \<notin> {}" by simp
  show thesis
  proof (cases rule: allocproc_ok [OF o t l pl un])
    case (1 s1 free1 i)
    then show thesis
      by (intro failed [of s1 i free1]) (use c in \<open>simp_all add: fork_def\<close>)
  next
    case a: (2 s1 free1 np tfn ptn)
    have np: "np < NPROC" "np \<noteq> p" using a(2,8) p(2) by auto
    have o1: "own kend t K s1 free1" by (rule own_step(1) [OF o a(2,3)])
    have len1: "length (procs (kern s1)) = NPROC" using o1 by (simp add: own_def)
    have up: "unlock (kproc s1 p) = unlock (kproc s p)" using samex_unlock [OF a(5)] np p(1) len by simp
    have sz: "p_sz (kproc s1 p) = p_sz (kproc s p)" using unlock_fields [OF up] by simp
    have imp1: "image (kproc s1 p) = (Some tfp, Some ptp, p_sz (kproc s p))" using image_unlock [OF up] imp by simp
    have imn: "image (kproc s1 np) = (Some tfn, Some ptn, 0)"
      using image_unlock [OF a(9)] un np(1) a(8) by (simp add: image_def fresh_def)
    note ap = aspace_of [OF o1 p(1) imp1] and an = aspace_of [OF o1 np(1) imn]
    have d: "footprint (kmemory (kmm s1)) ptp (p_sz (kproc s p)) \<inter> (footprint (kmemory (kmm s1)) ptn 0 \<union> set free1) = {}"
      using own_disjoint [OF o1 p(1) np(1) np(2) [symmetric]] ap(2) imp1 imn by (auto simp: proc_pages_def)
    obtain r2 m free2 where u: "uvmcopy kend ptp ptn (p_sz (kproc s p)) (kmm s1) = Ok (r2, m)"
        "r2 = 0 \<and> moved kend t ptn tfn (kmm s1) 0 free1 m (p_sz (kproc s p)) free2 \<and> copy_of (kmemory (kmm s1)) ptp (kmemory m) ptn (npages (p_sz (kproc s p))) \<or>
         r2 = -1 \<and> moved kend t ptn tfn (kmm s1) 0 free1 m 0 free2"
      using uvmcopy_space [OF ap(1) an(1,2) d ap(3)] by blast
    have px1: "p_pagetable (kproc s1 p) = Some ptp" "p_pagetable (kproc s1 np) = Some ptn" "p_trapframe (kproc s1 p) = Some tfp"
        "p_trapframe (kproc s1 np) = Some tfn" using imp1 imn by (simp_all add: image_def)
    show thesis
    proof (cases "r2 = 0")
      case False
      then have mv: "r2 = -1" "moved kend t ptn tfn (kmm s1) 0 free1 m 0 free2" using u(2) by auto
      let ?s2 = "set_mem s1 m"
      have st2: "step_of kend t np s1 free1 ?s2 free2"
        by (rule moved_step [OF o1 np(1) imn, of ?s2 0]) (use mv(2) imn in simp_all)
      have o2: "own kend t K ?s2 free2" by (rule own_step(1) [OF o1 np(1) st2])
      obtain s' free' where d: "drop_proc kend np (-1 :: int) ?s2 = Some (Ok (-1, s'))" "step_of kend t np ?s2 free2 s' free'"
          "locks {} ({np} - {np}) (kern s')" "samek (upd_proc np cleared (kern ?s2)) (kern s')" "kfiles s' = kfiles ?s2" "ticks s' = ticks ?s2"
        by (rule drop_proc_frees [OF o2 np(1) t _ singletonI]) (use a(4) in simp)
      have uc: "unlock (kproc s' np) = unlock (cleared (kproc s1 np))"
        using samek_proc [OF d(4), of np] np(1) len1 by (simp add: kproc_def upd_proc_nth)
      from unlock_fields(1) [OF uc] image_unlock [OF uc] have np': "p_state (kproc s' np) = UNUSED" "image (kproc s' np) = (None, None, 0)" by simp_all
      have fs: "p_ofile (kproc s' np) = p_ofile (kproc s np)" using unlock_fields(9) [OF uc] unlock_fields(9) [OF a(9)] by (simp add: cleared_def fresh_def)
      have "samex {np} (kern s) (kern s')"
        using samex_trans [OF samex_trans [OF a(5) upd_samex [of np]] samek_samex [OF d(4)[simplified], of "{}"]] by simp
      then show thesis
        by (intro failed [of s' np free', OF _ np(1) step_trans [OF a(3) step_trans [OF st2 d(2)]]])
          (use a c d px1 sz u(1) mv(1) np' fs un np(1) in \<open>simp_all add: fork_def adr_def\<close>)
    next
      case True
      then have mv: "moved kend t ptn tfn (kmm s1) 0 free1 m (p_sz (kproc s p)) free2"
          "copy_of (kmemory (kmm s1)) ptp (kmemory m) ptn (npages (p_sz (kproc s p)))" using u(2) by auto
      let ?s2 = "set_mem s1 m"
      define s3 where "s3 = upd_kproc np (\<lambda>q. q\<lparr>p_sz := p_sz (kproc ?s2 p)\<rparr>) ?s2"
      have st3: "step_of kend t np s1 free1 s3 free2"
        by (rule moved_step [OF o1 np(1) imn, of s3 "p_sz (kproc s p)"]) (use mv(1) imn np(1) len1 sz in \<open>auto simp: s3_def image_def\<close>)
      have o3: "own kend t K s3 free2" by (rule own_step(1) [OF o1 np(1) st3])
      obtain ip where ip: "p_cwd (kproc s p) = Some ip" using fo by (auto simp: files_open_def)
      have fo1: "files_open s1 p" using files_open_unlock [OF up a(6)] fo by simp
      have pe: "p_cwd (kproc s1 p) = Some ip" "p_ofile (kproc s1 p) = p_ofile (kproc s p)" "p_name (kproc s1 p) = p_name (kproc s p)"
        using unlock_fields [OF up] ip by simp_all
      obtain s4 where s4: "copy_process p np ?s2 = Ok s4" "step_of kend t np s3 free2 s4 free2" "ticks s4 = ticks s1"
          "kern s4 = upd_proc np (\<lambda>q. q\<lparr>p_sz := p_sz (kproc s p), p_ofile := inherit (p_ofile (kproc s p)) [0..<NOFILE] (p_ofile q),
            p_cwd := Some ip, p_name := take 15 (p_name (kproc s p))\<rparr>) (kern s1)"
          "kmm s4 = m\<lparr>kmemory := child_regs (kmemory m) tfp tfn\<rparr>" "kfs (kfiles s4) = snd (idup ip (kfs (kfiles s)))"
          "\<forall>f < length (ftable (kfiles s)). f_ref (ftable (kfiles s4) ! f) =
             f_ref (ftable (kfiles s) ! f) + int (length (filter (\<lambda>fd. p_ofile (kproc s p) ! fd = Some f) [0..<NOFILE]))"
        using copy_process_ok [OF o3 [unfolded s3_def] p(1) np(1) np(2) [symmetric], of tfp tfn ip] px1 pe fo1 sz a(6)
        by (auto simp: s3_def files_open_def)
      have n4: "unlock (procs (kern s4) ! np) = unlock ((fresh (kproc s np) (nextpid (kern s)) tfn ptn)\<lparr>p_sz := p_sz (kproc s p),
          p_ofile := inherit (p_ofile (kproc s p)) [0..<NOFILE] (p_ofile (kproc s np)), p_cwd := Some ip, p_name := take 15 (p_name (kproc s p))\<rparr>)"
      proof -
        have "p_ofile (kproc s1 np) = p_ofile (kproc s np)" using unlock_fields(9) [OF a(9)] by (simp add: fresh_def)
        then show ?thesis using a(9) np(1) len1 unfolding s4(4)
          by (cases "kproc s np"; cases "kproc s1 np") (simp add: upd_proc_nth unlock_def fresh_def kproc_def)
      qed
      have x4: "samex {np} (kern s) (kern s4)" unfolding s4(4) using samex_trans [OF a(5) upd_samex [of np]] by simp
      have l4: "locks {} {np} (kern s4)" unfolding s4(4) by (rule locks_upd [OF a(4)]) simp
      have st4: "p_state (procs (kern s4) ! np) = USED" using unlock_fields(1) [OF n4] by (simp add: fresh_def)
      have so4: "sched_ok (kern s4)" by (rule samex_sched_ok [OF x4]) (use rr st4 a(8) in \<open>auto simp: kproc_def\<close>)
      have nr: "p_state (procs (kern s4) ! np) \<noteq> RUNNABLE" using st4 by simp
      obtain k' q x where k': "start_child p np (kern s4) = Ok k'" "locks {} {} k'" "sched_ok k'" "c_proc k' = c_proc (kern s4)" "initproc k' = initproc (kern s4)"
          "\<forall>j < NPROC. j \<noteq> np \<longrightarrow> unlock (procs k' ! j) = unlock (procs (kern s4) ! j)"
          "unlock (procs k' ! np) = unlock ((procs (kern s4) ! np)\<lparr>p_parent := Some p, p_state := RUNNABLE, p_quanta := x, p_queue := q\<rparr>)"
        by (rule start_child_ok [OF l4 np(1) so4 nr, of p])
      define s' where "s' = s4\<lparr>kern := k'\<rparr>"
      have f': "kmm s' = kmm s4" "kfiles s' = kfiles s4" "ticks s' = ticks s4" "kern s' = k'" "kproc s' j = procs k' ! j" for j
        by (simp_all add: s'_def kproc_def)
      note n' = unlock_fields [OF k'(7)] and n4' = unlock_fields [OF n4]
      have other: "unlock (kproc s' j) = unlock (kproc s j)" if "j < NPROC" "j \<noteq> np" for j
        using k'(6) samex_unlock [OF x4, of j] that len by (simp add: f' kproc_def)
      have st5: "step_of kend t np s4 free2 s' free2"
      proof (rule step_refl [OF own_step(1) [OF o3 np(1) s4(2)] np(1)])
        show "image (kproc s' j) = image (kproc s4 j)" if "j < NPROC" for j
          using image_unlock [of "procs k' ! j" "procs (kern s4) ! j"] k'(6) that n' by (cases "j = np") (simp_all add: f' kproc_def image_def)
      qed (use f' k'(2) l4 in \<open>simp_all add: locks_def\<close>)
      have st: "step_of kend t np s free s' free2" by (rule step_trans [OF a(3) step_trans [OF st3 step_trans [OF s4(2) st5]]])
      have run: "fork kend t s = Some (Ok (nextpid (kern s), s'))"
        using c a(1) px1 sz u(1) True s4(1) k'(1) n4'(3) by (simp add: fork_def adr_def on_kern_def s'_def kproc_def fresh_def)
      have pages_p: "same_on (proc_pages s p) (kmemory (kmm s)) (kmemory (kmm s1))" "proc_pages s1 p = proc_pages s p"
          "same_on (proc_pages s1 p) (kmemory (kmm s1)) (kmemory m)"
        using own_step(3) [OF o a(2,3) p(1) np(2) [symmetric]] own_step(3) [OF o1 np(1) st3 p(1) np(2) [symmetric]] by (simp_all add: s3_def)
      have pp: "proc_pages s p = insert tfp (footprint (kmemory (kmm s)) ptp (p_sz (kproc s p)))"
          "proc_pages s1 p = insert tfp (footprint (kmemory (kmm s1)) ptp (p_sz (kproc s p)))" using imp imp1 by (simp_all add: proc_pages_def)
      have copy: "copy_of (kmemory (kmm s)) ptp (kmemory (kmm s')) ptn (npages (p_sz (kproc s p)))"
      proof (rule copy_of_same [OF mv(2)])
        show "same_on (footprint (kmemory (kmm s1)) ptp (p_sz (kproc s p))) (kmemory (kmm s1)) (kmemory (kmm s))"
          by (subst same_on_sym, rule same_on_subset [OF pages_p(1)]) (use pages_p(2) pp in auto)
        have i3: "image (kproc s3 np) = (Some tfn, Some ptn, p_sz (kproc s p))" using imn np len1 sz by (simp add: s3_def image_def)
        have ok3: "image_ok kend t (kmemory m) (Some tfn, Some ptn, p_sz (kproc s p))"
          using own_facts(1) [OF o3 np(1)] i3 by (simp add: s3_def)
        have "same_on (footprint (kmemory m) ptn (p_sz (kproc s p))) (kmemory m) (child_regs (kmemory m) tfp tfn)"
          by (rule frame_same [OF child_regs_frame, where kend = kend]) (use ok3 footprint_phys [of kend t "kmemory m" ptn] in auto)
        then show "same_on (footprint (kmemory m) ptn (p_sz (kproc s p))) (kmemory m) (kmemory (kmm s'))" by (simp add: f' s4(5))
      qed
      have tfr: "tf_read np (8 * n) s' = (if n = 14 then 0 else tf_read p (8 * n) s)" if "n < 36" for n
      proof -
        have "rd64 (kmemory m) (tfp + 8 * n) = rd64 (kmemory (kmm s)) (tfp + 8 * n)"
          using rd64_within [OF pages_p(3), of tfp "8 * n"] rd64_within [OF pages_p(1), of tfp "8 * n"] pp that by simp
        moreover have "p_trapframe (kproc s' np) = Some tfn" "p_trapframe (kproc s p) = Some tfp"
          using n'(7) n4'(7) imp by (simp_all add: f' fresh_def image_def)
        ultimately show ?thesis using child_regs_read [OF that, of "kmemory m" tfp tfn] by (simp add: tf_read_def adr_def f' s4(5))
      qed
      show thesis
      proof (rule ok [OF run])
        show "pages K s' free2 = pages K s free" by (rule own_step(2) [OF o np(1) st])
        show "sys_mem kend t K s' free2"
        proof (rule state_keeps_mem [OF sm own_step(1) [OF o np(1) st] other])
          show "if p_state (kproc s' np) = UNUSED then image (kproc s' np) = (None, None, 0) else p_pagetable (kproc s' np) \<noteq> None"
            using n'(1,6) n4'(6) by (simp add: f' fresh_def)
        qed
        show "running (kern s')"
          by (rule running_keep [OF r, of _ np]) (use k' x4 c np other n' n4' in \<open>simp_all add: f' samex_def fresh_def kproc_def\<close>)
        show "others_same np s s'" by (rule others_same_intro [OF o np(1) st other])
        show "c_proc (kern s') = Some p" "initproc (kern s') = initproc (kern s)" using k'(4,5) x4 c by (simp_all add: f'(4) samex_def)
        show "p_state (kproc s' np) = RUNNABLE" "p_parent (kproc s' np) = Some p" using n'(1,4) by (simp_all add: f'(5))
        show "p_pid (kproc s' np) = nextpid (kern s)" "p_sz (kproc s' np) = p_sz (kproc s p)"
            "p_name (kproc s' np) = take 15 (p_name (kproc s p))" "p_cwd (kproc s' np) = p_cwd (kproc s p)"
            "p_ofile (kproc s' np) = inherit (p_ofile (kproc s p)) [0..<NOFILE] (p_ofile (kproc s np))"
          using n'(3,5,9-11) n4'(3,5,9-11) ip by (simp_all add: f'(5) fresh_def)
        have "adr (p_pagetable (kproc s p)) = ptp" "adr (p_pagetable (kproc s' np)) = ptn"
          using imp n'(6) n4'(6) by (simp_all add: f'(5) fresh_def image_def adr_def)
        then show "copy_of (kmemory (kmm s)) (adr (p_pagetable (kproc s p))) (kmemory (kmm s')) (adr (p_pagetable (kproc s' np))) (npages (p_sz (kproc s p)))"
          using copy by simp
        show "\<forall>n < 36. tf_read np (8 * n) s' = (if n = 14 then 0 else tf_read p (8 * n) s)" using tfr by blast
        show "same_files (kfiles s) (kfiles s')" using copy_process_same [OF s4(1)] a(6) by (simp add: f'(2))
        show "ticks s' = ticks s" using s4(3) a(7) by (simp add: f'(3))
        show "kfs (kfiles s') = snd (idup (the (p_cwd (kproc s p))) (kfs (kfiles s)))" using s4(6) ip by (simp add: f'(2))
        show "\<forall>f < length (ftable (kfiles s)). f_ref (ftable (kfiles s') ! f) =
          f_ref (ftable (kfiles s) ! f) + int (length (filter (\<lambda>fd. p_ofile (kproc s p) ! fd = Some f) [0..<NOFILE]))"
          using s4(7) unfolding f'(2) .
      qed (use np a(8) in simp_all)
    qed
  qed
qed

end
