(* ===== verification/Proc_Keep.thy ===== *)
theory Proc_Keep
  imports Proc_Locks
begin

text \<open>
  The scheduling operations do not touch what makes up a process: identity, parent, memory, open
  files. They only move it between RUNNABLE, RUNNING and SLEEPING.
\<close>

section \<open>What scheduling keeps\<close>

definition live :: "procstate \<Rightarrow> bool" where
  "live st \<longleftrightarrow> st \<in> {RUNNABLE, RUNNING, SLEEPING}"

definition mask :: "proc \<Rightarrow> proc" where
  "mask p = p\<lparr>p_lock := initlock, p_state := (if live (p_state p) then RUNNABLE else p_state p), p_chan := NoChan,
     p_killed := 0, p_resume := Nowhere, p_quanta := 0, p_queue := 0\<rparr>"

definition ukeep :: "kernel \<Rightarrow> kernel \<Rightarrow> bool" where
  "ukeep k k' \<longleftrightarrow> map mask (procs k') = map mask (procs k) \<and> initproc k' = initproc k \<and> nextpid k' = nextpid k"

lemma ukeep_refl [simp]: "ukeep k k"
  by (simp add: ukeep_def)

lemma ukeep_trans: "ukeep k k1 \<Longrightarrow> ukeep k1 k2 \<Longrightarrow> ukeep k k2"
  by (simp add: ukeep_def)

lemma ukeep_same: "procs k' = procs k \<Longrightarrow> initproc k' = initproc k \<Longrightarrow> nextpid k' = nextpid k \<Longrightarrow> ukeep k k'"
  by (simp add: ukeep_def)

lemma ukeep_upd: "mask (f (procs k ! i)) = mask (procs k ! i) \<Longrightarrow> ukeep k (upd_proc i f k)"
  by (cases "i < length (procs k)") (simp_all add: ukeep_def upd_proc_def map_update list_update_same_conv list_update_beyond)

lemma mask_fields:
  assumes "mask p = mask q"
  shows "p_pid p = p_pid q" "p_parent p = p_parent q" "p_sz p = p_sz q" "p_pagetable p = p_pagetable q"
    "p_trapframe p = p_trapframe q" "p_ofile p = p_ofile q" "p_cwd p = p_cwd q" "p_xstate p = p_xstate q"
    "live (p_state p) = live (p_state q)" "\<not> live (p_state q) \<Longrightarrow> p_state p = p_state q" "p_name p = p_name q"
  using assms by (cases p; cases q; auto simp: mask_def live_def split: if_splits)+

lemma ukeep_fields:
  assumes "ukeep k k'"
  shows "length (procs k') = length (procs k)" "initproc k' = initproc k" "nextpid k' = nextpid k"
    "j < length (procs k) \<Longrightarrow> mask (procs k' ! j) = mask (procs k ! j)"
proof -
  show l: "length (procs k') = length (procs k)" "initproc k' = initproc k" "nextpid k' = nextpid k"
    using assms by (auto simp: ukeep_def dest: map_eq_imp_length_eq)
  assume "j < length (procs k)"
  then show "mask (procs k' ! j) = mask (procs k ! j)" using assms l(1) nth_map unfolding ukeep_def by metis
qed

lemma mask_updates [simp]:
  "mask (p\<lparr>p_lock := l\<rparr>) = mask p" "mask (p\<lparr>p_chan := ch\<rparr>) = mask p" "mask (p\<lparr>p_killed := n\<rparr>) = mask p"
  "mask (p\<lparr>p_resume := r\<rparr>) = mask p" "mask (p\<lparr>p_quanta := q\<rparr>) = mask p" "mask (p\<lparr>p_queue := q\<rparr>) = mask p"
  by (simp_all add: mask_def)

lemma mask_state: "live st \<Longrightarrow> live (p_state p) \<Longrightarrow> mask (p\<lparr>p_state := st\<rparr>) = mask p"
  by (simp add: mask_def)

lemma unlock_mask: "unlock p = unlock q \<Longrightarrow> mask p = mask q"
  by (cases p; cases q) (simp add: unlock_def mask_def)

section \<open>The primitives\<close>

lemma lock_keeps:
  "acquire_p i k = Ok k' \<Longrightarrow> ukeep k k'" "release_p i k = Ok k' \<Longrightarrow> ukeep k k'"
  "acquire_lk l k = Ok k' \<Longrightarrow> ukeep k k'" "release_lk l k = Ok k' \<Longrightarrow> ukeep k k'"
proof -
  have u: "ukeep k (upd_proc i (\<lambda>p. p\<lparr>p_lock := l\<rparr>) (k\<lparr>hart := h\<rparr>))" for l h
    by (rule ukeep_trans [of _ "k\<lparr>hart := h\<rparr>"]) (simp_all add: ukeep_same ukeep_upd)
  show "acquire_p i k = Ok k' \<Longrightarrow> ukeep k k'" "release_p i k = Ok k' \<Longrightarrow> ukeep k k'"
    using u by (auto simp: acquire_p_def release_p_def bind_res_Ok_iff)
  show "acquire_lk l k = Ok k' \<Longrightarrow> ukeep k k'" "release_lk l k = Ok k' \<Longrightarrow> ukeep k k'"
    by (auto simp: acquire_lk_def release_lk_def bind_res_Ok_iff ukeep_same)
qed

lemma lock_procs:
  "acquire_p i k = Ok k' \<Longrightarrow> p_state (procs k' ! j) = p_state (procs k ! j)"
  "release_p i k = Ok k' \<Longrightarrow> p_state (procs k' ! j) = p_state (procs k ! j)"
  "acquire_lk l k = Ok k' \<Longrightarrow> procs k' = procs k" "release_lk l k = Ok k' \<Longrightarrow> procs k' = procs k"
  by (auto simp: acquire_p_def release_p_def acquire_lk_def release_lk_def bind_res_Ok_iff)

lemma lock_c_proc:
  "acquire_p i k = Ok k' \<Longrightarrow> c_proc k' = c_proc k" "release_p i k = Ok k' \<Longrightarrow> c_proc k' = c_proc k"
  "acquire_lk l k = Ok k' \<Longrightarrow> c_proc k' = c_proc k" "release_lk l k = Ok k' \<Longrightarrow> c_proc k' = c_proc k"
  by (auto simp: acquire_p_def release_p_def acquire_lk_def release_lk_def bind_res_Ok_iff)

lemma setup_keeps: "ukeep k (setupQueue k)" "ukeep k (ensure_setup k)"
  by (simp_all add: setupQueue_def ensure_setup_def Let_def ukeep_same)

lemma enqueue_keeps: "ukeep k (enqueue i k)"
proof -
  have q: "ukeep k (upd_proc i (\<lambda>p. p\<lparr>p_queue := q\<rparr>) (upd_proc i (\<lambda>p. p\<lparr>p_quanta := x\<rparr>) k)\<lparr>qtable := qt\<rparr>)" for q x qt
    by (rule ukeep_trans [OF ukeep_trans [OF ukeep_upd ukeep_upd] ukeep_same]) simp_all
  have q': "ukeep k (upd_proc i (\<lambda>p. p\<lparr>p_quanta := x\<rparr>) k)" for x by (rule ukeep_upd) simp
  show ?thesis using q q' by (auto simp: enqueue_def Let_def split: prod.splits)
qed

lemma remove_keeps: "ukeep k (removeFromQueue i k)"
  by (simp add: removeFromQueue_def Let_def ukeep_same)

lemma make_runnable_keeps: "live (p_state (procs k ! i)) \<Longrightarrow> ukeep k (make_runnable i k)"
  unfolding make_runnable_def
  by (rule ukeep_trans [OF ukeep_upd ukeep_trans [OF setup_keeps(2) enqueue_keeps]]) (simp add: mask_state live_def)

section \<open>The operations\<close>

lemma wakeup_procs_keeps: "wakeup_procs ch is k = Ok k' \<Longrightarrow> ukeep k k'"
proof (induction "is" arbitrary: k)
  case (Cons i "is")
  show ?case
  proof (cases "Some i = c_proc k")
    case True
    then show ?thesis using Cons by simp
  next
    case False
    define w where "w k1 = (if p_state (procs k1 ! i) = SLEEPING \<and> p_chan (procs k1 ! i) = ch then make_runnable i k1 else k1)" for k1
    have w: "ukeep k1 (w k1)" for k1 using make_runnable_keeps [of k1 i] by (simp add: w_def live_def)
    obtain k1 k2 where "acquire_p i k = Ok k1" "release_p i (w k1) = Ok k2" "wakeup_procs ch is k2 = Ok k'"
      using Cons.prems False by (auto simp: bind_res_Ok_iff Let_def w_def)
    then show ?thesis using lock_keeps(1,2) w Cons.IH ukeep_trans by meson
  qed
qed simp

lemma wakeup_keeps: "wakeup ch k = Ok k' \<Longrightarrow> ukeep k k'"
  unfolding wakeup_def by (rule wakeup_procs_keeps)

lemma kill_procs_keeps: "kill_procs pid is k = Ok (r, k') \<Longrightarrow> ukeep k k'"
proof (induction "is" arbitrary: k)
  case (Cons i "is")
  obtain k1 where k1: "acquire_p i k = Ok k1"
      "(if p_pid (procs k1 ! i) = pid then
          let k = upd_proc i (\<lambda>p. p\<lparr>p_killed := 1\<rparr>) k1;
              k = (if p_state (procs k ! i) = SLEEPING then make_runnable i k else k)
          in bind_res (release_p i k) (\<lambda>k. Ok (0, k))
        else bind_res (release_p i k1) (kill_procs pid is)) = Ok (r, k')"
    using Cons.prems by (auto simp: bind_res_Ok_iff)
  define k2 where "k2 = upd_proc i (\<lambda>p. p\<lparr>p_killed := 1\<rparr>) k1"
  define k3 where "k3 = (if p_state (procs k2 ! i) = SLEEPING then make_runnable i k2 else k2)"
  have 2: "ukeep k1 k2" unfolding k2_def by (rule ukeep_upd) simp
  have 3: "ukeep k2 k3" using make_runnable_keeps [of k2 i] by (simp add: k3_def live_def)
  show ?case
  proof (cases "p_pid (procs k1 ! i) = pid")
    case True
    then have "release_p i k3 = Ok k'" using k1(2) by (simp add: Let_def k2_def [symmetric] k3_def [symmetric] bind_res_Ok_iff)
    then show ?thesis using lock_keeps(1) [OF k1(1)] lock_keeps(2) 2 3 ukeep_trans by meson
  next
    case False
    then obtain k4 where "release_p i k1 = Ok k4" "kill_procs pid is k4 = Ok (r, k')" using k1(2) by (auto simp: bind_res_Ok_iff)
    then show ?thesis using lock_keeps(1) [OF k1(1)] lock_keeps(2) Cons.IH ukeep_trans by meson
  qed
qed simp

lemma kill_keeps: "kill pid k = Ok (r, k') \<Longrightarrow> ukeep k k'"
  unfolding kill_def by (rule kill_procs_keeps)

lemma setkilled_keeps: "setkilled i k = Ok k' \<Longrightarrow> ukeep k k'"
proof -
  assume "setkilled i k = Ok k'"
  then obtain k1 where "acquire_p i k = Ok k1" "release_p i (upd_proc i (\<lambda>p. p\<lparr>p_killed := 1\<rparr>) k1) = Ok k'"
    by (auto simp: setkilled_def bind_res_Ok_iff)
  moreover have "ukeep k1 (upd_proc i (\<lambda>p. p\<lparr>p_killed := 1\<rparr>) k1)" for k1 by (rule ukeep_upd) simp
  ultimately show ?thesis using lock_keeps(1,2) ukeep_trans by meson
qed

lemma sched_keeps: "sched r k = Ok k' \<Longrightarrow> ukeep k k'" "sched r k = Ok k' \<Longrightarrow> c_proc k' = c_proc k"
  by (auto simp: sched_def split: option.splits if_splits intro: ukeep_upd)

lemma dequeue_return_keeps: "dequeue_return i k = Ok k' \<Longrightarrow> ukeep k k'"
  using lock_keeps(2) [of i "(log_switch i k)\<lparr>c_proc := None\<rparr>" k']
  by (auto simp: dequeue_return_def Let_def log_switch_def ukeep_def split: if_splits)

lemma yield_keeps:
  assumes "yield k = Ok k'" "\<And>i. c_proc k = Some i \<Longrightarrow> live (p_state (procs k ! i))"
  shows "ukeep k k'"
proof -
  obtain i where i: "c_proc k = Some i" using assms(1) by (auto simp: yield_def split: option.splits)
  obtain k1 where k1: "acquire_p i k = Ok k1" using assms(1) i by (auto simp: yield_def bind_res_Ok_iff)
  define k2 where "k2 = upd_proc i (\<lambda>p. p\<lparr>p_state := RUNNABLE\<rparr>) k1"
  define k3 where "k3 = upd_proc i (\<lambda>p. p\<lparr>p_quanta := s32 (p_quanta p + 1)\<rparr>) (ensure_setup k2)"
  define k4 where "k4 = k3\<lparr>timeSincePriorityBoost := s32 (timeSincePriorityBoost k3 + 1)\<rparr>"
  have "sched Yielded (enqueue i k4) = Ok k'" using assms(1) i k1 by (simp add: yield_def Let_def k2_def k3_def k4_def)
  then have "ukeep (enqueue i k4) k'" by (rule sched_keeps)
  moreover have "ukeep k1 k2" unfolding k2_def
    by (rule ukeep_upd) (use assms(2) [OF i] lock_procs(1) [OF k1] in \<open>simp add: mask_state live_def\<close>)
  moreover have "ukeep (ensure_setup k2) k3" unfolding k3_def by (rule ukeep_upd) simp
  moreover have "ukeep k3 k4" by (simp add: k4_def ukeep_same)
  ultimately show ?thesis using lock_keeps(1) [OF k1] setup_keeps(2) enqueue_keeps ukeep_trans by meson
qed

lemma sleep_keeps:
  assumes "sleep ch lk k = Ok k'" "\<And>i. c_proc k = Some i \<Longrightarrow> live (p_state (procs k ! i))"
  shows "ukeep k k'"
proof -
  obtain i where i: "c_proc k = Some i" using assms(1) by (auto simp: sleep_def split: option.splits)
  obtain k1 k2 where k1: "acquire_p i k = Ok k1" "release_lk lk k1 = Ok k2" using assms(1) i by (auto simp: sleep_def bind_res_Ok_iff)
  define k3 where "k3 = upd_proc i (\<lambda>p. p\<lparr>p_chan := ch\<rparr>) k2"
  define k4 where "k4 = upd_proc i (\<lambda>p. p\<lparr>p_state := SLEEPING\<rparr>) k3"
  have st: "p_state (procs k3 ! i) = p_state (procs k ! i)"
    using lock_procs(1) [OF k1(1), of i] lock_procs(4) [OF k1(2)] by (simp add: k3_def upd_proc_nth)
  have "sched (Slept lk) k4 = Ok k'" using assms(1) i k1 by (simp add: sleep_def Let_def k3_def k4_def)
  then have "ukeep k4 k'" by (rule sched_keeps)
  moreover have "ukeep k2 k3" unfolding k3_def by (rule ukeep_upd) simp
  moreover have "ukeep k3 k4" unfolding k4_def by (rule ukeep_upd) (use assms(2) [OF i] st in \<open>simp add: mask_state live_def\<close>)
  ultimately show ?thesis using lock_keeps(1) [OF k1(1)] lock_keeps(4) [OF k1(2)] ukeep_trans by meson
qed

lemma enqueue_runnable_keeps: "ukeep k (enqueue_runnable is k)"
  by (induction "is" arbitrary: k) (auto intro: ukeep_trans enqueue_keeps)

lemma boost_keeps: "ukeep k (priority_boost k)"
proof -
  have "ukeep k (enqueue_runnable [0..<64] (setupQueue k))" by (rule ukeep_trans [OF setup_keeps(1) enqueue_runnable_keeps])
  then show ?thesis unfolding priority_boost_def by (simp add: ukeep_def)
qed

lemma resume_keeps: "resume i k = Ok k' \<Longrightarrow> ukeep k k'"
proof (cases "p_resume (procs k ! i)")
  case (Slept lk ie)
  assume "resume i k = Ok k'"
  then obtain k1 where k1: "release_p i (upd_proc i (\<lambda>p. p\<lparr>p_chan := NoChan\<rparr>) (k\<lparr>hart := (hart k)\<lparr>intena := ie\<rparr>\<rparr>)) = Ok k1" "acquire_lk lk k1 = Ok k'"
    using Slept by (auto simp: resume_def Let_def bind_res_Ok_iff)
  have "ukeep k (upd_proc i (\<lambda>p. p\<lparr>p_chan := NoChan\<rparr>) (k\<lparr>hart := (hart k)\<lparr>intena := ie\<rparr>\<rparr>))"
    by (rule ukeep_trans [of _ "k\<lparr>hart := (hart k)\<lparr>intena := ie\<rparr>\<rparr>"]) (simp_all add: ukeep_same ukeep_upd)
  then show ?thesis using lock_keeps(2) [OF k1(1)] lock_keeps(3) [OF k1(2)] ukeep_trans by meson
next
  case (Yielded ie)
  assume "resume i k = Ok k'"
  then have "ukeep (k\<lparr>hart := (hart k)\<lparr>intena := ie\<rparr>\<rparr>) k'" using Yielded lock_keeps(2) by (auto simp: resume_def)
  then show ?thesis by (simp add: ukeep_def)
qed (auto simp: resume_def intro: lock_keeps)

lemma scheduler_keeps:
  assumes k: "at_scheduler k" and r: "scheduler k = Ok k'"
  shows "ukeep k k'"
proof -
  let ?b = "priority_boost k"
  have b: "kinv ?b" "c_proc ?b = None" "noff (hart ?b) = 0"
    using k priority_boost_kinv priority_boost_frame [OF kinvD(2)] by (auto simp: at_scheduler_def)
  show ?thesis
  proof (cases "dequeue_choose ?b")
    case None
    then show ?thesis using r boost_keeps [of k] by (simp add: scheduler_def dequeue_def)
  next
    case (Some i)
    then obtain k1 where d: "dequeue ?b = Ok (Some i, k1)" "p_state (procs ?b ! i) = RUNNABLE" using dequeue_runs [OF b Some] by blast
    let ?k = "(removeFromQueue i ?b)\<lparr>c_proc := None, hart := (hart (removeFromQueue i ?b))\<lparr>intr := True\<rparr>\<rparr>"
    obtain k2 where k2: "acquire_p i ?k = Ok k2" "k1 = (upd_proc i (\<lambda>p. p\<lparr>p_state := RUNNING\<rparr>) k2)\<lparr>c_proc := Some i\<rparr>"
      using d(1) Some by (auto simp: dequeue_def Let_def bind_res_Ok_iff)
    have "ukeep ?b ?k" using remove_keeps [of ?b i] by (simp add: ukeep_def)
    moreover have "p_state (procs k2 ! i) = RUNNABLE" using lock_procs(1) [OF k2(1), of i] d(2) by (simp add: removeFromQueue_def Let_def)
    then have "ukeep k2 (upd_proc i (\<lambda>p. p\<lparr>p_state := RUNNING\<rparr>) k2)" by (intro ukeep_upd) (simp add: mask_state live_def)
    then have "ukeep k2 k1" unfolding k2(2) by (simp add: ukeep_def)
    moreover have "resume i k1 = Ok k'" using r d(1) by (simp add: scheduler_def)
    then have "ukeep k1 k'" by (rule resume_keeps)
    ultimately show ?thesis using boost_keeps lock_keeps(1) [OF k2(1)] ukeep_trans by meson
  qed
qed

lemma kexec_keeps:
  assumes k: "kernel_ok k" and e: "legal e k" "kexec e k = Ok k'"
  shows "ukeep k k'"
proof -
  have run: "live (p_state (procs k ! i))" if "c_proc k = Some i" for i
    using kinvD(6,7) [OF kernel_okD(1) [OF k]] that by (auto simp: live_def)
  have sw: "ukeep k k'" if "switch_away f k = Ok k'" "\<And>k1. f k = Ok k1 \<Longrightarrow> ukeep k k1" for f
    using that dequeue_return_keeps ukeep_trans by (fastforce simp: switch_away_def bind_res_Ok_iff split: option.splits)
  show ?thesis
  proof (cases e)
    case ESchedule
    then show ?thesis using e k kernel_ok_idle scheduler_keeps by auto
  next
    case EYield
    then show ?thesis using e sw yield_keeps [OF _ run] by auto
  next
    case (ESleep ch l)
    then show ?thesis using e sw sleep_keeps [OF _ run] by auto
  qed (use e lock_keeps wakeup_keeps kill_keeps setkilled_keeps in \<open>auto simp: bind_res_Ok_iff\<close>)
qed

end
