(* ===== verification/Proc_Wait.thy ===== *)
theory Proc_Wait
  imports Proc_Fork Proc_Keep Vm_Copy
begin

text \<open>
  \<^verbatim>\<open>wait\<close>: a zombie child is reaped, its pages go back to the free list and its exit status to
  the parent's memory; otherwise the caller returns with -1 or sleeps.
\<close>

section \<open>Writing to the memory of a process\<close>

lemma bit_flags: "k < 10 \<Longrightarrow> bit (PTE_FLAGS e) k = bit e k"
  by (simp add: PTE_FLAGS_def bit_take_bit_iff flip: take_bit_eq_mod [of 10, simplified])

lemma aspace_user:
  assumes sp: "aspace kend t m pt sz tf" and t: "t mod 4096 = 0" "t < 2 ^ 56" "phys_page kend tf"
  shows "upages m pt \<subseteq> page_at m pt ` {..<npages sz}" "user_apart kend m pt" "user_inj m pt"
proof -
  note a = sp [unfolded aspace_def]
  have tf: "tf mod 4096 = 0" "tf < 2 ^ 56" using phys_page_bounds [OF t(3)] by simp_all
  have user: "n < npages sz" if "n < 2 ^ 26" "vmap m pt n = Some e" "bit e 4" for n e
  proof (rule ccontr)
    assume n: "\<not> n < npages sz"
    have "n = 2 ^ 26 - 1 \<or> n = 2 ^ 26 - 2" using a n that by force
    then have "e = PA2PTE t OR (PTE_R OR PTE_X) OR 1 \<or> e = PA2PTE tf OR (PTE_R OR PTE_W) OR 1" using a that(2) by auto
    then have "PTE_FLAGS e = (PTE_R OR PTE_X) OR 1 \<or> PTE_FLAGS e = (PTE_R OR PTE_W) OR 1"
      using mapped_entry(4) [OF t(1,2), of "PTE_R OR PTE_X"] mapped_entry(4) [OF tf, of "PTE_R OR PTE_W"] by auto
    then have "\<not> bit (PTE_FLAGS e) 4" by (auto simp: bit_iff_odd)
    then show False using that(3) bit_flags [of 4 e] by simp
  qed
  show up: "upages m pt \<subseteq> page_at m pt ` {..<npages sz}"
  proof
    fix q assume "q \<in> upages m pt"
    then obtain n e where n: "n < 2 ^ 26" "vmap m pt n = Some e" "bit e 4" "q = PTE2PA e" by (auto simp: upages_def)
    then have "q = page_at m pt n" by (simp add: page_at_def)
    then show "q \<in> page_at m pt ` {..<npages sz}" using user [OF n(1-3)] by blast
  qed
  have "page_at m pt ` {..<npages sz} \<inter> tables 2 m pt = {}" using a by simp
  moreover have "\<forall>q \<in> page_at m pt ` {..<npages sz}. phys_page kend q" using footprint_phys [OF sp] by (simp add: footprint_def)
  ultimately show "user_apart kend m pt" unfolding user_apart_def using up by blast
  have inj: "inj_on (page_at m pt) {..<npages sz}" using a by simp
  show "user_inj m pt" unfolding user_inj_def
  proof (intro allI impI)
    fix n n' e e' assume h: "n < 2 ^ 26" "n' < 2 ^ 26" "vmap m pt n = Some e" "vmap m pt n' = Some e'" "bit e 4" "bit e' 4" "PTE2PA e = PTE2PA e'"
    then have "page_at m pt n = page_at m pt n'" by (simp add: page_at_def)
    then show "n = n'" using inj user [OF h(1,3,5)] user [OF h(2,4,6)] by (auto simp: inj_on_def)
  qed
qed

text \<open>The effect of \<^verbatim>\<open>copyout\<close> on the memory of a process.\<close>

definition copied_out :: "kmem \<Rightarrow> nat \<Rightarrow> nat \<Rightarrow> nat \<Rightarrow> nat \<Rightarrow> int \<Rightarrow> kmem \<Rightarrow> bool" where
  "copied_out m pt va src len r m' \<longleftrightarrow> (let k = readable (kmemory m) pt va len in
     r = (if k = len then 0 else -1) \<and> ubytes (kmemory m') pt va k = bytes (kmemory m) src k \<and>
     (\<forall>x. (\<forall>i < k. uaddr (kmemory m) pt (va + i) \<noteq> Some x) \<longrightarrow> kmemory m' x = kmemory m x) \<and>
     same_on (tables 2 (kmemory m) pt) (kmemory m) (kmemory m') \<and> freelist m' = freelist m)"

lemma copyout_step:
  assumes o: "own kend t K s free" and p: "p < NPROC" and im: "image (kproc s p) = (Some tf, Some pt, sz)"
    and t: "t mod 4096 = 0" "t < 2 ^ 56" and src: "src + len < 2 ^ 64" "apart (proc_pages s p) src len"
  obtains r m' where "copyout pt va src len (kmm s) = Ok (r, m')" "copied_out (kmm s) pt va src len r m'"
    "step_of kend t p s free (set_mem s m') free"
proof -
  let ?m = "kmemory (kmm s)" and ?k = "readable (kmemory (kmm s)) pt va len"
  note f = own_facts [OF o p]
  have sp: "aspace kend t ?m pt sz tf" "phys_page kend tf" "tf \<notin> footprint ?m pt sz" using f(1) im by simp_all
  note u = aspace_user [OF sp(1) t sp(2)]
  have ok: "tree_ok kend 2 ?m pt" using sp(1) by (simp add: aspace_def)
  have uf: "upages ?m pt \<subseteq> footprint ?m pt sz" using u(1) by (auto simp: footprint_def)
  have pg: "proc_pages s p = insert tf (footprint ?m pt sz)" using im by (simp add: proc_pages_def)
  have ap: "apart (upages ?m pt) src len" using src(2) uf pg by (auto simp: apart_def)
  define m1 where "m1 = put_all (\<lambda>i. the (uaddr ?m pt (va + i))) (bytes ?m src ?k) ?m"
  have run: "copyout pt va src len (kmm s) = Ok (if ?k = len then 0 else -1, (kmm s)\<lparr>kmemory := m1\<rparr>)"
    using copyout_view [OF ok src(1) u(2) ap, of va] by (simp add: m1_def Let_def)
  note e = copyout_effect [OF ok u(2,3) _ m1_def, unfolded length_bytes, OF refl]
  have "frame (upages ?m pt) ?m m1" unfolding frame_def
  proof (intro allI impI)
    fix a assume a: "\<forall>q \<in> upages ?m pt. \<not> in_page q a"
    show "m1 a = ?m a"
    proof (rule e(1), intro allI impI notI)
      fix i assume "uaddr ?m pt (va + i) = Some a"
      then obtain ent where ent: "va + i < MAXVA" "vmap ?m pt ((va + i) div 4096) = Some ent" "bit ent 4" "a = PTE2PA ent + (va + i) mod 4096"
        by (auto simp: uaddr_def split: if_splits option.splits)
      have "(va + i) div 4096 < 2 ^ 26" using ent(1) by (simp add: div_less_iff_less_mult)
      then have "PTE2PA ent \<in> upages ?m pt" using ent(2,3) by (auto simp: upages_def)
      then show False using a ent(4) by (auto simp: in_page_def)
    qed
  qed
  then have "reimage kend t (kmm s) (Some tf, Some pt, sz) free ((kmm s)\<lparr>kmemory := m1\<rparr>) (Some tf, Some pt, sz) free"
    by (rule write_reimage [rotated 3])
      (use f im uf aspace_same [OF e(2)] in \<open>auto simp: proc_pages_def\<close>)
  then have "step_of kend t p s free (set_mem s ((kmm s)\<lparr>kmemory := m1\<rparr>)) free"
    by (intro step_make [where x = "(Some tf, Some pt, sz)"]) (use im p in auto)
  moreover have "copied_out (kmm s) pt va src len (if ?k = len then 0 else -1) ((kmm s)\<lparr>kmemory := m1\<rparr>)"
  proof -
    have "ubytes m1 pt va ?k = bytes ?m src ?k" using e(3) .
    then show ?thesis using e(1,2) by (simp add: copied_out_def Let_def)
  qed
  ultimately show ?thesis using that run by blast
qed

text \<open>A step that leaves the memory of the processes outside \<open>X\<close> alone.\<close>

definition calm :: "nat set \<Rightarrow> ksys \<Rightarrow> ksys \<Rightarrow> bool" where
  "calm X s s' \<longleftrightarrow> (\<forall>i < NPROC. i \<notin> X \<longrightarrow> same_on (proc_pages s i) (kmemory (kmm s)) (kmemory (kmm s')) \<and> proc_pages s' i = proc_pages s i)"

lemma calm_trans: "calm X s s1 \<Longrightarrow> calm Y s1 s2 \<Longrightarrow> X \<subseteq> Z \<Longrightarrow> Y \<subseteq> Z \<Longrightarrow> calm Z s s2"
  unfolding calm_def by (fastforce simp: same_on_def subset_iff)

lemma calm_refl [simp]: "calm X s s"
  by (simp add: calm_def same_on_def)

lemma calm_step:
  assumes "own kend t K s free" "i < NPROC" "step_of kend t i s free s' free'"
  shows "calm {i} s s'"
  unfolding calm_def using own_step(3) [OF assms] by blast

section \<open>Writing to the data of the kernel\<close>

lemma own_kdata:
  assumes o: "own kend t K s free" and kd: "\<And>a. kend \<le> a \<Longrightarrow> m' a = kmemory (kmm s) a"
  shows "own kend t K (set_mem s ((kmm s)\<lparr>kmemory := m'\<rparr>)) free"
    "pages K (set_mem s ((kmm s)\<lparr>kmemory := m'\<rparr>)) free = pages K s free"
    "j < NPROC \<Longrightarrow> proc_pages (set_mem s ((kmm s)\<lparr>kmemory := m'\<rparr>)) j = proc_pages s j"
    "calm {} s (set_mem s ((kmm s)\<lparr>kmemory := m'\<rparr>))"
proof -
  let ?m = "kmemory (kmm s)"
  note a = o [unfolded own_def owned_def]
  have so: "same_on P ?m m'" if "\<forall>q \<in> P. phys_page kend q" for P
    using that kd by (auto simp: same_on_def in_page_def phys_page_def)
  have pg: "pages_of m' (images s j) = pages_of ?m (images s j)" "image_ok kend t m' (images s j)" if "j < NPROC" for j
  proof -
    have ok: "image_ok kend t ?m (images s j)" using a that by blast
    have "same_on (pages_of ?m (images s j)) ?m m'" by (rule so) (use image_phys [OF ok] in blast)
    from image_same [OF this] ok show "pages_of m' (images s j) = pages_of ?m (images s j)" "image_ok kend t m' (images s j)" by auto
  qed
  have inv: "kmem_inv kend (kmm s) free" using a by blast
  have "kmem_inv kend ((kmm s)\<lparr>kmemory := m'\<rparr>) free"
    using kmem_inv_same [OF inv so] free_pages [OF inv] by blast
  then have "owned kend t K (images s) ((kmm s)\<lparr>kmemory := m'\<rparr>) free" using a pg unfolding owned_def by simp
  then show "own kend t K (set_mem s ((kmm s)\<lparr>kmemory := m'\<rparr>)) free" using a unfolding own_def by simp
  show "pages K (set_mem s ((kmm s)\<lparr>kmemory := m'\<rparr>)) free = pages K s free" using pg by (simp add: pages_def all_pages_def)
  show "j < NPROC \<Longrightarrow> proc_pages (set_mem s ((kmm s)\<lparr>kmemory := m'\<rparr>)) j = proc_pages s j" using pg by (simp add: proc_pages_def)
  have ok: "image_ok kend t ?m (images s j)" if "j < NPROC" for j using a that by blast
  have "same_on (pages_of ?m (images s j)) ?m m'" if "j < NPROC" for j by (rule so) (use image_phys [OF ok [OF that]] in blast)
  then show "calm {} s (set_mem s ((kmm s)\<lparr>kmemory := m'\<rparr>))" using pg by (simp add: calm_def proc_pages_def)
qed

section \<open>Reaping a child\<close>

lemma leave_wait_ok:
  assumes "locks {WaitLock} {j} (kern s)"
  obtains k' where "leave_wait j r s = Ok ((Some r, True), s\<lparr>kern := k'\<rparr>)" "locks {} {} k'" "samek (kern s) k'"
proof -
  obtain k1 where k1: "release_p j (kern s) = Ok k1" "locks {WaitLock} ({j} - {j}) k1" "samek (kern s) k1"
    by (rule locks_release_p [OF assms singletonI])
  obtain k2 where k2: "release_lk WaitLock k1 = Ok k2" "locks ({WaitLock} - {WaitLock}) ({j} - {j}) k2" "samek k1 k2"
    by (rule locks_release_lk [OF k1(2) singletonI])
  show ?thesis
    by (rule that [of k2]) (use k1 k2 samek_trans [OF k1(3) k2(3)] in \<open>simp_all add: leave_wait_def on_kern_def\<close>)
qed

lemma ubytes_keep:
  assumes "aspace kend t m pt sz tf" "t mod 4096 = 0" "t < 2 ^ 56" "phys_page kend tf" "same_on (footprint m pt sz) m m'"
  shows "ubytes m' pt va (readable m pt va len) = ubytes m pt va (readable m pt va len)"
proof -
  have "tables 2 m pt \<union> upages m pt \<subseteq> footprint m pt sz" using aspace_user(1) [OF assms(1-4)] by (auto simp: footprint_def)
  then have "same_on (tables 2 m pt \<union> upages m pt) m m'" using same_on_subset [OF assms(5)] by blast
  then show ?thesis by (rule ubytes_same) (rule order_refl)
qed

definition status_at :: "ksys \<Rightarrow> nat \<Rightarrow> nat \<Rightarrow> int \<Rightarrow> bool" where
  "status_at s p addr x \<longleftrightarrow> ubytes (kmemory (kmm s)) (adr (p_pagetable (kproc s p))) addr 4 = nat_le 4 (nat (x mod 2 ^ 32))"

lemma step_freed:
  assumes "step_of kend t j s free s' free'" "image (kproc s' j) = (None, None, 0)"
  shows "set free' = proc_pages s j \<union> set free"
  using assms by (simp add: step_of_def reimage_def proc_pages_def)

lemma samek_kern:
  assumes "own kend t K s free" "samek (kern s) k"
  shows "own kend t K (s\<lparr>kern := k\<rparr>) free" "pages K (s\<lparr>kern := k\<rparr>) free = pages K s free"
  using own_step(1,2) [OF assms(1) _ step_samek [OF assms(1) _ assms(2), of 0]] by simp_all

lemma reap_result:
  assumes o: "own kend t K s free" and p: "p < NPROC" and im: "image (kproc s p) = (Some tf, Some pt, sz)"
    and j: "j < NPROC" "j \<noteq> p" and t: "t mod 4096 = 0" "t < 2 ^ 56" and x: "xaddr j + 4 \<le> kend" "kend < 2 ^ 63"
    and l: "locks {WaitLock} {j} (kern s)"
  obtains (fault) s' where "reap kend xaddr addr p j s = Some (Ok ((Some (-1), True), s'))" "own kend t K s' free" "pages K s' free = pages K s free"
      "locks {} {} (kern s')" "samek (kern s) (kern s')" "kfiles s' = kfiles s" "ticks s' = ticks s" "addr \<noteq> 0"
      "readable (kmemory (kmm s)) pt addr 4 < 4" "calm {p} s s'"
  | (ok) s' free' where "reap kend xaddr addr p j s = Some (Ok ((Some (p_pid (kproc s j)), True), s'))" "own kend t K s' free'"
      "pages K s' free' = pages K s free" "locks {} {} (kern s')" "samek (upd_proc j cleared (kern s)) (kern s')" "kfiles s' = kfiles s"
      "ticks s' = ticks s" "set free' = proc_pages s j \<union> set free" "addr \<noteq> 0 \<Longrightarrow> status_at s' p addr (p_xstate (kproc s j))" "calm {p, j} s s'"
      "addr = 0 \<or> readable (kmemory (kmm s)) pt addr 4 = 4"
proof -
  let ?st = "nat_le 4 (nat (p_xstate (kproc s j) mod 2 ^ 32))"
  define m0 where "m0 = (kmm s)\<lparr>kmemory := Cmem.store (xaddr j) ?st (kmemory (kmm s))\<rparr>"
  define s0 where "s0 = set_mem s m0"
  have kd: "kmemory m0 a = kmemory (kmm s) a" if "kend \<le> a" for a using x(1) that by (simp add: m0_def Cmem.store_def)
  have m0: "m0 = (kmm s)\<lparr>kmemory := kmemory m0\<rparr>" by (simp add: m0_def)
  have o0: "own kend t K s0 free" "pages K s0 free = pages K s free" "\<And>i. i < NPROC \<Longrightarrow> proc_pages s0 i = proc_pages s i"
    unfolding s0_def by (subst m0, (rule own_kdata [OF o kd]; assumption))+
  have c0: "calm {} s s0" unfolding s0_def by (subst m0, rule own_kdata(4) [OF o kd])
  have im0: "image (kproc s0 p) = (Some tf, Some pt, sz)" using im by (simp add: s0_def)
  have ph: "\<forall>q \<in> proc_pages s0 p. phys_page kend q" using own_facts(1) [OF o0(1) p] image_phys by (auto simp: proc_pages_def)
  have ap: "apart (proc_pages s0 p) (xaddr j) 4" using ph x(1) by (fastforce simp: apart_def in_page_def phys_page_def)
  have sp0: "aspace kend t (kmemory m0) pt sz tf" "phys_page kend tf" using own_facts(1) [OF o0(1) p] im0 by (simp_all add: s0_def)
  have reaped: thesis if s1: "s1 = set_mem s m" "own kend t K s1 free" "pages K s1 free = pages K s free" "proc_pages s1 j = proc_pages s j" "calm {p} s s1"
      and r: "put_xstate xaddr p addr j s = Ok (0, m)" and rdb: "addr = 0 \<or> readable (kmemory (kmm s)) pt addr 4 = 4"
      and st: "addr \<noteq> 0 \<Longrightarrow> readable (kmemory m) pt addr 4 = 4 \<and> ubytes (kmemory m) pt addr 4 = ?st" for s1 m
  proof -
    obtain s2 free2 where s2: "freeproc kend j s1 = Some (Ok s2)" "step_of kend t j s1 free s2 free2"
        "kern s2 = upd_proc j cleared (kern s1)" "kfiles s2 = kfiles s1" "ticks s2 = ticks s1"
      by (rule freeproc_frees [OF s1(2) j(1) t])
    have k1: "kern s1 = kern s" using s1(1) by simp
    have l2: "locks {WaitLock} {j} (kern s2)" unfolding s2(3) k1 by (rule locks_upd [OF l]) simp
    obtain k' where k': "leave_wait j (p_pid (kproc s j)) s2 = Ok ((Some (p_pid (kproc s j)), True), s2\<lparr>kern := k'\<rparr>)" "locks {} {} k'" "samek (kern s2) k'"
      by (rule leave_wait_ok [OF l2])
    note os2 = own_step [OF s1(2) j(1) s2(2)]
    note ow = samek_kern [OF os2(1) k'(3)]
    have len: "length (procs (kern s)) = NPROC" using o by (simp add: own_def)
    have imj: "image (kproc s2 j) = (None, None, 0)" using s2(3) j(1) k1 len by (simp add: kproc_def upd_proc_nth)
    have up: "kproc s2 p = kproc s p" using s2(3) j(2) k1 by (simp add: kproc_def upd_proc_nth)
    have "p_pagetable (kproc (s2\<lparr>kern := k'\<rparr>) p) = Some pt"
      using unlock_fields(6) [OF samek_kproc [OF k'(3)], of p] s2(3) k1 len p up im by (simp add: image_def)
    then have status: "status_at (s2\<lparr>kern := k'\<rparr>) p addr (p_xstate (kproc s j))" if "addr \<noteq> 0"
    proof -
      have im1: "image (kproc s1 p) = (Some tf, Some pt, sz)" using im s1(1) by simp
      have sp: "aspace kend t (kmemory m) pt sz tf" "phys_page kend tf" using own_facts(1) [OF s1(2) p] im1 s1(1) by simp_all
      have "same_on (proc_pages s1 p) (kmemory m) (kmemory (kmm s2))" using os2(3) [OF p j(2) [symmetric]] s1(1) by simp
      then have "same_on (footprint (kmemory m) pt sz) (kmemory m) (kmemory (kmm s2))"
        by (rule same_on_subset) (use im1 s1(1) in \<open>auto simp: proc_pages_def\<close>)
      then have "ubytes (kmemory (kmm s2)) pt addr 4 = ubytes (kmemory m) pt addr 4"
        using ubytes_keep [OF sp(1) t sp(2), of "kmemory (kmm s2)" addr 4] st [OF that] by simp
      then show ?thesis using st [OF that] \<open>p_pagetable _ = Some pt\<close> by (simp add: status_at_def adr_def)
    qed
    show thesis
    proof (rule ok [of "s2\<lparr>kern := k'\<rparr>" free2])
      show "reap kend xaddr addr p j s = Some (Ok ((Some (p_pid (kproc s j)), True), s2\<lparr>kern := k'\<rparr>))"
        using r s1(1) s2(1) k'(1) by (simp add: reap_def Let_def)
      show "set free2 = proc_pages s j \<union> set free" using step_freed [OF s2(2) imj] s1(4) by simp
      have "calm {p, j} s s2" by (rule calm_trans [OF s1(5) calm_step [OF s1(2) j(1) s2(2)]]) auto
      moreover have "proc_pages (s2\<lparr>kern := k'\<rparr>) i = proc_pages s2 i" if "i < NPROC" for i
        using image_unlock [OF samek_kproc [OF k'(3)], of i] os2(1) that by (simp add: proc_pages_def own_def)
      ultimately show "calm {p, j} s (s2\<lparr>kern := k'\<rparr>)" by (simp add: calm_def)
      show "samek (upd_proc j cleared (kern s)) (kern (s2\<lparr>kern := k'\<rparr>))" using k'(3) s2(3) k1 by simp
      show "pages K (s2\<lparr>kern := k'\<rparr>) free2 = pages K s free" using ow(2) os2(2) s1(3) by simp
    qed (use ow k'(2) s2 s1(1) status rdb in simp_all)
  qed
  show thesis
  proof (cases "addr = 0")
    case True
    show thesis by (rule reaped [of "set_mem s (kmm s)" "kmm s"]) (use True o in \<open>simp_all add: put_xstate_def set_mem_upd Let_def\<close>)
  next
    case False
    obtain r m where c: "copyout pt addr (xaddr j) 4 m0 = Ok (r, m)" "copied_out m0 pt addr (xaddr j) 4 r m"
        "step_of kend t p s0 free (set_mem s0 m) free"
      using copyout_step [OF o0(1) p im0 t _ ap, of addr] x by (auto simp: s0_def)
    have put: "put_xstate xaddr p addr j s = Ok (r, m)"
      using c(1) False im by (simp add: put_xstate_def Let_def m0_def image_def adr_def)
    have sm: "set_mem s0 m = set_mem s m" by (simp add: s0_def set_mem_upd)
    note os = own_step [OF o0(1) p c(3), unfolded sm]
    have cs: "calm {p} s (set_mem s m)" by (rule calm_trans [OF c0 calm_step [OF o0(1) p c(3), unfolded sm]]) auto
    have rd: "readable (kmemory m0) pt addr 4 \<le> 4" by (rule readable_le)
    have rs: "readable (kmemory m0) pt addr 4 = readable (kmemory (kmm s)) pt addr 4"
    proof -
      have "\<forall>q \<in> tables 2 (kmemory (kmm s)) pt. phys_page kend q"
        using aspace_of(1) [OF o p im] tree_ok_phys by (auto simp: aspace_def)
      then have "same_on (tables 2 (kmemory (kmm s)) pt) (kmemory (kmm s)) (kmemory m0)"
        using kd by (auto simp: same_on_def in_page_def phys_page_def)
      from view_same(3) [OF this] show ?thesis by simp
    qed
    show thesis
    proof (cases "readable (kmemory m0) pt addr 4 = 4")
      case True
      have r0: "r = 0" "ubytes (kmemory m) pt addr 4 = ?st"
        using c(2) True bytes_store [of "xaddr j" ?st "kmemory (kmm s)"] by (simp_all add: copied_out_def Let_def m0_def)
      have "same_on (tables 2 (kmemory m0) pt) (kmemory m0) (kmemory m)" using c(2) by (simp add: copied_out_def Let_def)
      from view_same(3) [OF this] True have "readable (kmemory m) pt addr 4 = 4" by simp
      then show thesis
        using reaped [of "set_mem s m" m] os(1,2) os(3) [OF j(1) j(2)] o0 r0 put j(1) cs True rs by simp
    next
      case False
      then have r0: "r = -1" using c(2) by (simp add: copied_out_def Let_def)
      obtain k' where k': "leave_wait j (-1) (set_mem s m) = Ok ((Some (-1), True), (set_mem s m)\<lparr>kern := k'\<rparr>)" "locks {} {} k'" "samek (kern (set_mem s m)) k'"
        by (rule leave_wait_ok [of j "set_mem s m"]) (use l in simp)
      note ow = samek_kern [OF os(1) k'(3)]
      have "proc_pages ((set_mem s m)\<lparr>kern := k'\<rparr>) i = proc_pages (set_mem s m) i" if "i < NPROC" for i
        using image_unlock [OF samek_kproc [OF k'(3)], of i] os(1) that by (simp add: proc_pages_def own_def)
      then have cf: "calm {p} s ((set_mem s m)\<lparr>kern := k'\<rparr>)" using cs by (simp add: calm_def)
      show thesis
        by (rule fault [of "(set_mem s m)\<lparr>kern := k'\<rparr>"])
          (use put r0 k' ow os(2) o0(2) cf \<open>addr \<noteq> 0\<close> False rd rs in \<open>simp_all add: reap_def Let_def\<close>)
    qed
  qed
qed

end
