(* ===== verification/Proc_Life.thy ===== *)
theory Proc_Life
  imports Proc_Wait
begin

text \<open>
  \<^verbatim>\<open>wait\<close> and \<^verbatim>\<open>exit\<close> as a whole, and the kernel as a machine whose events are these calls,
  scheduling and the writes of user programs.
\<close>

section \<open>The scheduler's view\<close>

definition runs :: "kernel \<Rightarrow> bool" where
  "runs k \<longleftrightarrow> sched_ok k \<and> resumable k \<and> c_proc k \<noteq> None \<and>
     (\<forall>i < NPROC. p_state (procs k ! i) = RUNNING \<longleftrightarrow> c_proc k = Some i) \<and> (\<forall>i. c_proc k = Some i \<longrightarrow> i < NPROC)"

lemma runs_running: "running k \<longleftrightarrow> runs k \<and> locks {} {} k"
  by (auto simp: running_iff runs_def)

lemma runs_running_with: "running_with l k \<longleftrightarrow> runs k \<and> locks {l} {} k"
  by (auto simp: runs_def running_with_def kinv_def locks_def sched_ok_def split: if_splits)

lemma runs_samek:
  assumes "runs k" "samek k k'"
  shows "runs k'"
proof -
  have len: "length (procs k) = NPROC" using assms(1) by (simp add: runs_def sched_ok_def)
  have "p_state (procs k' ! j) = p_state (procs k ! j)" "p_resume (procs k' ! j) = p_resume (procs k ! j)" if "j < NPROC" for j
    using unlock_fields [OF samek_proc [OF assms(2)], of j] that len by simp_all
  then show ?thesis
    using assms samek_sched_ok [OF assms(2)] samek_fields(5) [OF assms(2)] by (simp add: runs_def resumable_def)
qed

lemma runs_upd:
  assumes "runs k" "j < NPROC" "c_proc k \<noteq> Some j" "p_state (procs k ! j) \<noteq> RUNNABLE"
    "\<not> live (p_state (f (procs k ! j)))"
  shows "runs (upd_proc j f k)"
proof -
  have len: "length (procs k) = NPROC" using assms(1) by (simp add: runs_def sched_ok_def)
  have st: "p_state (procs (upd_proc j f k) ! i) = (if i = j then p_state (f (procs k ! j)) else p_state (procs k ! i))"
      "p_resume (procs (upd_proc j f k) ! i) = (if i = j then p_resume (f (procs k ! j)) else p_resume (procs k ! i))" for i
    using assms(2) len by (auto simp: upd_proc_nth)
  have "sched_ok (upd_proc j f k)"
    by (rule samex_sched_ok [OF upd_samex]) (use assms st in \<open>auto simp: runs_def live_def\<close>)
  then show ?thesis using assms by (auto simp: runs_def resumable_def st live_def)
qed

lemma runs_state: "runs k \<Longrightarrow> c_proc k = Some p \<Longrightarrow> p < NPROC \<and> p_state (procs k ! p) = RUNNING"
  by (auto simp: runs_def)

section \<open>Scheduling keeps memory\<close>

lemma mask_image: "mask p = mask q \<Longrightarrow> image p = image q"
  using mask_fields [of p q] by (simp add: image_def)

lemma kern_change:
  assumes o: "own kend t K s free" and im: "\<And>j. j < NPROC \<Longrightarrow> image (procs k ! j) = image (kproc s j)"
    and len: "length (procs k) = length (procs (kern s))"
  shows "own kend t K (s\<lparr>kern := k\<rparr>) free" "pages K (s\<lparr>kern := k\<rparr>) free = pages K s free"
    "j < NPROC \<Longrightarrow> proc_pages (s\<lparr>kern := k\<rparr>) j = proc_pages s j"
proof -
  have i: "images (s\<lparr>kern := k\<rparr>) j = images s j" if "j < NPROC" for j using im [OF that] by (simp add: kproc_def)
  show "own kend t K (s\<lparr>kern := k\<rparr>) free" "pages K (s\<lparr>kern := k\<rparr>) free = pages K s free"
    using o len owned_cong [OF i] by (simp_all add: own_def pages_def)
  show "j < NPROC \<Longrightarrow> proc_pages (s\<lparr>kern := k\<rparr>) j = proc_pages s j" using i by (simp add: proc_pages_def)
qed

lemma ukeep_mem:
  assumes sm: "sys_mem kend t K s free" and u: "ukeep (kern s) k"
  shows "sys_mem kend t K (s\<lparr>kern := k\<rparr>) free" "pages K (s\<lparr>kern := k\<rparr>) free = pages K s free"
    "j < NPROC \<Longrightarrow> proc_pages (s\<lparr>kern := k\<rparr>) j = proc_pages s j"
proof -
  note len = sys_memD(2) [OF sm]
  have mk: "mask (procs k ! j) = mask (kproc s j)" if "j < NPROC" for j using ukeep_fields(4) [OF u, of j] that len by (simp add: kproc_def)
  note kc = kern_change [OF sys_memD(1) [OF sm] mask_image [OF mk] ukeep_fields(1) [OF u]]
  show "pages K (s\<lparr>kern := k\<rparr>) free = pages K s free" "j < NPROC \<Longrightarrow> proc_pages (s\<lparr>kern := k\<rparr>) j = proc_pages s j" using kc by simp_all
  show "sys_mem kend t K (s\<lparr>kern := k\<rparr>) free" unfolding sys_mem_def
  proof (intro conjI allI impI)
    fix j assume j: "j < NPROC"
    have e: "kproc (s\<lparr>kern := k\<rparr>) j = procs k ! j" by (simp add: kproc_def)
    have st: "p_state (procs k ! j) = UNUSED \<longleftrightarrow> p_state (kproc s j) = UNUSED"
      using mask_fields(9,10) [OF mk [OF j]] by (cases "live (p_state (kproc s j))") (auto simp: live_def)
    have "if p_state (kproc s j) = UNUSED then image (kproc s j) = (None, None, 0) else p_pagetable (kproc s j) \<noteq> None"
      using sm j by (simp add: sys_mem_def)
    then show "if p_state (kproc (s\<lparr>kern := k\<rparr>) j) = UNUSED then image (kproc (s\<lparr>kern := k\<rparr>) j) = (None, None, 0)
        else p_pagetable (kproc (s\<lparr>kern := k\<rparr>) j) \<noteq> None"
      unfolding e st mask_image [OF mk [OF j]] mask_fields(4) [OF mk [OF j]] .
  qed (use kc(1) in simp)
qed

lemma samek_ukeep: "samek k k' \<Longrightarrow> ukeep k k'"
proof -
  assume s: "samek k k'"
  have "map mask (procs k') = map mask (procs k)"
    by (rule nth_equalityI) (use samek_fields(6) [OF s] unlock_mask [OF samek_proc [OF s]] in auto)
  then show ?thesis using samek_fields [OF s] by (simp add: ukeep_def)
qed

section \<open>Wait\<close>

definition zombie_child :: "ksys \<Rightarrow> nat \<Rightarrow> nat \<Rightarrow> bool" where
  "zombie_child s p j \<longleftrightarrow> p_parent (kproc s j) = Some p \<and> p_state (kproc s j) = ZOMBIE"

lemma samek_zombie:
  assumes "samek (kern s) k" "j < length (procs (kern s))"
  shows "zombie_child (s\<lparr>kern := k\<rparr>) p j = zombie_child s p j" "p_parent (kproc (s\<lparr>kern := k\<rparr>) j) = p_parent (kproc s j)"
  using unlock_fields [OF samek_kproc [OF assms]] by (simp_all add: zombie_child_def)

lemma wait_scan_ok:
  assumes "locks {WaitLock} {} (kern s)" "set js \<subseteq> {..<NPROC}"
  shows "(\<exists>j k. j \<in> set js \<and> zombie_child s p j \<and> samek (kern s) k \<and> locks {WaitLock} {j} k \<and>
      wait_scan kend xaddr addr p js hk s = reap kend xaddr addr p j (s\<lparr>kern := k\<rparr>)) \<or>
    (\<exists>k. (\<forall>j \<in> set js. \<not> zombie_child s p j) \<and> samek (kern s) k \<and> locks {WaitLock} {} k \<and>
      wait_scan kend xaddr addr p js hk s = Some (Ok ((None, hk \<or> (\<exists>j \<in> set js. p_parent (kproc s j) = Some p)), s\<lparr>kern := k\<rparr>)))"
    (is "(\<exists>j k. ?some js hk s j k) \<or> (\<exists>k. ?none js hk s k)")
  using assms
proof (induction js arbitrary: s hk)
  case Nil
  then show ?case by (intro disjI2 exI [of _ "kern s"]) simp
next
  case (Cons j js)
  have len: "length (procs (kern s)) = NPROC" using Cons.prems(1) by (simp add: locks_def)
  have j: "j < NPROC" and js: "set js \<subseteq> {..<NPROC}" using Cons.prems(2) by simp_all
  show ?case
  proof (cases "p_parent (kproc s j) = Some p")
    case False
    then have "wait_scan kend xaddr addr p (j # js) hk s = wait_scan kend xaddr addr p js hk s" "\<not> zombie_child s p j"
      by (simp_all add: zombie_child_def)
    then show ?thesis using Cons.IH [OF Cons.prems(1) js, of hk] False by auto
  next
    case True
    obtain k1 where k1: "acquire_p j (kern s) = Ok k1" "locks {WaitLock} (insert j {}) k1" "samek (kern s) k1"
      by (rule locks_acquire_p [OF Cons.prems(1) j]) simp
    have st: "p_state (kproc (s\<lparr>kern := k1\<rparr>) j) = p_state (kproc s j)" using unlock_fields(1) [OF samek_kproc [OF k1(3)], of j] j len by simp
    show ?thesis
    proof (cases "p_state (kproc s j) = ZOMBIE")
      case z: True
      have "wait_scan kend xaddr addr p (j # js) hk s = reap kend xaddr addr p j (s\<lparr>kern := k1\<rparr>)"
        using True z k1(1) st by (simp add: on_kern_def)
      then show ?thesis using True z k1 unfolding zombie_child_def by (intro disjI1 exI [of _ j] exI [of _ k1]) simp
    next
      case z: False
      obtain k2 where k2: "release_p j k1 = Ok k2" "locks {WaitLock} (insert j {} - {j}) k2" "samek k1 k2"
        by (rule locks_release_p [OF k1(2) insertI1])
      have s2: "samek (kern s) k2" by (rule samek_trans [OF k1(3) k2(3)])
      have step: "wait_scan kend xaddr addr p (j # js) hk s = wait_scan kend xaddr addr p js True (s\<lparr>kern := k2\<rparr>)"
        using True z st k1(1) k2(1) by (simp add: on_kern_def)
      have zz: "zombie_child (s\<lparr>kern := k2\<rparr>) p i = zombie_child s p i" "p_parent (kproc (s\<lparr>kern := k2\<rparr>) i) = p_parent (kproc s i)" if "i \<in> set js" for i
        using samek_zombie [OF s2, of i] js that len by auto
      have nz: "\<not> zombie_child s p j" using z by (simp add: zombie_child_def)
      have l2: "locks {WaitLock} {} (kern (s\<lparr>kern := k2\<rparr>))" using k2(2) by simp
      from Cons.IH [OF l2 js, of True] show ?thesis
      proof (elim disjE exE conjE)
        fix i k assume h: "i \<in> set js" "zombie_child (s\<lparr>kern := k2\<rparr>) p i" "samek (kern (s\<lparr>kern := k2\<rparr>)) k" "locks {WaitLock} {i} k"
          "wait_scan kend xaddr addr p js True (s\<lparr>kern := k2\<rparr>) = reap kend xaddr addr p i (s\<lparr>kern := k2, kern := k\<rparr>)"
        then have "?some (j # js) hk s i k" using zz step samek_trans [OF s2, of k] by simp
        then show ?thesis by blast
      next
        fix k assume h: "\<forall>i \<in> set js. \<not> zombie_child (s\<lparr>kern := k2\<rparr>) p i" "samek (kern (s\<lparr>kern := k2\<rparr>)) k" "locks {WaitLock} {} k"
          "wait_scan kend xaddr addr p js True (s\<lparr>kern := k2\<rparr>) =
            Some (Ok ((None, True \<or> (\<exists>i \<in> set js. p_parent (kproc (s\<lparr>kern := k2\<rparr>) i) = Some p)), s\<lparr>kern := k2, kern := k\<rparr>))"
        then have "?none (j # js) hk s k" using zz step samek_trans [OF s2, of k] True nz by simp
        then show ?thesis by blast
      qed
    qed
  qed
qed

lemma killed_ok:
  assumes "locks L P k" "i < NPROC" "i \<notin> P"
  obtains k' where "killed i k = Ok (p_killed (procs k ! i), k')" "locks L P k'" "samek k k'"
proof -
  obtain k1 where k1: "acquire_p i k = Ok k1" "locks L (insert i P) k1" "samek k k1" by (rule locks_acquire_p [OF assms])
  obtain k2 where k2: "release_p i k1 = Ok k2" "locks L (insert i P - {i}) k2" "samek k1 k2" by (rule locks_release_p [OF k1(2) insertI1])
  have "p_killed (procs k1 ! i) = p_killed (procs k ! i)"
    using unlock_fields(13) [OF samek_proc [OF k1(3)], of i] assms(1,2) by (simp add: locks_def)
  then show ?thesis
    by (intro that [of k2]) (use k1 k2 assms(3) samek_trans [OF k1(3) k2(3)] in \<open>simp_all add: killed_def Let_def\<close>)
qed

lemma samek_mem:
  assumes "sys_mem kend t K s free" "samek (kern s) k"
  shows "sys_mem kend t K (s\<lparr>kern := k\<rparr>) free" "pages K (s\<lparr>kern := k\<rparr>) free = pages K s free"
  using ukeep_mem [OF assms(1) samek_ukeep [OF assms(2)]] by simp_all

text \<open>Why \<^verbatim>\<open>wait\<close> fails.\<close>

definition wait_fails :: "ksys \<Rightarrow> nat \<Rightarrow> nat \<Rightarrow> bool" where
  "wait_fails s p addr \<longleftrightarrow>
     (if \<exists>j < NPROC. zombie_child s p j then addr \<noteq> 0 \<and> readable (kmemory (kmm s)) (adr (p_pagetable (kproc s p))) addr 4 < 4
      else (\<forall>j < NPROC. p_parent (kproc s j) \<noteq> Some p) \<or> p_killed (kproc s p) \<noteq> 0)"

lemma cleared_mem:
  assumes sm: "sys_mem kend t K s free" and o: "own kend t K s' free'" and x: "samek (upd_proc j cleared (kern s)) (kern s')" and j: "j < NPROC"
  shows "sys_mem kend t K s' free'" "p_state (kproc s' j) = UNUSED" "p_ofile (kproc s' j) = p_ofile (kproc s j)"
    "\<And>i. i < NPROC \<Longrightarrow> i \<noteq> j \<Longrightarrow> unlock (kproc s' i) = unlock (kproc s i)"
proof -
  note len = sys_memD(2) [OF sm]
  have u: "unlock (kproc s' i) = unlock (if i = j then cleared (kproc s j) else kproc s i)" if "i < NPROC" for i
    using samek_proc [OF x, of i] that j len by (simp add: kproc_def upd_proc_nth)
  show other: "unlock (kproc s' i) = unlock (kproc s i)" if "i < NPROC" "i \<noteq> j" for i using u [OF that(1)] that(2) by simp
  have c: "unlock (kproc s' j) = unlock (cleared (kproc s j))" using u [OF j] by simp
  show st: "p_state (kproc s' j) = UNUSED" using unlock_fields(1) [OF c] by simp
  show "p_ofile (kproc s' j) = p_ofile (kproc s j)" using unlock_fields(9) [OF c] by (simp add: cleared_def)
  show "sys_mem kend t K s' free'"
    by (rule state_keeps_mem [OF sm o, of j]) (use other st image_unlock [OF c] in simp_all)
qed

lemma wait_turn_result:
  assumes sm: "sys_mem kend t K s free" and r: "running_with WaitLock (kern s)" and c: "c_proc (kern s) = Some p"
    and t: "t mod 4096 = 0" "t < 2 ^ 56" and x: "\<forall>j < NPROC. xaddr j + 4 \<le> kend" "kend < 2 ^ 63"
  obtains (reaped) s' free' j where "wait_turn kend xaddr addr s = Some (Ok (Some (p_pid (kproc s j)), s'))" "j < NPROC" "zombie_child s p j"
      "sys_mem kend t K s' free'" "pages K s' free' = pages K s free" "running (kern s')" "c_proc (kern s') = Some p"
      "p_state (kproc s' j) = UNUSED" "\<forall>i < NPROC. i \<noteq> j \<longrightarrow> unlock (kproc s' i) = unlock (kproc s i)"
      "set free' = proc_pages s j \<union> set free" "addr \<noteq> 0 \<Longrightarrow> status_at s' p addr (p_xstate (kproc s j))"
      "kfiles s' = kfiles s" "ticks s' = ticks s" "p_ofile (kproc s' j) = p_ofile (kproc s j)" "calm {p, j} s s'"
      "\<not> wait_fails s p addr"
  | (error) s' where "wait_turn kend xaddr addr s = Some (Ok (Some (-1), s'))" "sys_mem kend t K s' free" "pages K s' free = pages K s free"
      "running (kern s')" "samek (kern s) (kern s')" "wait_fails s p addr" "kfiles s' = kfiles s" "ticks s' = ticks s" "calm {p} s s'"
  | (asleep) s' k' where "wait_turn kend xaddr addr s = Some (Ok (None, s'))" "dequeue_return p (kern s') = Ok k'" "at_scheduler k'"
      "p_state (procs k' ! p) = SLEEPING" "p_chan (procs k' ! p) = ChProc p" "sys_mem kend t K (s'\<lparr>kern := k'\<rparr>) free"
      "pages K (s'\<lparr>kern := k'\<rparr>) free = pages K s free" "ukeep (kern s) k'"
      "\<exists>j < NPROC. p_parent (kproc s j) = Some p" "\<forall>j < NPROC. \<not> zombie_child s p j" "kfiles s' = kfiles s" "ticks s' = ticks s" "kmm s' = kmm s"
      "\<not> wait_fails s p addr"
proof -
  note rr = r [unfolded runs_running_with]
  note len = sys_memD(2) [OF sm]
  have p: "p < NPROC" "p_state (kproc s p) = RUNNING" using runs_state [of "kern s" p] rr c by (simp_all add: kproc_def)
  obtain tf pt where im: "image (kproc s p) = (Some tf, Some pt, p_sz (kproc s p))" using sys_memD(4) [OF sm p(1)] p(2) by auto
  have ptp: "adr (p_pagetable (kproc s p)) = pt" using im by (simp add: image_def adr_def)
  have all: "set [0..<NPROC] \<subseteq> {..<NPROC}" "\<And>j. j \<in> set [0..<NPROC] \<longleftrightarrow> j < NPROC" by auto
  have l: "locks {WaitLock} {} (kern s)" using rr by simp
  from wait_scan_ok [OF l all(1), of p kend xaddr addr False] show thesis
  proof (elim disjE exE conjE)
    fix j k assume h: "j \<in> set [0..<NPROC]" "zombie_child s p j" "samek (kern s) k" "locks {WaitLock} {j} k"
      "wait_scan kend xaddr addr p [0..<NPROC] False s = reap kend xaddr addr p j (s\<lparr>kern := k\<rparr>)"
    have j: "j < NPROC" "j \<noteq> p" using h(1,2) p(2) all(2) by (auto simp: zombie_child_def)
    let ?s = "s\<lparr>kern := k\<rparr>"
    note sm1 = samek_mem [OF sm h(3)]
    have u: "unlock (kproc ?s i) = unlock (kproc s i)" if "i < NPROC" for i using samek_kproc [OF h(3)] that len by simp
    have im1: "image (kproc ?s p) = (Some tf, Some pt, p_sz (kproc s p))" using image_unlock [OF u [OF p(1)]] im by simp
    have xj: "xaddr j + 4 \<le> kend" using x(1) j(1) by simp
    have run: "wait_turn kend xaddr addr s = Some (Ok (Some v, s'))" if "reap kend xaddr addr p j ?s = Some (Ok ((Some v, True), s'))" for v s'
      using c h(5) that by (simp add: wait_turn_def)
    have runsk: "runs k" by (rule runs_samek [OF _ h(3)]) (use rr in simp)
    have cs: "calm {} s ?s" unfolding calm_def using ukeep_mem(3) [OF sm samek_ukeep [OF h(3)]] by (simp add: same_on_def)
    show thesis
    proof (cases rule: reap_result [where xaddr = xaddr and addr = addr, OF sys_memD(1) [OF sm1(1)] p(1) im1 j t xj x(2)])
      case 1
      then show ?case using h(4) by simp
    next
      case (2 s')
      have sk: "samek (kern s) (kern s')" using samek_trans [OF h(3)] 2(5) by simp
      have sk1: "samek (kern ?s) (kern s')" using 2(5) by simp
      have u': "unlock (kproc s' i) = unlock (kproc ?s i)" if "i < NPROC" for i
        using samek_proc [OF sk1] sys_memD(2) [OF sm1(1)] that by (simp add: kproc_def)
      have "p_state (kproc s' p) = RUNNING" "p_pagetable (kproc s' p) = Some pt"
        using unlock_fields(1,6) [OF u' [OF p(1)]] unlock_fields(1,6) [OF u [OF p(1)]] p(2) im by (simp_all add: image_def)
      then have sm': "sys_mem kend t K s' free"
        by (intro state_keeps_mem [OF sm1(1) 2(2), of p]) (use u' in simp_all)
      have "wait_fails s p addr" unfolding wait_fails_def ptp using 2(8,9) h(2) j(1) by auto
      moreover have "running (kern s')" unfolding runs_running using runs_samek [OF runsk] 2(4) sk1 by simp
      ultimately show ?thesis
        by (intro error [of s', OF run [OF 2(1)] sm']) (use 2 sk sm1(2) calm_trans [OF cs 2(10)] in simp_all)
    next
      case (3 s' free')
      note cl = cleared_mem [OF sm1(1) 3(2,5) j(1)]
      have pid: "p_pid (kproc ?s j) = p_pid (kproc s j)" "p_xstate (kproc ?s j) = p_xstate (kproc s j)" using unlock_fields [OF u [OF j(1)]] by simp_all
      have "runs (upd_proc j cleared k)"
        by (rule runs_upd [OF runsk j(1)]) (use c j(2) samek_fields(5) [OF h(3)] h(2) unlock_fields(1) [OF u [OF j(1)]] in \<open>auto simp: zombie_child_def kproc_def live_def\<close>)
      then have "running (kern s')" unfolding runs_running using runs_samek 3(4,5) by simp
      moreover have "c_proc (kern s') = Some p" using samek_fields(5) [OF 3(5)] samek_fields(5) [OF h(3)] c by simp
      moreover have "proc_pages ?s j = proc_pages s j" using ukeep_mem(3) [OF sm samek_ukeep [OF h(3)] j(1)] .
      moreover have "\<not> wait_fails s p addr" unfolding wait_fails_def ptp using 3(11) h(2) j(1) by auto
      ultimately show ?thesis
        by (intro reaped [of j s' free', OF run [OF 3(1), unfolded pid] j(1) h(2) cl(1)]) (use 3 cl sm1(2) u pid calm_trans [OF cs 3(10)] unlock_fields(9) [OF u [OF j(1)]] in simp_all)
    qed
  next
    fix k assume h: "\<forall>j \<in> set [0..<NPROC]. \<not> zombie_child s p j" "samek (kern s) k" "locks {WaitLock} {} k"
      "wait_scan kend xaddr addr p [0..<NPROC] False s =
        Some (Ok ((None, False \<or> (\<exists>j \<in> set [0..<NPROC]. p_parent (kproc s j) = Some p)), s\<lparr>kern := k\<rparr>))"
    have nz: "\<forall>j < NPROC. \<not> zombie_child s p j" using h(1) all(2) by blast
    have runsk: "runs k" by (rule runs_samek [OF _ h(2)]) (use rr in simp)
    have failed: thesis if f: "samek (kern s) k1" "locks {WaitLock} {} k1" "wait_fails s p addr"
        "\<And>k2. release_lk WaitLock k1 = Ok k2 \<Longrightarrow> wait_turn kend xaddr addr s = Some (Ok (Some (-1), s\<lparr>kern := k2\<rparr>))" for k1
    proof -
      obtain k2 where k2: "release_lk WaitLock k1 = Ok k2" "locks ({WaitLock} - {WaitLock}) {} k2" "samek k1 k2"
        by (rule locks_release_lk [OF f(2) singletonI])
      have sk: "samek (kern s) k2" by (rule samek_trans [OF f(1) k2(3)])
      have "running k2" unfolding runs_running using runs_samek [OF _ sk] rr k2(2) by simp
      then show thesis
        by (intro error [of "s\<lparr>kern := k2\<rparr>", OF f(4) [OF k2(1)]]) (use samek_mem [OF sm sk] sk f(3) ukeep_mem(3) [OF sm samek_ukeep [OF sk]] in \<open>simp_all add: calm_def same_on_def\<close>)
    qed
    show thesis
    proof (cases "\<exists>j < NPROC. p_parent (kproc s j) = Some p")
      case False
      have "wait_turn kend xaddr addr s = Some (bind_res (on_kern (release_lk WaitLock) (s\<lparr>kern := k\<rparr>)) (\<lambda>s. Ok (Some (-1), s)))"
        using c h(4) False by (auto simp: wait_turn_def)
      then show thesis
        by (intro failed [OF h(2,3)]) (use False nz in \<open>auto simp: wait_fails_def on_kern_def\<close>)
    next
      case True
      obtain k1 where k1: "killed p k = Ok (p_killed (procs k ! p), k1)" "locks {WaitLock} {} k1" "samek k k1"
        by (rule killed_ok [OF h(3) p(1)]) simp
      have sk1: "samek (kern s) k1" by (rule samek_trans [OF h(2) k1(3)])
      have kl: "p_killed (procs k ! p) = p_killed (kproc s p)"
        using unlock_fields(13) [OF samek_proc [OF h(2)], of p] p(1) len by (simp add: kproc_def)
      have e: "wait_turn kend xaddr addr s =
          (if p_killed (kproc s p) \<noteq> 0 then Some (bind_res (on_kern (release_lk WaitLock) (s\<lparr>kern := k1\<rparr>)) (\<lambda>s. Ok (Some (-1), s)))
           else Some (bind_res (on_kern (sleep (ChProc p) WaitLock) (s\<lparr>kern := k1\<rparr>)) (\<lambda>s. Ok (None, s))))"
        using c h(4) True k1(1) kl by (auto simp: wait_turn_def)
      show thesis
      proof (cases "p_killed (kproc s p) = 0")
        case False
        show thesis
          by (rule failed [OF sk1 k1(2)]) (use False e nz in \<open>auto simp: wait_fails_def on_kern_def\<close>)
      next
        case kz: True
        have rw: "running_with WaitLock k1" unfolding runs_running_with using runs_samek [OF _ sk1] rr k1(2) by simp
        have c1: "c_proc k1 = Some p" using samek_fields(5) [OF sk1] c by simp
        obtain k2 k' where k2: "sleep (ChProc p) WaitLock k1 = Ok k2" "dequeue_return p k2 = Ok k'" "at_scheduler k'"
            "p_state (procs k' ! p) = SLEEPING" "p_chan (procs k' ! p) = ChProc p"
          using sleep_ok [OF rw c1, of "ChProc p"] by (auto simp: bind_res_Ok_iff)
        have "ukeep k1 k2"
          by (rule sleep_keeps [OF k2(1)]) (use runs_state [of k1] rw in \<open>auto simp: runs_running_with live_def\<close>)
        then have uk: "ukeep (kern s) k'"
          using samek_ukeep [OF sk1] dequeue_return_keeps [OF k2(2)] ukeep_trans by meson
        have nf: "\<not> wait_fails s p addr" using kz True nz by (auto simp: wait_fails_def)
        show thesis
          by (rule asleep [of "s\<lparr>kern := k2\<rparr>" k']) (use nf e kz k2 uk ukeep_mem [OF sm uk] True nz in \<open>simp_all add: on_kern_def\<close>)
      qed
    qed
  qed
qed

end
