(* ===== verification/Proc_Exit.thy ===== *)
theory Proc_Exit
  imports Proc_Life
begin

text \<open>
  \<^verbatim>\<open>exit\<close>: the files of the process are closed, the pages of pipes that nobody has open any more go
  back to the allocator, the children get a new parent, and the process is a zombie.
\<close>

section \<open>The scheduling part\<close>

lemma wakeup_running:
  assumes "running_with l k"
  obtains k' where "wakeup ch k = Ok k'" "running_with l k'" "ukeep k k'" "c_proc k' = c_proc k"
proof -
  have k: "kinv k" "resumable k" using assms by (auto simp: running_with_def)
  obtain k' where k': "wakeup ch k = Ok k'" "kinv k'" "c_proc k' = c_proc k" "noff (hart k') = noff (hart k)" "klocks k' = klocks k"
    and st: "\<And>j. p_state (procs k' ! j) = (if j < NPROC \<and> Some j \<noteq> c_proc k \<and> p_state (procs k ! j) = SLEEPING \<and>
        p_chan (procs k ! j) = ch then RUNNABLE else p_state (procs k ! j))"
      "\<And>j. p_resume (procs k' ! j) = p_resume (procs k ! j)"
    using wakeup_ok [OF k(1), of ch] by blast
  have "resumable k'" using k(2) by (simp add: resumable_def st)
  then have "running_with l k'" using assms k' by (simp add: running_with_def)
  then show ?thesis using that k' wakeup_keeps [OF k'(1)] by blast
qed

text \<open>A change of a process that the scheduler does not see.\<close>

lemma running_with_upd:
  assumes "running_with l k" "\<And>p. p_state (f p) = p_state p" "\<And>p. p_lock (f p) = p_lock p" "\<And>p. p_resume (f p) = p_resume p"
  shows "running_with l (upd_proc j f k)"
proof -
  have "runs k" "locks {l} {} k" using assms(1) by (simp_all add: runs_running_with)
  have e: "p_state (procs (upd_proc j f k) ! i) = p_state (procs k ! i)" "p_resume (procs (upd_proc j f k) ! i) = p_resume (procs k ! i)" for i
    by (simp_all add: upd_proc_nth assms)
  have "sched_ok k" using \<open>runs k\<close> by (simp add: runs_def)
  then have "sched_ok (upd_proc j f k)" by (rule sched_ok_cong) (simp_all add: e)
  then have "runs (upd_proc j f k)" using \<open>runs k\<close> by (simp add: runs_def resumable_def e)
  then show ?thesis using locks_upd [OF \<open>locks {l} {} k\<close> assms(3)] by (simp add: runs_running_with)
qed

definition adopt :: "nat \<Rightarrow> nat option \<Rightarrow> proc \<Rightarrow> proc" where
  "adopt p ini q = (if p_parent q = Some p then q\<lparr>p_parent := ini\<rparr> else q)"

lemma adopt_adopt: "adopt p ini (adopt p ini q) = adopt p ini q"
  by (simp add: adopt_def)

lemma mask_adopt: "mask p = mask q \<Longrightarrow> mask (adopt i ini p) = mask (adopt i ini q)"
proof -
  assume m: "mask p = mask q"
  have e: "mask (r\<lparr>p_parent := ini\<rparr>) = (mask r)\<lparr>p_parent := ini\<rparr>" for r by (simp add: mask_def)
  show "mask (adopt i ini p) = mask (adopt i ini q)" using m mask_fields(2) [OF m] by (simp add: adopt_def e)
qed

lemma reparent_ok:
  assumes "running_with l k" "set js \<subseteq> {..<NPROC}" "distinct js"
  shows "\<exists>k'. reparent_procs p js k = Ok k' \<and> running_with l k' \<and> c_proc k' = c_proc k \<and> initproc k' = initproc k \<and>
    nextpid k' = nextpid k \<and> length (procs k') = length (procs k) \<and>
    (\<forall>j < NPROC. mask (procs k' ! j) = mask (if j \<in> set js then adopt p (initproc k) (procs k ! j) else procs k ! j))"
  using assms
proof (induction js arbitrary: k)
  case (Cons j js)
  have len: "length (procs k) = NPROC" using Cons.prems(1) by (simp add: runs_running_with runs_def sched_ok_def)
  have j: "j < NPROC" "j \<notin> set js" and js: "set js \<subseteq> {..<NPROC}" "distinct js" using Cons.prems by auto
  show ?case
  proof (cases "p_parent (procs k ! j) = Some p")
    case False
    then have "adopt p (initproc k) (procs k ! j) = procs k ! j" by (simp add: adopt_def)
    then show ?thesis using Cons.IH [OF Cons.prems(1) js] False by (auto split: if_splits)
  next
    case True
    let ?k = "upd_proc j (\<lambda>q. q\<lparr>p_parent := initproc k\<rparr>) k"
    have "running_with l ?k" by (rule running_with_upd [OF Cons.prems(1)]) simp_all
    then obtain k1 where k1: "wakeup (chan_of (initproc k)) ?k = Ok k1" "running_with l k1" "ukeep ?k k1" "c_proc k1 = c_proc ?k"
      by (rule wakeup_running)
    have i1: "initproc k1 = initproc k" "nextpid k1 = nextpid k" "length (procs k1) = length (procs k)" using ukeep_fields [OF k1(3)] by simp_all
    have m1: "mask (procs k1 ! i) = mask (if i = j then adopt p (initproc k) (procs k ! j) else procs k ! i)" if "i < NPROC" for i
      using ukeep_fields(4) [OF k1(3), of i] that j len True by (simp add: upd_proc_nth adopt_def)
    obtain k' where k': "reparent_procs p js k1 = Ok k'" "running_with l k'" "c_proc k' = c_proc k1" "initproc k' = initproc k1"
        "nextpid k' = nextpid k1" "length (procs k') = length (procs k1)"
        "\<forall>i < NPROC. mask (procs k' ! i) = mask (if i \<in> set js then adopt p (initproc k1) (procs k1 ! i) else procs k1 ! i)"
      using Cons.IH [OF k1(2) js] by blast
    have "mask (procs k' ! i) = mask (if i \<in> set (j # js) then adopt p (initproc k) (procs k ! i) else procs k ! i)" if "i < NPROC" for i
      using k'(7) that m1 [OF that] mask_adopt [OF m1 [OF that], of p "initproc k"] j(2) i1(1) by (auto split: if_splits)
    moreover have "reparent_procs p (j # js) k = Ok k'" using True k1(1) k'(1) by simp
    ultimately show ?thesis using k' k1(4) i1 by auto
  qed
qed simp

lemma become_zombie_ok:
  assumes r: "running k" and c: "c_proc k = Some p"
  obtains k1 k' where "become_zombie p status k = Ok k1" "dequeue_return p k1 = Ok k'" "at_scheduler k'" "initproc k' = initproc k"
    "nextpid k' = nextpid k" "length (procs k') = length (procs k)"
    "\<forall>j < NPROC. j \<noteq> p \<longrightarrow> mask (procs k' ! j) = mask (adopt p (initproc k) (procs k ! j))"
    "mask (procs k' ! p) = mask ((adopt p (initproc k) (procs k ! p))\<lparr>p_xstate := status, p_state := ZOMBIE\<rparr>)"
proof -
  have rr: "runs k" "locks {} {} k" using r by (simp_all add: runs_running)
  have len: "length (procs k) = NPROC" using rr(2) by (simp add: locks_def)
  have p: "p < NPROC" using runs_state [OF rr(1) c] by simp
  obtain k1 where k1: "acquire_lk WaitLock k = Ok k1" "locks {WaitLock} {} k1" "samek k k1"
    by (rule locks_acquire_lk [OF rr(2)]) simp
  have rw1: "running_with WaitLock k1" unfolding runs_running_with using runs_samek [OF rr(1) k1(3)] k1(2) by simp
  note f1 = samek_fields [OF k1(3)]
  have m1: "mask (procs k1 ! j) = mask (procs k ! j)" if "j < NPROC" for j using unlock_mask [OF samek_proc [OF k1(3)]] that len by simp
  obtain k2 where k2: "reparent_procs p [0..<NPROC] k1 = Ok k2" "running_with WaitLock k2" "c_proc k2 = c_proc k1" "initproc k2 = initproc k1"
      "nextpid k2 = nextpid k1" "length (procs k2) = length (procs k1)"
      "\<forall>j < NPROC. mask (procs k2 ! j) = mask (if j \<in> set [0..<NPROC] then adopt p (initproc k1) (procs k1 ! j) else procs k1 ! j)"
    using reparent_ok [OF rw1, of "[0..<NPROC]" p] by (auto simp: atLeast0LessThan)
  obtain k3 where k3: "wakeup (chan_of (p_parent (procs k2 ! p))) k2 = Ok k3" "running_with WaitLock k3" "ukeep k2 k3" "c_proc k3 = c_proc k2"
    by (rule wakeup_running [OF k2(2)])
  note f3 = ukeep_fields [OF k3(3)]
  have m3: "mask (procs k3 ! j) = mask (adopt p (initproc k) (procs k ! j))" if "j < NPROC" for j
    using f3(4) [of j] k2(6,7) that len f1 mask_adopt [OF m1 [OF that], of p "initproc k"] by simp
  have rr3: "runs k3" "locks {WaitLock} {} k3" using k3(2) by (simp_all add: runs_running_with)
  have c3: "c_proc k3 = Some p" using k3(4) k2(3) f1(5) c by simp
  obtain k4 where k4: "acquire_p p k3 = Ok k4" "locks {WaitLock} (insert p {}) k4" "samek k3 k4"
    by (rule locks_acquire_p [OF rr3(2) p]) simp
  let ?f = "\<lambda>q. q\<lparr>p_xstate := status, p_state := ZOMBIE\<rparr>"
  have l5: "locks {WaitLock} {p} (upd_proc p ?f k4)" by (rule locks_upd [OF k4(2)]) simp
  obtain k5 where k5: "release_lk WaitLock (upd_proc p ?f k4) = Ok k5" "locks ({WaitLock} - {WaitLock}) {p} k5" "samek (upd_proc p ?f k4) k5"
    by (rule locks_release_lk [OF l5 singletonI])
  have l5': "locks {} {p} k5" using k5(2) by simp
  have len3: "length (procs k3) = NPROC" "length (procs k4) = NPROC" using rr3(2) k4(2) by (simp_all add: locks_def)
  have runs4: "runs k4" by (rule runs_samek [OF rr3(1) k4(3)])
  have st5: "p_state (procs k5 ! j) = (if j = p then ZOMBIE else p_state (procs k4 ! j))" "p_resume (procs k5 ! j) = p_resume (procs k4 ! j)" if "j < NPROC" for j
    using unlock_fields(1,8) [OF samek_proc [OF k5(3)], of j] that p len3 by (simp_all add: upd_proc_nth)
  have c4: "c_proc k4 = Some p" "c_proc k5 = Some p" using samek_fields(5) [OF k4(3)] samek_fields(5) [OF k5(3)] c3 by simp_all
  have s5: "sched_ok k5"
    by (rule samek_sched_ok [OF k5(3) samex_sched_ok [OF upd_samex]])
      (use runs4 runs_state [OF runs4 c4(1)] p len3 in \<open>auto simp: runs_def upd_proc_nth\<close>)
  note a5 = l5' [unfolded locks_def]
  have h5: "noff (hart k5) = 1" "\<not> intr (hart k5)" using a5 by (auto simp: hart_ok_def)
  obtain k' where k': "bind_res (sched (\<lambda>_. Nowhere) k5) (dequeue_return p) = Ok k'" "kinv k'" "c_proc k' = None" "noff (hart k') = 0"
      "klocks k' = klocks k5" "\<And>j. p_state (procs k' ! j) = p_state (procs k5 ! j)"
      "\<And>j. p_resume (procs k' ! j) = (if j = p then Nowhere else p_resume (procs k5 ! j))"
    using switch_out [OF s5 p c4(2) _ h5, of "\<lambda>_. Nowhere"] a5 p st5 runs4 c4(1) by (auto simp: runs_def)
  obtain k6 where k6: "sched (\<lambda>_. Nowhere) k5 = Ok k6" "dequeue_return p k6 = Ok k'" using k'(1) by (auto simp: bind_res_Ok_iff)
  have "resumable k'" unfolding resumable_def
  proof (intro allI impI)
    fix j assume j: "j < NPROC" "p_state (procs k' ! j) \<in> {RUNNABLE, SLEEPING}"
    then have "j \<noteq> p" using st5(1) [OF p] k'(6) by auto
    then show "p_resume (procs k' ! j) \<noteq> Nowhere" using j k'(6,7) st5 [OF j(1)] runs4 by (auto simp: runs_def resumable_def)
  qed
  moreover have "no_locks k'" using k'(5) a5 by (simp add: no_locks_def)
  ultimately have at: "at_scheduler k'" using k' by (simp add: at_scheduler_def)
  have run: "become_zombie p status k = Ok k6"
    using k1(1) k2(1) k3(1) k4(1) k5(1) k6(1) by (simp add: become_zombie_def reparent_def Let_def)
  have uk: "ukeep k5 k'" by (rule ukeep_trans [OF sched_keeps(1) [OF k6(1)] dequeue_return_keeps [OF k6(2)]])
  note f' = ukeep_fields [OF uk] and g5 = samek_fields [OF k5(3)] and g4 = samek_fields [OF k4(3)]
  have m': "mask (procs k' ! j) = mask (if j = p then ?f (procs k4 ! p) else procs k4 ! j)" if "j < NPROC" for j
    using f'(4) [of j] unlock_mask [OF samek_proc [OF k5(3)], of j] that p len3 g5(6) by (simp add: upd_proc_nth)
  have m4: "mask (procs k4 ! j) = mask (adopt p (initproc k) (procs k ! j))" if "j < NPROC" for j
    using unlock_mask [OF samek_proc [OF k4(3)], of j] m3 [OF that] that len3 by simp
  have zm: "mask (?f q) = mask (?f q')" if "mask q = mask q'" for q q' using that by (cases q; cases q') (simp add: mask_def live_def)
  show ?thesis
  proof (rule that [OF run k6(2) at])
    show "\<forall>j < NPROC. j \<noteq> p \<longrightarrow> mask (procs k' ! j) = mask (adopt p (initproc k) (procs k ! j))" using m' m4 by simp
    show "mask (procs k' ! p) = mask (?f (adopt p (initproc k) (procs k ! p)))" using m' [OF p] zm [OF m4 [OF p]] by simp
  qed (use f' g5 g4 f3 k2 f1 in simp_all)
qed

section \<open>Pipes and their pages\<close>

text \<open>
  Entry \<open>f\<close> of the file table is the end of the pipe in page \<open>q\<close>, the write end if \<open>w\<close>; and the mark in
  the pipe that says that this end is open. The pages \<open>K\<close> outside the processes and the free list are those
  of the pipes with an entry; each end has at most one entry, and has one when it is marked open.
\<close>

definition pipe_end :: "kio \<Rightarrow> nat \<Rightarrow> nat \<Rightarrow> bool \<Rightarrow> bool" where
  "pipe_end io f q w \<longleftrightarrow> f < length (ftable io) \<and> f_type (ftable io ! f) = FD_PIPE \<and>
     f_pipe (ftable io ! f) = q \<and> f_writable (ftable io ! f) = w"

definition end_open :: "kio \<Rightarrow> nat \<Rightarrow> bool \<Rightarrow> bool" where
  "end_open io q w \<longleftrightarrow> (if w then writeopen (pipes io q) else readopen (pipes io q))"

definition pipe_pages :: "kio \<Rightarrow> nat set" where
  "pipe_pages io = {q. \<exists>f w. pipe_end io f q w}"

definition pipe_ok :: "nat set \<Rightarrow> kio \<Rightarrow> bool" where
  "pipe_ok K io \<longleftrightarrow> K = pipe_pages io \<and>
     (\<forall>q \<in> K. \<forall>w. end_open io q w \<longleftrightarrow> (\<exists>f. pipe_end io f q w)) \<and>
     (\<forall>f g q w. pipe_end io f q w \<and> pipe_end io g q w \<longrightarrow> f = g)"

lemma pipe_okD:
  assumes "pipe_ok K io"
  shows "K = pipe_pages io" "pipe_end io f q w \<Longrightarrow> q \<in> K" "pipe_end io f q w \<Longrightarrow> end_open io q w"
    "q \<in> K \<Longrightarrow> end_open io q w \<Longrightarrow> \<exists>f. pipe_end io f q w" "pipe_end io f q w \<Longrightarrow> pipe_end io g q w \<Longrightarrow> f = g"
  using assms unfolding pipe_ok_def pipe_pages_def by blast+

lemma pipe_ok_cong:
  assumes "pipes io' = pipes io" "map (\<lambda>f. (f_type f, f_pipe f, f_writable f)) (ftable io') = map (\<lambda>f. (f_type f, f_pipe f, f_writable f)) (ftable io)"
  shows "pipe_ok K io' = pipe_ok K io" "pipe_pages io' = pipe_pages io"
proof -
  have l: "length (ftable io') = length (ftable io)" using map_eq_imp_length_eq [OF assms(2)] .
  have "(f_type (ftable io' ! f), f_pipe (ftable io' ! f), f_writable (ftable io' ! f)) =
      (f_type (ftable io ! f), f_pipe (ftable io ! f), f_writable (ftable io ! f))" if "f < length (ftable io)" for f
    using arg_cong [OF assms(2), of "\<lambda>xs. xs ! f"] that l by simp
  then have e: "pipe_end io' = pipe_end io" by (auto simp: pipe_end_def fun_eq_iff l)
  have o: "end_open io' = end_open io" by (simp add: end_open_def assms(1) fun_eq_iff)
  show "pipe_ok K io' = pipe_ok K io" "pipe_pages io' = pipe_pages io" unfolding pipe_ok_def pipe_pages_def e o by (rule refl)+
qed

lemma in_fs_parts:
  assumes "bind_res (in_fs op1 k) (\<lambda>k. bind_res (in_fs op2 k) (in_fs op3)) = Ok k'"
  shows "ftable k' = ftable k \<and> pipes k' = pipes k \<and> File.freed k' = File.freed k"
  using assms by (auto simp: in_fs_def bind_res_Ok_iff)

lemma fileclose_parts:
  assumes "fileclose pid f io = Ok io'" "f < length (ftable io)" "File.freed io = []"
  shows "length (ftable io') = length (ftable io)"
    "if f_ref (ftable io ! f) \<noteq> 1 then ftable io' = (ftable io)[f := (ftable io ! f)\<lparr>f_ref := f_ref (ftable io ! f) - 1\<rparr>] \<and>
        pipes io' = pipes io \<and> File.freed io' = []
     else ftable io' = (ftable io)[f := (ftable io ! f)\<lparr>f_ref := 0, f_type := FD_NONE\<rparr>] \<and>
       (if f_type (ftable io ! f) = FD_PIPE then
          let p = f_pipe (ftable io ! f); (gone, pi) = pipeclose (f_writable (ftable io ! f)) (pipes io p)
          in pipes io' = (pipes io)(p := pi) \<and> File.freed io' = (if gone then [p] else [])
        else pipes io' = pipes io \<and> File.freed io' = [])"
proof -
  let ?x = "ftable io ! f"
  let ?k1 = "upd_file f (\<lambda>x. x\<lparr>f_ref := f_ref x - 1\<rparr>) io"
  let ?k2 = "upd_file f (\<lambda>x. x\<lparr>f_ref := 0, f_type := FD_NONE\<rparr>) ?k1"
  have x1: "ftable ?k1 ! f = ?x\<lparr>f_ref := f_ref ?x - 1\<rparr>" using assms(2) by (simp add: upd_file_def)
  have t2: "ftable ?k2 = (ftable io)[f := ?x\<lparr>f_ref := 0, f_type := FD_NONE\<rparr>]" "pipes ?k2 = pipes io" "File.freed ?k2 = []"
    using assms(2,3) by (simp_all add: upd_file_def)
  have r: "\<not> f_ref ?x < 1" using assms(1) by (auto simp: fileclose_def split: if_splits)
  have "length (ftable io') = length (ftable io) \<and>
    (if f_ref ?x \<noteq> 1 then ftable io' = (ftable io)[f := ?x\<lparr>f_ref := f_ref ?x - 1\<rparr>] \<and> pipes io' = pipes io \<and> File.freed io' = []
     else ftable io' = (ftable io)[f := ?x\<lparr>f_ref := 0, f_type := FD_NONE\<rparr>] \<and>
       (if f_type ?x = FD_PIPE then
          let p = f_pipe ?x; (gone, pi) = pipeclose (f_writable ?x) (pipes io p)
          in pipes io' = (pipes io)(p := pi) \<and> File.freed io' = (if gone then [p] else [])
        else pipes io' = pipes io \<and> File.freed io' = []))"
  proof (cases "f_ref ?x = 1")
    case False
    then have "0 < f_ref (ftable ?k1 ! f)" using r x1 by simp
    then have "io' = ?k1" using assms(1) r by (simp add: fileclose_def Let_def)
    then show ?thesis using False assms(3) by (simp add: upd_file_def)
  next
    case True
    have c: "fileclose pid f io = (case f_type ?x of FD_PIPE \<Rightarrow> Ok (close_pipe (f_pipe ?x) (f_writable ?x) ?k2) | FD_NONE \<Rightarrow> Ok ?k2
        | _ \<Rightarrow> bind_res (in_fs f_begin_op ?k2) (\<lambda>k. bind_res (in_fs (iput pid (f_ip ?x)) k) (in_fs (f_end_op pid))))"
      using True x1 by (cases "f_type ?x") (simp_all add: fileclose_def Let_def)
    show ?thesis
    proof (cases "f_type ?x = FD_PIPE")
      case p: True
      then have "io' = close_pipe (f_pipe ?x) (f_writable ?x) ?k2" using assms(1) c by simp
      then show ?thesis using True p t2 by (simp add: close_pipe_def Let_def split: prod.splits)
    next
      case np: False
      have "ftable io' = ftable ?k2 \<and> pipes io' = pipes ?k2 \<and> File.freed io' = File.freed ?k2"
        using assms(1) c np in_fs_parts [of f_begin_op ?k2 "iput pid (f_ip ?x)" "f_end_op pid" io'] by (cases "f_type ?x") simp_all
      then show ?thesis using True np t2 by simp
    qed
  qed
  then show "length (ftable io') = length (ftable io)"
    "if f_ref ?x \<noteq> 1 then ftable io' = (ftable io)[f := ?x\<lparr>f_ref := f_ref ?x - 1\<rparr>] \<and> pipes io' = pipes io \<and> File.freed io' = []
     else ftable io' = (ftable io)[f := ?x\<lparr>f_ref := 0, f_type := FD_NONE\<rparr>] \<and>
       (if f_type ?x = FD_PIPE then
          let p = f_pipe ?x; (gone, pi) = pipeclose (f_writable ?x) (pipes io p)
          in pipes io' = (pipes io)(p := pi) \<and> File.freed io' = (if gone then [p] else [])
        else pipes io' = pipes io \<and> File.freed io' = [])" by blast+
qed

lemma fileclose_pipe_ok:
  assumes pk: "pipe_ok K io" and c: "fileclose pid f io = Ok io'" "f < length (ftable io)" "File.freed io = []"
  shows "pipe_ok (K - set (File.freed io')) io'" "set (File.freed io') \<subseteq> K" "length (File.freed io') \<le> 1"
    "length (ftable io') = length (ftable io)"
proof -
  let ?x = "ftable io ! f" and ?h = "\<lambda>f. (f_type f, f_pipe f, f_writable f)"
  note fp = fileclose_parts [OF c]
  show "length (ftable io') = length (ftable io)" by (rule fp(1))
  have "pipe_ok (K - set (File.freed io')) io' \<and> set (File.freed io') \<subseteq> K \<and> length (File.freed io') \<le> 1"
  proof (cases "f_ref ?x = 1")
    case False
    then have e: "ftable io' = (ftable io)[f := ?x\<lparr>f_ref := f_ref ?x - 1\<rparr>]" "pipes io' = pipes io" "File.freed io' = []" using fp(2) by simp_all
    have "map ?h (ftable io') = map ?h (ftable io)" using e(1) c(2) by (simp add: map_update list_update_same_conv)
    then show ?thesis using pipe_ok_cong [OF e(2)] pk e(3) by simp
  next
    case True
    then have e: "ftable io' = (ftable io)[f := ?x\<lparr>f_ref := 0, f_type := FD_NONE\<rparr>]" using fp(2) by simp
    have nth: "ftable io' ! g = (if g = f then ?x\<lparr>f_ref := 0, f_type := FD_NONE\<rparr> else ftable io ! g)" for g
      using e c(2) by (simp add: nth_list_update_if)
    have pe: "pipe_end io' g q w \<longleftrightarrow> g \<noteq> f \<and> pipe_end io g q w" for g q w
      by (auto simp: pipe_end_def nth fp(1))
    show ?thesis
    proof (cases "f_type ?x = FD_PIPE")
      case False
      then have io: "pipes io' = pipes io" "File.freed io' = []" using fp(2) True by simp_all
      have "\<not> pipe_end io f q w" for q w using False by (simp add: pipe_end_def)
      then have "pipe_end io' = pipe_end io" unfolding fun_eq_iff pe by metis
      moreover have "end_open io' = end_open io" by (simp add: end_open_def io fun_eq_iff)
      ultimately show ?thesis using pk io(2) by (simp add: pipe_ok_def pipe_pages_def)
    next
      case p: True
      define q w where "q = f_pipe ?x" and "w = f_writable ?x"
      obtain gone pi where g: "pipeclose w (pipes io q) = (gone, pi)" by fastforce
      have pp: "pipes io' = (pipes io)(q := pi)" "File.freed io' = (if gone then [q] else [])"
        using fp(2) True p g by (simp_all add: q_def w_def Let_def)
      note D = pipe_okD [OF pk]
      have f: "pipe_end io f q w" using c(2) p by (simp add: pipe_end_def q_def w_def)
      have op: "end_open io' q' w' \<longleftrightarrow> end_open io q' w' \<and> (q' = q \<longrightarrow> w' \<noteq> w)" for q' w'
        using g by (auto simp: end_open_def pp(1) pipeclose_def Let_def split: if_splits)
      have gone: "gone \<longleftrightarrow> \<not> end_open io q (\<not> w)"
        using g by (auto simp: end_open_def pipeclose_def Let_def split: if_splits)
      have other: "(\<exists>g. pipe_end io' g q' w') \<longleftrightarrow> (\<exists>g. pipe_end io g q' w') \<and> (q' = q \<longrightarrow> w' \<noteq> w)" for q' w'
      proof -
        have "g = f \<longleftrightarrow> q' = q \<and> w' = w" if "pipe_end io g q' w'" for g
          using that f D(5) [of f q w g] by (auto simp: pipe_end_def)
        then show ?thesis unfolding pe by blast
      qed
      have K: "pipe_pages io' = K - set (File.freed io')"
      proof (rule set_eqI)
        fix q'
        show "q' \<in> pipe_pages io' \<longleftrightarrow> q' \<in> K - set (File.freed io')"
        proof (cases "q' = q")
          case False
          have "q' \<in> pipe_pages x \<longleftrightarrow> (\<exists>w. \<exists>g. pipe_end x g q' w)" for x unfolding pipe_pages_def by blast
          then show ?thesis using other [of q'] False D(1) pp(2) by simp
        next
          case True
          have "q \<in> pipe_pages io' \<longleftrightarrow> (\<exists>w. \<exists>g. pipe_end io' g q w)" unfolding pipe_pages_def by blast
          also have "\<dots> \<longleftrightarrow> (\<exists>g. pipe_end io g q (\<not> w))" unfolding other by (cases w) auto
          also have "\<dots> \<longleftrightarrow> end_open io q (\<not> w)" using D(3) [of _ q "\<not> w"] D(4) [OF D(2) [OF f], of "\<not> w"] by blast
          finally show ?thesis using True gone pp(2) D(2) [OF f] by simp
        qed
      qed
      have "pipe_ok (K - set (File.freed io')) io'"
        unfolding pipe_ok_def K [symmetric]
      proof (intro conjI ballI allI impI)
        fix q' w' assume "q' \<in> pipe_pages io'"
        then have "q' \<in> K" using K by simp
        then have "end_open io q' w' \<longleftrightarrow> (\<exists>g. pipe_end io g q' w')" using D(3,4) by blast
        then show "end_open io' q' w' \<longleftrightarrow> (\<exists>g. pipe_end io' g q' w')" unfolding op other by simp
      next
        fix g h q' w' assume "pipe_end io' g q' w' \<and> pipe_end io' h q' w'"
        then show "g = h" using D(5) unfolding pe by blast
      qed (rule refl)
      then show ?thesis using D(2) [OF f] pp(2) by auto
    qed
  qed
  then show "pipe_ok (K - set (File.freed io')) io'" "set (File.freed io') \<subseteq> K" "length (File.freed io') \<le> 1" by auto
qed

section \<open>Giving pages back\<close>

lemma own_release:
  assumes o: "own kend t K s free" and q: "q \<in> K"
  obtains m where "kfree kend q (kmm s) = Ok m" "own kend t (K - {q}) (set_mem s m) (q # free)"
    "pages (K - {q}) (set_mem s m) (q # free) = pages K s free" "frame {q} (kmemory (kmm s)) (kmemory m)"
    "\<And>j. j < NPROC \<Longrightarrow> same_on (proc_pages s j) (kmemory (kmm s)) (kmemory m)"
proof -
  note a = o [unfolded own_def owned_def]
  have inv: "kmem_inv kend (kmm s) free" and ph: "phys_page kend q" "\<forall>q \<in> K. phys_page kend q" and nf: "q \<notin> set free" "set free \<inter> K = {}" using a q by auto
  obtain m where m: "kfree kend q (kmm s) = Ok m" "kmem_inv kend m (q # free)" "frame {q} (kmemory (kmm s)) (kmemory m)"
    using kfree_page [OF inv ph(1) nf(1)] by (auto simp: frame_def)
  have ok: "image_ok kend t (kmemory (kmm s)) (images s j)" and dj: "pages_of (kmemory (kmm s)) (images s j) \<inter> (set free \<union> K) = {}" if "j < NPROC" for j
    using a that by simp_all
  have same: "same_on (proc_pages s j) (kmemory (kmm s)) (kmemory m)" if "j < NPROC" for j
    unfolding proc_pages_def
    by (rule frame_same [OF m(3), of _ kend]) (use image_phys [OF ok [OF that]] ph(1) dj [OF that] q in auto)
  have pg: "pages_of (kmemory m) (images s j) = pages_of (kmemory (kmm s)) (images s j)" "image_ok kend t (kmemory m) (images s j)" if "j < NPROC" for j
    using image_same [OF same [OF that, unfolded proc_pages_def]] ok [OF that] by auto
  have dd: "pages_of (kmemory m) (images s i) \<inter> pages_of (kmemory m) (images s j) = {}" if "i < NPROC" "j < NPROC" "i \<noteq> j" for i j
    using pg(1) that a by simp
  have "pages_of (kmemory m) (images s j) \<inter> (set (q # free) \<union> (K - {q})) = {}" if "j < NPROC" for j
    using pg(1) [OF that] dj [OF that] q by auto
  then have "owned kend t (K - {q}) (images s) m (q # free)"
    unfolding owned_def using m(2) pg(2) dd ph nf by auto
  then have "own kend t (K - {q}) (set_mem s m) (q # free)" using a by (simp add: own_def)
  moreover have "pages (K - {q}) (set_mem s m) (q # free) = pages K s free"
    using pg(1) q by (auto simp: pages_def all_pages_def)
  ultimately show ?thesis using that m same by blast
qed

lemma close_file_result:
  assumes o: "own kend t K s free" and pk: "pipe_ok K (kfiles s)" and f: "f < length (ftable (kfiles s))"
    and c: "close_file kend pid f s = Ok s'"
  shows "\<exists>K' free'. own kend t K' s' free' \<and> pages K' s' free' = pages K s free \<and> pipe_ok K' (kfiles s') \<and> K' \<subseteq> K \<and> kern s' = kern s \<and>
    ticks s' = ticks s \<and> length (ftable (kfiles s')) = length (ftable (kfiles s)) \<and>
    (\<forall>j < NPROC. same_on (proc_pages s j) (kmemory (kmm s)) (kmemory (kmm s')))"
proof -
  obtain io m where io: "fileclose pid f ((kfiles s)\<lparr>File.freed := []\<rparr>) = Ok io" "kfree_all kend (File.freed io) (kmm s) = Ok m"
      "s' = s\<lparr>kfiles := io\<lparr>File.freed := []\<rparr>, kmm := m\<rparr>"
    using c by (auto simp: close_file_def bind_res_Ok_iff)
  have pk0: "pipe_ok K ((kfiles s)\<lparr>File.freed := []\<rparr>)" using pipe_ok_cong [of "(kfiles s)\<lparr>File.freed := []\<rparr>" "kfiles s"] pk by simp
  note p = fileclose_pipe_ok [OF pk0 io(1)]
  have pk': "pipe_ok (K - set (File.freed io)) (kfiles s')" using p(1) f pipe_ok_cong [of "io\<lparr>File.freed := []\<rparr>" io] io(3) by simp
  have l: "length (ftable (kfiles s')) = length (ftable (kfiles s))" using p(4) f io(3) by simp
  have k: "kern s' = kern s" "ticks s' = ticks s" "kmm s' = m" using io(3) by simp_all
  have kp: "kproc s' = kproc s" by (simp add: fun_eq_iff kproc_def k)
  show ?thesis
  proof (cases "File.freed io")
    case Nil
    then have "m = kmm s" using io(2) by simp
    then have "own kend t K s' free" "pages K s' free = pages K s free" using o k kp by (simp_all add: own_def pages_def)
    then show ?thesis using pk' Nil k l \<open>m = kmm s\<close> by (intro exI [of _ K] exI [of _ free]) (simp add: same_on_def)
  next
    case (Cons q qs)
    then have q: "File.freed io = [q]" "q \<in> K" using p(2,3) f by auto
    obtain m1 where m1: "kfree kend q (kmm s) = Ok m1" "own kend t (K - {q}) (set_mem s m1) (q # free)"
        "pages (K - {q}) (set_mem s m1) (q # free) = pages K s free" "\<forall>j < NPROC. same_on (proc_pages s j) (kmemory (kmm s)) (kmemory m1)"
      using own_release [OF o q(2)] by metis
    have "m = m1" using io(2) q(1) m1(1) by simp
    then have "own kend t (K - {q}) s' (q # free)" "pages (K - {q}) s' (q # free) = pages K s free"
      using m1(2,3) k kp by (simp_all add: own_def pages_def)
    then show ?thesis using pk' q k l m1(4) \<open>m = m1\<close> by (intro exI [of _ "K - {q}"] exI [of _ "q # free"]) auto
  qed
qed

section \<open>The whole of exit\<close>

lemma kfiles_own:
  "own kend t K (s\<lparr>kfiles := io\<rparr>) free = own kend t K s free" "pages K (s\<lparr>kfiles := io\<rparr>) free = pages K s free"
  "proc_pages (s\<lparr>kfiles := io\<rparr>) j = proc_pages s j" "kproc (s\<lparr>kfiles := io\<rparr>) = kproc s"
  by (simp_all add: own_def pages_def proc_pages_def kproc_def fun_eq_iff)

lemma upd_image_own:
  assumes "\<And>q. image (f q) = image q"
  shows "own kend t K (upd_kproc i f s) free = own kend t K s free" "pages K (upd_kproc i f s) free = pages K s free"
    "proc_pages (upd_kproc i f s) j = proc_pages s j"
proof -
  have i: "images (upd_kproc i f s) = images s" by (simp add: kproc_def upd_kproc_def upd_proc_nth assms fun_eq_iff)
  have k: "kmm (upd_kproc i f s) = kmm s" "length (procs (kern (upd_kproc i f s))) = length (procs (kern s))" by (simp_all add: upd_kproc_def)
  show "own kend t K (upd_kproc i f s) free = own kend t K s free" "pages K (upd_kproc i f s) free = pages K s free"
    unfolding own_def pages_def i k by simp_all
  show "proc_pages (upd_kproc i f s) j = proc_pages s j" using fun_cong [OF i, of j] by (simp add: proc_pages_def k)
qed

lemma close_ofiles_result:
  assumes "own kend t K s free" "pipe_ok K (kfiles s)" "p < NPROC" "length (p_ofile (kproc s p)) = NOFILE" "set fds \<subseteq> {..<NOFILE}"
    "\<forall>fd < NOFILE. \<forall>f. p_ofile (kproc s p) ! fd = Some f \<longrightarrow> f < length (ftable (kfiles s))" "close_ofiles kend p fds s = Ok s'"
  shows "\<exists>K' free' fs. own kend t K' s' free' \<and> pages K' s' free' = pages K s free \<and> pipe_ok K' (kfiles s') \<and> K' \<subseteq> K \<and>
    kern s' = upd_proc p (\<lambda>q. q\<lparr>p_ofile := fs\<rparr>) (kern s) \<and> length fs = NOFILE \<and>
    (\<forall>fd < NOFILE. fs ! fd = (if fd \<in> set fds then None else p_ofile (kproc s p) ! fd)) \<and> ticks s' = ticks s \<and>
    (\<forall>j < NPROC. same_on (proc_pages s j) (kmemory (kmm s)) (kmemory (kmm s')))"
  using assms
proof (induction fds arbitrary: s K free)
  case Nil
  have len: "length (procs (kern s)) = NPROC" using Nil.prems(1) by (simp add: own_def)
  have "upd_proc p (\<lambda>q. q\<lparr>p_ofile := p_ofile (kproc s p)\<rparr>) (kern s) = kern s" using Nil.prems(3) len
    by (simp add: upd_proc_def kproc_def)
  then show ?case using Nil.prems by (intro exI [of _ K] exI [of _ free] exI [of _ "p_ofile (kproc s p)"]) (simp add: same_on_def)
next
  case (Cons fd fds)
  have len: "length (procs (kern s)) = NPROC" using Cons.prems(1) by (simp add: own_def)
  have fd: "fd < NOFILE" "set fds \<subseteq> {..<NOFILE}" using Cons.prems(5) by simp_all
  show ?case
  proof (cases "p_ofile (kproc s p) ! fd")
    case None
    have c: "close_ofiles kend p fds s = Ok s'" using Cons.prems(7) None by simp
    obtain K' free' fs where "own kend t K' s' free'" "pages K' s' free' = pages K s free" "pipe_ok K' (kfiles s')" "K' \<subseteq> K"
      "kern s' = upd_proc p (\<lambda>q. q\<lparr>p_ofile := fs\<rparr>) (kern s)" "length fs = NOFILE"
      "\<forall>fd < NOFILE. fs ! fd = (if fd \<in> set fds then None else p_ofile (kproc s p) ! fd)" "ticks s' = ticks s"
      "\<forall>j < NPROC. same_on (proc_pages s j) (kmemory (kmm s)) (kmemory (kmm s'))"
      using Cons.IH [OF Cons.prems(1-4) fd(2) Cons.prems(6) c] by blast
    then show ?thesis using None by (intro exI [of _ K'] exI [of _ free'] exI [of _ fs]) auto
  next
    case (Some f)
    let ?g = "\<lambda>q. q\<lparr>p_ofile := (p_ofile q)[fd := None]\<rparr>"
    obtain s1 where s1: "close_file kend (p_pid (kproc s p)) f s = Ok s1" "close_ofiles kend p fds (upd_kproc p ?g s1) = Ok s'"
      using Cons.prems(7) Some by (auto simp: bind_res_Ok_iff)
    have f: "f < length (ftable (kfiles s))" using Cons.prems(6) fd(1) Some by blast
    obtain K1 free1 where k1: "own kend t K1 s1 free1" "pages K1 s1 free1 = pages K s free" "pipe_ok K1 (kfiles s1)" "K1 \<subseteq> K"
        "kern s1 = kern s" "ticks s1 = ticks s" "length (ftable (kfiles s1)) = length (ftable (kfiles s))"
        "\<forall>j < NPROC. same_on (proc_pages s j) (kmemory (kmm s)) (kmemory (kmm s1))"
      using close_file_result [OF Cons.prems(1,2) f s1(1)] by blast
    let ?s2 = "upd_kproc p ?g s1"
    have kp: "p_ofile (kproc ?s2 p) = (p_ofile (kproc s p))[fd := None]" using Cons.prems(3) len k1(5)
      by (simp add: kproc_def upd_kproc_def upd_proc_nth)
    have im: "image (?g q) = image q" for q by (simp add: image_def)
    note o2 = upd_image_own(1,2) [of ?g, OF im]
    have fs2: "kfiles ?s2 = kfiles s1" "ticks ?s2 = ticks s1" "kmm ?s2 = kmm s1" by (simp_all add: upd_kproc_def)
    have P: "own kend t K1 ?s2 free1" "pipe_ok K1 (kfiles ?s2)" "length (p_ofile (kproc ?s2 p)) = NOFILE"
      using o2(1) k1(1,3) fs2 kp Cons.prems(4) by simp_all
    have Q: "\<forall>fd < NOFILE. \<forall>f. p_ofile (kproc ?s2 p) ! fd = Some f \<longrightarrow> f < length (ftable (kfiles ?s2))"
      unfolding kp fs2 k1(7) using Cons.prems(4,6) fd(1) by (simp add: nth_list_update_if)
    obtain K' free' fs where h: "own kend t K' s' free'" "pages K' s' free' = pages K1 ?s2 free1" "pipe_ok K' (kfiles s')" "K' \<subseteq> K1"
      "kern s' = upd_proc p (\<lambda>q. q\<lparr>p_ofile := fs\<rparr>) (kern ?s2)" "length fs = NOFILE"
      "\<forall>fd < NOFILE. fs ! fd = (if fd \<in> set fds then None else p_ofile (kproc ?s2 p) ! fd)" "ticks s' = ticks ?s2"
      "\<forall>j < NPROC. same_on (proc_pages ?s2 j) (kmemory (kmm ?s2)) (kmemory (kmm s'))"
      using Cons.IH [OF P(1,2) Cons.prems(3) P(3) fd(2) Q s1(2)] by blast
    have kern': "kern s' = upd_proc p (\<lambda>q. q\<lparr>p_ofile := fs\<rparr>) (kern s)" using h(5) k1(5) Cons.prems(3) len
      by (simp add: upd_kproc_def upd_proc_def)
    have pp: "proc_pages ?s2 j = proc_pages s j" if "j < NPROC" for j
      using image_same(1) [of "kmemory (kmm s)" "image (kproc s j)" "kmemory (kmm s1)"] k1(5,8) that
      unfolding upd_image_own(3) [of ?g, OF im] by (simp add: proc_pages_def kproc_def)
    have same: "same_on (proc_pages s j) (kmemory (kmm s)) (kmemory (kmm s'))" if "j < NPROC" for j
      using h(9) that pp [OF that] k1(8) fs2(3) by (simp add: same_on_def)
    have nth: "\<forall>x < NOFILE. fs ! x = (if x \<in> set (fd # fds) then None else p_ofile (kproc s p) ! x)"
      using h(7) kp Cons.prems(4) by (simp add: nth_list_update)
    have "pages K' s' free' = pages K s free" "K' \<subseteq> K" "ticks s' = ticks s" using h(2,4,8) o2(2) k1(2,4,6) fs2 by auto
    then show ?thesis using h(1,3,6) kern' nth same by blast
  qed
qed

lemma leave_cwd_result:
  assumes "leave_cwd p s = Ok s'"
  shows "\<exists>fs. s' = upd_kproc p (\<lambda>q. q\<lparr>p_cwd := None\<rparr>) (s\<lparr>kfiles := (kfiles s)\<lparr>kfs := fs\<rparr>\<rparr>)"
  using assms by (auto simp: leave_cwd_def Let_def bind_res_Ok_iff split: option.splits)

text \<open>
  Given that the file system lets go of the files and of the directory, \<^verbatim>\<open>exit\<close> never fails: the
  process is a zombie with its exit status, its children belong to \<^verbatim>\<open>init\<close>, its memory is untouched
  and stays its own until \<^verbatim>\<open>wait\<close>, and the pages of pipes that were closed are free.
\<close>

lemma exit_result:
  assumes sm: "sys_mem kend t K s free" and r: "running (kern s)" and c: "c_proc (kern s) = Some p" and ni: "initproc (kern s) \<noteq> Some p"
    and pk: "pipe_ok K (kfiles s)" and fo: "files_open s p"
    and cl: "close_ofiles kend p [0..<NOFILE] s = Ok s1" and lv: "leave_cwd p s1 = Ok s2"
  obtains s3 k' K' free' where "exit kend status s = Ok s3" "dequeue_return p (kern s3) = Ok k'" "at_scheduler k'"
    "sys_mem kend t K' (s3\<lparr>kern := k'\<rparr>) free'" "pages K' (s3\<lparr>kern := k'\<rparr>) free' = pages K s free" "pipe_ok K' (kfiles s3)" "K' \<subseteq> K"
    "initproc k' = initproc (kern s)" "nextpid k' = nextpid (kern s)" "kfiles s3 = kfiles s2" "ticks s3 = ticks s"
    "\<forall>j < NPROC. j \<noteq> p \<longrightarrow> mask (procs k' ! j) = mask (adopt p (initproc (kern s)) (kproc s j))"
    "mask (procs k' ! p) = mask ((adopt p (initproc (kern s)) (kproc s p))\<lparr>p_ofile := replicate NOFILE None, p_cwd := None, p_xstate := status, p_state := ZOMBIE\<rparr>)"
    "\<forall>j < NPROC. same_on (proc_pages s j) (kmemory (kmm s)) (kmemory (kmm s3))"
proof -
  note len = sys_memD(2) [OF sm]
  have p: "p < NPROC" using r c by (simp add: running_iff)
  have fl: "length (p_ofile (kproc s p)) = NOFILE" "\<forall>fd < NOFILE. \<forall>f. p_ofile (kproc s p) ! fd = Some f \<longrightarrow> f < length (ftable (kfiles s))"
    using fo by (auto simp: files_open_def)
  have sub: "set [0..<NOFILE] \<subseteq> {..<NOFILE}" by auto
  obtain K' free' fs where h: "own kend t K' s1 free'" "pages K' s1 free' = pages K s free" "pipe_ok K' (kfiles s1)" "K' \<subseteq> K"
      "kern s1 = upd_proc p (\<lambda>q. q\<lparr>p_ofile := fs\<rparr>) (kern s)" "length fs = NOFILE"
      "\<forall>fd < NOFILE. fs ! fd = (if fd \<in> set [0..<NOFILE] then None else p_ofile (kproc s p) ! fd)" "ticks s1 = ticks s"
      "\<forall>j < NPROC. same_on (proc_pages s j) (kmemory (kmm s)) (kmemory (kmm s1))"
    using close_ofiles_result [OF sys_memD(1) [OF sm] pk p fl(1) sub fl(2) cl] by blast
  have fs: "fs = replicate NOFILE None" using h(6,7) by (intro nth_equalityI) auto
  obtain fs2 where s2: "s2 = upd_kproc p (\<lambda>q. q\<lparr>p_cwd := None\<rparr>) (s1\<lparr>kfiles := (kfiles s1)\<lparr>kfs := fs2\<rparr>\<rparr>)" using leave_cwd_result [OF lv] by blast
  let ?g = "\<lambda>q. q\<lparr>p_ofile := replicate NOFILE None, p_cwd := None\<rparr>"
  have k2: "kern s2 = upd_proc p ?g (kern s)" using p len by (simp add: s2 upd_kproc_def h(5) fs upd_proc_def)
  have m2: "kmm s2 = kmm s1" "ticks s2 = ticks s" by (simp_all add: s2 upd_kproc_def h(8))
  have pk2: "pipe_ok K' (kfiles s2)" using pipe_ok_cong [of "(kfiles s1)\<lparr>kfs := fs2\<rparr>" "kfiles s1"] h(3) by (simp add: s2 upd_kproc_def)
  have im: "image (q\<lparr>p_cwd := None\<rparr>) = image q" for q by (simp add: image_def)
  have o2: "own kend t K' s2 free'" "pages K' s2 free' = pages K s free"
    unfolding s2 upd_image_own(1,2) [of "\<lambda>q. q\<lparr>p_cwd := None\<rparr>", OF im] kfiles_own using h(1,2) by simp_all
  have run2: "running (kern s2)"
  proof -
    have "runs (kern s)" "locks {} {} (kern s)" using r by (simp_all add: runs_running)
    moreover have e: "p_state (procs (kern s2) ! i) = p_state (procs (kern s) ! i)" "p_resume (procs (kern s2) ! i) = p_resume (procs (kern s) ! i)" for i
      by (simp_all add: k2 upd_proc_nth)
    moreover have "sched_ok (kern s2)" by (rule sched_ok_cong [of "kern s"]) (use calculation in \<open>simp_all add: runs_def k2 upd_proc_nth\<close>)
    ultimately have "runs (kern s2)" by (simp add: runs_def resumable_def k2)
    moreover have "locks {} {} (kern s2)" unfolding k2 by (rule locks_upd) (use \<open>locks {} {} (kern s)\<close> in simp_all)
    ultimately show ?thesis by (simp add: runs_running)
  qed
  have c2: "c_proc (kern s2) = Some p" "initproc (kern s2) = initproc (kern s)" "nextpid (kern s2) = nextpid (kern s)" using c by (simp_all add: k2)
  obtain k1 k' where k': "become_zombie p status (kern s2) = Ok k1" "dequeue_return p k1 = Ok k'" "at_scheduler k'" "initproc k' = initproc (kern s2)"
    "nextpid k' = nextpid (kern s2)" "length (procs k') = length (procs (kern s2))"
    "\<forall>j < NPROC. j \<noteq> p \<longrightarrow> mask (procs k' ! j) = mask (adopt p (initproc (kern s2)) (procs (kern s2) ! j))"
    "mask (procs k' ! p) = mask ((adopt p (initproc (kern s2)) (procs (kern s2) ! p))\<lparr>p_xstate := status, p_state := ZOMBIE\<rparr>)"
    by (rule become_zombie_ok [OF run2 c2(1)])
  have ex: "exit kend status s = Ok (s2\<lparr>kern := k1\<rparr>)" using c ni cl lv k'(1) by (simp add: exit_def on_kern_def)
  have ad: "adopt p i (q\<lparr>p_ofile := a, p_cwd := b\<rparr>) = (adopt p i q)\<lparr>p_ofile := a, p_cwd := b\<rparr>" for i q a b by (simp add: adopt_def)
  have mo: "mask (procs k' ! j) = mask (adopt p (initproc (kern s)) (kproc s j))" if "j < NPROC" "j \<noteq> p" for j
    using k'(7) that c2(2) by (simp add: k2 upd_proc_nth kproc_def)
  have mp: "mask (procs k' ! p) = mask ((adopt p (initproc (kern s)) (kproc s p))\<lparr>p_ofile := replicate NOFILE None, p_cwd := None, p_xstate := status, p_state := ZOMBIE\<rparr>)"
    using k'(8) c2(2) p len by (simp add: k2 upd_proc_nth kproc_def ad)
  have im': "image (procs k' ! j) = image (kproc s2 j)" if "j < NPROC" for j
  proof (cases "j = p")
    case True
    then show ?thesis using mask_image [OF mp] p len by (simp add: k2 kproc_def upd_proc_nth image_def adopt_def)
  next
    case False
    then show ?thesis using mask_image [OF mo [OF that False]] by (simp add: k2 kproc_def upd_proc_nth image_def adopt_def)
  qed
  note kc = kern_change [OF o2(1) im' k'(6)]
  show ?thesis
  proof (rule that [OF ex])
    show "dequeue_return p (kern (s2\<lparr>kern := k1\<rparr>)) = Ok k'" using k'(2) by simp
    show "pages K' (s2\<lparr>kern := k1\<rparr>\<lparr>kern := k'\<rparr>) free' = pages K s free" using kc(2) o2(2) by simp
    show "sys_mem kend t K' (s2\<lparr>kern := k1\<rparr>\<lparr>kern := k'\<rparr>) free'" unfolding sys_mem_def
    proof (intro conjI allI impI)
      fix j assume j: "j < NPROC"
      have e: "kproc (s2\<lparr>kern := k1\<rparr>\<lparr>kern := k'\<rparr>) j = procs k' ! j" by (simp add: kproc_def)
      have ne: "p_state (kproc s p) \<noteq> UNUSED" using r c by (auto simp: running_iff kproc_def)
      show "if p_state (kproc (s2\<lparr>kern := k1\<rparr>\<lparr>kern := k'\<rparr>) j) = UNUSED then image (kproc (s2\<lparr>kern := k1\<rparr>\<lparr>kern := k'\<rparr>) j) = (None, None, 0)
          else p_pagetable (kproc (s2\<lparr>kern := k1\<rparr>\<lparr>kern := k'\<rparr>) j) \<noteq> None"
      proof (cases "j = p")
        case True
        have "p_state (procs k' ! p) = ZOMBIE" using mask_fields(10) [OF mp] by (simp add: live_def)
        moreover have "p_pagetable (procs k' ! p) = p_pagetable (kproc s p)" using mask_image [OF mp] by (simp add: image_def adopt_def)
        ultimately show ?thesis using sys_memD(4) [OF sm p ne] True unfolding e by (auto simp: image_def)
      next
        case False
        have m: "mask (procs k' ! j) = mask (adopt p (initproc (kern s)) (kproc s j))" by (rule mo [OF j False])
        have "p_state (procs k' ! j) = UNUSED \<longleftrightarrow> p_state (kproc s j) = UNUSED" using mask_fields(9,10) [OF m] by (auto simp: adopt_def live_def split: if_splits)
        moreover have "image (procs k' ! j) = image (kproc s j)" using mask_image [OF m] by (simp add: image_def adopt_def)
        moreover have "p_pagetable (procs k' ! j) = p_pagetable (kproc s j)" using calculation(2) by (simp add: image_def)
        ultimately show ?thesis using sm j unfolding e by (simp add: sys_mem_def)
      qed
    qed (use kc(1) in simp)
    show "\<forall>j < NPROC. same_on (proc_pages s j) (kmemory (kmm s)) (kmemory (kmm (s2\<lparr>kern := k1\<rparr>)))" using h(9) m2(1) by simp
  qed (use k' c2 pk2 h(4) m2 mo mp in simp_all)
qed

end
