(* ===== verification/Proc_Machine.thy ===== *)
theory Proc_Machine
  imports Proc_Exit
begin

text \<open>
  The calls of \<^verbatim>\<open>proc.c\<close> as the steps of one machine, together with the scheduler and with the
  stores that user code makes through its page table. The invariant: every page belongs to one
  process, to the free list or to a pipe; the process table, the queues and the locks are in order;
  and every open file counts the descriptors that refer to it.
\<close>

section \<open>Steps\<close>

datatype sevent =
    Sched kevent
  | Fork
  | Sbrk int
  | Exit int
  | Wait nat
  | WaitOn nat
  | UserStore nat u8

definition switched :: "nat option \<Rightarrow> ksys \<Rightarrow> ksys res" where
  "switched c s = (case c of None \<Rightarrow> Panic ''null process'' | Some p \<Rightarrow> on_kern (dequeue_return p) s)"

text \<open>A user store: to the page the page table gives, or a fault that the kernel answers elsewhere.\<close>

definition user_store :: "nat \<Rightarrow> u8 \<Rightarrow> ksys \<Rightarrow> ksys" where
  "user_store va b s =
     (case c_proc (kern s) of None \<Rightarrow> s
      | Some p \<Rightarrow>
          (case uaddr (kmemory (kmm s)) (adr (p_pagetable (kproc s p))) va of
             None \<Rightarrow> s
           | Some a \<Rightarrow> set_mem s ((kmm s)\<lparr>kmemory := (kmemory (kmm s))(a := b)\<rparr>)))"

definition wait_event :: "nat option \<Rightarrow> (int option \<times> ksys) res option \<Rightarrow> ksys res option" where
  "wait_event c w = bind_ro w (\<lambda>(r, s). case r of Some _ \<Rightarrow> Some (Ok s) | None \<Rightarrow> Some (switched c s))"

fun sexec :: "nat \<Rightarrow> nat \<Rightarrow> (nat \<Rightarrow> nat) \<Rightarrow> sevent \<Rightarrow> ksys \<Rightarrow> ksys res option" where
  "sexec kend t xa (Sched e) s = Some (on_kern (kexec e) s)"
| "sexec kend t xa Fork s = bind_ro (fork kend t s) (\<lambda>(r, s). Some (Ok s))"
| "sexec kend t xa (Sbrk n) s = Some (bind_res (growproc kend n s) (\<lambda>(r, s). Ok s))"
| "sexec kend t xa (Exit st) s = Some (bind_res (exit kend st s) (switched (c_proc (kern s))))"
| "sexec kend t xa (Wait a) s = wait_event (c_proc (kern s)) (wait kend xa a s)"
| "sexec kend t xa (WaitOn a) s = wait_event (c_proc (kern s)) (wait_turn kend xa a s)"
| "sexec kend t xa (UserStore va b) s = Some (Ok (user_store va b s))"

text \<open>
  When each happens: a process calls with no lock held; a process that slept in \<^verbatim>\<open>wait\<close> goes on with
  \<^verbatim>\<open>wait_lock\<close> held again; \<^verbatim>\<open>init\<close> does not exit; \<^verbatim>\<open>sbrk\<close> has an \<^verbatim>\<open>int\<close> argument.
\<close>

definition calls :: "ksys \<Rightarrow> bool" where
  "calls s \<longleftrightarrow> c_proc (kern s) \<noteq> None \<and> noff (hart (kern s)) = 0"

fun slegal :: "sevent \<Rightarrow> ksys \<Rightarrow> bool" where
  "slegal (Sched e) s = legal e (kern s)"
| "slegal Fork s = calls s"
| "slegal (Sbrk n) s = (calls s \<and> - (2 ^ 31) \<le> n \<and> n < 2 ^ 31)"
| "slegal (Exit st) s = (calls s \<and> initproc (kern s) \<noteq> c_proc (kern s))"
| "slegal (Wait a) s = calls s"
| "slegal (WaitOn a) s = (c_proc (kern s) \<noteq> None \<and> klocks (kern s) WaitLock = held)"
| "slegal (UserStore va b) s = calls s"

section \<open>Descriptors and references\<close>

definition fds_of :: "proc \<Rightarrow> nat \<Rightarrow> nat" where
  "fds_of p f = length (filter (\<lambda>fd. p_ofile p ! fd = Some f) [0..<NOFILE])"

definition fd_count :: "ksys \<Rightarrow> nat \<Rightarrow> nat" where
  "fd_count s f = (\<Sum>i < NPROC. fds_of (kproc s i) f)"

definition counted :: "ksys \<Rightarrow> bool" where
  "counted s \<longleftrightarrow> (\<forall>f < length (ftable (kfiles s)). f_ref (ftable (kfiles s) ! f) = int (fd_count s f))"

definition proc_files :: "nat \<Rightarrow> proc \<Rightarrow> bool" where
  "proc_files n p \<longleftrightarrow> length (p_ofile p) = NOFILE \<and> (\<forall>fd < NOFILE. \<forall>f. p_ofile p ! fd = Some f \<longrightarrow> f < n) \<and>
     (if live (p_state p) then p_cwd p \<noteq> None else p_ofile p = replicate NOFILE None)"

definition files_ok :: "ksys \<Rightarrow> bool" where
  "files_ok s \<longleftrightarrow> counted s \<and> (\<forall>i < NPROC. proc_files (length (ftable (kfiles s))) (kproc s i))"

lemma fds_of_pos: "fd < NOFILE \<Longrightarrow> p_ofile p ! fd = Some f \<Longrightarrow> 1 \<le> fds_of p f"
  unfolding fds_of_def by (auto simp: Suc_le_eq filter_empty_conv)

lemma fd_count_pos:
  assumes "i < NPROC" "fd < NOFILE" "p_ofile (kproc s i) ! fd = Some f"
  shows "1 \<le> fd_count s f"
proof -
  have "fds_of (kproc s i) f \<le> fd_count s f" unfolding fd_count_def by (rule member_le_sum) (use assms(1) in auto)
  then show ?thesis using fds_of_pos [OF assms(2,3)] by simp
qed

lemma files_ok_open:
  assumes "files_ok s" "i < NPROC" "live (p_state (kproc s i))"
  shows "files_open s i"
  using assms fd_count_pos [OF assms(2)] by (fastforce simp: files_ok_def counted_def proc_files_def files_open_def)

lemma proc_files_mask: "mask p = mask q \<Longrightarrow> proc_files n p = proc_files n q" "mask p = mask q \<Longrightarrow> fds_of p = fds_of q"
  using mask_fields [of p q] by (simp_all add: proc_files_def fds_of_def fun_eq_iff)

lemma files_ok_cong:
  assumes "files_ok s" "\<And>j. j < NPROC \<Longrightarrow> p_ofile (kproc s' j) = p_ofile (kproc s j) \<and> p_cwd (kproc s' j) = p_cwd (kproc s j) \<and>
      live (p_state (kproc s' j)) = live (p_state (kproc s j))" "kfiles s' = kfiles s"
  shows "files_ok s'"
proof -
  have "fds_of (kproc s' j) = fds_of (kproc s j)" "proc_files n (kproc s' j) = proc_files n (kproc s j)" if "j < NPROC" for j n
    using assms(2) [OF that] by (simp_all add: fds_of_def proc_files_def fun_eq_iff)
  then show ?thesis using assms(1,3) by (simp add: files_ok_def counted_def fd_count_def)
qed

lemma files_ok_mask:
  assumes "files_ok s" "\<And>j. j < NPROC \<Longrightarrow> mask (kproc s' j) = mask (kproc s j)" "kfiles s' = kfiles s"
  shows "files_ok s'"
  by (rule files_ok_cong [OF assms(1) _ assms(3)]) (use mask_fields(6,7,9) [OF assms(2)] in blast)

text \<open>Descriptors of one process change.\<close>

lemma fd_count_change:
  assumes "i < NPROC" "\<And>j. j < NPROC \<Longrightarrow> j \<noteq> i \<Longrightarrow> fds_of (kproc s' j) f = fds_of (kproc s j) f"
  shows "fd_count s' f + fds_of (kproc s i) f = fd_count s f + fds_of (kproc s' i) f"
proof -
  have "fd_count s f = fds_of (kproc s i) f + (\<Sum>j \<in> {..<NPROC} - {i}. fds_of (kproc s j) f)" for s
    unfolding fd_count_def by (rule sum.remove) (use assms(1) in simp_all)
  moreover have "(\<Sum>j \<in> {..<NPROC} - {i}. fds_of (kproc s' j) f) = (\<Sum>j \<in> {..<NPROC} - {i}. fds_of (kproc s j) f)"
    by (rule sum.cong) (use assms(2) in auto)
  ultimately show ?thesis by simp
qed

lemma fds_of_update:
  assumes "fd < NOFILE" "length (p_ofile p) = NOFILE" "p_ofile p ! fd = Some f"
  shows "fds_of (p\<lparr>p_ofile := (p_ofile p)[fd := None]\<rparr>) g + (if g = f then 1 else 0) = fds_of p g"
proof -
  have l: "[0..<NOFILE] = [0..<fd] @ fd # [Suc fd..<NOFILE]"
    using upt_add_eq_append [of 0 fd "NOFILE - fd"] upt_conv_Cons [OF assms(1)] assms(1) by simp
  have e: "filter (\<lambda>x. (p_ofile p)[fd := None] ! x = Some g) xs = filter (\<lambda>x. p_ofile p ! x = Some g) xs" if "fd \<notin> set xs" for xs
    by (rule filter_cong [OF refl]) (use that in \<open>auto simp: nth_list_update_if\<close>)
  show ?thesis unfolding fds_of_def l using assms by (simp add: e)
qed

lemma close_file_refs:
  assumes "close_file kend pid f s = Ok s'" "f < length (ftable (kfiles s))"
  shows "length (ftable (kfiles s')) = length (ftable (kfiles s))" "kern s' = kern s"
    "g < length (ftable (kfiles s)) \<Longrightarrow> f_ref (ftable (kfiles s') ! g) = f_ref (ftable (kfiles s) ! g) - (if g = f then 1 else 0)"
proof -
  obtain io m where io: "fileclose pid f ((kfiles s)\<lparr>File.freed := []\<rparr>) = Ok io" "s' = s\<lparr>kfiles := io\<lparr>File.freed := []\<rparr>, kmm := m\<rparr>"
    using assms(1) by (auto simp: close_file_def bind_res_Ok_iff)
  note p = fileclose_parts [OF io(1)]
  show "length (ftable (kfiles s')) = length (ftable (kfiles s))" "kern s' = kern s" using p(1) assms(2) io(2) by simp_all
  show "g < length (ftable (kfiles s)) \<Longrightarrow> f_ref (ftable (kfiles s') ! g) = f_ref (ftable (kfiles s) ! g) - (if g = f then 1 else 0)"
    using p(2) assms(2) io(2) by (auto simp: nth_list_update_if split: if_splits)
qed

lemma close_ofiles_counted:
  assumes "counted s" "p < NPROC" "length (procs (kern s)) = NPROC" "length (p_ofile (kproc s p)) = NOFILE" "set fds \<subseteq> {..<NOFILE}"
    "\<forall>fd < NOFILE. \<forall>f. p_ofile (kproc s p) ! fd = Some f \<longrightarrow> f < length (ftable (kfiles s))" "close_ofiles kend p fds s = Ok s'"
  shows "counted s' \<and> length (ftable (kfiles s')) = length (ftable (kfiles s))"
  using assms
proof (induction fds arbitrary: s)
  case (Cons fd fds)
  have fd: "fd < NOFILE" "set fds \<subseteq> {..<NOFILE}" using Cons.prems(5) by simp_all
  show ?case
  proof (cases "p_ofile (kproc s p) ! fd")
    case None
    then show ?thesis using Cons.IH [OF Cons.prems(1-4) fd(2) Cons.prems(6)] Cons.prems(7) by simp
  next
    case (Some f)
    let ?g = "\<lambda>q. q\<lparr>p_ofile := (p_ofile q)[fd := None]\<rparr>"
    obtain s1 where s1: "close_file kend (p_pid (kproc s p)) f s = Ok s1" "close_ofiles kend p fds (upd_kproc p ?g s1) = Ok s'"
      using Cons.prems(7) Some by (auto simp: bind_res_Ok_iff)
    have f: "f < length (ftable (kfiles s))" using Cons.prems(6) fd(1) Some by blast
    note c = close_file_refs [OF s1(1) f]
    define s2 where "s2 = upd_kproc p ?g s1"
    have kp: "kproc s2 j = (if j = p then ?g (kproc s p) else kproc s j)" for j
      using Cons.prems(2,3) c(2) by (simp add: s2_def kproc_def upd_kproc_def upd_proc_nth)
    have k2: "kfiles s2 = kfiles s1" by (simp add: s2_def upd_kproc_def)
    have "fd_count s2 x + (if x = f then 1 else 0) = fd_count s x" for x
      using fd_count_change [OF Cons.prems(2), of s2 x s] fds_of_update [OF fd(1) Cons.prems(4) Some, of x] by (simp add: kp)
    from this [THEN sym] have cnt: "int (fd_count s2 x) = int (fd_count s x) - (if x = f then 1 else 0)" for x by simp
    have c2: "counted s2" using Cons.prems(1) c cnt unfolding counted_def k2 by simp
    have l2: "length (procs (kern s2)) = NPROC" "length (p_ofile (kproc s2 p)) = NOFILE"
      using Cons.prems(3,4) c(2) kp [of p] by (simp_all add: s2_def upd_kproc_def)
    have "\<forall>x < NOFILE. \<forall>f. p_ofile (kproc s2 p) ! x = Some f \<longrightarrow> f < length (ftable (kfiles s2))"
      unfolding kp k2 c(1) using Cons.prems(4,6) by (simp add: nth_list_update_if)
    from Cons.IH [OF c2 Cons.prems(2) l2 fd(2) this s1(2) [folded s2_def]] show ?thesis using c(1) k2 by simp
  qed
qed simp

lemma same_files_parts:
  assumes "same_files io io'"
  shows "length (ftable io') = length (ftable io)" "pipe_ok K io' = pipe_ok K io"
proof -
  have m: "map (\<lambda>f. f\<lparr>f_ref := 0\<rparr>) (ftable io') = map (\<lambda>f. f\<lparr>f_ref := 0\<rparr>) (ftable io)" "pipes io' = pipes io" using assms by (simp_all add: same_files_def)
  show "length (ftable io') = length (ftable io)" using map_eq_imp_length_eq [OF m(1)] .
  have "map (\<lambda>f. (f_type f, f_pipe f, f_writable f)) (ftable io') = map (\<lambda>f. (f_type f, f_pipe f, f_writable f)) (ftable io)"
    using arg_cong [OF m(1), of "map (\<lambda>f. (f_type f, f_pipe f, f_writable f))"] by (simp add: comp_def)
  then show "pipe_ok K io' = pipe_ok K io" by (rule pipe_ok_cong [OF m(2)])
qed

lemma fork_files:
  assumes f: "files_ok s" and np: "np < NPROC" "np \<noteq> p" "p < NPROC" and un: "\<not> live (p_state (kproc s np))" "live (p_state (kproc s p))"
    and c: "p_ofile (kproc s' np) = inherit (p_ofile (kproc s p)) [0..<NOFILE] (p_ofile (kproc s np))" "p_cwd (kproc s' np) = p_cwd (kproc s p)"
    and o: "\<And>j. j < NPROC \<Longrightarrow> j \<noteq> np \<Longrightarrow> unlock (kproc s' j) = unlock (kproc s j)" and sf: "same_files (kfiles s) (kfiles s')" and st: "live (p_state (kproc s' np))"
    and r: "\<forall>f < length (ftable (kfiles s)). f_ref (ftable (kfiles s') ! f) = f_ref (ftable (kfiles s) ! f) +
        int (length (filter (\<lambda>fd. p_ofile (kproc s p) ! fd = Some f) [0..<NOFILE]))"
  shows "files_ok s'"
proof -
  note l = same_files_parts(1) [OF sf]
  have pf: "proc_files (length (ftable (kfiles s))) (kproc s i)" if "i < NPROC" for i using f that by (simp add: files_ok_def)
  have e: "p_ofile (kproc s np) = replicate NOFILE None" "length (p_ofile (kproc s p)) = NOFILE" using pf np un by (simp_all add: proc_files_def)
  have of: "p_ofile (kproc s' np) = p_ofile (kproc s p)" unfolding c(1) by (rule inherit_all [OF e(2,1)])
  have m: "mask (kproc s' j) = mask (kproc s j)" if "j < NPROC" "j \<noteq> np" for j by (rule unlock_mask [OF o [OF that]])
  have z: "fds_of (kproc s np) g = 0" for g using e(1) by (simp add: fds_of_def filter_empty_conv)
  have "fd_count s' g = fd_count s g + fds_of (kproc s p) g" for g
    using fd_count_change [OF np(1), of s' g s] proc_files_mask(2) [OF m] z of by (simp add: fds_of_def)
  then have "counted s'" using f r by (simp add: files_ok_def counted_def l fds_of_def)
  moreover have "proc_files (length (ftable (kfiles s'))) (kproc s' i)" if "i < NPROC" for i
  proof (cases "i = np")
    case True
    then show ?thesis using pf [OF np(3)] of c(2) st un(2) by (simp add: proc_files_def l)
  next
    case False
    then show ?thesis using pf [OF that] proc_files_mask(1) [OF m [OF that False]] by (simp add: l)
  qed
  ultimately show ?thesis by (simp add: files_ok_def)
qed

text \<open>An entry without descriptors stays so.\<close>

lemma files_ok_idle:
  assumes f: "files_ok s" and j: "j < NPROC" "\<not> live (p_state (kproc s j))" "\<not> live (p_state (kproc s' j))" "p_ofile (kproc s' j) = p_ofile (kproc s j)"
    and o: "\<And>i. i < NPROC \<Longrightarrow> i \<noteq> j \<Longrightarrow> mask (kproc s' i) = mask (kproc s i)" and k: "kfiles s' = kfiles s"
  shows "files_ok s'"
proof -
  have fo: "fds_of (kproc s' i) = fds_of (kproc s i)" if "i < NPROC" for i
    using proc_files_mask(2) [OF o [OF that]] j(4) by (cases "i = j") (simp_all add: fds_of_def fun_eq_iff)
  then have "fd_count s' = fd_count s" by (simp add: fd_count_def fun_eq_iff)
  then have "counted s'" using f by (simp add: files_ok_def counted_def k)
  moreover have "proc_files (length (ftable (kfiles s'))) (kproc s' i)" if "i < NPROC" for i
    using f that proc_files_mask(1) [OF o [OF that]] j by (cases "i = j") (auto simp: files_ok_def proc_files_def k)
  ultimately show ?thesis by (simp add: files_ok_def)
qed

section \<open>The invariant\<close>

definition sys_ok :: "nat \<Rightarrow> nat \<Rightarrow> nat set \<Rightarrow> ksys \<Rightarrow> nat list \<Rightarrow> bool" where
  "sys_ok kend t K s free \<longleftrightarrow> sys_mem kend t K s free \<and> kernel_ok (kern s) \<and> pipe_ok K (kfiles s) \<and> files_ok s"

lemma sys_ok_pipes: "sys_ok kend t K s free \<Longrightarrow> K = pipe_pages (kfiles s)"
  by (auto simp: sys_ok_def pipe_ok_def)

text \<open>A step keeps the memory, the page table and the size of every live process but the running one \<open>c\<close>.\<close>

definition isolated :: "nat option \<Rightarrow> ksys \<Rightarrow> ksys \<Rightarrow> bool" where
  "isolated c s s' \<longleftrightarrow> (\<forall>i < NPROC. c \<noteq> Some i \<and> live (p_state (kproc s i)) \<longrightarrow>
     image (kproc s' i) = image (kproc s i) \<and> proc_pages s' i = proc_pages s i \<and>
     same_on (proc_pages s i) (kmemory (kmm s)) (kmemory (kmm s')))"

definition good_step :: "nat \<Rightarrow> nat \<Rightarrow> nat set \<Rightarrow> ksys \<Rightarrow> nat list \<Rightarrow> ksys \<Rightarrow> bool" where
  "good_step kend t K s free s' \<longleftrightarrow> (\<exists>K' free'. sys_ok kend t K' s' free' \<and> pages K' s' free' = pages K s free) \<and>
     isolated (c_proc (kern s)) s s'"

lemma good_step_intro:
  assumes "sys_mem kend t K' s' free'" "kernel_ok (kern s')" "pipe_ok K' (kfiles s')" "files_ok s'" "pages K' s' free' = pages K s free"
    "isolated (c_proc (kern s)) s s'"
  shows "good_step kend t K s free s'"
  using assms unfolding good_step_def sys_ok_def by blast

lemma isolated_calm:
  assumes "calm X s s'" "\<And>i. i \<in> X \<Longrightarrow> i < NPROC \<Longrightarrow> c = Some i \<or> \<not> live (p_state (kproc s i))"
    "\<And>i. i < NPROC \<Longrightarrow> live (p_state (kproc s i)) \<Longrightarrow> c \<noteq> Some i \<Longrightarrow> image (kproc s' i) = image (kproc s i)"
  shows "isolated c s s'"
  using assms unfolding isolated_def calm_def by blast

lemma calls_running:
  assumes "sys_ok kend t K s free" "calls s"
  obtains p where "running (kern s)" "c_proc (kern s) = Some p" "p < NPROC" "p_state (kproc s p) = RUNNING" "files_open s p"
proof -
  have "running (kern s)" using assms kernel_ok_free by (auto simp: sys_ok_def calls_def)
  moreover obtain p where c: "c_proc (kern s) = Some p" using assms(2) by (auto simp: calls_def)
  moreover have p: "p < NPROC" "p_state (kproc s p) = RUNNING" using calculation by (auto simp: running_iff kproc_def)
  moreover have "files_open s p" by (rule files_ok_open [OF _ p(1)]) (use assms(1) p(2) in \<open>simp_all add: sys_ok_def live_def\<close>)
  ultimately show ?thesis using that by blast
qed

lemma ukeep_step:
  assumes ok: "sys_ok kend t K s free" and u: "ukeep (kern s) k" and k: "kernel_ok k"
  shows "good_step kend t K s free (s\<lparr>kern := k\<rparr>)"
proof -
  have sm: "sys_mem kend t K s free" and r: "pipe_ok K (kfiles s)" "files_ok s" using ok by (simp_all add: sys_ok_def)
  note um = ukeep_mem [OF sm u] and len = sys_memD(2) [OF sm]
  have mk: "mask (kproc (s\<lparr>kern := k\<rparr>) j) = mask (kproc s j)" if "j < NPROC" for j using ukeep_fields(4) [OF u, of j] that len by (simp add: kproc_def)
  show ?thesis
  proof (rule good_step_intro [OF um(1)])
    show "files_ok (s\<lparr>kern := k\<rparr>)" by (rule files_ok_mask [OF r(2) mk]) simp_all
    show "isolated (c_proc (kern s)) s (s\<lparr>kern := k\<rparr>)" unfolding isolated_def using mask_image [OF mk] um(3) by (simp add: same_on_def)
  qed (use k r um(2) in simp_all)
qed

lemma sched_step:
  assumes "sys_ok kend t K s free" "legal e (kern s)"
  shows "\<exists>s'. sexec kend t xa (Sched e) s = Some (Ok s') \<and> good_step kend t K s free s'"
proof -
  have "kernel_ok (kern s)" using assms(1) by (simp add: sys_ok_def)
  then obtain k where k: "kexec e (kern s) = Ok k" "kernel_ok k" using kexec_ok assms(2) by blast
  have "ukeep (kern s) k" by (rule kexec_keeps [OF \<open>kernel_ok (kern s)\<close> assms(2) k(1)])
  from ukeep_step [OF assms(1) this k(2)] k(1) show ?thesis by (simp add: on_kern_def)
qed

lemma others_calm: "others_same i s s' \<Longrightarrow> calm {i} s s'"
  by (simp add: others_same_def calm_def)

lemma fork_step:
  assumes ok: "sys_ok kend t K s free" and cs: "calls s" and t: "t mod 4096 = 0" "t < 2 ^ 56"
  shows "\<exists>s'. sexec kend t xa Fork s = Some (Ok s') \<and> good_step kend t K s free s'"
proof -
  obtain p where p: "running (kern s)" "c_proc (kern s) = Some p" "p < NPROC" "p_state (kproc s p) = RUNNING" "files_open s p"
    by (rule calls_running [OF ok cs])
  have sm: "sys_mem kend t K s free" and pk: "pipe_ok K (kfiles s)" and fo: "files_ok s" using ok by (simp_all add: sys_ok_def)
  show ?thesis
  proof (cases rule: fork_result [OF sm p(1,2,5) t])
    case (1 s' free' i)
    have u: "unlock (kproc s' j) = unlock (kproc s j)" if "j < NPROC" "j \<noteq> i" for j using 1(8) that by (simp add: others_same_def)
    have fs: "files_ok s'"
    proof (cases "unlock (kproc s' i) = unlock (kproc s i)")
      case True
      have "mask (kproc s' j) = mask (kproc s j)" if "j < NPROC" for j using unlock_mask [OF u [OF that]] unlock_mask [OF True] by (cases "j = i") simp_all
      then show ?thesis using files_ok_mask [OF fo _ 1(10)] by blast
    next
      case False
      then have un: "p_state (kproc s i) = UNUSED" using 1(7) by blast
      show ?thesis
      proof (rule files_ok_idle [OF fo 1(5) _ _ 1(12) unlock_mask [OF u] 1(10)])
        show "\<not> live (p_state (kproc s i))" "\<not> live (p_state (kproc s' i))" using un 1(6) by (simp_all add: live_def)
      qed
    qed
    have "isolated (c_proc (kern s)) s s'"
    proof (cases "p_state (kproc s i) = UNUSED")
      case True
      show ?thesis
      proof (rule isolated_calm [OF others_calm [OF 1(8)]])
        show "image (kproc s' j) = image (kproc s j)" if "j < NPROC" "live (p_state (kproc s j))" for j
        proof -
          have "j \<noteq> i" using that(2) True by (auto simp: live_def)
          then show ?thesis using image_unlock [OF u [OF that(1)]] by blast
        qed
      qed (use True in \<open>simp add: live_def\<close>)
    next
      case False
      then have e: "unlock (kproc s' i) = unlock (kproc s i)" "kmm s' = kmm s" using 1(7) by auto
      have im: "image (kproc s' j) = image (kproc s j)" if "j < NPROC" for j using image_unlock [OF u [OF that]] image_unlock [OF e(1)] by (cases "j = i") simp_all
      then show ?thesis by (simp add: isolated_def proc_pages_def e(2) same_on_def)
    qed
    then have "good_step kend t K s free s'"
      by (intro good_step_intro [OF 1(2) _ _ fs 1(3)]) (use 1(4,10) pk in \<open>simp_all add: kernel_ok_def\<close>)
    then show ?thesis using 1(1) by simp
  next
    case (2 s' free' np)
    have u: "unlock (kproc s' j) = unlock (kproc s j)" if "j < NPROC" "j \<noteq> np" for j using 2(9) that by (simp add: others_same_def)
    have fs: "files_ok s'"
      by (rule fork_files [OF fo 2(6,8) p(3) _ _ 2(16,15) u 2(23) _ 2(20)]) (use 2(7,10) p(4) in \<open>simp_all add: live_def\<close>)
    have "isolated (c_proc (kern s)) s s'"
    proof (rule isolated_calm [OF others_calm [OF 2(9)]])
      show "image (kproc s' j) = image (kproc s j)" if "j < NPROC" "live (p_state (kproc s j))" for j
      proof -
        have "j \<noteq> np" using that(2) 2(7) by (auto simp: live_def)
        then show ?thesis using image_unlock [OF u [OF that(1)]] by blast
      qed
    qed (use 2(7) in \<open>simp add: live_def\<close>)
    then have "good_step kend t K s free s'"
      by (intro good_step_intro [OF 2(2) _ _ fs 2(3)]) (use 2(4) pk same_files_parts(2) [OF 2(23)] in \<open>simp_all add: kernel_ok_def\<close>)
    then show ?thesis using 2(1) by simp
  qed
qed

lemma sbrk_step:
  assumes ok: "sys_ok kend t K s free" and cs: "calls s" and n: "- (2 ^ 31) \<le> n" "n < 2 ^ 31"
  shows "\<exists>s'. sexec kend t xa (Sbrk n) s = Some (Ok s') \<and> good_step kend t K s free s'"
proof -
  obtain p where p: "running (kern s)" "c_proc (kern s) = Some p" "p < NPROC" "p_state (kproc s p) = RUNNING" "files_open s p"
    by (rule calls_running [OF ok cs])
  have sm: "sys_mem kend t K s free" and pk: "pipe_ok K (kfiles s)" and fo: "files_ok s" using ok by (simp_all add: sys_ok_def)
  note o = sys_memD(1) [OF sm] and len = sys_memD(2) [OF sm]
  obtain tf pt where im: "image (kproc s p) = (Some tf, Some pt, p_sz (kproc s p))" using sys_memD(4) [OF sm p(3)] p(4) by auto
  obtain r m z free' where g: "growproc kend n s = Ok (r, upd_kproc p (\<lambda>q. q\<lparr>p_sz := z\<rparr>) (set_mem s m))"
      "moved kend t pt tf (kmm s) (p_sz (kproc s p)) free m z free'"
    using growproc_result [OF o p(2,3) im n] by blast
  define s' where "s' = upd_kproc p (\<lambda>q. q\<lparr>p_sz := z\<rparr>) (set_mem s m)"
  have kp: "kproc s' j = (if j = p then (kproc s p)\<lparr>p_sz := z\<rparr> else kproc s j)" for j using p(3) len by (simp add: s'_def)
  have k': "kern s' = upd_proc p (\<lambda>q. q\<lparr>p_sz := z\<rparr>) (kern s)" "kmm s' = m" "kfiles s' = kfiles s" by (simp_all add: s'_def)
  have im': "image (kproc s' j) = (if j = p then (Some tf, Some pt, z) else image (kproc s j))" for j using im by (simp add: kp image_def)
  have st: "step_of kend t p s free s' free'" by (rule moved_step [OF o p(3) im _ im']) (use g(2) k' in simp_all)
  note os = own_step [OF o p(3) st]
  have sm': "sys_mem kend t K s' free'"
    by (rule state_keeps_mem [OF sm os(1), of p]) (use im' p(4) im in \<open>simp_all add: kp image_def\<close>)
  have so: "sched_ok (kern s')" unfolding k'(1) by (rule sched_ok_cong [of "kern s"]) (use p(1) in \<open>simp_all add: running_iff upd_proc_nth\<close>)
  have "runs (kern s')" using so p(1) by (simp add: runs_running runs_def resumable_def k'(1) upd_proc_nth)
  moreover have "locks {} {} (kern s')" unfolding k'(1) by (rule locks_upd) (use p(1) in \<open>simp_all add: runs_running\<close>)
  ultimately have run: "running (kern s')" by (simp add: runs_running)
  have fs: "files_ok s'"
    by (rule files_ok_cong [OF fo _ k'(3)]) (simp add: kp)
  have "isolated (c_proc (kern s)) s s'"
    by (rule isolated_calm [OF calm_step [OF o p(3) st]]) (use p(2) kp in auto)
  then have "good_step kend t K s free s'"
    by (intro good_step_intro [OF sm' _ _ fs os(2)]) (use run pk k'(3) in \<open>simp_all add: kernel_ok_def\<close>)
  then show ?thesis using g(1) by (simp add: s'_def)
qed

lemma exit_files:
  assumes f: "files_ok s" and len: "length (procs (kern s)) = NPROC" and p: "p < NPROC" and cl: "close_ofiles kend p [0..<NOFILE] s = Ok s1"
    and k: "ftable (kfiles s') = ftable (kfiles s1)"
    and o: "\<And>j. j < NPROC \<Longrightarrow> j \<noteq> p \<Longrightarrow> mask (kproc s' j) = mask (adopt p (initproc (kern s)) (kproc s j))"
    and z: "p_ofile (kproc s' p) = replicate NOFILE None" "\<not> live (p_state (kproc s' p))"
    and k1: "\<And>j. j < NPROC \<Longrightarrow> p_ofile (kproc s1 j) = (if j = p then replicate NOFILE None else p_ofile (kproc s j))"
  shows "files_ok s'"
proof -
  have pf: "proc_files (length (ftable (kfiles s))) (kproc s i)" if "i < NPROC" for i using f that by (simp add: files_ok_def)
  have c1: "counted s1 \<and> length (ftable (kfiles s1)) = length (ftable (kfiles s))"
    by (rule close_ofiles_counted [OF _ p len _ _ _ cl]) (use f pf [OF p] in \<open>auto simp: files_ok_def proc_files_def\<close>)
  have ad: "p_ofile (adopt p i q) = p_ofile q" "p_cwd (adopt p i q) = p_cwd q" "p_state (adopt p i q) = p_state q" for i q by (simp_all add: adopt_def)
  have fl: "p_ofile (kproc s' j) = p_ofile (kproc s1 j)" if "j < NPROC" for j
    using mask_fields(6) [OF o [OF that]] z(1) k1 [OF that] by (cases "j = p") (simp_all add: ad)
  have "fd_count s' = fd_count s1" using fl by (simp add: fd_count_def fds_of_def fun_eq_iff)
  then have "counted s'" using c1 by (simp add: counted_def k)
  moreover have "proc_files (length (ftable (kfiles s'))) (kproc s' i)" if i: "i < NPROC" for i
  proof (cases "i = p")
    case False
    have "proc_files n (kproc s' i) = proc_files n (kproc s i)" for n
      using mask_fields(6,7,9) [OF o [OF i False]] by (simp add: proc_files_def ad)
    then show ?thesis using pf [OF i] c1 by (simp add: k)
  qed (use z in \<open>simp add: proc_files_def\<close>)
  ultimately show ?thesis by (simp add: files_ok_def)
qed

lemma exit_step:
  assumes ok: "sys_ok kend t K s free" and cs: "calls s" and ni: "initproc (kern s) \<noteq> c_proc (kern s)" and c: "c_proc (kern s) = Some p"
    and cl: "close_ofiles kend p [0..<NOFILE] s = Ok s1" and lv: "leave_cwd p s1 = Ok s2"
  shows "\<exists>s'. sexec kend t xa (Exit st) s = Some (Ok s') \<and> good_step kend t K s free s'"
proof -
  obtain p' where p': "running (kern s)" "c_proc (kern s) = Some p'" "p' < NPROC" "p_state (kproc s p') = RUNNING" "files_open s p'"
    by (rule calls_running [OF ok cs])
  have e: "p' = p" using p'(2) c by simp
  note p = p' [unfolded e]
  have sm: "sys_mem kend t K s free" and pk: "pipe_ok K (kfiles s)" and fo: "files_ok s" using ok by (simp_all add: sys_ok_def)
  note len = sys_memD(2) [OF sm]
  have ni': "initproc (kern s) \<noteq> Some p" using ni c by simp
  obtain s3 k' K' free' where x: "exit kend st s = Ok s3" "dequeue_return p (kern s3) = Ok k'" "at_scheduler k'"
    "sys_mem kend t K' (s3\<lparr>kern := k'\<rparr>) free'" "pages K' (s3\<lparr>kern := k'\<rparr>) free' = pages K s free" "pipe_ok K' (kfiles s3)" "K' \<subseteq> K"
    "initproc k' = initproc (kern s)" "nextpid k' = nextpid (kern s)" "kfiles s3 = kfiles s2" "ticks s3 = ticks s"
    "\<forall>j < NPROC. j \<noteq> p \<longrightarrow> mask (procs k' ! j) = mask (adopt p (initproc (kern s)) (kproc s j))"
    "mask (procs k' ! p) = mask ((adopt p (initproc (kern s)) (kproc s p))\<lparr>p_ofile := replicate NOFILE None, p_cwd := None, p_xstate := st, p_state := ZOMBIE\<rparr>)"
    "\<forall>j < NPROC. same_on (proc_pages s j) (kmemory (kmm s)) (kmemory (kmm s3))"
    by (rule exit_result [OF sm p(1) c ni' pk p(5) cl lv])
  define s' where "s' = s3\<lparr>kern := k'\<rparr>"
  have kp: "kproc s' j = procs k' ! j" for j by (simp add: s'_def kproc_def)
  have run: "sexec kend t xa (Exit st) s = Some (Ok s')" using x(1,2) c by (simp add: switched_def on_kern_def s'_def)
  have fl: "length (p_ofile (kproc s p)) = NOFILE" "\<forall>fd < NOFILE. \<forall>f. p_ofile (kproc s p) ! fd = Some f \<longrightarrow> f < length (ftable (kfiles s))"
    using p(5) by (auto simp: files_open_def)
  obtain fs where fs: "kern s1 = upd_proc p (\<lambda>q. q\<lparr>p_ofile := fs\<rparr>) (kern s)" "length fs = NOFILE"
      "\<forall>fd < NOFILE. fs ! fd = (if fd \<in> set [0..<NOFILE] then None else p_ofile (kproc s p) ! fd)"
    using close_ofiles_result [OF sys_memD(1) [OF sm] pk p(3) fl(1) _ fl(2) cl] by (auto simp: atLeast0LessThan)
  have "fs = replicate NOFILE None" using fs(2,3) by (intro nth_equalityI) auto
  then have of1: "p_ofile (kproc s1 j) = (if j = p then replicate NOFILE None else p_ofile (kproc s j))" for j
    using fs(1) p(3) len by (simp add: kproc_def upd_proc_nth)
  have ft: "ftable (kfiles s') = ftable (kfiles s1)" using leave_cwd_result [OF lv] x(10) by (auto simp: s'_def upd_kproc_def)
  have fok: "files_ok s'"
    by (rule exit_files [OF fo len p(3) cl ft _ _ _ of1]) (use x(12) mask_fields(6,10) [OF x(13)] in \<open>simp_all add: kp live_def\<close>)
  have im: "image (kproc s' j) = image (kproc s j)" if "j < NPROC" for j
    using mask_image [OF x(13)] x(12) mask_image [of "procs k' ! j" "adopt p (initproc (kern s)) (kproc s j)"] that
    by (cases "j = p") (simp_all add: kp image_def adopt_def split: if_splits)
  have pg: "proc_pages s' j = proc_pages s j" if "j < NPROC" for j
    using im [OF that] image_same(1) [of "kmemory (kmm s)" "image (kproc s j)" "kmemory (kmm s3)"] x(14) that by (simp add: proc_pages_def s'_def)
  have "isolated (c_proc (kern s)) s s'" unfolding isolated_def using im pg x(14) by (simp add: s'_def)
  then have "good_step kend t K s free s'"
    by (intro good_step_intro [OF x(4) [folded s'_def] _ _ fok x(5) [folded s'_def]]) (use x(3,6) in \<open>simp_all add: kernel_ok_def s'_def\<close>)
  then show ?thesis using run by blast
qed

text \<open>\<^verbatim>\<open>exit\<close> runs only when the file system lets go of the files.\<close>

lemma exit_step':
  assumes "sys_ok kend t K s free" "slegal (Exit st) s" "sexec kend t xa (Exit st) s = Some (Ok s')"
  shows "good_step kend t K s free s'"
proof -
  obtain p where c: "c_proc (kern s) = Some p" "initproc (kern s) \<noteq> Some p" using assms(2) by (auto simp: calls_def)
  obtain s1 s2 where "close_ofiles kend p [0..<NOFILE] s = Ok s1" "leave_cwd p s1 = Ok s2"
    using assms(3) c by (auto simp: exit_def bind_res_Ok_iff)
  from exit_step [OF assms(1) _ _ c(1) this, of xa st] assms(2,3) show ?thesis by auto
qed

lemma waiton_step:
  assumes ok: "sys_ok kend t K s free" and w: "running_with WaitLock (kern s)" "c_proc (kern s) = Some p" and t: "t mod 4096 = 0" "t < 2 ^ 56"
    and x: "\<forall>j < NPROC. xa j + 4 \<le> kend" "kend < 2 ^ 63"
  shows "\<exists>s'. wait_event (Some p) (wait_turn kend xa a s) = Some (Ok s') \<and> good_step kend t K s free s'"
proof -
  have sm: "sys_mem kend t K s free" and pk: "pipe_ok K (kfiles s)" and fo: "files_ok s" using ok by (simp_all add: sys_ok_def)
  note len = sys_memD(2) [OF sm]
  show ?thesis
  proof (cases rule: wait_turn_result [where addr = a, OF sm w t x])
    case (1 s' free' j)
    have nl: "\<not> live (p_state (kproc s j))" "\<not> live (p_state (kproc s' j))" using 1(3,8) by (simp_all add: zombie_child_def live_def)
    have u: "unlock (kproc s' i) = unlock (kproc s i)" if "i < NPROC" "i \<noteq> j" for i using 1(9) that by blast
    have fs: "files_ok s'" by (rule files_ok_idle [OF fo 1(2) nl 1(14) unlock_mask [OF u] 1(12)])
    have "isolated (c_proc (kern s)) s s'"
    proof (rule isolated_calm [OF 1(15)])
      show "image (kproc s' i) = image (kproc s i)" if "i < NPROC" "live (p_state (kproc s i))" for i
        using image_unlock [OF u [OF that(1)]] that(2) nl(1) by (cases "i = j") simp_all
    qed (use nl(1) w(2) in auto)
    then have "good_step kend t K s free s'"
      by (intro good_step_intro [OF 1(4) _ _ fs 1(5)]) (use 1(6,12) pk in \<open>simp_all add: kernel_ok_def\<close>)
    then show ?thesis using 1(1) by (simp add: wait_event_def)
  next
    case (2 s')
    have u: "unlock (kproc s' i) = unlock (kproc s i)" if "i < NPROC" for i using samek_proc [OF 2(5), of i] that len by (simp add: kproc_def)
    have fs: "files_ok s'" by (rule files_ok_mask [OF fo unlock_mask [OF u] 2(7)])
    have "isolated (c_proc (kern s)) s s'"
      by (rule isolated_calm [OF 2(9)]) (use w(2) image_unlock [OF u] in auto)
    then have "good_step kend t K s free s'"
      by (intro good_step_intro [OF 2(2) _ _ fs 2(3)]) (use 2(4,7) pk in \<open>simp_all add: kernel_ok_def\<close>)
    then show ?thesis using 2(1) by (simp add: wait_event_def)
  next
    case (3 s' k')
    have e: "s'\<lparr>kern := k'\<rparr> = s\<lparr>kern := k'\<rparr>" using 3(11-13) by (cases s; cases s') simp
    have "good_step kend t K s free (s'\<lparr>kern := k'\<rparr>)"
      unfolding e by (rule ukeep_step [OF ok 3(8)]) (use 3(3) in \<open>simp add: kernel_ok_def\<close>)
    then show ?thesis using 3(1,2) by (simp add: wait_event_def switched_def on_kern_def)
  qed
qed

lemma isolated_trans:
  assumes "isolated c s s1" "isolated c s1 s2" "\<And>i. i < NPROC \<Longrightarrow> live (p_state (kproc s i)) \<Longrightarrow> live (p_state (kproc s1 i))"
  shows "isolated c s s2"
  using assms unfolding isolated_def same_on_def by (metis (full_types))

lemma wait_step:
  assumes ok: "sys_ok kend t K s free" and cs: "calls s" and t: "t mod 4096 = 0" "t < 2 ^ 56"
    and x: "\<forall>j < NPROC. xa j + 4 \<le> kend" "kend < 2 ^ 63"
  shows "\<exists>s'. sexec kend t xa (Wait a) s = Some (Ok s') \<and> good_step kend t K s free s'"
proof -
  obtain p where p: "running (kern s)" "c_proc (kern s) = Some p" "p < NPROC" by (rule calls_running [OF ok cs])
  have sm: "sys_mem kend t K s free" and len: "length (procs (kern s)) = NPROC" using ok sys_memD(2) unfolding sys_ok_def by blast+
  obtain k1 where k1: "acquire_lk WaitLock (kern s) = Ok k1" "locks {WaitLock} {} k1" "samek (kern s) k1"
    by (rule locks_acquire_lk [of "{}" "{}" "kern s" WaitLock]) (use p(1) in \<open>simp_all add: runs_running\<close>)
  have rw: "running_with WaitLock k1" unfolding runs_running_with using runs_samek [OF _ k1(3)] p(1) k1(2) by (simp add: runs_running)
  let ?s1 = "s\<lparr>kern := k1\<rparr>"
  note u = samek_ukeep [OF k1(3)]
  have mk: "mask (kproc ?s1 j) = mask (kproc s j)" if "j < NPROC" for j using ukeep_fields(4) [OF u, of j] that len by (simp add: kproc_def)
  have fs: "files_ok ?s1" by (rule files_ok_mask [OF _ mk]) (use ok in \<open>simp_all add: sys_ok_def\<close>)
  have ok1: "sys_ok kend t K ?s1 free" unfolding sys_ok_def using ukeep_mem(1) [OF sm u] rw ok fs by (auto simp: sys_ok_def kernel_ok_def)
  have c1: "c_proc (kern ?s1) = Some p" using samek_fields(5) [OF k1(3)] p(2) by simp
  have g1: "isolated (c_proc (kern s)) s ?s1"
    using ukeep_step [OF ok u] rw by (simp add: good_step_def kernel_ok_def) blast
  obtain s' where s': "wait_event (Some p) (wait_turn kend xa a ?s1) = Some (Ok s')" "good_step kend t K ?s1 free s'"
    using waiton_step [OF ok1 _ c1 t x, of a] rw by auto
  have "isolated (c_proc (kern s)) s s'"
    by (rule isolated_trans [OF g1]) (use s'(2) c1 p(2) mask_fields(9) [OF mk] in \<open>simp_all add: good_step_def\<close>)
  then have "good_step kend t K s free s'" using s'(2) ukeep_mem(2) [OF sm u] by (simp add: good_step_def)
  moreover have "sexec kend t xa (Wait a) s = Some (Ok s')" using s'(1) k1(1) p(2) by (simp add: wait_def on_kern_def)
  ultimately show ?thesis by blast
qed

lemma store_step:
  assumes ok: "sys_ok kend t K s free" and cs: "calls s" and t: "t mod 4096 = 0" "t < 2 ^ 56"
  shows "good_step kend t K s free (user_store va b s)"
proof -
  obtain p where p: "running (kern s)" "c_proc (kern s) = Some p" "p < NPROC" "p_state (kproc s p) = RUNNING" "files_open s p"
    by (rule calls_running [OF ok cs])
  have sm: "sys_mem kend t K s free" using ok by (simp add: sys_ok_def)
  note o = sys_memD(1) [OF sm]
  obtain tf pt where im: "image (kproc s p) = (Some tf, Some pt, p_sz (kproc s p))" using sys_memD(4) [OF sm p(3)] p(4) by auto
  have pt: "adr (p_pagetable (kproc s p)) = pt" using im by (simp add: image_def adr_def)
  let ?m = "kmemory (kmm s)" and ?x = "(Some tf, Some pt, p_sz (kproc s p))"
  show ?thesis
  proof (cases "uaddr ?m pt va")
    case None
    then have "user_store va b s = s" using p(2) pt by (simp add: user_store_def)
    then show ?thesis using ukeep_step [OF ok ukeep_refl] ok by (simp add: sys_ok_def)
  next
    case (Some a)
    define m1 where "m1 = ?m(a := b)"
    let ?s = "set_mem s ((kmm s)\<lparr>kmemory := m1\<rparr>)"
    have us: "user_store va b s = ?s" using p(2) pt Some by (simp add: user_store_def m1_def)
    note f = own_facts [OF o p(3), unfolded im]
    have sp: "aspace kend t ?m pt (p_sz (kproc s p)) tf" "phys_page kend tf" using f(1) by simp_all
    obtain ent where ent: "va < MAXVA" "vmap ?m pt (va div 4096) = Some ent" "bit ent 4" "a = PTE2PA ent + va mod 4096"
      using Some by (auto simp: uaddr_def split: if_splits option.splits)
    define q where "q = PTE2PA ent"
    have "va div 4096 < 2 ^ 26" using ent(1) by (simp add: div_less_iff_less_mult)
    then have q: "q \<in> upages ?m pt" using ent(2,3) by (auto simp: upages_def q_def)
    note us' = aspace_user [OF sp(1) t sp(2)]
    have qf: "q \<in> footprint ?m pt (p_sz (kproc s p))" using us'(1) q by (auto simp: footprint_def)
    have fr: "frame {q} ?m m1" by (rule frame_within) (use ent(4) in \<open>auto simp: m1_def q_def\<close>)
    have ph: "phys_page kend r" if "r \<in> tables 2 ?m pt" for r using tree_ok_phys sp(1) that by (auto simp: aspace_def)
    have tb: "same_on (tables 2 ?m pt) ?m m1"
      by (rule frame_same [OF fr, where kend = kend]) (use ph q us'(2) in \<open>auto simp: user_apart_def\<close>)
    have "reimage kend t (kmm s) ?x free ((kmm s)\<lparr>kmemory := m1\<rparr>) ?x free"
      by (rule write_reimage [OF f(1,2) _ fr]) (use f(3) im qf aspace_same [OF tb] sp f(1) in \<open>auto simp: proc_pages_def\<close>)
    then have st: "step_of kend t p s free ?s free" by (intro step_make [where x = ?x]) (use im p(3) in auto)
    note os = own_step [OF o p(3) st]
    have sm': "sys_mem kend t K ?s free" by (rule state_keeps_mem [OF sm os(1), of p]) (use im p(4) in \<open>simp_all add: image_def\<close>)
    have "isolated (c_proc (kern s)) s ?s" by (rule isolated_calm [OF calm_step [OF o p(3) st]]) (use p(2) in auto)
    moreover have "files_ok ?s" by (rule files_ok_cong [of s]) (use ok in \<open>simp_all add: sys_ok_def\<close>)
    ultimately show ?thesis unfolding us by (intro good_step_intro [OF sm' _ _ _ os(2)]) (use ok in \<open>simp_all add: sys_ok_def\<close>)
  qed
qed

section \<open>All steps\<close>

text \<open>Every legal step runs, or is an \<^verbatim>\<open>exit\<close> that waits for the file system.\<close>

lemma sexec_runs:
  assumes "sys_ok kend t K s free" "slegal e s" "t mod 4096 = 0" "t < 2 ^ 56" "\<forall>j < NPROC. xa j + 4 \<le> kend" "kend < 2 ^ 63"
    and "\<nexists>st. e = Exit st"
  shows "\<exists>s'. sexec kend t xa e s = Some (Ok s') \<and> good_step kend t K s free s'"
proof (cases e)
  case (Sched x)
  then show ?thesis using sched_step [OF assms(1)] assms(2) by simp
next
  case Fork
  then show ?thesis using fork_step [OF assms(1) _ assms(3,4)] assms(2) by simp
next
  case (Sbrk n)
  then show ?thesis using sbrk_step [OF assms(1)] assms(2) by simp
next
  case (Wait a)
  then show ?thesis using wait_step [OF assms(1) _ assms(3-6)] assms(2) by simp
next
  case (WaitOn a)
  then obtain p where p: "c_proc (kern s) = Some p" "klocks (kern s) WaitLock = held" using assms(2) by auto
  have "running_with WaitLock (kern s)" using kernel_ok_held assms(1) p(2) by (auto simp: sys_ok_def)
  from waiton_step [OF assms(1) this p(1) assms(3-6)] WaitOn p(1) show ?thesis by simp
next
  case (UserStore va b)
  then show ?thesis using store_step [OF assms(1) _ assms(3,4)] assms(2) by simp
qed (use assms(7) in blast)

inductive sstep :: "nat \<Rightarrow> nat \<Rightarrow> (nat \<Rightarrow> nat) \<Rightarrow> ksys \<Rightarrow> ksys \<Rightarrow> bool" for kend t xa where
  "slegal e s \<Longrightarrow> sexec kend t xa e s = Some (Ok s') \<Longrightarrow> sstep kend t xa s s'"

inductive_cases sstepE: "sstep kend t xa s s'"

lemma sstep_good:
  assumes "sys_ok kend t K s free" "sstep kend t xa s s'" "t mod 4096 = 0" "t < 2 ^ 56" "\<forall>j < NPROC. xa j + 4 \<le> kend" "kend < 2 ^ 63"
  shows "good_step kend t K s free s'"
proof -
  obtain e where e: "slegal e s" "sexec kend t xa e s = Some (Ok s')" using assms(2) by (rule sstepE)
  show ?thesis
  proof (cases "\<exists>st. e = Exit st")
    case True
    then show ?thesis using exit_step' [OF assms(1)] e by blast
  next
    case False
    then show ?thesis using sexec_runs [OF assms(1) e(1) assms(3-6) False] e(2) by auto
  qed
qed

lemma ssteps_ok:
  assumes "(sstep kend t xa)\<^sup>*\<^sup>* s s'" "sys_ok kend t K s free" "t mod 4096 = 0" "t < 2 ^ 56" "\<forall>j < NPROC. xa j + 4 \<le> kend" "kend < 2 ^ 63"
  shows "\<exists>K' free'. sys_ok kend t K' s' free' \<and> pages K' s' free' = pages K s free"
  using assms(1)
proof (induction rule: rtranclp_induct)
  case (step s1 s2)
  then obtain K1 free1 where "sys_ok kend t K1 s1 free1" "pages K1 s1 free1 = pages K s free" by blast
  with sstep_good [OF this(1) step(2) assms(3-6)] show ?case by (auto simp: good_step_def)
qed (use assms(2) in blast)

end
