(* ===== verification/Sysfile.thy ===== *)
theory Sysfile
  imports File
begin

text \<open>
  The file system calls of \<^verbatim>\<open>kernel/sysfile.c\<close>. Their arguments are what \<^verbatim>\<open>argint\<close>,
  \<^verbatim>\<open>argaddr\<close> and \<^verbatim>\<open>argstr\<close> deliver: a path is \<open>None\<close> when \<^verbatim>\<open>argstr\<close> fails. Each
  \<^verbatim>\<open>goto\<close> is a branch that ends with the code at its label.
\<close>

abbreviation (input) NOFILE :: nat where "NOFILE \<equiv> 16"
abbreviation (input) O_WRONLY :: int where "O_WRONLY \<equiv> 0x001"
abbreviation (input) O_RDWR :: int where "O_RDWR \<equiv> 0x002"
abbreviation (input) O_CREATE :: int where "O_CREATE \<equiv> 0x200"
abbreviation (input) O_TRUNC :: int where "O_TRUNC \<equiv> 0x400"

section \<open>Descriptors\<close>

definition argfd :: "int \<Rightarrow> kio \<Rightarrow> (nat \<times> nat) option" where
  "argfd fd k =
     (if fd < 0 \<or> fd \<ge> int NOFILE then None
      else case ofile k ! nat fd of None \<Rightarrow> None | Some f \<Rightarrow> Some (nat fd, f))"

fun fd_scan :: "nat \<Rightarrow> nat option list \<Rightarrow> nat option" where
  "fd_scan fd [] = None"
| "fd_scan fd (x # xs) = (if x = None then Some fd else fd_scan (fd + 1) xs)"

definition fdalloc :: "nat \<Rightarrow> kio \<Rightarrow> nat option \<times> kio" where
  "fdalloc f k =
     (case fd_scan 0 (ofile k) of
        None \<Rightarrow> (None, k)
      | Some fd \<Rightarrow> (Some fd, k\<lparr>ofile := (ofile k)[fd := Some f]\<rparr>))"

definition sys_dup :: "int \<Rightarrow> kio \<Rightarrow> (int \<times> kio) res" where
  "sys_dup fd k =
     (case argfd fd k of
        None \<Rightarrow> Ok (-1, k)
      | Some (_, f) \<Rightarrow>
          (case fdalloc f k of
             (None, k) \<Rightarrow> Ok (-1, k)
           | (Some fd', k) \<Rightarrow> bind_res (filedup f k) (\<lambda>k. Ok (int fd', k))))"

definition sys_read ::
  "int \<Rightarrow> (nat \<Rightarrow> nat \<Rightarrow> bool) \<Rightarrow> bool \<Rightarrow> int \<Rightarrow> nat \<Rightarrow> int \<Rightarrow> kio \<Rightarrow> (u8 list \<times> kio) step res" where
  "sys_read pid cout kld fd p n k =
     (case argfd fd k of
        None \<Rightarrow> Ok (Done (-1) ([], k))
      | Some (_, f) \<Rightarrow> fileread pid cout kld f p n k)"

definition sys_write ::
  "int \<Rightarrow> (nat \<Rightarrow> nat \<Rightarrow> u8 list option) \<Rightarrow> bool \<Rightarrow> int \<Rightarrow> nat \<Rightarrow> int \<Rightarrow> kio \<Rightarrow> kio step res" where
  "sys_write pid cin kld fd p n k =
     (case argfd fd k of
        None \<Rightarrow> Ok (Done (-1) k)
      | Some (_, f) \<Rightarrow> filewrite pid cin kld f p 0 n k)"

definition sys_close :: "int \<Rightarrow> int \<Rightarrow> kio \<Rightarrow> (int \<times> kio) res" where
  "sys_close pid fd k =
     (case argfd fd k of
        None \<Rightarrow> Ok (-1, k)
      | Some (i, f) \<Rightarrow>
          bind_res (fileclose pid f (k\<lparr>ofile := (ofile k)[i := None]\<rparr>)) (\<lambda>k. Ok (0, k)))"

definition sys_fstat :: "int \<Rightarrow> (nat \<Rightarrow> nat \<Rightarrow> bool) \<Rightarrow> int \<Rightarrow> nat \<Rightarrow> kio \<Rightarrow> ((int \<times> stat option) \<times> kio) res" where
  "sys_fstat pid cout fd st k =
     (case argfd fd k of
        None \<Rightarrow> Ok ((-1, None), k)
      | Some (_, f) \<Rightarrow> filestat pid cout f st k)"

section \<open>Links\<close>

definition add_nlink :: "nat \<Rightarrow> int \<Rightarrow> fsys \<Rightarrow> fsys" where
  "add_nlink ip d s = upd_inode ip (\<lambda>i. i\<lparr>i_nlink := s16 (i_nlink i + d)\<rparr>) s"

definition end_with :: "int \<Rightarrow> int \<Rightarrow> fsys \<Rightarrow> (int \<times> fsys) res" where
  "end_with pid r s = bind_res (f_end_op pid s) (\<lambda>s. Ok (r, s))"

definition link_bad :: "int \<Rightarrow> nat \<Rightarrow> fsys \<Rightarrow> (int \<times> fsys) res" where
  "link_bad pid ip s =
     bind_res (ilock pid ip s) (\<lambda>s.
     bind_res (iupdate pid ip (add_nlink ip (-1) s)) (\<lambda>s.
     bind_res (iunlockput pid ip s) (end_with pid (-1))))"

definition sys_link :: "int \<Rightarrow> nat \<Rightarrow> u8 list option \<Rightarrow> u8 list option \<Rightarrow> fsys \<Rightarrow> (int \<times> fsys) res" where
  "sys_link pid cwd old new s =
     (case (old, new) of
        (Some old, Some new) \<Rightarrow>
          bind_res (f_begin_op s) (\<lambda>s.
          bind_res (namei pid cwd old s) (\<lambda>(r, s).
          case r of
            None \<Rightarrow> end_with pid (-1) s
          | Some ip \<Rightarrow>
              bind_res (ilock pid ip s) (\<lambda>s.
              if i_type (itable s ! ip) = T_DIR then bind_res (iunlockput pid ip s) (end_with pid (-1))
              else
                bind_res (iupdate pid ip (add_nlink ip 1 s)) (\<lambda>s.
                bind_res (iunlock pid ip s) (\<lambda>s.
                bind_res (nameiparent pid cwd new s) (\<lambda>(r, s).
                case r of
                  None \<Rightarrow> link_bad pid ip s
                | Some (dp, name) \<Rightarrow>
                    bind_res (ilock pid dp s) (\<lambda>s.
                    bind_res (if i_dev (itable s ! dp) \<noteq> i_dev (itable s ! ip) then Ok (-1, s)
                              else dirlink pid dp name (i_inum (itable s ! ip)) s) (\<lambda>(r, s).
                    bind_res (iunlockput pid dp s) (\<lambda>s.
                    if r < 0 then link_bad pid ip s
                    else bind_res (iput pid ip s) (end_with pid 0))))))))))
      | _ \<Rightarrow> Ok (-1, s))"

fun dirempty_loop :: "int \<Rightarrow> nat \<Rightarrow> nat list \<Rightarrow> fsys \<Rightarrow> (bool \<times> fsys) res" where
  "dirempty_loop pid dp [] s = Ok (True, s)"
| "dirempty_loop pid dp (off # offs) s =
     bind_res (readi_kernel pid dp off 16 s) (\<lambda>((r, de), s).
     if r \<noteq> 16 then Panic ''isdirempty: readi''
     else if de_inum de \<noteq> 0 then Ok (False, s)
     else dirempty_loop pid dp offs s)"

definition isdirempty :: "int \<Rightarrow> nat \<Rightarrow> fsys \<Rightarrow> (bool \<times> fsys) res" where
  "isdirempty pid dp s = dirempty_loop pid dp (drop 2 (dir_offs (i_size (itable s ! dp)))) s"

definition unlink_bad :: "int \<Rightarrow> nat \<Rightarrow> fsys \<Rightarrow> (int \<times> fsys) res" where
  "unlink_bad pid dp s = bind_res (iunlockput pid dp s) (end_with pid (-1))"

definition sys_unlink :: "int \<Rightarrow> nat \<Rightarrow> u8 list option \<Rightarrow> fsys \<Rightarrow> (int \<times> fsys) res" where
  "sys_unlink pid cwd path s =
     (case path of
        None \<Rightarrow> Ok (-1, s)
      | Some path \<Rightarrow>
          bind_res (f_begin_op s) (\<lambda>s.
          bind_res (nameiparent pid cwd path s) (\<lambda>(r, s).
          case r of
            None \<Rightarrow> end_with pid (-1) s
          | Some (dp, name) \<Rightarrow>
              bind_res (ilock pid dp s) (\<lambda>s.
              if namecmp name [46] = 0 \<or> namecmp name [46, 46] = 0 then unlink_bad pid dp s
              else
                bind_res (dirlookup pid dp name s) (\<lambda>(r, s).
                case r of
                  None \<Rightarrow> unlink_bad pid dp s
                | Some (ip, off) \<Rightarrow>
                    bind_res (ilock pid ip s) (\<lambda>s.
                    if i_nlink (itable s ! ip) < 1 then Panic ''unlink: nlink < 1''
                    else
                      bind_res (if i_type (itable s ! ip) = T_DIR then isdirempty pid ip s else Ok (True, s)) (\<lambda>(e, s).
                      if \<not> e then bind_res (iunlockput pid ip s) (unlink_bad pid dp)
                      else
                        bind_res (writei_kernel pid dp (replicate 16 0) off s) (\<lambda>(w, s).
                        if w \<noteq> 16 then Panic ''unlink: writei''
                        else
                          bind_res (if i_type (itable s ! ip) = T_DIR then iupdate pid dp (add_nlink dp (-1) s) else Ok s) (\<lambda>s.
                          bind_res (iunlockput pid dp s) (\<lambda>s.
                          bind_res (iupdate pid ip (add_nlink ip (-1) s)) (\<lambda>s.
                          bind_res (iunlockput pid ip s) (end_with pid 0))))))))))))"

section \<open>Creating and opening\<close>

definition create_fail :: "int \<Rightarrow> nat \<Rightarrow> nat \<Rightarrow> fsys \<Rightarrow> (nat option \<times> fsys) res" where
  "create_fail pid ip dp s =
     bind_res (iupdate pid ip (upd_inode ip (\<lambda>i. i\<lparr>i_nlink := 0\<rparr>) s)) (\<lambda>s.
     bind_res (iunlockput pid ip s) (\<lambda>s.
     bind_res (iunlockput pid dp s) (\<lambda>s. Ok (None, s))))"

definition link_dots :: "int \<Rightarrow> nat \<Rightarrow> nat \<Rightarrow> fsys \<Rightarrow> (bool \<times> fsys) res" where
  "link_dots pid ip dp s =
     bind_res (dirlink pid ip [46] (i_inum (itable s ! ip)) s) (\<lambda>(r, s).
     if r < 0 then Ok (False, s)
     else
       bind_res (dirlink pid ip [46, 46] (i_inum (itable s ! dp)) s) (\<lambda>(r, s).
       Ok (\<not> r < 0, s)))"

definition create :: "int \<Rightarrow> nat \<Rightarrow> u8 list \<Rightarrow> int \<Rightarrow> int \<Rightarrow> int \<Rightarrow> fsys \<Rightarrow> (nat option \<times> fsys) res" where
  "create pid cwd path ty major minor s =
     bind_res (nameiparent pid cwd path s) (\<lambda>(r, s).
     case r of
       None \<Rightarrow> Ok (None, s)
     | Some (dp, name) \<Rightarrow>
         bind_res (ilock pid dp s) (\<lambda>s.
         bind_res (dirlookup pid dp name s) (\<lambda>(r, s).
         case r of
           Some (ip, _) \<Rightarrow>
             bind_res (iunlockput pid dp s) (\<lambda>s.
             bind_res (ilock pid ip s) (\<lambda>s.
             if ty = T_FILE \<and> (i_type (itable s ! ip) = T_FILE \<or> i_type (itable s ! ip) = T_DEVICE)
             then Ok (Some ip, s)
             else bind_res (iunlockput pid ip s) (\<lambda>s. Ok (None, s))))
         | None \<Rightarrow>
             bind_res (ialloc pid (i_dev (itable s ! dp)) ty s) (\<lambda>(r, s).
             case r of
               None \<Rightarrow> bind_res (iunlockput pid dp s) (\<lambda>s. Ok (None, s))
             | Some ip \<Rightarrow>
                 bind_res (ilock pid ip s) (\<lambda>s.
                 bind_res (iupdate pid ip
                   (upd_inode ip (\<lambda>i. i\<lparr>i_major := s16 major, i_minor := s16 minor, i_nlink := 1\<rparr>) s)) (\<lambda>s.
                 bind_res (if ty = T_DIR then link_dots pid ip dp s else Ok (True, s)) (\<lambda>(ok, s).
                 if \<not> ok then create_fail pid ip dp s
                 else
                   bind_res (dirlink pid dp name (i_inum (itable s ! ip)) s) (\<lambda>(r, s).
                   if r < 0 then create_fail pid ip dp s
                   else
                     bind_res (if ty = T_DIR then iupdate pid dp (add_nlink dp 1 s) else Ok s) (\<lambda>s.
                     bind_res (iunlockput pid dp s) (\<lambda>s. Ok (Some ip, s)))))))))))"

text \<open>The part of \<^verbatim>\<open>sys_open\<close> that finds or makes the inode, inside the transaction.\<close>

definition open_inode :: "int \<Rightarrow> nat \<Rightarrow> u8 list \<Rightarrow> int \<Rightarrow> fsys \<Rightarrow> (nat option \<times> fsys) res" where
  "open_inode pid cwd path omode s =
     (if and omode O_CREATE \<noteq> 0 then create pid cwd path T_FILE 0 0 s
      else
        bind_res (namei pid cwd path s) (\<lambda>(r, s).
        case r of
          None \<Rightarrow> Ok (None, s)
        | Some ip \<Rightarrow>
            bind_res (ilock pid ip s) (\<lambda>s.
            if i_type (itable s ! ip) = T_DIR \<and> omode \<noteq> 0
            then bind_res (iunlockput pid ip s) (\<lambda>s. Ok (None, s))
            else Ok (Some ip, s))))"

definition open_bad :: "int \<Rightarrow> nat \<Rightarrow> kio \<Rightarrow> (int \<times> kio) res" where
  "open_bad pid ip k =
     bind_res (in_fs (iunlockput pid ip) k) (\<lambda>k.
     bind_res (in_fs (f_end_op pid) k) (\<lambda>k. Ok (-1, k)))"

text \<open>The rest, with the inode locked: a file and a descriptor for it.\<close>

definition set_file :: "nat \<Rightarrow> nat \<Rightarrow> inode \<Rightarrow> int \<Rightarrow> kio \<Rightarrow> kio" where
  "set_file f ip i omode k =
     upd_file f (\<lambda>x. (if i_type i = T_DEVICE then x\<lparr>f_type := FD_DEVICE, f_major := i_major i\<rparr>
                     else x\<lparr>f_type := FD_INODE, f_off := 0\<rparr>)
       \<lparr>f_ip := ip, f_readable := (and omode O_WRONLY = 0),
        f_writable := (and omode O_WRONLY \<noteq> 0 \<or> and omode O_RDWR \<noteq> 0)\<rparr>) k"

definition open_file :: "int \<Rightarrow> nat \<Rightarrow> int \<Rightarrow> kio \<Rightarrow> (int \<times> kio) res" where
  "open_file pid ip omode k =
     (let i = itable (kfs k) ! ip
      in if i_type i = T_DEVICE \<and> (i_major i < 0 \<or> NDEV \<le> i_major i) then open_bad pid ip k
         else case filealloc k of
           (None, k) \<Rightarrow> open_bad pid ip k
         | (Some f, k) \<Rightarrow>
             (case fdalloc f k of
                (None, k) \<Rightarrow> bind_res (fileclose pid f k) (open_bad pid ip)
              | (Some fd, k) \<Rightarrow>
                  let k = set_file f ip i omode k
                  in bind_res (if and omode O_TRUNC \<noteq> 0 \<and> i_type i = T_FILE then in_fs (itrunc pid ip) k else Ok k) (\<lambda>k.
                     bind_res (in_fs (iunlock pid ip) k) (\<lambda>k.
                     bind_res (in_fs (f_end_op pid) k) (\<lambda>k. Ok (int fd, k))))))"

definition sys_open :: "int \<Rightarrow> u8 list option \<Rightarrow> int \<Rightarrow> kio \<Rightarrow> (int \<times> kio) res" where
  "sys_open pid path omode k =
     (case path of
        None \<Rightarrow> Ok (-1, k)
      | Some path \<Rightarrow>
          bind_res (in_fs f_begin_op k) (\<lambda>k.
          bind_res (in_fsr (open_inode pid (kcwd k) path omode) k) (\<lambda>(r, k).
          case r of
            None \<Rightarrow> bind_res (in_fs (f_end_op pid) k) (\<lambda>k. Ok (-1, k))
          | Some ip \<Rightarrow> open_file pid ip omode k)))"

definition sys_mkdir :: "int \<Rightarrow> nat \<Rightarrow> u8 list option \<Rightarrow> fsys \<Rightarrow> (int \<times> fsys) res" where
  "sys_mkdir pid cwd path s =
     bind_res (f_begin_op s) (\<lambda>s.
     bind_res (case path of None \<Rightarrow> Ok (None, s) | Some path \<Rightarrow> create pid cwd path T_DIR 0 0 s) (\<lambda>(r, s).
     case r of
       None \<Rightarrow> end_with pid (-1) s
     | Some ip \<Rightarrow> bind_res (iunlockput pid ip s) (end_with pid 0)))"

definition sys_mknod :: "int \<Rightarrow> nat \<Rightarrow> u8 list option \<Rightarrow> int \<Rightarrow> int \<Rightarrow> fsys \<Rightarrow> (int \<times> fsys) res" where
  "sys_mknod pid cwd path major minor s =
     bind_res (f_begin_op s) (\<lambda>s.
     bind_res (case path of None \<Rightarrow> Ok (None, s) | Some path \<Rightarrow> create pid cwd path T_DEVICE major minor s) (\<lambda>(r, s).
     case r of
       None \<Rightarrow> end_with pid (-1) s
     | Some ip \<Rightarrow> bind_res (iunlockput pid ip s) (end_with pid 0)))"

definition sys_chdir :: "int \<Rightarrow> u8 list option \<Rightarrow> kio \<Rightarrow> (int \<times> kio) res" where
  "sys_chdir pid path k =
     bind_res (in_fs f_begin_op k) (\<lambda>k.
     bind_res (case path of None \<Rightarrow> Ok (None, k) | Some path \<Rightarrow> in_fsr (namei pid (kcwd k) path) k) (\<lambda>(r, k).
     case r of
       None \<Rightarrow> bind_res (in_fs (f_end_op pid) k) (\<lambda>k. Ok (-1, k))
     | Some ip \<Rightarrow>
         bind_res (in_fs (ilock pid ip) k) (\<lambda>k.
         if i_type (itable (kfs k) ! ip) \<noteq> T_DIR then open_bad pid ip k
         else
           bind_res (in_fs (iunlock pid ip) k) (\<lambda>k.
           bind_res (in_fs (iput pid (kcwd k)) k) (\<lambda>k.
           bind_res (in_fs (f_end_op pid) k) (\<lambda>k. Ok (0, k\<lparr>kcwd := ip\<rparr>)))))))"

text \<open>\<open>page\<close> is what \<^verbatim>\<open>kalloc\<close> gives \<^verbatim>\<open>pipealloc\<close>; the result holds the two descriptors that were stored.\<close>

definition pipe_fail :: "int \<Rightarrow> nat \<Rightarrow> nat \<Rightarrow> kio \<Rightarrow> ((int \<times> (nat \<times> nat) option) \<times> kio) res" where
  "pipe_fail pid rf wf1 k =
     bind_res (fileclose pid rf k) (\<lambda>k. bind_res (fileclose pid wf1 k) (\<lambda>k. Ok ((-1, None), k)))"

definition sys_pipe :: "int \<Rightarrow> (nat \<Rightarrow> nat \<Rightarrow> bool) \<Rightarrow> nat \<Rightarrow> nat \<Rightarrow> kio \<Rightarrow> ((int \<times> (nat \<times> nat) option) \<times> kio) res" where
  "sys_pipe pid cout page fdarray k =
     bind_res (pipealloc pid page k) (\<lambda>(r, k).
     case r of
       None \<Rightarrow> Ok ((-1, None), k)
     | Some (rf, wf1) \<Rightarrow>
         (case fdalloc rf k of
            (None, k) \<Rightarrow> pipe_fail pid rf wf1 k
          | (Some fd0, k) \<Rightarrow>
              (case fdalloc wf1 k of
                 (None, k) \<Rightarrow> pipe_fail pid rf wf1 (k\<lparr>ofile := (ofile k)[fd0 := None]\<rparr>)
               | (Some fd1, k) \<Rightarrow>
                   if \<not> cout fdarray 4 \<or> \<not> cout (fdarray + 4) 4 then
                     pipe_fail pid rf wf1 (k\<lparr>ofile := (ofile k)[fd0 := None, fd1 := None]\<rparr>)
                   else Ok ((0, Some (fd0, fd1)), k))))"

end
