(* ===== verification/Fs_Account.thy ===== *)
theory Fs_Account
  imports Sysfile
begin

text \<open>
  Bookkeeping of the file system: for every operation, by how much it changes the number of
  open transactions, the number of references to the inode table and the number of inode
  locks that are taken, on every path through it. \<open>moves a b c s s'\<close> says that the three
  numbers grow by \<open>a\<close>, \<open>b\<close> and \<open>c\<close>; \<open>quiet s s'\<close> that an operation touches neither, nor the
  identity of any entry of the table.
\<close>

named_theorems account

definition total_refs :: "fsys \<Rightarrow> int" where
  "total_refs s = sum_list (map i_ref (itable s))"

definition locked_inodes :: "fsys \<Rightarrow> int" where
  "locked_inodes s = sum_list (map (\<lambda>i. if sl_locked (i_lock i) then 1 else 0) (itable s))"

definition moves :: "int \<Rightarrow> int \<Rightarrow> int \<Rightarrow> fsys \<Rightarrow> fsys \<Rightarrow> bool" where
  "moves a b c s s' \<longleftrightarrow> outstanding (flog s') = outstanding (flog s) + a \<and> total_refs s' = total_refs s + b \<and>
     locked_inodes s' = locked_inodes s + c \<and> length (itable s') = length (itable s)"

definition core :: "inode \<Rightarrow> nat \<times> nat \<times> int \<times> sleeplock" where
  "core i = (i_dev i, i_inum i, i_ref i, i_lock i)"

definition quiet :: "fsys \<Rightarrow> fsys \<Rightarrow> bool" where
  "quiet s s' \<longleftrightarrow> outstanding (flog s') = outstanding (flog s) \<and> sb s' = sb s \<and>
     map core (itable s') = map core (itable s)"

lemma moves_refl [simp]: "moves 0 0 0 s s" and quiet_refl [simp]: "quiet s s"
  by (simp_all add: moves_def quiet_def)

lemma quiet_trans: "quiet s s' \<Longrightarrow> quiet s' s'' \<Longrightarrow> quiet s s''"
  by (simp add: quiet_def)

lemma map_core:
  assumes "map core xs = map core ys" "\<And>i. f i = g (core i)"
  shows "map f xs = map f ys"
proof -
  have "f = g \<circ> core" using assms(2) by (simp add: fun_eq_iff)
  then show ?thesis using arg_cong [OF assms(1), of "map g"] by simp
qed

lemma quiet_moves: "quiet s s' \<Longrightarrow> moves 0 0 0 s s'"
proof -
  assume "quiet s s'"
  then have q: "map core (itable s') = map core (itable s)" "outstanding (flog s') = outstanding (flog s)"
    by (simp_all add: quiet_def)
  have "map i_ref (itable s') = map i_ref (itable s)"
    by (rule map_core [OF q(1), of _ "\<lambda>(d, n, r, l). r"]) (simp add: core_def)
  moreover have "map (\<lambda>i. if sl_locked (i_lock i) then 1 else 0 :: int) (itable s') =
      map (\<lambda>i. if sl_locked (i_lock i) then 1 else 0) (itable s)"
    by (rule map_core [OF q(1), of _ "\<lambda>(d, n, r, l). if sl_locked l then 1 else 0"]) (simp add: core_def)
  moreover have "length (itable s') = length (itable s)" using q(1) by (rule map_eq_imp_length_eq)
  ultimately show ?thesis using q(2) by (simp add: moves_def total_refs_def locked_inodes_def)
qed

lemma quiet_nth:
  assumes "quiet s s'" "ip < length (itable s)"
  shows "core (itable s' ! ip) = core (itable s ! ip)"
proof -
  have m: "map core (itable s') = map core (itable s)" using assms(1) by (simp add: quiet_def)
  then have "map core (itable s') ! ip = map core (itable s) ! ip" by simp
  then show ?thesis using assms(2) map_eq_imp_length_eq [OF m] by simp
qed

lemma quiet_upd: "(\<And>i. core (f i) = core i) \<Longrightarrow> quiet s (upd_inode ip f s)"
proof -
  assume "\<And>i. core (f i) = core i"
  then have "map core ((itable s)[ip := f (itable s ! ip)]) = (map core (itable s))[ip := core (itable s ! ip)]"
    by (simp add: map_update)
  also have "\<dots> = map core (itable s)" by (cases "ip < length (itable s)") (simp_all add: list_update_beyond flip: nth_map)
  finally show ?thesis by (simp add: quiet_def upd_inode_def)
qed

lemma sum_list_update_int:
  fixes f :: "'a \<Rightarrow> int"
  shows "i < length xs \<Longrightarrow> sum_list (map f (xs[i := x])) = sum_list (map f xs) + f x - f (xs ! i)"
proof (induction xs arbitrary: i)
  case (Cons y ys)
  then show ?case by (cases i) auto
qed simp

lemma moves_upd_inode:
  assumes "ip < length (itable s)"
  shows "moves 0 (i_ref (f (itable s ! ip)) - i_ref (itable s ! ip))
    ((if sl_locked (i_lock (f (itable s ! ip))) then 1 else 0) - (if sl_locked (i_lock (itable s ! ip)) then 1 else 0))
    s (upd_inode ip f s)"
  using assms by (simp add: moves_def upd_inode_def total_refs_def locked_inodes_def sum_list_update_int)

section \<open>Operations that keep the books\<close>

lemma f_bread_quiet [account]: "f_bread pid dev b s = Ok (h, s') \<Longrightarrow> quiet s s'"
  by (auto simp: f_bread_def bind_res_Ok_iff quiet_def)

lemma f_brelse_quiet [account]: "f_brelse pid h s = Ok s' \<Longrightarrow> quiet s s'"
  by (auto simp: f_brelse_def bind_res_Ok_iff quiet_def)

lemma f_log_write_quiet [account]: "f_log_write h s = Ok s' \<Longrightarrow> quiet s s'"
  by (auto simp: f_log_write_def log_write_def bind_res_Ok_iff quiet_def Let_def split: if_splits)

lemma quiet_set_data [simp]: "quiet (f_set_data h d s) s' = quiet s s'" "quiet s (f_set_data h d s') = quiet s s'"
  by (simp_all add: f_set_data_def quiet_def)

lemma core_same [simp]:
  "core (i\<lparr>i_addrs := a\<rparr>) = core i" "core (i\<lparr>i_size := n\<rparr>) = core i" "core (i\<lparr>i_type := t\<rparr>) = core i"
  "core (i\<lparr>i_valid := v\<rparr>) = core i" "core (i\<lparr>i_nlink := l\<rparr>) = core i" "core (i\<lparr>i_major := x\<rparr>) = core i"
  "core (i\<lparr>i_minor := x\<rparr>) = core i" "core (load_inode di i) = core i"
  by (simp_all add: core_def load_inode_def)

lemma quiet_upd_inode:
  assumes "\<And>i. core (f i) = core i"
  shows "quiet (upd_inode ip f s) s' = quiet s s'" "quiet s' (upd_inode ip f s) = quiet s' s"
  using quiet_upd [OF assms, of s ip] by (auto simp: quiet_def)

lemma quiet_updates [simp]:
  "quiet (set_addr ip k a s) s' = quiet s s'" "quiet s' (set_addr ip k a s) = quiet s' s"
  "quiet (add_nlink ip d s) s' = quiet s s'" "quiet s' (add_nlink ip d s) = quiet s' s"
  "quiet (upd_inode ip (\<lambda>i. i\<lparr>i_size := n\<rparr>) s) s' = quiet s s'" "quiet s' (upd_inode ip (\<lambda>i. i\<lparr>i_size := n\<rparr>) s) = quiet s' s"
  "quiet (upd_inode ip (\<lambda>i. i\<lparr>i_type := t\<rparr>) s) s' = quiet s s'" "quiet s' (upd_inode ip (\<lambda>i. i\<lparr>i_valid := v\<rparr>) s) = quiet s' s"
  "quiet s' (upd_inode ip (\<lambda>i. i\<lparr>i_type := t\<rparr>) s) = quiet s' s" "quiet s' (upd_inode ip (\<lambda>i. i\<lparr>i_nlink := l\<rparr>) s) = quiet s' s"
  "quiet (upd_inode ip (load_inode di) s) s' = quiet s s'" "quiet s' (upd_inode ip (load_inode di) s) = quiet s' s"
  "quiet s' (upd_inode ip (\<lambda>i. i\<lparr>i_major := x, i_minor := y, i_nlink := l\<rparr>) s) = quiet s' s"
  unfolding set_addr_def add_nlink_def by (simp_all add: quiet_upd_inode)

lemma bzero_quiet [account]: "bzero pid dev bno s = Ok s' \<Longrightarrow> quiet s s'"
  by (auto simp: bzero_def bind_res_Ok_iff dest!: account) (simp add: quiet_def)

lemma balloc_loop_quiet: "balloc_loop pid dev bs s = Ok (a, s') \<Longrightarrow> quiet s s'"
proof (induction bs arbitrary: s)
  case (Cons b bs)
  then show ?case
    by (auto simp: bind_res_Ok_iff Let_def dest!: account split: option.splits) (fastforce simp: quiet_def)+
qed simp

lemma balloc_quiet [account]: "balloc pid dev s = Ok (a, s') \<Longrightarrow> quiet s s'"
  by (simp add: balloc_def balloc_loop_quiet)

lemma bfree_quiet [account]: "bfree pid dev b s = Ok s' \<Longrightarrow> quiet s s'"
  by (auto simp: bfree_def bind_res_Ok_iff Let_def dest!: account split: if_splits) (simp add: quiet_def)

lemma iupdate_quiet [account]: "iupdate pid ip s = Ok s' \<Longrightarrow> quiet s s'"
  by (auto simp: iupdate_def bind_res_Ok_iff Let_def dest!: account) (simp add: quiet_def)

lemma bmap_direct_quiet [account]: "bmap_direct pid ip k s = Ok (a, s') \<Longrightarrow> quiet s s'"
  by (auto simp: bmap_direct_def bind_res_Ok_iff Let_def dest!: account split: if_splits)

lemma bmap_indirect_quiet [account]: "bmap_indirect pid dev bp bn s = Ok (a, s') \<Longrightarrow> quiet s s'"
  by (auto simp: bmap_indirect_def bind_res_Ok_iff Let_def dest!: account split: if_splits intro: quiet_trans)

lemma bmap_quiet [account]: "bmap pid ip bn s = Ok (a, s') \<Longrightarrow> quiet s s'"
  by (auto simp: bmap_def bind_res_Ok_iff dest!: account split: if_splits) (simp add: quiet_def)

lemma trunc_direct_quiet [account]: "trunc_direct pid ip ks s = Ok s' \<Longrightarrow> quiet s s'"
proof (induction ks arbitrary: s)
  case (Cons k ks)
  show ?case
  proof (cases "i_addrs (itable s ! ip) ! k = 0")
    case False
    then obtain t where t: "bfree pid (i_dev (itable s ! ip)) (i_addrs (itable s ! ip) ! k) s = Ok t"
        "trunc_direct pid ip ks (set_addr ip k 0 t) = Ok s'"
      using Cons.prems by (auto simp: bind_res_Ok_iff Let_def)
    show ?thesis using quiet_trans [OF bfree_quiet [OF t(1)]] Cons.IH [OF t(2)] by simp
  qed (use Cons in simp)
qed simp

lemma free_all_quiet [account]: "free_all pid dev as s = Ok s' \<Longrightarrow> quiet s s'"
proof (induction as arbitrary: s)
  case (Cons a as)
  show ?case
  proof (cases "a = 0")
    case False
    then obtain t where t: "bfree pid dev a s = Ok t" "free_all pid dev as t = Ok s'"
      using Cons.prems by (auto simp: bind_res_Ok_iff)
    show ?thesis using quiet_trans [OF bfree_quiet [OF t(1)] Cons.IH [OF t(2)]] .
  qed (use Cons in simp)
qed simp

lemma itrunc_quiet [account]: "itrunc pid ip s = Ok s' \<Longrightarrow> quiet s s'"
  by (auto simp: itrunc_def bind_res_Ok_iff Let_def dest!: account split: if_splits) (simp_all add: quiet_def)

lemma readi_loop_quiet:
  "readi_loop pid cout ip dst off n tot out s = Ok (r, s') \<Longrightarrow> quiet s s'"
proof (induction "n - tot" arbitrary: dst off tot out s rule: less_induct)
  case less
  show ?case
  proof (cases "tot < n")
    case True
    obtain addr s1 where 1: "bmap pid ip (off div BSIZE) s = Ok (addr, s1)"
      using less.prems True by (subst (asm) readi_loop.simps) (auto simp: bind_res_Ok_iff)
    show ?thesis
    proof (cases "addr = 0")
      case False
      let ?m = "min (n - tot) (BSIZE - off mod BSIZE)"
      obtain bp s2 s3 where 2: "f_bread pid (i_dev (itable s1 ! ip)) addr s1 = Ok (bp, s2)" "f_brelse pid bp s2 = Ok s3"
        and 3: "s3 = s' \<or> readi_loop pid cout ip (dst + ?m) (off + ?m) n (tot + ?m)
          (out @ take ?m (drop (off mod BSIZE) (f_data s2 bp))) s3 = Ok (r, s')"
        using less.prems True 1 False
        by (subst (asm) readi_loop.simps) (auto simp: bind_res_Ok_iff Let_def split: if_splits)
      have "n - (tot + ?m) < n - tot" using True by auto
      then have "quiet s3 s'" using 3 less.hyps by auto
      then show ?thesis using 1 2 by (auto dest!: account) (simp add: quiet_def)
    qed (use less.prems True 1 in \<open>subst (asm) readi_loop.simps, auto dest!: account\<close>)
  qed (use less.prems in \<open>subst (asm) readi_loop.simps, auto\<close>)
qed

lemma readi_quiet [account]: "readi pid cout ip dst off n s = Ok (r, s') \<Longrightarrow> quiet s s'"
  by (cases r) (auto simp: readi_def Let_def readi_loop_quiet split: if_splits)

lemma writei_loop_quiet [account]: "writei_loop pid cin ip src off n tot s = Ok (r, s') \<Longrightarrow> quiet s s'"
proof (induction "n - tot" arbitrary: src off tot s rule: less_induct)
  case less
  show ?case
  proof (cases "tot < n")
    case True
    obtain addr s1 where 1: "bmap pid ip (off div BSIZE) s = Ok (addr, s1)"
      using less.prems True by (subst (asm) writei_loop.simps) (auto simp: bind_res_Ok_iff)
    show ?thesis
    proof (cases "addr = 0")
      case False
      let ?m = "min (n - tot) (BSIZE - off mod BSIZE)"
      obtain bp s2 where 2: "f_bread pid (i_dev (itable s1 ! ip)) addr s1 = Ok (bp, s2)"
        using less.prems True 1 False by (subst (asm) writei_loop.simps) (auto simp: bind_res_Ok_iff)
      show ?thesis
      proof (cases "cin src ?m")
        case None
        then show ?thesis using less.prems True 1 2 False
          by (subst (asm) writei_loop.simps) (auto simp: bind_res_Ok_iff Let_def dest!: account, simp add: quiet_def)
      next
        case (Some bs)
        obtain d s3 s4 where 3: "f_log_write bp (f_set_data bp d s2) = Ok s3" "f_brelse pid bp s3 = Ok s4"
            "writei_loop pid cin ip (src + ?m) (off + ?m) n (tot + ?m) s4 = Ok (r, s')"
          using less.prems True 1 2 False Some
          by (subst (asm) writei_loop.simps) (auto simp: bind_res_Ok_iff Let_def)
        have "n - (tot + ?m) < n - tot" using True by auto
        then have "quiet s4 s'" using 3(3) less.hyps by auto
        then show ?thesis using 1 2 3(1,2) by (auto dest!: account) (simp add: quiet_def)
      qed
    qed (use less.prems True 1 in \<open>subst (asm) writei_loop.simps, auto dest!: account\<close>)
  qed (use less.prems in \<open>subst (asm) writei_loop.simps, auto\<close>)
qed

lemma writei_quiet [account]: "writei pid cin ip src off n s = Ok (r, s') \<Longrightarrow> quiet s s'"
  by (auto simp: writei_def bind_res_Ok_iff dest!: account split: if_splits) (simp_all add: quiet_def)

section \<open>References and locks of inodes\<close>

text \<open>
  The lemmas of \<open>counts\<close> are used forwards along the calls of a path. That an inode pointer
  is an entry of the table is the condition of most of them.
\<close>

named_theorems counts

lemma iget_scan_free:
  "iget_scan dev inum k emp is = (None, Some j) \<Longrightarrow> emp = None \<or> emp = Some e \<Longrightarrow>
     emp = Some j \<or> k \<le> j \<and> j < k + length is \<and> i_ref (is ! (j - k)) = 0"
proof (induction "is" arbitrary: k emp e)
  case (Cons i "is")
  show ?case
  proof (cases "emp = None \<and> i_ref i = 0")
    case True
    then show ?thesis using Cons.prems Cons.IH [of "k + 1" "Some k" k] by (auto simp: nth_Cons' split: if_splits)
  next
    case False
    then show ?thesis using Cons.prems Cons.IH [of "k + 1" emp e] by (auto simp: nth_Cons' split: if_splits)
  qed
qed auto

lemma iget_scan_found:
  "iget_scan dev inum k emp is = (Some j, e) \<Longrightarrow>
     k \<le> j \<and> j < k + length is \<and> 0 < i_ref (is ! (j - k)) \<and> i_dev (is ! (j - k)) = dev \<and> i_inum (is ! (j - k)) = inum"
  by (induction "is" arbitrary: k emp) (force simp: nth_Cons' split: if_splits)+

lemma moves_ref:
  assumes "ip < length (itable s)" "\<And>i. i_lock (f i) = i_lock i"
  shows "moves 0 (i_ref (f (itable s ! ip)) - i_ref (itable s ! ip)) 0 s (upd_inode ip f s)"
  using moves_upd_inode [OF assms(1), of f] assms(2) by simp

lemma iget_counts [counts]: "iget dev inum s = Ok (ip, s') \<Longrightarrow> ip < length (itable s) \<and> moves 0 1 0 s s'"
proof -
  assume a: "iget dev inum s = Ok (ip, s')"
  obtain r e where sc: "iget_scan dev inum 0 None (itable s) = (r, e)" by fastforce
  show ?thesis
  proof (cases r)
    case (Some j)
    then have "ip = j" "s' = upd_inode j (\<lambda>i. i\<lparr>i_ref := i_ref i + 1\<rparr>) s" using a sc by (auto simp: iget_def)
    moreover have "j < length (itable s)" using iget_scan_found [of dev inum 0 None "itable s" j e] sc Some by simp
    ultimately show ?thesis using moves_ref [of j s "\<lambda>i. i\<lparr>i_ref := i_ref i + 1\<rparr>"] by simp
  next
    case None
    then have ip: "e = Some ip" "s' = upd_inode ip (\<lambda>i. i\<lparr>i_dev := dev, i_inum := inum, i_ref := 1, i_valid := False\<rparr>) s"
      using a sc by (auto simp: iget_def split: option.splits)
    moreover have "ip < length (itable s) \<and> i_ref (itable s ! ip) = 0"
      using iget_scan_free [of dev inum 0 None "itable s" ip] sc None ip(1) by simp
    ultimately show ?thesis
      using moves_ref [of ip s "\<lambda>i. i\<lparr>i_dev := dev, i_inum := inum, i_ref := 1, i_valid := False\<rparr>"] by simp
  qed
qed

lemma idup_counts: "ip < length (itable s) \<Longrightarrow> idup ip s = (ip', s') \<Longrightarrow> ip' = ip \<and> moves 0 1 0 s s'"
  using moves_ref [of ip s "\<lambda>i. i\<lparr>i_ref := i_ref i + 1\<rparr>"] by (auto simp: idup_def)

lemma quiet_then: "quiet s t \<Longrightarrow> moves a b c t s' = moves a b c s s'"
  using quiet_moves [of s t] by (auto simp: moves_def)

lemma quiet_length: "quiet s t \<Longrightarrow> length (itable t) = length (itable s)"
  using quiet_moves [of s t] by (simp add: moves_def)

lemma ialloc_loop_counts:
  "ialloc_loop pid dev ty is s = Ok (r, s') \<Longrightarrow>
     moves 0 (if r = None then 0 else 1) 0 s s' \<and> (\<forall>ip. r = Some ip \<longrightarrow> ip < length (itable s))"
proof (induction "is" arbitrary: s)
  case (Cons inum "is")
  obtain bp s1 where 1: "f_bread pid dev (IBLOCK inum s) s = Ok (bp, s1)"
    using Cons.prems by (auto simp: bind_res_Ok_iff)
  show ?case
  proof (cases "get_short (64 * (inum mod IPB)) (f_data s1 bp) = 0")
    case True
    then obtain d s2 s3 ip where 2: "f_log_write bp (f_set_data bp d s1) = Ok s2" "f_brelse pid bp s2 = Ok s3"
        "iget dev inum s3 = Ok (ip, s')" "r = Some ip"
      using Cons.prems 1 by (auto simp: bind_res_Ok_iff Let_def)
    have "quiet s s3" using 1 2(1,2) by (auto dest!: account) (simp add: quiet_def)
    then show ?thesis using iget_counts [OF 2(3)] 2(4) by (simp add: quiet_then quiet_length)
  next
    case False
    then obtain s2 where 2: "f_brelse pid bp s1 = Ok s2" "ialloc_loop pid dev ty is s2 = Ok (r, s')"
      using Cons.prems 1 by (auto simp: bind_res_Ok_iff Let_def)
    have "quiet s s2" using 1 2(1) by (auto dest!: account intro: quiet_trans)
    then show ?thesis using Cons.IH [OF 2(2)] by (simp add: quiet_then quiet_length)
  qed
qed simp

lemma ialloc_counts [counts]:
  "ialloc pid dev ty s = Ok (r, s') \<Longrightarrow>
     moves 0 (if r = None then 0 else 1) 0 s s' \<and> (\<forall>ip. r = Some ip \<longrightarrow> ip < length (itable s))"
  unfolding ialloc_def by (rule ialloc_loop_counts)

lemma take_lock:
  assumes "acquiresleep pid (i_lock (itable s ! ip)) = Ok lk" "ip < length (itable s)"
  shows "moves 0 0 1 s (upd_inode ip (\<lambda>i. i\<lparr>i_lock := lk\<rparr>) s)"
  using moves_upd_inode [OF assms(2), of "\<lambda>i. i\<lparr>i_lock := lk\<rparr>"] assms(1)
  by (auto simp: acquiresleep_def split: if_splits)

lemma ilock_counts [counts]:
  "ilock pid ip s = Ok s' \<Longrightarrow> ip < length (itable s) \<longrightarrow> moves 0 0 1 s s'"
proof
  assume a: "ilock pid ip s = Ok s'" and ip: "ip < length (itable s)"
  obtain lk where lk: "acquiresleep pid (i_lock (itable s ! ip)) = Ok lk"
    using a by (auto simp: ilock_def bind_res_Ok_iff split: if_splits)
  let ?t = "upd_inode ip (\<lambda>i. i\<lparr>i_lock := lk\<rparr>) s"
  have "quiet ?t s'"
    using a lk by (auto simp: ilock_def bind_res_Ok_iff Let_def split: if_splits dest!: account) (simp add: quiet_def)
  then show "moves 0 0 1 s s'" using take_lock [OF lk ip] quiet_moves [of ?t s'] by (simp add: moves_def)
qed

lemma iunlock_counts [counts]:
  "iunlock pid ip s = Ok s' \<Longrightarrow> ip < length (itable s) \<longrightarrow> moves 0 0 (-1) s s'"
  using moves_upd_inode [of ip s "\<lambda>i. i\<lparr>i_lock := releasesleep (i_lock i)\<rparr>"]
  by (auto simp: iunlock_def holdingsleep_def releasesleep_def split: if_splits)

lemma drop_ref: "ip < length (itable s) \<Longrightarrow> moves 0 (-1) 0 s (upd_inode ip (\<lambda>i. i\<lparr>i_ref := i_ref i - 1\<rparr>) s)"
  using moves_ref [of ip s "\<lambda>i. i\<lparr>i_ref := i_ref i - 1\<rparr>"] by simp

lemma iput_counts [counts]: "iput pid ip s = Ok s' \<Longrightarrow> ip < length (itable s) \<longrightarrow> moves 0 (-1) 0 s s'"
proof
  assume a: "iput pid ip s = Ok s'" and ip: "ip < length (itable s)"
  let ?i = "itable s ! ip"
  let ?drop = "\<lambda>s. upd_inode ip (\<lambda>i. i\<lparr>i_ref := i_ref i - 1\<rparr>) s"
  show "moves 0 (-1) 0 s s'"
  proof (cases "i_ref ?i = 1 \<and> i_valid ?i \<and> i_nlink ?i = 0")
    case False
    then show ?thesis using a drop_ref [OF ip] by (auto simp: iput_def Let_def)
  next
    case True
    let ?t = "\<lambda>lk. upd_inode ip (\<lambda>i. i\<lparr>i_lock := lk\<rparr>) s"
    let ?u = "\<lambda>s. upd_inode ip (\<lambda>i. i\<lparr>i_valid := False, i_lock := releasesleep (i_lock i)\<rparr>) s"
    obtain lk s1 s2 where 1: "acquiresleep pid (i_lock ?i) = Ok lk" "itrunc pid ip (?t lk) = Ok s1"
        "iupdate pid ip (upd_inode ip (\<lambda>i. i\<lparr>i_type := 0\<rparr>) s1) = Ok s2" "s' = ?drop (?u s2)"
      using a True by (auto simp: iput_def Let_def bind_res_Ok_iff)
    have q: "quiet (?t lk) s2" using 1(2,3) by (auto dest!: account intro: quiet_trans)
    have ip2: "ip < length (itable s2)" using quiet_length [OF q] ip by (simp add: upd_inode_def)
    have "core (itable s2 ! ip) = core (?i\<lparr>i_lock := lk\<rparr>)"
      using quiet_nth [OF q, of ip] ip by (simp add: upd_inode_def)
    moreover have "sl_locked lk" using 1(1) by (auto simp: acquiresleep_def split: if_splits)
    ultimately have "sl_locked (i_lock (itable s2 ! ip))" by (simp add: core_def)
    then have "moves 0 0 (-1) s2 (?u s2)"
      using moves_upd_inode [OF ip2, of "\<lambda>i. i\<lparr>i_valid := False, i_lock := releasesleep (i_lock i)\<rparr>"]
      by (simp add: releasesleep_def)
    moreover have "moves 0 (-1) 0 (?u s2) s'" using drop_ref [of ip "?u s2"] ip2 1(4) by (simp add: upd_inode_def)
    ultimately show ?thesis using take_lock [OF 1(1) ip] quiet_moves [OF q] by (simp add: moves_def)
  qed
qed

lemma iunlockput_counts [counts]:
  "iunlockput pid ip s = Ok s' \<Longrightarrow> ip < length (itable s) \<longrightarrow> moves 0 (-1) (-1) s s'"
  by (auto simp: iunlockput_def bind_res_Ok_iff dest!: counts) (simp_all add: moves_def)

section \<open>Paths through the operations\<close>

text \<open>
  \<open>post r P\<close>: if the operation returns, its result satisfies \<open>P\<close>. The rules in \<open>vcg\<close> step
  through the calls of a function; they carry along how far the three numbers have moved since
  the state \<open>s0\<close> in which the function was called.
\<close>

named_theorems vcg

definition post :: "'a res \<Rightarrow> ('a \<Rightarrow> bool) \<Rightarrow> bool" where
  "post r P \<longleftrightarrow> (\<forall>x. r = Ok x \<longrightarrow> P x)"

lemma post_simps [simp]:
  "post (Ok x) P = P x" "post (Panic m) P" "post Sleeps P" "post (bind_res r f) P = post r (\<lambda>x. post (f x) P)"
  by (auto simp: post_def bind_res_Ok_iff)

lemma postD: "post r P \<Longrightarrow> r = Ok x \<Longrightarrow> P x"
  by (simp add: post_def)

lemma post_if: "(b \<Longrightarrow> post x P) \<Longrightarrow> (\<not> b \<Longrightarrow> post y P) \<Longrightarrow> post (if b then x else y) P"
  by simp

lemma moves_quiet: "moves a b c s0 s \<Longrightarrow> quiet s s' \<Longrightarrow> moves a b c s0 s'"
  using quiet_moves [of s s'] by (simp add: moves_def)

lemma post_quiet:
  assumes "post r (quiet t)" "moves a b c s0 s" "quiet s t" "\<And>s'. moves a b c s0 s' \<Longrightarrow> P s'"
  shows "post r P"
  unfolding post_def
proof (intro allI impI)
  fix s' assume "r = Ok s'"
  then have "quiet t s'" using assms(1) by (simp add: post_def)
  then show "P s'" using assms(2-4) by (meson moves_quiet)
qed

lemma post_quiet2:
  assumes "post r (\<lambda>(x, s'). quiet s s')" "moves a b c s0 s" "\<And>x s'. moves a b c s0 s' \<Longrightarrow> P (x, s')"
  shows "post r P"
  unfolding post_def
proof (intro allI impI)
  fix y assume y: "r = Ok y"
  obtain x s' where "y = (x, s')" by fastforce
  then show "P y" using y assms by (auto simp: post_def intro: moves_quiet)
qed

lemma quiet_calls:
  "post (iupdate pid ip s) (quiet s)" "post (itrunc pid ip s) (quiet s)"
  by (auto simp: post_def dest: account)

lemma quiet_calls2:
  "post (readi pid cout ip dst off n s) (\<lambda>(r, s'). quiet s s')"
  "post (writei pid cin ip src off m s) (\<lambda>(r, s'). quiet s s')"
  by (auto simp: post_def dest: account)

lemmas quiet_posts [vcg] = quiet_calls [THEN post_quiet] quiet_calls2 [THEN post_quiet2]

lemma moves_add: "moves a b c s0 s \<Longrightarrow> moves a' b' c' s s' \<Longrightarrow> moves (a + a') (b + b') (c + c') s0 s'"
  by (simp add: moves_def)

lemma post_counts:
  assumes "post r (\<lambda>s'. ip < length (itable s) \<longrightarrow> moves a' b' c' s s')"
    and "moves a b c s0 s" "ip < length (itable s0)" "\<And>s'. moves (a + a') (b + b') (c + c') s0 s' \<Longrightarrow> P s'"
  shows "post r P"
  unfolding post_def
proof (intro allI impI)
  fix s' assume "r = Ok s'"
  then have "moves a' b' c' s s'" using assms(1,2,3) by (auto simp: moves_def post_def)
  then show "P s'" using assms(2,4) moves_add by blast
qed

lemma count_calls:
  "post (ilock pid ip s) (\<lambda>s'. ip < length (itable s) \<longrightarrow> moves 0 0 1 s s')"
  "post (iunlock pid ip s) (\<lambda>s'. ip < length (itable s) \<longrightarrow> moves 0 0 (-1) s s')"
  "post (iput pid ip s) (\<lambda>s'. ip < length (itable s) \<longrightarrow> moves 0 (-1) 0 s s')"
  "post (iunlockput pid ip s) (\<lambda>s'. ip < length (itable s) \<longrightarrow> moves 0 (-1) (-1) s s')"
  by (simp_all add: post_def counts)

lemmas lock_posts [vcg] = count_calls [THEN post_counts]

lemma iget_post [vcg]:
  assumes "moves a b c s0 s" "\<And>ip s'. ip < length (itable s0) \<Longrightarrow> moves a (b + 1) c s0 s' \<Longrightarrow> P (ip, s')"
  shows "post (iget dev inum s) P"
  unfolding post_def
proof (intro allI impI)
  fix x assume "iget dev inum s = Ok x"
  then obtain ip s' where x: "x = (ip, s')" "iget dev inum s = Ok (ip, s')" by (cases x) auto
  then have "ip < length (itable s0)" using iget_counts [OF x(2)] assms(1) by (simp add: moves_def)
  then show "P x" using x iget_counts [OF x(2)] moves_add [OF assms(1), of 0 1 0 s'] assms(2) by simp
qed

lemma ialloc_post [vcg]:
  assumes "moves a b c s0 s" "\<And>s'. moves a b c s0 s' \<Longrightarrow> P (None, s')"
    "\<And>ip s'. ip < length (itable s0) \<Longrightarrow> moves a (b + 1) c s0 s' \<Longrightarrow> P (Some ip, s')"
  shows "post (ialloc pid dev ty s) P"
  unfolding post_def
proof (intro allI impI)
  fix x assume "ialloc pid dev ty s = Ok x"
  then obtain r s' where x: "x = (r, s')" "ialloc pid dev ty s = Ok (r, s')" by (cases x) auto
  have "length (itable s) = length (itable s0)" using assms(1) by (simp add: moves_def)
  then show "P x"
    using x(1) ialloc_counts [OF x(2)] moves_add [OF assms(1), of 0 _ 0 s'] assms by (cases r) fastforce+
qed

lemma dirlookup_loop_post:
  assumes "moves a b c s0 s" "\<And>s'. moves a b c s0 s' \<Longrightarrow> P (None, s')"
    "\<And>ip off s'. ip < length (itable s0) \<Longrightarrow> moves a (b + 1) c s0 s' \<Longrightarrow> P (Some (ip, off), s')"
  shows "post (dirlookup_loop pid dp name offs s) P"
  using assms(1)
proof (induction offs arbitrary: s)
  case (Cons off offs)
  show ?case
    unfolding dirlookup_loop.simps readi_kernel_def
    by (simp split: prod.splits, rule quiet_posts(3) [OF Cons.prems])
      (auto intro!: Cons.IH assms(3) elim!: iget_post)
qed (use assms(2) in simp)

lemma dirlookup_post [vcg]:
  assumes "moves a b c s0 s" "\<And>s'. moves a b c s0 s' \<Longrightarrow> P (None, s')"
    "\<And>ip off s'. ip < length (itable s0) \<Longrightarrow> moves a (b + 1) c s0 s' \<Longrightarrow> P (Some (ip, off), s')"
  shows "post (dirlookup pid dp name s) P"
  unfolding dirlookup_def by (rule post_if, simp) (rule dirlookup_loop_post [OF assms])

lemma free_slot_post [vcg]:
  assumes "moves a b c s0 s" "\<And>off s'. moves a b c s0 s' \<Longrightarrow> P (off, s')"
  shows "post (free_slot pid dp offs fin s) P"
  using assms(1)
proof (induction offs arbitrary: s)
  case (Cons off offs)
  show ?case
    unfolding free_slot.simps readi_kernel_def
    by (simp split: prod.splits, rule quiet_posts(3) [OF Cons.prems]) (auto intro!: Cons.IH assms(2))
qed (use assms(2) in simp)

lemma dirlink_post [vcg]:
  assumes "moves a b c s0 s" "\<And>r s'. moves a b c s0 s' \<Longrightarrow> P (r, s')"
  shows "post (dirlink pid dp name inum s) P"
  unfolding dirlink_def writei_kernel_def
  by (insert assms(1)) (erule vcg | simp add: Let_def split del: if_split | rule assms(2))+

lemma namex_loop_post:
  assumes "moves a b c s0 s" "ip < length (itable s0)" "\<And>s'. moves a (b - 1) c s0 s' \<Longrightarrow> P (None, s')"
    "\<And>ip name s'. ip < length (itable s0) \<Longrightarrow> moves a b c s0 s' \<Longrightarrow> P (Some (ip, name), s')"
  shows "post (namex_loop pid parent path name ip s) P"
  using assms(1,2)
proof (induction "length path" arbitrary: path name ip s rule: less_induct)
  case less
  show ?case
  proof (cases "skipelem path")
    case None
    show ?thesis
      by (subst namex_loop.simps, insert less.prems)
        (erule vcg | simp add: None split del: if_split | rule assms(3,4) post_if)+
  next
    case (Some p)
    obtain path' nm where p: "p = (path', nm)" by fastforce
    then have sh: "length path' < length path" using skipelem_shorter Some by simp
    show ?thesis
      by (subst namex_loop.simps, insert less.prems)
        (erule vcg | simp add: Some p split del: if_split | rule post_if assms(3,4) less.hyps [OF sh])+
  qed
qed

lemma namex_post:
  assumes "moves a b c s0 s" "cwd < length (itable s0)" "\<And>s'. moves a b c s0 s' \<Longrightarrow> P (None, s')"
    "\<And>ip name s'. ip < length (itable s0) \<Longrightarrow> moves a (b + 1) c s0 s' \<Longrightarrow> P (Some (ip, name), s')"
  shows "post (namex pid cwd path parent s) P"
proof -
  obtain s1 where i: "idup cwd s = (cwd, s1)" by (simp add: idup_def)
  have "moves 0 1 0 s s1" using idup_counts [OF _ i] assms(1,2) by (simp add: moves_def)
  then have d: "moves a (b + 1) c s0 s1" using moves_add [OF assms(1), of 0 1 0] by simp
  have loop: "post (namex_loop pid parent path [] ip t) P" if "moves a (b + 1) c s0 t" "ip < length (itable s0)" for ip t
    by (rule namex_loop_post [OF that]) (simp_all add: assms(3,4))
  show ?thesis
    unfolding namex_def post_simps by (rule post_if, rule iget_post [OF assms(1)]) (simp_all add: i loop d assms(2))
qed

lemma namei_post [vcg]:
  assumes "moves a b c s0 s" "cwd < length (itable s0)" "\<And>s'. moves a b c s0 s' \<Longrightarrow> P (None, s')"
    "\<And>ip s'. ip < length (itable s0) \<Longrightarrow> moves a (b + 1) c s0 s' \<Longrightarrow> P (Some ip, s')"
  shows "post (namei pid cwd path s) P"
  unfolding namei_def post_simps by (rule namex_post [OF assms(1,2)]) (simp_all add: assms(3,4))

lemma nameiparent_post [vcg]:
  assumes "moves a b c s0 s" "cwd < length (itable s0)" "\<And>s'. moves a b c s0 s' \<Longrightarrow> P (None, s')"
    "\<And>ip name s'. ip < length (itable s0) \<Longrightarrow> moves a (b + 1) c s0 s' \<Longrightarrow> P (Some (ip, name), s')"
  shows "post (nameiparent pid cwd path s) P"
  unfolding nameiparent_def by (rule namex_post [OF assms])

section \<open>System calls\<close>

lemma install_loop_outstanding: "install_loop pid r ts s = Ok s' \<Longrightarrow> outstanding s' = outstanding s"
  by (induction ts arbitrary: s) (fastforce simp: bind_res_Ok_iff)+

lemma write_log_loop_outstanding: "write_log_loop pid ts s = Ok s' \<Longrightarrow> outstanding s' = outstanding s"
  by (induction ts arbitrary: s) (fastforce simp: bind_res_Ok_iff)+

lemma write_head_outstanding: "write_head pid s = Ok s' \<Longrightarrow> outstanding s' = outstanding s"
  by (auto simp: write_head_def bind_res_Ok_iff Let_def)

lemma commit_outstanding: "commit pid s = Ok s' \<Longrightarrow> outstanding s' = outstanding s"
  by (auto simp: commit_def write_log_def install_trans_def bind_res_Ok_iff split: if_splits
    dest!: install_loop_outstanding write_log_loop_outstanding write_head_outstanding)

lemma begin_op_post [vcg]:
  assumes "moves a b c s0 s" "\<And>s'. moves (a + 1) b c s0 s' \<Longrightarrow> P s'"
  shows "post (f_begin_op s) P"
  using assms by (auto simp: f_begin_op_def begin_op_def moves_def total_refs_def locked_inodes_def)

lemma end_op_post [vcg]:
  assumes "moves a b c s0 s" "\<And>s'. moves (a - 1) b c s0 s' \<Longrightarrow> P s'"
  shows "post (f_end_op pid s) P"
  unfolding post_def
proof (intro allI impI)
  fix s' assume "f_end_op pid s = Ok s'"
  then show "P s'"
    using assms(1)
    by (intro assms(2)) (auto simp: f_end_op_def end_op_def moves_def total_refs_def locked_inodes_def Let_def
      bind_res_Ok_iff commit_outstanding split: if_splits)
qed

lemma link_bad_post [vcg]:
  assumes "moves a b c s0 s" "ip < length (itable s0)" "\<And>s'. moves (a - 1) (b - 1) c s0 s' \<Longrightarrow> P (-1, s')"
  shows "post (link_bad pid ip s) P"
  unfolding link_bad_def end_with_def
  by (insert assms(1,2)) (erule vcg | simp split del: if_split | rule assms(3))+

lemma begin_start: "(\<And>s'. moves 1 0 0 s s' \<Longrightarrow> P s') \<Longrightarrow> post (f_begin_op s) P"
  using begin_op_post [OF moves_refl [of s]] by simp

lemma sys_link_post:
  assumes "cwd < length (itable s)"
  shows "post (sys_link pid cwd old new s) (\<lambda>(r, s'). moves 0 0 0 s s')"
  unfolding sys_link_def end_with_def
  by (insert assms, cases old; cases new)
    (erule vcg | simp split del: if_split | rule post_if begin_start)+

lemma dirempty_loop_post:
  assumes "moves a b c s0 s" "\<And>r s'. moves a b c s0 s' \<Longrightarrow> P (r, s')"
  shows "post (dirempty_loop pid dp offs s) P"
  using assms(1)
proof (induction offs arbitrary: s)
  case (Cons off offs)
  show ?case
    unfolding dirempty_loop.simps readi_kernel_def
    by (simp split: prod.splits, rule quiet_posts(3) [OF Cons.prems]) (auto intro!: Cons.IH assms(2))
qed (use assms(2) in simp)

lemma isdirempty_post [vcg]:
  assumes "moves a b c s0 s" "\<And>r s'. moves a b c s0 s' \<Longrightarrow> P (r, s')"
  shows "post (isdirempty pid dp s) P"
  unfolding isdirempty_def using assms by (rule dirempty_loop_post)

lemma unlink_bad_post [vcg]:
  assumes "moves a b c s0 s" "dp < length (itable s0)" "\<And>s'. moves (a - 1) (b - 1) (c - 1) s0 s' \<Longrightarrow> P (-1, s')"
  shows "post (unlink_bad pid dp s) P"
  unfolding unlink_bad_def end_with_def
  by (insert assms(1,2)) (erule vcg | simp split del: if_split | rule assms(3))+

lemma sys_unlink_post:
  assumes "cwd < length (itable s)"
  shows "post (sys_unlink pid cwd path s) (\<lambda>(r, s'). moves 0 0 0 s s')"
  unfolding sys_unlink_def end_with_def writei_kernel_def
  by (insert assms, cases path) (erule vcg | simp split del: if_split | rule post_if begin_start)+

lemma create_fail_post [vcg]:
  assumes "moves a b c s0 s" "ip < length (itable s0)" "dp < length (itable s0)"
    "\<And>s'. moves a (b - 2) (c - 2) s0 s' \<Longrightarrow> P (None, s')"
  shows "post (create_fail pid ip dp s) P"
  unfolding create_fail_def
  by (insert assms(1-3)) (erule vcg | simp split del: if_split | rule assms(4))+

lemma link_dots_post [vcg]:
  assumes "moves a b c s0 s" "\<And>r s'. moves a b c s0 s' \<Longrightarrow> P (r, s')"
  shows "post (link_dots pid ip dp s) P"
  unfolding link_dots_def by (insert assms(1)) (erule vcg | simp split del: if_split | rule post_if assms(2))+

lemma create_post [vcg]:
  assumes "moves a b c s0 s" "cwd < length (itable s0)" "\<And>s'. moves a b c s0 s' \<Longrightarrow> P (None, s')"
    "\<And>ip s'. ip < length (itable s0) \<Longrightarrow> moves a (b + 1) (c + 1) s0 s' \<Longrightarrow> P (Some ip, s')"
  shows "post (create pid cwd path ty major minor s) P"
  unfolding create_def
  by (insert assms(1,2))
    (erule vcg | simp split del: if_split | rule post_if assms(3,4) | simp add: add.commute)+

lemma sys_mkdir_post:
  assumes "cwd < length (itable s)"
  shows "post (sys_mkdir pid cwd path s) (\<lambda>(r, s'). moves 0 0 0 s s')"
  unfolding sys_mkdir_def end_with_def
  by (insert assms, cases path) (erule vcg | simp split del: if_split | rule post_if begin_start)+

lemma sys_mknod_post:
  assumes "cwd < length (itable s)"
  shows "post (sys_mknod pid cwd path major minor s) (\<lambda>(r, s'). moves 0 0 0 s s')"
  unfolding sys_mknod_def end_with_def
  by (insert assms, cases path) (erule vcg | simp split del: if_split | rule post_if begin_start)+

end
