(* ===== verification/File_Account.thy ===== *)
theory File_Account
  imports Fs_Account
begin

text \<open>
  The books of the file table. Each open entry for an inode or a device owns one reference to
  the inode table, and each open descriptor of the process one reference to the file table.
  \<open>books a b c d k k'\<close> says by how much the numbers of open transactions, of inode references
  not owned by the file table, of inode locks, and of file references not owned by a descriptor
  differ. Every system call keeps all four.
\<close>

definition is_inode :: "file_entry \<Rightarrow> bool" where
  "is_inode f \<longleftrightarrow> f_type f = FD_INODE \<or> f_type f = FD_DEVICE"

definition inode_files :: "kio \<Rightarrow> int" where
  "inode_files k = sum_list (map (\<lambda>f. if is_inode f then 1 else 0) (ftable k))"

definition file_refs :: "kio \<Rightarrow> int" where
  "file_refs k = sum_list (map f_ref (ftable k))"

definition open_fds :: "kio \<Rightarrow> int" where
  "open_fds k = sum_list (map (\<lambda>x. if x = None then 0 else 1) (ofile k))"

definition books :: "int \<Rightarrow> int \<Rightarrow> int \<Rightarrow> int \<Rightarrow> kio \<Rightarrow> kio \<Rightarrow> bool" where
  "books a b c d k k' \<longleftrightarrow> outstanding (flog (kfs k')) = outstanding (flog (kfs k)) + a \<and>
     total_refs (kfs k') - inode_files k' = total_refs (kfs k) - inode_files k + b \<and>
     locked_inodes (kfs k') = locked_inodes (kfs k) + c \<and>
     file_refs k' - open_fds k' = file_refs k - open_fds k + d \<and>
     length (itable (kfs k')) = length (itable (kfs k)) \<and> length (ftable k') = length (ftable k)"

text \<open>
  A free entry of the file table has no type, entries for inodes point into the inode table,
  descriptors into the file table, and the process has \<^verbatim>\<open>NOFILE\<close> descriptors.
\<close>

definition kio_ok :: "kio \<Rightarrow> bool" where
  "kio_ok k \<longleftrightarrow> (\<forall>f \<in> set (ftable k). (f_ref f = 0 \<longrightarrow> f_type f = FD_NONE) \<and>
       (is_inode f \<longrightarrow> f_ip f < length (itable (kfs k)))) \<and>
     (\<forall>f. Some f \<in> set (ofile k) \<longrightarrow> f < length (ftable k)) \<and> length (ofile k) = NOFILE \<and>
     kcwd k < length (itable (kfs k))"

definition acct :: "int \<Rightarrow> int \<Rightarrow> int \<Rightarrow> int \<Rightarrow> kio \<Rightarrow> kio \<Rightarrow> bool" where
  "acct a b c d k k' \<longleftrightarrow> books a b c d k k' \<and> kio_ok k'"

lemma acct_refl: "kio_ok k \<Longrightarrow> acct 0 0 0 0 k k"
  by (simp add: acct_def books_def)

lemma acct_trans: "acct a b c d k0 k \<Longrightarrow> acct a' b' c' d' k k' \<Longrightarrow> acct (a + a') (b + b') (c + c') (d + d') k0 k'"
  by (simp add: acct_def books_def)

lemma acct_fs:
  assumes "acct a b c d k0 k" "moves a' b' c' (kfs k) s'"
  shows "acct (a + a') (b + b') (c + c') d k0 (k\<lparr>kfs := s'\<rparr>)"
  using assms by (auto simp: acct_def books_def moves_def kio_ok_def inode_files_def file_refs_def open_fds_def)

named_theorems kvcg

lemma post_in_fs [simp]:
  "post (in_fs op k) P = post (op (kfs k)) (\<lambda>s. P (k\<lparr>kfs := s\<rparr>))"
  "post (in_fsr op' k) P' = post (op' (kfs k)) (\<lambda>(x, s). P' (x, k\<lparr>kfs := s\<rparr>))"
  by (simp_all add: in_fs_def in_fsr_def case_prod_unfold)

lemma acct_call:
  assumes "post r (\<lambda>s'. ip < length (itable (kfs k)) \<longrightarrow> moves a' b' c' (kfs k) s')"
    and "acct a b c d k0 k" "ip < length (itable (kfs k0))"
    and "\<And>s'. acct (a + a') (b + b') (c + c') d k0 (k\<lparr>kfs := s'\<rparr>) \<Longrightarrow> P s'"
  shows "post r P"
  unfolding post_def
proof (intro allI impI)
  fix s' assume "r = Ok s'"
  then have "moves a' b' c' (kfs k) s'" using assms(1-3) by (auto simp: post_def acct_def books_def)
  then show "P s'" using assms(2,4) acct_fs by blast
qed

lemma acct_quiet:
  assumes "post r (quiet (kfs k))" "acct a b c d k0 k" "\<And>s'. acct a b c d k0 (k\<lparr>kfs := s'\<rparr>) \<Longrightarrow> P s'"
  shows "post r P"
  using assms acct_fs [OF assms(2), of 0 0 0] by (auto simp: post_def dest!: quiet_moves)

lemma acct_quiet2:
  assumes "post r (\<lambda>(x, s'). quiet (kfs k) s')" "acct a b c d k0 k"
    "\<And>x s'. acct a b c d k0 (k\<lparr>kfs := s'\<rparr>) \<Longrightarrow> P (x, s')"
  shows "post r P"
  using assms acct_fs [OF assms(2), of 0 0 0] by (auto simp: post_def dest!: quiet_moves)

text \<open>The same with the file system \<open>s\<close> written out, as it is after a call.\<close>

lemmas acct_call' = acct_call [of _ _ "k\<lparr>kfs := s\<rparr>" for k s, simplified]
lemmas acct_quiet' = acct_quiet [of _ "k\<lparr>kfs := s\<rparr>" for k s, simplified]
lemmas acct_quiet2' = acct_quiet2 [of _ "k\<lparr>kfs := s\<rparr>" for k s, simplified]

lemmas fs_calls [kvcg] = count_calls [THEN acct_call] quiet_calls [THEN acct_quiet] quiet_calls2 [THEN acct_quiet2]
  count_calls [THEN acct_call'] quiet_calls [THEN acct_quiet'] quiet_calls2 [THEN acct_quiet2']

lemma begin_acct [kvcg]:
  assumes "acct a b c d k0 k" "\<And>s'. acct (a + 1) b c d k0 (k\<lparr>kfs := s'\<rparr>) \<Longrightarrow> P s'"
  shows "post (f_begin_op (kfs k)) P"
  by (rule begin_op_post [OF moves_refl]) (use assms acct_fs [OF assms(1), of 1 0 0] in simp)

lemma end_acct [kvcg]:
  assumes "acct a b c d k0 k" "\<And>s'. acct (a - 1) b c d k0 (k\<lparr>kfs := s'\<rparr>) \<Longrightarrow> P s'"
  shows "post (f_end_op pid (kfs k)) P"
  by (rule end_op_post [OF moves_refl]) (use assms acct_fs [OF assms(1), of "-1" 0 0] in simp)

lemmas op_calls [kvcg] = begin_acct [of _ _ _ _ _ "k\<lparr>kfs := s\<rparr>" for k s, simplified]
  end_acct [of _ _ _ _ _ "k\<lparr>kfs := s\<rparr>" for k s, simplified]

section \<open>The file table\<close>

lemma acct_upd_file:
  assumes "acct a b c d k0 k" "f < length (ftable k)" and x: "x = g (ftable k ! f)"
    and "f_ref x = 0 \<longrightarrow> f_type x = FD_NONE" "is_inode x \<longrightarrow> f_ip x < length (itable (kfs k0))"
  shows "acct a (b + (if is_inode (ftable k ! f) then 1 else 0) - (if is_inode x then 1 else 0)) c
    (d + f_ref x - f_ref (ftable k ! f)) k0 (upd_file f g k)"
  using assms unfolding acct_def books_def kio_ok_def
  by (auto simp: upd_file_def inode_files_def file_refs_def open_fds_def sum_list_update_int
      dest!: set_update_subset_insert [THEN subsetD])

lemma acct_set_fd:
  assumes "acct a b c d k0 k" "fd < length (ofile k)" "\<forall>f. x = Some f \<longrightarrow> f < length (ftable k)"
  shows "acct a b c (d + (if ofile k ! fd = None then 0 else 1) - (if x = None then 0 else 1)) k0
    (k\<lparr>ofile := (ofile k)[fd := x]\<rparr>)"
  using assms unfolding acct_def books_def kio_ok_def
  by (auto simp: inode_files_def file_refs_def open_fds_def sum_list_update_int
      dest!: set_update_subset_insert [THEN subsetD])

lemma acct_same:
  "acct a b c d k0 (k\<lparr>pipes := p\<rparr>) = acct a b c d k0 k" "acct a b c d k0 (k\<lparr>freed := q\<rparr>) = acct a b c d k0 k"
  "acct a b c d k0 (k\<lparr>kcons := r\<rparr>) = acct a b c d k0 k" "acct a b c d k0 (k\<lparr>kuart := u\<rparr>) = acct a b c d k0 k"
  by (simp_all add: acct_def books_def kio_ok_def inode_files_def file_refs_def open_fds_def)

declare acct_same [simp]

lemma first_free_nth: "first_free k fs = Some j \<Longrightarrow> k \<le> j \<and> j < k + length fs \<and> f_ref (fs ! (j - k)) = 0"
  by (induction fs arbitrary: k) (force simp: nth_Cons' split: if_splits)+

lemma fd_scan_nth: "fd_scan k xs = Some j \<Longrightarrow> k \<le> j \<and> j < k + length xs \<and> xs ! (j - k) = None"
  by (induction xs arbitrary: k) (force simp: nth_Cons' split: if_splits)+


lemma acct_ip:
  assumes "acct a b c d k0 k" "f < length (ftable k)" "is_inode (ftable k ! f)"
  shows "f_ip (ftable k ! f) < length (itable (kfs k0))"
proof -
  have "ftable k ! f \<in> set (ftable k)" using assms(2) by simp
  then show ?thesis using assms(1,3) by (auto simp: acct_def books_def kio_ok_def)
qed

lemma acct_length:
  "acct a b c d k0 k \<Longrightarrow> length (ftable k) = length (ftable k0)" "acct a b c d k0 k \<Longrightarrow> length (ofile k) = NOFILE"
  "acct a b c d k0 k \<Longrightarrow> kcwd k < length (itable (kfs k0))"
  by (auto simp: acct_def books_def kio_ok_def)

lemma acct_upd_keep:
  assumes "acct a b c d k0 k" "f < length (ftable k)" "x = ftable k ! f"
    and "f_ref (g x) = f_ref x" "is_inode (g x) = is_inode x" "f_ip (g x) = f_ip x" "f_ref x = 0 \<longrightarrow> f_type (g x) = FD_NONE"
  shows "acct a b c d k0 (upd_file f g k)"
  using acct_upd_file [OF assms(1,2) refl, of g] acct_ip [OF assms(1,2)] assms(3-7) by (auto split: if_splits)

lemma ball_map:
  assumes "map Q xs = map Q ys"
  shows "(\<forall>x \<in> set xs. Q x) = (\<forall>y \<in> set ys. Q y)"
proof -
  have "(\<forall>x \<in> set zs. Q x) = (\<forall>p \<in> set (map Q zs). p)" for zs by simp
  then show ?thesis using assms by metis
qed

lemma map_advance:
  assumes "\<And>x o1. h (x\<lparr>f_off := o1\<rparr>) = h x"
  shows "map h (ftable (advance f r k)) = map h (ftable k)"
proof -
  have "map h ((ftable k)[f := (ftable k ! f)\<lparr>f_off := o1\<rparr>]) = map h (ftable k)" for o1
    by (cases "f < length (ftable k)") (simp_all add: map_update assms list_update_beyond list_update_same_conv)
  then show ?thesis by (simp add: advance_def upd_file_def)
qed

lemma advance_simps [simp]:
  "kfs (advance f r k) = kfs k" "(advance f r k)\<lparr>kfs := s\<rparr> = advance f r (k\<lparr>kfs := s\<rparr>)"
  "ofile (advance f r k) = ofile k" "kcwd (advance f r k) = kcwd k" "length (ftable (advance f r k)) = length (ftable k)"
  by (simp_all add: advance_def upd_file_def)

lemma advance_entry:
  assumes "f < length (ftable k)"
  shows "f_ip (ftable (advance f r k) ! f) = f_ip (ftable k ! f)" "is_inode (ftable (advance f r k) ! f) = is_inode (ftable k ! f)"
  using assms by (simp_all add: advance_def upd_file_def is_inode_def)

lemma acct_advance [simp]: "acct a b c d k0 (advance f r k) = acct a b c d k0 k"
proof -
  let ?Q = "\<lambda>f. (f_ref f = 0 \<longrightarrow> f_type f = FD_NONE) \<and> (is_inode f \<longrightarrow> f_ip f < length (itable (kfs k)))"
  have "inode_files (advance f r k) = inode_files k" "file_refs (advance f r k) = file_refs k"
    unfolding inode_files_def file_refs_def by (simp_all add: map_advance is_inode_def)
  moreover have "map ?Q (ftable (advance f r k)) = map ?Q (ftable k)" by (rule map_advance) (simp add: is_inode_def)
  then have "(\<forall>f \<in> set (ftable (advance f r k)). ?Q f) = (\<forall>f \<in> set (ftable k). ?Q f)"
    by (rule ball_map)
  ultimately show ?thesis by (simp add: acct_def books_def kio_ok_def open_fds_def)
qed

lemma filealloc_acct:
  assumes "filealloc k = (r, k')" "acct a b c d k0 k"
  shows "case r of None \<Rightarrow> k' = k
    | Some f \<Rightarrow> f < length (ftable k) \<and> f_ref (ftable k ! f) = 0 \<and> k' = upd_file f (\<lambda>x. x\<lparr>f_ref := 1\<rparr>) k \<and>
        f_type (ftable k ! f) = FD_NONE \<and> acct a b c (d + 1) k0 k'"
proof (cases r)
  case (Some f)
  then have f: "first_free 0 (ftable k) = Some f" "k' = upd_file f (\<lambda>x. x\<lparr>f_ref := 1\<rparr>) k"
    using assms(1) by (auto simp: filealloc_def split: option.splits)
  have l: "f < length (ftable k)" "f_ref (ftable k ! f) = 0" using first_free_nth [OF f(1)] by simp_all
  then have t: "f_type (ftable k ! f) = FD_NONE" using assms(2) by (simp add: acct_def kio_ok_def)
  have "acct a b c (d + 1) k0 k'"
    using acct_upd_file [OF assms(2) l(1) refl, of "\<lambda>x. x\<lparr>f_ref := 1\<rparr>"] t l f(2) by (simp add: is_inode_def)
  then show ?thesis using Some f(2) l t by simp
qed (use assms(1) in \<open>auto simp: filealloc_def split: option.splits\<close>)

lemma fdalloc_acct:
  assumes "fdalloc f k = (r, k')" "acct a b c d k0 k" "f < length (ftable k)"
  shows "case r of None \<Rightarrow> k' = k
    | Some fd \<Rightarrow> fd < length (ofile k) \<and> k' = k\<lparr>ofile := (ofile k)[fd := Some f]\<rparr> \<and> acct a b c (d - 1) k0 k'"
proof (cases r)
  case (Some fd)
  then have f: "fd_scan 0 (ofile k) = Some fd" "k' = k\<lparr>ofile := (ofile k)[fd := Some f]\<rparr>"
    using assms(1) by (auto simp: fdalloc_def split: option.splits)
  have "fd < length (ofile k)" "ofile k ! fd = None" using fd_scan_nth [OF f(1)] by simp_all
  then show ?thesis using acct_set_fd [OF assms(2), of fd "Some f"] assms(3) Some f(2) by simp
qed (use assms(1) in \<open>auto simp: fdalloc_def split: option.splits\<close>)

lemma fileclose_post [kvcg]:
  assumes "acct a b c d k0 k" "f < length (ftable k)" "\<And>k'. acct a b c (d - 1) k0 k' \<Longrightarrow> P k'"
  shows "post (fileclose pid f k) P"
proof (cases "f_ref (ftable k ! f) < 1")
  case False
  let ?x = "ftable k ! f"
  let ?k1 = "upd_file f (\<lambda>x. x\<lparr>f_ref := f_ref x - 1\<rparr>) k"
  let ?k2 = "upd_file f (\<lambda>x. x\<lparr>f_ref := 0, f_type := FD_NONE\<rparr>) ?k1"
  have x1: "ftable ?k1 ! f = ?x\<lparr>f_ref := f_ref ?x - 1\<rparr>" using assms(2) by (simp add: upd_file_def)
  have ok: "is_inode ?x \<longrightarrow> f_ip ?x < length (itable (kfs k0))"
    using acct_ip [OF assms(1,2)] by blast
  show ?thesis
  proof (cases "f_ref ?x = 1")
    case False
    have "acct a b c (d - 1) k0 ?k1"
      using acct_upd_file [OF assms(1,2) refl, of "\<lambda>x. x\<lparr>f_ref := f_ref x - 1\<rparr>"] ok False by (auto simp: is_inode_def)
    then show ?thesis using assms(3) False \<open>\<not> f_ref ?x < 1\<close> x1 by (simp add: fileclose_def)
  next
    case True
    have k2: "?k2 = upd_file f (\<lambda>x. x\<lparr>f_ref := 0, f_type := FD_NONE\<rparr>) k"
      using assms(2) by (simp add: upd_file_def)
    have A: "acct a (b + (if is_inode ?x then 1 else 0)) c (d - 1) k0 ?k2"
      unfolding k2 using acct_upd_file [OF assms(1,2) refl, of "\<lambda>x. x\<lparr>f_ref := 0, f_type := FD_NONE\<rparr>"] True
      by (simp add: is_inode_def)
    show ?thesis
    proof (cases "is_inode ?x")
      case False
      then show ?thesis using A assms(3) True x1
        by (cases "f_type ?x") (auto simp: fileclose_def Let_def is_inode_def close_pipe_def split: prod.splits if_splits)
    next
      case i: True
      have "post (bind_res (in_fs f_begin_op ?k2) (\<lambda>k. bind_res (in_fs (iput pid (f_ip ?x)) k) (in_fs (f_end_op pid)))) P"
        by (insert A i ok) (erule kvcg | simp | rule assms(3))+
      then show ?thesis using i True x1
        by (cases "f_type ?x") (simp_all add: fileclose_def Let_def is_inode_def)
    qed
  qed
qed (simp add: fileclose_def)


lemma pipealloc_post [kvcg]:
  assumes "acct a b c d k0 k" "\<And>k'. acct a b c d k0 k' \<Longrightarrow> P (None, k')"
    "\<And>f0 f1 k'. f0 < length (ftable k0) \<Longrightarrow> f1 < length (ftable k0) \<Longrightarrow> acct a b c (d + 2) k0 k' \<Longrightarrow> P (Some (f0, f1), k')"
  shows "post (pipealloc pid page k) P"
proof -
  obtain r k1 where 1: "filealloc k = (r, k1)" by fastforce
  show ?thesis
  proof (cases r)
    case None
    then show ?thesis using 1 filealloc_acct [OF 1 assms(1)] assms(1,2) by (simp add: pipealloc_def)
  next
    case r: (Some f0)
    have f0: "f0 < length (ftable k)" "k1 = upd_file f0 (\<lambda>x. x\<lparr>f_ref := 1\<rparr>) k" "f_type (ftable k ! f0) = FD_NONE"
        "acct a b c (d + 1) k0 k1"
      using filealloc_acct [OF 1 assms(1)] r by auto
    obtain r' k2 where 2: "filealloc k1 = (r', k2)" by fastforce
    have l1: "f0 < length (ftable k1)" using f0(1,2) by (simp add: upd_file_def)
    show ?thesis
    proof (cases r')
      case None
      then have "k2 = k1" using filealloc_acct [OF 2 f0(4)] by simp
      then show ?thesis using 1 2 r None
        by (simp add: pipealloc_def) (rule fileclose_post [OF f0(4) l1], simp add: assms(2))
    next
      case r': (Some f1)
      have f1: "f1 < length (ftable k1)" "k2 = upd_file f1 (\<lambda>x. x\<lparr>f_ref := 1\<rparr>) k1" "f_type (ftable k1 ! f1) = FD_NONE"
          "f_ref (ftable k1 ! f1) = 0" "acct a b c (d + 2) k0 k2"
        using filealloc_acct [OF 2 f0(4)] r' by (auto simp: add.commute)
      have ne: "f1 \<noteq> f0" using f1(4) f0 by (auto simp: upd_file_def)
      have t: "f0 < length (ftable k2)" "f1 < length (ftable k2)"
          "ftable k2 ! f0 = (ftable k ! f0)\<lparr>f_ref := 1\<rparr>" "ftable k2 ! f1 = (ftable k1 ! f1)\<lparr>f_ref := 1\<rparr>"
        using f0 f1 ne by (auto simp: upd_file_def)
      show ?thesis
      proof (cases "page = 0")
        case True
        have "f1 < length (ftable k')" if "acct a b c (d + 2 - 1) k0 k'" for k'
          using acct_length(1) [OF that] acct_length(1) [OF f1(5)] t(2) by simp
        then have "post (bind_res (fileclose pid f0 k2) (\<lambda>k. bind_res (fileclose pid f1 k) (\<lambda>k. Ok (None, k)))) P"
          unfolding post_simps
          by (intro fileclose_post [OF f1(5) t(1)]) (rule fileclose_post, assumption, simp, rule assms(2), simp)
        then show ?thesis using 1 2 r r' True by (simp add: pipealloc_def)
      next
        case False
        let ?g0 = "\<lambda>x. x\<lparr>f_type := FD_PIPE, f_readable := True, f_writable := False, f_pipe := page\<rparr>"
        let ?g1 = "\<lambda>x. x\<lparr>f_type := FD_PIPE, f_readable := False, f_writable := True, f_pipe := page\<rparr>"
        let ?k = "k2\<lparr>pipes := (pipes k2)(page := new_pipe (pdata (pipes k2 page)))\<rparr>"
        have a2: "acct a b c (d + 2) k0 ?k" using f1(5) by simp
        have "acct a b c (d + 2) k0 (upd_file f0 ?g0 ?k)"
          by (rule acct_upd_keep [OF a2 _ refl]) (use t f0(3) in \<open>simp_all add: is_inode_def\<close>)
        moreover have "f1 < length (ftable (upd_file f0 ?g0 ?k))" "ftable (upd_file f0 ?g0 ?k) ! f1 = (ftable k1 ! f1)\<lparr>f_ref := 1\<rparr>"
          using t ne by (simp_all add: upd_file_def)
        ultimately have "acct a b c (d + 2) k0 (upd_file f1 ?g1 (upd_file f0 ?g0 ?k))"
          by (rule acct_upd_keep [OF _ _ sym]) (use f1(3) in \<open>simp_all add: is_inode_def\<close>)
        then show ?thesis
          using 1 2 r r' False t acct_length(1) [OF f1(5)] assms(3) by (simp add: pipealloc_def Let_def)
      qed
    qed
  qed
qed

section \<open>The system calls keep the books\<close>

lemma argfd_file:
  assumes "argfd fd k = Some (i, f)" "acct a b c d k0 k"
  shows "i < length (ofile k)" "ofile k ! i = Some f" "f < length (ftable k)"
proof -
  have l: "length (ofile k) = NOFILE" using acct_length(2) [OF assms(2)] .
  show i: "i < length (ofile k)" "ofile k ! i = Some f"
    using assms(1) l by (auto simp: argfd_def split: if_splits option.splits)
  have "Some f \<in> set (ofile k)" using i nth_mem [of i "ofile k"] by simp
  then show "f < length (ftable k)" using assms(2) by (auto simp: acct_def kio_ok_def)
qed

lemma sys_dup_post: "acct a b c d k0 k \<Longrightarrow> post (sys_dup fd k) (\<lambda>(r, k'). acct a b c d k0 k')"
proof -
  assume A: "acct a b c d k0 k"
  show ?thesis
  proof (cases "argfd fd k")
    case (Some p)
    obtain i f where p: "argfd fd k = Some (i, f)" using Some by (cases p) auto
    have f: "f < length (ftable k)" using argfd_file(3) [OF p A] .
    obtain r k' where r: "fdalloc f k = (r, k')" by fastforce
    show ?thesis
    proof (cases r)
      case None
      then show ?thesis using p r fdalloc_acct [OF r A f] A by (simp add: sys_dup_def)
    next
      case (Some fd')
      then have k': "k' = k\<lparr>ofile := (ofile k)[fd' := Some f]\<rparr>" "acct a b c (d - 1) k0 k'"
        using fdalloc_acct [OF r A f] by auto
      have "acct a b c d k0 (upd_file f (\<lambda>x. x\<lparr>f_ref := f_ref x + 1\<rparr>) k')" if "1 \<le> f_ref (ftable k' ! f)"
        using acct_upd_file [OF k'(2) _ refl, of f "\<lambda>x. x\<lparr>f_ref := f_ref x + 1\<rparr>"] acct_ip [OF k'(2), of f] that f k'(1)
        by (auto simp: is_inode_def)
      then show ?thesis using p r Some by (simp add: sys_dup_def filedup_def)
    qed
  qed (simp add: sys_dup_def A)
qed

lemma sys_close_post: "acct a b c d k0 k \<Longrightarrow> post (sys_close pid fd k) (\<lambda>(r, k'). acct a b c d k0 k')"
proof -
  assume A: "acct a b c d k0 k"
  show ?thesis
  proof (cases "argfd fd k")
    case (Some p)
    obtain i f where p: "argfd fd k = Some (i, f)" using Some by (cases p) auto
    have "acct a b c (d + 1) k0 (k\<lparr>ofile := (ofile k)[i := None]\<rparr>)"
      using acct_set_fd [OF A argfd_file(1) [OF p A], of None] argfd_file(2) [OF p A] by simp
    then show ?thesis
      using p argfd_file(3) [OF p A] by (simp add: sys_close_def) (rule fileclose_post, assumption, simp_all)
  qed (simp add: sys_close_def A)
qed

lemma filestat_post:
  assumes "acct a b c d k0 k" "f < length (ftable k)"
  shows "post (filestat pid cout f addr k) (\<lambda>(r, k'). acct a b c d k0 k')"
proof (cases "is_inode (ftable k ! f)")
  case True
  show ?thesis
    unfolding filestat_def
    by (insert assms acct_ip [OF assms True] True) (erule kvcg | simp add: is_inode_def Let_def | rule post_if)+
qed (use assms in \<open>simp add: filestat_def is_inode_def\<close>)

definition step_kio :: "('a \<times> kio) step \<Rightarrow> kio" where
  "step_kio st = (case st of Done r (x, k) \<Rightarrow> k | Wait n (x, k) \<Rightarrow> k)"

definition step_kio' :: "kio step \<Rightarrow> kio" where
  "step_kio' st = (case st of Done r k \<Rightarrow> k | Wait n k \<Rightarrow> k)"

lemma fileread_post:
  assumes A: "acct a b c d k0 k" "f < length (ftable k)"
  shows "post (fileread pid cout kld f addr n k) (\<lambda>st. acct a b c d k0 (step_kio st))"
proof (cases "f_readable (ftable k ! f)")
  case True
  let ?x = "ftable k ! f"
  show ?thesis
  proof (cases "f_type ?x")
    case FD_INODE
    then have i: "is_inode ?x" "f_ip ?x < length (itable (kfs k0))" using acct_ip [OF A] by (auto simp: is_inode_def)
    show ?thesis
      using True FD_INODE unfolding fileread_def
      by (simp add: Let_def split del: if_split)
        (insert A(1) i(2), (erule kvcg | simp add: step_kio_def split: prod.split)+)
  next
    case FD_PIPE
    then show ?thesis using True A(1)
      by (cases "piperead (\<lambda>a. cout a 1) kld addr n (pipes k (f_pipe ?x))") (auto simp: fileread_def step_kio_def Let_def)
  next
    case FD_DEVICE
    then show ?thesis using True A(1)
      by (cases "consoleread (\<lambda>a. cout a 1) kld addr 0 n (kcons k)") (auto simp: fileread_def step_kio_def Let_def)
  qed (use True in \<open>simp add: fileread_def\<close>)
qed (use A in \<open>simp add: fileread_def step_kio_def\<close>)

lemma filewrite_loop_post:
  assumes "acct a b c d k0 k" "f < length (ftable k0)" "is_inode (ftable k ! f)"
  shows "post (filewrite_loop pid cin f addr n i k) (\<lambda>(r, k'). acct a b c d k0 k')"
  using assms(1,3)
proof (induction "nat (n - i)" arbitrary: i k rule: less_induct)
  case less
  show ?case
  proof (cases "i < n")
    case True
    have f: "f < length (ftable k)" using acct_length(1) [OF less.prems(1)] assms(2) by simp
    have ip: "f_ip (ftable k ! f) < length (itable (kfs k0))" using acct_ip [OF less.prems(1) f less.prems(2)] .
    show ?thesis
      by (subst filewrite_loop.simps, insert True less.prems(1) ip, simp add: Let_def split del: if_split)
        (erule kvcg | simp add: advance_entry f less.prems(2) split del: if_split | rule post_if less.hyps | auto split: if_splits)+
  qed (use less.prems in \<open>simp add: filewrite_loop.simps\<close>)
qed

lemma filewrite_post:
  assumes A: "acct a b c d k0 k" "f < length (ftable k)"
  shows "post (filewrite pid cin kld f addr i0 n k) (\<lambda>st. acct a b c d k0 (step_kio' st))"
proof (cases "f_writable (ftable k ! f)")
  case True
  let ?x = "ftable k ! f"
  show ?thesis
  proof (cases "f_type ?x")
    case FD_INODE
    then have "post (filewrite_loop pid cin f addr n 0 k) (\<lambda>(r, k'). acct a b c d k0 k')"
      using A acct_length(1) [OF A(1)] by (intro filewrite_loop_post) (auto simp: is_inode_def)
    then show ?thesis using True FD_INODE by (auto simp: filewrite_def step_kio'_def post_def bind_res_Ok_iff)
  next
    case FD_PIPE
    then show ?thesis using True A(1)
      by (cases "pipewrite (copyin_byte cin) kld addr i0 n (pipes k (f_pipe ?x))") (auto simp: filewrite_def step_kio'_def Let_def)
  next
    case FD_DEVICE
    then show ?thesis using True A(1)
      by (cases "consolewrite (copyin_byte cin) addr i0 n (kuart k)") (auto simp: filewrite_def step_kio'_def Let_def)
  qed (use True in \<open>simp add: filewrite_def\<close>)
qed (use A in \<open>simp add: filewrite_def step_kio'_def\<close>)

lemma sys_rw_post:
  assumes A: "acct a b c d k0 k"
  shows "post (sys_read pid cout kld fd p n k) (\<lambda>st. acct a b c d k0 (step_kio st))"
    "post (sys_write pid cin kld fd p n k) (\<lambda>st. acct a b c d k0 (step_kio' st))"
    "post (sys_fstat pid cout fd p k) (\<lambda>(r, k'). acct a b c d k0 k')"
  using argfd_file(3) [OF _ A] A fileread_post [OF A] filewrite_post [OF A] filestat_post [OF A]
  by (auto simp: sys_read_def sys_write_def sys_fstat_def step_kio_def step_kio'_def split: option.split)

lemma open_inode_post:
  assumes "moves a b c s0 s" "cwd < length (itable s0)" "\<And>s'. moves a b c s0 s' \<Longrightarrow> P (None, s')"
    "\<And>ip s'. ip < length (itable s0) \<Longrightarrow> moves a (b + 1) (c + 1) s0 s' \<Longrightarrow> P (Some ip, s')"
  shows "post (open_inode pid cwd path omode s) P"
  unfolding open_inode_def
  by (rule post_if, insert assms(1,2)) (erule vcg | simp split del: if_split | rule post_if assms(3,4))+

text \<open>A lookup that returns an inode, on this state.\<close>

lemma acct_lookup:
  assumes "acct a b c d k0 k" "cwd < length (itable (kfs k0))"
    and "\<And>P. cwd < length (itable (kfs k)) \<Longrightarrow> (\<And>s'. moves 0 0 0 (kfs k) s' \<Longrightarrow> P (None, s')) \<Longrightarrow>
      (\<And>ip s'. ip < length (itable (kfs k)) \<Longrightarrow> moves 0 b' c' (kfs k) s' \<Longrightarrow> P (Some ip, s')) \<Longrightarrow> post r P"
    and "\<And>s'. acct a b c d k0 (k\<lparr>kfs := s'\<rparr>) \<Longrightarrow> P (None, s')"
    and "\<And>ip s'. ip < length (itable (kfs k0)) \<Longrightarrow> acct a (b + b') (c + c') d k0 (k\<lparr>kfs := s'\<rparr>) \<Longrightarrow> P (Some ip, s')"
  shows "post r P"
proof -
  have l: "length (itable (kfs k)) = length (itable (kfs k0))" using assms(1) by (simp add: acct_def books_def)
  show ?thesis
    by (rule assms(3)) (use l assms acct_fs [OF assms(1), of 0] in fastforce)+
qed

lemma namei_acct [kvcg]:
  assumes "acct a b c d k0 k" "cwd < length (itable (kfs k0))" "\<And>s'. acct a b c d k0 (k\<lparr>kfs := s'\<rparr>) \<Longrightarrow> P (None, s')"
    "\<And>ip s'. ip < length (itable (kfs k0)) \<Longrightarrow> acct a (b + 1) c d k0 (k\<lparr>kfs := s'\<rparr>) \<Longrightarrow> P (Some ip, s')"
  shows "post (namei pid cwd path (kfs k)) P"
  by (rule acct_lookup [OF assms(1,2), of 1 0]) (rule namei_post [OF moves_refl], use assms(3,4) in simp_all)

lemma open_inode_acct [kvcg]:
  assumes "acct a b c d k0 k" "cwd < length (itable (kfs k0))" "\<And>s'. acct a b c d k0 (k\<lparr>kfs := s'\<rparr>) \<Longrightarrow> P (None, s')"
    "\<And>ip s'. ip < length (itable (kfs k0)) \<Longrightarrow> acct a (b + 1) (c + 1) d k0 (k\<lparr>kfs := s'\<rparr>) \<Longrightarrow> P (Some ip, s')"
  shows "post (open_inode pid cwd path omode (kfs k)) P"
  by (rule acct_lookup [OF assms(1,2), of 1 1]) (rule open_inode_post [OF moves_refl], use assms(3,4) in simp_all)

lemmas lookup_calls [kvcg] = namei_acct [of _ _ _ _ _ "k\<lparr>kfs := s\<rparr>" for k s, simplified]
  open_inode_acct [of _ _ _ _ _ "k\<lparr>kfs := s\<rparr>" for k s, simplified]

lemma open_bad_post:
  assumes "acct a b c d k0 k" "ip < length (itable (kfs k0))" "\<And>k'. acct (a - 1) (b - 1) (c - 1) d k0 k' \<Longrightarrow> P (-1, k')"
  shows "post (open_bad pid ip k) P"
  unfolding open_bad_def by (insert assms(1,2)) (erule kvcg | simp | rule assms(3))+

lemma set_file_acct:
  assumes "acct a b c d k0 k" "f < length (ftable k)" "ip < length (itable (kfs k0))"
    "\<not> is_inode (ftable k ! f)" "f_ref (ftable k ! f) \<noteq> 0"
  shows "acct a (b - 1) c d k0 (set_file f ip i omode k)"
proof -
  let ?g = "\<lambda>x. (if i_type i = T_DEVICE then x\<lparr>f_type := FD_DEVICE, f_major := i_major i\<rparr>
                     else x\<lparr>f_type := FD_INODE, f_off := 0\<rparr>)
       \<lparr>f_ip := ip, f_readable := (and omode O_WRONLY = 0),
        f_writable := (and omode O_WRONLY \<noteq> 0 \<or> and omode O_RDWR \<noteq> 0)\<rparr>"
  have "f_ref (?g x) = f_ref x" "is_inode (?g x)" "f_ip (?g x) = ip" for x by (simp_all add: is_inode_def)
  then show ?thesis
    unfolding set_file_def using acct_upd_file [OF assms(1,2) refl, of ?g] assms(3-5) by (simp only: simp_thms if_True if_False) simp
qed

lemma open_file_post:
  assumes A: "acct 1 1 1 0 k0 k" and ip: "ip < length (itable (kfs k0))"
  shows "post (open_file pid ip omode k) (\<lambda>(r, k'). acct 0 0 0 0 k0 k')"
proof -
  let ?i = "itable (kfs k) ! ip"
  have bad: "post (open_bad pid ip k') (\<lambda>(r, k'). acct 0 0 0 0 k0 k')" if "acct 1 1 1 0 k0 k'" for k'
    by (rule open_bad_post [OF that ip]) simp
  obtain r k1 where 1: "filealloc k = (r, k1)" by fastforce
  show ?thesis
  proof (cases "r")
    case None
    then show ?thesis using 1 filealloc_acct [OF 1 A] bad A by (simp add: open_file_def Let_def)
  next
    case r: (Some f)
    have f: "f < length (ftable k1)" "ftable k1 ! f = (ftable k ! f)\<lparr>f_ref := 1\<rparr>" "f_type (ftable k ! f) = FD_NONE"
        "acct 1 1 1 1 k0 k1"
      using filealloc_acct [OF 1 A] r by (auto simp: upd_file_def)
    obtain r' k2 where 2: "fdalloc f k1 = (r', k2)" by fastforce
    show ?thesis
    proof (cases r')
      case None
      then have "k2 = k1" using fdalloc_acct [OF 2 f(4,1)] by simp
      then have "post (bind_res (fileclose pid f k2) (open_bad pid ip)) (\<lambda>(r, k'). acct 0 0 0 0 k0 k')"
        using f by simp (rule fileclose_post [OF f(4,1)], simp add: bad)
      then show ?thesis using 1 2 r None bad A by (simp add: open_file_def Let_def)
    next
      case (Some fd)
      then have k2: "acct 1 1 1 0 k0 k2" "ftable k2 = ftable k1" using fdalloc_acct [OF 2 f(4,1)] by auto
      have S: "acct 1 0 1 0 k0 (set_file f ip ?i omode k2)"
        using set_file_acct [OF k2(1) _ ip, of f ?i omode] f k2(2) by (simp add: is_inode_def)
      have "post (bind_res (if and omode O_TRUNC \<noteq> 0 \<and> i_type ?i = T_FILE
          then in_fs (itrunc pid ip) (set_file f ip ?i omode k2) else Ok (set_file f ip ?i omode k2)) (\<lambda>k.
        bind_res (in_fs (iunlock pid ip) k) (\<lambda>k.
        bind_res (in_fs (f_end_op pid) k) (\<lambda>k. Ok (int fd, k))))) (\<lambda>(r, k'). acct 0 0 0 0 k0 k')"
        by (insert S ip, simp split del: if_split, rule post_if) (erule kvcg | simp)+
      then show ?thesis using 1 2 r Some bad A by (simp add: open_file_def Let_def)
    qed
  qed
qed

lemma sys_open_post: "kio_ok k \<Longrightarrow> post (sys_open pid path omode k) (\<lambda>(r, k'). acct 0 0 0 0 k k')"
proof (cases path)
  case (Some p)
  assume k: "kio_ok k"
  then have c: "kcwd k < length (itable (kfs k))" by (simp add: kio_ok_def)
  show ?thesis
    by (insert acct_refl [OF k] c, simp add: sys_open_def Some)
      (erule kvcg | simp | rule open_file_post)+
qed (simp add: sys_open_def acct_refl)

lemma acct_cwd: "acct a b c d k0 k \<Longrightarrow> ip < length (itable (kfs k0)) \<Longrightarrow> acct a b c d k0 (k\<lparr>kcwd := ip\<rparr>)"
  by (auto simp: acct_def books_def kio_ok_def inode_files_def file_refs_def open_fds_def)

lemma sys_chdir_post: "kio_ok k \<Longrightarrow> post (sys_chdir pid path k) (\<lambda>(r, k'). acct 0 0 0 0 k k')"
proof -
  assume k: "kio_ok k"
  then have c: "kcwd k < length (itable (kfs k))" by (simp add: kio_ok_def)
  show ?thesis
    by (insert acct_refl [OF k] c, cases path; simp add: sys_chdir_def)
      (erule kvcg | simp split del: if_split | rule post_if open_bad_post | erule acct_cwd)+
qed

lemma pipe_fail_post:
  assumes "acct a b c d k0 k" "rf < length (ftable k0)" "wf1 < length (ftable k0)"
  shows "post (pipe_fail pid rf wf1 k) (\<lambda>(r, k'). acct a b c (d - 2) k0 k')"
  unfolding pipe_fail_def
  by (simp, rule fileclose_post [OF assms(1)])
    (use assms acct_length(1) in \<open>auto intro!: fileclose_post\<close>)

lemma pipe_fds_post:
  assumes A: "acct 0 0 0 2 k0 k" and f: "f0 < length (ftable k0)" "f1 < length (ftable k0)"
  shows "post (case fdalloc f0 k of
            (None, k) \<Rightarrow> pipe_fail pid f0 f1 k
          | (Some fd0, k) \<Rightarrow>
              (case fdalloc f1 k of
                 (None, k) \<Rightarrow> pipe_fail pid f0 f1 (k\<lparr>ofile := (ofile k)[fd0 := None]\<rparr>)
               | (Some fd1, k) \<Rightarrow>
                   if \<not> cout fda 4 \<or> \<not> cout (fda + 4) 4 then
                     pipe_fail pid f0 f1 (k\<lparr>ofile := (ofile k)[fd0 := None, fd1 := None]\<rparr>)
                   else Ok ((0, Some (fd0, fd1)), k))) (\<lambda>(r, k'). acct 0 0 0 0 k0 k')"
proof -
  obtain r k1 where 1: "fdalloc f0 k = (r, k1)" by fastforce
  have fail: "post (pipe_fail pid f0 f1 k') (\<lambda>(r, k'). acct 0 0 0 0 k0 k')" if "acct 0 0 0 2 k0 k'" for k'
    using pipe_fail_post [OF that f] by simp
  show ?thesis
  proof (cases r)
    case None
    then show ?thesis using 1 fdalloc_acct [OF 1 A] f fail A by (simp add: acct_length(1) [OF A])
  next
    case r: (Some fd0)
    have k1: "fd0 < length (ofile k1)" "ofile k1 ! fd0 = Some f0" "acct 0 0 0 1 k0 k1"
      using fdalloc_acct [OF 1 A] f r by (auto simp: acct_length(1) [OF A])
    obtain r' k2 where 2: "fdalloc f1 k1 = (r', k2)" by fastforce
    have f1: "f1 < length (ftable k1)" using acct_length(1) [OF k1(3)] f by simp
    show ?thesis
    proof (cases r')
      case None
      then have "k2 = k1" using fdalloc_acct [OF 2 k1(3) f1] by simp
      then show ?thesis using 1 2 r None fail acct_set_fd [OF k1(3,1), of None] k1(2) by simp
    next
      case (Some fd1)
      then have k2: "fd1 < length (ofile k1)" "k2 = k1\<lparr>ofile := (ofile k1)[fd1 := Some f1]\<rparr>" "acct 0 0 0 0 k0 k2"
        using fdalloc_acct [OF 2 k1(3) f1] by auto
      have "fd_scan 0 (ofile k1) = Some fd1" using 2 Some by (auto simp: fdalloc_def split: option.splits)
      then have ne: "fd1 \<noteq> fd0" using fd_scan_nth [of 0 "ofile k1" fd1] k1(2) by auto
      have "acct 0 0 0 1 k0 (k2\<lparr>ofile := (ofile k2)[fd0 := None]\<rparr>)"
        using acct_set_fd [OF k2(3), of fd0 None] k1(1,2) k2(2) ne by simp
      then have "acct 0 0 0 2 k0 (k2\<lparr>ofile := (ofile k2)[fd0 := None, fd1 := None]\<rparr>)"
        using acct_set_fd [of 0 0 0 1 k0 "k2\<lparr>ofile := (ofile k2)[fd0 := None]\<rparr>" fd1 None] k2(1,2) ne by simp
      then show ?thesis using 1 2 r Some fail k2(3) by simp
    qed
  qed
qed

lemma sys_pipe_post: "kio_ok k \<Longrightarrow> post (sys_pipe pid cout page fda k) (\<lambda>(r, k'). acct 0 0 0 0 k k')"
  unfolding sys_pipe_def post_simps
  by (rule pipealloc_post [OF acct_refl], assumption) (use pipe_fds_post in simp_all)

section \<open>Any sequence of system calls\<close>

text \<open>One system call of a process, with any arguments and whatever user memory holds.\<close>

inductive fs_call :: "kio \<Rightarrow> kio \<Rightarrow> bool" where
  Dup: "sys_dup fd k = Ok (r, k') \<Longrightarrow> fs_call k k'"
| Read: "sys_read pid cout kld fd p n k = Ok st \<Longrightarrow> fs_call k (step_kio st)"
| Write: "sys_write pid cin kld fd p n k = Ok st \<Longrightarrow> fs_call k (step_kio' st)"
| Close: "sys_close pid fd k = Ok (r, k') \<Longrightarrow> fs_call k k'"
| Fstat: "sys_fstat pid cout fd p k = Ok (r, k') \<Longrightarrow> fs_call k k'"
| Link: "sys_link pid (kcwd k) old new (kfs k) = Ok (r, s) \<Longrightarrow> fs_call k (k\<lparr>kfs := s\<rparr>)"
| Unlink: "sys_unlink pid (kcwd k) path (kfs k) = Ok (r, s) \<Longrightarrow> fs_call k (k\<lparr>kfs := s\<rparr>)"
| Open: "sys_open pid path omode k = Ok (r, k') \<Longrightarrow> fs_call k k'"
| Mkdir: "sys_mkdir pid (kcwd k) path (kfs k) = Ok (r, s) \<Longrightarrow> fs_call k (k\<lparr>kfs := s\<rparr>)"
| Mknod: "sys_mknod pid (kcwd k) path major minor (kfs k) = Ok (r, s) \<Longrightarrow> fs_call k (k\<lparr>kfs := s\<rparr>)"
| Chdir: "sys_chdir pid path k = Ok (r, k') \<Longrightarrow> fs_call k k'"
| Pipe: "sys_pipe pid cout page fda k = Ok (r, k') \<Longrightarrow> fs_call k k'"

lemma acct_fs_call:
  assumes "kio_ok k" "post (op (kcwd k) (kfs k)) (\<lambda>(r, s'). moves 0 0 0 (kfs k) s')" "op (kcwd k) (kfs k) = Ok (r, s)"
  shows "acct 0 0 0 0 k (k\<lparr>kfs := s\<rparr>)"
  using postD [OF assms(2,3)] acct_fs [OF acct_refl [OF assms(1)], of 0 0 0] by simp

lemma fs_call_acct: "fs_call k k' \<Longrightarrow> kio_ok k \<Longrightarrow> acct 0 0 0 0 k k'"
proof (induction rule: fs_call.induct)
  case (Dup fd k r k')
  show ?case using postD [OF sys_dup_post [OF acct_refl [OF Dup(2)]] Dup(1)] by simp
next
  case (Read pid cout kld fd p n k st)
  show ?case using postD [OF sys_rw_post(1) [OF acct_refl [OF Read(2)]] Read(1)] .
next
  case (Write pid cin kld fd p n k st)
  show ?case using postD [OF sys_rw_post(2) [OF acct_refl [OF Write(2)]] Write(1)] .
next
  case (Close pid fd k r k')
  show ?case using postD [OF sys_close_post [OF acct_refl [OF Close(2)]] Close(1)] by simp
next
  case (Fstat pid cout fd p k r k')
  show ?case using postD [OF sys_rw_post(3) [OF acct_refl [OF Fstat(2)]] Fstat(1)] by simp
next
  case (Link pid k old new r s)
  have "kcwd k < length (itable (kfs k))" using Link(2) by (simp add: kio_ok_def)
  then show ?case
    by (rule acct_fs_call [where op = "\<lambda>c. sys_link pid c old new", OF Link(2) sys_link_post Link(1)])
next
  case (Unlink pid k path r s)
  have "kcwd k < length (itable (kfs k))" using Unlink(2) by (simp add: kio_ok_def)
  then show ?case
    by (rule acct_fs_call [where op = "\<lambda>c. sys_unlink pid c path", OF Unlink(2) sys_unlink_post Unlink(1)])
next
  case (Open pid path omode k r k')
  show ?case using postD [OF sys_open_post [OF Open(2)] Open(1)] by simp
next
  case (Mkdir pid k path r s)
  have "kcwd k < length (itable (kfs k))" using Mkdir(2) by (simp add: kio_ok_def)
  then show ?case
    by (rule acct_fs_call [where op = "\<lambda>c. sys_mkdir pid c path", OF Mkdir(2) sys_mkdir_post Mkdir(1)])
next
  case (Mknod pid k path major minor r s)
  have "kcwd k < length (itable (kfs k))" using Mknod(2) by (simp add: kio_ok_def)
  then show ?case
    by (rule acct_fs_call [where op = "\<lambda>c. sys_mknod pid c path major minor", OF Mknod(2) sys_mknod_post Mknod(1)])
next
  case (Chdir pid path k r k')
  show ?case using postD [OF sys_chdir_post [OF Chdir(2)] Chdir(1)] by simp
next
  case (Pipe pid cout page fda k r k')
  show ?case using postD [OF sys_pipe_post [OF Pipe(2)] Pipe(1)] by simp
qed

text \<open>
  C8: Any sequence of file system calls of a process that return, whatever their arguments and
  the contents of its memory, leaves every transaction closed and every inode unlocked that it
  opened or locked, and leaks neither an inode reference nor a file reference: the references
  to the inode table change exactly with the open files for inodes, and the references to the
  file table exactly with the open descriptors.
\<close>

theorem fs_calls_balanced:
  assumes "fs_call\<^sup>*\<^sup>* k k'" "kio_ok k"
  shows "outstanding (flog (kfs k')) = outstanding (flog (kfs k)) \<and>
    locked_inodes (kfs k') = locked_inodes (kfs k) \<and>
    total_refs (kfs k') - inode_files k' = total_refs (kfs k) - inode_files k \<and>
    file_refs k' - open_fds k' = file_refs k - open_fds k \<and> kio_ok k'"
proof -
  have "acct 0 0 0 0 k k'"
    using assms(1)
  proof (induction rule: rtranclp_induct)
    case base
    show ?case using acct_refl [OF assms(2)] .
  next
    case (step k1 k2)
    then have "acct 0 0 0 0 k1 k2" by (intro fs_call_acct) (simp_all add: acct_def)
    then show ?case using acct_trans [OF step.IH] by fastforce
  qed
  then show ?thesis by (simp add: acct_def books_def)
qed

text \<open>A process that makes a pipe, duplicates its read end and closes the first of the descriptors.\<close>

definition demo_fs :: fsys where
  "demo_fs = \<lparr>flog = \<lparr>fbio = \<lparr>bufs = [], bdisk = (\<lambda>b. []), dtrace = []\<rparr>, lg_start = 2, lg_size = 30,
       outstanding = 0, committing = False, lg_dev = 1, lh_n = 0, lh_block = []\<rparr>,
     sb = \<lparr>sb_magic = FSMAGIC, sb_size = 2000, sb_nblocks = 1954, sb_ninodes = 200, sb_nlog = 30,
       sb_logstart = 2, sb_inodestart = 32, sb_bmapstart = 45\<rparr>,
     itable = [\<lparr>i_dev = 1, i_inum = 1, i_ref = 1, i_lock = initsleeplock, i_valid = False, i_type = 0,
       i_major = 0, i_minor = 0, i_nlink = 0, i_size = 0, i_addrs = replicate 13 0\<rparr>]\<rparr>"

definition demo_kio :: kio where
  "demo_kio = \<lparr>ftable = replicate 3 \<lparr>f_type = FD_NONE, f_ref = 0, f_readable = False, f_writable = False,
       f_pipe = 0, f_ip = 0, f_off = 0, f_major = 0\<rparr>,
     pipes = (\<lambda>p. new_pipe (replicate 512 0)), freed = [], kcons = cons_zero, kuart = idle_uart, kfs = demo_fs,
     ofile = replicate 16 None, kcwd = 0\<rparr>"

lemma demo_ok: "kio_ok demo_kio"
  by (simp add: kio_ok_def demo_kio_def demo_fs_def is_inode_def)

definition demo_calls :: "kio res" where
  "demo_calls =
     bind_res (sys_pipe 1 (\<lambda>a n. True) 4096 0 demo_kio) (\<lambda>(r, k).
     bind_res (sys_dup 0 k) (\<lambda>(r, k).
     bind_res (sys_close 1 0 k) (\<lambda>(r, k). Ok k)))"

lemma demo_result: "\<exists>k'. demo_calls = Ok k' \<and> ofile k' ! 0 = None \<and> file_refs k' = 2"
proof -
  have r: "replicate 16 x = x # x # x # replicate 13 x" "replicate 3 y = [y, y, y]" for x :: "nat option" and y :: file_entry
    by (simp_all add: numeral_eq_Suc)
  show ?thesis
    by (simp add: demo_calls_def demo_kio_def r sys_pipe_def pipealloc_def filealloc_def fdalloc_def upd_file_def Let_def
      sys_dup_def argfd_def filedup_def sys_close_def fileclose_def file_refs_def)
qed

lemma demo_run: "demo_calls = Ok k' \<Longrightarrow> fs_call\<^sup>*\<^sup>* demo_kio k'"
  unfolding demo_calls_def
  by (auto simp: bind_res_Ok_iff intro!: rtranclp.rtrancl_into_rtrancl [OF rtranclp.rtrancl_into_rtrancl [OF r_into_rtranclp]]
    intro: Pipe Dup Close)

theorem fs_calls_balanced_witness:
  "\<exists>k'. fs_call\<^sup>*\<^sup>* demo_kio k' \<and> file_refs k' = 2 \<and> open_fds k' = 2 \<and> outstanding (flog (kfs k')) = 0"
proof -
  obtain k' where k': "demo_calls = Ok k'" "file_refs k' = 2" using demo_result by blast
  have "file_refs demo_kio - open_fds demo_kio = 0" "outstanding (flog (kfs demo_kio)) = 0"
    by (simp_all add: file_refs_def open_fds_def demo_kio_def demo_fs_def sum_list_replicate)
  then show ?thesis using fs_calls_balanced [OF demo_run [OF k'(1)] demo_ok] demo_run [OF k'(1)] k'(2) by fastforce
qed

end
