(* ===== verification/Proc_Example.thy ===== *)
theory Proc_Example
  imports Proc_Machine Sched_Props File_Account
begin

text \<open>
  A concrete system for the properties of processes: one process runs, with a page of memory, a
  trap frame and its page tables written out, and one free page.
\<close>

section \<open>Page tables written out\<close>

text \<open>Entries are aligned, so an entry that was not written last is read from below.\<close>

definition put_entries :: "(nat \<times> nat) list \<Rightarrow> mem \<Rightarrow> mem" where
  "put_entries es m = foldr (\<lambda>(a, v) m. Cmem.store a (nat_le 8 v) m) es m"

lemma rd64_entries:
  assumes "\<forall>(a, v) \<in> set es. a mod 8 = 0 \<and> v < 2 ^ 64" "b mod 8 = 0"
  shows "rd64 (put_entries es m) b = (case map_of es b of Some v \<Rightarrow> v | None \<Rightarrow> rd64 m b)"
  using assms(1)
proof (induction es)
  case (Cons e es)
  obtain a v where e: "e = (a, v)" by fastforce
  show ?case
  proof (cases "a = b")
    case True
    then show ?thesis using Cons.prems by (simp add: e put_entries_def rd64_store)
  next
    case False
    have "a mod 8 = 0" using Cons.prems e by simp
    then have "b + 8 \<le> a \<or> a + 8 \<le> b" using False assms(2) by presburger
    then show ?thesis using Cons False by (simp add: e put_entries_def rd64_store_other)
  qed
qed (simp add: put_entries_def)

lemma rd64_zero: "rd64 (\<lambda>a. 0) b = 0"
  by (simp add: rd64_def bytes_def numeral_eq_Suc)

text \<open>
  The root table is at 8192. The tables at 12288 and 16384 lead to the user page 20480 at address 0,
  those at 24576 and 28672 to the trampoline 4096 and to the trap frame 32768. Page 36864 is free.
\<close>

definition pr_entries :: "(nat \<times> nat) list" where
  "pr_entries = [(8192, 3073), (12288, 4097), (16384, 5151), (10232, 6145), (28664, 7169), (32760, 1035), (32752, 8199)]"

definition pr_mem :: mem where
  "pr_mem = put_entries pr_entries (\<lambda>a. 0)"

lemma pr_entry:
  "b mod 8 = 0 \<Longrightarrow> rd64 pr_mem b = (if b = 8192 then 3073 else if b = 12288 then 4097 else if b = 16384 then 5151 else if b = 10232 then 6145
     else if b = 28664 then 7169 else if b = 32760 then 1035 else if b = 32752 then 8199 else 0)"
  unfolding pr_mem_def by (subst rd64_entries) (auto simp: pr_entries_def rd64_zero)

lemma pr_tables_entries:
  "i < 512 \<Longrightarrow> rd64 pr_mem (8192 + 8 * i) = (if i = 0 then 3073 else if i = 255 then 6145 else 0)"
  "i < 512 \<Longrightarrow> rd64 pr_mem (12288 + 8 * i) = (if i = 0 then 4097 else 0)"
  "i < 512 \<Longrightarrow> rd64 pr_mem (16384 + 8 * i) = (if i = 0 then 5151 else 0)"
  "i < 512 \<Longrightarrow> rd64 pr_mem (24576 + 8 * i) = (if i = 511 then 7169 else 0)"
  "i < 512 \<Longrightarrow> rd64 pr_mem (28672 + 8 * i) = (if i = 511 then 1035 else if i = 510 then 8199 else 0)"
  by (subst pr_entry; simp; presburger)+

lemma pr_child:
  "i < 512 \<Longrightarrow> child pr_mem 8192 i = (if i = 0 then Some 12288 else if i = 255 then Some 24576 else None)"
  "i < 512 \<Longrightarrow> child pr_mem 12288 i = (if i = 0 then Some 16384 else None)"
  "i < 512 \<Longrightarrow> child pr_mem 24576 i = (if i = 511 then Some 28672 else None)"
  by (simp_all add: child_def pr_tables_entries PTE2PA_def bit_0)

lemma pr_tables:
  "tables (Suc 0) pr_mem 12288 = {12288, 16384}" "tables (Suc 0) pr_mem 24576 = {24576, 28672}"
  "tables 2 pr_mem 8192 = {8192, 12288, 16384, 24576, 28672}"
proof -
  show a: "tables (Suc 0) pr_mem 12288 = {12288, 16384}"
    by (auto simp: tables.simps(2) pr_child split: if_splits intro: exI [of _ 0])
  show b: "tables (Suc 0) pr_mem 24576 = {24576, 28672}"
    by (auto simp: tables.simps(2) pr_child split: if_splits intro: exI [of _ 511])
  have "tables 2 pr_mem 8192 = insert 8192 (tables (Suc 0) pr_mem 12288 \<union> tables (Suc 0) pr_mem 24576)"
    unfolding numeral_2_eq_2 by (auto simp: tables.simps(2) [of "Suc 0"] pr_child split: if_splits intro: exI [of _ 0] exI [of _ 255])
  then show "tables 2 pr_mem 8192 = {8192, 12288, 16384, 24576, 28672}" by (auto simp: a b)
qed

lemma pr_tree: "tree_ok 8192 2 pr_mem 8192"
proof -
  have "tree_ok 8192 (Suc 0) pr_mem 12288" "tree_ok 8192 (Suc 0) pr_mem 24576"
    unfolding tree_ok.simps(2) [of _ 0] using pr_tables_entries(2) [of 0] pr_tables_entries(4) [of 511]
    by (simp_all add: pr_child phys_page_def PTE_FLAGS_def split: if_splits)
  then show ?thesis unfolding numeral_2_eq_2 tree_ok.simps(2) [of _ "Suc 0"] using pr_tables_entries(1) [of 0] pr_tables_entries(1) [of 255]
    by (auto simp: pr_child pr_tables phys_page_def PTE_FLAGS_def split: if_splits)
qed

lemma pr_vmap:
  assumes n: "n < 2 ^ 27"
  shows "vmap pr_mem 8192 n = (if n = 0 then Some 5151 else if n = 67108863 then Some 1035 else if n = 67108862 then Some 8199 else None)"
proof -
  have px: "PX k (4096 * n) = n div 2 ^ (9 * k) mod 512" for k by (simp add: PX_def power_add div_mult2_eq)
  define a b c where "a = PX 2 (4096 * n)" and "b = PX 1 (4096 * n)" and "c = PX 0 (4096 * n)"
  have lt: "a < 512" "b < 512" "c < 512" by (simp_all add: a_def b_def c_def PX_less)
  have nn: "n = a * 262144 + b * 512 + c" 
  proof -
    have "n div 262144 < 512" using n by (simp add: div_less_iff_less_mult)
    then show ?thesis using digits [OF n] unfolding a_def b_def c_def px by simp
  qed
  have "slot 2 pr_mem 8192 (4096 * n) =
      (if a = 0 \<and> b = 0 then Some (16384 + 8 * c) else if a = 255 \<and> b = 511 then Some (28672 + 8 * c) else None)"
    unfolding numeral_2_eq_2 slot.simps using lt unfolding a_def b_def c_def by (simp add: pr_child numeral_2_eq_2)
  then have "vmap pr_mem 8192 n = (if a = 0 \<and> b = 0 \<and> c = 0 then Some 5151 else if a = 255 \<and> b = 511 \<and> c = 511 then Some 1035
      else if a = 255 \<and> b = 511 \<and> c = 510 then Some 8199 else None)"
    unfolding vmap_def leafl_def using pr_tables_entries(3,5) [OF lt(3)] by (simp add: bit_0 split: if_splits)
  moreover have "n = 0 \<longleftrightarrow> a = 0 \<and> b = 0 \<and> c = 0" "n = 67108863 \<longleftrightarrow> a = 255 \<and> b = 511 \<and> c = 511"
    "n = 67108862 \<longleftrightarrow> a = 255 \<and> b = 511 \<and> c = 510"
  proof -
    have d: "a = n div 262144 mod 512" "b = n div 512 mod 512" "c = n mod 512" unfolding a_def b_def c_def px by simp_all
    show "n = 0 \<longleftrightarrow> a = 0 \<and> b = 0 \<and> c = 0" using nn by auto
    show "n = 67108863 \<longleftrightarrow> a = 255 \<and> b = 511 \<and> c = 511" "n = 67108862 \<longleftrightarrow> a = 255 \<and> b = 511 \<and> c = 510" using nn by (auto simp: d)
  qed
  ultimately show ?thesis by simp
qed

lemma pr_aspace: "aspace 8192 4096 pr_mem 8192 4096 32768" "footprint pr_mem 8192 4096 = {8192, 12288, 16384, 24576, 28672, 20480}"
proof -
  have np: "npages 4096 = 1" by (simp add: npages_def)
  have v0: "vmap pr_mem 8192 0 = Some 5151" using pr_vmap [of 0] by simp
  have p0: "page_at pr_mem 8192 0 = 20480" by (simp add: page_at_def v0 PTE2PA_def)
  have l1: "{..<(1 :: nat)} = {0}" by auto
  show "footprint pr_mem 8192 4096 = {8192, 12288, 16384, 24576, 28672, 20480}"
    unfolding footprint_def np l1 pr_tables by (auto simp: p0)
  have "vmap pr_mem 8192 (2 ^ 26 - 1) = Some (PA2PTE 4096 OR (PTE_R OR PTE_X) OR 1)"
      "vmap pr_mem 8192 (2 ^ 26 - 2) = Some (PA2PTE 32768 OR (PTE_R OR PTE_W) OR 1)"
    using pr_vmap [of 67108863] pr_vmap [of 67108862] by (simp_all add: PA2PTE_def)
  moreover have "\<forall>n < 2 ^ 27. 1 \<le> n \<and> n \<noteq> 2 ^ 26 - 1 \<and> n \<noteq> 2 ^ 26 - 2 \<longrightarrow> vmap pr_mem 8192 n = None"
    using pr_vmap by simp
  ultimately show "aspace 8192 4096 pr_mem 8192 4096 32768"
    unfolding aspace_def np l1 using pr_tree v0 p0 by (simp add: pr_tables phys_page_def PTE_FLAGS_def PTE2PA_def)
qed

section \<open>The system\<close>

definition pr_sys :: ksys where
  "pr_sys = \<lparr>kern = upd_proc 0 (\<lambda>p. p\<lparr>p_pagetable := Some 8192, p_trapframe := Some 32768, p_sz := 4096, p_cwd := Some 0\<rparr>) first_running,
     kmm = \<lparr>kmemory = pr_mem, freelist = 36864\<rparr>, kfiles = demo_kio, ticks = 0\<rparr>"

lemma pr_procs:
  "i < NPROC \<Longrightarrow> kproc pr_sys i = (if i = 0 then zero_proc\<lparr>p_pid := 1, p_state := RUNNING, p_pagetable := Some 8192, p_trapframe := Some 32768, p_sz := 4096, p_cwd := Some 0\<rparr> else zero_proc)"
  by (simp add: kproc_def pr_sys_def upd_proc_nth first_running_proc)

lemma pr_fields [simp]: "kmemory (kmm pr_sys) = pr_mem" "kfiles pr_sys = demo_kio" "c_proc (kern pr_sys) = Some 0"
  by (simp_all add: pr_sys_def first_running_def)

lemma pr_kmem: "kmem_inv 8192 (kmm pr_sys) [36864]"
proof -
  have "rd64 pr_mem 36864 = 0" by (subst pr_entry) simp_all
  then show ?thesis by (simp add: kmem_inv_def pr_sys_def phys_page_def run_next_def rd64_def)
qed

lemma pr_own: "own 8192 4096 {} pr_sys [36864]"
proof -
  have im: "images pr_sys i = (if i = 0 then (Some 32768, Some 8192, 4096) else (None, None, 0))" if "i < NPROC" for i
    using pr_procs [OF that] by (simp add: image_def zero_proc_def)
  have "owned 8192 4096 {} (images pr_sys) (kmm pr_sys) [36864]"
    unfolding owned_def using pr_kmem im pr_aspace by (auto simp: phys_page_def split: if_splits)
  then show ?thesis by (simp add: own_def pr_sys_def first_running_proc)
qed

lemma pr_running: "running (kern pr_sys)"
proof -
  let ?f = "\<lambda>p. p\<lparr>p_pagetable := Some 8192, p_trapframe := Some 32768, p_sz := 4096, p_cwd := Some 0\<rparr>"
  have k: "kern pr_sys = upd_proc 0 ?f first_running" by (simp add: pr_sys_def)
  have r: "runs first_running" "locks {} {} first_running" using first_running_running by (simp_all add: runs_running)
  have "sched_ok (kern pr_sys)" unfolding k by (rule sched_ok_cong [of first_running]) (use r in \<open>simp_all add: runs_def upd_proc_nth\<close>)
  then have "runs (kern pr_sys)" using r(1) by (simp add: runs_def resumable_def k upd_proc_nth)
  moreover have "locks {} {} (kern pr_sys)" unfolding k by (rule locks_upd [OF r(2)]) simp
  ultimately show ?thesis by (simp add: runs_running)
qed

lemma pr_ok: "sys_ok 8192 4096 {} pr_sys [36864]"
proof -
  have "sys_mem 8192 4096 {} pr_sys [36864]" unfolding sys_mem_def using pr_own pr_procs by (simp add: image_def zero_proc_def)
  moreover have "pipe_ok {} (kfiles pr_sys)" by (auto simp: pipe_ok_def pipe_pages_def pipe_end_def demo_kio_def)
  moreover have "fds_of (kproc pr_sys i) f = 0" if "i < NPROC" for i f
    using pr_procs [OF that] by (simp add: fds_of_def zero_proc_def filter_empty_conv)
  then have "counted pr_sys" by (simp add: counted_def fd_count_def demo_kio_def)
  then have "files_ok pr_sys" using pr_procs by (simp add: files_ok_def proc_files_def zero_proc_def live_def)
  ultimately show ?thesis using pr_running by (simp add: sys_ok_def kernel_ok_def)
qed

lemma pr_calls: "calls pr_sys"
  using pr_running by (simp add: calls_def running_iff locks_def)

end
