(* ===== verification/Proc_Props.thy ===== *)
theory Proc_Props
  imports Proc_Example
begin

text \<open>
  What the process calls promise: \<^verbatim>\<open>fork\<close>, \<^verbatim>\<open>exit\<close>, \<^verbatim>\<open>wait\<close> and \<^verbatim>\<open>sbrk\<close> one by one, and the whole system
  over every sequence of calls, scheduling events and user stores.
\<close>

section \<open>The whole system\<close>

text \<open>
  C2: From a well-formed system, after any sequence of scheduling events, forks, exits,
  waits, changes of size and user stores, no two processes share a page, no page is both in use and
  free, and no page is lost: every page that belonged to a process, to the free list or to an open pipe
  still belongs to one of them. Every open file counts its descriptors, and every further event
  returns; \<^verbatim>\<open>exit\<close> does when the closing of its files and of its directory, which may have to wait
  for the disk, returns.
\<close>

theorem system_safe:
  assumes "sys_ok kend t K s free" "(sstep kend t xa)\<^sup>*\<^sup>* s s'"
    and "t mod PGSIZE = 0" "t < 2 ^ 56" "\<forall>j < NPROC. xa j + 4 \<le> kend" "kend < 2 ^ 63"
  shows "\<exists>free'. kmem_inv kend (kmm s') free' \<and>
    (\<forall>i < NPROC. \<forall>j < NPROC. i \<noteq> j \<longrightarrow> proc_pages s' i \<inter> proc_pages s' j = {}) \<and>
    (\<forall>i < NPROC. proc_pages s' i \<inter> (set free' \<union> pipe_pages (kfiles s')) = {}) \<and> set free' \<inter> pipe_pages (kfiles s') = {} \<and>
    (\<Union>i < NPROC. proc_pages s' i) \<union> set free' \<union> pipe_pages (kfiles s') =
      (\<Union>i < NPROC. proc_pages s i) \<union> set free \<union> pipe_pages (kfiles s) \<and>
    (\<forall>f < length (ftable (kfiles s')). f_ref (ftable (kfiles s') ! f) = int (fd_count s' f)) \<and>
    (\<forall>e. slegal e s' \<and> (\<forall>st. e = Exit st \<longrightarrow> (\<exists>p s1 s2. c_proc (kern s') = Some p \<and>
         close_ofiles kend p [0..<NOFILE] s' = Ok s1 \<and> leave_cwd p s1 = Ok s2)) \<longrightarrow>
       (\<exists>s''. sexec kend t xa e s' = Some (Ok s'')))"
proof -
  have t: "t mod 4096 = 0" using assms(3) by simp
  obtain K' free' where k: "sys_ok kend t K' s' free'" "pages K' s' free' = pages K s free"
    using ssteps_ok [OF assms(2,1) t assms(4-6)] by blast
  note K = sys_ok_pipes [OF k(1)] sys_ok_pipes [OF assms(1)]
  have o: "own kend t K' s' free'" using k(1) sys_memD(1) by (auto simp: sys_ok_def)
  note a = o [unfolded own_def owned_def, folded proc_pages_def]
  have "counted s'" using k(1) by (simp add: sys_ok_def files_ok_def)
  moreover have "\<exists>s''. sexec kend t xa e s' = Some (Ok s'')"
    if e: "slegal e s' \<and> (\<forall>st. e = Exit st \<longrightarrow> (\<exists>p s1 s2. c_proc (kern s') = Some p \<and>
         close_ofiles kend p [0..<NOFILE] s' = Ok s1 \<and> leave_cwd p s1 = Ok s2))" for e
  proof (cases "\<exists>st. e = Exit st")
    case True
    then obtain st where st: "e = Exit st" by blast
    then show ?thesis using exit_step [OF k(1), of _ _ _ xa st] e by fastforce
  next
    case False
    then show ?thesis using sexec_runs [OF k(1) _ t assms(4-6), of e] e by blast
  qed
  ultimately show ?thesis
    using a k(2) unfolding counted_def pages_def all_pages_def proc_pages_def K by (intro exI [of _ free']) blast
qed

theorem system_safe_witness:
  "\<exists>s' free'. sstep 8192 4096 (\<lambda>_. 0) pr_sys s' \<and> kmem_inv 8192 (kmm s') free' \<and> proc_pages s' 0 \<inter> proc_pages s' 1 = {} \<and>
     (\<Union>i < NPROC. proc_pages s' i) \<union> set free' \<union> pipe_pages (kfiles s') = (\<Union>i < NPROC. proc_pages pr_sys i) \<union> {36864} \<union> pipe_pages (kfiles pr_sys)"
proof -
  obtain s' where s': "sexec 8192 4096 (\<lambda>_. 0) Fork pr_sys = Some (Ok s')" using sexec_runs [OF pr_ok, of Fork "\<lambda>_. 0"] pr_calls by auto
  have st: "sstep 8192 4096 (\<lambda>_. 0) pr_sys s'" using sstep.intros [OF _ s'] pr_calls by simp
  then have "(sstep 8192 4096 (\<lambda>_. 0))\<^sup>*\<^sup>* pr_sys s'" by (rule r_into_rtranclp [of "sstep 8192 4096 (\<lambda>_. 0)"])
  from system_safe [OF pr_ok this] obtain free' where f: "kmem_inv 8192 (kmm s') free'"
      "\<forall>i < NPROC. \<forall>j < NPROC. i \<noteq> j \<longrightarrow> proc_pages s' i \<inter> proc_pages s' j = {}"
      "(\<Union>i < NPROC. proc_pages s' i) \<union> set free' \<union> pipe_pages (kfiles s') = (\<Union>i < NPROC. proc_pages pr_sys i) \<union> {36864} \<union> pipe_pages (kfiles pr_sys)"
    by auto
  have "proc_pages s' 0 \<inter> proc_pages s' 1 = {}" using f(2) [rule_format, of 0 1] by simp
  then show ?thesis using st f(1,3) by blast
qed

text \<open>
  C4: A step of one process, whatever it does, leaves every other live process the page
  table, the size and the trap frame it had, and every byte of its pages.
\<close>

theorem process_isolation:
  assumes "sys_ok kend t K s free" "slegal e s" "sexec kend t xa e s = Some (Ok s')"
    and "t mod PGSIZE = 0" "t < 2 ^ 56" "\<forall>j < NPROC. xa j + 4 \<le> kend" "kend < 2 ^ 63"
    and "i < NPROC" "c_proc (kern s) \<noteq> Some i" "p_state (kproc s i) \<in> {RUNNABLE, SLEEPING}"
  shows "p_pagetable (kproc s' i) = p_pagetable (kproc s i) \<and> p_sz (kproc s' i) = p_sz (kproc s i) \<and>
    p_trapframe (kproc s' i) = p_trapframe (kproc s i) \<and>
    (\<forall>q \<in> proc_pages s i. \<forall>a. in_page q a \<longrightarrow> kmemory (kmm s') a = kmemory (kmm s) a)"
proof -
  have t: "t mod 4096 = 0" using assms(4) by simp
  have "good_step kend t K s free s'" by (rule sstep_good [OF assms(1) sstep.intros [OF assms(2,3)] t assms(5-7)])
  then have "image (kproc s' i) = image (kproc s i)" "same_on (proc_pages s i) (kmemory (kmm s)) (kmemory (kmm s'))"
    using assms(8-10) by (auto simp: good_step_def isolated_def live_def)
  then show ?thesis by (simp add: image_def same_on_def)
qed

lemma pr_yields:
  obtains s1 K free where "sexec 8192 4096 (\<lambda>_. 0) (Sched EYield) pr_sys = Some (Ok s1)" "sys_ok 8192 4096 K s1 free"
    "c_proc (kern s1) = None" "p_state (kproc s1 0) = RUNNABLE"
proof -
  obtain s1 where s1: "sexec 8192 4096 (\<lambda>_. 0) (Sched EYield) pr_sys = Some (Ok s1)" "good_step 8192 4096 {} pr_sys [36864] s1"
    using sched_step [OF pr_ok, of EYield] pr_calls by (auto simp: calls_def)
  obtain k' where k': "bind_res (yield (kern pr_sys)) (dequeue_return 0) = Ok k'" "at_scheduler k'" "p_state (procs k' ! 0) = RUNNABLE"
    using yield_ok [OF pr_running pr_fields(3)] by blast
  have "kern s1 = k'" using s1(1) k'(1) by (auto simp: on_kern_def switch_away_def)
  then show ?thesis using that [OF s1(1)] s1(2) k'(2,3) by (auto simp: good_step_def at_scheduler_def kproc_def)
qed

theorem process_isolation_witness:
  "\<exists>s1 s2. sexec 8192 4096 (\<lambda>_. 0) (Sched EYield) pr_sys = Some (Ok s1) \<and> sexec 8192 4096 (\<lambda>_. 0) (Sched (EKill 1)) s1 = Some (Ok s2) \<and>
    p_pagetable (kproc s2 0) = p_pagetable (kproc s1 0) \<and> p_trapframe (kproc s2 0) = p_trapframe (kproc s1 0)"
proof -
  obtain s1 K free where s1: "sexec 8192 4096 (\<lambda>_. 0) (Sched EYield) pr_sys = Some (Ok s1)" "sys_ok 8192 4096 K s1 free"
    "c_proc (kern s1) = None" "p_state (kproc s1 0) = RUNNABLE" by (rule pr_yields)
  obtain s2 where s2: "sexec 8192 4096 (\<lambda>_. 0) (Sched (EKill 1)) s1 = Some (Ok s2)" using sched_step [OF s1(2), of "EKill 1"] by auto
  from process_isolation [OF s1(2) _ s2, of 0] s1(3,4) have "p_pagetable (kproc s2 0) = p_pagetable (kproc s1 0) \<and> p_trapframe (kproc s2 0) = p_trapframe (kproc s1 0)"
    by simp
  then show ?thesis using s1(1) s2 by blast
qed

text \<open>
  C31: In every state the system reaches, the page table of each process has the same shape: the pages
  below the size of the process are mapped, each to a physical page of its own, the two pages at the top are the
  trampoline and the trap frame and closed to user code, and nothing else is mapped.
\<close>

theorem page_tables_typed:
  assumes "sys_ok kend t K s free" "(sstep kend t xa)\<^sup>*\<^sup>* s s'"
    and "t mod PGSIZE = 0" "t < 2 ^ 56" "\<forall>j < NPROC. xa j + 4 \<le> kend" "kend < 2 ^ 63"
    and "i < NPROC" "p_state (kproc s' i) \<noteq> UNUSED"
  shows "\<exists>tf pt. p_trapframe (kproc s' i) = Some tf \<and> p_pagetable (kproc s' i) = Some pt \<and> phys_page kend tf \<and>
    (let m = kmemory (kmm s'); n = npages (p_sz (kproc s' i)) in
       (\<forall>x < n. \<exists>e. vmap m pt x = Some e \<and> phys_page kend (PTE2PA e)) \<and>
       (\<forall>x < n. \<forall>y < n. vmap m pt x \<noteq> None \<and> page_at m pt x = page_at m pt y \<longrightarrow> x = y) \<and>
       vmap m pt (TRAMPOLINE div PGSIZE) = Some (PA2PTE t OR (PTE_R OR PTE_X) OR PTE_V) \<and>
       vmap m pt (TRAPFRAME div PGSIZE) = Some (PA2PTE tf OR (PTE_R OR PTE_W) OR PTE_V) \<and>
       (\<forall>x < 2 ^ 27. n \<le> x \<and> x \<noteq> TRAMPOLINE div PGSIZE \<and> x \<noteq> TRAPFRAME div PGSIZE \<longrightarrow> vmap m pt x = None))"
proof -
  have t: "t mod 4096 = 0" using assms(3) by simp
  obtain K' free' where "sys_ok kend t K' s' free'" using ssteps_ok [OF assms(2,1) t assms(4-6)] by blast
  then have "sys_mem kend t K' s' free'" by (simp add: sys_ok_def)
  from sys_memD(4) [OF this assms(7,8)] obtain tf pt where p: "image (kproc s' i) = (Some tf, Some pt, p_sz (kproc s' i))" "phys_page kend tf"
      "aspace kend t (kmemory (kmm s')) pt (p_sz (kproc s' i)) tf" by blast
  have "\<forall>x < npages (p_sz (kproc s' i)). \<forall>y < npages (p_sz (kproc s' i)). page_at (kmemory (kmm s')) pt x = page_at (kmemory (kmm s')) pt y \<longrightarrow> x = y"
    using p(3) by (auto simp: aspace_def inj_on_def)
  then show ?thesis using p(1,2) p(3) [unfolded aspace_def]
    by (intro exI [of _ tf] exI [of _ pt]) (auto simp: image_def Let_def)
qed

theorem page_tables_typed_witness:
  "\<exists>tf pt. p_trapframe (kproc pr_sys 0) = Some tf \<and> p_pagetable (kproc pr_sys 0) = Some pt \<and>
    vmap (kmemory (kmm pr_sys)) pt (TRAPFRAME div PGSIZE) = Some (PA2PTE tf OR (PTE_R OR PTE_W) OR PTE_V)"
proof -
  have "p_state (kproc pr_sys 0) \<noteq> UNUSED" using pr_procs [of 0] by simp
  from page_tables_typed [OF pr_ok rtranclp.rtrancl_refl _ _ _ _ _ this, of "\<lambda>_. 0"] show ?thesis by (auto simp: Let_def)
qed

section \<open>The calls\<close>

lemma sys_mem_unused: "sys_mem kend t K s free \<Longrightarrow> i < NPROC \<Longrightarrow> p_state (kproc s i) = UNUSED \<Longrightarrow> proc_pages s i = {}"
  using sys_memD(3) [of kend t K s free i] by (simp add: proc_pages_def)

lemma unlock_pages: "unlock (kproc s' i) = unlock (kproc s i) \<Longrightarrow> kmm s' = kmm s \<Longrightarrow> proc_pages s' i = proc_pages s i"
  by (drule image_unlock) (simp add: proc_pages_def)

lemma sys_mem_kmem: "sys_mem kend t K s free \<Longrightarrow> kmem_inv kend (kmm s) free"
  by (drule sys_memD(1)) (simp add: own_def owned_def)

lemma sys_mem_apart:
  assumes "sys_mem kend t K s free"
  shows "(\<Union>i < NPROC. proc_pages s i) \<inter> (set free \<union> K) = {}" "set free \<inter> K = {}"
    "i < NPROC \<Longrightarrow> j < NPROC \<Longrightarrow> i \<noteq> j \<Longrightarrow> proc_pages s i \<inter> proc_pages s j = {}"
    "pages K s free = (\<Union>i < NPROC. proc_pages s i) \<union> set free \<union> K"
  using sys_memD(1) [OF assms] unfolding own_def owned_def pages_def all_pages_def proc_pages_def by fastforce+

lemma free_rest: "sys_mem kend t K s free \<Longrightarrow> set free = pages K s free - K - (\<Union>i < NPROC. proc_pages s i)"
  using sys_mem_apart(1,2,4) [of kend t K s free] by auto

text \<open>Free pages of a step that changes the pages of no process, or gives pages to one that had none.\<close>

lemma free_same:
  assumes "sys_mem kend t K s free" "sys_mem kend t K s' free'" "pages K s' free' = pages K s free"
    and "\<And>j. j < NPROC \<Longrightarrow> proc_pages s' j = proc_pages s j"
  shows "set free' = set free"
proof -
  have "(\<Union>i < NPROC. proc_pages s' i) = (\<Union>i < NPROC. proc_pages s i)" using assms(4) by simp
  then have "set free' = pages K s free - K - (\<Union>i < NPROC. proc_pages s i)"
    using free_rest [OF assms(2)] assms(3) by simp
  then show ?thesis using free_rest [OF assms(1)] by simp
qed

lemma free_grown:
  assumes "sys_mem kend t K s free" "sys_mem kend t K s' free'" "pages K s' free' = pages K s free" "np < NPROC" "proc_pages s np = {}"
    and "\<And>j. j < NPROC \<Longrightarrow> j \<noteq> np \<Longrightarrow> proc_pages s' j = proc_pages s j"
  shows "set free = proc_pages s' np \<union> set free' \<and> proc_pages s' np \<inter> set free' = {}"
proof -
  let ?R = "\<Union>i \<in> {..<NPROC} - {np}. proc_pages s i"
  have "(\<Union>i < NPROC. proc_pages x i) = proc_pages x np \<union> (\<Union>i \<in> {..<NPROC} - {np}. proc_pages x i)" for x
    using assms(4) by auto
  moreover have "(\<Union>i \<in> {..<NPROC} - {np}. proc_pages s' i) = ?R" using assms(6) by auto
  ultimately have e: "(\<Union>i < NPROC. proc_pages s' i) = proc_pages s' np \<union> ?R" "(\<Union>i < NPROC. proc_pages s i) = ?R"
    using assms(5) by simp_all
  have "proc_pages s' np \<inter> proc_pages s' i = {}" if "i \<in> {..<NPROC} - {np}" for i
    by (rule sys_mem_apart(3) [OF assms(2)]) (use assms(4) that in auto)
  then have "proc_pages s' np \<inter> ?R = {}" using assms(6) by blast
  moreover have "set free' = pages K s free - K - (proc_pages s' np \<union> ?R)" using free_rest [OF assms(2)] assms(3) e(1) by simp
  moreover have "proc_pages s' np \<subseteq> pages K s free - K"
    using sys_mem_apart(1,4) [OF assms(2)] assms(3) e(1) by auto
  moreover have "set free = pages K s free - K - ?R" using free_rest [OF assms(1)] e(2) by simp
  ultimately show ?thesis by auto
qed

text \<open>
  C6: \<^verbatim>\<open>fork\<close> always returns. Either it returns -1, and then every process table entry is as before or was and
  is unused, the files are as before, and the free pages and all bytes of pages in use too; or it returns the next
  pid and a process table entry that was unused is a runnable child of the caller with that pid, the caller's size,
  files and directory, its registers but for a0 = 0, and a copy of every page with its permissions, on pages
  that were free. Nothing of any other process changes.
\<close>

theorem fork_copies:
  assumes "sys_mem kend t K s free" "running (kern s)" "c_proc (kern s) = Some p" "files_open s p"
    and "t mod PGSIZE = 0" "t < 2 ^ 56" "\<forall>i < NPROC. p_state (kproc s i) = UNUSED \<longrightarrow> p_ofile (kproc s i) = replicate NOFILE None"
  shows "\<exists>r s' free'. fork kend t s = Some (Ok (r, s')) \<and> kmem_inv kend (kmm s') free' \<and>
    (\<forall>j < NPROC. \<forall>q \<in> proc_pages s j. \<forall>a. in_page q a \<longrightarrow> kmemory (kmm s') a = kmemory (kmm s) a) \<and>
    (r = -1 \<and> kfiles s' = kfiles s \<and> set free' = set free \<and>
       (\<forall>j < NPROC. unlock (kproc s' j) = unlock (kproc s j) \<or> p_state (kproc s j) = UNUSED \<and> p_state (kproc s' j) = UNUSED) \<or>
     (\<exists>np < NPROC. r = nextpid (kern s) \<and> p_state (kproc s np) = UNUSED \<and> p_state (kproc s' np) = RUNNABLE \<and> p_parent (kproc s' np) = Some p \<and>
       p_pid (kproc s' np) = nextpid (kern s) \<and> p_sz (kproc s' np) = p_sz (kproc s p) \<and> p_ofile (kproc s' np) = p_ofile (kproc s p) \<and>
       p_cwd (kproc s' np) = p_cwd (kproc s p) \<and> (\<forall>n < 36. tf_read np (8 * n) s' = (if 8 * n = TF_A0 then 0 else tf_read p (8 * n) s)) \<and>
       copy_of (kmemory (kmm s)) (adr (p_pagetable (kproc s p))) (kmemory (kmm s')) (adr (p_pagetable (kproc s' np))) (npages (p_sz (kproc s p))) \<and>
       set free = proc_pages s' np \<union> set free' \<and> proc_pages s' np \<inter> set free' = {} \<and>
       (\<forall>j < NPROC. j \<noteq> np \<longrightarrow> unlock (kproc s' j) = unlock (kproc s j))))"
proof -
  have t: "t mod 4096 = 0" using assms(5) by simp
  note U = sys_mem_unused [OF assms(1)]
  show ?thesis
  proof (cases rule: fork_result [OF assms(1-4) t assms(6)])
    case (1 s' free' i)
    have u: "unlock (kproc s' j) = unlock (kproc s j) \<or> p_state (kproc s j) = UNUSED \<and> p_state (kproc s' j) = UNUSED" if "j < NPROC" for j
      using 1(6,7,8) that by (cases "j = i") (auto simp: others_same_def)
    have "proc_pages s' i = proc_pages s i"
    proof (cases "p_state (kproc s i) = UNUSED")
      case True
      then show ?thesis using U [OF 1(5)] sys_mem_unused [OF 1(2,5)] 1(6) by simp
    next
      case False
      then show ?thesis using unlock_pages [of s' i s] 1(7) by blast
    qed
    then have pp: "proc_pages s' j = proc_pages s j" if "j < NPROC" for j using 1(8) that by (cases "j = i") (auto simp: others_same_def)
    have "same_on (proc_pages s j) (kmemory (kmm s)) (kmemory (kmm s'))" if "j < NPROC" for j
      using 1(5,7,8) that U by (cases "j = i") (auto simp: others_same_def same_on_def)
    moreover have "set free' = set free" by (rule free_same [OF assms(1) 1(2,3) pp])
    ultimately show ?thesis
      by (intro exI [of _ "-1"] exI [of _ s'] exI [of _ free']) (use 1(1,10) u sys_mem_kmem [OF 1(2)] in \<open>auto simp: same_on_def\<close>)
  next
    case (2 s' free' np)
    have o: "unlock (kproc s' j) = unlock (kproc s j)" "proc_pages s' j = proc_pages s j" if "j < NPROC" "j \<noteq> np" for j
      using 2(9) that by (simp_all add: others_same_def)
    have m: "same_on (proc_pages s j) (kmemory (kmm s)) (kmemory (kmm s'))" if "j < NPROC" for j
      using 2(6,7,9) that U by (cases "j = np") (auto simp: others_same_def same_on_def)
    have fl: "length (p_ofile (kproc s p)) = NOFILE" "p_ofile (kproc s np) = replicate NOFILE None" using assms(4,7) 2(6,7) by (auto simp: files_open_def)
    have of: "p_ofile (kproc s' np) = p_ofile (kproc s p)" unfolding 2(16) by (rule inherit_all [OF fl])
    have tf: "\<forall>n < 36. tf_read np (8 * n) s' = (if 8 * n = TF_A0 then 0 else tf_read p (8 * n) s)" using 2(18) by simp
    have fr: "set free = proc_pages s' np \<union> set free'" "proc_pages s' np \<inter> set free' = {}"
      using free_grown [OF assms(1) 2(2,3,6) U [OF 2(6,7)] o(2)] by blast+
    show ?thesis
      by (intro exI [of _ "nextpid (kern s)"] exI [of _ s'] exI [of _ free'] conjI disjI2 exI [of _ np])
        (use 2(1,6,7,10-13,15,17) o(1) of tf fr m sys_mem_kmem [OF 2(2)] in \<open>auto simp: same_on_def\<close>)
  qed
qed

theorem fork_copies_witness:
  "\<exists>r s'. fork 8192 4096 pr_sys = Some (Ok (r, s')) \<and> (r = -1 \<or> r = 2)"
proof -
  have "nextpid (kern pr_sys) = 2" by (simp add: pr_sys_def first_running_def)
  moreover have "sys_mem 8192 4096 {} pr_sys [36864]" using pr_ok by (simp add: sys_ok_def)
  moreover have "files_open pr_sys 0" by (rule files_ok_open) (use pr_ok pr_procs [of 0] in \<open>simp_all add: sys_ok_def live_def\<close>)
  moreover have "\<forall>i < NPROC. p_state (kproc pr_sys i) = UNUSED \<longrightarrow> p_ofile (kproc pr_sys i) = replicate NOFILE None"
    using pr_procs by (simp add: zero_proc_def)
  ultimately show ?thesis using fork_copies [of 8192 4096 "{}" pr_sys "[36864]" 0] pr_running by auto
qed

text \<open>
  C12: \<^verbatim>\<open>wait\<close>, whenever its loop looks at the table: when a child is a zombie it is reaped, its pid is returned, its
  exit status is at the given address, all its pages are free and its entry is unused. The result is -1
  exactly when a child is a zombie and the address is bad, or when no child is one and the caller has no
  children or was killed (\<open>wait_fails\<close>). Otherwise, with children but no zombie among them and not killed, the
  caller sleeps on its own entry until the next turn.
\<close>

theorem wait_reaps:
  assumes "sys_mem kend t K s free" "running_with WaitLock (kern s)" "c_proc (kern s) = Some p"
    and "t mod PGSIZE = 0" "t < 2 ^ 56" "\<forall>j < NPROC. xaddr j + 4 \<le> kend" "kend < 2 ^ 63"
  shows "\<exists>r s'. wait_turn kend xaddr addr s = Some (Ok (r, s')) \<and>
    ((\<exists>j free'. j < NPROC \<and> zombie_child s p j \<and> \<not> wait_fails s p addr \<and> r = Some (p_pid (kproc s j)) \<and> p_state (kproc s' j) = UNUSED \<and> running (kern s') \<and>
        kmem_inv kend (kmm s') free' \<and> set free' = proc_pages s j \<union> set free \<and>
        (addr \<noteq> 0 \<longrightarrow> status_at s' p addr (p_xstate (kproc s j))) \<and> (\<forall>i < NPROC. i \<noteq> j \<longrightarrow> unlock (kproc s' i) = unlock (kproc s i))) \<or>
     r = Some (-1) \<and> wait_fails s p addr \<and> running (kern s') \<and> (\<forall>i < NPROC. unlock (kproc s' i) = unlock (kproc s i)) \<or>
     r = None \<and> (\<exists>j < NPROC. p_parent (kproc s j) = Some p) \<and> (\<forall>j < NPROC. \<not> zombie_child s p j) \<and>
       p_killed (kproc s p) = 0 \<and> \<not> wait_fails s p addr \<and>
       (\<exists>k'. dequeue_return p (kern s') = Ok k' \<and> at_scheduler k' \<and> p_state (procs k' ! p) = SLEEPING \<and> p_chan (procs k' ! p) = ChProc p))"
proof -
  have t: "t mod 4096 = 0" using assms(4) by simp
  note len = sys_memD(2) [OF assms(1)]
  show ?thesis
  proof (cases rule: wait_turn_result [where addr = addr, OF assms(1-3) t assms(5-7)])
    case (1 s' free' j)
    have "kmem_inv kend (kmm s') free'" using sys_memD(1) [OF 1(4)] by (simp add: own_def owned_def)
    then show ?thesis using 1(1-3,6,8-11,16) by blast
  next
    case (2 s')
    have "unlock (kproc s' i) = unlock (kproc s i)" if "i < NPROC" for i using samek_proc [OF 2(5), of i] that len by (simp add: kproc_def)
    then show ?thesis using 2(1,4,6) by blast
  next
    case (3 s' k')
    have "p_killed (kproc s p) = 0" using 3(10,14) unfolding wait_fails_def by (simp split: if_splits)
    with 3 show ?thesis by blast
  qed
qed

theorem wait_reaps_witness:
  "\<exists>k s'. acquire_lk WaitLock (kern pr_sys) = Ok k \<and> wait_turn 8192 (\<lambda>_. 0) 0 (pr_sys\<lparr>kern := k\<rparr>) = Some (Ok (Some (-1), s'))"
proof -
  obtain k where k: "acquire_lk WaitLock (kern pr_sys) = Ok k" "locks {WaitLock} {} k" "samek (kern pr_sys) k"
    by (rule locks_acquire_lk [of "{}" "{}" "kern pr_sys" WaitLock]) (use pr_running in \<open>simp_all add: runs_running\<close>)
  let ?s = "pr_sys\<lparr>kern := k\<rparr>"
  have rw: "running_with WaitLock (kern ?s)" unfolding runs_running_with using runs_samek [OF _ k(3)] pr_running k(2) by (simp add: runs_running)
  have sm: "sys_mem 8192 4096 {} ?s [36864]" using ukeep_mem(1) [OF _ samek_ukeep [OF k(3)]] pr_ok by (auto simp: sys_ok_def)
  have c: "c_proc (kern ?s) = Some 0" using samek_fields(5) [OF k(3)] by simp
  have len: "length (procs (kern pr_sys)) = NPROC" using pr_own by (simp add: own_def)
  have "p_parent (kproc ?s j) \<noteq> Some 0" if "j < NPROC" for j
    using unlock_fields(4) [OF samek_kproc [OF k(3)], of j] pr_procs [OF that] that len by (simp add: zero_proc_def)
  with wait_reaps [OF sm rw c, of "\<lambda>_. 0" 0] obtain s' where "wait_turn 8192 (\<lambda>_. 0) 0 ?s = Some (Ok (Some (-1), s'))"
    by (fastforce simp: zombie_child_def)
  then show ?thesis using k(1) by blast
qed

text \<open>
  C33: \<^verbatim>\<open>growproc\<close> with an \<^verbatim>\<open>int\<close> argument always returns. The size becomes the old size plus the argument and
  the result is 0; or memory runs out, the result is -1 and the size stays; or the argument is below
  minus the size, and the result is 0 although nothing changes. In every case the address space
  fits the new size and the caller's other pages keep their contents.
\<close>

theorem growproc_resizes:
  assumes "sys_mem kend t K s free" "running (kern s)" "c_proc (kern s) = Some p" "- (2 ^ 31) \<le> n" "n < 2 ^ 31"
  shows "\<exists>r s' free'. growproc kend n s = Ok (r, s') \<and> sys_mem kend t K s' free' \<and> pages K s' free' = pages K s free \<and>
    (\<forall>j < NPROC. j \<noteq> p \<longrightarrow> kproc s' j = kproc s j) \<and> kproc s' p = (kproc s p)\<lparr>p_sz := p_sz (kproc s' p)\<rparr> \<and>
    (if int (p_sz (kproc s p)) + n < 0 then r = 0 \<and> p_sz (kproc s' p) = p_sz (kproc s p)
     else r = 0 \<and> int (p_sz (kproc s' p)) = int (p_sz (kproc s p)) + n \<or> r = -1 \<and> 0 < n \<and> p_sz (kproc s' p) = p_sz (kproc s p)) \<and>
    (\<forall>x y. x < npages (p_sz (kproc s p)) \<and> x < npages (p_sz (kproc s' p)) \<and> y < PGSIZE \<longrightarrow>
       content_of (kmemory (kmm s')) (adr (p_pagetable (kproc s p))) x y = content_of (kmemory (kmm s)) (adr (p_pagetable (kproc s p))) x y)"
proof -
  note o = sys_memD(1) [OF assms(1)] and len = sys_memD(2) [OF assms(1)]
  have p: "p < NPROC" "p_state (kproc s p) = RUNNING" using assms(2,3) by (auto simp: running_iff kproc_def)
  obtain tf pt where im: "image (kproc s p) = (Some tf, Some pt, p_sz (kproc s p))" using sys_memD(4) [OF assms(1) p(1)] p(2) by auto
  obtain r m z free' where g: "growproc kend n s = Ok (r, upd_kproc p (\<lambda>q. q\<lparr>p_sz := z\<rparr>) (set_mem s m))"
      "moved kend t pt tf (kmm s) (p_sz (kproc s p)) free m z free'"
      "r = 0 \<and> int z = int (p_sz (kproc s p)) + n \<or> r = 0 \<and> int (p_sz (kproc s p)) + n < 0 \<and> z = p_sz (kproc s p) \<or> r = -1 \<and> 0 < n \<and> z = p_sz (kproc s p)"
    using growproc_result [OF o assms(3) p(1) im assms(4,5)] by blast
  let ?s = "upd_kproc p (\<lambda>q. q\<lparr>p_sz := z\<rparr>) (set_mem s m)"
  have kp: "kproc ?s j = (if j = p then (kproc s p)\<lparr>p_sz := z\<rparr> else kproc s j)" for j using p(1) len by simp
  have im': "image (kproc ?s j) = (if j = p then (Some tf, Some pt, z) else image (kproc s j))" for j using im unfolding kp by (simp add: image_def)
  have st: "step_of kend t p s free ?s free'" by (rule moved_step [OF o p(1) im _ im']) (use g(2) in simp_all)
  note os = own_step [OF o p(1) st]
  have sm': "sys_mem kend t K ?s free'"
    by (rule state_keeps_mem [OF assms(1) os(1), of p]) (use p(2) im in \<open>simp_all only: kp if_True if_False\<close>, simp add: image_def)
  have z: "p_sz (kproc ?s p) = z" by (simp only: kp) simp
  have "content_of m pt' x y = content_of (kmemory (kmm s)) pt' x y" if "m = kmemory (kmm ?s)" "pt' = adr (p_pagetable (kproc s p))"
      "x < npages (p_sz (kproc s p)) \<and> x < npages z \<and> y < PGSIZE" for m pt' x y
  proof -
    have "pt' = pt" using that(2) im by (simp add: image_def adr_def)
    moreover have "vmap m pt x = vmap (kmemory (kmm s)) pt x" "same_on {page_at (kmemory (kmm s)) pt x} (kmemory (kmm s)) m"
      using g(2) that by (simp_all add: moved_def)
    ultimately show ?thesis using that(3) by (simp add: content_of_def page_at_def same_on_def in_page_def)
  qed
  then show ?thesis using g(1,3) sm' os(2) kp z by (intro exI [of _ r] exI [of _ ?s] exI [of _ free']) auto
qed

theorem growproc_resizes_witness:
  "\<exists>s'. growproc 8192 (-5000) pr_sys = Ok (0, s') \<and> p_sz (kproc s' 0) = 4096"
proof -
  have "sys_mem 8192 4096 {} pr_sys [36864]" using pr_ok by (simp add: sys_ok_def)
  moreover have "p_sz (kproc pr_sys 0) = 4096" using pr_procs [of 0] by simp
  ultimately show ?thesis using growproc_resizes [of 8192 4096 "{}" pr_sys "[36864]" 0 "-5000"] pr_running by auto
qed

text \<open>
  C32: \<^verbatim>\<open>exit\<close> of a process other than \<^verbatim>\<open>init\<close>, when the file system gives back its files and its directory, does not
  fail: the CPU goes back to the scheduler, the process is a zombie with the exit status and without open
  files, its children have \<^verbatim>\<open>init\<close> as their parent, no other process changes in anything but what
  scheduling changes, and the memory of every process is untouched.
\<close>

theorem exit_zombie:
  assumes "sys_ok kend t K s free" "calls s" "c_proc (kern s) = Some p" "initproc (kern s) \<noteq> Some p"
    and "close_ofiles kend p [0..<NOFILE] s = Ok s1" "leave_cwd p s1 = Ok s2"
  shows "\<exists>s3 k'. exit kend status s = Ok s3 \<and> dequeue_return p (kern s3) = Ok k' \<and> at_scheduler k' \<and>
    p_state (procs k' ! p) = ZOMBIE \<and> p_xstate (procs k' ! p) = status \<and> p_ofile (procs k' ! p) = replicate NOFILE None \<and>
    p_pagetable (procs k' ! p) = p_pagetable (kproc s p) \<and>
    (\<forall>j < NPROC. j \<noteq> p \<longrightarrow> p_parent (procs k' ! j) = (if p_parent (kproc s j) = Some p then initproc (kern s) else p_parent (kproc s j)) \<and>
       p_pid (procs k' ! j) = p_pid (kproc s j) \<and> p_pagetable (procs k' ! j) = p_pagetable (kproc s j) \<and> p_ofile (procs k' ! j) = p_ofile (kproc s j)) \<and>
    (\<forall>j < NPROC. \<forall>q \<in> proc_pages s j. \<forall>a. in_page q a \<longrightarrow> kmemory (kmm s3) a = kmemory (kmm s) a)"
proof -
  obtain p' where p': "running (kern s)" "c_proc (kern s) = Some p'" "files_open s p'" by (rule calls_running [OF assms(1,2)])
  have fo: "files_open s p" using p' assms(3) by simp
  have sm: "sys_mem kend t K s free" "pipe_ok K (kfiles s)" using assms(1) by (simp_all add: sys_ok_def)
  obtain s3 k' where x: "exit kend status s = Ok s3" "dequeue_return p (kern s3) = Ok k'" "at_scheduler k'"
    "\<forall>j < NPROC. j \<noteq> p \<longrightarrow> mask (procs k' ! j) = mask (adopt p (initproc (kern s)) (kproc s j))"
    "mask (procs k' ! p) = mask ((adopt p (initproc (kern s)) (kproc s p))\<lparr>p_ofile := replicate NOFILE None, p_cwd := None, p_xstate := status, p_state := ZOMBIE\<rparr>)"
    "\<forall>j < NPROC. same_on (proc_pages s j) (kmemory (kmm s)) (kmemory (kmm s3))"
    by (rule exit_result [OF sm(1) p'(1) assms(3,4) sm(2) fo assms(5,6)])
  have z: "p_state (procs k' ! p) = ZOMBIE" "p_xstate (procs k' ! p) = status" "p_ofile (procs k' ! p) = replicate NOFILE None"
      "p_pagetable (procs k' ! p) = p_pagetable (kproc s p)"
    using mask_fields(4,6,8,10) [OF x(5)] by (simp_all add: live_def adopt_def)
  have o: "p_parent (procs k' ! j) = (if p_parent (kproc s j) = Some p then initproc (kern s) else p_parent (kproc s j))"
      "p_pid (procs k' ! j) = p_pid (kproc s j)" "p_pagetable (procs k' ! j) = p_pagetable (kproc s j)" "p_ofile (procs k' ! j) = p_ofile (kproc s j)"
    if "j < NPROC" "j \<noteq> p" for j
    using mask_fields(1,2,4,6) [of "procs k' ! j" "adopt p (initproc (kern s)) (kproc s j)"] x(4) that by (simp_all add: adopt_def)
  show ?thesis using x(1-3,6) z o unfolding same_on_def by blast
qed

lemma pr_closes: "\<exists>s2. close_ofiles 8192 0 [0..<NOFILE] pr_sys = Ok pr_sys \<and> leave_cwd 0 pr_sys = Ok s2"
proof -
  have "\<forall>fd < NOFILE. p_ofile (kproc pr_sys 0) ! fd = None" using pr_procs [of 0] by (simp add: zero_proc_def)
  then have "close_ofiles 8192 0 fds pr_sys = Ok pr_sys" if "set fds \<subseteq> {..<NOFILE}" for fds using that by (induction fds) simp_all
  from this [of "[0..<NOFILE]"] have "close_ofiles 8192 0 [0..<NOFILE] pr_sys = Ok pr_sys" by (simp add: subset_iff)
  moreover have "p_cwd (kproc pr_sys 0) = Some 0" using pr_procs [of 0] by simp
  ultimately show ?thesis by (simp add: leave_cwd_def Let_def demo_kio_def demo_fs_def f_begin_op_def iput_def f_end_op_def begin_op_def end_op_def commit_def upd_inode_def)
qed

theorem exit_zombie_witness:
  "\<exists>s3 k'. exit 8192 7 pr_sys = Ok s3 \<and> dequeue_return 0 (kern s3) = Ok k' \<and> p_state (procs k' ! 0) = ZOMBIE \<and> p_xstate (procs k' ! 0) = 7"
proof -
  obtain s2 where "close_ofiles 8192 0 [0..<NOFILE] pr_sys = Ok pr_sys" "leave_cwd 0 pr_sys = Ok s2" using pr_closes by blast
  moreover have "initproc (kern pr_sys) \<noteq> Some 0" by (simp add: pr_sys_def first_running_def zero_kernel_def setupQueue_def Let_def)
  ultimately show ?thesis using exit_zombie [OF pr_ok pr_calls, of 0 pr_sys s2 7] by auto
qed

end
