(* ===== verification/Ulib.thy ===== *)
theory Ulib
  imports Cmem Printf
begin

text \<open>
  The user library (\<^verbatim>\<open>user/ulib.c\<close>) over the same byte memory as the kernel's routines.
  Loops that look for a NUL byte or a difference are partial functions: \<open>None\<close> is a loop
  that does not end. System calls are parameters: \<open>input\<close> are the bytes that \<^verbatim>\<open>read(0, ..)\<close>
  will still deliver before it reports the end of the file or an error.
\<close>

partial_function (option) ustrcpy :: "nat \<Rightarrow> nat \<Rightarrow> mem \<Rightarrow> mem option" where
  [code]: "ustrcpy s t m =
     (let c = m t; m = m(s := c) in if c \<noteq> 0 then ustrcpy (s + 1) (t + 1) m else Some m)"

partial_function (option) ustrcmp :: "nat \<Rightarrow> nat \<Rightarrow> mem \<Rightarrow> int option" where
  [code]: "ustrcmp p q m =
     (if m p \<noteq> 0 \<and> m p = m q then ustrcmp (p + 1) (q + 1) m else Some (uint (m p) - uint (m q)))"

partial_function (option) ustrchr :: "nat \<Rightarrow> u8 \<Rightarrow> mem \<Rightarrow> nat option" where
  [code]: "ustrchr s c m = (if m s \<noteq> 0 then (if m s = c then Some s else ustrchr (s + 1) c m) else Some 0)"

definition umemset :: "nat \<Rightarrow> int \<Rightarrow> nat \<Rightarrow> mem \<Rightarrow> mem" where
  "umemset dst c n m = memset_loop dst (word_of_int c) 0 n m"

text \<open>The loop of \<^verbatim>\<open>gets\<close> with room for \<open>k\<close> more characters before the NUL.\<close>

fun gets_loop :: "nat \<Rightarrow> nat \<Rightarrow> nat \<Rightarrow> u8 list \<Rightarrow> mem \<Rightarrow> nat \<times> u8 list \<times> mem" where
  "gets_loop buf i 0 input m = (i, input, m)"
| "gets_loop buf i (Suc k) [] m = (i, [], m)"
| "gets_loop buf i (Suc k) (c # input) m =
     (if c = 10 \<or> c = 13 then (i + 1, input, m(buf + i := c))
      else gets_loop buf (i + 1) k input (m(buf + i := c)))"

definition gets :: "nat \<Rightarrow> int \<Rightarrow> u8 list \<Rightarrow> mem \<Rightarrow> u8 list \<times> mem" where
  "gets buf mx input m =
     (let (i, input, m) = gets_loop buf 0 (nat (mx - 1)) input m in (input, m(buf + i := 0)))"

text \<open>The loop of \<^verbatim>\<open>atoi\<close>: 32-bit arithmetic.\<close>

partial_function (option) atoi_loop :: "nat \<Rightarrow> int \<Rightarrow> mem \<Rightarrow> int option" where
  [code]: "atoi_loop s n m =
     (if 48 \<le> m s \<and> m s \<le> 57 then atoi_loop (s + 1) (s32 (n * 10 + uint (m s) - 48)) m else Some n)"

definition atoi :: "nat \<Rightarrow> mem \<Rightarrow> int option" where
  "atoi s m = atoi_loop s 0 m"

definition umemmove :: "nat \<Rightarrow> nat \<Rightarrow> int \<Rightarrow> mem \<Rightarrow> mem" where
  "umemmove vdst vsrc n m =
     (if vsrc > vdst then copy_fwd vdst vsrc (nat n) m
      else copy_bwd (nat (int vdst + n)) (nat (int vsrc + n)) (nat n) m)"

fun umemcmp :: "nat \<Rightarrow> nat \<Rightarrow> nat \<Rightarrow> mem \<Rightarrow> int" where
  "umemcmp p1 p2 0 m = 0"
| "umemcmp p1 p2 (Suc n) m =
     (if m p1 \<noteq> m p2 then uint (m p1) - uint (m p2) else umemcmp (p1 + 1) (p2 + 1) n m)"

definition umemcpy :: "nat \<Rightarrow> nat \<Rightarrow> int \<Rightarrow> mem \<Rightarrow> mem" where
  "umemcpy dst src n m = umemmove dst src n m"

text \<open>
  \<^verbatim>\<open>stat\<close>, with the system calls as parameters on a state: the descriptor is closed again on
  every path that opened it.
\<close>

definition ustat ::
  "(string \<Rightarrow> 's \<Rightarrow> int \<times> 's) \<Rightarrow> (int \<Rightarrow> 's \<Rightarrow> (int \<times> 'st) \<times> 's) \<Rightarrow> (int \<Rightarrow> 's \<Rightarrow> 's) \<Rightarrow>
   string \<Rightarrow> 's \<Rightarrow> (int \<times> 'st option) \<times> 's" where
  "ustat open' fstat close' n s =
     (let (fd, s) = open' n s
      in if fd < 0 then ((-1, None), s)
         else let ((r, st), s) = fstat fd s; s = close' fd s in ((r, Some st), s))"

section \<open>What they compute\<close>

lemma ustrcpy_cstr:
  "cstr m t xs \<Longrightarrow> t + length xs < s \<or> s + length xs < t \<Longrightarrow> ustrcpy s t m = Some (store s (xs @ [0]) m)"
proof (induction xs arbitrary: s t m)
  case Nil
  then show ?case by (subst ustrcpy.simps) (simp add: cstr_Nil store_Cons)
next
  case (Cons x xs)
  have "cstr (m(s := x)) (t + 1) xs"
    by (rule cstr_upd) (use Cons.prems in \<open>auto simp: cstr_Cons\<close>)
  then have "ustrcpy (s + 1) (t + 1) (m(s := x)) = Some (store (s + 1) (xs @ [0]) (m(s := x)))"
    by (rule Cons.IH) (use Cons.prems in auto)
  then show ?case using Cons.prems by (subst ustrcpy.simps) (simp add: cstr_Cons store_Cons)
qed

lemma ustrcmp_cstr: "cstr m p xs \<Longrightarrow> cstr m q ys \<Longrightarrow> \<exists>r. ustrcmp p q m = Some r \<and> (r = 0 \<longleftrightarrow> xs = ys)"
proof (induction xs arbitrary: p q ys)
  case Nil
  then show ?case by (subst ustrcmp.simps, cases ys) (auto simp: cstr_Nil cstr_Cons word_uint_eq_iff)
next
  case (Cons x xs)
  then show ?case
  proof (cases ys)
    case Nil
    then show ?thesis using Cons.prems by (subst ustrcmp.simps) (auto simp: cstr_Nil cstr_Cons word_uint_eq_iff)
  next
    case ys: (Cons y ys')
    show ?thesis
    proof (cases "x = y")
      case True
      then show ?thesis using Cons.IH [of "p + 1" "q + 1" ys'] Cons.prems ys
        by (subst ustrcmp.simps) (auto simp: cstr_Cons)
    next
      case False
      then show ?thesis using Cons.prems ys by (subst ustrcmp.simps) (auto simp: cstr_Cons word_uint_eq_iff)
    qed
  qed
qed

text \<open>The first occurrence of a character, if there is one.\<close>

lemma ustrchr_cstr:
  "cstr m s xs \<Longrightarrow> c \<noteq> 0 \<Longrightarrow>
     ustrchr s c m = Some (if c \<in> set xs then s + length (takeWhile (\<lambda>x. x \<noteq> c) xs) else 0)"
proof (induction xs arbitrary: s)
  case Nil
  then show ?case by (subst ustrchr.simps) (simp add: cstr_Nil)
next
  case (Cons x xs)
  then show ?case by (subst ustrchr.simps) (auto simp: cstr_Cons)
qed

text \<open>The user library's memmove is the kernel's, though it tests the overlap differently.\<close>

lemma umemmove_eq: "0 \<le> n \<Longrightarrow> umemmove d s n m = memmove d s (nat n) m"
proof -
  assume "0 \<le> n"
  then obtain k where n: "n = int k" by (metis nonneg_int_cases)
  have "nat (int d + int k) = d + k" "nat (int s + int k) = s + k" by linarith+
  then show ?thesis unfolding n memmove_eq umemmove_def
    by (auto simp: copy_fwd_eq copy_bwd_eq)
qed

lemma umemcmp_eq: "umemcmp p q n m = memcmp p q n m"
  by (induction n arbitrary: p q) simp_all

definition line_of :: "nat \<Rightarrow> u8 list \<Rightarrow> u8 list" where
  "line_of k input = (let l = takeWhile (\<lambda>c. c \<noteq> 10 \<and> c \<noteq> 13) input
     in take k (take (Suc (length l)) input))"

lemma line_of_Cons: "line_of (Suc k) (c # input) = (if c = 10 \<or> c = 13 then [c] else c # line_of k input)"
  by (simp add: line_of_def Let_def)

lemma line_of_none: "line_of 0 input = []" "line_of k [] = []"
  by (simp_all add: line_of_def Let_def)

lemma gets_loop_eq:
  "gets_loop buf i k input m = (i + length (line_of k input), drop (length (line_of k input)) input,
     store (buf + i) (line_of k input) m)"
  by (induction buf i k input m rule: gets_loop.induct)
    (simp_all add: line_of_Cons line_of_none store_Cons fun_upd_def)

lemma gets_eq:
  "gets buf mx input m = (let l = line_of (nat (mx - 1)) input
     in (drop (length l) input, store buf (l @ [0]) m))"
proof -
  have "(store buf l m)(buf + length l := 0) = store buf (l @ [0]) m" for l
    by (auto simp: store_def fun_eq_iff nth_append)
  then show ?thesis by (simp add: gets_def gets_loop_eq Let_def)
qed

section \<open>Numbers\<close>

definition is_digit :: "u8 \<Rightarrow> bool" where
  "is_digit b \<longleftrightarrow> 48 \<le> b \<and> b \<le> 57"

definition dec_value :: "int \<Rightarrow> u8 list \<Rightarrow> int" where
  "dec_value n bs = foldl (\<lambda>n b. n * 10 + uint b - 48) n bs"

lemma dec_value_mono: "list_all is_digit bs \<Longrightarrow> 0 \<le> n \<Longrightarrow> n \<le> dec_value n bs"
proof (induction bs arbitrary: n)
  case (Cons b bs)
  then have "0 \<le> uint b - 48" by (simp add: is_digit_def word_le_def)
  then have "n \<le> n * 10 + uint b - 48" "0 \<le> n * 10 + uint b - 48" using Cons.prems(2) by linarith+
  then show ?case using Cons.IH [of "n * 10 + uint b - 48"] Cons.prems(1) by (simp add: dec_value_def)
qed (simp add: dec_value_def)

lemma atoi_loop_digits:
  assumes "list_all is_digit bs" "bytes m s (length bs) = bs" "\<not> is_digit (m (s + length bs))"
    "0 \<le> n" "dec_value n bs < 2 ^ 31"
  shows "atoi_loop s n m = Some (dec_value n bs)"
  using assms
proof (induction bs arbitrary: s n)
  case Nil
  then show ?case by (subst atoi_loop.simps) (auto simp: is_digit_def dec_value_def)
next
  case (Cons b bs)
  let ?n = "n * 10 + uint b - 48"
  have b: "m s = b" "is_digit b" and bs: "bytes m (s + 1) (length bs) = bs"
    using Cons.prems(1,2) by (auto simp: bytes_Suc)
  have "0 \<le> uint b - 48" using b(2) by (simp add: is_digit_def word_le_def)
  then have n: "0 \<le> ?n" using Cons.prems(4) by linarith
  moreover have "?n \<le> dec_value ?n bs" using dec_value_mono n Cons.prems(1) by simp
  ultimately have "s32 ?n = ?n" using Cons.prems(5) by (intro s32_id) (auto simp: dec_value_def)
  moreover have "atoi_loop (s + 1) ?n m = Some (dec_value ?n bs)"
    by (rule Cons.IH) (use Cons.prems n bs in \<open>auto simp: dec_value_def\<close>)
  ultimately show ?case using b by (subst atoi_loop.simps) (auto simp: is_digit_def dec_value_def)
qed

lemma char_digit:
  assumes "c \<in> (\<lambda>i. kdigits ! i) ` {..<10}"
  shows "is_digit (of_nat (of_char c))" "uint (of_nat (of_char c) :: u8) - 48 = int (digit_of kdigits c)"
proof -
  have *: "\<forall>i < 10. is_digit (of_nat (of_char (kdigits ! i))) \<and>
      uint (of_nat (of_char (kdigits ! i)) :: u8) - 48 = int (digit_of kdigits (kdigits ! i))"
    by (simp add: numeral_eq_Suc All_less_Suc) code_simp
  then show "is_digit (of_nat (of_char c))" "uint (of_nat (of_char c) :: u8) - 48 = int (digit_of kdigits c)"
    using assms by auto
qed

lemma dec_value_digits:
  "set t \<subseteq> (\<lambda>i. kdigits ! i) ` {..<10} \<Longrightarrow>
     dec_value 0 (map (\<lambda>c. of_nat (of_char c)) t) = int (num_value (digit_of kdigits) 10 t) \<and>
     list_all is_digit (map (\<lambda>c. of_nat (of_char c)) t)"
proof (induction t rule: rev_induct)
  case (snoc c t)
  then show ?case using char_digit [of c] by (simp add: dec_value_def)
qed (simp add: dec_value_def num_value_def)

text \<open>
  Reading back what printf prints: for every argument that is not negative as an int, the
  text that %d puts out is converted by atoi to that number again.
\<close>

theorem atoi_reads_printf:
  assumes "0 \<le> va_int w" and "vprintf ''%d'' [Num w] = Some t" and "cstr m s (map (\<lambda>c. of_nat (of_char c)) t)"
  shows "atoi s m = Some (va_int w)"
proof -
  let ?bs = "map (\<lambda>c. of_nat (of_char c)) t :: u8 list"
  obtain t' where t': "printint kdigits (va_int w) 10 True = Some t'" "set t' \<subseteq> (\<lambda>i. kdigits ! i) ` {..<10}"
      "num_value (digit_of kdigits) 10 t' = nat (va_int w)"
    using printint_nonneg [OF assms(1)] va_int_range [of w] by blast
  have "t = t'" using assms(2) t'(1) by (simp add: vprintf_def uconv_def printint_udigits emit_def)
  with t' have d: "list_all is_digit ?bs" "dec_value 0 ?bs = va_int w"
    using dec_value_digits [of t] assms(1) by auto
  have "bytes m s (length ?bs) = ?bs" and "m (s + length ?bs) = 0"
    using assms(3) by (auto simp: cstr_def)
  moreover have "\<not> is_digit 0" by (simp add: is_digit_def)
  ultimately show ?thesis
    unfolding atoi_def using atoi_loop_digits [OF d(1), of m s 0] d(2) va_int_range [of w] by simp
qed

theorem atoi_reads_printf_witness:
  "atoi 100 (store 100 [52, 50, 0] (\<lambda>a. 7)) = Some 42"
proof -
  have v: "va_int 42 = 42" by code_simp
  have p: "vprintf ''%d'' [Num 42] = Some ''42''" by code_simp
  have c: "cstr (store 100 [52, 50, 0] (\<lambda>a. 7)) 100 (map (\<lambda>c. of_nat (of_char c)) ''42'')" by code_simp
  show ?thesis using atoi_reads_printf [OF _ p c] v by simp
qed

text \<open>
  The user library's memmove computes the same memory as the kernel's for every length
  and overlap, although it chooses the direction of the copy by a different test.
\<close>

theorem umemmove_is_memmove:
  assumes "0 \<le> n"
  shows "umemmove d s n m = memmove d s (nat n) m"
  by (rule umemmove_eq [OF assms])

theorem umemmove_is_memmove_witness:
  "umemmove 1 0 3 (\<lambda>a. word_of_nat a) = memmove 1 0 3 (\<lambda>a. word_of_nat a)"
  using umemmove_is_memmove [of 3 1 0] by simp

text \<open>
  gets consumes one line of the input, or as much of it as fits, and leaves it
  NUL-terminated in the buffer; with a positive size it writes no byte outside the buffer.
\<close>

theorem gets_line:
  assumes "0 < mx" and "gets buf mx input m = (rest, m')"
  shows "\<exists>l. input = l @ rest \<and> l = line_of (nat mx - 1) input \<and> bytes m' buf (length l + 1) = l @ [0] \<and>
    (\<forall>a. a < buf \<or> buf + nat mx \<le> a \<longrightarrow> m' a = m a)"
proof -
  let ?l = "line_of (nat mx - 1) input"
  have n: "nat (mx - 1) = nat mx - 1" by simp
  have r: "rest = drop (length ?l) input" "m' = store buf (?l @ [0]) m"
    using assms(2) by (simp_all add: gets_eq n Let_def)
  have pre: "?l = take (length ?l) input" by (simp add: line_of_def Let_def min_def)
  have "length ?l \<le> nat mx - 1" by (simp add: line_of_def Let_def)
  moreover have "bytes m' buf (length ?l + 1) = ?l @ [0]" using bytes_store [of buf "?l @ [0]" m] r(2) by simp
  moreover have "input = ?l @ rest" using pre r(1) by (metis append_take_drop_id)
  ultimately show ?thesis using assms(1) r(2) by (intro exI [of _ ?l]) (auto simp: store_def)
qed

theorem gets_line_witness:
  "\<exists>l. [104, 105, 10, 65] = l @ fst (gets 100 10 [104, 105, 10, 65] (\<lambda>a. 7)) \<and> l = [104, 105, 10]"
proof -
  have e: "line_of (nat 10 - 1) [104, 105, 10, 65] = [104, 105, 10]" by code_simp
  show ?thesis
    using gets_line [of 10 100 "[104, 105, 10, 65]" "\<lambda>a. 7" "fst (gets 100 10 [104, 105, 10, 65] (\<lambda>a. 7))"
        "snd (gets 100 10 [104, 105, 10, 65] (\<lambda>a. 7))"] unfolding e by auto
qed

end
