(* ===== verification/Grep.thy ===== *)
theory Grep
  imports Prelude
begin

text \<open>
  The pattern matcher and the line loop of \<^verbatim>\<open>user/grep.c\<close>. A C string is the list of its
  bytes before the NUL. The buffer of \<^verbatim>\<open>grep\<close> is the list of its \<^verbatim>\<open>m\<close> bytes in use; \<open>rd\<close> is
  how many bytes a \<^verbatim>\<open>read\<close> delivers, given the room in the buffer and what is left of the
  file: it never delivers more than there is of either, and the loop ends when it delivers none.
\<close>

abbreviation (input) ch_star :: u8 where "ch_star \<equiv> 42"
abbreviation (input) ch_dollar :: u8 where "ch_dollar \<equiv> 36"
abbreviation (input) ch_dot :: u8 where "ch_dot \<equiv> 46"
abbreviation (input) ch_caret :: u8 where "ch_caret \<equiv> 94"
abbreviation (input) ch_nl :: u8 where "ch_nl \<equiv> 10"

function matchhere :: "u8 list \<Rightarrow> u8 list \<Rightarrow> bool"
and matchstar :: "u8 \<Rightarrow> u8 list \<Rightarrow> u8 list \<Rightarrow> bool" where
  "matchhere re str =
     (case re of
        [] \<Rightarrow> True
      | c # re' \<Rightarrow>
          if re' \<noteq> [] \<and> hd re' = ch_star then matchstar c (tl re') str
          else if c = ch_dollar \<and> re' = [] then str = []
          else case str of [] \<Rightarrow> False | t # str' \<Rightarrow> (c = ch_dot \<or> c = t) \<and> matchhere re' str')"
| "matchstar c re str =
     (if matchhere re str then True
      else case str of [] \<Rightarrow> False | t # str' \<Rightarrow> (t = c \<or> c = ch_dot) \<and> matchstar c re str')"
  by pat_completeness auto

termination
  by (relation "measure (case_sum (\<lambda>(re, str). 2 * length re + 2 * length str)
       (\<lambda>(c, re, str). 2 * length re + 2 * length str + 1))") auto

declare matchhere.simps [simp del] matchstar.simps [simp del]

fun match_from :: "u8 list \<Rightarrow> u8 list \<Rightarrow> bool" where
  "match_from re str = (if matchhere re str then True
     else case str of [] \<Rightarrow> False | t # str' \<Rightarrow> match_from re str')"

declare match_from.simps [simp del]

definition match :: "u8 list \<Rightarrow> u8 list \<Rightarrow> bool" where
  "match re str =
     (if re \<noteq> [] \<and> hd re = ch_caret then matchhere (tl re) str else match_from re str)"

section \<open>The line loop\<close>

text \<open>\<^verbatim>\<open>strchr(p, '\n')\<close>: the newline is looked for before the first NUL.\<close>

fun split_line :: "u8 list \<Rightarrow> (u8 list \<times> u8 list) option" where
  "split_line [] = None"
| "split_line (b # bs) =
     (if b = 0 then None
      else if b = ch_nl then Some ([], bs)
      else case split_line bs of None \<Rightarrow> None | Some (l, rest) \<Rightarrow> Some (b # l, rest))"

lemma split_line_length: "split_line bs = Some (l, rest) \<Longrightarrow> length rest < length bs"
  by (induction bs arbitrary: l rest) (force split: if_splits option.splits)+

function grep_lines :: "u8 list \<Rightarrow> u8 list \<Rightarrow> u8 list \<times> u8 list" where
  "grep_lines pattern p =
     (case split_line p of
        None \<Rightarrow> ([], p)
      | Some (l, p) \<Rightarrow>
          let out = (if match pattern l then l @ [ch_nl] else []);
              (out', p) = grep_lines pattern p
          in (out @ out', p))"
  by pat_completeness auto

termination grep_lines
  by (relation "measure (\<lambda>(pat, p). length p)") (auto dest: split_line_length)

declare grep_lines.simps [simp del]

function grep_loop :: "(nat \<Rightarrow> nat \<Rightarrow> nat) \<Rightarrow> u8 list \<Rightarrow> u8 list \<Rightarrow> u8 list \<Rightarrow> u8 list" where
  "grep_loop rd pattern buf inp =
     (let room = 1024 - length buf - 1;
          chunk = take (min room (rd room (length inp))) inp
      in if chunk = [] then []
         else
           let (out, buf) = grep_lines pattern (buf @ chunk)
           in out @ grep_loop rd pattern buf (drop (length chunk) inp))"
  by pat_completeness auto

termination grep_loop
  by (relation "measure (\<lambda>(rd, pat, buf, inp). length inp)") auto

declare grep_loop.simps [simp del]

definition grep :: "(nat \<Rightarrow> nat \<Rightarrow> nat) \<Rightarrow> u8 list \<Rightarrow> u8 list \<Rightarrow> u8 list" where
  "grep rd pattern inp = grep_loop rd pattern [] inp"

section \<open>What a pattern means\<close>

definition ch_match :: "u8 \<Rightarrow> u8 \<Rightarrow> bool" where
  "ch_match c t \<longleftrightarrow> c = ch_dot \<or> c = t"

inductive pat_here :: "u8 list \<Rightarrow> u8 list \<Rightarrow> bool" where
  empty: "pat_here [] str"
| at_end: "pat_here [ch_dollar] []"
| char: "re = [] \<or> hd re \<noteq> ch_star \<Longrightarrow> c \<noteq> ch_dollar \<or> re \<noteq> [] \<Longrightarrow> ch_match c t \<Longrightarrow> pat_here re str \<Longrightarrow>
    pat_here (c # re) (t # str)"
| star: "\<forall>t \<in> set us. ch_match c t \<Longrightarrow> pat_here re str \<Longrightarrow> pat_here (c # ch_star # re) (us @ str)"

inductive_cases pat_here_cases: "pat_here (c # re) str"

definition pat_match :: "u8 list \<Rightarrow> u8 list \<Rightarrow> bool" where
  "pat_match re str \<longleftrightarrow>
     (if re \<noteq> [] \<and> hd re = ch_caret then pat_here (tl re) str
      else \<exists>us vs. str = us @ vs \<and> pat_here re vs)"

lemma matchstar_step:
  "matchstar c re str \<longleftrightarrow> matchhere re str \<or>
     (\<exists>t str'. str = t # str' \<and> ch_match c t \<and> matchstar c re str')"
  by (subst matchstar.simps) (auto simp: ch_match_def split: list.splits)

lemma matchhere_Nil: "matchhere [] str"
  by (simp add: matchhere.simps)

lemma matchhere_star: "matchhere (c # ch_star # re) str = matchstar c re str"
  by (simp add: matchhere.simps)

lemma matchhere_end: "matchhere [ch_dollar] str \<longleftrightarrow> str = []"
  by (simp add: matchhere.simps)

lemma matchhere_char:
  "re = [] \<or> hd re \<noteq> ch_star \<Longrightarrow> c \<noteq> ch_dollar \<or> re \<noteq> [] \<Longrightarrow>
     matchhere (c # re) str \<longleftrightarrow> (\<exists>t str'. str = t # str' \<and> ch_match c t \<and> matchhere re str')"
  by (subst matchhere.simps) (auto simp: ch_match_def split: list.splits)

text \<open>Every pattern has one of the four shapes.\<close>

lemma pattern_cases:
  obtains (Nil) "re = []" | (eol) "re = [ch_dollar]" | (star) c r where "re = c # ch_star # r"
  | (char) c r where "re = c # r" "r = [] \<or> hd r \<noteq> ch_star" "c \<noteq> ch_dollar \<or> r \<noteq> []"
proof (cases re)
  case (Cons c r)
  show thesis
  proof (cases "r \<noteq> [] \<and> hd r = ch_star")
    case True
    then have "re = c # ch_star # tl r" using Cons by (cases r) auto
    then show thesis by (rule that(3))
  next
    case False
    then show thesis using Cons that(2,4) by auto
  qed
qed (rule that(1))

lemma matchstar_repeat:
  "matchstar c re str \<longleftrightarrow> (\<exists>us vs. str = us @ vs \<and> (\<forall>t \<in> set us. ch_match c t) \<and> matchhere re vs)"
proof (induction str)
  case Nil
  then show ?case by (subst matchstar_step) auto
next
  case (Cons t str)
  show ?case
  proof
    assume "matchstar c re (t # str)"
    then consider "matchhere re (t # str)" | "ch_match c t" "matchstar c re str"
      by (subst (asm) matchstar_step) auto
    then show "\<exists>us vs. t # str = us @ vs \<and> (\<forall>t \<in> set us. ch_match c t) \<and> matchhere re vs"
    proof cases
      case 1
      then show ?thesis by (intro exI [of _ "[]"] exI [of _ "t # str"]) simp
    next
      case 2
      then obtain us vs where "str = us @ vs" "\<forall>t \<in> set us. ch_match c t" "matchhere re vs" using Cons by blast
      with 2 show ?thesis by (intro exI [of _ "t # us"] exI [of _ vs]) simp
    qed
  next
    assume "\<exists>us vs. t # str = us @ vs \<and> (\<forall>t \<in> set us. ch_match c t) \<and> matchhere re vs"
    then obtain us vs where uv: "t # str = us @ vs" "\<forall>t \<in> set us. ch_match c t" "matchhere re vs" by blast
    show "matchstar c re (t # str)"
    proof (cases us)
      case Nil
      then show ?thesis using uv by (subst matchstar_step) simp
    next
      case us: (Cons u us')
      then have "matchstar c re str" using uv Cons by auto
      then show ?thesis using uv us by (subst matchstar_step) simp
    qed
  qed
qed

lemma matchhere_complete: "pat_here re str \<Longrightarrow> matchhere re str"
  by (induction rule: pat_here.induct)
    (auto simp: matchhere_Nil matchhere_end matchhere_star matchhere_char matchstar_repeat)

lemma matchhere_sound: "matchhere re str \<Longrightarrow> pat_here re str"
proof (induction "length re" arbitrary: re str rule: less_induct)
  case less
  show ?case
  proof (cases re rule: pattern_cases)
    case Nil
    then show ?thesis by (simp add: pat_here.empty)
  next
    case eol
    then show ?thesis using less.prems by (simp add: matchhere_end pat_here.at_end)
  next
    case (star c r)
    then obtain us vs where "str = us @ vs" "\<forall>t \<in> set us. ch_match c t" "matchhere r vs"
      using less.prems by (auto simp: matchhere_star matchstar_repeat)
    then show ?thesis using star less.hyps [of r vs] by (simp add: pat_here.star)
  next
    case (char c r)
    then obtain t str' where "str = t # str'" "ch_match c t" "matchhere r str'"
      using less.prems by (auto simp: matchhere_char)
    then show ?thesis using char less.hyps [of r str'] by (simp add: pat_here.char)
  qed
qed

lemma match_from_suffix: "match_from re str \<longleftrightarrow> (\<exists>us vs. str = us @ vs \<and> matchhere re vs)"
proof (induction str)
  case Nil
  then show ?case by (simp add: match_from.simps)
next
  case (Cons t str)
  have "(\<exists>us vs. t # str = us @ vs \<and> matchhere re vs) \<longleftrightarrow>
      matchhere re (t # str) \<or> (\<exists>us vs. str = us @ vs \<and> matchhere re vs)"
    by (metis append_Cons append_Nil append_eq_Cons_conv)
  then show ?case using Cons by (subst match_from.simps) simp
qed

lemma match_pat: "match re str \<longleftrightarrow> pat_match re str"
proof -
  have "matchhere re = pat_here re" for re
    using matchhere_sound matchhere_complete by (intro ext) blast
  then show ?thesis by (simp add: match_def pat_match_def match_from_suffix)
qed

text \<open>
  C22: The matcher decides exactly what its patterns mean: literal bytes, a dot for any byte, a
  star for any number of repetitions, a dollar at the end for the end of the text, and a caret
  at the front for its beginning; an unanchored pattern may match anywhere. Both recursive
  functions terminate on every pattern and text.
\<close>

theorem match_correct: "match re str \<longleftrightarrow> pat_match re str"
  by (rule match_pat)

section \<open>Lines\<close>

text \<open>The complete lines of a file, and the rest behind the last newline.\<close>

fun lines_of :: "u8 list \<Rightarrow> u8 list list \<times> u8 list" where
  "lines_of [] = ([], [])"
| "lines_of (b # bs) =
     (let (ls, rest) = lines_of bs
      in if b = ch_nl then ([] # ls, rest)
         else case ls of [] \<Rightarrow> ([], b # rest) | l # ls \<Rightarrow> ((b # l) # ls, rest))"

definition matching :: "u8 list \<Rightarrow> u8 list list \<Rightarrow> u8 list" where
  "matching pattern ls = concat (map (\<lambda>l. l @ [ch_nl]) (filter (pat_match pattern) ls))"

lemma lines_of_no_nl: "ch_nl \<notin> set bs \<Longrightarrow> lines_of bs = ([], bs)"
  by (induction bs) auto

lemma lines_of_line: "ch_nl \<notin> set l \<Longrightarrow> lines_of (l @ ch_nl # bs) = (l # fst (lines_of bs), snd (lines_of bs))"
  by (induction l) (auto simp: Let_def split: prod.split)

lemma lines_of_append:
  "lines_of (xs @ ys) = (fst (lines_of xs) @ fst (lines_of (snd (lines_of xs) @ ys)), snd (lines_of (snd (lines_of xs) @ ys)))"
proof (induction "length xs" arbitrary: xs rule: less_induct)
  case less
  show ?case
  proof (cases "ch_nl \<in> set xs")
    case False
    then show ?thesis by (simp add: lines_of_no_nl)
  next
    case True
    then obtain l zs where xs: "xs = l @ ch_nl # zs" "ch_nl \<notin> set l" by (metis split_list_first)
    then show ?thesis using less [of zs] by (simp add: lines_of_line)
  qed
qed

lemma split_line_eq:
  assumes "0 \<notin> set bs"
  shows "split_line bs = None \<and> ch_nl \<notin> set bs \<or>
    (\<exists>l rest. split_line bs = Some (l, rest) \<and> bs = l @ ch_nl # rest \<and> ch_nl \<notin> set l)"
  using assms
proof (induction bs)
  case (Cons b bs)
  show ?case
  proof (cases "b = ch_nl")
    case True
    then show ?thesis by (intro disjI2 exI [of _ "[]"] exI [of _ bs]) simp
  next
    case False
    have "b \<noteq> 0" "0 \<notin> set bs" using Cons.prems by auto
    from Cons.IH [OF this(2)] show ?thesis
    proof
      assume "\<exists>l rest. split_line bs = Some (l, rest) \<and> bs = l @ ch_nl # rest \<and> ch_nl \<notin> set l"
      then obtain l rest where "split_line bs = Some (l, rest)" "bs = l @ ch_nl # rest" "ch_nl \<notin> set l" by blast
      with False \<open>b \<noteq> 0\<close> show ?thesis by (intro disjI2 exI [of _ "b # l"] exI [of _ rest]) simp
    qed (use False \<open>b \<noteq> 0\<close> in simp)
  qed
qed simp

lemma grep_lines_eq:
  "0 \<notin> set p \<Longrightarrow> grep_lines pattern p = (matching pattern (fst (lines_of p)), snd (lines_of p))"
proof (induction "length p" arbitrary: p rule: less_induct)
  case less
  from split_line_eq [OF less.prems] show ?case
  proof (elim disjE exE conjE)
    assume "split_line p = None" "ch_nl \<notin> set p"
    then show ?thesis by (subst grep_lines.simps) (simp add: lines_of_no_nl matching_def)
  next
    fix l rest
    assume *: "split_line p = Some (l, rest)" "p = l @ ch_nl # rest" "ch_nl \<notin> set l"
    then have "grep_lines pattern rest = (matching pattern (fst (lines_of rest)), snd (lines_of rest))"
      using less by auto
    then show ?thesis
      using * by (subst grep_lines.simps) (auto simp: lines_of_line matching_def match_pat)
  qed
qed

text \<open>The longest line of a file, the unfinished last one included.\<close>

definition lines_fit :: "u8 list \<Rightarrow> bool" where
  "lines_fit inp \<longleftrightarrow> (\<forall>l \<in> set (fst (lines_of inp)). length l < 1023) \<and> length (snd (lines_of inp)) < 1023"

lemma lines_fit_rest: "lines_fit (xs @ ys) \<Longrightarrow> length (snd (lines_of xs)) < 1023"
proof -
  assume a: "lines_fit (xs @ ys)"
  let ?r = "snd (lines_of xs)"
  have nl: "ch_nl \<notin> set (snd (lines_of zs))" for zs
    by (induction zs) (auto simp: Let_def split: prod.splits list.splits)
  show ?thesis
  proof (cases "ch_nl \<in> set ys")
    case False
    then have "lines_of (?r @ ys) = ([], ?r @ ys)" using nl [of xs] by (intro lines_of_no_nl) simp
    then show ?thesis using a by (subst (asm) lines_fit_def, subst (asm) (1 2) lines_of_append) simp
  next
    case True
    then obtain l zs where ys: "ys = l @ ch_nl # zs" "ch_nl \<notin> set l" by (metis split_list_first)
    then have "lines_of (?r @ ys) = ((?r @ l) # fst (lines_of zs), snd (lines_of zs))"
      using nl [of xs] lines_of_line [of "?r @ l" zs] by simp
    then show ?thesis using a by (subst (asm) lines_fit_def, subst (asm) (1 2) lines_of_append) simp
  qed
qed

lemma grep_loop_eq:
  assumes rd: "\<And>room n. 0 < room \<Longrightarrow> 0 < n \<Longrightarrow> 0 < rd room n"
    and "0 \<notin> set (old @ inp)" and "lines_fit (old @ inp)" and "buf = snd (lines_of old)"
  shows "grep_loop rd pattern buf inp = matching pattern (fst (lines_of (buf @ inp)))"
  using assms(2-4)
proof (induction "length inp" arbitrary: old buf inp rule: less_induct)
  case less
  let ?room = "1024 - length buf - 1"
  let ?chunk = "take (min ?room (rd ?room (length inp))) inp"
  have room: "0 < ?room" using lines_fit_rest [OF less.prems(2)] less.prems(3) by simp
  have nl: "ch_nl \<notin> set (snd (lines_of zs))" for zs
    by (induction zs) (auto simp: Let_def split: prod.splits list.splits)
  have sub: "set (snd (lines_of zs)) \<subseteq> set zs" for zs
    by (induction zs) (auto simp: Let_def split: prod.splits list.splits)
  show ?case
  proof (cases "inp = []")
    case True
    then show ?thesis using nl [of old] less.prems(3)
      by (subst grep_loop.simps) (simp add: lines_of_no_nl matching_def)
  next
    case False
    define rest where "rest = drop (length ?chunk) inp"
    have ne: "?chunk \<noteq> []" using False room rd [OF room, of "length inp"] by simp
    have inp: "inp = ?chunk @ rest" unfolding rest_def by (metis append_take_drop_id append_eq_conv_conj)
    define out buf' where "out = fst (grep_lines pattern (buf @ ?chunk))" and "buf' = snd (grep_lines pattern (buf @ ?chunk))"
    have "set ?chunk \<subseteq> set inp" by (rule set_take_subset)
    then have z: "0 \<notin> set (buf @ ?chunk)" using less.prems(1,3) sub [of old] by auto
    have o: "out = matching pattern (fst (lines_of (buf @ ?chunk)))" "buf' = snd (lines_of (buf @ ?chunk))"
      unfolding out_def buf'_def grep_lines_eq [OF z] by simp_all
    have step: "grep_loop rd pattern buf inp = out @ grep_loop rd pattern buf' rest"
      unfolding grep_loop.simps [of rd pattern buf inp] Let_def out_def buf'_def rest_def
      by (simp only: ne if_False case_prod_unfold)
    have b': "buf' = snd (lines_of (old @ ?chunk))"
      unfolding o(2) using lines_of_append [of old ?chunk] less.prems(3) by simp
    have "length rest < length inp" using ne False by (simp add: rest_def)
    then have "grep_loop rd pattern buf' rest = matching pattern (fst (lines_of (buf' @ rest)))"
      by (rule less.hyps [of _ "old @ ?chunk", OF _ _ _ b']) (use less.prems(1,2) inp in auto)
    moreover have "fst (lines_of (buf @ inp)) = fst (lines_of (buf @ ?chunk)) @ fst (lines_of (buf' @ rest))"
      using lines_of_append [of "buf @ ?chunk" rest] o(2) inp by (metis append.assoc fst_conv)
    ultimately show ?thesis unfolding step o(1) by (simp add: matching_def)
  qed
qed

text \<open>
  C23: However the file is cut up by the reads, grep prints exactly the lines that match the
  pattern, in order: every line of a file without NUL bytes whose lines are shorter than 1023
  bytes, except an unfinished line at the end.
\<close>

theorem grep_prints_matching:
  assumes "\<And>room n. 0 < room \<Longrightarrow> 0 < n \<Longrightarrow> 0 < rd room n" and "0 \<notin> set inp" and "lines_fit inp"
  shows "grep rd pattern inp = matching pattern (fst (lines_of inp))"
  using grep_loop_eq [of rd "[]" inp "[]" pattern] assms by (simp add: grep_def)

theorem grep_prints_matching_witness:
  "grep (\<lambda>room n. 1) [97, 36] [98, 97, 10, 97, 98, 10, 97] = [98, 97, 10]"
proof -
  let ?in = "[98, 97, 10, 97, 98, 10, 97 :: u8]"
  have l: "lines_of ?in = ([[98, 97], [97, 98]], [97])" by code_simp
  have "match [97, 36] [98, 97]" "\<not> match [97, 36] [97, 98]" by code_simp+
  then have "matching [97, 36] [[98, 97], [97, 98]] = [98, 97, 10]" by (simp add: matching_def match_pat)
  then show ?thesis using grep_prints_matching [of "\<lambda>room n. 1" ?in "[97, 36]"] l by (simp add: lines_fit_def)
qed

text \<open>
  A line of 1023 bytes or more ends the search: the buffer is full, the next read is asked
  for no bytes, and nothing behind the long line is looked at.
\<close>

theorem grep_long_line_stops:
  assumes "0 \<notin> set l" "ch_nl \<notin> set l" "1023 \<le> length l"
  shows "grep (\<lambda>room n. room) pattern (l @ ch_nl # rest) = []"
proof -
  have z: "0 \<notin> set (take 1023 l)" "ch_nl \<notin> set (take 1023 l)" using assms(1,2) in_set_takeD by fast+
  have g: "grep_lines pattern (take 1023 l) = ([], take 1023 l)"
    using grep_lines_eq [OF z(1)] lines_of_no_nl [OF z(2)] by (simp add: matching_def)
  have len: "length (take 1023 l) = 1023" using assms(3) by simp
  have last: "grep_loop (\<lambda>room n. room) pattern (take 1023 l) r = []" for r
    by (subst grep_loop.simps) (simp only: len, simp)
  have "take 1023 l \<noteq> []" using len by auto
  then show ?thesis
    unfolding grep_def grep_loop.simps [of _ _ "[]"] Let_def using assms(3) by (simp add: g last)
qed

theorem grep_long_line_stops_witness:
  "grep (\<lambda>room n. room) [] (replicate 1023 97 @ [10, 97, 10]) = []"
  using grep_long_line_stops [of "replicate 1023 97" "[]" "[97, 10]"] by simp

end
