(* ===== verification/Fs_Txn.thy ===== *)
theory Fs_Txn
  imports Fs
begin

text \<open>
  The file system state inside a transaction, as an instance of \<open>txn_store\<close>: the buffer cache
  and the log together are a store of blocks in which changes stay in the cache until the
  transaction commits. A block has a reference for being logged and one for being in use.
\<close>

abbreviation (input) fcache :: "fsys \<Rightarrow> bio" where "fcache s \<equiv> fbio (flog s)"

definition f_logged :: "fsys \<Rightarrow> nat set" where
  "f_logged s = set (take (nat (lh_n (flog s))) (lh_block (flog s)))"

definition f_busy :: "fsys \<Rightarrow> nat set" where
  "f_busy s = busy (fcache s)"

definition f_view :: "fsys \<Rightarrow> nat \<Rightarrow> block" where
  "f_view s = view (fcache s)"

definition f_held :: "int \<Rightarrow> fsys \<Rightarrow> nat \<Rightarrow> nat \<Rightarrow> bool" where
  "f_held pid s = holds pid (fcache s)"

definition f_clean :: "fsys \<Rightarrow> nat \<Rightarrow> bool" where
  "f_clean s b \<longleftrightarrow> view (fcache s) b = bdisk (fcache s) b"

definition f_room :: "fsys \<Rightarrow> nat" where
  "f_room s = nat (min (int LOGSIZE) (lg_size (flog s) - 1) - lh_n (flog s))"

definition f_rest :: "fsys \<Rightarrow> superblock \<times> inode list" where
  "f_rest s = (sb s, itable s)"

definition txn_inv :: "fsys \<Rightarrow> bool" where
  "txn_inv s \<longleftrightarrow> bio_ok (fcache s) \<and> 1 \<le> outstanding (flog s) \<and> 0 \<le> lh_n (flog s) \<and>
     lh_n (flog s) \<le> int LOGSIZE \<and> length (lh_block (flog s)) = LOGSIZE \<and>
     (\<forall>b. refs (fcache s) b = (if b \<in> f_logged s then 1 else 0) + (if b \<in> f_busy s then 1 else 0))"

lemma txn_refs:
  assumes "txn_inv s"
  shows "{b. 0 < refs (fcache s) b} = f_logged s \<union> f_busy s" "refs (fcache s) b < 2 ^ 32 - 1" "refs (fcache s) b \<le> 2"
    "0 < refs (fcache s) b \<longleftrightarrow> b \<in> f_logged s \<or> b \<in> f_busy s"
  using assms by (auto simp: txn_inv_def)

lemma log_index_new:
  assumes "b \<notin> set (take n bl)" "n \<le> length bl"
  shows "length (takeWhile (\<lambda>x. x \<noteq> b) (take n bl)) = n"
proof -
  have t: "takeWhile (\<lambda>x. x \<noteq> b) (take n bl) = take n bl" using assms(1) by (auto simp: takeWhile_eq_all_conv)
  show ?thesis unfolding t using assms(2) by simp
qed

lemma log_index_old:
  assumes "b \<in> set xs"
  shows "length (takeWhile (\<lambda>x. x \<noteq> b) xs) < length xs" "xs ! length (takeWhile (\<lambda>x. x \<noteq> b) xs) = b"
  using assms by (induction xs) auto

lemma f_logged_new:
  assumes "b \<notin> f_logged s" "0 \<le> lh_n (flog s)" "lh_n (flog s) < int (length (lh_block (flog s)))"
  shows "set (take (nat (lh_n (flog s) + 1)) ((lh_block (flog s))[nat (lh_n (flog s)) := b])) = insert b (f_logged s)"
proof -
  let ?n = "nat (lh_n (flog s))" and ?bl = "lh_block (flog s)"
  have n: "?n < length ?bl" "nat (lh_n (flog s) + 1) = Suc ?n" using assms(2,3) by auto
  have "take (Suc ?n) (?bl[?n := b]) = take ?n ?bl @ [b]" using n(1) by (simp add: take_Suc_conv_app_nth)
  then show ?thesis using n(2) by (simp add: f_logged_def)
qed

lemma f_log_write_ok:
  assumes inv: "txn_inv s" and h: "f_held pid s h b" and r: "0 < f_room s"
  shows "\<exists>s'. f_log_write h s = Ok s' \<and> txn_inv s' \<and> f_held pid s' = f_held pid s \<and> f_busy s' = f_busy s \<and>
    f_logged s' = insert b (f_logged s) \<and> f_view s' = f_view s \<and> f_clean s' = f_clean s \<and>
    f_room s' = (if b \<in> f_logged s then f_room s else f_room s - 1) \<and> f_rest s' = f_rest s"
proof -
  let ?l = "flog s"
  let ?n = "nat (lh_n ?l)" and ?bl = "lh_block ?l"
  let ?i = "length (takeWhile (\<lambda>x. x \<noteq> b) (take ?n ?bl))"
  have I: "bio_ok (fbio ?l)" "1 \<le> outstanding ?l" "0 \<le> lh_n ?l" "length ?bl = 30"
    using inv by (auto simp: txn_inv_def)
  have sp: "lh_n ?l < 30" "lh_n ?l < lg_size ?l - 1" using r by (auto simp: f_room_def)
  have n: "?n < length ?bl" "int ?n = lh_n ?l" using I sp by auto
  have b: "b_blockno (bufs (fbio ?l) ! h) = b" using h by (simp add: f_held_def holds_def is_buf_def)
  have w: "f_log_write h s = Ok (s\<lparr>flog := (let l = ?l\<lparr>lh_block := ?bl[?i := b]\<rparr> in
      if int ?i = lh_n ?l then l\<lparr>fbio := bpin h (fbio ?l), lh_n := lh_n ?l + 1\<rparr> else l)\<rparr>)"
    using sp I(2) b by (simp add: f_log_write_def log_write_def log_index_def Let_def)
  show ?thesis
  proof (cases "b \<in> f_logged s")
    case True
    then have "?i < length (take ?n ?bl)" "take ?n ?bl ! ?i = b"
      using log_index_old [of b "take ?n ?bl"] by (simp_all add: f_logged_def)
    then have i: "?i < ?n" "?bl ! ?i = b" by auto
    then have "f_log_write h s = Ok (s\<lparr>flog := ?l\<lparr>lh_block := ?bl\<rparr>\<rparr>)"
      using w n(2) list_update_id [of ?bl ?i] by (simp add: Let_def)
    then show ?thesis using True inv by (auto simp: insert_absorb)
  next
    case False
    then have "?i = ?n" using log_index_new [of b ?n ?bl] n(1) by (simp add: f_logged_def)
    then have w': "f_log_write h s = Ok (s\<lparr>flog := ?l\<lparr>lh_block := ?bl[?n := b], fbio := bpin h (fbio ?l), lh_n := lh_n ?l + 1\<rparr>\<rparr>)"
      (is "_ = Ok ?s'") using w n(2) by (simp add: Let_def)
    have P: "bio_ok (bpin h (fbio ?l))" "holds pid (bpin h (fbio ?l)) = holds pid (fbio ?l)" "busy (bpin h (fbio ?l)) = busy (fbio ?l)"
        "view (bpin h (fbio ?l)) = view (fbio ?l)" "bdisk (bpin h (fbio ?l)) = bdisk (fbio ?l)"
        "refs (bpin h (fbio ?l)) = (refs (fbio ?l))(b := refs (fbio ?l) b + 1)"
      using cache.bpin_ok [OF I(1), of pid h b] txn_refs(2) [OF inv, of b] h by (auto simp: f_held_def)
    have L: "f_logged ?s' = insert b (f_logged s)"
      using f_logged_new [OF False I(3)] n by (simp add: f_logged_def)
    moreover have "txn_inv ?s'"
      using inv P(1,3,6) I sp L False by (auto simp: txn_inv_def f_busy_def)
    moreover have "f_room ?s' = f_room s - 1" by (simp add: f_room_def nat_diff_distrib)
    ultimately show ?thesis using w' P False by (auto simp: f_held_def f_busy_def f_view_def f_clean_def f_rest_def fun_eq_iff)
  qed
qed

lemma f_bread_ok:
  assumes inv: "txn_inv s" and b: "b \<notin> f_busy s" "b \<in> f_logged s \<or> card (f_logged s \<union> f_busy s) < NBUF"
  shows "\<exists>h s'. f_bread pid ROOTDEV b s = Ok (h, s') \<and> txn_inv s' \<and> f_held pid s' h b \<and> f_busy s' = insert b (f_busy s) \<and>
    f_logged s' = f_logged s \<and> f_view s' = f_view s \<and> f_clean s' = f_clean s \<and> f_room s' = f_room s \<and>
    (\<forall>h' b'. f_held pid s h' b' \<longrightarrow> f_held pid s' h' b') \<and> f_rest s' = f_rest s"
proof -
  have c: "bio_ok (fcache s)" "b \<notin> busy (fcache s)" "0 < refs (fcache s) b \<or> card {b. 0 < refs (fcache s) b} < NBUF"
    using inv b txn_refs [OF inv] by (auto simp: txn_inv_def f_busy_def)
  obtain h c' where 1: "bread pid ROOTDEV b (fcache s) = Ok (h, c')" "bio_ok c'" "holds pid c' h b"
      "busy c' = insert b (busy (fcache s))" "\<forall>h' b'. holds pid (fcache s) h' b' \<longrightarrow> holds pid c' h' b'"
      "view c' = view (fcache s)" "bdisk c' = bdisk (fcache s)" "refs c' = (refs (fcache s))(b := refs (fcache s) b + 1)"
    using cache.bread_ok [OF c txn_refs(2) [OF inv], of pid] by blast
  let ?s' = "s\<lparr>flog := (flog s)\<lparr>fbio := c'\<rparr>\<rparr>"
  have "f_bread pid ROOTDEV b s = Ok (h, ?s')" using 1(1) by (simp add: f_bread_def)
  moreover have "txn_inv ?s'"
    using inv 1(2,4,8) b(1) by (auto simp: txn_inv_def f_busy_def f_logged_def)
  ultimately show ?thesis
    using 1 by (intro exI [of _ h] exI [of _ ?s'])
      (simp add: f_held_def f_busy_def f_logged_def f_view_def f_clean_def f_room_def f_rest_def fun_eq_iff)
qed

lemma f_brelse_ok:
  assumes inv: "txn_inv s" and h: "f_held pid s h b" and b: "b \<in> f_logged s \<or> f_clean s b"
  shows "\<exists>s'. f_brelse pid h s = Ok s' \<and> txn_inv s' \<and> f_busy s' = f_busy s - {b} \<and> f_logged s' = f_logged s \<and>
    f_view s' = f_view s \<and> f_clean s' = f_clean s \<and> f_room s' = f_room s \<and>
    (\<forall>h' b'. h' \<noteq> h \<longrightarrow> f_held pid s' h' b' = f_held pid s h' b') \<and> f_rest s' = f_rest s"
proof -
  have c: "bio_ok (fcache s)" "holds pid (fcache s) h b" using inv h by (auto simp: txn_inv_def f_held_def)
  have bb: "b \<in> f_busy s" using cache.holds_busy [OF c] by (simp add: f_busy_def)
  have "1 < refs (fcache s) b \<or> view (fcache s) b = bdisk (fcache s) b"
    using inv b bb by (auto simp: txn_inv_def f_clean_def)
  then obtain c' where 1: "brelse pid h (fcache s) = Ok c'" "bio_ok c'"
      "\<forall>h' b'. h' \<noteq> h \<longrightarrow> holds pid c' h' b' = holds pid (fcache s) h' b'" "busy c' = busy (fcache s) - {b}"
      "view c' = view (fcache s)" "bdisk c' = bdisk (fcache s)" "refs c' = (refs (fcache s))(b := refs (fcache s) b - 1)"
    using cache.brelse_ok [OF c] by blast
  let ?s' = "s\<lparr>flog := (flog s)\<lparr>fbio := c'\<rparr>\<rparr>"
  have "f_brelse pid h s = Ok ?s'" using 1(1) by (simp add: f_brelse_def)
  moreover have "txn_inv ?s'"
    using inv 1(2,4,7) bb by (auto simp: txn_inv_def f_busy_def f_logged_def)
  ultimately show ?thesis
    using 1 by (intro exI [of _ ?s'])
      (simp add: f_held_def f_busy_def f_logged_def f_view_def f_clean_def f_room_def f_rest_def fun_eq_iff)
qed

lemma f_set_data_ok:
  assumes inv: "txn_inv s" and h: "f_held pid s h b" and d: "length d = BSIZE"
  shows "txn_inv (f_set_data h d s) \<and> f_held pid (f_set_data h d s) = f_held pid s \<and> f_busy (f_set_data h d s) = f_busy s \<and>
    f_logged (f_set_data h d s) = f_logged s \<and> f_view (f_set_data h d s) = (f_view s)(b := d) \<and>
    (\<forall>b'. b' \<noteq> b \<longrightarrow> f_clean (f_set_data h d s) b' = f_clean s b') \<and> f_room (f_set_data h d s) = f_room s \<and>
    f_rest (f_set_data h d s) = f_rest s"
proof -
  have c: "bio_ok (fcache s)" "holds pid (fcache s) h b" using inv h by (auto simp: txn_inv_def f_held_def)
  show ?thesis
    using cache.set_data_ok [OF c d] inv
    by (auto simp: f_set_data_def txn_inv_def f_held_def f_busy_def f_logged_def f_view_def f_clean_def f_room_def f_rest_def)
qed

interpretation txn: txn_store txn_inv "\<lambda>d. length d = BSIZE" "f_held pid" f_busy f_logged f_view f_clean NBUF f_room f_rest
    f_data f_set_data "f_bread pid ROOTDEV" f_log_write "f_brelse pid"
  for pid
proof (unfold_locales, goal_cases)
  case (1 s)
  then have "bio_ok (fcache s)" by (simp add: txn_inv_def)
  then have "finite {b. 0 < refs (fcache s) b}" by (rule refs_finite)
  then show ?case using txn_refs(1) [OF 1] by simp
next
  case (2 s b)
  then show ?case by (simp add: txn_inv_def f_view_def view_length)
next
  case (3 s h b)
  then show ?case using cache.data_view by (simp add: txn_inv_def f_held_def f_view_def f_data_def)
next
  case (4 s b)
  then have "refs (fcache s) b = 0" by (simp add: txn_inv_def)
  then show ?case using cache.unreferenced 4(1) by (simp add: txn_inv_def f_clean_def)
next
  case (5 s b)
  then show ?case using f_bread_ok by blast
next
  case (6 s h b d)
  then show ?case using f_set_data_ok by blast
next
  case (7 s h b)
  then show ?case using f_log_write_ok by blast
next
  case (8 s h b)
  then show ?case using f_brelse_ok by blast
next
  case (9 s h b h' b')
  then show ?case using cache.holds_inj [of "fcache s" pid h b h' b'] by (simp add: txn_inv_def f_held_def)
next
  case (10 s h b)
  then show ?case using cache.holds_busy by (simp add: txn_inv_def f_held_def f_busy_def)
qed

end
