(* ===== verification/Fs_Alloc.thy ===== *)
theory Fs_Alloc
  imports Fs_Txn Log_Crash
begin

text \<open>
  The block allocator, as a set of used blocks. A bit of the bitmap says whether a block is
  used; \<^verbatim>\<open>balloc\<close> takes the first block that is not, marks it and zeroes it, \<^verbatim>\<open>bfree\<close> gives a
  block back and refuses one that is not used. The proofs use the two idioms of \<open>txn_store\<close>.
\<close>

section \<open>The bitmap\<close>

definition used_in :: "block \<Rightarrow> nat \<Rightarrow> bool" where
  "used_in d bi \<longleftrightarrow> bit (d ! (bi div 8)) (bi mod 8)"

definition used :: "fsys \<Rightarrow> nat \<Rightarrow> bool" where
  "used s b \<longleftrightarrow> used_in (f_view s (BBLOCK b s)) (b mod BPB)"

definition set_used :: "bool \<Rightarrow> nat \<Rightarrow> block \<Rightarrow> block" where
  "set_used v bi d = d[bi div 8 := (if v then or (d ! (bi div 8)) (bit_mask bi) else and (d ! (bi div 8)) (not (bit_mask bi)))]"

lemma bit_bit_mask: "bit (bit_mask bi) k \<longleftrightarrow> k = bi mod 8"
  by (auto simp: bit_mask_def bit_exp_iff)

lemma mask_free: "and (w :: u8) (bit_mask bi) = 0 \<longleftrightarrow> \<not> bit w (bi mod 8)"
proof
  assume "and w (bit_mask bi) = 0"
  then have "\<not> bit (and w (bit_mask bi)) (bi mod 8)" by simp
  then show "\<not> bit w (bi mod 8)" by (simp add: bit_and_iff bit_bit_mask)
next
  assume n: "\<not> bit w (bi mod 8)"
  show "and w (bit_mask bi) = 0" by (rule bit_word_eqI) (use n in \<open>auto simp: bit_and_iff bit_bit_mask\<close>)
qed

lemma set_used_length [simp]: "length (set_used v bi d) = length d"
  by (simp add: set_used_def)

lemma same_div_mod: "a div n = b div n \<Longrightarrow> a mod n = b mod n \<longleftrightarrow> a = b" for n :: nat
  by (metis div_mult_mod_eq)

lemma used_in_set:
  assumes "bi div 8 < length d"
  shows "used_in (set_used v bi d) j \<longleftrightarrow> (if j = bi then v else used_in d j)"
proof (cases "j div 8 = bi div 8")
  case True
  have e: "j = bi \<longleftrightarrow> j mod 8 = bi mod 8" using True by (simp add: same_div_mod)
  have "j mod 8 < 8" by simp
  then show ?thesis
    using True assms unfolding e
    by (auto simp: used_in_def set_used_def bit_or_iff bit_and_iff bit_not_iff bit_bit_mask)
next
  case False
  then show ?thesis by (auto simp: used_in_def set_used_def)
qed

lemma find_free_Some:
  "find_free d sz b bi k = Some j \<Longrightarrow>
     bi \<le> j \<and> j < bi + k \<and> b + j < sz \<and> \<not> used_in d j \<and> (\<forall>i. bi \<le> i \<and> i < j \<longrightarrow> used_in d i)"
proof (induction k arbitrary: bi)
  case (Suc k)
  show ?case
  proof (cases "b + bi < sz \<and> used_in d bi")
    case True
    then have "find_free d sz b (bi + 1) k = Some j" using Suc.prems by (auto simp: mask_free used_in_def split: if_splits)
    from Suc.IH [OF this] show ?thesis using True by (auto simp: le_less) (metis Suc_leI le_less)
  qed (use Suc.prems in \<open>auto simp: mask_free used_in_def split: if_splits\<close>)
qed simp

lemma find_free_None:
  "find_free d sz b bi k = None \<Longrightarrow> bi \<le> j \<Longrightarrow> j < bi + k \<Longrightarrow> b + j < sz \<Longrightarrow> used_in d j"
proof (induction k arbitrary: bi)
  case (Suc k)
  show ?case
  proof (cases "j = bi")
    case False
    then have "find_free d sz b (bi + 1) k = None" using Suc.prems by (auto split: if_splits)
    then show ?thesis using Suc.IH [of "bi + 1"] Suc.prems False by auto
  qed (use Suc.prems in \<open>auto simp: mask_free used_in_def split: if_splits\<close>)
qed simp

section \<open>Freeing a block\<close>

definition can_get :: "fsys \<Rightarrow> nat \<Rightarrow> bool" where
  "can_get s b \<longleftrightarrow> b \<notin> f_busy s \<and> (b \<in> f_logged s \<or> card (f_logged s \<union> f_busy s) < NBUF)"

lemma rest_BBLOCK: "f_rest s' = f_rest s \<Longrightarrow> BBLOCK b s' = BBLOCK b s"
  by (simp add: f_rest_def BBLOCK_def)

text \<open>What changing one block inside a transaction does.\<close>

definition changed :: "nat \<Rightarrow> block \<Rightarrow> fsys \<Rightarrow> fsys \<Rightarrow> bool" where
  "changed b d s s' \<longleftrightarrow> txn_inv s' \<and> f_busy s' = f_busy s \<and> f_logged s' = insert b (f_logged s) \<and>
     f_view s' = (f_view s)(b := d) \<and> f_rest s' = f_rest s \<and>
     f_room s' = (if b \<in> f_logged s then f_room s else f_room s - 1)"

lemma change_block:
  assumes "txn_inv s" "can_get s b" "0 < f_room s" "length (f (f_view s b)) = BSIZE"
  shows "\<exists>h s1 s2 s'. f_bread pid ROOTDEV b s = Ok (h, s1) \<and> f_data s1 h = f_view s b \<and> f_rest s1 = f_rest s \<and>
    f_log_write h (f_set_data h (f (f_view s b)) s1) = Ok s2 \<and> f_brelse pid h s2 = Ok s' \<and> changed b (f (f_view s b)) s s'"
proof -
  have g: "b \<notin> f_busy s" "b \<in> f_logged s \<or> card (f_logged s \<union> f_busy s) < NBUF" using assms(2) by (auto simp: can_get_def)
  show ?thesis
    using txn.change [OF assms(1) g assms(3), where pid = pid and f = f] assms(4) f_bread_ok [OF assms(1) g, of pid]
    by (fastforce simp: changed_def)
qed

lemma bzero_ok:
  assumes "txn_inv s" "can_get s b" "0 < f_room s"
  shows "\<exists>s'. bzero pid ROOTDEV b s = Ok s' \<and> changed b zero_block s s'"
  using change_block [OF assms, where pid = pid and f = "\<lambda>d. zero_block"]
  by (auto simp: bzero_def zero_block_def)

lemma bfree_ok:
  assumes "txn_inv s" "can_get s (BBLOCK b s)" "0 < f_room s" "used s b"
  shows "\<exists>s'. bfree pid ROOTDEV b s = Ok s' \<and>
    changed (BBLOCK b s) (set_used False (b mod BPB) (f_view s (BBLOCK b s))) s s'"
proof -
  let ?d = "f_view s (BBLOCK b s)"
  have l: "length ?d = BSIZE" using txn.view_ok [OF assms(1)] .
  obtain h s1 s2 s' where 1: "f_bread pid ROOTDEV (BBLOCK b s) s = Ok (h, s1)" "f_data s1 h = ?d"
      "f_log_write h (f_set_data h (set_used False (b mod BPB) ?d) s1) = Ok s2" "f_brelse pid h s2 = Ok s'"
      "changed (BBLOCK b s) (set_used False (b mod BPB) ?d) s s'"
    using change_block [OF assms(1-3), where pid = pid and f = "set_used False (b mod BPB)"] l by auto
  have "and (?d ! (b mod BPB div 8)) (bit_mask (b mod BPB)) \<noteq> 0"
    using assms(4) by (simp add: used_def used_in_def mask_free)
  then have "bfree pid ROOTDEV b s = Ok s'" using 1(1-4) by (simp add: bfree_def Let_def set_used_def)
  then show ?thesis using 1(5) by blast
qed

lemma bfree_free:
  assumes "txn_inv s" "can_get s (BBLOCK b s)" "\<not> used s b"
  shows "bfree pid ROOTDEV b s = Panic ''freeing free block''"
proof -
  let ?d = "f_view s (BBLOCK b s)"
  have g: "BBLOCK b s \<notin> f_busy s" "BBLOCK b s \<in> f_logged s \<or> card (f_logged s \<union> f_busy s) < NBUF"
    using assms(2) by (auto simp: can_get_def)
  obtain h s1 where 1: "f_bread pid ROOTDEV (BBLOCK b s) s = Ok (h, s1)" "f_data s1 h = ?d"
    using txn.look [OF assms(1) g, where pid = pid] by blast
  then show ?thesis using assms(3) by (simp add: bfree_def Let_def used_def used_in_def mask_free)
qed

section \<open>Allocating a block\<close>

lemma changed_used:
  assumes "changed (BBLOCK b s) (set_used v (b mod BPB) (f_view s (BBLOCK b s))) s s'" "txn_inv s"
  shows "used s' = (used s)(b := v)"
proof
  fix b'
  let ?d = "f_view s (BBLOCK b s)"
  have "length ?d = BSIZE" using txn.view_ok [OF assms(2)] .
  then have l: "b mod BPB div 8 < length ?d" using mod_less_divisor [of BPB b] by linarith
  have B: "BBLOCK b' s' = BBLOCK b' s" using assms(1) rest_BBLOCK [of s' s] by (simp add: changed_def)
  have V: "f_view s' = (f_view s)(BBLOCK b s := set_used v (b mod BPB) ?d)" using assms(1) by (simp add: changed_def)
  show "used s' b' = ((used s)(b := v)) b'"
  proof (cases "BBLOCK b' s = BBLOCK b s")
    case True
    then have "b' div BPB = b div BPB" by (simp add: BBLOCK_def)
    then have "b' mod BPB = b mod BPB \<longleftrightarrow> b' = b" by (rule same_div_mod)
    then show ?thesis using True B V used_in_set [OF l, of v "b' mod BPB"] by (simp add: used_def)
  next
    case False
    then show ?thesis using B V by (auto simp: used_def)
  qed
qed

text \<open>The bitmap blocks of the file system are themselves marked as used.\<close>

definition bitmap_used :: "fsys \<Rightarrow> bool" where
  "bitmap_used s \<longleftrightarrow> (\<forall>b < sb_size (sb s). used s (BBLOCK b s))"

text \<open>The state allows for the changes of two blocks.\<close>

definition can_alloc :: "fsys \<Rightarrow> bool" where
  "can_alloc s \<longleftrightarrow> txn_inv s \<and> 2 \<le> f_room s \<and> card (f_logged s \<union> f_busy s) + 1 < NBUF \<and>
     (\<forall>b < sb_size (sb s). BBLOCK b s \<notin> f_busy s \<and> (b \<in> f_busy s \<longrightarrow> used s b)) \<and> bitmap_used s"

lemma changed_can_get:
  assumes "changed b d s s'" "txn_inv s" "card (f_logged s \<union> f_busy s) + 1 < NBUF" "b' \<notin> f_busy s"
  shows "can_get s' b'"
proof -
  have "card (f_logged s' \<union> f_busy s') \<le> card (f_logged s \<union> f_busy s) + 1"
    using assms(1) txn.finite_used [OF assms(2)] by (simp add: changed_def card_insert_if)
  then show ?thesis using assms by (simp add: can_get_def changed_def)
qed

lemma look_block:
  assumes "txn_inv s" "can_get s b"
  shows "\<exists>h s1 s'. f_bread pid ROOTDEV b s = Ok (h, s1) \<and> f_data s1 h = f_view s b \<and> f_rest s1 = f_rest s \<and>
    f_brelse pid h s1 = Ok s' \<and> txn_inv s' \<and> f_busy s' = f_busy s \<and> f_logged s' = f_logged s \<and> f_view s' = f_view s \<and>
    f_room s' = f_room s \<and> f_rest s' = f_rest s"
proof -
  have g: "b \<notin> f_busy s" "b \<in> f_logged s \<or> card (f_logged s \<union> f_busy s) < NBUF" using assms(2) by (auto simp: can_get_def)
  show ?thesis using txn.look [OF assms(1) g, where pid = pid] f_bread_ok [OF assms(1) g, of pid] by fastforce
qed

definition same_store :: "fsys \<Rightarrow> fsys \<Rightarrow> bool" where
  "same_store s s' \<longleftrightarrow> f_busy s' = f_busy s \<and> f_logged s' = f_logged s \<and> f_view s' = f_view s \<and>
     f_room s' = f_room s \<and> f_rest s' = f_rest s"

lemma same_store_used: "same_store s s' \<Longrightarrow> used s' = used s \<and> BBLOCK b s' = BBLOCK b s \<and> sb s' = sb s"
  by (simp add: same_store_def used_def fun_eq_iff BBLOCK_def f_rest_def)

lemma same_store_alloc: "same_store s s' \<Longrightarrow> txn_inv s' \<Longrightarrow> can_alloc s \<Longrightarrow> can_alloc s'"
  using same_store_used [of s s'] by (simp add: can_alloc_def bitmap_used_def same_store_def)

text \<open>The effect of a successful allocation of block \<open>b\<close>.\<close>

definition allocated :: "nat \<Rightarrow> fsys \<Rightarrow> fsys \<Rightarrow> bool" where
  "allocated b s s' \<longleftrightarrow> txn_inv s' \<and> f_busy s' = f_busy s \<and> f_logged s' = {b, BBLOCK b s} \<union> f_logged s \<and>
     f_view s' = (f_view s)(BBLOCK b s := set_used True (b mod BPB) (f_view s (BBLOCK b s)), b := zero_block) \<and>
     f_rest s' = f_rest s \<and> f_room s \<le> f_room s' + 2"

lemma balloc_found:
  assumes A: "can_alloc s" and b: "b = base + bi" "b < sb_size (sb s)" "base mod BPB = 0" "bi < BPB" and free: "\<not> used s b"
    and ff: "find_free (f_view s (BBLOCK base s)) (sb_size (sb s)) base 0 BPB = Some bi"
  shows "\<exists>s'. balloc_loop pid ROOTDEV (base # bs) s = Ok (b, s') \<and> allocated b s s'"
proof -
  have inv: "txn_inv s" and room: "2 \<le> f_room s" and card: "card (f_logged s \<union> f_busy s) + 1 < NBUF"
    and nb: "BBLOCK b s \<notin> f_busy s" "b \<notin> f_busy s" and bu: "bitmap_used s"
    using A b(2) free by (auto simp: can_alloc_def)
  have bm: "b mod BPB = bi" "BBLOCK b s = BBLOCK base s" using b(1,3,4) by (auto simp: BBLOCK_def)
  let ?B = "BBLOCK b s"
  let ?d = "f_view s ?B"
  have l: "length ?d = BSIZE" using txn.view_ok [OF inv] .
  have "can_get s ?B" using nb(1) card by (simp add: can_get_def)
  then obtain h s1 s2 s3 where 1: "f_bread pid ROOTDEV ?B s = Ok (h, s1)" "f_data s1 h = ?d" "f_rest s1 = f_rest s"
      "f_log_write h (f_set_data h (set_used True bi ?d) s1) = Ok s2" "f_brelse pid h s2 = Ok s3"
      "changed ?B (set_used True bi ?d) s s3"
    using change_block [OF inv, where pid = pid and f = "set_used True bi" and b = ?B] room l by auto
  have s3: "txn_inv s3" "0 < f_room s3" "f_room s \<le> f_room s3 + 1" using 1(6) room by (auto simp: changed_def)
  obtain s' where 2: "bzero pid ROOTDEV b s3 = Ok s'" "changed b zero_block s3 s'"
    using bzero_ok [OF s3(1) changed_can_get [OF 1(6) inv card nb(2)] s3(2), of pid] by blast
  have sb: "sb s1 = sb s" using 1(3) by (simp add: f_rest_def)
  have "balloc_loop pid ROOTDEV (base # bs) s = Ok (b, s')"
    using 1(1,2,4,5) 2(1) ff bm b(1) sb by (simp add: Let_def set_used_def)
  moreover have "allocated b s s'"
    using 1(6) 2(2) s3(3) bm by (auto simp: allocated_def changed_def)
  ultimately show ?thesis by blast
qed

lemma balloc_loop_ok:
  assumes "can_alloc s" "n0 \<le> n" "n * BPB < sb_size (sb s) + BPB" "\<forall>b < n0 * BPB. b < sb_size (sb s) \<longrightarrow> used s b"
  shows "\<exists>r s'. balloc_loop pid ROOTDEV (map (\<lambda>k. k * BPB) [n0..<n]) s = Ok (r, s') \<and>
    (if \<exists>b < n * BPB. b < sb_size (sb s) \<and> \<not> used s b
     then r = (LEAST b. b < sb_size (sb s) \<and> \<not> used s b) \<and> r < sb_size (sb s) \<and> \<not> used s r \<and> allocated r s s'
     else r = 0 \<and> txn_inv s' \<and> same_store s s')"
  using assms
proof (induction "n - n0" arbitrary: n0 s)
  case 0
  then show ?case by (auto simp: same_store_def can_alloc_def)
next
  case (Suc k)
  let ?sz = "sb_size (sb s)"
  let ?base = "n0 * BPB"
  have n: "n0 < n" "[n0..<n] = n0 # [Suc n0..<n]" using Suc.hyps(2) by (auto simp: upt_conv_Cons)
  have inv: "txn_inv s" and card: "card (f_logged s \<union> f_busy s) < NBUF" using Suc.prems(1) by (auto simp: can_alloc_def)
  have "?base < ?sz" using n(1) Suc.prems(3) by simp
  then have g: "can_get s (BBLOCK ?base s)" using Suc.prems(1) card by (auto simp: can_get_def can_alloc_def)
  have B: "BBLOCK (?base + j) s = BBLOCK ?base s" "(?base + j) mod BPB = j" if "j < BPB" for j
    using that by (auto simp: BBLOCK_def)
  show ?case
  proof (cases "find_free (f_view s (BBLOCK ?base s)) ?sz ?base 0 BPB")
    case (Some bi)
    note F = find_free_Some [OF Some]
    have free: "\<not> used s (?base + bi)" "?base + bi < ?sz" "bi < BPB" using F B [of bi] by (auto simp: used_def)
    have below: "used s b" if "b < ?base + bi" for b
    proof (cases "b < ?base")
      case True
      then show ?thesis using Suc.prems(4) that free(2) by auto
    next
      case False
      then have "b = ?base + (b - ?base)" "b - ?base < bi" using that by auto
      then show ?thesis using F B [of "b - ?base"] by (auto simp: used_def)
    qed
    have least: "(LEAST b. b < ?sz \<and> \<not> used s b) = ?base + bi"
      by (rule Least_equality) (use free below in \<open>auto simp: not_less [symmetric]\<close>)
    have ex: "\<exists>b < n * BPB. b < ?sz \<and> \<not> used s b"
      using free n(1) by (intro exI [of _ "?base + bi"]) auto
    show ?thesis
      using balloc_found [OF Suc.prems(1) refl free(2) _ free(3,1) Some, of pid "map (\<lambda>k. k * BPB) [Suc n0..<n]"] n(2) ex free least
      by (auto simp: mult.commute)
  next
    case None
    obtain h s1 s2 where 1: "f_bread pid ROOTDEV (BBLOCK ?base s) s = Ok (h, s1)" "f_data s1 h = f_view s (BBLOCK ?base s)"
        "f_rest s1 = f_rest s" "f_brelse pid h s1 = Ok s2" "txn_inv s2" "same_store s s2"
      using look_block [OF inv g, of pid] by (auto simp: same_store_def)
    have S: "used s2 = used s" "sb s2 = sb s" "BBLOCK b s2 = BBLOCK b s" for b using same_store_used [OF 1(6)] by auto
    have "used s b" if "b < Suc n0 * BPB" "b < ?sz" for b
    proof (cases "b < ?base")
      case False
      then have "b = ?base + (b - ?base)" "b - ?base < BPB" using that by auto
      then show ?thesis using find_free_None [OF None, of "b - ?base"] that B [of "b - ?base"] by (auto simp: used_def)
    qed (use Suc.prems(4) that in auto)
    then have all: "\<forall>b < Suc n0 * BPB. b < sb_size (sb s2) \<longrightarrow> used s2 b" using S(1,2) by simp
    have "k = n - Suc n0" "Suc n0 \<le> n" "n * BPB < sb_size (sb s2) + BPB" using Suc.hyps(2) n(1) Suc.prems(3) S(2) by auto
    then obtain r s' where 2: "balloc_loop pid ROOTDEV (map (\<lambda>k. k * BPB) [Suc n0..<n]) s2 = Ok (r, s')"
      "if \<exists>b < n * BPB. b < sb_size (sb s2) \<and> \<not> used s2 b
       then r = (LEAST b. b < sb_size (sb s2) \<and> \<not> used s2 b) \<and> r < sb_size (sb s2) \<and> \<not> used s2 r \<and> allocated r s2 s'
       else r = 0 \<and> txn_inv s' \<and> same_store s2 s'"
      using Suc.hyps(1) [OF _ same_store_alloc [OF 1(6,5) Suc.prems(1)] _ _ all] by blast
    have "balloc_loop pid ROOTDEV (map (\<lambda>k. k * BPB) [n0..<n]) s = Ok (r, s')"
      using 1 2(1) None n(2) by (simp add: f_rest_def)
    moreover have E: "allocated r s2 s' = allocated r s s'" "same_store s2 s' = same_store s s'"
      using 1(6) S by (auto simp: allocated_def same_store_def)
    ultimately show ?thesis using 2(2) [unfolded S(1,2) E] by blast
  qed
qed

lemma allocated_used:
  assumes "allocated r s s'" "can_alloc s" "r < sb_size (sb s)" "\<not> used s r" "b < sb_size (sb s)"
  shows "used s' b \<longleftrightarrow> used s b \<or> b = r"
proof -
  have inv: "txn_inv s" using assms(2) by (simp add: can_alloc_def)
  let ?d = "f_view s (BBLOCK r s)"
  have "length ?d = BSIZE" using txn.view_ok [OF inv] .
  then have l: "r mod BPB div 8 < length ?d" using mod_less_divisor [of BPB r] by linarith
  have ne: "BBLOCK b s \<noteq> r" using assms(2,4,5) by (auto simp: can_alloc_def bitmap_used_def)
  have B: "BBLOCK b s' = BBLOCK b s" using assms(1) rest_BBLOCK [of s' s] by (simp add: allocated_def)
  have V: "f_view s' (BBLOCK b s) = (if BBLOCK b s = BBLOCK r s then set_used True (r mod BPB) ?d else f_view s (BBLOCK b s))"
    using assms(1) ne by (simp add: allocated_def)
  show ?thesis
  proof (cases "BBLOCK b s = BBLOCK r s")
    case True
    then have "b div BPB = r div BPB" by (simp add: BBLOCK_def)
    then have "b mod BPB = r mod BPB \<longleftrightarrow> b = r" by (rule same_div_mod)
    then show ?thesis using True B V used_in_set [OF l, of True "b mod BPB"] by (auto simp: used_def)
  next
    case False
    then show ?thesis using B V by (auto simp: used_def)
  qed
qed

text \<open>
  Inside a transaction with room for two blocks, \<^verbatim>\<open>balloc\<close> returns. If there is a free
  block it returns the first one, which is now marked as used and filled with zeros; every other
  block keeps its state and its contents (but for the bitmap block). If there is none it returns
  0 and changes nothing.
\<close>

theorem balloc_first_free:
  assumes "can_alloc s"
  shows "\<exists>r s'. balloc pid ROOTDEV s = Ok (r, s') \<and> txn_inv s' \<and> f_busy s' = f_busy s \<and>
    (if \<exists>b < sb_size (sb s). \<not> used s b
     then r = (LEAST b. b < sb_size (sb s) \<and> \<not> used s b) \<and> f_view s' r = zero_block \<and>
       (\<forall>b < sb_size (sb s). used s' b = (used s b \<or> b = r)) \<and>
       (\<forall>b. b \<noteq> r \<and> b \<noteq> BBLOCK r s \<longrightarrow> f_view s' b = f_view s b)
     else r = 0 \<and> f_view s' = f_view s)"
proof -
  let ?n = "(sb_size (sb s) + BPB - 1) div BPB"
  have n: "?n * BPB < sb_size (sb s) + BPB" "sb_size (sb s) \<le> ?n * BPB" by linarith+
  then have ex: "(\<exists>b < ?n * BPB. b < sb_size (sb s) \<and> \<not> used s b) \<longleftrightarrow> (\<exists>b < sb_size (sb s). \<not> used s b)"
    by (meson less_le_trans)
  obtain r s' where 1: "balloc pid ROOTDEV s = Ok (r, s')"
     "if \<exists>b < sb_size (sb s). \<not> used s b
      then r = (LEAST b. b < sb_size (sb s) \<and> \<not> used s b) \<and> r < sb_size (sb s) \<and> \<not> used s r \<and> allocated r s s'
      else r = 0 \<and> txn_inv s' \<and> same_store s s'"
    using balloc_loop_ok [OF assms, of 0 ?n pid] n(1) unfolding ex balloc_def by auto
  show ?thesis
  proof (cases "\<exists>b < sb_size (sb s). \<not> used s b")
    case True
    then have r: "r = (LEAST b. b < sb_size (sb s) \<and> \<not> used s b)" "r < sb_size (sb s)" "\<not> used s r" "allocated r s s'"
      using 1(2) by auto
    then show ?thesis
      using 1(1) True allocated_used [OF r(4) assms r(2,3)] by (intro exI [of _ r] exI [of _ s']) (auto simp: allocated_def)
  next
    case False
    have "r = 0" "txn_inv s'" "same_store s s'" using 1(2) unfolding if_not_P [OF False] by auto
    then show ?thesis unfolding if_not_P [OF False] using 1(1) by (auto simp: same_store_def)
  qed
qed

text \<open>A freshly booted system whose blocks below 48 are in use.\<close>

definition demo_disk :: "nat \<Rightarrow> block" where
  "demo_disk b = (if b = 45 then replicate 6 255 @ replicate 1018 0 else replicate BSIZE 0)"

definition demo_txn :: fsys where
  "demo_txn = \<lparr>flog = (booted demo_disk)\<lparr>lg_start := 2, lg_size := 31, lg_dev := ROOTDEV, outstanding := 1\<rparr>,
     sb = \<lparr>sb_magic = FSMAGIC, sb_size = 2000, sb_nblocks = 1954, sb_ninodes = 200, sb_nlog = 30,
       sb_logstart = 2, sb_inodestart = 32, sb_bmapstart = 45\<rparr>, itable = []\<rparr>"

lemma demo_txn_inv: "txn_inv demo_txn" "f_busy demo_txn = {}" "f_logged demo_txn = {}" "f_view demo_txn = demo_disk"
    "f_room demo_txn = 30"
proof -
  have d: "\<forall>b. length (demo_disk b) = BSIZE" by (simp add: demo_disk_def)
  note q = booted_quiet [OF d, unfolded quiet_cache_def]
  show "f_busy demo_txn = {}" "f_view demo_txn = demo_disk" using q by (auto simp: demo_txn_def f_busy_def f_view_def)
  show "f_logged demo_txn = {}" "f_room demo_txn = 30" by (simp_all add: demo_txn_def f_logged_def f_room_def booted_def)
  then show "txn_inv demo_txn"
    using q \<open>f_busy demo_txn = {}\<close> by (auto simp: txn_inv_def demo_txn_def booted_def)
qed

lemma demo_used: "b < 2000 \<Longrightarrow> used demo_txn b \<longleftrightarrow> b < 48"
proof -
  assume b: "b < 2000"
  have B: "BBLOCK b demo_txn = 45" using b by (simp add: BBLOCK_def demo_txn_def)
  have "bit (mask 8 :: u8) (b mod 8)" unfolding bit_mask_iff by simp
  then have m: "bit (255 :: u8) (b mod 8)" by (simp add: mask_eq_exp_minus_1)
  have n: "(replicate 6 255 @ replicate 1018 0 :: block) ! (b div 8) = (if b < 48 then 255 else 0)"
    using b by (cases "b < 48") (simp_all only: nth_append length_replicate, auto)
  have u: "used demo_txn b \<longleftrightarrow> bit ((replicate 6 255 @ replicate 1018 0 :: block) ! (b div 8)) (b mod 8)"
    using b by (simp add: used_def B used_in_def demo_txn_inv(4) demo_disk_def)
  show ?thesis unfolding u n using m by (cases "b < 48") (simp_all only: if_True if_False bit_0_eq, simp_all)
qed

theorem balloc_first_free_witness:
  "can_alloc demo_txn \<and> (\<exists>s'. balloc 1 ROOTDEV demo_txn = Ok (48, s') \<and> used s' 48 \<and> \<not> used s' 49)"
proof -
  have sz: "sb_size (sb demo_txn) = 2000" by (simp add: demo_txn_def)
  have c: "can_alloc demo_txn"
    using demo_used by (auto simp: can_alloc_def demo_txn_inv sz bitmap_used_def BBLOCK_def) (simp_all add: demo_txn_def)
  have ex: "\<exists>b < sb_size (sb demo_txn). \<not> used demo_txn b" unfolding sz using demo_used [of 48] by (intro exI [of _ 48]) simp
  have "(LEAST b. b < sb_size (sb demo_txn) \<and> \<not> used demo_txn b) = 48"
    unfolding sz by (rule Least_equality) (use demo_used in \<open>auto simp: not_less [symmetric]\<close>)
  then show ?thesis
    using balloc_first_free [OF c, of 1, unfolded if_P [OF ex]] c demo_used [of 49] sz by auto
qed

text \<open>
  \<^verbatim>\<open>bfree\<close> of a used block returns, marks exactly that block as free and changes no other
  block than its bitmap block; freeing a block that is already free panics.
\<close>

theorem bfree_result:
  assumes "txn_inv s" "can_get s (BBLOCK b s)" "0 < f_room s"
  shows "if used s b
    then \<exists>s'. bfree pid ROOTDEV b s = Ok s' \<and> txn_inv s' \<and> used s' = (used s)(b := False) \<and>
      (\<forall>b'. b' \<noteq> BBLOCK b s \<longrightarrow> f_view s' b' = f_view s b')
    else bfree pid ROOTDEV b s = Panic ''freeing free block''"
proof (cases "used s b")
  case True
  obtain s' where s': "bfree pid ROOTDEV b s = Ok s'"
      "changed (BBLOCK b s) (set_used False (b mod BPB) (f_view s (BBLOCK b s))) s s'"
    using bfree_ok [OF assms True] by blast
  then show ?thesis using True changed_used [OF s'(2) assms(1)] by (auto simp: changed_def)
next
  case False
  then show ?thesis using bfree_free [OF assms(1,2) False] by simp
qed

theorem bfree_result_witness:
  "used demo_txn 47 \<and> (\<exists>s'. bfree 1 ROOTDEV 47 demo_txn = Ok s' \<and> \<not> used s' 47 \<and> used s' 46) \<and>
   bfree 1 ROOTDEV 48 demo_txn = Panic ''freeing free block''"
proof -
  have g: "can_get demo_txn b" for b by (simp add: can_get_def demo_txn_inv)
  have u: "used demo_txn 47" "used demo_txn 46" "\<not> used demo_txn 48" using demo_used by auto
  show ?thesis
    using bfree_result [OF demo_txn_inv(1) g, of 47 1] bfree_result [OF demo_txn_inv(1) g, of 48 1] u demo_txn_inv(5) by auto
qed

end
