(* ===== verification/Fs_Inode.thy ===== *)
theory Fs_Inode
  imports Fs_Alloc
begin

text \<open>
  Inodes on disk: what \<^verbatim>\<open>iupdate\<close> stores in a block is what \<^verbatim>\<open>ilock\<close> loads from it, and the
  other inodes of the block are not touched.
\<close>

section \<open>Fields of an inode\<close>

lemma s16_id: "- 32768 \<le> x \<Longrightarrow> x < 32768 \<Longrightarrow> s16 x = x"
  by (simp add: s16_def)

lemma length_put_short [simp]: "i + 2 \<le> length d \<Longrightarrow> length (put_short i x d) = length d"
  by (simp add: put_short_def)

lemma get_put_short: "i + 2 \<le> length d \<Longrightarrow> get_short i (put_short i x d) = s16 x"
proof -
  assume a: "i + 2 \<le> length d"
  have "int (nat (x mod 2 ^ 16) mod 256 ^ 2) = x mod 2 ^ 16"
  proof -
    have "nat (x mod 2 ^ 16) < 2 ^ 16" by (simp add: nat_less_iff)
    then show ?thesis by simp
  qed
  then have "get_short i (put_short i x d) = s16 (x mod 2 ^ 16)"
    using a by (simp add: get_short_def put_short_def get_put_same)
  also have "\<dots> = s16 x" by (simp add: s16_def mod_add_left_eq)
  finally show ?thesis .
qed

lemma put_short_other:
  assumes "i + 2 \<le> length d" "j + m \<le> i \<or> i + 2 \<le> j"
  shows "get_le m j (put_short i x d) = get_le m j d"
  unfolding put_short_def by (rule get_put_other) (use assms in auto)

lemma put_addrs_length [simp]:
  "\<forall>k \<in> set ks. i + 16 + 4 * k \<le> length d \<Longrightarrow> length (put_addrs ks i as d) = length d"
  by (induction ks arbitrary: d) simp_all

lemma put_addrs_other:
  assumes "\<forall>k \<in> set ks. i + 16 + 4 * k \<le> length d"
    and "\<forall>k \<in> set ks. j + m \<le> i + 12 + 4 * k \<or> i + 16 + 4 * k \<le> j"
  shows "get_le m j (put_addrs ks i as d) = get_le m j d"
  using assms
proof (induction ks arbitrary: d)
  case (Cons k ks)
  let ?d = "put_le 4 (i + 12 + 4 * k) (as ! k) d"
  have l: "i + 12 + 4 * k + 4 \<le> length d" using Cons.prems(1) by simp
  have "get_le m j (put_addrs ks i as ?d) = get_le m j ?d"
    by (rule Cons.IH) (use Cons.prems l in auto)
  also have "\<dots> = get_le m j d" by (rule get_put_other [OF l]) (use Cons.prems(2) in auto)
  finally show ?case by simp
qed simp

lemma put_addrs_get:
  assumes "\<forall>k \<in> set ks. i + 16 + 4 * k \<le> length d" "distinct ks" "k \<in> set ks" "as ! k < 2 ^ 32"
  shows "get_le 4 (i + 12 + 4 * k) (put_addrs ks i as d) = as ! k"
  using assms
proof (induction ks arbitrary: d)
  case (Cons k' ks)
  let ?d = "put_le 4 (i + 12 + 4 * k') (as ! k') d"
  have l: "i + 12 + 4 * k' + 4 \<le> length d" using Cons.prems(1) by simp
  have ld: "\<forall>k \<in> set ks. i + 16 + 4 * k \<le> length ?d" using Cons.prems(1) l by simp
  show ?case
  proof (cases "k = k'")
    case True
    have "get_le 4 (i + 12 + 4 * k) (put_addrs ks i as ?d) = get_le 4 (i + 12 + 4 * k) ?d"
    proof (rule put_addrs_other [OF ld], rule ballI)
      fix x assume "x \<in> set ks"
      then have "x \<noteq> k" using Cons.prems(2) True by auto
      then show "i + 12 + 4 * k + 4 \<le> i + 12 + 4 * x \<or> i + 16 + 4 * x \<le> i + 12 + 4 * k" by linarith
    qed
    also have "\<dots> = as ! k" using get_put_same [OF l] Cons.prems(4) True by simp
    finally show ?thesis by simp
  next
    case False
    then show ?thesis using Cons.IH [OF ld] Cons.prems by simp
  qed
qed simp

text \<open>The fields of an inode in memory that live on disk, and their ranges.\<close>

definition dinode_of :: "inode \<Rightarrow> dinode" where
  "dinode_of i = \<lparr>d_type = i_type i, d_major = i_major i, d_minor = i_minor i, d_nlink = i_nlink i,
     d_size = i_size i, d_addrs = i_addrs i\<rparr>"

definition short :: "int \<Rightarrow> bool" where
  "short x \<longleftrightarrow> - 32768 \<le> x \<and> x < 32768"

definition inode_ok :: "inode \<Rightarrow> bool" where
  "inode_ok i \<longleftrightarrow> short (i_type i) \<and> short (i_major i) \<and> short (i_minor i) \<and> short (i_nlink i) \<and>
     i_size i < 2 ^ 32 \<and> length (i_addrs i) = NDIRECT + 1 \<and> (\<forall>a \<in> set (i_addrs i). a < 2 ^ 32)"

lemma put_inode_length [simp]: "i + 64 \<le> length d \<Longrightarrow> length (put_inode i ip d) = length d"
  by (simp add: put_inode_def Let_def del: upt_Suc)

lemma put_inode_other:
  assumes "i + 64 \<le> length d" "j + m \<le> i \<or> i + 64 \<le> j"
  shows "get_le m j (put_inode i ip d) = get_le m j d"
proof -
  let ?d1 = "put_short i (i_type ip) d"
  let ?d2 = "put_short (i + 2) (i_major ip) ?d1"
  let ?d3 = "put_short (i + 4) (i_minor ip) ?d2"
  let ?d4 = "put_short (i + 6) (i_nlink ip) ?d3"
  let ?d5 = "put_le 4 (i + 8) (i_size ip) ?d4"
  have "get_le m j (put_inode i ip d) = get_le m j ?d5"
    unfolding put_inode_def Let_def by (rule put_addrs_other) (use assms in auto)
  also have "\<dots> = get_le m j ?d4" by (rule get_put_other) (use assms in auto)
  also have "\<dots> = get_le m j ?d3" by (rule put_short_other) (use assms in auto)
  also have "\<dots> = get_le m j ?d2" by (rule put_short_other) (use assms in auto)
  also have "\<dots> = get_le m j ?d1" by (rule put_short_other) (use assms in auto)
  also have "\<dots> = get_le m j d" by (rule put_short_other) (use assms in auto)
  finally show ?thesis .
qed

lemma get_put_inode:
  assumes "i + 64 \<le> length d" "inode_ok ip"
  shows "get_dinode i (put_inode i ip d) = dinode_of ip"
proof -
  let ?d1 = "put_short i (i_type ip) d"
  let ?d2 = "put_short (i + 2) (i_major ip) ?d1"
  let ?d3 = "put_short (i + 4) (i_minor ip) ?d2"
  let ?d4 = "put_short (i + 6) (i_nlink ip) ?d3"
  let ?d5 = "put_le 4 (i + 8) (i_size ip) ?d4"
  let ?d = "put_inode i ip d"
  note ok = assms(2) [unfolded inode_ok_def short_def]
  have l: "length ?d1 = length d" "length ?d2 = length d" "length ?d3 = length d" "length ?d4 = length d" "length ?d5 = length d"
    using assms(1) by simp_all
  have front: "get_le m j ?d = get_le m j ?d5" if "j + m \<le> i + 12" for m j
    unfolding put_inode_def Let_def by (rule put_addrs_other) (use assms(1) l that in auto)
  have D5: "get_le m j ?d5 = get_le m j ?d4" if "j + m \<le> i + 8" for m j
    by (rule get_put_other) (use assms(1) l that in auto)
  have S: "get_short j ?d = get_short j ?d4" if "j + 2 \<le> i + 8" for j
    using front [of j 2] D5 [of j 2] that by (simp add: get_short_def)
  have "get_short (i + 6) ?d = i_nlink ip"
    using S [of "i + 6"] get_put_short [of "i + 6" ?d3] s16_id [of "i_nlink ip"] ok assms(1) l by simp
  moreover have S4: "get_short j ?d4 = get_short j ?d3" if "j + 2 \<le> i + 6" for j
    unfolding get_short_def by (subst put_short_other) (use that assms(1) l in auto)
  have "get_short (i + 4) ?d = i_minor ip"
    using S [of "i + 4"] S4 [of "i + 4"] get_put_short [of "i + 4" ?d2] s16_id [of "i_minor ip"] ok assms(1) l by simp
  moreover have S3: "get_short j ?d3 = get_short j ?d2" if "j + 2 \<le> i + 4" for j
    unfolding get_short_def by (subst put_short_other) (use that assms(1) l in auto)
  have "get_short (i + 2) ?d = i_major ip"
    using S [of "i + 2"] S4 [of "i + 2"] S3 [of "i + 2"] get_put_short [of "i + 2" ?d1] s16_id [of "i_major ip"] ok assms(1) l by simp
  moreover have S2: "get_short i ?d2 = get_short i ?d1"
    unfolding get_short_def by (subst put_short_other) (use assms(1) l in auto)
  have "get_short i ?d = i_type ip"
    using S [of i] S4 [of i] S3 [of i] S2 get_put_short [of i d] s16_id [of "i_type ip"] ok assms(1) l by simp
  moreover have "get_le 4 (i + 8) ?d = i_size ip"
    using front [of "i + 8" 4] get_put_same [of "i + 8" 4 ?d4] ok assms(1) l by simp
  moreover have "get_le 4 (i + 12 + 4 * k) ?d = i_addrs ip ! k" if "k < NDIRECT + 1" for k
    unfolding put_inode_def Let_def
    by (rule put_addrs_get) (use that assms(1) l ok in \<open>auto simp del: upt_Suc\<close>)
  then have "map (\<lambda>k. get_le 4 (i + 12 + 4 * k) ?d) [0..<NDIRECT + 1] = i_addrs ip"
    by (intro nth_equalityI) (use ok in \<open>simp_all del: upt_Suc\<close>)
  ultimately show ?thesis by (simp add: get_dinode_def dinode_of_def del: upt_Suc)
qed

section \<open>Storing and loading an inode\<close>

definition disk_inode :: "nat \<Rightarrow> fsys \<Rightarrow> dinode" where
  "disk_inode inum s = get_dinode (64 * (inum mod IPB)) (f_view s (IBLOCK inum s))"

lemma iupdate_ok:
  assumes "txn_inv s" "i_dev (itable s ! ip) = ROOTDEV" "can_get s (IBLOCK (i_inum (itable s ! ip)) s)" "0 < f_room s"
  shows "\<exists>s'. iupdate pid ip s = Ok s' \<and> changed (IBLOCK (i_inum (itable s ! ip)) s)
    (put_inode (64 * (i_inum (itable s ! ip) mod IPB)) (itable s ! ip) (f_view s (IBLOCK (i_inum (itable s ! ip)) s))) s s'"
proof -
  let ?i = "itable s ! ip"
  let ?B = "IBLOCK (i_inum ?i) s"
  let ?f = "put_inode (64 * (i_inum ?i mod IPB)) ?i"
  have l: "length (f_view s ?B) = BSIZE" using txn.view_ok [OF assms(1)] .
  then have "length (?f (f_view s ?B)) = BSIZE" by simp
  from change_block [OF assms(1,3,4), where f = ?f, OF this, of pid] show ?thesis
    using assms(2) by (auto simp: iupdate_def Let_def)
qed

lemma dinode_frame:
  assumes "length d = BSIZE" "n mod IPB \<noteq> m mod IPB"
  shows "get_dinode (64 * (m mod IPB)) (put_inode (64 * (n mod IPB)) ip d) = get_dinode (64 * (m mod IPB)) d"
proof -
  let ?i = "64 * (n mod IPB)" and ?j = "64 * (m mod IPB)"
  have "?j + 64 \<le> ?i \<or> ?i + 64 \<le> ?j" using assms(2) by linarith
  then have "get_le k j (put_inode ?i ip d) = get_le k j d" if "?j \<le> j" "j + k \<le> ?j + 64" for k j
    by (intro put_inode_other) (use assms(1) that in auto)
  then show ?thesis by (simp add: get_dinode_def get_short_def del: upt_Suc)
qed

lemma ilock_loads:
  assumes "txn_inv s" "jp < length (itable s)" and j: "j = itable s ! jp"
    and "i_dev j = ROOTDEV" "0 < i_ref j" "\<not> sl_locked (i_lock j)" "\<not> i_valid j"
    and "can_get s (IBLOCK (i_inum j) s)" "d_type (disk_inode (i_inum j) s) \<noteq> 0"
  shows "\<exists>s'. ilock pid jp s = Ok s' \<and> dinode_of (itable s' ! jp) = disk_inode (i_inum j) s \<and>
    i_valid (itable s' ! jp) \<and> holdingsleep pid (i_lock (itable s' ! jp)) \<and> f_view s' = f_view s"
proof -
  let ?s0 = "upd_inode jp (\<lambda>i. i\<lparr>i_lock := locked_by pid\<rparr>) s"
  have flog: "flog ?s0 = flog s" "sb ?s0 = sb s" by (simp_all add: upd_inode_def)
  then have inv: "txn_inv ?s0" "can_get ?s0 b = can_get s b" "f_view ?s0 = f_view s" "IBLOCK n ?s0 = IBLOCK n s" for b n
    using assms(1) by (auto simp: txn_inv_def can_get_def f_busy_def f_logged_def f_view_def IBLOCK_def)
  obtain h s1 s2 where 1: "f_bread pid ROOTDEV (IBLOCK (i_inum j) s) ?s0 = Ok (h, s1)"
      "f_data s1 h = f_view s (IBLOCK (i_inum j) s)" "f_rest s1 = f_rest ?s0"
      "f_brelse pid h s1 = Ok s2" "f_view s2 = f_view s" "f_rest s2 = f_rest ?s0"
    using look_block [OF inv(1), of "IBLOCK (i_inum j) s" pid] assms(8) inv by auto
  let ?di = "disk_inode (i_inum j) s"
  have rel: "f_brelse pid h (upd_inode jp g s1) = Ok (upd_inode jp g s2)" for g
    using 1(4) by (auto simp: f_brelse_def upd_inode_def bind_res_Ok_iff)
  have it: "itable s2 = (itable s)[jp := j\<lparr>i_lock := locked_by pid\<rparr>]" using 1(6) j by (simp add: f_rest_def upd_inode_def)
  define s3 where "s3 = upd_inode jp (\<lambda>i. i\<lparr>i_valid := True\<rparr>) (upd_inode jp (load_inode ?di) s2)"
  have e: "itable s3 ! jp = (load_inode ?di (j\<lparr>i_lock := locked_by pid\<rparr>))\<lparr>i_valid := True\<rparr>"
    using assms(2) it by (simp add: s3_def upd_inode_def)
  have ty: "i_type (itable s3 ! jp) \<noteq> 0" unfolding e using assms(9) by (simp add: load_inode_def)
  have j0: "itable ?s0 ! jp = j\<lparr>i_lock := locked_by pid\<rparr>" using assms(2) j by (simp add: upd_inode_def)
  have di: "get_dinode (64 * (i_inum j mod IPB)) (f_data s1 h) = ?di" using 1(2) by (simp add: disk_inode_def)
  have "ilock pid jp s = Ok s3"
    unfolding ilock_def using assms(4-7) 1(1) rel inv(4) ty
    by (simp add: acquiresleep_free Let_def j0 di flip: j s3_def)
  moreover have "dinode_of (itable s3 ! jp) = ?di" "i_valid (itable s3 ! jp)" "holdingsleep pid (i_lock (itable s3 ! jp))"
    unfolding e by (simp_all add: dinode_of_def load_inode_def)
  moreover have "f_view s3 = f_view s" using 1(5) by (simp add: s3_def f_view_def upd_inode_def)
  ultimately show ?thesis by blast
qed

text \<open>
  C16: \<^verbatim>\<open>iupdate\<close> returns inside a transaction with room, stores the inode so that it can be read
  back from the block, leaves all other inodes on disk as they are, and when the inode is later
  loaded into any entry of the table by \<^verbatim>\<open>ilock\<close>, with the block unchanged, the fields in memory
  are those that were stored.
\<close>

theorem inode_round_trip:
  assumes "txn_inv s" "i = itable s ! ip" "i_dev i = ROOTDEV" "can_get s (IBLOCK (i_inum i) s)" "0 < f_room s"
    and "inode_ok i" "i_type i \<noteq> 0"
  shows "\<exists>s'. iupdate pid ip s = Ok s' \<and> txn_inv s' \<and> disk_inode (i_inum i) s' = dinode_of i \<and>
    (\<forall>n. n \<noteq> i_inum i \<longrightarrow> disk_inode n s' = disk_inode n s) \<and>
    (\<forall>t jp j. txn_inv t \<and> disk_inode (i_inum i) t = disk_inode (i_inum i) s' \<and> jp < length (itable t) \<and> j = itable t ! jp \<and>
       i_dev j = ROOTDEV \<and> i_inum j = i_inum i \<and> 0 < i_ref j \<and> \<not> sl_locked (i_lock j) \<and> \<not> i_valid j \<and>
       can_get t (IBLOCK (i_inum j) t) \<longrightarrow>
       (\<exists>t'. ilock pid' jp t = Ok t' \<and> dinode_of (itable t' ! jp) = dinode_of i))"
proof -
  let ?B = "IBLOCK (i_inum i) s"
  have l: "length (f_view s ?B) = BSIZE" using txn.view_ok [OF assms(1)] .
  obtain s' where s': "iupdate pid ip s = Ok s'"
      "changed ?B (put_inode (64 * (i_inum i mod IPB)) i (f_view s ?B)) s s'"
    using iupdate_ok [OF assms(1), of ip pid] assms(2-5) by auto
  have B: "IBLOCK n s' = IBLOCK n s" for n using s'(2) by (simp add: changed_def f_rest_def IBLOCK_def)
  have V: "f_view s' = (f_view s)(?B := put_inode (64 * (i_inum i mod IPB)) i (f_view s ?B))" "txn_inv s'"
    using s'(2) by (simp_all add: changed_def)
  have same: "disk_inode (i_inum i) s' = dinode_of i"
    using get_put_inode [of "64 * (i_inum i mod IPB)" "f_view s ?B" i] l assms(6) V(1) B by (simp add: disk_inode_def)
  have "disk_inode n s' = disk_inode n s" if "n \<noteq> i_inum i" for n
  proof (cases "IBLOCK n s = ?B")
    case True
    then have "n div IPB = i_inum i div IPB" by (simp add: IBLOCK_def)
    then have "i_inum i mod IPB \<noteq> n mod IPB" using same_div_mod [of n IPB "i_inum i"] that by simp
    then show ?thesis using dinode_frame [OF l] True V(1) B by (simp add: disk_inode_def)
  next
    case False
    then show ?thesis using V(1) B by (simp add: disk_inode_def)
  qed
  moreover have "\<exists>t'. ilock pid' jp t = Ok t' \<and> dinode_of (itable t' ! jp) = dinode_of i"
    if "txn_inv t" "disk_inode (i_inum i) t = disk_inode (i_inum i) s'" "jp < length (itable t)" "j = itable t ! jp"
      "i_dev j = ROOTDEV" "i_inum j = i_inum i" "0 < i_ref j" "\<not> sl_locked (i_lock j)" "\<not> i_valid j"
      "can_get t (IBLOCK (i_inum j) t)" for t jp j
    using ilock_loads [OF that(1,3,4,5,7,8,9,10), of pid'] that(2,6) same assms(7) by (auto simp: dinode_of_def)
  ultimately show ?thesis using s'(1) V(2) same by blast
qed

text \<open>An inode of a file of 700 bytes in one block.\<close>

definition demo_inode :: inode where
  "demo_inode = \<lparr>i_dev = 1, i_inum = 5, i_ref = 1, i_lock = initsleeplock, i_valid = True, i_type = T_FILE,
     i_major = 0, i_minor = 0, i_nlink = 1, i_size = 700, i_addrs = 50 # replicate 12 0\<rparr>"

definition demo_ino :: fsys where
  "demo_ino = demo_txn\<lparr>itable := [demo_inode]\<rparr>"

lemma demo_ino_inv: "txn_inv demo_ino" "f_busy demo_ino = {}" "f_logged demo_ino = {}" "f_view demo_ino = demo_disk" "f_room demo_ino = 30"
  using demo_txn_inv by (simp_all add: demo_ino_def txn_inv_def f_busy_def f_logged_def f_view_def f_room_def)

theorem inode_round_trip_witness:
  "inode_ok demo_inode \<and> (\<exists>s'. iupdate 1 0 demo_ino = Ok s' \<and> d_size (disk_inode 5 s') = 700 \<and>
     disk_inode 6 s' = disk_inode 6 demo_ino)"
proof -
  have ok: "inode_ok demo_inode" by (simp add: inode_ok_def demo_inode_def short_def)
  have i: "itable demo_ino ! 0 = demo_inode" "i_dev demo_inode = 1" "i_inum demo_inode = 5" "i_type demo_inode \<noteq> 0"
    by (simp_all add: demo_ino_def demo_inode_def)
  have g: "can_get demo_ino b" for b by (simp add: can_get_def demo_ino_inv)
  have "d_size (dinode_of demo_inode) = 700" by (simp add: dinode_of_def demo_inode_def)
  then show ?thesis
    using inode_round_trip [OF demo_ino_inv(1), of demo_inode 0 1] i g ok demo_ino_inv(5) by fastforce
qed

end
