(* ===== verification/Fs_Content.thy ===== *)
theory Fs_Content
  imports Fs_Inode
begin

text \<open>
  The contents of a file as a list of bytes. \<open>block_of\<close> is the block that holds block \<open>bn\<close> of
  a file, through the direct addresses or the indirect block; \<open>content\<close> strings the blocks
  together. \<^verbatim>\<open>readi\<close> returns the part of this list that was asked for, whichever way the range
  falls on blocks.
\<close>

definition block_of :: "fsys \<Rightarrow> inode \<Rightarrow> nat \<Rightarrow> nat" where
  "block_of s i bn =
     (if bn < NDIRECT then i_addrs i ! bn
      else if i_addrs i ! NDIRECT = 0 then 0
      else get_le 4 (4 * (bn - NDIRECT)) (f_view s (i_addrs i ! NDIRECT)))"

definition content :: "fsys \<Rightarrow> inode \<Rightarrow> u8 list" where
  "content s i = map (\<lambda>o1. f_view s (block_of s i (o1 div BSIZE)) ! (o1 mod BSIZE)) [0..<i_size i]"

text \<open>All blocks of the file are allocated.\<close>

definition mapped :: "fsys \<Rightarrow> inode \<Rightarrow> bool" where
  "mapped s i \<longleftrightarrow> i_size i \<le> MAXFILE * BSIZE \<and> (\<forall>bn. bn * BSIZE < i_size i \<longrightarrow> block_of s i bn \<noteq> 0)"

text \<open>
  No buffer is in use, and only the log keeps buffers; inside or outside a transaction, since \<^verbatim>\<open>fileread\<close>
  starts none.
\<close>

definition at_rest :: "fsys \<Rightarrow> bool" where
  "at_rest s \<longleftrightarrow> bio_ok (fcache s) \<and> 0 \<le> lh_n (flog s) \<and> lh_n (flog s) \<le> int LOGSIZE \<and> length (lh_block (flog s)) = LOGSIZE \<and>
     (\<forall>b. refs (fcache s) b = (if b \<in> f_logged s then 1 else 0)) \<and> f_busy s = {} \<and> card (f_logged s) < NBUF"

text \<open>The same state inside a transaction, where the lemmas on the store of blocks hold.\<close>

definition begun :: "fsys \<Rightarrow> fsys" where
  "begun s = s\<lparr>flog := (flog s)\<lparr>outstanding := 1\<rparr>\<rparr>"

lemma begun_same [simp]:
  "f_busy (begun s) = f_busy s" "f_logged (begun s) = f_logged s" "f_view (begun s) = f_view s" "f_rest (begun s) = f_rest s"
  "fcache (begun s) = fcache s"
  by (simp_all add: begun_def f_busy_def f_logged_def f_view_def f_rest_def)

lemma at_rest_iff: "at_rest s \<longleftrightarrow> txn_inv (begun s) \<and> f_busy s = {} \<and> card (f_logged s) < NBUF"
  by (auto simp: at_rest_def txn_inv_def) (simp_all add: begun_def)

lemma at_rest_txn: "txn_inv s \<Longrightarrow> f_busy s = {} \<Longrightarrow> card (f_logged s) < NBUF \<Longrightarrow> at_rest s"
  by (simp add: at_rest_def txn_inv_def)

lemma same_store_trans: "same_store s s' \<Longrightarrow> same_store s' s'' \<Longrightarrow> same_store s s''"
  by (simp add: same_store_def)

lemma same_store_file:
  "same_store s s' \<Longrightarrow> itable s' = itable s \<and> block_of s' i = block_of s i \<and> content s' i = content s i \<and> mapped s' i = mapped s i"
  by (auto simp: same_store_def f_rest_def block_of_def content_def mapped_def fun_eq_iff)

lemma look_rest:
  assumes "at_rest s"
  shows "\<exists>h s1 s'. f_bread pid ROOTDEV b s = Ok (h, s1) \<and> f_data s1 h = f_view s b \<and> itable s1 = itable s \<and>
    f_brelse pid h s1 = Ok s' \<and> same_store s s' \<and> at_rest s'"
proof -
  have t: "txn_inv (begun s)" "can_get (begun s) b" using assms by (simp_all add: at_rest_iff can_get_def)
  obtain h t1 t' where 1: "f_bread pid ROOTDEV b (begun s) = Ok (h, t1)" "f_data t1 h = f_view s b" "f_brelse pid h t1 = Ok t'"
      "txn_inv t'" "f_busy t' = f_busy s" "f_logged t' = f_logged s" "f_view t' = f_view s"
    using look_block [OF t, of pid] by auto
  obtain c where c: "bread pid ROOTDEV b (fcache s) = Ok (h, c)" "t1 = (begun s)\<lparr>flog := (flog (begun s))\<lparr>fbio := c\<rparr>\<rparr>"
    using 1(1) by (auto simp: f_bread_def bind_res_Ok_iff)
  obtain c' where c': "brelse pid h c = Ok c'" "t' = (begun s)\<lparr>flog := (flog (begun s))\<lparr>fbio := c'\<rparr>\<rparr>"
    using 1(3) c(2) by (auto simp: f_brelse_def bind_res_Ok_iff)
  let ?s1 = "s\<lparr>flog := (flog s)\<lparr>fbio := c\<rparr>\<rparr>" and ?s' = "s\<lparr>flog := (flog s)\<lparr>fbio := c'\<rparr>\<rparr>"
  have e: "t' = begun ?s'" using c'(2) by (simp add: begun_def)
  have "f_bread pid ROOTDEV b s = Ok (h, ?s1)" "f_brelse pid h ?s1 = Ok ?s'" using c(1) c'(1) by (simp_all add: f_bread_def f_brelse_def)
  moreover have "f_data ?s1 h = f_view s b" using 1(2) c(2) by (simp add: f_data_def)
  moreover have "same_store s ?s'" using 1(5-7) unfolding e by (simp add: same_store_def f_room_def f_rest_def)
  moreover have "at_rest ?s'" using 1(4-6) assms unfolding e at_rest_iff by simp
  ultimately show ?thesis by (intro exI [of _ h] exI [of _ ?s1] exI [of _ ?s']) simp
qed

lemma bmap_mapped:
  assumes "at_rest s" "i = itable s ! ip" "i_dev i = ROOTDEV" "bn < MAXFILE" "block_of s i bn \<noteq> 0"
  shows "\<exists>s'. bmap pid ip bn s = Ok (block_of s i bn, s') \<and> same_store s s' \<and> at_rest s'"
proof (cases "bn < NDIRECT")
  case True
  then show ?thesis using assms by (auto simp: bmap_def bmap_direct_def block_of_def same_store_def)
next
  case False
  let ?a = "i_addrs i ! NDIRECT"
  have a: "?a \<noteq> 0" using assms(5) False by (auto simp: block_of_def split: if_splits)
  obtain h s1 s' where 1: "f_bread pid ROOTDEV ?a s = Ok (h, s1)" "f_data s1 h = f_view s ?a" "itable s1 = itable s"
      "f_brelse pid h s1 = Ok s'" "same_store s s'" "at_rest s'"
    using look_rest [OF assms(1), of pid ?a] by blast
  have "bmap_direct pid ip NDIRECT s = Ok (?a, s)" using a assms(2) by (simp add: bmap_direct_def)
  moreover have "bmap_indirect pid (i_dev (itable s1 ! ip)) h (bn - NDIRECT) s1 = Ok (block_of s i bn, s1)"
    using 1(2) a False assms(5) by (simp add: bmap_indirect_def block_of_def)
  ultimately have "bmap pid ip bn s = Ok (block_of s i bn, s')"
    using 1(1,3,4) False a assms(2,3,4) by (simp add: bmap_def)
  then show ?thesis using 1(5,6) by blast
qed

lemma same_block:
  fixes off k b :: nat
  assumes "off mod b + k < b"
  shows "(off + k) div b = off div b" "(off + k) mod b = off mod b + k"
proof -
  have "off + k = (off mod b + k) + b * (off div b)" by simp
  then show "(off + k) div b = off div b" "(off + k) mod b = off mod b + k"
    using assms by (metis add.commute add_cancel_left_left div_less div_mult_self4 gr_implies_not_zero)
      (metis \<open>off + k = (off mod b + k) + b * (off div b)\<close> assms mod_less mod_mult_self2)
qed

lemma content_chunk:
  assumes "off + m \<le> i_size i" "off mod BSIZE + m \<le> BSIZE" "length (f_view s (block_of s i (off div BSIZE))) = BSIZE"
  shows "take m (drop off (content s i)) = take m (drop (off mod BSIZE) (f_view s (block_of s i (off div BSIZE))))"
proof (rule nth_equalityI)
  fix k assume "k < length (take m (drop off (content s i)))"
  then have k: "k < m" by simp
  have "(off + k) div BSIZE = off div BSIZE" "(off + k) mod BSIZE = off mod BSIZE + k" using k assms(2) same_block [of off BSIZE k] by simp_all
  then show "take m (drop off (content s i)) ! k = take m (drop (off mod BSIZE) (f_view s (block_of s i (off div BSIZE)))) ! k"
    using k assms by (simp add: content_def)
qed (use assms in \<open>simp add: content_def\<close>)

text \<open>
  The pieces of a range, one for each block it touches, with the addresses they go to; and how many bytes
  arrive when the delivery stops at the first piece that memory refuses.
\<close>

function pieces :: "nat \<Rightarrow> nat \<Rightarrow> nat \<Rightarrow> (nat \<times> nat) list" where
  "pieces dst off n = (if n = 0 then [] else
     let m = min n (BSIZE - off mod BSIZE) in (dst, m) # pieces (dst + m) (off + m) (n - m))"
  by pat_completeness auto

termination pieces
  by (relation "measure (\<lambda>(dst, off, n). n)") auto

declare pieces.simps [simp del]

definition delivered :: "(nat \<Rightarrow> nat \<Rightarrow> bool) \<Rightarrow> (nat \<times> nat) list \<Rightarrow> nat" where
  "delivered cout ps = sum_list (map snd (takeWhile (\<lambda>(a, m). cout a m) ps))"

lemma delivered_simps [simp]:
  "delivered cout [] = 0" "delivered cout ((a, m) # ps) = (if cout a m then m + delivered cout ps else 0)"
  by (simp_all add: delivered_def)

lemma readi_loop_mapped:
  assumes "at_rest s" "i = itable s ! ip" "i_dev i = ROOTDEV" "mapped s i" "tot \<le> n" "off + (n - tot) \<le> i_size i"
  shows "\<exists>s'. readi_loop pid cout ip dst off n tot out s =
      Ok (let d = delivered cout (pieces dst off (n - tot))
          in (if d = n - tot then int n else -1, out @ take d (drop off (content s i))), s') \<and> same_store s s' \<and> at_rest s'"
  using assms
proof (induction "n - tot" arbitrary: dst off tot out s rule: less_induct)
  case less
  show ?case
  proof (cases "tot < n")
    case True
    let ?bn = "off div BSIZE"
    let ?a = "block_of s i ?bn"
    define m where "m = min (n - tot) (BSIZE - off mod BSIZE)"
    have "off mod BSIZE < BSIZE" by simp
    then have m: "0 < m" "off mod BSIZE + m \<le> BSIZE" "m \<le> n - tot" using True by (auto simp: m_def)
    have "?bn * BSIZE < i_size i" using less.prems(6) True by (meson div_times_less_eq_dividend le_less_trans less_add_same_cancel1 less_le_trans zero_less_diff)
    then have bn: "?a \<noteq> 0" "?bn < MAXFILE" using less.prems(4) by (auto simp: mapped_def)
    obtain s1 where 1: "bmap pid ip ?bn s = Ok (?a, s1)" "same_store s s1" "at_rest s1"
      using bmap_mapped [OF less.prems(1-3) bn(2,1)] by blast
    have it: "itable s1 = itable s" using same_store_file [OF 1(2)] by blast
    obtain h s2 s3 where 2: "f_bread pid ROOTDEV ?a s1 = Ok (h, s2)" "f_data s2 h = f_view s1 ?a" "f_brelse pid h s2 = Ok s3"
        "same_store s1 s3" "at_rest s3"
      using look_rest [OF 1(3), of pid ?a] by blast
    note S = same_store_trans [OF 1(2) 2(4)]
    note F = same_store_file [OF S, of i]
    have len: "length (f_view s ?a) = BSIZE" using less.prems(1) txn.view_ok [of "begun s"] by (simp add: at_rest_iff)
    have le: "off + m \<le> i_size i" using less.prems(6) m(3) by linarith
    have tm: "n - (tot + m) < n - tot" "tot + m \<le> n" "off + m + (n - (tot + m)) \<le> i_size i"
      using less.prems(5,6) m(1,3) True by linarith+
    have chunk: "take m (drop (off mod BSIZE) (f_data s2 h)) = take m (drop off (content s i))"
      using content_chunk [OF le m(2) len] 2(2) 1(2) by (simp add: same_store_def)
    have ps: "pieces dst off (n - tot) = (dst, m) # pieces (dst + m) (off + m) (n - (tot + m))"
      using True by (subst pieces.simps) (simp add: Let_def flip: m_def)
    show ?thesis
    proof (cases "cout dst m")
      case False
      then have "readi_loop pid cout ip dst off n tot out s = Ok ((-1, out), s3)"
        using 1(1) 2(1-3) True bn(1) it less.prems(2,3) by (subst readi_loop.simps) (simp add: Let_def flip: m_def)
      then show ?thesis using False True S 2(5) unfolding ps by simp
    next
      case c: True
      let ?out = "out @ take m (drop (off mod BSIZE) (f_data s2 h))" and ?d = "delivered cout (pieces (dst + m) (off + m) (n - (tot + m)))"
      obtain s' where 3: "readi_loop pid cout ip (dst + m) (off + m) n (tot + m) ?out s3 =
          Ok ((if ?d = n - (tot + m) then int n else -1, ?out @ take ?d (drop (off + m) (content s3 i))), s')" "same_store s3 s'" "at_rest s'"
        using less.hyps [OF _ 2(5) _ less.prems(3), of "tot + m" "off + m" "dst + m" ?out] F less.prems(2,4) tm
        unfolding Let_def by (simp only: refl simp_thms) blast
      have "take (m + ?d) (drop off (content s i)) = take m (drop off (content s i)) @ take ?d (drop (off + m) (content s i))"
        using take_add [of m ?d "drop off (content s i)"] by (simp add: add.commute)
      moreover have "?d = n - (tot + m) \<longleftrightarrow> m + ?d = n - tot" using m(3) tm by linarith
      ultimately have "readi_loop pid cout ip dst off n tot out s =
          Ok (let d = delivered cout (pieces dst off (n - tot)) in (if d = n - tot then int n else -1, out @ take d (drop off (content s i))), s')"
        using 1(1) 2(1-3) 3(1) True bn(1) it less.prems(2,3) F chunk c unfolding ps
        by (subst readi_loop.simps) (simp add: Let_def flip: m_def)
      then show ?thesis using same_store_trans [OF S 3(2)] 3(3) by blast
    qed
  next
    case False
    then show ?thesis using less.prems by (subst readi_loop.simps) (auto simp: same_store_def pieces.simps Let_def)
  qed
qed

text \<open>
  C10: Reading from an offset inside a file whose blocks are allocated, inside a transaction or outside one as
  \<^verbatim>\<open>read\<close> does: exactly the bytes of the file from there arrive, as many as were asked for or as there are, through
  direct and indirect blocks and for any alignment, and their number is returned. When the
  memory they go to cannot be written, the result is -1, and what arrived is the bytes of the
  blocks before the first that was refused. A read that starts behind the end, or whose range wraps around
  32 bits, returns 0. In every case the contents of the file system, cache and log stay as they are.
\<close>

theorem readi_reads_content:
  assumes "at_rest s" "i = itable s ! ip" "i_dev i = ROOTDEV" "mapped s i" "off < 2 ^ 32" "n < 2 ^ 32"
  shows "\<exists>s'. readi pid cout ip dst off n s =
      Ok (if i_size i < off \<or> 2 ^ 32 \<le> off + n then (0, [])
          else let k = min n (i_size i - off); d = delivered cout (pieces dst off k)
               in (if d = k then int k else -1, take d (drop off (content s i))), s') \<and>
    same_store s s' \<and> at_rest s'"
proof (cases "i_size i < off \<or> 2 ^ 32 \<le> off + n")
  case True
  have "(off + n) mod 2 ^ 32 < off" if "2 ^ 32 \<le> off + n"
  proof -
    have "(off + n) mod 2 ^ 32 = off + n - 2 ^ 32" using that assms(5,6) by (subst le_mod_geq) simp_all
    then show ?thesis using that assms(6) by linarith
  qed
  then have "readi pid cout ip dst off n s = Ok ((0, []), s)" using True assms(2) by (auto simp: readi_def Let_def)
  then show ?thesis using True assms(1) by (auto simp: same_store_def)
next
  case False
  let ?n = "min n (i_size i - off)"
  have w: "(off + n) mod 2 ^ 32 = off + n" using False by simp
  have n: "?n = (if off + n > i_size i then i_size i - off else n)" using False by auto
  have le: "off + (?n - 0) \<le> i_size i" using False by linarith
  have "readi pid cout ip dst off n s = readi_loop pid cout ip dst off ?n 0 [] s"
    unfolding n using False w by (simp add: readi_def Let_def flip: assms(2))
  then show ?thesis
    using readi_loop_mapped [OF assms(1-4), where tot = 0 and n = ?n and off = off and pid = pid and dst = dst and out = "[]" and cout = cout, OF _ le] False
    by (simp add: Let_def)
qed

text \<open>The first block of a file outside any transaction, and a destination that refuses it.\<close>

theorem readi_reads_content_witness:
  "\<exists>s s1 s2. outstanding (flog s) = 0 \<and> i_size (itable s ! 0) = 700 \<and> readi 1 (\<lambda>a m. True) 0 0 690 20 s = Ok ((10, replicate 10 0), s1) \<and>
     readi 1 (\<lambda>a m. False) 0 0 690 20 s = Ok ((-1, []), s2)"
proof -
  define s where "s = demo_ino\<lparr>flog := (flog demo_ino)\<lparr>outstanding := 0\<rparr>\<rparr>"
  have same: "f_view s = f_view demo_ino" "f_logged s = f_logged demo_ino" "f_busy s = f_busy demo_ino"
    by (simp_all add: s_def f_view_def f_logged_def f_busy_def)
  have i: "demo_inode = itable s ! 0" "i_dev demo_inode = ROOTDEV" "i_size demo_inode = 700" by (simp_all add: s_def demo_ino_def demo_inode_def)
  have "at_rest demo_ino" by (rule at_rest_txn) (simp_all add: demo_ino_inv)
  then have r: "at_rest s" unfolding at_rest_def same by (simp add: s_def)
  have "block_of s demo_inode bn \<noteq> 0" if "bn * BSIZE < 700" for bn
  proof -
    have "bn = 0" using that by simp
    then show ?thesis by (simp add: block_of_def demo_inode_def)
  qed
  then have m: "mapped s demo_inode" by (simp add: mapped_def demo_inode_def)
  have c: "content s demo_inode = replicate 700 0"
    by (rule nth_equalityI) (simp_all add: content_def block_of_def same demo_ino_inv demo_disk_def demo_inode_def)
  have p: "pieces 0 690 10 = [(0, 10)]" by (simp add: pieces.simps)
  obtain s1 where "readi 1 (\<lambda>a m. True) 0 0 690 20 s = Ok ((10, replicate 10 0), s1)"
    using readi_reads_content [OF r i(1,2) m, where cout = "\<lambda>a m. True" and off = 690 and n = 20 and pid = 1 and dst = 0] unfolding c i(3) by (auto simp: Let_def p)
  moreover obtain s2 where "readi 1 (\<lambda>a m. False) 0 0 690 20 s = Ok ((-1, []), s2)"
    using readi_reads_content [OF r i(1,2) m, where cout = "\<lambda>a m. False" and off = 690 and n = 20 and pid = 1 and dst = 0] unfolding c i(3) by (auto simp: Let_def p)
  moreover have "outstanding (flog s) = 0" by (simp add: s_def)
  ultimately show ?thesis using i(1,3) by metis
qed

end
