(* ===== verification/Fs_Path.thy ===== *)
theory Fs_Path
  imports Fs_Dir
begin

text \<open>
  Path names and the inode table: what \<^verbatim>\<open>skipelem\<close> makes of a path, against splitting it at
  the slashes, and what \<^verbatim>\<open>iget\<close> does to the table of inodes.
\<close>

section \<open>The elements of a path\<close>

function elements :: "u8 list \<Rightarrow> u8 list list" where
  "elements path = (case skipelem path of None \<Rightarrow> [] | Some (rest, name) \<Rightarrow> name # elements rest)"
  by pat_completeness auto

termination elements
  by (relation "measure length") (auto dest: skipelem_shorter)

declare elements.simps [simp del]

fun split_on :: "'a \<Rightarrow> 'a list \<Rightarrow> 'a list list" where
  "split_on c [] = [[]]"
| "split_on c (x # xs) = (if x = c then [] # split_on c xs else (x # hd (split_on c xs)) # tl (split_on c xs))"

lemma split_on_ne [simp]: "split_on c xs \<noteq> []"
  by (induction xs) simp_all

lemma split_on_first:
  "split_on c xs = takeWhile (\<lambda>x. x \<noteq> c) xs #
     (case dropWhile (\<lambda>x. x \<noteq> c) xs of [] \<Rightarrow> [] | _ # ys \<Rightarrow> split_on c ys)"
  by (induction xs) simp_all

lemma split_on_skip:
  "filter (\<lambda>w. w \<noteq> []) (split_on c (dropWhile (\<lambda>x. x = c) xs)) = filter (\<lambda>w. w \<noteq> []) (split_on c xs)"
  by (induction xs) simp_all

lemma split_on_rest:
  "r = [] \<or> hd r = c \<Longrightarrow>
     filter (\<lambda>w. w \<noteq> []) (case r of [] \<Rightarrow> [] | _ # ys \<Rightarrow> split_on c ys) = filter (\<lambda>w. w \<noteq> []) (split_on c r)"
  by (cases r) auto

lemma elements_split: "elements path = map (take DIRSIZ) (filter (\<lambda>w. w \<noteq> []) (split_on slash path))"
proof (induction "length path" arbitrary: path rule: less_induct)
  case less
  let ?p = "dropWhile (\<lambda>c. c = slash) path"
  let ?f = "\<lambda>p. filter (\<lambda>w. w \<noteq> []) (split_on slash p)"
  show ?case
  proof (cases "?p = []")
    case True
    then have "skipelem path = None" by (simp add: skipelem_def)
    moreover have "?f path = []" using split_on_skip [of slash path] True by simp
    ultimately show ?thesis by (simp add: elements.simps)
  next
    case False
    let ?el = "takeWhile (\<lambda>c. c \<noteq> slash) ?p" and ?r = "dropWhile (\<lambda>c. c \<noteq> slash) ?p"
    have s: "skipelem path = Some (dropWhile (\<lambda>c. c = slash) ?r, take DIRSIZ ?el)"
      using False by (auto simp: skipelem_def Let_def)
    have "hd ?p \<noteq> slash" using hd_dropWhile [of "\<lambda>c. c = slash" path] False by simp
    then have el: "?el \<noteq> []" using False by (cases ?p) auto
    have "?f path = ?f ?p" by (rule split_on_skip [symmetric])
    also have "\<dots> = ?el # filter (\<lambda>w. w \<noteq> []) (case ?r of [] \<Rightarrow> [] | _ # ys \<Rightarrow> split_on slash ys)"
      by (subst split_on_first) (simp add: el)
    also have "filter (\<lambda>w. w \<noteq> []) (case ?r of [] \<Rightarrow> [] | _ # ys \<Rightarrow> split_on slash ys) = ?f ?r"
      using hd_dropWhile [of "\<lambda>c. c \<noteq> slash" ?p] by (intro split_on_rest) blast
    also have "\<dots> = ?f (dropWhile (\<lambda>c. c = slash) ?r)" by (rule split_on_skip [symmetric])
    finally show ?thesis
      using less [OF skipelem_shorter [OF s]] s by (subst elements.simps) simp
  qed
qed

text \<open>
  The elements that repeated calls of \<^verbatim>\<open>skipelem\<close> deliver are the non-empty parts of the path
  between slashes, in order, each cut to \<^verbatim>\<open>DIRSIZ\<close> bytes; the calls come to an end.
\<close>

theorem path_elements: "elements path = map (take DIRSIZ) (filter (\<lambda>w. w \<noteq> []) (split_on slash path))"
  by (rule elements_split)

section \<open>The inode table\<close>

definition itable_ok :: "inode list \<Rightarrow> bool" where
  "itable_ok t \<longleftrightarrow> (\<forall>x < length t. 0 \<le> i_ref (t ! x)) \<and>
     (\<forall>x < length t. \<forall>y < length t. 0 < i_ref (t ! x) \<and> 0 < i_ref (t ! y) \<and>
        i_dev (t ! x) = i_dev (t ! y) \<and> i_inum (t ! x) = i_inum (t ! y) \<longrightarrow> x = y)"

definition cached :: "nat \<Rightarrow> nat \<Rightarrow> inode \<Rightarrow> bool" where
  "cached dev inum i \<longleftrightarrow> 0 < i_ref i \<and> i_dev i = dev \<and> i_inum i = inum"

text \<open>What the scan finds: the first cached entry, else the first free one.\<close>

lemma find_upt_Cons:
  "find (\<lambda>x. P ((i # t) ! x)) [0..<length (i # t)] =
     (if P i then Some 0 else map_option Suc (find (\<lambda>x. P (t ! x)) [0..<length t]))"
proof -
  have "[0..<length (i # t)] = 0 # map Suc [0..<length t]" by (simp add: map_Suc_upt upt_conv_Cons del: upt_Suc)
  moreover have "find Q (map Suc xs) = map_option Suc (find (\<lambda>x. Q (Suc x)) xs)" for Q xs by (induction xs) simp_all
  ultimately show ?thesis by simp
qed

lemma iget_scan_cached:
  "find (\<lambda>x. cached dev inum (t ! x)) [0..<length t] = Some x \<Longrightarrow> fst (iget_scan dev inum k emp t) = Some (k + x)"
proof (induction t arbitrary: k emp x)
  case (Cons i t)
  show ?case
  proof (cases "cached dev inum i")
    case True
    then show ?thesis using Cons.prems unfolding find_upt_Cons by (simp add: cached_def)
  next
    case False
    then obtain y where y: "find (\<lambda>x. cached dev inum (t ! x)) [0..<length t] = Some y" "x = Suc y"
      using Cons.prems unfolding find_upt_Cons by auto
    have "fst (iget_scan dev inum k emp (i # t)) =
        fst (iget_scan dev inum (k + 1) (if emp = None \<and> i_ref i = 0 then Some k else emp) t)"
      using False unfolding cached_def by auto
    also have "\<dots> = Some (k + 1 + y)" by (rule Cons.IH [OF y(1)])
    finally show ?thesis using y(2) by simp
  qed
qed simp

lemma iget_scan_absent:
  "find (\<lambda>x. cached dev inum (t ! x)) [0..<length t] = None \<Longrightarrow>
     iget_scan dev inum k emp t = (None, case emp of Some e \<Rightarrow> Some e
       | None \<Rightarrow> map_option (\<lambda>x. k + x) (find (\<lambda>x. i_ref (t ! x) = 0) [0..<length t]))"
proof (induction t arbitrary: k emp)
  case (Cons i t)
  then have n: "\<not> cached dev inum i" "find (\<lambda>x. cached dev inum (t ! x)) [0..<length t] = None"
    unfolding find_upt_Cons by (auto split: if_splits)
  let ?e = "if emp = None \<and> i_ref i = 0 then Some k else emp"
  have "iget_scan dev inum k emp (i # t) = iget_scan dev inum (k + 1) ?e t"
    using n(1) unfolding cached_def by auto
  also note Cons.IH [OF n(2), of "k + 1" ?e]
  finally show ?case
    unfolding find_upt_Cons [where P = "\<lambda>i. i_ref i = 0"] 
    by (cases "find (\<lambda>x. i_ref (t ! x) = 0) [0..<length t]") (simp_all split: option.split)
qed (simp split: option.split)

lemma itable_okD:
  "itable_ok t \<Longrightarrow> x < length t \<Longrightarrow> y < length t \<Longrightarrow> 0 < i_ref (t ! x) \<Longrightarrow> 0 < i_ref (t ! y) \<Longrightarrow>
     i_dev (t ! x) = i_dev (t ! y) \<Longrightarrow> i_inum (t ! x) = i_inum (t ! y) \<Longrightarrow> x = y"
  unfolding itable_ok_def by blast

lemma itable_ok_update:
  assumes "itable_ok t" "ip < length t" "0 < i_ref i"
    and "\<And>x. x < length t \<Longrightarrow> x \<noteq> ip \<Longrightarrow> 0 < i_ref (t ! x) \<Longrightarrow> \<not> (i_dev (t ! x) = i_dev i \<and> i_inum (t ! x) = i_inum i)"
  shows "itable_ok (t[ip := i])"
  unfolding itable_ok_def
proof (intro conjI allI impI)
  show "0 \<le> i_ref (t[ip := i] ! x)" if "x < length (t[ip := i])" for x
    using that assms(1,3) by (cases "x = ip") (simp_all add: itable_ok_def)
  show "x = y"
    if "x < length (t[ip := i])" "y < length (t[ip := i])" and e: "0 < i_ref (t[ip := i] ! x) \<and> 0 < i_ref (t[ip := i] ! y) \<and>
      i_dev (t[ip := i] ! x) = i_dev (t[ip := i] ! y) \<and> i_inum (t[ip := i] ! x) = i_inum (t[ip := i] ! y)" for x y
  proof (cases "x = ip \<or> y = ip")
    case True
    then show ?thesis using that assms(2) assms(4) [of x] assms(4) [of y] by (cases "x = ip"; cases "y = ip") auto
  next
    case False
    then have "t[ip := i] ! x = t ! x" "t[ip := i] ! y = t ! y" by auto
    then show ?thesis using assms(1) that unfolding itable_ok_def by (metis length_list_update)
  qed
qed

lemma find_upt_None: "find P [0..<n] = None \<longleftrightarrow> (\<forall>x < n. \<not> P x)"
  by (auto simp: find_None_iff)

lemma find_upt_Some: "find P [0..<n] = Some x \<Longrightarrow> x < n \<and> P x"
  by (auto simp: find_Some_iff)

text \<open>
  \<^verbatim>\<open>iget\<close> keeps at most one entry of the inode table for an inode. If the inode is in the
  table its entry gets one more reference; otherwise it gets a free entry, marked as not yet
  loaded; no other entry changes. \<^verbatim>\<open>iget\<close> panics exactly when the inode is not there and no
  entry is free.
\<close>

theorem iget_result:
  assumes "itable_ok (itable s)"
  shows "(case iget dev inum s of
      Ok (ip, s') \<Rightarrow> itable_ok (itable s') \<and> ip < length (itable s) \<and> cached dev inum (itable s' ! ip) \<and>
        (\<forall>x. x \<noteq> ip \<longrightarrow> itable s' ! x = itable s ! x) \<and>
        (if cached dev inum (itable s ! ip)
         then itable s' ! ip = (itable s ! ip)\<lparr>i_ref := i_ref (itable s ! ip) + 1\<rparr>
         else (\<forall>x < length (itable s). \<not> cached dev inum (itable s ! x)) \<and> i_ref (itable s ! ip) = 0 \<and>
           i_ref (itable s' ! ip) = 1 \<and> \<not> i_valid (itable s' ! ip))
    | Panic m \<Rightarrow> (\<forall>x < length (itable s). 0 < i_ref (itable s ! x) \<and> \<not> cached dev inum (itable s ! x))
    | Sleeps \<Rightarrow> False)"
proof -
  let ?t = "itable s"
  show ?thesis
  proof (cases "find (\<lambda>x. cached dev inum (?t ! x)) [0..<length ?t]")
    case (Some ip)
    then have ip: "ip < length ?t" "cached dev inum (?t ! ip)" using find_upt_Some by fastforce+
    obtain e where "iget_scan dev inum 0 None ?t = (Some ip, e)"
      using iget_scan_cached [OF Some, of 0 None] by (cases "iget_scan dev inum 0 None ?t") simp
    then have "iget dev inum s = Ok (ip, upd_inode ip (\<lambda>i. i\<lparr>i_ref := i_ref i + 1\<rparr>) s)" by (simp add: iget_def)
    moreover have "itable_ok (?t[ip := (?t ! ip)\<lparr>i_ref := i_ref (?t ! ip) + 1\<rparr>])"
    proof (rule itable_ok_update [OF assms ip(1)])
      show "\<not> (i_dev (?t ! x) = i_dev ((?t ! ip)\<lparr>i_ref := i_ref (?t ! ip) + 1\<rparr>) \<and>
          i_inum (?t ! x) = i_inum ((?t ! ip)\<lparr>i_ref := i_ref (?t ! ip) + 1\<rparr>))"
        if "x < length ?t" "x \<noteq> ip" "0 < i_ref (?t ! x)" for x
        using itable_okD [OF assms that(1) ip(1) that(3)] ip(2) that(2) by (auto simp: cached_def)
    qed (use ip in \<open>simp add: cached_def\<close>)
    ultimately show ?thesis using ip by (simp add: upd_inode_def cached_def)
  next
    case None
    then have no: "\<not> cached dev inum (?t ! x)" if "x < length ?t" for x using that by (simp add: find_upt_None)
    show ?thesis
    proof (cases "find (\<lambda>x. i_ref (?t ! x) = 0) [0..<length ?t]")
      case N: None
      then have "\<forall>x < length ?t. 0 < i_ref (?t ! x)" using assms by (auto simp: find_upt_None itable_ok_def less_le)
      then show ?thesis using iget_scan_absent [OF None, of 0 None] N no by (simp add: iget_def)
    next
      case (Some ip)
      let ?i = "(?t ! ip)\<lparr>i_dev := dev, i_inum := inum, i_ref := 1, i_valid := False\<rparr>"
      have ip: "ip < length ?t" "i_ref (?t ! ip) = 0" using find_upt_Some [OF Some] by auto
      have "itable_ok (?t[ip := ?i])"
        by (rule itable_ok_update [OF assms ip(1)]) (use no in \<open>auto simp: cached_def\<close>)
      moreover have "iget dev inum s = Ok (ip, s\<lparr>itable := ?t[ip := ?i]\<rparr>)" 
        using iget_scan_absent [OF None, of 0 None] Some by (simp add: iget_def upd_inode_def)
      ultimately show ?thesis using ip no by (simp add: cached_def)
    qed
  qed
qed

definition demo_slot :: inode where
  "demo_slot = \<lparr>i_dev = 1, i_inum = 7, i_ref = 2, i_lock = initsleeplock, i_valid = True, i_type = T_FILE,
     i_major = 0, i_minor = 0, i_nlink = 1, i_size = 0, i_addrs = replicate 13 0\<rparr>"

definition demo_table :: fsys where
  "demo_table = \<lparr>flog = \<lparr>fbio = \<lparr>bufs = [], bdisk = (\<lambda>b. []), dtrace = []\<rparr>, lg_start = 2, lg_size = 30,
       outstanding = 0, committing = False, lg_dev = 1, lh_n = 0, lh_block = []\<rparr>,
     sb = \<lparr>sb_magic = FSMAGIC, sb_size = 2000, sb_nblocks = 1954, sb_ninodes = 200, sb_nlog = 30,
       sb_logstart = 2, sb_inodestart = 32, sb_bmapstart = 45\<rparr>,
     itable = [demo_slot\<lparr>i_ref := 0\<rparr>, demo_slot]\<rparr>"

theorem iget_result_witness:
  "itable_ok (itable demo_table) \<and>
   (\<exists>s'. iget 1 7 demo_table = Ok (1, s') \<and> i_ref (itable s' ! 1) = 3) \<and>
   (\<exists>s'. iget 1 8 demo_table = Ok (0, s') \<and> \<not> i_valid (itable s' ! 0))"
proof -
  have ok: "itable_ok (itable demo_table)"
    by (auto simp: itable_ok_def demo_table_def demo_slot_def less_Suc_eq nth_Cons')
  obtain s1 s2 where g: "iget 1 7 demo_table = Ok (1, s1)" "iget 1 8 demo_table = Ok (0, s2)"
    by (simp add: iget_def demo_table_def demo_slot_def)
  show ?thesis
    using iget_result [OF ok, of 1 7] iget_result [OF ok, of 1 8] g ok
    by (simp add: demo_table_def demo_slot_def cached_def)
qed

end
