(* ===== verification/Sh.thy ===== *)
theory Sh
  imports Prelude
begin

text \<open>
  The shell's parser (\<^verbatim>\<open>user/sh.c\<close>). A pointer into the input line is a position in the list of its
  bytes; the byte at the end is the NUL that \<^verbatim>\<open>es\<close> points at. \<^verbatim>\<open>malloc\<close> is taken to succeed.
\<close>

section \<open>Commands\<close>

text \<open>An argument or file name is a pair of positions, its first byte and the byte behind it.\<close>

datatype 'w command =
    EXEC "'w list"
  | REDIR "'w command" 'w int int
  | PIPE "'w command" "'w command"
  | LIST "'w command" "'w command"
  | BACK "'w command"

type_synonym cmd = "(nat \<times> nat) command"

abbreviation (input) MAXARGS :: nat where "MAXARGS \<equiv> 10"
abbreviation (input) O_RDONLY :: int where "O_RDONLY \<equiv> 0"
abbreviation (input) O_WRONLY :: int where "O_WRONLY \<equiv> 0x001"
abbreviation (input) O_CREATE :: int where "O_CREATE \<equiv> 0x200"
abbreviation (input) O_TRUNC :: int where "O_TRUNC \<equiv> 0x400"

section \<open>Tokens\<close>

definition whitespace :: "u8 list" where "whitespace = [32, 9, 13, 10, 11]"

definition symbols :: "u8 list" where "symbols = [60, 124, 62, 38, 59, 40, 41]"

definition wordc :: "u8 \<Rightarrow> bool" where
  "wordc c \<longleftrightarrow> c \<noteq> 0 \<and> c \<notin> set whitespace \<and> c \<notin> set symbols"

definition at :: "u8 list \<Rightarrow> nat \<Rightarrow> u8" where
  "at line s = (if s < length line then line ! s else 0)"

function skip_ws :: "u8 list \<Rightarrow> nat \<Rightarrow> nat" where
  "skip_ws line s = (if s < length line \<and> at line s \<in> set whitespace then skip_ws line (Suc s) else s)"
  by auto
termination by (relation "measure (\<lambda>(line, s). length line - s)") auto

function skip_word :: "u8 list \<Rightarrow> nat \<Rightarrow> nat" where
  "skip_word line s =
     (if s < length line \<and> at line s \<notin> set whitespace \<and> at line s \<notin> set symbols then skip_word line (Suc s) else s)"
  by auto
termination by (relation "measure (\<lambda>(line, s). length line - s)") auto

declare skip_ws.simps [simp del] skip_word.simps [simp del]

text \<open>The token, its two ends and the position behind the white space that follows.\<close>

definition gettoken :: "u8 list \<Rightarrow> nat \<Rightarrow> u8 \<times> nat \<times> nat \<times> nat" where
  "gettoken line s =
     (let q = skip_ws line s; c = at line q;
          (ret, eq) = (if c = 0 then (0, q)
                       else if c \<in> {124, 40, 41, 59, 38, 60} then (c, Suc q)
                       else if c = 62 then (if at line (Suc q) = 62 then (43, Suc (Suc q)) else (62, Suc q))
                       else (97, skip_word line q))
      in (ret, q, eq, skip_ws line eq))"

definition peek :: "u8 list \<Rightarrow> u8 list \<Rightarrow> nat \<Rightarrow> bool \<times> nat" where
  "peek line toks s = (let s = skip_ws line s in (at line s \<noteq> 0 \<and> at line s \<in> set toks, s))"

section \<open>Positions move forward\<close>

lemma skip_ws_ge: "s \<le> skip_ws line s" and skip_ws_le: "s \<le> length line \<Longrightarrow> skip_ws line s \<le> length line"
  by (induction line s rule: skip_ws.induct) (subst skip_ws.simps; force)+

lemma skip_word_ge: "s \<le> skip_word line s" and skip_word_le: "s \<le> length line \<Longrightarrow> skip_word line s \<le> length line"
  by (induction line s rule: skip_word.induct) (subst skip_word.simps; force)+

lemma at_less: "at line s \<noteq> 0 \<Longrightarrow> s < length line"
  by (auto simp: at_def split: if_splits)

lemma skip_ws_stop: "at line (skip_ws line s) \<notin> set whitespace"
proof (induction line s rule: skip_ws.induct)
  case (1 line s)
  show ?case
  proof (cases "s < length line \<and> at line s \<in> set whitespace")
    case True
    then show ?thesis using 1 by (subst skip_ws.simps) simp
  next
    case False
    moreover have "at line s \<notin> set whitespace" using False by (auto simp: at_def whitespace_def split: if_splits)
    ultimately show ?thesis by (subst skip_ws.simps) simp
  qed
qed

lemma skip_word_stop: "\<not> wordc (at line (skip_word line s))"
proof (induction line s rule: skip_word.induct)
  case (1 line s)
  show ?case
  proof (cases "s < length line \<and> at line s \<notin> set whitespace \<and> at line s \<notin> set symbols")
    case True
    then show ?thesis using 1 by (subst skip_word.simps) simp
  next
    case False
    moreover have "\<not> wordc (at line s)" using False by (auto simp: at_def wordc_def split: if_splits)
    ultimately show ?thesis by (subst skip_word.simps) auto
  qed
qed

lemma skip_word_word: "s \<le> i \<Longrightarrow> i < skip_word line s \<Longrightarrow> 0 \<notin> set line \<Longrightarrow> wordc (at line i)"
proof (induction line s rule: skip_word.induct)
  case (1 line s)
  show ?case
  proof (cases "s < length line \<and> at line s \<notin> set whitespace \<and> at line s \<notin> set symbols")
    case True
    then have e: "skip_word line s = skip_word line (Suc s)" by (subst skip_word.simps) simp
    show ?thesis
    proof (cases "i = s")
      case True
      have "line ! s \<noteq> 0" using 1(4) \<open>s < length line \<and> _\<close> by (metis nth_mem)
      then show ?thesis using True \<open>s < length line \<and> _\<close> by (auto simp: wordc_def at_def)
    qed (use 1 True e in auto)
  next
    case False
    then have "skip_word line s = s" by (subst skip_word.simps) auto
    then show ?thesis using 1 by simp
  qed
qed

text \<open>What a call of \<^verbatim>\<open>gettoken\<close> finds.\<close>

lemma gettoken_le:
  assumes "s \<le> length line" "gettoken line s = (t, q, e, s')"
  shows "s \<le> q" "q \<le> e" "e \<le> s'" "s' \<le> length line" "t \<noteq> 0 \<Longrightarrow> s < s'" "t = 97 \<Longrightarrow> q < e"
    "t = 97 \<Longrightarrow> at line q \<notin> set symbols" "t = 97 \<Longrightarrow> e = skip_word line q"
proof -
  have q: "q = skip_ws line s" and s': "s' = skip_ws line e" using assms(2) by (auto simp: gettoken_def Let_def split: if_splits prod.splits)
  have ql: "q \<le> length line" using skip_ws_le [OF assms(1)] q by simp
  have nw: "at line q \<notin> set whitespace" unfolding q by (rule skip_ws_stop)
  have sy: "set symbols = {124, 40, 41, 59, 38, 60, 62}" by (auto simp: symbols_def)
  have w: "q < skip_word line q" if "at line q \<noteq> 0" "at line q \<notin> set symbols"
  proof -
    have "skip_word line q = skip_word line (Suc q)" using that at_less [OF that(1)] nw by (subst skip_word.simps) simp
    then show ?thesis using skip_word_ge [of "Suc q" line] by simp
  qed
  have e: "q \<le> e \<and> e \<le> length line \<and> (t \<noteq> 0 \<longrightarrow> q < e) \<and> (t = 97 \<longrightarrow> at line q \<notin> set symbols \<and> e = skip_word line q)"
    using assms(2) w at_less [of line q] at_less [of line "Suc q"] skip_word_le [OF ql] ql unfolding q [symmetric] sy
    by (auto simp: gettoken_def Let_def q [symmetric] split: if_splits)
  show "s \<le> q" unfolding q by (rule skip_ws_ge)
  moreover show "e \<le> s'" unfolding s' by (rule skip_ws_ge)
  ultimately show "t \<noteq> 0 \<Longrightarrow> s < s'" using e by auto
  show "s' \<le> length line" unfolding s' using skip_ws_le e by blast
  show "q \<le> e" "t = 97 \<Longrightarrow> q < e" "t = 97 \<Longrightarrow> at line q \<notin> set symbols" "t = 97 \<Longrightarrow> e = skip_word line q" using e by auto
qed

lemma peek_le:
  assumes "s \<le> length line" "peek line toks s = (b, s')"
  shows "s \<le> s'" "s' \<le> length line" "b \<Longrightarrow> s' < length line"
  using assms skip_ws_ge [of s line] skip_ws_le [OF assms(1)] at_less by (auto simp: peek_def Let_def)

text \<open>A token that \<^verbatim>\<open>peek\<close> has seen is there.\<close>

lemma skip_ws_id: "at line s \<notin> set whitespace \<Longrightarrow> skip_ws line s = s"
  by (subst skip_ws.simps) simp

lemma peek_gettoken:
  assumes "s \<le> length line" "peek line toks s = (True, s1)" "gettoken line s1 = (t, q, e, s')" 
  shows "s1 < s'" "s' \<le> length line"
proof -
  have s1: "s1 = skip_ws line s" "at line s1 \<noteq> 0" using assms(2) by (auto simp: peek_def Let_def)
  have "skip_ws line s1 = s1" using skip_ws_id skip_ws_stop s1(1) by metis
  then have "t \<noteq> 0" using assms(3) s1(2) by (auto simp: gettoken_def Let_def split: if_splits)
  moreover have "s1 \<le> length line" using at_less [OF s1(2)] by simp
  ultimately show "s1 < s'" "s' \<le> length line" using gettoken_le [OF _ assms(3)] by auto
qed

lemma peek_gettoken_measure:
  assumes "peek line toks s = (True, s1)" "gettoken line s1 = (t, q, e, s')"
  shows "length line - s' < length line - s" "s' \<le> length line"
proof -
  have "s1 < length line" "s \<le> s1" using assms(1) at_less skip_ws_ge by (auto simp: peek_def Let_def)
  moreover from this have "s \<le> length line" by simp
  ultimately show "length line - s' < length line - s" "s' \<le> length line" using peek_gettoken [OF _ assms] by simp_all
qed

lemma redirs_measure:
  assumes "(True, s1) = peek line toks s" "(tok, q, e, s2) = gettoken line s1" "(t, q2, e2, s3) = gettoken line s2"
  shows "length line - s3 < length line - s"
proof -
  note m = peek_gettoken_measure [OF assms(1,2) [symmetric]]
  have "s2 \<le> s3" using gettoken_le [OF m(2) assms(3) [symmetric]] by simp
  then show ?thesis using m(1) by simp
qed

section \<open>Parsing\<close>

text \<open>\<^verbatim>\<open>parseredirs\<close>: the command and the position behind the redirections.\<close>

function parseredirs :: "u8 list \<Rightarrow> cmd \<Rightarrow> nat \<Rightarrow> (cmd \<times> nat) res" where
  "parseredirs line cmd s =
     (let (more, s) = peek line [60, 62] s
      in if \<not> more then Ok (cmd, s)
         else
           let (tok, _, _, s) = gettoken line s;
               (t, q, eq, s) = gettoken line s
           in if t \<noteq> 97 then Panic ''missing file for redirection''
              else
                let cmd = (if tok = 60 then REDIR cmd (q, eq) O_RDONLY 0
                           else if tok = 62 then REDIR cmd (q, eq) (O_WRONLY + O_CREATE + O_TRUNC) 1
                           else if tok = 43 then REDIR cmd (q, eq) (O_WRONLY + O_CREATE) 1
                           else cmd)
                in parseredirs line cmd s)"
  by auto
termination
  by (relation "measure (\<lambda>(line, cmd, s). length line - s)") (auto intro: redirs_measure)

declare parseredirs.simps [simp del]

text \<open>\<^verbatim>\<open>cmd\<close> in \<^verbatim>\<open>parseexec\<close> points at the EXEC node below the redirections read so far.\<close>

fun add_arg :: "'w \<Rightarrow> 'w command \<Rightarrow> 'w command" where
  "add_arg a (EXEC as) = EXEC (as @ [a])"
| "add_arg a (REDIR c f m fd) = REDIR (add_arg a c) f m fd"
| "add_arg a c = c"

lemma parseredirs_ge: "parseredirs line c s = Ok (c', s') \<Longrightarrow> s \<le> s'" 
proof (induction line c s rule: parseredirs.induct)
  case (1 line c s)
  obtain more s1 where p: "peek line [60, 62] s = (more, s1)" by fastforce
  obtain tok q e s2 where g: "gettoken line s1 = (tok, q, e, s2)" by (metis prod_cases4)
  obtain t q2 e2 s3 where g2: "gettoken line s2 = (t, q2, e2, s3)" by (metis prod_cases4)
  have s1: "s \<le> s1" using p skip_ws_ge by (auto simp: peek_def Let_def)
  show ?case
  proof (cases more)
    case False
    then show ?thesis using 1(2) p s1 by (simp add: parseredirs.simps [of line c s])
  next
    case True
    then have "s1 < length line" using p at_less by (auto simp: peek_def Let_def)
    then have "s1 \<le> s2" "s2 \<le> s3" using gettoken_le [OF _ g] gettoken_le [OF _ g2] by auto
    moreover have "s3 \<le> s'" using 1(2) 1(1) [OF p [symmetric] refl _ g [symmetric] refl refl refl g2 [symmetric] refl refl refl] True p g g2
      by (auto simp: parseredirs.simps [of line c s] Let_def split: if_splits)
    ultimately show ?thesis using s1 by simp
  qed
qed

lemma exec_measure:
  assumes "(False, s1) = peek line toks s" "(97, q, e, s2) = gettoken line s1" "parseredirs line c' s2 = Ok (c, s3)"
  shows "length line - s3 < length line - s"
proof -
  have s1: "s1 = skip_ws line s" using assms(1) by (simp add: peek_def Let_def)
  have "skip_ws line s1 = s1" using skip_ws_id skip_ws_stop s1 by metis
  then have "at line s1 \<noteq> 0" using assms(2) by (auto simp: gettoken_def Let_def split: if_splits)
  then have "s1 < length line" by (rule at_less)
  moreover have "s \<le> s1" unfolding s1 by (rule skip_ws_ge)
  moreover have "s1 < s2" using gettoken_le(5) [OF _ assms(2) [symmetric]] \<open>s1 < length line\<close> by simp
  moreover have "s2 \<le> s3" using parseredirs_ge assms(3) by metis
  ultimately show ?thesis by simp
qed

function exec_loop :: "u8 list \<Rightarrow> cmd \<Rightarrow> nat \<Rightarrow> nat \<Rightarrow> (cmd \<times> nat) res" where
  "exec_loop line ret argc s =
     (let (stop, s) = peek line [124, 41, 38, 59] s
      in if stop then Ok (ret, s)
         else
           let (tok, q, eq, s) = gettoken line s
           in if tok = 0 then Ok (ret, s)
              else if tok \<noteq> 97 then Panic ''syntax''
              else if MAXARGS \<le> Suc argc then Panic ''too many args''
              else
                (case parseredirs line (add_arg (q, eq) ret) s of
                   Ok (ret, s) \<Rightarrow> exec_loop line ret (Suc argc) s
                 | Panic m \<Rightarrow> Panic m
                 | Sleeps \<Rightarrow> Sleeps))"
  by auto
termination
  by (relation "measure (\<lambda>(line, ret, argc, s). length line - s)") (auto intro: exec_measure)

function back_loop :: "u8 list \<Rightarrow> cmd \<Rightarrow> nat \<Rightarrow> cmd \<times> nat" where
  "back_loop line cmd s =
     (let (more, s) = peek line [38] s
      in if more then let (_, _, _, s) = gettoken line s in back_loop line (BACK cmd) s else (cmd, s))"
  by auto
termination
  by (relation "measure (\<lambda>(line, cmd, s). length line - s)") (auto dest!: sym [of "(True, _)"] sym [of "(_, _, _, _)"] intro: peek_gettoken_measure(1))

declare exec_loop.simps [simp del] back_loop.simps [simp del]

text \<open>
  The four functions call one another; the first argument bounds the depth of the calls, and
  \<open>None\<close> means that it was too small.
\<close>

fun parseline :: "nat \<Rightarrow> u8 list \<Rightarrow> nat \<Rightarrow> (cmd \<times> nat) res option"
and parsepipe :: "nat \<Rightarrow> u8 list \<Rightarrow> nat \<Rightarrow> (cmd \<times> nat) res option"
and parseexec :: "nat \<Rightarrow> u8 list \<Rightarrow> nat \<Rightarrow> (cmd \<times> nat) res option"
and parseblock :: "nat \<Rightarrow> u8 list \<Rightarrow> nat \<Rightarrow> (cmd \<times> nat) res option" where
  "parseline 0 line s = None"
| "parseline (Suc n) line s =
     bind_ro (parsepipe n line s) (\<lambda>(cmd, s).
     let (cmd, s) = back_loop line cmd s;
         (more, s) = peek line [59] s
     in if more then
          let (_, _, _, s) = gettoken line s
          in bind_ro (parseline n line s) (\<lambda>(right, s). Some (Ok (LIST cmd right, s)))
        else Some (Ok (cmd, s)))"
| "parsepipe 0 line s = None"
| "parsepipe (Suc n) line s =
     bind_ro (parseexec n line s) (\<lambda>(cmd, s).
     let (more, s) = peek line [124] s
     in if more then
          let (_, _, _, s) = gettoken line s
          in bind_ro (parsepipe n line s) (\<lambda>(right, s). Some (Ok (PIPE cmd right, s)))
        else Some (Ok (cmd, s)))"
| "parseexec 0 line s = None"
| "parseexec (Suc n) line s =
     (let (block, s) = peek line [40] s
      in if block then parseblock n line s
         else bind_ro (Some (parseredirs line (EXEC []) s)) (\<lambda>(ret, s). Some (exec_loop line ret 0 s)))"
| "parseblock 0 line s = None"
| "parseblock (Suc n) line s =
     (let (open', s) = peek line [40] s
      in if \<not> open' then Some (Panic ''parseblock'')
         else
           let (_, _, _, s) = gettoken line s
           in bind_ro (parseline n line s) (\<lambda>(cmd, s).
              let (close', s) = peek line [41] s
              in if \<not> close' then Some (Panic ''syntax - missing )'')
                 else let (_, _, _, s) = gettoken line s in Some (parseredirs line cmd s)))"

text \<open>Enough for every line: \<open>parsecmd_total\<close> below.\<close>

definition depth :: "u8 list \<Rightarrow> nat" where
  "depth line = 4 * length line + 4"

fun nulterminate :: "cmd \<Rightarrow> u8 list \<Rightarrow> u8 list" where
  "nulterminate (EXEC as) buf = fold (\<lambda>(q, eq) buf. buf[eq := 0]) as buf"
| "nulterminate (REDIR c (q, eq) m fd) buf = (nulterminate c buf)[eq := 0]"
| "nulterminate (PIPE l r) buf = nulterminate r (nulterminate l buf)"
| "nulterminate (LIST l r) buf = nulterminate r (nulterminate l buf)"
| "nulterminate (BACK c) buf = nulterminate c buf"

text \<open>\<^verbatim>\<open>parsecmd\<close>: the command, and the line with the NUL bytes put in.\<close>

definition parsecmd :: "u8 list \<Rightarrow> (cmd \<times> u8 list) res option" where
  "parsecmd line =
     bind_ro (parseline (depth line) line 0) (\<lambda>(cmd, s).
     let (_, s) = peek line [] s
     in if s \<noteq> length line then Some (Panic ''syntax'')
        else Some (Ok (cmd, nulterminate cmd (line @ [0]))))"

end
