(* ===== verification/Sh_Parse.thy ===== *)
theory Sh_Parse
  imports Sh
begin

text \<open>
  The shell's parser returns on every line, the tokens it hands out are words of the line, and the NUL
  bytes that \<^verbatim>\<open>nulterminate\<close> writes cut off each of them at its end and damage none.
\<close>

section \<open>Tokens of a command\<close>

fun toks :: "cmd \<Rightarrow> (nat \<times> nat) list" where
  "toks (EXEC as) = as"
| "toks (REDIR c f m fd) = toks c @ [f]"
| "toks (PIPE l r) = toks l @ toks r"
| "toks (LIST l r) = toks l @ toks r"
| "toks (BACK c) = toks c"

text \<open>Redirections are of descriptor 0 or 1.\<close>

fun std_redirs :: "'w command \<Rightarrow> bool" where
  "std_redirs (EXEC as) = True"
| "std_redirs (REDIR c f m fd) \<longleftrightarrow> (fd = 0 \<or> fd = 1) \<and> std_redirs c"
| "std_redirs (PIPE l r) \<longleftrightarrow> std_redirs l \<and> std_redirs r"
| "std_redirs (LIST l r) \<longleftrightarrow> std_redirs l \<and> std_redirs r"
| "std_redirs (BACK c) \<longleftrightarrow> std_redirs c"

definition tok_ok :: "u8 list \<Rightarrow> nat \<times> nat \<Rightarrow> bool" where
  "tok_ok line t \<longleftrightarrow> (case t of (q, e) \<Rightarrow> q < e \<and> e \<le> length line \<and> (\<forall>i. q \<le> i \<and> i < e \<longrightarrow> wordc (line ! i)) \<and>
     (e < length line \<longrightarrow> \<not> wordc (line ! e)))"

definition messages :: "string set" where
  "messages = {''syntax'', ''too many args'', ''missing file for redirection'', ''syntax - missing )''}"

definition good :: "u8 list \<Rightarrow> nat \<Rightarrow> (cmd \<times> nat) res \<Rightarrow> bool" where
  "good line s r \<longleftrightarrow> (case r of Ok (c, s') \<Rightarrow> s \<le> s' \<and> s' \<le> length line \<and> (\<forall>t \<in> set (toks c). tok_ok line t) \<and> std_redirs c
     | Panic m \<Rightarrow> m \<in> messages | Sleeps \<Rightarrow> False)"

lemma good_simps [simp]:
  "good line s (Ok (c, s')) \<longleftrightarrow> s \<le> s' \<and> s' \<le> length line \<and> (\<forall>t \<in> set (toks c). tok_ok line t) \<and> std_redirs c"
  "good line s (Panic m) \<longleftrightarrow> m \<in> messages" "\<not> good line s Sleeps"
  by (simp_all add: good_def)

lemma messages_in [simp]:
  "''syntax'' \<in> messages" "''too many args'' \<in> messages" "''missing file for redirection'' \<in> messages"
  "''syntax - missing )'' \<in> messages"
  by (simp_all add: messages_def)

lemma good_mono: "good line s1 r \<Longrightarrow> s \<le> s1 \<Longrightarrow> good line s r"
  by (auto simp: good_def split: res.splits)

lemma gettoken_tok:
  assumes "s \<le> length line" "gettoken line s = (97, q, e, s')" "0 \<notin> set line"
  shows "tok_ok line (q, e)"
proof -
  note g = gettoken_le [OF assms(1,2)]
  have e: "e = skip_word line q" "e \<le> length line" using g by auto
  have "wordc (line ! i)" if "q \<le> i" "i < e" for i
    using skip_word_word [OF that(1) _ assms(3)] that e by (simp add: at_def)
  moreover have "\<not> wordc (line ! e)" if "e < length line" using skip_word_stop [of line q] e(1) that by (simp add: at_def)
  ultimately show ?thesis using g e by (simp add: tok_ok_def)
qed

lemma std_redirs_add_arg [simp]: "std_redirs (add_arg a c) = std_redirs c"
  by (induction a c rule: add_arg.induct) auto

lemma toks_add_arg: "t \<in> set (toks (add_arg a c)) \<Longrightarrow> t = a \<or> t \<in> set (toks c)"
  by (induction a c rule: add_arg.induct) auto

lemma parseredirs_good:
  assumes "s \<le> length line" "0 \<notin> set line" "\<forall>t \<in> set (toks c). tok_ok line t" "std_redirs c"
  shows "good line s (parseredirs line c s)"
  using assms
proof (induction line c s rule: parseredirs.induct)
  case (1 line c s)
  obtain more s1 where p: "peek line [60, 62] s = (more, s1)" by fastforce
  obtain tok q e s2 where g: "gettoken line s1 = (tok, q, e, s2)" by (metis prod_cases4)
  obtain t q2 e2 s3 where g2: "gettoken line s2 = (t, q2, e2, s3)" by (metis prod_cases4)
  note le = peek_le [OF 1(2) p]
  have l2: "s1 \<le> s2" "s2 \<le> length line" "s2 \<le> s3" "s3 \<le> length line"
    using gettoken_le [OF le(2) g] gettoken_le [OF _ g2] by auto
  show ?case
  proof (cases "more \<and> t = 97")
    case False
    then show ?thesis using 1(2-5) p g g2 le by (auto simp: parseredirs.simps [of line c s])
  next
    case True
    define c' where "c' = (if tok = 60 then REDIR c (q2, e2) O_RDONLY 0
      else if tok = 62 then REDIR c (q2, e2) (O_WRONLY + O_CREATE + O_TRUNC) 1
      else if tok = 43 then REDIR c (q2, e2) (O_WRONLY + O_CREATE) 1 else c)"
    have e: "parseredirs line c s = parseredirs line c' s3"
      using True p g g2 by (simp add: parseredirs.simps [of line c s] c'_def)
    have "tok_ok line (q2, e2)" using gettoken_tok [of s2] g2 True l2(2) 1(3) by simp
    then have "\<forall>t \<in> set (toks c'). tok_ok line t" using 1(4) by (auto simp: c'_def)
    then have "good line s3 (parseredirs line c' s3)"
      using 1(1) [OF p [symmetric] refl _ g [symmetric] refl refl refl g2 [symmetric] refl refl refl _ _ l2(4) 1(3), of c'] True 1(5)
      by (simp add: c'_def)
    then show ?thesis unfolding e by (rule good_mono) (use le l2 in simp)
  qed
qed

lemma exec_loop_good:
  assumes "s \<le> length line" "0 \<notin> set line" "\<forall>t \<in> set (toks c). tok_ok line t" "std_redirs c"
  shows "good line s (exec_loop line c n s)"
  using assms
proof (induction line c n s rule: exec_loop.induct)
  case (1 line c n s)
  obtain stop s1 where p: "peek line [124, 41, 38, 59] s = (stop, s1)" by fastforce
  obtain tok q e s2 where g: "gettoken line s1 = (tok, q, e, s2)" by (metis prod_cases4)
  note le = peek_le [OF 1(2) p]
  note gl = gettoken_le [OF le(2) g]
  show ?case
  proof (cases "\<not> stop \<and> tok = 97 \<and> \<not> MAXARGS \<le> Suc n")
    case False
    then show ?thesis using 1(2-5) p g le gl by (auto simp: exec_loop.simps [of line c n s])
  next
    case True
    have tk: "\<forall>t \<in> set (toks (add_arg (q, e) c)). tok_ok line t"
      using toks_add_arg gettoken_tok [of s1 line q e s2] g True le(2) 1(3,4) by blast
    have r: "good line s2 (parseredirs line (add_arg (q, e) c) s2)" by (rule parseredirs_good [OF gl(4) 1(3) tk]) (use 1(5) in simp)
    show ?thesis
    proof (cases "parseredirs line (add_arg (q, e) c) s2")
      case (Ok x)
      obtain c' s3 where x: "x = (c', s3)" by fastforce
      have "good line s3 (exec_loop line c' (Suc n) s3)"
        using 1(1) [OF p [symmetric] refl _ g [symmetric] refl refl refl _ _ _ Ok x [symmetric]] True r Ok x 1(3) by simp
      then have "good line s (exec_loop line c' (Suc n) s3)" by (rule good_mono) (use r Ok x le gl in simp)
      then show ?thesis using True p g Ok x by (simp add: exec_loop.simps [of line c n s])
    qed (use r True p g in \<open>simp_all add: exec_loop.simps [of line c n s]\<close>)
  qed
qed

lemma back_loop_good:
  assumes "s \<le> length line" "\<forall>t \<in> set (toks c). tok_ok line t" "std_redirs c"
  shows "good line s (Ok (back_loop line c s))"
  using assms
proof (induction line c s rule: back_loop.induct)
  case (1 line c s)
  obtain more s1 where p: "peek line [38] s = (more, s1)" by fastforce
  obtain tok q e s2 where g: "gettoken line s1 = (tok, q, e, s2)" by (metis prod_cases4)
  note le = peek_le [OF 1(2) p]
  have s2: "s1 \<le> s2" "s2 \<le> length line" using gettoken_le [OF le(2) g] by auto
  show ?case
  proof (cases more)
    case True
    then have "good line s2 (Ok (back_loop line (BACK c) s2))"
      using 1(1) [OF p [symmetric] refl _ g [symmetric] refl refl refl] s2 1(3,4) by simp
    then have "good line s (Ok (back_loop line (BACK c) s2))" by (rule good_mono) (use le s2 in simp)
    then show ?thesis using True p g by (simp add: back_loop.simps [of line c s])
  qed (use p le 1(3,4) in \<open>simp add: back_loop.simps [of line c s]\<close>)
qed

section \<open>The parser returns\<close>

lemma bind_ro_good:
  assumes "x = Some r" "good line s r" "\<And>c s'. r = Ok (c, s') \<Longrightarrow> \<exists>r'. f (c, s') = Some r' \<and> good line s r'"
  shows "\<exists>r'. bind_ro x f = Some r' \<and> good line s r'"
  using assms by (cases r) auto

text \<open>What the four functions return when they have depth enough.\<close>

lemma parseexec_step:
  assumes "s \<le> length line" "0 \<notin> set line" "4 * (length line - s) + 2 \<le> Suc n"
    and blk: "\<And>s. s \<le> length line \<Longrightarrow> at line s = 40 \<Longrightarrow> 4 * (length line - s) + 1 \<le> n \<Longrightarrow> \<exists>r. parseblock n line s = Some r \<and> good line s r"
  shows "\<exists>r. parseexec (Suc n) line s = Some r \<and> good line s r"
proof -
  obtain b s1 where p: "peek line [40] s = (b, s1)" by fastforce
  note le = peek_le [OF assms(1) p]
  show ?thesis
  proof (cases b)
    case True
    have "\<exists>r. parseblock n line s1 = Some r \<and> good line s1 r" by (rule blk [OF le(2)]) (use assms(3) le True p in \<open>auto simp: peek_def Let_def\<close>)
    then show ?thesis using True p le(1) by (auto intro: good_mono)
  next
    case False
    have r: "good line s1 (parseredirs line (EXEC []) s1)" by (rule parseredirs_good [OF le(2) assms(2)]) simp_all
    show ?thesis
    proof (cases "parseredirs line (EXEC []) s1")
      case (Ok x)
      obtain c s2 where x: "x = (c, s2)" by fastforce
      have "good line s2 (exec_loop line c 0 s2)" by (rule exec_loop_good) (use r Ok x assms(2) in auto)
      then have "good line s (exec_loop line c 0 s2)" by (rule good_mono) (use r Ok x le in simp)
      then show ?thesis using False p Ok x by simp
    qed (use r False p in auto)
  qed
qed

lemma parsepipe_step:
  assumes "s \<le> length line" "4 * (length line - s) + 3 \<le> Suc n"
    and exe: "\<And>s. s \<le> length line \<Longrightarrow> 4 * (length line - s) + 2 \<le> n \<Longrightarrow> \<exists>r. parseexec n line s = Some r \<and> good line s r"
    and pip: "\<And>s. s \<le> length line \<Longrightarrow> 4 * (length line - s) + 3 \<le> n \<Longrightarrow> \<exists>r. parsepipe n line s = Some r \<and> good line s r"
  shows "\<exists>r. parsepipe (Suc n) line s = Some r \<and> good line s r"
proof -
  obtain r where r: "parseexec n line s = Some r" "good line s r" using exe [OF assms(1)] assms(2) by auto
  show ?thesis unfolding parsepipe.simps
  proof (rule bind_ro_good [OF r])
    fix c s' assume ok: "r = Ok (c, s')"
    obtain b s1 where p: "peek line [124] s' = (b, s1)" by fastforce
    obtain tok q e s2 where g: "gettoken line s1 = (tok, q, e, s2)" by (metis prod_cases4)
    have s': "s \<le> s'" "s' \<le> length line" using r(2) ok by auto
    note le = peek_le [OF s'(2) p]
    show "\<exists>r'. (case (c, s') of (cmd, s) \<Rightarrow> let (more, s) = peek line [124] s in if more then
        let (_, _, _, s) = gettoken line s in bind_ro (parsepipe n line s) (\<lambda>(right, s). Some (Ok (PIPE cmd right, s)))
        else Some (Ok (cmd, s))) = Some r' \<and> good line s r'"
    proof (cases b)
      case True
      have m: "s1 < s2" "s2 \<le> length line" using peek_gettoken [OF s'(2) _ g] p True by auto
      have "4 * (length line - s2) + 4 \<le> 4 * (length line - s)" using m le s' by arith
      then obtain r2 where r2: "parsepipe n line s2 = Some r2" "good line s2 r2" using pip [OF m(2)] assms(2) by fastforce
      then show ?thesis using True p g ok r(2) m le s' by (cases r2) auto
    qed (use p le ok r(2) in auto)
  qed
qed

lemma parseline_step:
  assumes "s \<le> length line" "4 * (length line - s) + 4 \<le> Suc n"
    and pip: "\<And>s. s \<le> length line \<Longrightarrow> 4 * (length line - s) + 3 \<le> n \<Longrightarrow> \<exists>r. parsepipe n line s = Some r \<and> good line s r"
    and lin: "\<And>s. s \<le> length line \<Longrightarrow> 4 * (length line - s) + 4 \<le> n \<Longrightarrow> \<exists>r. parseline n line s = Some r \<and> good line s r"
  shows "\<exists>r. parseline (Suc n) line s = Some r \<and> good line s r"
proof -
  obtain r where r: "parsepipe n line s = Some r" "good line s r" using pip [OF assms(1)] assms(2) by auto
  show ?thesis unfolding parseline.simps
  proof (rule bind_ro_good [OF r])
    fix c0 s0 assume ok: "r = Ok (c0, s0)"
    obtain c s' where bl: "back_loop line c0 s0 = (c, s')" by fastforce
    obtain b s1 where p: "peek line [59] s' = (b, s1)" by fastforce
    obtain tok q e s2 where g: "gettoken line s1 = (tok, q, e, s2)" by (metis prod_cases4)
    have "good line s0 (Ok (c, s'))" using back_loop_good [of s0 line c0] r(2) ok bl by simp
    then have gd: "good line s (Ok (c, s'))" by (rule good_mono) (use r(2) ok in simp)
    then have s': "s \<le> s'" "s' \<le> length line" by auto
    note le = peek_le [OF s'(2) p]
    show "\<exists>r'. (case (c0, s0) of (cmd, s) \<Rightarrow> let (cmd, s) = back_loop line cmd s; (more, s) = peek line [59] s in if more then
        let (_, _, _, s) = gettoken line s in bind_ro (parseline n line s) (\<lambda>(right, s). Some (Ok (LIST cmd right, s)))
        else Some (Ok (cmd, s))) = Some r' \<and> good line s r'"
    proof (cases b)
      case True
      have m: "s1 < s2" "s2 \<le> length line" using peek_gettoken [OF s'(2) _ g] p True by auto
      have "4 * (length line - s2) + 4 \<le> 4 * (length line - s)" using m le s' by arith
      then obtain r2 where r2: "parseline n line s2 = Some r2" "good line s2 r2" using lin [OF m(2)] assms(2) by fastforce
      then show ?thesis using True p g bl gd m le s' by (cases r2) auto
    qed (use p le bl gd in auto)
  qed
qed

lemma parseblock_step:
  assumes "s \<le> length line" "0 \<notin> set line" "at line s = 40" "4 * (length line - s) + 1 \<le> Suc n"
    and lin: "\<And>s. s \<le> length line \<Longrightarrow> 4 * (length line - s) + 4 \<le> n \<Longrightarrow> \<exists>r. parseline n line s = Some r \<and> good line s r"
  shows "\<exists>r. parseblock (Suc n) line s = Some r \<and> good line s r"
proof -
  obtain b s1 where p: "peek line [40] s = (b, s1)" by fastforce
  obtain tok q e s2 where g: "gettoken line s1 = (tok, q, e, s2)" by (metis prod_cases4)
  note le = peek_le [OF assms(1) p]
  show ?thesis
  proof (cases b)
    case True
    have m: "s1 < s2" "s2 \<le> length line" using peek_gettoken [OF assms(1) _ g] p True by auto
    have "4 * (length line - s2) + 4 \<le> 4 * (length line - s)" using m le by arith
    then obtain r where r: "parseline n line s2 = Some r" "good line s2 r" using lin [OF m(2)] assms(4) by fastforce
    have rs: "good line s r" using r(2) by (rule good_mono) (use m le in simp)
    have fin: "\<exists>r'. (let (close', s) = peek line [41] s' in if \<not> close' then Some (Panic ''syntax - missing )'')
        else let (_, _, _, s) = gettoken line s in Some (parseredirs line c s)) = Some r' \<and> good line s r'"
      if ok: "r = Ok (c, s')" for c s'
    proof -
      obtain b' s3 where p2: "peek line [41] s' = (b', s3)" by fastforce
      obtain tok' q' e' s4 where g2: "gettoken line s3 = (tok', q', e', s4)" by (metis prod_cases4)
      have s': "s' \<le> length line" "s \<le> s'" using rs ok by auto
      note le2 = peek_le [OF s'(1) p2]
      have l4: "s3 \<le> s4" "s4 \<le> length line" using gettoken_le [OF le2(2) g2] by auto
      have "good line s4 (parseredirs line c s4)" by (rule parseredirs_good [OF l4(2) assms(2)]) (use rs ok in auto)
      then have "good line s (parseredirs line c s4)" by (rule good_mono) (use l4 le2 s' in simp)
      then show ?thesis using p2 g2 by auto
    qed
    show ?thesis using bind_ro_good [OF r(1) rs, of "\<lambda>(cmd, s). let (close', s) = peek line [41] s
         in if \<not> close' then Some (Panic ''syntax - missing )'') else let (_, _, _, s) = gettoken line s in Some (parseredirs line cmd s)"]
        True p g fin by simp
  next
    case False
    have "skip_ws line s = s" by (rule skip_ws_id) (simp add: assms(3) whitespace_def)
    then show ?thesis using False p assms(3) by (simp add: peek_def Let_def)
  qed
qed

lemma parse_good:
  assumes "0 \<notin> set line"
  shows "s \<le> length line \<Longrightarrow> 4 * (length line - s) + 4 \<le> n \<Longrightarrow> \<exists>r. parseline n line s = Some r \<and> good line s r"
    and "s \<le> length line \<Longrightarrow> 4 * (length line - s) + 3 \<le> n \<Longrightarrow> \<exists>r. parsepipe n line s = Some r \<and> good line s r"
    and "s \<le> length line \<Longrightarrow> 4 * (length line - s) + 2 \<le> n \<Longrightarrow> \<exists>r. parseexec n line s = Some r \<and> good line s r"
    and "s \<le> length line \<Longrightarrow> at line s = 40 \<Longrightarrow> 4 * (length line - s) + 1 \<le> n \<Longrightarrow> \<exists>r. parseblock n line s = Some r \<and> good line s r"
proof (induction n arbitrary: s)
  case (Suc n)
  {
    case 1
    then show ?case by (rule parseline_step) (fact Suc.IH(2), fact Suc.IH(1))
  next
    case 2
    then show ?case by (rule parsepipe_step) (fact Suc.IH(3), fact Suc.IH(2))
  next
    case 3
    then show ?case by (rule parseexec_step [OF _ assms]) (fact Suc.IH(4))
  next
    case 4
    then show ?case by (rule parseblock_step [OF _ assms]) (fact Suc.IH(1))
  }
qed simp_all

section \<open>The words of the line\<close>

lemma length_fold_nul [simp]: "length (fold (\<lambda>(q, e) buf. buf[e := 0]) as buf) = length buf"
  by (induction as arbitrary: buf) (auto split: prod.splits)

lemma fold_nul_nth:
  "i < length buf \<Longrightarrow> fold (\<lambda>(q, e) buf. buf[e := 0]) as buf ! i = (if i \<in> snd ` set as then 0 else buf ! i)"
  by (induction as arbitrary: buf) (auto simp: nth_list_update split: prod.splits)

lemma length_nulterminate [simp]: "length (nulterminate c buf) = length buf"
  by (induction c buf rule: nulterminate.induct) auto

lemma nulterminate_nth:
  "i < length buf \<Longrightarrow> nulterminate c buf ! i = (if i \<in> snd ` set (toks c) then 0 else buf ! i)"
proof (induction c buf rule: nulterminate.induct)
  case (2 c q e m fd buf)
  then show ?case by (cases "i = e") (auto simp: nth_list_update)
qed (auto simp: fold_nul_nth)

text \<open>The C string at a position of the buffer.\<close>

definition c_string :: "u8 list \<Rightarrow> nat \<Rightarrow> u8 list" where
  "c_string buf q = takeWhile (\<lambda>b. b \<noteq> 0) (drop q buf)"

lemma c_string_eqI:
  assumes "q \<le> e" "e < length buf" "buf ! e = 0" "\<And>i. q \<le> i \<Longrightarrow> i < e \<Longrightarrow> buf ! i \<noteq> 0"
  shows "c_string buf q = take (e - q) (drop q buf)"
  unfolding c_string_def
proof (rule takeWhile_eq_take_P_nth)
  fix i assume "i < e - q" "i < length (drop q buf)"
  then show "drop q buf ! i \<noteq> 0" using assms(4) [of "q + i"] by simp
next
  assume "e - q < length (drop q buf)"
  then show "\<not> drop q buf ! (e - q) \<noteq> 0" using assms by simp
qed

lemma parsecmd_good:
  assumes "0 \<notin> set line"
  shows "\<exists>r. parseline (depth line) line 0 = Some r \<and> good line 0 r"
  by (rule parse_good(1) [OF assms]) (auto simp: depth_def)

lemma parsecmd_cases:
  assumes "0 \<notin> set line"
  obtains (err) m where "m \<in> messages" "parsecmd line = Some (Panic m)"
  | (ok) c s where "parsecmd line = Some (Ok (c, nulterminate c (line @ [0])))" "parseline (depth line) line 0 = Some (Ok (c, s))"
      "\<forall>t \<in> set (toks c). tok_ok line t" "std_redirs c"
proof -
  obtain r where r: "parseline (depth line) line 0 = Some r" "good line 0 r" using parsecmd_good [OF assms] by auto
  show ?thesis
  proof (cases r)
    case (Ok x)
    obtain c s where x: "x = (c, s)" by fastforce
    obtain b s' where p: "peek line [] s = (b, s')" by fastforce
    show ?thesis
    proof (cases "s' = length line")
      case True
      then have "parsecmd line = Some (Ok (c, nulterminate c (line @ [0])))" using Ok x p r by (simp add: parsecmd_def)
      then show ?thesis using ok r Ok x by simp
    next
      case False
      then have "parsecmd line = Some (Panic ''syntax'')" using Ok x p r by (simp add: parsecmd_def)
      then show ?thesis by (rule err [rotated]) simp
    qed
  next
    case (Panic m)
    then show ?thesis using err [of m] r by (simp add: parsecmd_def)
  qed (use r in simp)
qed

lemma tok_string:
  assumes c: "\<forall>t \<in> set (toks c). tok_ok line t" and t: "(q, e) \<in> set (toks c)"
  shows "c_string (nulterminate c (line @ [0])) q = take (e - q) (drop q line)"
proof -
  define buf where "buf = nulterminate c (line @ [0])"
  have l: "length buf = Suc (length line)" by (simp add: buf_def)
  have qe: "q < e" "e \<le> length line" and w: "\<And>i. q \<le> i \<Longrightarrow> i < e \<Longrightarrow> wordc (line ! i)"
    using c t by (auto simp: tok_ok_def)
  have keep: "buf ! i = line ! i" if "q \<le> i" "i < e" for i
  proof -
    have "i \<notin> snd ` set (toks c)" using c w [OF that] that qe by (auto simp: tok_ok_def)
    then show ?thesis using that qe by (simp add: buf_def nulterminate_nth nth_append)
  qed
  have nul: "buf ! e = 0" unfolding buf_def using t qe by (subst nulterminate_nth) (auto intro!: rev_image_eqI)
  have "c_string buf q = take (e - q) (drop q buf)"
    using nul keep w qe l by (intro c_string_eqI) (auto simp: wordc_def)
  also have "\<dots> = take (e - q) (drop q line)" using keep qe l by (intro nth_equalityI) auto
  finally show ?thesis by (simp add: buf_def)
qed

section \<open>Properties\<close>

text \<open>
  C35: The parser comes back from every input line, with a command or with one of its error messages:
  the depth of its recursion is bounded by the length of the line.
\<close>

theorem parsecmd_total:
  assumes "0 \<notin> set line"
  shows "(\<exists>c buf. parsecmd line = Some (Ok (c, buf))) \<or>
    parsecmd line \<in> {Some (Panic ''syntax''), Some (Panic ''too many args''), Some (Panic ''missing file for redirection''),
      Some (Panic ''syntax - missing )'')}"
  using assms by (cases line rule: parsecmd_cases) (auto simp: messages_def)

text \<open>
  C36: The strings that the shell hands to \<^verbatim>\<open>exec\<close> and \<^verbatim>\<open>open\<close>: after a successful parse the C string
  at the start of each argument and file name is the word of the input line that was read there, not
  empty and free of white space and of the shell's symbols; no NUL byte put in for one damages another.
\<close>

theorem parsecmd_strings:
  assumes "0 \<notin> set line" "parsecmd line = Some (Ok (c, buf))" "(q, e) \<in> set (toks c)"
  shows "c_string buf q = take (e - q) (drop q line) \<and> c_string buf q \<noteq> [] \<and> (\<forall>b \<in> set (c_string buf q). wordc b)"
proof -
  have buf: "buf = nulterminate c (line @ [0])" and ok: "\<forall>t \<in> set (toks c). tok_ok line t"
    using assms(2) by (cases rule: parsecmd_cases [OF assms(1)]; simp)+
  have "c_string buf q = take (e - q) (drop q line)" unfolding buf by (rule tok_string [OF ok assms(3)])
  moreover have "q < e" "e \<le> length line" and "\<forall>i. q \<le> i \<and> i < e \<longrightarrow> wordc (line ! i)"
    using ok assms(3) by (auto simp: tok_ok_def)
  ultimately show ?thesis by (auto simp: in_set_conv_nth)
qed

theorem parsecmd_total_witness:
  "(\<exists>c buf. parsecmd [40] = Some (Ok (c, buf))) \<or>
    parsecmd [40] \<in> {Some (Panic ''syntax''), Some (Panic ''too many args''), Some (Panic ''missing file for redirection''),
      Some (Panic ''syntax - missing )'')}"
  by (rule parsecmd_total) simp

text \<open>The line \<^verbatim>\<open>ls>f\<close>: the file name is where the parser says it is.\<close>

theorem parsecmd_strings_witness:
  "c_string [108, 115, 0, 102, 0] 3 = [102] \<and> wordc 102"
proof -
  have "parsecmd [108, 115, 62, 102] = Some (Ok (REDIR (EXEC [(0, 2)]) (3, 4) (O_WRONLY + O_CREATE + O_TRUNC) 1, [108, 115, 0, 102, 0]))"
    by code_simp
  from parsecmd_strings [OF _ this, of 3 4] show ?thesis by simp
qed

end
