(* ===== verification/Sh_Print.thy ===== *)
theory Sh_Print
  imports Sh_Parse
begin

text \<open>
  The grammar of the shell: the lines that its parser accepts written out as trees, printed with
  a space behind every token, and read back.
\<close>

section \<open>Lines as trees\<close>

datatype redirection = Input "u8 list" | Output "u8 list" | Append "u8 list"

datatype sline = Line spipe nat "sline option"
  and spipe = Pipe sexec "spipe option"
  and sexec = Simple "redirection list" "(u8 list \<times> redirection list) list" | Block sline "redirection list"

fun redir_word :: "redirection \<Rightarrow> u8 list" where
  "redir_word (Input w) = w"
| "redir_word (Output w) = w"
| "redir_word (Append w) = w"

definition word_ok :: "u8 list \<Rightarrow> bool" where
  "word_ok w \<longleftrightarrow> w \<noteq> [] \<and> list_all wordc w"

definition redirs_ok :: "redirection list \<Rightarrow> bool" where
  "redirs_ok rs \<longleftrightarrow> list_all (\<lambda>r. word_ok (redir_word r)) rs"

definition args_ok :: "(u8 list \<times> redirection list) list \<Rightarrow> bool" where
  "args_ok as \<longleftrightarrow> list_all (\<lambda>(w, rs). word_ok w \<and> redirs_ok rs) as"

fun line_ok :: "sline \<Rightarrow> bool" and pipe_ok :: "spipe \<Rightarrow> bool" and exec_ok :: "sexec \<Rightarrow> bool" where
  "line_ok (Line p n None) \<longleftrightarrow> pipe_ok p"
| "line_ok (Line p n (Some l)) \<longleftrightarrow> pipe_ok p \<and> line_ok l"
| "pipe_ok (Pipe x None) \<longleftrightarrow> exec_ok x"
| "pipe_ok (Pipe x (Some p)) \<longleftrightarrow> exec_ok x \<and> pipe_ok p"
| "exec_ok (Simple rs as) \<longleftrightarrow> redirs_ok rs \<and> args_ok as \<and> length as < MAXARGS"
| "exec_ok (Block l rs) \<longleftrightarrow> line_ok l \<and> redirs_ok rs"

text \<open>The bytes of a line.\<close>

fun pr_redir :: "redirection \<Rightarrow> u8 list" where
  "pr_redir (Input w) = 60 # 32 # w @ [32]"
| "pr_redir (Output w) = 62 # 32 # w @ [32]"
| "pr_redir (Append w) = 62 # 62 # 32 # w @ [32]"

definition pr_redirs :: "redirection list \<Rightarrow> u8 list" where
  "pr_redirs rs = concat (map pr_redir rs)"

definition pr_args :: "(u8 list \<times> redirection list) list \<Rightarrow> u8 list" where
  "pr_args as = concat (map (\<lambda>(w, rs). w @ 32 # pr_redirs rs) as)"

fun pr_ands :: "nat \<Rightarrow> u8 list" where
  "pr_ands 0 = []"
| "pr_ands (Suc n) = 38 # 32 # pr_ands n"

fun pr_line :: "sline \<Rightarrow> u8 list" and pr_pipe :: "spipe \<Rightarrow> u8 list" and pr_exec :: "sexec \<Rightarrow> u8 list" where
  "pr_line (Line p n None) = pr_pipe p @ pr_ands n"
| "pr_line (Line p n (Some l)) = pr_pipe p @ pr_ands n @ 59 # 32 # pr_line l"
| "pr_pipe (Pipe x None) = pr_exec x"
| "pr_pipe (Pipe x (Some p)) = pr_exec x @ 124 # 32 # pr_pipe p"
| "pr_exec (Simple rs as) = pr_redirs rs @ pr_args as"
| "pr_exec (Block l rs) = 40 # 32 # pr_line l @ 41 # 32 # pr_redirs rs"

text \<open>The command a line stands for.\<close>

fun wrap_redir :: "redirection \<Rightarrow> u8 list command \<Rightarrow> u8 list command" where
  "wrap_redir (Input w) c = REDIR c w O_RDONLY 0"
| "wrap_redir (Output w) c = REDIR c w (O_WRONLY + O_CREATE + O_TRUNC) 1"
| "wrap_redir (Append w) c = REDIR c w (O_WRONLY + O_CREATE) 1"

definition wrap_redirs :: "redirection list \<Rightarrow> u8 list command \<Rightarrow> u8 list command" where
  "wrap_redirs = fold wrap_redir"

fun line_cmd :: "sline \<Rightarrow> u8 list command" and pipe_cmd :: "spipe \<Rightarrow> u8 list command" and exec_cmd :: "sexec \<Rightarrow> u8 list command" where
  "line_cmd (Line p n None) = (BACK ^^ n) (pipe_cmd p)"
| "line_cmd (Line p n (Some l)) = LIST ((BACK ^^ n) (pipe_cmd p)) (line_cmd l)"
| "pipe_cmd (Pipe x None) = exec_cmd x"
| "pipe_cmd (Pipe x (Some p)) = PIPE (exec_cmd x) (pipe_cmd p)"
| "exec_cmd (Simple rs as) = wrap_redirs (rs @ concat (map snd as)) (EXEC (map fst as))"
| "exec_cmd (Block l rs) = wrap_redirs rs (line_cmd l)"

text \<open>The same command as the parser makes it, one argument and its redirections after the other.\<close>

definition wrap_args :: "(u8 list \<times> redirection list) list \<Rightarrow> u8 list command \<Rightarrow> u8 list command" where
  "wrap_args = fold (\<lambda>(w, rs) c. wrap_redirs rs (add_arg w c))"

lemma add_arg_redirs: "add_arg w (wrap_redirs rs (EXEC ws)) = wrap_redirs rs (EXEC (ws @ [w]))"
proof (induction rs rule: rev_induct)
  case (snoc r rs)
  then show ?case by (cases r) (simp_all add: wrap_redirs_def)
qed (simp add: wrap_redirs_def)

lemma wrap_args_exec [simp]: "wrap_args as (wrap_redirs rs (EXEC ws)) = wrap_redirs (rs @ concat (map snd as)) (EXEC (ws @ map fst as))"
proof (induction as arbitrary: rs ws)
  case (Cons a as)
  obtain w rs' where a: "a = (w, rs')" by fastforce
  have "wrap_args (a # as) (wrap_redirs rs (EXEC ws)) = wrap_args as (wrap_redirs rs' (add_arg w (wrap_redirs rs (EXEC ws))))"
    by (simp add: wrap_args_def a)
  also have "\<dots> = wrap_args as (wrap_redirs (rs @ rs') (EXEC (ws @ [w])))" unfolding add_arg_redirs by (simp add: wrap_redirs_def)
  also have "\<dots> = wrap_redirs ((rs @ rs') @ concat (map snd as)) (EXEC ((ws @ [w]) @ map fst as))" by (rule Cons.IH)
  finally show ?case by (simp add: a)
qed (simp add: wrap_args_def)

section \<open>Reading one token\<close>

definition clean :: "u8 list \<Rightarrow> bool" where
  "clean xs \<longleftrightarrow> xs = [] \<or> hd xs \<noteq> 0 \<and> hd xs \<notin> set whitespace"

definition follow :: "u8 set \<Rightarrow> u8 list \<Rightarrow> bool" where
  "follow F xs \<longleftrightarrow> xs = [] \<or> hd xs \<in> F"

lemma clean_simps [simp]: "clean []" "clean (c # xs) \<longleftrightarrow> c \<noteq> 0 \<and> c \<notin> set whitespace"
  by (simp_all add: clean_def)

lemma follow_simps [simp]: "follow F []" "follow F (c # xs) \<longleftrightarrow> c \<in> F"
  by (simp_all add: follow_def)

lemma follow_clean: "follow F xs \<Longrightarrow> F \<subseteq> set symbols \<Longrightarrow> clean xs"
  by (auto simp: follow_def clean_def symbols_def whitespace_def)

lemma at_drop: "at line s = (case drop s line of [] \<Rightarrow> 0 | c # _ \<Rightarrow> c)"
  by (auto simp: at_def Cons_nth_drop_Suc [symmetric])

lemma skip_ws_clean: "clean (drop s line) \<Longrightarrow> skip_ws line s = s"
  by (rule skip_ws_id) (auto simp: at_drop whitespace_def split: list.splits)

lemma skip_ws_space:
  assumes "drop s line = 32 # rest" "clean rest"
  shows "skip_ws line s = Suc s"
proof -
  have "drop (Suc s) line = rest" using assms(1) by (metis drop_Suc list.sel(3) tl_drop)
  moreover have "s < length line" using assms(1) by (metis drop_eq_Nil list.discI not_le)
  ultimately show ?thesis using assms skip_ws_clean [of "Suc s" line] by (subst skip_ws.simps) (simp add: at_drop whitespace_def)
qed

lemma drop_more: "drop s line = xs @ ys \<Longrightarrow> drop (s + length xs) line = ys"
  by (metis append_eq_conv_conj drop_drop add.commute)

lemma drop_next: "drop s line = x # ys \<Longrightarrow> drop (Suc s) line = ys"
  by (metis drop_Suc list.sel(3) tl_drop)

lemma drop_pos: "drop s line = x # ys \<Longrightarrow> s < length line \<and> line ! s = x"
  by (metis drop_eq_Nil list.discI not_le nth_via_drop)

lemma skip_word_words:
  assumes "drop s line = w @ 32 # rest" "list_all wordc w"
  shows "skip_word line s = s + length w"
  using assms
proof (induction w arbitrary: s)
  case Nil
  then show ?case by (subst skip_word.simps) (simp add: at_drop whitespace_def)
next
  case (Cons c w)
  have d: "drop s line = c # (w @ 32 # rest)" using Cons.prems(1) by simp
  show ?case using Cons.IH [OF drop_next [OF d]] Cons.prems(2) drop_pos [OF d]
    by (subst skip_word.simps) (simp add: wordc_def at_def)
qed

text \<open>The three kinds of token that the printer writes.\<close>

lemma gettoken_symbol:
  assumes "drop s line = c # 32 # rest" "c \<in> {124, 40, 41, 59, 38, 60, 62}" "clean rest"
  shows "gettoken line s = (c, s, Suc s, s + 2)"
proof -
  have "skip_ws line s = s" using assms by (intro skip_ws_clean) (auto simp: whitespace_def)
  moreover have "skip_ws line (Suc s) = s + 2" using skip_ws_space [OF drop_next [OF assms(1)] assms(3)] by simp
  moreover have "at line s = c" "at line (Suc s) = 32" using assms(1) drop_next [OF assms(1)] by (simp_all add: at_drop)
  ultimately show ?thesis using assms(2) by (auto simp: gettoken_def)
qed

lemma gettoken_append:
  assumes "drop s line = 62 # 62 # 32 # rest" "clean rest"
  shows "gettoken line s = (43, s, s + 2, s + 3)"
proof -
  have "skip_ws line s = s" using assms by (intro skip_ws_clean) (auto simp: whitespace_def)
  moreover have "skip_ws line (s + 2) = s + 3" using skip_ws_space [OF drop_next [OF drop_next [OF assms(1)]] assms(2)] by simp
  moreover have "at line s = 62" "at line (Suc s) = 62" using assms(1) drop_next [OF assms(1)] by (simp_all add: at_drop)
  ultimately show ?thesis by (simp add: gettoken_def)
qed

lemma word_not_symbol: "wordc c \<Longrightarrow> c \<notin> {124, 40, 41, 59, 38, 60, 62} \<and> c \<noteq> 0 \<and> c \<notin> set whitespace"
  by (auto simp: wordc_def symbols_def)

lemma gettoken_word:
  assumes "drop s line = w @ 32 # rest" "word_ok w" "clean rest"
  shows "gettoken line s = (97, s, s + length w, Suc (s + length w))"
proof -
  obtain c w' where w: "w = c # w'" "wordc c" using assms(2) by (cases w) (auto simp: word_ok_def)
  have "skip_ws line s = s" using assms w word_not_symbol [OF w(2)] by (intro skip_ws_clean) auto
  moreover have "skip_ws line (s + length w) = Suc (s + length w)" by (rule skip_ws_space [OF drop_more [OF assms(1)] assms(3)])
  moreover have "at line s = c" using assms(1) w by (simp add: at_drop)
  moreover have "skip_word line s = s + length w" using skip_word_words assms by (simp add: word_ok_def)
  ultimately show ?thesis using word_not_symbol [OF w(2)] by (simp add: gettoken_def)
qed

lemma peek_clean:
  assumes "clean (drop s line)"
  shows "peek line ts s = (drop s line \<noteq> [] \<and> hd (drop s line) \<in> set ts, s)"
  using skip_ws_clean [OF assms] assms by (auto simp: peek_def at_drop clean_def split: list.splits)

text \<open>Printed text is clean.\<close>

lemma clean_word: "word_ok w \<Longrightarrow> clean (w @ xs)"
  using word_not_symbol by (cases w) (auto simp: word_ok_def)

lemma clean_redirs: "clean rest \<Longrightarrow> clean (pr_redirs rs @ rest)"
proof (cases rs)
  case (Cons r rs')
  then show ?thesis by (cases r) (auto simp: pr_redirs_def whitespace_def)
qed (simp add: pr_redirs_def)

lemma clean_args: "args_ok as \<Longrightarrow> clean rest \<Longrightarrow> clean (pr_args as @ rest)"
  by (cases as) (auto simp: pr_args_def args_ok_def clean_word)

lemma clean_ands: "clean rest \<Longrightarrow> clean (pr_ands n @ rest)"
  by (cases n) (auto simp: whitespace_def)

lemma clean_print:
  "line_ok l \<Longrightarrow> clean rest \<Longrightarrow> clean (pr_line l @ rest)"
  "pipe_ok p \<Longrightarrow> clean rest \<Longrightarrow> clean (pr_pipe p @ rest)"
  "exec_ok x \<Longrightarrow> clean rest \<Longrightarrow> clean (pr_exec x @ rest)"
  by (induction l and p and x arbitrary: rest and rest and rest rule: pr_line_pr_pipe_pr_exec.induct)
    (auto simp: clean_redirs clean_args clean_ands whitespace_def)

section \<open>Reading what was printed\<close>

text \<open>The word of the line that a pair of positions stands for.\<close>

definition word_at :: "u8 list \<Rightarrow> nat \<times> nat \<Rightarrow> u8 list" where
  "word_at line t = (case t of (q, e) \<Rightarrow> take (e - q) (drop q line))"

lemma word_at_word: "drop s line = w @ rest \<Longrightarrow> word_at line (s, s + length w) = w"
  by (simp add: word_at_def)

lemma map_add_arg [simp]: "map_command f (add_arg a c) = add_arg (f a) (map_command f c)"
  by (induction a c rule: add_arg.induct) auto

lemma redir_step:
  assumes d: "drop s line = pr_redir r @ rest" and w: "word_ok (redir_word r)" and rest: "clean rest"
  shows "\<exists>c'. parseredirs line c s = parseredirs line c' (s + length (pr_redir r)) \<and>
    map_command (word_at line) c' = wrap_redir r (map_command (word_at line) c)"
proof -
  have cl: "clean (redir_word r @ 32 # rest)" by (rule clean_word [OF w])
  show ?thesis
  proof (cases r)
    case (Input v)
    have d0: "drop s line = 60 # 32 # v @ 32 # rest" using d Input by simp
    have p: "peek line [60, 62] s = (True, s)" using d0 by (subst peek_clean) (auto simp: whitespace_def)
    have g: "gettoken line s = (60, s, Suc s, s + 2)" by (rule gettoken_symbol [OF d0]) (use cl Input in auto)
    have d2: "drop (s + 2) line = v @ 32 # rest" using drop_next [OF drop_next [OF d0]] by simp
    note g2 = gettoken_word [OF d2 _ rest]
    show ?thesis using p g g2 w Input word_at_word [OF d2] by (subst parseredirs.simps) (auto simp: numeral_2_eq_2 intro!: exI)
  next
    case (Output v)
    have d0: "drop s line = 62 # 32 # v @ 32 # rest" using d Output by simp
    have p: "peek line [60, 62] s = (True, s)" using d0 by (subst peek_clean) (auto simp: whitespace_def)
    have g: "gettoken line s = (62, s, Suc s, s + 2)" by (rule gettoken_symbol [OF d0]) (use cl Output in auto)
    have d2: "drop (s + 2) line = v @ 32 # rest" using drop_next [OF drop_next [OF d0]] by simp
    note g2 = gettoken_word [OF d2 _ rest]
    show ?thesis using p g g2 w Output word_at_word [OF d2] by (subst parseredirs.simps) (auto simp: numeral_2_eq_2 intro!: exI)
  next
    case (Append v)
    have d0: "drop s line = 62 # 62 # 32 # v @ 32 # rest" using d Append by simp
    have p: "peek line [60, 62] s = (True, s)" using d0 by (subst peek_clean) (auto simp: whitespace_def)
    have g: "gettoken line s = (43, s, s + 2, s + 3)" by (rule gettoken_append [OF d0]) (use cl Append in auto)
    have d2: "drop (s + 3) line = v @ 32 # rest" using drop_next [OF drop_next [OF drop_next [OF d0]]] by (simp add: numeral_3_eq_3)
    note g2 = gettoken_word [OF d2 _ rest]
    show ?thesis using p g g2 w Append word_at_word [OF d2] by (subst parseredirs.simps) (auto simp: numeral_3_eq_3 intro!: exI)
  qed
qed

lemma parseredirs_print:
  assumes "drop s line = pr_redirs rs @ rest" "redirs_ok rs" "clean rest" "rest = [] \<or> hd rest \<notin> {60, 62}"
  shows "\<exists>c'. parseredirs line c s = Ok (c', s + length (pr_redirs rs)) \<and>
    map_command (word_at line) c' = wrap_redirs rs (map_command (word_at line) c)"
  using assms
proof (induction rs arbitrary: s c)
  case Nil
  then have "peek line [60, 62] s = (False, s)" by (subst peek_clean) (auto simp: pr_redirs_def)
  then show ?case by (subst parseredirs.simps) (simp add: pr_redirs_def wrap_redirs_def)
next
  case (Cons r rs)
  have d: "drop s line = pr_redir r @ (pr_redirs rs @ rest)" and ok: "word_ok (redir_word r)" "redirs_ok rs"
    using Cons.prems by (simp_all add: pr_redirs_def redirs_ok_def)
  obtain c1 where c1: "parseredirs line c s = parseredirs line c1 (s + length (pr_redir r))"
    "map_command (word_at line) c1 = wrap_redir r (map_command (word_at line) c)"
    using redir_step [OF d ok(1) clean_redirs [OF Cons.prems(3)]] by blast
  show ?case using Cons.IH [OF drop_more [OF d] ok(2) Cons.prems(3,4), of c1] c1
    by (simp add: pr_redirs_def wrap_redirs_def add.assoc)
qed

lemma exec_loop_print:
  assumes "drop s line = pr_args as @ rest" "args_ok as" "n + length as < MAXARGS" "follow {124, 41, 38, 59} rest"
  shows "\<exists>c'. exec_loop line c n s = Ok (c', s + length (pr_args as)) \<and>
    map_command (word_at line) c' = wrap_args as (map_command (word_at line) c)"
  using assms
proof (induction as arbitrary: s c n)
  case Nil
  show ?case
  proof (cases rest)
    case (Cons x xs)
    then have "peek line [124, 41, 38, 59] s = (True, s)" using Nil by (subst peek_clean) (auto simp: pr_args_def whitespace_def)
    then show ?thesis by (subst exec_loop.simps) (simp add: pr_args_def wrap_args_def)
  next
    case emp: Nil
    then have d: "drop s line = []" using Nil by (simp add: pr_args_def)
    have p: "peek line [124, 41, 38, 59] s = (False, s)" using d by (subst peek_clean) auto
    have "gettoken line s = (0, s, s, s)" using d by (simp add: gettoken_def skip_ws_clean at_drop)
    then show ?thesis using p by (subst exec_loop.simps) (simp add: pr_args_def wrap_args_def)
  qed
next
  case (Cons a as)
  obtain w rs where a: "a = (w, rs)" by fastforce
  have cl: "clean (pr_args as @ rest)"
    using Cons.prems follow_clean [of _ rest] by (intro clean_args) (auto simp: args_ok_def symbols_def)
  have d: "drop s line = w @ 32 # (pr_redirs rs @ pr_args as @ rest)" and ok: "word_ok w" "redirs_ok rs" "args_ok as"
    using Cons.prems a by (simp_all add: pr_args_def args_ok_def)
  have hw: "hd (w @ 32 # xs) \<notin> {124, 41, 38, 59, 60, 62}" for xs
    using ok(1) word_not_symbol by (cases w) (auto simp: word_ok_def)
  have p: "peek line [124, 41, 38, 59] s = (False, s)" using d hw clean_word [OF ok(1)] by (subst peek_clean) auto
  have g: "gettoken line s = (97, s, s + length w, Suc (s + length w))"
    by (rule gettoken_word [OF d ok(1) clean_redirs [OF cl]])
  have d1: "drop (Suc (s + length w)) line = pr_redirs rs @ (pr_args as @ rest)" using drop_next [OF drop_more [OF d]] .
  have hd1: "pr_args as @ rest = [] \<or> hd (pr_args as @ rest) \<notin> {60, 62}"
  proof (cases as)
    case Nil
    then show ?thesis using Cons.prems(4) by (cases rest) (auto simp: pr_args_def)
  next
    case (Cons b bs)
    then show ?thesis using ok(3) word_not_symbol by (cases "fst b") (auto simp: pr_args_def args_ok_def word_ok_def split: prod.splits)
  qed
  obtain c1 where c1: "parseredirs line (add_arg (s, s + length w) c) (Suc (s + length w)) = Ok (c1, Suc (s + length w) + length (pr_redirs rs))"
    "map_command (word_at line) c1 = wrap_redirs rs (map_command (word_at line) (add_arg (s, s + length w) c))"
    using parseredirs_print [OF d1 ok(2) cl hd1] by blast
  have e: "exec_loop line c n s = exec_loop line c1 (Suc n) (Suc (s + length w) + length (pr_redirs rs))"
    using p g c1(1) Cons.prems(3) by (subst exec_loop.simps) simp
  have "\<exists>c'. exec_loop line c1 (Suc n) (Suc (s + length w) + length (pr_redirs rs)) =
      Ok (c', Suc (s + length w) + length (pr_redirs rs) + length (pr_args as)) \<and>
      map_command (word_at line) c' = wrap_args as (map_command (word_at line) c1)"
    by (rule Cons.IH [OF drop_more [OF d1] ok(3)]) (use Cons.prems in auto)
  then show ?case using e c1(2) a word_at_word [OF d] by (simp add: pr_args_def wrap_args_def add.assoc)
qed

lemma back_loop_print:
  assumes "drop s line = pr_ands n @ rest" "clean rest" "rest = [] \<or> hd rest \<noteq> 38"
  shows "back_loop line c s = ((BACK ^^ n) c, s + length (pr_ands n))"
  using assms(1)
proof (induction n arbitrary: s c)
  case 0
  then have "peek line [38] s = (False, s)" using assms by (subst peek_clean) auto
  then show ?case by (subst back_loop.simps) simp
next
  case (Suc n)
  have d: "drop s line = 38 # 32 # (pr_ands n @ rest)" using Suc.prems by simp
  have p: "peek line [38] s = (True, s)" using d by (subst peek_clean) (auto simp: whitespace_def)
  have g: "gettoken line s = (38, s, Suc s, s + 2)" by (rule gettoken_symbol [OF d]) (use clean_ands assms(2) in auto)
  have d2: "drop (s + 2) line = pr_ands n @ rest" using drop_next [OF drop_next [OF d]] by simp
  have "back_loop line c s = back_loop line (BACK c) (s + 2)" using p g by (subst back_loop.simps) simp
  then show ?case using Suc.IH [OF d2, of "BACK c"] by (simp add: funpow_swap1)
qed

lemma map_backs: "map_command f ((BACK ^^ n) c) = (BACK ^^ n) (map_command f c)"
  by (induction n) auto

text \<open>The position of a symbol in the line and what \<^verbatim>\<open>peek\<close> and \<^verbatim>\<open>gettoken\<close> make of it.\<close>

lemma symbol_step:
  assumes "drop s line = c # 32 # rest" "c \<in> {124, 40, 41, 59, 38}" "clean rest"
  shows "peek line [c] s = (True, s)" "gettoken line s = (c, s, Suc s, s + 2)" "drop (s + 2) line = rest"
    "s + 2 \<le> length line"
proof -
  show "peek line [c] s = (True, s)" using assms by (subst peek_clean) (auto simp: whitespace_def)
  show "gettoken line s = (c, s, Suc s, s + 2)" by (rule gettoken_symbol [OF assms(1)]) (use assms in auto)
  show "drop (s + 2) line = rest" using drop_next [OF drop_next [OF assms(1)]] by simp
  show "s + 2 \<le> length line" using drop_pos [OF drop_next [OF assms(1)]] by simp
qed

lemma no_symbol: "follow F (drop s line) \<Longrightarrow> F \<subseteq> set symbols \<Longrightarrow> c \<notin> F \<Longrightarrow> peek line [c] s = (False, s)"
  using follow_clean [of F "drop s line"] by (subst peek_clean) (auto simp: follow_def)

lemma symbols_in [simp]: "41 \<in> set symbols" "38 \<in> set symbols" "59 \<in> set symbols" "124 \<in> set symbols"
  by (auto simp: symbols_def)

lemma args_head:
  assumes "args_ok as" "follow {124, 41, 38, 59} rest"
  shows "pr_args as @ rest = [] \<or> hd (pr_args as @ rest) \<notin> {60, 62, 40}"
proof (cases as)
  case Nil
  then show ?thesis using assms(2) by (cases rest) (auto simp: pr_args_def)
next
  case (Cons b bs)
  then show ?thesis using assms(1) word_not_symbol by (cases "fst b") (auto simp: pr_args_def args_ok_def word_ok_def split: prod.splits)
qed

lemma simple_print:
  assumes d: "drop s line = pr_exec (Simple rs as) @ rest" and ok: "exec_ok (Simple rs as)" and rest: "follow {124, 41, 38, 59} rest"
  shows "\<exists>c. parseexec (Suc n) line s = Some (Ok (c, s + length (pr_exec (Simple rs as)))) \<and>
    map_command (word_at line) c = exec_cmd (Simple rs as)"
proof -
  have d1: "drop s line = pr_redirs rs @ (pr_args as @ rest)" and ok1: "redirs_ok rs" "args_ok as" "length as < MAXARGS"
    using d ok by simp_all
  have cl: "clean (pr_args as @ rest)" by (rule clean_args [OF ok1(2) follow_clean [OF rest]]) simp
  note h = args_head [OF ok1(2) rest]
  have "hd (drop s line) \<noteq> 40 \<or> drop s line = []"
    unfolding d1 using h by (cases rs; cases "hd rs") (auto simp: pr_redirs_def)
  then have p: "peek line [40] s = (False, s)" using clean_redirs [OF cl] d1 by (subst peek_clean) auto
  obtain c1 where c1: "parseredirs line (EXEC []) s = Ok (c1, s + length (pr_redirs rs))"
    "map_command (word_at line) c1 = wrap_redirs rs (EXEC [])"
    using parseredirs_print [OF d1 ok1(1) cl, of "EXEC []"] h by auto
  show ?thesis using exec_loop_print [OF drop_more [OF d1] ok1(2) _ rest, of 0 c1] p c1 ok1(3) by (simp add: add.assoc)
qed

lemma block_print:
  assumes d: "drop s line = pr_exec (Block l rs) @ rest" and ok: "exec_ok (Block l rs)" and rest: "follow {124, 41, 38, 59} rest"
    and lin: "\<And>s rest. drop s line = pr_line l @ rest \<Longrightarrow> line_ok l \<Longrightarrow> follow {41} rest \<Longrightarrow> s \<le> length line \<Longrightarrow>
      4 * (length line - s) + 4 \<le> n \<Longrightarrow>
      \<exists>c. parseline n line s = Some (Ok (c, s + length (pr_line l))) \<and> map_command (word_at line) c = line_cmd l"
    and n: "4 * (length line - s) \<le> n"
  shows "\<exists>c. parseexec (Suc (Suc n)) line s = Some (Ok (c, s + length (pr_exec (Block l rs)))) \<and>
    map_command (word_at line) c = exec_cmd (Block l rs)"
proof -
  have ok1: "line_ok l" "redirs_ok rs" using ok by simp_all
  have cl: "clean rest" by (rule follow_clean [OF rest]) simp
  have h: "rest = [] \<or> hd rest \<notin> {60, 62}" using rest by (cases rest) auto
  have d1: "drop s line = 40 # 32 # (pr_line l @ 41 # 32 # pr_redirs rs @ rest)" using d by simp
  have cl1: "clean (pr_line l @ 41 # 32 # pr_redirs rs @ rest)" by (rule clean_print(1) [OF ok1(1)]) (simp add: whitespace_def)
  note a = symbol_step [OF d1 _ cl1]
  have d2: "drop (s + 2) line = pr_line l @ (41 # 32 # pr_redirs rs @ rest)" using a(3) by simp
  have le: "s + 2 \<le> length line" using a(4) by simp
  obtain c where c: "parseline n line (s + 2) = Some (Ok (c, s + 2 + length (pr_line l)))" "map_command (word_at line) c = line_cmd l"
    using lin [OF d2 ok1(1) _ le] n le by fastforce
  note b = symbol_step [OF drop_more [OF d2] _ clean_redirs [OF cl]]
  have d3: "drop (s + 2 + length (pr_line l) + 2) line = pr_redirs rs @ rest" using b(3) by simp
  have "parseblock (Suc n) line s = Some (parseredirs line c (s + 2 + length (pr_line l) + 2))"
    using a(1,2) b(1,2) c(1) by simp
  moreover have "parseexec (Suc (Suc n)) line s = parseblock (Suc n) line s" using a(1) by simp
  ultimately show ?thesis using parseredirs_print [OF d3 ok1(2) cl h, of c] c(2) by (auto simp: algebra_simps)
qed

lemma pipe_print:
  assumes d: "drop s line = pr_pipe (Pipe x (Some p)) @ rest" and ok: "pipe_ok (Pipe x (Some p))" and rest: "follow {38, 59, 41} rest"
    and exe: "\<And>rest. drop s line = pr_exec x @ rest \<Longrightarrow> follow {124, 41, 38, 59} rest \<Longrightarrow>
      \<exists>c. parseexec n line s = Some (Ok (c, s + length (pr_exec x))) \<and> map_command (word_at line) c = exec_cmd x"
    and pip: "\<And>s. drop s line = pr_pipe p @ rest \<Longrightarrow> s \<le> length line \<Longrightarrow> 4 * (length line - s) + 3 \<le> n \<Longrightarrow>
      \<exists>c. parsepipe n line s = Some (Ok (c, s + length (pr_pipe p))) \<and> map_command (word_at line) c = pipe_cmd p"
    and n: "4 * (length line - s) + 3 \<le> Suc n" and s: "s \<le> length line"
  shows "\<exists>c. parsepipe (Suc n) line s = Some (Ok (c, s + length (pr_pipe (Pipe x (Some p))))) \<and>
    map_command (word_at line) c = pipe_cmd (Pipe x (Some p))"
proof -
  have d1: "drop s line = pr_exec x @ (124 # 32 # pr_pipe p @ rest)" and ok1: "exec_ok x" "pipe_ok p" using d ok by simp_all
  have cl: "clean (pr_pipe p @ rest)" by (rule clean_print(2) [OF ok1(2) follow_clean [OF rest]]) simp
  obtain c where c: "parseexec n line s = Some (Ok (c, s + length (pr_exec x)))" "map_command (word_at line) c = exec_cmd x"
    using exe [OF d1] by auto
  note a = symbol_step [OF drop_more [OF d1] _ cl]
  have "4 * (length line - (s + length (pr_exec x) + 2)) + 3 \<le> n" using n a(4) by simp
  then obtain c2 where "parsepipe n line (s + length (pr_exec x) + 2) = Some (Ok (c2, s + length (pr_exec x) + 2 + length (pr_pipe p)))"
    "map_command (word_at line) c2 = pipe_cmd p"
    using pip [OF a(3)] a(4) by auto
  then show ?thesis using c a(1,2) by (auto simp: algebra_simps)
qed

lemma line_print:
  assumes d: "drop s line = pr_line (Line p m (Some l)) @ rest" and ok: "line_ok (Line p m (Some l))" and rest: "follow {41} rest"
    and pip: "\<And>rest. drop s line = pr_pipe p @ rest \<Longrightarrow> follow {38, 59, 41} rest \<Longrightarrow>
      \<exists>c. parsepipe n line s = Some (Ok (c, s + length (pr_pipe p))) \<and> map_command (word_at line) c = pipe_cmd p"
    and lin: "\<And>s. drop s line = pr_line l @ rest \<Longrightarrow> s \<le> length line \<Longrightarrow> 4 * (length line - s) + 4 \<le> n \<Longrightarrow>
      \<exists>c. parseline n line s = Some (Ok (c, s + length (pr_line l))) \<and> map_command (word_at line) c = line_cmd l"
    and n: "4 * (length line - s) + 4 \<le> Suc n" and s: "s \<le> length line"
  shows "\<exists>c. parseline (Suc n) line s = Some (Ok (c, s + length (pr_line (Line p m (Some l))))) \<and>
    map_command (word_at line) c = line_cmd (Line p m (Some l))"
proof -
  have d1: "drop s line = pr_pipe p @ (pr_ands m @ 59 # 32 # pr_line l @ rest)" and ok1: "pipe_ok p" "line_ok l" using d ok by simp_all
  have cl: "clean (pr_line l @ rest)" by (rule clean_print(1) [OF ok1(2) follow_clean [OF rest]]) simp
  have "follow {38, 59, 41} (pr_ands m @ 59 # 32 # pr_line l @ rest)" by (cases m) auto
  then obtain c where c: "parsepipe n line s = Some (Ok (c, s + length (pr_pipe p)))" "map_command (word_at line) c = pipe_cmd p"
    using pip [OF d1] by auto
  have b: "back_loop line c (s + length (pr_pipe p)) = ((BACK ^^ m) c, s + length (pr_pipe p) + length (pr_ands m))"
    by (rule back_loop_print [OF drop_more [OF d1]]) (auto simp: whitespace_def)
  note a = symbol_step [OF drop_more [OF drop_more [OF d1]] _ cl]
  let ?t = "s + length (pr_pipe p) + length (pr_ands m) + 2"
  have "4 * (length line - ?t) + 4 \<le> n" using n a(4) by simp
  then obtain c2 where "parseline n line ?t = Some (Ok (c2, ?t + length (pr_line l)))" "map_command (word_at line) c2 = line_cmd l"
    using lin [OF a(3)] a(4) by auto
  then show ?thesis using c b a(1,2) by (auto simp: algebra_simps map_backs)
qed

lemma print_parse:
  "drop s line = pr_line l @ rest \<Longrightarrow> line_ok l \<Longrightarrow> follow {41} rest \<Longrightarrow> s \<le> length line \<Longrightarrow> 4 * (length line - s) + 4 \<le> n \<Longrightarrow>
    \<exists>c. parseline n line s = Some (Ok (c, s + length (pr_line l))) \<and> map_command (word_at line) c = line_cmd l"
  "drop s line = pr_pipe p @ rest \<Longrightarrow> pipe_ok p \<Longrightarrow> follow {38, 59, 41} rest \<Longrightarrow> s \<le> length line \<Longrightarrow> 4 * (length line - s) + 3 \<le> n \<Longrightarrow>
    \<exists>c. parsepipe n line s = Some (Ok (c, s + length (pr_pipe p))) \<and> map_command (word_at line) c = pipe_cmd p"
  "drop s line = pr_exec x @ rest \<Longrightarrow> exec_ok x \<Longrightarrow> follow {124, 41, 38, 59} rest \<Longrightarrow> s \<le> length line \<Longrightarrow> 4 * (length line - s) + 2 \<le> n \<Longrightarrow>
    \<exists>c. parseexec n line s = Some (Ok (c, s + length (pr_exec x))) \<and> map_command (word_at line) c = exec_cmd x"
proof (induction l and p and x arbitrary: s rest n and s rest n and s rest n rule: pr_line_pr_pipe_pr_exec.induct)
  case (1 p m)
  obtain k where n: "n = Suc k" using 1(6) by (cases n) auto
  have d: "drop s line = pr_pipe p @ (pr_ands m @ rest)" using 1(2) by simp
  have "follow {38, 59, 41} (pr_ands m @ rest)" using 1(4) by (cases m) (auto simp: follow_def)
  then obtain c where c: "parsepipe k line s = Some (Ok (c, s + length (pr_pipe p)))" "map_command (word_at line) c = pipe_cmd p"
    using 1(1) [OF d _ _ 1(5), of k] 1(3,6) n by auto
  have "back_loop line c (s + length (pr_pipe p)) = ((BACK ^^ m) c, s + length (pr_pipe p) + length (pr_ands m))"
    by (rule back_loop_print [OF drop_more [OF d] follow_clean [OF 1(4)]]) (use 1(4) in \<open>auto simp: follow_def\<close>)
  moreover have "peek line [59] (s + length (pr_pipe p) + length (pr_ands m)) = (False, s + length (pr_pipe p) + length (pr_ands m))"
    by (rule no_symbol [of "{41}"]) (use drop_more [OF drop_more [OF d]] 1(4) in auto)
  ultimately show ?case using c n by (auto simp: map_backs algebra_simps)
next
  case (2 p m l)
  obtain k where n: "n = Suc k" using 2(7) by (cases n) auto
  show ?case unfolding n
  proof (rule line_print [OF 2(3,4,5) _ _ _ 2(6)])
    show "\<exists>c. parsepipe k line s = Some (Ok (c, s + length (pr_pipe p))) \<and> map_command (word_at line) c = pipe_cmd p"
      if "drop s line = pr_pipe p @ r" "follow {38, 59, 41} r" for r
      by (rule 2(1) [OF that(1) _ that(2) 2(6)]) (use 2(4,7) n in auto)
    show "\<exists>c. parseline k line t = Some (Ok (c, t + length (pr_line l))) \<and> map_command (word_at line) c = line_cmd l"
      if "drop t line = pr_line l @ rest" "t \<le> length line" "4 * (length line - t) + 4 \<le> k" for t
      by (rule 2(2) [OF that(1) _ 2(5) that(2,3)]) (use 2(4) in auto)
  qed (use 2(7) n in simp)
next
  case (3 x)
  obtain k where n: "n = Suc k" using 3(6) by (cases n) auto
  have d: "drop s line = pr_exec x @ rest" using 3(2) by simp
  have "follow {124, 41, 38, 59} rest" using 3(4) by (auto simp: follow_def)
  then obtain c where c: "parseexec k line s = Some (Ok (c, s + length (pr_exec x)))" "map_command (word_at line) c = exec_cmd x"
    using 3(1) [OF d _ _ 3(5), of k] 3(3,6) n by auto
  moreover have "peek line [124] (s + length (pr_exec x)) = (False, s + length (pr_exec x))"
    by (rule no_symbol [of "{38, 59, 41}"]) (use drop_more [OF d] 3(4) in auto)
  ultimately show ?case using n by simp
next
  case (4 x p)
  obtain k where n: "n = Suc k" using 4(7) by (cases n) auto
  show ?case unfolding n
  proof (rule pipe_print [OF 4(3,4,5) _ _ _ 4(6)])
    show "\<exists>c. parseexec k line s = Some (Ok (c, s + length (pr_exec x))) \<and> map_command (word_at line) c = exec_cmd x"
      if "drop s line = pr_exec x @ r" "follow {124, 41, 38, 59} r" for r
      by (rule 4(1) [OF that(1) _ that(2) 4(6)]) (use 4(4,7) n in auto)
    show "\<exists>c. parsepipe k line t = Some (Ok (c, t + length (pr_pipe p))) \<and> map_command (word_at line) c = pipe_cmd p"
      if "drop t line = pr_pipe p @ rest" "t \<le> length line" "4 * (length line - t) + 3 \<le> k" for t
      by (rule 4(2) [OF that(1) _ 4(5) that(2,3)]) (use 4(4) in auto)
  qed (use 4(7) n in simp)
next
  case (5 rs as)
  obtain k where n: "n = Suc k" using 5(5) by (cases n) auto
  show ?case unfolding n by (rule simple_print [OF 5(1,2,3)])
next
  case (6 l rs)
  define k where "k = n - 2"
  have n: "n = Suc (Suc k)" using 6(6) by (simp add: k_def)
  have "4 * (length line - s) \<le> k" using 6(6) n by simp
  then show ?case unfolding n by (intro block_print [OF 6(2,3,4)] 6(1))
qed

text \<open>No NUL byte is printed.\<close>

lemma word_ok_0: "word_ok w \<Longrightarrow> 0 \<notin> set w"
  by (auto simp: word_ok_def wordc_def list_all_iff)

lemma redirs_0: "redirs_ok rs \<Longrightarrow> 0 \<notin> set (pr_redirs rs)"
proof (induction rs)
  case (Cons r rs)
  then show ?case by (cases r) (auto simp: pr_redirs_def redirs_ok_def word_ok_0)
qed (simp add: pr_redirs_def)

lemma args_0: "args_ok as \<Longrightarrow> 0 \<notin> set (pr_args as)"
  by (induction as) (auto simp: pr_args_def args_ok_def word_ok_0 redirs_0)

lemma ands_0: "0 \<notin> set (pr_ands n)"
  by (induction n) auto

lemma print_0:
  "line_ok l \<Longrightarrow> 0 \<notin> set (pr_line l)" "pipe_ok p \<Longrightarrow> 0 \<notin> set (pr_pipe p)" "exec_ok x \<Longrightarrow> 0 \<notin> set (pr_exec x)"
  by (induction l and p and x rule: pr_line_pr_pipe_pr_exec.induct) (auto simp: redirs_0 args_0 ands_0)

lemma set_command_toks: "set_command c = set (toks c)"
  by (induction c) auto

section \<open>Properties\<close>

text \<open>
  C34: The shell reads what a user writes: a line of the grammar (pipelines, lists with semicolon, blocks
  in parentheses, background commands, input, output and appending redirections between the arguments,
  at most nine arguments per command) is parsed into the command it stands for, with the C
  strings at the positions in the buffer as its arguments and file names.
\<close>

theorem parsecmd_print:
  assumes "line_ok l"
  shows "\<exists>c buf. parsecmd (pr_line l) = Some (Ok (c, buf)) \<and> map_command (\<lambda>(q, e). c_string buf q) c = line_cmd l"
proof -
  let ?line = "pr_line l"
  obtain c where c: "parseline (depth ?line) ?line 0 = Some (Ok (c, length ?line))" "map_command (word_at ?line) c = line_cmd l"
    using print_parse(1) [of 0 ?line l "[]" "depth ?line"] assms by (auto simp: depth_def)
  have "peek ?line [] (length ?line) = (False, length ?line)" by (subst peek_clean) auto
  then have p: "parsecmd ?line = Some (Ok (c, nulterminate c (?line @ [0])))" using c(1) by (simp add: parsecmd_def)
  have ok: "\<forall>t \<in> set (toks c). tok_ok ?line t"
    using p by (cases rule: parsecmd_cases [OF print_0(1) [OF assms]]) auto
  have "map_command (\<lambda>(q, e). c_string (nulterminate c (?line @ [0])) q) c = map_command (word_at ?line) c"
    by (rule command.map_cong [OF refl]) (auto simp: set_command_toks word_at_def tok_string [OF ok])
  then show ?thesis using p c(2) by auto
qed

text \<open>The line \<^verbatim>\<open>ls | wc > f\<close>.\<close>

theorem parsecmd_print_witness:
  "\<exists>c buf. parsecmd [108, 115, 32, 124, 32, 119, 99, 32, 62, 32, 102, 32] = Some (Ok (c, buf)) \<and>
    map_command (\<lambda>(q, e). c_string buf q) c = PIPE (EXEC [[108, 115]]) (REDIR (EXEC [[119, 99]]) [102] 0x601 1)"
  using parsecmd_print [of "Line (Pipe (Simple [] [([108, 115], [])]) (Some (Pipe (Simple [] [([119, 99], [Output [102]])]) None))) 0 None"]
  by (simp add: word_ok_def wordc_def whitespace_def symbols_def redirs_ok_def args_ok_def pr_args_def pr_redirs_def wrap_args_def wrap_redirs_def)

end
