(* ===== verification/Sh_Run.thy ===== *)
theory Sh_Run
  imports Sh_Parse Ulib
begin

text \<open>
  The shell's executor and its main loop (\<^verbatim>\<open>runcmd\<close>, \<^verbatim>\<open>getcmd\<close> and \<^verbatim>\<open>main\<close> of \<^verbatim>\<open>user/sh.c\<close>).
  A process has a table of \<^verbatim>\<open>NOFILE\<close> descriptors, and the kernel hands out the lowest free one.
  \<^verbatim>\<open>fork\<close> is taken to succeed; whether a file can be opened is the parameter \<open>opn\<close>, and whether a
  program can be executed the parameter \<open>exe\<close>.
\<close>

section \<open>Descriptors\<close>

text \<open>What a descriptor refers to; pipes are named by the place of their command in the tree.\<close>

datatype 'w open_file = Inherited nat | Opened 'w int | Read_End "nat list" | Write_End "nat list"

type_synonym 'w fds = "'w open_file option list"

definition u_close :: "int \<Rightarrow> 'w fds \<Rightarrow> 'w fds" where
  "u_close fd fds = (if fd < 0 then fds else fds[nat fd := None])"

fun fd_free :: "'w fds \<Rightarrow> nat option" where
  "fd_free [] = None"
| "fd_free (None # fds) = Some 0"
| "fd_free (Some f # fds) = map_option Suc (fd_free fds)"

text \<open>A descriptor for \<open>f\<close>, as \<^verbatim>\<open>fdalloc\<close> chooses it.\<close>

definition u_fdalloc :: "'w open_file \<Rightarrow> 'w fds \<Rightarrow> (nat \<times> 'w fds) option" where
  "u_fdalloc f fds = (case fd_free fds of None \<Rightarrow> None | Some fd \<Rightarrow> Some (fd, fds[fd := Some f]))"

definition u_dup :: "nat \<Rightarrow> 'w fds \<Rightarrow> 'w fds" where
  "u_dup fd fds =
     (if fd < length fds then
        case fds ! fd of
          None \<Rightarrow> fds
        | Some f \<Rightarrow> (case u_fdalloc f fds of None \<Rightarrow> fds | Some (_, fds) \<Rightarrow> fds)
      else fds)"

definition u_pipe :: "nat list \<Rightarrow> 'w fds \<Rightarrow> (nat \<times> nat \<times> 'w fds) option" where
  "u_pipe nm fds =
     (case u_fdalloc (Read_End nm) fds of
        None \<Rightarrow> None
      | Some (fd0, fds0) \<Rightarrow>
          (case u_fdalloc (Write_End nm) fds0 of
             None \<Rightarrow> None
           | Some (fd1, fds1) \<Rightarrow> Some (fd0, fd1, fds1)))"

section \<open>Executing a command\<close>

text \<open>
  What a process that calls \<^verbatim>\<open>runcmd\<close> does: it becomes the program with these arguments and
  descriptors; it exits with a status; it starts a child, waits for it with these descriptors and goes on; it
  starts two children at once, waits for both with these descriptors and exits; or it starts a child and exits.
\<close>

datatype 'w job =
    Exec "'w list" "'w fds"
  | Exits int
  | Seq "'w job" "'w fds" "'w job"
  | Par "'w job" "'w job" "'w fds"
  | Detach "'w job"

fun runcmd :: "('w \<Rightarrow> int \<Rightarrow> bool) \<Rightarrow> ('w list \<Rightarrow> bool) \<Rightarrow> 'w command \<Rightarrow> nat list \<Rightarrow> 'w fds \<Rightarrow> 'w job" where
  "runcmd opn exe (EXEC argv) nm fds =
     (if argv = [] then Exits 1
      else if exe argv then Exec argv fds
      else Exits 0)"
| "runcmd opn exe (REDIR c f mode fd) nm fds =
     (let fds = u_close fd fds
      in if \<not> opn f mode then Exits 1
         else case u_fdalloc (Opened f mode) fds of
                None \<Rightarrow> Exits 1
              | Some (_, fds) \<Rightarrow> runcmd opn exe c nm fds)"
| "runcmd opn exe (LIST l r) nm fds = Seq (runcmd opn exe l (0 # nm) fds) fds (runcmd opn exe r (1 # nm) fds)"
| "runcmd opn exe (PIPE l r) nm fds =
     (case u_pipe nm fds of
        None \<Rightarrow> Exits 1
      | Some (p0, p1, fds) \<Rightarrow>
          Par (runcmd opn exe l (0 # nm) (u_close (int p1) (u_close (int p0) (u_dup p1 (u_close 1 fds)))))
              (runcmd opn exe r (1 # nm) (u_close (int p1) (u_close (int p0) (u_dup p0 (u_close 0 fds)))))
              (u_close (int p1) (u_close (int p0) fds)))"
| "runcmd opn exe (BACK c) nm fds = Detach (runcmd opn exe c (0 # nm) fds)"

section \<open>The main loop\<close>

lemma fd_free_Some: "fd_free fds = Some fd \<Longrightarrow> fd < length fds \<and> fds ! fd = None \<and> (\<forall>i < fd. fds ! i \<noteq> None)"
  by (induction fds arbitrary: fd rule: fd_free.induct) (auto simp: nth_Cons split: nat.splits)

lemma fd_free_None: "fd_free fds = None \<Longrightarrow> None \<notin> set fds"
  by (induction fds rule: fd_free.induct) auto

lemma count_update: "fd < length fds \<Longrightarrow> fds ! fd = None \<Longrightarrow> count_list (fds[fd := Some f]) None < count_list fds None"
  by (induction fds arbitrary: fd) (auto simp: nth_Cons split: nat.splits)

text \<open>The loop that opens the console until descriptors 0, 1 and 2 are in use.\<close>

function open_console :: "'w open_file \<Rightarrow> 'w fds \<Rightarrow> 'w fds" where
  "open_console con fds =
     (case u_fdalloc con fds of
        None \<Rightarrow> fds
      | Some (fd, fds') \<Rightarrow> if 3 \<le> fd then u_close (int fd) fds' else open_console con fds')"
  by auto
termination
  by (relation "measure (\<lambda>(con, fds). count_list fds None)")
    (auto simp: u_fdalloc_def count_update dest!: fd_free_Some split: option.splits)

declare open_console.simps [simp del]

definition getcmd :: "nat \<Rightarrow> int \<Rightarrow> u8 list \<Rightarrow> mem \<Rightarrow> bool \<times> u8 list \<times> mem" where
  "getcmd buf nbuf input m =
     (let m = umemset buf 0 (nat nbuf) m;
          (input, m) = gets buf nbuf input m
      in (m buf \<noteq> 0, input, m))"

text \<open>The C string at \<open>s\<close>, which ends within \<open>n\<close> bytes.\<close>

definition sh_line :: "nat \<Rightarrow> nat \<Rightarrow> mem \<Rightarrow> u8 list" where
  "sh_line s n m = takeWhile (\<lambda>b. b \<noteq> 0) (bytes m s n)"

lemma getcmd_eq:
  "getcmd buf 100 input m = (let l = line_of 99 input
     in (hd (l @ [0]) \<noteq> 0, drop (length l) input, store buf (l @ [0]) (umemset buf 0 100 m)))"
  by (simp add: getcmd_def gets_eq Let_def store_def hd_conv_nth)

lemma getcmd_shorter:
  assumes "(True, input', m') = getcmd buf 100 input m"
  shows "length input' < length input"
proof -
  have "line_of 99 input \<noteq> []" "input' = drop (length (line_of 99 input)) input"
    using assms by (auto simp: getcmd_eq Let_def)
  then show ?thesis by (cases input) (auto simp: line_of_none)
qed

text \<open>A line of input makes the shell change its directory or fork a child that parses and runs it.\<close>

datatype action = Chdir "u8 list" | Fork_Run "u8 list"

function sh_loop :: "nat \<Rightarrow> u8 list \<Rightarrow> mem \<Rightarrow> action list" where
  "sh_loop buf input m =
     (let (more, input', m) = getcmd buf 100 input m
      in if \<not> more then []
         else if m buf = 99 \<and> m (buf + 1) = 100 \<and> m (buf + 2) = 32 then
           let m = m(buf + length (sh_line buf 100 m) - 1 := 0)
           in Chdir (sh_line (buf + 3) 97 m) # sh_loop buf input' m
         else Fork_Run (sh_line buf 100 m) # sh_loop buf input' m)"
  by auto
termination
  by (relation "measure (\<lambda>(buf, input, m). length input)") (auto dest: getcmd_shorter)

declare sh_loop.simps [simp del]

text \<open>The child: \<^verbatim>\<open>runcmd(parsecmd(buf))\<close>. A syntax error makes it exit with status 1.\<close>

definition sh_child ::
  "(u8 list \<Rightarrow> int \<Rightarrow> bool) \<Rightarrow> (u8 list list \<Rightarrow> bool) \<Rightarrow> u8 list \<Rightarrow> u8 list fds \<Rightarrow> u8 list job option" where
  "sh_child opn exe line fds =
     (case parsecmd line of
        None \<Rightarrow> None
      | Some (Ok (c, buf)) \<Rightarrow> Some (runcmd opn exe (map_command (\<lambda>(q, e). c_string buf q) c) [] fds)
      | Some _ \<Rightarrow> Some (Exits 1))"

section \<open>What a command is meant to do\<close>

text \<open>
  The same tree with the two ends of standard input and output in place of a table of descriptors:
  a redirection replaces one of them, a pipe connects the output of its left side with the input
  of its right side. A process that waits has its own standard descriptors and nothing else.
\<close>

definition std :: "'w open_file \<Rightarrow> 'w open_file \<Rightarrow> 'w open_file \<Rightarrow> 'w fds" where
  "std i o' e = Some i # Some o' # Some e # replicate 13 None"

fun wired :: "('w \<Rightarrow> int \<Rightarrow> bool) \<Rightarrow> ('w list \<Rightarrow> bool) \<Rightarrow> 'w command \<Rightarrow> nat list \<Rightarrow> 'w open_file \<Rightarrow> 'w open_file \<Rightarrow> 'w open_file \<Rightarrow> 'w job" where
  "wired opn exe (EXEC argv) nm i o' e = (if argv = [] then Exits 1 else if exe argv then Exec argv (std i o' e) else Exits 0)"
| "wired opn exe (REDIR c f mode fd) nm i o' e =
     (if \<not> opn f mode then Exits 1
      else if fd = 0 then wired opn exe c nm (Opened f mode) o' e
      else wired opn exe c nm i (Opened f mode) e)"
| "wired opn exe (LIST l r) nm i o' e =
     Seq (wired opn exe l (0 # nm) i o' e) (std i o' e) (wired opn exe r (1 # nm) i o' e)"
| "wired opn exe (PIPE l r) nm i o' e =
     Par (wired opn exe l (0 # nm) i (Write_End nm) e) (wired opn exe r (1 # nm) (Read_End nm) o' e) (std i o' e)"
| "wired opn exe (BACK c) nm i o' e = Detach (wired opn exe c (0 # nm) i o' e)"

lemmas fd_defs = u_close_def u_fdalloc_def u_dup_def u_pipe_def std_def

lemma runcmd_wired: "std_redirs c \<Longrightarrow> runcmd opn exe c nm (std i o' e) = wired opn exe c nm i o' e"
proof (induction c arbitrary: nm i o')
  case (REDIR c f mode fd)
  have "u_fdalloc (Opened f mode) (u_close 0 (std i o' e)) = Some (0, std (Opened f mode) o' e)"
    "u_fdalloc (Opened f mode) (u_close 1 (std i o' e)) = Some (1, std i (Opened f mode) e)"
    by (simp_all add: fd_defs)
  then show ?case using REDIR by auto
next
  case (PIPE l r)
  have p: "u_pipe nm (std i o' e) = Some (3, 4, Some i # Some o' # Some e # Some (Read_End nm) # Some (Write_End nm) # replicate 11 None)"
    by (simp add: fd_defs numeral_eq_Suc)
  have "u_close 4 (u_close 3 (u_dup 4 (u_close 1 (Some i # Some o' # Some e # Some (Read_End nm) # Some (Write_End nm) # replicate 11 None)))) =
      std i (Write_End nm) e"
    "u_close 4 (u_close 3 (u_dup 3 (u_close 0 (Some i # Some o' # Some e # Some (Read_End nm) # Some (Write_End nm) # replicate 11 None)))) =
      std (Read_End nm) o' e"
    "u_close 4 (u_close 3 (Some i # Some o' # Some e # Some (Read_End nm) # Some (Write_End nm) # replicate 11 None)) = std i o' e"
    by (simp_all add: fd_defs numeral_eq_Suc)
  then show ?case using PIPE p by simp
qed simp_all

lemma std_redirs_map [simp]: "std_redirs (map_command f c) = std_redirs c"
  by (induction c) auto

section \<open>Reading lines\<close>

lemma sh_lineI:
  assumes "length w < n" "0 \<notin> set w" "\<And>i. i < length w \<Longrightarrow> m (s + i) = w ! i" "m (s + length w) = 0"
  shows "sh_line s n m = w"
proof -
  have "sh_line s n m = take (length w) (bytes m s n)" unfolding sh_line_def
    by (rule takeWhile_eq_take_P_nth) (use assms in \<open>auto simp: bytes_def in_set_conv_nth\<close>)
  also have "\<dots> = w" using assms by (intro nth_equalityI) (auto simp: bytes_def)
  finally show ?thesis .
qed

text \<open>What one line asks for.\<close>

definition action_of :: "u8 list \<Rightarrow> action" where
  "action_of l = (if take 3 l = [99, 100, 32] then Chdir (butlast (drop 3 l)) else Fork_Run l)"

definition is_line :: "u8 list \<Rightarrow> bool" where
  "is_line l \<longleftrightarrow> l \<noteq> [] \<and> length l \<le> 99 \<and> last l = 10 \<and> 10 \<notin> set (butlast l) \<and> 13 \<notin> set l \<and> 0 \<notin> set l"

lemma line_of_line:
  assumes "is_line l"
  shows "line_of 99 (l @ rest) = l"
proof -
  obtain w where l: "l = w @ [10]" and w: "10 \<notin> set w" "13 \<notin> set w" "length w < 99"
    using assms by (cases l rule: rev_cases) (auto simp: is_line_def)
  have "takeWhile (\<lambda>c. c \<noteq> 10 \<and> c \<noteq> 13) (l @ rest) = w" using w by (auto simp: l takeWhile_append)
  then show ?thesis using w by (simp add: line_of_def l)
qed

lemma sh_loop_line:
  assumes "is_line l"
  shows "\<exists>m'. sh_loop buf (l @ rest) m = action_of l # sh_loop buf rest m'"
proof -
  have l: "length l \<le> 99" "0 \<notin> set l" "l \<noteq> []" using assms by (auto simp: is_line_def)
  define m1 where "m1 = store buf (l @ [0]) (umemset buf 0 100 m)"
  have g: "getcmd buf 100 (l @ rest) m = (True, rest, m1)"
    unfolding getcmd_eq line_of_line [OF assms] Let_def m1_def using l by (cases l) auto
  have m1: "m1 (buf + i) = l ! i" if "i < length l" for i using that by (simp add: m1_def store_def nth_append)
  have z: "m1 (buf + length l) = 0" by (simp add: m1_def store_def)
  have line: "sh_line buf 100 m1 = l" by (rule sh_lineI) (use l m1 z in auto)
  have cd: "m1 buf = 99 \<and> m1 (buf + 1) = 100 \<and> m1 (buf + 2) = 32 \<longleftrightarrow> take 3 l = [99, 100, 32]"
  proof (cases "3 \<le> length l")
    case True
    then have "take 3 l = [l ! 0, l ! 1, l ! 2]" by (intro nth_equalityI) (auto simp: numeral_3_eq_3 numeral_2_eq_2 less_Suc_eq)
    then show ?thesis using m1 [of 0] m1 [of 1] m1 [of 2] True l(3) by (simp del: One_nat_def)
  next
    case False
    have "length l = 1 \<or> length l = 2" using False l(3) by (cases "length l") auto
    moreover have "m1 (buf + (length l - 1)) = 10" using m1 [of "length l - 1"] l(3) assms by (simp add: is_line_def last_conv_nth)
    moreover have "take 3 l \<noteq> [99, 100, 32]" using False by (metis length_Cons length_take list.size(3) min.cobounded1 numeral_3_eq_3)
    ultimately show ?thesis by auto
  qed
  show ?thesis
  proof (cases "take 3 l = [99, 100, 32]")
    case True
    then obtain r where r: "l = 99 # 100 # 32 # r" by (metis append_Cons append_Nil append_take_drop_id)
    then have rn: "r \<noteq> []" using assms by (auto simp: is_line_def)
    have "sh_line (buf + 3) 97 (m1(buf + length l - 1 := 0)) = butlast r"
    proof (rule sh_lineI)
      show "length (butlast r) < 97" using l r by simp
      show "0 \<notin> set (butlast r)" using l r by (auto dest: in_set_butlastD)
      show "(m1(buf + length l - 1 := 0)) (buf + 3 + i) = butlast r ! i" if "i < length (butlast r)" for i
        using m1 [of "3 + i"] that r by (auto simp: nth_butlast add.assoc numeral_3_eq_3)
      show "(m1(buf + length l - 1 := 0)) (buf + 3 + length (butlast r)) = 0" using r rn by (cases r) auto
    qed
    then show ?thesis using True g cd line r by (subst sh_loop.simps) (auto simp: action_of_def Let_def)
  next
    case False
    then show ?thesis using g cd line by (subst sh_loop.simps) (auto simp: action_of_def Let_def)
  qed
qed

section \<open>Properties\<close>

text \<open>
  The shell reads its input line by line: each line becomes one action, in order, a change of
  directory without the newline or a child that runs the line; at the end of the input the loop is left.
\<close>

theorem sh_loop_lines:
  assumes "list_all is_line ls"
  shows "sh_loop buf (concat ls) m = map action_of ls"
  using assms
proof (induction ls arbitrary: m)
  case Nil
  show ?case by (subst sh_loop.simps) (simp add: getcmd_eq line_of_none Let_def)
next
  case (Cons l ls)
  then show ?case using sh_loop_line [of l buf "concat ls" m] by auto
qed

text \<open>
  C37: The processes of a line have the descriptors its text asks for: whatever line the parser accepts,
  every program that the child starts has exactly the descriptors 0, 1 and 2, each connected as the
  redirections and pipes of the command say, and so has every process that waits for others. No process outside
  the command at one end of a pipe has that end open, so a reader sees the end of its input when the command
  that writes is gone.
\<close>

theorem sh_child_wired:
  assumes "0 \<notin> set line" "parsecmd line = Some (Ok (c, buf))"
  shows "sh_child opn exe line (std i o' e) = Some (wired opn exe (map_command (\<lambda>(q, e). c_string buf q) c) [] i o' e)"
proof -
  have "std_redirs c" using assms(2) by (cases rule: parsecmd_cases [OF assms(1)]) auto
  then show ?thesis using assms(2) by (simp add: sh_child_def runcmd_wired)
qed

theorem sh_loop_lines_witness:
  "sh_loop 0 (concat [[99, 100, 32, 97, 10], [108, 115, 10]]) (\<lambda>a. 7) = [Chdir [97], Fork_Run [108, 115, 10]]"
  by (subst sh_loop_lines) (simp_all add: is_line_def action_of_def)

text \<open>The line \<^verbatim>\<open>a|b\<close>.\<close>

theorem sh_child_wired_witness:
  "sh_child (\<lambda>f mode. True) (\<lambda>argv. True) [97, 124, 98] (std (Inherited 0) (Inherited 1) (Inherited 2)) =
     Some (Par (Exec [[97]] (std (Inherited 0) (Write_End []) (Inherited 2)))
               (Exec [[98]] (std (Read_End []) (Inherited 1) (Inherited 2)))
               (std (Inherited 0) (Inherited 1) (Inherited 2)))"
proof -
  have p: "parsecmd [97, 124, 98] = Some (Ok (PIPE (EXEC [(0, 1)]) (EXEC [(2, 3)]), [97, 0, 98, 0]))" by code_simp
  show ?thesis using sh_child_wired [OF _ p, of "\<lambda>f mode. True" "\<lambda>argv. True" "Inherited 0" "Inherited 1" "Inherited 2"]
    by (simp add: c_string_def)
qed

text \<open>
  However few descriptors the shell is started with, its first loop ends with descriptors 0, 1 and 2 in use.
\<close>

theorem open_console_std:
  assumes "3 \<le> length fds"
  shows "\<forall>i < 3. open_console con fds ! i \<noteq> None"
  using assms
proof (induction con fds rule: open_console.induct)
  case (1 con fds)
  show ?case
  proof (cases "fd_free fds")
    case None
    then have "\<forall>i < length fds. fds ! i \<noteq> None" using fd_free_None by (metis nth_mem)
    then show ?thesis using None 1(2) by (subst open_console.simps) (auto simp: u_fdalloc_def)
  next
    case (Some fd)
    then have a: "u_fdalloc con fds = Some (fd, fds[fd := Some con])" by (simp add: u_fdalloc_def)
    note free = fd_free_Some [OF Some]
    show ?thesis
    proof (cases "3 \<le> fd")
      case True
      then show ?thesis using a free by (subst open_console.simps) (auto simp: u_close_def)
    next
      case False
      then have "open_console con fds = open_console con (fds[fd := Some con])" using a by (subst open_console.simps) simp
      then show ?thesis using 1(1) [OF a refl False] 1(2) by simp
    qed
  qed
qed

theorem open_console_std_witness:
  "\<forall>i < 3. open_console (Inherited 7) (None # Some (Inherited 1) # replicate 14 None) ! i \<noteq> (None :: nat open_file option)"
  by (rule open_console_std) simp

end
