(* ===== verification/Syscall.thy ===== *)
theory Syscall
  imports Proc_Machine
begin

text \<open>
  System calls (\<^verbatim>\<open>kernel/syscall.c\<close>, \<^verbatim>\<open>kernel/sysproc.c\<close> and \<^verbatim>\<open>sys_getlog\<close> of \<^verbatim>\<open>kernel/proc.c\<close>): arguments
  come out of the registers that the trap saved in the trap frame, and the result goes into register a0
  there. A call returns \<open>Some r\<close>, or \<open>None\<close> when the process has given up the processor: it sleeps
  and goes on with the next turn of its loop, or it is gone. The calls of \<^verbatim>\<open>sysfile.c\<close> work on their
  own part of the state (\<^verbatim>\<open>Sysfile\<close>); the dispatcher only says which of them is reached. \<open>slog\<close> is
  the address of \<^verbatim>\<open>schedlog\<close>.
\<close>

section \<open>Arguments\<close>

definition argraw :: "nat \<Rightarrow> nat \<Rightarrow> ksys \<Rightarrow> nat res" where
  "argraw p n s = (if n \<le> 5 then Ok (tf_read p (TF_A0 + 8 * n) s) else Panic ''argraw'')"

definition argint :: "nat \<Rightarrow> nat \<Rightarrow> ksys \<Rightarrow> int res" where
  "argint p n s = bind_res (argraw p n s) (\<lambda>v. Ok (s32 (int v)))"

definition argaddr :: "nat \<Rightarrow> nat \<Rightarrow> ksys \<Rightarrow> nat res" where
  "argaddr p n s = argraw p n s"

text \<open>\<open>ip\<close> and \<open>buf\<close> are places in kernel memory.\<close>

definition fetchaddr :: "nat \<Rightarrow> nat \<Rightarrow> nat \<Rightarrow> ksys \<Rightarrow> (int \<times> ksys) res" where
  "fetchaddr p addr ip s =
     (let sz = p_sz (kproc s p)
      in if sz \<le> addr \<or> sz < add64 addr 8 then Ok (-1, s)
         else
           bind_res (copyin (adr (p_pagetable (kproc s p))) ip addr 8 (kmm s)) (\<lambda>(r, m).
           Ok (if r \<noteq> 0 then -1 else 0, set_mem s m)))"

definition fetchstr :: "nat \<Rightarrow> nat \<Rightarrow> nat \<Rightarrow> nat \<Rightarrow> ksys \<Rightarrow> (int \<times> ksys) res option" where
  "fetchstr p addr buf mx s =
     bind_ro (Some (copyinstr (adr (p_pagetable (kproc s p))) buf addr mx (kmm s))) (\<lambda>(r, m).
     let s = set_mem s m
     in if r < 0 then Some (Ok (-1, s))
        else case strlen buf (kmemory m) of None \<Rightarrow> None | Some n \<Rightarrow> Some (Ok (int n, s)))"

definition argstr :: "nat \<Rightarrow> nat \<Rightarrow> nat \<Rightarrow> nat \<Rightarrow> ksys \<Rightarrow> (int \<times> ksys) res option" where
  "argstr p n buf mx s = bind_ro (Some (argaddr p n s)) (\<lambda>addr. fetchstr p addr buf mx s)"

section \<open>Calls on processes\<close>

type_synonym outcome = "(int option \<times> ksys) res option"

text \<open>A routine that returns an \<open>int\<close> to its caller.\<close>

definition returning :: "(int \<times> ksys) res option \<Rightarrow> outcome" where
  "returning x = bind_ro x (\<lambda>(r, s). Some (Ok (Some r, s)))"

definition sys_exit :: "nat \<Rightarrow> nat \<Rightarrow> ksys \<Rightarrow> outcome" where
  "sys_exit kend p s =
     bind_ro (Some (argint p 0 s)) (\<lambda>n.
     bind_ro (Some (exit kend n s)) (\<lambda>s.
     bind_ro (Some (switched (Some p) s)) (\<lambda>s. Some (Ok (None, s)))))"

definition sys_getpid :: "nat \<Rightarrow> ksys \<Rightarrow> outcome" where
  "sys_getpid p s = Some (Ok (Some (p_pid (kproc s p)), s))"

definition sys_fork :: "nat \<Rightarrow> nat \<Rightarrow> ksys \<Rightarrow> outcome" where
  "sys_fork kend tramp s = returning (fork kend tramp s)"

text \<open>A wait that did not return has gone to sleep.\<close>

definition sys_wait :: "nat \<Rightarrow> (nat \<Rightarrow> nat) \<Rightarrow> nat \<Rightarrow> ksys \<Rightarrow> outcome" where
  "sys_wait kend xaddr p s =
     bind_ro (Some (argaddr p 0 s)) (\<lambda>a.
     bind_ro (wait kend xaddr a s) (\<lambda>(r, s).
     case r of
       Some r \<Rightarrow> Some (Ok (Some r, s))
     | None \<Rightarrow> bind_ro (Some (switched (Some p) s)) (\<lambda>s. Some (Ok (None, s)))))"

definition sys_sbrk :: "nat \<Rightarrow> nat \<Rightarrow> ksys \<Rightarrow> outcome" where
  "sys_sbrk kend p s =
     bind_ro (Some (argint p 0 s)) (\<lambda>n.
     let addr = p_sz (kproc s p)
     in bind_ro (Some (growproc kend n s)) (\<lambda>(r, s).
        Some (Ok (Some (if r < 0 then -1 else int addr), s))))"

text \<open>
  One turn of the loop of \<^verbatim>\<open>sys_sleep\<close> with \<^verbatim>\<open>tickslock\<close> held; \<^verbatim>\<open>ticks - ticks0 < n\<close> compares
  unsigned 32-bit numbers.
\<close>

definition sleep_turn :: "nat \<Rightarrow> int \<Rightarrow> nat \<Rightarrow> ksys \<Rightarrow> outcome" where
  "sleep_turn ticks0 n p s =
     (if (int (ticks s) - int ticks0) mod 2 ^ 32 < n mod 2 ^ 32 then
        bind_ro (Some (killed p (kern s))) (\<lambda>(kl, k).
        let s = s\<lparr>kern := k\<rparr>
        in if kl \<noteq> 0 then Some (bind_res (on_kern (release_lk TicksLock) s) (\<lambda>s. Ok (Some (-1), s)))
           else Some (bind_res (on_kern (switch_away (sleep ChTicks TicksLock)) s) (\<lambda>s. Ok (None, s))))
      else Some (bind_res (on_kern (release_lk TicksLock) s) (\<lambda>s. Ok (Some 0, s))))"

definition sys_sleep :: "nat \<Rightarrow> ksys \<Rightarrow> outcome" where
  "sys_sleep p s =
     bind_ro (Some (argint p 0 s)) (\<lambda>n.
     bind_ro (Some (on_kern (acquire_lk TicksLock) s)) (\<lambda>s. sleep_turn (ticks s) n p s))"

definition sys_kill :: "nat \<Rightarrow> ksys \<Rightarrow> outcome" where
  "sys_kill p s =
     bind_ro (Some (argint p 0 s)) (\<lambda>pid.
     bind_ro (Some (kill pid (kern s))) (\<lambda>(r, k). Some (Ok (Some r, s\<lparr>kern := k\<rparr>))))"

definition sys_uptime :: "ksys \<Rightarrow> outcome" where
  "sys_uptime s =
     bind_ro (Some (on_kern (acquire_lk TicksLock) s)) (\<lambda>s.
     let xticks = ticks s
     in bind_ro (Some (on_kern (release_lk TicksLock) s)) (\<lambda>s. Some (Ok (Some (int xticks), s))))"

text \<open>\<^verbatim>\<open>schedlog\<close> in memory, where \<^verbatim>\<open>sys_getlog\<close> copies it from.\<close>

definition log_bytes :: "logentry list \<Rightarrow> u8 list" where
  "log_bytes es = concat (map (\<lambda>e. nat_le 4 (nat (le_pid e mod 2 ^ 32)) @ nat_le 4 (nat (le_time e mod 2 ^ 32))) es)"

definition sys_getlog :: "nat \<Rightarrow> nat \<Rightarrow> ksys \<Rightarrow> outcome" where
  "sys_getlog slog p s =
     bind_ro (Some (argaddr p 0 s)) (\<lambda>userlog.
     let m = (kmm s)\<lparr>kmemory := Cmem.store slog (log_bytes (schedlog (kern s))) (kmemory (kmm s))\<rparr>
     in bind_ro (Some (copyout (adr (p_pagetable (kproc s p))) userlog slog (8 * LOG_SIZE) m)) (\<lambda>(r, m).
        Some (Ok (Some (if r < 0 then -1 else num_logged (kern s)), set_mem s m))))"

section \<open>Dispatch\<close>

text \<open>Where the table \<^verbatim>\<open>syscalls[]\<close> leads.\<close>

datatype reached = Answered outcome | File_Call int | Unknown

definition call :: "nat \<Rightarrow> nat \<Rightarrow> (nat \<Rightarrow> nat) \<Rightarrow> nat \<Rightarrow> int \<Rightarrow> nat \<Rightarrow> ksys \<Rightarrow> reached" where
  "call kend tramp xaddr slog num p s =
     (if num = 1 then Answered (sys_fork kend tramp s)
      else if num = 2 then Answered (sys_exit kend p s)
      else if num = 3 then Answered (sys_wait kend xaddr p s)
      else if num = 6 then Answered (sys_kill p s)
      else if num = 11 then Answered (sys_getpid p s)
      else if num = 12 then Answered (sys_sbrk kend p s)
      else if num = 13 then Answered (sys_sleep p s)
      else if num = 14 then Answered (sys_uptime s)
      else if num = 22 then Answered (let (r, k) = sys_startlog (kern s) in Some (Ok (Some r, s\<lparr>kern := k\<rparr>)))
      else if num = 23 then Answered (sys_getlog slog p s)
      else if num = 24 then
        Answered (bind_ro (Some (argint p 0 s)) (\<lambda>inc.
                  bind_ro (Some (sys_nice inc (kern s))) (\<lambda>(r, k). Some (Ok (Some r, s\<lparr>kern := k\<rparr>)))))
      else if 0 < num \<and> num < 25 then File_Call num
      else Unknown)"

text \<open>The value of a call goes to a0 as an unsigned 64-bit number.\<close>

definition set_a0 :: "nat \<Rightarrow> int \<Rightarrow> ksys \<Rightarrow> ksys" where
  "set_a0 p r s = tf_write p TF_A0 (nat (r mod 2 ^ 64)) s"

text \<open>How a process comes out of \<^verbatim>\<open>syscall\<close>: back, not running any more, or inside a call of \<^verbatim>\<open>sysfile.c\<close>.\<close>

datatype trap_end = Back | Away | In_File int

definition syscall :: "nat \<Rightarrow> nat \<Rightarrow> (nat \<Rightarrow> nat) \<Rightarrow> nat \<Rightarrow> nat \<Rightarrow> ksys \<Rightarrow> (trap_end \<times> ksys) res option" where
  "syscall kend tramp xaddr slog p s =
     (let num = s32 (int (tf_read p TF_A7 s))
      in case call kend tramp xaddr slog num p s of
           Unknown \<Rightarrow> Some (Ok (Back, set_a0 p (-1) s))
         | File_Call n \<Rightarrow> Some (Ok (In_File n, s))
         | Answered x \<Rightarrow>
             bind_ro x (\<lambda>(r, s). case r of None \<Rightarrow> Some (Ok (Away, s)) | Some v \<Rightarrow> Some (Ok (Back, set_a0 p v s))))"

end
