(* ===== verification/Syscall_Safe.thy ===== *)
theory Syscall_Safe
  imports Syscall
begin

text \<open>
  System calls compose: each routine a call is made of keeps the invariant of the system and leaves the
  other processes alone, and so does their sequence.
\<close>

section \<open>Safe steps\<close>

text \<open>The part of a trap that runs for process \<open>p\<close>; as \<open>good_step\<close>, and nobody else dies.\<close>

definition safe :: "nat \<Rightarrow> nat \<Rightarrow> nat \<Rightarrow> nat set \<Rightarrow> ksys \<Rightarrow> nat list \<Rightarrow> ksys \<Rightarrow> bool" where
  "safe kend t p K s free s' \<longleftrightarrow> (\<exists>K' free'. sys_ok kend t K' s' free' \<and> pages K' s' free' = pages K s free) \<and>
     isolated (Some p) s s' \<and> (\<forall>i < NPROC. i \<noteq> p \<and> live (p_state (kproc s i)) \<longrightarrow> live (p_state (kproc s' i)))"

lemma safeI:
  assumes "good_step kend t K s free s'" "c_proc (kern s) = Some p"
    "\<And>i. i < NPROC \<Longrightarrow> i \<noteq> p \<Longrightarrow> live (p_state (kproc s i)) \<Longrightarrow> live (p_state (kproc s' i))"
  shows "safe kend t p K s free s'"
  using assms by (auto simp: safe_def good_step_def)

lemma safe_ok: "safe kend t p K s free s' \<Longrightarrow> \<exists>K' free'. sys_ok kend t K' s' free'"
  by (auto simp: safe_def)

lemma safe_trans:
  assumes a: "safe kend t p K s free s1" and b: "\<And>K1 free1. sys_ok kend t K1 s1 free1 \<Longrightarrow> safe kend t p K1 s1 free1 s2"
  shows "safe kend t p K s free s2"
proof -
  obtain K1 free1 where 1: "sys_ok kend t K1 s1 free1" "pages K1 s1 free1 = pages K s free" using a by (auto simp: safe_def)
  note b1 = b [OF 1(1)]
  have "isolated (Some p) s s2"
    using a b1 unfolding safe_def isolated_def same_on_def by (metis (full_types) option.inject)
  then show ?thesis using a b1 1(2) unfolding safe_def by metis
qed

lemma safe_refl: "sys_ok kend t K s free \<Longrightarrow> safe kend t p K s free s"
  by (auto simp: safe_def isolated_def same_on_def)

text \<open>Steps that only touch the scheduler's part of the kernel.\<close>

lemma safe_kern:
  assumes ok: "sys_ok kend t K s free" and u: "ukeep (kern s) k" and k: "kernel_ok k"
  shows "safe kend t p K s free (s\<lparr>kern := k\<rparr>)"
proof -
  have len: "length (procs (kern s)) = NPROC" using ok sys_memD(2) by (auto simp: sys_ok_def)
  have mk: "mask (kproc (s\<lparr>kern := k\<rparr>) j) = mask (kproc s j)" if "j < NPROC" for j
    using ukeep_fields(4) [OF u, of j] that len by (simp add: kproc_def)
  have "isolated (Some p) s (s\<lparr>kern := k\<rparr>)"
    using mask_image [OF mk] ukeep_mem(3) [OF _ u] ok by (auto simp: isolated_def same_on_def sys_ok_def)
  then show ?thesis using ukeep_step [OF ok u k] mask_fields(9) [OF mk] by (auto simp: safe_def good_step_def)
qed

lemma safe_event:
  assumes "sys_ok kend t K s free" "legal e (kern s)"
  shows "\<exists>k. kexec e (kern s) = Ok k \<and> kernel_ok k \<and> ukeep (kern s) k \<and> safe kend t p K s free (s\<lparr>kern := k\<rparr>)"
proof -
  have ko: "kernel_ok (kern s)" using assms(1) by (simp add: sys_ok_def)
  obtain k where k: "kexec e (kern s) = Ok k" "kernel_ok k" using kexec_ok [OF ko assms(2)] by blast
  from safe_kern [OF assms(1) kexec_keeps [OF ko assms(2) k(1)] k(2)] kexec_keeps [OF ko assms(2) k(1)] k show ?thesis by blast
qed

text \<open>The process a trap runs for.\<close>

lemma current:
  assumes "sys_ok kend t K s free" "c_proc (kern s) = Some p"
  shows "p < NPROC" "p_state (kproc s p) = RUNNING" "length (procs (kern s)) = NPROC"
    "\<exists>tf pt. image (kproc s p) = (Some tf, Some pt, p_sz (kproc s p)) \<and> phys_page kend tf \<and>
       aspace kend t (kmemory (kmm s)) pt (p_sz (kproc s p)) tf \<and> tf \<notin> footprint (kmemory (kmm s)) pt (p_sz (kproc s p))"
proof -
  have k: "kinv (kern s)" using kernel_okD(1) assms(1) by (simp add: sys_ok_def)
  show p: "p < NPROC" "p_state (kproc s p) = RUNNING" using k assms(2) by (auto simp: kinv_def kproc_def)
  have sm: "sys_mem kend t K s free" using assms(1) by (simp add: sys_ok_def)
  show "length (procs (kern s)) = NPROC" using sys_memD(2) [OF sm] .
  show "\<exists>tf pt. image (kproc s p) = (Some tf, Some pt, p_sz (kproc s p)) \<and> phys_page kend tf \<and>
       aspace kend t (kmemory (kmm s)) pt (p_sz (kproc s p)) tf \<and> tf \<notin> footprint (kmemory (kmm s)) pt (p_sz (kproc s p))"
    using sys_memD(4) [OF sm p(1)] p(2) by auto
qed

text \<open>A change of memory that the process owns.\<close>

lemma safe_mem:
  assumes ok: "sys_ok kend t K s free" and c: "c_proc (kern s) = Some p" and st: "step_of kend t p s free (set_mem s m) free'"
  shows "safe kend t p K s free (set_mem s m)"
proof -
  note p = current [OF ok c]
  have sm: "sys_mem kend t K s free" using ok by (simp add: sys_ok_def)
  note o = sys_memD(1) [OF sm]
  note os = own_step [OF o p(1) st]
  have sm': "sys_mem kend t K (set_mem s m) free'"
    by (rule state_keeps_mem [OF sm os(1), of p]) (use p(2,4) in \<open>auto simp: image_def\<close>)
  have "isolated (Some p) s (set_mem s m)" by (rule isolated_calm [OF calm_step [OF o p(1) st]]) auto
  moreover have "files_ok (set_mem s m)" by (rule files_ok_cong [of s]) (use ok in \<open>simp_all add: sys_ok_def\<close>)
  ultimately show ?thesis unfolding safe_def sys_ok_def using sm' os(2) ok by (auto simp: sys_ok_def)
qed

lemma tf_write_safe:
  assumes ok: "sys_ok kend t K s free" and c: "c_proc (kern s) = Some p" and off: "off + 8 \<le> 4096"
  shows "safe kend t p K s free (tf_write p off v s)"
proof -
  note p = current [OF ok c]
  obtain tf pt where im: "image (kproc s p) = (Some tf, Some pt, p_sz (kproc s p))" "phys_page kend tf"
    "aspace kend t (kmemory (kmm s)) pt (p_sz (kproc s p)) tf" "tf \<notin> footprint (kmemory (kmm s)) pt (p_sz (kproc s p))"
    using p(4) by blast
  have o: "own kend t K s free" using ok sys_memD(1) by (auto simp: sys_ok_def)
  let ?m = "kmemory (kmm s)" and ?x = "(Some tf, Some pt, p_sz (kproc s p))"
  define m1 where "m1 = Cmem.store (tf + off) (nat_le 8 v) ?m"
  have tw: "tf_write p off v s = set_mem s ((kmm s)\<lparr>kmemory := m1\<rparr>)"
    using im(1) by (simp add: tf_write_def wr64_def m1_def image_def adr_def)
  note f = own_facts [OF o p(1), unfolded im(1)]
  have fr: "frame {tf} ?m m1" by (rule frame_within) (use off in \<open>auto simp: m1_def Cmem.store_def\<close>)
  have ph: "phys_page kend r" if "r \<in> tables 2 ?m pt" for r using tree_ok_phys im(3) that by (auto simp: aspace_def)
  have tb: "same_on (tables 2 ?m pt) ?m m1"
    by (rule frame_same [OF fr, where kend = kend]) (use ph im(2,4) in \<open>auto simp: footprint_def\<close>)
  have "reimage kend t (kmm s) ?x free ((kmm s)\<lparr>kmemory := m1\<rparr>) ?x free"
    by (rule write_reimage [OF f(1,2) _ fr]) (use f(3) im aspace_same [OF tb] f(1) in \<open>auto simp: proc_pages_def\<close>)
  then have "step_of kend t p s free (set_mem s ((kmm s)\<lparr>kmemory := m1\<rparr>)) free"
    by (intro step_make [where x = ?x]) (use im(1) p(1) in auto)
  from safe_mem [OF ok c this] show ?thesis unfolding tw .
qed

section \<open>The calls\<close>

text \<open>A routine comes to an end safely; when it returns, the process still runs, with no lock held.\<close>

definition served :: "nat \<Rightarrow> nat \<Rightarrow> nat \<Rightarrow> nat set \<Rightarrow> ksys \<Rightarrow> nat list \<Rightarrow> outcome \<Rightarrow> bool" where
  "served kend t p K s free x \<longleftrightarrow> (\<exists>r s'. x = Some (Ok (r, s')) \<and> safe kend t p K s free s' \<and>
     (r \<noteq> None \<longrightarrow> running (kern s') \<and> c_proc (kern s') = Some p))"

lemma servedI:
  assumes "x = Some (Ok (r, s'))" "safe kend t p K s free s'" "r \<noteq> None \<Longrightarrow> running (kern s') \<and> c_proc (kern s') = Some p"
  shows "served kend t p K s free x"
  using assms by (auto simp: served_def)

lemma running_calls:
  assumes "sys_ok kend t K s free" "running (kern s)"
  shows "calls s"
  using assms(2) by (simp add: calls_def running_def)

lemma unlock_live: "unlock p = unlock q \<Longrightarrow> live (p_state p) = live (p_state q)"
  using unlock_fields(1) by metis

lemma fork_served:
  assumes ok: "sys_ok kend t K s free" and r: "running (kern s)" and c: "c_proc (kern s) = Some p" and t: "t mod 4096 = 0" "t < 2 ^ 56"
  shows "served kend t p K s free (sys_fork kend t s)"
proof -
  note cs = running_calls [OF ok r]
  have sm: "sys_mem kend t K s free" using ok by (simp add: sys_ok_def)
  obtain p' where "c_proc (kern s) = Some p'" "files_open s p'" by (rule calls_running [OF ok cs])
  then have fo: "files_open s p" using c by simp
  obtain s' where s': "sexec kend t undefined Fork s = Some (Ok s')" "good_step kend t K s free s'" using fork_step [OF ok cs t] by blast
  show ?thesis
  proof (cases rule: fork_result [OF sm r c fo t])
    case (1 s1 free' i)
    have e: "s1 = s'" using s'(1) 1(1) by simp
    have st: "live (p_state (kproc s' j)) = live (p_state (kproc s j))" if "j < NPROC" for j
      using 1(6,8) that unlock_live [of "kproc s1 j" "kproc s j"] unfolding e by (cases "j = i") (auto simp: others_same_def)
    show ?thesis
      by (rule servedI [of _ "Some (-1)" s']) (use 1(1,4,9) c st e in \<open>auto simp: sys_fork_def returning_def samex_def intro!: safeI [OF s'(2) c]\<close>)
  next
    case (2 s1 free' np)
    have e: "s1 = s'" using s'(1) 2(1) by simp
    have st: "live (p_state (kproc s' j))" if "j < NPROC" "live (p_state (kproc s j))" for j
      using 2(7,9) that unlock_live [of "kproc s1 j" "kproc s j"] unfolding e by (cases "j = np") (auto simp: others_same_def live_def)
    show ?thesis
      by (rule servedI [of _ "Some (nextpid (kern s))" s']) (use 2(1,4,5) c st e in \<open>auto simp: sys_fork_def returning_def intro!: safeI [OF s'(2) c]\<close>)
  qed
qed

lemma argint_Ok: "\<exists>n. argint p 0 s = Ok n \<and> - (2 ^ 31) \<le> n \<and> n < 2 ^ 31"
  using s32_range [of "int (tf_read p 112 s)"] by (auto simp: argint_def argraw_def)

lemma argaddr_Ok: "argaddr p 0 s = Ok (tf_read p TF_A0 s)"
  by (simp add: argaddr_def argraw_def)

lemma sbrk_served:
  assumes ok: "sys_ok kend t K s free" and r: "running (kern s)" and c: "c_proc (kern s) = Some p"
  shows "served kend t p K s free (sys_sbrk kend p s)"
proof -
  note cs = running_calls [OF ok r]
  note p = current [OF ok c]
  obtain n where n: "argint p 0 s = Ok n" "- (2 ^ 31) \<le> n" "n < 2 ^ 31" using argint_Ok by blast
  obtain s' where s': "sexec kend t undefined (Sbrk n) s = Some (Ok s')" "good_step kend t K s free s'" using sbrk_step [OF ok cs n(2,3)] by blast
  have o: "own kend t K s free" using ok sys_memD(1) by (auto simp: sys_ok_def)
  obtain tf pt where im: "image (kproc s p) = (Some tf, Some pt, p_sz (kproc s p))" using p(4) by blast
  obtain v m z free' where g: "growproc kend n s = Ok (v, upd_kproc p (\<lambda>q. q\<lparr>p_sz := z\<rparr>) (set_mem s m))"
    using growproc_result [OF o c p(1) im n(2,3)] by blast
  have e: "s' = upd_kproc p (\<lambda>q. q\<lparr>p_sz := z\<rparr>) (set_mem s m)" using s'(1) g by simp
  have kp: "kproc s' j = (if j = p then (kproc s p)\<lparr>p_sz := z\<rparr> else kproc s j)" for j using p(1,3) by (simp add: e)
  have k': "kern s' = upd_proc p (\<lambda>q. q\<lparr>p_sz := z\<rparr>) (kern s)" by (simp add: e)
  have cp: "c_proc (kern s') = Some p" "noff (hart (kern s')) = 0" using c r by (simp_all add: k' running_def)
  obtain K' free' where "sys_ok kend t K' s' free'" using s'(2) by (auto simp: good_step_def)
  then have run: "running (kern s')" using kernel_ok_free cp by (simp add: sys_ok_def)
  have "safe kend t p K s free s'" by (rule safeI [OF s'(2) c]) (simp add: kp)
  then show ?thesis
    by (rule servedI [rotated]) (use g n(1) run cp e in \<open>simp_all add: sys_sbrk_def\<close>)
qed

lemma wait_served:
  assumes ok: "sys_ok kend t K s free" and r: "running (kern s)" and c: "c_proc (kern s) = Some p" and t: "t mod 4096 = 0" "t < 2 ^ 56"
    and x: "\<forall>j < NPROC. xa j + 4 \<le> kend" "kend < 2 ^ 63"
  shows "served kend t p K s free (sys_wait kend xa p s)"
proof -
  let ?a = "tf_read p TF_A0 s"
  note cs = running_calls [OF ok r]
  note p = current [OF ok c]
  obtain s' where s': "sexec kend t xa (Wait ?a) s = Some (Ok s')" "good_step kend t K s free s'" using wait_step [OF ok cs t x] by blast
  obtain k1 where k1: "acquire_lk WaitLock (kern s) = Ok k1" "locks {WaitLock} {} k1" "samek (kern s) k1"
    by (rule locks_acquire_lk [of "{}" "{}" "kern s" WaitLock]) (use r in \<open>simp_all add: runs_running\<close>)
  have rw: "running_with WaitLock k1" unfolding runs_running_with using runs_samek [OF _ k1(3)] r k1(2) by (simp add: runs_running)
  let ?s1 = "s\<lparr>kern := k1\<rparr>"
  have sm1: "sys_mem kend t K ?s1 free" using ukeep_mem(1) [OF _ samek_ukeep [OF k1(3)]] ok by (auto simp: sys_ok_def)
  have c1: "c_proc (kern ?s1) = Some p" using samek_fields(5) [OF k1(3)] c by simp
  have u1: "unlock (kproc ?s1 j) = unlock (kproc s j)" if "j < NPROC" for j using samek_proc [OF k1(3), of j] that p(3) by (simp add: kproc_def)
  have w: "wait kend xa ?a s = wait_turn kend xa ?a ?s1" using k1(1) by (simp add: wait_def on_kern_def)
  have rw1: "running_with WaitLock (kern ?s1)" using rw by simp
  show ?thesis
  proof (cases rule: wait_turn_result [where addr = "?a", OF sm1 rw1 c1 t x])
    case (1 s2 free' j)
    have e: "s2 = s'" using s'(1) 1(1) c w by (simp add: wait_event_def)
    have lv: "live (p_state (kproc s' i))" if "i < NPROC" "live (p_state (kproc s i))" for i
    proof -
      have "i \<noteq> j" using 1(2,3) that u1 [OF that(1)] unlock_live [OF u1 [OF that(1)]] by (auto simp: zombie_child_def live_def)
      then show ?thesis using 1(9) that unlock_live [of "kproc s2 i" "kproc ?s1 i"] unlock_live [OF u1 [OF that(1)]] e by auto
    qed
    show ?thesis
      by (rule servedI [of _ "Some (p_pid (kproc ?s1 j))" s'])
        (use 1(1,6,7) w e lv in \<open>auto simp: sys_wait_def argaddr_Ok intro!: safeI [OF s'(2) c]\<close>)
  next
    case (2 s2)
    have e: "s2 = s'" using s'(1) 2(1) c w by (simp add: wait_event_def)
    have lv: "live (p_state (kproc s' i)) = live (p_state (kproc s i))" if "i < NPROC" for i
    proof -
      have "unlock (kproc s2 i) = unlock (kproc ?s1 i)" using samek_proc [OF 2(5), of i] that samek_fields(6) [OF k1(3)] p(3) by (simp add: kproc_def)
      then show ?thesis using unlock_live u1 [OF that] e by metis
    qed
    show ?thesis
      by (rule servedI [of _ "Some (-1)" s'])
        (use 2(1,4) samek_fields(5) [OF 2(5)] c1 w e lv in \<open>auto simp: sys_wait_def argaddr_Ok intro!: safeI [OF s'(2) c]\<close>)
  next
    case (3 s2 k')
    have e: "s2\<lparr>kern := k'\<rparr> = s'" using s'(1) 3(1,2) c w by (simp add: wait_event_def switched_def on_kern_def)
    have lv: "live (p_state (kproc s' i)) = live (p_state (kproc s i))" if "i < NPROC" for i
    proof -
      have "mask (kproc s' i) = mask (kproc ?s1 i)" using ukeep_fields(4) [OF 3(8), of i] that samek_fields(6) [OF k1(3)] p(3) by (simp add: kproc_def e [symmetric])
      then show ?thesis using mask_fields(9) unlock_live [OF u1 [OF that]] by metis
    qed
    have sf: "safe kend t p K s free s'" by (rule safeI [OF s'(2) c]) (simp add: lv)
    show ?thesis by (rule servedI [OF _ sf, of _ None]) (use 3(1,2) w e in \<open>simp_all add: sys_wait_def argaddr_Ok switched_def on_kern_def\<close>)
  qed
qed

text \<open>\<^verbatim>\<open>exit\<close> ends the process once the file system has let go of its files.\<close>

lemma exit_safe:
  assumes ok: "sys_ok kend t K s free" and r: "running (kern s)" and c: "c_proc (kern s) = Some p"
    and x: "exit kend st s = Ok s3" "switched (Some p) s3 = Ok s'"
  shows "safe kend t p K s free s'"
proof -
  note cs = running_calls [OF ok r]
  have ni: "initproc (kern s) \<noteq> Some p" using x(1) c by (auto simp: exit_def)
  have run: "sexec kend t undefined (Exit st) s = Some (Ok s')" using x c by simp
  have g: "good_step kend t K s free s'" by (rule exit_step' [OF ok _ run]) (use cs ni c in simp)
  obtain s1 s2 where cl: "close_ofiles kend p [0..<NOFILE] s = Ok s1" "leave_cwd p s1 = Ok s2"
    using x(1) c ni by (auto simp: exit_def bind_res_Ok_iff)
  have sm: "sys_mem kend t K s free" and pk: "pipe_ok K (kfiles s)" using ok by (simp_all add: sys_ok_def)
  obtain p' where "c_proc (kern s) = Some p'" "files_open s p'" by (rule calls_running [OF ok cs])
  then have fo: "files_open s p" using c by simp
  obtain s4 k' where k': "exit kend st s = Ok s4" "dequeue_return p (kern s4) = Ok k'"
      "\<forall>j < NPROC. j \<noteq> p \<longrightarrow> mask (procs k' ! j) = mask (adopt p (initproc (kern s)) (kproc s j))"
    by (rule exit_result [OF sm r c ni pk fo cl])
  have kp: "kproc s' j = procs k' ! j" for j using k'(1,2) x by (auto simp: switched_def on_kern_def kproc_def)
  have "live (p_state (kproc s' j)) = live (p_state (kproc s j))" if "j < NPROC" "j \<noteq> p" for j
    using mask_fields(9) [of "procs k' ! j" "adopt p (initproc (kern s)) (kproc s j)"] k'(3) that by (simp add: kp adopt_def)
  then show ?thesis by (intro safeI [OF g c]) auto
qed

text \<open>The calls that only look at the scheduler's part.\<close>

lemma safe_lock:
  assumes ok: "sys_ok kend t K s free" and r: "running (kern s)"
  obtains k where "acquire_lk l (kern s) = Ok k" "running_with l k" "samek (kern s) k" "safe kend t p K s free (s\<lparr>kern := k\<rparr>)"
proof -
  obtain k where k: "acquire_lk l (kern s) = Ok k" "locks {l} {} k" "samek (kern s) k"
    by (rule locks_acquire_lk [of "{}" "{}" "kern s" l]) (use r in \<open>simp_all add: runs_running\<close>)
  have rw: "running_with l k" unfolding runs_running_with using runs_samek [OF _ k(3)] r k(2) by (simp add: runs_running)
  have "safe kend t p K s free (s\<lparr>kern := k\<rparr>)"
    by (rule safe_kern [OF ok samek_ukeep [OF k(3)]]) (use rw in \<open>auto simp: kernel_ok_def\<close>)
  then show ?thesis using that k rw by blast
qed

lemma safe_unlock:
  assumes ok: "sys_ok kend t K s free" and r: "running_with l (kern s)"
  obtains k where "release_lk l (kern s) = Ok k" "running k" "samek (kern s) k" "safe kend t p K s free (s\<lparr>kern := k\<rparr>)"
proof -
  obtain k where k: "release_lk l (kern s) = Ok k" "locks ({l} - {l}) {} k" "samek (kern s) k"
    by (rule locks_release_lk [of "{l}" "{}" "kern s" l]) (use r in \<open>simp_all add: runs_running_with\<close>)
  have rw: "running k" unfolding runs_running using runs_samek [OF _ k(3)] r k(2) by (simp add: runs_running_with)
  have "safe kend t p K s free (s\<lparr>kern := k\<rparr>)"
    by (rule safe_kern [OF ok samek_ukeep [OF k(3)]]) (use rw in \<open>auto simp: kernel_ok_def\<close>)
  then show ?thesis using that k rw by blast
qed

lemma safe_killed:
  assumes ok: "sys_ok kend t K s free" and l: "locks L {} (kern s)" "L = {} \<or> (\<exists>l. L = {l})" "runs (kern s)" and c: "c_proc (kern s) = Some p"
  obtains k where "killed p (kern s) = Ok (p_killed (kproc s p), k)" "locks L {} k" "runs k" "samek (kern s) k" "safe kend t p K s free (s\<lparr>kern := k\<rparr>)"
proof -
  obtain k where k: "killed p (kern s) = Ok (p_killed (procs (kern s) ! p), k)" "locks L {} k" "samek (kern s) k"
    by (rule killed_ok [OF l(1)]) (use current(1) [OF ok c] in simp_all)
  have rw: "runs k" using runs_samek [OF l(3) k(3)] .
  have "kernel_ok k" using rw k(2) l(2) by (auto simp: kernel_ok_def runs_running runs_running_with)
  then have "safe kend t p K s free (s\<lparr>kern := k\<rparr>)" by (rule safe_kern [OF ok samek_ukeep [OF k(3)]])
  then show ?thesis using that k rw by (simp add: kproc_def)
qed

lemma sleep_turn_served:
  assumes ok: "sys_ok kend t K s free" and r: "running_with TicksLock (kern s)" and c: "c_proc (kern s) = Some p"
  shows "served kend t p K s free (sleep_turn ticks0 n p s)"
proof (cases "(int (ticks s) - int ticks0) mod 2 ^ 32 < n mod 2 ^ 32")
  case False
  obtain k where k: "release_lk TicksLock (kern s) = Ok k" "running k" "samek (kern s) k" "safe kend t p K s free (s\<lparr>kern := k\<rparr>)"
    by (rule safe_unlock [OF ok r])
  show ?thesis
    by (rule servedI [OF _ k(4)]) (use False k samek_fields(5) [OF k(3)] c in \<open>simp_all add: sleep_turn_def on_kern_def\<close>)
next
  case True
  obtain k1 where k1: "killed p (kern s) = Ok (p_killed (kproc s p), k1)" "locks {TicksLock} {} k1" "runs k1" "samek (kern s) k1"
      "safe kend t p K s free (s\<lparr>kern := k1\<rparr>)"
    by (rule safe_killed [OF ok, of "{TicksLock}"]) (use r c in \<open>auto simp: runs_running_with\<close>)
  let ?s1 = "s\<lparr>kern := k1\<rparr>"
  have c1: "c_proc k1 = Some p" using samek_fields(5) [OF k1(4)] c by simp
  have rw: "running_with TicksLock (kern ?s1)" using k1(2,3) by (simp add: runs_running_with)
  obtain K1 free1 where ok1: "sys_ok kend t K1 ?s1 free1" using safe_ok [OF k1(5)] by blast
  show ?thesis
  proof (cases "p_killed (kproc s p) = 0")
    case False
    obtain k where k: "release_lk TicksLock k1 = Ok k" "running k" "samek k1 k" using safe_unlock [OF ok1 rw] by auto
    have "safe kend t p K s free (s\<lparr>kern := k\<rparr>)"
    proof (rule safe_trans [OF k1(5)])
      fix K2 free2 assume "sys_ok kend t K2 ?s1 free2"
      then have "safe kend t p K2 ?s1 free2 (?s1\<lparr>kern := k\<rparr>)"
        by (rule safe_kern) (use samek_ukeep [OF k(3)] k(2) in \<open>simp_all add: kernel_ok_def\<close>)
      then show "safe kend t p K2 ?s1 free2 (s\<lparr>kern := k\<rparr>)" by simp
    qed
    then show ?thesis
      by (rule servedI [rotated]) (use True False k1(1) k samek_fields(5) [OF k(3)] c1 in \<open>simp_all add: sleep_turn_def on_kern_def\<close>)
  next
    case nk: True
    have lg: "legal (ESleep ChTicks TicksLock) (kern ?s1)" using rw by (simp add: running_with_def)
    obtain k where k: "kexec (ESleep ChTicks TicksLock) k1 = Ok k" "kernel_ok k" "ukeep k1 k" using safe_event [OF ok1 lg] by auto
    have "safe kend t p K s free (s\<lparr>kern := k\<rparr>)"
    proof (rule safe_trans [OF k1(5)])
      fix K2 free2 assume "sys_ok kend t K2 ?s1 free2"
      then have "safe kend t p K2 ?s1 free2 (?s1\<lparr>kern := k\<rparr>)" by (rule safe_kern) (use k(2,3) in simp_all)
      then show "safe kend t p K2 ?s1 free2 (s\<lparr>kern := k\<rparr>)" by simp
    qed
    then show ?thesis
      by (rule servedI [rotated]) (use True nk k1(1) k(1) in \<open>simp_all add: sleep_turn_def on_kern_def\<close>)
  qed
qed

lemma served_after:
  assumes "safe kend t p K s free s1" "\<And>K1 free1. sys_ok kend t K1 s1 free1 \<Longrightarrow> served kend t p K1 s1 free1 x"
  shows "served kend t p K s free x"
proof -
  obtain K1 free1 where "sys_ok kend t K1 s1 free1" using safe_ok [OF assms(1)] by blast
  from assms(2) [OF this] obtain r s' where x: "x = Some (Ok (r, s'))" "r \<noteq> None \<Longrightarrow> running (kern s') \<and> c_proc (kern s') = Some p"
    by (auto simp: served_def)
  have "safe kend t p K s free s'" by (rule safe_trans [OF assms(1)]) (use assms(2) x(1) in \<open>auto simp: served_def\<close>)
  then show ?thesis by (rule servedI [OF x(1)]) (use x(2) in blast)
qed

lemma sys_sleep_served:
  assumes ok: "sys_ok kend t K s free" and r: "running (kern s)" and c: "c_proc (kern s) = Some p"
  shows "served kend t p K s free (sys_sleep p s)"
proof -
  obtain n where n: "argint p 0 s = Ok n" using argint_Ok by blast
  obtain k where k: "acquire_lk TicksLock (kern s) = Ok k" "running_with TicksLock k" "samek (kern s) k" "safe kend t p K s free (s\<lparr>kern := k\<rparr>)"
    by (rule safe_lock [OF ok r])
  have "sys_sleep p s = sleep_turn (ticks s) n p (s\<lparr>kern := k\<rparr>)" using n k(1) by (simp add: sys_sleep_def on_kern_def)
  moreover have "served kend t p K s free (sleep_turn (ticks s) n p (s\<lparr>kern := k\<rparr>))"
    by (rule served_after [OF k(4) sleep_turn_served]) (use k(2) samek_fields(5) [OF k(3)] c in simp_all)
  ultimately show ?thesis by simp
qed

lemma sys_uptime_served:
  assumes ok: "sys_ok kend t K s free" and r: "running (kern s)" and c: "c_proc (kern s) = Some p"
  shows "served kend t p K s free (sys_uptime s)"
proof -
  obtain k where k: "acquire_lk TicksLock (kern s) = Ok k" "running_with TicksLock k" "samek (kern s) k" "safe kend t p K s free (s\<lparr>kern := k\<rparr>)"
    by (rule safe_lock [OF ok r])
  show ?thesis
  proof (rule served_after [OF k(4)])
    fix K1 free1 assume ok1: "sys_ok kend t K1 (s\<lparr>kern := k\<rparr>) free1"
    have rw: "running_with TicksLock (kern (s\<lparr>kern := k\<rparr>))" using k(2) by simp
    obtain k2 where k2: "release_lk TicksLock (kern (s\<lparr>kern := k\<rparr>)) = Ok k2" "running k2" "samek (kern (s\<lparr>kern := k\<rparr>)) k2"
        "safe kend t p K1 (s\<lparr>kern := k\<rparr>) free1 (s\<lparr>kern := k, kern := k2\<rparr>)"
      by (rule safe_unlock [OF ok1 rw])
    show "served kend t p K1 (s\<lparr>kern := k\<rparr>) free1 (sys_uptime s)"
      by (rule servedI [OF _ k2(4)]) (use k(1) k2(1,2) samek_fields(5) [OF k(3)] samek_fields(5) [OF k2(3)] c in \<open>simp_all add: sys_uptime_def on_kern_def Let_def\<close>)
  qed
qed

lemma sys_kill_served:
  assumes ok: "sys_ok kend t K s free" and r: "running (kern s)" and c: "c_proc (kern s) = Some p"
  shows "served kend t p K s free (sys_kill p s)"
proof -
  obtain pid where n: "argint p 0 s = Ok pid" using argint_Ok by blast
  have ki: "kinv (kern s)" using r by (simp add: running_def)
  obtain v k where k: "kill pid (kern s) = Ok (v, k)" "c_proc k = c_proc (kern s)" "noff (hart k) = noff (hart (kern s))"
    using kill_ok [OF ki, of pid] by blast
  have "legal (EKill pid) (kern s)" by simp
  from safe_event [OF ok this, of p] have s: "kernel_ok k" "safe kend t p K s free (s\<lparr>kern := k\<rparr>)" using k(1) by auto
  have "running k" by (rule kernel_ok_free [OF s(1)]) (use k r c in \<open>simp_all add: running_def\<close>)
  then show ?thesis by (intro servedI [OF _ s(2)]) (use n k c in \<open>simp_all add: sys_kill_def\<close>)
qed

text \<open>Copying from the data of the kernel to the process.\<close>

lemma kdata_safe:
  assumes ok: "sys_ok kend t K s free" and kd: "\<And>a. kend \<le> a \<Longrightarrow> m' a = kmemory (kmm s) a"
  shows "safe kend t p K s free (set_mem s ((kmm s)\<lparr>kmemory := m'\<rparr>))"
proof -
  let ?s = "set_mem s ((kmm s)\<lparr>kmemory := m'\<rparr>)"
  have sm: "sys_mem kend t K s free" using ok by (simp add: sys_ok_def)
  note o = own_kdata [OF sys_memD(1) [OF sm] kd]
  have "sys_mem kend t K ?s free" using sm o(1) by (simp add: sys_mem_def)
  moreover have "files_ok ?s" by (rule files_ok_cong [of s]) (use ok in \<open>simp_all add: sys_ok_def\<close>)
  moreover have "isolated (Some p) s ?s" by (rule isolated_calm [OF o(4)]) simp_all
  ultimately show ?thesis unfolding safe_def sys_ok_def using ok o(2) by (auto simp: sys_ok_def)
qed

lemma copyout_safe:
  assumes ok: "sys_ok kend t K s free" and c: "c_proc (kern s) = Some p" and t: "t mod 4096 = 0" "t < 2 ^ 56"
    and src: "src + len \<le> kend" "kend < 2 ^ 63"
  obtains r m where "copyout (adr (p_pagetable (kproc s p))) va src len (kmm s) = Ok (r, m)"
    "copied_out (kmm s) (adr (p_pagetable (kproc s p))) va src len r m" "safe kend t p K s free (set_mem s m)"
proof -
  note p = current [OF ok c]
  obtain tf pt where im: "image (kproc s p) = (Some tf, Some pt, p_sz (kproc s p))" using p(4) by blast
  have o: "own kend t K s free" using ok sys_memD(1) by (auto simp: sys_ok_def)
  have pt: "adr (p_pagetable (kproc s p)) = pt" using im by (simp add: image_def adr_def)
  have ph: "\<forall>q \<in> proc_pages s p. phys_page kend q" using own_facts(1) [OF o p(1)] image_phys by (auto simp: proc_pages_def)
  have ap: "apart (proc_pages s p) src len" using ph src(1) by (fastforce simp: apart_def in_page_def phys_page_def)
  have l: "src + len < 2 ^ 64" using src by simp
  obtain r m where "copyout pt va src len (kmm s) = Ok (r, m)" "copied_out (kmm s) pt va src len r m" "step_of kend t p s free (set_mem s m) free"
    by (rule copyout_step [OF o p(1) im t l ap])
  with safe_mem [OF ok c] pt that show ?thesis by blast
qed

lemma length_log_bytes: "length (log_bytes es) = 8 * length es"
  by (induction es) (simp_all add: log_bytes_def)

lemma sys_getlog_served:
  assumes ok: "sys_ok kend t K s free" and r: "running (kern s)" and c: "c_proc (kern s) = Some p" and t: "t mod 4096 = 0" "t < 2 ^ 56"
    and sl: "slog + 8 * LOG_SIZE \<le> kend" "kend < 2 ^ 63" "length (schedlog (kern s)) = LOG_SIZE"
  shows "served kend t p K s free (sys_getlog slog p s)"
proof -
  define m0 where "m0 = Cmem.store slog (log_bytes (schedlog (kern s))) (kmemory (kmm s))"
  define s0 where "s0 = set_mem s ((kmm s)\<lparr>kmemory := m0\<rparr>)"
  have "safe kend t p K s free s0" unfolding s0_def
    by (rule kdata_safe [OF ok]) (use sl in \<open>simp add: m0_def Cmem.store_def length_log_bytes\<close>)
  then show ?thesis
  proof (rule served_after)
    fix K1 free1 assume ok1: "sys_ok kend t K1 s0 free1"
    have c1: "c_proc (kern s0) = Some p" using c by (simp add: s0_def)
    obtain v m where v: "copyout (adr (p_pagetable (kproc s0 p))) (tf_read p TF_A0 s) slog (8 * LOG_SIZE) (kmm s0) = Ok (v, m)"
        "safe kend t p K1 s0 free1 (set_mem s0 m)"
      by (rule copyout_safe [OF ok1 c1 t sl(1,2)])
    have e: "set_mem s0 m = set_mem s m" "kmm s0 = (kmm s)\<lparr>kmemory := m0\<rparr>" "kproc s0 p = kproc s p" by (simp_all add: s0_def set_mem_def kproc_def)
    show "served kend t p K1 s0 free1 (sys_getlog slog p s)"
      by (rule servedI [OF _ v(2)]) (use v(1) r c in \<open>simp_all add: sys_getlog_def argaddr_Ok m0_def [symmetric] e\<close>)
  qed
qed

lemma sys_startlog_served:
  assumes ok: "sys_ok kend t K s free" and r: "running (kern s)" and c: "c_proc (kern s) = Some p"
  shows "served kend t p K s free (let (r, k) = sys_startlog (kern s) in Some (Ok (Some r, s\<lparr>kern := k\<rparr>)))"
proof -
  define k where "k = snd (sys_startlog (kern s))"
  have k: "k = kern s \<or> k = (kern s)\<lparr>is_logging := 1\<rparr>" by (simp add: k_def sys_startlog_def)
  then have run: "running k" "c_proc k = Some p" "ukeep (kern s) k"
    using r c by (auto simp: running_def kinv_def sched_ok_def resumable_def no_locks_def intro: ukeep_same)
  have "safe kend t p K s free (s\<lparr>kern := k\<rparr>)" by (rule safe_kern [OF ok run(3)]) (use run in \<open>simp add: kernel_ok_def\<close>)
  then show ?thesis by (rule servedI [rotated]) (use run in \<open>simp_all add: k_def case_prod_unfold Let_def\<close>)
qed

section \<open>Dispatch\<close>

text \<open>What the environment of a system call provides.\<close>

definition kernel_image :: "nat \<Rightarrow> nat \<Rightarrow> (nat \<Rightarrow> nat) \<Rightarrow> nat \<Rightarrow> bool" where
  "kernel_image kend t xa slog \<longleftrightarrow> t mod 4096 = 0 \<and> t < 2 ^ 56 \<and> (\<forall>j < NPROC. xa j + 4 \<le> kend) \<and> slog + 8 * LOG_SIZE \<le> kend \<and> kend < 2 ^ 63"

text \<open>
  The calls on processes but \<^verbatim>\<open>exit\<close>, which may have to wait for the file system, and \<^verbatim>\<open>nice\<close>,
  which breaks the ready queues.
\<close>

definition process_call :: "int \<Rightarrow> bool" where
  "process_call num \<longleftrightarrow> num \<in> {1, 3, 6, 11, 12, 13, 14, 22, 23}"

lemma call_served:
  assumes "sys_ok kend t K s free" "running (kern s)" "c_proc (kern s) = Some p" "kernel_image kend t xa slog"
    "length (schedlog (kern s)) = LOG_SIZE" "process_call num"
  shows "\<exists>x. call kend t xa slog num p s = Answered x \<and> served kend t p K s free x"
proof -
  have i: "t mod 4096 = 0" "t < 2 ^ 56" "\<forall>j < NPROC. xa j + 4 \<le> kend" "slog + 8 * LOG_SIZE \<le> kend" "kend < 2 ^ 63"
    using assms(4) by (simp_all add: kernel_image_def)
  have pid: "served kend t p K s free (sys_getpid p s)"
    by (rule servedI [OF _ safe_refl [OF assms(1)]]) (use assms(2,3) in \<open>simp_all add: sys_getpid_def\<close>)
  from assms(6) consider "num = 1" | "num = 3" | "num = 6" | "num = 11" | "num = 12" | "num = 13" | "num = 14" | "num = 22" | "num = 23"
    by (auto simp: process_call_def)
  then show ?thesis
    using fork_served [OF assms(1-3) i(1,2)] wait_served [OF assms(1-3) i(1-3,5)] sys_kill_served [OF assms(1-3)] pid
      sbrk_served [OF assms(1-3)] sys_sleep_served [OF assms(1-3)] sys_uptime_served [OF assms(1-3)] sys_startlog_served [OF assms(1-3)]
      sys_getlog_served [OF assms(1-3) i(1,2,4,5) assms(5)]
    by cases (simp_all add: call_def)
qed

lemma set_a0_kern [simp]: "kern (set_a0 p v s) = kern s"
  by (simp add: set_a0_def tf_write_def)

lemma set_a0_safe: "sys_ok kend t K s free \<Longrightarrow> c_proc (kern s) = Some p \<Longrightarrow> safe kend t p K s free (set_a0 p v s)"
  unfolding set_a0_def by (rule tf_write_safe) simp_all

lemma syscall_safe_step:
  assumes "sys_ok kend t K s free" "running (kern s)" "c_proc (kern s) = Some p" "kernel_image kend t xa slog"
    "length (schedlog (kern s)) = LOG_SIZE" and num: "num = s32 (int (tf_read p TF_A7 s))" "process_call num \<or> num \<le> 0 \<or> 25 \<le> num"
  shows "\<exists>e s'. syscall kend t xa slog p s = Some (Ok (e, s')) \<and> e \<in> {Back, Away} \<and> safe kend t p K s free s' \<and>
    (e = Back \<longrightarrow> running (kern s') \<and> c_proc (kern s') = Some p)"
proof (cases "process_call num")
  case True
  obtain x where x: "call kend t xa slog num p s = Answered x" "served kend t p K s free x" using call_served [OF assms(1-5) True] by blast
  then obtain r s1 where r: "x = Some (Ok (r, s1))" "safe kend t p K s free s1" "r \<noteq> None \<Longrightarrow> running (kern s1) \<and> c_proc (kern s1) = Some p"
    by (auto simp: served_def)
  show ?thesis
  proof (cases r)
    case None
    then show ?thesis using x(1) r(1,2) num(1) by (simp add: syscall_def)
  next
    case (Some v)
    have "safe kend t p K s free (set_a0 p v s1)" by (rule safe_trans [OF r(2) set_a0_safe]) (use r(3) Some in simp_all)
    then show ?thesis using x(1) r(1,3) num(1) Some by (simp add: syscall_def)
  qed
next
  case False
  then have "call kend t xa slog num p s = Unknown" using num(2) by (auto simp: call_def)
  then show ?thesis using set_a0_safe [OF assms(1,3), of "-1"] assms(2,3) num(1) by (simp add: syscall_def)
qed

end
