(* ===== verification/Trap.thy ===== *)
theory Trap
  imports Syscall_Safe
begin

text \<open>
  Traps (\<^verbatim>\<open>kernel/trap.c\<close>): from user mode by \<^verbatim>\<open>usertrap\<close> and back by \<^verbatim>\<open>usertrapret\<close>, from kernel mode
  by \<^verbatim>\<open>kerneltrap\<close>, and device interrupts. The supervisor registers that the hardware sets are
  arguments: \<open>scause\<close>, \<open>sepc\<close> and \<open>spp\<close>, the bit of \<^verbatim>\<open>sstatus\<close> that says whether the trap came from
  supervisor mode; \<open>irq\<close> is what the PLIC hands out. The disk of the buffer cache has always
  finished its requests, so its interrupt has nothing left to do. Messages on the console are left out.
\<close>

section \<open>Addresses and registers\<close>

text \<open>Addresses of the kernel image and values of registers that traps use.\<close>

record kenv =
  k_end :: nat
  k_tramp :: nat
  k_xaddr :: "nat \<Rightarrow> nat"
  k_slog :: nat
  k_cons :: nat
  k_tx :: nat
  k_satp :: nat
  k_usertrap :: nat
  k_hartid :: nat

abbreviation (input) TF_KSATP :: nat where "TF_KSATP \<equiv> 0"
abbreviation (input) TF_KSP :: nat where "TF_KSP \<equiv> 8"
abbreviation (input) TF_KTRAP :: nat where "TF_KTRAP \<equiv> 16"
abbreviation (input) TF_HARTID :: nat where "TF_HARTID \<equiv> 32"
abbreviation (input) SSTATUS_SPP :: nat where "SSTATUS_SPP \<equiv> 8"
abbreviation (input) SSTATUS_SPIE :: nat where "SSTATUS_SPIE \<equiv> 5"
abbreviation (input) UART0_IRQ :: nat where "UART0_IRQ \<equiv> 10"

definition intr_set :: "bool \<Rightarrow> ksys \<Rightarrow> ksys" where
  "intr_set b s = s\<lparr>kern := (kern s)\<lparr>hart := (hart (kern s))\<lparr>intr := b\<rparr>\<rparr>\<rparr>"

section \<open>Device interrupts\<close>

definition clockintr :: "ksys \<Rightarrow> ksys res" where
  "clockintr s =
     bind_res (on_kern (acquire_lk TicksLock) s) (\<lambda>s.
     let s = s\<lparr>ticks := (ticks s + 1) mod 2 ^ 32\<rparr>
     in bind_res (on_kern (wakeup ChTicks) s) (on_kern (release_lk TicksLock)))"

text \<open>
  The UART interrupt: a finished line wakes the readers of the console, a byte that went out
  wakes the writers.
\<close>

definition uart_event :: "kenv \<Rightarrow> ksys \<Rightarrow> ksys res option" where
  "uart_event e s =
     (let c = kcons (kfiles s); u = kuart (kfiles s)
      in case uartintr (procs (kern s)) c u of
           None \<Rightarrow> None
         | Some (c', u') \<Rightarrow>
             let s = s\<lparr>kfiles := (kfiles s)\<lparr>kcons := c', kuart := u'\<rparr>\<rparr>
             in Some (bind_res (if cw c' \<noteq> cw c then on_kern (wakeup (ChAddr (k_cons e))) s else Ok s) (\<lambda>s.
                      if uart_tx_r u' \<noteq> uart_tx_r u then on_kern (wakeup (ChAddr (k_tx e))) s else Ok s)))"

text \<open>
  \<^verbatim>\<open>devintr\<close>: 2 for the timer, 1 for another device, 0 when the cause is neither. The model has one hart, number 0, so
  the test \<^verbatim>\<open>cpuid() == 0\<close> before \<^verbatim>\<open>clockintr\<close> holds.
\<close>

definition devintr :: "kenv \<Rightarrow> nat \<Rightarrow> nat \<Rightarrow> ksys \<Rightarrow> (nat \<times> ksys) res option" where
  "devintr e scause irq s =
     (if bit scause 63 \<and> scause mod 256 = 9 then
        bind_ro (if irq = UART0_IRQ then uart_event e s else Some (Ok s)) (\<lambda>s. Some (Ok (1, s)))
      else if scause = 2 ^ 63 + 1 then
        bind_ro (Some (clockintr s)) (\<lambda>s. Some (Ok (2, s)))
      else Some (Ok (0, s)))"

definition tick_time :: "ksys \<Rightarrow> ksys" where
  "tick_time s = s\<lparr>kern := (kern s)\<lparr>time := s32 (time (kern s) + 1)\<rparr>\<rparr>"

section \<open>Back to user mode\<close>

text \<open>The registers that \<^verbatim>\<open>sret\<close> and the trampoline use.\<close>

record uregs =
  r_sepc :: nat
  r_sstatus :: nat
  r_satp :: nat

definition MAKE_SATP :: "nat \<Rightarrow> nat" where
  "MAKE_SATP pagetable = 8 * 2 ^ 60 + pagetable div 4096"

definition usertrapret :: "kenv \<Rightarrow> nat \<Rightarrow> nat \<Rightarrow> ksys \<Rightarrow> uregs \<times> ksys" where
  "usertrapret e sstatus p s =
     (let s = intr_set False s;
          s = tf_write p TF_KSATP (k_satp e) s;
          s = tf_write p TF_KSP (p_kstack (kproc s p) + PGSIZE) s;
          s = tf_write p TF_KTRAP (k_usertrap e) s;
          s = tf_write p TF_HARTID (k_hartid e) s;
          x = unset_bit SSTATUS_SPP sstatus;
          x = set_bit SSTATUS_SPIE x
      in (\<lparr>r_sepc = tf_read p TF_EPC s, r_sstatus = x, r_satp = MAKE_SATP (adr (p_pagetable (kproc s p)))\<rparr>, s))"

section \<open>Traps from user mode\<close>

definition die :: "kenv \<Rightarrow> nat \<Rightarrow> ksys \<Rightarrow> (trap_end \<times> ksys) res option" where
  "die e p s =
     bind_ro (Some (exit (k_end e) (-1) s)) (\<lambda>s.
     bind_ro (Some (switched (Some p) s)) (\<lambda>s. Some (Ok (Away, s))))"

text \<open>The end of \<^verbatim>\<open>usertrap\<close>; a process that yields goes on with \<^verbatim>\<open>usertrapret\<close> when it runs again.\<close>

definition trap_done :: "kenv \<Rightarrow> nat \<Rightarrow> nat \<Rightarrow> nat \<Rightarrow> ksys \<Rightarrow> (trap_end \<times> ksys) res option" where
  "trap_done e sstatus which p s =
     bind_ro (Some (killed p (kern s))) (\<lambda>(kl, k).
     let s = s\<lparr>kern := k\<rparr>
     in if kl \<noteq> 0 then die e p s
        else if which = 2 then
          bind_ro (Some (on_kern (switch_away yield) (tick_time s))) (\<lambda>s. Some (Ok (Away, s)))
        else Some (Ok (Back, snd (usertrapret e sstatus p s))))"

definition usertrap :: "kenv \<Rightarrow> nat \<Rightarrow> nat \<Rightarrow> nat \<Rightarrow> nat \<Rightarrow> ksys \<Rightarrow> (trap_end \<times> ksys) res option" where
  "usertrap e scause sepc sstatus irq s =
     (if bit sstatus SSTATUS_SPP then Some (Panic ''usertrap: not from user mode'')
      else
        case c_proc (kern s) of
          None \<Rightarrow> Some (Panic ''null process'')
        | Some p \<Rightarrow>
            let s = tf_write p TF_EPC sepc s
            in if scause = 8 then
                 bind_ro (Some (killed p (kern s))) (\<lambda>(kl, k).
                 let s = s\<lparr>kern := k\<rparr>
                 in if kl \<noteq> 0 then die e p s
                    else
                      let s = tf_write p TF_EPC (add64 (tf_read p TF_EPC s) 4) s;
                          s = intr_set True s
                      in bind_ro (syscall (k_end e) (k_tramp e) (k_xaddr e) (k_slog e) p s) (\<lambda>(te, s).
                         if te = Back then trap_done e sstatus 0 p s else Some (Ok (te, s))))
               else
                 bind_ro (devintr e scause irq s) (\<lambda>(which, s).
                 if which \<noteq> 0 then trap_done e sstatus which p s
                 else bind_ro (Some (on_kern (setkilled p) s)) (trap_done e sstatus 0 p)))"

section \<open>Traps from kernel mode\<close>

text \<open>\<open>False\<close> when the interrupted code has given up the processor.\<close>

definition kerneltrap :: "kenv \<Rightarrow> nat \<Rightarrow> nat \<Rightarrow> nat \<Rightarrow> ksys \<Rightarrow> (bool \<times> ksys) res option" where
  "kerneltrap e scause sstatus irq s =
     (if \<not> bit sstatus SSTATUS_SPP then Some (Panic ''kerneltrap: not from supervisor mode'')
      else if intr (hart (kern s)) then Some (Panic ''kerneltrap: interrupts enabled'')
      else
        bind_ro (devintr e scause irq s) (\<lambda>(which, s).
        if which = 0 then Some (Panic ''kerneltrap'')
        else
          let s = (if which = 2 then tick_time s else s)
          in case c_proc (kern s) of
               None \<Rightarrow> Some (Ok (True, s))
             | Some p \<Rightarrow>
                 if which = 2 \<and> p_state (kproc s p) = RUNNING then
                   bind_ro (Some (on_kern (switch_away yield) s)) (\<lambda>s. Some (Ok (False, s)))
                 else Some (Ok (True, s))))"

end
