(* ===== verification/Trap_Safe.thy ===== *)
theory Trap_Safe
  imports Trap
begin

text \<open>
  Traps keep the invariant of the system and leave the other processes alone, whatever user code does
  to cause them; and what the timer does.
\<close>

section \<open>Steps outside the processes\<close>

lemma safe_rest:
  assumes ok: "sys_ok kend t K s free" and k: "kern s' = kern s" "kmm s' = kmm s"
    and f: "ftable (kfiles s') = ftable (kfiles s)" "pipes (kfiles s') = pipes (kfiles s)"
  shows "safe kend t p K s free s'"
proof -
  have kp: "kproc s' = kproc s" using k(1) by (simp add: kproc_def fun_eq_iff)
  have "pipe_ok K (kfiles s') = pipe_ok K (kfiles s)" by (rule pipe_ok_cong) (simp_all add: f)
  then have "sys_ok kend t K s' free"
    using ok unfolding sys_ok_def sys_mem_def own_def files_ok_def counted_def fd_count_def kp k f by blast
  moreover have "pages K s' free = pages K s free" by (simp add: pages_def kp k)
  moreover have "isolated (Some p) s s'" by (simp add: isolated_def kp proc_pages_def k same_on_def)
  ultimately show ?thesis by (auto simp: safe_def kp)
qed

lemma safe_intr:
  assumes ok: "sys_ok kend t K s free" and r: "running (kern s)"
  shows "safe kend t p K s free (intr_set b s)" "running (kern (intr_set b s))"
proof -
  let ?k = "(kern s)\<lparr>hart := (hart (kern s))\<lparr>intr := b\<rparr>\<rparr>"
  have "running ?k" using r by (simp add: running_def kinv_def sched_ok_def resumable_def no_locks_def hart_ok_def)
  then show "running (kern (intr_set b s))" by (simp add: intr_set_def)
  then show "safe kend t p K s free (intr_set b s)" unfolding intr_set_def
    by (intro safe_kern [OF ok ukeep_same]) (simp_all add: kernel_ok_def)
qed

lemma tick_time_ok:
  assumes ok: "sys_ok kend t K s free"
  shows "safe kend t p K s free (tick_time s)"
  unfolding tick_time_def
proof (rule safe_kern [OF ok ukeep_same])
  show "kernel_ok ((kern s)\<lparr>time := s32 (time (kern s) + 1)\<rparr>)"
    using ok by (auto simp: sys_ok_def kernel_ok_def at_scheduler_def running_def running_with_def kinv_def sched_ok_def resumable_def no_locks_def)
qed simp_all

section \<open>Wakeups spare the kill flags\<close>

definition kflags :: "kernel \<Rightarrow> int list" where
  "kflags k = map p_killed (procs k)"

lemma kflags_upd [simp]: "(\<And>p. p_killed (f p) = p_killed p) \<Longrightarrow> kflags (upd_proc i f k) = kflags k"
  by (cases "i < length (procs k)") (simp_all add: kflags_def upd_proc_def map_update list_update_same_conv list_update_beyond)

lemma kflags_rest [simp]:
  "kflags (k\<lparr>hart := h\<rparr>) = kflags k" "kflags (k\<lparr>qtable := q\<rparr>) = kflags k" "kflags (k\<lparr>klocks := l\<rparr>) = kflags k"
  "kflags (k\<lparr>isQueueSetup := n\<rparr>) = kflags k"
  by (simp_all add: kflags_def)

lemma kflags_lock: "acquire_p i k = Ok k' \<Longrightarrow> kflags k' = kflags k" "release_p i k = Ok k' \<Longrightarrow> kflags k' = kflags k"
  by (auto simp: acquire_p_def release_p_def bind_res_Ok_iff)

lemma kflags_runnable: "kflags (make_runnable i k) = kflags k"
  by (simp add: make_runnable_def ensure_setup_def setupQueue_def enqueue_def Let_def split: prod.splits)

lemma wakeup_kflags: "wakeup_procs ch is k = Ok k' \<Longrightarrow> kflags k' = kflags k"
proof (induction "is" arbitrary: k)
  case (Cons i "is")
  show ?case
  proof (cases "Some i \<noteq> c_proc k")
    case True
    then obtain k1 k2 where k: "acquire_p i k = Ok k1" "release_p i (if p_state (procs k1 ! i) = SLEEPING \<and> p_chan (procs k1 ! i) = ch
          then make_runnable i k1 else k1) = Ok k2" "wakeup_procs ch is k2 = Ok k'"
      using Cons.prems by (auto simp: bind_res_Ok_iff Let_def)
    have "kflags k2 = kflags k1" using kflags_lock(2) [OF k(2)] kflags_runnable by simp
    then show ?thesis using Cons.IH [OF k(3)] kflags_lock(1) [OF k(1)] by simp
  qed (use Cons in simp)
qed simp

section \<open>The clock\<close>

text \<open>What \<^verbatim>\<open>wakeup\<close> leaves behind, wherever the hart is.\<close>

definition woken :: "chan \<Rightarrow> kernel \<Rightarrow> kernel \<Rightarrow> bool" where
  "woken ch k k' \<longleftrightarrow> c_proc k' = c_proc k \<and> kflags k' = kflags k \<and>
     (\<forall>j < NPROC. p_state (procs k' ! j) =
        (if p_state (procs k ! j) = SLEEPING \<and> p_chan (procs k ! j) = ch then RUNNABLE else p_state (procs k ! j)))"

lemma wakeup_woken:
  assumes "kinv k"
  shows "\<exists>k'. wakeup ch k = Ok k' \<and> kinv k' \<and> noff (hart k') = noff (hart k) \<and> klocks k' = klocks k \<and> woken ch k k' \<and> ukeep k k' \<and>
    (\<forall>j. p_resume (procs k' ! j) = p_resume (procs k ! j))"
proof -
  obtain k' where k': "wakeup ch k = Ok k'" "kinv k'" "c_proc k' = c_proc k" "noff (hart k') = noff (hart k)" "klocks k' = klocks k"
    "\<forall>j. p_state (procs k' ! j) = (if j < NPROC \<and> Some j \<noteq> c_proc k \<and> p_state (procs k ! j) = SLEEPING \<and> p_chan (procs k ! j) = ch
        then RUNNABLE else p_state (procs k ! j)) \<and> p_chan (procs k' ! j) = p_chan (procs k ! j) \<and> p_resume (procs k' ! j) = p_resume (procs k ! j)"
    using wakeup_ok [OF assms, of ch] by blast
  have nc: "Some j \<noteq> c_proc k" if "j < NPROC" "p_state (procs k ! j) = SLEEPING" for j
    using kinvD(6) [OF assms that(1)] that(2) by auto
  have fl: "kflags k' = kflags k" using wakeup_kflags k'(1) unfolding wakeup_def by blast
  have "p_state (procs k' ! j) = (if p_state (procs k ! j) = SLEEPING \<and> p_chan (procs k ! j) = ch then RUNNABLE else p_state (procs k ! j))"
    if j: "j < NPROC" for j
  proof -
    have "p_state (procs k' ! j) = (if j < NPROC \<and> Some j \<noteq> c_proc k \<and> p_state (procs k ! j) = SLEEPING \<and> p_chan (procs k ! j) = ch
        then RUNNABLE else p_state (procs k ! j))" using k'(6) by blast
    then show ?thesis using nc [OF j] j by (simp split: if_splits)
  qed
  then have "woken ch k k'" unfolding woken_def using k'(3) fl by blast
  then show ?thesis using k' wakeup_keeps [OF k'(1)] by blast
qed

lemma clockintr_ok:
  assumes ko: "kernel_ok (kern s)" and n: "noff (hart (kern s)) = 0"
  obtains k where "clockintr s = Ok (s\<lparr>ticks := (ticks s + 1) mod 2 ^ 32, kern := k\<rparr>)" "kernel_ok k" "noff (hart k) = 0"
    "ukeep (kern s) k" "woken ChTicks (kern s) k"
proof -
  let ?k = "kern s"
  have ki: "kinv ?k" "resumable ?k" using kernel_okD [OF ko] by simp_all
  have nl: "no_locks ?k" using ko n by (auto simp: kernel_ok_def at_scheduler_def running_def running_with_def)
  define k1 where "k1 = ?k\<lparr>klocks := (klocks ?k)(TicksLock := held), hart := push_off (hart ?k)\<rparr>"
  have a: "acquire_lk TicksLock ?k = Ok k1" unfolding k1_def by (rule acquire_lk_free) (use nl in \<open>simp add: no_locks_def\<close>)
  have ki1: "kinv k1" using ki(1) push_off_ok by (simp add: k1_def kinv_def sched_ok_def)
  obtain k2 where k2: "wakeup ChTicks k1 = Ok k2" "kinv k2" "noff (hart k2) = noff (hart k1)" "klocks k2 = klocks k1" "woken ChTicks k1 k2"
      "ukeep k1 k2" "\<forall>j. p_resume (procs k2 ! j) = p_resume (procs k1 ! j)"
    using wakeup_woken [OF ki1] by blast
  have n2: "noff (hart k2) = 1" using k2(3) n by (simp add: k1_def)
  have h2: "hart_ok (hart k2)" using k2(2) by (simp add: kinv_def)
  define k3 where "k3 = k2\<lparr>klocks := (klocks k2)(TicksLock := initlock), hart := pop (hart k2)\<rparr>"
  have r: "release_lk TicksLock k2 = Ok k3" unfolding k3_def
    by (rule release_lk_held) (use k2(4) n2 h2 in \<open>simp_all add: k1_def hart_ok_def\<close>)
  have nl3: "no_locks k3" using nl k2(4) by (simp add: k3_def k1_def no_locks_def initlock_def)
  have ki3: "kinv k3" using k2(2) n2 by (auto simp: k3_def kinv_def sched_ok_def hart_ok_def)
  have n3: "noff (hart k3) = 0" using n2 by (simp add: k3_def)
  have st: "p_state (procs k3 ! j) = (if p_state (procs ?k ! j) = SLEEPING \<and> p_chan (procs ?k ! j) = ChTicks then RUNNABLE else p_state (procs ?k ! j))"
    if "j < NPROC" for j using k2(5) that by (simp add: woken_def k3_def k1_def)
  have "resumable k3" using ki(2) st k2(7) by (auto simp: resumable_def k3_def k1_def split: if_splits)
  then have k3: "kernel_ok k3" using ki3 n3 nl3 by (auto simp: kernel_ok_def at_scheduler_def running_def)
  have "ukeep ?k k1" "ukeep k2 k3" by (simp_all add: ukeep_def k1_def k3_def)
  then have u: "ukeep ?k k3" using k2(6) ukeep_trans by blast
  have "woken ChTicks ?k k3" using k2(5) st by (simp add: woken_def k3_def k1_def kflags_def)
  moreover have "clockintr s = Ok (s\<lparr>ticks := (ticks s + 1) mod 2 ^ 32, kern := k3\<rparr>)"
    using a k2(1) r by (simp add: clockintr_def on_kern_def)
  ultimately show ?thesis using that k3 n3 u by blast
qed

section \<open>Devices\<close>

text \<open>A step of the trap after which the process still runs in the kernel, with no lock held.\<close>

definition goes_on :: "nat \<Rightarrow> nat \<Rightarrow> nat \<Rightarrow> nat set \<Rightarrow> ksys \<Rightarrow> nat list \<Rightarrow> ksys \<Rightarrow> bool" where
  "goes_on kend t p K s free s' \<longleftrightarrow> safe kend t p K s free s' \<and> running (kern s') \<and> c_proc (kern s') = Some p"

lemma goes_on_trans:
  assumes "goes_on kend t p K s free s1"
    and "\<And>K1 free1. sys_ok kend t K1 s1 free1 \<Longrightarrow> running (kern s1) \<Longrightarrow> c_proc (kern s1) = Some p \<Longrightarrow> goes_on kend t p K1 s1 free1 s2"
  shows "goes_on kend t p K s free s2"
proof -
  have a: "safe kend t p K s free s1" "running (kern s1)" "c_proc (kern s1) = Some p" using assms(1) by (simp_all add: goes_on_def)
  obtain K1 free1 where "sys_ok kend t K1 s1 free1" using safe_ok [OF a(1)] by blast
  then have "running (kern s2)" "c_proc (kern s2) = Some p" using assms(2) a(2,3) by (simp_all add: goes_on_def)
  moreover have "safe kend t p K s free s2" by (rule safe_trans [OF a(1)]) (use assms(2) a(2,3) in \<open>simp add: goes_on_def\<close>)
  ultimately show ?thesis by (simp add: goes_on_def)
qed

lemma wakeup_goes_on:
  assumes ok: "sys_ok kend t K s free" and r: "running (kern s)" and c: "c_proc (kern s) = Some p"
  obtains k where "wakeup ch (kern s) = Ok k" "goes_on kend t p K s free (s\<lparr>kern := k\<rparr>)"
proof -
  have ki: "kinv (kern s)" using r by (simp add: running_def)
  obtain k where k: "wakeup ch (kern s) = Ok k" "noff (hart k) = noff (hart (kern s))" "woken ch (kern s) k" using wakeup_woken [OF ki] by blast
  have "legal (EWakeup ch) (kern s)" by simp
  from safe_event [OF ok this, of p] have s: "kernel_ok k" "safe kend t p K s free (s\<lparr>kern := k\<rparr>)" using k(1) by auto
  have "running k" by (rule kernel_ok_free [OF s(1)]) (use k r c in \<open>simp_all add: running_def woken_def\<close>)
  then show ?thesis using that k(1,3) s(2) c by (simp add: goes_on_def woken_def)
qed

lemma clock_goes_on:
  assumes ok: "sys_ok kend t K s free" and r: "running (kern s)" and c: "c_proc (kern s) = Some p"
  obtains k where "clockintr s = Ok (s\<lparr>ticks := (ticks s + 1) mod 2 ^ 32, kern := k\<rparr>)" "woken ChTicks (kern s) k" "ukeep (kern s) k"
    "goes_on kend t p K s free (s\<lparr>ticks := (ticks s + 1) mod 2 ^ 32, kern := k\<rparr>)"
proof -
  have ko: "kernel_ok (kern s)" "noff (hart (kern s)) = 0" using r by (simp_all add: kernel_ok_def running_def)
  obtain k where k: "clockintr s = Ok (s\<lparr>ticks := (ticks s + 1) mod 2 ^ 32, kern := k\<rparr>)" "kernel_ok k" "noff (hart k) = 0"
      "ukeep (kern s) k" "woken ChTicks (kern s) k" by (rule clockintr_ok [OF ko])
  have c': "c_proc k = Some p" using k(5) c by (simp add: woken_def)
  have "running k" by (rule kernel_ok_free [OF k(2)]) (use k(3) c' in simp_all)
  moreover have "safe kend t p K s free (s\<lparr>ticks := (ticks s + 1) mod 2 ^ 32, kern := k\<rparr>)"
    by (rule safe_trans [OF safe_kern [OF ok k(4,2)]]) (rule safe_rest, simp_all)
  ultimately show ?thesis using that k(1,4,5) c' by (simp add: goes_on_def)
qed

lemma uart_goes_on:
  assumes ok: "sys_ok kend t K s free" and r: "running (kern s)" and c: "c_proc (kern s) = Some p" and u: "uart_event e s = Some x"
  shows "\<exists>s'. x = Ok s' \<and> goes_on kend t p K s free s'"
proof -
  obtain c' u' where cu: "uartintr (procs (kern s)) (kcons (kfiles s)) (kuart (kfiles s)) = Some (c', u')"
    using u by (auto simp: uart_event_def Let_def split: option.splits)
  define s0 where "s0 = s\<lparr>kfiles := (kfiles s)\<lparr>kcons := c', kuart := u'\<rparr>\<rparr>"
  have g0: "goes_on kend t p K s free s0" using safe_rest [OF ok, of s0] r c by (simp add: goes_on_def s0_def)
  have maybe: "\<exists>s2. (if b then on_kern (wakeup ch) s1 else Ok s1) = Ok s2 \<and> goes_on kend t p K s free s2"
    if g1: "goes_on kend t p K s free s1" for b ch s1
  proof (cases b)
    case True
    have a: "safe kend t p K s free s1" "running (kern s1)" "c_proc (kern s1) = Some p" using g1 by (simp_all add: goes_on_def)
    obtain K1 free1 where ok1: "sys_ok kend t K1 s1 free1" using safe_ok [OF a(1)] by blast
    obtain k where k: "wakeup ch (kern s1) = Ok k" "goes_on kend t p K1 s1 free1 (s1\<lparr>kern := k\<rparr>)" by (rule wakeup_goes_on [OF ok1 a(2,3)])
    have "goes_on kend t p K s free (s1\<lparr>kern := k\<rparr>)"
    proof (rule goes_on_trans [OF g1])
      fix K2 free2 assume h: "sys_ok kend t K2 s1 free2" "running (kern s1)" "c_proc (kern s1) = Some p"
      show "goes_on kend t p K2 s1 free2 (s1\<lparr>kern := k\<rparr>)" by (rule wakeup_goes_on [OF h, of ch]) (use k(1) in simp)
    qed
    then show ?thesis using True k(1) by (simp add: on_kern_def)
  qed (use g1 in simp)
  obtain s1 where s1: "(if cw c' \<noteq> cw (kcons (kfiles s)) then on_kern (wakeup (ChAddr (k_cons e))) s0 else Ok s0) = Ok s1" "goes_on kend t p K s free s1"
    using maybe [OF g0] by blast
  obtain s2 where s2: "(if uart_tx_r u' \<noteq> uart_tx_r (kuart (kfiles s)) then on_kern (wakeup (ChAddr (k_tx e))) s1 else Ok s1) = Ok s2"
      "goes_on kend t p K s free s2"
    using maybe [OF s1(2)] by blast
  have "x = Ok s2" using u cu s1(1) s2(1) by (simp add: uart_event_def s0_def [symmetric] split: if_splits)
  then show ?thesis using s2(2) by blast
qed

lemma devintr_goes_on:
  assumes ok: "sys_ok kend t K s free" and r: "running (kern s)" and c: "c_proc (kern s) = Some p" and d: "devintr e scause irq s = Some x"
  shows "\<exists>w s'. x = Ok (w, s') \<and> goes_on kend t p K s free s'"
proof -
  have g: "goes_on kend t p K s free s" using safe_refl [OF ok] r c by (simp add: goes_on_def)
  obtain k where k: "clockintr s = Ok (s\<lparr>ticks := (ticks s + 1) mod 2 ^ 32, kern := k\<rparr>)"
      "goes_on kend t p K s free (s\<lparr>ticks := (ticks s + 1) mod 2 ^ 32, kern := k\<rparr>)"
    by (rule clock_goes_on [OF ok r c])
  show ?thesis
  proof (cases "bit scause 63 \<and> scause mod 256 = 9 \<and> irq = UART0_IRQ")
    case True
    then obtain y where y: "uart_event e s = Some y" using d by (cases "uart_event e s") (auto simp: devintr_def)
    obtain s' where "y = Ok s'" "goes_on kend t p K s free s'" using uart_goes_on [OF ok r c y] by blast
    then show ?thesis using d True y by (auto simp: devintr_def)
  qed (use d g k in \<open>auto simp: devintr_def split: if_splits\<close>)
qed

section \<open>Traps from user mode\<close>

lemma tf_goes_on:
  assumes "sys_ok kend t K s free" "running (kern s)" "c_proc (kern s) = Some p" "off + 8 \<le> 4096"
  shows "goes_on kend t p K s free (tf_write p off v s)"
  using tf_write_safe [OF assms(1,3,4)] assms(2,3) by (simp add: goes_on_def tf_write_def)

lemma tf_after:
  assumes "goes_on kend t p K s free s1" "off + 8 \<le> 4096"
  shows "goes_on kend t p K s free (tf_write p off v s1)"
  by (rule goes_on_trans [OF assms(1) tf_goes_on]) (use assms(2) in simp_all)

lemma usertrapret_goes_on:
  assumes "sys_ok kend t K s free" "running (kern s)" "c_proc (kern s) = Some p"
  shows "goes_on kend t p K s free (snd (usertrapret e sstatus p s))"
proof -
  have i: "goes_on kend t p K s free (intr_set False s)"
    using safe_intr [OF assms(1,2)] assms(3) by (simp add: goes_on_def intr_set_def)
  show ?thesis unfolding usertrapret_def Let_def snd_conv
    by (intro tf_after i) simp_all
qed

text \<open>All that the rest of a trap can do.\<close>

definition ends_safely :: "nat \<Rightarrow> nat \<Rightarrow> nat \<Rightarrow> nat set \<Rightarrow> ksys \<Rightarrow> nat list \<Rightarrow> (trap_end \<times> ksys) res option \<Rightarrow> bool" where
  "ends_safely kend t p K s free x \<longleftrightarrow> (\<forall>te s'. x = Some (Ok (te, s')) \<longrightarrow> safe kend t p K s free s' \<and>
     (te = Back \<longrightarrow> running (kern s') \<and> c_proc (kern s') = Some p))"

lemma ends_after:
  assumes "goes_on kend t p K s free s1"
    and "\<And>K1 free1. sys_ok kend t K1 s1 free1 \<Longrightarrow> running (kern s1) \<Longrightarrow> c_proc (kern s1) = Some p \<Longrightarrow> ends_safely kend t p K1 s1 free1 x"
  shows "ends_safely kend t p K s free x"
proof -
  have a: "safe kend t p K s free s1" "running (kern s1)" "c_proc (kern s1) = Some p" using assms(1) by (simp_all add: goes_on_def)
  obtain K1 free1 where ok1: "sys_ok kend t K1 s1 free1" using safe_ok [OF a(1)] by blast
  show ?thesis unfolding ends_safely_def
  proof (intro allI impI conjI)
    fix te s' assume x: "x = Some (Ok (te, s'))"
    show "safe kend t p K s free s'" by (rule safe_trans [OF a(1)]) (use assms(2) a(2,3) x in \<open>simp add: ends_safely_def\<close>)
    show "running (kern s')" "c_proc (kern s') = Some p" if "te = Back" using assms(2) [OF ok1 a(2,3)] x that by (simp_all add: ends_safely_def)
  qed
qed

lemma die_safe:
  assumes "sys_ok (k_end e) t K s free" "running (kern s)" "c_proc (kern s) = Some p"
  shows "ends_safely (k_end e) t p K s free (die e p s)"
  using exit_safe [OF assms] by (auto simp: ends_safely_def die_def bind_ro_Ok_iff)

lemma killed_goes_on:
  assumes ok: "sys_ok kend t K s free" and r: "running (kern s)" and c: "c_proc (kern s) = Some p"
  obtains k where "killed p (kern s) = Ok (p_killed (kproc s p), k)" "samek (kern s) k" "goes_on kend t p K s free (s\<lparr>kern := k\<rparr>)"
proof -
  obtain k where k: "killed p (kern s) = Ok (p_killed (kproc s p), k)" "locks {} {} k" "runs k" "samek (kern s) k" "safe kend t p K s free (s\<lparr>kern := k\<rparr>)"
    by (rule safe_killed [OF ok, of "{}"]) (use r c in \<open>simp_all add: runs_running\<close>)
  then show ?thesis using that samek_fields(5) [OF k(4)] c by (simp add: goes_on_def runs_running)
qed

lemma yield_safe:
  assumes ok: "sys_ok kend t K s free" and r: "running (kern s)" and c: "c_proc (kern s) = Some p"
  shows "\<exists>s'. on_kern (switch_away yield) s = Ok s' \<and> safe kend t p K s free s'"
proof -
  have "legal EYield (kern s)" using r by (simp add: running_def)
  from safe_event [OF ok this, of p] show ?thesis by (auto simp: on_kern_def)
qed

lemma trap_done_safe:
  assumes ok: "sys_ok (k_end e) t K s free" and r: "running (kern s)" and c: "c_proc (kern s) = Some p"
  shows "ends_safely (k_end e) t p K s free (trap_done e sstatus which p s)"
proof -
  obtain k where k: "killed p (kern s) = Ok (p_killed (kproc s p), k)" "goes_on (k_end e) t p K s free (s\<lparr>kern := k\<rparr>)"
    by (rule killed_goes_on [OF ok r c])
  let ?s = "s\<lparr>kern := k\<rparr>"
  show ?thesis
  proof (rule ends_after [OF k(2)])
    fix K1 free1 assume h: "sys_ok (k_end e) t K1 ?s free1" "running (kern ?s)" "c_proc (kern ?s) = Some p"
    have tt: "goes_on (k_end e) t p K1 ?s free1 (tick_time ?s)"
      using tick_time_ok [OF h(1)] h(2,3) by (simp add: goes_on_def tick_time_def running_def kinv_def sched_ok_def resumable_def no_locks_def)
    have y: "ends_safely (k_end e) t p K1 ?s free1 (bind_ro (Some (on_kern (switch_away yield) (tick_time ?s))) (\<lambda>s. Some (Ok (Away, s))))"
      by (rule ends_after [OF tt]) (use yield_safe in \<open>fastforce simp: ends_safely_def\<close>)
    have u: "ends_safely (k_end e) t p K1 ?s free1 (Some (Ok (Back, snd (usertrapret e sstatus p ?s))))"
      using usertrapret_goes_on [OF h] by (simp add: ends_safely_def goes_on_def)
    show "ends_safely (k_end e) t p K1 ?s free1 (trap_done e sstatus which p s)"
      using die_safe [OF h] y u k(1) by (simp add: trap_done_def Let_def)
  qed
qed

lemma setkilled_goes_on:
  assumes ok: "sys_ok kend t K s free" and r: "running (kern s)" and c: "c_proc (kern s) = Some p"
  shows "\<exists>s'. on_kern (setkilled p) s = Ok s' \<and> goes_on kend t p K s free s'"
proof -
  note p = current(1) [OF ok c]
  have ki: "kinv (kern s)" using r by (simp add: running_def)
  obtain k where k: "setkilled p (kern s) = Ok k" "c_proc k = c_proc (kern s)" "noff (hart k) = noff (hart (kern s))"
    using setkilled_ok [OF ki p] by blast
  have "legal (ESetkilled p) (kern s)" using p by simp
  from safe_event [OF ok this, of p] have s: "kernel_ok k" "safe kend t p K s free (s\<lparr>kern := k\<rparr>)" using k(1) by auto
  have "running k" by (rule kernel_ok_free [OF s(1)]) (use k r c in \<open>simp_all add: running_def\<close>)
  then show ?thesis using k(1,2) s(2) c by (simp add: on_kern_def goes_on_def)
qed

text \<open>
  A system call with any number but that of \<^verbatim>\<open>nice\<close>: a call on processes, \<^verbatim>\<open>exit\<close>, a number that the table does
  not know, or the way to a call of \<^verbatim>\<open>sysfile.c\<close>.
\<close>

lemma sys_exit_safe:
  assumes "sys_ok kend t K s free" "running (kern s)" "c_proc (kern s) = Some p" "sys_exit kend p s = Some (Ok (r, s'))"
  shows "r = None" "safe kend t p K s free s'"
proof -
  obtain n s1 where "exit kend n s = Ok s1" "switched (Some p) s1 = Ok s'" "r = None"
    using assms(4) by (auto simp: sys_exit_def bind_ro_Ok_iff)
  then show "r = None" "safe kend t p K s free s'" using exit_safe [OF assms(1-3)] by auto
qed

lemma syscall_ends:
  assumes ok: "sys_ok kend t K s free" "running (kern s)" "c_proc (kern s) = Some p" and i: "kernel_image kend t xa slog"
    and l: "length (schedlog (kern s)) = LOG_SIZE" and n: "s32 (int (tf_read p TF_A7 s)) \<noteq> 24"
  shows "ends_safely kend t p K s free (syscall kend t xa slog p s)"
proof -
  define num where "num = s32 (int (tf_read p TF_A7 s))"
  consider "process_call num \<or> num \<le> 0 \<or> 25 \<le> num" | "num = 2" | "\<not> process_call num" "0 < num" "num < 25" "num \<noteq> 2" by fastforce
  then show ?thesis
  proof cases
    case 1
    then show ?thesis using syscall_safe_step [OF ok i l num_def] by (auto simp: ends_safely_def)
  next
    case 2
    then have "syscall kend t xa slog p s =
        bind_ro (sys_exit kend p s) (\<lambda>(r, s). case r of None \<Rightarrow> Some (Ok (Away, s)) | Some v \<Rightarrow> Some (Ok (Back, set_a0 p v s)))"
      by (simp add: syscall_def call_def num_def)
    then show ?thesis 
      using sys_exit_safe [OF ok] by (auto simp: ends_safely_def bind_ro_Ok_iff split: option.splits)
  next
    case 3
    then have "call kend t xa slog num p s = File_Call num" using n by (simp add: call_def process_call_def num_def)
    then show ?thesis using safe_refl [OF ok(1)] by (simp add: ends_safely_def syscall_def num_def)
  qed
qed

text \<open>How a trap for a system call goes on.\<close>

lemma ends_bind:
  assumes "ends_safely kend t p K s free x"
    and "\<And>K1 s1 free1. sys_ok kend t K1 s1 free1 \<Longrightarrow> running (kern s1) \<Longrightarrow> c_proc (kern s1) = Some p \<Longrightarrow> ends_safely kend t p K1 s1 free1 (f s1)"
  shows "ends_safely kend t p K s free (bind_ro x (\<lambda>(te, s). if te = Back then f s else Some (Ok (te, s))))"
proof (cases "\<exists>te s1. x = Some (Ok (te, s1))")
  case True
  then obtain te s1 where x: "x = Some (Ok (te, s1))" by blast
  then have s1: "safe kend t p K s free s1" "te = Back \<Longrightarrow> running (kern s1) \<and> c_proc (kern s1) = Some p"
    using assms(1) by (auto simp: ends_safely_def)
  show ?thesis
  proof (cases "te = Back")
    case True
    then have "goes_on kend t p K s free s1" using s1 by (simp add: goes_on_def)
    then have "ends_safely kend t p K s free (f s1)" by (rule ends_after) (rule assms(2))
    then show ?thesis using x True by simp
  qed (use x s1 in \<open>simp add: ends_safely_def\<close>)
qed (auto simp: ends_safely_def bind_ro_Ok_iff)

definition env_ok :: "kenv \<Rightarrow> bool" where
  "env_ok e \<longleftrightarrow> kernel_image (k_end e) (k_tramp e) (k_xaddr e) (k_slog e)"

lemma tf_read_write:
  assumes "off + 8 \<le> off' \<or> off' + 8 \<le> off"
  shows "tf_read p off' (tf_write p off v s) = tf_read p off' s"
  unfolding tf_read_def tf_write_def wr64_def rd64_def
  by (rule arg_cong [where f = le_nat]) (use assms in \<open>auto simp: bytes_def Cmem.store_def\<close>)

lemma tf_read_cong: "kmm s' = kmm s \<Longrightarrow> p_trapframe (kproc s' p) = p_trapframe (kproc s p) \<Longrightarrow> tf_read p off s' = tf_read p off s"
  by (simp add: tf_read_def)

lemma samek_schedlog: "samek k k' \<Longrightarrow> schedlog k' = schedlog k"
  by (cases k; cases k') (simp add: samek_def)

lemma usertrap_safe_step:
  assumes ok: "sys_ok (k_end e) (k_tramp e) K s free" and r: "running (kern s)" and c: "c_proc (kern s) = Some p" and e: "env_ok e"
    and l: "length (schedlog (kern s)) = LOG_SIZE" and sc: "scause = 8 \<Longrightarrow> s32 (int (tf_read p TF_A7 s)) \<noteq> 24"
  shows "ends_safely (k_end e) (k_tramp e) p K s free (usertrap e scause sepc sstatus irq s)"
proof (cases "bit sstatus SSTATUS_SPP")
  case True
  then show ?thesis by (simp add: usertrap_def ends_safely_def)
next
  case sp: False
  let ?G = "goes_on (k_end e) (k_tramp e) p" and ?E = "ends_safely (k_end e) (k_tramp e) p"
  define s0 where "s0 = tf_write p TF_EPC sepc s"
  have g0: "?G K s free s0" unfolding s0_def by (rule tf_goes_on [OF ok r c]) simp
  have k0: "kern s0 = kern s" by (simp add: s0_def tf_write_def)
  show ?thesis
  proof (cases "scause = 8")
    case False
    have "?E K s free (bind_ro (devintr e scause irq s0) (\<lambda>(which, s). if which \<noteq> 0 then trap_done e sstatus which p s
        else bind_ro (Some (on_kern (setkilled p) s)) (trap_done e sstatus 0 p)))" (is "ends_safely _ _ _ _ _ _ ?x")
    proof (rule ends_after [OF g0])
      fix K1 free1 assume h: "sys_ok (k_end e) (k_tramp e) K1 s0 free1" "running (kern s0)" "c_proc (kern s0) = Some p"
      show "?E K1 s0 free1 ?x"
      proof (cases "devintr e scause irq s0")
        case (Some x)
        obtain w s1 where w: "x = Ok (w, s1)" "?G K1 s0 free1 s1" using devintr_goes_on [OF h Some] by blast
        show "?E K1 s0 free1 ?x"
        proof (rule ends_after [OF w(2)])
          fix K2 free2 assume h2: "sys_ok (k_end e) (k_tramp e) K2 s1 free2" "running (kern s1)" "c_proc (kern s1) = Some p"
          obtain s2 where s2: "on_kern (setkilled p) s1 = Ok s2" "?G K2 s1 free2 s2" using setkilled_goes_on [OF h2] by blast
          have "?E K2 s1 free2 (trap_done e sstatus 0 p s2)" by (rule ends_after [OF s2(2) trap_done_safe])
          then show "?E K2 s1 free2 ?x" using trap_done_safe [OF h2] Some w(1) s2(1) by simp
        qed
      qed (simp add: ends_safely_def)
    qed
    then show ?thesis using sp False c by (simp add: usertrap_def s0_def)
  next
    case True
    have "?E K s free (usertrap e scause sepc sstatus irq s)"
    proof (rule ends_after [OF g0])
      fix K1 free1 assume h: "sys_ok (k_end e) (k_tramp e) K1 s0 free1" "running (kern s0)" "c_proc (kern s0) = Some p"
      obtain k where k: "killed p (kern s0) = Ok (p_killed (kproc s0 p), k)" "samek (kern s0) k" "?G K1 s0 free1 (s0\<lparr>kern := k\<rparr>)"
        by (rule killed_goes_on [OF h])
      let ?s1 = "s0\<lparr>kern := k\<rparr>"
      define s2 where "s2 = intr_set True (tf_write p TF_EPC (add64 (tf_read p TF_EPC ?s1) 4) ?s1)"
      show "?E K1 s0 free1 (usertrap e scause sepc sstatus irq s)"
      proof (rule ends_after [OF k(3)])
        fix K2 free2 assume h1: "sys_ok (k_end e) (k_tramp e) K2 ?s1 free2" "running (kern ?s1)" "c_proc (kern ?s1) = Some p"
        have g2: "?G K2 ?s1 free2 s2" unfolding s2_def
        proof (rule goes_on_trans [OF tf_goes_on [OF h1]])
          fix K3 free3 assume h3: "sys_ok (k_end e) (k_tramp e) K3 (tf_write p TF_EPC (add64 (tf_read p TF_EPC ?s1) 4) ?s1) free3"
            "running (kern (tf_write p TF_EPC (add64 (tf_read p TF_EPC ?s1) 4) ?s1))" "c_proc (kern (tf_write p TF_EPC (add64 (tf_read p TF_EPC ?s1) 4) ?s1)) = Some p"
          show "?G K3 (tf_write p TF_EPC (add64 (tf_read p TF_EPC ?s1) 4) ?s1) free3 (intr_set True (tf_write p TF_EPC (add64 (tf_read p TF_EPC ?s1) 4) ?s1))"
            using safe_intr [OF h3(1,2), where b = True] h3(3) by (simp add: goes_on_def intr_set_def)
        qed simp
        have "?E K2 ?s1 free2 (bind_ro (syscall (k_end e) (k_tramp e) (k_xaddr e) (k_slog e) p s2) (\<lambda>(te, s). if te = Back then trap_done e sstatus 0 p s else Some (Ok (te, s))))"
            (is "ends_safely _ _ _ _ _ _ ?y")
        proof (rule ends_after [OF g2])
          fix K3 free3 assume h3: "sys_ok (k_end e) (k_tramp e) K3 s2 free3" "running (kern s2)" "c_proc (kern s2) = Some p"
          have tf: "p_trapframe (kproc ?s1 p) = p_trapframe (kproc s0 p)"
            using unlock_fields(7) [OF samek_proc [OF k(2), of p]] current(1,3) [OF h(1,3)] by (simp add: kproc_def)
          have "tf_read p TF_A7 s2 = tf_read p TF_A7 (tf_write p TF_EPC (add64 (tf_read p TF_EPC ?s1) 4) ?s1)"
            unfolding s2_def by (rule tf_read_cong) (simp_all add: intr_set_def kproc_def)
          also have "\<dots> = tf_read p TF_A7 ?s1" by (rule tf_read_write) simp
          also have "\<dots> = tf_read p TF_A7 s0" by (rule tf_read_cong [OF _ tf]) simp
          also have "\<dots> = tf_read p TF_A7 s" unfolding s0_def by (rule tf_read_write) simp
          finally have a7: "tf_read p TF_A7 s2 = tf_read p TF_A7 s" .
          have lg: "length (schedlog (kern s2)) = LOG_SIZE"
            using l samek_schedlog [OF k(2)] k0 by (simp add: s2_def intr_set_def tf_write_def)
          have "?E K3 s2 free3 (syscall (k_end e) (k_tramp e) (k_xaddr e) (k_slog e) p s2)"
            by (rule syscall_ends [OF h3 e [unfolded env_ok_def] lg]) (use sc [OF True] a7 in simp)
          then show "?E K3 s2 free3 ?y" by (rule ends_bind) (rule trap_done_safe)
        qed
        then show "?E K2 ?s1 free2 (usertrap e scause sepc sstatus irq s)"
          using die_safe [OF h1] k(1) sp True c by (simp add: usertrap_def s0_def [symmetric] s2_def Let_def)
      qed
    qed
    then show ?thesis .
  qed
qed

end
