(* ===== verification/Trap_Props.thy ===== *)
theory Trap_Props
  imports Trap_Safe Proc_Example
begin

text \<open>The properties of traps and system calls.\<close>

section \<open>Yielding leaves the other processes' states alone\<close>

lemma runnable_iff:
  assumes "sched_ok k" "queues_are (qtable k) Q" "j < NPROC"
  shows "p_state (procs k ! j) = RUNNABLE \<longleftrightarrow> (\<exists>q < 3. j \<in> set (Q q))"
proof -
  obtain Q' where Q': "queues_are (qtable k) Q'" "\<forall>i < NPROC. p_state (procs k ! i) = RUNNABLE \<longleftrightarrow> (\<exists>q < 3. i \<in> set (Q' q))"
    using assms(1) by (auto simp: sched_ok_def)
  have "j \<in> set (Q q) \<longleftrightarrow> j \<in> set (Q' q)" if "q < 3" for q
    using queues_areD(6) [OF assms(2,3) that] queues_areD(6) [OF Q'(1) assms(3) that] by simp
  then show ?thesis using Q'(2) assms(3) by blast
qed

lemma yield_states:
  assumes r: "running k" and c: "c_proc k = Some i"
  shows "\<exists>k'. switch_away yield k = Ok k' \<and> at_scheduler k' \<and> p_state (procs k' ! i) = RUNNABLE \<and>
    (\<forall>j < NPROC. j \<noteq> i \<longrightarrow> (p_state (procs k' ! j) = RUNNABLE \<longleftrightarrow> p_state (procs k ! j) = RUNNABLE))"
proof -
  have k: "kinv k" using r by (simp add: running_def)
  note D = kinvD [OF k]
  have i: "i < NPROC" "p_state (procs k ! i) = RUNNING" using D(6,7) c by auto
  obtain Q where Q: "queues_are (qtable k) Q" using D(1) by (auto simp: sched_ok_def)
  have free: "i \<notin> set (Q q)" if "q < 3" for q using runnable_iff [OF D(1) Q i(1)] i(2) that by auto
  let ?n = "next_level (procs k ! i)"
  have n: "?n < 3" by (simp add: next_level_def level_of_less_3)
  obtain k' where k': "bind_res (yield k) (dequeue_return i) = Ok k'" "at_scheduler k'" "p_state (procs k' ! i) = RUNNABLE"
      "qtable k' = link_before ?n (65 + 2 * ?n) i (qtable k)"
    using yield_ok [OF r c] by blast
  have Q': "queues_are (qtable k') (Q(?n := Q ?n @ [i]))" unfolding k'(4) by (rule link_before_queues [OF Q n i(1) free])
  have sk: "sched_ok k'" using k'(2) by (simp add: at_scheduler_def kinv_def)
  have "p_state (procs k' ! j) = RUNNABLE \<longleftrightarrow> p_state (procs k ! j) = RUNNABLE" if "j < NPROC" "j \<noteq> i" for j
  proof -
    have "j \<in> set ((Q(?n := Q ?n @ [i])) q) \<longleftrightarrow> j \<in> set (Q q)" for q using that(2) by simp
    then show ?thesis unfolding runnable_iff [OF D(1) Q that(1)] runnable_iff [OF sk Q' that(1)] by simp
  qed
  then show ?thesis using k' c by (auto simp: switch_away_def)
qed

section \<open>The timer\<close>

lemma goes_on_ok: "goes_on kend t p K s free s' \<Longrightarrow> \<exists>K' free'. sys_ok kend t K' s' free'"
  unfolding goes_on_def using safe_ok by blast

lemma timer_step:
  assumes ok: "sys_ok (k_end e) (k_tramp e) K s free" and r: "running (kern s)" and c: "c_proc (kern s) = Some p"
    and nk: "p_killed (kproc s p) = 0" and sp: "\<not> bit sstatus SSTATUS_SPP"
  shows "\<exists>s'. usertrap e (2 ^ 63 + 1) sepc sstatus irq s = Some (Ok (Away, s')) \<and> ticks s' = (ticks s + 1) mod 2 ^ 32 \<and>
    at_scheduler (kern s') \<and> p_state (kproc s' p) = RUNNABLE \<and>
    (\<forall>j < NPROC. j \<noteq> p \<longrightarrow> (p_state (kproc s' j) = RUNNABLE \<longleftrightarrow>
       p_state (kproc s j) = RUNNABLE \<or> p_state (kproc s j) = SLEEPING \<and> p_chan (kproc s j) = ChTicks))"
proof -
  define s0 where "s0 = tf_write p TF_EPC sepc s"
  have g0: "goes_on (k_end e) (k_tramp e) p K s free s0" unfolding s0_def by (rule tf_goes_on [OF ok r c]) simp
  have k0: "kern s0 = kern s" "ticks s0 = ticks s" by (simp_all add: s0_def tf_write_def set_mem_def)
  obtain K0 free0 where ok0: "sys_ok (k_end e) (k_tramp e) K0 s0 free0" using goes_on_ok [OF g0] by blast
  have r0: "running (kern s0)" "c_proc (kern s0) = Some p" using r c k0 by simp_all
  obtain k1 where k1: "clockintr s0 = Ok (s0\<lparr>ticks := (ticks s0 + 1) mod 2 ^ 32, kern := k1\<rparr>)" "woken ChTicks (kern s0) k1"
      "goes_on (k_end e) (k_tramp e) p K0 s0 free0 (s0\<lparr>ticks := (ticks s0 + 1) mod 2 ^ 32, kern := k1\<rparr>)"
    by (rule clock_goes_on [OF ok0 r0])
  define s1 where "s1 = s0\<lparr>ticks := (ticks s0 + 1) mod 2 ^ 32, kern := k1\<rparr>"
  have r1: "running (kern s1)" "c_proc (kern s1) = Some p" using k1(3) by (simp_all add: goes_on_def s1_def)
  obtain K1 free1 where ok1: "sys_ok (k_end e) (k_tramp e) K1 s1 free1" using goes_on_ok [OF k1(3)] unfolding s1_def by blast
  have p: "p < NPROC" "length (procs (kern s1)) = NPROC" "length (procs (kern s)) = NPROC" using current(1,3) [OF ok1 r1(2)] current(3) [OF ok c] by simp_all
  have "p_killed (kproc s1 p) = p_killed (kproc s p)"
  proof -
    have "map p_killed (procs k1) ! p = map p_killed (procs (kern s)) ! p" using k1(2) by (simp add: woken_def kflags_def k0)
    then show ?thesis using p by (simp add: s1_def kproc_def)
  qed
  then have nk1: "p_killed (kproc s1 p) = 0" using nk by simp
  obtain k2 where k2: "killed p (kern s1) = Ok (p_killed (kproc s1 p), k2)" "samek (kern s1) k2"
      "goes_on (k_end e) (k_tramp e) p K1 s1 free1 (s1\<lparr>kern := k2\<rparr>)"
    by (rule killed_goes_on [OF ok1 r1])
  define k3 where "k3 = k2\<lparr>time := s32 (time k2 + 1)\<rparr>"
  have "running k2" "c_proc k2 = Some p" using k2(3) by (simp_all add: goes_on_def)
  then have r3: "running k3" "c_proc k3 = Some p" by (simp_all add: k3_def running_def kinv_def sched_ok_def resumable_def no_locks_def)
  obtain k4 where k4: "switch_away yield k3 = Ok k4" "at_scheduler k4" "p_state (procs k4 ! p) = RUNNABLE"
      "\<forall>j < NPROC. j \<noteq> p \<longrightarrow> (p_state (procs k4 ! j) = RUNNABLE \<longleftrightarrow> p_state (procs k3 ! j) = RUNNABLE)"
    using yield_states [OF r3] by blast
  have st: "p_state (procs k3 ! j) = p_state (procs k1 ! j)" if "j < NPROC" for j
    using samek_state [OF k2(2), of j] that p(2) by (simp add: k3_def s1_def)
  have "usertrap e (2 ^ 63 + 1) sepc sstatus irq s = Some (Ok (Away, s1\<lparr>kern := k4\<rparr>))"
    using sp c k1(1) k2(1) k4(1) nk1 by (simp add: usertrap_def s0_def [symmetric] devintr_def s1_def trap_done_def tick_time_def on_kern_def k3_def)
  moreover have "p_state (procs k4 ! j) = RUNNABLE \<longleftrightarrow> p_state (kproc s j) = RUNNABLE \<or> p_state (kproc s j) = SLEEPING \<and> p_chan (kproc s j) = ChTicks"
    if "j < NPROC" "j \<noteq> p" for j
    using k4(4) that st [OF that(1)] k1(2) by (auto simp: woken_def k0 kproc_def split: if_splits)
  ultimately show ?thesis using k4(2,3) by (intro exI [of _ "s1\<lparr>kern := k4\<rparr>"]) (simp add: s1_def k0 kproc_def)
qed

section \<open>A system to try this on\<close>

definition pr_env :: kenv where
  "pr_env = \<lparr>k_end = 8192, k_tramp = 4096, k_xaddr = (\<lambda>_. 0), k_slog = 0, k_cons = 8, k_tx = 16, k_satp = 0, k_usertrap = 0, k_hartid = 0\<rparr>"

lemma pr_env_ok: "env_ok pr_env"
  by (simp add: env_ok_def kernel_image_def pr_env_def)

lemma pr_env_fields [simp]: "k_end pr_env = 8192" "k_tramp pr_env = 4096"
  by (simp_all add: pr_env_def)

lemma pr_more: "p_killed (kproc pr_sys 0) = 0" "length (schedlog (kern pr_sys)) = LOG_SIZE" "ticks pr_sys = 0"
  using pr_procs [of 0] by (simp_all add: zero_proc_def) (simp_all add: pr_sys_def first_running_def setupQueue_def zero_kernel_def)

lemma pr_timer:
  "\<exists>s'. usertrap pr_env (2 ^ 63 + 1) 0 0 0 pr_sys = Some (Ok (Away, s')) \<and> ticks s' = (ticks pr_sys + 1) mod 2 ^ 32 \<and> p_state (kproc s' 0) = RUNNABLE"
  using timer_step [of pr_env "{}" pr_sys "[36864]" 0 0 0 0] pr_ok pr_running pr_more(1) by auto

section \<open>Properties\<close>

text \<open>
  C5: Whatever makes user code trap, a system call with any arguments and any number but that of \<^verbatim>\<open>nice\<close>, whose
  defect is shown elsewhere, an exception or an interrupt, when the kernel has answered, the system is in order
  and no other process is touched: pages have one owner each, and together the processes, the free list and the
  open pipes have the pages they had; ready queues, locks and file references are as they should be; page
  table, size, trap frame and every byte of every other live process are as before. A call of \<^verbatim>\<open>sysfile.c\<close> is
  followed to the entry of its handler.
\<close>

theorem usertrap_isolated:
  assumes "sys_ok (k_end e) (k_tramp e) K s free" "running (kern s)" "c_proc (kern s) = Some p" "env_ok e"
    and "length (schedlog (kern s)) = LOG_SIZE" "scause = 8 \<Longrightarrow> s32 (int (tf_read p TF_A7 s)) \<noteq> 24"
    and "usertrap e scause sepc sstatus irq s = Some (Ok (te, s'))"
  shows "(\<exists>free'. sys_ok (k_end e) (k_tramp e) (pipe_pages (kfiles s')) s' free' \<and>
      pages (pipe_pages (kfiles s')) s' free' = pages (pipe_pages (kfiles s)) s free) \<and>
    (\<forall>i < NPROC. i \<noteq> p \<and> live (p_state (kproc s i)) \<longrightarrow> live (p_state (kproc s' i)) \<and> image (kproc s' i) = image (kproc s i) \<and>
       proc_pages s' i = proc_pages s i \<and> same_on (proc_pages s i) (kmemory (kmm s)) (kmemory (kmm s'))) \<and>
    (te = Back \<longrightarrow> running (kern s') \<and> c_proc (kern s') = Some p)"
proof -
  have x: "safe (k_end e) (k_tramp e) p K s free s'" "te = Back \<longrightarrow> running (kern s') \<and> c_proc (kern s') = Some p"
    using usertrap_safe_step [OF assms(1-6)] assms(7) by (simp_all add: ends_safely_def)
  obtain K' free' where k: "sys_ok (k_end e) (k_tramp e) K' s' free'" "pages K' s' free' = pages K s free"
    using x(1) by (auto simp: safe_def)
  then have "\<exists>free'. sys_ok (k_end e) (k_tramp e) (pipe_pages (kfiles s')) s' free' \<and>
      pages (pipe_pages (kfiles s')) s' free' = pages (pipe_pages (kfiles s)) s free"
    using sys_ok_pipes [OF k(1)] sys_ok_pipes [OF assms(1)] by auto
  then show ?thesis using x unfolding safe_def isolated_def by blast
qed

text \<open>
  C38: A timer interrupt from user mode: the clock advances by one, every process that sleeps on the clock
  becomes runnable, and the interrupted process is runnable again behind the others; the states of
  the remaining processes stay as they are.
\<close>

theorem timer_trap:
  assumes ok: "sys_ok (k_end e) (k_tramp e) K s free" and r: "running (kern s)" and c: "c_proc (kern s) = Some p"
    and nk: "p_killed (kproc s p) = 0" and sp: "\<not> bit sstatus SSTATUS_SPP"
  shows "\<exists>s'. usertrap e (2 ^ 63 + 1) sepc sstatus irq s = Some (Ok (Away, s')) \<and> ticks s' = (ticks s + 1) mod 2 ^ 32 \<and>
    at_scheduler (kern s') \<and> p_state (kproc s' p) = RUNNABLE \<and>
    (\<forall>j < NPROC. j \<noteq> p \<longrightarrow> (p_state (kproc s' j) = RUNNABLE \<longleftrightarrow>
       p_state (kproc s j) = RUNNABLE \<or> p_state (kproc s j) = SLEEPING \<and> p_chan (kproc s j) = ChTicks))"
  by (rule timer_step [OF assms])

text \<open>
  C39: \<^verbatim>\<open>sleep(n)\<close> returns 0 exactly when \<open>n\<close> ticks have passed since it was called, counted modulo
  \<open>2^32\<close>; before that a killed process gets -1 and any other sleeps on the clock. The comparison is
  unsigned: a negative \<open>n\<close> stands for \<open>2^32 + n\<close> ticks.
\<close>

theorem sleep_turns:
  assumes ok: "sys_ok kend t K s free" and r: "running_with TicksLock (kern s)" and c: "c_proc (kern s) = Some p"
    and n: "- (2 ^ 31) \<le> n" "n < 2 ^ 31" and t: "ticks s < 2 ^ 32" "ticks0 < 2 ^ 32"
  defines "passed \<equiv> (int (ticks s) - int ticks0) mod 2 ^ 32" and "wanted \<equiv> (if 0 \<le> n then n else 2 ^ 32 + n)"
  shows "\<exists>v s'. sleep_turn ticks0 n p s = Some (Ok (v, s')) \<and>
    (if wanted \<le> passed then v = Some 0 \<and> running (kern s')
     else if p_killed (kproc s p) \<noteq> 0 then v = Some (-1) \<and> running (kern s')
     else v = None \<and> at_scheduler (kern s') \<and> p_state (kproc s' p) = SLEEPING \<and> p_chan (kproc s' p) = ChTicks)"
proof -
  have w: "n mod 2 ^ 32 = wanted"
  proof (cases "0 \<le> n")
    case True
    then show ?thesis using n by (simp add: wanted_def)
  next
    case False
    have "n mod 2 ^ 32 = (2 ^ 32 + n) mod 2 ^ 32" by simp
    also have "\<dots> = 2 ^ 32 + n" by (rule mod_pos_pos_trivial) (use n False in auto)
    finally show ?thesis using False by (simp add: wanted_def)
  qed
  obtain v s' where v: "sleep_turn ticks0 n p s = Some (Ok (v, s'))" "v \<noteq> None \<Longrightarrow> running (kern s')"
    using sleep_turn_served [OF ok r c] by (fastforce simp: served_def)
  obtain k1 where k1: "killed p (kern s) = Ok (p_killed (kproc s p), k1)" "locks {TicksLock} {} k1" "runs k1" "samek (kern s) k1"
    by (rule safe_killed [OF ok, of "{TicksLock}"]) (use r c in \<open>auto simp: runs_running_with\<close>)
  have rw: "running_with TicksLock k1" using k1(2,3) by (simp add: runs_running_with)
  have c1: "c_proc k1 = Some p" using samek_fields(5) [OF k1(4)] c by simp
  obtain k2 where k2: "bind_res (sleep ChTicks TicksLock k1) (dequeue_return p) = Ok k2" "at_scheduler k2"
      "p_state (procs k2 ! p) = SLEEPING" "p_chan (procs k2 ! p) = ChTicks"
    using sleep_ok [OF rw c1] by blast
  have e: "sleep_turn ticks0 n p s =
      (if passed < wanted then
         (if p_killed (kproc s p) \<noteq> 0 then Some (bind_res (on_kern (release_lk TicksLock) (s\<lparr>kern := k1\<rparr>)) (\<lambda>s. Ok (Some (-1), s)))
          else Some (Ok (None, s\<lparr>kern := k2\<rparr>)))
       else Some (bind_res (on_kern (release_lk TicksLock) s) (\<lambda>s. Ok (Some 0, s))))"
    unfolding sleep_turn_def w passed_def using k1(1) k2(1) c1 by (simp add: Let_def switch_away_def on_kern_def)
  have "if wanted \<le> passed then v = Some 0 else if p_killed (kproc s p) \<noteq> 0 then v = Some (-1) else v = None \<and> s' = s\<lparr>kern := k2\<rparr>"
    using v(1) unfolding e by (auto simp: bind_res_Ok_iff split: if_splits)
  then show ?thesis using v k2(2-4) by (auto simp: kproc_def split: if_splits)
qed

theorem usertrap_isolated_witness:
  "\<exists>s' free'. usertrap pr_env (2 ^ 63 + 1) 0 0 0 pr_sys = Some (Ok (Away, s')) \<and> sys_ok 8192 4096 (pipe_pages (kfiles s')) s' free' \<and>
     pages (pipe_pages (kfiles s')) s' free' = pages (pipe_pages (kfiles pr_sys)) pr_sys [36864]"
proof -
  obtain s' where s': "usertrap pr_env (2 ^ 63 + 1) 0 0 0 pr_sys = Some (Ok (Away, s'))" using pr_timer by blast
  from usertrap_isolated [OF _ pr_running _ pr_env_ok pr_more(2) _ s', of "{}" "[36864]" 0] pr_ok show ?thesis using s' by auto
qed

theorem timer_trap_witness:
  "\<exists>s'. usertrap pr_env (2 ^ 63 + 1) 0 0 0 pr_sys = Some (Ok (Away, s')) \<and> ticks s' = 1"
  using timer_trap [of pr_env "{}" pr_sys "[36864]" 0 0 0 0] pr_ok pr_running pr_more by auto

theorem sleep_turns_witness:
  "\<exists>s1 s'. on_kern (acquire_lk TicksLock) pr_sys = Ok s1 \<and> sleep_turn 0 3 0 s1 = Some (Ok (None, s')) \<and> p_state (kproc s' 0) = SLEEPING"
proof -
  obtain k where k: "acquire_lk TicksLock (kern pr_sys) = Ok k" "running_with TicksLock k" "samek (kern pr_sys) k"
      "safe 8192 4096 0 {} pr_sys [36864] (pr_sys\<lparr>kern := k\<rparr>)"
    by (rule safe_lock [OF pr_ok pr_running])
  let ?s = "pr_sys\<lparr>kern := k\<rparr>"
  obtain K free where ok: "sys_ok 8192 4096 K ?s free" using safe_ok [OF k(4)] by blast
  have c: "c_proc (kern ?s) = Some 0" using samek_fields(5) [OF k(3)] by simp
  have "unlock (kproc ?s 0) = unlock (kproc pr_sys 0)" using samek_proc [OF k(3), of 0] current(3) [OF pr_ok pr_fields(3)] by (simp add: kproc_def)
  then have nk: "p_killed (kproc ?s 0) = 0" using unlock_fields(13) pr_more(1) by metis
  from sleep_turns [OF ok _ c, of 3 0] k(2) nk pr_more(3) obtain s' where "sleep_turn 0 3 0 ?s = Some (Ok (None, s'))" "p_state (kproc s' 0) = SLEEPING"
    by auto
  then show ?thesis using k(1) by (auto simp: on_kern_def)
qed

text \<open>
  Back in user mode: \<^verbatim>\<open>usertrapret\<close> prepares a return to the saved program counter, in user mode with
  interrupts on and with the page table of the process, and changes no saved user register.
\<close>

theorem usertrapret_regs:
  assumes "usertrapret e sstatus p s = (r, s')" "n < 36" "n \<notin> {0, 1, 2, 4}"
  shows "r_sepc r = tf_read p TF_EPC s \<and> \<not> bit (r_sstatus r) SSTATUS_SPP \<and> bit (r_sstatus r) SSTATUS_SPIE \<and>
    r_satp r = MAKE_SATP (adr (p_pagetable (kproc s p))) \<and> tf_read p (8 * n) s' = tf_read p (8 * n) s"
proof -
  have i: "tf_read p off (intr_set False s) = tf_read p off s" for off by (rule tf_read_cong) (simp_all add: intr_set_def kproc_def)
  have ki: "kproc (intr_set False s) = kproc s" by (simp add: intr_set_def kproc_def fun_eq_iff)
  have tf: "kproc (tf_write p off v x) = kproc x" for off v x by (simp add: tf_write_def fun_eq_iff)
  have off: "8 * n + 8 \<le> m \<or> m + 8 \<le> 8 * n" if "m \<in> {0, 8, 16, 32}" for m using assms(3) that by auto
  have w: "tf_read p (8 * n) (tf_write p m v x) = tf_read p (8 * n) x" if "m \<in> {0, 8, 16, 32}" for m v x
    by (rule tf_read_write) (use off [OF that] in blast)
  have "s' = snd (usertrapret e sstatus p s)" using assms(1) by simp
  then have "tf_read p (8 * n) s' = tf_read p (8 * n) s" by (simp only: usertrapret_def Let_def snd_conv w insert_iff i simp_thms)
  moreover have "r_sepc r = tf_read p TF_EPC s" using assms(1) by (auto simp: usertrapret_def Let_def tf_read_write i)
  moreover have "r_satp r = MAKE_SATP (adr (p_pagetable (kproc s p)))" using assms(1) by (auto simp: usertrapret_def Let_def tf ki)
  ultimately show ?thesis using assms(1) by (auto simp: usertrapret_def Let_def bit_simps)
qed

theorem usertrapret_regs_witness:
  "\<exists>r s'. usertrapret pr_env 256 0 pr_sys = (r, s') \<and> r_satp r = MAKE_SATP 8192 \<and> \<not> bit (r_sstatus r) 8"
proof -
  obtain r s' where u: "usertrapret pr_env 256 0 pr_sys = (r, s')" by fastforce
  have "adr (p_pagetable (kproc pr_sys 0)) = 8192" using pr_procs [of 0] by (simp add: adr_def)
  then show ?thesis using usertrapret_regs [OF u, of 3] u by auto
qed

text \<open>
  A timer interrupt in the kernel, with no lock held: the clock advances, sleepers on it wake up, and a process
  that was running gives up the processor; the idle scheduler goes on. Nobody's memory changes.
\<close>

theorem kerneltrap_timer:
  assumes ok: "sys_ok kend t K s free" and n: "noff (hart (kern s)) = 0" "\<not> intr (hart (kern s))" and sp: "bit sstatus SSTATUS_SPP"
  shows "\<exists>b s' K' free'. kerneltrap e (2 ^ 63 + 1) sstatus irq s = Some (Ok (b, s')) \<and> b = (c_proc (kern s) = None) \<and>
    ticks s' = (ticks s + 1) mod 2 ^ 32 \<and> c_proc (kern s') = None \<and> kmm s' = kmm s \<and> sys_ok kend t K' s' free'"
proof -
  have ko: "kernel_ok (kern s)" using ok by (simp add: sys_ok_def)
  obtain k1 where k1: "clockintr s = Ok (s\<lparr>ticks := (ticks s + 1) mod 2 ^ 32, kern := k1\<rparr>)" "kernel_ok k1" "noff (hart k1) = 0"
      "ukeep (kern s) k1" "woken ChTicks (kern s) k1"
    by (rule clockintr_ok [OF ko n(1)])
  define s1 where "s1 = s\<lparr>ticks := (ticks s + 1) mod 2 ^ 32, kern := k1\<rparr>"
  have "safe kend t NPROC K s free s1"
    by (rule safe_trans [OF safe_kern [OF ok k1(4,2)]]) (rule safe_rest, simp_all add: s1_def)
  then have sf: "safe kend t NPROC K s free (tick_time s1)" by (rule safe_trans) (rule tick_time_ok)
  obtain K1 free1 where ok1: "sys_ok kend t K1 (tick_time s1) free1" using safe_ok [OF sf] by blast
  have d: "devintr e (2 ^ 63 + 1) irq s = Some (Ok (2, s1))" using k1(1) by (simp add: devintr_def s1_def)
  have c1: "c_proc (kern (tick_time s1)) = c_proc (kern s)" using k1(5) by (simp add: tick_time_def s1_def woken_def)
  show ?thesis
  proof (cases "c_proc (kern s)")
    case None
    then have "kerneltrap e (2 ^ 63 + 1) sstatus irq s = Some (Ok (True, tick_time s1))" using n(2) sp d c1 by (simp add: kerneltrap_def)
    then show ?thesis using None c1 ok1 by (intro exI [of _ True] exI [of _ "tick_time s1"]) (auto simp: tick_time_def s1_def)
  next
    case (Some p)
    have r: "running (kern (tick_time s1))"
      by (rule kernel_ok_free) (use ok1 c1 Some k1(3) in \<open>simp_all add: sys_ok_def tick_time_def s1_def\<close>)
    have st: "p_state (kproc (tick_time s1) p) = RUNNING" using current(2) [OF ok1] c1 Some by simp
    have c2: "c_proc (kern (tick_time s1)) = Some p" using c1 Some by simp
    obtain k where k: "switch_away yield (kern (tick_time s1)) = Ok k" "at_scheduler k" using yield_states [OF r c2] by blast
    obtain s2 where s2: "on_kern (switch_away yield) (tick_time s1) = Ok s2" "safe kend t p K1 (tick_time s1) free1 s2" using yield_safe [OF ok1 r c2] by blast
    have e: "s2 = (tick_time s1)\<lparr>kern := k\<rparr>" using s2(1) k(1) by (simp add: on_kern_def)
    have "kerneltrap e (2 ^ 63 + 1) sstatus irq s = Some (Ok (False, s2))" using n(2) sp d c2 st s2(1) by (simp add: kerneltrap_def Let_def)
    moreover obtain K2 free2 where "sys_ok kend t K2 s2 free2" using safe_ok [OF s2(2)] by blast
    ultimately show ?thesis using k(2) Some by (intro exI [of _ False] exI [of _ s2]) (auto simp: e tick_time_def s1_def at_scheduler_def)
  qed
qed

end
