(* ===== verification/Rr.thy ===== *)
theory Rr
  imports Proc_Table
begin

text \<open>
  The round robin kernel of the \<^verbatim>\<open>XV6 Scheduler\<close> tree (\<^verbatim>\<open>kernel/proc.h\<close>, \<^verbatim>\<open>kernel/proc.c\<close>, \<^verbatim>\<open>kernel/log.h\<close>),
  run by one hart: \<^verbatim>\<open>scheduler\<close> with its log of context switches, \<^verbatim>\<open>sched\<close>, \<^verbatim>\<open>yield\<close>, \<^verbatim>\<open>sleep\<close>,
  \<^verbatim>\<open>wakeup\<close>, \<^verbatim>\<open>kill\<close>, \<^verbatim>\<open>reparent\<close>, the end of \<^verbatim>\<open>exit\<close>, and the system calls \<^verbatim>\<open>sys_startlog\<close> and
  \<^verbatim>\<open>sys_nice\<close>. A function that calls \<^verbatim>\<open>swtch\<close> is cut in two there. Process states, wait channels,
  resume points and log entries are those of \<^verbatim>\<open>Proc_Table\<close>: the two trees declare them alike.
\<close>

section \<open>Data\<close>

record sproc =
  sp_lock :: spinlock
  sp_state :: procstate
  sp_chan :: chan
  sp_killed :: int
  sp_xstate :: int
  sp_pid :: int
  sp_nice :: int
  sp_parent :: "nat option"
  sp_kstack :: nat
  sp_sz :: nat
  sp_pagetable :: "nat option"
  sp_trapframe :: "nat option"
  sp_resume :: resume_point
  sp_ofile :: "nat option list"
  sp_cwd :: "nat option"
  sp_name :: string

text \<open>
  \<open>r_at\<close> is the local variable \<^verbatim>\<open>p\<close> of \<^verbatim>\<open>scheduler\<close>, which lives on in the scheduler's frame while
  a process runs; \<open>r_cpu\<close> is \<^verbatim>\<open>c->proc\<close>.
\<close>

record rr =
  r_procs :: "sproc list"
  r_initproc :: "nat option"
  r_locks :: "lockname \<Rightarrow> spinlock"
  r_schedlog :: "logentry list"
  r_timer :: int
  r_numLog :: int
  r_lastProcessId :: int
  r_at :: nat
  r_cpu :: "nat option"
  r_hart :: hart

definition upd :: "nat \<Rightarrow> (sproc \<Rightarrow> sproc) \<Rightarrow> rr \<Rightarrow> rr" where
  "upd i f k = k\<lparr>r_procs := (r_procs k)[i := f (r_procs k ! i)]\<rparr>"

abbreviation sproc_of :: "rr \<Rightarrow> nat \<Rightarrow> sproc" where
  "sproc_of k i \<equiv> r_procs k ! i"

section \<open>Locks\<close>

definition acquire_p :: "nat \<Rightarrow> rr \<Rightarrow> rr res" where
  "acquire_p i k =
     bind_res (acquire me (sp_lock (sproc_of k i)) (r_hart k))
       (\<lambda>(lk, h). Ok (upd i (\<lambda>p. p\<lparr>sp_lock := lk\<rparr>) (k\<lparr>r_hart := h\<rparr>)))"

definition release_p :: "nat \<Rightarrow> rr \<Rightarrow> rr res" where
  "release_p i k =
     bind_res (release me (sp_lock (sproc_of k i)) (r_hart k))
       (\<lambda>(lk, h). Ok (upd i (\<lambda>p. p\<lparr>sp_lock := lk\<rparr>) (k\<lparr>r_hart := h\<rparr>)))"

definition acquire_lk :: "lockname \<Rightarrow> rr \<Rightarrow> rr res" where
  "acquire_lk l k =
     bind_res (acquire me (r_locks k l) (r_hart k))
       (\<lambda>(lk, h). Ok (k\<lparr>r_locks := (r_locks k)(l := lk), r_hart := h\<rparr>))"

definition release_lk :: "lockname \<Rightarrow> rr \<Rightarrow> rr res" where
  "release_lk l k =
     bind_res (release me (r_locks k l) (r_hart k))
       (\<lambda>(lk, h). Ok (k\<lparr>r_locks := (r_locks k)(l := lk), r_hart := h\<rparr>))"

section \<open>The scheduler loop\<close>

text \<open>The log entry \<^verbatim>\<open>scheduler\<close> writes for the process it is about to switch to.\<close>

definition log_dispatch :: "nat \<Rightarrow> rr \<Rightarrow> rr" where
  "log_dispatch i k =
     (let pid = sp_pid (sproc_of k i)
      in if r_numLog k < int LOG_SIZE \<and> r_lastProcessId k \<noteq> pid
         then k\<lparr>r_schedlog := (r_schedlog k)[nat (r_numLog k) := \<lparr>le_pid = pid, le_time = r_timer k\<rparr>],
                r_lastProcessId := pid,
                r_numLog := r_numLog k + 1\<rparr>
         else k)"

text \<open>The inner loop, from the processes still to be visited to the next \<^verbatim>\<open>swtch\<close>; \<open>None\<close> at its end.\<close>

fun scan :: "nat list \<Rightarrow> rr \<Rightarrow> (nat option \<times> rr) res" where
  "scan [] k = Ok (None, k)"
| "scan (i # is) k =
     bind_res (acquire_p i k) (\<lambda>k.
       if sp_state (sproc_of k i) = RUNNABLE then
         let k = upd i (\<lambda>p. p\<lparr>sp_state := RUNNING\<rparr>) k;
             k = k\<lparr>r_cpu := Some i\<rparr>
         in Ok (Some i, log_dispatch i k)
       else bind_res (release_p i k) (scan is))"

text \<open>What the process does first when the scheduler has switched to it.\<close>

definition resume :: "nat \<Rightarrow> rr \<Rightarrow> rr res" where
  "resume i k =
     (case sp_resume (sproc_of k i) of
        Nowhere \<Rightarrow> Panic ''switch to a context that was never set up''
      | Forkret \<Rightarrow> release_p i k
      | Yielded ie \<Rightarrow>
          bind_res (release_p i (k\<lparr>r_hart := (r_hart k)\<lparr>intena := ie\<rparr>\<rparr>))
            (\<lambda>k. Ok (k\<lparr>r_timer := s32 (r_timer k + 1)\<rparr>))
      | Slept lk ie \<Rightarrow>
          let k = k\<lparr>r_hart := (r_hart k)\<lparr>intena := ie\<rparr>\<rparr>;
              k = upd i (\<lambda>p. p\<lparr>sp_chan := NoChan\<rparr>) k
          in bind_res (release_p i k) (acquire_lk lk))"

text \<open>The head of \<^verbatim>\<open>for(;;)\<close>: \<^verbatim>\<open>intr_on()\<close>, \<^verbatim>\<open>p = proc\<close>.\<close>

definition next_pass :: "rr \<Rightarrow> rr" where
  "next_pass k = k\<lparr>r_hart := (r_hart k)\<lparr>intr := True\<rparr>, r_at := 0\<rparr>"

definition scheduler_start :: "rr \<Rightarrow> rr" where
  "scheduler_start k = next_pass (k\<lparr>r_cpu := None\<rparr>)"

text \<open>
  \<^verbatim>\<open>scheduler\<close> from where it stands, until a process runs or a pass over the table ends and the
  next one begins.
\<close>

definition scheduler :: "rr \<Rightarrow> rr res" where
  "scheduler k =
     bind_res (scan [r_at k..<NPROC] k)
       (\<lambda>(r, k). case r of None \<Rightarrow> Ok (next_pass k) | Some i \<Rightarrow> resume i (k\<lparr>r_at := i\<rparr>))"

text \<open>\<^verbatim>\<open>scheduler\<close> from the return of its \<^verbatim>\<open>swtch\<close> to \<^verbatim>\<open>p++\<close>.\<close>

definition scheduler_return :: "rr \<Rightarrow> rr res" where
  "scheduler_return k =
     bind_res (release_p (r_at k) (k\<lparr>r_cpu := None\<rparr>)) (\<lambda>k. Ok (k\<lparr>r_at := r_at k + 1\<rparr>))"

section \<open>Giving up the CPU\<close>

definition sched :: "(bool \<Rightarrow> resume_point) \<Rightarrow> rr \<Rightarrow> rr res" where
  "sched r k =
     (case r_cpu k of
        None \<Rightarrow> Panic ''null process''
      | Some i \<Rightarrow>
          if \<not> holding me (sp_lock (sproc_of k i)) then Panic ''sched p->lock''
          else if noff (r_hart k) \<noteq> 1 then Panic ''sched locks''
          else if sp_state (sproc_of k i) = RUNNING then Panic ''sched running''
          else if intr (r_hart k) then Panic ''sched interruptible''
          else Ok (upd i (\<lambda>p. p\<lparr>sp_resume := r (intena (r_hart k))\<rparr>) k))"

definition yield :: "rr \<Rightarrow> rr res" where
  "yield k =
     (case r_cpu k of
        None \<Rightarrow> Panic ''null process''
      | Some i \<Rightarrow>
          bind_res (acquire_p i k) (\<lambda>k. sched Yielded (upd i (\<lambda>p. p\<lparr>sp_state := RUNNABLE\<rparr>) k)))"

definition sleep :: "chan \<Rightarrow> lockname \<Rightarrow> rr \<Rightarrow> rr res" where
  "sleep ch lk k =
     (case r_cpu k of
        None \<Rightarrow> Panic ''null process''
      | Some i \<Rightarrow>
          bind_res (acquire_p i k) (\<lambda>k.
          bind_res (release_lk lk k) (\<lambda>k.
          let k = upd i (\<lambda>p. p\<lparr>sp_chan := ch\<rparr>) k;
              k = upd i (\<lambda>p. p\<lparr>sp_state := SLEEPING\<rparr>) k
          in sched (Slept lk) k)))"

section \<open>Waking and killing\<close>

fun wakeup_procs :: "chan \<Rightarrow> nat list \<Rightarrow> rr \<Rightarrow> rr res" where
  "wakeup_procs ch [] k = Ok k"
| "wakeup_procs ch (i # is) k =
     (if Some i \<noteq> r_cpu k then
        bind_res (acquire_p i k) (\<lambda>k.
        let k = (if sp_state (sproc_of k i) = SLEEPING \<and> sp_chan (sproc_of k i) = ch
                 then upd i (\<lambda>p. p\<lparr>sp_state := RUNNABLE\<rparr>) k else k)
        in bind_res (release_p i k) (wakeup_procs ch is))
      else wakeup_procs ch is k)"

definition wakeup :: "chan \<Rightarrow> rr \<Rightarrow> rr res" where
  "wakeup ch k = wakeup_procs ch [0..<NPROC] k"

fun kill_procs :: "int \<Rightarrow> nat list \<Rightarrow> rr \<Rightarrow> (int \<times> rr) res" where
  "kill_procs pid [] k = Ok (-1, k)"
| "kill_procs pid (i # is) k =
     bind_res (acquire_p i k) (\<lambda>k.
       if sp_pid (sproc_of k i) = pid then
         let k = upd i (\<lambda>p. p\<lparr>sp_killed := 1\<rparr>) k;
             k = (if sp_state (sproc_of k i) = SLEEPING
                  then upd i (\<lambda>p. p\<lparr>sp_state := RUNNABLE\<rparr>) k else k)
         in bind_res (release_p i k) (\<lambda>k. Ok (0, k))
       else bind_res (release_p i k) (kill_procs pid is))"

definition kill :: "int \<Rightarrow> rr \<Rightarrow> (int \<times> rr) res" where
  "kill pid k = kill_procs pid [0..<NPROC] k"

section \<open>The end of a process\<close>

text \<open>A channel \<^verbatim>\<open>wakeup(p)\<close> for a process pointer, null or not.\<close>

definition proc_chan :: "nat option \<Rightarrow> chan" where
  "proc_chan p = (case p of None \<Rightarrow> NoChan | Some i \<Rightarrow> ChProc i)"

fun reparent_procs :: "nat \<Rightarrow> nat list \<Rightarrow> rr \<Rightarrow> rr res" where
  "reparent_procs p [] k = Ok k"
| "reparent_procs p (i # is) k =
     (if sp_parent (sproc_of k i) = Some p then
        bind_res (wakeup (proc_chan (r_initproc k)) (upd i (\<lambda>q. q\<lparr>sp_parent := r_initproc k\<rparr>) k))
          (reparent_procs p is)
      else reparent_procs p is k)"

definition reparent :: "nat \<Rightarrow> rr \<Rightarrow> rr res" where
  "reparent p k = reparent_procs p [0..<NPROC] k"

text \<open>\<^verbatim>\<open>exit\<close> from \<^verbatim>\<open>acquire(&wait_lock)\<close> on, when files and directory are closed.\<close>

definition exit_finish :: "int \<Rightarrow> rr \<Rightarrow> rr res" where
  "exit_finish status k =
     (case r_cpu k of
        None \<Rightarrow> Panic ''null process''
      | Some p \<Rightarrow>
          bind_res (acquire_lk WaitLock k) (\<lambda>k.
          bind_res (reparent p k) (\<lambda>k.
          bind_res (wakeup (proc_chan (sp_parent (sproc_of k p))) k) (\<lambda>k.
          bind_res (acquire_p p k) (\<lambda>k.
          let k = upd p (\<lambda>q. q\<lparr>sp_xstate := status\<rparr>) k;
              k = upd p (\<lambda>q. q\<lparr>sp_state := ZOMBIE\<rparr>) k
          in bind_res (release_lk WaitLock k) (sched (\<lambda>_. Nowhere)))))))"

section \<open>System calls\<close>

definition sys_startlog :: "rr \<Rightarrow> int \<times> rr" where
  "sys_startlog k = (if r_numLog k \<noteq> 0 then (-1, k) else (0, k\<lparr>r_numLog := 0\<rparr>))"

definition sys_nice :: "int \<Rightarrow> rr \<Rightarrow> (int \<times> rr) res" where
  "sys_nice inc k =
     (case r_cpu k of
        None \<Rightarrow> Panic ''null process''
      | Some i \<Rightarrow>
          let k = (if inc > 19 then upd i (\<lambda>p. p\<lparr>sp_nice := s32 (sp_nice p + 19)\<rparr>) k
                   else if inc < -20 then upd i (\<lambda>p. p\<lparr>sp_nice := s32 (sp_nice p + (-20))\<rparr>) k
                   else upd i (\<lambda>p. p\<lparr>sp_nice := s32 (sp_nice p + inc)\<rparr>) k)
          in Ok (sp_nice (sproc_of k i), k))"

end
