(* ===== verification/Rr_Machine.thy ===== *)
theory Rr_Machine
  imports Rr
begin

text \<open>
  The round robin kernel as a machine whose events are the operations of \<^verbatim>\<open>Rr\<close>: the state
  between two events, that no legal event panics or leaves it, and what each event does to the
  scheduler's place in the table, to the runnable processes and to the log.
\<close>

section \<open>Calm changes\<close>

definition rr_free :: "rr \<Rightarrow> bool" where
  "rr_free k \<longleftrightarrow> length (r_procs k) = NPROC \<and> hart_ok (r_hart k) \<and>
     (\<forall>i < NPROC. sp_lock (sproc_of k i) = initlock)"

text \<open>What interrupts and system calls may do to a process while another one runs: wake it.\<close>

definition pcalm :: "sproc \<Rightarrow> sproc \<Rightarrow> bool" where
  "pcalm p q \<longleftrightarrow> sp_lock q = sp_lock p \<and> sp_pid q = sp_pid p \<and> sp_resume q = sp_resume p \<and>
     (sp_state q = sp_state p \<or> sp_state p = SLEEPING \<and> sp_state q = RUNNABLE)"

definition calm :: "rr \<Rightarrow> rr \<Rightarrow> bool" where
  "calm k k' \<longleftrightarrow> length (r_procs k') = length (r_procs k) \<and>
     k' = k\<lparr>r_procs := r_procs k', r_hart := r_hart k'\<rparr> \<and>
     noff (r_hart k') = noff (r_hart k) \<and> hart_ok (r_hart k') \<and>
     (\<forall>j < length (r_procs k). pcalm (sproc_of k j) (sproc_of k' j))"

lemma pcalm_refl [simp]: "pcalm p p"
  by (simp add: pcalm_def)

lemma pcalm_trans: "pcalm p q \<Longrightarrow> pcalm q r \<Longrightarrow> pcalm p r"
  by (auto simp: pcalm_def)

lemma pcalmD: "pcalm p q \<Longrightarrow> sp_pid q = sp_pid p" "pcalm p q \<Longrightarrow> sp_state p = RUNNABLE \<Longrightarrow> sp_state q = RUNNABLE"
  by (auto simp: pcalm_def)

lemma rr_calm_refl: "hart_ok (r_hart k) \<Longrightarrow> calm k k"
  by (simp add: calm_def)

lemma calmD:
  assumes "calm k k'"
  shows "r_cpu k' = r_cpu k" "r_at k' = r_at k" "r_locks k' = r_locks k" "r_numLog k' = r_numLog k"
    "r_schedlog k' = r_schedlog k" "r_lastProcessId k' = r_lastProcessId k" "r_timer k' = r_timer k"
    "r_initproc k' = r_initproc k" "noff (r_hart k') = noff (r_hart k)" "hart_ok (r_hart k')"
    "length (r_procs k') = length (r_procs k)"
    "j < length (r_procs k) \<Longrightarrow> pcalm (sproc_of k j) (sproc_of k' j)"
proof -
  have e: "k' = k\<lparr>r_procs := r_procs k', r_hart := r_hart k'\<rparr>" using assms by (simp add: calm_def)
  show "r_cpu k' = r_cpu k" "r_at k' = r_at k" "r_locks k' = r_locks k" "r_numLog k' = r_numLog k"
    "r_schedlog k' = r_schedlog k" "r_lastProcessId k' = r_lastProcessId k" "r_timer k' = r_timer k"
    "r_initproc k' = r_initproc k"
    by (subst e, simp)+
qed (use assms in \<open>auto simp: calm_def\<close>)

lemma calmI:
  assumes "k' = k\<lparr>r_procs := ps, r_hart := h\<rparr>" and "length ps = length (r_procs k)"
    and "noff h = noff (r_hart k)" and "hart_ok h"
    and "\<And>j. j < length (r_procs k) \<Longrightarrow> pcalm (sproc_of k j) (ps ! j)"
  shows "calm k k'"
  using assms by (simp add: calm_def)

lemma rr_calm_trans:
  assumes "calm k k1" and "calm k1 k2"
  shows "calm k k2"
proof (rule calmI [where ps = "r_procs k2" and h = "r_hart k2"])
  have e: "k1 = k\<lparr>r_procs := r_procs k1, r_hart := r_hart k1\<rparr>"
    "k2 = k1\<lparr>r_procs := r_procs k2, r_hart := r_hart k2\<rparr>"
    using assms unfolding calm_def by blast+
  show "k2 = k\<lparr>r_procs := r_procs k2, r_hart := r_hart k2\<rparr>" by (subst e(2), subst e(1)) simp
  fix j assume "j < length (r_procs k)"
  then show "pcalm (sproc_of k j) (sproc_of k2 j)"
    using pcalm_trans calmD(11,12) [OF assms(1)] calmD(12) [OF assms(2)] by metis
qed (use calmD [OF assms(1)] calmD [OF assms(2)] in auto)

lemma calm_free: "rr_free k \<Longrightarrow> calm k k' \<Longrightarrow> rr_free k'"
  using calmD(10-12) [of k k'] by (auto simp: rr_free_def pcalm_def)

section \<open>Lock brackets\<close>

lemma upd_fields [simp]:
  "r_cpu (upd i f k) = r_cpu k" "r_at (upd i f k) = r_at k" "r_locks (upd i f k) = r_locks k"
  "r_numLog (upd i f k) = r_numLog k" "r_schedlog (upd i f k) = r_schedlog k"
  "r_lastProcessId (upd i f k) = r_lastProcessId k" "r_timer (upd i f k) = r_timer k"
  "r_initproc (upd i f k) = r_initproc k" "r_hart (upd i f k) = r_hart k"
  "length (r_procs (upd i f k)) = length (r_procs k)"
  by (simp_all add: upd_def)

lemma upd_nth:
  "sproc_of (upd i f k) j = (if i = j \<and> i < length (r_procs k) then f (sproc_of k i) else sproc_of k j)"
  by (simp add: upd_def nth_list_update_if)

lemma upd_same: "upd i (\<lambda>p. p) k = k"
  by (simp add: upd_def)

lemma rr_acquire_p:
  "sp_lock (sproc_of k i) = initlock \<Longrightarrow>
     acquire_p i k = Ok (upd i (\<lambda>p. p\<lparr>sp_lock := held\<rparr>) (k\<lparr>r_hart := push_off (r_hart k)\<rparr>))"
  by (simp add: acquire_p_def acquire_held)

lemma rr_release_p:
  "sp_lock (sproc_of k i) = held \<Longrightarrow> 1 \<le> noff (r_hart k) \<Longrightarrow> \<not> intr (r_hart k) \<Longrightarrow>
     release_p i k = Ok (upd i (\<lambda>p. p\<lparr>sp_lock := initlock\<rparr>) (k\<lparr>r_hart := pop (r_hart k)\<rparr>))"
  by (simp add: release_p_def release_held_eq)

lemma rr_acquire_lk:
  "r_locks k l = initlock \<Longrightarrow>
     acquire_lk l k = Ok (k\<lparr>r_locks := (r_locks k)(l := held), r_hart := push_off (r_hart k)\<rparr>)"
  by (simp add: acquire_lk_def acquire_held)

lemma rr_release_lk:
  "r_locks k l = held \<Longrightarrow> 1 \<le> noff (r_hart k) \<Longrightarrow> \<not> intr (r_hart k) \<Longrightarrow>
     release_lk l k = Ok (k\<lparr>r_locks := (r_locks k)(l := initlock), r_hart := pop (r_hart k)\<rparr>)"
  by (simp add: release_lk_def release_held_eq)

text \<open>A change to a process between \<^verbatim>\<open>acquire\<close> and \<^verbatim>\<open>release\<close> of its lock is that change.\<close>

definition settle :: "rr \<Rightarrow> rr" where
  "settle k = k\<lparr>r_hart := pop (push_off (r_hart k))\<rparr>"

lemma release_bracket:
  assumes k: "rr_free k" "i < NPROC" and f: "\<And>p l. f (p\<lparr>sp_lock := l\<rparr>) = (f p)\<lparr>sp_lock := l\<rparr>"
  shows "release_p i (upd i f (upd i (\<lambda>p. p\<lparr>sp_lock := held\<rparr>) (k\<lparr>r_hart := push_off (r_hart k)\<rparr>))) =
    Ok (upd i f (settle k))"
proof -
  have l: "sp_lock (sproc_of k i) = initlock" "i < length (r_procs k)" "0 \<le> noff (r_hart k)"
    using k by (auto simp: rr_free_def hart_ok_def)
  have p: "sproc_of k i = (sproc_of k i)\<lparr>sp_lock := initlock\<rparr>" by (rule sproc.equality) (simp_all add: l)
  have "f (sproc_of k i) = (f (sproc_of k i))\<lparr>sp_lock := initlock\<rparr>"
    by (subst (1) p) (simp only: f)
  with l show ?thesis
    by (subst rr_release_p) (auto simp: upd_def settle_def f)
qed

lemma calm_settle: "hart_ok (r_hart k) \<Longrightarrow> calm k (settle k)"
  by (rule calmI [where ps = "r_procs k" and h = "pop (push_off (r_hart k))"])
    (auto simp: settle_def hart_ok_def)

lemma calm_upd:
  assumes "rr_free k" and "pcalm (sproc_of k i) (f (sproc_of k i))"
  shows "calm k (upd i f k)"
  by (rule calmI [where ps = "(r_procs k)[i := f (sproc_of k i)]" and h = "r_hart k"])
    (use assms in \<open>auto simp: upd_def rr_free_def nth_list_update_if\<close>)

lemma calm_upd_settle:
  assumes "rr_free k" and "pcalm (sproc_of k i) (f (sproc_of k i))"
  shows "calm k (upd i f (settle k))"
proof -
  have "calm k (settle k)" using calm_settle assms(1) by (simp add: rr_free_def)
  moreover from calm_free [OF assms(1) this] have "calm (settle k) (upd i f (settle k))"
    by (rule calm_upd) (use assms(2) in \<open>simp add: settle_def\<close>)
  ultimately show ?thesis by (rule rr_calm_trans)
qed

section \<open>Waking and killing\<close>

lemma wakeup_procs_calm:
  assumes "rr_free k" and "set is \<subseteq> {..<NPROC}"
  shows "\<exists>k'. wakeup_procs ch is k = Ok k' \<and> calm k k'"
  using assms
proof (induction "is" arbitrary: k)
  case Nil
  then show ?case by (simp add: rr_calm_refl rr_free_def)
next
  case (Cons i "is")
  define f :: "sproc \<Rightarrow> sproc" where "f = (\<lambda>p. if sp_state p = SLEEPING \<and> sp_chan p = ch then p\<lparr>sp_state := RUNNABLE\<rparr> else p)"
  let ?a = "upd i (\<lambda>p. p\<lparr>sp_lock := held\<rparr>) (k\<lparr>r_hart := push_off (r_hart k)\<rparr>)"
  have i: "i < NPROC" "set is \<subseteq> {..<NPROC}" "sp_lock (sproc_of k i) = initlock" "i < length (r_procs k)"
    using Cons.prems by (auto simp: rr_free_def)
  show ?case
  proof (cases "Some i = r_cpu k")
    case True
    then show ?thesis using Cons.IH [OF Cons.prems(1) i(2)] by simp
  next
    case False
    have b: "(if sp_state (sproc_of ?a i) = SLEEPING \<and> sp_chan (sproc_of ?a i) = ch
        then upd i (\<lambda>p. p\<lparr>sp_state := RUNNABLE\<rparr>) ?a else ?a) = upd i f ?a"
      using i(4) by (auto simp: f_def upd_nth upd_def)
    have r: "release_p i (upd i f ?a) = Ok (upd i f (settle k))"
      by (rule release_bracket [OF Cons.prems(1) i(1)]) (simp add: f_def)
    have c: "calm k (upd i f (settle k))"
      by (rule calm_upd_settle [OF Cons.prems(1)]) (simp add: f_def pcalm_def)
    obtain k' where k': "wakeup_procs ch is (upd i f (settle k)) = Ok k'" "calm (upd i f (settle k)) k'"
      using Cons.IH [OF calm_free [OF Cons.prems(1) c] i(2)] by blast
    have "wakeup_procs ch (i # is) k = Ok k'"
      using False by (simp only: wakeup_procs.simps rr_acquire_p [OF i(3)] bind_res.simps Let_def b r k'(1)) simp
    then show ?thesis using rr_calm_trans [OF c k'(2)] by blast
  qed
qed

lemma wakeup_calm: "rr_free k \<Longrightarrow> \<exists>k'. wakeup ch k = Ok k' \<and> calm k k'"
  unfolding wakeup_def by (rule wakeup_procs_calm) auto

lemma kill_procs_calm:
  assumes "rr_free k" and "set is \<subseteq> {..<NPROC}"
  shows "\<exists>r k'. kill_procs pid is k = Ok (r, k') \<and> calm k k'"
  using assms
proof (induction "is" arbitrary: k)
  case Nil
  then show ?case by (simp add: rr_calm_refl rr_free_def)
next
  case (Cons i "is")
  define f :: "sproc \<Rightarrow> sproc" where "f = (\<lambda>p. if sp_state p = SLEEPING then p\<lparr>sp_killed := 1, sp_state := RUNNABLE\<rparr> else p\<lparr>sp_killed := 1\<rparr>)"
  let ?a = "upd i (\<lambda>p. p\<lparr>sp_lock := held\<rparr>) (k\<lparr>r_hart := push_off (r_hart k)\<rparr>)"
  have i: "i < NPROC" "set is \<subseteq> {..<NPROC}" "sp_lock (sproc_of k i) = initlock" "i < length (r_procs k)"
    using Cons.prems by (auto simp: rr_free_def)
  show ?case
  proof (cases "sp_pid (sproc_of ?a i) = pid")
    case True
    have b: "(let k = upd i (\<lambda>p. p\<lparr>sp_killed := 1\<rparr>) ?a
        in if sp_state (sproc_of k i) = SLEEPING then upd i (\<lambda>p. p\<lparr>sp_state := RUNNABLE\<rparr>) k else k) = upd i f ?a"
      using i(4) by (auto simp: f_def upd_def)
    have r: "release_p i (upd i f ?a) = Ok (upd i f (settle k))"
      by (rule release_bracket [OF Cons.prems(1) i(1)]) (simp add: f_def)
    have "kill_procs pid (i # is) k = Ok (0, upd i f (settle k))"
      using True r b [unfolded Let_def]
      by (simp only: kill_procs.simps rr_acquire_p [OF i(3)] bind_res.simps Let_def simp_thms if_True)
    moreover have "calm k (upd i f (settle k))"
      by (rule calm_upd_settle [OF Cons.prems(1)]) (simp add: f_def pcalm_def)
    ultimately show ?thesis by blast
  next
    case False
    have r: "release_p i ?a = Ok (settle k)"
      using release_bracket [OF Cons.prems(1) i(1), of "\<lambda>p. p"] by (simp add: upd_same)
    have c: "calm k (settle k)" using calm_settle Cons.prems(1) by (simp add: rr_free_def)
    obtain q k' where k': "kill_procs pid is (settle k) = Ok (q, k')" "calm (settle k) k'"
      using Cons.IH [OF calm_free [OF Cons.prems(1) c] i(2)] by blast
    have "kill_procs pid (i # is) k = Ok (q, k')"
      using False r k'(1) by (simp only: kill_procs.simps rr_acquire_p [OF i(3)] bind_res.simps if_False)
    then show ?thesis using rr_calm_trans [OF c k'(2)] by blast
  qed
qed

lemma kill_calm: "rr_free k \<Longrightarrow> \<exists>r k'. kill pid k = Ok (r, k') \<and> calm k k'"
  unfolding kill_def by (rule kill_procs_calm) auto

lemma reparent_procs_calm:
  assumes "rr_free k" and "set is \<subseteq> {..<NPROC}"
  shows "\<exists>k'. reparent_procs p is k = Ok k' \<and> calm k k'"
  using assms
proof (induction "is" arbitrary: k)
  case Nil
  then show ?case by (simp add: rr_calm_refl rr_free_def)
next
  case (Cons i "is")
  show ?case
  proof (cases "sp_parent (sproc_of k i) = Some p")
    case True
    let ?u = "upd i (\<lambda>q. q\<lparr>sp_parent := r_initproc k\<rparr>) k"
    have u: "calm k ?u" by (rule calm_upd [OF Cons.prems(1)]) (simp add: pcalm_def)
    obtain k1 where k1: "wakeup (proc_chan (r_initproc k)) ?u = Ok k1" "calm ?u k1"
      using wakeup_calm [OF calm_free [OF Cons.prems(1) u]] by blast
    have c: "calm k k1" by (rule rr_calm_trans [OF u k1(2)])
    obtain k' where k': "reparent_procs p is k1 = Ok k'" "calm k1 k'"
      using Cons.IH [OF calm_free [OF Cons.prems(1) c]] Cons.prems(2) by auto
    show ?thesis using True k1(1) k'(1) rr_calm_trans [OF c k'(2)] by simp
  next
    case False
    then show ?thesis using Cons by simp
  qed
qed

lemma reparent_calm: "rr_free k \<Longrightarrow> \<exists>k'. reparent p k = Ok k' \<and> calm k k'"
  unfolding reparent_def by (rule reparent_procs_calm) auto

section \<open>The machine\<close>

datatype revent =
    RSchedule
  | RYield
  | RLock lockname
  | RUnlock lockname
  | RSleep chan lockname
  | RWakeup chan
  | RKill int
  | RExit int
  | RNice int
  | RStartlog

fun rexec :: "revent \<Rightarrow> rr \<Rightarrow> rr res" where
  "rexec RSchedule k = scheduler k"
| "rexec RYield k = bind_res (yield k) scheduler_return"
| "rexec (RLock l) k = acquire_lk l k"
| "rexec (RUnlock l) k = release_lk l k"
| "rexec (RSleep ch l) k = bind_res (sleep ch l k) scheduler_return"
| "rexec (RWakeup ch) k = wakeup ch k"
| "rexec (RKill pid) k = bind_res (kill pid k) (\<lambda>(r, k). Ok k)"
| "rexec (RExit st) k = bind_res (exit_finish st k) scheduler_return"
| "rexec (RNice n) k = bind_res (sys_nice n k) (\<lambda>(r, k). Ok k)"
| "rexec RStartlog k = Ok (snd (sys_startlog k))"

text \<open>
  When the kernel's callers perform an event, as for \<^verbatim>\<open>Sched_Machine\<close>; \<^verbatim>\<open>exit\<close> panics before this
  point when the first process calls it.
\<close>

fun rlegal :: "revent \<Rightarrow> rr \<Rightarrow> bool" where
  "rlegal RSchedule k = (r_cpu k = None)"
| "rlegal RYield k = (r_cpu k \<noteq> None \<and> noff (r_hart k) = 0)"
| "rlegal (RLock l) k = (r_cpu k \<noteq> None \<and> noff (r_hart k) = 0)"
| "rlegal (RUnlock l) k = (r_cpu k \<noteq> None \<and> r_locks k l = held)"
| "rlegal (RSleep ch l) k = (r_cpu k \<noteq> None \<and> r_locks k l = held)"
| "rlegal (RWakeup ch) k = True"
| "rlegal (RKill pid) k = True"
| "rlegal (RExit st) k = (r_cpu k \<noteq> None \<and> r_cpu k \<noteq> r_initproc k \<and> noff (r_hart k) = 0)"
| "rlegal (RNice n) k = (r_cpu k \<noteq> None \<and> noff (r_hart k) = 0)"
| "rlegal RStartlog k = (r_cpu k \<noteq> None \<and> noff (r_hart k) = 0)"

text \<open>
  The state between events; \<open>L\<close> is the lock outside the table that the running process holds.
\<close>

definition rr_holds :: "lockname option \<Rightarrow> rr \<Rightarrow> bool" where
  "rr_holds L k \<longleftrightarrow> rr_free k \<and>
     (\<forall>l. r_locks k l = (if L = Some l then held else initlock)) \<and>
     noff (r_hart k) = (if L = None then 0 else 1) \<and> (r_cpu k = None \<longrightarrow> L = None) \<and>
     (\<forall>i < NPROC. sp_state (sproc_of k i) = RUNNING \<longleftrightarrow> r_cpu k = Some i) \<and>
     (\<forall>i. r_cpu k = Some i \<longrightarrow> i < NPROC \<and> r_at k = i) \<and> r_at k \<le> NPROC \<and>
     (\<forall>i < NPROC. sp_state (sproc_of k i) \<in> {RUNNABLE, SLEEPING} \<longrightarrow> sp_resume (sproc_of k i) \<noteq> Nowhere)"

definition rr_ok :: "rr \<Rightarrow> bool" where
  "rr_ok k \<longleftrightarrow> (\<exists>L. rr_holds L k)"

text \<open>The first place of the table the scheduler has not passed, and the log's variables.\<close>

definition cursor :: "rr \<Rightarrow> nat" where
  "cursor k = (case r_cpu k of None \<Rightarrow> r_at k | Some i \<Rightarrow> Suc i)"

definition log_of :: "rr \<Rightarrow> logentry list \<times> int \<times> int" where
  "log_of k = (r_schedlog k, r_numLog k, r_lastProcessId k)"

text \<open>The process the next \<open>RSchedule\<close> picks.\<close>

definition upcoming :: "rr \<Rightarrow> nat option" where
  "upcoming k = find (\<lambda>i. sp_state (sproc_of k i) = RUNNABLE) [r_at k..<NPROC]"

text \<open>What an event other than \<open>RSchedule\<close> leaves alone, and what \<open>RSchedule\<close> does.\<close>

definition rr_rest :: "rr \<Rightarrow> rr \<Rightarrow> bool" where
  "rr_rest k k' \<longleftrightarrow> cursor k' = cursor k \<and> log_of k' = log_of k \<and> (r_cpu k = None \<longrightarrow> r_cpu k' = None) \<and>
     (\<forall>j < NPROC. sp_pid (sproc_of k' j) = sp_pid (sproc_of k j) \<and>
        (sp_state (sproc_of k j) = RUNNABLE \<longrightarrow> sp_state (sproc_of k' j) = RUNNABLE))"

definition rr_turn :: "rr \<Rightarrow> rr \<Rightarrow> bool" where
  "rr_turn k k' \<longleftrightarrow>
     (\<forall>j < NPROC. sp_pid (sproc_of k' j) = sp_pid (sproc_of k j)) \<and>
     (case upcoming k of
        None \<Rightarrow> r_cpu k' = None \<and> r_at k' = 0 \<and> log_of k' = log_of k \<and>
          (\<forall>j < NPROC. sp_state (sproc_of k' j) = sp_state (sproc_of k j))
      | Some i \<Rightarrow> r_cpu k' = Some i \<and> log_of k' = log_of (log_dispatch i k) \<and>
          (\<forall>j < NPROC. sp_state (sproc_of k' j) = (if j = i then RUNNING else sp_state (sproc_of k j))))"

lemma cursor_cong: "r_cpu k' = r_cpu k \<Longrightarrow> r_at k' = r_at k \<Longrightarrow> cursor k' = cursor k"
  unfolding cursor_def by (simp only:)

lemma rr_holdsD:
  assumes "rr_holds L k"
  shows "rr_free k" "r_locks k l = (if L = Some l then held else initlock)"
    "noff (r_hart k) = (if L = None then 0 else 1)" "r_cpu k = None \<Longrightarrow> L = None"
    "i < NPROC \<Longrightarrow> sp_state (sproc_of k i) = RUNNING \<longleftrightarrow> r_cpu k = Some i"
    "r_cpu k = Some i \<Longrightarrow> i < NPROC" "r_cpu k = Some i \<Longrightarrow> r_at k = i" "r_at k \<le> NPROC"
    "i < NPROC \<Longrightarrow> sp_state (sproc_of k i) \<in> {RUNNABLE, SLEEPING} \<Longrightarrow> sp_resume (sproc_of k i) \<noteq> Nowhere"
    "length (r_procs k) = NPROC" "hart_ok (r_hart k)"
    "i < NPROC \<Longrightarrow> sp_lock (sproc_of k i) = initlock"
  using assms by (auto simp: rr_holds_def rr_free_def)

subsection \<open>Events that do not switch\<close>

lemma calm_holds:
  assumes "rr_holds L k" and "calm k k'"
  shows "rr_holds L k'"
proof -
  note D = rr_holdsD [OF assms(1)] and C = calmD [OF assms(2)]
  have p: "pcalm (sproc_of k j) (sproc_of k' j)" if "j < NPROC" for j using C(12) D(10) that by simp
  have "sp_state (sproc_of k' j) = RUNNING \<longleftrightarrow> r_cpu k' = Some j"
    "sp_state (sproc_of k' j) \<in> {RUNNABLE, SLEEPING} \<longrightarrow> sp_resume (sproc_of k' j) \<noteq> Nowhere" if "j < NPROC" for j
    using p [OF that] D(5,9) [OF that] C(1) by (auto simp: pcalm_def)
  then show ?thesis
    unfolding rr_holds_def using calm_free [OF D(1) assms(2)] D(2,3,4,6-8) by (auto simp: C)
qed

lemma calm_rest:
  assumes "rr_holds L k" and "calm k k'"
  shows "rr_rest k k'"
proof -
  note C = calmD [OF assms(2)]
  have "pcalm (sproc_of k j) (sproc_of k' j)" if "j < NPROC" for j
    using C(12) rr_holdsD(10) [OF assms(1)] that by simp
  then have "sp_pid (sproc_of k' j) = sp_pid (sproc_of k j)"
    "sp_state (sproc_of k j) = RUNNABLE \<Longrightarrow> sp_state (sproc_of k' j) = RUNNABLE" if "j < NPROC" for j
    using pcalmD that by blast+
  moreover have "cursor k' = cursor k" by (rule cursor_cong) (rule C)+
  ultimately show ?thesis by (simp add: rr_rest_def log_of_def C(1,4-6))
qed

text \<open>Taking and dropping a lock outside the table.\<close>

lemma relock_holds:
  assumes k: "rr_holds L k" and c: "r_cpu k \<noteq> None" and h: "hart_ok h"
    and n: "noff h = (if L' = None then 0 else 1)"
    and f: "\<And>l. f l = (if L' = Some l then held else initlock)"
  shows "rr_holds L' (k\<lparr>r_locks := f, r_hart := h\<rparr>) \<and> rr_rest k (k\<lparr>r_locks := f, r_hart := h\<rparr>)"
proof
  note D = rr_holdsD [OF k]
  have "rr_free (k\<lparr>r_locks := f, r_hart := h\<rparr>)" using D(1) h by (simp add: rr_free_def)
  moreover obtain i where i: "r_cpu k = Some i" using c by blast
  ultimately show "rr_holds L' (k\<lparr>r_locks := f, r_hart := h\<rparr>)"
    unfolding rr_holds_def
  proof (intro conjI allI impI)
    fix j assume "j < NPROC"
    then show "(sp_state (sproc_of (k\<lparr>r_locks := f, r_hart := h\<rparr>) j) = RUNNING) =
        (r_cpu (k\<lparr>r_locks := f, r_hart := h\<rparr>) = Some j)"
      by (simp add: D(5))
  next
    fix j assume "r_cpu (k\<lparr>r_locks := f, r_hart := h\<rparr>) = Some j"
    then show "j < NPROC" "r_at (k\<lparr>r_locks := f, r_hart := h\<rparr>) = j" by (simp_all add: D(6,7))
  next
    fix j assume "j < NPROC" "sp_state (sproc_of (k\<lparr>r_locks := f, r_hart := h\<rparr>) j) \<in> {RUNNABLE, SLEEPING}"
    then show "sp_resume (sproc_of (k\<lparr>r_locks := f, r_hart := h\<rparr>) j) \<noteq> Nowhere" using D(9) [of j] by simp
  qed (simp_all add: n f i D(8))
  have "cursor (k\<lparr>r_locks := f, r_hart := h\<rparr>) = cursor k" by (rule cursor_cong) simp_all
  then show "rr_rest k (k\<lparr>r_locks := f, r_hart := h\<rparr>)" by (simp add: rr_rest_def log_of_def)
qed

lemma lock_holds:
  assumes "rr_holds None k" and "r_cpu k \<noteq> None"
  shows "\<exists>k'. acquire_lk l k = Ok k' \<and> rr_holds (Some l) k' \<and> rr_rest k k'"
proof -
  note D = rr_holdsD [OF assms(1)]
  have "rr_holds (Some l) (k\<lparr>r_locks := (r_locks k)(l := held), r_hart := push_off (r_hart k)\<rparr>) \<and>
      rr_rest k (k\<lparr>r_locks := (r_locks k)(l := held), r_hart := push_off (r_hart k)\<rparr>)"
    by (rule relock_holds [OF assms]) (use D(2,3) in \<open>simp_all add: hart_ok_def\<close>)
  then show ?thesis using rr_acquire_lk [of k l] D(2) by simp
qed

lemma holds_lock:
  assumes "rr_holds L k" and "r_locks k l = held"
  shows "L = Some l"
proof (rule ccontr)
  assume "L \<noteq> Some l"
  then have "r_locks k l = initlock" using rr_holdsD(2) [OF assms(1)] by simp
  with assms(2) show False by (simp add: held_def initlock_def)
qed

lemma unlock_holds:
  assumes "rr_holds (Some l) k"
  shows "\<exists>k'. release_lk l k = Ok k' \<and> rr_holds None k' \<and> rr_rest k k'"
proof -
  note D = rr_holdsD [OF assms]
  have h: "noff (r_hart k) = 1" "\<not> intr (r_hart k)" "r_cpu k \<noteq> None" using D(3,4,11) by (auto simp: hart_ok_def)
  have "rr_holds None (k\<lparr>r_locks := (r_locks k)(l := initlock), r_hart := pop (r_hart k)\<rparr>) \<and>
      rr_rest k (k\<lparr>r_locks := (r_locks k)(l := initlock), r_hart := pop (r_hart k)\<rparr>)"
    by (rule relock_holds [OF assms h(3)]) (use D(2) h in \<open>auto simp: hart_ok_def\<close>)
  then show ?thesis using rr_release_lk [of k l] D(2) h by simp
qed

lemma nice_holds:
  assumes "rr_holds L k" and "r_cpu k = Some i"
  shows "\<exists>r k'. sys_nice n k = Ok (r, k') \<and> calm k k'"
  using assms(2) calm_upd [OF rr_holdsD(1) [OF assms(1)], of i]
  by (auto simp: sys_nice_def Let_def pcalm_def)

subsection \<open>Events that give up the CPU\<close>

lemma upd_upd: "upd i f (upd i g k) = upd i (\<lambda>p. f (g p)) k"
  by (cases "i < length (r_procs k)") (simp_all add: upd_def list_update_beyond)

lemma release_lk_upd: "release_lk l (upd i f k) = bind_res (release_lk l k) (\<lambda>k. Ok (upd i f k))"
  by (cases "release me (r_locks k l) (r_hart k)") (auto simp: release_lk_def upd_def)

lemma rr_switch_out:
  assumes "r_cpu k = Some i" and "r_at k = i" and "i < length (r_procs k)" and "sp_lock (sproc_of k i) = held"
    and "sp_state (sproc_of k i) \<noteq> RUNNING" and "noff (r_hart k) = 1" and "\<not> intr (r_hart k)"
  shows "bind_res (sched r k) scheduler_return =
    Ok (upd i (\<lambda>p. p\<lparr>sp_resume := r (intena (r_hart k)), sp_lock := initlock\<rparr>)
      (k\<lparr>r_hart := pop (r_hart k), r_cpu := None, r_at := Suc i\<rparr>))"
  using assms by (simp add: sched_def scheduler_return_def rr_release_p upd_nth) (simp add: upd_def)

lemma out_holds:
  assumes k: "rr_holds L k" "r_cpu k = Some i" and h: "hart_ok h" "noff h = 0" and f: "\<And>l. f l = initlock"
    and g: "sp_lock (g (sproc_of k i)) = initlock" "sp_pid (g (sproc_of k i)) = sp_pid (sproc_of k i)"
      "sp_state (g (sproc_of k i)) \<noteq> RUNNING"
      "sp_state (g (sproc_of k i)) \<in> {RUNNABLE, SLEEPING} \<Longrightarrow> sp_resume (g (sproc_of k i)) \<noteq> Nowhere"
    and k': "k' = upd i g (k\<lparr>r_locks := f, r_hart := h, r_cpu := None, r_at := Suc i\<rparr>)"
  shows "rr_holds None k' \<and> rr_rest k k'"
proof
  note D = rr_holdsD [OF k(1)]
  have i: "i < NPROC" "sp_state (sproc_of k i) = RUNNING" using D(5,6) k(2) by auto
  have p: "sproc_of k' j = (if j = i then g (sproc_of k i) else sproc_of k j)" for j
    using i D(10) by (simp add: k' upd_nth)
  have "rr_free k'"
    using D(10,12) g(1) h(1) by (auto simp: rr_free_def p) (simp_all add: k')
  moreover have "sp_state (sproc_of k' j) = RUNNING \<longleftrightarrow> r_cpu k' = Some j" if "j < NPROC" for j
    using D(5) [OF that] k(2) g(3) by (auto simp: p) (simp_all add: k')
  moreover have "sp_state (sproc_of k' j) \<in> {RUNNABLE, SLEEPING} \<longrightarrow> sp_resume (sproc_of k' j) \<noteq> Nowhere"
    if "j < NPROC" for j
    using D(9) [OF that] g(4) by (auto simp: p)
  ultimately show "rr_holds None k'" using i(1) h f by (simp add: rr_holds_def) (simp add: k')
  have "cursor k' = cursor k" "log_of k' = log_of k" "r_cpu k' = None" using k(2) by (simp_all add: k' cursor_def log_of_def)
  then show "rr_rest k k'" using i(2) g(2) by (simp add: rr_rest_def p)
qed

lemma yield_holds:
  assumes k: "rr_holds None k" "r_cpu k = Some i"
  shows "\<exists>k'. bind_res (yield k) scheduler_return = Ok k' \<and> rr_holds None k' \<and> rr_rest k k'"
proof -
  note D = rr_holdsD [OF k(1)]
  have i: "i < NPROC" "r_at k = i" "sp_lock (sproc_of k i) = initlock" "noff (r_hart k) = 0"
    using D(3,6,7,12) k(2) by auto
  define a where "a = upd i (\<lambda>p. p\<lparr>sp_lock := held, sp_state := RUNNABLE\<rparr>) (k\<lparr>r_hart := push_off (r_hart k)\<rparr>)"
  have y: "yield k = sched Yielded a"
    by (simp add: yield_def k(2) rr_acquire_p i(3) upd_upd a_def)
  define k' where "k' = upd i (\<lambda>p. p\<lparr>sp_resume := Yielded (intena (r_hart a)), sp_lock := initlock\<rparr>)
      (a\<lparr>r_hart := pop (r_hart a), r_cpu := None, r_at := Suc i\<rparr>)"
  have "bind_res (yield k) scheduler_return = Ok k'"
    unfolding y k'_def
    by (rule rr_switch_out) (use i k(2) D(10) in \<open>simp_all add: a_def upd_nth\<close>)
  moreover have "rr_holds None k' \<and> rr_rest k k'"
    by (rule out_holds [OF k, where h = "pop (push_off (r_hart k))" and f = "r_locks k" and
          g = "\<lambda>p. p\<lparr>sp_state := RUNNABLE, sp_resume := Yielded (intena (r_hart a)), sp_lock := initlock\<rparr>"])
      (use i D(2,11) in \<open>simp_all add: hart_ok_def k'_def\<close>, use i(1) D(10) in \<open>simp add: a_def upd_def\<close>)
  ultimately show ?thesis by blast
qed

text \<open>\<^verbatim>\<open>sleep\<close> and \<^verbatim>\<open>exit\<close>: the process takes its own lock, drops the other one and switches.\<close>

lemma drop_out:
  assumes k: "rr_holds (Some l) k" "r_cpu k = Some i"
    and g: "\<And>p v. g (p\<lparr>sp_lock := v\<rparr>) = (g p)\<lparr>sp_lock := v\<rparr>" "\<And>p. sp_pid (g p) = sp_pid p"
      "\<And>p. sp_state (g p) \<noteq> RUNNING" "\<And>p. sp_state (g p) = RUNNABLE \<or> sp_state (g p) = SLEEPING \<Longrightarrow> (\<forall>b. r b \<noteq> Nowhere)"
  shows "\<exists>a b k'. acquire_p i k = Ok a \<and> release_lk l a = Ok b \<and>
    bind_res (sched r (upd i g b)) scheduler_return = Ok k' \<and> rr_holds None k' \<and> rr_rest k k'"
proof -
  note D = rr_holdsD [OF k(1)]
  have i: "i < NPROC" "r_at k = i" "sp_lock (sproc_of k i) = initlock" "noff (r_hart k) = 1" "\<not> intr (r_hart k)"
    using D(3,6,7,11,12) k(2) by (auto simp: hart_ok_def)
  define h where "h = pop (push_off (r_hart k))"
  define a where "a = upd i (\<lambda>p. p\<lparr>sp_lock := held\<rparr>) (k\<lparr>r_hart := push_off (r_hart k)\<rparr>)"
  define b where "b = a\<lparr>r_locks := (r_locks k)(l := initlock), r_hart := h\<rparr>"
  define k' where "k' = upd i (\<lambda>p. p\<lparr>sp_resume := r (intena (r_hart (upd i g b))), sp_lock := initlock\<rparr>)
      ((upd i g b)\<lparr>r_hart := pop (r_hart (upd i g b)), r_cpu := None, r_at := Suc i\<rparr>)"
  have h: "noff h = 1" "\<not> intr h" using i by (simp_all add: h_def)
  have "acquire_p i k = Ok a" using i(3) by (simp add: rr_acquire_p a_def)
  moreover have "release_lk l a = Ok b"
    using rr_release_lk [of a l] D(2) [of l] i(4) by (simp add: a_def b_def h_def)
  moreover have "bind_res (sched r (upd i g b)) scheduler_return = Ok k'"
    unfolding k'_def
    by (rule rr_switch_out) (use i k(2) D(10) h g in \<open>simp_all add: b_def a_def upd_nth\<close>)
  moreover have "rr_holds None k' \<and> rr_rest k k'"
  proof (rule out_holds [OF k, where h = "pop h" and f = "(r_locks k)(l := initlock)" and
          g = "\<lambda>p. (g p)\<lparr>sp_resume := r (intena h), sp_lock := initlock\<rparr>"])
    show "k' = upd i (\<lambda>p. (g p)\<lparr>sp_resume := r (intena h), sp_lock := initlock\<rparr>)
        (k\<lparr>r_locks := (r_locks k)(l := initlock), r_hart := pop h, r_cpu := None, r_at := Suc i\<rparr>)"
      using i(1) D(10) by (simp add: k'_def b_def a_def upd_def g(1))
  qed (use D(2) h g in \<open>auto simp: hart_ok_def\<close>)
  ultimately show ?thesis by blast
qed

lemma rr_rest_trans: "rr_rest k k1 \<Longrightarrow> rr_rest k1 k2 \<Longrightarrow> rr_rest k k2"
  by (simp add: rr_rest_def)

lemma sleep_holds:
  assumes k: "rr_holds (Some l) k" "r_cpu k = Some i"
  shows "\<exists>k'. bind_res (sleep ch l k) scheduler_return = Ok k' \<and> rr_holds None k' \<and> rr_rest k k'"
proof -
  let ?g = "\<lambda>p. p\<lparr>sp_chan := ch, sp_state := SLEEPING\<rparr>"
  have "\<exists>a b k'. acquire_p i k = Ok a \<and> release_lk l a = Ok b \<and>
      bind_res (sched (Slept l) (upd i ?g b)) scheduler_return = Ok k' \<and> rr_holds None k' \<and> rr_rest k k'"
    by (rule drop_out [OF k]) simp_all
  then obtain a b k' where "acquire_p i k = Ok a" "release_lk l a = Ok b"
    and k': "bind_res (sched (Slept l) (upd i ?g b)) scheduler_return = Ok k'" "rr_holds None k'" "rr_rest k k'"
    by blast
  then have "sleep ch l k = sched (Slept l) (upd i ?g b)"
    by (simp add: sleep_def k(2) upd_upd Let_def)
  with k' show ?thesis by auto
qed

lemma exit_holds:
  assumes k: "rr_holds None k" "r_cpu k = Some i"
  shows "\<exists>k'. bind_res (exit_finish st k) scheduler_return = Ok k' \<and> rr_holds None k' \<and> rr_rest k k'"
proof -
  obtain k1 where k1: "acquire_lk WaitLock k = Ok k1" "rr_holds (Some WaitLock) k1" "rr_rest k k1"
    using lock_holds [OF k(1)] k(2) by blast
  obtain k2 where k2: "reparent i k1 = Ok k2" "calm k1 k2"
    using reparent_calm [OF rr_holdsD(1) [OF k1(2)]] by blast
  have h2: "rr_holds (Some WaitLock) k2" "rr_rest k1 k2"
    using calm_holds [OF k1(2) k2(2)] calm_rest [OF k1(2) k2(2)] by blast+
  obtain k3 where k3: "wakeup (proc_chan (sp_parent (sproc_of k2 i))) k2 = Ok k3" "calm k2 k3"
    using wakeup_calm [OF rr_holdsD(1) [OF h2(1)]] by blast
  have h3: "rr_holds (Some WaitLock) k3" "rr_rest k2 k3"
    using calm_holds [OF h2(1) k3(2)] calm_rest [OF h2(1) k3(2)] by blast+
  have "r_cpu k1 = Some i" using k1(1) k(2) rr_holdsD(2) [OF k(1)] by (auto simp: rr_acquire_lk)
  then have c: "r_cpu k3 = Some i" using calmD(1) [OF k2(2)] calmD(1) [OF k3(2)] by simp
  let ?g = "\<lambda>p. p\<lparr>sp_xstate := st, sp_state := ZOMBIE\<rparr>"
  have "\<exists>a b k'. acquire_p i k3 = Ok a \<and> release_lk WaitLock a = Ok b \<and>
      bind_res (sched (\<lambda>_. Nowhere) (upd i ?g b)) scheduler_return = Ok k' \<and> rr_holds None k' \<and> rr_rest k3 k'"
    by (rule drop_out [OF h3(1) c]) simp_all
  then obtain a b k' where ab: "acquire_p i k3 = Ok a" "release_lk WaitLock a = Ok b"
    and k': "bind_res (sched (\<lambda>_. Nowhere) (upd i ?g b)) scheduler_return = Ok k'" "rr_holds None k'" "rr_rest k3 k'"
    by blast
  have "exit_finish st k = sched (\<lambda>_. Nowhere) (upd i ?g b)"
    by (simp add: exit_finish_def k(2) k1(1) k2(1) k3(1) ab(1) upd_upd release_lk_upd ab(2) Let_def)
  moreover have "rr_rest k k'" using rr_rest_trans k1(3) h2(2) h3(2) k'(3) by metis
  ultimately show ?thesis using k' by auto
qed

subsection \<open>The scheduler\<close>

lemma scan_skip:
  assumes k: "rr_free k" and i: "i < NPROC" "sp_state (sproc_of k i) \<noteq> RUNNABLE"
  shows "scan (i # is) k = scan is (settle k)"
proof -
  let ?a = "upd i (\<lambda>p. p\<lparr>sp_lock := held\<rparr>) (k\<lparr>r_hart := push_off (r_hart k)\<rparr>)"
  have "sp_lock (sproc_of k i) = initlock" using k i(1) by (simp add: rr_free_def)
  moreover have "release_p i ?a = Ok (settle k)"
    using release_bracket [OF k i(1), of "\<lambda>p. p"] by (simp add: upd_same)
  moreover have "sp_state (sproc_of ?a i) \<noteq> RUNNABLE" using i(2) by (simp add: upd_nth)
  ultimately show ?thesis by (simp add: rr_acquire_p)
qed

lemma settle_simps [simp]:
  "r_procs (settle k) = r_procs k" "(settle k)\<lparr>r_hart := h\<rparr> = k\<lparr>r_hart := h\<rparr>"
  by (simp_all add: settle_def)

lemma settle_free: "rr_free k \<Longrightarrow> rr_free (settle k) \<and> noff (r_hart (settle k)) = noff (r_hart k)"
  using pop_push_fields [of "r_hart k"] by (auto simp: rr_free_def settle_def)

lemma scan_result:
  assumes "rr_free k" and "set is \<subseteq> {..<NPROC}"
  shows "\<exists>h. hart_ok h \<and> noff h = noff (r_hart k) \<and>
    scan is k = (case find (\<lambda>i. sp_state (sproc_of k i) = RUNNABLE) is of
      None \<Rightarrow> Ok (None, k\<lparr>r_hart := h\<rparr>)
    | Some i \<Rightarrow> Ok (Some i, log_dispatch i ((upd i (\<lambda>p. p\<lparr>sp_lock := held, sp_state := RUNNING\<rparr>)
        (k\<lparr>r_hart := push_off h\<rparr>))\<lparr>r_cpu := Some i\<rparr>)))"
  using assms
proof (induction "is" arbitrary: k)
  case Nil
  then show ?case by (auto simp: rr_free_def intro!: exI [of _ "r_hart k"])
next
  case (Cons i "is")
  have i: "i < NPROC" "set is \<subseteq> {..<NPROC}" using Cons.prems(2) by auto
  show ?case
  proof (cases "sp_state (sproc_of k i) = RUNNABLE")
    case True
    have l: "sp_lock (sproc_of k i) = initlock" "i < length (r_procs k)" "hart_ok (r_hart k)"
      using Cons.prems(1) i(1) by (auto simp: rr_free_def)
    have "scan (i # is) k = Ok (Some i, log_dispatch i ((upd i (\<lambda>p. p\<lparr>sp_lock := held, sp_state := RUNNING\<rparr>)
        (k\<lparr>r_hart := push_off (r_hart k)\<rparr>))\<lparr>r_cpu := Some i\<rparr>))"
      using True l by (simp add: rr_acquire_p upd_nth upd_upd Let_def)
    then show ?thesis using True l(3) by auto
  next
    case False
    note S = settle_free [OF Cons.prems(1)]
    have f: "find (\<lambda>i. sp_state (sproc_of k i) = RUNNABLE) (i # is) = find (\<lambda>i. sp_state (sproc_of k i) = RUNNABLE) is"
      using False by simp
    show ?thesis
      using Cons.IH [OF conjunct1 [OF S] i(2)] unfolding scan_skip [OF Cons.prems(1) i(1) False] f settle_simps conjunct2 [OF S] .
  qed
qed

lemma in_holds:
  assumes k: "rr_holds None k" "r_cpu k = None" and i: "i < NPROC"
    and p: "\<And>j. sproc_of k' j = (if j = i then g (sproc_of k i) else sproc_of k j)"
    and g: "sp_lock (g (sproc_of k i)) = initlock" "sp_state (g (sproc_of k i)) = RUNNING"
    and k': "length (r_procs k') = NPROC" "r_cpu k' = Some i" "r_at k' = i" "hart_ok (r_hart k')"
      "noff (r_hart k') = (if L = None then 0 else 1)"
      "\<And>l. r_locks k' l = (if L = Some l then held else initlock)"
  shows "rr_holds L k'"
proof -
  note D = rr_holdsD [OF k(1)]
  have "rr_free k'" using k' D(12) g(1) by (simp add: rr_free_def p)
  moreover have "sp_state (sproc_of k' j) = RUNNING \<longleftrightarrow> r_cpu k' = Some j" if "j < NPROC" for j
    using D(5) [OF that] k(2) g(2) k'(2) by (auto simp: p)
  moreover have "sp_state (sproc_of k' j) \<in> {RUNNABLE, SLEEPING} \<longrightarrow> sp_resume (sproc_of k' j) \<noteq> Nowhere"
    if "j < NPROC" for j
    using D(9) [OF that] g(2) by (auto simp: p)
  ultimately show ?thesis unfolding rr_holds_def using k' i by simp
qed

lemma log_dispatch_simps [simp]:
  "r_procs (log_dispatch i k) = r_procs k" "r_locks (log_dispatch i k) = r_locks k"
  "r_cpu (log_dispatch i k) = r_cpu k" "r_at (log_dispatch i k) = r_at k"
  "r_hart (log_dispatch i k) = r_hart k"
  by (simp_all add: log_dispatch_def Let_def)

lemma log_dispatch_cong:
  "log_of k' = log_of k \<Longrightarrow> r_timer k' = r_timer k \<Longrightarrow> sp_pid (sproc_of k' i) = sp_pid (sproc_of k i) \<Longrightarrow>
     log_of (log_dispatch i k') = log_of (log_dispatch i k)"
  by (simp add: log_of_def log_dispatch_def Let_def)

text \<open>
  \<open>d\<close> is the state in which \<^verbatim>\<open>scheduler\<close> switches to process \<open>i\<close>; the first thing the process does
  is to release its lock, and a sleeper then takes back the lock it slept with.
\<close>

lemma resume_holds:
  assumes k: "rr_holds None k" "r_cpu k = None" and i: "i < NPROC" "sp_state (sproc_of k i) = RUNNABLE"
    and d: "length (r_procs d) = NPROC" "r_cpu d = Some i" "r_at d = i" "r_locks d = r_locks k"
      "noff (r_hart d) = 1" "\<not> intr (r_hart d)"
      "\<And>j. sproc_of d j = (if j = i then (sproc_of k i)\<lparr>sp_lock := held, sp_state := RUNNING\<rparr> else sproc_of k j)"
  shows "\<exists>L k'. resume i d = Ok k' \<and> rr_holds L k' \<and> r_cpu k' = Some i \<and> log_of k' = log_of d \<and>
    (\<forall>j < NPROC. sp_pid (sproc_of k' j) = sp_pid (sproc_of k j) \<and>
       sp_state (sproc_of k' j) = (if j = i then RUNNING else sp_state (sproc_of k j)))"
proof -
  have lk: "r_locks d l = initlock" for l using rr_holdsD(2) [OF k(1)] d(4) by simp
  have hl: "sp_lock (sproc_of d i) = held" by (simp add: d(7))
  have rel: "release_p i (d\<lparr>r_hart := h\<rparr>) =
      Ok (upd i (\<lambda>p. p\<lparr>sp_lock := initlock\<rparr>) (d\<lparr>r_hart := pop h\<rparr>))" if "noff h = 1" "\<not> intr h" for h
    using rr_release_p [of "d\<lparr>r_hart := h\<rparr>" i] hl that by simp
  have fin: "\<exists>L k'. Ok e = Ok k' \<and> rr_holds L k' \<and> r_cpu k' = Some i \<and> log_of k' = log_of d \<and>
      (\<forall>j < NPROC. sp_pid (sproc_of k' j) = sp_pid (sproc_of k j) \<and>
         sp_state (sproc_of k' j) = (if j = i then RUNNING else sp_state (sproc_of k j)))"
    if e: "\<And>j. sproc_of e j = (if j = i then (sproc_of k i)\<lparr>sp_lock := initlock, sp_state := RUNNING, sp_chan := c\<rparr>
          else sproc_of k j)" "length (r_procs e) = NPROC" "r_cpu e = Some i" "r_at e = i" "log_of e = log_of d"
        "hart_ok (r_hart e)" "noff (r_hart e) = (if L = None then 0 else 1)"
        "\<And>l. r_locks e l = (if L = Some l then held else initlock)" for e c L
  proof -
    have "rr_holds L e"
      by (rule in_holds [OF k i(1), where g = "\<lambda>p. p\<lparr>sp_lock := initlock, sp_state := RUNNING, sp_chan := c\<rparr>"],
          rule e(1)) (simp_all add: e)
    then show ?thesis using e by (auto simp: e(1))
  qed
  have c: "(sproc_of k i)\<lparr>sp_chan := sp_chan (sproc_of k i)\<rparr> = sproc_of k i" by simp
  show ?thesis
  proof (cases "sp_resume (sproc_of d i)")
    case Nowhere
    then show ?thesis using rr_holdsD(9) [OF k(1) i(1)] i(2) by (simp add: d(7))
  next
    case Forkret
    then have r: "resume i d = Ok (upd i (\<lambda>p. p\<lparr>sp_lock := initlock\<rparr>) (d\<lparr>r_hart := pop (r_hart d)\<rparr>))"
      using rel [of "r_hart d"] d(5,6) by (simp add: resume_def)
    show ?thesis unfolding r
      by (rule fin [where c = "sp_chan (sproc_of k i)" and L = None])
        (use d(1-3,5,6) i(1) lk in \<open>simp_all add: upd_nth d(7) log_of_def hart_ok_def\<close>)
  next
    case (Yielded ie)
    let ?h = "(r_hart d)\<lparr>intena := ie\<rparr>"
    have r: "resume i d = Ok ((upd i (\<lambda>p. p\<lparr>sp_lock := initlock\<rparr>) (d\<lparr>r_hart := pop ?h\<rparr>))
        \<lparr>r_timer := s32 (r_timer d + 1)\<rparr>)"
      using Yielded rel [of ?h] d(5,6) by (simp add: resume_def)
    show ?thesis unfolding r
      by (rule fin [where c = "sp_chan (sproc_of k i)" and L = None])
        (use d(1-3,5,6) i(1) lk in \<open>simp_all add: upd_nth d(7) log_of_def hart_ok_def\<close>)
  next
    case (Slept l ie)
    let ?h = "(r_hart d)\<lparr>intena := ie\<rparr>"
    let ?e = "upd i (\<lambda>p. p\<lparr>sp_chan := NoChan, sp_lock := initlock\<rparr>) (d\<lparr>r_hart := pop ?h\<rparr>)"
    have "release_p i (upd i (\<lambda>p. p\<lparr>sp_chan := NoChan\<rparr>) (d\<lparr>r_hart := ?h\<rparr>)) = Ok ?e"
      using rr_release_p [of "upd i (\<lambda>p. p\<lparr>sp_chan := NoChan\<rparr>) (d\<lparr>r_hart := ?h\<rparr>)" i] hl d(1,5,6) i(1)
      by (simp add: upd_nth) (simp add: upd_def)
    then have r: "resume i d = Ok (?e\<lparr>r_locks := (r_locks d)(l := held), r_hart := push_off (pop ?h)\<rparr>)"
      using Slept rr_acquire_lk [of ?e l] lk by (simp add: resume_def Let_def)
    show ?thesis unfolding r
      by (rule fin [where c = NoChan and L = "Some l"])
        (use d(1-3,5,6) i(1) lk in \<open>simp_all add: upd_nth d(7) log_of_def hart_ok_def\<close>)
  qed
qed

lemma scheduler_holds:
  assumes k: "rr_holds None k" "r_cpu k = None"
  shows "\<exists>L k'. scheduler k = Ok k' \<and> rr_holds L k' \<and> rr_turn k k'"
proof -
  note D = rr_holdsD [OF k(1)]
  obtain h where h: "hart_ok h" "noff h = 0"
    and s: "scan [r_at k..<NPROC] k = (case upcoming k of None \<Rightarrow> Ok (None, k\<lparr>r_hart := h\<rparr>)
      | Some i \<Rightarrow> Ok (Some i, log_dispatch i ((upd i (\<lambda>p. p\<lparr>sp_lock := held, sp_state := RUNNING\<rparr>)
          (k\<lparr>r_hart := push_off h\<rparr>))\<lparr>r_cpu := Some i\<rparr>)))"
  proof -
    have "set [r_at k..<NPROC] \<subseteq> {..<NPROC}" by auto
    from scan_result [OF D(1) this] show ?thesis using that D(3) unfolding upcoming_def by auto
  qed
  show ?thesis
  proof (cases "upcoming k")
    case None
    let ?k = "next_pass (k\<lparr>r_hart := h\<rparr>)"
    have "rr_free ?k" using D(1) h by (simp add: rr_free_def next_pass_def hart_ok_def)
    moreover have "sp_state (sproc_of k j) \<noteq> RUNNING" if "j < NPROC" for j using D(5) [OF that] k(2) by simp
    moreover have "sp_state (sproc_of k j) \<in> {RUNNABLE, SLEEPING} \<longrightarrow> sp_resume (sproc_of k j) \<noteq> Nowhere"
      if "j < NPROC" for j using D(9) [OF that] by simp
    ultimately have "rr_holds None ?k" using k D(2) h by (simp add: rr_holds_def next_pass_def)
    moreover have "rr_turn k ?k" using k(2) None by (simp add: rr_turn_def next_pass_def log_of_def)
    ultimately show ?thesis using s None by (auto simp: scheduler_def)
  next
    case (Some i)
    let ?u = "(upd i (\<lambda>p. p\<lparr>sp_lock := held, sp_state := RUNNING\<rparr>) (k\<lparr>r_hart := push_off h\<rparr>))\<lparr>r_cpu := Some i\<rparr>"
    let ?d = "(log_dispatch i ?u)\<lparr>r_at := i\<rparr>"
    have i: "i < NPROC" "sp_state (sproc_of k i) = RUNNABLE"
      using Some by (auto simp: upcoming_def find_Some_iff)
    have "\<exists>L k'. resume i ?d = Ok k' \<and> rr_holds L k' \<and> r_cpu k' = Some i \<and> log_of k' = log_of ?d \<and>
      (\<forall>j < NPROC. sp_pid (sproc_of k' j) = sp_pid (sproc_of k j) \<and>
         sp_state (sproc_of k' j) = (if j = i then RUNNING else sp_state (sproc_of k j)))"
      by (rule resume_holds [OF k i]) (use i(1) D(10) h in \<open>simp_all add: upd_nth\<close>)
    then obtain L k' where k': "resume i ?d = Ok k'" "rr_holds L k'" "r_cpu k' = Some i" "log_of k' = log_of ?d"
      "\<forall>j < NPROC. sp_pid (sproc_of k' j) = sp_pid (sproc_of k j) \<and>
         sp_state (sproc_of k' j) = (if j = i then RUNNING else sp_state (sproc_of k j))" by blast
    have "log_of ?d = log_of (log_dispatch i ?u)" by (simp add: log_of_def)
    also have "\<dots> = log_of (log_dispatch i k)"
      by (rule log_dispatch_cong) (simp_all add: log_of_def upd_nth)
    finally have "rr_turn k k'" using k'(3-5) Some by (simp add: rr_turn_def)
    then show ?thesis using s Some k'(1,2) by (auto simp: scheduler_def)
  qed
qed

section \<open>Every event\<close>

lemma startlog_calm: "hart_ok (r_hart k) \<Longrightarrow> calm k (snd (sys_startlog k))"
  using rr_calm_refl [of k] by (cases "r_numLog k = 0") (auto simp: sys_startlog_def calm_def)

lemma rstep_ok:
  assumes "rr_ok k" and "rlegal e k"
  shows "\<exists>k'. rexec e k = Ok k' \<and> rr_ok k' \<and> (if e = RSchedule then rr_turn k k' else rr_rest k k')"
proof -
  obtain L where L: "rr_holds L k" using assms(1) by (auto simp: rr_ok_def)
  note D = rr_holdsD [OF L]
  have free: "L = None" if "noff (r_hart k) = 0" using D(3) that by (simp split: if_splits)
  have calm: "rr_ok k' \<and> rr_rest k k'" if "calm k k'" for k'
    using calm_holds [OF L that] calm_rest [OF L that] by (auto simp: rr_ok_def)
  show ?thesis
  proof (cases e)
    case RSchedule
    then have "r_cpu k = None" "rr_holds None k" using assms(2) D(4) L by auto
    from scheduler_holds [OF this(2,1)] show ?thesis using RSchedule by (auto simp: rr_ok_def)
  next
    case RYield
    then obtain i where "r_cpu k = Some i" "rr_holds None k" using assms(2) free L by auto
    from yield_holds [OF this(2,1)] show ?thesis using RYield by (auto simp: rr_ok_def)
  next
    case (RLock l)
    then have "r_cpu k \<noteq> None" "rr_holds None k" using assms(2) free L by auto
    from lock_holds [OF this(2,1), of l] show ?thesis using RLock by (auto simp: rr_ok_def)
  next
    case (RUnlock l)
    then have "rr_holds (Some l) k" using assms(2) holds_lock [OF L, of l] L by simp
    from unlock_holds [OF this] show ?thesis using RUnlock by (auto simp: rr_ok_def)
  next
    case (RSleep ch l)
    then obtain i where "rr_holds (Some l) k" "r_cpu k = Some i"
      using assms(2) holds_lock [OF L, of l] L by auto
    from sleep_holds [OF this, of ch] show ?thesis using RSleep by (auto simp: rr_ok_def)
  next
    case (RWakeup ch)
    then show ?thesis using wakeup_calm [OF D(1), of ch] calm by auto
  next
    case (RKill pid)
    then show ?thesis using kill_calm [OF D(1), of pid] calm by auto
  next
    case (RExit st)
    then obtain i where "r_cpu k = Some i" "rr_holds None k" using assms(2) free L by auto
    from exit_holds [OF this(2,1), of st] show ?thesis using RExit by (auto simp: rr_ok_def)
  next
    case (RNice n)
    then obtain i where "r_cpu k = Some i" using assms(2) by auto
    from nice_holds [OF L this, of n] show ?thesis using RNice calm by auto
  next
    case RStartlog
    then show ?thesis using startlog_calm [OF D(11)] calm by auto
  qed
qed

end
