(* ===== verification/Rr_Props.thy ===== *)
theory Rr_Props
  imports Rr_Machine
begin

text \<open>
  Properties of the round robin kernel over every sequence of legal events: it never panics, a
  runnable process waits at most one pass over the table, the log is the sequence of context
  switches without repetitions, and \<^verbatim>\<open>sys_startlog\<close> never starts anything.
\<close>

section \<open>Runs\<close>

text \<open>The process an event has put on the CPU, with its pid.\<close>

definition dispatched :: "revent \<Rightarrow> rr \<Rightarrow> (nat \<times> int) list" where
  "dispatched e k =
     (if e = RSchedule then
        (case r_cpu k of None \<Rightarrow> [] | Some i \<Rightarrow> [(i, sp_pid (sproc_of k i))])
      else [])"

fun rrun :: "revent list \<Rightarrow> rr \<Rightarrow> ((nat \<times> int) list \<times> rr) res" where
  "rrun [] k = Ok ([], k)"
| "rrun (e # es) k =
     (if rlegal e k then
        bind_res (rexec e k) (\<lambda>k'.
        bind_res (rrun es k') (\<lambda>(d, k''). Ok (dispatched e k' @ d, k'')))
      else Panic ''illegal event'')"

text \<open>How many turns of the scheduler may pass a process by when the scheduler stands at \<open>c\<close>.\<close>

definition passes :: "nat \<Rightarrow> nat \<Rightarrow> nat" where
  "passes i c = (if c \<le> i then i - c else NPROC - c + 1 + i)"

lemma passes_le: "i < NPROC \<Longrightarrow> c \<le> NPROC \<Longrightarrow> passes i c \<le> NPROC"
  by (cases "c \<le> i") (simp_all add: passes_def)

lemma rrun_Cons:
  assumes "rr_ok k" and "rrun (e # es) k = Ok (d, k'')"
  obtains k' d' where "rlegal e k" "rexec e k = Ok k'" "rr_ok k'" "rrun es k' = Ok (d', k'')"
    "d = dispatched e k' @ d'" "if e = RSchedule then rr_turn k k' else rr_rest k k'"
proof -
  have e: "rlegal e k" using assms(2) by (cases "rlegal e k") auto
  from rstep_ok [OF assms(1) e] obtain k' where k': "rexec e k = Ok k'" "rr_ok k'"
    "if e = RSchedule then rr_turn k k' else rr_rest k k'" by blast
  from assms(2) e k'(1) obtain d' where "rrun es k' = Ok (d', k'')" "d = dispatched e k' @ d'"
    by (auto simp: bind_res_Ok_iff)
  with e k' show ?thesis using that by blast
qed

lemma rrun_safe:
  "rr_ok k \<Longrightarrow> (\<exists>d k'. rrun es k = Ok (d, k') \<and> rr_ok k') \<or> rrun es k = Panic ''illegal event''"
proof (induction es arbitrary: k)
  case (Cons e es)
  show ?case
  proof (cases "rlegal e k")
    case True
    from rstep_ok [OF Cons.prems True] obtain k' where "rexec e k = Ok k'" "rr_ok k'" by blast
    then show ?thesis using Cons.IH [of k'] True by auto
  qed simp
qed simp

section \<open>Waiting\<close>

lemma turn_passes:
  assumes k: "rr_ok k" "r_cpu k = None" "rr_turn k k'" "rr_ok k'"
    and i: "i < NPROC" "sp_state (sproc_of k i) = RUNNABLE" "r_cpu k' \<noteq> Some i"
  shows "passes i (cursor k') < passes i (cursor k) \<and> sp_state (sproc_of k' i) = RUNNABLE"
proof (cases "upcoming k")
  case None
  then have "i < r_at k" using i by (auto simp: upcoming_def find_None_iff)
  moreover have "r_at k \<le> NPROC" using k(1) rr_holdsD(8) by (auto simp: rr_ok_def)
  moreover have "r_cpu k' = None" "r_at k' = 0" "sp_state (sproc_of k' i) = RUNNABLE"
    using k(3) None i by (auto simp: rr_turn_def)
  ultimately show ?thesis using k(2) by (simp add: cursor_def passes_def)
next
  case (Some j)
  then have j: "r_at k \<le> j" "j < NPROC" "\<forall>m. r_at k \<le> m \<and> m < j \<longrightarrow> sp_state (sproc_of k m) \<noteq> RUNNABLE"
    by (auto simp: upcoming_def find_Some_iff less_diff_conv2)
      (metis add.commute add_diff_cancel_left' diff_less_mono le_Suc_ex)
  have c: "r_cpu k' = Some j" "sp_state (sproc_of k' i) = RUNNABLE"
    using k(3) Some i by (auto simp: rr_turn_def)
  then have "i \<noteq> j" using i(3) by auto
  moreover have "\<not> (r_at k \<le> i \<and> i < j)" using j(3) i(2) by blast
  ultimately show ?thesis using k(2) j(1,2) c by (auto simp: cursor_def passes_def)
qed

lemma run_passes:
  assumes "rr_ok k" and "i < NPROC" and "sp_state (sproc_of k i) = RUNNABLE"
    and "rrun es k = Ok (d, k')" and "i \<notin> fst ` set d"
  shows "count_list es RSchedule + passes i (cursor k') \<le> passes i (cursor k)"
  using assms
proof (induction es arbitrary: k d)
  case (Cons e es)
  from rrun_Cons [OF Cons.prems(1,4)] obtain k1 d1 where k1: "rlegal e k" "rr_ok k1" "rrun es k1 = Ok (d1, k')"
    "d = dispatched e k1 @ d1" "if e = RSchedule then rr_turn k k1 else rr_rest k k1" by metis
  have d1: "i \<notin> fst ` set d1" using Cons.prems(5) k1(4) by auto
  show ?case
  proof (cases "e = RSchedule")
    case True
    then have "r_cpu k1 \<noteq> Some i" using Cons.prems(5) k1(4) by (auto simp: dispatched_def)
    then have "passes i (cursor k1) < passes i (cursor k) \<and> sp_state (sproc_of k1 i) = RUNNABLE"
      using turn_passes [OF Cons.prems(1) _ _ k1(2) Cons.prems(2,3)] k1(1,5) True by simp
    then show ?thesis using Cons.IH [OF k1(2) Cons.prems(2) _ k1(3) d1] True by simp
  next
    case False
    then have "cursor k1 = cursor k" "sp_state (sproc_of k1 i) = RUNNABLE"
      using k1(5) Cons.prems(2,3) by (auto simp: rr_rest_def)
    then show ?thesis using Cons.IH [OF k1(2) Cons.prems(2) _ k1(3) d1] False by simp
  qed
qed simp

section \<open>The log\<close>

definition log_inv :: "int list \<Rightarrow> logentry list \<times> int \<times> int \<Rightarrow> bool" where
  "log_inv D s \<longleftrightarrow> (case s of (es, n, lp) \<Rightarrow>
     0 \<le> n \<and> n \<le> int LOG_SIZE \<and> length es = LOG_SIZE \<and>
     map le_pid (take (nat n) es) = take LOG_SIZE (remdups_adj D) \<and>
     (n < int LOG_SIZE \<longrightarrow> lp = (if D = [] then 0 else last D)))"

lemma remdups_adj_snoc:
  "remdups_adj (xs @ [x]) = (if xs \<noteq> [] \<and> last xs = x then remdups_adj xs else remdups_adj xs @ [x])"
  by (cases xs rule: rev_cases) (simp_all add: remdups_adj_append_two)

lemma log_inv_dispatch:
  assumes k: "log_inv D (log_of k)" and p: "sp_pid (sproc_of k i) = p" "p \<noteq> 0"
  shows "log_inv (D @ [p]) (log_of (log_dispatch i k))"
proof -
  define n where "n = nat (r_numLog k)"
  have I: "r_numLog k = int n" "n \<le> LOG_SIZE" "length (r_schedlog k) = LOG_SIZE"
    "map le_pid (take n (r_schedlog k)) = take LOG_SIZE (remdups_adj D)"
    "n < LOG_SIZE \<Longrightarrow> r_lastProcessId k = (if D = [] then 0 else last D)"
    using k by (auto simp: log_inv_def log_of_def n_def)
  have len: "n = min (length (remdups_adj D)) LOG_SIZE"
    using arg_cong [OF I(4), of length] I(2,3) by simp
  show ?thesis
  proof (cases "n < LOG_SIZE")
    case False
    then have "take LOG_SIZE (remdups_adj (D @ [p])) = take LOG_SIZE (remdups_adj D)"
      using len by (simp add: remdups_adj_snoc)
    then show ?thesis using False I by (simp add: log_inv_def log_of_def log_dispatch_def Let_def)
  next
    case True
    then have t: "take LOG_SIZE (remdups_adj D) = remdups_adj D" "length (remdups_adj D) = n" using len by auto
    have lp: "r_lastProcessId k = p \<longleftrightarrow> D \<noteq> [] \<and> last D = p" using I(5) [OF True] p(2) by auto
    show ?thesis
    proof (cases "r_lastProcessId k = p")
      case same: True
      then show ?thesis
        using I t lp p(1) by (simp add: log_inv_def log_of_def log_dispatch_def Let_def remdups_adj_snoc)
    next
      case False
      have "take (Suc n) ((r_schedlog k)[n := e]) = take n (r_schedlog k) @ [e]" for e
        using True I(3) by (simp add: take_Suc_conv_app_nth)
      then show ?thesis
        using False True I t lp p(1)
        by (simp add: log_inv_def log_of_def log_dispatch_def Let_def remdups_adj_snoc nat_add_distrib)
    qed
  qed
qed

lemma run_log:
  assumes "rr_ok k" and "log_inv D (log_of k)" and "rrun es k = Ok (d, k')" and "0 \<notin> snd ` set d"
  shows "log_inv (D @ map snd d) (log_of k') \<and> (r_cpu k = None \<and> d = [] \<longrightarrow> r_cpu k' = None)"
  using assms
proof (induction es arbitrary: k d D)
  case Nil
  then show ?case by simp
next
  case (Cons e es)
  from rrun_Cons [OF Cons.prems(1,3)] obtain k1 d1 where k1: "rlegal e k" "rr_ok k1" "rrun es k1 = Ok (d1, k')"
    "d = dispatched e k1 @ d1" "if e = RSchedule then rr_turn k k1 else rr_rest k k1" by metis
  have z: "0 \<notin> snd ` set d1" "0 \<notin> snd ` set (dispatched e k1)" using Cons.prems(4) k1(4) by auto
  have "log_inv (D @ map snd (dispatched e k1)) (log_of k1) \<and>
      (r_cpu k = None \<and> dispatched e k1 = [] \<longrightarrow> r_cpu k1 = None)"
  proof (cases "e = RSchedule")
    case False
    then show ?thesis using k1(5) Cons.prems(2) by (simp add: rr_rest_def dispatched_def)
  next
    case True
    then have t: "rr_turn k k1" using k1(5) by simp
    show ?thesis
    proof (cases "upcoming k")
      case None
      then show ?thesis using t Cons.prems(2) by (simp add: rr_turn_def dispatched_def)
    next
      case (Some i)
      have i: "i < NPROC" using Some by (auto simp: upcoming_def find_Some_iff)
      have c: "r_cpu k1 = Some i" "log_of k1 = log_of (log_dispatch i k)" "sp_pid (sproc_of k1 i) = sp_pid (sproc_of k i)"
        using t Some i by (simp_all add: rr_turn_def)
      then have "sp_pid (sproc_of k i) \<noteq> 0" using z(2) True by (auto simp: dispatched_def)
      then have "log_inv (D @ [sp_pid (sproc_of k i)]) (log_of (log_dispatch i k))"
        using log_inv_dispatch [OF Cons.prems(2)] by blast
      then show ?thesis using True c by (simp add: dispatched_def)
    qed
  qed
  then show ?case
    using Cons.IH [OF k1(2) _ k1(3) z(1), of "D @ map snd (dispatched e k1)"] k1(4) by auto
qed

section \<open>Properties\<close>

text \<open>
  C17: Round robin waiting. From any state between two events in which process \<open>i\<close> is runnable,
  and along every sequence of legal events, the scheduler runs \<open>i\<close> before it has had more turns
  than \<open>passes\<close> allows from where it stands in the table, and that is at most \<^verbatim>\<open>NPROC\<close>: yields,
  sleeps, wakeups, kills, exits and priorities set by other processes cannot delay it further.
\<close>

theorem round_robin_waiting:
  assumes "rr_ok k" and "i < NPROC" and "sp_state (sproc_of k i) = RUNNABLE"
    and "rrun es k = Ok (d, k')" and "passes i (cursor k) < count_list es RSchedule"
  shows "i \<in> fst ` set d \<and> passes i (cursor k) \<le> NPROC"
proof
  show "i \<in> fst ` set d" using run_passes [OF assms(1-4)] assms(5) by linarith
  obtain L where L: "rr_holds L k" using assms(1) by (auto simp: rr_ok_def)
  have "cursor k \<le> NPROC"
    using rr_holdsD(6,8) [OF L] by (cases "r_cpu k") (simp_all add: cursor_def Suc_leI)
  then show "passes i (cursor k) \<le> NPROC" using passes_le assms(2) by blast
qed

text \<open>
  C18: The scheduling log. Started with an empty log, after any sequence of legal events the log
  holds the pids of the processes that were put on the CPU, in order, with immediate repetitions
  left out and cut off at \<^verbatim>\<open>LOG_SIZE\<close> entries; \<^verbatim>\<open>numLog\<close> is their number.
\<close>

theorem schedlog_records:
  assumes "rr_ok k" and "r_numLog k = 0" and "r_lastProcessId k = 0" and "length (r_schedlog k) = LOG_SIZE"
    and "rrun es k = Ok (d, k')" and "0 \<notin> snd ` set d"
  shows "map le_pid (take (nat (r_numLog k')) (r_schedlog k')) = take LOG_SIZE (remdups_adj (map snd d)) \<and>
    nat (r_numLog k') = min (length (remdups_adj (map snd d))) LOG_SIZE"
proof -
  have "log_inv [] (log_of k)" using assms(2-4) by (simp add: log_inv_def log_of_def)
  from run_log [OF assms(1) this assms(5,6)]
  have *: "map le_pid (take (nat (r_numLog k')) (r_schedlog k')) = take LOG_SIZE (remdups_adj (map snd d))"
    "length (r_schedlog k') = LOG_SIZE" "r_numLog k' \<le> int LOG_SIZE"
    by (auto simp: log_inv_def log_of_def)
  have "length (map le_pid (take (nat (r_numLog k')) (r_schedlog k'))) = length (take LOG_SIZE (remdups_adj (map snd d)))"
    by (simp only: *(1))
  then have "min LOG_SIZE (nat (r_numLog k')) = min (length (remdups_adj (map snd d))) LOG_SIZE"
    by (simp add: *(2))
  moreover have "min LOG_SIZE (nat (r_numLog k')) = nat (r_numLog k')" using *(3) by simp
  ultimately show ?thesis using *(1) by (auto simp only:)
qed

text \<open>
  C40: \<^verbatim>\<open>sys_startlog\<close> never starts the log. Since the scheduler writes the log from the start, the
  process that makes the call is in it already: in every state that is reached from an idle
  kernel with an empty log and in which a process runs, \<^verbatim>\<open>sys_startlog\<close> returns \<open>-1\<close>.
\<close>

theorem startlog_never_starts:
  assumes "rr_ok k" and "r_cpu k = None" and "r_numLog k = 0" and "r_lastProcessId k = 0"
    and "length (r_schedlog k) = LOG_SIZE" and "rrun es k = Ok (d, k')" and "0 \<notin> snd ` set d"
    and "r_cpu k' \<noteq> None"
  shows "sys_startlog k' = (-1, k')"
proof -
  have "log_inv [] (log_of k)" using assms(3-5) by (simp add: log_inv_def log_of_def)
  from run_log [OF assms(1) this assms(6,7)]
  have *: "map le_pid (take (nat (r_numLog k')) (r_schedlog k')) = take LOG_SIZE (remdups_adj (map snd d))" "d \<noteq> []"
    using assms(2,8) by (auto simp: log_inv_def log_of_def)
  then have "remdups_adj (map snd d) \<noteq> []" by (simp add: remdups_adj_Nil_iff)
  with *(1) have "r_numLog k' \<noteq> 0" by auto
  then show ?thesis by (simp add: sys_startlog_def)
qed

section \<open>An example\<close>

text \<open>Two processes that have never run, and the scheduler at the start of a pass.\<close>

definition new_sproc :: "procstate \<Rightarrow> int \<Rightarrow> sproc" where
  "new_sproc st pid = \<lparr>sp_lock = initlock, sp_state = st, sp_chan = NoChan, sp_killed = 0, sp_xstate = 0,
     sp_pid = pid, sp_nice = 0, sp_parent = None, sp_kstack = 0, sp_sz = 0, sp_pagetable = None,
     sp_trapframe = None, sp_resume = Forkret, sp_ofile = replicate NOFILE None, sp_cwd = None, sp_name = []\<rparr>"

definition rr_example :: rr where
  "rr_example = scheduler_start
     \<lparr>r_procs = map (\<lambda>i. if i = 0 then new_sproc RUNNABLE 1 else if i = 1 then new_sproc RUNNABLE 2
        else new_sproc UNUSED 0) [0..<NPROC],
      r_initproc = Some 0, r_locks = (\<lambda>_. initlock),
      r_schedlog = replicate LOG_SIZE \<lparr>le_pid = 0, le_time = 0\<rparr>, r_timer = 0, r_numLog = 0,
      r_lastProcessId = 0, r_at = 0, r_cpu = None, r_hart = \<lparr>noff = 0, intena = False, intr = False\<rparr>\<rparr>"

lemma rr_example_proc:
  "i < NPROC \<Longrightarrow> sproc_of rr_example i = (if i = 0 then new_sproc RUNNABLE 1 else if i = 1 then new_sproc RUNNABLE 2
     else new_sproc UNUSED 0)"
  by (simp add: rr_example_def scheduler_start_def next_pass_def del: upt_Suc upt_rec_numeral)

lemma rr_example_fields:
  "r_cpu rr_example = None" "r_at rr_example = 0" "r_numLog rr_example = 0" "r_lastProcessId rr_example = 0"
  "length (r_schedlog rr_example) = LOG_SIZE" "length (r_procs rr_example) = NPROC"
  "r_locks rr_example l = initlock" "noff (r_hart rr_example) = 0" "hart_ok (r_hart rr_example)"
  by (simp_all add: rr_example_def scheduler_start_def next_pass_def hart_ok_def del: upt_Suc upt_rec_numeral)

lemma rr_example_ok: "rr_ok rr_example"
proof -
  have "rr_holds None rr_example"
    by (auto simp: rr_holds_def rr_free_def rr_example_fields rr_example_proc new_sproc_def)
  then show ?thesis by (auto simp: rr_ok_def)
qed

text \<open>Both processes get their turn: the first is scheduled, yields, and the second is scheduled.\<close>

lemma rr_example_eval:
  "case rrun [RSchedule, RYield, RSchedule] rr_example of
     Ok (d, k) \<Rightarrow> d = [(0, 1), (1, 2)] \<and> r_cpu k = Some 1 | _ \<Rightarrow> False"
  by code_simp

lemma rr_example_run:
  obtains k where "rrun [RSchedule, RYield, RSchedule] rr_example = Ok ([(0, 1), (1, 2)], k)" "r_cpu k = Some 1"
  using rr_example_eval by (auto split: res.splits)

theorem round_robin_waiting_witness:
  "\<exists>k'. rrun [RSchedule, RYield, RSchedule] rr_example = Ok ([(0, 1), (1, 2)], k') \<and>
     1 \<in> fst ` set [(0 :: nat, 1 :: int), (1, 2)] \<and> passes 1 (cursor rr_example) \<le> NPROC"
proof -
  obtain k' where k': "rrun [RSchedule, RYield, RSchedule] rr_example = Ok ([(0, 1), (1, 2)], k')"
    by (rule rr_example_run)
  have "1 \<in> fst ` set [(0 :: nat, 1 :: int), (1, 2)] \<and> passes 1 (cursor rr_example) \<le> NPROC"
    by (rule round_robin_waiting [OF rr_example_ok _ _ k'])
      (simp_all add: rr_example_proc new_sproc_def rr_example_fields cursor_def passes_def)
  with k' show ?thesis by blast
qed

theorem schedlog_records_witness:
  "\<exists>k'. rrun [RSchedule, RYield, RSchedule] rr_example = Ok ([(0, 1), (1, 2)], k') \<and>
     map le_pid (take (nat (r_numLog k')) (r_schedlog k')) = [1, 2] \<and> nat (r_numLog k') = 2"
proof -
  obtain k' where k': "rrun [RSchedule, RYield, RSchedule] rr_example = Ok ([(0, 1), (1, 2)], k')"
    by (rule rr_example_run)
  have "map le_pid (take (nat (r_numLog k')) (r_schedlog k')) = take LOG_SIZE (remdups_adj (map snd [(0 :: nat, 1), (1, 2)])) \<and>
      nat (r_numLog k') = min (length (remdups_adj (map snd [(0 :: nat, 1 :: int), (1, 2)]))) LOG_SIZE"
    by (rule schedlog_records [OF rr_example_ok _ _ _ k']) (simp_all add: rr_example_fields)
  moreover have "take LOG_SIZE (remdups_adj (map snd [(0 :: nat, 1 :: int), (1, 2)])) = [1, 2]"
    "min (length (remdups_adj (map snd [(0 :: nat, 1 :: int), (1, 2)]))) LOG_SIZE = 2" by simp_all
  ultimately show ?thesis using k' by metis
qed

theorem startlog_never_starts_witness:
  "\<exists>k'. rrun [RSchedule, RYield, RSchedule] rr_example = Ok ([(0, 1), (1, 2)], k') \<and> sys_startlog k' = (-1, k')"
proof -
  obtain k' where k': "rrun [RSchedule, RYield, RSchedule] rr_example = Ok ([(0, 1), (1, 2)], k')" "r_cpu k' = Some 1"
    by (rule rr_example_run)
  have "sys_startlog k' = (-1, k')"
    by (rule startlog_never_starts [OF rr_example_ok _ _ _ _ k'(1)]) (simp_all add: rr_example_fields k'(2))
  with k'(1) show ?thesis by blast
qed

end
