(* ===== verification/Spec2Isabelle.thy ===== *)
theory Spec2Isabelle
  imports Journal_Liveness Sched_Props Log_Crash Pipe Console Vm_Props Proc_Props Ulib Grep Fs_Content Fs_Path File_Account
    Sh_Print Sh_Run Trap_Props Rr_Props
begin

text \<open>
  The repository holds three programs, and this library models them from their C sources.

  \<^bold>\<open>The metadata journaling service\<close> (\<^verbatim>\<open>Metadata journaling service/\<close>). A file system driver
  submits write requests; three threads hand them on through three circular buffers, each
  guarded by a mutex semaphore and two counting semaphores, and issue the data, journal,
  commit and checkpoint blocks to a block service that completes them by callbacks.

  \<^bold>\<open>A variant of the xv6 kernel\<close> (\<^verbatim>\<open>XV6 Multilevel feedback queue/xv6-riscv/\<close>) with a multilevel
  feedback queue scheduler, its user library and programs. Processes are scheduled from
  three ready queues; system calls reach files through descriptors, file table, inodes,
  the write-ahead log and the buffer cache down to the disk; pipes, the console and the
  UART carry bytes between processes and the terminal; pages of memory come from one
  allocator.

  \<^bold>\<open>Another variant of the kernel\<close> (\<^verbatim>\<open>XV6 Scheduler/xv6-riscv/\<close>) with the round robin scheduler and
  a log of its context switches. Its other files are copies of those of the first variant with
  small changes.

  \<^bold>\<open>Conventions.\<close> A C structure is a record, an enumeration a datatype, an unsigned integer
  that may wrap a machine word or a number reduced modulo the power of two. A kernel
  function that may call \<^verbatim>\<open>panic\<close> returns \<open>'a res\<close> of \<^verbatim>\<open>Prelude\<close> (\<open>Ok\<close> or \<open>Panic\<close> with the
  message). A routine that runs under one spin lock from beginning to end is one step; where
  it gives the lock up in \<^verbatim>\<open>sleep\<close>, each stretch between two sleeps is a step of its own. A
  routine that has to wait for a sleep lock that is taken, or for room in the log, says so
  in its result, and the caller's theorems are about the runs in which it goes on.

  \<^bold>\<open>Theories of the journaling service.\<close>
  \<^item> \<^verbatim>\<open>Journal_Ring\<close>: \<^verbatim>\<open>circ_buff_t\<close>, \<^verbatim>\<open>enqueue\<close>, \<^verbatim>\<open>dequeue\<close> of \<^verbatim>\<open>journal.c\<close>; they implement the
    bounded queue of \<^verbatim>\<open>Fifo_Interface\<close>.
  \<^item> \<^verbatim>\<open>Journal\<close>: the threads of \<^verbatim>\<open>journal.c\<close>, the block service and the driver as a step
    relation; every semaphore operation, buffer operation and block operation is one step.
  \<^item> \<^verbatim>\<open>Journal_Safety\<close>, \<^verbatim>\<open>Journal_Order\<close>, \<^verbatim>\<open>Journal_Liveness\<close>: the semaphores count what the
    buffers hold and mutual exclusion holds; the blocks of a request are issued in the order
    of the protocol; no reachable state is stuck before all requests are through and no run
    is infinite. One theorem exhibits a schedule in which the checkpoint is issued before
    the commit block has been completed.

  \<^bold>\<open>Theories of the scheduler\<close> (\<^verbatim>\<open>kernel/proc.c\<close>, \<^verbatim>\<open>kernel/spinlock.c\<close>).
  \<^item> \<^verbatim>\<open>Proc_Table\<close>, \<^verbatim>\<open>Spinlock\<close>, \<^verbatim>\<open>Sleeplock\<close>: process table, queue table, scheduling log and
    the lock primitives with the nesting of interrupt disabling.
  \<^item> \<^verbatim>\<open>Dll\<close>: doubly linked lists with a header node over any store of links (locale
    \<^verbatim>\<open>link_store\<close>); interpreted for the ready queues in \<^verbatim>\<open>Mlfq\<close> and for the buffer cache's list
    in \<^verbatim>\<open>Bio\<close>.
  \<^item> \<^verbatim>\<open>Mlfq\<close>, \<^verbatim>\<open>Sched\<close>: \<^verbatim>\<open>setupQueue\<close>, \<^verbatim>\<open>enqueue\<close>, \<^verbatim>\<open>removeFromQueue\<close>, \<^verbatim>\<open>dequeue\<close>, \<^verbatim>\<open>scheduler\<close>, \<^verbatim>\<open>sched\<close>,
    \<^verbatim>\<open>yield\<close>, \<^verbatim>\<open>sleep\<close>, \<^verbatim>\<open>wakeup\<close>, \<^verbatim>\<open>kill\<close>, \<^verbatim>\<open>sys_nice\<close>, the priority boost and the log of switches.
  \<^item> \<^verbatim>\<open>Sched_Inv\<close>, \<^verbatim>\<open>Sched_Steps\<close>, \<^verbatim>\<open>Sched_Machine\<close>, \<^verbatim>\<open>Sched_Props\<close>: the kernel as a machine of one
    hart whose events are these operations; the ready queues hold exactly the RUNNABLE
    processes, no legal event panics, and what each operation does.

  \<^bold>\<open>Theories of round robin scheduling.\<close>
  \<^item> \<^verbatim>\<open>Rr\<close>: \<^verbatim>\<open>scheduler\<close>, \<^verbatim>\<open>sched\<close>, \<^verbatim>\<open>yield\<close>, \<^verbatim>\<open>sleep\<close>, \<^verbatim>\<open>wakeup\<close>, \<^verbatim>\<open>kill\<close>, \<^verbatim>\<open>reparent\<close>, the end of \<^verbatim>\<open>exit\<close>,
    \<^verbatim>\<open>sys_startlog\<close> and \<^verbatim>\<open>sys_nice\<close> of \<^verbatim>\<open>kernel/proc.c\<close> in \<^verbatim>\<open>XV6 Scheduler/\<close>; \<open>r_at\<close> is the place the
    scheduler's loop has reached in the process table.
  \<^item> \<^verbatim>\<open>Rr_Machine\<close>, \<^verbatim>\<open>Rr_Props\<close>: the same code as a machine of events that never panics; a runnable
    process waits at most one pass over the table, the log is the sequence of context switches
    without repetitions, and \<^verbatim>\<open>sys_startlog\<close> always finds it started.

  \<^bold>\<open>Theories of the storage stack.\<close>
  \<^item> \<^verbatim>\<open>Cmem\<close>, \<^verbatim>\<open>Bytes\<close>: \<^verbatim>\<open>kernel/string.c\<close> on a byte memory, and little-endian fields of blocks.
  \<^item> \<^verbatim>\<open>Bio\<close>: \<^verbatim>\<open>kernel/bio.c\<close> with its list of buffers, over a disk that records the writes that
    reached it; implements \<^verbatim>\<open>Cache_Interface\<close>.
  \<^item> \<^verbatim>\<open>Log\<close>, \<^verbatim>\<open>Log_Crash\<close>: \<^verbatim>\<open>kernel/log.c\<close>; after a crash at any write of a commit, recovery
    leaves all blocks of the transaction or none, and may itself be interrupted. What \<^verbatim>\<open>begin_op\<close> reserves
    fits a log of more than \<^verbatim>\<open>LOGSIZE\<close> blocks, and not the log that \<^verbatim>\<open>mkfs\<close> makes.
  \<^item> \<^verbatim>\<open>Fs\<close>, \<^verbatim>\<open>Fs_Dir\<close>: \<^verbatim>\<open>kernel/fs.c\<close> from the bitmap to \<^verbatim>\<open>namex\<close>. \<^verbatim>\<open>Txn_Interface\<close> states what a
    file system routine relies on inside a transaction, and \<^verbatim>\<open>Fs_Txn\<close> proves it for log and
    cache. \<^verbatim>\<open>Fs_Alloc\<close>, \<^verbatim>\<open>Fs_Inode\<close>, \<^verbatim>\<open>Fs_Content\<close>, \<^verbatim>\<open>Fs_Path\<close>: the allocator against the set of
    used blocks, inodes through the disk and back, reads, inside and outside
    transactions, against the file as a list of bytes, the inode table and path names.
  \<^item> \<^verbatim>\<open>File\<close>, \<^verbatim>\<open>Sysfile\<close>: \<^verbatim>\<open>kernel/file.c\<close> and the system calls of \<^verbatim>\<open>kernel/sysfile.c\<close>.
    \<^verbatim>\<open>Fs_Account\<close> and \<^verbatim>\<open>File_Account\<close> count open transactions, inode references, inode locks and
    file references on every path through every routine, errors included, and conclude that
    no sequence of calls leaks any of them.

  \<^bold>\<open>Theories of memory and processes.\<close>
  \<^item> \<^verbatim>\<open>Page_Interface\<close>, \<^verbatim>\<open>Kalloc\<close>: the contract of a page allocator and \<^verbatim>\<open>kernel/kalloc.c\<close>, whose
    free list runs through the free pages themselves.
  \<^item> \<^verbatim>\<open>Vm\<close>: \<^verbatim>\<open>kernel/vm.c\<close> over the same byte memory; page tables are bytes in pages. \<^verbatim>\<open>Vm_Tree\<close>
    reads a three-level table as a tree of pages with a lookup function, \<^verbatim>\<open>Vm_Map\<close>, \<^verbatim>\<open>Vm_User\<close>,
    \<^verbatim>\<open>Vm_Free\<close> and \<^verbatim>\<open>Vm_Copy\<close> prove what mapping, growing, shrinking, freeing and copying do to that
    function and to the free list; \<^verbatim>\<open>Vm_Props\<close> states it.
  \<^item> \<^verbatim>\<open>Proc_Mem\<close>, \<^verbatim>\<open>Process\<close>: the rest of \<^verbatim>\<open>kernel/proc.c\<close>, over a record of process table, memory, open
    files and clock. \<^verbatim>\<open>Proc_Space\<close> is the life of one address space; \<^verbatim>\<open>Proc_Own\<close> says which page
    belongs to whom; \<^verbatim>\<open>Proc_Locks\<close> and \<^verbatim>\<open>Proc_Keep\<close> say what locking and scheduling leave alone;
    \<^verbatim>\<open>Proc_Alloc\<close>, \<^verbatim>\<open>Proc_Fork\<close>, \<^verbatim>\<open>Proc_Wait\<close>, \<^verbatim>\<open>Proc_Life\<close> and \<^verbatim>\<open>Proc_Exit\<close> give the effect of each
    routine on every branch.
  \<^item> \<^verbatim>\<open>Proc_Machine\<close>: these calls, the scheduler's events and user stores as the steps of one machine,
    and its invariant. \<^verbatim>\<open>Proc_Props\<close> concludes that processes are isolated, that the pages of processes, free
    list and open pipes stay the same set, and that no call fails; \<^verbatim>\<open>Proc_Example\<close> is the concrete system these theorems are applied to.
  \<^item> \<^verbatim>\<open>Syscall\<close>, \<^verbatim>\<open>Trap\<close>: \<^verbatim>\<open>kernel/syscall.c\<close>, \<^verbatim>\<open>kernel/sysproc.c\<close> and \<^verbatim>\<open>kernel/trap.c\<close>: arguments out of the trap frame,
    dispatch, the calls on processes, device interrupts, the clock, and the way back to user mode.
    \<^verbatim>\<open>Syscall_Safe\<close> and \<^verbatim>\<open>Trap_Safe\<close> chain the results about the single routines: a trap, for any
    system call but \<^verbatim>\<open>nice\<close>, keeps the invariant of the machine; calls of \<^verbatim>\<open>sysfile.c\<close> are followed to their
    handlers, which \<^verbatim>\<open>Sysfile\<close> models. \<^verbatim>\<open>Trap_Props\<close> states this, and what the timer and \<^verbatim>\<open>sleep\<close> do.

  \<^bold>\<open>Theories of byte streams and user code.\<close>
  \<^item> \<^verbatim>\<open>Word_Ring\<close>: ring buffers with free-running counters that wrap; used by \<^verbatim>\<open>Pipe\<close>
    (\<^verbatim>\<open>kernel/pipe.c\<close>), \<^verbatim>\<open>Uart\<close> (\<^verbatim>\<open>kernel/uart.c\<close>) and \<^verbatim>\<open>Console\<close> (\<^verbatim>\<open>kernel/console.c\<close>), which
    interpret \<^verbatim>\<open>Fifo_Interface\<close> or refine a line editor on lists.
  \<^item> \<^verbatim>\<open>Printf\<close>: \<^verbatim>\<open>kernel/printf.c\<close>, \<^verbatim>\<open>user/printf.c\<close> and \<^verbatim>\<open>procdump\<close>, against an inductive
    definition of the one text that a format and its arguments stand for.
  \<^item> \<^verbatim>\<open>Ulib\<close>, \<^verbatim>\<open>Grep\<close>: \<^verbatim>\<open>user/ulib.c\<close> and \<^verbatim>\<open>user/grep.c\<close>; the system calls they use are parameters.
  \<^item> \<^verbatim>\<open>Sh\<close>, \<^verbatim>\<open>Sh_Parse\<close>, \<^verbatim>\<open>Sh_Print\<close>, \<^verbatim>\<open>Sh_Run\<close>: \<^verbatim>\<open>user/sh.c\<close>. The parser works on positions in the
    line; it returns on every line, the strings it hands out are the words of the line, and it reads
    back every line of its grammar. The executor is compared with a wiring of standard input and
    output that knows no descriptors, for the programs it starts and for the processes that wait for them, and the main loop with the list of lines.

  \<^bold>\<open>Bounds and fuel.\<close> Table sizes are the constants of \<^verbatim>\<open>kernel/param.h\<close>, \<^verbatim>\<open>kernel/fs.h\<close> and the
  sources. Loops over a table recurse on its index; \<^verbatim>\<open>namex\<close> recurses on the length of the path,
  which each call of \<^verbatim>\<open>skipelem\<close> shortens; the loops that wait for a device or walk a linked list
  carry fuel, with a theorem or lemma that the fuel used is enough. The shell's parser recurses at
  most \<open>4 * length line + 4\<close> deep.

  \<^bold>\<open>Not modelled.\<close> Boot and trap assembly, the PLIC and the virtio rings (device registers and
  DMA; the disk appears as the device below the buffer cache), memory fences and the
  parallel execution of several harts, the user programs other than \<^verbatim>\<open>grep\<close> and \<^verbatim>\<open>sh\<close>, and the tests.
  Of \<^verbatim>\<open>XV6 Scheduler/\<close> only the scheduling half of \<^verbatim>\<open>proc.c\<close> is modelled; creating and reaping
  processes there agrees with the other tree up to the ready queues. Not modelled either: \<^verbatim>\<open>exec.c\<close> and
  \<^verbatim>\<open>mkfs.c\<close>.
\<close>

end
